(* ===== verification/Nexus_Prelude.thy ===== *)
theory Nexus_Prelude
  imports Main "HOL-Library.Word" "HOL-Library.Signed_Division" "HOL-Library.Multiset"
begin

text \<open>
  Shared vocabulary of the development.  Unsigned Rust integers are words of their width,
  so that \<open>+\<close>, \<open>-\<close> and \<open>*\<close> wrap as the release profile of the workspace does (it sets no
  overflow checks).  A signed \<open>i64\<close> is an \<open>int\<close> together with the explicit two's-complement
  reduction \<open>s64\<close>; an \<open>i128\<close> is an \<open>int\<close> with \<open>s128\<close>.  Division panics in every profile on a
  zero divisor, and so does \<open>i64::MIN / -1\<close>.  \<open>usize\<close> values that index or count are \<open>nat\<close>.
  The theory also holds the generic facts on saturating arithmetic, on lists emptied by
  \<open>swap_remove\<close> and on histories bounded by \<open>pop_front\<close> that several components share.
\<close>

unbundle bit_operations_syntax

section \<open>Integer types\<close>

type_synonym u8 = "8 word"
type_synonym u16 = "16 word"
type_synonym u32 = "32 word"
type_synonym u64 = "64 word"
type_synonym i64 = int
type_synonym i128 = int

text \<open>A monotonic clock reading (\<open>std::time::Instant\<close>) in nanoseconds.\<close>

type_synonym instant = nat

text \<open>What aborts a Rust computation.\<close>

datatype panic =
  DivideByZero | DivisionOverflow | IndexOutOfBounds | UnwrapOnNone | AssertionFailed

named_theorems range_simps \<open>facts that remove wrap-around under a range hypothesis\<close>
named_theorems frame_simps \<open>fields that an operation leaves as they were\<close>

text \<open>\<open>to_le_bytes\<close>: the least significant byte first.\<close>

definition le_bytes_32 :: "u32 \<Rightarrow> u8 list" where
  "le_bytes_32 w = map (\<lambda>i. ucast (drop_bit (8 * i) w)) [0..<4]"

definition le_bytes_64 :: "u64 \<Rightarrow> u8 list" where
  "le_bytes_64 w = map (\<lambda>i. ucast (drop_bit (8 * i) w)) [0..<8]"

definition le_bytes_i64 :: "i64 \<Rightarrow> u8 list" where
  "le_bytes_i64 x = le_bytes_64 (word_of_int x)"

text \<open>\<open>u16::from_be_bytes\<close> and \<open>to_be_bytes\<close>.\<close>

definition be16 :: "u8 \<Rightarrow> u8 \<Rightarrow> u16" where
  "be16 hi lo = push_bit 8 (ucast hi) OR ucast lo"

definition be16_bytes :: "u16 \<Rightarrow> u8 list" where
  "be16_bytes w = [ucast (drop_bit 8 w), ucast w]"

lemma be16_bytes_inverse [simp]: "be16 (ucast (drop_bit 8 w)) (ucast w) = w"
  by (rule bit_word_eqI) (auto simp: be16_def bit_simps)

lemma be16_bytes_be16 [simp]: "be16_bytes (be16 hi lo) = [hi, lo]"
proof -
  have "\<not> bit lo (8 + n)" for n using bit_imp_le_length [of lo "8 + n"] by auto
  then show ?thesis
    unfolding be16_bytes_def be16_def by (auto intro!: bit_word_eqI simp: bit_simps)
qed

section \<open>Signed 64-bit and 128-bit integers\<close>

abbreviation i64_min :: int where "i64_min \<equiv> - (2 ^ 63)"
abbreviation i64_max :: int where "i64_max \<equiv> 2 ^ 63 - 1"

definition in_i64 :: "int \<Rightarrow> bool" where
  "in_i64 x \<longleftrightarrow> i64_min \<le> x \<and> x \<le> i64_max"

definition s64 :: "int \<Rightarrow> i64" where
  "s64 x = (x + 2 ^ 63) mod 2 ^ 64 - 2 ^ 63"

definition s128 :: "int \<Rightarrow> i128" where
  "s128 x = (x + 2 ^ 127) mod 2 ^ 128 - 2 ^ 127"

lemma s64_id [range_simps]: "in_i64 x \<Longrightarrow> s64 x = x"
  by (simp add: s64_def in_i64_def)

lemma s128_id [range_simps]: "- (2 ^ 127) \<le> x \<Longrightarrow> x < 2 ^ 127 \<Longrightarrow> s128 x = x"
  by (simp add: s128_def)

lemma s64_range: "in_i64 (s64 x)"
proof -
  have "0 \<le> (x + 2 ^ 63) mod 2 ^ 64" "(x + 2 ^ 63) mod 2 ^ 64 < (2 ^ 64 :: int)"
    by simp_all
  then show ?thesis by (simp add: s64_def in_i64_def)
qed

lemma s64_idem [simp]: "s64 (s64 x) = s64 x"
  by (rule s64_id) (rule s64_range)

lemma s64_0 [simp]: "s64 0 = 0" and s64_1 [simp]: "s64 1 = 1"
  by (simp_all add: s64_def)

lemma s64_add_left [simp]: "s64 (s64 x + y) = s64 (x + y)"
proof -
  have "(s64 x + y + 2 ^ 63) mod 2 ^ 64 = ((x + 2 ^ 63) mod 2 ^ 64 + y) mod (2 ^ 64 :: int)"
    by (simp add: s64_def)
  also have "\<dots> = (x + y + 2 ^ 63) mod 2 ^ 64"
    by (simp only: mod_add_left_eq) (simp add: ac_simps)
  finally show ?thesis by (simp add: s64_def)
qed

lemma s64_add_right [simp]: "s64 (x + s64 y) = s64 (x + y)"
  using s64_add_left [of y x] by (simp add: add.commute)

lemma sint_in_i64 [simp]: "in_i64 (sint (w :: u64))"
  using sint_greater_eq [of w] sint_less [of w] by (simp add: in_i64_def)

lemma in_i64_0 [simp]: "in_i64 0"
  by (simp add: in_i64_def)

text \<open>\<open>i64::checked_add\<close>, \<open>checked_sub\<close>, \<open>saturating_add\<close> and \<open>saturating_sub\<close>.\<close>

definition i64_checked_add :: "i64 \<Rightarrow> i64 \<Rightarrow> i64 option" where
  "i64_checked_add a b = (if in_i64 (a + b) then Some (a + b) else None)"

definition i64_checked_sub :: "i64 \<Rightarrow> i64 \<Rightarrow> i64 option" where
  "i64_checked_sub a b = (if in_i64 (a - b) then Some (a - b) else None)"

definition i64_clamp :: "int \<Rightarrow> i64" where
  "i64_clamp x = max i64_min (min i64_max x)"

definition i64_saturating_add :: "i64 \<Rightarrow> i64 \<Rightarrow> i64" where
  "i64_saturating_add a b = i64_clamp (a + b)"

definition i64_saturating_sub :: "i64 \<Rightarrow> i64 \<Rightarrow> i64" where
  "i64_saturating_sub a b = i64_clamp (a - b)"

lemma i64_clamp_range [simp]: "in_i64 (i64_clamp x)"
  by (simp add: in_i64_def i64_clamp_def)

lemma i64_clamp_id [range_simps]: "in_i64 x \<Longrightarrow> i64_clamp x = x"
  by (simp add: in_i64_def i64_clamp_def)

lemma i64_clamp_mono: "x \<le> y \<Longrightarrow> i64_clamp x \<le> i64_clamp y"
  by (simp add: i64_clamp_def min_def max_def)

text \<open>\<open>i64::abs\<close>: \<open>i64::MIN.abs()\<close> wraps back to \<open>i64::MIN\<close>.\<close>

definition i64_abs :: "i64 \<Rightarrow> i64" where
  "i64_abs x = s64 \<bar>x\<bar>"

lemma i64_abs_id [range_simps]: "in_i64 x \<Longrightarrow> x \<noteq> i64_min \<Longrightarrow> i64_abs x = \<bar>x\<bar>"
  unfolding i64_abs_def by (rule s64_id) (auto simp: in_i64_def)

lemma i64_abs_min [simp]: "i64_abs i64_min = i64_min"
  by (simp add: i64_abs_def s64_def)

lemma i64_abs_min_numeral [simp]: "i64_abs (- 9223372036854775808) = - 9223372036854775808"
  by (simp add: i64_abs_def s64_def)

text \<open>\<open>i64\<close> division: truncates towards zero, panics on 0 and on \<open>MIN / -1\<close>.\<close>

definition i64_div :: "i64 \<Rightarrow> i64 \<Rightarrow> panic + i64" where
  "i64_div a b =
     (if b = 0 then Inl DivideByZero
      else if a = i64_min \<and> b = - 1 then Inl DivisionOverflow
      else Inr (a sdiv b))"

lemma sdiv_nonneg: "0 \<le> a \<Longrightarrow> 0 \<le> b \<Longrightarrow> (a :: int) sdiv b = a div b"
  by (cases "a = 0"; cases "b = 0") (auto simp: signed_divide_int_def)

section \<open>Unsigned words\<close>

definition saturating_sub :: "'a::len word \<Rightarrow> 'a word \<Rightarrow> 'a word" where
  "saturating_sub a b = (if b \<le> a then a - b else 0)"

definition saturating_add :: "'a::len word \<Rightarrow> 'a word \<Rightarrow> 'a word" where
  "saturating_add a b = (if unat a + unat b < 2 ^ LENGTH('a) then a + b else - 1)"

text \<open>\<open>fetch_update\<close> with \<open>checked_sub\<close>, its failure ignored: an underflow keeps the value.\<close>

definition checked_sub_or_keep :: "'a::len word \<Rightarrow> 'a word \<Rightarrow> 'a word" where
  "checked_sub_or_keep a b = (if b \<le> a then a - b else a)"

lemma unat_lt_2p: "unat (w :: 'a::len word) < 2 ^ LENGTH('a)"
  by (rule unsigned_less)

lemma unat_saturating_sub: "unat (saturating_sub a b) = unat a - unat b"
  by (auto simp: saturating_sub_def unat_sub word_le_nat_alt)

lemma unat_add_no_wrap [range_simps]:
  "unat a + unat b < 2 ^ LENGTH('a) \<Longrightarrow> unat (a + b :: 'a::len word) = unat a + unat b"
  by (simp add: unat_add_lem)

lemma unat_inc [range_simps]:
  "unat w + 1 < 2 ^ LENGTH('a) \<Longrightarrow> unat (w + 1 :: 'a::len word) = unat w + 1"
  using unat_add_no_wrap [of w 1] by simp

lemma unat_and_mask: "unat (w AND mask n) = unat w mod 2 ^ n"
proof -
  have "unat (w AND mask n) = take_bit n (unat w)"
    by (simp only: take_bit_eq_mask [symmetric] unsigned_take_bit_eq)
  then show ?thesis by (simp add: take_bit_eq_mod)
qed

lemma unat_saturating_add:
  "unat (saturating_add a b :: 'a::len word) = min (unat a + unat b) (2 ^ LENGTH('a) - 1)"
proof (cases "unat a + unat b < 2 ^ LENGTH('a)")
  case True
  then show ?thesis by (simp add: saturating_add_def unat_add_no_wrap)
next
  case False
  then show ?thesis by (simp add: saturating_add_def unsigned_minus_1_eq_mask mask_eq_exp_minus_1)
qed

lemma unat_checked_sub_or_keep:
  "unat (checked_sub_or_keep a b) = (if unat b \<le> unat a then unat a - unat b else unat a)"
  by (auto simp: checked_sub_or_keep_def unat_sub word_le_nat_alt)

lemma saturating_sub_le: "saturating_sub a b \<le> a"
  by (simp add: word_le_nat_alt unat_saturating_sub)

lemma saturating_add_ge: "a \<le> saturating_add a (b :: 'a::len word)"
proof -
  have "unat a \<le> 2 ^ LENGTH('a) - 1"
    using unat_lt_2p [of a] by linarith
  then show ?thesis by (simp add: word_le_nat_alt unat_saturating_add)
qed

text \<open>\<open>(a as u128 * b as u128 / 10000) as u64\<close>: \<open>b\<close> basis points of \<open>a\<close>.\<close>

definition bps_of :: "u64 \<Rightarrow> u16 \<Rightarrow> u64" where
  "bps_of a b = word_of_nat (unat a * unat b div 10000)"

lemma unat_bps_of:
  assumes "unat b \<le> 10000"
  shows "unat (bps_of a b) = unat a * unat b div 10000"
proof -
  have "unat a * unat b div 10000 \<le> unat a * 10000 div 10000"
    using assms by (intro div_le_mono mult_le_mono2)
  also have "\<dots> < 2 ^ 64"
    using unat_lt_2p [of a] by simp
  finally show ?thesis by (simp add: bps_of_def unsigned_of_nat take_bit_nat_eq_self)
qed

section \<open>Lists\<close>

subsection \<open>\<open>Vec::swap_remove\<close>\<close>

text \<open>Removes the element at an index and moves the last element there; panics out of range.\<close>

definition swap_remove :: "nat \<Rightarrow> 'a list \<Rightarrow> panic + 'a \<times> 'a list" where
  "swap_remove i xs =
     (if i < length xs then Inr (xs ! i, butlast (xs[i := last xs]))
      else Inl IndexOutOfBounds)"

lemma take_swap_removed:
  "i < length xs \<Longrightarrow> take i (butlast (xs[i := last xs])) = take i xs"
  by (simp add: take_butlast min_def)

lemma mset_drop_swap_removed:
  assumes "i < length xs"
  shows "mset (drop i (butlast (xs[i := last xs]))) = mset (drop (Suc i) xs)"
proof (cases "drop (Suc i) xs" rule: rev_cases)
  case Nil
  then have "length xs = Suc i" using assms by simp
  then show ?thesis by simp
next
  case (snoc ys y)
  then have last: "last xs = y"
    by (metis append_is_Nil_conv last_drop last_snoc linorder_not_less drop_eq_Nil not_Cons_self2)
  have "drop i (butlast (xs[i := last xs])) = butlast (drop i (xs[i := last xs]))"
    by (simp add: butlast_drop)
  also have "drop i (xs[i := last xs]) = y # ys @ [y]"
    using assms snoc last by (simp add: Cons_nth_drop_Suc [symmetric])
  finally show ?thesis using snoc by simp
qed

subsection \<open>Histories bounded by \<open>pop_front\<close>\<close>

text \<open>\<open>while q.len() > n { q.pop_front(); }\<close>\<close>

fun pop_front_while_longer :: "nat \<Rightarrow> 'a list \<Rightarrow> 'a list" where
  "pop_front_while_longer n [] = []"
| "pop_front_while_longer n (x # xs) =
     (if n < length (x # xs) then pop_front_while_longer n xs else x # xs)"

lemma pop_front_while_longer_eq: "pop_front_while_longer n xs = drop (length xs - n) xs"
  by (induction n xs rule: pop_front_while_longer.induct) (auto simp: Suc_diff_le)

lemma length_pop_front_while_longer [simp]:
  "length (pop_front_while_longer n xs) = min n (length xs)"
  by (simp add: pop_front_while_longer_eq)

lemma set_pop_front_while_longer: "set (pop_front_while_longer n xs) \<subseteq> set xs"
  by (simp add: pop_front_while_longer_eq set_drop_subset)

end
