(* ===== verification/Lifecycle.thy ===== *)
theory Lifecycle
  imports Nexus_Prelude
begin

text \<open>
  The life of the whole system, \<open>crates/nexus_orchestrator/src/lifecycle/\<close>: the state machine in an
  atomic byte (\<open>global_fsm.rs\<close>), health checks with retries (\<open>health_check_timeout.rs\<close>) and the
  sequence of boot stages (\<open>sequential_boot.rs\<close>).  Whether a timer ran out, and what a check
  answered, are arguments.  The texts of errors are constructors, log output is left out.
\<close>

section \<open>The state machine\<close>

datatype orchestrator_state =
  Bootstrapping | ShadowMode | PreFlightChecks | LiveTrading | GracefulShutdown | CatastrophicHalt

fun state_code :: "orchestrator_state \<Rightarrow> u8" where
  "state_code Bootstrapping = 0"
| "state_code ShadowMode = 1"
| "state_code PreFlightChecks = 2"
| "state_code LiveTrading = 3"
| "state_code GracefulShutdown = 4"
| "state_code CatastrophicHalt = 5"

definition state_of_code :: "u8 \<Rightarrow> orchestrator_state" where
  "state_of_code c =
     (if c = 0 then Bootstrapping
      else if c = 1 then ShadowMode
      else if c = 2 then PreFlightChecks
      else if c = 3 then LiveTrading
      else if c = 4 then GracefulShutdown
      else CatastrophicHalt)"

fun lifecycle_allowed :: "orchestrator_state \<Rightarrow> orchestrator_state \<Rightarrow> bool" where
  "lifecycle_allowed Bootstrapping t = (t = ShadowMode \<or> t = CatastrophicHalt)"
| "lifecycle_allowed ShadowMode t = (t = PreFlightChecks \<or> t = GracefulShutdown \<or> t = CatastrophicHalt)"
| "lifecycle_allowed PreFlightChecks t = (t = LiveTrading \<or> t = ShadowMode \<or> t = CatastrophicHalt)"
| "lifecycle_allowed LiveTrading t = (t = GracefulShutdown \<or> t = CatastrophicHalt)"
| "lifecycle_allowed GracefulShutdown t = (t = CatastrophicHalt)"
| "lifecycle_allowed CatastrophicHalt t = False"

text \<open>The state machine is one atomic byte, every operation on it one atomic step.\<close>

type_synonym lifecycle_fsm = u8

definition new_lifecycle :: lifecycle_fsm where
  "new_lifecycle = state_code Bootstrapping"

definition lifecycle_state :: "lifecycle_fsm \<Rightarrow> orchestrator_state" where
  "lifecycle_state f = state_of_code f"

definition lifecycle_transition ::
  "orchestrator_state \<Rightarrow> orchestrator_state \<Rightarrow> lifecycle_fsm \<Rightarrow> bool \<times> lifecycle_fsm" where
  "lifecycle_transition old new f =
     (if \<not> lifecycle_allowed old new then (False, f)
      else if f = state_code old then (True, state_code new)
      else (False, f))"

definition force_transition :: "orchestrator_state \<Rightarrow> lifecycle_fsm \<Rightarrow> lifecycle_fsm" where
  "force_transition new f = state_code new"

definition lifecycle_live :: "lifecycle_fsm \<Rightarrow> bool" where
  "lifecycle_live f \<longleftrightarrow> lifecycle_state f = LiveTrading"

definition lifecycle_halted :: "lifecycle_fsm \<Rightarrow> bool" where
  "lifecycle_halted f \<longleftrightarrow> lifecycle_state f = CatastrophicHalt \<or> lifecycle_state f = GracefulShutdown"

lemma state_of_state_code [simp]: "state_of_code (state_code s) = s"
  by (cases s) (simp_all add: state_of_code_def)

lemma state_code_eq [simp]: "state_code s = state_code t \<longleftrightarrow> s = t"
  by (metis state_of_state_code)

lemma lifecycle_state_code [simp]: "lifecycle_state (state_code s) = s"
  by (simp add: lifecycle_state_def)

lemma lifecycle_transition_code:
  "lifecycle_transition old new (state_code s) =
     (if lifecycle_allowed old new \<and> s = old then (True, state_code new) else (False, state_code s))"
  by (simp add: lifecycle_transition_def)

text \<open>What any number of threads do to the byte is one sequence of operations.\<close>

datatype lifecycle_op = Transition orchestrator_state orchestrator_state | Force orchestrator_state

fun lifecycle_step :: "lifecycle_op \<Rightarrow> lifecycle_fsm \<Rightarrow> lifecycle_fsm" where
  "lifecycle_step (Transition old new) f = snd (lifecycle_transition old new f)"
| "lifecycle_step (Force new) f = force_transition new f"

text \<open>The states that a sequence of operations passes, the last one first.\<close>

definition lifecycle_history :: "lifecycle_op list \<Rightarrow> orchestrator_state list" where
  "lifecycle_history ops =
     (let fs = fold (\<lambda>op fs. lifecycle_step op (hd fs) # fs) ops [new_lifecycle]
      in map lifecycle_state fs)"

inductive lifecycle_path :: "orchestrator_state list \<Rightarrow> bool" where
  start: "lifecycle_path [Bootstrapping]"
| stay: "lifecycle_path (s # ss) \<Longrightarrow> lifecycle_path (s # s # ss)"
| move: "lifecycle_path (s # ss) \<Longrightarrow> lifecycle_allowed s t \<Longrightarrow> lifecycle_path (t # s # ss)"

lemma lifecycle_path_nonempty: "lifecycle_path ss \<Longrightarrow> ss \<noteq> []"
  by (induction rule: lifecycle_path.induct) simp_all

text \<open>Without a forced transition the states form a path in the table.\<close>

lemma lifecycle_fold_path:
  assumes "\<forall>op\<in>set ops. \<forall>s. op \<noteq> Force s" "lifecycle_path (map lifecycle_state fs)"
    "\<forall>f\<in>set fs. f = state_code (lifecycle_state f)"
  shows "lifecycle_path (map lifecycle_state (fold (\<lambda>op fs. lifecycle_step op (hd fs) # fs) ops fs))"
  using assms
proof (induction ops arbitrary: fs)
  case Nil
  then show ?case by simp
next
  case (Cons op ops)
  obtain old new where op: "op = Transition old new" using Cons.prems(1) by (cases op) auto
  have "map lifecycle_state fs \<noteq> []" by (rule lifecycle_path_nonempty [OF Cons.prems(2)])
  then obtain f fs' where fs: "fs = f # fs'" by (cases fs) auto
  have f: "f = state_code (lifecycle_state f)" using Cons.prems(3) fs by simp
  have step: "lifecycle_step op f = (if lifecycle_allowed old new \<and> lifecycle_state f = old then state_code new else f)"
    using f by (simp add: op lifecycle_transition_def) (metis lifecycle_state_code)
  have "lifecycle_path (map lifecycle_state (lifecycle_step op f # fs))"
    using Cons.prems(2) unfolding step fs by (auto intro: lifecycle_path.intros)
  moreover have "\<forall>g\<in>set (lifecycle_step op f # fs). g = state_code (lifecycle_state g)"
    using Cons.prems(3) unfolding step fs by auto
  ultimately show ?case using Cons.IH [of "lifecycle_step op f # fs"] Cons.prems(1) fs by simp
qed

lemma lifecycle_history_path:
  "\<forall>op\<in>set ops. \<forall>s. op \<noteq> Force s \<Longrightarrow> lifecycle_path (lifecycle_history ops)"
  unfolding lifecycle_history_def Let_def
  by (rule lifecycle_fold_path)
    (simp_all add: new_lifecycle_def lifecycle_path.start lifecycle_state_def state_of_code_def)

text \<open>Live trading is reached through shadow mode and the checks only, and a halt is never left.\<close>

lemma lifecycle_path_live:
  "lifecycle_path ss \<Longrightarrow>
   (LiveTrading \<in> set ss \<longrightarrow> PreFlightChecks \<in> set ss) \<and> (PreFlightChecks \<in> set ss \<longrightarrow> ShadowMode \<in> set ss)"
proof (induction rule: lifecycle_path.induct)
  case (move s ss t)
  then show ?case by (cases s) auto
qed auto

lemma lifecycle_path_halt:
  "lifecycle_path ss \<Longrightarrow> i < j \<Longrightarrow> j < length ss \<Longrightarrow> ss ! j = CatastrophicHalt \<Longrightarrow> ss ! i = CatastrophicHalt"
proof (induction arbitrary: i j rule: lifecycle_path.induct)
  case (stay s ss)
  show ?case
  proof (cases i)
    case 0
    then show ?thesis using stay.IH [of 0 "j - 1"] stay.prems by (cases "j = 1") (auto simp: nth_Cons')
  next
    case (Suc k)
    then show ?thesis using stay.IH [of k "j - 1"] stay.prems by (auto simp: nth_Cons')
  qed
next
  case (move s ss t)
  have "s \<noteq> CatastrophicHalt" using move.hyps by auto
  then show ?case
  proof (cases i)
    case 0
    have "(s # ss) ! (j - 1) = CatastrophicHalt" using move.prems 0 by (auto simp: nth_Cons')
    then have "s = CatastrophicHalt"
      using move.IH [of 0 "j - 1"] move.prems 0 by (cases "j = 1") auto
    then show ?thesis using \<open>s \<noteq> CatastrophicHalt\<close> by simp
  next
    case (Suc k)
    then show ?thesis using move.IH [of k "j - 1"] move.prems by (auto simp: nth_Cons')
  qed
qed simp

text \<open>A forced transition can go anywhere, and out of a halt.\<close>

lemma force_revives: "lifecycle_live (force_transition LiveTrading (state_code CatastrophicHalt))"
  by (simp add: lifecycle_live_def force_transition_def lifecycle_state_def state_of_code_def)

section \<open>Health checks\<close>

text \<open>Durations are milliseconds.\<close>

record health_config =
  default_timeout :: u64
  extended_timeout :: u64
  max_retries :: u32

definition default_health_config :: health_config where
  "default_health_config = \<lparr>default_timeout = 10000, extended_timeout = 30000, max_retries = 3\<rparr>"

definition new_health_config :: "u64 \<Rightarrow> u64 \<Rightarrow> u32 \<Rightarrow> health_config" where
  "new_health_config default_ms extended_ms retries =
     \<lparr>default_timeout = default_ms, extended_timeout = extended_ms, max_retries = retries\<rparr>"

text \<open>The last error of a series is kept instead of its text, \<open>None\<close> for the empty text.\<close>

datatype health_error =
  CheckFailed string string
| CheckTimeout string u64
| MaxRetriesExceeded string u32 "health_error option"

text \<open>What a check does: it answers, or its timer runs out.\<close>

datatype 'a attempt = Answered "string + 'a" | Elapsed

fun timed_check :: "string \<Rightarrow> u64 \<Rightarrow> 'a attempt \<Rightarrow> health_error + 'a" where
  "timed_check name limit (Answered (Inr v)) = Inr v"
| "timed_check name limit (Answered (Inl reason)) = Inl (CheckFailed name reason)"
| "timed_check name limit Elapsed = Inl (CheckTimeout name limit)"

definition execute_single :: "health_config \<Rightarrow> string \<Rightarrow> 'a attempt \<Rightarrow> health_error + 'a" where
  "execute_single hc name a = timed_check name (default_timeout hc) a"

definition execute_extended :: "health_config \<Rightarrow> string \<Rightarrow> 'a attempt \<Rightarrow> health_error + 'a" where
  "execute_extended hc name a = timed_check name (extended_timeout hc) a"

text \<open>One attempt after the other; the result comes with the number of attempts and the pauses.\<close>

fun retry_from ::
  "health_config \<Rightarrow> string \<Rightarrow> (nat \<Rightarrow> 'a attempt) \<Rightarrow> nat \<Rightarrow> nat \<Rightarrow> health_error option \<Rightarrow> u64 list \<Rightarrow>
     (health_error + 'a) \<times> nat \<times> u64 list" where
  "retry_from hc name check attempt 0 last_error waits =
     (Inl (MaxRetriesExceeded name (max_retries hc) last_error), attempt, waits)"
| "retry_from hc name check attempt (Suc n) last_error waits =
     (case execute_single hc name (check attempt) of
        Inr v \<Rightarrow> (Inr v, Suc attempt, waits)
      | Inl e \<Rightarrow> retry_from hc name check (Suc attempt) n (Some e)
          (if attempt < unat (max_retries hc - 1) then waits @ [100 * 2 ^ attempt] else waits))"

definition execute_with_retry ::
  "health_config \<Rightarrow> string \<Rightarrow> (nat \<Rightarrow> 'a attempt) \<Rightarrow> (health_error + 'a) \<times> nat \<times> u64 list" where
  "execute_with_retry hc name check = retry_from hc name check 0 (unat (max_retries hc)) None []"

fun answer :: "'a attempt \<Rightarrow> 'a option" where
  "answer (Answered (Inr v)) = Some v"
| "answer (Answered (Inl _)) = None"
| "answer Elapsed = None"

lemma timed_check_answer: "timed_check name limit a = (case answer a of Some v \<Rightarrow> Inr v | None \<Rightarrow> Inl (case a of
    Answered (Inl reason) \<Rightarrow> CheckFailed name reason | _ \<Rightarrow> CheckTimeout name limit))"
  by (cases "(name, limit, a)" rule: timed_check.cases) simp_all

text \<open>Attempts are made until one succeeds; between two of them there is one pause, twice as long as
  the one before.\<close>

lemma retry_from_result:
  assumes "attempt + n = unat (max_retries hc)"
  shows "(\<forall>k v. (\<forall>i<k. answer (check (attempt + i)) = None) \<longrightarrow> k < n \<longrightarrow> answer (check (attempt + k)) = Some v \<longrightarrow>
           retry_from hc name check attempt n e waits =
             (Inr v, Suc (attempt + k), waits @ map (\<lambda>i. 100 * 2 ^ i) [attempt..<attempt + k])) \<and>
         ((\<forall>i<n. answer (check (attempt + i)) = None) \<longrightarrow>
           (\<exists>e'. retry_from hc name check attempt n e waits =
             (Inl (MaxRetriesExceeded name (max_retries hc) e'), attempt + n,
              waits @ map (\<lambda>i. 100 * 2 ^ i) [attempt..<attempt + n - 1]) \<and> (e' = None \<longrightarrow> n = 0 \<and> e = None)))"
  using assms
proof (induction n arbitrary: attempt e waits)
  case 0
  then show ?case by auto
next
  case (Suc n)
  have "0 < unat (max_retries hc)" using Suc.prems by simp
  then have "max_retries hc \<noteq> 0" by auto
  then have pred: "unat (max_retries hc - 1) = attempt + n"
    using Suc.prems by (simp add: unat_minus_one)
  show ?case
  proof (cases "answer (check attempt)")
    case (Some v)
    then have r: "retry_from hc name check attempt (Suc n) e waits = (Inr v, Suc attempt, waits)"
      by (simp add: execute_single_def timed_check_answer)
    show ?thesis
    proof (intro conjI allI impI)
      fix k w
      assume "\<forall>i<k. answer (check (attempt + i)) = None" "answer (check (attempt + k)) = Some w"
      moreover from this have "k = 0" using Some by (cases k) force+
      ultimately show "retry_from hc name check attempt (Suc n) e waits =
          (Inr w, Suc (attempt + k), waits @ map (\<lambda>i. 100 * 2 ^ i) [attempt..<attempt + k])"
        using r Some by simp
    next
      assume "\<forall>i<Suc n. answer (check (attempt + i)) = None"
      then show "\<exists>e'. retry_from hc name check attempt (Suc n) e waits =
          (Inl (MaxRetriesExceeded name (max_retries hc) e'), attempt + Suc n,
           waits @ map (\<lambda>i. 100 * 2 ^ i) [attempt..<attempt + Suc n - 1]) \<and> (e' = None \<longrightarrow> Suc n = 0 \<and> e = None)"
        using Some by force
    qed
  next
    case None
    then obtain e1 where "execute_single hc name (check attempt) = Inl e1"
      by (simp add: execute_single_def timed_check_answer)
    then have r: "retry_from hc name check attempt (Suc n) e waits =
        retry_from hc name check (Suc attempt) n (Some e1) (if n = 0 then waits else waits @ [100 * 2 ^ attempt])"
      by (simp add: pred)
    note ih = Suc.IH [of "Suc attempt" "Some e1" "if n = 0 then waits else waits @ [100 * 2 ^ attempt]"]
    have shift: "(\<forall>i<Suc k. answer (check (attempt + i)) = None) \<longleftrightarrow> (\<forall>i<k. answer (check (Suc attempt + i)) = None)" for k
      using None by (simp add: All_less_Suc2)
    show ?thesis
    proof (intro conjI allI impI)
      fix k v
      assume a: "\<forall>i<k. answer (check (attempt + i)) = None" "k < Suc n" "answer (check (attempt + k)) = Some v"
      then obtain j where k: "k = Suc j" using None by (cases k) auto
      then show "retry_from hc name check attempt (Suc n) e waits =
          (Inr v, Suc (attempt + k), waits @ map (\<lambda>i. 100 * 2 ^ i) [attempt..<attempt + k])"
        using a Suc.prems ih unfolding k shift r by (cases j) (auto simp: upt_conv_Cons simp del: upt_Suc)
    next
      assume a: "\<forall>i<Suc n. answer (check (attempt + i)) = None"
      then show "\<exists>e'. retry_from hc name check attempt (Suc n) e waits =
          (Inl (MaxRetriesExceeded name (max_retries hc) e'), attempt + Suc n,
           waits @ map (\<lambda>i. 100 * 2 ^ i) [attempt..<attempt + Suc n - 1]) \<and> (e' = None \<longrightarrow> Suc n = 0 \<and> e = None)"
        using Suc.prems ih unfolding shift r by (cases n) (auto simp: upt_conv_Cons simp del: upt_Suc)
    qed
  qed
qed

text \<open>A health check with retries ends after at most the configured number of attempts.  It gives
  the value of the first attempt that succeeds, and counts the attempts up to it; if none does, it
  fails after all of them.  Between two attempts it pauses, each time twice as long, and never
  after the last one.\<close>

lemma execute_with_retry_result:
  "(\<forall>k v. k < unat (max_retries hc) \<longrightarrow> (\<forall>i<k. answer (check i) = None) \<longrightarrow> answer (check k) = Some v \<longrightarrow>
      execute_with_retry hc name check = (Inr v, Suc k, map (\<lambda>i. 100 * 2 ^ i) [0..<k])) \<and>
   ((\<forall>i<unat (max_retries hc). answer (check i) = None) \<longrightarrow>
      (\<exists>e. execute_with_retry hc name check = (Inl (MaxRetriesExceeded name (max_retries hc) e),
         unat (max_retries hc), map (\<lambda>i. 100 * 2 ^ i) [0..<unat (max_retries hc) - 1])))"
  using retry_from_result [of 0 "unat (max_retries hc)" hc check name None "[]"]
  unfolding execute_with_retry_def by fastforce

lemma execute_with_retry_result_example:
  "execute_with_retry default_health_config ''book'' (\<lambda>i. if i < 2 then Elapsed else Answered (Inr (7 :: nat))) =
     (Inr 7, 3, [100, 200])"
proof -
  have m: "unat (max_retries default_health_config) = 3" by (simp add: default_health_config_def)
  have "[0..<2] = [0, Suc 0]" by (simp add: upt_rec)
  then show ?thesis
    using execute_with_retry_result [of default_health_config "\<lambda>i. if i < 2 then Elapsed else Answered (Inr (7 :: nat))" "''book''"]
    unfolding m by (auto dest: spec [of _ 2])
qed

text \<open>A series never fails with the error of a single check; a timer that runs out is reported as
  exhausted retries.\<close>

lemma retry_hides_timeout: "fst (execute_with_retry hc name check) \<noteq> Inl (CheckTimeout name limit)"
proof -
  have "fst (retry_from hc name check a n e ws) \<noteq> Inl (CheckTimeout name limit)" for a n e ws
    by (induction n arbitrary: a e ws) (simp_all split: sum.split)
  then show ?thesis by (simp add: execute_with_retry_def)
qed

section \<open>Booting\<close>

datatype boot_error =
  StageInitializationFailed u8 string
| BootTimeout u8
| OrderBookSyncFailed
| Catastrophic string

datatype boot_stage_result = StageSuccess | StageFailed string | StageTimeout u64

record boot_topology =
  boot_timeout :: u64
  stage_timeout :: u64

definition new_boot_topology :: boot_topology where
  "new_boot_topology = \<lparr>boot_timeout = 120000, stage_timeout = 30000\<rparr>"

text \<open>How every stage turns the outcome of its timed block into a result; \<open>None\<close> if the timer ran out.\<close>

fun stage_result :: "u8 \<Rightarrow> boot_stage_result option \<Rightarrow> boot_error + unit" where
  "stage_result stage (Some StageSuccess) = Inr ()"
| "stage_result stage (Some (StageFailed reason)) = Inl (StageInitializationFailed stage reason)"
| "stage_result stage (Some (StageTimeout _)) = Inl (BootTimeout stage)"
| "stage_result stage None = Inl (BootTimeout stage)"

text \<open>The blocks of the stages hold placeholders for the checks.  \<open>elapsed\<close> tells that the timer of the
  stage ran out.\<close>

definition execute_stage_1_memories :: "bool \<Rightarrow> boot_error + unit" where
  "execute_stage_1_memories elapsed =
     (let arena_check_passed = True;
          block = (if arena_check_passed then StageSuccess else StageFailed ''Memory arena allocation failed'')
      in stage_result 1 (if elapsed then None else Some block))"

definition wait_for_order_book_fully_synced :: "boot_topology \<Rightarrow> bool option \<Rightarrow> boot_stage_result" where
  "wait_for_order_book_fully_synced b received =
     (case received of
        Some True \<Rightarrow> StageSuccess
      | Some False \<Rightarrow> StageFailed ''Order Book Healer reported incomplete sync''
      | None \<Rightarrow> StageTimeout (stage_timeout b))"

text \<open>The spawned task sends its placeholder, whatever the healer of the order book knows.\<close>

definition execute_stage_2_ingestion :: "boot_topology \<Rightarrow> bool \<Rightarrow> boot_error + unit" where
  "execute_stage_2_ingestion b elapsed =
     (let fully_synced = True
      in stage_result 2 (if elapsed then None else Some (wait_for_order_book_fully_synced b (Some fully_synced))))"

definition execute_stage_3_alpha :: "bool \<Rightarrow> boot_error + unit" where
  "execute_stage_3_alpha elapsed =
     (let alpha_check_passed = True;
          block = (if alpha_check_passed then StageSuccess else StageFailed ''Alpha engine initialization failed'')
      in stage_result 3 (if elapsed then None else Some block))"

definition execute_stage_4_risk_oms :: "bool \<Rightarrow> boot_error + unit" where
  "execute_stage_4_risk_oms elapsed =
     (let oms_check_passed = True;
          block = (if oms_check_passed then StageSuccess else StageFailed ''OMS/Risk initialization failed'')
      in stage_result 4 (if elapsed then None else Some block))"

definition execute_boot_sequence ::
  "boot_topology \<Rightarrow> bool \<Rightarrow> bool \<Rightarrow> bool \<Rightarrow> bool \<Rightarrow> lifecycle_fsm \<Rightarrow> (boot_error + unit) \<times> lifecycle_fsm" where
  "execute_boot_sequence b e1 e2 e3 e4 f =
     (case execute_stage_1_memories e1 of Inl e \<Rightarrow> (Inl e, f)
      | Inr _ \<Rightarrow> (case execute_stage_2_ingestion b e2 of Inl e \<Rightarrow> (Inl e, f)
      | Inr _ \<Rightarrow> (case execute_stage_3_alpha e3 of Inl e \<Rightarrow> (Inl e, f)
      | Inr _ \<Rightarrow> (case execute_stage_4_risk_oms e4 of Inl e \<Rightarrow> (Inl e, f)
      | Inr _ \<Rightarrow>
          let (moved, f') = lifecycle_transition Bootstrapping ShadowMode f
          in if \<not> moved
             then (Inl (Catastrophic ''Failed to transition to ShadowMode after successful boot''), f')
             else (Inr (), f')))))"

text \<open>Booting succeeds exactly if no timer runs out and the system is bootstrapping: nothing else is
  looked at.  A failed boot leaves the state as it was, not in a halt.\<close>

lemma boot_result:
  "execute_boot_sequence b e1 e2 e3 e4 (state_code s) =
     (if e1 then (Inl (BootTimeout 1), state_code s)
      else if e2 then (Inl (BootTimeout 2), state_code s)
      else if e3 then (Inl (BootTimeout 3), state_code s)
      else if e4 then (Inl (BootTimeout 4), state_code s)
      else if s = Bootstrapping then (Inr (), state_code ShadowMode)
      else (Inl (Catastrophic ''Failed to transition to ShadowMode after successful boot''), state_code s))"
  by (simp add: execute_boot_sequence_def execute_stage_1_memories_def execute_stage_2_ingestion_def
      execute_stage_3_alpha_def execute_stage_4_risk_oms_def wait_for_order_book_fully_synced_def
      lifecycle_transition_code Let_def)

lemma boot_ignores_total_timeout:
  "execute_boot_sequence (b\<lparr>boot_timeout := 0\<rparr>) e1 e2 e3 e4 f = execute_boot_sequence b e1 e2 e3 e4 f"
proof -
  have "execute_stage_2_ingestion (b\<lparr>boot_timeout := 0\<rparr>) e2 = execute_stage_2_ingestion b e2"
    by (simp add: execute_stage_2_ingestion_def wait_for_order_book_fully_synced_def)
  then show ?thesis by (simp only: execute_boot_sequence_def)
qed

end
