(* ===== verification/Live_Gate.thy ===== *)
theory Live_Gate
  imports Lifecycle Complex_Main
begin

text \<open>
  How the system goes live, \<open>crates/nexus_orchestrator/src/preflight/\<close> and \<open>lib.rs\<close>: the checklist
  (\<open>unanimous_checklist.rs\<close>), the gate that holds the live flag (\<open>live_fire_atomic_gate.rs\<close>), the
  promotion from shadow mode (\<open>shadow_to_live_promoter.rs\<close>), shutdown and halt.  The operations are
  given twice: as functions, and as threads of atomic steps that interleave.  The hash of a
  checklist result and the clock are parameters.
\<close>

section \<open>The checklist\<close>

text \<open>The texts of the checks are constructors.  The limit on the reconciliation drift, an \<open>f64\<close>, is a
  real number: it is compared with zero only, and is not NaN.\<close>

datatype check_message =
  NtpDrift i64 i64 | NtpElevated i64 | NtpExcessive i64 i64
| ReconDrift real real | ReconExceeded real real
| LimitsLoaded | LimitsNotLoaded
| LeaderFenced | FenceNotArmed | NotLeader

datatype check_result = Pass check_message | Fail check_message | Warn check_message

datatype checklist_result =
  UnanimousPass "check_result list"
| CriticalFailure "check_result list"
| PassWithWarnings "check_result list" "check_message list"

fun is_unanimous_pass :: "checklist_result \<Rightarrow> bool" where
  "is_unanimous_pass (UnanimousPass _) = True"
| "is_unanimous_pass _ = False"

fun can_proceed :: "checklist_result \<Rightarrow> bool" where
  "can_proceed (UnanimousPass _) = True"
| "can_proceed (PassWithWarnings _ _) = True"
| "can_proceed (CriticalFailure _) = False"

record checklist =
  max_ntp_drift_ms :: i64
  max_reconciliation_drift_bps :: real

definition default_checklist :: checklist where
  "default_checklist = \<lparr>max_ntp_drift_ms = 50, max_reconciliation_drift_bps = 0\<rparr>"

definition check_ntp_clock_sync :: "checklist \<Rightarrow> check_result" where
  "check_ntp_clock_sync c =
     (let current_drift_ms = 0
      in if i64_abs current_drift_ms \<le> max_ntp_drift_ms c
         then Pass (NtpDrift current_drift_ms (max_ntp_drift_ms c))
         else if i64_abs current_drift_ms \<le> s64 (max_ntp_drift_ms c * 2) then Warn (NtpElevated current_drift_ms)
         else Fail (NtpExcessive current_drift_ms (max_ntp_drift_ms c)))"

definition check_shadow_reconciliation :: "checklist \<Rightarrow> check_result" where
  "check_shadow_reconciliation c =
     (let drift_bps = 0
      in if drift_bps \<le> max_reconciliation_drift_bps c then Pass (ReconDrift drift_bps (max_reconciliation_drift_bps c))
         else Fail (ReconExceeded drift_bps (max_reconciliation_drift_bps c)))"

definition check_risk_gatekeeper_limits :: "checklist \<Rightarrow> check_result" where
  "check_risk_gatekeeper_limits c =
     (let limits_loaded = True in if limits_loaded then Pass LimitsLoaded else Fail LimitsNotLoaded)"

definition check_raft_leadership_stonith :: "checklist \<Rightarrow> check_result" where
  "check_raft_leadership_stonith c =
     (let is_leader = True; stonith_armed = True
      in if is_leader \<and> stonith_armed then Pass LeaderFenced
         else if is_leader \<and> \<not> stonith_armed then Fail FenceNotArmed
         else Fail NotLeader)"

text \<open>Results, failures and warnings are collected check by check.\<close>

fun collect_check ::
  "check_result \<Rightarrow> check_result list \<times> check_result list \<times> check_message list \<Rightarrow>
     check_result list \<times> check_result list \<times> check_message list" where
  "collect_check (Pass m) (results, failures, warnings) = (results @ [Pass m], failures, warnings)"
| "collect_check (Fail m) (results, failures, warnings) = (results @ [Fail m], failures @ [Fail m], warnings)"
| "collect_check (Warn m) (results, failures, warnings) = (results @ [Warn m], failures, warnings @ [m])"

definition judge :: "check_result list \<Rightarrow> checklist_result" where
  "judge rs =
     (let (results, failures, warnings) = fold collect_check rs ([], [], [])
      in if failures \<noteq> [] then CriticalFailure failures
         else if warnings \<noteq> [] then PassWithWarnings results warnings
         else UnanimousPass results)"

definition execute_all_checks :: "checklist \<Rightarrow> checklist_result" where
  "execute_all_checks c =
     judge [check_ntp_clock_sync c, check_shadow_reconciliation c, check_risk_gatekeeper_limits c,
            check_raft_leadership_stonith c]"

fun check_failed :: "check_result \<Rightarrow> bool" where
  "check_failed (Fail _) = True"
| "check_failed _ = False"

fun check_warning :: "check_result \<Rightarrow> check_message option" where
  "check_warning (Warn m) = Some m"
| "check_warning _ = None"

lemma fold_collect_check:
  "fold collect_check rs (results, failures, warnings) =
     (results @ rs, failures @ filter check_failed rs, warnings @ List.map_filter check_warning rs)"
proof (induction rs arbitrary: results failures warnings)
  case (Cons r rs)
  then show ?case by (cases r) (simp_all add: List.map_filter_def)
qed (simp add: List.map_filter_def)

text \<open>The verdict: one failure is critical, one warning is kept, and otherwise the pass is unanimous.\<close>

lemma judge_eq:
  "judge rs =
     (if \<exists>r\<in>set rs. check_failed r then CriticalFailure (filter check_failed rs)
      else if List.map_filter check_warning rs \<noteq> [] then PassWithWarnings rs (List.map_filter check_warning rs)
      else UnanimousPass rs)"
  by (auto simp: judge_def fold_collect_check filter_empty_conv)

lemma judge_can_proceed: "can_proceed (judge rs) \<longleftrightarrow> (\<forall>r\<in>set rs. \<not> check_failed r)"
  by (auto simp: judge_eq)

text \<open>All values that are checked are placeholders, so the answer depends on the configuration only.\<close>

lemma placeholders_always_pass:
  "0 \<le> max_ntp_drift_ms c \<Longrightarrow> 0 \<le> max_reconciliation_drift_bps c \<Longrightarrow>
     is_unanimous_pass (execute_all_checks c)"
  by (simp add: execute_all_checks_def judge_def check_ntp_clock_sync_def check_shadow_reconciliation_def
      check_risk_gatekeeper_limits_def check_raft_leadership_stonith_def i64_abs_def)

section \<open>The gate\<close>

datatype gate_error =
  ChecklistNotPassed | CriticalChecklistFailure | AlreadyEnabled | GateDisabled string | LockdownMode

record checklist_token =
  ct_epoch :: u64
  ct_timestamp_ms :: u64
  ct_result_hash :: u64

definition new_checklist_token :: "(checklist_result \<Rightarrow> u64) \<Rightarrow> u64 \<Rightarrow> u64 \<Rightarrow> checklist_result \<Rightarrow> checklist_token" where
  "new_checklist_token digest now epoch r =
     \<lparr>ct_epoch = epoch, ct_timestamp_ms = now, ct_result_hash = digest r\<rparr>"

record live_gate =
  live_enabled :: bool
  gate_epoch :: u64
  last_valid_token :: "checklist_token option"
  lockdown_mode :: bool

definition new_live_gate :: live_gate where
  "new_live_gate = \<lparr>live_enabled = False, gate_epoch = 0, last_valid_token = None, lockdown_mode = False\<rparr>"

definition try_promote_gate ::
  "(checklist_result \<Rightarrow> u64) \<Rightarrow> u64 \<Rightarrow> checklist_result \<Rightarrow> live_gate \<Rightarrow> (gate_error + checklist_token) \<times> live_gate" where
  "try_promote_gate digest now r g =
     (if lockdown_mode g then (Inl LockdownMode, g)
      else if \<not> can_proceed r then (Inl CriticalChecklistFailure, g)
      else if live_enabled g then (Inl AlreadyEnabled, g)
      else
        let new_epoch = gate_epoch g + 1;
            token = new_checklist_token digest now new_epoch r
        in (Inr token, g\<lparr>gate_epoch := new_epoch, live_enabled := True, last_valid_token := Some token\<rparr>))"

definition disable_live :: "live_gate \<Rightarrow> live_gate" where
  "disable_live g = (if live_enabled g then g\<lparr>live_enabled := False, gate_epoch := gate_epoch g + 1\<rparr> else g)"

definition force_lockdown :: "live_gate \<Rightarrow> live_gate" where
  "force_lockdown g = g\<lparr>live_enabled := False, lockdown_mode := True, gate_epoch := gate_epoch g + 1\<rparr>"

definition execute_if_live :: "('s \<Rightarrow> 'a \<times> 's) \<Rightarrow> live_gate \<Rightarrow> 's \<Rightarrow> (gate_error + 'a) \<times> 's" where
  "execute_if_live f g s =
     (if \<not> live_enabled g then (Inl (GateDisabled ''Live trading not enabled''), s)
      else if lockdown_mode g then (Inl LockdownMode, s)
      else map_prod Inr id (f s))"

text \<open>A checklist result can be made up: the gate opens without a checklist having been run.\<close>

lemma gate_opens_without_checks:
  "live_enabled (snd (try_promote_gate digest now (UnanimousPass []) new_live_gate))"
  by (simp add: try_promote_gate_def new_live_gate_def Let_def)

section \<open>Promotion, shutdown and halt\<close>

datatype promoter_error =
  NotInShadowMode orchestrator_state
| ChecklistFailed nat
| GateEnableFailed gate_error
| TransitionFailed
| CatastrophicState

record orchestrator =
  or_fsm :: lifecycle_fsm
  or_gate :: live_gate

definition new_orchestrator :: orchestrator where
  "new_orchestrator = \<lparr>or_fsm = new_lifecycle, or_gate = new_live_gate\<rparr>"

definition or_move :: "orchestrator_state \<Rightarrow> orchestrator_state \<Rightarrow> orchestrator \<Rightarrow> orchestrator" where
  "or_move old new s = s\<lparr>or_fsm := snd (lifecycle_transition old new (or_fsm s))\<rparr>"

definition promote_to_live ::
  "(checklist_result \<Rightarrow> u64) \<Rightarrow> u64 \<Rightarrow> checklist_result \<Rightarrow> orchestrator \<Rightarrow> (promoter_error + unit) \<times> orchestrator" where
  "promote_to_live digest now r s =
     (let current = lifecycle_state (or_fsm s) in
      if current \<noteq> ShadowMode then (Inl (NotInShadowMode current), s)
      else
        let (claimed, f1) = lifecycle_transition ShadowMode PreFlightChecks (or_fsm s);
            s1 = s\<lparr>or_fsm := f1\<rparr>
        in if \<not> claimed then (Inl TransitionFailed, s1)
           else case r of
             CriticalFailure failures \<Rightarrow> (Inl (ChecklistFailed (length failures)), or_move PreFlightChecks ShadowMode s1)
           | _ \<Rightarrow>
               case try_promote_gate digest now r (or_gate s1) of
                 (Inl e, g) \<Rightarrow> (Inl (GateEnableFailed e), or_move PreFlightChecks ShadowMode (s1\<lparr>or_gate := g\<rparr>))
               | (Inr _, g) \<Rightarrow>
                   let (moved, f2) = lifecycle_transition PreFlightChecks LiveTrading (or_fsm s1);
                       s2 = s1\<lparr>or_gate := g, or_fsm := f2\<rparr>
                   in if \<not> moved then (Inl TransitionFailed, s2\<lparr>or_gate := disable_live (or_gate s2)\<rparr>)
                      else (Inr (), s2))"

definition abort_promotion :: "orchestrator \<Rightarrow> orchestrator" where
  "abort_promotion s = or_move PreFlightChecks ShadowMode (s\<lparr>or_gate := disable_live (or_gate s)\<rparr>)"

definition orchestrator_shutdown :: "orchestrator \<Rightarrow> orchestrator" where
  "orchestrator_shutdown s =
     (let current = lifecycle_state (or_fsm s);
          s1 = (if current = LiveTrading then s\<lparr>or_gate := disable_live (or_gate s)\<rparr> else s)
      in or_move current GracefulShutdown s1)"

definition catastrophic_halt :: "orchestrator \<Rightarrow> orchestrator" where
  "catastrophic_halt s =
     s\<lparr>or_gate := force_lockdown (or_gate s), or_fsm := force_transition CatastrophicHalt (or_fsm s)\<rparr>"

text \<open>A promotion succeeds exactly from shadow mode, with a checklist that did not fail, through a gate
  that is neither open nor locked; otherwise it leaves the system as it was.\<close>

lemma promote_to_live_eq:
  assumes "or_fsm s = state_code st"
  shows "promote_to_live digest now r s =
    (if st \<noteq> ShadowMode then (Inl (NotInShadowMode st), s)
     else case r of
       CriticalFailure failures \<Rightarrow> (Inl (ChecklistFailed (length failures)), s)
     | _ \<Rightarrow>
         if lockdown_mode (or_gate s) then (Inl (GateEnableFailed LockdownMode), s)
         else if live_enabled (or_gate s) then (Inl (GateEnableFailed AlreadyEnabled), s)
         else (Inr (), s\<lparr>or_fsm := state_code LiveTrading, or_gate := snd (try_promote_gate digest now r (or_gate s))\<rparr>))"
proof -
  obtain g where s: "s = \<lparr>or_fsm = state_code st, or_gate = g\<rparr>" using assms by (cases s) simp
  show ?thesis
    unfolding s
    by (cases r) (simp_all add: promote_to_live_def lifecycle_transition_code try_promote_gate_def or_move_def Let_def
        del: state_code.simps)
qed

lemma promote_to_live_succeeds:
  assumes "or_fsm s = state_code st"
  shows "fst (promote_to_live digest now r s) = Inr () \<longleftrightarrow>
      st = ShadowMode \<and> can_proceed r \<and> \<not> lockdown_mode (or_gate s) \<and> \<not> live_enabled (or_gate s)"
  unfolding promote_to_live_eq [OF assms] by (cases r) simp_all

lemma promote_to_live_fails:
  assumes "or_fsm s = state_code st" "fst (promote_to_live digest now r s) \<noteq> Inr ()"
  shows "snd (promote_to_live digest now r s) = s"
  using assms(2) unfolding promote_to_live_eq [OF assms(1)] by (cases r) (simp_all split: if_splits)

lemma shutdown_ignored_during_checks:
  "or_fsm s = state_code PreFlightChecks \<or> or_fsm s = state_code Bootstrapping \<Longrightarrow> orchestrator_shutdown s = s"
  by (auto simp: orchestrator_shutdown_def or_move_def lifecycle_transition_code simp del: state_code.simps)

section \<open>Threads\<close>

text \<open>Every access to an atomic is a step, as is the store of the token under its mutex.  A promotion
  carries the result that its checklist will have.\<close>

datatype promote_pc =
  PromoteStart | PromoteClaim | PromoteCheck
| GateLocked | GateOpen | GateEpoch | GateFlip checklist_token | GateStore checklist_token
| PromoteLive | PromoteUndo | PromoteUndoEpoch
| PromoteBack promoter_error | PromoteDone "promoter_error + unit"

datatype abort_pc = AbortSwap | AbortEpoch | AbortBack | AbortDone

datatype shutdown_pc = ShutdownStart | ShutdownSwap | ShutdownEpoch | ShutdownMove orchestrator_state | ShutdownDone

datatype halt_pc = HaltDisable | HaltLock | HaltEpoch | HaltForce | HaltDone

datatype execute_pc = ExecuteStart | ExecuteLockdown | ExecuteRun | ExecuteDone "gate_error + unit"

datatype gate_thread =
  Promote u64 checklist_result promote_pc
| Abort abort_pc
| Shutdown shutdown_pc
| Halt halt_pc
| Execute execute_pc
| Boot bool

abbreviation or_enable :: "bool \<Rightarrow> orchestrator \<Rightarrow> orchestrator" where
  "or_enable b s \<equiv> s\<lparr>or_gate := (or_gate s)\<lparr>live_enabled := b\<rparr>\<rparr>"

abbreviation or_next_epoch :: "orchestrator \<Rightarrow> orchestrator" where
  "or_next_epoch s \<equiv> s\<lparr>or_gate := (or_gate s)\<lparr>gate_epoch := gate_epoch (or_gate s) + 1\<rparr>\<rparr>"

fun promote_step ::
  "(checklist_result \<Rightarrow> u64) \<Rightarrow> u64 \<Rightarrow> checklist_result \<Rightarrow> promote_pc \<Rightarrow> orchestrator \<Rightarrow> promote_pc \<times> orchestrator" where
  "promote_step digest now r PromoteStart s =
     (let current = lifecycle_state (or_fsm s)
      in (if current \<noteq> ShadowMode then PromoteDone (Inl (NotInShadowMode current)) else PromoteClaim, s))"
| "promote_step digest now r PromoteClaim s =
     (let (claimed, f) = lifecycle_transition ShadowMode PreFlightChecks (or_fsm s)
      in (if claimed then PromoteCheck else PromoteDone (Inl TransitionFailed), s\<lparr>or_fsm := f\<rparr>))"
| "promote_step digest now r PromoteCheck s =
     (case r of
        CriticalFailure failures \<Rightarrow> (PromoteBack (ChecklistFailed (length failures)), s)
      | _ \<Rightarrow> (GateLocked, s))"
| "promote_step digest now r GateLocked s =
     (if lockdown_mode (or_gate s) then (PromoteBack (GateEnableFailed LockdownMode), s)
      else if \<not> can_proceed r then (PromoteBack (GateEnableFailed CriticalChecklistFailure), s)
      else (GateOpen, s))"
| "promote_step digest now r GateOpen s =
     (if live_enabled (or_gate s) then (PromoteBack (GateEnableFailed AlreadyEnabled), s) else (GateEpoch, s))"
| "promote_step digest now r GateEpoch s =
     (GateFlip (new_checklist_token digest now (gate_epoch (or_gate s) + 1) r), or_next_epoch s)"
| "promote_step digest now r (GateFlip token) s = (GateStore token, or_enable True s)"
| "promote_step digest now r (GateStore token) s =
     (PromoteLive, s\<lparr>or_gate := (or_gate s)\<lparr>last_valid_token := Some token\<rparr>\<rparr>)"
| "promote_step digest now r PromoteLive s =
     (let (moved, f) = lifecycle_transition PreFlightChecks LiveTrading (or_fsm s)
      in (if moved then PromoteDone (Inr ()) else PromoteUndo, s\<lparr>or_fsm := f\<rparr>))"
| "promote_step digest now r PromoteUndo s =
     (if live_enabled (or_gate s) then PromoteUndoEpoch else PromoteDone (Inl TransitionFailed), or_enable False s)"
| "promote_step digest now r PromoteUndoEpoch s = (PromoteDone (Inl TransitionFailed), or_next_epoch s)"
| "promote_step digest now r (PromoteBack e) s = (PromoteDone (Inl e), or_move PreFlightChecks ShadowMode s)"
| "promote_step digest now r (PromoteDone x) s = (PromoteDone x, s)"

fun abort_step :: "abort_pc \<Rightarrow> orchestrator \<Rightarrow> abort_pc \<times> orchestrator" where
  "abort_step AbortSwap s = (if live_enabled (or_gate s) then AbortEpoch else AbortBack, or_enable False s)"
| "abort_step AbortEpoch s = (AbortBack, or_next_epoch s)"
| "abort_step AbortBack s = (AbortDone, or_move PreFlightChecks ShadowMode s)"
| "abort_step AbortDone s = (AbortDone, s)"

fun shutdown_step :: "shutdown_pc \<Rightarrow> orchestrator \<Rightarrow> shutdown_pc \<times> orchestrator" where
  "shutdown_step ShutdownStart s =
     (let current = lifecycle_state (or_fsm s)
      in (if current = LiveTrading then ShutdownSwap else ShutdownMove current, s))"
| "shutdown_step ShutdownSwap s =
     (if live_enabled (or_gate s) then ShutdownEpoch else ShutdownMove LiveTrading, or_enable False s)"
| "shutdown_step ShutdownEpoch s = (ShutdownMove LiveTrading, or_next_epoch s)"
| "shutdown_step (ShutdownMove current) s = (ShutdownDone, or_move current GracefulShutdown s)"
| "shutdown_step ShutdownDone s = (ShutdownDone, s)"

fun halt_step :: "halt_pc \<Rightarrow> orchestrator \<Rightarrow> halt_pc \<times> orchestrator" where
  "halt_step HaltDisable s = (HaltLock, or_enable False s)"
| "halt_step HaltLock s = (HaltEpoch, s\<lparr>or_gate := (or_gate s)\<lparr>lockdown_mode := True\<rparr>\<rparr>)"
| "halt_step HaltEpoch s = (HaltForce, or_next_epoch s)"
| "halt_step HaltForce s = (HaltDone, s\<lparr>or_fsm := force_transition CatastrophicHalt (or_fsm s)\<rparr>)"
| "halt_step HaltDone s = (HaltDone, s)"

fun execute_step :: "execute_pc \<Rightarrow> orchestrator \<Rightarrow> execute_pc \<times> orchestrator" where
  "execute_step ExecuteStart s =
     (if live_enabled (or_gate s) then ExecuteLockdown
      else ExecuteDone (Inl (GateDisabled ''Live trading not enabled'')), s)"
| "execute_step ExecuteLockdown s =
     (if lockdown_mode (or_gate s) then ExecuteDone (Inl LockdownMode) else ExecuteRun, s)"
| "execute_step ExecuteRun s = (ExecuteDone (Inr ()), s)"
| "execute_step (ExecuteDone x) s = (ExecuteDone x, s)"

fun gate_step ::
  "(checklist_result \<Rightarrow> u64) \<Rightarrow> gate_thread \<Rightarrow> orchestrator \<Rightarrow> gate_thread \<times> orchestrator" where
  "gate_step digest (Promote now r pc) s = apfst (Promote now r) (promote_step digest now r pc s)"
| "gate_step digest (Abort pc) s = apfst Abort (abort_step pc s)"
| "gate_step digest (Shutdown pc) s = apfst Shutdown (shutdown_step pc s)"
| "gate_step digest (Halt pc) s = apfst Halt (halt_step pc s)"
| "gate_step digest (Execute pc) s = apfst Execute (execute_step pc s)"
| "gate_step digest (Boot finished) s = (Boot True, if finished then s else or_move Bootstrapping ShadowMode s)"

type_synonym gate_world = "(nat \<Rightarrow> gate_thread) \<times> orchestrator"

definition gate_turn :: "(checklist_result \<Rightarrow> u64) \<Rightarrow> nat \<Rightarrow> gate_world \<Rightarrow> gate_world" where
  "gate_turn digest i w =
     (case w of (ths, s) \<Rightarrow> let (t, s') = gate_step digest (ths i) s in (ths(i := t), s'))"

definition gate_run :: "(checklist_result \<Rightarrow> u64) \<Rightarrow> nat list \<Rightarrow> gate_world \<Rightarrow> gate_world" where
  "gate_run digest sched w = fold (gate_turn digest) sched w"

fun gate_start :: "gate_thread \<Rightarrow> bool" where
  "gate_start (Promote _ _ pc) = (pc = PromoteStart)"
| "gate_start (Abort pc) = (pc = AbortSwap)"
| "gate_start (Shutdown pc) = (pc = ShutdownStart)"
| "gate_start (Halt pc) = (pc = HaltDisable)"
| "gate_start (Execute pc) = (pc = ExecuteStart)"
| "gate_start (Boot finished) = (\<not> finished)"

subsection \<open>A thread alone\<close>

text \<open>Without interference the threads do what the functions say.\<close>

lemma or_enable_unchanged: "\<not> live_enabled (or_gate s) \<Longrightarrow> or_enable False s = s"
  by (cases s; cases "or_gate s") simp

lemma promote_alone:
  assumes "or_fsm s = state_code st"
  shows "((\<lambda>(pc, s). promote_step digest now r pc s) ^^ 10) (PromoteStart, s) =
    (PromoteDone (fst (promote_to_live digest now r s)), snd (promote_to_live digest now r s))"
  using assms
  by (cases r; cases st; simp add: eval_nat_numeral promote_to_live_def try_promote_gate_def or_move_def
      lifecycle_transition_code Let_def del: state_code.simps)

lemma abort_alone:
  "((\<lambda>(pc, s). abort_step pc s) ^^ 3) (AbortSwap, s) = (AbortDone, abort_promotion s)"
  by (cases "live_enabled (or_gate s)") (simp_all add: eval_nat_numeral abort_promotion_def disable_live_def or_enable_unchanged)

lemma shutdown_alone:
  "((\<lambda>(pc, s). shutdown_step pc s) ^^ 4) (ShutdownStart, s) = (ShutdownDone, orchestrator_shutdown s)"
  by (cases "live_enabled (or_gate s)")
    (simp_all add: eval_nat_numeral orchestrator_shutdown_def disable_live_def or_enable_unchanged Let_def)

lemma halt_alone:
  "((\<lambda>(pc, s). halt_step pc s) ^^ 4) (HaltDisable, s) = (HaltDone, catastrophic_halt s)"
  by (simp add: eval_nat_numeral catastrophic_halt_def force_lockdown_def force_transition_def)

subsection \<open>An open gate means live trading\<close>

text \<open>A promotion in flight has opened the gate but not yet settled the state; a shutdown is closing
  once it has closed the gate; a halt is locking once the lockdown is set.\<close>

fun in_flight :: "gate_thread \<Rightarrow> bool" where
  "in_flight (Promote _ _ pc) \<longleftrightarrow> (case pc of GateStore _ \<Rightarrow> True | PromoteLive \<Rightarrow> True | PromoteUndo \<Rightarrow> True | _ \<Rightarrow> False)"
| "in_flight _ = False"

fun live_seen :: "gate_thread \<Rightarrow> bool" where
  "live_seen (Shutdown pc) \<longleftrightarrow> pc = ShutdownSwap \<or> pc = ShutdownEpoch \<or> pc = ShutdownMove LiveTrading"
| "live_seen _ = False"

fun closing :: "gate_thread \<Rightarrow> bool" where
  "closing (Shutdown pc) \<longleftrightarrow> pc = ShutdownEpoch \<or> pc = ShutdownMove LiveTrading"
| "closing _ = False"

fun locking :: "gate_thread \<Rightarrow> bool" where
  "locking (Halt pc) \<longleftrightarrow> pc = HaltEpoch \<or> pc = HaltForce \<or> pc = HaltDone"
| "locking _ = False"

definition past_live :: "orchestrator_state \<Rightarrow> bool" where
  "past_live st \<longleftrightarrow> st = LiveTrading \<or> st = GracefulShutdown \<or> st = CatastrophicHalt"

definition gate_inv :: "gate_world \<Rightarrow> bool" where
  "gate_inv w \<longleftrightarrow>
     (case w of (ths, s) \<Rightarrow> \<exists>st. or_fsm s = state_code st \<and>
        ((\<exists>i. live_seen (ths i)) \<longrightarrow> past_live st) \<and>
        ((\<exists>i. locking (ths i)) \<longrightarrow> lockdown_mode (or_gate s)) \<and>
        (live_enabled (or_gate s) \<longrightarrow> lockdown_mode (or_gate s) \<or> (\<exists>i. in_flight (ths i)) \<or>
           st = LiveTrading \<and> (\<forall>i. \<not> closing (ths i))))"

text \<open>What a step of one thread does, as far as the invariant is concerned: \<open>others\<close> says what holds of
  some other thread.\<close>

definition step_keeps :: "gate_thread \<Rightarrow> orchestrator \<Rightarrow> gate_thread \<Rightarrow> orchestrator \<Rightarrow> bool" where
  "step_keeps t s t' s' \<longleftrightarrow>
     (\<forall>st seen shut flight.
        or_fsm s = state_code st \<longrightarrow>
        (live_seen t \<or> seen \<longrightarrow> past_live st) \<longrightarrow> (shut \<longrightarrow> seen) \<longrightarrow>
        (locking t \<longrightarrow> lockdown_mode (or_gate s)) \<longrightarrow>
        (live_enabled (or_gate s) \<longrightarrow> lockdown_mode (or_gate s) \<or> in_flight t \<or> flight \<or>
           st = LiveTrading \<and> \<not> closing t \<and> \<not> shut) \<longrightarrow>
        (\<exists>st'. or_fsm s' = state_code st' \<and>
           (live_seen t' \<or> seen \<longrightarrow> past_live st') \<and>
           (locking t' \<longrightarrow> lockdown_mode (or_gate s')) \<and>
           (lockdown_mode (or_gate s) \<longrightarrow> lockdown_mode (or_gate s')) \<and>
           (live_enabled (or_gate s') \<longrightarrow> lockdown_mode (or_gate s') \<or> in_flight t' \<or> flight \<or>
              st' = LiveTrading \<and> \<not> closing t' \<and> \<not> shut)))"

lemmas gate_step_simps = lifecycle_transition_code or_move_def past_live_def Let_def force_transition_def

lemma step_keeps_promote:
  "step_keeps (Promote now r pc) s (Promote now r (fst (promote_step digest now r pc s))) (snd (promote_step digest now r pc s))"
  unfolding step_keeps_def
proof (intro allI impI, goal_cases)
  case (1 st seen shut flight)
  then show ?case
    by (cases pc; cases r; cases st) (auto simp: gate_step_simps simp del: state_code.simps)
qed

lemma step_keeps_abort: "step_keeps (Abort pc) s (Abort (fst (abort_step pc s))) (snd (abort_step pc s))"
  unfolding step_keeps_def
proof (intro allI impI, goal_cases)
  case (1 st seen shut flight)
  then show ?case by (cases pc; cases st) (auto simp: gate_step_simps simp del: state_code.simps)
qed

lemma step_keeps_shutdown:
  "step_keeps (Shutdown pc) s (Shutdown (fst (shutdown_step pc s))) (snd (shutdown_step pc s))"
  unfolding step_keeps_def
proof (intro allI impI, goal_cases)
  case (1 st seen shut flight)
  then show ?case
  proof (cases pc)
    case (ShutdownMove current)
    then show ?thesis using 1 by (cases current; cases st) (auto simp: gate_step_simps simp del: state_code.simps)
  qed (auto simp: gate_step_simps simp del: state_code.simps)
qed

lemma step_keeps_halt: "step_keeps (Halt pc) s (Halt (fst (halt_step pc s))) (snd (halt_step pc s))"
  unfolding step_keeps_def
proof (intro allI impI, goal_cases)
  case (1 st seen shut flight)
  then show ?case by (cases pc; cases st) (auto simp: gate_step_simps simp del: state_code.simps)
qed

lemma step_keeps_gate: "gate_step digest t s = (t', s') \<Longrightarrow> step_keeps t s t' s'"
proof (cases t)
  case (Promote now r pc)
  then show "gate_step digest t s = (t', s') \<Longrightarrow> ?thesis"
    using step_keeps_promote [of now r pc s digest] by (cases "promote_step digest now r pc s") auto
next
  case (Abort pc)
  then show "gate_step digest t s = (t', s') \<Longrightarrow> ?thesis"
    using step_keeps_abort [of pc s] by (cases "abort_step pc s") auto
next
  case (Shutdown pc)
  then show "gate_step digest t s = (t', s') \<Longrightarrow> ?thesis"
    using step_keeps_shutdown [of pc s] by (cases "shutdown_step pc s") auto
next
  case (Halt pc)
  then show "gate_step digest t s = (t', s') \<Longrightarrow> ?thesis"
    using step_keeps_halt [of pc s] by (cases "halt_step pc s") auto
next
  case (Execute pc)
  have "snd (execute_step pc s) = s" by (cases "(pc, s)" rule: execute_step.cases) (auto simp: Let_def)
  with Execute show "gate_step digest t s = (t', s') \<Longrightarrow> ?thesis"
    by (cases "execute_step pc s") (auto simp: step_keeps_def)
next
  case (Boot b)
  have "step_keeps (Boot b) s (Boot True) (if b then s else or_move Bootstrapping ShadowMode s)"
    unfolding step_keeps_def
  proof (intro allI impI, goal_cases)
    case (1 st seen shut flight)
    then show ?case by (cases st) (auto simp: gate_step_simps simp del: state_code.simps)
  qed
  with Boot show "gate_step digest t s = (t', s') \<Longrightarrow> ?thesis" by auto
qed

lemma gate_turn_inv:
  assumes "gate_inv w"
  shows "gate_inv (gate_turn digest i w)"
proof -
  obtain ths s where w: "w = (ths, s)" by (cases w)
  obtain t' s' where st: "gate_step digest (ths i) s = (t', s')" by (cases "gate_step digest (ths i) s")
  obtain st0 where f: "or_fsm s = state_code st0" and seen: "(\<exists>j. live_seen (ths j)) \<longrightarrow> past_live st0"
    and lock: "(\<exists>j. locking (ths j)) \<longrightarrow> lockdown_mode (or_gate s)"
    and open_gate: "live_enabled (or_gate s) \<longrightarrow> lockdown_mode (or_gate s) \<or> (\<exists>j. in_flight (ths j)) \<or>
        st0 = LiveTrading \<and> (\<forall>j. \<not> closing (ths j))"
    using assms unfolding gate_inv_def w by auto
  let ?seen = "\<exists>j. j \<noteq> i \<and> live_seen (ths j)"
  let ?shut = "\<exists>j. j \<noteq> i \<and> closing (ths j)"
  let ?flight = "\<exists>j. j \<noteq> i \<and> in_flight (ths j)"
  have sub: "closing t \<Longrightarrow> live_seen t" for t
    by (cases t) auto
  have split: "(\<exists>j. P (ths j)) \<longleftrightarrow> P (ths i) \<or> (\<exists>j. j \<noteq> i \<and> P (ths j))" for P
    by (metis)
  have split': "(\<exists>j. P ((ths(i := t')) j)) \<longleftrightarrow> P t' \<or> (\<exists>j. j \<noteq> i \<and> P (ths j))" for P
    by (metis fun_upd_apply)
  have "\<exists>st'. or_fsm s' = state_code st' \<and> (live_seen t' \<or> ?seen \<longrightarrow> past_live st') \<and>
      (locking t' \<longrightarrow> lockdown_mode (or_gate s')) \<and>
      (lockdown_mode (or_gate s) \<longrightarrow> lockdown_mode (or_gate s')) \<and>
      (live_enabled (or_gate s') \<longrightarrow> lockdown_mode (or_gate s') \<or> in_flight t' \<or> ?flight \<or>
         st' = LiveTrading \<and> \<not> closing t' \<and> \<not> ?shut)"
    using step_keeps_gate [OF st, unfolded step_keeps_def, rule_format, of st0 ?seen ?shut ?flight]
      f seen lock open_gate sub unfolding split [of live_seen] split [of locking] split [of in_flight]
    by blast
  then obtain st1 where n: "or_fsm s' = state_code st1" "live_seen t' \<or> ?seen \<longrightarrow> past_live st1"
      "locking t' \<longrightarrow> lockdown_mode (or_gate s')" "lockdown_mode (or_gate s) \<longrightarrow> lockdown_mode (or_gate s')"
      "live_enabled (or_gate s') \<longrightarrow> lockdown_mode (or_gate s') \<or> in_flight t' \<or> ?flight \<or>
         st1 = LiveTrading \<and> \<not> closing t' \<and> \<not> ?shut"
    by blast
  have "(\<exists>j. locking ((ths(i := t')) j)) \<longrightarrow> lockdown_mode (or_gate s')"
    unfolding split' using n(3,4) lock by blast
  moreover have "(\<forall>j. \<not> closing ((ths(i := t')) j)) \<longleftrightarrow> \<not> closing t' \<and> \<not> ?shut"
    using split' [of closing] by blast
  ultimately have "gate_inv (ths(i := t'), s')"
    unfolding gate_inv_def prod.case using n split' [of live_seen] split' [of in_flight] by blast
  then show ?thesis by (simp add: gate_turn_def w st)
qed

lemma gate_run_inv: "gate_inv w \<Longrightarrow> gate_inv (gate_run digest sched w)"
  unfolding gate_run_def by (induction sched arbitrary: w) (simp_all add: gate_turn_inv)

lemma gate_start_inv: "\<forall>i. gate_start (ths i) \<Longrightarrow> gate_inv (ths, new_orchestrator)"
proof -
  assume "\<forall>i. gate_start (ths i)"
  moreover have "gate_start t \<Longrightarrow> \<not> live_seen t \<and> \<not> locking t" for t by (cases t) auto
  ultimately show ?thesis
    by (simp add: gate_inv_def new_orchestrator_def new_lifecycle_def new_live_gate_def del: state_code.simps)
qed

text \<open>C2. In every interleaving of boot, promotions, aborts, shutdowns, halts and guarded calls, the gate
  is not left open by mistake: once no promotion is in flight, an open gate that is not locked
  down means that the system is in live trading.\<close>

theorem open_gate_means_live:
  assumes "\<forall>i. gate_start (ths i)" and "gate_run digest sched (ths, new_orchestrator) = (ths', s)"
    and "\<forall>i. \<not> in_flight (ths' i)" and "live_enabled (or_gate s)" and "\<not> lockdown_mode (or_gate s)"
  shows "lifecycle_state (or_fsm s) = LiveTrading"
  using gate_run_inv [OF gate_start_inv [OF assms(1)], of digest sched] assms(3-5)
  unfolding gate_inv_def assms(2) prod.case by (auto simp del: state_code.simps)

definition example_threads :: "nat \<Rightarrow> gate_thread" where
  "example_threads i =
     (if i = 0 then Boot False else if i = 1 then Promote 5 (UnanimousPass []) PromoteStart
      else if i = 2 then Abort AbortSwap else if i = 3 then Promote 6 (UnanimousPass []) PromoteStart
      else if i = 4 then Halt HaltDisable
      else Execute ExecuteStart)"

lemma example_threads_start: "\<forall>i. gate_start (example_threads i)"
  by (simp add: example_threads_def)

lemmas gate_run_simps =
  gate_run_def gate_turn_def example_threads_def new_orchestrator_def new_live_gate_def new_lifecycle_def
  lifecycle_transition_def lifecycle_state_def state_of_code_def or_move_def force_transition_def
  new_checklist_token_def Let_def

theorem open_gate_means_live_witness:
  "live_enabled (or_gate (snd (gate_run (\<lambda>_. 0) [0, 1, 1, 1, 1, 1, 1, 1, 1, 1] (example_threads, new_orchestrator)))) \<and>
   lifecycle_state (or_fsm (snd (gate_run (\<lambda>_. 0) [0, 1, 1, 1, 1, 1, 1, 1, 1, 1] (example_threads, new_orchestrator)))) =
     LiveTrading"
proof -
  let ?w = "gate_run (\<lambda>_. 0) [0, 1, 1, 1, 1, 1, 1, 1, 1, 1] (example_threads, new_orchestrator)"
  have w: "?w = (example_threads(0 := Boot True, 1 := Promote 5 (UnanimousPass []) (PromoteDone (Inr ()))), snd ?w)"
    and e: "live_enabled (or_gate (snd ?w))" "\<not> lockdown_mode (or_gate (snd ?w))"
    by (simp_all add: gate_run_simps fun_upd_twist)
  have "\<forall>i. \<not> in_flight ((example_threads(0 := Boot True, 1 := Promote 5 (UnanimousPass []) (PromoteDone (Inr ())))) i)"
    by (simp add: example_threads_def)
  from open_gate_means_live [OF example_threads_start w this e] e(1) show ?thesis by blast
qed

subsection \<open>Lockdown\<close>

text \<open>Threads that have not passed their test of the lockdown, or have failed it.\<close>

fun held_back :: "gate_thread \<Rightarrow> bool" where
  "held_back (Execute pc) \<longleftrightarrow>
     (case pc of ExecuteStart \<Rightarrow> True | ExecuteLockdown \<Rightarrow> True | ExecuteDone (Inl _) \<Rightarrow> True | _ \<Rightarrow> False)"
| "held_back (Promote _ _ pc) \<longleftrightarrow>
     (case pc of PromoteStart \<Rightarrow> True | PromoteClaim \<Rightarrow> True | PromoteCheck \<Rightarrow> True | GateLocked \<Rightarrow> True
      | PromoteBack _ \<Rightarrow> True | PromoteDone (Inl _) \<Rightarrow> True | _ \<Rightarrow> False)"
| "held_back _ = False"

lemma gate_step_lockdown:
  assumes "lockdown_mode (or_gate s)" "gate_step digest t s = (t', s')"
  shows "lockdown_mode (or_gate s') \<and> (held_back t \<longrightarrow> held_back t')"
proof (cases t)
  case (Promote now r pc)
  then show ?thesis
    using assms by (cases pc; cases r) (auto simp: lifecycle_transition_def or_move_def Let_def split: if_splits sum.splits)
next
  case (Abort pc)
  then show ?thesis using assms by (cases pc) (auto simp: or_move_def)
next
  case (Shutdown pc)
  then show ?thesis using assms by (cases pc) (auto simp: or_move_def Let_def)
next
  case (Halt pc)
  then show ?thesis using assms by (cases pc) auto
next
  case (Execute pc)
  then show ?thesis using assms by (cases pc) (auto split: sum.splits)
next
  case (Boot b)
  then show ?thesis using assms by (auto simp: or_move_def)
qed

lemma gate_run_lockdown:
  "lockdown_mode (or_gate s) \<Longrightarrow> held_back (ths i) \<Longrightarrow> gate_run digest sched (ths, s) = (ths', s') \<Longrightarrow>
     lockdown_mode (or_gate s') \<and> held_back (ths' i)"
proof (induction sched arbitrary: ths s)
  case Nil
  then show ?case by (simp add: gate_run_def)
next
  case (Cons j sched)
  obtain t s1 where st: "gate_step digest (ths j) s = (t, s1)" by (cases "gate_step digest (ths j) s")
  have "gate_run digest sched (ths(j := t), s1) = (ths', s')"
    using Cons.prems(3) st by (simp add: gate_run_def gate_turn_def)
  moreover have "lockdown_mode (or_gate s1)" "held_back ((ths(j := t)) i)"
    using gate_step_lockdown [OF Cons.prems(1) st] Cons.prems(2) by auto
  ultimately show ?case using Cons.IH by blast
qed

text \<open>C3. A lockdown stops everything that has not passed its test yet: whatever threads run after it,
  a guarded call that had not tested the lockdown is never executed, and a promotion that had not
  is never successful.\<close>

theorem lockdown_holds_back:
  assumes "lockdown_mode (or_gate s)" and "held_back (ths i)"
    and "gate_run digest sched (ths, s) = (ths', s')"
  shows "lockdown_mode (or_gate s') \<and> ths' i \<noteq> Execute (ExecuteDone (Inr ())) \<and>
    (\<forall>now r. ths' i \<noteq> Promote now r (PromoteDone (Inr ())))"
  using gate_run_lockdown [OF assms] by (auto dest: arg_cong [of _ _ held_back])

theorem lockdown_holds_back_witness:
  "fst (gate_run (\<lambda>_. 0) [5, 0, 5, 5] (example_threads, catastrophic_halt new_orchestrator)) 5 \<noteq>
     Execute (ExecuteDone (Inr ()))"
  using lockdown_holds_back [of "catastrophic_halt new_orchestrator" example_threads 5 "\<lambda>_. 0" "[5, 0, 5, 5]"
      "fst (gate_run (\<lambda>_. 0) [5, 0, 5, 5] (example_threads, catastrophic_halt new_orchestrator))"
      "snd (gate_run (\<lambda>_. 0) [5, 0, 5, 5] (example_threads, catastrophic_halt new_orchestrator))"]
  by (simp add: catastrophic_halt_def force_lockdown_def example_threads_def)

subsection \<open>No checklist, no trading\<close>

text \<open>A promotion whose checklist fails never gets past the gate.\<close>

fun stopped_at_gate :: "gate_thread \<Rightarrow> bool" where
  "stopped_at_gate (Promote now r pc) \<longleftrightarrow> \<not> can_proceed r \<and> held_back (Promote now r pc)"
| "stopped_at_gate _ = True"

lemma gate_step_stopped:
  assumes "stopped_at_gate t" "gate_step digest t s = (t', s')" "or_fsm s = state_code st" "st \<noteq> LiveTrading"
    "\<not> live_enabled (or_gate s)"
  shows "stopped_at_gate t' \<and> \<not> live_enabled (or_gate s') \<and> (\<exists>st'. or_fsm s' = state_code st' \<and> st' \<noteq> LiveTrading)"
proof (cases t)
  case (Promote now r pc)
  then show ?thesis
    using assms
    by (cases pc; cases r)
      (auto simp: lifecycle_transition_code or_move_def Let_def simp del: state_code.simps split: if_splits sum.splits)
next
  case (Abort pc)
  then show ?thesis
    using assms by (cases pc) (auto simp: lifecycle_transition_code or_move_def simp del: state_code.simps)
next
  case (Shutdown pc)
  then show ?thesis
  proof (cases pc)
    case (ShutdownMove current)
    then show ?thesis
      using assms Shutdown
      by (cases current) (auto simp: lifecycle_transition_code or_move_def simp del: state_code.simps split: if_splits)
  qed (use assms in \<open>auto simp: Let_def simp del: state_code.simps\<close>)
next
  case (Halt pc)
  then show ?thesis using assms by (cases pc) (auto simp: force_transition_def simp del: state_code.simps)
next
  case (Execute pc)
  then show ?thesis using assms by (cases pc) (auto simp del: state_code.simps)
next
  case (Boot b)
  then show ?thesis
    using assms
    by (cases b; cases st) (auto simp: lifecycle_transition_code or_move_def simp del: state_code.simps)
qed

lemma gate_run_stopped:
  "\<forall>i. stopped_at_gate (ths i) \<Longrightarrow> or_fsm s = state_code st \<Longrightarrow> st \<noteq> LiveTrading \<Longrightarrow> \<not> live_enabled (or_gate s) \<Longrightarrow>
   gate_run digest sched (ths, s) = (ths', s') \<Longrightarrow>
   \<not> live_enabled (or_gate s') \<and> lifecycle_state (or_fsm s') \<noteq> LiveTrading"
proof (induction sched arbitrary: ths s st)
  case Nil
  then show ?case by (simp add: gate_run_def del: state_code.simps)
next
  case (Cons j sched)
  obtain t s1 where st: "gate_step digest (ths j) s = (t, s1)" by (cases "gate_step digest (ths j) s")
  have "stopped_at_gate (ths j)" using Cons.prems(1) by simp
  from gate_step_stopped [OF this st Cons.prems(2-4)]
  obtain st' where n: "stopped_at_gate t" "\<not> live_enabled (or_gate s1)" "or_fsm s1 = state_code st'" "st' \<noteq> LiveTrading"
    by blast
  have "gate_run digest sched (ths(j := t), s1) = (ths', s')"
    using Cons.prems(5) st by (simp add: gate_run_def gate_turn_def)
  moreover have "\<forall>i. stopped_at_gate ((ths(j := t)) i)" using Cons.prems(1) n(1) by simp
  ultimately show ?case using Cons.IH n(2-4) by blast
qed

text \<open>Whatever threads interleave, without a promotion whose checklist can proceed the gate is never
  open and the system never in live trading.\<close>

lemma live_needs_passed_checklist:
  assumes "\<forall>i. gate_start (ths i)" "\<forall>i now r pc. ths i = Promote now r pc \<longrightarrow> \<not> can_proceed r"
    "gate_run digest sched (ths, new_orchestrator) = (ths', s)"
  shows "\<not> live_enabled (or_gate s) \<and> lifecycle_state (or_fsm s) \<noteq> LiveTrading"
proof (rule gate_run_stopped [where st = Bootstrapping, OF _ _ _ _ assms(3)])
  have "stopped_at_gate (ths i)" for i
    using assms(1) [rule_format, of i] assms(2) [rule_format, of i] by (cases "ths i") auto
  then show "\<forall>i. stopped_at_gate (ths i)" by blast
qed (simp_all add: new_orchestrator_def new_lifecycle_def new_live_gate_def del: state_code.simps)

subsection \<open>What races leave behind\<close>

text \<open>An aborted promotion goes on.  Another one can start, both pass the gate, one reports success and
  the other, whose last transition fails, closes the gate: live trading with a closed gate.\<close>

lemma promoted_but_closed:
  "\<exists>sched ths s. gate_run digest sched (example_threads, new_orchestrator) = (ths, s) \<and>
     ths 1 = Promote 5 (UnanimousPass []) (PromoteDone (Inr ())) \<and> lifecycle_state (or_fsm s) = LiveTrading \<and>
     \<not> live_enabled (or_gate s) \<and> \<not> lockdown_mode (or_gate s)"
  by (rule exI [of _ "[0, 1, 1, 1, 1, 1, 2, 2, 3, 3, 3, 3, 3, 1, 1, 1, 1, 3, 3, 3, 3, 3, 3]"])
    (simp add: gate_run_simps)

text \<open>A promotion that has passed the tests of the gate opens it during a halt: the system is halted and
  locked down, and its live flag is set.\<close>

lemma open_after_halt:
  "\<exists>sched ths s. gate_run digest sched (example_threads, new_orchestrator) = (ths, s) \<and>
     ths 1 = Promote 5 (UnanimousPass []) (PromoteDone (Inr ())) \<and> ths 4 = Halt HaltDone \<and>
     lifecycle_state (or_fsm s) = CatastrophicHalt \<and> live_enabled (or_gate s) \<and> lockdown_mode (or_gate s)"
  by (rule exI [of _ "[0, 1, 1, 1, 1, 1, 1, 4, 4, 4, 1, 1, 1, 4]"]) (simp add: gate_run_simps)

end
