(* ===== verification/Rule_Dag.thy ===== *)
theory Rule_Dag
  imports Nexus_Prelude "HOL-Library.Multiset"
begin

unbundle bit_operations_syntax

text \<open>
  The rule engine of the pre-trade compliance checks,
  \<open>crates/nexus_legal/src/compliance/dag_rule_engine.rs\<close>: rules are nodes of a graph, sorted
  topologically when the roots are set and then evaluated from the leaves.  A node identifier, a
  \<open>u32\<close>, is a natural number with the truncation written out where a length is converted.
  Indexing out of range is a panic.  The time an evaluation takes is an argument.
\<close>

section \<open>Flags\<close>

type_synonym u128 = "128 word"

datatype compliance_flag =
  ValidSymbol | ValidVenue | ValidSide | ValidQuantity | ValidPrice | WithinTickSize | WithinLotSize | WithinPriceBands
| RegShoLocated | RegShoTickTestPassed | RegShoNotShortRestricted | MifidBestExecChecked | MifidTickSizeCompliant
| MifidTransparencyWaiver | VolckerPropTradingAllowed | VolckerHedgeExemption
| WithinPositionLimit | WithinOrderValueLimit | WithinDailyLossLimit | WithinConcentrationLimit | WithinLeverageLimit
| MarginRequirementMet
| MarketOpen | NotInHaltingState | NotLimitUpLimitDown | SufficientLiquidity | SpreadWithinLimits
| StrategyAuthorized | StrategyWithinCapacity | NoConflictingOrders | WashTradeCheckPassed | SpoofingCheckPassed
| ManipulationCheckPassed

fun flag_bit :: "compliance_flag \<Rightarrow> u128" where
  "flag_bit ValidSymbol = 2 ^ 0"
| "flag_bit ValidVenue = 2 ^ 1"
| "flag_bit ValidSide = 2 ^ 2"
| "flag_bit ValidQuantity = 2 ^ 3"
| "flag_bit ValidPrice = 2 ^ 4"
| "flag_bit WithinTickSize = 2 ^ 5"
| "flag_bit WithinLotSize = 2 ^ 6"
| "flag_bit WithinPriceBands = 2 ^ 7"
| "flag_bit RegShoLocated = 2 ^ 8"
| "flag_bit RegShoTickTestPassed = 2 ^ 9"
| "flag_bit RegShoNotShortRestricted = 2 ^ 10"
| "flag_bit MifidBestExecChecked = 2 ^ 11"
| "flag_bit MifidTickSizeCompliant = 2 ^ 12"
| "flag_bit MifidTransparencyWaiver = 2 ^ 13"
| "flag_bit VolckerPropTradingAllowed = 2 ^ 14"
| "flag_bit VolckerHedgeExemption = 2 ^ 15"
| "flag_bit WithinPositionLimit = 2 ^ 16"
| "flag_bit WithinOrderValueLimit = 2 ^ 17"
| "flag_bit WithinDailyLossLimit = 2 ^ 18"
| "flag_bit WithinConcentrationLimit = 2 ^ 19"
| "flag_bit WithinLeverageLimit = 2 ^ 20"
| "flag_bit MarginRequirementMet = 2 ^ 21"
| "flag_bit MarketOpen = 2 ^ 24"
| "flag_bit NotInHaltingState = 2 ^ 25"
| "flag_bit NotLimitUpLimitDown = 2 ^ 26"
| "flag_bit SufficientLiquidity = 2 ^ 27"
| "flag_bit SpreadWithinLimits = 2 ^ 28"
| "flag_bit StrategyAuthorized = 2 ^ 28"
| "flag_bit StrategyWithinCapacity = 2 ^ 29"
| "flag_bit NoConflictingOrders = 2 ^ 30"
| "flag_bit WashTradeCheckPassed = 2 ^ 31"
| "flag_bit SpoofingCheckPassed = 2 ^ 32"
| "flag_bit ManipulationCheckPassed = 2 ^ 33"

definition set_flag :: "compliance_flag \<Rightarrow> u128 \<Rightarrow> u128" where
  "set_flag f s = (s OR flag_bit f)"

definition clear_flag :: "compliance_flag \<Rightarrow> u128 \<Rightarrow> u128" where
  "clear_flag f s = (s AND NOT (flag_bit f))"

definition has_flag :: "u128 \<Rightarrow> compliance_flag \<Rightarrow> bool" where
  "has_flag s f \<longleftrightarrow> s AND flag_bit f \<noteq> 0"

definition flag_mask :: "compliance_flag list \<Rightarrow> u128" where
  "flag_mask fs = fold (\<lambda>f acc. acc OR f) (map flag_bit fs) 0"

definition all_flags_set :: "u128 \<Rightarrow> compliance_flag list \<Rightarrow> bool" where
  "all_flags_set s fs \<longleftrightarrow> s AND flag_mask fs = flag_mask fs"

definition any_flag_set :: "u128 \<Rightarrow> compliance_flag list \<Rightarrow> bool" where
  "any_flag_set s fs \<longleftrightarrow> s AND flag_mask fs \<noteq> 0"

record compliance_result =
  cr_passed :: bool
  failed_rules :: u128
  evaluation_time_ns :: u64

definition compliance_passed :: compliance_result where
  "compliance_passed = \<lparr>cr_passed = True, failed_rules = 0, evaluation_time_ns = 0\<rparr>"

definition compliance_failed :: "u128 \<Rightarrow> u64 \<Rightarrow> compliance_result" where
  "compliance_failed rules t = \<lparr>cr_passed = False, failed_rules = rules, evaluation_time_ns = t\<rparr>"

section \<open>The graph\<close>

type_synonym node_id = nat

definition id_of_len :: "nat \<Rightarrow> node_id" where
  "id_of_len n = n mod 2 ^ 32"

datatype dag_node_type =
  FlagCheck compliance_flag | AndGroup | OrGroup | NotGate | ThresholdGate u8 | CustomPredicate

record dag_node =
  dn_id :: node_id
  node_type :: dag_node_type
  required_flags :: u128
  veto_flags :: u128
  dn_children :: "node_id list"
  dn_parent :: "node_id option"
  dn_priority :: u8
  dn_enabled :: bool

record compiled_dag =
  dag_nodes :: "dag_node list"
  dag_roots :: "node_id list"
  eval_order :: "node_id list"
  total_evaluations :: u64
  total_failures :: u64

definition new_dag :: compiled_dag where
  "new_dag = \<lparr>dag_nodes = [], dag_roots = [], eval_order = [], total_evaluations = 0, total_failures = 0\<rparr>"

definition dag_add_node :: "dag_node \<Rightarrow> compiled_dag \<Rightarrow> node_id \<times> compiled_dag" where
  "dag_add_node n d = (id_of_len (length (dag_nodes d)), d\<lparr>dag_nodes := dag_nodes d @ [n]\<rparr>)"

definition set_node_enabled :: "node_id \<Rightarrow> bool \<Rightarrow> compiled_dag \<Rightarrow> compiled_dag" where
  "set_node_enabled i b d =
     (if i < length (dag_nodes d)
      then d\<lparr>dag_nodes := (dag_nodes d)[i := (dag_nodes d ! i)\<lparr>dn_enabled := b\<rparr>]\<rparr>
      else d)"

section \<open>Topological sorting\<close>

definition in_degrees :: "dag_node list \<Rightarrow> nat list" where
  "in_degrees nodes =
     fold (\<lambda>node d. fold (\<lambda>c d. if c < length nodes then d[c := d ! c + 1] else d) (dn_children node) d)
       nodes (replicate (length nodes) 0)"

definition by_priority :: "dag_node list \<Rightarrow> node_id list \<Rightarrow> node_id list" where
  "by_priority nodes q = sort_key (\<lambda>i. dn_priority (nodes ! i)) q"

text \<open>\<open>waiting\<close> is the queue from its head on.\<close>

definition release_child :: "dag_node list \<Rightarrow> node_id \<Rightarrow> node_id list \<times> nat list \<Rightarrow> node_id list \<times> nat list" where
  "release_child nodes c s =
     (case s of (waiting, d) \<Rightarrow>
        if c < length nodes
        then let d' = d[c := d ! c - 1]
             in if d' ! c = 0 then (by_priority nodes (waiting @ [c]), d') else (waiting, d')
        else (waiting, d))"

fun kahn_loop :: "nat \<Rightarrow> dag_node list \<Rightarrow> node_id list \<Rightarrow> nat list \<Rightarrow> node_id list \<Rightarrow> node_id list option" where
  "kahn_loop fuel nodes [] d order = Some order"
| "kahn_loop 0 nodes (c # waiting) d order = None"
| "kahn_loop (Suc n) nodes (c # waiting) d order =
     (let (waiting', d') = fold (release_child nodes) (dn_children (nodes ! c)) (waiting, d)
      in kahn_loop n nodes waiting' d' (order @ [c]))"

definition compute_eval_order :: "nat \<Rightarrow> dag_node list \<Rightarrow> node_id list option" where
  "compute_eval_order fuel nodes =
     (let d = in_degrees nodes;
          queue = map id_of_len (filter (\<lambda>i. d ! i = 0) [0..<length nodes])
      in map_option rev (kahn_loop fuel nodes (by_priority nodes queue) d []))"

definition set_roots :: "node_id list \<Rightarrow> compiled_dag \<Rightarrow> compiled_dag option" where
  "set_roots roots d =
     map_option (\<lambda>order. d\<lparr>dag_roots := roots, eval_order := order\<rparr>)
       (compute_eval_order (length (dag_nodes d)) (dag_nodes d))"

section \<open>Evaluation\<close>

text \<open>\<open>all\<close>, \<open>any\<close> and \<open>filter\<close> over the results of the children; the first two stop early.\<close>

fun all_children :: "bool list \<Rightarrow> node_id list \<Rightarrow> panic + bool" where
  "all_children r [] = Inr True"
| "all_children r (c # cs) =
     (if c < length r then (if r ! c then all_children r cs else Inr False) else Inl IndexOutOfBounds)"

fun any_child :: "bool list \<Rightarrow> node_id list \<Rightarrow> panic + bool" where
  "any_child r [] = Inr False"
| "any_child r (c # cs) =
     (if c < length r then (if r ! c then Inr True else any_child r cs) else Inl IndexOutOfBounds)"

fun count_children :: "bool list \<Rightarrow> node_id list \<Rightarrow> panic + nat" where
  "count_children r [] = Inr 0"
| "count_children r (c # cs) =
     (if c < length r then map_sum id (\<lambda>n. (if r ! c then 1 else 0) + n) (count_children r cs) else Inl IndexOutOfBounds)"

fun node_result :: "u128 \<Rightarrow> dag_node \<Rightarrow> bool list \<Rightarrow> dag_node_type \<Rightarrow> panic + bool" where
  "node_result bits node r (FlagCheck f) = Inr (bits AND flag_bit f \<noteq> 0)"
| "node_result bits node r AndGroup = all_children r (dn_children node)"
| "node_result bits node r OrGroup = any_child r (dn_children node)"
| "node_result bits node r NotGate =
     (case dn_children node of
        [] \<Rightarrow> Inr True
      | c # _ \<Rightarrow> if c < length r then Inr (\<not> r ! c) else Inl IndexOutOfBounds)"
| "node_result bits node r (ThresholdGate required) =
     map_sum id (\<lambda>n. n \<ge> unat required) (count_children r (dn_children node))"
| "node_result bits node r CustomPredicate = Inr (bits AND required_flags node \<noteq> 0)"

definition evaluate_node :: "dag_node list \<Rightarrow> u128 \<Rightarrow> node_id \<Rightarrow> bool list \<Rightarrow> panic + bool list" where
  "evaluate_node nodes bits i r =
     (if i \<ge> length nodes then Inl IndexOutOfBounds
      else if \<not> dn_enabled (nodes ! i) then Inr (r[i := True])
      else case node_result bits (nodes ! i) r (node_type (nodes ! i)) of
        Inl e \<Rightarrow> Inl e
      | Inr b \<Rightarrow> Inr (r[i := b \<and> bits AND required_flags (nodes ! i) = required_flags (nodes ! i)]))"

fun evaluate_nodes :: "dag_node list \<Rightarrow> u128 \<Rightarrow> node_id list \<Rightarrow> bool list \<Rightarrow> panic + bool list" where
  "evaluate_nodes nodes bits [] r = Inr r"
| "evaluate_nodes nodes bits (i # is) r =
     (case evaluate_node nodes bits i r of Inl e \<Rightarrow> Inl e | Inr r' \<Rightarrow> evaluate_nodes nodes bits is r')"

fun find_veto :: "dag_node list \<Rightarrow> u128 \<Rightarrow> node_id list \<Rightarrow> panic + u128 option" where
  "find_veto nodes bits [] = Inr None"
| "find_veto nodes bits (i # is) =
     (if i \<ge> length nodes then Inl IndexOutOfBounds
      else if bits AND veto_flags (nodes ! i) \<noteq> 0 then Inr (Some (veto_flags (nodes ! i)))
      else find_veto nodes bits is)"

definition failed_mask :: "dag_node list \<Rightarrow> node_id list \<Rightarrow> bool list \<Rightarrow> u128" where
  "failed_mask nodes roots r =
     fold (\<lambda>i m. if \<not> r ! i then m OR required_flags (nodes ! i) else m) roots 0"

definition evaluate :: "u64 \<Rightarrow> u128 \<Rightarrow> compiled_dag \<Rightarrow> panic + compliance_result \<times> compiled_dag" where
  "evaluate elapsed bits d =
     (let nodes = dag_nodes d;
          d1 = d\<lparr>total_evaluations := total_evaluations d + 1\<rparr>;
          fail = d1\<lparr>total_failures := total_failures d1 + 1\<rparr>
      in case find_veto nodes bits (dag_roots d) of
           Inl e \<Rightarrow> Inl e
         | Inr (Some veto) \<Rightarrow> Inr (compliance_failed veto elapsed, fail)
         | Inr None \<Rightarrow>
             (case evaluate_nodes nodes bits (eval_order d) (replicate (length nodes) False) of
                Inl e \<Rightarrow> Inl e
              | Inr r \<Rightarrow>
                  (case all_children r (dag_roots d) of
                     Inl e \<Rightarrow> Inl e
                   | Inr True \<Rightarrow> Inr (compliance_passed, d1)
                   | Inr False \<Rightarrow> Inr (compliance_failed (failed_mask nodes (dag_roots d) r) elapsed, fail))))"

section \<open>The order is topological\<close>

abbreviation kids :: "dag_node list \<Rightarrow> node_id \<Rightarrow> node_id list" where
  "kids nodes u \<equiv> dn_children (nodes ! u)"

text \<open>The number of edges to \<open>v\<close> from nodes in a set.\<close>

definition edges_into :: "dag_node list \<Rightarrow> node_id set \<Rightarrow> node_id \<Rightarrow> nat" where
  "edges_into nodes us v = (\<Sum>u\<in>us. count_list (kids nodes u) v)"

lemma fold_count_children:
  assumes "length d = n"
  shows "length (fold (\<lambda>c d. if c < n then d[c := d ! c + 1] else d) cs d) = n \<and>
    (\<forall>v<n. fold (\<lambda>c d. if c < n then d[c := d ! c + 1] else d) cs d ! v = d ! v + count_list cs v)"
  using assms
proof (induction cs arbitrary: d)
  case (Cons c cs)
  show ?case using Cons.IH [of "if c < n then d[c := d ! c + 1] else d"] Cons.prems by (auto simp: nth_list_update)
qed simp

lemma fold_count_nodes:
  assumes "length d = n"
  shows "length (fold (\<lambda>node d. fold (\<lambda>c d. if c < n then d[c := d ! c + 1] else d) (dn_children node) d) ns d) = n \<and>
    (\<forall>v<n. fold (\<lambda>node d. fold (\<lambda>c d. if c < n then d[c := d ! c + 1] else d) (dn_children node) d) ns d ! v =
       d ! v + (\<Sum>node\<leftarrow>ns. count_list (dn_children node) v))"
  using assms
proof (induction ns arbitrary: d)
  case (Cons node ns)
  let ?d = "fold (\<lambda>c d. if c < n then d[c := d ! c + 1] else d) (dn_children node) d"
  have "length ?d = n" "\<forall>v<n. ?d ! v = d ! v + count_list (dn_children node) v"
    using fold_count_children [OF Cons.prems] by blast+
  then show ?case using Cons.IH [of ?d] by simp
qed simp

lemma in_degrees_edges:
  "length (in_degrees nodes) = length nodes \<and>
   (\<forall>v<length nodes. in_degrees nodes ! v = edges_into nodes {..<length nodes} v)"
proof -
  have "(\<Sum>node\<leftarrow>nodes. count_list (dn_children node) v) = edges_into nodes {..<length nodes} v" for v
    by (simp add: edges_into_def sum_list_sum_nth atLeast0LessThan)
  then show ?thesis
    using fold_count_nodes [of "replicate (length nodes) 0" "length nodes" nodes] by (simp add: in_degrees_def)
qed

text \<open>One node is done: its edges are taken away, and the queue stays the set of the waiting nodes
  without edges into them.\<close>

lemma release_children:
  assumes "length d = length nodes" "distinct (order @ waiting)" "set (order @ waiting) \<subseteq> {..<length nodes}"
    and "\<forall>v<length nodes. d ! v = base v + count_list cs v"
    and "\<forall>v<length nodes. v \<in> set (order @ waiting) \<longleftrightarrow> d ! v = 0"
  obtains w' d' where "fold (release_child nodes) cs (waiting, d) = (w', d')" "length d' = length nodes"
    "distinct (order @ w')" "set (order @ w') \<subseteq> {..<length nodes}" "\<forall>v<length nodes. d' ! v = base v"
    "\<forall>v<length nodes. v \<in> set (order @ w') \<longleftrightarrow> d' ! v = 0"
  using assms
proof (induction cs arbitrary: waiting d thesis)
  case Nil
  show ?case by (rule Nil(1) [of waiting d]) (use Nil in auto)
next
  case (Cons c cs)
  obtain w1 d1 where r: "release_child nodes c (waiting, d) = (w1, d1)" by (cases "release_child nodes c (waiting, d)")
  have "length d1 = length nodes \<and> distinct (order @ w1) \<and> set (order @ w1) \<subseteq> {..<length nodes} \<and>
    (\<forall>v<length nodes. d1 ! v = base v + count_list cs v) \<and> (\<forall>v<length nodes. v \<in> set (order @ w1) \<longleftrightarrow> d1 ! v = 0)"
  proof (cases "c < length nodes")
    case False
    then have "w1 = waiting" "d1 = d" using r by (auto simp: release_child_def)
    then show ?thesis using Cons.prems False by auto
  next
    case True
    have dc: "d ! c = base c + count_list cs c + 1" using Cons.prems(5) True by simp
    then have "c \<notin> set (order @ waiting)" using Cons.prems(6) True by auto
    moreover have "d1 = d[c := d ! c - 1]" "w1 = (if d ! c - 1 = 0 then by_priority nodes (waiting @ [c]) else waiting)"
      using r True Cons.prems(2) by (auto simp: release_child_def Let_def split: if_splits)
    ultimately show ?thesis
      using Cons.prems(2-6) True dc by (auto simp: by_priority_def nth_list_update)
  qed
  then show ?case
    using r by (intro Cons.IH [OF Cons.prems(1), of w1 d1]) auto
qed

definition kahn_inv :: "dag_node list \<Rightarrow> node_id list \<Rightarrow> nat list \<Rightarrow> node_id list \<Rightarrow> bool" where
  "kahn_inv nodes waiting d order \<longleftrightarrow>
     length d = length nodes \<and> distinct (order @ waiting) \<and> set (order @ waiting) \<subseteq> {..<length nodes} \<and>
     (\<forall>v<length nodes. d ! v = edges_into nodes ({..<length nodes} - set order) v) \<and>
     (\<forall>v<length nodes. v \<in> set (order @ waiting) \<longleftrightarrow> d ! v = 0) \<and>
     (\<forall>i<length order. \<forall>u<length nodes. order ! i \<in> set (kids nodes u) \<longrightarrow> u \<in> set (take i order))"

lemma edges_into_zero:
  "finite us \<Longrightarrow> edges_into nodes us v = 0 \<longleftrightarrow> (\<forall>u\<in>us. v \<notin> set (kids nodes u))"
  by (simp add: edges_into_def count_list_0_iff)

lemma kahn_inv_step:
  assumes "kahn_inv nodes (c # waiting) d order"
  obtains w' d' where "fold (release_child nodes) (kids nodes c) (waiting, d) = (w', d')"
    "kahn_inv nodes w' d' (order @ [c])"
proof -
  let ?n = "length nodes"
  let ?rest = "{..<?n} - set (order @ [c])"
  have c: "c < ?n" "c \<notin> set order" using assms by (auto simp: kahn_inv_def)
  have rest: "{..<?n} - set order = insert c ?rest" using c by auto
  have "finite ?rest" "c \<notin> ?rest" by simp_all
  then have "edges_into nodes ({..<?n} - set order) v = edges_into nodes ?rest v + count_list (kids nodes c) v" for v
    unfolding rest edges_into_def by simp
  then have base: "\<forall>v<?n. d ! v = edges_into nodes ?rest v + count_list (kids nodes c) v"
    using assms unfolding kahn_inv_def by metis
  have dc: "d ! c = 0" using assms c by (auto simp: kahn_inv_def)
  have inv: "length d = ?n" "distinct ((order @ [c]) @ waiting)" "set ((order @ [c]) @ waiting) \<subseteq> {..<?n}"
    "\<forall>v<?n. v \<in> set ((order @ [c]) @ waiting) \<longleftrightarrow> d ! v = 0"
    using assms unfolding kahn_inv_def append_assoc append_Cons append_Nil by blast+
  obtain w' d' where f: "fold (release_child nodes) (kids nodes c) (waiting, d) = (w', d')" "length d' = ?n"
    "distinct ((order @ [c]) @ w')" "set ((order @ [c]) @ w') \<subseteq> {..<?n}" "\<forall>v<?n. d' ! v = edges_into nodes ?rest v"
    "\<forall>v<?n. v \<in> set ((order @ [c]) @ w') \<longleftrightarrow> d' ! v = 0"
    by (rule release_children [OF inv(1-3) base inv(4)])
  have "\<forall>u<?n. c \<in> set (kids nodes u) \<longrightarrow> u \<in> set order"
    using assms dc c edges_into_zero [of "{..<?n} - set order" nodes c] by (auto simp: kahn_inv_def)
  then have "\<forall>i<length (order @ [c]). \<forall>u<?n. (order @ [c]) ! i \<in> set (kids nodes u) \<longrightarrow> u \<in> set (take i (order @ [c]))"
    using assms by (auto simp: kahn_inv_def nth_append less_Suc_eq)
  then have "kahn_inv nodes w' d' (order @ [c])" using f(2-6) by (simp only: kahn_inv_def)
  then show thesis using that f(1) by blast
qed

text \<open>As every node is queued at most once, the loop ends within as many steps as there are nodes.\<close>

lemma kahn_loop_inv:
  assumes "kahn_inv nodes waiting d order" "length nodes \<le> length order + fuel"
  shows "\<exists>order' d'. kahn_loop fuel nodes waiting d order = Some order' \<and> kahn_inv nodes [] d' order'"
  using assms
proof (induction fuel nodes waiting d order rule: kahn_loop.induct)
  case (1 fuel nodes d order)
  then show ?case by auto
next
  case (2 nodes c waiting d order)
  have "distinct (order @ c # waiting)" "set (order @ c # waiting) \<subseteq> {..<length nodes}"
    using 2(1) unfolding kahn_inv_def by blast+
  then have "length (order @ c # waiting) \<le> card {..<length nodes}"
    by (metis distinct_card card_mono finite_lessThan)
  then show ?case using 2(2) by simp
next
  case (3 n nodes c waiting d order)
  obtain w' d' where "fold (release_child nodes) (kids nodes c) (waiting, d) = (w', d')" "kahn_inv nodes w' d' (order @ [c])"
    by (rule kahn_inv_step [OF 3(2)])
  then show ?case using 3 by simp
qed

definition dag_edges :: "dag_node list \<Rightarrow> (node_id \<times> node_id) set" where
  "dag_edges nodes = {(u, v). u < length nodes \<and> v < length nodes \<and> v \<in> set (kids nodes u)}"

lemma kahn_complete:
  assumes "kahn_inv nodes [] d order" "acyclic (dag_edges nodes)"
  shows "set order = {..<length nodes}"
proof (rule ccontr)
  let ?left = "{..<length nodes} - set order"
  assume "set order \<noteq> {..<length nodes}"
  then have "?left \<noteq> {}" using assms(1) by (auto simp: kahn_inv_def)
  have "finite (dag_edges nodes)"
    by (rule finite_subset [of _ "{..<length nodes} \<times> {..<length nodes}"]) (auto simp: dag_edges_def)
  then have "wf (dag_edges nodes)" using assms(2) by (rule finite_acyclic_wf)
  then obtain v where v: "v \<in> ?left" "\<forall>u. (u, v) \<in> dag_edges nodes \<longrightarrow> u \<notin> ?left"
    using \<open>?left \<noteq> {}\<close> by (metis (no_types, lifting) ex_in_conv wf_eq_minimal)
  then have "edges_into nodes ?left v = 0" by (auto simp: edges_into_zero dag_edges_def)
  then have "d ! v = 0" using assms(1) v(1) by (auto simp: kahn_inv_def)
  then show False using assms(1) v(1) by (auto simp: kahn_inv_def)
qed

text \<open>The order of evaluation has every node once, and children before their parents.\<close>

definition topological :: "dag_node list \<Rightarrow> node_id list \<Rightarrow> bool" where
  "topological nodes order \<longleftrightarrow> distinct order \<and> set order = {..<length nodes} \<and>
     (\<forall>i<length order. \<forall>v. (order ! i, v) \<in> dag_edges nodes \<longrightarrow> v \<in> set (take i order))"

lemma compute_eval_order_topological:
  assumes "length nodes \<le> 2 ^ 32" "length nodes \<le> fuel" "acyclic (dag_edges nodes)"
  shows "\<exists>order. compute_eval_order fuel nodes = Some order \<and> topological nodes order"
proof -
  let ?n = "length nodes" and ?d = "in_degrees nodes"
  have ids: "map id_of_len (filter (\<lambda>i. ?d ! i = 0) [0..<?n]) = filter (\<lambda>i. ?d ! i = 0) [0..<?n]"
    using assms(1) by (intro map_idI) (auto simp: id_of_len_def)
  have "kahn_inv nodes (by_priority nodes (filter (\<lambda>i. ?d ! i = 0) [0..<?n])) ?d []"
    using in_degrees_edges [of nodes] by (auto simp: kahn_inv_def by_priority_def)
  from kahn_loop_inv [OF this, of fuel] assms(2)
  obtain order d' where k: "kahn_loop fuel nodes (by_priority nodes (filter (\<lambda>i. ?d ! i = 0) [0..<?n])) ?d [] = Some order"
    and inv: "kahn_inv nodes [] d' order"
    by auto
  have all: "set order = {..<?n}" by (rule kahn_complete [OF inv assms(3)])
  have "v \<in> set (take i (rev order))"
    if i: "i < length (rev order)" "rev order ! i = u" and e: "(u, v) \<in> dag_edges nodes" for i u v
  proof -
    from i e have "v \<in> set order" using all by (simp add: dag_edges_def)
    then obtain j where j: "j < length order" "order ! j = v" by (auto simp: in_set_conv_nth)
    then have "u \<in> set (take j order)" using inv e by (auto simp: kahn_inv_def dag_edges_def)
    then obtain k where "k < j" "order ! k = u" using j by (auto simp: in_set_conv_nth)
    moreover have "order ! (length order - Suc i) = u" using i by (simp add: rev_nth)
    moreover have "distinct order" using inv by (simp add: kahn_inv_def)
    ultimately have "k = length order - Suc i"
      using i(1) j(1) nth_eq_iff_index_eq [of order k "length order - Suc i"] by simp
    then have "length order - Suc j < i" using \<open>k < j\<close> j i by simp
    moreover have "rev order ! (length order - Suc j) = v" using j by (simp add: rev_nth)
    ultimately show "v \<in> set (take i (rev order))"
      using i j by (auto simp: in_set_conv_nth intro!: exI [of _ "length order - Suc j"])
  qed
  moreover have "distinct (rev order)" "set (rev order) = {..<?n}" using inv all by (auto simp: kahn_inv_def)
  moreover have "compute_eval_order fuel nodes = Some (rev order)" using k ids by (simp add: compute_eval_order_def Let_def)
  ultimately show ?thesis unfolding topological_def by blast
qed

section \<open>Evaluation solves the rules\<close>

text \<open>What a node stands for, given what its children stand for.\<close>

definition node_value :: "dag_node list \<Rightarrow> u128 \<Rightarrow> (node_id \<Rightarrow> bool) \<Rightarrow> node_id \<Rightarrow> bool" where
  "node_value nodes bits r i \<longleftrightarrow>
     (let node = nodes ! i; cs = dn_children node
      in \<not> dn_enabled node \<or>
         (case node_type node of
            FlagCheck f \<Rightarrow> bits AND flag_bit f \<noteq> 0
          | AndGroup \<Rightarrow> \<forall>c\<in>set cs. r c
          | OrGroup \<Rightarrow> \<exists>c\<in>set cs. r c
          | NotGate \<Rightarrow> cs = [] \<or> \<not> r (hd cs)
          | ThresholdGate k \<Rightarrow> unat k \<le> length (filter r cs)
          | CustomPredicate \<Rightarrow> bits AND required_flags node \<noteq> 0) \<and>
         bits AND required_flags node = required_flags node)"

lemma node_value_cong:
  "\<forall>c\<in>set (kids nodes i). r c = r' c \<Longrightarrow> node_value nodes bits r i = node_value nodes bits r' i"
  by (cases "node_type (nodes ! i)") (auto simp: node_value_def Let_def cong: filter_cong)

lemma all_children_eq: "\<forall>c\<in>set cs. c < length r \<Longrightarrow> all_children r cs = Inr (\<forall>c\<in>set cs. r ! c)"
  by (induction cs) auto

lemma any_child_eq: "\<forall>c\<in>set cs. c < length r \<Longrightarrow> any_child r cs = Inr (\<exists>c\<in>set cs. r ! c)"
  by (induction cs) auto

lemma count_children_eq: "\<forall>c\<in>set cs. c < length r \<Longrightarrow> count_children r cs = Inr (length (filter ((!) r) cs))"
  by (induction cs) auto

lemma evaluate_node_eq:
  assumes "i < length nodes" "\<forall>c\<in>set (kids nodes i). c < length r"
  shows "evaluate_node nodes bits i r = Inr (r[i := node_value nodes bits ((!) r) i])"
  using assms
  by (cases "node_type (nodes ! i)"; cases "kids nodes i")
    (auto simp: evaluate_node_def node_value_def Let_def all_children_eq any_child_eq count_children_eq
      simp del: all_children.simps any_child.simps count_children.simps)

lemma evaluate_nodes_append:
  "evaluate_nodes nodes bits (xs @ ys) r =
     (case evaluate_nodes nodes bits xs r of Inl e \<Rightarrow> Inl e | Inr r' \<Rightarrow> evaluate_nodes nodes bits ys r')"
  by (induction xs arbitrary: r) (auto split: sum.split)

lemma evaluate_nodes_solves:
  assumes topo: "topological nodes order"
    and range: "\<forall>u<length nodes. \<forall>c\<in>set (kids nodes u). c < length nodes"
    and "j \<le> length order" "length r0 = length nodes"
  shows "\<exists>r. evaluate_nodes nodes bits (take j order) r0 = Inr r \<and> length r = length nodes \<and>
    (\<forall>i\<in>set (take j order). r ! i = node_value nodes bits ((!) r) i)"
  using assms(3)
proof (induction j)
  case 0
  then show ?case using assms(4) by simp
next
  case (Suc j)
  then obtain r where r: "evaluate_nodes nodes bits (take j order) r0 = Inr r" "length r = length nodes"
    "\<forall>i\<in>set (take j order). r ! i = node_value nodes bits ((!) r) i"
    by auto
  let ?i = "order ! j"
  have j: "j < length order" using Suc.prems by simp
  then have i: "?i < length nodes" using topo nth_mem [of j order] by (auto simp: topological_def)
  have "distinct (take (Suc j) order)" using topo by (simp add: topological_def)
  then have new: "?i \<notin> set (take j order)" using j by (simp add: take_Suc_conv_app_nth)
  let ?r = "r[?i := node_value nodes bits ((!) r) ?i]"
  have cs: "\<forall>c\<in>set (kids nodes ?i). c < length r" using range i r(2) by simp
  have "evaluate_nodes nodes bits (take (Suc j) order) r0 = Inr ?r"
    using r(1) evaluate_node_eq [OF i cs] j by (simp add: take_Suc_conv_app_nth evaluate_nodes_append)
  moreover have "?r ! k = node_value nodes bits ((!) ?r) k" if mem: "k \<in> set (take (Suc j) order)" for k
  proof -
    obtain m where "m < length (take (Suc j) order)" "take (Suc j) order ! m = k"
      using mem by (metis in_set_conv_nth)
    then have m: "m \<le> j" "order ! m = k" by simp_all
    have k: "k < length nodes" using m j topo nth_mem [of m order] by (auto simp: topological_def)
    have "\<forall>c\<in>set (kids nodes k). c \<noteq> ?i"
    proof
      fix c
      assume "c \<in> set (kids nodes k)"
      then have "(k, c) \<in> dag_edges nodes" using k range by (simp add: dag_edges_def)
      then have "c \<in> set (take m order)" using topo m j by (auto simp: topological_def)
      then show "c \<noteq> ?i" using new m(1) by (metis set_take_subset_set_take subsetD)
    qed
    then have same: "node_value nodes bits ((!) ?r) k = node_value nodes bits ((!) r) k"
      by (intro node_value_cong) (metis nth_list_update_neq)
    show ?thesis
    proof (cases "k = ?i")
      case True
      then show ?thesis using same i r(2) by simp
    next
      case False
      then have "k \<in> set (take j order)" using mem j by (simp add: take_Suc_conv_app_nth)
      then show ?thesis using same r(3) False by simp
    qed
  qed
  ultimately show ?case using r(2) by (intro exI [of _ ?r]) simp
qed

text \<open>On an acyclic graph the rules determine the values.\<close>

lemma node_values_unique:
  assumes "acyclic (dag_edges nodes)" "\<forall>u<length nodes. \<forall>c\<in>set (kids nodes u). c < length nodes"
    "\<forall>i<length nodes. r i = node_value nodes bits r i" "\<forall>i<length nodes. r' i = node_value nodes bits r' i"
  shows "i < length nodes \<Longrightarrow> r i = r' i"
proof -
  have "finite (dag_edges nodes)"
    by (rule finite_subset [of _ "{..<length nodes} \<times> {..<length nodes}"]) (auto simp: dag_edges_def)
  then have "wf ((dag_edges nodes)\<inverse>)" using assms(1) by (rule finite_acyclic_wf_converse)
  then show "i < length nodes \<Longrightarrow> r i = r' i"
  proof (induction i rule: wf_induct_rule)
    case (less i)
    have "\<forall>c\<in>set (kids nodes i). r c = r' c"
      using less assms(2) by (auto simp: dag_edges_def)
    then show ?case using node_value_cong assms(3,4) less.prems by metis
  qed
qed

lemma find_veto_eq:
  "\<forall>i\<in>set is. i < length nodes \<Longrightarrow>
   \<exists>v. find_veto nodes bits is = Inr v \<and> (v = None \<longleftrightarrow> (\<forall>i\<in>set is. bits AND veto_flags (nodes ! i) = 0))"
  by (induction "is") auto

lemma rules_evaluated:
  assumes "length (dag_nodes d) \<le> 2 ^ 32" and "acyclic (dag_edges (dag_nodes d))"
    and "\<forall>u<length (dag_nodes d). \<forall>c\<in>set (dn_children (dag_nodes d ! u)). c < length (dag_nodes d)"
    and "\<forall>i\<in>set roots. i < length (dag_nodes d)"
  shows "\<exists>d' res d'' r. set_roots roots d = Some d' \<and> evaluate elapsed bits d' = Inr (res, d'') \<and>
    (\<forall>i<length (dag_nodes d). r i = node_value (dag_nodes d) bits r i) \<and>
    (cr_passed res \<longleftrightarrow> (\<forall>i\<in>set roots. r i \<and> bits AND veto_flags (dag_nodes d ! i) = 0))"
proof -
  let ?nodes = "dag_nodes d"
  obtain order where o: "compute_eval_order (length ?nodes) ?nodes = Some order" "topological ?nodes order"
    using compute_eval_order_topological [OF assms(1) order_refl assms(2)] by blast
  obtain r where r: "evaluate_nodes ?nodes bits order (replicate (length ?nodes) False) = Inr r" "length r = length ?nodes"
    "\<forall>i<length ?nodes. r ! i = node_value ?nodes bits ((!) r) i"
    using evaluate_nodes_solves [OF o(2) assms(3) order_refl, of "replicate (length ?nodes) False" bits] o(2)
    by (auto simp: topological_def)
  obtain v where v: "find_veto ?nodes bits roots = Inr v"
    "v = None \<longleftrightarrow> (\<forall>i\<in>set roots. bits AND veto_flags (?nodes ! i) = 0)"
    using find_veto_eq [OF assms(4)] by blast
  have a: "all_children r roots = Inr (\<forall>i\<in>set roots. r ! i)" using assms(4) r(2) by (simp add: all_children_eq)
  let ?d = "d\<lparr>dag_roots := roots, eval_order := order\<rparr>"
  have s: "set_roots roots d = Some ?d" using o(1) by (simp add: set_roots_def)
  have "\<exists>res d''. evaluate elapsed bits ?d = Inr (res, d'') \<and>
    (cr_passed res \<longleftrightarrow> (\<forall>i\<in>set roots. r ! i \<and> bits AND veto_flags (?nodes ! i) = 0))"
    using v r(1) a
    by (cases v; cases "\<forall>i\<in>set roots. r ! i")
      (auto simp: evaluate_def Let_def compliance_failed_def compliance_passed_def)
  then show ?thesis using s r(3) by blast
qed

text \<open>C17. On an acyclic graph of rules, setting the roots succeeds, and every evaluation returns and
  computes the meaning of the rules: there are values of the nodes, unique by their equations, such
  that an evaluation passes exactly if every root holds and none is vetoed.\<close>

theorem evaluate_computes_rules:
  assumes "length (dag_nodes d) \<le> 2 ^ 32" and "acyclic (dag_edges (dag_nodes d))"
    and "\<forall>u<length (dag_nodes d). \<forall>c\<in>set (dn_children (dag_nodes d ! u)). c < length (dag_nodes d)"
    and "\<forall>i\<in>set roots. i < length (dag_nodes d)"
  shows "\<exists>d' res d'' r. set_roots roots d = Some d' \<and> evaluate elapsed bits d' = Inr (res, d'') \<and>
    (\<forall>i<length (dag_nodes d). r i = node_value (dag_nodes d) bits r i) \<and>
    (cr_passed res \<longleftrightarrow> (\<forall>i\<in>set roots. r i \<and> bits AND veto_flags (dag_nodes d ! i) = 0))"
  using rules_evaluated [OF assms] .

definition flag_node :: "compliance_flag \<Rightarrow> u8 \<Rightarrow> dag_node" where
  "flag_node f priority =
     \<lparr>dn_id = 0, node_type = FlagCheck f, required_flags = flag_bit f, veto_flags = 0, dn_children = [],
      dn_parent = None, dn_priority = priority, dn_enabled = True\<rparr>"

definition gate_node :: "dag_node_type \<Rightarrow> node_id list \<Rightarrow> dag_node" where
  "gate_node t cs =
     \<lparr>dn_id = 0, node_type = t, required_flags = 0, veto_flags = 0, dn_children = cs,
      dn_parent = None, dn_priority = 0, dn_enabled = True\<rparr>"

definition example_dag :: compiled_dag where
  "example_dag = new_dag\<lparr>dag_nodes := [flag_node ValidSymbol 1, flag_node ValidQuantity 1, gate_node AndGroup [0, 1]]\<rparr>"

theorem evaluate_computes_rules_witness:
  "\<exists>d' res d'' r. set_roots [2] example_dag = Some d' \<and> evaluate 0 1 d' = Inr (res, d'') \<and>
    (\<forall>i<3. r i = node_value (dag_nodes example_dag) 1 r i) \<and> \<not> cr_passed res"
proof -
  have n: "dag_nodes example_dag = [flag_node ValidSymbol 1, flag_node ValidQuantity 1, gate_node AndGroup [0, 1]]"
    by (simp add: example_dag_def)
  have "dag_edges (dag_nodes example_dag) \<subseteq> {(u, v). v < u}"
    by (auto simp: dag_edges_def n nth_Cons' flag_node_def gate_node_def split: if_splits)
  moreover have "trans {(u, v :: nat). v < u}" by (auto simp: trans_def)
  then have "acyclic {(u, v :: nat). v < u}" by (auto simp: acyclic_def trancl_id)
  ultimately have a: "acyclic (dag_edges (dag_nodes example_dag))" by (meson acyclic_subset)
  have r: "\<forall>u<length (dag_nodes example_dag). \<forall>c\<in>set (dn_children (dag_nodes example_dag ! u)).
      c < length (dag_nodes example_dag)" "\<forall>i\<in>set [2]. i < length (dag_nodes example_dag)"
    "length (dag_nodes example_dag) \<le> 2 ^ 32"
    by (auto simp: n nth_Cons' flag_node_def gate_node_def less_Suc_eq)
  obtain d' res d'' v where d: "set_roots [2] example_dag = Some d'" "evaluate 0 1 d' = Inr (res, d'')"
    "\<forall>i<length (dag_nodes example_dag). v i = node_value (dag_nodes example_dag) 1 v i"
    "cr_passed res \<longleftrightarrow> (\<forall>i\<in>set [2]. v i \<and> 1 AND veto_flags (dag_nodes example_dag ! i) = 0)"
    using evaluate_computes_rules [OF r(3) a r(1) r(2), of 0 1] by blast
  have "v 2 = node_value (dag_nodes example_dag) 1 v 2" "v 1 = node_value (dag_nodes example_dag) 1 v 1"
    using d(3) by (simp_all add: n)
  then have "\<not> v 2"
    by (simp add: node_value_def n gate_node_def flag_node_def Let_def)
  then have "\<not> cr_passed res" using d(4) by simp
  moreover have "length (dag_nodes example_dag) = 3" by (simp add: n)
  ultimately show ?thesis using d(1-3) by metis
qed

section \<open>The builder\<close>

record dag_builder =
  db_dag :: compiled_dag
  current_group :: "node_id option"

definition new_builder :: dag_builder where
  "new_builder = \<lparr>db_dag = new_dag, current_group = None\<rparr>"

definition add_flag_check :: "compliance_flag \<Rightarrow> u8 \<Rightarrow> dag_builder \<Rightarrow> dag_builder" where
  "add_flag_check f priority b =
     (let node = \<lparr>dn_id = id_of_len (length (dag_nodes (db_dag b))), node_type = FlagCheck f, required_flags = flag_bit f,
                  veto_flags = 0, dn_children = [], dn_parent = None, dn_priority = priority, dn_enabled = True\<rparr>
      in b\<lparr>db_dag := snd (dag_add_node node (db_dag b))\<rparr>)"

definition start_and_group :: "u8 \<Rightarrow> dag_builder \<Rightarrow> dag_builder" where
  "start_and_group priority b =
     (let node = \<lparr>dn_id = id_of_len (length (dag_nodes (db_dag b))), node_type = AndGroup, required_flags = 0,
                  veto_flags = 0, dn_children = [], dn_parent = current_group b, dn_priority = priority, dn_enabled = True\<rparr>;
          (i, d) = dag_add_node node (db_dag b)
      in b\<lparr>db_dag := d, current_group := Some i\<rparr>)"

definition end_group :: "dag_builder \<Rightarrow> dag_builder" where
  "end_group b =
     (case current_group b of
        None \<Rightarrow> b
      | Some g \<Rightarrow>
          let nodes = dag_nodes (db_dag b);
              above = dn_parent (nodes ! g)
          in (case above of
                None \<Rightarrow> b
              | Some p \<Rightarrow> b\<lparr>db_dag := (db_dag b)\<lparr>dag_nodes :=
                  nodes[p := (nodes ! p)\<lparr>dn_children := dn_children (nodes ! p) @ [g]\<rparr>]\<rparr>\<rparr>)\<lparr>current_group := above\<rparr>)"

definition build_dag :: "node_id list \<Rightarrow> dag_builder \<Rightarrow> compiled_dag option" where
  "build_dag roots b = set_roots roots (db_dag b)"

text \<open>A flag check is never made a child of the group it is added to: a group of flags built like this
  is empty and passes in every state.\<close>

lemma built_group_ignores_flags:
  "\<exists>d res d'. build_dag [0] (end_group (add_flag_check f p (start_and_group q new_builder))) = Some d \<and>
     evaluate t bits d = Inr (res, d') \<and> cr_passed res"
proof -
  let ?b = "end_group (add_flag_check f p (start_and_group q new_builder))"
  let ?nodes = "[\<lparr>dn_id = 0, node_type = AndGroup, required_flags = 0, veto_flags = 0, dn_children = [],
      dn_parent = None, dn_priority = q, dn_enabled = True\<rparr>,
    \<lparr>dn_id = 1, node_type = FlagCheck f, required_flags = flag_bit f, veto_flags = 0, dn_children = [],
      dn_parent = None, dn_priority = p, dn_enabled = True\<rparr>]"
  have n: "dag_nodes (db_dag ?b) = ?nodes"
    by (simp add: end_group_def add_flag_check_def start_and_group_def new_builder_def new_dag_def dag_add_node_def
        id_of_len_def Let_def)
  have e: "dag_edges ?nodes = {}" by (auto simp: dag_edges_def nth_Cons' split: if_splits)
  have "length ?nodes \<le> 2 ^ 32" "acyclic (dag_edges ?nodes)"
    "\<forall>u<length ?nodes. \<forall>c\<in>set (kids ?nodes u). c < length ?nodes" "\<forall>i\<in>set [0]. i < length ?nodes"
    unfolding e by (auto simp: acyclic_def nth_Cons' split: if_splits)
  note rules = rules_evaluated [of "db_dag ?b" "[0]" t bits, unfolded n, OF this]
  then obtain d res d' r where d: "set_roots [0] (db_dag ?b) = Some d" "evaluate t bits d = Inr (res, d')"
    "\<forall>i<length ?nodes. r i = node_value ?nodes bits r i"
    "cr_passed res \<longleftrightarrow> (\<forall>i\<in>set [0]. r i \<and> bits AND veto_flags (?nodes ! i) = 0)"
    by blast
  have "r 0 = node_value ?nodes bits r 0" by (rule d(3) [rule_format]) simp
  moreover have "node_value ?nodes bits r 0" by (simp add: node_value_def)
  ultimately have "cr_passed res" using d(4) by simp
  then show ?thesis using d(1,2) unfolding build_dag_def by blast
qed

text \<open>Two flags have the same bit.\<close>

lemma flags_share_a_bit: "flag_bit SpreadWithinLimits = flag_bit StrategyAuthorized"
  by simp

end
