(* ===== verification/Reg_Sho.thy ===== *)
theory Reg_Sho
  imports Rule_Dag
begin

text \<open>
  Short-sale compliance, \<open>crates/nexus_legal/src/compliance/regsho_locator.rs\<close>: locates that are
  requested and used up, the tick test, and the list of restricted symbols.  The concurrent maps
  are partial maps: every operation works on one entry.  The clock is an argument, and dates of
  settlement are numbers of days.
\<close>

section \<open>Locates\<close>

record sho_config =
  enable_tick_test :: bool
  locate_timeout_secs :: u64
  auto_renew_locates :: bool
  closeout_threshold :: u32

definition default_sho_config :: sho_config where
  "default_sho_config =
     \<lparr>enable_tick_test = True, locate_timeout_secs = 24 * 60 * 60, auto_renew_locates = False, closeout_threshold = 13\<rparr>"

record locate =
  locate_id :: u64
  lo_symbol :: string
  lo_quantity :: i64
  lo_remaining :: i64
  obtained_at_ns :: u64
  expires_at_ns :: u64
  lo_source_id :: string
  bona_fide_mm :: bool
  usage_count :: u64

definition locate_valid :: "u64 \<Rightarrow> locate \<Rightarrow> bool" where
  "locate_valid now l \<longleftrightarrow> now < expires_at_ns l \<and> lo_remaining l > 0"

definition locate_expired :: "u64 \<Rightarrow> locate \<Rightarrow> bool" where
  "locate_expired now l \<longleftrightarrow> now \<ge> expires_at_ns l"

definition can_fill :: "i64 \<Rightarrow> locate \<Rightarrow> bool" where
  "can_fill q l \<longleftrightarrow> lo_remaining l \<ge> q"

definition use_quantity :: "i64 \<Rightarrow> locate \<Rightarrow> bool \<times> locate" where
  "use_quantity q l =
     (if can_fill q l
      then (True, l\<lparr>lo_remaining := s64 (lo_remaining l - q), usage_count := usage_count l + 1\<rparr>)
      else (False, l))"

section \<open>The tick test\<close>

record tick_state =
  ts_symbol :: string
  last_trade_price :: u64
  prev_trade_price :: u64
  current_bid :: u64
  current_ask :: u64
  is_uptick :: bool
  is_zero_uptick :: bool
  ts_last_update_ns :: u64

definition new_tick_state :: "string \<Rightarrow> tick_state" where
  "new_tick_state symbol =
     \<lparr>ts_symbol = symbol, last_trade_price = 0, prev_trade_price = 0, current_bid = 0, current_ask = 0,
      is_uptick = False, is_zero_uptick = False, ts_last_update_ns = 0\<rparr>"

definition update_trade :: "u64 \<Rightarrow> u64 \<Rightarrow> tick_state \<Rightarrow> tick_state" where
  "update_trade price time t =
     (let t1 = t\<lparr>prev_trade_price := last_trade_price t, last_trade_price := price, ts_last_update_ns := time\<rparr>;
          prev = prev_trade_price t1
      in if price > prev \<and> prev > 0 then t1\<lparr>is_uptick := True, is_zero_uptick := False\<rparr>
         else if price = prev \<and> prev > 0 then t1\<lparr>is_zero_uptick := is_uptick t1\<rparr>
         else if price < prev then t1\<lparr>is_uptick := False, is_zero_uptick := False\<rparr>
         else t1)"

definition update_tick_quote :: "u64 \<Rightarrow> u64 \<Rightarrow> u64 \<Rightarrow> tick_state \<Rightarrow> tick_state" where
  "update_tick_quote bid ask time t = t\<lparr>current_bid := bid, current_ask := ask, ts_last_update_ns := time\<rparr>"

definition short_allowed :: "u64 \<Rightarrow> tick_state \<Rightarrow> bool" where
  "short_allowed price t =
     (if price > last_trade_price t then True
      else if price = last_trade_price t then is_zero_uptick t \<or> is_uptick t
      else False)"

section \<open>The engine\<close>

record ftd_record =
  ftd_symbol :: string
  ftd_quantity :: i64
  settlement_date :: int
  days_outstanding :: u32

record sho_engine =
  sho_config :: sho_config
  sho_locates :: "string \<rightharpoonup> locate list"
  tick_states :: "string \<rightharpoonup> tick_state"
  ftd_records :: "string \<rightharpoonup> ftd_record list"
  threshold_list :: "string \<rightharpoonup> u32"
  total_locate_requests :: u64
  total_locate_failures :: u64
  total_tick_test_failures :: u64

definition new_sho_engine :: "sho_config \<Rightarrow> sho_engine" where
  "new_sho_engine c =
     \<lparr>sho_config = c, sho_locates = Map.empty, tick_states = Map.empty, ftd_records = Map.empty,
      threshold_list = Map.empty, total_locate_requests = 0, total_locate_failures = 0, total_tick_test_failures = 0\<rparr>"

definition symbol_locates :: "string \<Rightarrow> sho_engine \<Rightarrow> locate list" where
  "symbol_locates symbol g = (case sho_locates g symbol of None \<Rightarrow> [] | Some ls \<Rightarrow> ls)"

definition request_locate ::
  "u64 \<Rightarrow> string \<Rightarrow> i64 \<Rightarrow> string \<Rightarrow> bool \<Rightarrow> sho_engine \<Rightarrow> locate \<times> sho_engine" where
  "request_locate now symbol q source mm g =
     (let l = \<lparr>locate_id = now XOR word_of_int q, lo_symbol = symbol, lo_quantity = q, lo_remaining = q,
               obtained_at_ns = now, expires_at_ns = now + locate_timeout_secs (sho_config g) * 1000000000,
               lo_source_id = source, bona_fide_mm = mm, usage_count = 0\<rparr>
      in (l, g\<lparr>total_locate_requests := total_locate_requests g + 1,
               sho_locates := (sho_locates g)(symbol \<mapsto> symbol_locates symbol g @ [l])\<rparr>))"

definition available_quantity :: "u64 \<Rightarrow> locate list \<Rightarrow> i64" where
  "available_quantity now ls = fold (\<lambda>l n. s64 (n + lo_remaining l)) (filter (locate_valid now) ls) 0"

definition has_valid_locate :: "u64 \<Rightarrow> string \<Rightarrow> i64 \<Rightarrow> sho_engine \<Rightarrow> bool" where
  "has_valid_locate now symbol q g =
     (case sho_locates g symbol of
        None \<Rightarrow> False
      | Some ls \<Rightarrow> available_quantity now ls \<ge> q)"

definition symbol_restricted :: "string \<Rightarrow> sho_engine \<Rightarrow> bool" where
  "symbol_restricted symbol g =
     (case threshold_list g symbol of None \<Rightarrow> False | Some n \<Rightarrow> n \<ge> closeout_threshold (sho_config g))"

definition validate_short_sale ::
  "u64 \<Rightarrow> u64 \<Rightarrow> string \<Rightarrow> i64 \<Rightarrow> u64 \<Rightarrow> sho_engine \<Rightarrow> compliance_result \<times> sho_engine" where
  "validate_short_sale now elapsed symbol q price g =
     (let located = has_valid_locate now symbol q g;
          f1 = (if \<not> located then flag_bit RegShoLocated else 0);
          g1 = (if \<not> located then g\<lparr>total_locate_failures := total_locate_failures g + 1\<rparr> else g);
          tick_failed = enable_tick_test (sho_config g) \<and>
            (case tick_states g symbol of None \<Rightarrow> False | Some t \<Rightarrow> \<not> short_allowed price t);
          f2 = (if tick_failed then f1 OR flag_bit RegShoTickTestPassed else f1);
          g2 = (if tick_failed then g1\<lparr>total_tick_test_failures := total_tick_test_failures g1 + 1\<rparr> else g1);
          f3 = (if symbol_restricted symbol g then f2 OR flag_bit RegShoNotShortRestricted else f2)
      in (if f3 \<noteq> 0 then compliance_failed f3 elapsed
          else compliance_passed\<lparr>evaluation_time_ns := elapsed\<rparr>, g2))"

text \<open>The locates are used in the order of their expiry, by a stable sort.\<close>

fun use_from :: "u64 \<Rightarrow> i64 \<Rightarrow> locate list \<Rightarrow> bool \<times> locate list" where
  "use_from now q [] = (False, [])"
| "use_from now q (l # ls) =
     (if locate_valid now l
      then let use_qty = min q (lo_remaining l);
               (used, l') = use_quantity use_qty l;
               q' = (if used then s64 (q - use_qty) else q)
           in if q' \<le> 0 then (True, l' # ls)
              else let (b, ls') = use_from now q' ls in (b, l' # ls')
      else let (b, ls') = use_from now q ls in (b, l # ls'))"

definition use_locate :: "u64 \<Rightarrow> string \<Rightarrow> i64 \<Rightarrow> sho_engine \<Rightarrow> bool \<times> sho_engine" where
  "use_locate now symbol q g =
     (case sho_locates g symbol of
        None \<Rightarrow> (False, g)
      | Some ls \<Rightarrow>
          let (b, ls') = use_from now q (sort_key expires_at_ns ls)
          in (b, g\<lparr>sho_locates := (sho_locates g)(symbol \<mapsto> ls')\<rparr>))"

definition update_tick_state :: "string \<Rightarrow> u64 \<Rightarrow> u64 \<Rightarrow> sho_engine \<Rightarrow> sho_engine" where
  "update_tick_state symbol price time g =
     (let t = (case tick_states g symbol of None \<Rightarrow> new_tick_state symbol | Some t \<Rightarrow> t)
      in g\<lparr>tick_states := (tick_states g)(symbol \<mapsto> update_trade price time t)\<rparr>)"

definition update_sho_quote :: "string \<Rightarrow> u64 \<Rightarrow> u64 \<Rightarrow> u64 \<Rightarrow> sho_engine \<Rightarrow> sho_engine" where
  "update_sho_quote symbol bid ask time g =
     (case tick_states g symbol of
        None \<Rightarrow> g
      | Some t \<Rightarrow> g\<lparr>tick_states := (tick_states g)(symbol \<mapsto> update_tick_quote bid ask time t)\<rparr>)"

definition record_ftd :: "string \<Rightarrow> i64 \<Rightarrow> int \<Rightarrow> sho_engine \<Rightarrow> sho_engine" where
  "record_ftd symbol q settled g =
     (let r = \<lparr>ftd_symbol = symbol, ftd_quantity = q, settlement_date = settled, days_outstanding = 0\<rparr>
      in g\<lparr>ftd_records := (ftd_records g)(symbol \<mapsto> (case ftd_records g symbol of None \<Rightarrow> [] | Some rs \<Rightarrow> rs) @ [r]),
           threshold_list := (threshold_list g)(symbol \<mapsto> (case threshold_list g symbol of None \<Rightarrow> 0 | Some n \<Rightarrow> n) + 1)\<rparr>)"

definition cleanup_expired_locates :: "u64 \<Rightarrow> sho_engine \<Rightarrow> sho_engine" where
  "cleanup_expired_locates now g =
     g\<lparr>sho_locates := (\<lambda>symbol. map_option (filter (locate_valid now)) (sho_locates g symbol))\<rparr>"

section \<open>Using locates\<close>

text \<open>What is available, as a sum of integers.\<close>

definition available :: "u64 \<Rightarrow> locate list \<Rightarrow> int" where
  "available now ls = (\<Sum>l\<leftarrow>filter (locate_valid now) ls. lo_remaining l)"

definition locates_ok :: "locate list \<Rightarrow> bool" where
  "locates_ok ls \<longleftrightarrow> (\<forall>l\<in>set ls. 0 \<le> lo_remaining l \<and> lo_remaining l \<le> i64_max)"

lemma locates_ok_Cons [simp]:
  "locates_ok (l # ls) \<longleftrightarrow> 0 \<le> lo_remaining l \<and> lo_remaining l \<le> i64_max \<and> locates_ok ls"
  by (auto simp: locates_ok_def)

lemma available_nonneg: "locates_ok ls \<Longrightarrow> 0 \<le> available now ls"
  unfolding available_def by (rule sum_list_nonneg) (auto simp: locates_ok_def)

lemma available_Cons: "available now (l # ls) = (if locate_valid now l then lo_remaining l else 0) + available now ls"
  by (simp add: available_def)

lemma available_quantity_eq:
  assumes "locates_ok ls" "available now ls \<le> i64_max"
  shows "available_quantity now ls = available now ls"
proof -
  have "0 \<le> n \<Longrightarrow> n + (\<Sum>l\<leftarrow>xs. lo_remaining l) \<le> i64_max \<Longrightarrow> \<forall>l\<in>set xs. 0 \<le> lo_remaining l \<Longrightarrow>
      fold (\<lambda>l n. s64 (n + lo_remaining l)) xs n = n + (\<Sum>l\<leftarrow>xs. lo_remaining l)" for n xs
  proof (induction xs arbitrary: n)
    case (Cons l xs)
    have "0 \<le> (\<Sum>l\<leftarrow>xs. lo_remaining l)" using Cons.prems(3) by (intro sum_list_nonneg) auto
    then have "in_i64 (n + lo_remaining l)" using Cons.prems by (simp add: in_i64_def)
    then show ?case using Cons.IH [of "n + lo_remaining l"] Cons.prems by (simp add: s64_id)
  qed simp
  from this [of 0 "filter (locate_valid now) ls"] show ?thesis
    using assms unfolding available_quantity_def available_def by (auto simp: locates_ok_def)
qed

text \<open>Using takes what it needs, in order; if there is not enough, it takes everything and fails.\<close>

lemma use_from_exact:
  assumes "locates_ok ls" "0 < q" "q \<le> i64_max" "use_from now q ls = (b, ls')"
  shows "(b \<longleftrightarrow> q \<le> available now ls) \<and> available now ls' = (if b then available now ls - q else 0) \<and> locates_ok ls'"
  using assms
proof (induction ls arbitrary: q b ls')
  case Nil
  then show ?case by (simp add: available_def locates_ok_def)
next
  case (Cons l ls)
  have n: "0 \<le> available now ls" using Cons.prems(1) by (intro available_nonneg) simp
  show ?case
  proof (cases "locate_valid now l")
    case False
    obtain b1 ls1 where u: "use_from now q ls = (b1, ls1)" by (cases "use_from now q ls")
    then show ?thesis using Cons.IH [OF _ Cons.prems(2,3) u] Cons.prems(1,4) False by (auto simp: available_Cons)
  next
    case True
    let ?take = "min q (lo_remaining l)"
    have r: "0 < lo_remaining l" "lo_remaining l \<le> i64_max" using True Cons.prems(1) by (auto simp: locate_valid_def)
    have s: "s64 (q - ?take) = q - ?take" "s64 (lo_remaining l - ?take) = lo_remaining l - ?take"
      using r Cons.prems(2,3) by (auto intro!: s64_id simp: in_i64_def)
    let ?l = "l\<lparr>lo_remaining := lo_remaining l - ?take, usage_count := usage_count l + 1\<rparr>"
    have use: "use_quantity ?take l = (True, ?l)" using s by (simp add: use_quantity_def can_fill_def)
    have v: "(if locate_valid now ?l then lo_remaining ?l else 0) = lo_remaining l - ?take"
      using True by (auto simp: locate_valid_def)
    show ?thesis
    proof (cases "q \<le> lo_remaining l")
      case True
      then have "(b, ls') = (True, ?l # ls)" using Cons.prems(4) \<open>locate_valid now l\<close> use s by (simp add: Let_def)
      then show ?thesis
        using True n r v \<open>locate_valid now l\<close> Cons.prems(1,2) by (auto simp: available_Cons)
    next
      case False
      obtain b1 ls1 where u: "use_from now (q - ?take) ls = (b1, ls1)" by (cases "use_from now (q - ?take) ls")
      have "(b, ls') = (b1, ?l # ls1)" using Cons.prems(4) \<open>locate_valid now l\<close> use s u False by (simp add: Let_def)
      moreover have "(b1 \<longleftrightarrow> q - ?take \<le> available now ls) \<and>
          available now ls1 = (if b1 then available now ls - (q - ?take) else 0) \<and> locates_ok ls1"
        using False r Cons.prems by (intro Cons.IH [OF _ _ _ u]) auto
      ultimately show ?thesis
        using False r v \<open>locate_valid now l\<close> Cons.prems(1) by (auto simp: available_Cons)
    qed
  qed
qed

lemma available_sort: "available now (sort_key f ls) = available now ls"
proof -
  have "mset (filter (locate_valid now) (sort_key f ls)) = mset (filter (locate_valid now) ls)" by simp
  then have "mset (map lo_remaining (filter (locate_valid now) (sort_key f ls))) =
      mset (map lo_remaining (filter (locate_valid now) ls))"
    by (metis mset_map)
  then show ?thesis unfolding available_def by (metis sum_mset_sum_list)
qed

text \<open>Using a locate succeeds exactly if enough is located at that time, and then uses exactly the
  quantity of the sale.  When it fails, though, it has used up everything that was valid.\<close>

lemma use_locate_exact:
  assumes "sho_locates g symbol = Some ls" and "locates_ok ls" and "available now ls \<le> i64_max"
    and "0 < q" and "q \<le> i64_max" and "use_locate now symbol q g = (b, g')"
  shows "b = has_valid_locate now symbol q g \<and> locates_ok (symbol_locates symbol g') \<and>
    available now (symbol_locates symbol g') = (if b then available now ls - q else 0)"
proof -
  obtain ls' where u: "use_from now q (sort_key expires_at_ns ls) = (b, ls')"
    and g': "g' = g\<lparr>sho_locates := (sho_locates g)(symbol \<mapsto> ls')\<rparr>"
    using assms(1,6) by (auto simp: use_locate_def split: prod.splits)
  have "locates_ok (sort_key expires_at_ns ls)" using assms(2) by (simp add: locates_ok_def)
  from use_from_exact [OF this assms(4,5) u]
  show ?thesis
    using assms(1-3) g' by (simp add: available_sort has_valid_locate_def available_quantity_eq symbol_locates_def)
qed

lemma use_locate_exact_example:
  "\<not> fst (use_locate 5 ''A'' 300 (snd (request_locate 1 ''A'' 200 ''B'' False (new_sho_engine default_sho_config)))) \<and>
   available 5 (symbol_locates ''A'' (snd (use_locate 5 ''A'' 300
     (snd (request_locate 1 ''A'' 200 ''B'' False (new_sho_engine default_sho_config)))))) = 0"
proof -
  let ?g = "snd (request_locate 1 ''A'' 200 ''B'' False (new_sho_engine default_sho_config))"
  let ?l = "fst (request_locate 1 ''A'' 200 ''B'' False (new_sho_engine default_sho_config))"
  have g: "sho_locates ?g ''A'' = Some [?l]"
    by (simp add: request_locate_def new_sho_engine_def symbol_locates_def Let_def)
  have l: "lo_remaining ?l = 200" "expires_at_ns ?l = 86400000000001"
    by (simp_all add: request_locate_def new_sho_engine_def default_sho_config_def Let_def)
  have a: "available 5 [?l] = 200" "locates_ok [?l]" using l by (simp_all add: available_def locate_valid_def locates_ok_def)
  obtain b g' where u: "use_locate 5 ''A'' 300 ?g = (b, g')" by (cases "use_locate 5 ''A'' 300 ?g")
  have "has_valid_locate 5 ''A'' 300 ?g = False"
    using a by (simp add: has_valid_locate_def g available_quantity_eq)
  then show ?thesis using use_locate_exact [OF g a(2) _ _ _ u] a(1) u by simp
qed

text \<open>Nobody is asked for a locate: whatever is requested is granted.\<close>

lemma request_always_granted:
  assumes "0 < q" "q \<le> i64_max" "sho_locates g symbol = None" "now < now + locate_timeout_secs (sho_config g) * 1000000000"
  shows "has_valid_locate now symbol q (snd (request_locate now symbol q source mm g))"
  using assms
  by (simp add: has_valid_locate_def request_locate_def symbol_locates_def available_quantity_def locate_valid_def
      s64_id in_i64_def Let_def)

text \<open>A sale of a negative quantity adds to the locates.\<close>

lemma negative_use_adds:
  "locate_valid now l \<Longrightarrow> q < 0 \<Longrightarrow> lo_remaining l - q \<le> i64_max \<Longrightarrow>
     use_from now q [l] = (True, [l\<lparr>lo_remaining := lo_remaining l - q, usage_count := usage_count l + 1\<rparr>])"
  by (simp add: locate_valid_def use_quantity_def can_fill_def Let_def min_def s64_id in_i64_def)

section \<open>The tick test tracks the last move\<close>

text \<open>Prices with the newest first: did the last change of price go up?\<close>

fun moved_up :: "u64 list \<Rightarrow> bool" where
  "moved_up (p # p' # ps) = (if p = p' then moved_up (p' # ps) else p > p')"
| "moved_up _ = False"

definition trade_all :: "(u64 \<times> u64) list \<Rightarrow> tick_state \<Rightarrow> tick_state" where
  "trade_all xs t = fold (\<lambda>(price, time). update_trade price time) xs t"

lemma trade_all_tracks:
  "\<forall>x\<in>set xs. 0 < fst x \<Longrightarrow>
   is_uptick (trade_all xs (new_tick_state s)) = moved_up (rev (map fst xs)) \<and>
   (is_zero_uptick (trade_all xs (new_tick_state s)) \<longrightarrow> is_uptick (trade_all xs (new_tick_state s))) \<and>
   last_trade_price (trade_all xs (new_tick_state s)) = (if xs = [] then 0 else fst (last xs))"
proof (induction xs rule: rev_induct)
  case Nil
  then show ?case by (simp add: trade_all_def new_tick_state_def)
next
  case (snoc x xs)
  obtain price time where x: "x = (price, time)" by (cases x)
  let ?t = "trade_all xs (new_tick_state s)"
  have step: "trade_all (xs @ [x]) (new_tick_state s) = update_trade price time ?t" by (simp add: trade_all_def x)
  have ih: "is_uptick ?t = moved_up (rev (map fst xs))" "is_zero_uptick ?t \<longrightarrow> is_uptick ?t"
    "last_trade_price ?t = (if xs = [] then 0 else fst (last xs))"
    using snoc by auto
  show ?case
  proof (cases xs rule: rev_cases)
    case Nil
    then show ?thesis using snoc.prems ih unfolding step by (auto simp: update_trade_def x Let_def)
  next
    case (snoc ys y)
    have "0 < fst y" "0 < price" using \<open>\<forall>x\<in>set (xs @ [x]). 0 < fst x\<close> snoc x by auto
    then show ?thesis using ih snoc unfolding step by (auto simp: update_trade_def x Let_def)
  qed
qed

text \<open>The tick test allows a short sale exactly if its price is above the last trade, or at the last
  trade when the last change of price was upwards, over any sequence of trades.\<close>

lemma tick_test_follows_last_move:
  assumes "xs \<noteq> []" and "\<forall>x\<in>set xs. 0 < fst x"
  shows "short_allowed price (trade_all xs (new_tick_state s)) \<longleftrightarrow>
    price > fst (last xs) \<or> price = fst (last xs) \<and> moved_up (rev (map fst xs))"
  using trade_all_tracks [OF assms(2), of s] assms(1) by (auto simp: short_allowed_def)

lemma tick_test_follows_last_move_example:
  "short_allowed 101 (trade_all [(100, 1), (101, 2), (101, 3)] (new_tick_state ''A'')) \<and>
   \<not> short_allowed 99 (trade_all [(100, 1), (99, 2), (99, 3)] (new_tick_state ''A''))"
  using tick_test_follows_last_move [of "[(100, 1), (101, 2), (101, 3)]" 101 "''A''"]
    tick_test_follows_last_move [of "[(100, 1), (99, 2), (99, 3)]" 99 "''A''"]
  by simp

end
