(* ===== verification/Rlp_Decoder.thy ===== *)
theory Rlp_Decoder
  imports Nexus_Prelude
begin

unbundle bit_operations_syntax

text \<open>
  The decoder of Ethereum transactions, \<open>crates/nexus_web3/src/evm/zero_copy_rlp_decoder.rs\<close>.  A
  buffer is a list of bytes, a reference into it an offset; positions and lengths, \<open>usize\<close> in the
  code, are natural numbers.  Slicing out of range is a panic.  A parser returns its result together
  with the decoder, whose position also moves when it fails.
\<close>

section \<open>Values\<close>

definition MAX_RLP_SIZE :: nat where "MAX_RLP_SIZE = 10 * 1024 * 1024"
definition MAX_STRING_LENGTH :: nat where "MAX_STRING_LENGTH = 32 * 1024 * 1024"

datatype rlp_error =
  BufferTooShort nat nat
| InvalidPrefix nat u8
| PayloadTooLarge nat nat
| StringLengthOverflow nat
| TooManyListItems nat nat
| InvalidLength nat nat
| NonCanonicalLength
| TrailingData

datatype rlp_type = EmptyString | RlpString nat | RlpList nat

record rlp_value =
  rv_data :: "u8 list"
  rv_offset :: nat
  rv_type :: rlp_type

definition length_of_length :: "nat \<Rightarrow> nat" where
  "length_of_length n = (if n < 2 ^ 8 then 1 else if n < 2 ^ 16 then 2 else if n < 2 ^ 24 then 3 else 4)"

fun type_length :: "rlp_type \<Rightarrow> nat" where
  "type_length EmptyString = 0"
| "type_length (RlpString n) = n"
| "type_length (RlpList n) = n"

fun type_header :: "rlp_type \<Rightarrow> nat" where
  "type_header EmptyString = 1"
| "type_header (RlpString n) = (if n < 56 then 1 else 1 + length_of_length n)"
| "type_header (RlpList n) = (if n < 56 then 1 else 1 + length_of_length n)"

definition header_size :: "rlp_value \<Rightarrow> nat" where
  "header_size v = type_header (rv_type v)"

definition total_size :: "rlp_value \<Rightarrow> nat" where
  "total_size v = header_size v + type_length (rv_type v)"

definition slice_from :: "nat \<Rightarrow> nat \<Rightarrow> u8 list \<Rightarrow> panic + u8 list" where
  "slice_from start n data = (if start + n \<le> length data then Inr (take n (drop start data)) else Inl IndexOutOfBounds)"

definition as_bytes :: "rlp_value \<Rightarrow> panic + u8 list" where
  "as_bytes v =
     (case rv_type v of
        EmptyString \<Rightarrow> Inr []
      | RlpString n \<Rightarrow> slice_from (rv_offset v + header_size v) n (rv_data v)
      | RlpList n \<Rightarrow> slice_from (rv_offset v + header_size v) n (rv_data v))"

definition as_u256 :: "rlp_value \<Rightarrow> panic + (rlp_error + u8 list)" where
  "as_u256 v =
     (case as_bytes v of
        Inl e \<Rightarrow> Inl e
      | Inr bytes \<Rightarrow> Inr
          (if bytes = [] then Inr (replicate 32 0)
           else if length bytes > 32 then Inl (StringLengthOverflow (length bytes))
           else Inr (replicate (32 - length bytes) 0 @ bytes)))"

definition u64_checked_shl :: "u64 \<Rightarrow> nat \<Rightarrow> u64 option" where
  "u64_checked_shl x k = (if k < 64 then Some (push_bit k x) else None)"

fun shift_bytes :: "nat \<Rightarrow> u8 list \<Rightarrow> u64 \<Rightarrow> rlp_error + u64" where
  "shift_bytes n [] r = Inr r"
| "shift_bytes n (b # bs) r =
     (case u64_checked_shl r 8 of
        None \<Rightarrow> Inl (StringLengthOverflow n)
      | Some r' \<Rightarrow> shift_bytes n bs (r' OR ucast b))"

definition as_u64 :: "rlp_value \<Rightarrow> panic + (rlp_error + u64)" where
  "as_u64 v =
     (case as_bytes v of
        Inl e \<Rightarrow> Inl e
      | Inr bytes \<Rightarrow> Inr
          (if bytes = [] then Inr 0
           else if length bytes > 8 then Inl (StringLengthOverflow (length bytes))
           else shift_bytes (length bytes) bytes 0))"

section \<open>The decoder\<close>

record rlp_decoder =
  rd_data :: "u8 list"
  rd_position :: nat
  rd_depth :: nat
  rd_max_depth :: nat

definition new_decoder :: "u8 list \<Rightarrow> rlp_decoder" where
  "new_decoder data = \<lparr>rd_data = data, rd_position = 0, rd_depth = 0, rd_max_depth = 32\<rparr>"

definition with_max_depth :: "nat \<Rightarrow> rlp_decoder \<Rightarrow> rlp_decoder" where
  "with_max_depth n d = d\<lparr>rd_max_depth := n\<rparr>"

definition has_remaining :: "rlp_decoder \<Rightarrow> bool" where
  "has_remaining d \<longleftrightarrow> rd_position d < length (rd_data d)"

definition remaining_bytes :: "rlp_decoder \<Rightarrow> nat" where
  "remaining_bytes d = length (rd_data d) - rd_position d"

definition peek_byte :: "rlp_decoder \<Rightarrow> rlp_error + u8" where
  "peek_byte d =
     (if rd_position d \<ge> length (rd_data d) then Inl (BufferTooShort (rd_position d) 1)
      else Inr (rd_data d ! rd_position d))"

definition read_byte :: "rlp_decoder \<Rightarrow> (rlp_error + u8) \<times> rlp_decoder" where
  "read_byte d =
     (case peek_byte d of Inl e \<Rightarrow> (Inl e, d) | Inr b \<Rightarrow> (Inr b, d\<lparr>rd_position := rd_position d + 1\<rparr>))"

definition read_slice :: "nat \<Rightarrow> rlp_decoder \<Rightarrow> (rlp_error + u8 list) \<times> rlp_decoder" where
  "read_slice n d =
     (if n > MAX_STRING_LENGTH then (Inl (StringLengthOverflow n), d)
      else if rd_position d + n \<ge> 2 ^ 64 then (Inl (BufferTooShort (rd_position d) n), d)
      else if rd_position d + n > length (rd_data d) then (Inl (BufferTooShort (rd_position d) n), d)
      else (Inr (take n (drop (rd_position d) (rd_data d))), d\<lparr>rd_position := rd_position d + n\<rparr>))"

text \<open>The length is shifted by a byte and the next byte or-ed in, which is an addition.\<close>

fun read_length :: "nat \<Rightarrow> bool \<Rightarrow> nat \<Rightarrow> rlp_decoder \<Rightarrow> (rlp_error + nat) \<times> rlp_decoder" where
  "read_length 0 first n d = (Inr n, d)"
| "read_length (Suc k) first n d =
     (case read_byte d of
        (Inl e, d') \<Rightarrow> (Inl e, d')
      | (Inr b, d') \<Rightarrow>
          if first \<and> b = 0 then (Inl NonCanonicalLength, d')
          else read_length k False (n * 256 mod 2 ^ 64 + unat b) d')"

definition decode_long_length :: "u8 \<Rightarrow> u8 \<Rightarrow> rlp_decoder \<Rightarrow> (rlp_error + nat) \<times> rlp_decoder" where
  "decode_long_length pre offset d =
     (let length_bytes = unat (pre - offset)
      in if length_bytes = 0 \<or> length_bytes > 4 then (Inl (InvalidPrefix (rd_position d - 1) pre), d)
         else case read_length length_bytes True 0 d of
           (Inl e, d') \<Rightarrow> (Inl e, d')
         | (Inr n, d') \<Rightarrow> if n < 56 then (Inl NonCanonicalLength, d') else (Inr n, d'))"

text \<open>The cases on the prefix, in their order; the second one of the code is covered by the first.\<close>

definition decode_prefix :: "u8 \<Rightarrow> rlp_decoder \<Rightarrow> (rlp_error + rlp_type) \<times> rlp_decoder" where
  "decode_prefix pre d =
     (if pre \<le> 0x7f then (Inr EmptyString, d)
      else if pre = 0x80 then (Inr EmptyString, d)
      else if pre \<le> 0xb7 then (Inr (RlpString (unat (pre - 0x80))), d)
      else if pre \<le> 0xbf then
        (case decode_long_length pre 0xb8 d of
           (Inl e, d') \<Rightarrow> (Inl e, d')
         | (Inr n, d') \<Rightarrow> (Inr (RlpString n), d'))
      else if pre \<le> 0xf7 then (Inr (RlpList (unat (pre - 0xc0))), d\<lparr>rd_depth := rd_depth d + 1\<rparr>)
      else
        (case decode_long_length pre 0xf8 d of
           (Inl e, d') \<Rightarrow> (Inl e, d')
         | (Inr n, d') \<Rightarrow> (Inr (RlpList n), d'\<lparr>rd_depth := rd_depth d' + 1\<rparr>)))"

definition check_payload :: "rlp_type \<Rightarrow> rlp_decoder \<Rightarrow> rlp_error + unit" where
  "check_payload t d =
     (case t of
        EmptyString \<Rightarrow> Inr ()
      | _ \<Rightarrow>
          let n = type_length t
          in if n > MAX_RLP_SIZE then Inl (PayloadTooLarge n MAX_RLP_SIZE)
             else if n > remaining_bytes d then Inl (InvalidLength n (remaining_bytes d))
             else Inr ())"

definition parse_next :: "rlp_decoder \<Rightarrow> (rlp_error + rlp_value) \<times> rlp_decoder" where
  "parse_next d =
     (if rd_depth d \<ge> rd_max_depth d then (Inl (TooManyListItems (rd_depth d) (rd_max_depth d)), d)
      else
        case read_byte d of
          (Inl e, d1) \<Rightarrow> (Inl e, d1)
        | (Inr pre, d1) \<Rightarrow>
            (case decode_prefix pre d1 of
               (Inl e, d2) \<Rightarrow> (Inl e, d2)
             | (Inr t, d2) \<Rightarrow>
                 (case check_payload t d2 of
                    Inl e \<Rightarrow> (Inl e, d2)
                  | Inr _ \<Rightarrow> (Inr \<lparr>rv_data = rd_data d2, rv_offset = rd_position d, rv_type = t\<rparr>, d2))))"

section \<open>Transactions\<close>

record tx_fields =
  tx_nonce :: u64
  gas_price :: "u8 list"
  gas_limit :: "u8 list"
  tx_to :: rlp_value
  tx_value :: "u8 list"
  tx_input :: "u8 list"
  chain_id :: "u64 option"
  tx_v :: "u64 option"
  tx_r :: "u8 list option"
  tx_s :: "u8 list option"

text \<open>A field is a value and a reading of it; an error or a panic ends the transaction.\<close>

definition field ::
  "(rlp_value \<Rightarrow> panic + (rlp_error + 'a)) \<Rightarrow> rlp_decoder \<Rightarrow> ('a \<Rightarrow> rlp_decoder \<Rightarrow> panic + (rlp_error + 'b)) \<Rightarrow>
     panic + (rlp_error + 'b)" where
  "field as d rest =
     (case parse_next d of
        (Inl e, d') \<Rightarrow> Inr (Inl e)
      | (Inr v, d') \<Rightarrow>
          (case as v of Inl p \<Rightarrow> Inl p | Inr (Inl e) \<Rightarrow> Inr (Inl e) | Inr (Inr x) \<Rightarrow> rest x d'))"

definition optional_field ::
  "(rlp_value \<Rightarrow> panic + (rlp_error + 'a)) \<Rightarrow> rlp_decoder \<Rightarrow> ('a option \<Rightarrow> rlp_decoder \<Rightarrow> panic + (rlp_error + 'b)) \<Rightarrow>
     panic + (rlp_error + 'b)" where
  "optional_field as d rest =
     (if has_remaining d then field as d (\<lambda>x. rest (Some x)) else rest None d)"

definition parse_fields :: "rlp_decoder \<Rightarrow> panic + (rlp_error + tx_fields)" where
  "parse_fields d =
     field as_u64 d (\<lambda>nonce d. field as_u256 d (\<lambda>price d. field as_u256 d (\<lambda>limit d.
     field (\<lambda>v. Inr (Inr v)) d (\<lambda>dest d. field as_u256 d (\<lambda>amount d.
     field (\<lambda>v. Inr (Inr v)) d (\<lambda>input d.
     optional_field as_u64 d (\<lambda>chain d. optional_field as_u64 d (\<lambda>v d.
     optional_field as_u256 d (\<lambda>r d. optional_field as_u256 d (\<lambda>s d.
       (case as_bytes input of
          Inl p \<Rightarrow> Inl p
        | Inr bytes \<Rightarrow> Inr (Inr \<lparr>tx_nonce = nonce, gas_price = price, gas_limit = limit, tx_to = dest, tx_value = amount,
            tx_input = bytes, chain_id = chain, tx_v = v, tx_r = r, tx_s = s\<rparr>))))))))))))"

definition parse_transaction :: "rlp_decoder \<Rightarrow> panic + (rlp_error + tx_fields)" where
  "parse_transaction d =
     (case parse_next d of
        (Inl e, d') \<Rightarrow> Inr (Inl e)
      | (Inr v, d') \<Rightarrow>
          (case rv_type v of
             RlpList _ \<Rightarrow>
               (case as_bytes v of
                  Inl p \<Rightarrow> Inl p
                | Inr payload \<Rightarrow> parse_fields (new_decoder payload))
           | _ \<Rightarrow> Inr (Inl (InvalidPrefix 0 0))))"

section \<open>No panic\<close>

lemma byte_less: "unat (b :: u8) < 256"
  by (rule order_less_le_trans [OF unsigned_less]) simp

lemma read_byte_Inr:
  "read_byte d = (Inr b, d') \<Longrightarrow> rd_position d < length (rd_data d) \<and> b = rd_data d ! rd_position d \<and>
     d' = d\<lparr>rd_position := rd_position d + 1\<rparr>"
  by (auto simp: read_byte_def peek_byte_def split: if_splits)

text \<open>Reading \<open>k\<close> more bytes of a length moves the position by \<open>k\<close> and shifts the length by as many bytes.\<close>

lemma read_length_rest:
  "read_length k False n d = (Inr m, d') \<Longrightarrow> (n + 1) * 256 ^ k \<le> 2 ^ 64 \<Longrightarrow>
     d' = d\<lparr>rd_position := rd_position d + k\<rparr> \<and> n * 256 ^ k \<le> m \<and> m < (n + 1) * 256 ^ k"
proof (induction k arbitrary: n d)
  case (Suc k)
  obtain b d1 where b: "read_byte d = (Inr b, d1)"
    using Suc.prems(1) by (cases "read_byte d"; cases "fst (read_byte d)") auto
  have b256: "unat b < 256" by (rule byte_less)
  have "(n + 1) * 256 \<le> (n + 1) * 256 ^ Suc k" by (rule mult_le_mono2) simp
  then have "n * 256 < 2 ^ 64" using Suc.prems(2) by simp
  then have "read_length k False (n * 256 + unat b) d1 = (Inr m, d')" using Suc.prems(1) b by simp
  moreover have "(n * 256 + unat b + 1) * 256 ^ k \<le> ((n + 1) * 256) * 256 ^ k"
    by (rule mult_le_mono1) (use b256 in simp)
  then have step: "(n * 256 + unat b + 1) * 256 ^ k \<le> (n + 1) * 256 ^ Suc k" by (simp only: power_Suc mult.assoc)
  ultimately have ih: "d' = d1\<lparr>rd_position := rd_position d1 + k\<rparr>" "(n * 256 + unat b) * 256 ^ k \<le> m"
    "m < (n * 256 + unat b + 1) * 256 ^ k"
    using Suc.IH [of "n * 256 + unat b" d1] Suc.prems(2) by (meson le_trans)+
  have "n * 256 ^ Suc k \<le> (n * 256 + unat b) * 256 ^ k" by (simp add: algebra_simps)
  then have "n * 256 ^ Suc k \<le> m" using ih(2) by (rule le_trans)
  moreover have "m < (n + 1) * 256 ^ Suc k" using ih(3) step by (rule order_less_le_trans)
  ultimately show ?case using ih(1) read_byte_Inr [OF b] by simp
qed simp

lemma read_length_first:
  assumes "read_length (Suc k) True 0 d = (Inr m, d')" "k \<le> 6"
  shows "d' = d\<lparr>rd_position := rd_position d + Suc k\<rparr> \<and> 256 ^ k \<le> m \<and> m < 256 ^ Suc k"
proof -
  obtain b d1 where b: "read_byte d = (Inr b, d1)"
    using assms(1) by (cases "read_byte d"; cases "fst (read_byte d)") auto
  have nz: "b \<noteq> 0" and r: "read_length k False (unat b) d1 = (Inr m, d')" using assms(1) b by (auto split: if_splits)
  have b256: "unat b + 1 \<le> 256" using byte_less [of b] by simp
  have "(unat b + 1) * 256 ^ k \<le> (256 :: nat) * 256 ^ k" by (rule mult_le_mono1 [OF b256])
  also have "\<dots> \<le> 256 ^ 7" using power_increasing [of "Suc k" 7 "256 :: nat"] assms(2) by simp
  also have "(256 ^ 7 :: nat) \<le> 2 ^ 64" by simp
  finally have "d' = d1\<lparr>rd_position := rd_position d1 + k\<rparr> \<and> unat b * 256 ^ k \<le> m \<and> m < (unat b + 1) * 256 ^ k"
    by (rule read_length_rest [OF r])
  then have r': "d' = d1\<lparr>rd_position := rd_position d1 + k\<rparr>" "unat b * 256 ^ k \<le> m" "m < (unat b + 1) * 256 ^ k"
    by blast+
  have "1 * 256 ^ k \<le> unat b * 256 ^ k"
    using nz by (intro mult_le_mono1) (simp add: Suc_le_eq unat_gt_0)
  then have "256 ^ k \<le> m" using r'(2) by linarith
  moreover have "m < 256 ^ Suc k"
    using r'(3) \<open>(unat b + 1) * 256 ^ k \<le> 256 * 256 ^ k\<close> unfolding power_Suc by linarith
  ultimately show ?thesis using read_byte_Inr [OF b] r'(1) by simp
qed

text \<open>A length that is accepted was written with as few bytes as its header is computed to have.\<close>

lemma decode_long_length_Inr:
  assumes "decode_long_length pre offset d = (Inr n, d')"
  shows "56 \<le> n \<and> d' = d\<lparr>rd_position := rd_position d + length_of_length n\<rparr>"
proof -
  let ?k = "unat (pre - offset)"
  have k: "?k \<noteq> 0" "?k \<le> 4" and r: "read_length ?k True 0 d = (Inr n, d')" and n: "56 \<le> n"
    using assms by (auto simp: decode_long_length_def Let_def split: if_splits prod.splits sum.splits)
  obtain j where j: "?k = Suc j" using k(1) by (cases ?k) auto
  then have f: "d' = d\<lparr>rd_position := rd_position d + Suc j\<rparr>" "256 ^ j \<le> n" "n < 256 ^ Suc j"
    using read_length_first [of j d n d'] r k(2) by auto
  have "j = 0 \<or> j = 1 \<or> j = 2 \<or> j = 3" using k(2) j by auto
  then have "length_of_length n = Suc j" using f(2,3) by (auto simp: length_of_length_def)
  then show ?thesis using f(1) n by simp
qed

text \<open>After a value the position is behind its header, not behind its payload.\<close>

lemma decode_prefix_Inr:
  assumes "decode_prefix pre d = (Inr t, d')"
  shows "rd_data d' = rd_data d \<and> rd_position d' + 1 = rd_position d + type_header t \<and>
    (type_length t = 0 \<longrightarrow> rd_position d' = rd_position d)"
proof -
  have short: "unat (pre - 0x80) < 56" if "\<not> pre \<le> 0x80" "pre \<le> 0xb7"
    using that by (simp add: word_le_nat_alt unat_sub)
  have short': "unat (pre - 0xc0) < 56" if "\<not> pre \<le> 0xbf" "pre \<le> 0xf7"
  proof -
    have "0xc0 \<le> pre" using that(1) by (simp add: word_le_nat_alt)
    then show ?thesis using that by (simp add: word_le_nat_alt unat_sub)
  qed
  have "\<not> pre \<le> 0x80" if "\<not> pre \<le> 0x7f" "pre \<noteq> 0x80"
    using that unfolding word_le_nat_alt word_unat_eq_iff by simp
  then show ?thesis
    using assms short short'
    by (auto simp: decode_prefix_def dest!: decode_long_length_Inr split: if_splits prod.splits sum.splits)
qed

lemma parse_next_Inr:
  assumes "parse_next d = (Inr v, d')"
  shows "rv_data v = rd_data d \<and> rd_data d' = rd_data d \<and> rd_position d' = rv_offset v + header_size v \<and>
    rv_offset v = rd_position d \<and> (rv_type v \<noteq> EmptyString \<longrightarrow> rd_position d' + type_length (rv_type v) \<le> length (rd_data d))"
proof -
  obtain pre d1 where b: "read_byte d = (Inr pre, d1)"
    using assms by (cases "read_byte d"; cases "fst (read_byte d)") (auto simp: parse_next_def split: if_splits)
  then obtain t d2 where p: "decode_prefix pre d1 = (Inr t, d2)"
    using assms by (cases "decode_prefix pre d1"; cases "fst (decode_prefix pre d1)") (auto simp: parse_next_def split: if_splits)
  have "\<not> rd_depth d \<ge> rd_max_depth d" using assms by (auto simp: parse_next_def)
  then have eq: "parse_next d = (case check_payload t d2 of Inl e \<Rightarrow> (Inl e, d2)
      | Inr _ \<Rightarrow> (Inr \<lparr>rv_data = rd_data d2, rv_offset = rd_position d, rv_type = t\<rparr>, d2))"
    by (simp add: parse_next_def b p)
  obtain u where "check_payload t d2 = Inr u" using assms unfolding eq by (cases "check_payload t d2") simp_all
  then have c: "check_payload t d2 = Inr ()" by simp
  have v: "v = \<lparr>rv_data = rd_data d2, rv_offset = rd_position d, rv_type = t\<rparr>" and d2: "d' = d2"
    using assms unfolding eq c sum.case by auto
  have d1: "d1 = d\<lparr>rd_position := rd_position d + 1\<rparr>" "rd_position d < length (rd_data d)"
    using read_byte_Inr [OF b] by simp_all
  have "rd_data d2 = rd_data d1" "rd_position d2 + 1 = rd_position d1 + type_header t"
    "type_length t = 0 \<longrightarrow> rd_position d2 = rd_position d1"
    using decode_prefix_Inr [OF p] by blast+
  then have pos: "rd_data d2 = rd_data d" "rd_position d2 = rd_position d + type_header t"
    "type_length t = 0 \<longrightarrow> rd_position d2 = rd_position d + 1"
    unfolding d1(1) by auto
  have "t \<noteq> EmptyString \<longrightarrow> type_length t \<le> length (rd_data d) - rd_position d2"
    using c pos(1) by (cases t) (auto simp: check_payload_def remaining_bytes_def Let_def split: if_splits)
  then have "t \<noteq> EmptyString \<longrightarrow> rd_position d2 + type_length t \<le> length (rd_data d)"
    using pos(3) d1(2) by (cases "type_length t = 0"; cases "t = EmptyString") auto
  then show ?thesis using pos unfolding v d2 by (simp add: header_size_def)
qed

lemma as_bytes_parsed:
  assumes "parse_next d = (Inr v, d')"
  shows "\<exists>bytes. as_bytes v = Inr bytes \<and> length bytes = type_length (rv_type v)"
  using parse_next_Inr [OF assms] by (cases "rv_type v") (auto simp: as_bytes_def slice_from_def)

lemma shift_bytes_Inr: "\<exists>x. shift_bytes n bs r = Inr x"
  by (induction bs arbitrary: r) (simp_all add: u64_checked_shl_def)

lemma as_u64_parsed: "parse_next d = (Inr v, d') \<Longrightarrow> \<exists>x. as_u64 v = Inr x"
  using as_bytes_parsed [of d v d'] by (auto simp: as_u64_def)

lemma as_u256_parsed: "parse_next d = (Inr v, d') \<Longrightarrow> \<exists>x. as_u256 v = Inr x"
  using as_bytes_parsed [of d v d'] by (auto simp: as_u256_def)

text \<open>A field panics only if its reading does, or the rest.\<close>

lemma field_no_panic:
  assumes "\<And>v d'. parse_next d = (Inr v, d') \<Longrightarrow> \<exists>x. as v = Inr x"
    and "\<And>v d' x. parse_next d = (Inr v, d') \<Longrightarrow> as v = Inr (Inr x) \<Longrightarrow> rest x d' \<noteq> Inl p"
  shows "field as d rest \<noteq> Inl p"
proof (cases "parse_next d")
  case (Pair res d')
  then show ?thesis
  proof (cases res)
    case (Inr v)
    then obtain y where "as v = Inr y" using assms(1) Pair by blast
    then show ?thesis using Pair Inr assms(2) by (cases y) (auto simp: field_def)
  qed (simp add: field_def)
qed

lemma optional_field_no_panic:
  assumes "\<And>v d'. parse_next d = (Inr v, d') \<Longrightarrow> \<exists>x. as v = Inr x" and "\<And>x d'. rest x d' \<noteq> Inl p"
  shows "optional_field as d rest \<noteq> Inl p"
proof (cases "has_remaining d")
  case True
  have "field as d (\<lambda>x. rest (Some x)) \<noteq> Inl p" by (rule field_no_panic, rule assms(1), assumption, rule assms(2))
  then show ?thesis using True by (simp add: optional_field_def)
qed (simp add: optional_field_def assms(2))

lemma parse_fields_no_panic: "parse_fields d \<noteq> Inl p"
proof -
  have u64: "parse_next d = (Inr v, d') \<Longrightarrow> \<exists>x. as_u64 v = Inr x" for d v d' by (rule as_u64_parsed)
  have u256: "parse_next d = (Inr v, d') \<Longrightarrow> \<exists>x. as_u256 v = Inr x" for d v d' by (rule as_u256_parsed)
  have raw: "parse_next d = (Inr v, d') \<Longrightarrow> \<exists>x. (\<lambda>v. Inr (Inr v) :: panic + (rlp_error + rlp_value)) v = Inr x" for d v d'
    by simp
  show ?thesis
    unfolding parse_fields_def
    by (rule field_no_panic [OF u64] field_no_panic [OF u256] field_no_panic [OF raw]
        optional_field_no_panic [OF u64] optional_field_no_panic [OF u256] | assumption)+
      (auto dest: as_bytes_parsed)
qed

lemma transaction_no_panic: "parse_transaction d \<noteq> Inl p"
proof (cases "parse_next d")
  case (Pair res d')
  show ?thesis
  proof (cases res)
    case (Inl e)
    then show ?thesis using Pair by (simp add: parse_transaction_def)
  next
    case (Inr v)
    then obtain bytes where "as_bytes v = Inr bytes" using as_bytes_parsed Pair by blast
    then show ?thesis
      using Pair Inr parse_fields_no_panic by (cases "rv_type v") (simp_all add: parse_transaction_def)
  qed
qed

text \<open>C18. Whatever bytes the decoder is given, decoding a transaction never panics: it gives the fields or an
  error.  In particular every slice lies in the buffer, because the header of a long value is as
  long as it is computed from its length.\<close>

theorem parse_transaction_never_panics:
  "\<exists>x. parse_transaction d = Inr x"
  using transaction_no_panic [of d] by (cases "parse_transaction d") blast+

section \<open>What is read back\<close>

text \<open>The encoding of a string of at most 255 bytes, as Ethereum defines it.\<close>

definition encode_string :: "u8 list \<Rightarrow> u8 list" where
  "encode_string bs =
     (case bs of
        [b] \<Rightarrow> if b < 0x80 then [b] else [0x81, b]
      | _ \<Rightarrow> if length bs < 56 then (0x80 + of_nat (length bs)) # bs
             else 0xb8 # of_nat (length bs) # bs)"

lemma nth_append_head: "(xs @ y # ys) ! length xs = y"
  by simp

lemma parse_short_string:
  assumes "rd_depth d < rd_max_depth d" "rd_data d = before @ (0x80 + of_nat (length bs)) # bs @ after"
    "rd_position d = length before" "length bs < 56"
  shows "\<exists>v d'. parse_next d = (Inr v, d') \<and> as_bytes v = Inr bs"
proof (cases "bs = []")
  case True
  then show ?thesis
    using assms by (simp add: parse_next_def read_byte_def peek_byte_def decode_prefix_def check_payload_def as_bytes_def)
next
  case False
  let ?pre = "0x80 + of_nat (length bs) :: u8"
  have n: "unat (of_nat (length bs) :: u8) = length bs" "length bs \<noteq> 0"
    using assms(4) False by (simp_all add: unsigned_of_nat take_bit_nat_eq_self)
  have p: "unat ?pre = 128 + length bs"
    using n(1) assms(4) by (simp add: unat_plus_simple [THEN iffD1] word_le_nat_alt unat_word_ariths)
  have range: "\<not> ?pre \<le> 0x7f" "?pre \<noteq> 0x80" "?pre \<le> 0xb7"
    using p n(2) assms(4) by (auto simp: word_le_nat_alt word_unat_eq_iff)
  have sub: "unat (?pre - 0x80) = length bs" using n(1) by simp
  let ?v = "\<lparr>rv_data = rd_data d, rv_offset = rd_position d, rv_type = RlpString (length bs)\<rparr>"
  have "parse_next d = (Inr ?v, d\<lparr>rd_position := rd_position d + 1\<rparr>)"
    using assms range sub
    by (simp add: parse_next_def read_byte_def peek_byte_def decode_prefix_def check_payload_def remaining_bytes_def
        MAX_RLP_SIZE_def)
  moreover have "as_bytes ?v = Inr bs"
    using assms by (simp add: as_bytes_def slice_from_def header_size_def)
  ultimately show ?thesis by blast
qed

text \<open>A single byte, which is its own encoding, is taken for the empty string.\<close>

lemma parse_single_byte:
  assumes "rd_depth d < rd_max_depth d" "rd_position d < length (rd_data d)" "rd_data d ! rd_position d < 0x80"
  shows "\<exists>v d'. parse_next d = (Inr v, d') \<and> as_bytes v = Inr [] \<and> as_u64 v = Inr (Inr 0)"
proof -
  have "rd_data d ! rd_position d \<le> 0x7f" using assms(3) by (simp add: word_le_nat_alt word_less_nat_alt)
  then show ?thesis
    using assms
    by (simp add: parse_next_def read_byte_def peek_byte_def decode_prefix_def check_payload_def as_bytes_def as_u64_def)
qed

text \<open>The prefix of a string of 56 to 255 bytes is rejected: the number of length bytes is one too small.\<close>

lemma parse_long_string:
  assumes "rd_depth d < rd_max_depth d" "rd_position d < length (rd_data d)" "rd_data d ! rd_position d = 0xb8"
  shows "fst (parse_next d) = Inl (InvalidPrefix (rd_position d) 0xb8)"
  using assms by (simp add: parse_next_def read_byte_def peek_byte_def decode_prefix_def decode_long_length_def Let_def)

text \<open>Which strings of up to 255 bytes the decoder reads back from their Ethereum encoding: exactly
  those of fewer than 56 bytes, except the single bytes below 128, which are read as empty.\<close>

lemma strings_read_back:
  assumes "length bs \<le> 255" and "rd_data d = before @ encode_string bs @ after"
    and "rd_position d = length before" and "rd_depth d < rd_max_depth d"
  shows "(\<exists>v d'. parse_next d = (Inr v, d') \<and> as_bytes v = Inr bs) \<longleftrightarrow>
    length bs < 56 \<and> (\<forall>b. bs = [b] \<longrightarrow> \<not> b < 0x80)"
proof (cases "\<exists>b. bs = [b] \<and> b < 0x80")
  case True
  then obtain b where b: "bs = [b]" "b < 0x80" by blast
  then have "rd_data d ! rd_position d < 0x80" "rd_position d < length (rd_data d)"
    using assms(2,3) by (simp_all add: encode_string_def)
  then show ?thesis using parse_single_byte [OF assms(4)] b by fastforce
next
  case False
  show ?thesis
  proof (cases "length bs < 56")
    case True
    have "encode_string bs = (0x80 + of_nat (length bs)) # bs"
      using True False by (auto simp: encode_string_def split: list.split)
    then have "\<exists>v d'. parse_next d = (Inr v, d') \<and> as_bytes v = Inr bs"
      using parse_short_string [OF assms(4) _ assms(3) True] assms(2) by simp
    then show ?thesis using True False by blast
  next
    case big: False
    then have "encode_string bs = 0xb8 # of_nat (length bs) # bs"
      by (auto simp: encode_string_def split: list.split)
    then have "fst (parse_next d) = Inl (InvalidPrefix (rd_position d) 0xb8)"
      using assms(2-4) by (intro parse_long_string) simp_all
    then show ?thesis using big by auto
  qed
qed

lemma strings_read_back_example:
  "(\<exists>v d'. parse_next (new_decoder [0x83, 0x64, 0x6f, 0x67]) = (Inr v, d') \<and> as_bytes v = Inr [0x64, 0x6f, 0x67]) \<and>
   \<not> (\<exists>v d'. parse_next (new_decoder [2]) = (Inr v, d') \<and> as_bytes v = Inr [2])"
  using strings_read_back [of "[0x64, 0x6f, 0x67]" "new_decoder [0x83, 0x64, 0x6f, 0x67]" "[]" "[]"]
    strings_read_back [of "[2]" "new_decoder [2]" "[]" "[]"]
  by (simp add: new_decoder_def encode_string_def)

text \<open>The next value is parsed from the position behind the header, that is, out of the payload of the
  value before.\<close>

lemma next_value_inside_payload:
  assumes "parse_next d = (Inr v, d')" "parse_next d' = (Inr w, d'')"
  shows "rv_offset w = rv_offset v + header_size v"
  using parse_next_Inr [OF assms(1)] parse_next_Inr [OF assms(2)] by simp

end
