(* ===== verification/Audit_Merkle.thy ===== *)
theory Audit_Merkle
  imports Nexus_Prelude
begin

text \<open>
  The audit log as a hash tree, \<open>crates/nexus_legal/src/audit/lock_free_merkle.rs\<close>.  The hash
  function is a library's: the argument \<open>sha\<close>.  So is the channel: the events that a batch takes
  from it are an argument.  Rust strings are their bytes.  The theory shows that every logged
  event gets a proof that verifies against the root, that the root commits to the hashes of the
  events - another log of that length with the same root exhibits a collision among the hashed inputs - and that
  it does not commit to the events, whose encoding is ambiguous.
\<close>

section \<open>Events\<close>

type_synonym str = "u8 list"
type_synonym hash = "u8 list"

datatype audit_event =
    AlphaSignal u32 str i64 u64
  | RiskCheckPassed str bool u64
  | OrderSubmitted u64 str str i64 u64 u64
  | OrderFilled u64 u64 i64 u64 u64
  | ComplianceCheck str bool str u64
  | StateChange str str str u64

fun event_bytes :: "audit_event \<Rightarrow> u8 list" where
  "event_bytes (AlphaSignal strategy_id symbol signal_value timestamp_ns) =
     [0] @ le_bytes_32 strategy_id @ symbol @ le_bytes_i64 signal_value @ le_bytes_64 timestamp_ns"
| "event_bytes (RiskCheckPassed check_type result timestamp_ns) =
     [1] @ check_type @ [of_bool result] @ le_bytes_64 timestamp_ns"
| "event_bytes (OrderSubmitted order_id symbol side quantity price timestamp_ns) =
     [2] @ le_bytes_64 order_id @ symbol @ side @ le_bytes_i64 quantity @ le_bytes_64 price @ le_bytes_64 timestamp_ns"
| "event_bytes (OrderFilled order_id fill_id quantity price timestamp_ns) =
     [3] @ le_bytes_64 order_id @ le_bytes_64 fill_id @ le_bytes_i64 quantity @ le_bytes_64 price @ le_bytes_64 timestamp_ns"
| "event_bytes (ComplianceCheck check_name passed details timestamp_ns) =
     [4] @ check_name @ [of_bool passed] @ details @ le_bytes_64 timestamp_ns"
| "event_bytes (StateChange component old_state new_state timestamp_ns) =
     [5] @ component @ old_state @ new_state @ le_bytes_64 timestamp_ns"

fun event_timestamp :: "audit_event \<Rightarrow> u64" where
  "event_timestamp (AlphaSignal _ _ _ t) = t"
| "event_timestamp (RiskCheckPassed _ _ t) = t"
| "event_timestamp (OrderSubmitted _ _ _ _ _ t) = t"
| "event_timestamp (OrderFilled _ _ _ _ t) = t"
| "event_timestamp (ComplianceCheck _ _ _ t) = t"
| "event_timestamp (StateChange _ _ _ t) = t"

section \<open>The tree\<close>

record merkle_leaf =
  leaf_event :: audit_event
  ml_hash :: hash
  ml_index :: u64

record merkle_tree =
  merkle_leaves :: "merkle_leaf list"
  root_hash :: hash
  event_count :: u64

definition new_merkle_tree :: merkle_tree where
  "new_merkle_tree = \<lparr>merkle_leaves = [], root_hash = replicate 32 0, event_count = 0\<rparr>"

definition hash_event :: "(u8 list \<Rightarrow> hash) \<Rightarrow> audit_event \<Rightarrow> hash" where
  "hash_event sha e = sha (event_bytes e)"

definition hash_pair :: "(u8 list \<Rightarrow> hash) \<Rightarrow> hash \<Rightarrow> hash \<Rightarrow> hash" where
  "hash_pair sha l r = sha (l @ r)"

text \<open>The bytes of \<open>NEXUS_OMEGA_GENESIS\<close>.\<close>

definition genesis_hash :: "(u8 list \<Rightarrow> hash) \<Rightarrow> hash" where
  "genesis_hash sha =
     sha [78, 69, 88, 85, 83, 95, 79, 77, 69, 71, 65, 95, 71, 69, 78, 69, 83, 73, 83]"

text \<open>One level of the tree from the one below: \<open>chunks(2)\<close>.\<close>

fun next_level :: "(u8 list \<Rightarrow> hash) \<Rightarrow> hash list \<Rightarrow> hash list" where
  "next_level sha (a # b # rest) = hash_pair sha a b # next_level sha rest"
| "next_level sha [a] = [a]"
| "next_level sha [] = []"

lemma length_next_level [simp]: "length (next_level sha level) = (length level + 1) div 2"
  by (induction sha level rule: next_level.induct) simp_all

function merkle_root :: "(u8 list \<Rightarrow> hash) \<Rightarrow> hash list \<Rightarrow> hash" where
  "merkle_root sha level = (if length level > 1 then merkle_root sha (next_level sha level) else level ! 0)"
  by auto
termination by (relation "measure (\<lambda>(sha, level). length level)") auto

declare merkle_root.simps [simp del]

definition compute_root :: "(u8 list \<Rightarrow> hash) \<Rightarrow> merkle_leaf list \<Rightarrow> hash" where
  "compute_root sha leaves =
     (if leaves = [] then genesis_hash sha else merkle_root sha (map ml_hash leaves))"

fun drain_events :: "(u8 list \<Rightarrow> hash) \<Rightarrow> audit_event list \<Rightarrow> u64 \<Rightarrow> merkle_leaf list \<times> u64" where
  "drain_events sha [] n = ([], n)"
| "drain_events sha (e # es) n =
     (case drain_events sha es (n + 1) of
        (rest, n') \<Rightarrow> (\<lparr>leaf_event = e, ml_hash = hash_event sha e, ml_index = n\<rparr> # rest, n'))"

text \<open>\<open>received\<close> is what \<open>try_recv\<close> yields until the channel is empty.\<close>

definition process_pending_events ::
  "(u8 list \<Rightarrow> hash) \<Rightarrow> audit_event list \<Rightarrow> merkle_tree \<Rightarrow> nat \<times> merkle_tree" where
  "process_pending_events sha received t =
     (case drain_events sha received (event_count t) of
        (leaves_to_add, n) \<Rightarrow>
          let t1 = t\<lparr>event_count := n\<rparr>
          in (length received,
              if leaves_to_add \<noteq> [] then
                let t2 = t1\<lparr>merkle_leaves := merkle_leaves t1 @ leaves_to_add\<rparr>
                in t2\<lparr>root_hash := compute_root sha (merkle_leaves t2)\<rparr>
              else t1))"

section \<open>Proofs of inclusion\<close>

datatype hash_position = LeftOf | RightOf

record proof_element =
  pe_hash :: hash
  pe_position :: hash_position

record merkle_proof =
  leaf_hash :: hash
  leaf_index :: u64
  proof_hashes :: "proof_element list"
  mp_root :: hash

definition sibling :: "nat \<Rightarrow> nat" where
  "sibling i = (if i mod 2 = 0 then i + 1 else i - 1)"

definition proof_step :: "nat \<Rightarrow> hash list \<Rightarrow> proof_element list" where
  "proof_step i level =
     (if sibling i < length level
      then [\<lparr>pe_hash = level ! sibling i, pe_position = (if i mod 2 = 0 then RightOf else LeftOf)\<rparr>]
      else [])"

function proof_path :: "(u8 list \<Rightarrow> hash) \<Rightarrow> nat \<Rightarrow> hash list \<Rightarrow> proof_element list" where
  "proof_path sha i level =
     (if length level > 1 then proof_step i level @ proof_path sha (i div 2) (next_level sha level) else [])"
  by auto
termination by (relation "measure (\<lambda>(sha, i, level). length level)") auto

declare proof_path.simps [simp del]

definition get_proof :: "(u8 list \<Rightarrow> hash) \<Rightarrow> u64 \<Rightarrow> merkle_tree \<Rightarrow> merkle_proof option" where
  "get_proof sha index t =
     (if index \<ge> of_nat (length (merkle_leaves t)) then None
      else
        let level = map ml_hash (merkle_leaves t)
        in Some \<lparr>leaf_hash = ml_hash (merkle_leaves t ! unat index), leaf_index = index,
                 proof_hashes = proof_path sha (unat index) level, mp_root = merkle_root sha level\<rparr>)"

fun climb :: "(u8 list \<Rightarrow> hash) \<Rightarrow> proof_element list \<Rightarrow> hash \<Rightarrow> hash" where
  "climb sha [] h = h"
| "climb sha (e # es) h =
     climb sha es (case pe_position e of
       LeftOf \<Rightarrow> hash_pair sha (pe_hash e) h | RightOf \<Rightarrow> hash_pair sha h (pe_hash e))"

definition verify_proof :: "(u8 list \<Rightarrow> hash) \<Rightarrow> merkle_proof \<Rightarrow> bool" where
  "verify_proof sha p = (climb sha (proof_hashes p) (leaf_hash p) = mp_root p)"

section \<open>Every event has a valid proof\<close>

lemma climb_append: "climb sha (xs @ ys) h = climb sha ys (climb sha xs h)"
  by (induction xs arbitrary: h) simp_all

text \<open>One step of the climb reaches the parent.\<close>

lemma next_level_nth:
  "i < length level \<Longrightarrow>
     next_level sha level ! (i div 2) = climb sha (proof_step i level) (level ! i)"
proof (induction sha level arbitrary: i rule: next_level.induct)
  case (1 sha a b rest)
  consider "i = 0" | "i = 1" | j where "i = j + 2" by (metis One_nat_def Suc_1 add.commute add_2_eq_Suc' less_2_cases not_less_eq less_Suc_eq_le le_add_diff_inverse2 not_less)
  then show ?case
  proof cases
    case 3
    have "sibling i = sibling j + 2" by (cases "j mod 2 = 0") (auto simp: sibling_def 3 not_mod_2_eq_0_eq_1)
    then have "proof_step i (a # b # rest) = proof_step j rest"
      by (simp add: proof_step_def 3)
    then show ?thesis using "1.IH" [of j] "1.prems" 3 by simp
  qed (simp_all add: proof_step_def sibling_def)
qed (simp_all add: proof_step_def sibling_def)

lemma climb_reaches_root:
  "i < length level \<Longrightarrow> climb sha (proof_path sha i level) (level ! i) = merkle_root sha level"
proof (induction sha i level rule: proof_path.induct)
  case (1 sha i level)
  show ?case
  proof (cases "length level > 1")
    case True
    have "i div 2 < length (next_level sha level)" using "1.prems" by simp
    then have "climb sha (proof_path sha (i div 2) (next_level sha level)) (next_level sha level ! (i div 2)) =
        merkle_root sha (next_level sha level)"
      using "1.IH" [OF True] by blast
    then show ?thesis
      using True next_level_nth [OF "1.prems"]
      by (simp add: proof_path.simps [of sha i level] merkle_root.simps [of sha level] climb_append)
  next
    case False
    then have "i = 0" using "1.prems" by simp
    then show ?thesis using False by (simp add: proof_path.simps [of sha 0 level] merkle_root.simps [of sha level])
  qed
qed

text \<open>The log after a sequence of batches.\<close>

definition log_batches :: "(u8 list \<Rightarrow> hash) \<Rightarrow> audit_event list list \<Rightarrow> merkle_tree" where
  "log_batches sha batches = fold (\<lambda>b t. snd (process_pending_events sha b t)) batches new_merkle_tree"

definition tree_holds :: "(u8 list \<Rightarrow> hash) \<Rightarrow> audit_event list \<Rightarrow> merkle_tree \<Rightarrow> bool" where
  "tree_holds sha es t \<longleftrightarrow>
     map leaf_event (merkle_leaves t) = es \<and> map ml_hash (merkle_leaves t) = map (hash_event sha) es \<and>
     event_count t = of_nat (length es) \<and> (es \<noteq> [] \<longrightarrow> root_hash t = merkle_root sha (map (hash_event sha) es))"

lemma drain_events_spec:
  "drain_events sha es n = (leaves, n') \<Longrightarrow>
     map leaf_event leaves = es \<and> map ml_hash leaves = map (hash_event sha) es \<and> n' = n + of_nat (length es)"
proof (induction es arbitrary: n leaves n')
  case (Cons e es)
  obtain rest m where r: "drain_events sha es (n + 1) = (rest, m)" by fastforce
  show ?case using Cons.IH [OF r] Cons.prems r by (auto simp: add.assoc)
qed simp

lemma process_holds:
  assumes "tree_holds sha es t"
  shows "tree_holds sha (es @ b) (snd (process_pending_events sha b t))"
proof -
  obtain leaves n where d: "drain_events sha b (event_count t) = (leaves, n)" by fastforce
  note spec = drain_events_spec [OF d]
  let ?t' = "snd (process_pending_events sha b t)"
  have l: "merkle_leaves ?t' = merkle_leaves t @ leaves" "event_count ?t' = n"
    and r: "leaves \<noteq> [] \<Longrightarrow> root_hash ?t' = compute_root sha (merkle_leaves t @ leaves)"
      "leaves = [] \<Longrightarrow> root_hash ?t' = root_hash t"
    by (simp_all add: process_pending_events_def d Let_def)
  have old: "map leaf_event (merkle_leaves t) = es" "map ml_hash (merkle_leaves t) = map (hash_event sha) es"
      "event_count t = of_nat (length es)" "es \<noteq> [] \<Longrightarrow> root_hash t = merkle_root sha (map (hash_event sha) es)"
    using assms by (simp_all add: tree_holds_def)
  have hashes: "map ml_hash (merkle_leaves t @ leaves) = map (hash_event sha) (es @ b)"
    by (simp only: map_append old(2) spec)
  have "map leaf_event (merkle_leaves t @ leaves) = es @ b"
    by (simp only: map_append old(1) spec)
  moreover have "root_hash ?t' = merkle_root sha (map (hash_event sha) (es @ b))" if "es @ b \<noteq> []"
  proof (cases "leaves = []")
    case True
    then have "b = []" using spec by simp
    then show ?thesis using True r(2) old(4) that by simp
  next
    case False
    then show ?thesis using r(1) hashes by (simp add: compute_root_def)
  qed
  ultimately show ?thesis
    unfolding tree_holds_def l using spec old(3) hashes by simp
qed

lemma log_batches_hold: "tree_holds sha (concat batches) (log_batches sha batches)"
proof -
  have "tree_holds sha (es @ concat batches) (fold (\<lambda>b t. snd (process_pending_events sha b t)) batches t)"
    if "tree_holds sha es t" for es t
    using that
  proof (induction batches arbitrary: es t)
    case (Cons b batches)
    then show ?case using Cons.IH [OF process_holds [OF Cons.prems]] by simp
  qed simp
  from this [of "[]" new_merkle_tree] show ?thesis
    by (simp add: tree_holds_def new_merkle_tree_def log_batches_def)
qed

text \<open>C13. Every logged event has a valid proof.  After any batches of events were taken from the channel,
  in whatever sizes, each of them has a proof of inclusion that verifies, that is for the hash of
  the event, and whose root is the root of the tree.\<close>

theorem every_event_has_valid_proof:
  assumes "i < length (concat batches)" "length (concat batches) < 2 ^ 64"
  shows "\<exists>p. get_proof sha (of_nat i) (log_batches sha batches) = Some p \<and> verify_proof sha p \<and>
    leaf_hash p = hash_event sha (concat batches ! i) \<and> mp_root p = root_hash (log_batches sha batches)"
proof -
  let ?t = "log_batches sha batches" and ?es = "concat batches"
  let ?p = "\<lparr>leaf_hash = hash_event sha (?es ! i), leaf_index = of_nat i,
      proof_hashes = proof_path sha i (map (hash_event sha) ?es),
      mp_root = merkle_root sha (map (hash_event sha) ?es)\<rparr>"
  have t: "tree_holds sha ?es ?t" by (rule log_batches_hold)
  then have leaves: "length (merkle_leaves ?t) = length ?es" "map ml_hash (merkle_leaves ?t) = map (hash_event sha) ?es"
    unfolding tree_holds_def by (metis length_map)+
  have u: "unat (of_nat i :: u64) = i" "unat (of_nat (length ?es) :: u64) = length ?es"
    using assms by (simp_all add: unsigned_of_nat take_bit_nat_eq_self)
  have "ml_hash (merkle_leaves ?t ! i) = hash_event sha (?es ! i)"
    using leaves assms(1) by (metis nth_map)
  then have "get_proof sha (of_nat i) ?t = Some ?p"
    using leaves u assms(1) by (simp add: get_proof_def word_le_nat_alt Let_def)
  moreover have "verify_proof sha ?p"
    using climb_reaches_root [of i "map (hash_event sha) ?es" sha] assms(1) by (simp add: verify_proof_def)
  moreover have "?es \<noteq> []" using assms(1) by (metis less_nat_zero_code list.size(3))
  then have "mp_root ?p = root_hash ?t" using t by (simp add: tree_holds_def)
  ultimately show ?thesis by auto
qed

theorem every_event_has_valid_proof_witness:
  "\<exists>p. get_proof (\<lambda>bs. [sum_list bs]) 2 (log_batches (\<lambda>bs. [sum_list bs])
       [[OrderFilled 1 1 100 50000 2000], [OrderFilled 2 1 5 7 9, RiskCheckPassed [65] True 3]]) = Some p \<and>
     verify_proof (\<lambda>bs. [sum_list bs]) p"
  using every_event_has_valid_proof
    [of 2 "[[OrderFilled 1 1 100 50000 2000], [OrderFilled 2 1 5 7 9, RiskCheckPassed [65] True 3]]" "\<lambda>bs. [sum_list bs]"]
  by auto

section \<open>What the root commits to\<close>

text \<open>The inputs that the hash function gets when the root of a log is computed: the bytes of the events,
  and for every level the concatenated pairs of hashes.\<close>

fun pair_inputs :: "hash list \<Rightarrow> u8 list list" where
  "pair_inputs (a # b # rest) = (a @ b) # pair_inputs rest"
| "pair_inputs level = []"

function tree_inputs :: "(u8 list \<Rightarrow> hash) \<Rightarrow> hash list \<Rightarrow> u8 list list" where
  "tree_inputs sha level =
     (if length level > 1 then pair_inputs level @ tree_inputs sha (next_level sha level) else [])"
  by auto
termination by (relation "measure (\<lambda>(sha, level). length level)") auto

declare tree_inputs.simps [simp del]

definition log_inputs :: "(u8 list \<Rightarrow> hash) \<Rightarrow> audit_event list \<Rightarrow> u8 list list" where
  "log_inputs sha es = map event_bytes es @ tree_inputs sha (map (hash_event sha) es)"

definition collision_among :: "(u8 list \<Rightarrow> hash) \<Rightarrow> u8 list list \<Rightarrow> u8 list list \<Rightarrow> bool" where
  "collision_among sha xs ys \<longleftrightarrow> (\<exists>x\<in>set xs. \<exists>y\<in>set ys. x \<noteq> y \<and> sha x = sha y)"

lemma collision_among_append:
  "collision_among sha xs ys \<Longrightarrow> collision_among sha (xs @ xs') (ys @ ys')"
  "collision_among sha xs' ys' \<Longrightarrow> collision_among sha (xs @ xs') (ys @ ys')"
  by (auto simp: collision_among_def)

lemma next_level_binds:
  "length a = length b \<Longrightarrow> next_level sha a = next_level sha b \<Longrightarrow>
     (\<And>x. x \<in> set a \<union> set b \<Longrightarrow> length x = n) \<Longrightarrow> \<not> collision_among sha (pair_inputs a) (pair_inputs b) \<Longrightarrow> a = b"
proof (induction sha a arbitrary: b rule: next_level.induct)
  case (1 sha x y rest)
  obtain x' y' rest' where b: "b = x' # y' # rest'"
    using "1.prems"(1) by (cases b; cases "tl b") auto
  have "sha (x @ y) = sha (x' @ y')" using "1.prems"(2) b by (simp add: hash_pair_def)
  then have "x @ y = x' @ y'" using "1.prems"(4) b by (auto simp: collision_among_def)
  moreover have "length x = length x'" using "1.prems"(3) b by simp
  moreover have "\<not> collision_among sha (pair_inputs rest) (pair_inputs rest')"
    using "1.prems"(4) b by (auto simp: collision_among_def)
  ultimately show ?case using "1.IH" [of rest'] "1.prems"(1-3) b by auto
next
  case (2 sha x)
  then show ?case by (cases b) auto
qed simp

lemma next_level_lengths:
  "(\<And>x. x \<in> set level \<Longrightarrow> length x = n) \<Longrightarrow> (\<And>x. length (sha x) = n) \<Longrightarrow>
     x \<in> set (next_level sha level) \<Longrightarrow> length x = n"
  by (induction sha level rule: next_level.induct) (auto simp: hash_pair_def)

lemma merkle_root_single [simp]: "merkle_root sha [x] = x"
  by (simp add: merkle_root.simps [of sha "[x]"])

lemma merkle_root_binds:
  "length a = length b \<Longrightarrow> (\<And>x. x \<in> set a \<union> set b \<Longrightarrow> length x = n) \<Longrightarrow> (\<And>x. length (sha x) = n) \<Longrightarrow>
     \<not> collision_among sha (tree_inputs sha a) (tree_inputs sha b) \<Longrightarrow> merkle_root sha a = merkle_root sha b \<Longrightarrow> a = b"
proof (induction sha a arbitrary: b rule: merkle_root.induct)
  case (1 sha a)
  show ?case
  proof (cases "length a > 1")
    case True
    have inputs: "tree_inputs sha a = pair_inputs a @ tree_inputs sha (next_level sha a)"
      "tree_inputs sha b = pair_inputs b @ tree_inputs sha (next_level sha b)"
      using True "1.prems"(1) by (simp_all add: tree_inputs.simps [of sha a] tree_inputs.simps [of sha b])
    have none: "\<not> collision_among sha (pair_inputs a) (pair_inputs b)"
      "\<not> collision_among sha (tree_inputs sha (next_level sha a)) (tree_inputs sha (next_level sha b))"
      using "1.prems"(4) collision_among_append unfolding inputs by blast+
    have "next_level sha a = next_level sha b"
    proof (rule "1.IH" [OF True])
      show "length (next_level sha a) = length (next_level sha b)" using "1.prems"(1) by simp
      show "length x = n" if "x \<in> set (next_level sha a) \<union> set (next_level sha b)" for x
        using that next_level_lengths [of a n sha x] next_level_lengths [of b n sha x] "1.prems"(2,3) by blast
      show "merkle_root sha (next_level sha a) = merkle_root sha (next_level sha b)"
        using "1.prems"(1,5) True by (simp add: merkle_root.simps [of sha a] merkle_root.simps [of sha b])
    qed (use "1.prems"(3) none(2) in auto)
    then show ?thesis using next_level_binds [OF "1.prems"(1) _ "1.prems"(2) none(1)] by blast
  next
    case False
    then show ?thesis
      using "1.prems"(1,5)
      by (cases a; cases b) auto
  qed
qed

lemma hashes_bind:
  "map sha xs = map sha ys \<Longrightarrow> \<not> collision_among sha xs ys \<Longrightarrow> xs = ys"
  by (induction xs arbitrary: ys) (auto simp: collision_among_def)

text \<open>C14. The root commits to the log.  For a hash function whose results have one length, if two logs of
  the same number of events have the same root, then every event has the same bytes in both, or
  two different inputs with the same hash are among those that were hashed for the two roots: the
  bytes of the events and the concatenated pairs of hashes on the levels of the two trees.\<close>

theorem root_commits_to_log:
  assumes "\<And>x. length (sha x) = n" "length (concat bs) = length (concat cs)" "concat bs \<noteq> []"
    and "root_hash (log_batches sha bs) = root_hash (log_batches sha cs)"
  shows "map event_bytes (concat bs) = map event_bytes (concat cs) \<or>
    (\<exists>x\<in>set (log_inputs sha (concat bs)). \<exists>y\<in>set (log_inputs sha (concat cs)). x \<noteq> y \<and> sha x = sha y)"
proof (rule disjCI)
  assume "\<not> (\<exists>x\<in>set (log_inputs sha (concat bs)). \<exists>y\<in>set (log_inputs sha (concat cs)). x \<noteq> y \<and> sha x = sha y)"
  then have c: "\<not> collision_among sha (map event_bytes (concat bs)) (map event_bytes (concat cs))"
    "\<not> collision_among sha (tree_inputs sha (map (hash_event sha) (concat bs))) (tree_inputs sha (map (hash_event sha) (concat cs)))"
    using collision_among_append unfolding log_inputs_def collision_among_def [symmetric] by blast+
  have "concat cs \<noteq> []" using assms(2,3) by (metis length_0_conv)
  then have "merkle_root sha (map (hash_event sha) (concat bs)) = merkle_root sha (map (hash_event sha) (concat cs))"
    using assms(3,4) log_batches_hold [of sha bs] log_batches_hold [of sha cs] by (simp add: tree_holds_def)
  then have "map (hash_event sha) (concat bs) = map (hash_event sha) (concat cs)"
    by (rule merkle_root_binds [OF _ _ assms(1) c(2), rotated 2])
      (use assms(1,2) in \<open>auto simp: hash_event_def\<close>)
  moreover have "hash_event sha = sha \<circ> event_bytes" by (simp add: hash_event_def fun_eq_iff)
  ultimately have "map sha (map event_bytes (concat bs)) = map sha (map event_bytes (concat cs))"
    by (simp only: map_map)
  then show "map event_bytes (concat bs) = map event_bytes (concat cs)"
    using c(1) by (rule hashes_bind)
qed

text \<open>With the length as the hash, two logs that differ have one root, and the collision is in them.\<close>

theorem root_commits_to_log_witness:
  "root_hash (log_batches (\<lambda>x. [of_nat (length x)]) [[RiskCheckPassed [65] True 1]]) =
     root_hash (log_batches (\<lambda>x. [of_nat (length x)]) [[RiskCheckPassed [66] True 1]]) \<and>
   (\<exists>x\<in>set (log_inputs (\<lambda>x. [of_nat (length x)]) [RiskCheckPassed [65] True 1]).
    \<exists>y\<in>set (log_inputs (\<lambda>x. [of_nat (length x)]) [RiskCheckPassed [66] True 1]).
      x \<noteq> y \<and> [of_nat (length x)] = ([of_nat (length y)] :: hash))"
proof -
  let ?sha = "\<lambda>x :: u8 list. [of_nat (length x)] :: hash"
  have r: "root_hash (log_batches ?sha [[RiskCheckPassed [65] True 1]]) =
      root_hash (log_batches ?sha [[RiskCheckPassed [66] True 1]])"
    by (simp add: log_batches_def process_pending_events_def new_merkle_tree_def compute_root_def hash_event_def
        merkle_root.simps)
  have "map event_bytes (concat [[RiskCheckPassed [65] True 1]]) \<noteq> map event_bytes (concat [[RiskCheckPassed [66] True 1]])"
    by simp
  then show ?thesis
    using root_commits_to_log [of ?sha 1 "[[RiskCheckPassed [65] True 1]]" "[[RiskCheckPassed [66] True 1]]", OF _ _ _ r] r
    by simp
qed

lemma unat_of_nat_le: "unat (of_nat n :: u64) \<le> n"
  by (simp add: unsigned_of_nat take_bit_nat_less_eq_self)

text \<open>The root does not commit to the events.  Where two texts meet in the encoding of an event, a
  letter can move from one to the other: a log in which one event is altered like that has the
  same root and the same proofs, for every hash function.\<close>

lemma altered_event_same_root:
  assumes "batch = before @ StateChange (component @ moved) old_state new_state time # after"
    and "batch' = before @ StateChange component (moved @ old_state) new_state time # after"
  shows "root_hash (log_batches sha [batch]) = root_hash (log_batches sha [batch']) \<and>
    get_proof sha i (log_batches sha [batch]) = get_proof sha i (log_batches sha [batch'])"
proof -
  have same: "map (hash_event sha) batch = map (hash_event sha) batch'" "length batch = length batch'"
    using assms by (simp_all add: hash_event_def)
  have h: "tree_holds sha batch (log_batches sha [batch])" "tree_holds sha batch' (log_batches sha [batch'])"
    using log_batches_hold [of sha "[batch]"] log_batches_hold [of sha "[batch']"] by simp_all
  have m: "map ml_hash (merkle_leaves (log_batches sha [batch])) = map ml_hash (merkle_leaves (log_batches sha [batch']))"
    using h same(1) by (simp add: tree_holds_def)
  then have l: "length (merkle_leaves (log_batches sha [batch])) = length (merkle_leaves (log_batches sha [batch']))"
    by (metis length_map)
  have "get_proof sha i (log_batches sha [batch]) = get_proof sha i (log_batches sha [batch'])"
  proof (cases "i \<ge> of_nat (length (merkle_leaves (log_batches sha [batch])))")
    case False
    then have "unat i < length (merkle_leaves (log_batches sha [batch]))"
      using unat_of_nat_le [of "length (merkle_leaves (log_batches sha [batch]))"]
      by (simp add: word_le_nat_alt)
    then have "ml_hash (merkle_leaves (log_batches sha [batch]) ! unat i) =
        ml_hash (merkle_leaves (log_batches sha [batch']) ! unat i)"
      using m l by (metis nth_map)
    then show ?thesis using False m l by (simp add: get_proof_def)
  qed (simp add: get_proof_def l)
  moreover have "batch \<noteq> []" "batch' \<noteq> []" using assms by simp_all
  ultimately show ?thesis using h same(1) by (simp add: tree_holds_def)
qed

lemma altered_event_same_root_example:
  "root_hash (log_batches (\<lambda>bs. [sum_list bs]) [[StateChange [65, 66] [67] [68] 9]]) =
     root_hash (log_batches (\<lambda>bs. [sum_list bs]) [[StateChange [65] [66, 67] [68] 9]])"
  using altered_event_same_root [of _ "[]" "[65]" "[66]" "[67]" "[68]" 9 "[]" _ "\<lambda>bs. [sum_list bs]" 0] by simp

text \<open>A proof is only checked against the root that it carries.\<close>

lemma any_hash_has_a_proof: "\<exists>p. verify_proof sha p \<and> leaf_hash p = h"
  by (rule exI [of _ "\<lparr>leaf_hash = h, leaf_index = 0, proof_hashes = [], mp_root = h\<rparr>"])
    (simp add: verify_proof_def)

end
