(* ===== verification/Tarjan_Detector.thy ===== *)
theory Tarjan_Detector
  imports Nexus_Prelude
begin

text \<open>
  The search for strongly connected components, \<open>crates/nexus_legal/src/mar/tarjan_cycle_detector.rs\<close>:
  Tarjan's algorithm with an explicit call stack.  The hash maps are partial maps; the order in
  which a map of nodes is traversed is a list.  The two stacks have their top at the head.  The
  loop carries fuel.  The theory shows that the search always ends, and that it never reports
  anything.
\<close>

section \<open>State\<close>

type_synonym adjacency = "u64 \<rightharpoonup> u64 list"

record node_visit =
  nv_index :: "nat option"
  lowlink :: nat
  on_stack :: bool

record tarjan =
  tj_stack :: "u64 list"
  node_states :: "u64 \<rightharpoonup> node_visit"
  current_index :: nat
  sccs :: "u64 list list"
  total_detections :: nat
  total_cycles_found :: nat

definition new_tarjan :: tarjan where
  "new_tarjan =
     \<lparr>tj_stack = [], node_states = Map.empty, current_index = 0, sccs = [], total_detections = 0,
      total_cycles_found = 0\<rparr>"

section \<open>The algorithm\<close>

definition neighbors_of :: "adjacency \<Rightarrow> u64 \<Rightarrow> u64 list" where
  "neighbors_of adj v = (case adj v of None \<Rightarrow> [] | Some ns \<Rightarrow> ns)"

definition on_state :: "u64 \<Rightarrow> (node_visit \<Rightarrow> node_visit) \<Rightarrow> tarjan \<Rightarrow> tarjan" where
  "on_state v f t =
     (case node_states t v of None \<Rightarrow> t | Some s \<Rightarrow> t\<lparr>node_states := (node_states t)(v \<mapsto> f s)\<rparr>)"

fun pop_until :: "u64 \<Rightarrow> u64 list \<Rightarrow> u64 list \<times> u64 list" where
  "pop_until v [] = ([], [])"
| "pop_until v (w # st) = (if w = v then ([w], st) else case pop_until v st of (scc, rest) \<Rightarrow> (w # scc, rest))"

definition check_and_pop_scc :: "u64 \<Rightarrow> tarjan \<Rightarrow> tarjan" where
  "check_and_pop_scc v t =
     (let is_root = (case node_states t v of None \<Rightarrow> False | Some s \<Rightarrow> nv_index s = Some (lowlink s))
      in if is_root then
           case pop_until v (tj_stack t) of
             (scc, rest) \<Rightarrow>
               let t1 = fold (\<lambda>w. on_state w (\<lambda>s. s\<lparr>on_stack := False\<rparr>)) scc (t\<lparr>tj_stack := rest\<rparr>)
               in if scc \<noteq> [] then t1\<lparr>sccs := sccs t1 @ [scc]\<rparr> else t1
         else t)"

datatype visit_action = Enter u64 | Resume u64 nat "u64 list"

definition enter_node :: "adjacency \<Rightarrow> u64 \<Rightarrow> visit_action list \<times> tarjan \<Rightarrow> visit_action list \<times> tarjan" where
  "enter_node adj v st =
     (case st of (calls, t) \<Rightarrow>
        let i = current_index t;
            t1 = on_state v (\<lambda>s. s\<lparr>nv_index := Some i, lowlink := i, on_stack := True\<rparr>) t;
            t2 = t1\<lparr>tj_stack := v # tj_stack t1, current_index := i + 1\<rparr>;
            neighbors = neighbors_of adj v
        in if neighbors = [] then (calls, check_and_pop_scc v t2) else (Resume v 0 neighbors # calls, t2))"

definition resume_node ::
  "u64 \<Rightarrow> nat \<Rightarrow> u64 list \<Rightarrow> visit_action list \<times> tarjan \<Rightarrow> visit_action list \<times> tarjan" where
  "resume_node v i neighbors st =
     (case st of (calls, t) \<Rightarrow>
        if i \<ge> length neighbors then (calls, check_and_pop_scc v t)
        else
          let w = neighbors ! i;
              calls1 = (if i + 1 < length neighbors then Resume v (i + 1) neighbors # calls else calls)
          in case node_states t w of
               None \<Rightarrow> (calls1, t)
             | Some s \<Rightarrow>
                 if nv_index s = None then (Enter w # calls1, t)
                 else if on_stack s then
                   (calls1, case nv_index s of
                              None \<Rightarrow> t | Some wi \<Rightarrow> on_state v (\<lambda>s. s\<lparr>lowlink := min (lowlink s) wi\<rparr>) t)
                 else (calls1, t))"

fun visit :: "adjacency \<Rightarrow> visit_action \<Rightarrow> visit_action list \<times> tarjan \<Rightarrow> visit_action list \<times> tarjan" where
  "visit adj (Enter v) st = enter_node adj v st"
| "visit adj (Resume v i neighbors) st = resume_node v i neighbors st"

fun visit_loop :: "nat \<Rightarrow> adjacency \<Rightarrow> visit_action list \<times> tarjan \<Rightarrow> tarjan option" where
  "visit_loop fuel adj ([], t) = Some t"
| "visit_loop 0 adj (a # calls, t) = None"
| "visit_loop (Suc fuel) adj (a # calls, t) = visit_loop fuel adj (visit adj a (calls, t))"

definition strongconnect :: "nat \<Rightarrow> adjacency \<Rightarrow> u64 \<Rightarrow> tarjan \<Rightarrow> tarjan option" where
  "strongconnect fuel adj start t = visit_loop fuel adj ([Enter start], t)"

fun connect_all :: "nat \<Rightarrow> adjacency \<Rightarrow> u64 list \<Rightarrow> tarjan \<Rightarrow> tarjan option" where
  "connect_all fuel adj [] t = Some t"
| "connect_all fuel adj (v # keys) t =
     (if Option.bind (node_states t v) nv_index = None
      then Option.bind (strongconnect fuel adj v t) (connect_all fuel adj keys)
      else connect_all fuel adj keys t)"

definition is_cycle :: "adjacency \<Rightarrow> u64 list \<Rightarrow> bool" where
  "is_cycle adj scc =
     (if length scc > 1 then True
      else if length scc = 1 then (case adj (scc ! 0) of None \<Rightarrow> False | Some ns \<Rightarrow> scc ! 0 \<in> set ns)
      else False)"

definition clear_tarjan :: "tarjan \<Rightarrow> tarjan" where
  "clear_tarjan t = t\<lparr>tj_stack := [], node_states := Map.empty, sccs := [], current_index := 0\<rparr>"

definition detect_sccs :: "nat \<Rightarrow> adjacency \<Rightarrow> u64 list \<Rightarrow> tarjan \<Rightarrow> (u64 list list \<times> tarjan) option" where
  "detect_sccs fuel adj keys t =
     (let t1 = (clear_tarjan t)\<lparr>total_detections := total_detections t + 1\<rparr>;
          fresh = \<lparr>nv_index = None, lowlink = 0, on_stack = False\<rparr>;
          t2 = t1\<lparr>node_states := fold (\<lambda>v m. m(v \<mapsto> fresh)) keys (node_states t1)\<rparr>
      in map_option
           (\<lambda>t3. let cycles_found = length (sccs t3);
                     t4 = t3\<lparr>total_cycles_found := total_cycles_found t3 + cycles_found\<rparr>
                 in (filter (is_cycle adj) (sccs t4), t4\<lparr>sccs := []\<rparr>))
           (connect_all fuel adj keys t2))"

section \<open>The search never reports\<close>

definition visited :: "tarjan \<Rightarrow> u64 \<Rightarrow> bool" where
  "visited t v \<longleftrightarrow> Option.bind (node_states t v) nv_index \<noteq> None"

definition unvisited :: "tarjan \<Rightarrow> u64 \<Rightarrow> bool" where
  "unvisited t v \<longleftrightarrow> (\<exists>s. node_states t v = Some s \<and> nv_index s = None)"

text \<open>
  Components found so far: every visited node without neighbors, alone.  The nodes of the graph
  are those that have a state.
\<close>

definition sinks_found :: "adjacency \<Rightarrow> tarjan \<Rightarrow> bool" where
  "sinks_found adj t \<longleftrightarrow>
     distinct (sccs t) \<and> set (sccs t) = {[v] |v. visited t v \<and> neighbors_of adj v = []}"

text \<open>A call stack: a new node on top at most, and below it nodes with a neighbor left.\<close>

definition resumes :: "visit_action list \<Rightarrow> bool" where
  "resumes calls \<longleftrightarrow> (\<forall>a \<in> set calls. \<exists>v i ns. a = Resume v i ns \<and> i < length ns)"

definition calls_ok :: "visit_action list \<Rightarrow> tarjan \<Rightarrow> bool" where
  "calls_ok calls t \<longleftrightarrow> resumes calls \<or> (\<exists>v cs. calls = Enter v # cs \<and> unvisited t v \<and> resumes cs)"

text \<open>What is left to do; \<open>keys\<close> are the nodes.\<close>

fun action_cost :: "visit_action \<Rightarrow> nat" where
  "action_cost (Enter v) = 1"
| "action_cost (Resume v i ns) = 2 * (length ns - i)"

definition work_left :: "adjacency \<Rightarrow> u64 list \<Rightarrow> visit_action list \<Rightarrow> tarjan \<Rightarrow> nat" where
  "work_left adj keys calls t =
     (\<Sum>v \<leftarrow> filter (unvisited t) keys. 2 * length (neighbors_of adj v) + 2) + sum_list (map action_cost calls)"

lemma on_state_simps [simp]:
  "tj_stack (on_state v f t) = tj_stack t" "current_index (on_state v f t) = current_index t"
  "sccs (on_state v f t) = sccs t" "total_detections (on_state v f t) = total_detections t"
  "total_cycles_found (on_state v f t) = total_cycles_found t"
  "node_states (on_state v f t) w = (if w = v then map_option f (node_states t w) else node_states t w)"
  by (auto simp: on_state_def split: option.split)

text \<open>A change that does not touch indices.\<close>

lemma on_state_frame:
  assumes "\<And>s. nv_index (f s) = nv_index s"
  shows "visited (on_state v f t) w = visited t w" "unvisited (on_state v f t) w = unvisited t w"
  using assms by (cases "node_states t v"; simp add: visited_def unvisited_def)+

lemma sinks_found_cong:
  "sccs t' = sccs t \<Longrightarrow> (\<And>w. visited t' w = visited t w) \<Longrightarrow> sinks_found adj t' = sinks_found adj t"
  by (simp add: sinks_found_def)

text \<open>What entering a new node does.\<close>

definition entered :: "u64 \<Rightarrow> tarjan \<Rightarrow> tarjan" where
  "entered v t =
     (on_state v (\<lambda>s. s\<lparr>nv_index := Some (current_index t), lowlink := current_index t, on_stack := True\<rparr>) t)
       \<lparr>tj_stack := v # tj_stack t, current_index := current_index t + 1\<rparr>"

lemma entered_facts:
  assumes "unvisited t v"
  shows "visited (entered v t) w \<longleftrightarrow> w = v \<or> visited t w" "unvisited (entered v t) w \<longleftrightarrow> w \<noteq> v \<and> unvisited t w"
    "\<not> visited t v" "sccs (entered v t) = sccs t" "total_cycles_found (entered v t) = total_cycles_found t"
    "dom (node_states (entered v t)) = dom (node_states t)"
  using assms by (auto simp: entered_def visited_def unvisited_def dom_def split: if_splits)

lemma enter_node_eq:
  "enter_node adj v (calls, t) =
     (if neighbors_of adj v = [] then (calls, check_and_pop_scc v (entered v t))
      else (Resume v 0 (neighbors_of adj v) # calls, entered v t))"
  by (simp add: enter_node_def entered_def Let_def)

lemma check_and_pop_entered:
  assumes "unvisited t v"
  shows "check_and_pop_scc v (entered v t) =
    (on_state v (\<lambda>s. s\<lparr>on_stack := False\<rparr>) ((entered v t)\<lparr>tj_stack := tj_stack t\<rparr>))
      \<lparr>sccs := sccs t @ [[v]]\<rparr>"
  using assms by (auto simp: check_and_pop_scc_def entered_def unvisited_def Let_def)

lemma unvisited_sum:
  assumes "distinct keys" "v \<in> set keys" "P v"
  shows "(\<Sum>w \<leftarrow> filter P keys. f w) = (f v :: nat) + (\<Sum>w \<leftarrow> filter (\<lambda>w. w \<noteq> v \<and> P w) keys. f w)"
proof -
  have "{w \<in> set keys. P w} = insert v {w \<in> set keys. w \<noteq> v \<and> P w}" using assms(2,3) by auto
  then show ?thesis
    using assms(1) by (simp add: sum_list_distinct_conv_sum_set)
qed

definition graph_ok :: "adjacency \<Rightarrow> u64 list \<Rightarrow> tarjan \<Rightarrow> bool" where
  "graph_ok adj keys t \<longleftrightarrow> distinct keys \<and> dom (node_states t) = set keys \<and> sinks_found adj t"

lemma unvisited_key: "graph_ok adj keys t \<Longrightarrow> unvisited t v \<Longrightarrow> v \<in> set keys"
  by (auto simp: graph_ok_def unvisited_def)

text \<open>One step: the invariant is kept and less is left to do.\<close>

definition progress :: "adjacency \<Rightarrow> u64 list \<Rightarrow> nat \<Rightarrow> tarjan \<Rightarrow> visit_action list \<times> tarjan \<Rightarrow> bool" where
  "progress adj keys n t st \<longleftrightarrow>
     (case st of (calls', t') \<Rightarrow>
        graph_ok adj keys t' \<and> calls_ok calls' t' \<and> work_left adj keys calls' t' < n \<and>
        total_cycles_found t' = total_cycles_found t \<and> (\<forall>w. visited t w \<longrightarrow> visited t' w))"

lemma enter_progress:
  assumes ok: "graph_ok adj keys t" and u: "unvisited t v" and cs: "resumes calls"
  shows "progress adj keys (work_left adj keys (Enter v # calls) t) t (enter_node adj v (calls, t)) \<and>
    visited (snd (enter_node adj v (calls, t))) v"
proof -
  note e = entered_facts [OF u]
  have key: "v \<in> set keys" "distinct keys" using unvisited_key [OF ok u] ok by (simp_all add: graph_ok_def)
  have less: "(\<Sum>w \<leftarrow> filter (unvisited t) keys. 2 * length (neighbors_of adj w) + 2) =
      2 * length (neighbors_of adj v) + 2 +
      (\<Sum>w \<leftarrow> filter (\<lambda>w. w \<noteq> v \<and> unvisited t w) keys. 2 * length (neighbors_of adj w) + 2)"
    by (rule unvisited_sum [where P = "unvisited t", OF key(2,1) u])
  have found: "sinks_found adj t" "dom (node_states t) = set keys" using ok by (simp_all add: graph_ok_def)
  show ?thesis
  proof (cases "neighbors_of adj v = []")
    case True
    let ?t' = "check_and_pop_scc v (entered v t)"
    let ?on = "on_state v (\<lambda>s. s\<lparr>on_stack := False\<rparr>) (entered v t)"
    have ns: "node_states ?t' = node_states ?on"
      unfolding check_and_pop_entered [OF u] by (simp add: fun_eq_iff)
    have "visited ?t' w = visited ?on w" "unvisited ?t' w = unvisited ?on w" for w
      by (simp_all only: visited_def unvisited_def ns)
    then have vis: "visited ?t' w \<longleftrightarrow> w = v \<or> visited t w" "unvisited ?t' w \<longleftrightarrow> w \<noteq> v \<and> unvisited t w" for w
      using e(1,2) by (simp_all add: on_state_frame)
    have new: "sccs ?t' = sccs t @ [[v]]" "total_cycles_found ?t' = total_cycles_found t"
        "dom (node_states ?t') = set keys"
      using e(5,6) found(2) unfolding check_and_pop_entered [OF u] by (auto simp: dom_def split: if_splits)
    have "sinks_found adj ?t'"
      using found(1) e(3) True unfolding sinks_found_def vis(1) new(1) by auto
    moreover have "work_left adj keys calls ?t' < work_left adj keys (Enter v # calls) t"
      unfolding work_left_def less vis(2) by simp
    ultimately show ?thesis
      using True cs new vis(1) key(2) by (simp add: progress_def enter_node_eq graph_ok_def calls_ok_def)
  next
    case False
    have "sinks_found adj (entered v t)"
      using found(1) False unfolding sinks_found_def e(1,4) by auto
    moreover have "work_left adj keys (Resume v 0 (neighbors_of adj v) # calls) (entered v t) <
        work_left adj keys (Enter v # calls) t"
      unfolding work_left_def less e(2) by simp
    moreover have "resumes (Resume v 0 (neighbors_of adj v) # calls)" using cs False by (simp add: resumes_def)
    ultimately show ?thesis
      using False e key(2) found(2) by (simp add: progress_def enter_node_eq graph_ok_def calls_ok_def)
  qed
qed

lemma resume_progress:
  assumes ok: "graph_ok adj keys t" and i: "i < length ns" and cs: "resumes calls"
  shows "progress adj keys (work_left adj keys (Resume v i ns # calls) t) t (resume_node v i ns (calls, t))"
proof -
  let ?calls = "if i + 1 < length ns then Resume v (i + 1) ns # calls else calls"
  have rest: "resumes ?calls" using cs by (simp add: resumes_def)
  have cost: "sum_list (map action_cost ?calls) + 2 \<le> sum_list (map action_cost (Resume v i ns # calls))"
    using i by auto
  have t: "progress adj keys (work_left adj keys (Resume v i ns # calls) t) t (?calls, t)"
    using ok rest cost by (simp add: progress_def calls_ok_def work_left_def)
  consider "resume_node v i ns (calls, t) = (?calls, t)"
    | w where "unvisited t w" "resume_node v i ns (calls, t) = (Enter w # ?calls, t)"
    | x where "resume_node v i ns (calls, t) = (?calls, on_state v (\<lambda>s. s\<lparr>lowlink := min (lowlink s) x\<rparr>) t)"
  proof (cases "node_states t (ns ! i)")
    case None
    then show thesis using that(1) i by (simp add: resume_node_def Let_def)
  next
    case (Some s)
    show thesis
    proof (cases "nv_index s")
      case None
      then show thesis using that(2) [of "ns ! i"] i Some by (simp add: resume_node_def Let_def unvisited_def)
    next
      case index: (Some x)
      then show thesis
        using that(1) that(3) [of x] i Some by (cases "on_stack s") (simp_all add: resume_node_def Let_def)
    qed
  qed
  then show ?thesis
  proof cases
    case 1
    then show ?thesis using t by simp
  next
    case 2
    then show ?thesis
      using ok rest cost by (auto simp: progress_def calls_ok_def work_left_def)
  next
    case 3
    let ?t' = "on_state v (\<lambda>s. s\<lparr>lowlink := min (lowlink s) x\<rparr>) t"
    have vis: "visited ?t' w = visited t w" "unvisited ?t' w = unvisited t w" for w
      by (simp_all add: on_state_frame)
    have "dom (node_states ?t') = dom (node_states t)" by (auto simp: dom_def split: if_splits)
    then have "graph_ok adj keys ?t'" using ok vis by (simp add: graph_ok_def sinks_found_def)
    moreover have "unvisited ?t' = unvisited t" by (simp add: fun_eq_iff vis)
    ultimately show ?thesis
      using rest cost vis unfolding 3 by (simp add: progress_def calls_ok_def work_left_def)
  qed
qed

lemma visit_progress:
  assumes "graph_ok adj keys t" "calls_ok (a # calls) t"
  shows "progress adj keys (work_left adj keys (a # calls) t) t (visit adj a (calls, t))"
  using assms enter_progress [OF assms(1)] resume_progress [OF assms(1)]
  by (cases a) (auto simp: calls_ok_def resumes_def)

lemma visit_loop_ends:
  "graph_ok adj keys t \<Longrightarrow> calls_ok calls t \<Longrightarrow> work_left adj keys calls t \<le> fuel \<Longrightarrow>
     \<exists>t'. visit_loop fuel adj (calls, t) = Some t' \<and> graph_ok adj keys t' \<and>
       total_cycles_found t' = total_cycles_found t \<and> (\<forall>w. visited t w \<longrightarrow> visited t' w)"
proof (induction fuel arbitrary: calls t)
  case 0
  show ?case
  proof (cases calls)
    case (Cons a cs)
    then have "work_left adj keys calls t > 0"
      using visit_progress [of adj keys t a cs] 0 by (auto simp: progress_def split: prod.splits)
    then show ?thesis using 0 by simp
  qed (use 0 in simp)
next
  case (Suc fuel)
  show ?case
  proof (cases calls)
    case (Cons a cs)
    obtain calls' t1 where v: "visit adj a (cs, t) = (calls', t1)" by fastforce
    have "progress adj keys (work_left adj keys calls t) t (calls', t1)"
      using visit_progress [of adj keys t a cs] Suc.prems Cons v by simp
    then show ?thesis
      using Suc.IH [of t1 calls'] Suc.prems(3) Cons v by (auto simp: progress_def)
  qed (use Suc in simp)
qed

text \<open>Fuel that is always enough.\<close>

definition search_fuel :: "adjacency \<Rightarrow> u64 list \<Rightarrow> nat" where
  "search_fuel adj keys = (\<Sum>v \<leftarrow> keys. 2 * length (neighbors_of adj v) + 2) + 1"

lemma unvisited_work: "(\<Sum>v \<leftarrow> filter P keys. f v) \<le> (\<Sum>v \<leftarrow> keys. f v :: nat)"
  by (induction keys) auto

lemma visited_iff: "graph_ok adj keys t \<Longrightarrow> v \<in> set keys \<Longrightarrow> \<not> visited t v \<longleftrightarrow> unvisited t v"
proof -
  assume "graph_ok adj keys t" "v \<in> set keys"
  then have "v \<in> dom (node_states t)" by (simp add: graph_ok_def)
  then obtain x where "node_states t v = Some x" by blast
  then show ?thesis by (simp add: visited_def unvisited_def)
qed

lemma visited_key: "graph_ok adj keys t \<Longrightarrow> visited t v \<Longrightarrow> v \<in> set keys"
  by (cases "node_states t v") (auto simp: graph_ok_def visited_def)

lemma connect_all_ends:
  "graph_ok adj keys t \<Longrightarrow> set ks \<subseteq> set keys \<Longrightarrow> search_fuel adj keys \<le> fuel \<Longrightarrow>
     \<exists>t'. connect_all fuel adj ks t = Some t' \<and> graph_ok adj keys t' \<and>
       total_cycles_found t' = total_cycles_found t \<and> (\<forall>w. visited t w \<or> w \<in> set ks \<longrightarrow> visited t' w)"
proof (induction ks arbitrary: t)
  case (Cons v ks)
  show ?case
  proof (cases "visited t v")
    case True
    then obtain t' where "connect_all fuel adj ks t = Some t'" "graph_ok adj keys t'"
        "total_cycles_found t' = total_cycles_found t" "\<forall>w. visited t w \<or> w \<in> set ks \<longrightarrow> visited t' w"
      using Cons.IH [of t] Cons.prems by auto
    then show ?thesis using True by (auto simp: visited_def)
  next
    case False
    then have u: "unvisited t v" using visited_iff Cons.prems(1,2) by simp
    have calls: "calls_ok [Enter v] t" using u by (simp add: calls_ok_def resumes_def)
    obtain calls' t0 where v: "visit adj (Enter v) ([], t) = (calls', t0)" by fastforce
    have e: "progress adj keys (work_left adj keys [Enter v] t) t (calls', t0)" "visited t0 v"
      using enter_progress [OF Cons.prems(1) u, of "[]"] v by (simp_all add: resumes_def)
    have "work_left adj keys [Enter v] t \<le> fuel"
      using unvisited_work [of "\<lambda>v. 2 * length (neighbors_of adj v) + 2" "unvisited t" keys] Cons.prems(3)
      by (simp add: work_left_def search_fuel_def)
    then obtain fuel' where f: "fuel = Suc fuel'" "work_left adj keys calls' t0 \<le> fuel'"
      using e(1) by (cases fuel) (auto simp: progress_def)
    obtain t1 where t1: "visit_loop fuel' adj (calls', t0) = Some t1" "graph_ok adj keys t1"
        "total_cycles_found t1 = total_cycles_found t0" "\<forall>w. visited t0 w \<longrightarrow> visited t1 w"
      using visit_loop_ends [OF _ _ f(2)] e(1) unfolding progress_def by auto
    obtain t' where t': "connect_all fuel adj ks t1 = Some t'" "graph_ok adj keys t'"
        "total_cycles_found t' = total_cycles_found t1" "\<forall>w. visited t1 w \<or> w \<in> set ks \<longrightarrow> visited t' w"
      using Cons.IH [OF t1(2)] Cons.prems(2,3) by auto
    have "connect_all fuel adj (v # ks) t = Some t'"
      using False t1(1) t'(1) v by (simp add: visited_def strongconnect_def f(1))
    then show ?thesis
      using t' t1(3,4) e by (auto simp: progress_def)
  qed
qed simp

lemma sinks_are_no_cycles: "sinks_found adj t \<Longrightarrow> filter (is_cycle adj) (sccs t) = []"
proof -
  assume "sinks_found adj t"
  then have "\<exists>v. scc = [v] \<and> neighbors_of adj v = []" if "scc \<in> set (sccs t)" for scc
    using that by (auto simp: sinks_found_def)
  then show ?thesis by (fastforce simp: filter_empty_conv is_cycle_def neighbors_of_def split: option.split)
qed

lemma number_of_sinks:
  assumes "graph_ok adj keys t" "\<forall>v \<in> set keys. visited t v"
  shows "length (sccs t) = length (filter (\<lambda>v. neighbors_of adj v = []) keys)"
proof -
  have "{[v] |v. visited t v \<and> neighbors_of adj v = []} = (\<lambda>v. [v]) ` {v \<in> set keys. neighbors_of adj v = []}"
    using assms(2) visited_key [OF assms(1)] by blast
  then have "card (set (sccs t)) = card {v \<in> set keys. neighbors_of adj v = []}"
    using assms(1) by (simp add: graph_ok_def sinks_found_def card_image inj_on_def)
  then show ?thesis
    using assms(1) by (simp add: graph_ok_def sinks_found_def distinct_card flip: set_filter distinct_card)
qed

lemma fresh_states: "fold (\<lambda>v m. m(v \<mapsto> x)) keys m w = (if w \<in> set keys then Some x else m w)"
  by (induction keys arbitrary: m) auto

lemma detect_sccs_result:
  assumes "distinct keys" "search_fuel adj keys \<le> fuel"
  shows "\<exists>t'. detect_sccs fuel adj keys t = Some ([], t') \<and>
    total_cycles_found t' = total_cycles_found t + length (filter (\<lambda>v. neighbors_of adj v = []) keys)"
proof -
  let ?fresh = "\<lparr>nv_index = None, lowlink = 0, on_stack = False\<rparr>"
  let ?t2 = "(clear_tarjan t)\<lparr>total_detections := total_detections t + 1,
      node_states := fold (\<lambda>v m. m(v \<mapsto> ?fresh)) keys Map.empty\<rparr>"
  have "\<not> visited ?t2 v" for v by (simp add: visited_def fresh_states)
  then have "sinks_found adj ?t2" by (simp add: sinks_found_def clear_tarjan_def)
  moreover have "dom (node_states ?t2) = set keys" by (auto simp: fresh_states dom_def)
  ultimately have ok: "graph_ok adj keys ?t2" using assms(1) by (simp add: graph_ok_def)
  obtain t3 where t3: "connect_all fuel adj keys ?t2 = Some t3" "graph_ok adj keys t3"
      "total_cycles_found t3 = total_cycles_found ?t2" "\<forall>w \<in> set keys. visited t3 w"
    using connect_all_ends [OF ok subset_refl assms(2)] by auto
  have "filter (is_cycle adj) (sccs t3) = []"
    using t3(2) sinks_are_no_cycles by (simp add: graph_ok_def)
  moreover have "length (sccs t3) = length (filter (\<lambda>v. neighbors_of adj v = []) keys)"
    by (rule number_of_sinks [OF t3(2,4)])
  moreover have "total_cycles_found t3 = total_cycles_found t" using t3(3) by (simp add: clear_tarjan_def)
  ultimately show ?thesis
    using t3(1) by (simp add: detect_sccs_def Let_def clear_tarjan_def)
qed

text \<open>C37. The search always ends and never reports a component.  For every graph, whatever its cycles, the
  search returns no component at all, within fuel that is linear in its nodes and edges; and what
  it adds to its count of cycles is the number of nodes without an outgoing edge.\<close>

theorem detector_never_reports:
  "distinct keys \<Longrightarrow> search_fuel adj keys \<le> fuel \<Longrightarrow>
     \<exists>t'. detect_sccs fuel adj keys t = Some ([], t') \<and>
       total_cycles_found t' = total_cycles_found t + length (filter (\<lambda>v. neighbors_of adj v = []) keys)"
  by (rule detect_sccs_result)

theorem detector_never_reports_witness:
  "\<exists>t'. detect_sccs 13 [1 \<mapsto> [2], 2 \<mapsto> [3], 3 \<mapsto> [1]] [1, 2, 3] new_tarjan = Some ([], t') \<and> total_cycles_found t' = 0"
  using detector_never_reports [of "[1, 2, 3]" "[1 \<mapsto> [2], 2 \<mapsto> [3], 3 \<mapsto> [1]]" 13 new_tarjan]
  by (simp add: search_fuel_def neighbors_of_def new_tarjan_def)

end
