(* ===== verification/Wash_Trade.thy ===== *)
theory Wash_Trade
  imports Tarjan_Detector "HOL-Library.AList" "HOL-Library.Sublist"
begin

text \<open>
  The graph of executions that is searched for wash trades,
  \<open>crates/nexus_legal/src/mar/wash_trade_graph.rs\<close>: one graph per class of asset and venue, an edge
  between opposite executions of one strategy, a search for cycles after every execution, and
  pruning.  The maps that are traversed are association lists, in an order that is that of
  insertion.  The spoofing monitor, a component of its own, and the channel of the alerts are left
  out: alerts are collected in a list.  The theory shows that no alert is ever raised, and that
  this is not only due to the search: the graph never has a cycle.
\<close>

section \<open>Data\<close>

datatype asset_class = Equity | Futures | CryptoSpot | CryptoPerp | Options | Bonds | Forex

text \<open>Only the ASCII letters are listed; the last two cases have the same result.\<close>

definition is_alphabetic :: "char \<Rightarrow> bool" where
  "is_alphabetic c \<longleftrightarrow> c \<in> set ''ABCDEFGHIJKLMNOPQRSTUVWXYZabcdefghijklmnopqrstuvwxyz''"

definition from_symbol :: "string \<Rightarrow> asset_class" where
  "from_symbol symbol =
     (if suffix ''PERP'' symbol \<or> sublist ''SWAP'' symbol then CryptoPerp
      else if Sublist.prefix ''ES'' symbol \<or> Sublist.prefix ''NQ'' symbol \<or> Sublist.prefix ''CL'' symbol then Futures
      else if Sublist.prefix ''BTC'' symbol \<or> Sublist.prefix ''ETH'' symbol then CryptoSpot
      else if (case symbol of [] \<Rightarrow> False | c # _ \<Rightarrow> is_alphabetic c) \<and> length symbol \<le> 5 then Equity
      else Equity)"

datatype trade_side = BuySide | SellSide

record execution =
  ex_id :: u64
  ex_symbol :: string
  ex_asset_class :: asset_class
  ex_venue_id :: u32
  ex_side :: trade_side
  ex_quantity :: i64
  ex_price :: u64
  ex_timestamp_ns :: u64
  ex_strategy_id :: u32
  ex_order_id :: u64
  ex_is_maker :: bool

record wash_config =
  window_size_ns :: u64
  min_cycle_size :: nat
  max_net_position :: i64
  fee_threshold_bp :: u32
  strict_mode :: bool

definition default_wash_config :: wash_config where
  "default_wash_config =
     \<lparr>window_size_ns = 60000000000, min_cycle_size = 2, max_net_position = 1, fee_threshold_bp = 0, strict_mode = True\<rparr>"

text \<open>Of an alert, what varies.\<close>

record mar_alert =
  alert_id :: u64
  alert_timestamp_ns :: u64
  involved_executions :: "u64 list"
  alert_symbol :: string
  alert_venue_id :: u32
  auto_halt_triggered :: bool

record partition_graph =
  pg_nodes :: "(u64 \<times> execution) list"
  pg_adjacency :: adjacency
  creation_times :: "(u64 \<times> u64) list"

definition new_partition :: partition_graph where
  "new_partition = \<lparr>pg_nodes = [], pg_adjacency = Map.empty, creation_times = []\<rparr>"

record wash_graph =
  wg_config :: wash_config
  partitions :: "asset_class \<times> u32 \<rightharpoonup> partition_graph"
  alert_counter :: u64
  alerts :: "mar_alert list"
  detector :: tarjan
  last_prune_time :: u64

definition new_wash_graph :: "wash_config \<Rightarrow> wash_graph" where
  "new_wash_graph c =
     \<lparr>wg_config = c, partitions = Map.empty, alert_counter = 0, alerts = [], detector = new_tarjan, last_prune_time = 0\<rparr>"

section \<open>One partition\<close>

text \<open>\<open>age\<close> is the time that has passed since the instant that was just taken.\<close>

definition add_node :: "u64 \<Rightarrow> execution \<Rightarrow> partition_graph \<Rightarrow> partition_graph" where
  "add_node age x p =
     p\<lparr>pg_nodes := AList.update (ex_id x) x (pg_nodes p),
       pg_adjacency := (case pg_adjacency p (ex_id x) of None \<Rightarrow> (pg_adjacency p)(ex_id x \<mapsto> []) | Some _ \<Rightarrow> pg_adjacency p),
       creation_times := AList.update (ex_id x) age (creation_times p)\<rparr>"

definition add_edge :: "u64 \<Rightarrow> u64 \<Rightarrow> partition_graph \<Rightarrow> partition_graph" where
  "add_edge src dst p =
     p\<lparr>pg_adjacency := (pg_adjacency p)(src \<mapsto> neighbors_of (pg_adjacency p) src @ [dst])\<rparr>"

definition prune_old_nodes :: "u64 \<Rightarrow> u64 \<Rightarrow> partition_graph \<Rightarrow> partition_graph" where
  "prune_old_nodes cutoff_ns now p =
     (let old = (\<lambda>(i, created). saturating_sub now created > cutoff_ns);
          removed = map fst (filter old (creation_times p))
      in p\<lparr>creation_times := filter (\<lambda>e. \<not> old e) (creation_times p),
           pg_nodes := filter (\<lambda>(i, _). i \<notin> set removed) (pg_nodes p),
           pg_adjacency := (\<lambda>i. if i \<in> set removed then None
             else map_option (filter (\<lambda>n. n \<notin> set removed)) (pg_adjacency p i))\<rparr>)"

definition edge_to :: "wash_config \<Rightarrow> execution \<Rightarrow> u64 \<times> execution \<Rightarrow> partition_graph \<Rightarrow> partition_graph" where
  "edge_to c new e p =
     (case e of (i, x) \<Rightarrow>
        let window_start = saturating_sub (ex_timestamp_ns new) (window_size_ns c)
        in if i = ex_id new then p
           else if ex_timestamp_ns x < window_start then p
           else if ex_symbol x = ex_symbol new \<and> ex_side x \<noteq> ex_side new \<and> ex_strategy_id x = ex_strategy_id new
           then if ex_timestamp_ns x < ex_timestamp_ns new then add_edge i (ex_id new) p
                else add_edge (ex_id new) i p
           else p)"

definition build_edges :: "wash_config \<Rightarrow> execution \<Rightarrow> partition_graph \<Rightarrow> partition_graph" where
  "build_edges c new p = fold (edge_to c new) (pg_nodes p) p"

section \<open>Detection\<close>

definition net_position :: "execution list \<Rightarrow> i64" where
  "net_position xs =
     fold (\<lambda>x n. s64 (case ex_side x of BuySide \<Rightarrow> n + ex_quantity x | SellSide \<Rightarrow> n - ex_quantity x)) xs 0"

definition total_fees :: "u32 \<Rightarrow> execution list \<Rightarrow> u64" where
  "total_fees bp xs =
     fold (\<lambda>x n. n + ex_price x * word_of_int (ex_quantity x) * ucast bp div 10000) xs 0"

definition validate_and_alert :: "u64 list \<Rightarrow> asset_class \<times> u32 \<Rightarrow> u64 \<Rightarrow> wash_graph \<Rightarrow> wash_graph" where
  "validate_and_alert scc key now g =
     (case partitions g key of
        None \<Rightarrow> g
      | Some p \<Rightarrow>
          let xs = List.map_filter (map_of (pg_nodes p)) scc;
              symbol = (case filter (\<lambda>s. s \<noteq> []) (map ex_symbol xs) of [] \<Rightarrow> [] | s # _ \<Rightarrow> s)
          in if i64_abs (net_position xs) \<le> max_net_position (wg_config g) \<and>
                total_fees (fee_threshold_bp (wg_config g)) xs > 0
             then g\<lparr>alert_counter := alert_counter g + 1,
                    alerts := alerts g @
                      [\<lparr>alert_id = alert_counter g, alert_timestamp_ns = now, involved_executions = scc,
                        alert_symbol = symbol, alert_venue_id = snd key,
                        auto_halt_triggered = strict_mode (wg_config g)\<rparr>]\<rparr>
             else g)"

text \<open>The fuel of the search is that of its termination proof; without a result nothing is done.\<close>

definition trigger_detection :: "asset_class \<times> u32 \<Rightarrow> u64 \<Rightarrow> wash_graph \<Rightarrow> wash_graph" where
  "trigger_detection key now g =
     (case partitions g key of
        None \<Rightarrow> g
      | Some p \<Rightarrow>
          let keys = map fst (pg_nodes p)
          in case detect_sccs (search_fuel (pg_adjacency p) keys) (pg_adjacency p) keys (detector g) of
               None \<Rightarrow> g
             | Some (found, t) \<Rightarrow>
                 fold (\<lambda>scc g. if length scc \<ge> min_cycle_size (wg_config g) then validate_and_alert scc key now g else g)
                   found (g\<lparr>detector := t\<rparr>))"

definition maybe_prune :: "u64 \<Rightarrow> wash_graph \<Rightarrow> wash_graph" where
  "maybe_prune now g =
     (if saturating_sub now (last_prune_time g) > 1000000000
      then g\<lparr>last_prune_time := now,
             partitions := (\<lambda>k. map_option (prune_old_nodes (window_size_ns (wg_config g)) now) (partitions g k))\<rparr>
      else g)"

definition record_execution :: "u64 \<Rightarrow> execution \<Rightarrow> wash_graph \<Rightarrow> wash_graph" where
  "record_execution age x g =
     (let key = (ex_asset_class x, ex_venue_id x);
          p = (case partitions g key of None \<Rightarrow> new_partition | Some p \<Rightarrow> p);
          p1 = build_edges (wg_config g) x (add_node age x p);
          g1 = g\<lparr>partitions := (partitions g)(key \<mapsto> p1)\<rparr>
      in maybe_prune (ex_timestamp_ns x) (trigger_detection key (ex_timestamp_ns x) g1))"

definition record_all :: "(u64 \<times> execution) list \<Rightarrow> wash_graph \<Rightarrow> wash_graph" where
  "record_all xs g = fold (\<lambda>(age, x). record_execution age x) xs g"

section \<open>What every partition keeps\<close>

definition keys_distinct :: "wash_graph \<Rightarrow> bool" where
  "keys_distinct g \<longleftrightarrow> (\<forall>k p. partitions g k = Some p \<longrightarrow> distinct (map fst (pg_nodes p)))"

lemma keys_distinctD: "keys_distinct g \<Longrightarrow> partitions g k = Some p \<Longrightarrow> distinct (map fst (pg_nodes p))"
  unfolding keys_distinct_def by blast

lemma edge_to_nodes [simp]: "pg_nodes (edge_to c x e p) = pg_nodes p"
  by (simp add: edge_to_def add_edge_def Let_def split: prod.split)

lemma fold_edge_to_nodes [simp]: "pg_nodes (fold (edge_to c x) es p) = pg_nodes p"
  by (induction es arbitrary: p) simp_all

lemma build_edges_nodes [simp]: "pg_nodes (build_edges c x p) = pg_nodes p"
  by (simp add: build_edges_def)

lemma build_edges_times: "creation_times (build_edges c x p) = creation_times p"
proof -
  have "creation_times (edge_to c x e q) = creation_times q" for e q
    by (simp add: edge_to_def add_edge_def Let_def split: prod.split)
  then have "creation_times (fold (edge_to c x) es q) = creation_times q" for es q
    by (induction es arbitrary: q) simp_all
  then show ?thesis by (simp add: build_edges_def)
qed

lemma add_node_nodes [simp]: "pg_nodes (add_node age x p) = AList.update (ex_id x) x (pg_nodes p)"
  by (simp add: add_node_def)

lemma update_keys: "fst ` set (AList.update k v xs) = insert k (fst ` set xs)"
  by (induction xs) auto

lemma prune_keeps_distinct:
  "distinct (map fst (pg_nodes p)) \<Longrightarrow> distinct (map fst (pg_nodes (prune_old_nodes c now p)))"
  by (simp add: prune_old_nodes_def Let_def distinct_map_filter)

lemma maybe_prune_keeps_distinct: "keys_distinct g \<Longrightarrow> keys_distinct (maybe_prune now g)"
  unfolding keys_distinct_def maybe_prune_def by (auto simp: prune_keeps_distinct)

definition partition_of :: "wash_graph \<Rightarrow> execution \<Rightarrow> partition_graph" where
  "partition_of g x =
     (case partitions g (ex_asset_class x, ex_venue_id x) of None \<Rightarrow> new_partition | Some p \<Rightarrow> p)"

lemma partition_of_distinct: "keys_distinct g \<Longrightarrow> distinct (map fst (pg_nodes (partition_of g x)))"
  by (simp add: partition_of_def new_partition_def keys_distinctD split: option.split)

section \<open>No alert\<close>

text \<open>As the search reports nothing, a detection changes the detector only.\<close>

lemma trigger_detection_quiet:
  assumes "keys_distinct g"
  shows "\<exists>t. trigger_detection key now g = g\<lparr>detector := t\<rparr>"
proof (cases "partitions g key")
  case None
  then show ?thesis by (intro exI [of _ "detector g"]) (simp add: trigger_detection_def)
next
  case (Some p)
  then obtain t where "detect_sccs (search_fuel (pg_adjacency p) (map fst (pg_nodes p))) (pg_adjacency p)
      (map fst (pg_nodes p)) (detector g) = Some ([], t)"
    using detect_sccs_result [OF keys_distinctD [OF assms Some] order_refl] by blast
  then show ?thesis using Some by (intro exI [of _ t]) (simp add: trigger_detection_def Let_def)
qed

lemma record_execution_shape:
  assumes "keys_distinct g"
  shows "\<exists>t. record_execution age x g = maybe_prune (ex_timestamp_ns x)
      (g\<lparr>partitions := (partitions g)((ex_asset_class x, ex_venue_id x) \<mapsto>
           build_edges (wg_config g) x (add_node age x (partition_of g x))), detector := t\<rparr>)"
    and "keys_distinct (record_execution age x g)"
proof -
  let ?key = "(ex_asset_class x, ex_venue_id x)"
  let ?p = "build_edges (wg_config g) x (add_node age x (partition_of g x))"
  let ?g1 = "g\<lparr>partitions := (partitions g)(?key \<mapsto> ?p)\<rparr>"
  have k1: "keys_distinct ?g1"
    unfolding keys_distinct_def
    using partition_of_distinct [OF assms] keys_distinctD [OF assms] by (auto simp: distinct_update)
  obtain t where t: "trigger_detection ?key (ex_timestamp_ns x) ?g1 = ?g1\<lparr>detector := t\<rparr>"
    using trigger_detection_quiet [OF k1] by blast
  have eq: "record_execution age x g = maybe_prune (ex_timestamp_ns x) (?g1\<lparr>detector := t\<rparr>)"
    using t by (simp add: record_execution_def partition_of_def Let_def)
  then show "\<exists>t. record_execution age x g = maybe_prune (ex_timestamp_ns x) (?g1\<lparr>detector := t\<rparr>)"
    by blast
  have "keys_distinct (?g1\<lparr>detector := t\<rparr>)"
    using k1 by (simp add: keys_distinct_def)
  then show "keys_distinct (record_execution age x g)"
    unfolding eq by (rule maybe_prune_keeps_distinct)
qed

lemma maybe_prune_frame [simp]:
  "alerts (maybe_prune now g) = alerts g" "alert_counter (maybe_prune now g) = alert_counter g"
  "wg_config (maybe_prune now g) = wg_config g"
  by (simp_all add: maybe_prune_def)

lemma record_execution_frame:
  assumes "keys_distinct g"
  shows "alerts (record_execution age x g) = alerts g \<and> alert_counter (record_execution age x g) = alert_counter g"
  using record_execution_shape(1) [OF assms, of age x] by auto

lemma record_all_frame:
  "keys_distinct g \<Longrightarrow> alerts (record_all xs g) = alerts g \<and> alert_counter (record_all xs g) = alert_counter g"
proof (induction xs arbitrary: g)
  case Nil
  then show ?case by (simp add: record_all_def)
next
  case (Cons e xs)
  obtain age x where e: "e = (age, x)" by (cases e)
  have "record_all (e # xs) g = record_all xs (record_execution age x g)"
    by (simp add: record_all_def e)
  then show ?case
    using Cons.IH [OF record_execution_shape(2) [OF Cons.prems]] record_execution_frame [OF Cons.prems] by simp
qed

text \<open>Whatever executions are recorded, the wash trade detector raises no alert: its channel
  stays empty and its counter zero, for every configuration.\<close>

lemma no_wash_trade_alert:
  "alerts (record_all xs (new_wash_graph c)) = [] \<and> alert_counter (record_all xs (new_wash_graph c)) = 0"
proof -
  have "keys_distinct (new_wash_graph c)" by (simp add: keys_distinct_def new_wash_graph_def)
  then show ?thesis using record_all_frame [of "new_wash_graph c" xs] by (simp add: new_wash_graph_def)
qed

text \<open>With the default threshold of zero basis points the fees are zero, so that even a reported
  component would not be an alert.\<close>

lemma total_fees_zero: "total_fees 0 xs = 0"
proof -
  have "fold (\<lambda>x n. n + ex_price x * word_of_int (ex_quantity x) * ucast (0::u32) div 10000) xs m = m" for m
    by (induction xs arbitrary: m) simp_all
  then show ?thesis by (simp add: total_fees_def)
qed

lemma default_config_never_alerts:
  "wg_config g = default_wash_config \<Longrightarrow> validate_and_alert scc key now g = g"
  by (simp add: validate_and_alert_def default_wash_config_def total_fees_zero Let_def split: option.split)

text \<open>The creation time of a node is not the time of its execution but the almost zero time since an
  instant just taken: the first execution whose time is beyond a second and the window is forgotten
  as soon as it is recorded.\<close>

lemma prune_forgets_everything:
  assumes "age < ex_timestamp_ns x - window_size_ns c" "window_size_ns c \<le> ex_timestamp_ns x"
    "ex_timestamp_ns x > 1000000000"
    "partitions (record_execution age x (new_wash_graph c)) (ex_asset_class x, ex_venue_id x) = Some p"
  shows "pg_nodes p = []"
proof -
  let ?p = "build_edges c x (add_node age x new_partition)"
  have k: "keys_distinct (new_wash_graph c)" by (simp add: keys_distinct_def new_wash_graph_def)
  have old: "saturating_sub (ex_timestamp_ns x) age > window_size_ns c"
    using assms(1,2) unfolding saturating_sub_def word_less_nat_alt word_le_nat_alt
    by (auto simp: unat_sub word_le_nat_alt)
  have "partition_of (new_wash_graph c) x = new_partition" "wg_config (new_wash_graph c) = c"
    by (simp_all add: partition_of_def new_wash_graph_def)
  then obtain t where eq: "record_execution age x (new_wash_graph c) = maybe_prune (ex_timestamp_ns x)
      ((new_wash_graph c)\<lparr>partitions := (partitions (new_wash_graph c))((ex_asset_class x, ex_venue_id x) \<mapsto> ?p),
         detector := t\<rparr>)"
    using record_execution_shape(1) [OF k, of age x] by auto
  have "p = prune_old_nodes (window_size_ns c) (ex_timestamp_ns x) ?p"
    using assms(3,4) unfolding eq by (simp add: maybe_prune_def new_wash_graph_def saturating_sub_def)
  moreover have "creation_times ?p = [(ex_id x, age)]" "pg_nodes ?p = [(ex_id x, x)]"
    by (simp_all add: build_edges_times add_node_def new_partition_def)
  ultimately show ?thesis using old by (simp add: prune_old_nodes_def Let_def)
qed

section \<open>No cycle\<close>

definition edges_of :: "partition_graph \<Rightarrow> (u64 \<times> u64) set" where
  "edges_of p = {(a, b). b \<in> set (neighbors_of (pg_adjacency p) a)}"

definition stamp :: "partition_graph \<Rightarrow> u64 \<Rightarrow> u64" where
  "stamp p i = (case map_of (pg_nodes p) i of None \<Rightarrow> 0 | Some x \<Rightarrow> ex_timestamp_ns x)"

text \<open>An edge leads to a later execution or, at the same time, to one that was inserted before.\<close>

definition ordered_by :: "(u64 \<Rightarrow> nat) \<Rightarrow> partition_graph \<Rightarrow> bool" where
  "ordered_by rank p \<longleftrightarrow>
     (\<forall>(a, b)\<in>edges_of p. a \<in> fst ` set (pg_nodes p) \<and> b \<in> fst ` set (pg_nodes p) \<and>
        (stamp p a < stamp p b \<or> stamp p a = stamp p b \<and> rank b < rank a))"

lemma ordered_byD:
  assumes "ordered_by rank p" "(a, b) \<in> edges_of p"
  shows "a \<in> fst ` set (pg_nodes p)" "b \<in> fst ` set (pg_nodes p)"
    "stamp p a < stamp p b \<or> stamp p a = stamp p b \<and> rank b < rank a"
  using assms unfolding ordered_by_def by (auto simp del: surjective_pairing)

lemma ordered_by_acyclic:
  assumes "ordered_by rank p"
  shows "acyclic (edges_of p)"
proof -
  let ?r = "{(a, b). stamp p a < stamp p b \<or> stamp p a = stamp p b \<and> rank b < rank a}"
  have "edges_of p \<subseteq> ?r" using assms by (auto simp: ordered_by_def)
  moreover have "trans ?r" by (auto simp: trans_def)
  then have "acyclic ?r" by (auto simp: acyclic_def trancl_id)
  ultimately show ?thesis by (meson acyclic_subset)
qed

lemma edges_add_edge: "edges_of (add_edge a b p) = insert (a, b) (edges_of p)"
  by (auto simp: edges_of_def add_edge_def neighbors_of_def split: option.splits if_splits)

lemma edges_add_node [simp]: "edges_of (add_node age x p) = edges_of p"
  by (auto simp: edges_of_def add_node_def neighbors_of_def split: option.splits if_splits)

lemma edges_edge_to:
  "edges_of (edge_to c new (i, x) p) \<subseteq> edges_of p \<union>
     (if i = ex_id new then {}
      else if ex_timestamp_ns x < ex_timestamp_ns new then {(i, ex_id new)} else {(ex_id new, i)})"
  by (auto simp: edge_to_def Let_def edges_add_edge)

lemma edges_fold:
  "edges_of (fold (edge_to c new) es p) \<subseteq> edges_of p \<union>
     {(i, ex_id new) |i x. (i, x) \<in> set es \<and> ex_timestamp_ns x < ex_timestamp_ns new} \<union>
     {(ex_id new, i) |i x. (i, x) \<in> set es \<and> i \<noteq> ex_id new \<and> \<not> ex_timestamp_ns x < ex_timestamp_ns new}"
proof (induction es arbitrary: p)
  case Nil
  then show ?case by simp
next
  case (Cons e es)
  obtain i x where e: "e = (i, x)" by (cases e)
  have step: "edges_of (edge_to c new e p) \<subseteq> edges_of p \<union>
     {(i, ex_id new) |i x. (i, x) \<in> set (e # es) \<and> ex_timestamp_ns x < ex_timestamp_ns new} \<union>
     {(ex_id new, i) |i x. (i, x) \<in> set (e # es) \<and> i \<noteq> ex_id new \<and> \<not> ex_timestamp_ns x < ex_timestamp_ns new}"
    using edges_edge_to [of c new i x p] unfolding e by (auto split: if_splits)
  have "set es \<subseteq> set (e # es)" by auto
  then show ?case
    using Cons.IH [of "edge_to c new e p"] step unfolding fold_simps by blast
qed

lemma stamp_cong: "pg_nodes p = pg_nodes q \<Longrightarrow> stamp p = stamp q"
  by (simp add: stamp_def fun_eq_iff)

text \<open>An execution under a fresh identifier keeps the order: it is ranked after all the others.\<close>

lemma ordered_by_insert:
  assumes o: "ordered_by rank p" and d: "distinct (map fst (pg_nodes p))"
    and fresh: "ex_id x \<notin> fst ` set (pg_nodes p)"
  shows "\<exists>rank'. ordered_by rank' (build_edges c x (add_node age x p))"
proof -
  let ?v = "ex_id x"
  let ?q = "add_node age x p"
  let ?old = "fst ` set (pg_nodes p)"
  obtain m where m: "\<forall>i\<in>?old. rank i < m"
    using finite_nat_set_iff_bounded [of "rank ` ?old"] by auto
  define rank' where "rank' = rank(?v := m)"
  have keys: "fst ` set (pg_nodes ?q) = insert ?v ?old"
    by (simp add: update_keys)
  have nodes: "map_of (pg_nodes ?q) = (map_of (pg_nodes p))(?v \<mapsto> x)"
    by (simp add: update_conv')
  have sv: "stamp ?q ?v = ex_timestamp_ns x" and so: "i \<noteq> ?v \<Longrightarrow> stamp ?q i = stamp p i" for i
    unfolding stamp_def nodes by simp_all
  have dq: "distinct (map fst (pg_nodes ?q))" using d by (simp add: distinct_update)
  have stamp_in: "stamp ?q i = ex_timestamp_ns y" if "(i, y) \<in> set (pg_nodes ?q)" for i y
    using map_of_is_SomeI [OF dq that] by (simp add: stamp_def)
  have old: "a \<in> ?old \<and> b \<in> ?old \<and> (stamp p a < stamp p b \<or> stamp p a = stamp p b \<and> rank b < rank a)"
    if "(a, b) \<in> edges_of p" for a b
    using ordered_byD [OF o that] by blast
  have "a \<in> insert ?v ?old \<and> b \<in> insert ?v ?old \<and>
      (stamp ?q a < stamp ?q b \<or> stamp ?q a = stamp ?q b \<and> rank' b < rank' a)"
    if ab: "(a, b) \<in> edges_of (build_edges c x ?q)" for a b
  proof -
    consider "(a, b) \<in> edges_of p"
      | y where "b = ?v" "(a, y) \<in> set (pg_nodes ?q)" "ex_timestamp_ns y < ex_timestamp_ns x"
      | y where "a = ?v" "(b, y) \<in> set (pg_nodes ?q)" "b \<noteq> ?v" "\<not> ex_timestamp_ns y < ex_timestamp_ns x"
      using ab edges_fold [of c x "pg_nodes ?q" ?q] unfolding build_edges_def edges_add_node by blast
    then show ?thesis
    proof cases
      case 1
      then have "a \<noteq> ?v" "b \<noteq> ?v" using old fresh by blast+
      then show ?thesis using old [OF 1] by (simp add: so rank'_def)
    next
      case (2 y)
      then have "a \<in> insert ?v ?old" using keys by force
      then show ?thesis using 2 stamp_in [of a y] sv by simp
    next
      case (3 y)
      then have "b \<in> insert ?v ?old" using keys by force
      then show ?thesis using 3 stamp_in [of b y] sv m by (auto simp: rank'_def)
    qed
  qed
  moreover have "stamp (build_edges c x ?q) = stamp ?q" by (rule stamp_cong) simp
  ultimately have "ordered_by rank' (build_edges c x ?q)"
    unfolding ordered_by_def build_edges_nodes keys by auto
  then show ?thesis by blast
qed

lemma map_of_filter_fst: "map_of (filter (\<lambda>(i, _). i \<notin> r) xs) i = (if i \<in> r then None else map_of xs i)"
  by (induction xs) auto

lemma ordered_by_prune:
  assumes "ordered_by rank p"
  shows "ordered_by rank (prune_old_nodes cutoff now p)"
proof -
  let ?q = "prune_old_nodes cutoff now p"
  define r where "r = set (map fst (filter (\<lambda>(i, created). saturating_sub now created > cutoff) (creation_times p)))"
  have nodes: "pg_nodes ?q = filter (\<lambda>(i, _). i \<notin> r) (pg_nodes p)"
    and adj: "pg_adjacency ?q = (\<lambda>i. if i \<in> r then None else map_option (filter (\<lambda>n. n \<notin> r)) (pg_adjacency p i))"
    unfolding r_def prune_old_nodes_def Let_def by simp_all
  have e: "(a, b) \<in> edges_of p \<and> a \<notin> r \<and> b \<notin> r" if "(a, b) \<in> edges_of ?q" for a b
    using that unfolding edges_of_def adj
    by (cases "pg_adjacency p a") (auto simp: neighbors_of_def split: if_splits)
  have s: "stamp ?q i = stamp p i" if "i \<notin> r" for i
    using that unfolding stamp_def nodes by (simp add: map_of_filter_fst)
  have k: "i \<in> fst ` set (pg_nodes ?q)" if "i \<notin> r" "i \<in> fst ` set (pg_nodes p)" for i
    using that unfolding nodes by force
  show ?thesis
    unfolding ordered_by_def
  proof clarify
    fix a b
    assume "(a, b) \<in> edges_of ?q"
    then have ab: "(a, b) \<in> edges_of p" "a \<notin> r" "b \<notin> r" using e by blast+
    show "a \<in> fst ` set (pg_nodes ?q) \<and> b \<in> fst ` set (pg_nodes ?q) \<and>
        (stamp ?q a < stamp ?q b \<or> stamp ?q a = stamp ?q b \<and> rank b < rank a)"
      unfolding s [OF ab(2)] s [OF ab(3)] using k [OF ab(2)] k [OF ab(3)] ordered_byD [OF assms ab(1)] by blast
  qed
qed

text \<open>The invariant of the whole graph; \<open>seen\<close> are the identifiers recorded so far.\<close>

definition graph_ordered :: "u64 set \<Rightarrow> wash_graph \<Rightarrow> bool" where
  "graph_ordered seen g \<longleftrightarrow> keys_distinct g \<and>
     (\<forall>k p. partitions g k = Some p \<longrightarrow> fst ` set (pg_nodes p) \<subseteq> seen \<and> (\<exists>rank. ordered_by rank p))"

lemma graph_orderedD:
  "graph_ordered seen g \<Longrightarrow> partitions g k = Some p \<Longrightarrow>
   fst ` set (pg_nodes p) \<subseteq> seen \<and> (\<exists>rank. ordered_by rank p)"
  unfolding graph_ordered_def by blast

lemma prune_nodes_subset: "fst ` set (pg_nodes (prune_old_nodes c now p)) \<subseteq> fst ` set (pg_nodes p)"
  by (auto simp: prune_old_nodes_def Let_def)

lemma maybe_prune_partition:
  assumes "partitions (maybe_prune now g) k = Some p"
  obtains p0 where "partitions g k = Some p0" "p = p0 \<or> p = prune_old_nodes (window_size_ns (wg_config g)) now p0"
  using assms by (auto simp: maybe_prune_def split: if_splits)

lemma record_execution_ordered:
  assumes g: "graph_ordered seen g" and fresh: "ex_id x \<notin> seen"
  shows "graph_ordered (insert (ex_id x) seen) (record_execution age x g)"
proof -
  have k: "keys_distinct g" using g by (simp add: graph_ordered_def)
  let ?key = "(ex_asset_class x, ex_venue_id x)"
  let ?p = "build_edges (wg_config g) x (add_node age x (partition_of g x))"
  have p0: "fst ` set (pg_nodes (partition_of g x)) \<subseteq> seen \<and> (\<exists>rank. ordered_by rank (partition_of g x))"
  proof (cases "partitions g ?key")
    case None
    then show ?thesis
      by (simp add: partition_of_def new_partition_def ordered_by_def edges_of_def neighbors_of_def)
  next
    case (Some p)
    then show ?thesis using g unfolding graph_ordered_def partition_of_def by (simp only: option.case)
  qed
  then obtain rank where r: "ordered_by rank (partition_of g x)" by blast
  have "ex_id x \<notin> fst ` set (pg_nodes (partition_of g x))" using p0 fresh by blast
  then have new: "\<exists>rank. ordered_by rank ?p"
    by (rule ordered_by_insert [OF r partition_of_distinct [OF k]])
  have new_keys: "fst ` set (pg_nodes ?p) \<subseteq> insert (ex_id x) seen"
    using p0 unfolding build_edges_nodes add_node_nodes update_keys by blast
  obtain t where eq: "record_execution age x g =
      maybe_prune (ex_timestamp_ns x) (g\<lparr>partitions := (partitions g)(?key \<mapsto> ?p), detector := t\<rparr>)"
    using record_execution_shape(1) [OF k] by blast
  have "fst ` set (pg_nodes p) \<subseteq> insert (ex_id x) seen \<and> (\<exists>rank. ordered_by rank p)"
    if found: "partitions (record_execution age x g) key = Some p" for key p
  proof -
    obtain q where q: "((partitions g)(?key \<mapsto> ?p)) key = Some q"
      and pq: "p = q \<or> p = prune_old_nodes (window_size_ns (wg_config g)) (ex_timestamp_ns x) q"
      using maybe_prune_partition [OF found [unfolded eq]] by auto
    have "fst ` set (pg_nodes q) \<subseteq> insert (ex_id x) seen \<and> (\<exists>rank. ordered_by rank q)"
    proof (cases "key = ?key")
      case True
      then have "q = ?p" using q by simp
      then show ?thesis using new new_keys by (simp only:)
    next
      case False
      then have "partitions g key = Some q" using q by simp
      from graph_orderedD [OF g this] show ?thesis by blast
    qed
    then obtain rank where q': "fst ` set (pg_nodes q) \<subseteq> insert (ex_id x) seen" "ordered_by rank q" by blast
    from pq show ?thesis
    proof
      assume "p = q"
      then show ?thesis using q' by blast
    next
      assume p: "p = prune_old_nodes (window_size_ns (wg_config g)) (ex_timestamp_ns x) q"
      show ?thesis
        unfolding p by (intro conjI exI [of _ rank] subset_trans [OF prune_nodes_subset] q' ordered_by_prune)
    qed
  qed
  then show ?thesis
    using record_execution_shape(2) [OF k] by (simp add: graph_ordered_def)
qed

lemma record_all_ordered:
  "graph_ordered seen g \<Longrightarrow> distinct (map (ex_id \<circ> snd) xs) \<Longrightarrow> seen \<inter> (ex_id \<circ> snd) ` set xs = {} \<Longrightarrow>
   \<exists>seen'. graph_ordered seen' (record_all xs g)"
proof (induction xs arbitrary: g seen)
  case Nil
  then show ?case by (auto simp: record_all_def)
next
  case (Cons e xs)
  obtain age x where e: "e = (age, x)" by (cases e)
  have eq: "record_all (e # xs) g = record_all xs (record_execution age x g)"
    by (simp add: record_all_def e)
  have x: "ex_id x \<notin> seen" "ex_id x \<notin> (ex_id \<circ> snd) ` set xs" "distinct (map (ex_id \<circ> snd) xs)"
    "seen \<inter> (ex_id \<circ> snd) ` set xs = {}"
    using Cons.prems(2,3) by (auto simp: e comp_def)
  have "graph_ordered (insert (ex_id x) seen) (record_execution age x g)"
    by (rule record_execution_ordered [OF Cons.prems(1) x(1)])
  then show ?case
    unfolding eq by (rule Cons.IH [OF _ x(3)]) (use x in \<open>simp only: Int_insert_left if_False\<close>)
qed

text \<open>C38. As long as no execution is recorded twice, the graph of every partition is acyclic: an
  edge leads to a later execution, or to one of the same time that was recorded before.  So a search
  for components of two or more executions could not find a wash trade either, the condition of
  which is a cycle.\<close>

theorem execution_graph_acyclic:
  assumes "distinct (map (ex_id \<circ> snd) xs)"
    and "partitions (record_all xs (new_wash_graph c)) k = Some p"
  shows "acyclic {(a, b). b \<in> set (neighbors_of (pg_adjacency p) a)}"
proof -
  have "graph_ordered {} (new_wash_graph c)"
    by (simp add: graph_ordered_def keys_distinct_def new_wash_graph_def)
  then obtain seen where "graph_ordered seen (record_all xs (new_wash_graph c))"
    using record_all_ordered [OF _ assms(1)] by blast
  then obtain rank where "ordered_by rank p"
    using assms(2) unfolding graph_ordered_def by blast
  then show ?thesis by (metis ordered_by_acyclic edges_of_def)
qed

text \<open>Below one second of trading nothing is pruned, and a recording can be evaluated.\<close>

lemma record_execution_unpruned:
  assumes "keys_distinct g" "saturating_sub (ex_timestamp_ns x) (last_prune_time g) \<le> 1000000000"
  shows "partitions (record_execution age x g) = (partitions g)((ex_asset_class x, ex_venue_id x) \<mapsto>
      build_edges (wg_config g) x (add_node age x (partition_of g x)))"
    and "last_prune_time (record_execution age x g) = last_prune_time g"
    and "wg_config (record_execution age x g) = wg_config g"
    and "keys_distinct (record_execution age x g)"
proof -
  obtain t where eq: "record_execution age x g = maybe_prune (ex_timestamp_ns x)
      (g\<lparr>partitions := (partitions g)((ex_asset_class x, ex_venue_id x) \<mapsto>
           build_edges (wg_config g) x (add_node age x (partition_of g x))), detector := t\<rparr>)"
    using record_execution_shape(1) [OF assms(1)] by blast
  have "\<not> saturating_sub (ex_timestamp_ns x) (last_prune_time g) > 1000000000"
    using assms(2) by (simp add: not_less)
  then show "partitions (record_execution age x g) = (partitions g)((ex_asset_class x, ex_venue_id x) \<mapsto>
      build_edges (wg_config g) x (add_node age x (partition_of g x)))"
    and "last_prune_time (record_execution age x g) = last_prune_time g"
    and "wg_config (record_execution age x g) = wg_config g"
    unfolding eq maybe_prune_def by simp_all
  show "keys_distinct (record_execution age x g)" by (rule record_execution_shape(2) [OF assms(1)])
qed

definition spot_execution :: "u64 \<Rightarrow> trade_side \<Rightarrow> u64 \<Rightarrow> execution" where
  "spot_execution i sd ts =
     \<lparr>ex_id = i, ex_symbol = ''BTC'', ex_asset_class = CryptoSpot, ex_venue_id = 1, ex_side = sd, ex_quantity = 5,
      ex_price = 100, ex_timestamp_ns = ts, ex_strategy_id = 7, ex_order_id = i, ex_is_maker = False\<rparr>"

lemma three_executions:
  assumes "g = record_all [(0, spot_execution 1 BuySide 10), (0, spot_execution 2 SellSide 10),
      (0, spot_execution 3 BuySide 20)] (new_wash_graph default_wash_config)"
  obtains p where "partitions g (CryptoSpot, 1) = Some p"
    "neighbors_of (pg_adjacency p) 1 = []" "neighbors_of (pg_adjacency p) 2 = [1, 3]" "neighbors_of (pg_adjacency p) 3 = []"
proof -
  let ?g0 = "new_wash_graph default_wash_config"
  let ?g1 = "record_execution 0 (spot_execution 1 BuySide 10) ?g0"
  let ?g2 = "record_execution 0 (spot_execution 2 SellSide 10) ?g1"
  let ?g3 = "record_execution 0 (spot_execution 3 BuySide 20) ?g2"
  have e0: "keys_distinct ?g0" "last_prune_time ?g0 = 0" "wg_config ?g0 = default_wash_config"
    "partitions ?g0 (CryptoSpot, 1) = None"
    by (simp_all add: keys_distinct_def new_wash_graph_def)
  have e1: "keys_distinct ?g1" "last_prune_time ?g1 = 0" "wg_config ?g1 = default_wash_config"
    "partitions ?g1 (CryptoSpot, 1) = Some (build_edges default_wash_config (spot_execution 1 BuySide 10)
       (add_node 0 (spot_execution 1 BuySide 10) new_partition))"
    using record_execution_unpruned [OF e0(1), of "spot_execution 1 BuySide 10" 0] e0
    by (simp_all add: spot_execution_def saturating_sub_def partition_of_def)
  have e2: "keys_distinct ?g2" "last_prune_time ?g2 = 0" "wg_config ?g2 = default_wash_config"
    "partitions ?g2 (CryptoSpot, 1) = Some (build_edges default_wash_config (spot_execution 2 SellSide 10)
       (add_node 0 (spot_execution 2 SellSide 10) (the (partitions ?g1 (CryptoSpot, 1)))))"
    using record_execution_unpruned [OF e1(1), of "spot_execution 2 SellSide 10" 0] e1
    by (simp_all add: spot_execution_def saturating_sub_def partition_of_def)
  have e3: "partitions ?g3 (CryptoSpot, 1) = Some (build_edges default_wash_config (spot_execution 3 BuySide 20)
       (add_node 0 (spot_execution 3 BuySide 20) (the (partitions ?g2 (CryptoSpot, 1)))))"
    using record_execution_unpruned [OF e2(1), of "spot_execution 3 BuySide 20" 0] e2
    by (simp_all add: spot_execution_def saturating_sub_def partition_of_def)
  have "g = ?g3" using assms by (simp add: record_all_def)
  then have "partitions g (CryptoSpot, 1) = Some (build_edges default_wash_config (spot_execution 3 BuySide 20)
      (add_node 0 (spot_execution 3 BuySide 20) (build_edges default_wash_config (spot_execution 2 SellSide 10)
      (add_node 0 (spot_execution 2 SellSide 10) (build_edges default_wash_config (spot_execution 1 BuySide 10)
      (add_node 0 (spot_execution 1 BuySide 10) new_partition))))))"
    using e3 e2(4) e1(4) by simp
  then show thesis
    by (rule that) (simp_all add: build_edges_def edge_to_def add_node_def add_edge_def new_partition_def
        neighbors_of_def spot_execution_def default_wash_config_def saturating_sub_def)
qed

theorem execution_graph_acyclic_witness:
  "acyclic {(a, b). b \<in> set (neighbors_of (pg_adjacency (the (partitions
     (record_all [(0, spot_execution 1 BuySide 10), (0, spot_execution 2 SellSide 10), (0, spot_execution 3 BuySide 20)]
       (new_wash_graph default_wash_config)) (CryptoSpot, 1)))) a)} \<and>
   neighbors_of (pg_adjacency (the (partitions
     (record_all [(0, spot_execution 1 BuySide 10), (0, spot_execution 2 SellSide 10), (0, spot_execution 3 BuySide 20)]
       (new_wash_graph default_wash_config)) (CryptoSpot, 1)))) 2 = [1, 3]"
proof -
  let ?xs = "[(0, spot_execution 1 BuySide 10), (0, spot_execution 2 SellSide 10), (0, spot_execution 3 BuySide 20)]"
  obtain p where p: "partitions (record_all ?xs (new_wash_graph default_wash_config)) (CryptoSpot, 1) = Some p"
    and n: "neighbors_of (pg_adjacency p) 2 = [1, 3]"
    by (rule three_executions [OF refl])
  have "distinct (map (ex_id \<circ> snd) ?xs)" by (simp add: spot_execution_def)
  from execution_graph_acyclic [OF this p] n show ?thesis unfolding p option.sel by (rule conjI)
qed

end
