(* ===== verification/Interfaces.thy ===== *)
theory Interfaces
  imports Nexus_Prelude
begin

text \<open>
  The contracts between components, as locales.  A provider interprets the locale on its own
  operations in its own theory; the lemmas a client needs are proved once, here.
\<close>

section \<open>A machine that keeps an invariant\<close>

locale invariant_machine =
  fixes step :: "'e \<Rightarrow> 's \<Rightarrow> 's"
    and inv :: "'s \<Rightarrow> bool"
  assumes step_inv: "inv s \<Longrightarrow> inv (step e s)"
begin

lemma run_inv: "inv s \<Longrightarrow> inv (fold step es s)"
  by (induction es arbitrary: s) (auto intro: step_inv)

text \<open>A quantity that every step from an invariant state keeps is kept by a run.\<close>

lemma run_constant:
  assumes "\<And>e s. inv s \<Longrightarrow> f (step e s) = f s" "inv s"
  shows "f (fold step es s) = f s"
  using assms(2) by (induction es arbitrary: s) (simp_all add: assms(1) step_inv)

lemma run_mono:
  assumes "\<And>e s. inv s \<Longrightarrow> f s \<le> (f (step e s) :: 'm::order)" "inv s"
  shows "f s \<le> f (fold step es s)"
  using assms(2)
proof (induction es arbitrary: s)
  case Nil
  then show ?case by simp
next
  case (Cons e es)
  have "f s \<le> f (step e s)" using assms(1) Cons.prems by blast
  also have "\<dots> \<le> f (fold step es (step e s))"
    using Cons.IH step_inv Cons.prems by blast
  finally show ?case by simp
qed

end

section \<open>A store of orders that takes fills\<close>

text \<open>
  What the execution report handler relies on: a successful fill leaves the order in the
  store, a refused one changes nothing.
\<close>

locale fill_store =
  fixes fill :: "'i \<Rightarrow> 'a \<Rightarrow> 's \<Rightarrow> ('e + unit) \<times> 's"
    and look :: "'i \<Rightarrow> 's \<Rightarrow> 'o option"
  assumes fill_stored: "fst (fill i a s) = Inr () \<Longrightarrow> look i (snd (fill i a s)) \<noteq> None"
    and fill_refused: "fst (fill i a s) = Inl e \<Longrightarrow> snd (fill i a s) = s"
begin

lemma look_after_fill:
  assumes "fill i a s = (Inr u, s')"
  obtains o' where "look i s' = Some o'"
  using fill_stored [of i a s] assms by (cases u) auto

lemma refused_unchanged: "fill i a s = (Inl e, s') \<Longrightarrow> s' = s"
  using fill_refused [of i a s e] by simp

end

section \<open>A gate on prices\<close>

text \<open>
  What the risk checks rely on in a price collar around a reference price: the reference is
  accepted on both sides, a cheaper buy and a dearer sell are never worse.
\<close>

locale price_gate =
  fixes accepts :: "bool \<Rightarrow> u64 \<Rightarrow> bool" and reference :: u64
  assumes accepts_reference: "accepts is_buy reference"
    and buy_down: "accepts True p \<Longrightarrow> p' \<le> p \<Longrightarrow> accepts True p'"
    and sell_up: "accepts False p \<Longrightarrow> p \<le> p' \<Longrightarrow> accepts False p'"
begin

text \<open>A price that improves on the reference passes; one that passes both ways is near it.\<close>

lemma at_least_as_good:
  "(is_buy \<Longrightarrow> p \<le> reference) \<Longrightarrow> (\<not> is_buy \<Longrightarrow> reference \<le> p) \<Longrightarrow> accepts is_buy p"
  using buy_down [OF accepts_reference] sell_up [OF accepts_reference] by (cases is_buy) simp_all

lemma refused_is_worse:
  "\<not> accepts is_buy p \<Longrightarrow> (if is_buy then reference < p else p < reference)"
  using at_least_as_good [of is_buy p] by (cases is_buy) (simp_all add: not_le [symmetric], blast+)

end

section \<open>A queue that hands out what was put in, in order\<close>

text \<open>
  The contract of the queues of the code.  A push may be refused, and then changes nothing
  that a consumer can see; a pop is empty-handed only on an empty queue.  \<open>fresh\<close> says that the
  queue has position numbers left; an unbounded queue is always fresh.
\<close>

locale fifo_queue =
  fixes push :: "'a \<Rightarrow> 'q \<Rightarrow> bool \<times> 'q"
    and pop :: "'q \<Rightarrow> 'a option \<times> 'q"
    and contents :: "'q \<Rightarrow> 'a list"
    and inv :: "'q \<Rightarrow> bool"
    and fresh :: "'q \<Rightarrow> bool"
  assumes push_inv: "inv q \<Longrightarrow> fresh q \<Longrightarrow> inv (snd (push x q))"
    and push_contents: "inv q \<Longrightarrow> fresh q \<Longrightarrow>
      contents (snd (push x q)) = (if fst (push x q) then contents q @ [x] else contents q)"
    and pop_inv: "inv q \<Longrightarrow> inv (snd (pop q))"
    and pop_contents: "inv q \<Longrightarrow>
      (case fst (pop q) of None \<Rightarrow> contents q = [] \<and> contents (snd (pop q)) = []
       | Some x \<Rightarrow> contents q = x # contents (snd (pop q)))"

text \<open>A consumer that pops until the queue is empty; the fuel bounds the number of pops.\<close>

fun drain :: "('q \<Rightarrow> 'a option \<times> 'q) \<Rightarrow> nat \<Rightarrow> 'q \<Rightarrow> ('a list \<times> 'q) option" where
  "drain pop 0 q = None"
| "drain pop (Suc n) q =
     (case pop q of
        (None, q') \<Rightarrow> Some ([], q')
      | (Some x, q') \<Rightarrow> map_option (\<lambda>(xs, q''). (x # xs, q'')) (drain pop n q'))"

context fifo_queue
begin

lemma pop_cons:
  assumes "inv q" "contents q = x # xs"
  shows "fst (pop q) = Some x" and "contents (snd (pop q)) = xs"
  using pop_contents [OF assms(1)] assms(2) by (auto split: option.splits)

lemma pop_nil:
  assumes "inv q" "contents q = []"
  shows "fst (pop q) = None" and "contents (snd (pop q)) = []"
  using pop_contents [OF assms(1)] assms(2) by (auto split: option.splits)

text \<open>One pop more than there are elements empties the queue and returns them in order.\<close>

lemma drain_contents:
  assumes "inv q" "length (contents q) < n"
  shows "\<exists>q'. drain pop n q = Some (contents q, q') \<and> contents q' = [] \<and> inv q'"
  using assms
proof (induction n arbitrary: q)
  case 0
  then show ?case by simp
next
  case (Suc n)
  show ?case
  proof (cases "contents q")
    case Nil
    then show ?thesis
      using pop_nil [OF Suc.prems(1)] pop_inv [OF Suc.prems(1)]
      by (cases "pop q") (auto split: prod.splits)
  next
    case (Cons x xs)
    note tl = pop_cons [OF Suc.prems(1) Cons]
    then obtain q' where "drain pop n (snd (pop q)) = Some (xs, q')" "contents q' = []" "inv q'"
      using Suc.IH [OF pop_inv [OF Suc.prems(1)]] Suc.prems(2) Cons by auto
    then show ?thesis
      using tl Cons by (cases "pop q") auto
  qed
qed

end

section \<open>A store of records in numbered slots\<close>

text \<open>
  What the order book relies on in its slab: a slot that is handed out was empty, a slot that
  is given back becomes empty, and no other slot changes.
\<close>

locale slot_store =
  fixes alloc :: "'r \<Rightarrow> 's \<Rightarrow> nat option \<times> 's"
    and release :: "nat \<Rightarrow> 's \<Rightarrow> bool \<times> 's"
    and look :: "'s \<Rightarrow> nat \<Rightarrow> 'r option"
    and inv :: "'s \<Rightarrow> bool"
  assumes finite_slots: "inv s \<Longrightarrow> finite (dom (look s))"
    and alloc_some: "inv s \<Longrightarrow> alloc r s = (Some i, s') \<Longrightarrow>
      inv s' \<and> look s i = None \<and> look s' = (look s)(i \<mapsto> r)"
    and alloc_none: "inv s \<Longrightarrow> alloc r s = (None, s') \<Longrightarrow> inv s' \<and> look s' = look s"
    and release_slot: "inv s \<Longrightarrow> look s i \<noteq> None \<Longrightarrow>
      inv (snd (release i s)) \<and> fst (release i s) \<and> look (snd (release i s)) = (look s)(i := None)"
    and release_empty: "inv s \<Longrightarrow> look s i = None \<Longrightarrow> release i s = (False, s)"

text \<open>The sum of a weight over the records of a finite store.\<close>

definition weigh :: "('r \<Rightarrow> nat) \<Rightarrow> (nat \<Rightarrow> 'r option) \<Rightarrow> nat" where
  "weigh f m = (\<Sum>i \<in> dom m. f (the (m i)))"

lemma weigh_empty: "(\<And>i. m i = None) \<Longrightarrow> weigh f m = 0"
  by (simp add: weigh_def dom_def)

lemma weigh_insert:
  assumes "finite (dom m)" "m i = None"
  shows "weigh f (m(i \<mapsto> r)) = weigh f m + f r"
proof -
  have "(\<Sum>j \<in> dom m. f (the ((m(i \<mapsto> r)) j))) = weigh f m"
    unfolding weigh_def using assms(2) by (intro sum.cong) (auto simp: domIff)
  then show ?thesis using assms by (simp add: weigh_def domIff)
qed

lemma weigh_delete:
  assumes "finite (dom m)" "m i = Some r"
  shows "weigh f m = weigh f (m(i := None)) + f r"
proof -
  have "m = (m(i := None))(i \<mapsto> r)" using assms(2) by auto
  then show ?thesis using weigh_insert [of "m(i := None)" i f r] assms(1) by simp
qed

lemma weigh_update:
  assumes "finite (dom m)" "m i = Some r"
  shows "weigh f (m(i \<mapsto> r')) + f r = weigh f m + f r'"
proof -
  have "m(i \<mapsto> r') = (m(i := None))(i \<mapsto> r')" by simp
  then show ?thesis
    using weigh_insert [of "m(i := None)" i f r'] weigh_delete [OF assms, of f] assms(1) by simp
qed

lemma weigh_member: "finite (dom m) \<Longrightarrow> m i = Some r \<Longrightarrow> f r \<le> weigh f m"
  using weigh_delete [of m i r f] by simp

context slot_store
begin

lemma weigh_alloc:
  assumes "inv s" "alloc r s = (Some i, s')"
  shows "weigh f (look s') = weigh f (look s) + f r"
  using alloc_some [OF assms] weigh_insert [OF finite_slots [OF assms(1)], of i f r] by simp

lemma weigh_release:
  assumes "inv s" "look s i = Some r"
  shows "weigh f (look s) = weigh f (look (snd (release i s))) + f r"
  using release_slot [OF assms(1), of i] weigh_delete [OF finite_slots [OF assms(1)] assms(2), of f]
    assms(2)
  by simp

text \<open>A slot is not handed out twice while it is occupied.\<close>

lemma alloc_fresh: "inv s \<Longrightarrow> look s j \<noteq> None \<Longrightarrow> alloc r s = (Some i, s') \<Longrightarrow> i \<noteq> j"
  using alloc_some by force

lemma release_after_alloc:
  assumes "inv s" "alloc r s = (Some i, s')"
  shows "look (snd (release i s')) = look s"
proof -
  have "inv s'" "look s i = None" "look s' = (look s)(i \<mapsto> r)" using alloc_some [OF assms] by simp_all
  then show ?thesis using release_slot [of s' i] by auto
qed

end

section \<open>Quorums\<close>

text \<open>Two quorums have a voter in common, so a voter who votes once decides for one candidate.\<close>

locale intersecting_quorums =
  fixes quorum :: "'v set \<Rightarrow> bool"
  assumes quorums_meet: "quorum A \<Longrightarrow> quorum B \<Longrightarrow> A \<inter> B \<noteq> {}"
begin

lemma one_winner:
  assumes "quorum A" "quorum B" "\<And>v. v \<in> A \<Longrightarrow> vote v a" "\<And>v. v \<in> B \<Longrightarrow> vote v b"
    and "\<And>v x y. vote v x \<Longrightarrow> vote v y \<Longrightarrow> x = y"
  shows "a = b"
  using quorums_meet [OF assms(1,2)] assms(3-5) by blast

end

end
