(* ===== verification/Swarm_Types.thy ===== *)
theory Swarm_Types
  imports Interfaces
begin

text \<open>
  The types that the parts of the swarm consensus share, \<open>crates/nexus_swarm/src/lib.rs\<close>: errors,
  node states, the messages of an election and the configuration.
\<close>

datatype consensus_error =
    NotLeader u64
  | LeaseExpired u64 u64
  | QuorumLost
  | SplitBrain
  | StonithFailed string
  | LogCorruption u64 string
  | ReplicationLag u64
  | KamikazeInitiated

datatype node_state = Follower | Candidate | Leader | NodeTerminated

text \<open>The messages of the election and of the heartbeat monitor.\<close>

datatype raft_message =
    RequestVote u64 u64 u64 u64
  | VoteResponse u64 bool u64
  | Heartbeat u64 u64

record swarm_config =
  cf_node_id :: u64
  cf_cluster_nodes :: "u64 list"
  heartbeat_interval_ms :: u64
  election_timeout_ms :: u64
  lease_duration_ms :: u64
  stonith_enabled :: bool
  quorum_witness_urls :: "string list"
  max_log_entries_before_compaction :: nat

definition default_swarm_config :: swarm_config where
  "default_swarm_config =
     \<lparr>cf_node_id = 0, cf_cluster_nodes = [], heartbeat_interval_ms = 50, election_timeout_ms = 150,
      lease_duration_ms = 500, stonith_enabled = True, quorum_witness_urls = [], max_log_entries_before_compaction = 10000\<rparr>"

end
