(* ===== verification/Leader_Election.thy ===== *)
theory Leader_Election
  imports Swarm_Types
begin

text \<open>
  The election of a leader, \<open>crates/nexus_swarm/src/raft/leader_election.rs\<close>: the state of one node
  and its three handlers.  The transport is not in the source; around the handlers stands a network
  that keeps every message, so that messages can be lost, delayed, reordered and repeated, and that
  sends the answer to a vote request to the candidate it names.  The theory shows that no term ever
  has two leaders.
\<close>

section \<open>One node\<close>

text \<open>\<open>votes_received\<close> is the list of the keys of the map, whose values are all true.\<close>

record election =
  el_node :: u64
  el_term :: u64
  voted_for :: "u64 option"
  votes_received :: "u64 list"
  el_cluster :: "u64 list"
  el_state :: node_state

definition new_election :: "swarm_config \<Rightarrow> election" where
  "new_election c =
     \<lparr>el_node = cf_node_id c, el_term = 0, voted_for = None, votes_received = [],
      el_cluster = cf_cluster_nodes c, el_state = Follower\<rparr>"

definition start_election :: "election \<Rightarrow> raft_message \<times> election" where
  "start_election e =
     (let e1 = e\<lparr>el_term := el_term e + 1\<rparr>;
          e2 = e1\<lparr>el_state := Candidate, voted_for := Some (el_node e1)\<rparr>;
          e3 = e2\<lparr>votes_received := List.insert (el_node e2) []\<rparr>
      in (RequestVote (el_term e3) (el_node e3) 0 (el_term e3 - 1), e3))"

definition process_vote_request :: "u64 \<Rightarrow> u64 \<Rightarrow> u64 \<Rightarrow> u64 \<Rightarrow> election \<Rightarrow> raft_message \<times> election" where
  "process_vote_request trm candidate_id last_log_index last_log_term e =
     (let e1 = (if trm > el_term e then e\<lparr>el_term := trm, el_state := Follower, voted_for := None\<rparr> else e);
          granted = (trm \<ge> el_term e1 \<and> voted_for e1 = None);
          e2 = (if granted then e1\<lparr>voted_for := Some candidate_id\<rparr> else e1)
      in (VoteResponse (el_term e2) granted (el_node e2), e2))"

definition quorum_size :: "u64 list \<Rightarrow> nat" where
  "quorum_size cluster = length cluster div 2 + 1"

definition process_vote_response :: "u64 \<Rightarrow> bool \<Rightarrow> u64 \<Rightarrow> election \<Rightarrow> bool \<times> election" where
  "process_vote_response trm granted voter_id e =
     (if trm > el_term e then (False, e\<lparr>el_term := trm, el_state := Follower, voted_for := None\<rparr>)
      else if trm \<noteq> el_term e \<or> el_state e \<noteq> Candidate then (False, e)
      else if granted then
        let e1 = e\<lparr>votes_received := List.insert voter_id (votes_received e)\<rparr>
        in if length (votes_received e1) \<ge> quorum_size (el_cluster e1)
           then (True, e1\<lparr>el_state := Leader\<rparr>)
           else (False, e1)
      else (False, e))"

definition is_leader :: "election \<Rightarrow> bool" where
  "is_leader e = (el_state e = Leader)"

section \<open>The cluster\<close>

record cluster =
  cluster_node :: "u64 \<Rightarrow> election"
  wire :: "(u64 \<times> raft_message) list"

text \<open>A node starts an election, or message \<open>k\<close> of the wire arrives.\<close>

datatype cluster_event = StartElection u64 | Deliver nat

definition new_cluster :: "u64 list \<Rightarrow> cluster" where
  "new_cluster ids =
     \<lparr>cluster_node = \<lambda>n. new_election (default_swarm_config\<lparr>cf_node_id := n, cf_cluster_nodes := ids\<rparr>), wire = []\<rparr>"

definition receive :: "u64 \<times> raft_message \<Rightarrow> cluster \<Rightarrow> cluster" where
  "receive m s =
     (case m of
        (d, RequestVote trm c li lt) \<Rightarrow>
          (case process_vote_request trm c li lt (cluster_node s d) of
             (reply, e) \<Rightarrow> s\<lparr>cluster_node := (cluster_node s)(d := e), wire := wire s @ [(c, reply)]\<rparr>)
      | (d, VoteResponse trm granted v) \<Rightarrow>
          s\<lparr>cluster_node := (cluster_node s)(d := snd (process_vote_response trm granted v (cluster_node s d)))\<rparr>
      | _ \<Rightarrow> s)"

fun cluster_step :: "u64 list \<Rightarrow> cluster_event \<Rightarrow> cluster \<Rightarrow> cluster" where
  "cluster_step ids (StartElection n) s =
     (if n \<in> set ids then
        case start_election (cluster_node s n) of
          (msg, e) \<Rightarrow> s\<lparr>cluster_node := (cluster_node s)(n := e), wire := wire s @ map (\<lambda>d. (d, msg)) ids\<rparr>
      else s)"
| "cluster_step ids (Deliver k) s = (if k < length (wire s) then receive (wire s ! k) s else s)"

definition cluster_run :: "u64 list \<Rightarrow> cluster_event list \<Rightarrow> cluster \<Rightarrow> cluster" where
  "cluster_run ids es s = fold (cluster_step ids) es s"

section \<open>Votes\<close>

text \<open>The wire is a record of all votes: a granted answer, or the request of a candidate for itself.\<close>

definition voted :: "(u64 \<times> raft_message) list \<Rightarrow> u64 \<Rightarrow> u64 \<Rightarrow> u64 \<Rightarrow> bool" where
  "voted w v trm c \<longleftrightarrow>
     (c, VoteResponse trm True v) \<in> set w \<or> (v = c \<and> (\<exists>d li lt. (d, RequestVote trm c li lt) \<in> set w))"

fun message_term :: "raft_message \<Rightarrow> u64" where
  "message_term (RequestVote trm _ _ _) = trm"
| "message_term (VoteResponse trm _ _) = trm"
| "message_term (Heartbeat trm _) = trm"

fun message_nodes :: "raft_message \<Rightarrow> u64 set" where
  "message_nodes (RequestVote _ c _ _) = {c}"
| "message_nodes (VoteResponse _ _ v) = {v}"
| "message_nodes (Heartbeat _ _) = {}"

text \<open>The invariant, \<open>m\<close> being the number of steps made.\<close>

definition terms_ok :: "nat \<Rightarrow> cluster \<Rightarrow> bool" where
  "terms_ok m s \<longleftrightarrow>
     (\<forall>n. unat (el_term (cluster_node s n)) \<le> m) \<and> (\<forall>(d, msg) \<in> set (wire s). unat (message_term msg) \<le> m)"

definition names_ok :: "u64 list \<Rightarrow> cluster \<Rightarrow> bool" where
  "names_ok ids s \<longleftrightarrow>
     (\<forall>n. el_node (cluster_node s n) = n \<and> el_cluster (cluster_node s n) = ids) \<and>
     (\<forall>(d, msg) \<in> set (wire s). d \<in> set ids \<and> message_nodes msg \<subseteq> set ids)"

definition votes_ok :: "cluster \<Rightarrow> bool" where
  "votes_ok s \<longleftrightarrow>
     (\<forall>v trm c. voted (wire s) v trm c \<longrightarrow>
        trm \<le> el_term (cluster_node s v) \<and>
        (trm = el_term (cluster_node s v) \<longrightarrow> voted_for (cluster_node s v) = Some c)) \<and>
     (\<forall>v trm c c'. voted (wire s) v trm c \<longrightarrow> voted (wire s) v trm c' \<longrightarrow> c = c')"

definition candidate_ok :: "u64 list \<Rightarrow> (u64 \<times> raft_message) list \<Rightarrow> election \<Rightarrow> bool" where
  "candidate_ok ids w e \<longleftrightarrow>
     (el_state e \<in> {Candidate, Leader} \<longrightarrow>
        distinct (votes_received e) \<and> (\<forall>v \<in> set (votes_received e). voted w v (el_term e) (el_node e))) \<and>
     (el_state e = Leader \<longrightarrow> quorum_size ids \<le> length (votes_received e))"

definition cluster_inv :: "u64 list \<Rightarrow> nat \<Rightarrow> cluster \<Rightarrow> bool" where
  "cluster_inv ids m s \<longleftrightarrow>
     terms_ok m s \<and> names_ok ids s \<and> votes_ok s \<and> (\<forall>n. candidate_ok ids (wire s) (cluster_node s n))"

lemma voted_append:
  "voted (w @ w') v trm c \<longleftrightarrow> voted w v trm c \<or> voted w' v trm c"
  by (auto simp: voted_def)

lemma candidate_ok_append: "candidate_ok ids w e \<Longrightarrow> candidate_ok ids (w @ w') e"
  by (auto simp: candidate_ok_def voted_append)

lemma voted_mem: "names_ok ids s \<Longrightarrow> voted (wire s) v trm c \<Longrightarrow> v \<in> set ids"
  by (fastforce simp: names_ok_def voted_def)

section \<open>Every step keeps the invariant\<close>

text \<open>A node whose term grows or stays, and whose vote is kept within a term.\<close>

lemma votes_ok_node:
  assumes "votes_ok s" "el_term (cluster_node s n) \<le> el_term e"
    and "el_term (cluster_node s n) = el_term e \<Longrightarrow>
      voted_for (cluster_node s n) \<noteq> None \<Longrightarrow> voted_for e = voted_for (cluster_node s n)"
  shows "votes_ok (s\<lparr>cluster_node := (cluster_node s)(n := e)\<rparr>)"
proof -
  have "trm \<le> el_term e \<and> (trm = el_term e \<longrightarrow> voted_for e = Some c)"
    if v: "voted (wire s) n trm c" for trm c
  proof -
    have old: "trm \<le> el_term (cluster_node s n)"
        "trm = el_term (cluster_node s n) \<longrightarrow> voted_for (cluster_node s n) = Some c"
      using assms(1) v unfolding votes_ok_def by blast+
    show ?thesis
    proof (intro conjI impI)
      show "trm \<le> el_term e" using old(1) assms(2) by (rule order_trans)
      assume "trm = el_term e"
      then have "el_term (cluster_node s n) = el_term e" using old(1) assms(2) by simp
      then show "voted_for e = Some c" using old(2) assms(3) \<open>trm = el_term e\<close> by simp
    qed
  qed
  then show ?thesis using assms(1) by (simp add: votes_ok_def)
qed

text \<open>One more vote on the wire, of a node that has just given it.\<close>

lemma votes_ok_vote:
  assumes "votes_ok s" "\<And>v trm c. voted w v trm c \<Longrightarrow> v = n \<and> trm = el_term (cluster_node s n) \<and> x = c"
    and "voted_for (cluster_node s n) = Some x"
  shows "votes_ok (s\<lparr>wire := wire s @ w\<rparr>)"
proof -
  have new: "trm = el_term (cluster_node s v) \<and> voted_for (cluster_node s v) = Some c \<and> v = n \<and> c = x"
    if "voted w v trm c" for v trm c
    using assms(2) [OF that] assms(3) by simp
  have old: "trm \<le> el_term (cluster_node s v)" "trm = el_term (cluster_node s v) \<longrightarrow> voted_for (cluster_node s v) = Some c"
    if "voted (wire s) v trm c" for v trm c
    using assms(1) that unfolding votes_ok_def by blast+
  have one: "c = c'" if "voted (wire s) v trm c" "voted (wire s) v trm c'" for v trm c c'
    using assms(1) that unfolding votes_ok_def by blast
  have cross: "c = c'" if "voted (wire s) v trm c" "voted w v trm c'" for v trm c c'
    using new [OF that(2)] old(2) [OF that(1)] assms(3) by auto
  show ?thesis
    unfolding votes_ok_def
  proof (intro conjI allI impI)
    fix v trm c
    assume "voted (wire (s\<lparr>wire := wire s @ w\<rparr>)) v trm c"
    then consider "voted (wire s) v trm c" | "voted w v trm c" by (auto simp: voted_append)
    then show "trm \<le> el_term (cluster_node (s\<lparr>wire := wire s @ w\<rparr>) v)"
        and "trm = el_term (cluster_node (s\<lparr>wire := wire s @ w\<rparr>) v) \<Longrightarrow>
          voted_for (cluster_node (s\<lparr>wire := wire s @ w\<rparr>) v) = Some c"
      by (cases; use old new in simp)+
  next
    fix v trm c c'
    assume "voted (wire (s\<lparr>wire := wire s @ w\<rparr>)) v trm c" "voted (wire (s\<lparr>wire := wire s @ w\<rparr>)) v trm c'"
    then have "voted (wire s) v trm c \<or> voted w v trm c" "voted (wire s) v trm c' \<or> voted w v trm c'"
      by (simp_all add: voted_append)
    then show "c = c'" using one cross new by metis
  qed
qed

lemma inc_term: "unat (t :: u64) + 1 < 2 ^ 64 \<Longrightarrow> t < t + 1 \<and> unat (t + 1) = unat t + 1"
  by (simp add: unat_inc word_less_nat_alt)

definition after_start :: "u64 \<Rightarrow> cluster \<Rightarrow> election" where
  "after_start n s = snd (start_election (cluster_node s n))"

lemma after_start_simps:
  assumes "el_node (cluster_node s n) = n"
  shows "el_term (after_start n s) = el_term (cluster_node s n) + 1" "voted_for (after_start n s) = Some n"
    "el_state (after_start n s) = Candidate" "votes_received (after_start n s) = [n]"
    "el_node (after_start n s) = n" "el_cluster (after_start n s) = el_cluster (cluster_node s n)"
    "fst (start_election (cluster_node s n)) =
      RequestVote (el_term (cluster_node s n) + 1) n 0 (el_term (cluster_node s n))"
  using assms by (simp_all add: after_start_def start_election_def Let_def)

lemma cluster_inv_start:
  assumes inv: "cluster_inv ids m s" and m: "m + 1 < 2 ^ 64" and n: "n \<in> set ids"
  shows "cluster_inv ids (m + 1) (cluster_step ids (StartElection n) s)"
proof -
  let ?t = "el_term (cluster_node s n)" and ?e = "after_start n s"
  let ?w = "map (\<lambda>d. (d, RequestVote (?t + 1) n 0 ?t)) ids"
  have names: "names_ok ids s" and terms: "terms_ok m s" and votes: "votes_ok s"
    using inv by (simp_all add: cluster_inv_def)
  have me: "el_node (cluster_node s n) = n" using names by (simp add: names_ok_def)
  note e = after_start_simps [OF me]
  have "unat ?t + 1 < 2 ^ 64" using terms m unfolding terms_ok_def by (meson add_le_mono1 le_less_trans)
  note up = inc_term [OF this]
  have voted_w: "voted ?w v trm c \<Longrightarrow> v = n \<and> trm = ?t + 1 \<and> n = c" for v trm c
    by (auto simp: voted_def)
  have "(n, RequestVote (?t + 1) n 0 ?t) \<in> set ?w" using n by simp
  then have self: "voted ?w n (?t + 1) n" unfolding voted_def by blast
  have s': "cluster_step ids (StartElection n) s =
      s\<lparr>cluster_node := (cluster_node s)(n := ?e), wire := wire s @ ?w\<rparr>"
    using n e(7) by (auto simp: after_start_def split: prod.split)
  have "votes_ok (s\<lparr>cluster_node := (cluster_node s)(n := ?e)\<rparr>)"
    by (rule votes_ok_node [OF votes]) (use up e in auto)
  then have "votes_ok (cluster_step ids (StartElection n) s)"
    unfolding s' using votes_ok_vote [of "s\<lparr>cluster_node := (cluster_node s)(n := ?e)\<rparr>" ?w n n] voted_w e by simp
  moreover have "terms_ok (m + 1) (cluster_step ids (StartElection n) s)"
    unfolding s' using terms up e(1) by (auto simp: terms_ok_def intro: le_SucI)
  moreover have "names_ok ids (cluster_step ids (StartElection n) s)"
    unfolding s' using names e n by (auto simp: names_ok_def)
  moreover have "candidate_ok ids (wire s @ ?w) (((cluster_node s)(n := ?e)) x)" for x
    using inv e self by (auto simp: cluster_inv_def candidate_ok_append) (simp add: candidate_ok_def voted_append)
  ultimately show ?thesis unfolding cluster_inv_def s' by simp
qed

lemma process_vote_request_facts:
  assumes "process_vote_request trm c li lt e = (reply, e')"
  shows "el_node e' = el_node e" "el_cluster e' = el_cluster e" "el_term e' = max trm (el_term e)"
    "el_term e = el_term e' \<Longrightarrow> voted_for e \<noteq> None \<Longrightarrow> voted_for e' = voted_for e"
    "\<exists>g. reply = VoteResponse (el_term e') g (el_node e) \<and> (g \<longrightarrow> voted_for e' = Some c)"
    "el_term e = el_term e' \<Longrightarrow> el_state e' = el_state e \<and> votes_received e' = votes_received e"
    "el_term e \<noteq> el_term e' \<Longrightarrow> el_state e' = Follower"
proof -
  let ?e1 = "if trm > el_term e then e\<lparr>el_term := trm, el_state := Follower, voted_for := None\<rparr> else e"
  let ?g = "trm \<ge> el_term ?e1 \<and> voted_for ?e1 = None"
  note body = assms [unfolded process_vote_request_def Let_def prod.inject]
  have e'1: "e' = (if ?g then ?e1\<lparr>voted_for := Some c\<rparr> else ?e1)"
    by (rule sym) (rule conjunct2 [OF body])
  have e'2: "reply = VoteResponse (el_term e') ?g (el_node e')"
    unfolding e'1 by (rule sym) (rule conjunct1 [OF body])
  note e' = e'1 e'2
  show 1: "el_node e' = el_node e" "el_cluster e' = el_cluster e" unfolding e'1 by simp_all
  show t: "el_term e' = max trm (el_term e)" unfolding e'1 by (auto simp: max_def not_less)
  show "\<exists>g. reply = VoteResponse (el_term e') g (el_node e) \<and> (g \<longrightarrow> voted_for e' = Some c)"
  proof (intro exI [of _ ?g] conjI)
    show "reply = VoteResponse (el_term e') ?g (el_node e)" using e'(2) 1(1) by (simp only:)
    show "?g \<longrightarrow> voted_for e' = Some c" using e'(1) by simp
  qed
  show "el_term e = el_term e' \<Longrightarrow> voted_for e \<noteq> None \<Longrightarrow> voted_for e' = voted_for e"
    and "el_term e = el_term e' \<Longrightarrow> el_state e' = el_state e \<and> votes_received e' = votes_received e"
    and "el_term e \<noteq> el_term e' \<Longrightarrow> el_state e' = Follower"
    using t unfolding e'(1) by (auto simp: max_def split: if_splits)
qed

lemma cluster_inv_request:
  assumes inv: "cluster_inv ids m s" and msg: "(d, RequestVote trm c li lt) \<in> set (wire s)"
  shows "cluster_inv ids m (receive (d, RequestVote trm c li lt) s)"
proof -
  obtain reply e' where p: "process_vote_request trm c li lt (cluster_node s d) = (reply, e')" by fastforce
  note f = process_vote_request_facts [OF p]
  have names: "names_ok ids s" and terms: "terms_ok m s" and votes: "votes_ok s"
    using inv by (simp_all add: cluster_inv_def)
  have s': "receive (d, RequestVote trm c li lt) s =
      s\<lparr>cluster_node := (cluster_node s)(d := e'), wire := wire s @ [(c, reply)]\<rparr>"
    by (simp add: receive_def p)
  have me: "el_node (cluster_node s d) = d" and dc: "d \<in> set ids" "c \<in> set ids"
    using names msg by (fastforce simp: names_ok_def)+
  obtain g where g: "reply = VoteResponse (el_term e') g d"
      "g \<longrightarrow> voted_for e' = Some c"
    using f(5) me by auto
  have up: "el_term (cluster_node s d) \<le> el_term e'" by (simp add: f(3))
  have "unat trm \<le> m" "unat (el_term (cluster_node s d)) \<le> m"
    using terms msg by (fastforce simp: terms_ok_def)+
  then have bound: "unat (el_term e') \<le> m" by (simp add: f(3) max_def)
  have v1: "votes_ok (s\<lparr>cluster_node := (cluster_node s)(d := e')\<rparr>)"
    by (rule votes_ok_node [OF votes up]) (use f(4) in simp)
  have "votes_ok (receive (d, RequestVote trm c li lt) s)"
  proof (cases g)
    case True
    then show ?thesis
      unfolding s'
      using votes_ok_vote [OF v1, of "[(c, reply)]" d c] g True by (simp add: voted_def)
  next
    case False
    then have "voted (wire s @ [(c, reply)]) = voted (wire s)"
      using g(1) by (auto simp: fun_eq_iff voted_def)
    then show ?thesis using v1 unfolding s' by (simp add: votes_ok_def)
  qed
  moreover have "terms_ok m (receive (d, RequestVote trm c li lt) s)"
    unfolding s' using terms bound g by (auto simp: terms_ok_def)
  moreover have "names_ok ids (receive (d, RequestVote trm c li lt) s)"
    unfolding s' using names f me dc g by (auto simp: names_ok_def)
  moreover have "candidate_ok ids (wire s @ [(c, reply)]) (((cluster_node s)(d := e')) x)" for x
  proof (cases "x = d")
    case True
    have "candidate_ok ids (wire s @ [(c, reply)]) (cluster_node s d)"
      using inv by (simp add: cluster_inv_def candidate_ok_append)
    then show ?thesis
      using True f(1,6,7) by (cases "el_term (cluster_node s d) = el_term e'") (simp_all add: candidate_ok_def)
  next
    case False
    then show ?thesis using inv by (simp add: cluster_inv_def candidate_ok_append)
  qed
  ultimately show ?thesis unfolding cluster_inv_def s' by simp
qed

lemma process_vote_response_facts:
  assumes "snd (process_vote_response trm g v e) = e'"
  shows "el_node e' = el_node e" "el_cluster e' = el_cluster e" "el_term e' = max trm (el_term e)"
    "el_term e = el_term e' \<Longrightarrow> voted_for e' = voted_for e"
    "el_term e \<noteq> el_term e' \<Longrightarrow> el_state e' = Follower"
    "el_term e = el_term e' \<Longrightarrow>
      (el_state e' = el_state e \<and> votes_received e' = votes_received e) \<or>
      (g \<and> trm = el_term e \<and> el_state e = Candidate \<and> votes_received e' = List.insert v (votes_received e) \<and>
       (el_state e' = Candidate \<or> el_state e' = Leader \<and> quorum_size (el_cluster e) \<le> length (votes_received e')))"
  using assms by (auto simp: process_vote_response_def Let_def max_def not_less split: if_splits)

lemma cluster_inv_response:
  assumes inv: "cluster_inv ids m s" and msg: "(d, VoteResponse trm g v) \<in> set (wire s)"
  shows "cluster_inv ids m (receive (d, VoteResponse trm g v) s)"
proof -
  define e' where "e' = snd (process_vote_response trm g v (cluster_node s d))"
  note f = process_vote_response_facts [OF e'_def [symmetric]]
  have names: "names_ok ids s" and terms: "terms_ok m s" and votes: "votes_ok s"
    using inv by (simp_all add: cluster_inv_def)
  have s': "receive (d, VoteResponse trm g v) s = s\<lparr>cluster_node := (cluster_node s)(d := e')\<rparr>"
    by (simp add: receive_def e'_def)
  have me: "el_node (cluster_node s d) = d" "el_cluster (cluster_node s d) = ids"
    using names by (simp_all add: names_ok_def)
  have "unat trm \<le> m" "unat (el_term (cluster_node s d)) \<le> m"
    using terms msg by (fastforce simp: terms_ok_def)+
  then have bound: "unat (el_term e') \<le> m" by (simp add: f(3) max_def)
  have "votes_ok (receive (d, VoteResponse trm g v) s)"
    unfolding s' by (rule votes_ok_node [OF votes]) (simp_all add: f(3,4))
  moreover have "terms_ok m (receive (d, VoteResponse trm g v) s)"
    unfolding s' using terms bound by (simp add: terms_ok_def)
  moreover have "names_ok ids (receive (d, VoteResponse trm g v) s)"
    unfolding s' using names f(1,2) me by (simp add: names_ok_def)
  moreover have "candidate_ok ids (wire s) e'"
  proof (cases "el_term (cluster_node s d) = el_term e'")
    case True
    have old: "candidate_ok ids (wire s) (cluster_node s d)" using inv by (simp add: cluster_inv_def)
    have "g \<Longrightarrow> voted (wire s) v trm d" using msg by (auto simp: voted_def)
    then show ?thesis
      using f(6) [OF True] old True f(1) me by (auto simp: candidate_ok_def)
  next
    case False
    then show ?thesis using f(5) by (simp add: candidate_ok_def)
  qed
  ultimately show ?thesis using inv unfolding cluster_inv_def s' by simp
qed

lemma cluster_inv_mono: "cluster_inv ids m s \<Longrightarrow> cluster_inv ids (m + 1) s"
  by (auto simp: cluster_inv_def terms_ok_def intro: le_SucI)

lemma cluster_inv_step:
  assumes "cluster_inv ids m s" "m + 1 < 2 ^ 64"
  shows "cluster_inv ids (m + 1) (cluster_step ids e s)"
proof (cases e)
  case (StartElection n)
  then show ?thesis
    using cluster_inv_start [OF assms, of n] cluster_inv_mono [OF assms(1)] by (cases "n \<in> set ids") auto
next
  case (Deliver k)
  show ?thesis
  proof (cases "k < length (wire s)")
    case True
    obtain d msg where dm: "wire s ! k = (d, msg)" by fastforce
    then have "(d, msg) \<in> set (wire s)" using True by (metis nth_mem)
    then have "cluster_inv ids m (receive (d, msg) s)"
      using cluster_inv_request [OF assms(1)] cluster_inv_response [OF assms(1)] assms(1)
      by (cases msg) (auto simp: receive_def)
    then show ?thesis using cluster_inv_mono True Deliver dm by simp
  next
    case False
    then show ?thesis using cluster_inv_mono [OF assms(1)] Deliver by simp
  qed
qed

lemma cluster_inv_new: "cluster_inv ids 0 (new_cluster ids)"
  by (simp add: cluster_inv_def terms_ok_def names_ok_def votes_ok_def candidate_ok_def new_cluster_def
      new_election_def voted_def default_swarm_config_def)

lemma cluster_inv_run:
  "cluster_inv ids m s \<Longrightarrow> m + length es < 2 ^ 64 \<Longrightarrow> cluster_inv ids (m + length es) (cluster_run ids es s)"
proof (induction es arbitrary: m s)
  case (Cons e es)
  then show ?case
    using Cons.IH [of "m + 1" "cluster_step ids e s"] cluster_inv_step [of ids m s e]
    by (simp add: cluster_run_def)
qed (simp add: cluster_run_def)

section \<open>One leader per term\<close>

definition cluster_quorum :: "u64 list \<Rightarrow> u64 set \<Rightarrow> bool" where
  "cluster_quorum ids vs \<longleftrightarrow> vs \<subseteq> set ids \<and> quorum_size ids \<le> card vs"

interpretation cluster: intersecting_quorums "cluster_quorum ids" for ids
proof
  fix A B
  assume q: "cluster_quorum ids A" "cluster_quorum ids B"
  show "A \<inter> B \<noteq> {}"
  proof
    assume "A \<inter> B = {}"
    then have "card (A \<union> B) = card A + card B"
      using q by (intro card_Un_disjoint) (auto simp: cluster_quorum_def intro: finite_subset)
    moreover have "card (A \<union> B) \<le> card (set ids)"
      using q by (intro card_mono) (auto simp: cluster_quorum_def)
    moreover have "card (set ids) \<le> length ids" by (rule card_length)
    moreover have "length ids < 2 * quorum_size ids" unfolding quorum_size_def by presburger
    ultimately show False using q unfolding cluster_quorum_def by linarith
  qed
qed

lemma wire_grows: "set (wire s) \<subseteq> set (wire (cluster_run ids es s))"
proof (induction es arbitrary: s)
  case (Cons e es)
  have "set (wire s) \<subseteq> set (wire (cluster_step ids e s))"
    by (cases e) (auto simp: receive_def split: prod.split raft_message.split)
  then show ?case using Cons [of "cluster_step ids e s"] by (auto simp: cluster_run_def)
qed (simp add: cluster_run_def)

lemma voted_mono: "set w \<subseteq> set w' \<Longrightarrow> voted w v trm c \<Longrightarrow> voted w' v trm c"
  by (auto simp: voted_def)

text \<open>The voters of a leader.\<close>

lemma leader_quorum:
  assumes "cluster_inv ids m s" "is_leader (cluster_node s n)"
  shows "cluster_quorum ids (set (votes_received (cluster_node s n)))"
    and "\<And>v. v \<in> set (votes_received (cluster_node s n)) \<Longrightarrow> voted (wire s) v (el_term (cluster_node s n)) n"
proof -
  have c: "candidate_ok ids (wire s) (cluster_node s n)" "el_node (cluster_node s n) = n" "names_ok ids s"
    using assms(1) by (auto simp: cluster_inv_def names_ok_def)
  show v: "voted (wire s) v (el_term (cluster_node s n)) n" if "v \<in> set (votes_received (cluster_node s n))" for v
    using c(1,2) assms(2) that by (auto simp: candidate_ok_def is_leader_def)
  have "card (set (votes_received (cluster_node s n))) = length (votes_received (cluster_node s n))"
    using c(1) assms(2) by (auto simp: candidate_ok_def is_leader_def distinct_card)
  then show "cluster_quorum ids (set (votes_received (cluster_node s n)))"
    using v voted_mem [OF c(3)] c(1) assms(2) by (auto simp: cluster_quorum_def candidate_ok_def is_leader_def)
qed

text \<open>C1. No term has two leaders.  In every run of a cluster of fewer than 2^64 steps, in which messages
  are lost, delayed, reordered and repeated at will, if one node is the leader of a term at some
  time and another is the leader of the same term at that time or later, they are the same node.\<close>

theorem one_leader_per_term:
  assumes "length es + length es' < 2 ^ 64"
    and s_def: "s = cluster_run ids es (new_cluster ids)" and s'_def: "s' = cluster_run ids es' s"
    and l: "is_leader (cluster_node s a)" "is_leader (cluster_node s' b)"
    and t: "el_term (cluster_node s a) = el_term (cluster_node s' b)"
  shows "a = b"
proof -
  have i1: "cluster_inv ids (length es) s"
    unfolding s_def using cluster_inv_run [OF cluster_inv_new, of es ids] assms(1) by simp
  have i2: "cluster_inv ids (length es + length es') s'"
    unfolding s'_def by (rule cluster_inv_run [OF i1 assms(1)])
  have w: "set (wire s) \<subseteq> set (wire s')" unfolding s'_def by (rule wire_grows)
  show ?thesis
  proof (rule cluster.one_winner)
    show "cluster_quorum ids (set (votes_received (cluster_node s a)))" by (rule leader_quorum(1) [OF i1 l(1)])
    show "cluster_quorum ids (set (votes_received (cluster_node s' b)))" by (rule leader_quorum(1) [OF i2 l(2)])
    show "voted (wire s') v (el_term (cluster_node s' b)) a" if "v \<in> set (votes_received (cluster_node s a))" for v
      using leader_quorum(2) [OF i1 l(1) that] voted_mono [OF w] t by metis
    show "voted (wire s') v (el_term (cluster_node s' b)) b" if "v \<in> set (votes_received (cluster_node s' b))" for v
      by (rule leader_quorum(2) [OF i2 l(2) that])
    show "x = y" if "voted (wire s') v (el_term (cluster_node s' b)) x" "voted (wire s') v (el_term (cluster_node s' b)) y" for v x y
      using i2 that unfolding cluster_inv_def votes_ok_def by blast
  qed
qed

text \<open>Three nodes: the first is elected; the second starts an election of the next term.\<close>

definition example_run :: "cluster_event list" where
  "example_run = [StartElection 1, Deliver 1, Deliver 3]"

lemma example_run_elects:
  "is_leader (cluster_node (cluster_run [1, 2, 3] example_run (new_cluster [1, 2, 3])) 1)"
  by (simp add: example_run_def cluster_run_def new_cluster_def new_election_def default_swarm_config_def
      start_election_def receive_def process_vote_request_def process_vote_response_def Let_def is_leader_def
      quorum_size_def List.insert_def)

theorem one_leader_per_term_witness:
  "{b. is_leader (cluster_node (cluster_run [1, 2, 3] example_run (new_cluster [1, 2, 3])) b) \<and>
       el_term (cluster_node (cluster_run [1, 2, 3] example_run (new_cluster [1, 2, 3])) b) =
       el_term (cluster_node (cluster_run [1, 2, 3] example_run (new_cluster [1, 2, 3])) 1)} = {1}"
  using one_leader_per_term [OF _ refl refl, of example_run "[]" "[1, 2, 3]" 1] example_run_elects
  by (auto simp: cluster_run_def [of _ "[]"] example_run_def)

end
