(* ===== verification/Leader_Lease.thy ===== *)
theory Leader_Lease
  imports Swarm_Types
begin

text \<open>
  The lease that lets a node sign orders, \<open>crates/nexus_swarm/src/gating/leader_lease_token.rs\<close>: the
  token, and the gate that checks it before it calls the signing closure.  Tokens are shared, so
  they live in a list and are named by their index; the gate holds an index.  The clock readings
  and the durations in nanoseconds are arguments.  A signing call has two steps, the check under
  the read lock and the closure after the lock was released, and anything may happen between
  them.
\<close>

section \<open>The token\<close>

record lease_token =
  lt_node :: u64
  lt_term :: u64
  issued_at_ns :: u64
  expires_at_ns :: u64
  revoked :: bool
  lt_epoch :: u64

definition new_lease :: "u64 \<Rightarrow> u64 \<Rightarrow> u64 \<Rightarrow> u64 \<Rightarrow> lease_token" where
  "new_lease now node trm duration =
     \<lparr>lt_node = node, lt_term = trm, issued_at_ns = now, expires_at_ns = now + duration,
      revoked = False, lt_epoch = 1\<rparr>"

definition lease_valid :: "u64 \<Rightarrow> lease_token \<Rightarrow> bool" where
  "lease_valid now t = (\<not> revoked t \<and> now < expires_at_ns t)"

definition validate_and_get_epoch :: "u64 \<Rightarrow> lease_token \<Rightarrow> consensus_error + u64" where
  "validate_and_get_epoch now t =
     (if \<not> lease_valid now t then Inl (LeaseExpired (lt_term t) (expires_at_ns t)) else Inr (lt_epoch t))"

definition renew_lease :: "u64 \<Rightarrow> u64 \<Rightarrow> lease_token \<Rightarrow> (consensus_error + u64) \<times> lease_token" where
  "renew_lease now duration t =
     (if revoked t then (Inl (LeaseExpired (lt_term t) 0), t)
      else let t1 = t\<lparr>expires_at_ns := now + duration\<rparr>
           in (Inr (lt_epoch t1 + 1), t1\<lparr>lt_epoch := lt_epoch t1 + 1\<rparr>))"

definition revoke_lease :: "lease_token \<Rightarrow> lease_token" where
  "revoke_lease t = t\<lparr>revoked := True\<rparr>"

definition remaining_duration :: "u64 \<Rightarrow> lease_token \<Rightarrow> u64 option" where
  "remaining_duration now t = (if now \<ge> expires_at_ns t then None else Some (expires_at_ns t - now))"

definition extend_lease :: "u64 \<Rightarrow> u64 \<Rightarrow> lease_token \<Rightarrow> (consensus_error + unit) \<times> lease_token" where
  "extend_lease now extension t =
     (if \<not> lease_valid now t then (Inl (LeaseExpired (lt_term t) (expires_at_ns t)), t)
      else let t1 = t\<lparr>expires_at_ns := expires_at_ns t + extension\<rparr>
           in (Inr (), t1\<lparr>lt_epoch := lt_epoch t1 + 1\<rparr>))"

section \<open>The gate\<close>

record lease_gate =
  gate_tokens :: "lease_token list"
  current_token :: "nat option"
  signing_enabled :: bool

definition new_lease_gate :: lease_gate where
  "new_lease_gate = \<lparr>gate_tokens = [], current_token = None, signing_enabled = False\<rparr>"

definition token_at :: "lease_gate \<Rightarrow> nat \<Rightarrow> lease_token option" where
  "token_at g i = (if i < length (gate_tokens g) then Some (gate_tokens g ! i) else None)"

definition on_token :: "nat \<Rightarrow> (lease_token \<Rightarrow> lease_token) \<Rightarrow> lease_gate \<Rightarrow> lease_gate" where
  "on_token i f g =
     (case token_at g i of None \<Rightarrow> g | Some t \<Rightarrow> g\<lparr>gate_tokens := (gate_tokens g)[i := f t]\<rparr>)"

definition set_token :: "u64 \<Rightarrow> nat \<Rightarrow> lease_gate \<Rightarrow> (consensus_error + unit) \<times> lease_gate" where
  "set_token now i g =
     (case token_at g i of
        None \<Rightarrow> (Inl (NotLeader 0), g)
      | Some t \<Rightarrow>
          if \<not> lease_valid now t then (Inl (LeaseExpired (lt_term t) 0), g)
          else (Inr (), g\<lparr>current_token := Some i, signing_enabled := True\<rparr>))"

definition clear_token :: "lease_gate \<Rightarrow> lease_gate" where
  "clear_token g = g\<lparr>current_token := None, signing_enabled := False\<rparr>"

text \<open>The part of \<open>execute_with_lease\<close> under the lock: what the closure will be called with.\<close>

definition authorize :: "u64 \<Rightarrow> lease_gate \<Rightarrow> consensus_error + u64 \<times> u64 \<times> u64" where
  "authorize now g =
     (if \<not> signing_enabled g then Inl (NotLeader 0)
      else
        case Option.bind (current_token g) (token_at g) of
          None \<Rightarrow> Inl (NotLeader 0)
        | Some t \<Rightarrow>
            (case validate_and_get_epoch now t of
               Inl e \<Rightarrow> Inl e
             | Inr epoch \<Rightarrow> Inr (epoch, lt_node t, lt_term t)))"

definition execute_with_lease ::
  "u64 \<Rightarrow> (u64 \<Rightarrow> u64 \<Rightarrow> u64 \<Rightarrow> consensus_error + 'r) \<Rightarrow> lease_gate \<Rightarrow> consensus_error + 'r" where
  "execute_with_lease now f g =
     (case authorize now g of Inl e \<Rightarrow> Inl e | Inr (epoch, node, trm) \<Rightarrow> f epoch node trm)"

definition get_token_info :: "u64 \<Rightarrow> lease_gate \<Rightarrow> (u64 \<times> u64 \<times> u64 option) option" where
  "get_token_info now g =
     map_option (\<lambda>t. (lt_node t, lt_term t, remaining_duration now t))
       (Option.bind (current_token g) (token_at g))"

section \<open>Runs\<close>

text \<open>
  \<open>BeginSigning\<close> is the check of one signing call, \<open>FinishSigning k\<close> the closure of the \<open>k\<close>-th call
  that has passed it.
\<close>

datatype lease_event =
    Grant u64 u64 u64 u64
  | Renew u64 nat u64
  | Extend u64 nat u64
  | Revoke nat
  | Install u64 nat
  | StepDown
  | BeginSigning u64
  | FinishSigning nat

record signing_run =
  run_gate :: lease_gate
  pending :: "(u64 \<times> u64 \<times> u64) list"
  signatures :: "(u64 \<times> u64 \<times> u64) list"

definition new_signing_run :: signing_run where
  "new_signing_run = \<lparr>run_gate = new_lease_gate, pending = [], signatures = []\<rparr>"

fun gate_event :: "lease_event \<Rightarrow> lease_gate \<Rightarrow> lease_gate" where
  "gate_event (Grant now node trm d) g = g\<lparr>gate_tokens := gate_tokens g @ [new_lease now node trm d]\<rparr>"
| "gate_event (Renew now i d) g = on_token i (\<lambda>t. snd (renew_lease now d t)) g"
| "gate_event (Extend now i d) g = on_token i (\<lambda>t. snd (extend_lease now d t)) g"
| "gate_event (Revoke i) g = on_token i revoke_lease g"
| "gate_event (Install now i) g = snd (set_token now i g)"
| "gate_event StepDown g = clear_token g"
| "gate_event (BeginSigning now) g = g"
| "gate_event (FinishSigning k) g = g"

definition lease_step :: "lease_event \<Rightarrow> signing_run \<Rightarrow> signing_run" where
  "lease_step e s =
     (case e of
        BeginSigning now \<Rightarrow>
          (case authorize now (run_gate s) of Inl _ \<Rightarrow> s | Inr a \<Rightarrow> s\<lparr>pending := pending s @ [a]\<rparr>)
      | FinishSigning k \<Rightarrow>
          if k < length (pending s)
          then s\<lparr>signatures := signatures s @ [pending s ! k], pending := take k (pending s) @ drop (Suc k) (pending s)\<rparr>
          else s
      | _ \<Rightarrow> s\<lparr>run_gate := gate_event e (run_gate s)\<rparr>)"

lemma lease_step_gate: "run_gate (lease_step e s) = gate_event e (run_gate s)"
  by (cases e) (auto simp: lease_step_def split: sum.split)

lemma lease_run_gate: "run_gate (fold lease_step es s) = fold gate_event es (run_gate s)"
  by (induction es arbitrary: s) (simp_all add: lease_step_gate)

lemma token_at_on_token:
  "token_at (on_token i f g) j = (if i = j then map_option f (token_at g j) else token_at g j)"
  by (auto simp: token_at_def on_token_def)

lemma token_at_set_token [simp]: "token_at (snd (set_token now i g)) j = token_at g j"
  by (auto simp: set_token_def token_at_def split: option.split)

lemma token_at_clear_token [simp]: "token_at (clear_token g) j = token_at g j"
  by (simp add: clear_token_def token_at_def)

text \<open>What an event does to a token that exists.\<close>

definition token_event :: "nat \<Rightarrow> lease_event \<Rightarrow> lease_token \<Rightarrow> lease_token" where
  "token_event i e t =
     (case e of
        Renew now j d \<Rightarrow> if j = i then snd (renew_lease now d t) else t
      | Extend now j d \<Rightarrow> if j = i then snd (extend_lease now d t) else t
      | Revoke j \<Rightarrow> if j = i then revoke_lease t else t
      | _ \<Rightarrow> t)"

lemma token_at_grant: "token_at g i = Some t \<Longrightarrow> token_at (g\<lparr>gate_tokens := gate_tokens g @ [u]\<rparr>) i = Some t"
  by (auto simp: token_at_def nth_append split: if_splits)

lemma token_at_event: "token_at g i = Some t \<Longrightarrow> token_at (gate_event e g) i = Some (token_event i e t)"
  by (cases e) (auto simp: token_event_def token_at_on_token token_at_grant)

lemma token_at_run:
  "token_at g i = Some t \<Longrightarrow> token_at (fold gate_event es g) i = Some (fold (token_event i) es t)"
  by (induction es arbitrary: g t) (simp_all add: token_at_event)

subsection \<open>Revocation is final\<close>

interpretation token_revoked: invariant_machine "token_event i" revoked for i
  by unfold_locales
    (auto simp: token_event_def renew_lease_def extend_lease_def revoke_lease_def Let_def split: lease_event.split)

text \<open>C9. A revoked lease never passes the gate again.  Once a token was revoked, and whatever is
  granted, renewed, extended, installed or cleared afterwards, it can not be installed, and a
  signing call is refused as long as it is the installed one.\<close>

theorem revoked_lease_never_authorizes:
  assumes "token_at g i = Some t"
    and g'_def: "g' = fold gate_event es (gate_event (Revoke i) g)"
  shows "(\<exists>e. fst (set_token now i g') = Inl e) \<and>
    (current_token g' = Some i \<longrightarrow> (\<exists>e. execute_with_lease now f g' = Inl e))"
proof -
  have "token_at g' i = Some (fold (token_event i) es (revoke_lease t))"
    unfolding g'_def using token_at_run [OF token_at_event [OF assms(1), of "Revoke i"]]
    by (simp add: token_event_def)
  moreover have "revoked (fold (token_event i) es (revoke_lease t))"
    by (rule token_revoked.run_inv) (simp add: revoke_lease_def)
  ultimately show ?thesis
    by (simp add: set_token_def execute_with_lease_def authorize_def validate_and_get_epoch_def lease_valid_def)
qed

theorem revoked_lease_never_authorizes_witness:
  "\<exists>e. execute_with_lease 5 (\<lambda>epoch node trm. Inr epoch)
         (fold gate_event [Renew 2 0 100] (gate_event (Revoke 0)
           (fold gate_event [Grant 0 1 5 60, Install 1 0] new_lease_gate))) = Inl e"
  using revoked_lease_never_authorizes
    [of "fold gate_event [Grant 0 1 5 60, Install 1 0] new_lease_gate" 0 "new_lease 0 1 5 60"
        _ "[Renew 2 0 100]" 5 "\<lambda>epoch node trm. Inr epoch"]
  by (simp add: token_at_def new_lease_gate_def set_token_def lease_valid_def new_lease_def on_token_def
      revoke_lease_def renew_lease_def)

subsection \<open>A signature can follow the revocation\<close>

text \<open>A signature can follow the revocation of its lease, and its epoch does not show it.  Whenever a
  signing call passes the check, the lease can be revoked and the gate cleared before the closure
  runs: the signature is still made, with the node and term of the lease, and with the epoch that
  the revoked lease still has.\<close>

lemma signature_after_revocation:
  assumes "authorize now (run_gate s) = Inr (epoch, node, trm)" "current_token (run_gate s) = Some i"
  shows "\<exists>t. let s' = fold lease_step [BeginSigning now, Revoke i, StepDown, FinishSigning (length (pending s))] s
    in token_at (run_gate s') i = Some t \<and> revoked t \<and> current_token (run_gate s') = None \<and>
       signatures s' = signatures s @ [(epoch, node, trm)] \<and>
       lt_epoch t = epoch \<and> lt_node t = node \<and> lt_term t = trm"
proof -
  obtain t where t: "token_at (run_gate s) i = Some t" "lt_epoch t = epoch" "lt_node t = node" "lt_term t = trm"
    using assms by (auto simp: authorize_def validate_and_get_epoch_def split: if_splits option.splits)
  let ?s' = "fold lease_step [BeginSigning now, Revoke i, StepDown, FinishSigning (length (pending s))] s"
  have "token_at (run_gate ?s') i = Some (revoke_lease t)"
    unfolding lease_run_gate by (simp add: token_at_on_token t(1))
  moreover have "current_token (run_gate ?s') = None"
    unfolding lease_run_gate by (simp add: clear_token_def)
  moreover have "signatures ?s' = signatures s @ [(epoch, node, trm)]"
    using assms(1) by (simp add: lease_step_def)
  ultimately show ?thesis using t by (auto simp: revoke_lease_def Let_def)
qed

lemma signature_after_revocation_example:
  "\<exists>es t. let s' = fold lease_step es new_signing_run
     in token_at (run_gate s') 0 = Some t \<and> revoked t \<and> signatures s' = [(1, 7, 5)] \<and> lt_epoch t = 1"
proof -
  let ?s = "fold lease_step [Grant 0 7 5 60, Install 1 0] new_signing_run"
  have "authorize 2 (run_gate ?s) = Inr (1, 7, 5)" "current_token (run_gate ?s) = Some 0" "signatures ?s = []"
    by (simp_all add: lease_step_def new_signing_run_def new_lease_gate_def set_token_def token_at_def
        lease_valid_def new_lease_def authorize_def validate_and_get_epoch_def)
  from signature_after_revocation [OF this(1,2)] this(3) show ?thesis
    by (intro exI [of _ "[Grant 0 7 5 60, Install 1 0] @
        [BeginSigning 2, Revoke 0, StepDown, FinishSigning (length (pending ?s))]"])
      (auto simp: Let_def simp del: fold_simps)
qed

subsection \<open>Who signs\<close>

text \<open>Granted node and term of a token never change, and tokens are never removed.\<close>

definition granted :: "lease_gate \<Rightarrow> u64 \<times> u64 \<Rightarrow> bool" where
  "granted g p \<longleftrightarrow> (\<exists>i t. token_at g i = Some t \<and> p = (lt_node t, lt_term t))"

lemma token_event_identity:
  "lt_node (token_event i e t) = lt_node t" "lt_term (token_event i e t) = lt_term t"
  by (simp_all add: token_event_def renew_lease_def extend_lease_def revoke_lease_def Let_def split: lease_event.split)

lemma token_at_in_set: "token_at g i = Some t \<Longrightarrow> t \<in> set (gate_tokens g)"
  by (auto simp: token_at_def split: if_splits)

lemma granted_event: "granted g p \<Longrightarrow> granted (gate_event e g) p"
proof -
  assume "granted g p"
  then obtain i t where t: "token_at g i = Some t" "p = (lt_node t, lt_term t)"
    unfolding granted_def by blast
  show ?thesis
    unfolding granted_def
    by (rule exI [of _ i], rule exI [of _ "token_event i e t"])
      (simp add: token_at_event [OF t(1)] token_event_identity t(2))
qed

definition signers_granted :: "signing_run \<Rightarrow> bool" where
  "signers_granted s \<longleftrightarrow> (\<forall>a \<in> set (pending s) \<union> set (signatures s). granted (run_gate s) (snd a))"

lemma authorize_granted: "authorize now g = Inr a \<Longrightarrow> granted g (snd a)"
  unfolding granted_def authorize_def validate_and_get_epoch_def
  by (fastforce split: if_splits option.splits bind_splits)

lemma signers_granted_step: "signers_granted s \<Longrightarrow> signers_granted (lease_step e s)"
proof -
  assume inv: "signers_granted s"
  consider (begins) now where "e = BeginSigning now" | (ends) k where "e = FinishSigning k"
    | (other) "lease_step e s = s\<lparr>run_gate := gate_event e (run_gate s)\<rparr>"
    by (cases e) (auto simp: lease_step_def)
  then show ?thesis
  proof cases
    case begins
    then show ?thesis
      using inv authorize_granted [of now "run_gate s"]
      by (cases "authorize now (run_gate s)") (auto simp: signers_granted_def lease_step_def)
  next
    case ends
    then show ?thesis
      using inv by (auto simp: signers_granted_def lease_step_def dest: in_set_takeD in_set_dropD)
  next
    case other
    then show ?thesis using inv granted_event by (simp add: signers_granted_def)
  qed
qed

interpretation signing: invariant_machine lease_step signers_granted
  by unfold_locales (rule signers_granted_step)

text \<open>Only granted leases sign.  In every run of the gate, each signature carries the node and the
  term of a lease that was granted.\<close>

lemma only_granted_leases_sign:
  "(epoch, node, trm) \<in> set (signatures (fold lease_step es new_signing_run)) \<Longrightarrow>
     \<exists>t \<in> set (gate_tokens (run_gate (fold lease_step es new_signing_run))). lt_node t = node \<and> lt_term t = trm"
proof -
  assume s: "(epoch, node, trm) \<in> set (signatures (fold lease_step es new_signing_run))"
  have "signers_granted new_signing_run" by (simp add: signers_granted_def new_signing_run_def)
  from signing.run_inv [OF this, of es] s
  have "granted (run_gate (fold lease_step es new_signing_run)) (snd (epoch, node, trm))"
    unfolding signers_granted_def by blast
  then show ?thesis using token_at_in_set by (fastforce simp: granted_def)
qed

lemma only_granted_leases_sign_example:
  "\<exists>es. (1, 7, 5) \<in> set (signatures (fold lease_step es new_signing_run)) \<and>
     (\<exists>t \<in> set (gate_tokens (run_gate (fold lease_step es new_signing_run))). lt_node t = 7 \<and> lt_term t = 5)"
proof -
  let ?es = "[Grant 0 7 5 60, Install 1 0, BeginSigning 2, FinishSigning 0]"
  have "(1, 7, 5) \<in> set (signatures (fold lease_step ?es new_signing_run))"
    by (simp add: lease_step_def new_signing_run_def new_lease_gate_def set_token_def token_at_def
        lease_valid_def new_lease_def authorize_def validate_and_get_epoch_def)
  then show ?thesis using only_granted_leases_sign [of 1 7 5 ?es] by blast
qed

subsection \<open>Expiry\<close>

text \<open>The clock reading of an event, and time that does not run backwards.\<close>

fun event_time :: "lease_event \<Rightarrow> u64 option" where
  "event_time (Grant now node trm d) = Some now"
| "event_time (Renew now i d) = Some now"
| "event_time (Extend now i d) = Some now"
| "event_time (Install now i) = Some now"
| "event_time (BeginSigning now) = Some now"
| "event_time _ = None"

definition since :: "u64 \<Rightarrow> lease_event \<Rightarrow> bool" where
  "since t e \<longleftrightarrow> (case event_time e of None \<Rightarrow> True | Some now \<Rightarrow> t \<le> now)"

definition renews :: "nat \<Rightarrow> lease_event \<Rightarrow> bool" where
  "renews i e \<longleftrightarrow> (\<exists>now d. e = Renew now i d)"

lemma expired_event:
  "expires_at_ns t \<le> t0 \<Longrightarrow> since t0 e \<Longrightarrow> \<not> renews i e \<Longrightarrow> expires_at_ns (token_event i e t) \<le> t0"
  by (cases e) (auto simp: token_event_def extend_lease_def revoke_lease_def lease_valid_def since_def renews_def Let_def)

lemma expired_run:
  "expires_at_ns t \<le> t0 \<Longrightarrow> \<forall>e \<in> set es. since t0 e \<and> \<not> renews i e \<Longrightarrow>
     expires_at_ns (fold (token_event i) es t) \<le> t0"
  by (induction es arbitrary: t) (simp_all add: expired_event)

text \<open>An expired lease stays expired unless it is renewed.  After the expiry of a lease, no events
  at later times other than its renewal - extensions included - let it pass the gate.\<close>

lemma expired_lease_stays_expired:
  assumes "token_at g i = Some t" "expires_at_ns t \<le> t0"
    and "\<forall>e \<in> set es. since t0 e \<and> \<not> renews i e" "t0 \<le> now" "current_token (fold gate_event es g) = Some i"
  shows "\<exists>e. execute_with_lease now f (fold gate_event es g) = Inl e"
  using token_at_run [OF assms(1), of es] expired_run [OF assms(2,3)] assms(4,5)
  by (auto simp: execute_with_lease_def authorize_def validate_and_get_epoch_def lease_valid_def)

lemma expired_lease_stays_expired_example:
  "\<exists>e. execute_with_lease 70 (\<lambda>epoch node trm. Inr epoch)
         (fold gate_event [Extend 65 0 100] (fold gate_event [Grant 0 1 5 60, Install 1 0] new_lease_gate)) = Inl e"
  using expired_lease_stays_expired
    [of "fold gate_event [Grant 0 1 5 60, Install 1 0] new_lease_gate" 0 "new_lease 0 1 5 60" 60 "[Extend 65 0 100]" 70]
  by (simp add: token_at_def new_lease_gate_def set_token_def lease_valid_def new_lease_def on_token_def
      extend_lease_def since_def renews_def)

text \<open>A renewal brings an expired lease back.\<close>

lemma renewal_revives: "\<not> revoked t \<Longrightarrow> now < now + d \<Longrightarrow> lease_valid now (snd (renew_lease now d t))"
  by (simp add: renew_lease_def lease_valid_def Let_def)

end
