(* ===== verification/Raft_Log.thy ===== *)
theory Raft_Log
  imports Swarm_Types
begin

text \<open>
  The replicated log, \<open>crates/nexus_swarm/src/replication/lock_free_raft_log.rs\<close>, a ring of slots
  with a write index that only grows; log entries are those of \<open>crates/nexus_swarm/src/lib.rs\<close>.  The
  checksum function is a library's: the argument \<open>crc\<close>.  A remainder by a buffer size of zero
  panics.  The theory shows which entry every index reads, and where a rejected entry, a full ring
  and a complete truncation leave the log.
\<close>

section \<open>State\<close>

datatype log_entry_type =
    NoOp
  | OrderSubmission string
  | OrderCancellation string
  | PositionUpdate string i64
  | PnLUpdate i64
  | StateSnapshot u64

record log_entry =
  le_index :: u64
  le_term :: u64
  le_timestamp_ns :: u64
  le_type :: log_entry_type
  le_data :: "u8 list"
  le_crc32 :: u32

definition new_log_entry ::
  "(u8 list \<Rightarrow> u32) \<Rightarrow> u64 \<Rightarrow> u64 \<Rightarrow> u64 \<Rightarrow> log_entry_type \<Rightarrow> u8 list \<Rightarrow> log_entry" where
  "new_log_entry crc now i trm ty bytes =
     \<lparr>le_index = i, le_term = trm, le_timestamp_ns = now, le_type = ty, le_data = bytes, le_crc32 = crc bytes\<rparr>"

definition verify_integrity :: "(u8 list \<Rightarrow> u32) \<Rightarrow> log_entry \<Rightarrow> bool" where
  "verify_integrity crc e = (le_crc32 e = crc (le_data e))"

definition MAX_LOG_ENTRIES :: nat where "MAX_LOG_ENTRIES = 1000000"

record raft_log =
  log_slots :: "log_entry option list"
  commit_index :: u64
  last_applied :: u64
  write_index :: u64
  total_entries_written :: u64
  buffer_size :: nat

definition new_raft_log :: "swarm_config \<Rightarrow> raft_log" where
  "new_raft_log c =
     (let n = min (max_log_entries_before_compaction c) MAX_LOG_ENTRIES
      in \<lparr>log_slots = replicate n None, commit_index = 0, last_applied = 0, write_index = 0,
          total_entries_written = 0, buffer_size = n\<rparr>)"

section \<open>Operations\<close>

definition append_entry ::
  "(u8 list \<Rightarrow> u32) \<Rightarrow> log_entry \<Rightarrow> raft_log \<Rightarrow> panic + (consensus_error + u64) \<times> raft_log" where
  "append_entry crc e l =
     (let current = write_index l; l1 = l\<lparr>write_index := current + 1\<rparr>
      in if buffer_size l1 = 0 then Inl DivideByZero
         else
           let slot = unat current mod buffer_size l1; e1 = e\<lparr>le_index := current\<rparr>
           in if \<not> verify_integrity crc e1
              then Inr (Inl (LogCorruption current ''CRC32 mismatch on append''), l1)
              else
                let l2 = l1\<lparr>log_slots := (log_slots l1)[slot := Some e1]\<rparr>
                in Inr (Inr current, l2\<lparr>total_entries_written := total_entries_written l2 + 1\<rparr>))"

definition get_entry :: "u64 \<Rightarrow> raft_log \<Rightarrow> panic + log_entry option" where
  "get_entry i l =
     (if i \<ge> total_entries_written l then Inr None
      else if buffer_size l = 0 then Inl DivideByZero
      else Inr (log_slots l ! (unat i mod buffer_size l)))"

fun get_entries :: "nat list \<Rightarrow> raft_log \<Rightarrow> panic + log_entry list" where
  "get_entries [] l = Inr []"
| "get_entries (i # is) l =
     (case get_entry (of_nat i) l of
        Inl p \<Rightarrow> Inl p
      | Inr found \<Rightarrow> map_sum id (\<lambda>rest. (case found of None \<Rightarrow> rest | Some e \<Rightarrow> e # rest)) (get_entries is l))"

definition get_range :: "u64 \<Rightarrow> u64 \<Rightarrow> raft_log \<Rightarrow> panic + log_entry list" where
  "get_range start stop l = get_entries [unat start..<unat stop] l"

text \<open>The loops of \<open>commit\<close> and of \<open>verify_range\<close>.\<close>

fun commit_check :: "(u8 list \<Rightarrow> u32) \<Rightarrow> raft_log \<Rightarrow> nat list \<Rightarrow> panic + consensus_error + unit" where
  "commit_check crc l [] = Inr (Inr ())"
| "commit_check crc l (i # is) =
     (if buffer_size l = 0 then Inl DivideByZero
      else
        case log_slots l ! (i mod buffer_size l) of
          Some e \<Rightarrow>
            if \<not> verify_integrity crc e then Inr (Inl (LogCorruption (of_nat i) ''CRC32 mismatch on commit''))
            else commit_check crc l is
        | None \<Rightarrow> Inr (Inl (LogCorruption (of_nat i) ''Missing entry on commit'')))"

definition commit_log ::
  "(u8 list \<Rightarrow> u32) \<Rightarrow> u64 \<Rightarrow> raft_log \<Rightarrow> panic + (consensus_error + unit) \<times> raft_log" where
  "commit_log crc up_to l =
     (if up_to \<le> commit_index l then Inr (Inr (), l)
      else
        case commit_check crc l [unat (commit_index l)..<unat up_to] of
          Inl p \<Rightarrow> Inl p
        | Inr (Inl e) \<Rightarrow> Inr (Inl e, l)
        | Inr (Inr _) \<Rightarrow> Inr (Inr (), l\<lparr>commit_index := up_to\<rparr>))"

definition mark_applied :: "u64 \<Rightarrow> raft_log \<Rightarrow> raft_log" where
  "mark_applied up_to l = l\<lparr>last_applied := up_to\<rparr>"

definition needs_compaction :: "nat \<Rightarrow> raft_log \<Rightarrow> bool" where
  "needs_compaction threshold l = (unat (total_entries_written l) \<ge> threshold)"

definition get_term_at :: "u64 \<Rightarrow> raft_log \<Rightarrow> panic + u64 option" where
  "get_term_at i l = map_sum id (map_option le_term) (get_entry i l)"

fun range_check :: "(u8 list \<Rightarrow> u32) \<Rightarrow> raft_log \<Rightarrow> nat list \<Rightarrow> panic + consensus_error + unit" where
  "range_check crc l [] = Inr (Inr ())"
| "range_check crc l (i # is) =
     (if buffer_size l = 0 then Inl DivideByZero
      else
        case log_slots l ! (i mod buffer_size l) of
          Some e \<Rightarrow>
            if \<not> verify_integrity crc e then Inr (Inl (LogCorruption (of_nat i) ''CRC32 verification failed''))
            else range_check crc l is
        | None \<Rightarrow> range_check crc l is)"

definition verify_range :: "(u8 list \<Rightarrow> u32) \<Rightarrow> u64 \<Rightarrow> u64 \<Rightarrow> raft_log \<Rightarrow> panic + consensus_error + unit" where
  "verify_range crc start stop l = range_check crc l [unat start..<unat stop]"

fun clear_slots :: "nat list \<Rightarrow> raft_log \<Rightarrow> panic + raft_log" where
  "clear_slots [] l = Inr l"
| "clear_slots (i # is) l =
     (if buffer_size l = 0 then Inl DivideByZero
      else clear_slots is (l\<lparr>log_slots := (log_slots l)[i mod buffer_size l := None]\<rparr>))"

definition truncate_before :: "u64 \<Rightarrow> raft_log \<Rightarrow> panic + raft_log" where
  "truncate_before i l =
     (let total_count = total_entries_written l; start = min i total_count
      in case clear_slots [0..<unat start] l of
           Inl p \<Rightarrow> Inl p
         | Inr l1 \<Rightarrow>
             Inr (if i \<ge> total_count
                  then l1\<lparr>write_index := 0, total_entries_written := 0, commit_index := 0, last_applied := 0\<rparr>
                  else l1))"

section \<open>Which entry an index reads\<close>

fun append_all ::
  "(u8 list \<Rightarrow> u32) \<Rightarrow> log_entry list \<Rightarrow> raft_log \<Rightarrow> panic + raft_log" where
  "append_all crc [] l = Inr l"
| "append_all crc (e # es) l =
     (case append_entry crc e l of Inl p \<Rightarrow> Inl p | Inr (_, l') \<Rightarrow> append_all crc es l')"

text \<open>The last position below \<open>m\<close> that shares its slot with \<open>i\<close>.\<close>

definition last_in_slot :: "nat \<Rightarrow> nat \<Rightarrow> nat \<Rightarrow> nat" where
  "last_in_slot n m i = i + n * ((m - 1 - i) div n)"

definition stored :: "log_entry list \<Rightarrow> nat \<Rightarrow> log_entry" where
  "stored es j = (es ! j)\<lparr>le_index := of_nat j\<rparr>"

definition log_holds :: "log_entry list \<Rightarrow> raft_log \<Rightarrow> bool" where
  "log_holds es l \<longleftrightarrow>
     0 < buffer_size l \<and> length (log_slots l) = buffer_size l \<and>
     write_index l = of_nat (length es) \<and> total_entries_written l = of_nat (length es) \<and>
     (\<forall>i < length es. length es \<le> i + buffer_size l \<longrightarrow>
        log_slots l ! (i mod buffer_size l) = Some (stored es i)) \<and>
     (\<forall>k < buffer_size l. length es \<le> k \<longrightarrow> log_slots l ! k = None)"

lemma mod_ne: "i < m \<Longrightarrow> m < i + (n :: nat) \<Longrightarrow> i mod n \<noteq> m mod n"
proof
  assume i: "i < m" "m < i + n" "i mod n = m mod n"
  then have "n dvd m - i" using mod_eq_dvd_iff_nat [of i m n] by simp
  then show False using i(1,2) by (auto dest: dvd_imp_le)
qed

lemma append_entry_holds:
  assumes h: "log_holds es l" and ok: "verify_integrity crc e" and m: "length es + 1 < 2 ^ 64"
  shows "\<exists>l'. append_entry crc e l = Inr (Inr (of_nat (length es)), l') \<and> log_holds (es @ [e]) l' \<and>
    buffer_size l' = buffer_size l"
proof -
  let ?n = "buffer_size l" and ?m = "length es"
  let ?l' = "l\<lparr>write_index := of_nat ?m + 1, log_slots := (log_slots l)[?m mod ?n := Some (e\<lparr>le_index := of_nat ?m\<rparr>)],
      total_entries_written := of_nat ?m + 1\<rparr>"
  have n: "0 < ?n" and len: "length (log_slots l) = ?n" using h by (simp_all add: log_holds_def)
  have u: "unat (of_nat ?m :: u64) = ?m" using m by (simp add: unsigned_of_nat take_bit_nat_eq_self)
  have "append_entry crc e l = Inr (Inr (of_nat ?m), ?l')"
    using h ok n u by (simp add: append_entry_def Let_def log_holds_def verify_integrity_def)
  moreover have "log_slots ?l' ! (i mod ?n) = Some (stored (es @ [e]) i)"
    if i: "i < Suc ?m" "Suc ?m \<le> i + ?n" for i
  proof (cases "i = ?m")
    case True
    then show ?thesis using n len by (simp add: stored_def)
  next
    case False
    then have lt: "i < ?m" using i(1) by simp
    then have "i mod ?n \<noteq> ?m mod ?n" using mod_ne i(2) by simp
    then show ?thesis using h lt i(2) by (simp add: log_holds_def stored_def nth_append)
  qed
  moreover have "log_slots ?l' ! k = None" if "k < ?n" "Suc ?m \<le> k" for k
    using h that by (simp add: log_holds_def)
  ultimately have "log_holds (es @ [e]) ?l'"
    using n len by (auto simp: log_holds_def ac_simps)
  then show ?thesis using \<open>append_entry crc e l = _\<close> by auto
qed

lemma append_all_holds:
  "log_holds es l \<Longrightarrow> \<forall>e \<in> set fs. verify_integrity crc e \<Longrightarrow> length es + length fs < 2 ^ 64 \<Longrightarrow>
     \<exists>l'. append_all crc fs l = Inr l' \<and> log_holds (es @ fs) l' \<and> buffer_size l' = buffer_size l"
proof (induction fs arbitrary: es l)
  case (Cons f fs)
  obtain l1 where "append_entry crc f l = Inr (Inr (of_nat (length es)), l1)" "log_holds (es @ [f]) l1"
      "buffer_size l1 = buffer_size l"
    using append_entry_holds [of es l crc f] Cons.prems by auto
  then show ?case using Cons.IH [of "es @ [f]" l1] Cons.prems by auto
qed simp

lemma log_holds_new:
  "0 < max_log_entries_before_compaction c \<Longrightarrow> log_holds [] (new_raft_log c)"
  by (simp add: log_holds_def new_raft_log_def Let_def MAX_LOG_ENTRIES_def)

lemma last_in_slot_props:
  assumes "i < m" "0 < (n :: nat)"
  shows "last_in_slot n m i < m" "m \<le> last_in_slot n m i + n" "last_in_slot n m i mod n = i mod n"
    "i \<le> last_in_slot n m i" "last_in_slot n m i = i \<longleftrightarrow> m \<le> i + n"
proof -
  let ?q = "(m - 1 - i) div n"
  have "n * ?q \<le> m - 1 - i" by simp
  then show "last_in_slot n m i < m" using assms(1) unfolding last_in_slot_def by linarith
  have "m - 1 - i < n * ?q + n" using assms(2) by (metis mult.commute dividend_less_div_times add.commute)
  then show "m \<le> last_in_slot n m i + n" using assms(1) unfolding last_in_slot_def by linarith
  show "last_in_slot n m i mod n = i mod n" "i \<le> last_in_slot n m i" by (simp_all add: last_in_slot_def)
  show "last_in_slot n m i = i \<longleftrightarrow> m \<le> i + n"
    using assms by (auto simp: last_in_slot_def div_eq_0_iff)
qed

lemma get_entry_holds:
  assumes "log_holds es l" "i < length es" "length es < 2 ^ 64"
  shows "get_entry (of_nat i) l = Inr (Some (stored es (last_in_slot (buffer_size l) (length es) i)))"
proof -
  have n: "0 < buffer_size l" using assms(1) by (simp add: log_holds_def)
  note j = last_in_slot_props [OF assms(2) n]
  have u: "unat (of_nat i :: u64) = i" "unat (of_nat (length es) :: u64) = length es"
    using assms(2,3) by (simp_all add: unsigned_of_nat take_bit_nat_eq_self)
  have "log_slots l ! (i mod buffer_size l) = Some (stored es (last_in_slot (buffer_size l) (length es) i))"
    using assms(1) j(1-3) by (simp add: log_holds_def flip: j(3))
  moreover have "\<not> total_entries_written l \<le> of_nat i"
    using assms(1,2) u by (simp add: log_holds_def word_le_nat_alt)
  ultimately show ?thesis using n u(1) by (simp add: get_entry_def)
qed

text \<open>C12. What an index of the log reads.  After intact entries were appended to a new log, every index
  that was handed out reads the last entry that went to the same slot: its own entry if it is
  among the last \<open>buffer_size\<close>, and otherwise a newer one, which carries its own index - never
  nothing.\<close>

theorem log_index_reads_last_in_slot:
  assumes "0 < max_log_entries_before_compaction c" "\<forall>e \<in> set es. verify_integrity crc e" "length es < 2 ^ 64"
    and "i < length es"
  shows "\<exists>l j. append_all crc es (new_raft_log c) = Inr l \<and>
    get_entry (of_nat i) l = Inr (Some ((es ! j)\<lparr>le_index := of_nat j\<rparr>)) \<and>
    i \<le> j \<and> j < length es \<and> j mod buffer_size l = i mod buffer_size l \<and>
    (j = i \<longleftrightarrow> length es \<le> i + buffer_size l)"
proof -
  obtain l where l: "append_all crc es (new_raft_log c) = Inr l" "log_holds es l"
    using append_all_holds [OF log_holds_new [OF assms(1)] assms(2)] assms(3) by auto
  have n: "0 < buffer_size l" using l(2) by (simp add: log_holds_def)
  show ?thesis
    by (rule exI [of _ l], rule exI [of _ "last_in_slot (buffer_size l) (length es) i"])
      (use l get_entry_holds [OF l(2) assms(4,3)] last_in_slot_props [OF assms(4) n] in \<open>simp add: stored_def\<close>)
qed

definition log_config :: "nat \<Rightarrow> swarm_config" where
  "log_config n = default_swarm_config\<lparr>max_log_entries_before_compaction := n\<rparr>"

definition intact :: "u8 \<Rightarrow> log_entry" where
  "intact b = new_log_entry (\<lambda>_. 7) 0 0 1 NoOp [b]"

lemma intact_verified [simp]: "verify_integrity (\<lambda>_. 7) (intact b)"
  by (simp add: intact_def new_log_entry_def verify_integrity_def)

theorem log_index_reads_last_in_slot_witness:
  "\<exists>l j. append_all (\<lambda>_. 7) [intact 1, intact 2, intact 3] (new_raft_log (log_config 2)) = Inr l \<and>
     get_entry 0 l = Inr (Some (([intact 1, intact 2, intact 3] ! j)\<lparr>le_index := of_nat j\<rparr>)) \<and> j \<noteq> 0"
proof -
  let ?es = "[intact 1, intact 2, intact 3]" and ?l = "new_raft_log (log_config 2)"
  have "buffer_size ?l = 2" by (simp add: new_raft_log_def Let_def log_config_def MAX_LOG_ENTRIES_def)
  moreover have "log_holds [] ?l" by (rule log_holds_new) (simp add: log_config_def)
  ultimately have b: "buffer_size l = 2" if "append_all (\<lambda>_. 7) ?es ?l = Inr l" for l
    using append_all_holds [of "[]" ?l ?es "\<lambda>_. 7"] that by fastforce
  have h: "0 < max_log_entries_before_compaction (log_config 2)" "\<forall>e \<in> set ?es. verify_integrity (\<lambda>_. 7) e"
      "length ?es < 2 ^ 64" "0 < length ?es"
    by (simp_all add: log_config_def)
  obtain l j where l: "append_all (\<lambda>_. 7) ?es ?l = Inr l"
      "get_entry (of_nat 0) l = Inr (Some ((?es ! j)\<lparr>le_index := of_nat j\<rparr>))"
      "j = 0 \<longleftrightarrow> length ?es \<le> 0 + buffer_size l"
    using log_index_reads_last_in_slot [OF h] by blast
  have "j \<noteq> 0" using l(3) b [OF l(1)] by simp
  then show ?thesis using l(1,2) by (intro exI [of _ l] exI [of _ j]) simp
qed

section \<open>Commits\<close>

lemma commit_check_holds:
  assumes "log_holds es l" "\<forall>e \<in> set es. verify_integrity crc e"
  shows "\<forall>k \<in> set ks. k < length es \<Longrightarrow> commit_check crc l ks = Inr (Inr ())"
    and "buffer_size l \<le> length es \<Longrightarrow> commit_check crc l ks = Inr (Inr ())"
proof -
  let ?n = "buffer_size l"
  have n: "0 < ?n" using assms(1) by (simp add: log_holds_def)
  have slot: "\<exists>e. log_slots l ! (k mod ?n) = Some e \<and> verify_integrity crc e"
    if k: "k < length es \<or> ?n \<le> length es" for k
  proof -
    have "k mod ?n < length es"
      using k mod_less_divisor [OF n, of k] mod_less_eq_dividend [of k ?n] by linarith
    note j = last_in_slot_props [OF this n]
    let ?j = "last_in_slot ?n (length es) (k mod ?n)"
    have "log_slots l ! (?j mod ?n) = Some (stored es ?j)" using assms(1) j(1,2) by (simp add: log_holds_def)
    moreover have "?j mod ?n = k mod ?n" using j(3) by simp
    moreover have "verify_integrity crc (stored es ?j)"
      using assms(2) j(1) by (simp add: stored_def verify_integrity_def)
    ultimately show ?thesis by simp
  qed
  have all: "\<forall>k \<in> set ks. k < length es \<or> ?n \<le> length es \<Longrightarrow> commit_check crc l ks = Inr (Inr ())"
  proof (induction ks)
    case (Cons k ks)
    obtain e where "log_slots l ! (k mod ?n) = Some e" "verify_integrity crc e"
      using slot [of k] Cons.prems by auto
    then show ?case using n Cons by simp
  qed simp
  then show "\<forall>k \<in> set ks. k < length es \<Longrightarrow> commit_check crc l ks = Inr (Inr ())"
    and "?n \<le> length es \<Longrightarrow> commit_check crc l ks = Inr (Inr ())" by simp_all
qed

text \<open>Commits beyond the end.  In a log of intact entries every index up to the number of entries can
  be committed; and once the ring is full, so can every index at all, however many entries were
  written.\<close>

lemma full_log_commits_anything:
  assumes "0 < max_log_entries_before_compaction c" "\<forall>e \<in> set es. verify_integrity crc e" "length es < 2 ^ 64"
  shows "\<exists>l. append_all crc es (new_raft_log c) = Inr l \<and>
    (unat up_to \<le> length es \<or> buffer_size l \<le> length es \<longrightarrow>
       (\<exists>l'. commit_log crc up_to l = Inr (Inr (), l') \<and> up_to \<le> commit_index l'))"
proof -
  obtain l where l: "append_all crc es (new_raft_log c) = Inr l" "log_holds es l"
    using append_all_holds [OF log_holds_new [OF assms(1)] assms(2)] assms(3) by auto
  have "\<exists>l'. commit_log crc up_to l = Inr (Inr (), l') \<and> up_to \<le> commit_index l'"
    if "unat up_to \<le> length es \<or> buffer_size l \<le> length es"
    using commit_check_holds [OF l(2) assms(2), of "[unat (commit_index l)..<unat up_to]"] that
    by (auto simp: commit_log_def)
  then show ?thesis using l(1) by blast
qed

lemma full_log_commits_anything_example:
  "\<exists>l l'. append_all (\<lambda>_. 7) [intact 1, intact 2] (new_raft_log (log_config 2)) = Inr l \<and>
     commit_log (\<lambda>_. 7) 1000000 l = Inr (Inr (), l') \<and> 1000000 \<le> commit_index l'"
proof -
  let ?es = "[intact 1, intact 2]" and ?l = "new_raft_log (log_config 2)"
  have "buffer_size ?l = 2" by (simp add: new_raft_log_def Let_def log_config_def MAX_LOG_ENTRIES_def)
  moreover have "log_holds [] ?l" by (rule log_holds_new) (simp add: log_config_def)
  ultimately have b: "buffer_size l = 2" if "append_all (\<lambda>_. 7) ?es ?l = Inr l" for l
    using append_all_holds [of "[]" ?l ?es "\<lambda>_. 7"] that by auto
  show ?thesis
    using full_log_commits_anything [of "log_config 2" ?es "\<lambda>_. 7" 1000000] b
    by (fastforce simp: log_config_def)
qed

section \<open>Rejected entries and complete truncation\<close>

text \<open>A rejected entry hides a good one.  When an entry with a wrong checksum is offered first, its
  index is used up: the next intact entry is stored under index 1, but neither index 0 nor index 1
  reads it, and no commit that includes index 0 succeeds until the ring has wrapped.\<close>

lemma rejected_entry_hides_next:
  assumes "0 < max_log_entries_before_compaction c" "\<not> verify_integrity crc bad" "verify_integrity crc good"
  shows "\<exists>l1 l2. append_entry crc bad (new_raft_log c) =
      Inr (Inl (LogCorruption 0 ''CRC32 mismatch on append''), l1) \<and>
    append_entry crc good l1 = Inr (Inr 1, l2) \<and> get_entry 1 l2 = Inr None \<and>
    (1 < buffer_size l2 \<longrightarrow> get_entry 0 l2 = Inr None \<and>
       commit_log crc 2 l2 = Inr (Inl (LogCorruption 0 ''Missing entry on commit''), l2))"
proof -
  let ?n = "min (max_log_entries_before_compaction c) MAX_LOG_ENTRIES"
  let ?l1 = "(new_raft_log c)\<lparr>write_index := 1\<rparr>"
  let ?l2 = "?l1\<lparr>write_index := 2, log_slots := (replicate ?n None)[1 mod ?n := Some (good\<lparr>le_index := 1\<rparr>)],
      total_entries_written := 1\<rparr>"
  have n: "0 < ?n" using assms(1) by (simp add: MAX_LOG_ENTRIES_def)
  have min_ne: "?n \<noteq> Suc 0" if "1 < buffer_size ?l2"
    using that by (auto simp: new_raft_log_def Let_def min_def split: if_splits)
  have "append_entry crc bad (new_raft_log c) = Inr (Inl (LogCorruption 0 ''CRC32 mismatch on append''), ?l1)"
    using assms(2) n by (simp add: append_entry_def Let_def new_raft_log_def verify_integrity_def)
  moreover have "append_entry crc good ?l1 = Inr (Inr 1, ?l2)"
    using assms(3) n by (simp add: append_entry_def Let_def new_raft_log_def verify_integrity_def)
  moreover have "get_entry 1 ?l2 = Inr None" by (simp add: get_entry_def)
  moreover have "get_entry 0 ?l2 = Inr None" "commit_log crc 2 ?l2 =
      Inr (Inl (LogCorruption 0 ''Missing entry on commit''), ?l2)" if "1 < buffer_size ?l2"
    using that n min_ne [OF that] by (simp_all add: get_entry_def commit_log_def new_raft_log_def Let_def upt_conv_Cons)
  ultimately show ?thesis by blast
qed

lemma rejected_entry_hides_next_example:
  "\<exists>l1 l2. append_entry (\<lambda>_. 7) ((intact 1)\<lparr>le_crc32 := 8\<rparr>) (new_raft_log (log_config 10)) =
      Inr (Inl (LogCorruption 0 ''CRC32 mismatch on append''), l1) \<and>
    append_entry (\<lambda>_. 7) (intact 2) l1 = Inr (Inr 1, l2) \<and> get_entry 1 l2 = Inr None"
  using rejected_entry_hides_next [of "log_config 10" "\<lambda>_. 7" "(intact 1)\<lparr>le_crc32 := 8\<rparr>" "intact 2"]
  by (auto simp: log_config_def intact_def new_log_entry_def verify_integrity_def)

text \<open>After a truncation of everything, the next entry gets index 0 again.\<close>

lemma truncation_restarts_indices:
  assumes "truncate_before (total_entries_written l) l = Inr l'" "0 < buffer_size l'" "verify_integrity crc e"
  shows "\<exists>l''. append_entry crc e l' = Inr (Inr 0, l'')"
  using assms by (auto simp: truncate_before_def Let_def append_entry_def verify_integrity_def split: sum.splits)

end
