(* ===== verification/Fence_Executor.thy ===== *)
theory Fence_Executor
  imports Swarm_Types
begin

text \<open>
  The executor that asks the witnesses to cut off the last leader,
  \<open>crates/nexus_swarm/src/fencing/stonith_executor.rs\<close>, which the engine calls before it takes over.
  What a witness answers to an HTTP request is an argument, a function of its URL.  The theory shows
  that the test of the executor's flag is inverted, so that every other call is refused, and what a call
  that is carried out has heard from the witnesses.
\<close>

section \<open>The executor\<close>

datatype fencing_result = FenceSuccess | FenceAlreadyDead | FenceTimeout | FenceFailed

text \<open>A witness answers with a success status, with any other status, or not at all.\<close>

datatype witness_answer = HttpSuccess | HttpOtherStatus | NoAnswer

record fencer =
  fx_stonith_enabled :: bool
  fx_witness_urls :: "string list"
  fx_last_fence_term :: u64
  fx_last_fence_success :: bool
  fx_fencing_in_progress :: bool

definition new_fencer :: "swarm_config \<Rightarrow> fencer" where
  "new_fencer c =
     \<lparr>fx_stonith_enabled = stonith_enabled c, fx_witness_urls = quorum_witness_urls c, fx_last_fence_term = 0,
      fx_last_fence_success = False, fx_fencing_in_progress = False\<rparr>"

definition fence_via_witness :: "(string \<Rightarrow> witness_answer) \<Rightarrow> string \<Rightarrow> unit + bool" where
  "fence_via_witness answers url =
     (case answers url of HttpSuccess \<Rightarrow> Inr True | HttpOtherStatus \<Rightarrow> Inr False | NoAnswer \<Rightarrow> Inl ())"

definition count_results :: "unit + bool \<Rightarrow> (string \<Rightarrow> witness_answer) \<Rightarrow> string list \<Rightarrow> nat" where
  "count_results r answers urls = length (filter (\<lambda>u. fence_via_witness answers u = r) urls)"

definition execute_fence_internal :: "(string \<Rightarrow> witness_answer) \<Rightarrow> fencer \<Rightarrow> fencing_result" where
  "execute_fence_internal answers f =
     (if \<not> fx_stonith_enabled f then FenceSuccess
      else
        let urls = fx_witness_urls f;
            success_count = count_results (Inr True) answers urls;
            failure_count = count_results (Inr False) answers urls;
            timeout_count = count_results (Inl ()) answers urls;
            required_witnesses = length urls div 2 + 1 in
        if timeout_count > 0 then FenceTimeout
        else if success_count \<ge> required_witnesses then FenceSuccess
        else if failure_count \<ge> required_witnesses then FenceAlreadyDead
        else FenceFailed)"

text \<open>
  \<open>compare_exchange(false, true)\<close>: on success \<open>Ok\<close> of the value before, which is \<open>false\<close>; on failure
  \<open>Err\<close> of the value found.
\<close>

definition exchange_in_progress :: "fencer \<Rightarrow> (bool + bool) \<times> fencer" where
  "exchange_in_progress f =
     (if fx_fencing_in_progress f = False then (Inr False, f\<lparr>fx_fencing_in_progress := True\<rparr>)
      else (Inl (fx_fencing_in_progress f), f))"

definition unwrap_or :: "'a \<Rightarrow> 'e + 'a \<Rightarrow> 'a" where
  "unwrap_or d r = (case r of Inl _ \<Rightarrow> d | Inr x \<Rightarrow> x)"

definition execute_fence ::
  "(string \<Rightarrow> witness_answer) \<Rightarrow> u64 \<Rightarrow> u64 \<Rightarrow> fencer \<Rightarrow> (consensus_error + fencing_result) \<times> fencer"
where
  "execute_fence answers previous_term requestor_id f =
     (case exchange_in_progress f of
        (r, f1) \<Rightarrow>
          if \<not> unwrap_or True r then (Inl (StonithFailed ''Fencing already in progress''), f1)
          else
            let res = execute_fence_internal answers f1;
                f2 = f1\<lparr>fx_fencing_in_progress := False\<rparr> in
            case res of
              FenceSuccess \<Rightarrow>
                (Inr FenceSuccess, f2\<lparr>fx_last_fence_term := previous_term, fx_last_fence_success := True\<rparr>)
            | FenceAlreadyDead \<Rightarrow>
                (Inr FenceAlreadyDead, f2\<lparr>fx_last_fence_term := previous_term, fx_last_fence_success := True\<rparr>)
            | FenceTimeout \<Rightarrow>
                (Inl (StonithFailed ''Fencing returned Timeout - MUST HALT TRADING''), f2\<lparr>fx_last_fence_success := False\<rparr>)
            | FenceFailed \<Rightarrow>
                (Inl (StonithFailed ''Fencing returned Failed - MUST HALT TRADING''), f2\<lparr>fx_last_fence_success := False\<rparr>))"

definition was_fencing_successful :: "u64 \<Rightarrow> fencer \<Rightarrow> bool" where
  "was_fencing_successful trm f \<longleftrightarrow> fx_last_fence_term f = trm \<and> fx_last_fence_success f"

definition reset_fencer :: "fencer \<Rightarrow> fencer" where
  "reset_fencer f =
     f\<lparr>fx_last_fence_term := 0, fx_last_fence_success := False, fx_fencing_in_progress := False\<rparr>"

subsection \<open>The test of the flag is inverted\<close>

lemma fence_refused_when_free:
  "\<not> fx_fencing_in_progress f \<Longrightarrow>
   execute_fence answers t n f =
     (Inl (StonithFailed ''Fencing already in progress''), f\<lparr>fx_fencing_in_progress := True\<rparr>)"
  by (simp add: execute_fence_def exchange_in_progress_def unwrap_or_def)

lemma fence_runs_when_taken:
  assumes "fx_fencing_in_progress f"
  shows "\<not> fx_fencing_in_progress (snd (execute_fence answers t n f))"
    "(\<exists>r. fst (execute_fence answers t n f) = Inr r) \<longleftrightarrow>
       execute_fence_internal answers f = FenceSuccess \<or> execute_fence_internal answers f = FenceAlreadyDead"
    "(\<exists>r. fst (execute_fence answers t n f) = Inr r) \<Longrightarrow>
       was_fencing_successful t (snd (execute_fence answers t n f))"
  using assms
  by (auto simp: execute_fence_def exchange_in_progress_def unwrap_or_def Let_def was_fencing_successful_def
      split: fencing_result.splits)

text \<open>Calls in sequence, from the second on every other one is carried out.\<close>

fun fence_calls :: "(string \<Rightarrow> witness_answer) list \<Rightarrow> u64 \<Rightarrow> u64 \<Rightarrow> fencer \<Rightarrow> (consensus_error + fencing_result) list" where
  "fence_calls [] t n f = []"
| "fence_calls (a # as) t n f =
     (case execute_fence a t n f of (r, f') \<Rightarrow> r # fence_calls as t n f')"

lemma length_fence_calls [simp]: "length (fence_calls as t n f) = length as"
  by (induction as arbitrary: f) (auto split: prod.split)

lemma fence_calls_alternate:
  assumes "i < length as" "even i \<longleftrightarrow> \<not> fx_fencing_in_progress f"
  shows "fence_calls as t n f ! i = Inl (StonithFailed ''Fencing already in progress'')"
  using assms
proof (induction as arbitrary: i f)
  case Nil
  then show ?case by simp
next
  case (Cons a as)
  show ?case
  proof (cases i)
    case 0
    then show ?thesis using Cons.prems(2) by (simp add: fence_refused_when_free)
  next
    case (Suc j)
    obtain r f' where e: "execute_fence a t n f = (r, f')" by (cases "execute_fence a t n f")
    have "fx_fencing_in_progress f' \<longleftrightarrow> \<not> fx_fencing_in_progress f"
      using fence_refused_when_free [of f a t n] fence_runs_when_taken(1) [of f a t n] e by auto
    then show ?thesis
      using Cons.IH [of j f'] Cons.prems Suc e by simp
  qed
qed

subsection \<open>What the witnesses decide\<close>

lemma count_results_total:
  "count_results (Inr True) a us + count_results (Inr False) a us + count_results (Inl ()) a us = length us"
  by (induction us) (auto simp: count_results_def fence_via_witness_def split: witness_answer.split)

text \<open>Witnesses that all refuse, with whatever error status, make the target count as dead.\<close>

lemma refusals_count_as_dead:
  assumes "fx_stonith_enabled f" "fx_witness_urls f \<noteq> []" "\<forall>u \<in> set (fx_witness_urls f). answers u = HttpOtherStatus"
  shows "execute_fence_internal answers f = FenceAlreadyDead"
proof -
  let ?us = "fx_witness_urls f"
  have ok: "count_results (Inr True) answers ?us = 0" and no: "count_results (Inl ()) answers ?us = 0"
    using assms(3) by (auto simp: count_results_def fence_via_witness_def filter_empty_conv)
  then have "count_results (Inr False) answers ?us = length ?us"
    using count_results_total [of answers ?us] by simp
  moreover have "length ?us div 2 + 1 \<le> length ?us"
    using assms(2) by (cases ?us) auto
  ultimately show ?thesis
    using assms(1) ok no by (simp add: execute_fence_internal_def Let_def)
qed

text \<open>A fencing that succeeds has heard from every witness, and a majority of them either cut the leader
  off or all took it for dead.\<close>

definition witnesses_agree :: "(string \<Rightarrow> witness_answer) \<Rightarrow> string list \<Rightarrow> bool" where
  "witnesses_agree answers urls \<longleftrightarrow>
     (\<forall>u\<in>set urls. answers u \<noteq> NoAnswer) \<and>
     (\<exists>a\<in>{HttpSuccess, HttpOtherStatus}. length urls div 2 < length (filter (\<lambda>u. answers u = a) urls))"

lemma count_results_answers:
  "count_results (Inr True) answers us = length (filter (\<lambda>u. answers u = HttpSuccess) us)"
  "count_results (Inr False) answers us = length (filter (\<lambda>u. answers u = HttpOtherStatus) us)"
  "count_results (Inl ()) answers us = 0 \<longleftrightarrow> (\<forall>u\<in>set us. answers u \<noteq> NoAnswer)"
  unfolding count_results_def fence_via_witness_def
  by (induction us) (auto split: witness_answer.split)

lemma fenced_means_agreement:
  "fx_stonith_enabled f \<Longrightarrow>
   execute_fence_internal answers f = FenceSuccess \<or> execute_fence_internal answers f = FenceAlreadyDead \<longleftrightarrow>
     witnesses_agree answers (fx_witness_urls f)"
  using count_results_answers [of answers "fx_witness_urls f"]
  by (auto simp: execute_fence_internal_def Let_def witnesses_agree_def Suc_le_eq)

lemma fencer_config_kept [simp]:
  "fx_stonith_enabled (snd (execute_fence answers t n f)) = fx_stonith_enabled f"
  "fx_witness_urls (snd (execute_fence answers t n f)) = fx_witness_urls f"
  by (auto simp: execute_fence_def exchange_in_progress_def Let_def split: fencing_result.split)

text \<open>What a successful call means: the flag was taken by an earlier call, the witnesses agree, and the
  term is recorded.\<close>

lemma fence_succeeds_iff:
  "(\<exists>r. fst (execute_fence answers t n f) = Inr r) \<longleftrightarrow>
     fx_fencing_in_progress f \<and> (fx_stonith_enabled f \<longrightarrow> witnesses_agree answers (fx_witness_urls f))"
proof (cases "fx_fencing_in_progress f")
  case True
  have "\<not> fx_stonith_enabled f \<Longrightarrow> execute_fence_internal answers f = FenceSuccess"
    by (simp add: execute_fence_internal_def)
  then show ?thesis
    using True fence_runs_when_taken(2) [OF True] fenced_means_agreement by blast
next
  case False
  then show ?thesis by (simp add: fence_refused_when_free)
qed

end
