(* ===== verification/Swarm_Engine.thy ===== *)
theory Swarm_Engine
  imports Leader_Election Leader_Lease Raft_Log Fence_Executor
begin

text \<open>
  The heartbeat monitor, \<open>crates/nexus_swarm/src/raft/heartbeat_monitor.rs\<close>, and the engine that
  puts monitor, election, lease, log and the fencing executor together,
  \<open>crates/nexus_swarm/src/raft/mod.rs\<close>.  Clock readings are arguments, and so is what the witnesses
  answer to the executor, a function of their URLs.  The engine never renews its
  lease by itself.  The theory shows when the engine lets orders be executed, that an engine which
  has never heard of a leader never starts an election, and that no election is needed to lead.
\<close>

section \<open>Heartbeat monitor\<close>

record heartbeat_monitor =
  hm_node :: u64
  last_heartbeat :: "u64 \<rightharpoonup> instant"
  hm_leader :: "u64 option"
  hm_term :: u64
  election_timeout :: nat
  heartbeat_interval :: nat
  missed_heartbeat_count :: u32
  max_missed_heartbeats :: u32

definition ms :: "u64 \<Rightarrow> nat" where "ms n = unat n * 1000000"

definition new_monitor :: "swarm_config \<Rightarrow> heartbeat_monitor" where
  "new_monitor c =
     \<lparr>hm_node = cf_node_id c, last_heartbeat = Map.empty, hm_leader = None, hm_term = 0,
      election_timeout = ms (election_timeout_ms c), heartbeat_interval = ms (heartbeat_interval_ms c),
      missed_heartbeat_count = 0, max_missed_heartbeats = 3\<rparr>"

definition record_heartbeat :: "instant \<Rightarrow> u64 \<Rightarrow> u64 \<Rightarrow> heartbeat_monitor \<Rightarrow> heartbeat_monitor" where
  "record_heartbeat now leader_id trm h =
     (if trm \<ge> hm_term h
      then h\<lparr>hm_term := trm, hm_leader := Some leader_id,
             last_heartbeat := (last_heartbeat h)(leader_id \<mapsto> now), missed_heartbeat_count := 0\<rparr>
      else h)"

definition check_leader_timeout :: "instant \<Rightarrow> heartbeat_monitor \<Rightarrow> bool \<times> heartbeat_monitor" where
  "check_leader_timeout now h =
     (case hm_leader h of
        None \<Rightarrow> (False, h)
      | Some leader_id \<Rightarrow>
          (case last_heartbeat h leader_id of
             None \<Rightarrow> (False, h)
           | Some beat \<Rightarrow>
               if now - beat > election_timeout h then
                 let h1 = h\<lparr>missed_heartbeat_count := missed_heartbeat_count h + 1\<rparr>
                 in if missed_heartbeat_count h1 \<ge> max_missed_heartbeats h1
                    then (True, h1\<lparr>hm_leader := None\<rparr>) else (False, h1)
               else (False, h\<lparr>missed_heartbeat_count := 0\<rparr>)))"

definition reset_monitor :: "u64 \<Rightarrow> heartbeat_monitor \<Rightarrow> heartbeat_monitor" where
  "reset_monitor trm h =
     h\<lparr>hm_term := trm, hm_leader := None, missed_heartbeat_count := 0, last_heartbeat := Map.empty\<rparr>"

definition create_heartbeat :: "u64 \<Rightarrow> heartbeat_monitor \<Rightarrow> raft_message option" where
  "create_heartbeat trm h =
     (if hm_leader h = Some (hm_node h) then Some (Heartbeat trm (hm_node h)) else None)"

definition process_heartbeat_response :: "instant \<Rightarrow> u64 \<Rightarrow> u64 \<Rightarrow> heartbeat_monitor \<Rightarrow> heartbeat_monitor" where
  "process_heartbeat_response now follower_id trm h =
     (if trm \<ge> hm_term h \<and> hm_leader h = Some (hm_node h)
      then h\<lparr>last_heartbeat := (last_heartbeat h)(follower_id \<mapsto> now)\<rparr> else h)"

section \<open>Engine\<close>

record engine =
  en_config :: swarm_config
  en_node :: u64
  en_state :: node_state
  en_term :: u64
  en_leader :: "u64 option"
  en_election :: election
  en_monitor :: heartbeat_monitor
  en_log :: raft_log
  en_lease :: "lease_token option"
  en_fencer :: "fencer option"
  last_heartbeat_sent :: instant
  last_election_time :: "instant option"

definition new_engine :: "instant \<Rightarrow> swarm_config \<Rightarrow> engine" where
  "new_engine now c =
     \<lparr>en_config = c, en_node = cf_node_id c, en_state = Follower, en_term = 0, en_leader = None,
      en_election = new_election c, en_monitor = new_monitor c, en_log = new_raft_log c, en_lease = None,
      en_fencer = (if stonith_enabled c then Some (new_fencer c) else None), last_heartbeat_sent = now, last_election_time = None\<rparr>"

definition send_heartbeats :: "instant \<Rightarrow> engine \<Rightarrow> engine" where
  "send_heartbeats now e =
     (if now - last_heartbeat_sent e < ms (heartbeat_interval_ms (en_config e)) then e
      else e\<lparr>last_heartbeat_sent := now, en_term := hm_term (en_monitor e)\<rparr>)"

definition engine_start_election :: "instant \<Rightarrow> engine \<Rightarrow> engine" where
  "engine_start_election now e =
     (let e1 = e\<lparr>last_election_time := Some now\<rparr>;
          e2 = e1\<lparr>en_election := snd (start_election (en_election e1))\<rparr>;
          e3 = e2\<lparr>en_state := Candidate, en_term := el_term (en_election e2)\<rparr>
      in e3\<lparr>en_monitor := reset_monitor (en_term e3) (en_monitor e3)\<rparr>)"

definition process_heartbeats :: "instant \<Rightarrow> engine \<Rightarrow> (consensus_error + unit) \<times> engine" where
  "process_heartbeats now e =
     (case en_state e of
        Leader \<Rightarrow> (Inr (), send_heartbeats now e)
      | NodeTerminated \<Rightarrow> (Inl KamikazeInitiated, e)
      | _ \<Rightarrow>
          (case check_leader_timeout now (en_monitor e) of
             (timed_out, m) \<Rightarrow>
               let e1 = e\<lparr>en_monitor := m\<rparr>
               in (Inr (), if timed_out then engine_start_election now e1 else e1)))"

definition become_leader ::
  "(string \<Rightarrow> witness_answer) \<Rightarrow> u64 \<Rightarrow> engine \<Rightarrow> (consensus_error + unit) \<times> engine" where
  "become_leader answers now e =
     (if en_state e \<noteq> Candidate \<and> en_state e \<noteq> Follower then (Inl (NotLeader (en_node e)), e)
      else
        let e1 = e\<lparr>en_state := Leader, en_leader := Some (en_node e), en_term := el_term (en_election e)\<rparr>;
            (fenced, e2) =
              (case en_fencer e1 of
                 None \<Rightarrow> (Inr (), e1)
               | Some fencer \<Rightarrow>
                   (case execute_fence answers (saturating_sub (en_term e1) 1) (en_node e1) fencer of
                      (r, fencer') \<Rightarrow> (map_sum id (\<lambda>_. ()) r, e1\<lparr>en_fencer := Some fencer'\<rparr>)))
        in case fenced of
             Inl err \<Rightarrow> (Inl err, e2)
           | Inr _ \<Rightarrow>
               (Inr (), e2\<lparr>en_lease := Some (new_lease now (en_node e2) (en_term e2)
                  (lease_duration_ms (en_config e2) * 1000000))\<rparr>))"

definition step_down :: "u64 \<Rightarrow> engine \<Rightarrow> engine" where
  "step_down new_term e =
     e\<lparr>en_state := Follower, en_term := new_term, en_leader := None, en_lease := None,
       en_monitor := reset_monitor new_term (en_monitor e)\<rparr>"

definition can_execute_trades :: "u64 \<Rightarrow> engine \<Rightarrow> bool" where
  "can_execute_trades now e =
     (en_state e = Leader \<and> (case en_lease e of None \<Rightarrow> False | Some t \<Rightarrow> lease_valid now t))"

definition append_log_entry ::
  "(u8 list \<Rightarrow> u32) \<Rightarrow> log_entry \<Rightarrow> engine \<Rightarrow> panic + (consensus_error + u64) \<times> engine" where
  "append_log_entry crc entry e =
     (if en_state e \<noteq> Leader then Inr (Inl (NotLeader (en_node e)), e)
      else map_sum id (\<lambda>(r, l). (r, e\<lparr>en_log := l\<rparr>)) (append_entry crc entry (en_log e)))"

definition commit_entries ::
  "(u8 list \<Rightarrow> u32) \<Rightarrow> u64 \<Rightarrow> engine \<Rightarrow> panic + (consensus_error + unit) \<times> engine" where
  "commit_entries crc up_to e =
     (if en_state e \<noteq> Leader then Inr (Inl (NotLeader (en_node e)), e)
      else map_sum id (\<lambda>(r, l). (r, e\<lparr>en_log := l\<rparr>)) (commit_log crc up_to (en_log e)))"

section \<open>Elections that never start\<close>

text \<open>A cluster that starts never elects.  An engine that has not been told of a leader never starts an
  election: however often and late its heartbeats are processed, it stays a follower of term 0.
  And a candidate never starts another one, for the start of an election makes it forget the
  leader.\<close>

lemma silent_engine_never_elects:
  fixes start_time :: instant and times :: "instant list"
  shows "fold (\<lambda>now e. snd (process_heartbeats now e)) times (new_engine start_time c) = new_engine start_time c \<and>
    fold (\<lambda>now e. snd (process_heartbeats now e)) times (engine_start_election start_time e) =
      engine_start_election start_time e"
proof -
  have still: "snd (process_heartbeats now e) = e"
    if "hm_leader (en_monitor e) = None" "en_state e = Follower \<or> en_state e = Candidate" for e now
    using that by (auto simp: process_heartbeats_def check_leader_timeout_def)
  have "fold (\<lambda>now e. snd (process_heartbeats now e)) times e = e"
    if "hm_leader (en_monitor e) = None" "en_state e = Follower \<or> en_state e = Candidate" for e
    using that by (induction times) (simp_all add: still)
  then show ?thesis
    by (simp add: new_engine_def new_monitor_def engine_start_election_def reset_monitor_def Let_def)
qed

section \<open>Who may execute trades\<close>

datatype engine_event =
    ProcessHeartbeats instant
  | RecordHeartbeat instant u64 u64
  | BecomeLeader "string \<Rightarrow> witness_answer" u64
  | StepDownTo u64
  | AppendLog log_entry
  | CommitLog u64

fun engine_step :: "(u8 list \<Rightarrow> u32) \<Rightarrow> engine_event \<Rightarrow> engine \<Rightarrow> engine" where
  "engine_step crc (ProcessHeartbeats now) e = snd (process_heartbeats now e)"
| "engine_step crc (RecordHeartbeat now n trm) e =
     e\<lparr>en_monitor := record_heartbeat now n trm (en_monitor e)\<rparr>"
| "engine_step crc (BecomeLeader answers now) e = snd (become_leader answers now e)"
| "engine_step crc (StepDownTo trm) e = step_down trm e"
| "engine_step crc (AppendLog entry) e =
     (case append_log_entry crc entry e of Inl _ \<Rightarrow> e | Inr (_, e') \<Rightarrow> e')"
| "engine_step crc (CommitLog i) e =
     (case commit_entries crc i e of Inl _ \<Rightarrow> e | Inr (_, e') \<Rightarrow> e')"

definition engine_run :: "(u8 list \<Rightarrow> u32) \<Rightarrow> engine_event list \<Rightarrow> instant \<Rightarrow> swarm_config \<Rightarrow> engine" where
  "engine_run crc es t0 c = fold (engine_step crc) es (new_engine t0 c)"

lemma engine_run_snoc: "engine_run crc (es @ [ev]) t0 c = engine_step crc ev (engine_run crc es t0 c)"
  by (simp add: engine_run_def)

lemma engine_run_Nil [simp]: "engine_run crc [] t0 c = new_engine t0 c"
  by (simp add: engine_run_def)

text \<open>
  The part of the engine that the lease rests on: no event but a takeover and a step down touches it.
\<close>

definition same_lease :: "engine \<Rightarrow> engine \<Rightarrow> bool" where
  "same_lease e e' \<longleftrightarrow>
     en_config e' = en_config e \<and> en_node e' = en_node e \<and> en_fencer e' = en_fencer e \<and> en_lease e' = en_lease e \<and>
     (en_state e = Leader \<longrightarrow> en_state e' = Leader)"

lemma engine_step_same_lease:
  assumes "\<forall>a now. ev \<noteq> BecomeLeader a now" "\<forall>trm. ev \<noteq> StepDownTo trm"
  shows "same_lease e (engine_step crc ev e)"
  using assms
  by (cases ev)
    (auto simp: same_lease_def process_heartbeats_def send_heartbeats_def engine_start_election_def Let_def
      append_log_entry_def commit_entries_def map_sum_def split: node_state.split prod.split sum.split)

text \<open>
  A takeover at which the executor was told to cut off the leader of the term before the one of the
  lease, and did.
\<close>

definition fenced_takeover :: "(string \<Rightarrow> witness_answer) \<Rightarrow> engine \<Rightarrow> bool" where
  "fenced_takeover answers e \<longleftrightarrow>
     (case en_fencer e of
        None \<Rightarrow> True
      | Some f \<Rightarrow>
          \<exists>r. fst (execute_fence answers (saturating_sub (el_term (en_election e)) 1) (en_node e) f) = Inr r)"

lemma become_leader_cases:
  assumes "become_leader answers now e = (r, e')"
  shows "(en_state e \<noteq> Candidate \<and> en_state e \<noteq> Follower \<and> e' = e) \<or>
    ((en_state e = Candidate \<or> en_state e = Follower) \<and> en_state e' = Leader \<and> en_config e' = en_config e \<and>
     en_node e' = en_node e \<and>
     en_fencer e' = map_option (\<lambda>f. snd (execute_fence answers (saturating_sub (el_term (en_election e)) 1) (en_node e) f)) (en_fencer e) \<and>
     en_lease e' = (if fenced_takeover answers e
       then Some (new_lease now (en_node e) (el_term (en_election e)) (lease_duration_ms (en_config e) * 1000000))
       else en_lease e))"
proof (cases "en_state e \<noteq> Candidate \<and> en_state e \<noteq> Follower")
  case True
  then show ?thesis using assms by (simp add: become_leader_def)
next
  case False
  show ?thesis
  proof (cases "en_fencer e")
    case None
    then show ?thesis using assms False by (auto simp: become_leader_def Let_def fenced_takeover_def)
  next
    case (Some f)
    obtain x f' where x: "execute_fence answers (saturating_sub (el_term (en_election e)) 1) (en_node e) f = (x, f')"
      by (cases "execute_fence answers (saturating_sub (el_term (en_election e)) 1) (en_node e) f")
    show ?thesis
      using assms False Some x by (cases x) (auto simp: become_leader_def Let_def fenced_takeover_def)
  qed
qed

definition lease_invariant ::
  "(u8 list \<Rightarrow> u32) \<Rightarrow> instant \<Rightarrow> swarm_config \<Rightarrow> engine_event list \<Rightarrow> engine \<Rightarrow> bool" where
  "lease_invariant crc t0 c es e \<longleftrightarrow>
     en_config e = c \<and> en_node e = cf_node_id c \<and>
     (stonith_enabled c \<longrightarrow>
        (\<exists>f. en_fencer e = Some f \<and> fx_stonith_enabled f \<and> fx_witness_urls f = quorum_witness_urls c \<and>
           (fx_fencing_in_progress f \<longrightarrow> (\<exists>a now. BecomeLeader a now \<in> set es)))) \<and>
     (\<forall>t. en_lease e = Some t \<longrightarrow> en_state e = Leader \<and>
        (\<exists>es1 answers now es2.
           es = es1 @ BecomeLeader answers now # es2 \<and> (\<forall>trm. StepDownTo trm \<notin> set es2) \<and>
           t = new_lease now (cf_node_id c) (el_term (en_election (engine_run crc es1 t0 c)))
                 (lease_duration_ms c * 1000000) \<and>
           fenced_takeover answers (engine_run crc es1 t0 c)))"

lemma lease_invariant_frame:
  assumes "lease_invariant crc t0 c es e" "same_lease e e'" "\<forall>trm. ev \<noteq> StepDownTo trm"
  shows "lease_invariant crc t0 c (es @ [ev]) e'"
proof -
  have "\<exists>es1 answers now es2'. es @ [ev] = es1 @ BecomeLeader answers now # es2' \<and> (\<forall>trm. StepDownTo trm \<notin> set es2') \<and>
      t = new_lease now (cf_node_id c) (el_term (en_election (engine_run crc es1 t0 c))) (lease_duration_ms c * 1000000) \<and>
      fenced_takeover answers (engine_run crc es1 t0 c)"
    if l: "en_lease e' = Some t" for t
  proof -
    obtain es1 answers now es2 where "es = es1 @ BecomeLeader answers now # es2" "\<forall>trm. StepDownTo trm \<notin> set es2"
      and rest: "t = new_lease now (cf_node_id c) (el_term (en_election (engine_run crc es1 t0 c))) (lease_duration_ms c * 1000000)"
        "fenced_takeover answers (engine_run crc es1 t0 c)"
      using assms(1,2) l unfolding lease_invariant_def same_lease_def by metis
    then have "es @ [ev] = es1 @ BecomeLeader answers now # (es2 @ [ev])" "\<forall>trm. StepDownTo trm \<notin> set (es2 @ [ev])"
      using assms(3) by auto
    with rest show ?thesis by blast
  qed
  with assms(1,2) show ?thesis
    unfolding lease_invariant_def same_lease_def by auto
qed

lemma lease_invariant_takeover:
  assumes inv: "lease_invariant crc t0 c es (engine_run crc es t0 c)"
  shows "lease_invariant crc t0 c (es @ [BecomeLeader answers now]) (engine_run crc (es @ [BecomeLeader answers now]) t0 c)"
proof -
  let ?e = "engine_run crc es t0 c" and ?ev = "BecomeLeader answers now"
  obtain r e' where b: "become_leader answers now ?e = (r, e')" by (cases "become_leader answers now ?e")
  have e': "engine_run crc (es @ [?ev]) t0 c = e'" using b by (simp add: engine_run_snoc)
  show ?thesis
  proof (cases "e' = ?e")
    case True
    then show ?thesis
      using lease_invariant_frame [OF inv, of ?e ?ev] e' by (simp add: same_lease_def)
  next
    case False
    then have st: "en_state ?e = Candidate \<or> en_state ?e = Follower" "en_state e' = Leader"
      and cf: "en_config e' = en_config ?e" "en_node e' = en_node ?e"
      and fx: "en_fencer e' = map_option (\<lambda>f. snd (execute_fence answers (saturating_sub (el_term (en_election ?e)) 1) (en_node ?e) f)) (en_fencer ?e)"
      and le: "en_lease e' = (if fenced_takeover answers ?e
        then Some (new_lease now (en_node ?e) (el_term (en_election ?e)) (lease_duration_ms (en_config ?e) * 1000000))
        else en_lease ?e)"
      using become_leader_cases [OF b] by simp_all
    have none: "en_lease ?e = None"
      using inv st(1) unfolding lease_invariant_def by (metis node_state.distinct(3,7) option.exhaust)
    have "\<exists>es1 a n es2. es @ [?ev] = es1 @ BecomeLeader a n # es2 \<and> (\<forall>trm. StepDownTo trm \<notin> set es2) \<and>
        t = new_lease n (cf_node_id c) (el_term (en_election (engine_run crc es1 t0 c))) (lease_duration_ms c * 1000000) \<and>
        fenced_takeover a (engine_run crc es1 t0 c)" if "en_lease e' = Some t" for t
      using that le none inv
      by (intro exI [of _ es] exI [of _ answers] exI [of _ now] exI [of _ "[]"])
        (auto simp: lease_invariant_def split: if_splits)
    moreover have "stonith_enabled c \<longrightarrow> (\<exists>f. en_fencer e' = Some f \<and> fx_stonith_enabled f \<and>
        fx_witness_urls f = quorum_witness_urls c \<and> (fx_fencing_in_progress f \<longrightarrow> (\<exists>a now. BecomeLeader a now \<in> set (es @ [?ev]))))"
    proof (rule impI)
      assume "stonith_enabled c"
      then obtain f where "en_fencer ?e = Some f" "fx_stonith_enabled f" "fx_witness_urls f = quorum_witness_urls c"
        using inv unfolding lease_invariant_def by blast
      moreover have "\<exists>a now. BecomeLeader a now \<in> set (es @ [?ev])" by (intro exI [of _ answers] exI [of _ now]) simp
      ultimately show "\<exists>f. en_fencer e' = Some f \<and> fx_stonith_enabled f \<and>
          fx_witness_urls f = quorum_witness_urls c \<and> (fx_fencing_in_progress f \<longrightarrow> (\<exists>a now. BecomeLeader a now \<in> set (es @ [?ev])))"
        using fx by (simp only: option.map fencer_config_kept) simp
    qed
    moreover have "en_config e' = c" "en_node e' = cf_node_id c"
      using inv cf unfolding lease_invariant_def by simp_all
    ultimately show ?thesis
      using st(2) unfolding e' lease_invariant_def by blast
  qed
qed

lemma lease_invariant_run: "lease_invariant crc t0 c es (engine_run crc es t0 c)"
proof (induction es rule: rev_induct)
  case Nil
  show ?case by (simp add: lease_invariant_def new_engine_def new_fencer_def)
next
  case (snoc ev es)
  consider answers now where "ev = BecomeLeader answers now" | trm where "ev = StepDownTo trm"
    | "\<forall>a now. ev \<noteq> BecomeLeader a now" "\<forall>trm. ev \<noteq> StepDownTo trm"
    by blast
  then show ?case
  proof cases
    case 1
    then show ?thesis using lease_invariant_takeover [OF snoc] by simp
  next
    case (2 trm)
    then show ?thesis using snoc by (auto simp: engine_run_snoc step_down_def lease_invariant_def)
  next
    case 3
    then show ?thesis
      using lease_invariant_frame [OF snoc engine_step_same_lease [OF 3]] by (simp add: engine_run_snoc)
  qed
qed


definition fenced_config :: swarm_config where
  "fenced_config = default_swarm_config\<lparr>quorum_witness_urls := [''w1'', ''w2'', ''w3'']\<rparr>"

text \<open>The first takeover is refused; after stepping down the second one is carried out.\<close>

definition second_takeover :: "engine_event list" where
  "second_takeover = [BecomeLeader (\<lambda>_. HttpSuccess) 5, StepDownTo 1, BecomeLeader (\<lambda>_. HttpSuccess) 7]"

lemma second_takeover_trades: "can_execute_trades 9 (engine_run (\<lambda>_. 7) second_takeover 0 fenced_config)"
  by (simp add: second_takeover_def engine_run_def can_execute_trades_def become_leader_def new_engine_def
      fenced_config_def default_swarm_config_def Let_def lease_valid_def new_lease_def step_down_def new_fencer_def
      execute_fence_def exchange_in_progress_def unwrap_or_def execute_fence_internal_def count_results_def
      fence_via_witness_def)


text \<open>Leading takes no election.  An engine that has just been created without fencing, that has voted for
  nobody and received no votes, becomes the leader on request, of term 0, and lets trades be executed; so
  do several nodes of one cluster at once.  If the fencing fails, it is the leader all the same: it
  appends to the log, although it may not execute trades.\<close>

lemma follower_leads_without_votes:
  assumes "\<not> stonith_enabled c" "now < now + lease_duration_ms c * 1000000"
  shows "\<exists>e. become_leader answers now (new_engine t0 c) = (Inr (), e) \<and>
    can_execute_trades now e \<and> en_term e = 0 \<and> votes_received (en_election e) = [] \<and>
    voted_for (en_election e) = None"
  using assms
  by (auto simp: become_leader_def new_engine_def Let_def can_execute_trades_def lease_valid_def new_lease_def
      new_election_def)

lemma follower_leads_without_votes_example:
  "\<exists>e. become_leader (\<lambda>_. NoAnswer) 5 (new_engine 0 (default_swarm_config\<lparr>stonith_enabled := False\<rparr>)) = (Inr (), e) \<and>
     can_execute_trades 5 e \<and> votes_received (en_election e) = []"
  using follower_leads_without_votes [of "default_swarm_config\<lparr>stonith_enabled := False\<rparr>" 5 "\<lambda>_. NoAnswer" 0]
  by (fastforce simp: default_swarm_config_def)

lemma failed_fencing_leaves_leader:
  assumes "stonith_enabled c"
  shows "\<exists>e. become_leader answers now (new_engine t0 c) = (Inl (StonithFailed ''Fencing already in progress''), e) \<and>
     en_state e = Leader \<and> \<not> can_execute_trades now e"
  using assms
  by (simp add: become_leader_def new_engine_def Let_def can_execute_trades_def new_fencer_def fence_refused_when_free)

end
