(* ===== verification/Shadow_Ledger.thy ===== *)
theory Shadow_Ledger
  imports Nexus_Prelude "HOL-Library.AList"
begin

text \<open>
  The shadow ledger of the prime brokers, \<open>crates/nexus_brokerage/src/ledger/shadow_double_entry.rs\<close>.
  An account is four atomic cells; a debit or credit is a loop that takes the epoch with a weak
  exchange, stores the net balance, adds to a total and moves the epoch on.  The theory has the
  loop step by step, for threads that overlap, and as one function, for a thread that runs alone,
  and shows that they agree there.  For calls that do not overlap the balance is exact and never
  negative; when two debits overlap one can be lost.
\<close>

section \<open>Accounts\<close>

datatype ledger_error =
    InsufficientBalance i64 i64
  | DoubleEntryViolation i64 i64
  | ReconciliationMismatch i64 i64
  | TornReadDetected u64

record account =
  net :: i64
  total_debits :: i64
  total_credits :: i64
  acc_epoch :: u64

definition new_account :: "i64 \<Rightarrow> account" where
  "new_account initial = \<lparr>net = initial, total_debits = 0, total_credits = 0, acc_epoch = 0\<rparr>"

subsection \<open>The loop, step by step\<close>

datatype entry_kind = DebitEntry | CreditEntry

datatype entry_pc =
    LoadEpoch
  | LoadNet u64
  | Exchange u64 i64
  | StoreNet u64 i64
  | AddTotal u64
  | StoreEpoch u64
  | Finished "ledger_error + unit"

fun entry_start :: "entry_kind \<Rightarrow> i64 \<Rightarrow> entry_pc" where
  "entry_start DebitEntry amount =
     (if amount < 0 then Finished (Inl (DoubleEntryViolation amount 0)) else LoadEpoch)"
| "entry_start CreditEntry amount =
     (if amount < 0 then Finished (Inl (DoubleEntryViolation 0 amount)) else LoadEpoch)"

text \<open>The first argument says that a weak exchange fails without cause.\<close>

fun entry_step :: "bool \<Rightarrow> entry_kind \<Rightarrow> i64 \<Rightarrow> entry_pc \<times> account \<Rightarrow> entry_pc \<times> account" where
  "entry_step fails kind amount (LoadEpoch, a) = (LoadNet (acc_epoch a), a)"
| "entry_step fails kind amount (LoadNet e, a) =
     (if kind = DebitEntry \<and> net a < amount
      then (Finished (Inl (InsufficientBalance amount (net a))), a)
      else (Exchange e (net a), a))"
| "entry_step fails kind amount (Exchange e n, a) =
     (if acc_epoch a = e \<and> \<not> fails then (StoreNet (e + 1) n, a\<lparr>acc_epoch := e + 1\<rparr>)
      else (LoadEpoch, a))"
| "entry_step fails kind amount (StoreNet e n, a) =
     (AddTotal e, a\<lparr>net := s64 (if kind = DebitEntry then n - amount else n + amount)\<rparr>)"
| "entry_step fails kind amount (AddTotal e, a) =
     (StoreEpoch e,
      if kind = DebitEntry then a\<lparr>total_debits := s64 (total_debits a + amount)\<rparr>
      else a\<lparr>total_credits := s64 (total_credits a + amount)\<rparr>)"
| "entry_step fails kind amount (StoreEpoch e, a) = (Finished (Inr ()), a\<lparr>acc_epoch := e + 1\<rparr>)"
| "entry_step fails kind amount (Finished r, a) = (Finished r, a)"

subsection \<open>The call of a thread that runs alone\<close>

definition account_debit :: "i64 \<Rightarrow> account \<Rightarrow> (ledger_error + unit) \<times> account" where
  "account_debit amount a =
     (if amount < 0 then (Inl (DoubleEntryViolation amount 0), a)
      else if net a < amount then (Inl (InsufficientBalance amount (net a)), a)
      else (Inr (), a\<lparr>net := s64 (net a - amount), total_debits := s64 (total_debits a + amount),
                       acc_epoch := acc_epoch a + 2\<rparr>))"

definition account_credit :: "i64 \<Rightarrow> account \<Rightarrow> (ledger_error + unit) \<times> account" where
  "account_credit amount a =
     (if amount < 0 then (Inl (DoubleEntryViolation 0 amount), a)
      else (Inr (), a\<lparr>net := s64 (net a + amount), total_credits := s64 (total_credits a + amount),
                       acc_epoch := acc_epoch a + 2\<rparr>))"

fun account_entry :: "entry_kind \<Rightarrow> i64 \<Rightarrow> account \<Rightarrow> (ledger_error + unit) \<times> account" where
  "account_entry DebitEntry = account_debit"
| "account_entry CreditEntry = account_credit"

definition read_balance :: "account \<Rightarrow> ledger_error + i64 \<times> u64" where
  "read_balance a =
     (let epoch_start = acc_epoch a; n = net a; epoch_end = acc_epoch a
      in if epoch_start \<noteq> epoch_end then Inl (TornReadDetected epoch_end) else Inr (n, epoch_end))"

definition verify_double_entry :: "account \<Rightarrow> ledger_error + unit" where
  "verify_double_entry a =
     (if net a \<noteq> s64 (total_credits a - total_debits a)
      then Inl (DoubleEntryViolation (total_debits a) (total_credits a)) else Inr ())"

section \<open>The ledger\<close>

text \<open>The positions are an association list: their sum iterates over the map.\<close>

record ledger =
  accounts :: "u32 \<times> u32 \<rightharpoonup> account"
  ledger_positions :: "((u32 \<times> u32) \<times> i64) list"
  global_epoch :: u64

definition new_ledger :: ledger where
  "new_ledger = \<lparr>accounts = Map.empty, ledger_positions = [], global_epoch = 0\<rparr>"

definition init_account :: "u32 \<Rightarrow> u32 \<Rightarrow> i64 \<Rightarrow> ledger \<Rightarrow> ledger" where
  "init_account broker acct initial l = l\<lparr>accounts := (accounts l)((broker, acct) \<mapsto> new_account initial)\<rparr>"

definition post_entry ::
  "(account \<Rightarrow> (ledger_error + unit) \<times> account) \<Rightarrow> ledger_error \<Rightarrow> u32 \<times> u32 \<Rightarrow> ledger \<Rightarrow>
     (ledger_error + u64) \<times> ledger" where
  "post_entry f missing key l =
     (case accounts l key of
        None \<Rightarrow> (Inl missing, l)
      | Some a \<Rightarrow>
          (case f a of
             (Inl e, a') \<Rightarrow> (Inl e, l\<lparr>accounts := (accounts l)(key \<mapsto> a')\<rparr>)
           | (Inr _, a') \<Rightarrow>
               (Inr (global_epoch l),
                l\<lparr>accounts := (accounts l)(key \<mapsto> a'), global_epoch := global_epoch l + 1\<rparr>)))"

definition ledger_debit :: "u32 \<Rightarrow> u32 \<Rightarrow> i64 \<Rightarrow> ledger \<Rightarrow> (ledger_error + u64) \<times> ledger" where
  "ledger_debit broker acct amount =
     post_entry (account_debit amount) (InsufficientBalance amount 0) (broker, acct)"

definition ledger_credit :: "u32 \<Rightarrow> u32 \<Rightarrow> i64 \<Rightarrow> ledger \<Rightarrow> (ledger_error + u64) \<times> ledger" where
  "ledger_credit broker acct amount =
     post_entry (account_credit amount) (DoubleEntryViolation 0 amount) (broker, acct)"

definition move_ledger_position :: "u32 \<Rightarrow> u32 \<Rightarrow> i64 \<Rightarrow> ledger \<Rightarrow> ledger" where
  "move_ledger_position broker asset delta l =
     (let key = (broker, asset);
          current = (case map_of (ledger_positions l) key of None \<Rightarrow> 0 | Some p \<Rightarrow> p)
      in l\<lparr>ledger_positions := AList.update key (s64 (current + delta)) (ledger_positions l)\<rparr>)"

definition ledger_balance :: "u32 \<Rightarrow> u32 \<Rightarrow> ledger \<Rightarrow> ledger_error + i64 \<times> u64" where
  "ledger_balance broker acct l =
     (case accounts l (broker, acct) of None \<Rightarrow> Inl (InsufficientBalance 0 0) | Some a \<Rightarrow> read_balance a)"

definition ledger_position :: "u32 \<Rightarrow> u32 \<Rightarrow> ledger \<Rightarrow> i64" where
  "ledger_position broker asset l =
     (case map_of (ledger_positions l) (broker, asset) of None \<Rightarrow> 0 | Some p \<Rightarrow> p)"

definition verify_account_integrity :: "u32 \<Rightarrow> u32 \<Rightarrow> ledger \<Rightarrow> ledger_error + unit" where
  "verify_account_integrity broker acct l =
     (case accounts l (broker, acct) of
        None \<Rightarrow> Inl (DoubleEntryViolation 0 0) | Some a \<Rightarrow> verify_double_entry a)"

definition reconcile :: "u32 \<Rightarrow> u32 \<Rightarrow> i64 \<Rightarrow> ledger \<Rightarrow> ledger_error + unit" where
  "reconcile broker acct broker_balance l =
     (case ledger_balance broker acct l of
        Inl e \<Rightarrow> Inl e
      | Inr (shadow, _) \<Rightarrow>
          if shadow \<noteq> broker_balance then Inl (ReconciliationMismatch shadow broker_balance) else Inr ())"

definition cross_broker_position :: "u32 \<Rightarrow> ledger \<Rightarrow> i64" where
  "cross_broker_position asset l =
     fold (\<lambda>((_, aid), p) acc. if aid = asset then s64 (acc + p) else acc) (ledger_positions l) 0"

section \<open>A call that runs alone\<close>

fun run_entry :: "bool list \<Rightarrow> entry_kind \<Rightarrow> i64 \<Rightarrow> entry_pc \<times> account \<Rightarrow> entry_pc \<times> account" where
  "run_entry [] kind amount s = s"
| "run_entry (b # bs) kind amount s = run_entry bs kind amount (entry_step b kind amount s)"

lemma run_entry_append: "run_entry (xs @ ys) kind amount s = run_entry ys kind amount (run_entry xs kind amount s)"
  by (induction xs arbitrary: s) simp_all

text \<open>Where a thread that runs alone can be, \<open>a0\<close> being the account when it started.\<close>

fun alone :: "entry_kind \<Rightarrow> i64 \<Rightarrow> account \<Rightarrow> entry_pc \<times> account \<Rightarrow> bool" where
  "alone kind amount a0 (LoadEpoch, a) = (0 \<le> amount \<and> a = a0)"
| "alone kind amount a0 (LoadNet e, a) = (0 \<le> amount \<and> a = a0 \<and> e = acc_epoch a0)"
| "alone kind amount a0 (Exchange e n, a) =
     (0 \<le> amount \<and> a = a0 \<and> e = acc_epoch a0 \<and> n = net a0 \<and> (kind = DebitEntry \<longrightarrow> amount \<le> net a0))"
| "alone kind amount a0 (StoreNet e n, a) =
     (0 \<le> amount \<and> e = acc_epoch a0 + 1 \<and> n = net a0 \<and> (kind = DebitEntry \<longrightarrow> amount \<le> net a0) \<and>
      (Inr (), a\<lparr>net := s64 (if kind = DebitEntry then n - amount else n + amount),
                 total_debits := (if kind = DebitEntry then s64 (total_debits a + amount) else total_debits a),
                 total_credits := (if kind = DebitEntry then total_credits a else s64 (total_credits a + amount)),
                 acc_epoch := e + 1\<rparr>) = account_entry kind amount a0)"
| "alone kind amount a0 (AddTotal e, a) =
     ((Inr (), a\<lparr>total_debits := (if kind = DebitEntry then s64 (total_debits a + amount) else total_debits a),
                 total_credits := (if kind = DebitEntry then total_credits a else s64 (total_credits a + amount)),
                 acc_epoch := e + 1\<rparr>) = account_entry kind amount a0)"
| "alone kind amount a0 (StoreEpoch e, a) = ((Inr (), a\<lparr>acc_epoch := e + 1\<rparr>) = account_entry kind amount a0)"
| "alone kind amount a0 (Finished r, a) = ((r, a) = account_entry kind amount a0)"

lemma alone_start: "alone kind amount a (entry_start kind amount, a)"
  by (cases kind) (auto simp: account_debit_def account_credit_def)

lemma alone_step: "alone kind amount a0 s \<Longrightarrow> alone kind amount a0 (entry_step b kind amount s)"
proof (cases s)
  case (Pair pc a)
  assume "alone kind amount a0 s"
  then show ?thesis
    unfolding Pair
    by (cases pc; cases kind) (auto simp: account_debit_def account_credit_def)
qed

lemma alone_run: "alone kind amount a0 s \<Longrightarrow> alone kind amount a0 (run_entry bs kind amount s)"
  by (induction bs arbitrary: s) (simp_all add: alone_step)

lemma alone_six_steps:
  "alone kind amount a0 s \<Longrightarrow> \<exists>r a. run_entry (replicate 6 False) kind amount s = (Finished r, a)"
  by (cases s; cases "fst s"; cases kind) (auto simp: numeral_eq_Suc)

text \<open>C11. A debit or credit that runs alone is the sequential one.  However often its weak exchange
  fails without cause, the loop of a thread that no other thread disturbs ends within six steps
  after the last such failure, with the result and the account of the sequential call.\<close>

theorem call_alone_is_sequential:
  "run_entry (bs @ replicate 6 False) kind amount (entry_start kind amount, a) =
     (case account_entry kind amount a of (r, a') \<Rightarrow> (Finished r, a'))"
proof -
  let ?s = "run_entry bs kind amount (entry_start kind amount, a)"
  have inv: "alone kind amount a ?s" by (rule alone_run [OF alone_start])
  obtain r a' where e: "run_entry (replicate 6 False) kind amount ?s = (Finished r, a')"
    using alone_six_steps [OF inv] by blast
  then have "(r, a') = account_entry kind amount a"
    using alone_run [OF inv, of "replicate 6 False"] by simp
  then show ?thesis using e by (simp add: run_entry_append flip: \<open>(r, a') = _\<close>)
qed

section \<open>Two calls that overlap\<close>

text \<open>A schedule names the thread that moves.\<close>

fun run_two ::
  "bool list \<Rightarrow> i64 \<Rightarrow> entry_pc \<times> entry_pc \<times> account \<Rightarrow> entry_pc \<times> entry_pc \<times> account" where
  "run_two [] amount s = s"
| "run_two (b # bs) amount (p, q, a) =
     run_two bs amount
       (if b then case entry_step False DebitEntry amount (p, a) of (p', a') \<Rightarrow> (p', q, a')
        else case entry_step False DebitEntry amount (q, a) of (q', a') \<Rightarrow> (p, q', a'))"

text \<open>Overlapping debits overdraw an account.  The epoch does not keep a second thread out: for every
  account and every amount that it covers, two debits of that amount can both succeed while the
  balance falls by the amount only once - also when it covers only one of them.\<close>

lemma overlapping_debits_both_succeed:
  assumes "0 \<le> amount" "amount \<le> net a" "in_i64 (net a)"
  shows "\<exists>sched a'. run_two sched amount (entry_start DebitEntry amount, entry_start DebitEntry amount, a) =
      (Finished (Inr ()), Finished (Inr ()), a') \<and>
    net a' = net a - amount \<and> total_debits a' = s64 (total_debits a + 2 * amount)"
proof (intro exI conjI)
  let ?sched = "[True, True, True, False, False, False, False, False, False, True, True, True]"
  let ?a = "a\<lparr>net := s64 (net a - amount), total_debits := s64 (total_debits a + 2 * amount),
               acc_epoch := acc_epoch a + 2\<rparr>"
  have "s64 (s64 (total_debits a + amount) + amount) = s64 (total_debits a + 2 * amount)"
    by (simp add: algebra_simps)
  then show "run_two ?sched amount (entry_start DebitEntry amount, entry_start DebitEntry amount, a) =
      (Finished (Inr ()), Finished (Inr ()), ?a)"
    using assms(1,2) by (simp add: ac_simps)
  show "net ?a = net a - amount"
    using assms by (simp add: s64_id in_i64_def)
  show "total_debits ?a = s64 (total_debits a + 2 * amount)" by simp
qed

lemma overlapping_debits_both_succeed_example:
  "\<exists>sched a'. run_two sched 100 (entry_start DebitEntry 100, entry_start DebitEntry 100, new_account 100) =
      (Finished (Inr ()), Finished (Inr ()), a') \<and> net a' = 0 \<and> total_debits a' = 200"
proof -
  have "s64 200 = 200" by (simp add: s64_id in_i64_def)
  then show ?thesis
    using overlapping_debits_both_succeed [of 100 "new_account 100"]
    by (simp add: new_account_def in_i64_def)
qed

section \<open>Calls that do not overlap\<close>

datatype ledger_call =
    OpenAccount u32 u32 i64
  | Debit u32 u32 i64
  | Credit u32 u32 i64
  | MovePosition u32 u32 i64

fun ledger_step :: "ledger_call \<Rightarrow> ledger \<Rightarrow> ledger" where
  "ledger_step (OpenAccount b a i) l = init_account b a i l"
| "ledger_step (Debit b a x) l = snd (ledger_debit b a x l)"
| "ledger_step (Credit b a x) l = snd (ledger_credit b a x l)"
| "ledger_step (MovePosition b a d) l = move_ledger_position b a d l"

definition ledger_run :: "ledger_call list \<Rightarrow> ledger \<Rightarrow> ledger" where
  "ledger_run cs l = fold ledger_step cs l"

lemma ledger_run_simps [simp]:
  "ledger_run [] l = l" "ledger_run (c # cs) l = ledger_run cs (ledger_step c l)"
  by (simp_all add: ledger_run_def)

definition opens :: "u32 \<times> u32 \<Rightarrow> ledger_call \<Rightarrow> bool" where
  "opens key c \<longleftrightarrow> (\<exists>i. c = OpenAccount (fst key) (snd key) i)"

text \<open>What one call does to one account.\<close>

definition on_account :: "u32 \<times> u32 \<Rightarrow> ledger_call \<Rightarrow> account \<Rightarrow> account" where
  "on_account key c x =
     (case c of
        Debit b a amount \<Rightarrow> if (b, a) = key then snd (account_debit amount x) else x
      | Credit b a amount \<Rightarrow> if (b, a) = key then snd (account_credit amount x) else x
      | _ \<Rightarrow> x)"

lemma post_entry_account:
  "accounts l key = Some x \<Longrightarrow>
     accounts (snd (post_entry f e k l)) key = Some (if k = key then snd (f x) else x)"
  by (auto simp: post_entry_def split: option.splits prod.splits sum.splits)

lemma ledger_step_account:
  "accounts l key = Some x \<Longrightarrow> \<not> opens key c \<Longrightarrow> accounts (ledger_step c l) key = Some (on_account key c x)"
  by (cases c) (auto simp: opens_def on_account_def ledger_debit_def ledger_credit_def post_entry_account
      init_account_def move_ledger_position_def Let_def)

lemma ledger_run_account:
  "accounts l key = Some x \<Longrightarrow> \<forall>c \<in> set cs. \<not> opens key c \<Longrightarrow>
     accounts (ledger_run cs l) key = Some (fold (on_account key) cs x)"
  by (induction cs arbitrary: l x) (simp_all add: ledger_step_account)

lemma init_account_account: "accounts (init_account b a i l) (b, a) = Some (new_account i)"
  by (simp add: init_account_def)

subsection \<open>The integrity check\<close>

definition books_follow :: "i64 \<Rightarrow> account \<Rightarrow> bool" where
  "books_follow i x \<longleftrightarrow> net x = s64 (i + total_credits x - total_debits x)"

lemma s64_cong: "x mod 2 ^ 64 = y mod 2 ^ 64 \<Longrightarrow> s64 x = s64 y"
  unfolding s64_def by (metis mod_add_cong)

lemma s64_mod [simp]: "s64 x mod 2 ^ 64 = x mod 2 ^ 64"
  by (simp add: s64_def mod_diff_left_eq)

lemma books_follow_on_account: "books_follow i x \<Longrightarrow> books_follow i (on_account key c x)"
proof -
  have sub: "s64 (s64 p - q) = s64 (p - q)" for p q
    by (rule s64_cong) (metis mod_diff_left_eq s64_mod)
  have sub2: "s64 (p - s64 q) = s64 (p - q)" for p q
    by (rule s64_cong) (metis mod_diff_right_eq s64_mod)
  have add3: "s64 (i + s64 p - q) = s64 (i + p - q)" for p q
    using sub [of "i + s64 p" q] sub [of "i + p" q] by simp
  assume "books_follow i x"
  then show ?thesis
    by (cases c) (simp_all add: on_account_def books_follow_def account_debit_def account_credit_def
        sub sub2 add3 algebra_simps)
qed

lemma books_follow_fold: "books_follow i x \<Longrightarrow> books_follow i (fold (on_account key) cs x)"
  by (induction cs arbitrary: x) (simp_all add: books_follow_on_account)

lemma s64_eq_iff: "s64 x = s64 y \<longleftrightarrow> 2 ^ 64 dvd x - y"
  by (metis s64_cong s64_mod mod_eq_dvd_iff)

text \<open>The integrity check fails for every account that was opened with money.  After an account was
  opened and any calls that do not open it again, its net balance is the opening balance plus
  credits minus debits; the check compares it with credits minus debits, so it succeeds exactly
  if the opening balance was zero.\<close>

lemma integrity_check_iff_opened_empty:
  assumes "in_i64 initial" "\<forall>c \<in> set cs. \<not> opens (b, a) c"
  shows "verify_account_integrity b a (ledger_run cs (init_account b a initial l)) = Inr () \<longleftrightarrow> initial = 0"
proof -
  let ?x = "fold (on_account (b, a)) cs (new_account initial)"
  have "books_follow initial ?x"
    by (rule books_follow_fold) (simp add: books_follow_def new_account_def s64_id assms(1))
  then have "net ?x = s64 (total_credits ?x - total_debits ?x) \<longleftrightarrow> s64 initial = s64 0"
    by (simp add: books_follow_def s64_eq_iff del: s64_0)
  also have "\<dots> \<longleftrightarrow> initial = 0"
    using assms(1) s64_id by simp
  finally show ?thesis
    using ledger_run_account [OF init_account_account assms(2)]
    by (simp add: verify_account_integrity_def verify_double_entry_def)
qed

lemma integrity_check_iff_opened_empty_example:
  "verify_account_integrity 1 100
     (ledger_run [Debit 1 100 100000, Credit 1 100 50000] (init_account 1 100 1000000 new_ledger)) \<noteq> Inr ()"
  using integrity_check_iff_opened_empty [of 1000000 "[Debit 1 100 100000, Credit 1 100 50000]" 1 100]
  by (simp add: in_i64_def opens_def)

subsection \<open>No overdraft\<close>

definition credited :: "u32 \<times> u32 \<Rightarrow> ledger_call list \<Rightarrow> int" where
  "credited key cs =
     sum_list (map (\<lambda>c. case c of Credit b a x \<Rightarrow> if (b, a) = key \<and> 0 \<le> x then x else 0 | _ \<Rightarrow> 0) cs)"

lemma credited_simps [simp]:
  "credited key [] = 0"
  "credited key (c # cs) =
     (case c of Credit b a x \<Rightarrow> if (b, a) = key \<and> 0 \<le> x then x else 0 | _ \<Rightarrow> 0) + credited key cs"
  by (simp_all add: credited_def)

lemma credited_nonneg: "0 \<le> credited key cs"
  by (induction cs) (auto split: ledger_call.split)

text \<open>\<open>room\<close> is what may still be credited.\<close>

definition solvent :: "i64 \<Rightarrow> int \<Rightarrow> account \<Rightarrow> bool" where
  "solvent i room x \<longleftrightarrow>
     0 \<le> net x \<and> 0 \<le> total_debits x \<and> 0 \<le> total_credits x \<and> 0 \<le> room \<and>
     net x = i + total_credits x - total_debits x \<and> i + total_credits x + room \<le> i64_max"

lemma solvent_fold:
  "solvent i (credited key cs) x \<Longrightarrow> 0 \<le> i \<Longrightarrow> solvent i 0 (fold (on_account key) cs x)"
proof (induction cs arbitrary: x)
  case (Cons c cs)
  have "0 \<le> credited key cs" by (rule credited_nonneg)
  then have "solvent i (credited key cs) (on_account key c x)"
    using Cons.prems
    by (cases c) (auto simp: solvent_def on_account_def account_debit_def account_credit_def
        s64_id in_i64_def split: if_splits)
  then show ?case using Cons by simp
qed (simp add: solvent_def)

text \<open>C10. Calls that do not overlap never overdraw an account.  If an account is opened with a balance
  that is not negative, and balance and credits together fit an \<open>i64\<close>, then after any calls that do
  not open it again its balance is not negative and is exactly the opening balance plus the
  credits minus the debits that were recorded.\<close>

theorem account_never_overdrawn:
  assumes "0 \<le> initial" "initial + credited (b, a) cs \<le> i64_max" "\<forall>c \<in> set cs. \<not> opens (b, a) c"
  shows "\<exists>x. accounts (ledger_run cs (init_account b a initial l)) (b, a) = Some x \<and>
    0 \<le> net x \<and> net x = initial + total_credits x - total_debits x"
proof -
  have "solvent initial (credited (b, a) cs) (new_account initial)"
    using assms credited_nonneg by (simp add: solvent_def new_account_def)
  then have "solvent initial 0 (fold (on_account (b, a)) cs (new_account initial))"
    using solvent_fold assms(1) by blast
  then show ?thesis
    using ledger_run_account [OF init_account_account assms(3)] by (simp add: solvent_def)
qed

theorem account_never_overdrawn_witness:
  "\<exists>x. accounts (ledger_run [Debit 1 100 80, Credit 1 100 5, Debit 1 100 80] (init_account 1 100 100 new_ledger)) (1, 100)
       = Some x \<and> 0 \<le> net x \<and> net x = 100 + total_credits x - total_debits x"
  using account_never_overdrawn [of 100 1 100 "[Debit 1 100 80, Credit 1 100 5, Debit 1 100 80]" new_ledger]
  by (simp add: opens_def)

subsection \<open>Positions\<close>

definition moved :: "(u32 \<times> u32 \<Rightarrow> bool) \<Rightarrow> ledger_call list \<Rightarrow> int" where
  "moved P cs = sum_list (map (\<lambda>c. case c of MovePosition b a d \<Rightarrow> if P (b, a) then d else 0 | _ \<Rightarrow> 0) cs)"

lemma moved_simps [simp]:
  "moved P [] = 0"
  "moved P (c # cs) = (case c of MovePosition b a d \<Rightarrow> if P (b, a) then d else 0 | _ \<Rightarrow> 0) + moved P cs"
  by (simp_all add: moved_def)

definition position_sum :: "(u32 \<times> u32 \<Rightarrow> bool) \<Rightarrow> ((u32 \<times> u32) \<times> i64) list \<Rightarrow> int" where
  "position_sum P ps = (\<Sum>(k, p) \<leftarrow> ps. if P k then p else 0)"

lemma fold_position_sum:
  "fold (\<lambda>((_, aid), p) acc. if aid = asset then s64 (acc + p) else acc) ps (s64 z) =
     s64 (z + position_sum (\<lambda>k. snd k = asset) ps)"
  by (induction ps arbitrary: z) (auto simp: position_sum_def add.assoc)

lemma map_of_position_sum:
  "distinct (map fst ps) \<Longrightarrow> position_sum (\<lambda>k. k = key) ps = (case map_of ps key of None \<Rightarrow> 0 | Some p \<Rightarrow> p)"
proof (induction ps)
  case (Cons e ps)
  have "position_sum (\<lambda>k. k = key) ps = 0" if "key \<notin> fst ` set ps"
    using that by (induction ps) (auto simp: position_sum_def)
  then show ?case using Cons by (cases e) (auto simp: position_sum_def)
qed (simp add: position_sum_def)

lemma position_sum_update:
  "distinct (map fst ps) \<Longrightarrow>
     position_sum P (AList.update key v ps) =
       position_sum P ps + (if P key then v - (case map_of ps key of None \<Rightarrow> 0 | Some p \<Rightarrow> p) else 0)"
  by (induction ps) (auto simp: position_sum_def split: option.splits)

text \<open>The table has one entry per key, and every sum over it is what the calls moved, modulo 2^64.\<close>

definition table_holds :: "ledger \<Rightarrow> ((u32 \<times> u32 \<Rightarrow> bool) \<Rightarrow> int) \<Rightarrow> bool" where
  "table_holds l m \<longleftrightarrow>
     distinct (map fst (ledger_positions l)) \<and> (\<forall>P. s64 (position_sum P (ledger_positions l)) = s64 (m P)) \<and>
     (\<forall>v \<in> snd ` set (ledger_positions l). in_i64 v)"

lemma table_holds_move:
  assumes "table_holds l m"
  shows "table_holds (move_ledger_position b a d l) (\<lambda>P. m P + (if P (b, a) then d else 0))"
proof -
  let ?old = "case map_of (ledger_positions l) (b, a) of None \<Rightarrow> 0 | Some p \<Rightarrow> p"
  have dist: "distinct (map fst (ledger_positions l))" using assms by (simp add: table_holds_def)
  have "s64 (position_sum P (AList.update (b, a) (s64 (?old + d)) (ledger_positions l))) =
      s64 (m P + (if P (b, a) then d else 0))" for P
  proof -
    have m: "s64 (position_sum P (ledger_positions l)) = s64 (m P)"
      using assms by (simp add: table_holds_def)
    have "s64 (position_sum P (ledger_positions l) + (s64 (?old + d) - ?old)) =
        s64 (position_sum P (ledger_positions l) + d)"
      unfolding s64_eq_iff
      using s64_eq_iff [of "s64 (?old + d)" "?old + d"] by (simp add: algebra_simps)
    also have "\<dots> = s64 (m P + d)"
      using m by (metis s64_add_left)
    finally show ?thesis using m dist by (simp add: position_sum_update)
  qed
  moreover have "in_i64 v"
    if "v \<in> snd ` set (AList.update (b, a) (s64 (?old + d)) (ledger_positions l))" for v
  proof -
    have "set (AList.update (b, a) w ps) \<subseteq> insert ((b, a), w) (set ps)" for w and ps :: "((u32 \<times> u32) \<times> i64) list"
      by (induction ps) auto
    then show ?thesis using that assms s64_range by (fastforce simp: table_holds_def)
  qed
  ultimately show ?thesis
    using dist by (simp add: table_holds_def move_ledger_position_def Let_def distinct_update)
qed

lemma table_holds_run:
  "table_holds l m \<Longrightarrow> table_holds (ledger_run cs l) (\<lambda>P. m P + moved P cs)"
proof (induction cs arbitrary: l m)
  case (Cons c cs)
  have "ledger_positions (snd (post_entry f e k l)) = ledger_positions l" for f e k
    by (auto simp: post_entry_def split: option.splits prod.splits sum.splits)
  then have "table_holds (ledger_step c l)
      (\<lambda>P. m P + (case c of MovePosition b a d \<Rightarrow> if P (b, a) then d else 0 | _ \<Rightarrow> 0))"
    using Cons.prems table_holds_move [OF Cons.prems]
    by (cases c) (simp_all add: table_holds_def init_account_def ledger_debit_def ledger_credit_def)
  from Cons.IH [OF this] show ?case by (simp add: add.assoc)
qed simp

text \<open>No movement of a position is lost.  After any sequence of calls on a new ledger, the position of
  an asset at a broker is the sum of its movements there, and the position across brokers is the
  sum of its movements everywhere, modulo 2^64.\<close>

lemma positions_are_sums:
  "ledger_position b a (ledger_run cs new_ledger) = s64 (moved (\<lambda>k. k = (b, a)) cs) \<and>
   cross_broker_position a (ledger_run cs new_ledger) = s64 (moved (\<lambda>k. snd k = a) cs)"
proof (intro conjI)
  let ?l = "ledger_run cs new_ledger"
  have "table_holds new_ledger (\<lambda>P. 0)" by (simp add: table_holds_def new_ledger_def position_sum_def)
  from table_holds_run [OF this, of cs] have t: "table_holds ?l (\<lambda>P. moved P cs)" by simp
  have "in_i64 (ledger_position b a ?l)"
    using t by (auto simp: table_holds_def ledger_position_def dest: map_of_SomeD split: option.split)
  moreover have "ledger_position b a ?l = position_sum (\<lambda>k. k = (b, a)) (ledger_positions ?l)"
    using t map_of_position_sum [of "ledger_positions ?l" "(b, a)"] by (simp add: table_holds_def ledger_position_def)
  ultimately show "ledger_position b a ?l = s64 (moved (\<lambda>k. k = (b, a)) cs)"
    using t s64_id by (metis table_holds_def)
  show "cross_broker_position a ?l = s64 (moved (\<lambda>k. snd k = a) cs)"
    using t fold_position_sum [of a "ledger_positions ?l" 0] by (simp add: table_holds_def cross_broker_position_def)
qed

end
