(* ===== verification/Htlc_Swap.thy ===== *)
theory Htlc_Swap
  imports Interfaces
begin

text \<open>
  The hash time-locked swap, \<open>crates/nexus_web3/src/cross_chain/htlc_atomic_swap.rs\<close>.  The hash
  function is a library's: it is the argument \<open>sha\<close>.  Arrays of 32 bytes are lists, clock readings
  are arguments.  The floating-point profit estimate is left out.  The theory shows that a known
  secret always opens the lock and that no refund is recorded before the lock has expired, and that
  nothing keeps a claim and a refund of the same swap apart.
\<close>

section \<open>State\<close>

type_synonym bytes = "u8 list"

datatype htlc_error = InvalidSecretLength | HashMismatch | TimeoutExpired | TimeoutTooShort | ChainNotSupported

datatype chain = Ethereum | Solana | Arbitrum | Optimism | Polygon

fun block_time_seconds :: "chain \<Rightarrow> u64" where
  "block_time_seconds Ethereum = 12"
| "block_time_seconds Solana = 1"
| "block_time_seconds Arbitrum = 1"
| "block_time_seconds Optimism = 2"
| "block_time_seconds Polygon = 2"

fun chain_u8 :: "chain \<Rightarrow> u8" where
  "chain_u8 Ethereum = 0"
| "chain_u8 Solana = 1"
| "chain_u8 Arbitrum = 2"
| "chain_u8 Optimism = 3"
| "chain_u8 Polygon = 4"

datatype htlc_state = HtlcInitiated | SecretRevealed | Claimed | Refunded | HtlcExpired

record htlc_params =
  hash_lock :: bytes
  time_lock :: u64
  source_chain :: chain
  dest_chain :: chain
  source_amount :: u64
  dest_amount :: u64
  source_asset :: bytes
  dest_asset :: bytes

record htlc_swap =
  swap_id :: bytes
  swap_secret :: "bytes option"
  swap_state :: htlc_state
  swap_params :: htlc_params
  source_tx_hash :: "bytes option"
  dest_tx_hash :: "bytes option"
  claim_tx_hash :: "bytes option"

section \<open>Operations\<close>

text \<open>The clock is read once per byte.\<close>

definition generate_secret :: "(nat \<Rightarrow> u64) \<Rightarrow> bytes" where
  "generate_secret clock = map (\<lambda>i. of_nat i + ucast (clock i)) [0..<32]"

definition generate_swap_id :: "(bytes \<Rightarrow> bytes) \<Rightarrow> bytes \<Rightarrow> chain \<Rightarrow> chain \<Rightarrow> bytes" where
  "generate_swap_id sha lck source dest = sha (lck @ [chain_u8 source] @ [chain_u8 dest])"

definition swap_from_params :: "htlc_params \<Rightarrow> bytes \<Rightarrow> htlc_swap" where
  "swap_from_params params sid =
     \<lparr>swap_id = sid, swap_secret = None, swap_state = HtlcInitiated, swap_params = params,
      source_tx_hash = None, dest_tx_hash = None, claim_tx_hash = None\<rparr>"

definition new_swap ::
  "(bytes \<Rightarrow> bytes) \<Rightarrow> (nat \<Rightarrow> u64) \<Rightarrow> u64 \<Rightarrow> chain \<Rightarrow> chain \<Rightarrow> u64 \<Rightarrow> u64 \<Rightarrow> bytes \<Rightarrow> bytes \<Rightarrow> u64 \<Rightarrow>
     htlc_error + htlc_swap" where
  "new_swap sha clock now source dest src_amount dst_amount src_asset dst_asset timeout_seconds =
     (let secret = generate_secret clock;
          lck = sha secret;
          min_timeout = max (block_time_seconds source) (block_time_seconds dest) * 10
      in if timeout_seconds < min_timeout then Inl TimeoutTooShort
         else
           let time = now + timeout_seconds;
               sid = generate_swap_id sha lck source dest
           in Inr \<lparr>swap_id = sid, swap_secret = Some secret, swap_state = HtlcInitiated,
                   swap_params = \<lparr>hash_lock = lck, time_lock = time, source_chain = source, dest_chain = dest,
                     source_amount = src_amount, dest_amount = dst_amount, source_asset = src_asset,
                     dest_asset = dst_asset\<rparr>,
                   source_tx_hash = None, dest_tx_hash = None, claim_tx_hash = None\<rparr>)"

definition set_secret :: "(bytes \<Rightarrow> bytes) \<Rightarrow> bytes \<Rightarrow> htlc_swap \<Rightarrow> (htlc_error + unit) \<times> htlc_swap" where
  "set_secret sha secret s =
     (if sha secret \<noteq> hash_lock (swap_params s) then (Inl HashMismatch, s)
      else (Inr (), s\<lparr>swap_secret := Some secret, swap_state := SecretRevealed\<rparr>))"

definition verify_secret :: "(bytes \<Rightarrow> bytes) \<Rightarrow> bytes \<Rightarrow> htlc_swap \<Rightarrow> bool" where
  "verify_secret sha secret s = (sha secret = hash_lock (swap_params s))"

definition is_expired :: "u64 \<Rightarrow> htlc_swap \<Rightarrow> bool" where
  "is_expired now s = (now \<ge> time_lock (swap_params s))"

definition remaining_time :: "u64 \<Rightarrow> htlc_swap \<Rightarrow> u64" where
  "remaining_time now s =
     (if now \<ge> time_lock (swap_params s) then 0 else time_lock (swap_params s) - now)"

definition on_claim ::
  "(bytes \<Rightarrow> bytes) \<Rightarrow> bytes \<Rightarrow> bytes \<Rightarrow> htlc_swap \<Rightarrow> (htlc_error + unit) \<times> htlc_swap" where
  "on_claim sha secret tx s =
     (if \<not> verify_secret sha secret s then (Inl HashMismatch, s)
      else (Inr (), s\<lparr>swap_secret := Some secret, swap_state := Claimed, claim_tx_hash := Some tx\<rparr>))"

definition on_refund :: "u64 \<Rightarrow> bytes \<Rightarrow> htlc_swap \<Rightarrow> (htlc_error + unit) \<times> htlc_swap" where
  "on_refund now tx s =
     (if \<not> is_expired now s \<and> swap_state s \<noteq> HtlcExpired then (Inl TimeoutExpired, s)
      else (Inr (), s\<lparr>swap_state := Refunded, source_tx_hash := Some tx\<rparr>))"

definition record_source_tx :: "bytes \<Rightarrow> htlc_swap \<Rightarrow> htlc_swap" where
  "record_source_tx tx s = s\<lparr>source_tx_hash := Some tx\<rparr>"

definition record_dest_tx :: "bytes \<Rightarrow> htlc_swap \<Rightarrow> htlc_swap" where
  "record_dest_tx tx s = s\<lparr>dest_tx_hash := Some tx\<rparr>"

definition safe_to_initiate_second_leg :: "u64 \<Rightarrow> htlc_swap \<Rightarrow> bool" where
  "safe_to_initiate_second_leg now s =
     (let remaining_blocks = remaining_time now s div block_time_seconds (dest_chain (swap_params s))
      in remaining_blocks \<ge> 6)"

section \<open>Runs\<close>

datatype htlc_event =
    SetSecret bytes
  | Claim bytes bytes
  | Refund u64 bytes
  | SourceTx bytes
  | DestTx bytes

fun htlc_step :: "(bytes \<Rightarrow> bytes) \<Rightarrow> htlc_event \<Rightarrow> htlc_swap \<Rightarrow> htlc_swap" where
  "htlc_step sha (SetSecret x) s = snd (set_secret sha x s)"
| "htlc_step sha (Claim x tx) s = snd (on_claim sha x tx s)"
| "htlc_step sha (Refund now tx) s = snd (on_refund now tx s)"
| "htlc_step sha (SourceTx tx) s = record_source_tx tx s"
| "htlc_step sha (DestTx tx) s = record_dest_tx tx s"

text \<open>A swap that was created here or taken over from the chain, with its history.\<close>

inductive reachable_swap :: "(bytes \<Rightarrow> bytes) \<Rightarrow> htlc_event list \<Rightarrow> htlc_swap \<Rightarrow> bool" for sha where
  created: "new_swap sha clock now source dest a b x y timeout = Inr s \<Longrightarrow> reachable_swap sha [] s"
| taken_over: "reachable_swap sha [] (swap_from_params params sid)"
| step: "reachable_swap sha es s \<Longrightarrow> reachable_swap sha (es @ [e]) (htlc_step sha e s)"

definition swap_ok :: "(bytes \<Rightarrow> bytes) \<Rightarrow> htlc_swap \<Rightarrow> bool" where
  "swap_ok sha s \<longleftrightarrow>
     (\<forall>x. swap_secret s = Some x \<longrightarrow> sha x = hash_lock (swap_params s)) \<and>
     (swap_state s \<in> {SecretRevealed, Claimed} \<longrightarrow> swap_secret s \<noteq> None) \<and>
     (claim_tx_hash s \<noteq> None \<longrightarrow> swap_secret s \<noteq> None) \<and> swap_state s \<noteq> HtlcExpired"

lemma swap_ok_step: "swap_ok sha s \<Longrightarrow> swap_ok sha (htlc_step sha e s)"
  by (cases e)
    (auto simp: swap_ok_def set_secret_def on_claim_def on_refund_def verify_secret_def
      record_source_tx_def record_dest_tx_def)

interpretation htlc: invariant_machine "htlc_step sha" "swap_ok sha" for sha
  by unfold_locales (rule swap_ok_step)

lemma reachable_swap_ok: "reachable_swap sha es s \<Longrightarrow> swap_ok sha s"
proof (induction rule: reachable_swap.induct)
  case created
  then show ?case by (auto simp: new_swap_def Let_def swap_ok_def split: if_splits)
next
  case taken_over
  then show ?case by (simp add: swap_from_params_def swap_ok_def)
next
  case step
  then show ?case by (simp add: swap_ok_step)
qed

text \<open>A known secret opens the lock.  In every state that a swap can reach, a secret that it holds
  hashes to its lock, a revealed or claimed swap holds one, and so does a swap with a claim
  transaction.\<close>

lemma known_secret_opens_lock:
  "reachable_swap sha es s \<Longrightarrow>
     (\<forall>x. swap_secret s = Some x \<longrightarrow> verify_secret sha x s) \<and>
     (swap_state s \<in> {SecretRevealed, Claimed} \<or> claim_tx_hash s \<noteq> None \<longrightarrow> swap_secret s \<noteq> None)"
  using reachable_swap_ok [of sha es s] by (auto simp: swap_ok_def verify_secret_def)

lemma known_secret_opens_lock_example:
  "\<exists>es s. reachable_swap (map (\<lambda>b. b + 1)) es s \<and> swap_state s = Claimed \<and> swap_secret s = Some [1, 2] \<and>
     verify_secret (map (\<lambda>b. b + 1)) [1, 2] s"
proof -
  let ?p = "\<lparr>hash_lock = [2, 3], time_lock = 100, source_chain = Ethereum, dest_chain = Solana,
    source_amount = 1, dest_amount = 1, source_asset = [], dest_asset = []\<rparr>"
  let ?s = "htlc_step (map (\<lambda>b. b + 1)) (Claim [1, 2] [9]) (swap_from_params ?p [7])"
  have "reachable_swap (map (\<lambda>b. b + 1)) ([] @ [Claim [1, 2] [9]]) ?s"
    by (rule reachable_swap.step, rule reachable_swap.taken_over)
  moreover have "swap_state ?s = Claimed" "swap_secret ?s = Some [1, 2]"
    by (simp_all add: on_claim_def verify_secret_def swap_from_params_def)
  ultimately show ?thesis using known_secret_opens_lock by blast
qed

subsection \<open>Refunds\<close>

lemma htlc_step_lock: "time_lock (swap_params (htlc_step sha e s)) = time_lock (swap_params s)"
  by (cases e) (simp_all add: set_secret_def on_claim_def on_refund_def record_source_tx_def record_dest_tx_def)

lemma refund_in_history:
  "reachable_swap sha es s \<Longrightarrow>
     swap_state s = Refunded \<longrightarrow> (\<exists>now tx. Refund now tx \<in> set es \<and> time_lock (swap_params s) \<le> now)"
proof (induction rule: reachable_swap.induct)
  case (step es s e)
  have ok: "swap_state s \<noteq> HtlcExpired" using reachable_swap_ok [OF step(1)] by (simp add: swap_ok_def)
  show ?case
  proof (cases "swap_state s = Refunded")
    case True
    then show ?thesis using step(2) by (auto simp only: htlc_step_lock set_append)
  next
    case False
    then have "swap_state (htlc_step sha e s) = Refunded \<longrightarrow> (\<exists>now tx. e = Refund now tx \<and> time_lock (swap_params s) \<le> now)"
      using ok by (cases e) (auto simp: set_secret_def on_claim_def on_refund_def is_expired_def
          record_source_tx_def record_dest_tx_def split: if_splits)
    then show ?thesis by (auto simp: htlc_step_lock)
  qed
qed (auto simp: new_swap_def Let_def swap_from_params_def split: if_splits)

text \<open>No refund before the expiry.  A swap that is marked as refunded was refunded at a time at or
  after its time lock, and in every reachable state a refund is accepted exactly if the clock has
  reached the time lock.  (The state \<open>Expired\<close>, which would also allow it, is never entered.)\<close>

lemma refund_only_after_expiry:
  assumes "reachable_swap sha es s"
  shows "(swap_state s = Refunded \<longrightarrow> (\<exists>now tx. Refund now tx \<in> set es \<and> time_lock (swap_params s) \<le> now)) \<and>
    (fst (on_refund now tx s) = Inr () \<longleftrightarrow> time_lock (swap_params s) \<le> now)"
  using refund_in_history [OF assms] reachable_swap_ok [OF assms]
  by (auto simp: on_refund_def is_expired_def swap_ok_def)

definition example_params :: htlc_params where
  "example_params = \<lparr>hash_lock = [2, 3], time_lock = 100, source_chain = Ethereum, dest_chain = Solana,
     source_amount = 1, dest_amount = 1, source_asset = [], dest_asset = []\<rparr>"

lemma refund_only_after_expiry_example:
  "fst (on_refund 99 [9] (swap_from_params example_params [7])) \<noteq> Inr () \<and>
   fst (on_refund 100 [9] (swap_from_params example_params [7])) = Inr ()"
  using refund_only_after_expiry [OF reachable_swap.taken_over [of id example_params "[7]"], of _ "[9]"]
  by (simp add: example_params_def swap_from_params_def)

text \<open>A claim and a refund of the same swap are both accepted.  Once the lock has expired, a claim
  with the right secret does not keep a later refund out, nor a refund a later claim; both
  transactions are then on record.\<close>

lemma claim_and_refund_both_accepted:
  assumes "verify_secret sha x s" "is_expired now s"
  shows "(\<exists>s1 s2. on_claim sha x tx s = (Inr (), s1) \<and> on_refund now tx' s1 = (Inr (), s2) \<and>
      swap_state s2 = Refunded \<and> claim_tx_hash s2 = Some tx \<and> source_tx_hash s2 = Some tx') \<and>
    (\<exists>s1 s2. on_refund now tx' s = (Inr (), s1) \<and> on_claim sha x tx s1 = (Inr (), s2) \<and>
      swap_state s2 = Claimed \<and> claim_tx_hash s2 = Some tx \<and> source_tx_hash s2 = Some tx')"
  using assms by (simp add: on_claim_def on_refund_def verify_secret_def is_expired_def)

lemma claim_and_refund_both_accepted_example:
  "\<exists>s1 s2. on_claim (map (\<lambda>b. b + 1)) [1, 2] [8] (swap_from_params example_params [7]) = (Inr (), s1) \<and>
     on_refund 100 [9] s1 = (Inr (), s2) \<and> claim_tx_hash s2 = Some [8] \<and> source_tx_hash s2 = Some [9]"
  using claim_and_refund_both_accepted
    [of "map (\<lambda>b. b + 1)" "[1, 2]" "swap_from_params example_params [7]" 100 "[8]" "[9]"]
  by (auto simp: example_params_def swap_from_params_def verify_secret_def is_expired_def)

subsection \<open>Timeouts\<close>

lemma block_time_pos: "0 < unat (block_time_seconds c)" "unat (block_time_seconds c) \<le> 12"
  by (cases c; simp)+

lemma unat_min_timeout:
  "unat (max (block_time_seconds a) (block_time_seconds b) * 10) =
     10 * max (unat (block_time_seconds a)) (unat (block_time_seconds b))"
  by (cases a; cases b) simp_all

text \<open>A new swap leaves time for the second leg.  If its expiry does not overflow the clock, a swap
  that was created at \<open>now\<close> is safe for the second leg for at least four block times of the slower
  chain; and at any time, safe means six block times of the destination chain before the expiry.\<close>

lemma new_swap_leaves_time:
  assumes "new_swap sha clock now source dest a b x y timeout = Inr s"
    and "unat now + unat timeout < 2 ^ 64"
    and "unat now \<le> unat t"
    and "unat t \<le> unat now + 4 * max (unat (block_time_seconds source)) (unat (block_time_seconds dest))"
  shows "safe_to_initiate_second_leg t s"
proof -
  let ?m = "max (unat (block_time_seconds source)) (unat (block_time_seconds dest))"
  have s: "time_lock (swap_params s) = now + timeout" "dest_chain (swap_params s) = dest"
      "\<not> timeout < max (block_time_seconds source) (block_time_seconds dest) * 10"
    using assms(1) by (auto simp: new_swap_def Let_def split: if_splits)
  have lock: "unat (now + timeout) = unat now + unat timeout"
    using assms(2) by (simp add: unat_add_no_wrap)
  have "10 * ?m \<le> unat timeout" using s(3) by (simp add: word_less_nat_alt unat_min_timeout not_less)
  then have left: "unat t + 6 * unat (block_time_seconds dest) \<le> unat (now + timeout)"
    using assms(4) unfolding lock by linarith
  moreover have "unat t < unat (now + timeout)" using left block_time_pos(1) [of dest] by linarith
  ultimately have "unat (remaining_time t s) = unat (now + timeout) - unat t"
    by (auto simp: remaining_time_def s word_le_nat_alt unat_sub)
  then have "6 \<le> unat (remaining_time t s) div unat (block_time_seconds dest)"
    using left block_time_pos(1) [of dest] by (simp add: less_eq_div_iff_mult_less_eq)
  then show ?thesis
    by (simp add: safe_to_initiate_second_leg_def s word_le_nat_alt unat_div)
qed

lemma new_swap_leaves_time_example:
  "\<exists>s. new_swap id (\<lambda>_. 7) 1000 Ethereum Solana 1 1 [] [] 120 = Inr s \<and> safe_to_initiate_second_leg 1048 s"
proof -
  obtain s where s: "new_swap id (\<lambda>_. 7) 1000 Ethereum Solana 1 1 [] [] 120 = Inr s"
    by (simp add: new_swap_def Let_def)
  then show ?thesis using new_swap_leaves_time [OF s, of 1048] by simp
qed

text \<open>With the clock of one second, a generated secret is one of 256.\<close>

lemma secrets_are_few: "card (range (\<lambda>t. generate_secret (\<lambda>_. t))) \<le> 256"
proof -
  let ?f = "\<lambda>b :: u8. map (\<lambda>i. of_nat i + b) [0..<32]"
  have "range (\<lambda>t. generate_secret (\<lambda>_. t)) \<subseteq> ?f ` UNIV" by (auto simp: generate_secret_def)
  then have "card (range (\<lambda>t. generate_secret (\<lambda>_. t))) \<le> card (?f ` UNIV)"
    by (rule card_mono [rotated]) simp
  also have "\<dots> \<le> card (UNIV :: u8 set)" by (rule card_image_le) simp
  finally show ?thesis by (simp add: card_word)
qed

end
