(* ===== verification/Ring_Queue.thy ===== *)
theory Ring_Queue
  imports Interfaces
begin

text \<open>
  The bounded ring queue of \<open>crates/nexus_risk/src/gatekeeper/lock_free_order_queue.rs\<close>, one call
  at a time: the sequence number of each slot says whether it is ready for a producer or a
  consumer.  The retry loops carry fuel, since a call that finds its slot not ready spins; the
  theorems show that a call that meets no other thread never spins.  The queue is an instance
  of the contract \<open>fifo_queue\<close>.
\<close>

section \<open>State\<close>

record 'a ring_queue =
  slot_sequence :: "nat \<Rightarrow> u64"
  slot_data :: "nat \<Rightarrow> 'a option"
  capacity :: nat
  index_mask :: u64
  head :: u64
  tail :: u64
  item_count :: u64
  dropped_count :: u64

function next_power_of_two :: "nat \<Rightarrow> nat" where
  "next_power_of_two n = (if n \<le> 1 then 1 else 2 * next_power_of_two ((n + 1) div 2))"
  by auto
termination by (relation "measure id") auto

declare next_power_of_two.simps [simp del]

definition new_ring_queue :: "nat \<Rightarrow> panic + 'a ring_queue" where
  "new_ring_queue requested =
     (if requested = 0 \<or> requested > 2 ^ 30 then Inl AssertionFailed
      else
        let actual = next_power_of_two requested
        in Inr \<lparr>slot_sequence = of_nat, slot_data = \<lambda>_. None, capacity = actual,
                index_mask = of_nat (actual - 1), head = 0, tail = 0, item_count = 0,
                dropped_count = 0\<rparr>)"

definition slot_index :: "'a ring_queue \<Rightarrow> u64 \<Rightarrow> nat" where
  "slot_index q p = unat (p AND index_mask q)"

section \<open>Operations\<close>

text \<open>
  \<open>Err(item)\<close> is \<open>Inl item\<close>.  With no other thread the exchange of \<open>head\<close> succeeds; a weak
  exchange that fails spuriously repeats the iteration with the same values.
\<close>

fun try_enqueue :: "nat \<Rightarrow> 'a \<Rightarrow> 'a ring_queue \<Rightarrow> (('a + unit) \<times> 'a ring_queue) option" where
  "try_enqueue 0 item q = None"
| "try_enqueue (Suc fuel) item q =
     (let h = head q; t = tail q
      in if h - t \<ge> of_nat (capacity q) then Some (Inl item, q)
         else
           let i = slot_index q h
           in if slot_sequence q i - h = 0 then
                Some (Inr (),
                  q\<lparr>head := h + 1, slot_data := (slot_data q)(i := Some item),
                    slot_sequence := (slot_sequence q)(i := h + 1), item_count := item_count q + 1\<rparr>)
              else try_enqueue fuel item q)"

fun try_dequeue ::
  "nat \<Rightarrow> ('a \<Rightarrow> bool) \<Rightarrow> 'a ring_queue \<Rightarrow> (('a + 'a option) \<times> 'a ring_queue) option" where
  "try_dequeue 0 validator q = None"
| "try_dequeue (Suc fuel) validator q =
     (let t = tail q; h = head q
      in if t \<ge> h then Some (Inr None, q)
         else
           let i = slot_index q t
           in if slot_sequence q i - (t + 1) = 0 then
                let item = slot_data q i;
                    q1 = q\<lparr>tail := t + 1, slot_data := (slot_data q)(i := None),
                           slot_sequence := (slot_sequence q)(i := t + of_nat (capacity q)),
                           item_count := item_count q - 1\<rparr>
                in case item of
                     Some x \<Rightarrow>
                       if validator x then Some (Inr (Some x), q1)
                       else Some (Inl x, q1\<lparr>dropped_count := dropped_count q1 + 1\<rparr>)
                   | None \<Rightarrow> Some (Inr None, q1)
              else try_dequeue fuel validator q)"

definition queue_len :: "'a ring_queue \<Rightarrow> u64" where
  "queue_len q = item_count q"

definition queue_is_empty :: "'a ring_queue \<Rightarrow> bool" where
  "queue_is_empty q \<longleftrightarrow> queue_len q = 0"

section \<open>The capacity\<close>

lemma next_power_of_two_spec:
  "\<exists>k. next_power_of_two n = 2 ^ k \<and> n \<le> 2 ^ k \<and> (n \<le> 2 ^ m \<longrightarrow> k \<le> m)"
proof (induction n arbitrary: m rule: next_power_of_two.induct)
  case (1 n)
  show ?case
  proof (cases "n \<le> 1")
    case True
    then show ?thesis by (intro exI [of _ 0]) (simp add: next_power_of_two.simps)
  next
    case False
    obtain k where k: "next_power_of_two ((n + 1) div 2) = 2 ^ k" "(n + 1) div 2 \<le> 2 ^ k"
      "(n + 1) div 2 \<le> 2 ^ (m - 1) \<longrightarrow> k \<le> m - 1"
      using "1.IH" [OF False, of "m - 1"] by blast
    have "Suc k \<le> m" if le: "n \<le> 2 ^ m"
    proof (cases m)
      case 0
      then show ?thesis using le False by simp
    next
      case (Suc m')
      then have "(n + 1) div 2 \<le> 2 ^ (m - 1)" using le by simp
      then show ?thesis using k(3) Suc by simp
    qed
    moreover have "next_power_of_two n = 2 ^ Suc k"
      using False k(1) by (simp add: next_power_of_two.simps [of n])
    moreover have "n \<le> 2 ^ Suc k" using k(2) by simp
    ultimately show ?thesis by blast
  qed
qed

section \<open>The contents\<close>

text \<open>The queue holds the items of the positions from the tail to the head.\<close>

definition ring_contents :: "'a ring_queue \<Rightarrow> 'a list" where
  "ring_contents q = map (\<lambda>p. the (slot_data q (p mod capacity q))) [unat (tail q)..<unat (head q)]"

definition ring_inv :: "'a ring_queue \<Rightarrow> bool" where
  "ring_inv q \<longleftrightarrow>
     (\<exists>k \<le> 30. capacity q = 2 ^ k \<and> index_mask q = mask k) \<and>
     unat (tail q) \<le> unat (head q) \<and> unat (head q) \<le> unat (tail q) + capacity q \<and>
     (\<forall>p. unat (tail q) \<le> p \<and> p < unat (head q) \<longrightarrow>
        slot_sequence q (p mod capacity q) = of_nat (p + 1) \<and>
        slot_data q (p mod capacity q) \<noteq> None) \<and>
     (\<forall>p. unat (head q) \<le> p \<and> p < unat (tail q) + capacity q \<longrightarrow>
        slot_sequence q (p mod capacity q) = of_nat p) \<and>
     item_count q = head q - tail q"

text \<open>The head has not used up the 64-bit positions.\<close>

definition ring_fresh :: "'a ring_queue \<Rightarrow> bool" where
  "ring_fresh q \<longleftrightarrow> unat (head q) + 1 < 2 ^ 64"

lemma slot_index_mod: "ring_inv q \<Longrightarrow> slot_index q p = unat p mod capacity q"
  unfolding ring_inv_def slot_index_def
  by (auto simp: unat_and_mask)

text \<open>Within a window of \<open>capacity\<close> positions, different positions have different slots.\<close>

lemma mod_window_eq:
  assumes "t \<le> p" "p < t + c" "t \<le> (p' :: nat)" "p' < t + c" "p mod c = p' mod c"
  shows "p = p'"
proof -
  have "p = p'" if "p \<le> p'" "p mod c = p' mod c" "p' < p + c" for p p' :: nat
  proof -
    have "c dvd p' - p" using that mod_eq_dvd_iff_nat [of p p' c] by simp
    then show ?thesis using that by (auto dest: dvd_imp_le)
  qed
  from this [of p p'] this [of p' p] show ?thesis using assms by (cases "p \<le> p'") auto
qed

lemma ring_inv_window:
  assumes "ring_inv q"
  shows "unat (head q - tail q) = unat (head q) - unat (tail q)"
    and "unat (of_nat (capacity q) :: u64) = capacity q" and "0 < capacity q"
    and "length (ring_contents q) = unat (head q) - unat (tail q)"
proof -
  show "unat (head q - tail q) = unat (head q) - unat (tail q)"
    using assms by (intro unat_sub) (simp add: ring_inv_def word_le_nat_alt)
  obtain k where k: "capacity q = 2 ^ k" "k \<le> 30" using assms by (auto simp: ring_inv_def)
  then have "capacity q \<le> 2 ^ 30" using power_increasing [of k 30 "2 :: nat"] by simp
  then show "unat (of_nat (capacity q) :: u64) = capacity q"
    by (simp add: unsigned_of_nat take_bit_nat_eq_self)
  show "0 < capacity q" using k by simp
  show "length (ring_contents q) = unat (head q) - unat (tail q)" by (simp add: ring_contents_def)
qed

lemma ring_full_iff:
  assumes "ring_inv q"
  shows "head q - tail q \<ge> of_nat (capacity q) \<longleftrightarrow> length (ring_contents q) = capacity q"
  using assms ring_inv_window [OF assms] by (auto simp: word_le_nat_alt ring_inv_def)

lemma try_enqueue_full:
  assumes "ring_inv q" "length (ring_contents q) = capacity q"
  shows "try_enqueue (Suc n) x q = Some (Inl x, q)"
  using ring_full_iff [OF assms(1)] assms(2) by simp

lemma try_enqueue_room:
  assumes inv: "ring_inv q" and fresh: "ring_fresh q" and room: "length (ring_contents q) \<noteq> capacity q"
  obtains q' where "try_enqueue (Suc n) x q = Some (Inr (), q')" "ring_inv q'"
    "ring_contents q' = ring_contents q @ [x]" "capacity q' = capacity q" "head q' = head q + 1"
proof -
  let ?h = "unat (head q)" and ?t = "unat (tail q)" and ?c = "capacity q"
  let ?i = "?h mod ?c"
  let ?q = "q\<lparr>head := head q + 1, slot_data := (slot_data q)(?i := Some x),
      slot_sequence := (slot_sequence q)(?i := head q + 1), item_count := item_count q + 1\<rparr>"
  note win = ring_inv_window [OF inv]
  have lt: "?h < ?t + ?c" using inv room win by (auto simp: ring_inv_def)
  have th: "?t \<le> ?h" using inv by (simp add: ring_inv_def)
  have "slot_sequence q ?i = of_nat ?h" using inv lt th by (simp add: ring_inv_def)
  then have run: "try_enqueue (Suc n) x q = Some (Inr (), ?q)"
    using ring_full_iff [OF inv] room slot_index_mod [OF inv] by (simp add: Let_def)
  have h1: "unat (head q + 1) = ?h + 1"
    using fresh by (intro unat_inc) (simp add: ring_fresh_def)
  have other: "p mod ?c \<noteq> ?i" if "?t \<le> p" "p < ?h" for p
    using mod_window_eq [of ?t p ?c ?h] that lt th by auto
  have other': "p mod ?c \<noteq> ?i" if "?h < p" "p < ?t + ?c" for p
    using mod_window_eq [of ?t p ?c ?h] that lt th by auto
  have "ring_contents ?q = ring_contents q @ [x]"
    using th other by (simp add: ring_contents_def h1)
  moreover have "ring_inv ?q"
  proof -
    have "slot_sequence ?q (p mod ?c) = of_nat (p + 1) \<and> slot_data ?q (p mod ?c) \<noteq> None"
      if "?t \<le> p" "p < ?h + 1" for p
    proof (cases "p = ?h")
      case True
      then show ?thesis by simp
    next
      case False
      then show ?thesis using that other [of p] inv by (simp add: ring_inv_def)
    qed
    moreover have "slot_sequence ?q (p mod ?c) = of_nat p" if "?h + 1 \<le> p" "p < ?t + ?c" for p
      using that other' [of p] inv by (simp add: ring_inv_def)
    ultimately show ?thesis
      using inv lt h1 unfolding ring_inv_def by simp
  qed
  ultimately show thesis using that run by simp
qed

lemma try_dequeue_empty:
  assumes "ring_inv q" "ring_contents q = []"
  shows "try_dequeue (Suc n) v q = Some (Inr None, q)"
  using ring_inv_window [OF assms(1)] assms(2) by (simp add: word_le_nat_alt)

lemma try_dequeue_item:
  assumes inv: "ring_inv q" and item: "ring_contents q = x # xs"
  obtains q' where
    "try_dequeue (Suc n) v q =
       Some (if v x then (Inr (Some x), q') else (Inl x, q'\<lparr>dropped_count := dropped_count q' + 1\<rparr>))"
    "ring_inv q'" "ring_contents q' = xs" "capacity q' = capacity q" "head q' = head q"
proof -
  let ?h = "unat (head q)" and ?t = "unat (tail q)" and ?c = "capacity q"
  let ?i = "?t mod ?c"
  let ?q = "q\<lparr>tail := tail q + 1, slot_data := (slot_data q)(?i := None),
      slot_sequence := (slot_sequence q)(?i := tail q + of_nat ?c), item_count := item_count q - 1\<rparr>"
  note win = ring_inv_window [OF inv]
  have lt: "?t < ?h" using win(4) item by simp
  have hc: "?h \<le> ?t + ?c" using inv by (simp add: ring_inv_def)
  have split: "[?t..<?h] = ?t # [Suc ?t..<?h]" using lt by (simp add: upt_conv_Cons)
  have "slot_sequence q ?i = of_nat (?t + 1)" "slot_data q ?i \<noteq> None"
    using inv lt by (simp_all add: ring_inv_def)
  moreover have "the (slot_data q ?i) = x" using item split by (simp add: ring_contents_def)
  ultimately have slot: "slot_sequence q ?i - (tail q + 1) = 0" "slot_data q ?i = Some x" by auto
  have run: "try_dequeue (Suc n) v q =
      Some (if v x then (Inr (Some x), ?q) else (Inl x, ?q\<lparr>dropped_count := dropped_count ?q + 1\<rparr>))"
    using slot lt slot_index_mod [OF inv] by (simp add: Let_def word_le_nat_alt)
  have t1: "unat (tail q + 1) = ?t + 1"
    using lt unat_lt_2p [of "head q"] by (intro unat_inc) simp
  have other: "p mod ?c \<noteq> ?i" if "?t < p" "p < ?t + ?c" for p
    using mod_window_eq [of ?t p ?c ?t] that by auto
  have "ring_contents ?q = xs"
  proof -
    have "ring_contents ?q = map (\<lambda>p. the (slot_data q (p mod ?c))) [Suc ?t..<?h]"
      using other hc by (auto simp: ring_contents_def t1)
    then show ?thesis using item split by (simp add: ring_contents_def)
  qed
  moreover have "ring_inv ?q"
  proof -
    have "slot_sequence ?q (p mod ?c) = of_nat (p + 1) \<and> slot_data ?q (p mod ?c) \<noteq> None"
      if "?t + 1 \<le> p" "p < ?h" for p
      using that other [of p] hc inv by (simp add: ring_inv_def)
    moreover have "slot_sequence ?q (p mod ?c) = of_nat p" if "?h \<le> p" "p < ?t + 1 + ?c" for p
    proof (cases "p = ?t + ?c")
      case True
      then show ?thesis by simp
    next
      case False
      then show ?thesis using that lt other [of p] inv by (simp add: ring_inv_def)
    qed
    ultimately show ?thesis
      using inv lt hc t1 unfolding ring_inv_def by simp
  qed
  ultimately show thesis using that run by simp
qed

text \<open>From here on the operations are used through the lemmas above.\<close>

declare try_enqueue.simps [simp del] try_dequeue.simps [simp del]

section \<open>A new queue\<close>

lemma new_ring_queue_inv:
  assumes "new_ring_queue n = Inr q"
  shows "ring_inv q" and "ring_contents q = []" and "head q = 0" and "n \<le> capacity q"
proof -
  have n: "0 < n" "n \<le> 2 ^ 30" and q: "q = \<lparr>slot_sequence = of_nat, slot_data = \<lambda>_. None,
      capacity = next_power_of_two n, index_mask = of_nat (next_power_of_two n - 1), head = 0,
      tail = 0, item_count = 0, dropped_count = 0\<rparr>"
    using assms by (auto simp: new_ring_queue_def Let_def split: if_splits)
  obtain k where k: "next_power_of_two n = 2 ^ k" "n \<le> 2 ^ k" "n \<le> 2 ^ 30 \<longrightarrow> k \<le> 30"
    using next_power_of_two_spec by blast
  have "(of_nat (2 ^ k - 1) :: u64) = mask k"
    by (simp add: mask_eq_exp_minus_1 of_nat_diff)
  then show "ring_inv q" using k n by (auto simp: ring_inv_def q)
  show "ring_contents q = []" "head q = 0" "n \<le> capacity q"
    using k by (simp_all add: q ring_contents_def)
qed

section \<open>The contract\<close>

definition ring_push :: "'a \<Rightarrow> 'a ring_queue \<Rightarrow> bool \<times> 'a ring_queue" where
  "ring_push x q = (case try_enqueue 1 x q of Some (Inr _, q') \<Rightarrow> (True, q') | _ \<Rightarrow> (False, q))"

definition ring_pop :: "'a ring_queue \<Rightarrow> 'a option \<times> 'a ring_queue" where
  "ring_pop q = (case try_dequeue 1 (\<lambda>_. True) q of Some (Inr r, q') \<Rightarrow> (r, q') | _ \<Rightarrow> (None, q))"

lemma ring_push_cases:
  assumes "ring_inv q" "ring_fresh q"
  shows "ring_inv (snd (ring_push x q)) \<and>
         ring_contents (snd (ring_push x q)) =
           (if fst (ring_push x q) then ring_contents q @ [x] else ring_contents q)"
proof (cases "length (ring_contents q) = capacity q")
  case True
  then have "ring_push x q = (False, q)"
    using try_enqueue_full [OF assms(1) True, of 0 x] by (simp add: ring_push_def)
  then show ?thesis using assms by simp
next
  case False
  obtain q' where q': "try_enqueue (Suc 0) x q = Some (Inr (), q')" "ring_inv q'"
    "ring_contents q' = ring_contents q @ [x]"
    by (rule try_enqueue_room [OF assms False])
  then have "ring_push x q = (True, q')" by (simp add: ring_push_def)
  then show ?thesis using q' by simp
qed

lemma ring_pop_cases:
  assumes "ring_inv q"
  shows "ring_inv (snd (ring_pop q)) \<and>
         (case fst (ring_pop q) of
            None \<Rightarrow> ring_contents q = [] \<and> ring_contents (snd (ring_pop q)) = []
          | Some x \<Rightarrow> ring_contents q = x # ring_contents (snd (ring_pop q)))"
proof (cases "ring_contents q")
  case Nil
  then have "ring_pop q = (None, q)"
    using try_dequeue_empty [OF assms Nil, of 0] by (simp add: ring_pop_def)
  then show ?thesis using assms Nil by simp
next
  case (Cons x xs)
  obtain q' where q': "try_dequeue (Suc 0) (\<lambda>_. True) q = Some (Inr (Some x), q')" "ring_inv q'"
    "ring_contents q' = xs"
    by (rule try_dequeue_item [OF assms Cons, of 0 "\<lambda>_. True"]) simp
  then have "ring_pop q = (Some x, q')" by (simp add: ring_pop_def)
  then show ?thesis using q' Cons by simp
qed

interpretation ring: fifo_queue ring_push ring_pop ring_contents ring_inv ring_fresh
proof
  fix q :: "'a ring_queue" and x
  assume "ring_inv q"
  note pop = ring_pop_cases [OF this]
  show "ring_inv (snd (ring_pop q))" using pop by blast
  show "case fst (ring_pop q) of None \<Rightarrow> ring_contents q = [] \<and> ring_contents (snd (ring_pop q)) = []
      | Some x \<Rightarrow> ring_contents q = x # ring_contents (snd (ring_pop q))" using pop by blast
  assume "ring_fresh q"
  note push = ring_push_cases [OF \<open>ring_inv q\<close> this, of x]
  show "ring_inv (snd (ring_push x q))" using push by blast
  show "ring_contents (snd (ring_push x q)) =
      (if fst (ring_push x q) then ring_contents q @ [x] else ring_contents q)" using push by blast
qed

section \<open>Calls, and the bounded list they implement\<close>

datatype 'a queue_call = Enqueue 'a | Dequeue "'a \<Rightarrow> bool"

datatype 'a queue_reply =
    Accepted
  | QueueFull 'a
  | Item 'a
  | QueueEmpty
  | Dropped 'a

fun ring_call :: "nat \<Rightarrow> 'a queue_call \<Rightarrow> 'a ring_queue \<Rightarrow> ('a queue_reply \<times> 'a ring_queue) option" where
  "ring_call fuel (Enqueue x) q =
     map_option (\<lambda>(r, q'). (case r of Inr _ \<Rightarrow> Accepted | Inl y \<Rightarrow> QueueFull y, q'))
       (try_enqueue fuel x q)"
| "ring_call fuel (Dequeue v) q =
     map_option (\<lambda>(r, q'). (case r of Inr (Some x) \<Rightarrow> Item x | Inr None \<Rightarrow> QueueEmpty | Inl x \<Rightarrow> Dropped x, q'))
       (try_dequeue fuel v q)"

fun ring_calls :: "nat \<Rightarrow> 'a queue_call list \<Rightarrow> 'a ring_queue \<Rightarrow> ('a queue_reply list \<times> 'a ring_queue) option" where
  "ring_calls fuel [] q = Some ([], q)"
| "ring_calls fuel (c # cs) q =
     (case ring_call fuel c q of
        None \<Rightarrow> None
      | Some (r, q') \<Rightarrow> map_option (\<lambda>(rs, q''). (r # rs, q'')) (ring_calls fuel cs q'))"

text \<open>The specification: a list with a greatest length.\<close>

fun list_call :: "nat \<Rightarrow> 'a queue_call \<Rightarrow> 'a list \<Rightarrow> 'a queue_reply \<times> 'a list" where
  "list_call cap (Enqueue x) xs = (if length xs < cap then (Accepted, xs @ [x]) else (QueueFull x, xs))"
| "list_call cap (Dequeue v) [] = (QueueEmpty, [])"
| "list_call cap (Dequeue v) (x # xs) = (if v x then Item x else Dropped x, xs)"

fun list_calls :: "nat \<Rightarrow> 'a queue_call list \<Rightarrow> 'a list \<Rightarrow> 'a queue_reply list \<times> 'a list" where
  "list_calls cap [] xs = ([], xs)"
| "list_calls cap (c # cs) xs =
     (let (r, ys) = list_call cap c xs; (rs, zs) = list_calls cap cs ys in (r # rs, zs))"

lemma ring_call_refines:
  assumes inv: "ring_inv q" and fresh: "ring_fresh q"
  obtains q' where "ring_call (Suc n) c q = Some (fst (list_call (capacity q) c (ring_contents q)), q')"
    "ring_contents q' = snd (list_call (capacity q) c (ring_contents q))"
    "ring_inv q'" "capacity q' = capacity q" "unat (head q') \<le> unat (head q) + 1"
proof (cases c)
  case (Enqueue x)
  show thesis
  proof (cases "length (ring_contents q) = capacity q")
    case True
    then show thesis
      using that [of q] try_enqueue_full [OF inv True, of n x] inv Enqueue by simp
  next
    case False
    then have lt: "length (ring_contents q) < capacity q"
      using inv ring_inv_window [OF inv] by (auto simp: ring_inv_def)
    obtain q' where q': "try_enqueue (Suc n) x q = Some (Inr (), q')" "ring_inv q'"
      "ring_contents q' = ring_contents q @ [x]" "capacity q' = capacity q" "head q' = head q + 1"
      by (rule try_enqueue_room [OF inv fresh False])
    then have "unat (head q') \<le> unat (head q) + 1"
      using fresh unat_inc [of "head q"] by (simp add: ring_fresh_def)
    then show thesis using that [of q'] q' lt Enqueue by simp
  qed
next
  case (Dequeue v)
  show thesis
  proof (cases "ring_contents q")
    case Nil
    then show thesis using that [of q] try_dequeue_empty [OF inv Nil, of n v] inv Dequeue by simp
  next
    case (Cons x xs)
    obtain q' where q': "try_dequeue (Suc n) v q =
        Some (if v x then (Inr (Some x), q') else (Inl x, q'\<lparr>dropped_count := dropped_count q' + 1\<rparr>))"
      "ring_inv q'" "ring_contents q' = xs" "capacity q' = capacity q" "head q' = head q"
      by (rule try_dequeue_item [OF inv Cons])
    let ?d = "q'\<lparr>dropped_count := dropped_count q' + 1\<rparr>"
    have d: "ring_inv ?d" "ring_contents ?d = xs" "capacity ?d = capacity q" "head ?d = head q"
      using q' by (simp_all add: ring_inv_def ring_contents_def)
    show thesis
    proof (cases "v x")
      case True
      show thesis by (rule that [of q']) (simp_all add: Dequeue Cons True q')
    next
      case False
      show thesis by (rule that [of ?d]) (simp_all add: Dequeue Cons False q'(1) d)
    qed
  qed
qed

lemma ring_calls_refine:
  assumes "ring_inv q" "unat (head q) + length cs < 2 ^ 64"
  obtains q' where "ring_calls (Suc n) cs q = Some (fst (list_calls (capacity q) cs (ring_contents q)), q')"
    "ring_contents q' = snd (list_calls (capacity q) cs (ring_contents q))"
  using assms
proof (induction cs arbitrary: q thesis)
  case Nil
  then show ?case by simp
next
  case (Cons c cs)
  have "ring_fresh q" using Cons.prems by (simp add: ring_fresh_def)
  then obtain q1 where q1: "ring_call (Suc n) c q = Some (fst (list_call (capacity q) c (ring_contents q)), q1)"
    "ring_contents q1 = snd (list_call (capacity q) c (ring_contents q))"
    "ring_inv q1" "capacity q1 = capacity q" "unat (head q1) \<le> unat (head q) + 1"
    using ring_call_refines Cons.prems by blast
  have "unat (head q1) + length cs < 2 ^ 64" using q1(5) Cons.prems by simp
  then obtain q2 where q2:
    "ring_calls (Suc n) cs q1 = Some (fst (list_calls (capacity q) cs (ring_contents q1)), q2)"
    "ring_contents q2 = snd (list_calls (capacity q) cs (ring_contents q1))"
    using Cons.IH [OF _ q1(3)] q1(4) by metis
  show ?case
    by (rule Cons.prems(1) [of q2]) (simp_all add: q1(1) q2 case_prod_beta Let_def flip: q1(2))
qed

section \<open>Properties\<close>

text \<open>C34. The ring queue implements a bounded first-in-first-out list.  A queue created for \<open>n\<close>
  items has a capacity of at least \<open>n\<close>, and any sequence of fewer than 2^64 calls that do not
  overlap gets the replies of a list with that greatest length: an enqueue is refused exactly
  when the list is full and then returns its item, a dequeue returns the oldest item, or drops
  it when the validator says so.  No call spins: one iteration of each retry loop is enough.\<close>

theorem ring_queue_refines_list:
  assumes "new_ring_queue n = Inr q" "length calls < 2 ^ 64"
  shows "n \<le> capacity q \<and>
         (\<exists>q'. ring_calls 1 calls q = Some (fst (list_calls (capacity q) calls []), q') \<and>
               ring_contents q' = snd (list_calls (capacity q) calls []))"
proof -
  note new = new_ring_queue_inv [OF assms(1)]
  have "unat (head q) + length calls < 2 ^ 64" using assms(2) new(3) by simp
  from ring_calls_refine [OF new(1) this, of 0] show ?thesis
    using new(2,4) by (metis One_nat_def)
qed

definition example_ring :: "nat ring_queue" where
  "example_ring = (case new_ring_queue 3 of Inr q \<Rightarrow> q)"

lemma example_ring_new: "new_ring_queue 3 = Inr example_ring"
  by (simp add: example_ring_def new_ring_queue_def Let_def)

lemma ring_queue_refines_list_witness:
  "\<exists>q'. ring_calls 1 [Enqueue 10, Enqueue 20, Dequeue even, Enqueue 30, Dequeue odd, Dequeue even, Dequeue even]
     example_ring = Some ([Accepted, Accepted, Item 10, Accepted, Dropped 20, Item 30, QueueEmpty], q')"
proof -
  have cap: "0 < capacity example_ring" "3 \<le> capacity example_ring"
    using new_ring_queue_inv(4) [OF example_ring_new] by simp_all
  from ring_queue_refines_list [OF example_ring_new, of "[Enqueue 10, Enqueue 20, Dequeue even,
      Enqueue 30, Dequeue odd, Dequeue even, Dequeue even]"] show ?thesis
    using cap by (auto simp: less_le_trans [of _ 3])
qed

end
