(* ===== verification/Spsc_Ring.thy ===== *)
theory Spsc_Ring
  imports Ring_Queue
begin

text \<open>
  The ring buffer between the ingesting thread and its consumer,
  \<open>crates/nexus_core/src/concurrency/spsc_ring.rs\<close>.  One thread pushes byte messages, one pops
  them.  A position is masked after every increment, a slot carries a length, a sequence number
  and 4032 bytes.  The loop in which \<open>push\<close> waits for its slot is a recursion over what the
  consumer does meanwhile: a list of pops, each with its output buffer; when the list ends the
  producer is still waiting.  The theory shows that the first message arrives as it was sent and
  that no second one can ever be sent.
\<close>

section \<open>State\<close>

definition MAX_SLOT_DATA_SIZE :: nat where "MAX_SLOT_DATA_SIZE = 4096 - 64"

datatype ring_buffer_error = RbFull | RbEmpty | InvalidCapacity | MessageTooLarge

record spsc_slot =
  sl_length :: nat
  sl_sequence :: u64
  sl_data :: "u8 list"

definition new_slot :: spsc_slot where
  "new_slot = \<lparr>sl_length = 0, sl_sequence = 0, sl_data = replicate MAX_SLOT_DATA_SIZE 0\<rparr>"

record spsc =
  sp_head :: nat
  cached_tail :: nat
  sp_tail :: nat
  cached_head :: nat
  sp_slots :: "nat \<Rightarrow> spsc_slot"
  capacity_mask :: nat
  sp_capacity :: nat

definition new_spsc :: "nat \<Rightarrow> ring_buffer_error + spsc" where
  "new_spsc requested =
     (if requested = 0 then Inl InvalidCapacity
      else
        let actual = next_power_of_two requested
        in if actual > 65536 then Inl InvalidCapacity
           else Inr \<lparr>sp_head = 0, cached_tail = 0, sp_tail = 0, cached_head = 0,
                     sp_slots = \<lambda>_. new_slot, capacity_mask = actual - 1, sp_capacity = actual\<rparr>)"

text \<open>\<open>copy_nonoverlapping\<close> overwrites the first bytes of the destination.\<close>

definition copy_bytes :: "u8 list \<Rightarrow> u8 list \<Rightarrow> u8 list" where
  "copy_bytes src dst = src @ drop (length src) dst"

definition at_spsc_slot :: "nat \<Rightarrow> (spsc_slot \<Rightarrow> spsc_slot) \<Rightarrow> spsc \<Rightarrow> spsc" where
  "at_spsc_slot i f r = r\<lparr>sp_slots := (sp_slots r)(i := f (sp_slots r i))\<rparr>"

definition advance_slot :: "nat \<Rightarrow> spsc_slot \<Rightarrow> spsc_slot" where
  "advance_slot cap s = s\<lparr>sl_sequence := sl_sequence s + of_nat cap\<rparr>"

section \<open>Operations\<close>

text \<open>The result, the output buffer, the ring.\<close>

definition spsc_pop :: "u8 list \<Rightarrow> spsc \<Rightarrow> panic + (ring_buffer_error + nat) \<times> u8 list \<times> spsc" where
  "spsc_pop out r =
     (let t = sp_tail r;
          r1 = (if t = cached_head r then r\<lparr>cached_head := sp_head r\<rparr> else r)
      in if t = cached_head r \<and> t = sp_head r then Inr (Inl RbEmpty, out, r1)
         else if t \<ge> sp_capacity r1 then Inl IndexOutOfBounds
         else
           let len = sl_length (sp_slots r1 t)
           in if len = 0 then Inr (Inl RbEmpty, out, r1)
              else if len > length out then Inr (Inl MessageTooLarge, out, r1)
              else
                let out' = copy_bytes (take len (sl_data (sp_slots r1 t))) out;
                    r2 = at_spsc_slot t (\<lambda>s. s\<lparr>sl_length := 0\<rparr>) r1;
                    r3 = r2\<lparr>sp_tail := (t + 1) AND capacity_mask r2\<rparr>;
                    r4 = at_spsc_slot t (advance_slot (sp_capacity r3)) r3
                in Inr (Inr len, out', r4))"

definition after_pop :: "u8 list \<Rightarrow> spsc \<Rightarrow> spsc" where
  "after_pop out r = (case spsc_pop out r of Inl _ \<Rightarrow> r | Inr (_, _, r') \<Rightarrow> r')"

fun wait_for_slot :: "nat \<Rightarrow> u8 list list \<Rightarrow> spsc \<Rightarrow> spsc option" where
  "wait_for_slot i env r =
     (if sl_sequence (sp_slots r i) = of_nat i then Some r
      else case env of [] \<Rightarrow> None | out # env' \<Rightarrow> wait_for_slot i env' (after_pop out r))"

declare wait_for_slot.simps [simp del]

text \<open>\<open>None\<close>: the producer is still in the loop.\<close>

definition spsc_push ::
  "u8 list list \<Rightarrow> u8 list \<Rightarrow> spsc \<Rightarrow> (panic + (ring_buffer_error + unit) \<times> spsc) option" where
  "spsc_push env data r =
     (if data = [] then Some (Inr (Inr (), r))
      else if length data > MAX_SLOT_DATA_SIZE then Some (Inr (Inl MessageTooLarge, r))
      else
        let h = sp_head r; next_head = (h + 1) AND capacity_mask r;
            r1 = (if next_head = cached_tail r then r\<lparr>cached_tail := sp_tail r\<rparr> else r)
        in if next_head = cached_tail r \<and> next_head = sp_tail r then Some (Inr (Inl RbFull, r1))
           else if h \<ge> sp_capacity r1 then Some (Inl IndexOutOfBounds)
           else
             case wait_for_slot h env r1 of
               None \<Rightarrow> None
             | Some r2 \<Rightarrow>
                 let r3 = at_spsc_slot h (\<lambda>s. s\<lparr>sl_data := copy_bytes data (sl_data s)\<rparr>) r2;
                     r4 = at_spsc_slot h (\<lambda>s. s\<lparr>sl_length := length data\<rparr>) r3;
                     r5 = r4\<lparr>sp_head := next_head\<rparr>
                 in Some (Inr (Inr (), at_spsc_slot h (advance_slot (sp_capacity r5)) r5)))"

definition spsc_is_empty :: "spsc \<Rightarrow> bool" where
  "spsc_is_empty r = (sp_tail r = sp_head r)"

definition spsc_is_full :: "spsc \<Rightarrow> bool" where
  "spsc_is_full r = ((sp_head r + 1) AND capacity_mask r = sp_tail r)"

definition spsc_len :: "spsc \<Rightarrow> nat" where
  "spsc_len r = (if sp_head r \<ge> sp_tail r then sp_head r - sp_tail r
                 else sp_capacity r - sp_tail r + sp_head r)"

definition reset_spsc :: "spsc \<Rightarrow> spsc" where
  "reset_spsc r =
     r\<lparr>sp_head := 0, sp_tail := 0, cached_tail := 0, cached_head := 0,
       sp_slots := \<lambda>i. if i < sp_capacity r then (sp_slots r i)\<lparr>sl_length := 0, sl_sequence := 0\<rparr>
                       else sp_slots r i\<rparr>"

section \<open>The first message\<close>

lemma new_spsc_state:
  assumes "new_spsc n = Inr r"
  shows "r = \<lparr>sp_head = 0, cached_tail = 0, sp_tail = 0, cached_head = 0, sp_slots = \<lambda>_. new_slot,
      capacity_mask = next_power_of_two n - 1, sp_capacity = next_power_of_two n\<rparr>"
    and "0 < n" "next_power_of_two n \<le> 65536"
  using assms by (auto simp: new_spsc_def Let_def split: if_splits)

lemma capacity_mask_mod: "x AND (next_power_of_two n - 1) = x mod next_power_of_two n"
proof -
  obtain k where k: "next_power_of_two n = 2 ^ k" using next_power_of_two_spec by blast
  show ?thesis
    unfolding k by (simp only: mask_eq_exp_minus_1 [symmetric] take_bit_eq_mask [symmetric] take_bit_eq_mod)
qed

lemma two_le_capacity: "2 \<le> n \<Longrightarrow> 2 \<le> next_power_of_two n"
  using next_power_of_two_spec [of n] by force

lemma four_le_capacity: "2 < n \<Longrightarrow> 4 \<le> next_power_of_two n"
proof -
  assume n: "2 < n"
  obtain k where k: "next_power_of_two n = 2 ^ k" "n \<le> 2 ^ k" using next_power_of_two_spec by blast
  have "\<not> k < 2"
  proof
    assume "k < 2"
    then have "k = 0 \<or> k = Suc 0" by linarith
    then show False using n k(2) by auto
  qed
  then show ?thesis using k(1) power_increasing [of 2 k "2 :: nat"] by simp
qed

lemma mask_is_odd: "2 \<le> next_power_of_two n \<Longrightarrow> (next_power_of_two n - Suc 0) mod 2 = Suc 0"
  using capacity_mask_mod [of 1 n] by (simp add: one_and_eq)

text \<open>The ring that holds one message, and the ring from which it was taken.\<close>

definition one_message :: "nat \<Rightarrow> u8 list \<Rightarrow> spsc" where
  "one_message cap data =
     \<lparr>sp_head = 1, cached_tail = 0, sp_tail = 0, cached_head = 0,
      sp_slots = (\<lambda>_. new_slot)(0 := \<lparr>sl_length = length data, sl_sequence = of_nat cap,
        sl_data = copy_bytes data (replicate MAX_SLOT_DATA_SIZE 0)\<rparr>),
      capacity_mask = cap - 1, sp_capacity = cap\<rparr>"

lemma first_push:
  assumes r: "new_spsc n = Inr r" and n: "2 \<le> n" and d: "data \<noteq> []" "length data \<le> MAX_SLOT_DATA_SIZE"
  shows "spsc_push env data r = Some (Inr (Inr (), one_message (next_power_of_two n) data))"
proof -
  have c: "(next_power_of_two n - Suc 0) mod 2 = Suc 0" "0 < next_power_of_two n"
    using mask_is_odd two_le_capacity [OF n] by simp_all
  show ?thesis
    unfolding new_spsc_state(1) [OF r] spsc_push_def
    using d c
    by (simp add: Let_def wait_for_slot.simps new_slot_def at_spsc_slot_def advance_slot_def one_message_def)
qed

text \<open>The first message arrives as it was sent.  A non-empty message of at most 4032 bytes that is
  pushed to a new ring of capacity two or more, and popped into a buffer that is long enough,
  is returned with its length and its bytes, and leaves the ring empty.\<close>

lemma first_message_round_trip:
  assumes "new_spsc n = Inr r" "2 \<le> n" "data \<noteq> []" "length data \<le> MAX_SLOT_DATA_SIZE"
    "length data \<le> length out"
  shows "\<exists>r1 r2. spsc_push env data r = Some (Inr (Inr (), r1)) \<and>
    spsc_pop out r1 = Inr (Inr (length data), data @ drop (length data) out, r2) \<and> spsc_is_empty r2"
proof -
  have c: "(next_power_of_two n - Suc 0) mod 2 = Suc 0" "0 < next_power_of_two n" "2 \<le> next_power_of_two n"
    using mask_is_odd two_le_capacity [OF assms(2)] by simp_all
  obtain r2 where "spsc_pop out (one_message (next_power_of_two n) data) =
      Inr (Inr (length data), data @ drop (length data) out, r2)" "spsc_is_empty r2"
    using assms(3,5) c
    by (simp add: spsc_pop_def one_message_def Let_def at_spsc_slot_def copy_bytes_def spsc_is_empty_def)
  then show ?thesis using first_push [OF assms(1-4)] by blast
qed

lemma first_message_round_trip_example:
  "\<exists>r r1 r2. new_spsc 16 = Inr r \<and> spsc_push [] [104, 105] r = Some (Inr (Inr (), r1)) \<and>
     spsc_pop [0, 0, 0] r1 = Inr (Inr 2, [104, 105, 0], r2) \<and> spsc_is_empty r2"
proof -
  have "\<exists>r. new_spsc 16 = Inr r" by (simp add: new_spsc_def next_power_of_two.simps)
  then obtain r where r: "new_spsc 16 = Inr r" by blast
  then show ?thesis
    using first_message_round_trip [OF r, of "[104, 105]" "[0, 0, 0]" "[]"]
    by (auto simp: MAX_SLOT_DATA_SIZE_def)
qed

section \<open>The second message\<close>

text \<open>
  Once one message was sent, the head is at slot 1, and slot 1 has never been touched: its
  sequence number is 0, where the producer waits for 1.  No pop changes that.
\<close>

definition stalled :: "nat \<Rightarrow> spsc \<Rightarrow> bool" where
  "stalled cap r \<longleftrightarrow>
     sp_head r = 1 \<and> sp_capacity r = cap \<and> capacity_mask r = cap - 1 \<and>
     (sp_tail r = 0 \<or> sp_tail r = 1) \<and> (cached_head r = 0 \<or> cached_head r = 1) \<and>
     sl_sequence (sp_slots r 1) = 0 \<and> sl_length (sp_slots r 1) = 0"

lemma stalled_update:
  "stalled cap r \<Longrightarrow> stalled cap (at_spsc_slot 0 f r)"
  "stalled cap r \<Longrightarrow> t = 0 \<or> t = 1 \<Longrightarrow> stalled cap (r\<lparr>sp_tail := t\<rparr>)"
  "stalled cap r \<Longrightarrow> stalled cap (r\<lparr>cached_tail := t\<rparr>)"
  "stalled cap r \<Longrightarrow> stalled cap (r\<lparr>cached_head := sp_head r\<rparr>)"
  by (simp_all add: stalled_def at_spsc_slot_def)

lemma stalled_pop:
  assumes st: "stalled cap r" and c: "2 \<le> cap" "(cap - Suc 0) mod 2 = Suc 0"
  shows "stalled cap (after_pop out r)"
proof -
  define r1 where "r1 = (if sp_tail r = cached_head r then r\<lparr>cached_head := sp_head r\<rparr> else r)"
  have s1: "stalled cap r1" using st stalled_update(4) by (simp add: r1_def)
  show ?thesis
  proof (cases "sp_tail r = 0")
    case True
    then have "spsc_pop out r = Inr (Inl RbEmpty, out, r1) \<or> spsc_pop out r = Inr (Inl MessageTooLarge, out, r1) \<or>
        spsc_pop out r = Inl IndexOutOfBounds \<or> (\<exists>l out' f g. spsc_pop out r =
          Inr (Inr l, out', at_spsc_slot 0 g ((at_spsc_slot 0 f r1)\<lparr>sp_tail := 1\<rparr>)))"
      using s1 c unfolding spsc_pop_def r1_def [symmetric] Let_def
      by (auto simp: stalled_def at_spsc_slot_def)
    then show ?thesis using st s1 stalled_update by (auto simp: after_pop_def)
  next
    case False
    then have "sl_length (sp_slots r1 (sp_tail r)) = 0" "sp_tail r = 1" "sp_capacity r1 = cap"
      using st s1 by (auto simp: stalled_def)
    then have "spsc_pop out r = Inr (Inl RbEmpty, out, r1)"
      unfolding spsc_pop_def r1_def [symmetric] Let_def using c(1) by simp
    then show ?thesis using s1 by (simp add: after_pop_def)
  qed
qed

lemma stalled_pops:
  "stalled cap r \<Longrightarrow> 2 \<le> cap \<Longrightarrow> (cap - Suc 0) mod 2 = Suc 0 \<Longrightarrow> stalled cap (fold after_pop outs r)"
  by (induction outs arbitrary: r) (simp_all add: stalled_pop)

lemma stalled_sequence: "stalled cap r \<Longrightarrow> sl_sequence (sp_slots r 1) \<noteq> of_nat 1"
  by (simp add: stalled_def)

lemma stalled_waits:
  "stalled cap r \<Longrightarrow> 2 \<le> cap \<Longrightarrow> (cap - Suc 0) mod 2 = Suc 0 \<Longrightarrow> wait_for_slot 1 env r = None"
proof (induction env arbitrary: r)
  case Nil
  show ?case by (subst wait_for_slot.simps) (simp only: stalled_sequence [OF Nil(1)] if_False list.case)
next
  case (Cons out env)
  have "wait_for_slot 1 env (after_pop out r) = None"
    by (rule Cons.IH [OF stalled_pop [OF Cons.prems] Cons.prems(2,3)])
  then show ?case
    by (subst wait_for_slot.simps) (simp only: stalled_sequence [OF Cons.prems(1)] if_False list.case)
qed

lemma stalled_push:
  assumes st: "stalled cap r" and c: "4 \<le> cap" "(cap - Suc 0) mod 2 = Suc 0" "(1 + 1) AND (cap - 1) = 2"
    and d: "data \<noteq> []" "length data \<le> MAX_SLOT_DATA_SIZE"
  shows "spsc_push env data r = None"
proof -
  have h: "sp_head r = 1" and m: "capacity_mask r = cap - 1" and t: "sp_tail r \<noteq> 2" "sp_capacity r = cap"
    using st by (auto simp: stalled_def)
  have nh: "(sp_head r + 1) AND capacity_mask r = 2" unfolding h m by (rule c(3))
  define r1 where "r1 = (if 2 = cached_tail r then r\<lparr>cached_tail := sp_tail r\<rparr> else r)"
  have "stalled cap r1" using st stalled_update(3) by (simp add: r1_def)
  then have w: "wait_for_slot (sp_head r) env r1 = None" and c1: "\<not> sp_capacity r1 \<le> sp_head r"
    using stalled_waits [of cap r1 env] c(1,2) t(2) unfolding h by (auto simp: stalled_def)
  have g: "\<not> (2 = cached_tail r \<and> 2 = sp_tail r)" "\<not> MAX_SLOT_DATA_SIZE < length data"
    using t(1) d(2) by auto
  show ?thesis
    unfolding spsc_push_def Let_def nh r1_def [symmetric]
    by (simp only: d(1) g c1 w if_False option.case)
qed

text \<open>The ring carries one message in its life.  After a first message was pushed to a new ring
  with a capacity above two, and whatever the consumer has popped since, the push of a second
  message never returns: it waits for a sequence number that its slot does not get, whatever the
  consumer pops while it waits.\<close>

lemma second_push_never_returns:
  assumes "new_spsc n = Inr r" "2 < n"
    and "data1 \<noteq> []" "length data1 \<le> MAX_SLOT_DATA_SIZE" "data2 \<noteq> []" "length data2 \<le> MAX_SLOT_DATA_SIZE"
  shows "\<exists>r1. spsc_push env1 data1 r = Some (Inr (Inr (), r1)) \<and>
    spsc_push env2 data2 (fold after_pop outs r1) = None"
proof -
  let ?c = "next_power_of_two n"
  have c: "4 \<le> ?c" "(?c - Suc 0) mod 2 = Suc 0"
    using four_le_capacity [OF assms(2)] mask_is_odd by auto
  have two: "(1 + 1) AND (?c - 1) = 2"
    using capacity_mask_mod [of "1 + 1" n] c(1) by simp
  have "stalled ?c (one_message ?c data1)"
    using c by (simp add: stalled_def one_message_def new_slot_def)
  then have st: "stalled ?c (fold after_pop outs (one_message ?c data1))"
    using stalled_pops c by simp
  show ?thesis
    using first_push [OF assms(1) _ assms(3,4)] assms(2) stalled_push [OF st c two assms(5,6)] by simp
qed

lemma second_push_never_returns_example:
  "\<exists>r r1. new_spsc 16 = Inr r \<and> spsc_push [] [1] r = Some (Inr (Inr (), r1)) \<and>
     spsc_push [[0, 0], [0]] [2] (fold after_pop [[0, 0]] r1) = None"
proof -
  have "\<exists>r. new_spsc 16 = Inr r" by (simp add: new_spsc_def next_power_of_two.simps)
  then obtain r where r: "new_spsc 16 = Inr r" by blast
  then show ?thesis
    using second_push_never_returns [OF r, of "[1]" "[2]" "[]" "[[0, 0], [0]]" "[[0, 0]]"]
    by (auto simp: MAX_SLOT_DATA_SIZE_def)
qed

text \<open>A ring for one message is always full.\<close>

lemma capacity_one_always_full:
  assumes "new_spsc 1 = Inr r" "data \<noteq> []" "length data \<le> MAX_SLOT_DATA_SIZE"
  shows "spsc_push env data r = Some (Inr (Inl RbFull, r))"
  unfolding new_spsc_state(1) [OF assms(1)] spsc_push_def
  using assms(2,3) by (simp add: Let_def next_power_of_two.simps [of "Suc 0"])

end
