(* ===== verification/Book_Swap.thy ===== *)
theory Book_Swap
  imports Interfaces
begin

text \<open>
  The replacement of a damaged order book, \<open>crates/nexus_orderbook/src/l2/atomic_book_swap.rs\<close>:
  a candidate is prepared and then swapped in, each time after a validation.  The clock readings
  are arguments.  The division of the average by the number of swaps panics when that number has
  wrapped to zero.  The theory shows what the book that readers see is known to satisfy.
\<close>

section \<open>State\<close>

record swap_level =
  sl_price :: u64
  sl_quantity :: u64

record book_state =
  bs_last_update_id :: u64
  bs_bids :: "swap_level list"
  bs_asks :: "swap_level list"
  bs_timestamp_ns :: u64
  bs_is_valid :: bool

definition default_book_state :: book_state where
  "default_book_state =
     \<lparr>bs_last_update_id = 0, bs_bids = [], bs_asks = [], bs_timestamp_ns = 0, bs_is_valid = False\<rparr>"

record swap_stats =
  total_swaps :: u64
  successful_swaps :: u64
  failed_validations :: u64
  swaps_during_active_trading :: u64
  avg_swap_duration_ns :: u64

definition default_swap_stats :: swap_stats where
  "default_swap_stats =
     \<lparr>total_swaps = 0, successful_swaps = 0, failed_validations = 0, swaps_during_active_trading = 0,
      avg_swap_duration_ns = 0\<rparr>"

record book_swap =
  current_state :: book_state
  pending_state :: "book_state option"
  swap_in_progress :: bool
  trading_active :: bool
  swap_stats_of :: swap_stats
  swap_sequence :: u64

definition new_book_swap :: book_swap where
  "new_book_swap =
     \<lparr>current_state = default_book_state, pending_state = None, swap_in_progress = False,
      trading_active = True, swap_stats_of = default_swap_stats, swap_sequence = 0\<rparr>"

section \<open>Operations\<close>

definition max_age_ns :: u64 where "max_age_ns = 60000000000"

text \<open>\<open>max_by_key\<close> and \<open>min\<close> of the prices.\<close>

definition best_of :: "(u64 \<Rightarrow> u64 \<Rightarrow> u64) \<Rightarrow> swap_level list \<Rightarrow> u64 option" where
  "best_of pick ls =
     (case map sl_price ls of [] \<Rightarrow> None | p # ps \<Rightarrow> Some (fold (\<lambda>q b. pick b q) ps p))"

definition validate_state :: "u64 \<Rightarrow> book_state \<Rightarrow> bool" where
  "validate_state now st =
     (if bs_last_update_id st = 0 then False
      else if bs_bids st = [] \<or> bs_asks st = [] then False
      else
        (case (best_of max (bs_bids st), best_of min (bs_asks st)) of
           (Some best_bid, Some best_ask) \<Rightarrow> \<not> best_bid \<ge> best_ask
         | _ \<Rightarrow> True) \<and>
        \<not> saturating_sub now (bs_timestamp_ns st) > max_age_ns)"

definition count_failure :: "book_swap \<Rightarrow> book_swap" where
  "count_failure s =
     s\<lparr>swap_stats_of := (swap_stats_of s)\<lparr>failed_validations := failed_validations (swap_stats_of s) + 1\<rparr>\<rparr>"

datatype swap_error = InvalidState | SwapInProgress

definition prepare_swap :: "u64 \<Rightarrow> book_state \<Rightarrow> book_swap \<Rightarrow> (swap_error + unit) \<times> book_swap" where
  "prepare_swap now st s =
     (if \<not> validate_state now st then (Inl InvalidState, count_failure s)
      else if swap_in_progress s then (Inl SwapInProgress, s)
      else (Inr (), s\<lparr>pending_state := Some st\<rparr>))"

text \<open>The clock is read at the start, in the validation, and at the end.\<close>

definition execute_swap :: "u64 \<Rightarrow> u64 \<Rightarrow> u64 \<Rightarrow> book_swap \<Rightarrow> panic + bool \<times> book_swap" where
  "execute_swap start now finish s =
     (if swap_in_progress s then Inr (False, s)
      else
        let s1 = s\<lparr>swap_in_progress := True\<rparr>
        in case pending_state s1 of
             None \<Rightarrow> Inr (False, s1\<lparr>swap_in_progress := False\<rparr>)
           | Some st \<Rightarrow>
               let s2 = s1\<lparr>pending_state := None\<rparr>
               in if \<not> validate_state now st
                  then Inr (False, count_failure (s2\<lparr>swap_in_progress := False\<rparr>))
                  else
                    let during = trading_active s2;
                        s3 = s2\<lparr>current_state := st\<rparr>;
                        duration = finish - start;
                        t0 = swap_stats_of s3;
                        t1 = t0\<lparr>total_swaps := total_swaps t0 + 1, successful_swaps := successful_swaps t0 + 1\<rparr>;
                        t2 = (if during then t1\<lparr>swaps_during_active_trading := swaps_during_active_trading t1 + 1\<rparr>
                              else t1)
                    in if successful_swaps t2 = 0 then Inl DivideByZero
                       else
                         let t3 = t2\<lparr>avg_swap_duration_ns :=
                               (avg_swap_duration_ns t2 * (successful_swaps t2 - 1) + duration) div successful_swaps t2\<rparr>
                         in Inr (True, s3\<lparr>swap_stats_of := t3, swap_sequence := swap_sequence s3 + 1,
                                          swap_in_progress := False\<rparr>))"

definition set_trading_active :: "bool \<Rightarrow> book_swap \<Rightarrow> book_swap" where
  "set_trading_active a s = s\<lparr>trading_active := a\<rparr>"

definition reset_swap_stats :: "book_swap \<Rightarrow> book_swap" where
  "reset_swap_stats s = s\<lparr>swap_stats_of := default_swap_stats\<rparr>"

section \<open>The book that readers see\<close>

datatype swap_call =
    Prepare u64 book_state | Execute u64 u64 u64 | SetActive bool | ResetStats

fun run_swap_call :: "swap_call \<Rightarrow> book_swap \<Rightarrow> panic + book_swap" where
  "run_swap_call (Prepare now st) s = Inr (snd (prepare_swap now st s))"
| "run_swap_call (Execute a b c) s = map_sum id snd (execute_swap a b c s)"
| "run_swap_call (SetActive a) s = Inr (set_trading_active a s)"
| "run_swap_call ResetStats s = Inr (reset_swap_stats s)"

fun run_swap_calls :: "swap_call list \<Rightarrow> book_swap \<Rightarrow> panic + book_swap" where
  "run_swap_calls [] s = Inr s"
| "run_swap_calls (c # cs) s =
     (case run_swap_call c s of Inl e \<Rightarrow> Inl e | Inr s' \<Rightarrow> run_swap_calls cs s')"

text \<open>A book with an id, two sides, and every bid below every ask.\<close>

definition sound_book :: "book_state \<Rightarrow> bool" where
  "sound_book st \<longleftrightarrow>
     bs_last_update_id st \<noteq> 0 \<and> bs_bids st \<noteq> [] \<and> bs_asks st \<noteq> [] \<and>
     (\<forall>b \<in> set (bs_bids st). \<forall>a \<in> set (bs_asks st). sl_price b < sl_price a)"

lemma fold_max_ge: "p \<le> fold (\<lambda>q b. max b q) ps p \<and> (\<forall>x \<in> set ps. x \<le> fold (\<lambda>q b. max b q) ps (p :: 'a::linorder))"
proof (induction ps arbitrary: p)
  case (Cons a ps)
  show ?case using Cons.IH [of "max p a"] by auto
qed simp

lemma fold_min_le: "fold (\<lambda>q b. min b q) ps p \<le> p \<and> (\<forall>x \<in> set ps. fold (\<lambda>q b. min b q) ps (p :: 'a::linorder) \<le> x)"
proof (induction ps arbitrary: p)
  case (Cons a ps)
  show ?case using Cons.IH [of "min p a"] by auto
qed simp

lemma best_of_max: "best_of max ls = Some b \<Longrightarrow> l \<in> set ls \<Longrightarrow> sl_price l \<le> b"
  using fold_max_ge [where p = "sl_price (hd ls)" and ps = "map sl_price (tl ls)"]
  by (cases ls) (auto simp: best_of_def)

lemma best_of_min: "best_of min ls = Some b \<Longrightarrow> l \<in> set ls \<Longrightarrow> b \<le> sl_price l"
  using fold_min_le [where p = "sl_price (hd ls)" and ps = "map sl_price (tl ls)"]
  by (cases ls) (auto simp: best_of_def)

lemma best_of_some: "ls \<noteq> [] \<Longrightarrow> best_of f ls \<noteq> None"
  by (cases ls) (simp_all add: best_of_def)

lemma validate_sound:
  assumes "validate_state now st" shows "sound_book st"
proof -
  have ne: "bs_last_update_id st \<noteq> 0" "bs_bids st \<noteq> []" "bs_asks st \<noteq> []"
    using assms by (auto simp: validate_state_def split: if_splits)
  obtain b a where ba: "best_of max (bs_bids st) = Some b" "best_of min (bs_asks st) = Some a"
    using best_of_some [OF ne(2)] best_of_some [OF ne(3)] by blast
  then have "b < a" using assms ne by (simp add: validate_state_def not_le split: if_splits)
  then have "sl_price x < sl_price y" if "x \<in> set (bs_bids st)" "y \<in> set (bs_asks st)" for x y
    using best_of_max [OF ba(1) that(1)] best_of_min [OF ba(2) that(2)] by simp
  then show ?thesis using ne by (simp add: sound_book_def)
qed

text \<open>
  What the machine keeps: the current book is the initial one or sound, and the initial one only
  as long as nothing was swapped; a pending candidate is sound; no call leaves the flag set.
\<close>

definition swap_inv :: "book_swap \<Rightarrow> bool" where
  "swap_inv s \<longleftrightarrow>
     \<not> swap_in_progress s \<and>
     (current_state s = default_book_state \<or> sound_book (current_state s)) \<and>
     (\<forall>st. pending_state s = Some st \<longrightarrow> sound_book st)"

lemma execute_swap_step:
  assumes inv: "swap_inv s" and room: "successful_swaps (swap_stats_of s) + 1 \<noteq> 0"
  shows "\<exists>r s'. execute_swap a b c s = Inr (r, s') \<and> swap_inv s' \<and>
    (if r then successful_swaps (swap_stats_of s') = successful_swaps (swap_stats_of s) + 1 \<and>
          swap_sequence s' = swap_sequence s + 1 \<and> sound_book (current_state s') \<and>
          pending_state s = Some (current_state s')
     else successful_swaps (swap_stats_of s') = successful_swaps (swap_stats_of s) \<and>
          swap_sequence s' = swap_sequence s \<and> current_state s' = current_state s)"
proof -
  have flag: "\<not> swap_in_progress s" using inv by (simp add: swap_inv_def)
  show ?thesis
  proof (cases "pending_state s")
    case None
    then show ?thesis using flag inv
      by (intro exI [of _ False] exI [of _ s]) (simp add: execute_swap_def Let_def swap_inv_def)
  next
    case (Some st)
    then have "sound_book st" using inv by (simp add: swap_inv_def)
    then show ?thesis
      using Some flag inv room
      by (cases "validate_state b st")
         (auto simp: execute_swap_def Let_def swap_inv_def count_failure_def)
  qed
qed

lemma swap_call_step:
  assumes inv: "swap_inv s" and few: "unat (successful_swaps (swap_stats_of s)) \<le> n" "Suc n < 2 ^ 64"
  obtains s' where "run_swap_call c s = Inr s'" "swap_inv s'" "unat (successful_swaps (swap_stats_of s')) \<le> Suc n"
proof -
  have "unat (successful_swaps (swap_stats_of s)) + 1 < 2 ^ LENGTH(64)" using few by simp
  then have inc: "unat (successful_swaps (swap_stats_of s) + 1) = unat (successful_swaps (swap_stats_of s)) + 1"
    by (rule unat_inc)
  then have nz: "successful_swaps (swap_stats_of s) + 1 \<noteq> 0" by (metis add_is_0 one_neq_zero unat_0)
  show thesis
  proof (cases c)
    case (Prepare now st)
    then show thesis
      using inv few(1) validate_sound [of now st]
      by (intro that [of "snd (prepare_swap now st s)"]) (auto simp: prepare_swap_def swap_inv_def count_failure_def)
  next
    case (Execute a b d)
    then show thesis
      using execute_swap_step [OF inv nz, of a b d] inc few(1) that by (auto split: if_splits)
  next
    case (SetActive a)
    then show thesis using inv few(1) by (intro that [of "set_trading_active a s"]) (auto simp: set_trading_active_def swap_inv_def)
  next
    case ResetStats
    then show thesis using inv few(1)
      by (intro that [of "reset_swap_stats s"])
         (auto simp: reset_swap_stats_def swap_inv_def default_swap_stats_def)
  qed
qed

lemma swap_calls_inv:
  assumes "swap_inv s" "unat (successful_swaps (swap_stats_of s)) + length cs < 2 ^ 64"
  shows "\<exists>s'. run_swap_calls cs s = Inr s' \<and> swap_inv s'"
  using assms
proof (induction cs arbitrary: s)
  case Nil
  then show ?case by simp
next
  case (Cons c cs)
  obtain s1 where s1: "run_swap_call c s = Inr s1" "swap_inv s1"
    "unat (successful_swaps (swap_stats_of s1)) \<le> Suc (unat (successful_swaps (swap_stats_of s)))"
    using swap_call_step [OF Cons.prems(1), of "unat (successful_swaps (swap_stats_of s))" c] Cons.prems
    by (auto simp: swap_inv_def)
  then show ?case using Cons.IH [OF s1(2)] Cons.prems(2) by simp
qed

text \<open>Readers never see a crossed or one-sided book.  Over any sequence of fewer than 2^64 calls,
  with any candidates and clock readings, nothing panics and the current book is the empty initial
  one or one with an update id and two non-empty sides in which every bid is below every ask.\<close>

lemma swapped_book_is_sound:
  assumes "length cs < 2 ^ 64"
  shows "\<exists>s. run_swap_calls cs new_book_swap = Inr s \<and>
    (current_state s = default_book_state \<or> sound_book (current_state s))"
proof -
  have "swap_inv new_book_swap" by (simp add: swap_inv_def new_book_swap_def)
  then obtain s where "run_swap_calls cs new_book_swap = Inr s" "swap_inv s"
    using swap_calls_inv [of new_book_swap cs] assms by (auto simp: new_book_swap_def default_swap_stats_def)
  then show ?thesis by (auto simp: swap_inv_def)
qed

definition example_book :: "u64 \<Rightarrow> u64 \<Rightarrow> book_state" where
  "example_book i t =
     \<lparr>bs_last_update_id = i, bs_bids = [\<lparr>sl_price = 50000, sl_quantity = 1\<rparr>],
      bs_asks = [\<lparr>sl_price = 50100, sl_quantity = 2\<rparr>], bs_timestamp_ns = t, bs_is_valid = False\<rparr>"

lemma swapped_book_is_sound_example:
  "\<exists>s. run_swap_calls [Prepare 10 (example_book 7 5), Execute 10 11 12] new_book_swap = Inr s \<and>
    (current_state s = default_book_state \<or> sound_book (current_state s))"
  by (rule swapped_book_is_sound) simp

text \<open>
  The validation ignores \<open>is_valid\<close> and compares no ids: a candidate that is marked invalid and
  older than the current book replaces it.
\<close>

lemma older_invalid_book_accepted:
  "map_sum id (\<lambda>s. (bs_last_update_id (current_state s), bs_is_valid (current_state s)))
     (run_swap_calls [Prepare 10 (example_book 9 5), Execute 10 11 12, Prepare 13 (example_book 3 5), Execute 13 14 15]
        new_book_swap) = (Inr (3, False) :: panic + u64 \<times> bool)"
  by code_simp

end
