(* ===== verification/Snapshot_Fetcher.thy ===== *)
theory Snapshot_Fetcher
  imports Nexus_Prelude
begin

text \<open>
  The retry loop and the circuit breaker of the snapshot client,
  \<open>crates/nexus_orderbook/src/l2/rest_snapshot_fetcher.rs\<close>.  The HTTP request is a parameter: the
  answers of the server to the successive requests of a call.  Waiting has no effect on the state
  and is left out; \<open>wait_for_rate_limit\<close>, which only waits, is not modelled (its early returns of
  a duration do not fit its type).  Latency is a floating-point average and left out as well.
\<close>

datatype response = FetchOk u64 | RateLimited | FetchFailed

datatype fetch_result = Snapshot u64 | BreakerOpen | BreakerTriggered | RetriesExhausted

record fetcher_stats =
  total_requests :: u64
  successful_snapshots :: u64
  failed_requests :: u64
  rate_limited_requests :: u64
  retries_exhausted :: u64
  last_snapshot_last_id :: u64

record fetcher =
  max_retries :: u32
  consecutive_429s :: nat
  circuit_breaker_open :: bool
  circuit_breaker_until_ns :: u64
  fetcher_stats_of :: fetcher_stats

definition new_fetcher :: "u32 \<Rightarrow> fetcher" where
  "new_fetcher n =
     \<lparr>max_retries = n, consecutive_429s = 0, circuit_breaker_open = False, circuit_breaker_until_ns = 0,
      fetcher_stats_of = \<lparr>total_requests = 0, successful_snapshots = 0, failed_requests = 0,
        rate_limited_requests = 0, retries_exhausted = 0, last_snapshot_last_id = 0\<rparr>\<rparr>"

definition is_circuit_breaker_open :: "u64 \<Rightarrow> fetcher \<Rightarrow> bool \<times> fetcher" where
  "is_circuit_breaker_open now f =
     (if \<not> circuit_breaker_open f then (False, f)
      else if now \<ge> circuit_breaker_until_ns f then (False, f\<lparr>circuit_breaker_open := False\<rparr>)
      else (True, f))"

definition open_circuit_breaker :: "u64 \<Rightarrow> fetcher \<Rightarrow> fetcher" where
  "open_circuit_breaker now f =
     f\<lparr>circuit_breaker_until_ns := now + 60000000000, circuit_breaker_open := True\<rparr>"

definition on_stats :: "(fetcher_stats \<Rightarrow> fetcher_stats) \<Rightarrow> fetcher \<Rightarrow> fetcher" where
  "on_stats g f = f\<lparr>fetcher_stats_of := g (fetcher_stats_of f)\<rparr>"

text \<open>
  The loop; \<open>k\<close> counts the requests, \<open>srv k\<close> is the answer to request \<open>k\<close> and \<open>clock k\<close> the time
  at which it arrives.  A rate-limited answer does not count as a retry, but the fifth in a row
  opens the breaker; so every iteration that goes on comes nearer to one of the two limits.
\<close>

function fetch_loop ::
  "(nat \<Rightarrow> response) \<Rightarrow> (nat \<Rightarrow> u64) \<Rightarrow> nat \<Rightarrow> u32 \<Rightarrow> fetcher \<Rightarrow> fetch_result \<times> nat \<times> fetcher" where
  "fetch_loop srv clock k retry_count f =
     (if \<not> retry_count < max_retries f
      then (RetriesExhausted, k, on_stats (\<lambda>st. st\<lparr>total_requests := total_requests st + 1,
              failed_requests := failed_requests st + 1, retries_exhausted := retries_exhausted st + 1\<rparr>) f)
      else
        case srv k of
          FetchOk i \<Rightarrow>
            (Snapshot i, k + 1,
             (on_stats (\<lambda>st. st\<lparr>total_requests := total_requests st + 1,
                successful_snapshots := successful_snapshots st + 1, last_snapshot_last_id := i\<rparr>) f)
               \<lparr>consecutive_429s := 0\<rparr>)
        | RateLimited \<Rightarrow>
            (let f1 = on_stats (\<lambda>st. st\<lparr>rate_limited_requests := rate_limited_requests st + 1\<rparr>)
                        (f\<lparr>consecutive_429s := consecutive_429s f + 1\<rparr>)
             in if consecutive_429s f1 \<ge> 5
                then (BreakerTriggered, k + 1, open_circuit_breaker (clock k) f1)
                else fetch_loop srv clock (k + 1) retry_count f1)
        | FetchFailed \<Rightarrow> fetch_loop srv clock (k + 1) (retry_count + 1) f)"
  by auto

lemma retry_decreases:
  "(r :: u32) < m \<Longrightarrow> unat m - unat (r + 1) < unat m - unat r"
  "(r :: u32) < m \<Longrightarrow> unat (r + 1) = unat r + 1"
proof -
  assume r: "r < m"
  then have "unat r + 1 < 2 ^ LENGTH(32)" using unat_lt_2p [of m] by (simp add: word_less_nat_alt)
  then show "unat (r + 1) = unat r + 1" by (rule unat_inc)
  then show "unat m - unat (r + 1) < unat m - unat r" using r by (simp add: word_less_nat_alt)
qed

lemma retries_left: "(r :: u32) < m \<Longrightarrow> 0 < unat m - unat r"
  by (simp add: word_less_nat_alt)

termination fetch_loop
  by (relation "measure (\<lambda>(srv, clock, k, r, f). (unat (max_retries f) - unat r) + (5 - consecutive_429s f))")
     (auto simp: on_stats_def retry_decreases(1))

declare fetch_loop.simps [simp del]

definition fetch_snapshot ::
  "(nat \<Rightarrow> response) \<Rightarrow> u64 \<Rightarrow> (nat \<Rightarrow> u64) \<Rightarrow> fetcher \<Rightarrow> fetch_result \<times> nat \<times> fetcher" where
  "fetch_snapshot srv now clock f =
     (case is_circuit_breaker_open now f of
        (True, f1) \<Rightarrow> (BreakerOpen, 0, f1)
      | (False, f1) \<Rightarrow> fetch_loop srv clock 0 0 f1)"

text \<open>The bound on the requests, and what each result says of the last one.\<close>

definition requests_left :: "u32 \<Rightarrow> fetcher \<Rightarrow> nat" where
  "requests_left r f = (unat (max_retries f) - unat r) + (if consecutive_429s f < 5 then 4 - consecutive_429s f else 0)"

definition fetch_ok :: "(nat \<Rightarrow> response) \<Rightarrow> fetch_result \<Rightarrow> nat \<Rightarrow> fetcher \<Rightarrow> bool" where
  "fetch_ok srv res n f \<longleftrightarrow>
     (case res of
        Snapshot i \<Rightarrow> 0 < n \<and> srv (n - 1) = FetchOk i \<and> consecutive_429s f = 0
      | BreakerTriggered \<Rightarrow> 0 < n \<and> srv (n - 1) = RateLimited \<and> circuit_breaker_open f
      | _ \<Rightarrow> True)"

lemma fetch_loop_requests:
  "r \<le> max_retries f \<Longrightarrow> fetch_loop srv clock k r f = (res, n, f') \<Longrightarrow>
     n \<le> k + requests_left r f \<and> fetch_ok srv res n f' \<and> res \<noteq> BreakerOpen"
proof (induction srv clock k r f arbitrary: res n f' rule: fetch_loop.induct)
  case (1 srv clock k r f)
  note run = "1.prems"(2) [unfolded fetch_loop.simps [of srv clock k r f]]
  show ?case
  proof (cases "r < max_retries f")
    case False
    then show ?thesis using run by (auto simp: fetch_ok_def)
  next
    case more: True
    note left = retries_left [OF more] retry_decreases [OF more]
    show ?thesis
    proof (cases "srv k")
      case (FetchOk i)
      then show ?thesis using run more left(1) by (auto simp: fetch_ok_def requests_left_def)
    next
      case RateLimited
      define f1 where "f1 = on_stats (\<lambda>st. st\<lparr>rate_limited_requests := rate_limited_requests st + 1\<rparr>)
          (f\<lparr>consecutive_429s := consecutive_429s f + 1\<rparr>)"
      have f1: "consecutive_429s f1 = consecutive_429s f + 1" "max_retries f1 = max_retries f"
        by (simp_all add: f1_def on_stats_def)
      have step: "(if consecutive_429s f1 \<ge> 5 then (BreakerTriggered, k + 1, open_circuit_breaker (clock k) f1)
          else fetch_loop srv clock (k + 1) r f1) = (res, n, f')"
        using run more unfolding f1_def
        by (simp only: Let_def RateLimited response.case not_True_eq_False if_False if_True simp_thms)
      show ?thesis
      proof (cases "consecutive_429s f1 \<ge> 5")
        case True
        then show ?thesis using step more RateLimited left(1)
          by (auto simp: fetch_ok_def requests_left_def open_circuit_breaker_def)
      next
        case False
        then have rec: "fetch_loop srv clock (k + 1) r f1 = (res, n, f')"
          using step by simp
        have "n \<le> k + 1 + requests_left r f1 \<and> fetch_ok srv res n f' \<and> res \<noteq> BreakerOpen"
          using "1.IH"(1) more RateLimited False "1.prems"(1) rec f1(2) f1_def
          by (metis (no_types, lifting) not_le)
        moreover have "1 + requests_left r f1 \<le> requests_left r f"
          using False f1 by (simp add: requests_left_def)
        ultimately show ?thesis by simp
      qed
    next
      case FetchFailed
      then have rec: "fetch_loop srv clock (k + 1) (r + 1) f = (res, n, f')" using run more by simp
      have "r + 1 \<le> max_retries f" using left(3) more by (simp add: word_le_nat_alt word_less_nat_alt)
      then have "n \<le> k + 1 + requests_left (r + 1) f \<and> fetch_ok srv res n f' \<and> res \<noteq> BreakerOpen"
        using "1.IH"(2) more FetchFailed rec by simp
      moreover have "1 + requests_left (r + 1) f \<le> requests_left r f"
        using left(2) by (simp add: requests_left_def)
      ultimately show ?thesis by simp
    qed
  qed
qed

text \<open>Fetching a snapshot ends after few requests.  Whatever the server answers, a call sends at
  most \<open>max_retries + 4\<close> requests; a snapshot is the answer to the last one and clears the count of
  rate-limited answers; and the breaker is reported as triggered only when it is then open.\<close>

lemma fetch_snapshot_bounded:
  "case fetch_snapshot srv now clock f of
     (res, n, f') \<Rightarrow> n \<le> unat (max_retries f) + 4 \<and> fetch_ok srv res n f'"
proof -
  obtain opened f1 where br: "is_circuit_breaker_open now f = (opened, f1)" by fastforce
  then have f1: "max_retries f1 = max_retries f" by (auto simp: is_circuit_breaker_open_def split: if_splits)
  show ?thesis
  proof (cases opened)
    case True
    then show ?thesis using br by (simp add: fetch_snapshot_def fetch_ok_def)
  next
    case False
    obtain res n f' where run: "fetch_loop srv clock 0 0 f1 = (res, n, f')" by (metis prod_cases3)
    then show ?thesis
      using fetch_loop_requests [OF _ run] br False f1
      by (auto simp: fetch_snapshot_def requests_left_def split: if_splits)
  qed
qed

end
