(* ===== verification/Order_State.thy ===== *)
theory Order_State
  imports Interfaces
begin

text \<open>
  The order state machine of \<open>crates/nexus_oms/src/state_machine/order_state.rs\<close>: the
  order record, the table of permitted transitions, fills with their running average price,
  and the purge of terminal orders.  The hash map is a map; the purge queue is a list because
  \<open>swap_remove\<close> depends on its order.  Each operation takes the clock readings it makes as
  an argument.  The invariant \<open>osm_inv\<close> ties the purge queue to the terminal orders, and
  \<open>order_wf\<close> is the quantity balance of an order; the theory proves both preserved by every
  operation and closes with the reachable states.
\<close>

section \<open>Data\<close>

type_synonym order_id = u64
type_synonym execution_id = u64

datatype side = Buy | Sell
datatype order_type = Limit | Market | StopLimit
datatype time_in_force = Gtc | Fok | Ioc
datatype order_state = PendingNew | Open | PartiallyFilled | Filled | Canceled | Rejected

definition is_terminal :: "order_state \<Rightarrow> bool" where
  "is_terminal s \<longleftrightarrow> s = Filled \<or> s = Canceled \<or> s = Rejected"

lemma is_terminal_simps [simp]:
  "\<not> is_terminal PendingNew" "\<not> is_terminal Open" "\<not> is_terminal PartiallyFilled"
  "is_terminal Filled" "is_terminal Canceled" "is_terminal Rejected"
  by (simp_all add: is_terminal_def)

record order =
  o_id :: order_id
  symbol :: "u8 list"
  o_side :: side
  o_type :: order_type
  o_time_in_force :: time_in_force
  o_price :: i64
  o_quantity :: i64
  filled_quantity :: i64
  remaining_quantity :: i64
  average_fill_price :: i64
  o_state :: order_state
  created_at_ns :: u64
  last_updated_ns :: u64
  client_order_id :: u64
  exchange_order_id :: "u64 option"
  purge_after_ms :: u64

text \<open>The two clocks an operation reads: wall time in nanoseconds and \<open>Instant::now()\<close>.\<close>

record clock =
  wall_ns :: u64
  mono_now :: instant

text \<open>The first 12 bytes of the symbol, padded with zeros to the fixed-size buffer.\<close>

definition symbol_buffer :: "u8 list \<Rightarrow> u8 list" where
  "symbol_buffer bytes = take 12 bytes @ replicate (12 - length bytes) 0"

definition new_order ::
  "order_id \<Rightarrow> u8 list \<Rightarrow> side \<Rightarrow> order_type \<Rightarrow> time_in_force \<Rightarrow> i64 \<Rightarrow> i64 \<Rightarrow> u64 \<Rightarrow> u64 \<Rightarrow> order"
  where
  "new_order oid name sd ty tif px qty client now =
     \<lparr>o_id = oid, symbol = symbol_buffer name, o_side = sd, o_type = ty,
      o_time_in_force = tif, o_price = px, o_quantity = qty, filled_quantity = 0,
      remaining_quantity = qty, average_fill_price = 0, o_state = PendingNew,
      created_at_ns = now, last_updated_ns = now, client_order_id = client,
      exchange_order_id = None, purge_after_ms = 5000\<rparr>"

text \<open>
  \<open>std::str::from_utf8\<close> accepts exactly the well-formed UTF-8 byte sequences; a sequence cut
  in the middle of a character is not one, and \<open>symbol_str\<close> then returns the empty string.
\<close>

definition utf8_cont :: "u8 \<Rightarrow> bool" where
  "utf8_cont b \<longleftrightarrow> 0x80 \<le> b \<and> b \<le> 0xBF"

fun utf8_valid :: "u8 list \<Rightarrow> bool" where
  "utf8_valid [] = True"
| "utf8_valid (b # bs) =
     (if b \<le> 0x7F then utf8_valid bs
      else if 0xC2 \<le> b \<and> b \<le> 0xDF then
        (case bs of c # r \<Rightarrow> utf8_cont c \<and> utf8_valid r | _ \<Rightarrow> False)
      else if 0xE0 \<le> b \<and> b \<le> 0xEF then
        (case bs of c # d # r \<Rightarrow>
             utf8_cont c \<and> utf8_cont d \<and> (b = 0xE0 \<longrightarrow> 0xA0 \<le> c) \<and> (b = 0xED \<longrightarrow> c \<le> 0x9F) \<and>
             utf8_valid r
         | _ \<Rightarrow> False)
      else if 0xF0 \<le> b \<and> b \<le> 0xF4 then
        (case bs of c # d # e # r \<Rightarrow>
             utf8_cont c \<and> utf8_cont d \<and> utf8_cont e \<and> (b = 0xF0 \<longrightarrow> 0x90 \<le> c) \<and>
             (b = 0xF4 \<longrightarrow> c \<le> 0x8F) \<and> utf8_valid r
         | _ \<Rightarrow> False)
      else False)"

definition symbol_str :: "order \<Rightarrow> u8 list" where
  "symbol_str o' =
     (let prefix = takeWhile (\<lambda>b. b \<noteq> 0) (take 12 (symbol o'))
      in if utf8_valid prefix then prefix else [])"

definition is_cancelable :: "order \<Rightarrow> bool" where
  "is_cancelable o' \<longleftrightarrow> o_state o' = Open \<or> o_state o' = PartiallyFilled"

definition fill_percentage_bps :: "order \<Rightarrow> panic + u32" where
  "fill_percentage_bps o' =
     (if o_quantity o' = 0 then Inr 0
      else map_sum id word_of_int (i64_div (s64 (filled_quantity o' * 10000)) (o_quantity o')))"

datatype transition_result =
    TR_Success order_state
  | TR_InvalidTransition (from_state: order_state) (to_state: order_state)
  | TR_TerminalStateReached order_state
  | TR_OrderNotFound

record order_state_machine =
  active_orders :: "order_id \<rightharpoonup> order"
  purge_queue :: "(order_id \<times> instant) list"
  id_counter :: u64
  total_orders_created :: u64
  total_orders_filled :: u64
  total_orders_rejected :: u64

record oms_stats =
  total_created :: u64
  total_filled :: u64
  total_rejected :: u64
  stats_active_count :: nat
  purge_queue_length :: nat

section \<open>Operations\<close>

definition with_capacity :: order_state_machine where
  "with_capacity =
     \<lparr>active_orders = Map.empty, purge_queue = [], id_counter = 1,
      total_orders_created = 0, total_orders_filled = 0, total_orders_rejected = 0\<rparr>"

definition generate_order_id :: "order_state_machine \<Rightarrow> order_id \<times> order_state_machine" where
  "generate_order_id m = (id_counter m, m\<lparr>id_counter := id_counter m + 1\<rparr>)"

datatype oms_error =
    OrderIdAlreadyExists
  | OrderNotFound
  | CannotFillRejectedOrCanceled
  | InvalidFillQuantity

definition add_order ::
  "order \<Rightarrow> order_state_machine \<Rightarrow> (oms_error + order_id) \<times> order_state_machine" where
  "add_order o' m =
     (if o_id o' \<in> dom (active_orders m) then (Inl OrderIdAlreadyExists, m)
      else (Inr (o_id o'),
            m\<lparr>active_orders := (active_orders m)(o_id o' \<mapsto> o'),
              total_orders_created := total_orders_created m + 1\<rparr>))"

fun is_valid_transition :: "order_state \<Rightarrow> order_state \<Rightarrow> bool" where
  "is_valid_transition PendingNew t =
     (t = Open \<or> t = PartiallyFilled \<or> t = Filled \<or> t = Canceled \<or> t = Rejected)"
| "is_valid_transition Open t = (t = PartiallyFilled \<or> t = Filled \<or> t = Canceled)"
| "is_valid_transition PartiallyFilled t = (t = Filled \<or> t = Canceled)"
| "is_valid_transition Filled t = False"
| "is_valid_transition Canceled t = False"
| "is_valid_transition Rejected t = False"

definition purge_time :: "clock \<Rightarrow> order \<Rightarrow> instant" where
  "purge_time c o' = mono_now c + unat (purge_after_ms o') * 1000000"

definition transition ::
  "clock \<Rightarrow> order_id \<Rightarrow> order_state \<Rightarrow> order_state_machine \<Rightarrow>
   transition_result \<times> order_state_machine" where
  "transition c oid new m =
     (case active_orders m oid of
        None \<Rightarrow> (TR_OrderNotFound, m)
      | Some o' \<Rightarrow>
          if \<not> is_valid_transition (o_state o') new
          then (TR_InvalidTransition (o_state o') new, m)
          else
            let m1 = m\<lparr>active_orders :=
                       (active_orders m)(oid \<mapsto> o'\<lparr>o_state := new, last_updated_ns := wall_ns c\<rparr>)\<rparr>
            in if is_terminal new then
                 let m2 = (if new = Filled
                           then m1\<lparr>total_orders_filled := total_orders_filled m1 + 1\<rparr>
                           else if new = Rejected
                           then m1\<lparr>total_orders_rejected := total_orders_rejected m1 + 1\<rparr>
                           else m1)
                 in (TR_TerminalStateReached new,
                     m2\<lparr>purge_queue := purge_queue m2 @ [(oid, purge_time c o')]\<rparr>)
               else (TR_Success new, m1))"

text \<open>
  The fill arithmetic of \<open>apply_fill\<close> on the order alone: quantities, the volume-weighted
  average (a truncating division, guarded by a positive filled quantity) and the new state.
\<close>

definition fill_quantities :: "i64 \<Rightarrow> i64 \<Rightarrow> order \<Rightarrow> order" where
  "fill_quantities qty px o' =
     (let prev_filled_value = s64 (filled_quantity o' * average_fill_price o');
          filled = s64 (filled_quantity o' + qty);
          remaining = s64 (remaining_quantity o' - qty);
          new_filled_value = s64 (prev_filled_value + s64 (qty * px))
      in o'\<lparr>filled_quantity := filled, remaining_quantity := remaining,
            average_fill_price := (if filled > 0 then new_filled_value sdiv filled else 0)\<rparr>)"

definition fill_state :: "order \<Rightarrow> order_state" where
  "fill_state o' =
     (if remaining_quantity o' = 0 then Filled
      else if o_state o' = PendingNew \<or> o_state o' = Open then PartiallyFilled
      else o_state o')"

definition apply_fill ::
  "clock \<Rightarrow> order_id \<Rightarrow> i64 \<Rightarrow> i64 \<Rightarrow> execution_id \<Rightarrow> order_state_machine \<Rightarrow>
   (oms_error + unit) \<times> order_state_machine" where
  "apply_fill c oid qty px exec m =
     (case active_orders m oid of
        None \<Rightarrow> (Inl OrderNotFound, m)
      | Some o' \<Rightarrow>
          if o_state o' = Rejected \<or> o_state o' = Canceled
          then (Inl CannotFillRejectedOrCanceled, m)
          else if qty \<le> 0 \<or> qty > remaining_quantity o' then (Inl InvalidFillQuantity, m)
          else
            let o1 = fill_quantities qty px o'; new = fill_state o1
            in if new \<noteq> o_state o1 then
                 let o2 = o1\<lparr>o_state := new, last_updated_ns := wall_ns c\<rparr>;
                     m1 = m\<lparr>active_orders := (active_orders m)(oid \<mapsto> o2)\<rparr>
                 in (Inr (),
                     if is_terminal new
                     then m1\<lparr>purge_queue := purge_queue m1 @ [(oid, purge_time c o2)]\<rparr>
                     else m1)
               else (Inr (), m\<lparr>active_orders := (active_orders m)(oid \<mapsto> o1)\<rparr>))"

text \<open>
  The purge first collects the indices of expired entries in ascending order and then
  removes them from the last to the first, each with \<open>swap_remove\<close>.
\<close>

definition expired_indices :: "instant \<Rightarrow> (order_id \<times> instant) list \<Rightarrow> nat list" where
  "expired_indices now q = filter (\<lambda>i. snd (q ! i) \<le> now) [0..<length q]"

fun purge_loop ::
  "nat list \<Rightarrow> order_state_machine \<Rightarrow> nat \<Rightarrow> panic + nat \<times> order_state_machine" where
  "purge_loop [] m n = Inr (n, m)"
| "purge_loop (i # is) m n =
     (case swap_remove i (purge_queue m) of
        Inl p \<Rightarrow> Inl p
      | Inr ((oid, t), q) \<Rightarrow>
          if oid \<in> dom (active_orders m)
          then purge_loop is
                 (m\<lparr>purge_queue := q, active_orders := (active_orders m)(oid := None)\<rparr>)
                 (Suc n)
          else purge_loop is (m\<lparr>purge_queue := q\<rparr>) n)"

definition purge_terminal_orders ::
  "instant \<Rightarrow> order_state_machine \<Rightarrow> panic + nat \<times> order_state_machine" where
  "purge_terminal_orders now m = purge_loop (rev (expired_indices now (purge_queue m))) m 0"

definition get_order :: "order_id \<Rightarrow> order_state_machine \<Rightarrow> order option" where
  "get_order oid m = active_orders m oid"

definition active_count :: "order_state_machine \<Rightarrow> nat" where
  "active_count m = card (dom (active_orders m))"

definition get_stats :: "order_state_machine \<Rightarrow> oms_stats" where
  "get_stats m =
     \<lparr>total_created = total_orders_created m, total_filled = total_orders_filled m,
      total_rejected = total_orders_rejected m, stats_active_count = active_count m,
      purge_queue_length = length (purge_queue m)\<rparr>"

section \<open>The transition table\<close>

lemma valid_transition_not_terminal: "is_valid_transition s t \<Longrightarrow> \<not> is_terminal s"
  by (cases s) auto

lemma valid_transition_neq: "is_valid_transition s t \<Longrightarrow> s \<noteq> t"
  by (cases s) auto

text \<open>A rank that every permitted transition raises, so no order changes state for ever.\<close>

fun state_rank :: "order_state \<Rightarrow> nat" where
  "state_rank PendingNew = 0"
| "state_rank Open = 1"
| "state_rank PartiallyFilled = 2"
| "state_rank _ = 3"

lemma valid_transition_rank: "is_valid_transition s t \<Longrightarrow> state_rank s < state_rank t"
  by (cases s; cases t) auto

lemma fill_state_valid:
  assumes "\<not> is_terminal (o_state o')" "fill_state o' \<noteq> o_state o'"
  shows "is_valid_transition (o_state o') (fill_state o')"
  using assms by (cases "o_state o'") (auto simp: fill_state_def split: if_splits)

section \<open>Fills\<close>

lemma fill_quantities_frame [frame_simps, simp]:
  "o_id (fill_quantities q p o') = o_id o'"
  "o_state (fill_quantities q p o') = o_state o'"
  "o_quantity (fill_quantities q p o') = o_quantity o'"
  "purge_after_ms (fill_quantities q p o') = purge_after_ms o'"
  by (simp_all add: fill_quantities_def Let_def)

text \<open>The quantity balance of an order; prices play no part in it.\<close>

definition order_wf :: "order \<Rightarrow> bool" where
  "order_wf o' \<longleftrightarrow>
     0 \<le> filled_quantity o' \<and> 0 \<le> remaining_quantity o' \<and> o_quantity o' \<le> i64_max \<and>
     filled_quantity o' + remaining_quantity o' = o_quantity o'"

lemma order_wf_new:
  "0 \<le> qty \<Longrightarrow> qty \<le> i64_max \<Longrightarrow> order_wf (new_order i n s ty tif px qty c now)"
  by (simp add: order_wf_def new_order_def)

lemma fill_quantities_amounts:
  assumes "order_wf o'" "0 < q" "q \<le> remaining_quantity o'"
  shows "filled_quantity (fill_quantities q p o') = filled_quantity o' + q"
    and "remaining_quantity (fill_quantities q p o') = remaining_quantity o' - q"
  using assms
  by (auto simp: fill_quantities_def order_wf_def Let_def in_i64_def intro!: s64_id)

lemma fill_quantities_wf:
  assumes "order_wf o'" "0 < q" "q \<le> remaining_quantity o'"
  shows "order_wf (fill_quantities q p o')"
  using assms fill_quantities_amounts [OF assms] by (simp add: order_wf_def)

lemma fill_quantities_average:
  assumes wf: "order_wf o'" and q: "0 < q" "q \<le> remaining_quantity o'"
    and lo: "0 \<le> lo" "lo \<le> px" "px \<le> hi" and hi: "hi * o_quantity o' \<le> i64_max"
    and avg: "filled_quantity o' > 0 \<Longrightarrow> lo \<le> average_fill_price o' \<and> average_fill_price o' \<le> hi"
  shows "average_fill_price (fill_quantities q px o') =
           (filled_quantity o' * average_fill_price o' + q * px) div (filled_quantity o' + q)"
    and "lo \<le> average_fill_price (fill_quantities q px o')"
    and "average_fill_price (fill_quantities q px o') \<le> hi"
proof -
  let ?f = "filled_quantity o'" and ?a = "average_fill_price o'"
  have f: "0 \<le> ?f" "?f + q \<le> o_quantity o'" and hi0: "0 \<le> hi"
    using wf q lo by (auto simp: order_wf_def)
  have up: "?f * ?a \<le> ?f * hi" and dn: "?f * lo \<le> ?f * ?a"
    using avg f by (cases "?f = 0"; simp add: mult_left_mono)+
  have qpx: "q * px \<le> q * hi" "q * lo \<le> q * px"
    using q lo by (simp_all add: mult_left_mono)
  have "hi * (?f + q) \<le> hi * o_quantity o'"
    using f hi0 by (simp add: mult_left_mono)
  then have total: "?f * hi + q * hi \<le> i64_max"
    using hi by (simp add: algebra_simps)
  have nn: "0 \<le> ?f * lo" "0 \<le> q * lo" "0 \<le> ?f * hi" "0 \<le> q * hi"
    using f q lo hi0 by simp_all
  have ids: "in_i64 (?f * ?a)" "in_i64 (q * px)" "in_i64 (?f * ?a + q * px)"
    using up dn qpx total nn by (auto simp: in_i64_def)
  have pos: "0 < ?f + q" using f q by simp
  have "filled_quantity (fill_quantities q px o') = ?f + q"
    by (rule fill_quantities_amounts [OF wf q])
  then show eq: "average_fill_price (fill_quantities q px o') = (?f * ?a + q * px) div (?f + q)"
    using ids pos up dn qpx nn
    by (simp add: fill_quantities_def Let_def s64_id sdiv_nonneg)
  have "lo * (?f + q) \<le> ?f * ?a + q * px"
    using dn qpx by (simp add: algebra_simps)
  then show "lo \<le> average_fill_price (fill_quantities q px o')"
    using pos zdiv_mono1 [of "lo * (?f + q)" "?f * ?a + q * px" "?f + q"] by (simp add: eq)
  have "?f * ?a + q * px \<le> hi * (?f + q)"
    using up qpx by (simp add: algebra_simps)
  then have "(?f * ?a + q * px) div (?f + q) \<le> hi * (?f + q) div (?f + q)"
    using pos by (intro zdiv_mono1)
  also have "\<dots> = hi" using pos by simp
  finally show "average_fill_price (fill_quantities q px o') \<le> hi"
    by (simp only: eq)
qed

section \<open>The invariant of the machine\<close>

text \<open>
  Every entry of the purge queue names a stored terminal order, every stored terminal order
  has exactly one entry, and orders are stored under their own id.
\<close>

definition osm_inv :: "order_state_machine \<Rightarrow> bool" where
  "osm_inv m \<longleftrightarrow>
     distinct (map fst (purge_queue m)) \<and>
     (\<forall>oid. oid \<in> fst ` set (purge_queue m) \<longleftrightarrow>
            (\<exists>o'. active_orders m oid = Some o' \<and> is_terminal (o_state o'))) \<and>
     (\<forall>oid o'. active_orders m oid = Some o' \<longrightarrow> o_id o' = oid \<and> order_wf o')"

lemma osm_invD:
  assumes "osm_inv m"
  shows "distinct (map fst (purge_queue m))"
    and "oid \<in> fst ` set (purge_queue m) \<longleftrightarrow>
         (\<exists>o'. active_orders m oid = Some o' \<and> is_terminal (o_state o'))"
    and "active_orders m oid = Some o' \<Longrightarrow> o_id o' = oid"
    and "active_orders m oid = Some o' \<Longrightarrow> order_wf o'"
  using assms by (auto simp: osm_inv_def)

lemma osm_inv_with_capacity [simp]: "osm_inv with_capacity"
  by (simp add: osm_inv_def with_capacity_def)

text \<open>
  Every mutation but the purge stores one order under its id and appends an entry exactly
  when that makes the order terminal: one lemma covers them all.
\<close>

definition store :: "order_id \<Rightarrow> order \<Rightarrow> (order_id \<times> instant) list \<Rightarrow> order_state_machine \<Rightarrow>
    order_state_machine \<Rightarrow> bool" where
  "store oid o' entries m m' \<longleftrightarrow>
     active_orders m' = (active_orders m)(oid \<mapsto> o') \<and> purge_queue m' = purge_queue m @ entries"

lemma osm_inv_store_live:
  assumes "osm_inv m" "store oid o' [] m m'" "o_id o' = oid" "order_wf o'"
    and "is_terminal (o_state o') \<longleftrightarrow> oid \<in> fst ` set (purge_queue m)"
  shows "osm_inv m'"
  using assms unfolding osm_inv_def store_def by (auto split: if_splits)

lemma osm_inv_store_terminal:
  assumes "osm_inv m" "store oid o' [(oid, t)] m m'" "o_id o' = oid" "order_wf o'"
    and "is_terminal (o_state o')" "oid \<notin> fst ` set (purge_queue m)"
  shows "osm_inv m'"
  using assms unfolding osm_inv_def store_def by (auto split: if_splits)

lemma add_order_inv:
  assumes "osm_inv m" "order_wf o'" "\<not> is_terminal (o_state o')"
  shows "osm_inv (snd (add_order o' m))"
proof (cases "o_id o' \<in> dom (active_orders m)")
  case True
  then show ?thesis using assms by (simp add: add_order_def)
next
  case False
  then have "o_id o' \<notin> fst ` set (purge_queue m)"
    using osm_invD(2) [OF assms(1)] by auto
  moreover have "store (o_id o') o' [] m (snd (add_order o' m))"
    using False by (simp add: add_order_def store_def)
  ultimately show ?thesis
    using osm_inv_store_live [OF assms(1)] assms(2,3) by blast
qed

lemma transition_cases:
  obtains (kept) "snd (transition c oid new m) = m"
      "fst (transition c oid new m) = TR_OrderNotFound \<or>
       (\<exists>o'. active_orders m oid = Some o' \<and> \<not> is_valid_transition (o_state o') new \<and>
             fst (transition c oid new m) = TR_InvalidTransition (o_state o') new)"
  | (moved) o' where "active_orders m oid = Some o'" "is_valid_transition (o_state o') new"
      "fst (transition c oid new m) =
         (if is_terminal new then TR_TerminalStateReached new else TR_Success new)"
      "store oid (o'\<lparr>o_state := new, last_updated_ns := wall_ns c\<rparr>)
         (if is_terminal new then [(oid, purge_time c o')] else []) m (snd (transition c oid new m))"
proof (cases "active_orders m oid")
  case None
  then show thesis by (intro kept) (simp_all add: transition_def)
next
  case (Some o')
  show thesis
  proof (cases "is_valid_transition (o_state o') new")
    case True
    then show thesis
      using Some by (intro moved [of o']) (simp_all add: transition_def store_def Let_def)
  next
    case False
    then show thesis using Some by (intro kept) (simp_all add: transition_def)
  qed
qed

lemma transition_inv:
  assumes inv: "osm_inv m"
  shows "osm_inv (snd (transition c oid new m))"
proof (cases rule: transition_cases [of c oid new m])
  case kept
  then show ?thesis using inv by simp
next
  case (moved o')
  let ?o = "o'\<lparr>o_state := new, last_updated_ns := wall_ns c\<rparr>"
  have wf: "o_id ?o = oid" "order_wf ?o"
    using osm_invD(3,4) [OF inv moved(1)] by (simp_all add: order_wf_def)
  have new: "oid \<notin> fst ` set (purge_queue m)"
    using osm_invD(2) [OF inv, of oid] moved(1) valid_transition_not_terminal [OF moved(2)] by simp
  show ?thesis
  proof (cases "is_terminal new")
    case True
    then show ?thesis using moved(4) wf new by (intro osm_inv_store_terminal [OF inv]) auto
  next
    case False
    then show ?thesis using moved(4) wf new by (intro osm_inv_store_live [OF inv]) auto
  qed
qed

text \<open>What a successful fill stores.\<close>

definition filled_order :: "clock \<Rightarrow> i64 \<Rightarrow> i64 \<Rightarrow> order \<Rightarrow> order" where
  "filled_order c q p o' =
     (let o1 = fill_quantities q p o'
      in if fill_state o1 \<noteq> o_state o1
         then o1\<lparr>o_state := fill_state o1, last_updated_ns := wall_ns c\<rparr> else o1)"

lemma filled_order_simps [simp]:
  "o_id (filled_order c q p o') = o_id o'"
  "o_state (filled_order c q p o') = fill_state (fill_quantities q p o')"
  "o_quantity (filled_order c q p o') = o_quantity o'"
  "filled_quantity (filled_order c q p o') = filled_quantity (fill_quantities q p o')"
  "remaining_quantity (filled_order c q p o') = remaining_quantity (fill_quantities q p o')"
  "average_fill_price (filled_order c q p o') = average_fill_price (fill_quantities q p o')"
  "purge_after_ms (filled_order c q p o') = purge_after_ms o'"
  by (simp_all add: filled_order_def Let_def)

lemma apply_fill_cases:
  obtains (refused) e where "apply_fill c oid q p x m = (Inl e, m)"
  | (filled) o' where "active_orders m oid = Some o'" "o_state o' \<noteq> Rejected"
      "o_state o' \<noteq> Canceled" "0 < q" "q \<le> remaining_quantity o'"
      "fst (apply_fill c oid q p x m) = Inr ()"
      "store oid (filled_order c q p o')
         (if is_terminal (o_state (filled_order c q p o')) \<and>
             o_state (filled_order c q p o') \<noteq> o_state o'
          then [(oid, purge_time c o')] else [])
         m (snd (apply_fill c oid q p x m))"
proof (cases "active_orders m oid")
  case None
  then show thesis by (intro refused) (simp add: apply_fill_def)
next
  case (Some o')
  show thesis
  proof (cases "o_state o' = Rejected \<or> o_state o' = Canceled \<or> q \<le> 0 \<or> q > remaining_quantity o'")
    case True
    then show thesis
      using Some by (intro refused [where e = "if o_state o' = Rejected \<or> o_state o' = Canceled
          then CannotFillRejectedOrCanceled else InvalidFillQuantity"]) (auto simp: apply_fill_def)
  next
    case False
    then show thesis
      using Some
      by (intro filled [of o'])
        (auto simp: apply_fill_def store_def filled_order_def Let_def purge_time_def)
  qed
qed

lemma apply_fill_inv:
  assumes inv: "osm_inv m"
  shows "osm_inv (snd (apply_fill c oid q p x m))"
proof (cases rule: apply_fill_cases [of c oid q p x m])
  case refused
  then show ?thesis using inv by simp
next
  case (filled o')
  let ?o = "filled_order c q p o'"
  have wf: "o_id ?o = oid" "order_wf ?o"
    using osm_invD(3,4) [OF inv filled(1)] fill_quantities_wf [of o' q p] filled(4,5)
    by (simp_all add: order_wf_def)
  have queue: "oid \<in> fst ` set (purge_queue m) \<longleftrightarrow> is_terminal (o_state o')"
    using osm_invD(2) [OF inv, of oid] filled(1) by simp
  show ?thesis
  proof (cases "is_terminal (o_state ?o) \<and> o_state ?o \<noteq> o_state o'")
    case True
    then have "\<not> is_terminal (o_state o')"
      using filled(2,3) by (auto simp: is_terminal_def fill_state_def split: if_splits)
    then show ?thesis
      using True filled(7) wf queue by (intro osm_inv_store_terminal [OF inv]) auto
  next
    case False
    then have "is_terminal (o_state ?o) \<longleftrightarrow> is_terminal (o_state o')"
      using filled(2,3) by (auto simp: is_terminal_def fill_state_def split: if_splits)
    then show ?thesis
      using False filled(7) wf queue by (intro osm_inv_store_live [OF inv]) auto
  qed
qed

lemma apply_fill_ok:
  assumes "get_order oid m = Some o'" "\<not> is_terminal (o_state o')"
    and "0 < q" "q \<le> remaining_quantity o'"
  shows "fst (apply_fill c oid q p x m) = Inr ()"
    and "get_order oid (snd (apply_fill c oid q p x m)) = Some (filled_order c q p o')"
proof -
  show ok: "fst (apply_fill c oid q p x m) = Inr ()"
    using assms by (auto simp: apply_fill_def get_order_def is_terminal_def Let_def)
  show "get_order oid (snd (apply_fill c oid q p x m)) = Some (filled_order c q p o')"
    by (cases rule: apply_fill_cases [of c oid q p x m])
      (use assms(1) ok in \<open>auto simp: store_def get_order_def\<close>)
qed

lemma filled_order_wf:
  "order_wf o' \<Longrightarrow> 0 < q \<Longrightarrow> q \<le> remaining_quantity o' \<Longrightarrow> order_wf (filled_order c q p o')"
  using fill_quantities_wf [of o' q p] by (simp add: order_wf_def)

text \<open>The machine as the store that the report handler fills.\<close>

interpretation osm_fill: fill_store "\<lambda>oid (c, q, p, x). apply_fill c oid q p x" get_order
proof
  fix i m and a :: "clock \<times> i64 \<times> i64 \<times> execution_id" and e
  obtain c q p x where a: "a = (c, q, p, x)" by (cases a) auto
  let ?run = "(\<lambda>(c, q, p, x). apply_fill c i q p x) a m"
  show "fst ?run = Inr () \<Longrightarrow> get_order i (snd ?run) \<noteq> None"
    by (cases rule: apply_fill_cases [of c i q p x m]) (auto simp: a store_def get_order_def)
  show "fst ?run = Inl e \<Longrightarrow> snd ?run = m"
    by (cases rule: apply_fill_cases [of c i q p x m]) (auto simp: a)
qed

section \<open>The purge\<close>

lemma purge_loop_correct:
  assumes "k \<le> length (purge_queue m)"
  shows "\<exists>m'. purge_loop (rev (filter P [0..<k])) m n =
               Inr (n + card (fst ` (!) (purge_queue m) ` {i. i < k \<and> P i} \<inter> dom (active_orders m)), m') \<and>
             mset (purge_queue m') =
               mset (map ((!) (purge_queue m)) (filter (\<lambda>i. \<not> P i) [0..<k])) + mset (drop k (purge_queue m)) \<and>
             active_orders m' =
               active_orders m |` (- fst ` (!) (purge_queue m) ` {i. i < k \<and> P i}) \<and>
             m' = m\<lparr>purge_queue := purge_queue m', active_orders := active_orders m'\<rparr>"
  using assms
proof (induction k arbitrary: m n)
  case 0
  then show ?case by simp
next
  case (Suc k)
  let ?q = "purge_queue m"
  have k: "k < length ?q" using Suc.prems by simp
  have upto: "{i. i < Suc k \<and> P i} = (if P k then insert k {i. i < k \<and> P i} else {i. i < k \<and> P i})"
    by (auto simp: less_Suc_eq)
  show ?case
  proof (cases "P k")
    case False
    have "mset (drop k ?q) = add_mset (?q ! k) (mset (drop (Suc k) ?q))"
      using k by (simp add: Cons_nth_drop_Suc [symmetric])
    then show ?thesis using Suc.IH [of m n] k False by (simp add: upto)
  next
    case True
    let ?q1 = "butlast (?q[k := last ?q])"
    let ?oid = "fst (?q ! k)"
    let ?hit = "?oid \<in> dom (active_orders m)"
    let ?m1 = "m\<lparr>purge_queue := ?q1, active_orders := (active_orders m)(?oid := None)\<rparr>"
    have m1: "purge_loop (rev (filter P [0..<Suc k])) m n =
              purge_loop (rev (filter P [0..<k])) ?m1 (if ?hit then Suc n else n)"
    proof (cases ?hit)
      case True
      then show ?thesis using \<open>P k\<close> k
        by (cases "?q ! k") (auto simp: swap_remove_def)
    next
      case False
      then have "(active_orders m)(?oid := None) = active_orders m" by auto
      then show ?thesis using False \<open>P k\<close> k
        by (cases "?q ! k") (auto simp: swap_remove_def)
    qed
    have nth: "?q1 ! i = ?q ! i" if "i < k" for i
      using that k by (simp add: nth_butlast)
    then have img: "(!) ?q1 ` {i. i < k \<and> P i} = (!) ?q ` {i. i < k \<and> P i}"
      and kept: "map ((!) ?q1) (filter (\<lambda>i. \<not> P i) [0..<k]) = map ((!) ?q) (filter (\<lambda>i. \<not> P i) [0..<k])"
      by auto
    define ids where "ids = fst ` (!) ?q ` {i. i < k \<and> P i}"
    have "finite (ids \<inter> dom (active_orders m))" by (simp add: ids_def)
    then have card: "(if ?hit then Suc n else n) + card (ids \<inter> dom ((active_orders m)(?oid := None)))
                = n + card (insert ?oid ids \<inter> dom (active_orders m))"
      by (auto simp: Int_insert_left card_insert_disjoint Diff_Int_distrib2 card.insert_remove Int_Diff)
    have "k \<le> length (purge_queue ?m1)" using k by simp
    from Suc.IH [OF this, of "if ?hit then Suc n else n"] obtain m' where ih:
      "purge_loop (rev (filter P [0..<k])) ?m1 (if ?hit then Suc n else n) =
         Inr ((if ?hit then Suc n else n) + card (fst ` (!) (purge_queue ?m1) ` {i. i < k \<and> P i} \<inter>
              dom (active_orders ?m1)), m')"
      "mset (purge_queue m') = mset (map ((!) (purge_queue ?m1)) (filter (\<lambda>i. \<not> P i) [0..<k])) +
         mset (drop k (purge_queue ?m1))"
      "active_orders m' =
         active_orders ?m1 |` (- fst ` (!) (purge_queue ?m1) ` {i. i < k \<and> P i})"
      "m' = ?m1\<lparr>purge_queue := purge_queue m', active_orders := active_orders m'\<rparr>"
      by blast
    have sel: "purge_queue ?m1 = ?q1" "active_orders ?m1 = (active_orders m)(?oid := None)"
      by simp_all
    note ih' = ih [unfolded sel img kept, folded ids_def, unfolded card mset_drop_swap_removed [OF k]]
    have dm: "(active_orders m)(?oid := None) |` (- ids) = active_orders m |` (- insert ?oid ids)"
      by (auto simp: restrict_map_def fun_eq_iff)
    have img': "fst ` (!) ?q ` {i. i < Suc k \<and> P i} = insert ?oid ids"
      using True by (simp add: upto ids_def)
    show ?thesis
      unfolding img' m1
      by (intro exI [of _ m'] conjI) (use ih' True in \<open>simp_all add: dm [symmetric]\<close>)
  qed
qed

text \<open>
  The purge never leaves the vector's bounds.  It keeps exactly the unexpired entries,
  removes exactly the orders whose entry expired, and counts those it found.
\<close>

definition expired_ids :: "instant \<Rightarrow> order_state_machine \<Rightarrow> order_id set" where
  "expired_ids now m = fst ` {e \<in> set (purge_queue m). snd e \<le> now}"

lemma purge_terminal_orders_spec:
  obtains m' where
    "purge_terminal_orders now m =
       Inr (card (expired_ids now m \<inter> dom (active_orders m)), m')"
    "mset (purge_queue m') = mset (filter (\<lambda>e. \<not> snd e \<le> now) (purge_queue m))"
    "active_orders m' = active_orders m |` (- expired_ids now m)"
    "m' = m\<lparr>purge_queue := purge_queue m', active_orders := active_orders m'\<rparr>"
proof -
  let ?q = "purge_queue m" and ?P = "\<lambda>i. snd (purge_queue m ! i) \<le> now"
  have ids: "fst ` (!) ?q ` {i. i < length ?q \<and> ?P i} = expired_ids now m"
    by (force simp: expired_ids_def in_set_conv_nth)
  have kept: "map ((!) ?q) (filter (\<lambda>i. \<not> ?P i) [0..<length ?q]) = filter (\<lambda>e. \<not> snd e \<le> now) ?q"
    using filter_map [of "\<lambda>e. \<not> snd e \<le> now" "(!) ?q" "[0..<length ?q]"]
    by (simp add: comp_def map_nth)
  from purge_loop_correct [of "length ?q" m ?P 0] that show thesis
    unfolding purge_terminal_orders_def expired_indices_def ids kept by auto
qed

lemma purge_inv:
  assumes inv: "osm_inv m" and run: "purge_terminal_orders now m = Inr (k, m')"
  shows "osm_inv m'"
proof -
  obtain m1 where m1: "purge_terminal_orders now m =
       Inr (card (expired_ids now m \<inter> dom (active_orders m)), m1)"
    "mset (purge_queue m1) = mset (filter (\<lambda>e. \<not> snd e \<le> now) (purge_queue m))"
    "active_orders m1 = active_orders m |` (- expired_ids now m)"
    by (rule purge_terminal_orders_spec)
  have eq: "m1 = m'" using m1(1) run by simp
  let ?keep = "filter (\<lambda>e. \<not> snd e \<le> now) (purge_queue m)"
  have dist: "distinct (map fst ?keep)"
    using osm_invD(1) [OF inv] by (simp add: distinct_map_filter)
  then have "distinct (map fst (purge_queue m'))"
    using m1(2) mset_eq_imp_distinct_iff [of "map fst (purge_queue m')" "map fst ?keep"]
    by (simp add: eq)
  moreover have set: "set (purge_queue m') = set ?keep"
    using m1(2) mset_eq_setD eq by blast
  have "oid \<in> fst ` set ?keep \<longleftrightarrow> oid \<in> fst ` set (purge_queue m) \<and> oid \<notin> expired_ids now m" for oid
  proof -
    have same: "e = e'" if "e \<in> set (purge_queue m)" "e' \<in> set (purge_queue m)" "fst e = fst e'" for e e'
      using osm_invD(1) [OF inv] that by (auto simp: distinct_map dest: inj_onD)
    show ?thesis
    proof
      assume "oid \<in> fst ` set ?keep"
      then obtain t where t: "(oid, t) \<in> set (purge_queue m)" "\<not> t \<le> now" by auto
      have "oid \<notin> expired_ids now m"
      proof
        assume "oid \<in> expired_ids now m"
        then obtain t' where "(oid, t') \<in> set (purge_queue m)" "t' \<le> now"
          by (auto simp: expired_ids_def)
        with t same [of "(oid, t)" "(oid, t')"] show False by simp
      qed
      with t(1) show "oid \<in> fst ` set (purge_queue m) \<and> oid \<notin> expired_ids now m"
        by (auto intro: image_eqI [of oid fst "(oid, t)"])
    next
      assume "oid \<in> fst ` set (purge_queue m) \<and> oid \<notin> expired_ids now m"
      then show "oid \<in> fst ` set ?keep" by (force simp: expired_ids_def)
    qed
  qed
  then have "oid \<in> fst ` set (purge_queue m') \<longleftrightarrow>
      (\<exists>o'. active_orders m' oid = Some o' \<and> is_terminal (o_state o'))" for oid
    using osm_invD(2) [OF inv, of oid] m1(3) set by (auto simp: eq restrict_map_def)
  ultimately show ?thesis
    using inv m1(3) unfolding osm_inv_def by (auto simp: eq restrict_map_def split: if_splits)
qed

section \<open>Reachable states\<close>

text \<open>
  The steps a client can take.  Orders enter through \<open>Order::new\<close> with a non-negative
  quantity, as the OMS facade does; every other argument is arbitrary.
\<close>

inductive osm_step :: "order_state_machine \<Rightarrow> order_state_machine \<Rightarrow> bool" where
  step_generate: "osm_step m (snd (generate_order_id m))"
| step_add: "0 \<le> qty \<Longrightarrow> qty \<le> i64_max \<Longrightarrow>
     osm_step m (snd (add_order (new_order oid name sd ty tif px qty client now) m))"
| step_transition: "osm_step m (snd (transition c oid new m))"
| step_fill: "osm_step m (snd (apply_fill c oid q p x m))"
| step_purge: "purge_terminal_orders t m = Inr (k, m') \<Longrightarrow> osm_step m m'"

inductive osm_reachable :: "order_state_machine \<Rightarrow> bool" where
  reach_init: "osm_reachable with_capacity"
| reach_step: "osm_reachable m \<Longrightarrow> osm_step m m' \<Longrightarrow> osm_reachable m'"

lemma generate_order_id_inv [simp]: "osm_inv (snd (generate_order_id m)) = osm_inv m"
  by (simp add: generate_order_id_def osm_inv_def)

lemma new_order_state [simp]: "o_state (new_order oid name sd ty tif px qty client now) = PendingNew"
  by (simp add: new_order_def)

lemma osm_step_inv: "osm_step m m' \<Longrightarrow> osm_inv m \<Longrightarrow> osm_inv m'"
  by (induction rule: osm_step.induct)
    (auto intro!: add_order_inv transition_inv apply_fill_inv order_wf_new elim: purge_inv)

lemma osm_reachable_osm_inv: "osm_reachable m \<Longrightarrow> osm_inv m"
  by (induction rule: osm_reachable.induct) (auto intro: osm_step_inv)

text \<open>How one step changes one order that is stored before and after it.\<close>

lemma add_order_stored:
  "active_orders m oid = Some o1 \<Longrightarrow> active_orders (snd (add_order o' m)) oid = Some o1"
  by (auto simp: add_order_def)

lemma transition_stored:
  assumes "active_orders m oid = Some o1" "active_orders (snd (transition c oid' new m)) oid = Some o2"
  shows "o_state o2 = o_state o1 \<or> is_valid_transition (o_state o1) (o_state o2)"
  by (cases rule: transition_cases [of c oid' new m])
    (use assms in \<open>auto simp: store_def split: if_splits\<close>)

lemma apply_fill_stored:
  assumes "active_orders m oid = Some o1" "active_orders (snd (apply_fill c oid' q p x m)) oid = Some o2"
  shows "o_state o2 = o_state o1 \<or> is_valid_transition (o_state o1) (o_state o2)"
proof (cases rule: apply_fill_cases [of c oid' q p x m])
  case refused
  then show ?thesis using assms by simp
next
  case (filled o')
  let ?o1 = "fill_quantities q p o'"
  have "fill_state ?o1 = o_state o' \<or> is_valid_transition (o_state o') (fill_state ?o1)"
    using fill_state_valid [of ?o1] filled(2,3)
    by (cases "o_state o'") (auto simp: fill_state_def split: if_splits)
  then show ?thesis
    using filled(1,7) assms by (auto simp: store_def split: if_splits)
qed

lemma purge_stored:
  assumes "purge_terminal_orders t m = Inr (k, m')"
    and "active_orders m oid = Some o1" "active_orders m' oid = Some o2"
  shows "o2 = o1"
proof -
  obtain m1 where "purge_terminal_orders t m = Inr (card (expired_ids t m \<inter> dom (active_orders m)), m1)"
    and "active_orders m1 = active_orders m |` (- expired_ids t m)"
    by (rule purge_terminal_orders_spec)
  then show ?thesis using assms by (auto simp: restrict_map_def split: if_splits)
qed

lemma apply_fill_dom:
  "oid \<in> dom (active_orders m) \<Longrightarrow> oid \<in> dom (active_orders (snd (apply_fill c oid' q p x m)))"
  by (cases rule: apply_fill_cases [of c oid' q p x m]) (auto simp: store_def)

text \<open>C20. In every state that the operations reach, each stored order has a non-negative filled
  and remaining quantity that sum to its quantity, each terminal order has exactly one entry
  in the purge queue, and no other order has one: no terminal order escapes the purge.\<close>

theorem osm_reachable_inv:
  assumes "osm_reachable m"
  shows "distinct (map fst (purge_queue m)) \<and>
         (\<forall>oid. oid \<in> fst ` set (purge_queue m) \<longleftrightarrow>
            (\<exists>o'. get_order oid m = Some o' \<and> is_terminal (o_state o'))) \<and>
         (\<forall>oid o'. get_order oid m = Some o' \<longrightarrow>
            o_id o' = oid \<and> 0 \<le> filled_quantity o' \<and> 0 \<le> remaining_quantity o' \<and>
            filled_quantity o' + remaining_quantity o' = o_quantity o')"
  using osm_reachable_osm_inv [OF assms] by (auto simp: osm_inv_def get_order_def order_wf_def)

definition example_order :: order where
  "example_order = new_order 1 [66, 84, 67] Buy Limit Gtc 50000 100 7 0"

definition example_clock :: clock where
  "example_clock = \<lparr>wall_ns = 9, mono_now = 4\<rparr>"

text \<open>A machine that holds one order, filled completely in one trade.\<close>

definition example_filled :: order_state_machine where
  "example_filled =
     snd (apply_fill example_clock 1 100 50000 3 (snd (add_order example_order with_capacity)))"

lemma example_filled_reachable: "osm_reachable example_filled"
proof -
  have "osm_step with_capacity (snd (add_order example_order with_capacity))"
    unfolding example_order_def by (rule step_add) simp_all
  then have "osm_reachable (snd (add_order example_order with_capacity))"
    by (rule reach_step [OF reach_init])
  then show ?thesis unfolding example_filled_def by (rule reach_step) (rule step_fill)
qed

lemma osm_reachable_inv_witness:
  "osm_reachable example_filled \<and> (\<forall>oid. oid \<in> fst ` set (purge_queue example_filled) \<longleftrightarrow>
      (\<exists>o'. get_order oid example_filled = Some o' \<and> is_terminal (o_state o')))"
  using osm_reachable_inv [OF example_filled_reachable] example_filled_reachable by blast

text \<open>Whatever operation runs, an order that is stored before and after it either keeps its
  state or moves along the table of permitted transitions: fills obey the same table as the
  exchange's reports, and a terminal order never changes state again while it is stored.\<close>

lemma osm_step_follows_table:
  assumes "osm_step m m'" "get_order oid m = Some o1" "get_order oid m' = Some o2"
  shows "(o_state o2 = o_state o1 \<or> is_valid_transition (o_state o1) (o_state o2)) \<and>
         (is_terminal (o_state o1) \<longrightarrow> o_state o2 = o_state o1)"
proof -
  have "o_state o2 = o_state o1 \<or> is_valid_transition (o_state o1) (o_state o2)"
    using assms unfolding get_order_def
  proof cases
    case step_generate
    then show ?thesis using assms(2,3) by (simp add: generate_order_id_def get_order_def)
  next
    case step_add
    then show ?thesis using assms(2,3) add_order_stored unfolding get_order_def by fastforce
  next
    case step_transition
    then show ?thesis using assms(2,3) transition_stored unfolding get_order_def by blast
  next
    case step_fill
    then show ?thesis using assms(2,3) apply_fill_stored unfolding get_order_def by blast
  next
    case (step_purge t k)
    from purge_stored [OF this] assms(2,3) show ?thesis unfolding get_order_def by blast
  qed
  then show ?thesis using valid_transition_not_terminal by blast
qed

lemma osm_step_follows_table_example:
  "\<exists>o2. get_order 1 example_filled = Some o2 \<and>
     (o_state o2 = PendingNew \<or> is_valid_transition PendingNew (o_state o2))"
proof -
  let ?m = "snd (add_order example_order with_capacity)"
  have step: "osm_step ?m example_filled"
    unfolding example_filled_def by (rule step_fill)
  have before: "get_order 1 ?m = Some example_order"
    by (simp add: get_order_def add_order_def with_capacity_def example_order_def new_order_def)
  then have "1 \<in> dom (active_orders example_filled)"
    unfolding example_filled_def by (intro apply_fill_dom) (auto simp: get_order_def)
  then obtain o2 where o2: "get_order 1 example_filled = Some o2"
    by (auto simp: get_order_def)
  from osm_step_follows_table [OF step before o2] show ?thesis
    using o2 by (auto simp: example_order_def)
qed

text \<open>C28. A fill of a stored, open order by a valid quantity moves exactly that quantity from
  remaining to filled, makes the order Filled exactly when nothing remains, and sets the
  average price to the truncated volume-weighted average of all fills, which stays between
  any bounds that the previous average and the new price respect (given that the order's
  notional at the upper bound fits an i64).\<close>

theorem apply_fill_effect:
  assumes stored: "get_order oid m = Some o'" and wf: "order_wf o'"
    and live: "\<not> is_terminal (o_state o')" and q: "0 < q" "q \<le> remaining_quantity o'"
    and px: "0 \<le> lo" "lo \<le> p" "p \<le> hi" "hi * o_quantity o' \<le> i64_max"
    and avg: "0 < filled_quantity o' \<Longrightarrow> lo \<le> average_fill_price o' \<and> average_fill_price o' \<le> hi"
  shows "\<exists>o2. fst (apply_fill c oid q p x m) = Inr () \<and>
           get_order oid (snd (apply_fill c oid q p x m)) = Some o2 \<and>
           filled_quantity o2 = filled_quantity o' + q \<and>
           remaining_quantity o2 = remaining_quantity o' - q \<and>
           (o_state o2 = Filled \<longleftrightarrow> filled_quantity o2 = o_quantity o') \<and>
           average_fill_price o2 =
             (filled_quantity o' * average_fill_price o' + q * p) div (filled_quantity o' + q) \<and>
           lo \<le> average_fill_price o2 \<and> average_fill_price o2 \<le> hi"
proof -
  let ?o2 = "filled_order c q p o'"
  note amounts = fill_quantities_amounts [OF wf q, of p]
  note average = fill_quantities_average [OF wf q px avg]
  have "o_state ?o2 = Filled \<longleftrightarrow> filled_quantity ?o2 = o_quantity o'"
    using amounts live wf by (auto simp: fill_state_def order_wf_def)
  then show ?thesis
    using apply_fill_ok [OF stored live q] amounts average by (intro exI [of _ ?o2]) auto
qed

lemma apply_fill_effect_witness:
  "\<exists>o2. get_order 1 example_filled = Some o2 \<and> filled_quantity o2 = 100 \<and> o_state o2 = Filled"
proof -
  let ?m = "snd (add_order example_order with_capacity)"
  have stored: "get_order 1 ?m = Some example_order"
    by (simp add: get_order_def add_order_def with_capacity_def example_order_def new_order_def)
  have "\<exists>o2. fst (apply_fill example_clock 1 100 50000 3 ?m) = Inr () \<and>
           get_order 1 (snd (apply_fill example_clock 1 100 50000 3 ?m)) = Some o2 \<and>
           filled_quantity o2 = filled_quantity example_order + 100 \<and>
           remaining_quantity o2 = remaining_quantity example_order - 100 \<and>
           (o_state o2 = Filled \<longleftrightarrow> filled_quantity o2 = o_quantity example_order) \<and>
           average_fill_price o2 = (filled_quantity example_order * average_fill_price example_order
              + 100 * 50000) div (filled_quantity example_order + 100) \<and>
           0 \<le> average_fill_price o2 \<and> average_fill_price o2 \<le> 50000"
    by (rule apply_fill_effect [OF stored])
      (simp_all add: example_order_def new_order_def order_wf_def)
  then show ?thesis
    by (auto simp: example_filled_def example_order_def new_order_def)
qed

text \<open>The purge at time \<open>now\<close> never panics, although it removes by index with
  \<open>swap_remove\<close>: it deletes exactly the orders whose retention ended, leaves every other
  order as it was, keeps exactly the queue entries that have not expired, and returns the
  number of orders it deleted; once every deadline has passed no terminal order is left.\<close>

lemma purge_exact:
  assumes "osm_reachable m"
  shows "\<exists>m'. purge_terminal_orders now m = Inr (card (expired_ids now m), m') \<and>
           (\<forall>oid. get_order oid m' = (if oid \<in> expired_ids now m then None else get_order oid m)) \<and>
           mset (purge_queue m') = mset (filter (\<lambda>e. \<not> snd e \<le> now) (purge_queue m)) \<and>
           ((\<forall>e \<in> set (purge_queue m). snd e \<le> now) \<longrightarrow>
             (\<forall>oid o'. get_order oid m' = Some o' \<longrightarrow> \<not> is_terminal (o_state o')))"
proof -
  have inv: "osm_inv m" using assms by (rule osm_reachable_osm_inv)
  obtain m' where m': "purge_terminal_orders now m =
       Inr (card (expired_ids now m \<inter> dom (active_orders m)), m')"
    "mset (purge_queue m') = mset (filter (\<lambda>e. \<not> snd e \<le> now) (purge_queue m))"
    "active_orders m' = active_orders m |` (- expired_ids now m)"
    by (rule purge_terminal_orders_spec)
  have "expired_ids now m \<subseteq> fst ` set (purge_queue m)"
    by (auto simp: expired_ids_def)
  then have "expired_ids now m \<subseteq> dom (active_orders m)"
    using osm_invD(2) [OF inv] by blast
  then have "expired_ids now m \<inter> dom (active_orders m) = expired_ids now m" by blast
  moreover have "\<not> is_terminal (o_state o')"
    if "\<forall>e \<in> set (purge_queue m). snd e \<le> now" "get_order oid m' = Some o'" for oid o'
  proof -
    have "expired_ids now m = fst ` set (purge_queue m)"
      using that(1) by (auto simp: expired_ids_def)
    then show ?thesis
      using that(2) m'(3) osm_invD(2) [OF inv, of oid]
      by (auto simp: get_order_def restrict_map_def split: if_splits)
  qed
  ultimately show ?thesis
    using m' by (intro exI [of _ m']) (auto simp: get_order_def restrict_map_def)
qed

lemma purge_exact_example:
  "\<exists>m'. purge_terminal_orders 6000000000 example_filled =
          Inr (card (expired_ids 6000000000 example_filled), m')"
  using purge_exact [OF example_filled_reachable] by blast

text \<open>An order that fills through \<open>apply_fill\<close> is never counted: the operation leaves the
  machine's counters of filled and rejected orders as they were, on every branch, so
  \<open>total_filled\<close> counts only the fills reported through \<open>transition\<close>.\<close>

lemma apply_fill_keeps_counters:
  "total_filled (get_stats (snd (apply_fill c oid q p x m))) = total_filled (get_stats m) \<and>
   total_rejected (get_stats (snd (apply_fill c oid q p x m))) = total_rejected (get_stats m)"
  by (auto simp: get_stats_def apply_fill_def Let_def split: option.splits)

section \<open>Symbols\<close>

lemma utf8_valid_ascii: "\<forall>b \<in> set bs. b \<le> 0x7F \<Longrightarrow> utf8_valid bs"
  by (induction bs) auto

text \<open>A symbol of at most twelve ASCII bytes, none of them zero, survives the round trip
  through the zero-padded twelve-byte buffer that \<open>Order::new\<close> stores.\<close>

lemma symbol_round_trip:
  assumes "length name \<le> 12" "\<forall>b \<in> set name. b \<noteq> 0 \<and> b \<le> 0x7F"
  shows "symbol_str (new_order oid name sd ty tif px qty client now) = name"
proof -
  have "takeWhile (\<lambda>b. b \<noteq> 0) (name @ replicate (12 - length name) 0) = name"
    using assms(2) by (simp add: takeWhile_append)
  then show ?thesis
    using assms utf8_valid_ascii [of name]
    by (simp add: symbol_str_def new_order_def symbol_buffer_def Let_def)
qed

lemma symbol_round_trip_example:
  "symbol_str (new_order 1 [66, 84, 67, 85, 83, 68, 84] Buy Limit Gtc 50000 100 7 0) =
     [66, 84, 67, 85, 83, 68, 84]"
  by (rule symbol_round_trip) simp_all

end
