(* ===== verification/Execution_Reports.thy ===== *)
theory Execution_Reports
  imports Order_State
begin

text \<open>
  The execution report handler of
  \<open>crates/nexus_oms/src/reconciliation/execution_report_handler.rs\<close>: duplicate detection by
  sequence number, the registry of pending cancels, and one handler per report type, each
  threading the reconciler and the order state machine.  \<open>sequence_tracker\<close> facts say what
  the duplicate check remembers; the theorems say that a replayed in-order report leaves the
  orders alone, and that a replayed late report does not.
\<close>

section \<open>Reports and results\<close>

datatype execution_report_type =
    NewOrderAck
  | CancelAck
  | Reject
  | Trade (fill_quantity: i64) (fill_price: i64) (trade_id: u64) (is_buyer_maker: bool)
  | StatusUpdate

record execution_report =
  report_type :: execution_report_type
  rep_order_id :: order_id
  rep_exchange_order_id :: u64
  rep_symbol :: "u8 list"
  rep_side :: side
  timestamp_ns :: u64
  sequence_num :: u64

definition new_trade ::
  "u64 \<Rightarrow> order_id \<Rightarrow> u64 \<Rightarrow> u8 list \<Rightarrow> side \<Rightarrow> i64 \<Rightarrow> i64 \<Rightarrow> u64 \<Rightarrow> bool \<Rightarrow> execution_report" where
  "new_trade now oid ex_id name sd qty px tid maker =
     \<lparr>report_type = Trade qty px tid maker, rep_order_id = oid, rep_exchange_order_id = ex_id,
      rep_symbol = name, rep_side = sd, timestamp_ns = now, sequence_num = 0\<rparr>"

definition new_reject ::
  "u64 \<Rightarrow> order_id \<Rightarrow> u64 \<Rightarrow> u8 list \<Rightarrow> side \<Rightarrow> execution_report" where
  "new_reject now oid ex_id name sd =
     \<lparr>report_type = Reject, rep_order_id = oid, rep_exchange_order_id = ex_id,
      rep_symbol = name, rep_side = sd, timestamp_ns = now, sequence_num = 0\<rparr>"

datatype race_reason = AlreadyInTerminalState | AlreadyPurged

datatype execution_report_result =
    ER_Success order_id order_state "i64 option"
  | ER_OrderNotFound order_id
  | ER_InvalidTransition order_id order_state order_state
  | ER_Duplicate order_id u64
  | ER_RaceConditionResolved order_id race_reason

fun is_duplicate_result :: "execution_report_result \<Rightarrow> bool" where
  "is_duplicate_result (ER_Duplicate _ _) = True"
| "is_duplicate_result _ = False"

section \<open>The sequence tracker\<close>

record sequence_tracker =
  last_sequence :: u64
  seen_sequences :: "u64 list"
  max_history :: nat

definition new_tracker :: "nat \<Rightarrow> sequence_tracker" where
  "new_tracker n = \<lparr>last_sequence = 0, seen_sequences = [], max_history = n\<rparr>"

definition is_duplicate :: "sequence_tracker \<Rightarrow> u64 \<Rightarrow> bool" where
  "is_duplicate t sq =
     (if sq \<le> last_sequence t \<and> last_sequence t - sq < word_of_nat (max_history t)
      then sq \<in> set (seen_sequences t) else False)"

definition record_sequence :: "u64 \<Rightarrow> sequence_tracker \<Rightarrow> sequence_tracker" where
  "record_sequence sq t =
     (if sq > last_sequence t then
        let seen = (if length (seen_sequences t) \<ge> max_history t
                    then drop 1 (seen_sequences t) else seen_sequences t)
        in t\<lparr>last_sequence := sq, seen_sequences := seen @ [sq]\<rparr>
      else t)"

section \<open>The reconciler\<close>

record reconciliation_stats =
  total_reports_processed :: u64
  fills_processed :: u64
  cancels_processed :: u64
  rejects_processed :: u64
  duplicates_detected :: u64
  race_conditions_resolved :: u64
  errors :: u64

definition default_stats :: reconciliation_stats where
  "default_stats =
     \<lparr>total_reports_processed = 0, fills_processed = 0, cancels_processed = 0,
      rejects_processed = 0, duplicates_detected = 0, race_conditions_resolved = 0, errors = 0\<rparr>"

record reconciler =
  tracker :: sequence_tracker
  rstats :: reconciliation_stats
  pending_cancels :: "(order_id \<times> instant) list"
  cancel_timeout_ms :: u64

definition new_reconciler :: "u64 \<Rightarrow> reconciler" where
  "new_reconciler timeout =
     \<lparr>tracker = new_tracker 1000, rstats = default_stats, pending_cancels = [],
      cancel_timeout_ms = timeout\<rparr>"

text \<open>\<open>Instant::duration_since\<close> saturates at zero, as truncated subtraction on \<open>nat\<close> does.\<close>

definition cleanup_expired_cancels :: "instant \<Rightarrow> reconciler \<Rightarrow> reconciler" where
  "cleanup_expired_cancels now r =
     r\<lparr>pending_cancels :=
        filter (\<lambda>(_, at). now - at < unat (cancel_timeout_ms r) * 1000000) (pending_cancels r)\<rparr>"

definition register_cancel_request :: "instant \<Rightarrow> order_id \<Rightarrow> reconciler \<Rightarrow> reconciler" where
  "register_cancel_request now oid r =
     cleanup_expired_cancels now (r\<lparr>pending_cancels := pending_cancels r @ [(oid, now)]\<rparr>)"

definition has_pending_cancel :: "order_id \<Rightarrow> reconciler \<Rightarrow> bool" where
  "has_pending_cancel oid r = list_ex (\<lambda>(i, _). i = oid) (pending_cancels r)"

definition remove_pending_cancel :: "order_id \<Rightarrow> reconciler \<Rightarrow> reconciler" where
  "remove_pending_cancel oid r =
     r\<lparr>pending_cancels := filter (\<lambda>(i, _). i \<noteq> oid) (pending_cancels r)\<rparr>"

definition bump ::
  "((u64 \<Rightarrow> u64) \<Rightarrow> reconciliation_stats \<Rightarrow> reconciliation_stats) \<Rightarrow> reconciler \<Rightarrow> reconciler" where
  "bump upd r = r\<lparr>rstats := upd (\<lambda>n. n + 1) (rstats r)\<rparr>"

type_synonym oms_state = "reconciler \<times> order_state_machine"

definition handle_new_order_ack ::
  "clock \<Rightarrow> execution_report \<Rightarrow> oms_state \<Rightarrow> execution_report_result \<times> oms_state" where
  "handle_new_order_ack c rep s =
     (let (r, m) = s; oid = rep_order_id rep; (res, m') = transition c oid Open m
      in case res of
           TR_Success st \<Rightarrow> (ER_Success oid st None, (bump fills_processed_update r, m'))
         | TR_InvalidTransition fr to \<Rightarrow> (ER_InvalidTransition oid fr to, (bump errors_update r, m'))
         | TR_TerminalStateReached st \<Rightarrow> (ER_Success oid st None, (r, m'))
         | TR_OrderNotFound \<Rightarrow> (ER_OrderNotFound oid, (bump errors_update r, m')))"

definition handle_cancel_ack ::
  "clock \<Rightarrow> execution_report \<Rightarrow> oms_state \<Rightarrow> execution_report_result \<times> oms_state" where
  "handle_cancel_ack c rep s =
     (let (r0, m) = s; oid = rep_order_id rep; r = remove_pending_cancel oid r0;
          (res, m') = transition c oid Canceled m
      in case res of
           TR_Success st \<Rightarrow> (ER_Success oid st None, (bump cancels_processed_update r, m'))
         | TR_TerminalStateReached st \<Rightarrow>
             (ER_Success oid st None, (bump cancels_processed_update r, m'))
         | TR_InvalidTransition fr to \<Rightarrow>
             (ER_RaceConditionResolved oid AlreadyInTerminalState,
              (bump race_conditions_resolved_update r, m'))
         | TR_OrderNotFound \<Rightarrow> (ER_RaceConditionResolved oid AlreadyPurged, (r, m')))"

definition handle_reject ::
  "clock \<Rightarrow> execution_report \<Rightarrow> oms_state \<Rightarrow> execution_report_result \<times> oms_state" where
  "handle_reject c rep s =
     (let (r, m) = s; oid = rep_order_id rep; (res, m') = transition c oid Rejected m
      in case res of
           TR_Success st \<Rightarrow> (ER_Success oid st None, (bump rejects_processed_update r, m'))
         | TR_TerminalStateReached st \<Rightarrow>
             (ER_Success oid st None, (bump rejects_processed_update r, m'))
         | TR_InvalidTransition fr to \<Rightarrow> (ER_InvalidTransition oid fr to, (bump errors_update r, m'))
         | TR_OrderNotFound \<Rightarrow> (ER_OrderNotFound oid, (bump errors_update r, m')))"

text \<open>
  \<open>handle_trade\<close> unwraps the order after a successful fill; \<open>handle_trade_no_panic\<close> below
  shows that the \<open>unwrap\<close> never fails.
\<close>

definition handle_trade ::
  "clock \<Rightarrow> execution_report \<Rightarrow> i64 \<Rightarrow> i64 \<Rightarrow> u64 \<Rightarrow> oms_state \<Rightarrow>
   panic + execution_report_result \<times> oms_state" where
  "handle_trade c rep qty px tid s =
     (let (r0, m) = s; oid = rep_order_id rep;
          r = (if has_pending_cancel oid r0
               then bump race_conditions_resolved_update (remove_pending_cancel oid r0) else r0);
          (res, m') = apply_fill c oid qty px tid m
      in case res of
           Inr _ \<Rightarrow>
             (case get_order oid m' of
                None \<Rightarrow> Inl UnwrapOnNone
              | Some o' \<Rightarrow>
                  Inr (ER_Success oid (o_state o') (Some qty), (bump fills_processed_update r, m')))
         | Inl e \<Rightarrow>
             (case get_order oid m' of
                Some o' \<Rightarrow> Inr (ER_InvalidTransition oid (o_state o') Filled, (bump errors_update r, m'))
              | None \<Rightarrow> Inr (ER_OrderNotFound oid, (bump errors_update r, m'))))"

definition handle_status_update ::
  "execution_report \<Rightarrow> oms_state \<Rightarrow> execution_report_result \<times> oms_state" where
  "handle_status_update rep s = (ER_Success (rep_order_id rep) Open None, s)"

definition dispatch_report ::
  "clock \<Rightarrow> execution_report \<Rightarrow> oms_state \<Rightarrow> panic + execution_report_result \<times> oms_state" where
  "dispatch_report c rep s =
     (case report_type rep of
        NewOrderAck \<Rightarrow> Inr (handle_new_order_ack c rep s)
      | CancelAck \<Rightarrow> Inr (handle_cancel_ack c rep s)
      | Reject \<Rightarrow> Inr (handle_reject c rep s)
      | Trade qty px tid maker \<Rightarrow> handle_trade c rep qty px tid s
      | StatusUpdate \<Rightarrow> Inr (handle_status_update rep s))"

definition process_report ::
  "clock \<Rightarrow> execution_report \<Rightarrow> oms_state \<Rightarrow> panic + execution_report_result \<times> oms_state" where
  "process_report c rep s =
     (let (r0, m) = s; r = bump total_reports_processed_update r0
      in if is_duplicate (tracker r) (sequence_num rep)
         then Inr (ER_Duplicate (rep_order_id rep) (sequence_num rep),
                   (bump duplicates_detected_update r, m))
         else
           (case dispatch_report c rep (r, m) of
              Inl p \<Rightarrow> Inl p
            | Inr (result, (r', m')) \<Rightarrow>
                Inr (result,
                     (if \<not> is_duplicate_result result
                      then r'\<lparr>tracker := record_sequence (sequence_num rep) (tracker r')\<rparr> else r',
                      m'))))"

section \<open>What the tracker remembers\<close>

text \<open>The history is strictly increasing, bounded, and ends in the last sequence number.\<close>

definition tracker_inv :: "sequence_tracker \<Rightarrow> bool" where
  "tracker_inv t \<longleftrightarrow>
     sorted_wrt (<) (seen_sequences t) \<and> length (seen_sequences t) \<le> max_history t \<and>
     0 < max_history t \<and> max_history t < 2 ^ 64 \<and>
     (if seen_sequences t = [] then last_sequence t = 0
      else last_sequence t = last (seen_sequences t))"

lemma tracker_inv_new: "0 < n \<Longrightarrow> n < 2 ^ 64 \<Longrightarrow> tracker_inv (new_tracker n)"
  by (simp add: tracker_inv_def new_tracker_def)

lemma sorted_wrt_less_last:
  "sorted_wrt (<) (xs :: 'a::linorder list) \<Longrightarrow> x \<in> set xs \<Longrightarrow> x \<le> last xs"
  by (induction xs rule: rev_induct) (auto simp: sorted_wrt_append)

lemma tracker_inv_seen_le: "tracker_inv t \<Longrightarrow> x \<in> set (seen_sequences t) \<Longrightarrow> x \<le> last_sequence t"
  using sorted_wrt_less_last [of "seen_sequences t" x] by (auto simp: tracker_inv_def split: if_splits)

lemma record_sequence_inv:
  assumes "tracker_inv t"
  shows "tracker_inv (record_sequence sq t)"
proof (cases "last_sequence t < sq")
  case True
  then have "\<forall>x \<in> set (seen_sequences t). x < sq"
    using tracker_inv_seen_le [OF assms] by (auto intro: le_less_trans)
  moreover have "sorted_wrt (<) (drop 1 (seen_sequences t))" "set (drop 1 (seen_sequences t)) \<subseteq> set (seen_sequences t)"
    using assms by (auto simp: tracker_inv_def sorted_wrt_drop set_drop_subset)
  ultimately show ?thesis
    using assms True by (auto simp: tracker_inv_def record_sequence_def Let_def sorted_wrt_append)
next
  case False
  then show ?thesis using assms by (simp add: record_sequence_def)
qed

lemma record_sequence_then_duplicate:
  assumes "tracker_inv t" "last_sequence t < sq"
  shows "is_duplicate (record_sequence sq t) sq"
proof -
  have "(0 :: u64) < word_of_nat (max_history t)"
    using assms(1) by (simp add: tracker_inv_def word_less_nat_alt unsigned_of_nat take_bit_nat_eq_self)
  then show ?thesis
    using assms by (simp add: record_sequence_def is_duplicate_def Let_def)
qed

text \<open>A number that is not above the last one is never recorded.\<close>

lemma late_sequence_not_recorded [simp]:
  "sq \<le> last_sequence t \<Longrightarrow> record_sequence sq t = t"
  by (simp add: record_sequence_def)

section \<open>Effects of the handlers\<close>

lemma bump_frame [simp, frame_simps]:
  "tracker (bump f r) = tracker r" "pending_cancels (bump f r) = pending_cancels r"
  "cancel_timeout_ms (bump f r) = cancel_timeout_ms r"
  by (simp_all add: bump_def)

lemma remove_pending_cancel_frame [simp, frame_simps]:
  "tracker (remove_pending_cancel oid r) = tracker r"
  by (simp add: remove_pending_cancel_def)

lemma has_pending_cancel_simps [simp]:
  "has_pending_cancel oid (bump f r) = has_pending_cancel oid r"
  "has_pending_cancel oid (r\<lparr>tracker := t\<rparr>) = has_pending_cancel oid r"
  "\<not> has_pending_cancel oid (remove_pending_cancel oid r)"
  by (auto simp: has_pending_cancel_def remove_pending_cancel_def list_ex_iff)

text \<open>What one report may do: keep the tracker, never claim a duplicate, take one machine step.\<close>

definition report_effect :: "oms_state \<Rightarrow> execution_report_result \<times> oms_state \<Rightarrow> bool" where
  "report_effect s out \<longleftrightarrow>
     \<not> is_duplicate_result (fst out) \<and> tracker (fst (snd out)) = tracker (fst s) \<and>
     (snd (snd out) = snd s \<or> osm_step (snd s) (snd (snd out)))"

lemma transition_step: "transition c oid new m = (res, m') \<Longrightarrow> osm_step m m'"
  using step_transition [of m c oid new] by simp

lemma apply_fill_step: "apply_fill c oid q p x m = (res, m') \<Longrightarrow> osm_step m m'"
  using step_fill [of m c oid q p x] by simp

lemma handlers_effect:
  "report_effect s (handle_new_order_ack c rep s)"
  "report_effect s (handle_cancel_ack c rep s)"
  "report_effect s (handle_reject c rep s)"
  "report_effect s (handle_status_update rep s)"
  by (auto simp: report_effect_def handle_new_order_ack_def handle_cancel_ack_def handle_reject_def
      handle_status_update_def Let_def split: prod.splits transition_result.splits
      dest: transition_step)

lemma handle_trade_effect:
  "\<exists>out. handle_trade c rep q p x s = Inr out \<and> report_effect s out"
proof -
  obtain r m where s: "s = (r, m)" by (cases s)
  let ?oid = "rep_order_id rep"
  obtain res m' where run: "apply_fill c ?oid q p x m = (res, m')"
    by (cases "apply_fill c ?oid q p x m")
  have step: "osm_step m m'" by (rule apply_fill_step [OF run])
  show ?thesis
  proof (cases res)
    case (Inl e)
    then show ?thesis
      using run step
      by (auto simp: handle_trade_def s Let_def report_effect_def split: option.splits)
  next
    case (Inr u)
    then have "(\<lambda>(c, q, p, x). apply_fill c ?oid q p x) (c, q, p, x) m = (Inr u, m')"
      using run by simp
    then obtain o' where look: "get_order ?oid m' = Some o'" by (rule osm_fill.look_after_fill)
    show ?thesis
      unfolding handle_trade_def s Let_def prod.case run Inr sum.case
      using step by (simp add: look report_effect_def)
  qed
qed

lemma dispatch_report_effect: "\<exists>out. dispatch_report c rep s = Inr out \<and> report_effect s out"
proof (cases "report_type rep")
  case (Trade q p x maker)
  then show ?thesis using handle_trade_effect [of c rep q p x s] by (simp add: dispatch_report_def)
qed (simp_all add: dispatch_report_def handlers_effect)

lemma process_report_duplicate:
  "is_duplicate (tracker r) (sequence_num rep) \<Longrightarrow>
   process_report c rep (r, m) =
     Inr (ER_Duplicate (rep_order_id rep) (sequence_num rep),
          (bump duplicates_detected_update (bump total_reports_processed_update r), m))"
  by (simp add: process_report_def Let_def)

lemma process_report_fresh:
  assumes "\<not> is_duplicate (tracker r) (sequence_num rep)"
  obtains res r' m' where
    "process_report c rep (r, m) =
       Inr (res, (r'\<lparr>tracker := record_sequence (sequence_num rep) (tracker r)\<rparr>, m'))"
    "dispatch_report c rep (bump total_reports_processed_update r, m) = Inr (res, (r', m'))"
    "\<not> is_duplicate_result res" "m' = m \<or> osm_step m m'"
proof -
  obtain res r' m' where "dispatch_report c rep (bump total_reports_processed_update r, m) = Inr (res, (r', m'))"
    and "report_effect (bump total_reports_processed_update r, m) (res, (r', m'))"
    using dispatch_report_effect by (metis prod.collapse)
  then show thesis
    using assms by (intro that [of res r' m']) (auto simp: process_report_def Let_def report_effect_def)
qed

lemma process_report_total:
  assumes "osm_reachable m" "tracker_inv (tracker r)"
  shows "\<exists>res r' m'. process_report c rep (r, m) = Inr (res, (r', m')) \<and>
                     osm_reachable m' \<and> tracker_inv (tracker r')"
proof (cases "is_duplicate (tracker r) (sequence_num rep)")
  case True
  then show ?thesis using process_report_duplicate assms by fastforce
next
  case False
  from this obtain res r' m' where
    "process_report c rep (r, m) =
       Inr (res, (r'\<lparr>tracker := record_sequence (sequence_num rep) (tracker r)\<rparr>, m'))"
    "m' = m \<or> osm_step m m'"
    by (rule process_report_fresh)
  then show ?thesis
    using assms record_sequence_inv by (fastforce intro: reach_step)
qed

section \<open>Properties\<close>

text \<open>In-order reports are applied at most once: after a report whose sequence number is
  above every earlier one, the same report received again is answered as a duplicate and
  leaves the orders, the purge queue and the counters of the machine untouched.\<close>

lemma replay_in_order_ignored:
  assumes "tracker_inv (tracker r)" "last_sequence (tracker r) < sequence_num rep"
    and "process_report c rep (r, m) = Inr (res, (r1, m1))"
  shows "\<exists>r2. process_report c' rep (r1, m1) =
                Inr (ER_Duplicate (rep_order_id rep) (sequence_num rep), (r2, m1))"
proof -
  have "\<not> is_duplicate (tracker r) (sequence_num rep)"
    using assms(2) by (simp add: is_duplicate_def not_le [symmetric])
  then obtain res' r' m' where
    "process_report c rep (r, m) =
       Inr (res', (r'\<lparr>tracker := record_sequence (sequence_num rep) (tracker r)\<rparr>, m'))"
    by (rule process_report_fresh)
  then have "tracker r1 = record_sequence (sequence_num rep) (tracker r)"
    using assms(3) by auto
  then have "is_duplicate (tracker r1) (sequence_num rep)"
    using record_sequence_then_duplicate [OF assms(1,2)] by simp
  then show ?thesis using process_report_duplicate by blast
qed

definition example_report :: "u64 \<Rightarrow> execution_report" where
  "example_report sq = (new_trade 5 1 9 [66] Buy 10 50000 3 False)\<lparr>sequence_num := sq\<rparr>"

lemma replay_in_order_ignored_example:
  "\<exists>res r1 m1 r2. process_report example_clock (example_report 1)
       (new_reconciler 1000, with_capacity) = Inr (res, (r1, m1)) \<and>
     process_report example_clock (example_report 1) (r1, m1) = Inr (ER_Duplicate 1 1, (r2, m1))"
proof -
  have inv: "tracker_inv (tracker (new_reconciler 1000))"
    and lt: "last_sequence (tracker (new_reconciler 1000)) < sequence_num (example_report 1)"
    using tracker_inv_new [of 1000]
    by (simp_all add: new_reconciler_def example_report_def new_tracker_def)
  have "\<not> is_duplicate (tracker (new_reconciler 1000)) (sequence_num (example_report 1))"
    using lt by (simp add: is_duplicate_def not_le [symmetric])
  then obtain res r' m' where run: "process_report example_clock (example_report 1)
       (new_reconciler 1000, with_capacity) = Inr (res, (r', m'))"
    by (rule process_report_fresh) blast
  from replay_in_order_ignored [OF inv lt run, of example_clock] show ?thesis
    using run by (auto simp: example_report_def new_trade_def)
qed

text \<open>A trade report that is not a duplicate and that the order can take.\<close>

lemma process_trade:
  assumes fresh: "\<not> is_duplicate (tracker r) (sequence_num rep)"
    and trade: "report_type rep = Trade q p tid maker" and oid: "rep_order_id rep = oid"
    and stored: "get_order oid m = Some o'" "\<not> is_terminal (o_state o')"
    and q: "0 < q" "q \<le> remaining_quantity o'"
  obtains r' where "process_report c rep (r, m) =
      Inr (ER_Success oid (o_state (filled_order c q p o')) (Some q),
           (r', snd (apply_fill c oid q p tid m)))"
    "tracker r' = record_sequence (sequence_num rep) (tracker r)"
    "\<not> has_pending_cancel oid r'"
proof -
  note ok = apply_fill_ok [OF stored q, of c p tid]
  obtain m' where run: "apply_fill c oid q p tid m = (Inr (), m')"
    using ok(1) by (metis prod.collapse)
  show thesis
    using fresh run ok(2) oid
    by (intro that)
      (auto simp: process_report_def dispatch_report_def handle_trade_def trade Let_def
        split: if_splits)
qed

text \<open>A trade report that arrives late - its sequence number is not above the last one, and
  was not seen - is never recorded, so the same report received twice fills the order twice.
  The duplicate check protects only reports that arrive in order.\<close>

lemma late_trade_applied_twice:
  assumes late: "sequence_num rep \<le> last_sequence (tracker r)"
    and unseen: "sequence_num rep \<notin> set (seen_sequences (tracker r))"
    and trade: "report_type rep = Trade q p tid maker" "rep_order_id rep = oid"
    and stored: "get_order oid m = Some o'" "\<not> is_terminal (o_state o')" "order_wf o'"
    and q: "0 < q" "2 * q \<le> remaining_quantity o'"
  shows "\<exists>res1 r1 m1 res2 r2 m2 o2.
           process_report c rep (r, m) = Inr (res1, (r1, m1)) \<and>
           process_report c' rep (r1, m1) = Inr (res2, (r2, m2)) \<and>
           \<not> is_duplicate_result res2 \<and>
           get_order oid m2 = Some o2 \<and> filled_quantity o2 = filled_quantity o' + 2 * q"
proof -
  let ?o1 = "filled_order c q p o'" and ?m1 = "snd (apply_fill c oid q p tid m)"
  have q1: "q \<le> remaining_quantity o'" using q by simp
  have fresh: "\<not> is_duplicate (tracker r) (sequence_num rep)"
    using unseen by (simp add: is_duplicate_def)
  obtain r1 where first: "process_report c rep (r, m) =
      Inr (ER_Success oid (o_state ?o1) (Some q), (r1, ?m1))"
    and same: "tracker r1 = tracker r"
    using process_trade [OF fresh trade stored(1,2) q(1) q1, of c] late by auto
  have fresh1: "\<not> is_duplicate (tracker r1) (sequence_num rep)"
    using fresh same by simp
  note amounts = fill_quantities_amounts [OF stored(3) q(1) q1, of p]
  have stored1: "get_order oid ?m1 = Some ?o1"
    by (rule apply_fill_ok(2) [OF stored(1,2) q(1) q1])
  have live1: "\<not> is_terminal (o_state ?o1)"
    using amounts q stored(2) by (auto simp: fill_state_def)
  have q2: "q \<le> remaining_quantity ?o1" using amounts q by simp
  have wf1: "order_wf ?o1" by (rule filled_order_wf [OF stored(3) q(1) q1])
  obtain r2 where second: "process_report c' rep (r1, ?m1) =
      Inr (ER_Success oid (o_state (filled_order c' q p ?o1)) (Some q),
           (r2, snd (apply_fill c' oid q p tid ?m1)))"
    using process_trade [OF fresh1 trade stored1 live1 q(1) q2, of c'] by blast
  have "get_order oid (snd (apply_fill c' oid q p tid ?m1)) = Some (filled_order c' q p ?o1)"
    by (rule apply_fill_ok(2) [OF stored1 live1 q(1) q2])
  moreover have "filled_quantity (filled_order c' q p ?o1) = filled_quantity o' + 2 * q"
    using fill_quantities_amounts(1) [OF wf1 q(1) q2, of p] amounts by simp
  ultimately show ?thesis using first second by auto
qed

lemma add_example_stored:
  "get_order 1 (snd (add_order example_order with_capacity)) = Some example_order"
  "\<not> is_terminal (o_state example_order)" "order_wf example_order"
  "remaining_quantity example_order = 100" "filled_quantity example_order = 0"
  by (simp_all add: get_order_def add_order_def with_capacity_def example_order_def new_order_def
      order_wf_def)

lemma late_trade_applied_twice_example:
  "\<exists>res1 r1 m1 res2 r2 m2 o2.
     process_report example_clock (example_report 0)
       (new_reconciler 1000, snd (add_order example_order with_capacity)) = Inr (res1, (r1, m1)) \<and>
     process_report example_clock (example_report 0) (r1, m1) = Inr (res2, (r2, m2)) \<and>
     \<not> is_duplicate_result res2 \<and> get_order 1 m2 = Some o2 \<and>
     filled_quantity o2 = filled_quantity example_order + 2 * 10"
  by (rule late_trade_applied_twice [where maker = False and tid = 3 and p = 50000])
    (simp_all add: add_example_stored new_reconciler_def new_tracker_def example_report_def new_trade_def)

text \<open>The fill wins the race with a cancel: when the fill that completes an order is
  processed first, the later cancel acknowledgement is resolved as a race, changes no order,
  and the order stays Filled with its whole quantity.\<close>

lemma fill_beats_cancel_ack:
  assumes fresh: "\<not> is_duplicate (tracker r) (sequence_num trd)"
      "\<not> is_duplicate (record_sequence (sequence_num trd) (tracker r)) (sequence_num ack)"
    and trade: "report_type trd = Trade q p tid maker" "rep_order_id trd = oid"
    and ack: "report_type ack = CancelAck" "rep_order_id ack = oid"
    and stored: "get_order oid m = Some o'" "\<not> is_terminal (o_state o')" "order_wf o'"
    and q: "0 < q" "q = remaining_quantity o'"
  shows "\<exists>res r1 m1 r2 o2.
           process_report c trd (r, m) = Inr (res, (r1, m1)) \<and>
           process_report c' ack (r1, m1) =
             Inr (ER_RaceConditionResolved oid AlreadyInTerminalState, (r2, m1)) \<and>
           get_order oid m1 = Some o2 \<and> o_state o2 = Filled \<and> filled_quantity o2 = o_quantity o'"
proof -
  let ?o1 = "filled_order c q p o'" and ?m1 = "snd (apply_fill c oid q p tid m)"
  have q1: "q \<le> remaining_quantity o'" using q by simp
  obtain r1 where first: "process_report c trd (r, m) =
      Inr (ER_Success oid (o_state ?o1) (Some q), (r1, ?m1))"
    and tr: "tracker r1 = record_sequence (sequence_num trd) (tracker r)"
    using process_trade [OF fresh(1) trade stored(1,2) q(1) q1, of c] by blast
  note amounts = fill_quantities_amounts [OF stored(3) q(1) q1, of p]
  have stored1: "get_order oid ?m1 = Some ?o1"
    by (rule apply_fill_ok(2) [OF stored(1,2) q(1) q1])
  have filled: "o_state ?o1 = Filled" "filled_quantity ?o1 = o_quantity o'"
    using amounts q stored(3) by (auto simp: fill_state_def order_wf_def)
  have "transition c' oid Canceled ?m1 = (TR_InvalidTransition Filled Canceled, ?m1)"
    using stored1 filled(1) by (simp add: transition_def get_order_def)
  then have "\<exists>r2. process_report c' ack (r1, ?m1) =
      Inr (ER_RaceConditionResolved oid AlreadyInTerminalState, (r2, ?m1))"
    using fresh(2) tr ack
    by (simp add: process_report_def dispatch_report_def handle_cancel_ack_def Let_def)
  then show ?thesis using first stored1 filled by blast
qed

lemma fill_beats_cancel_ack_example:
  "\<exists>res r1 m1 r2 o2.
     process_report example_clock ((example_report 1)\<lparr>report_type := Trade 100 50000 3 False\<rparr>)
       (new_reconciler 1000, snd (add_order example_order with_capacity)) = Inr (res, (r1, m1)) \<and>
     process_report example_clock ((example_report 2)\<lparr>report_type := CancelAck\<rparr>) (r1, m1) =
       Inr (ER_RaceConditionResolved 1 AlreadyInTerminalState, (r2, m1)) \<and>
     get_order 1 m1 = Some o2 \<and> o_state o2 = Filled \<and> filled_quantity o2 = o_quantity example_order"
  by (rule fill_beats_cancel_ack [where maker = False and tid = 3 and p = 50000 and q = 100])
    (simp_all add: add_example_stored new_reconciler_def new_tracker_def example_report_def new_trade_def
      is_duplicate_def record_sequence_def)

end
