(* ===== verification/Race_Resolver.thy ===== *)
theory Race_Resolver
  imports Order_State
begin

text \<open>
  The cancel/fill race resolver of
  \<open>crates/nexus_oms/src/reconciliation/race_condition_resolver.rs\<close>.  The two histories are
  deques bounded by half of \<open>max_history_size\<close>, with the oldest element at the head of the
  list.  The decision of \<open>resolve_conflict\<close> is stated as a table; the counters are shown to
  agree with each other over any run of the resolver's operations.
\<close>

section \<open>Data\<close>

type_synonym timestamp = u64

record pending_cancel =
  pc_order_id :: order_id
  request_timestamp_ns :: timestamp
  exchange_timestamp_ns :: "timestamp option"
  pc_sequence_num :: u64
  registered_at :: instant

record fill_event =
  fe_order_id :: order_id
  transact_time_ns :: timestamp
  received_at_ns :: timestamp
  fe_fill_quantity :: i64
  fe_fill_price :: i64
  fe_trade_id :: u64

definition new_pending_cancel :: "clock \<Rightarrow> order_id \<Rightarrow> u64 \<Rightarrow> pending_cancel" where
  "new_pending_cancel c oid sq =
     \<lparr>pc_order_id = oid, request_timestamp_ns = wall_ns c, exchange_timestamp_ns = None,
      pc_sequence_num = sq, registered_at = mono_now c\<rparr>"

definition with_exchange_time :: "timestamp \<Rightarrow> pending_cancel \<Rightarrow> pending_cancel" where
  "with_exchange_time t pc = pc\<lparr>exchange_timestamp_ns := Some t\<rparr>"

definition new_fill_event ::
  "clock \<Rightarrow> order_id \<Rightarrow> timestamp \<Rightarrow> i64 \<Rightarrow> i64 \<Rightarrow> u64 \<Rightarrow> fill_event" where
  "new_fill_event c oid transact qty px tid =
     \<lparr>fe_order_id = oid, transact_time_ns = transact, received_at_ns = wall_ns c,
      fe_fill_quantity = qty, fe_fill_price = px, fe_trade_id = tid\<rparr>"

datatype fill_reason = FillPrecedesRequest | FillInPropagationWindow

datatype resolution =
    NoConflict
  | FillAuthoritative fill_reason timestamp timestamp
  | CancelAuthoritative timestamp timestamp
  | Indeterminate

datatype authoritative_action = NoAction | AcceptFill | RejectFill | WaitForConfirmation

record resolver_stats =
  total_conflicts_detected :: u64
  fills_won :: u64
  cancels_won :: u64
  indeterminate_resolutions :: u64
  timeouts :: u64

record resolver =
  rr_pending_cancels :: "pending_cancel list"
  recent_fills :: "fill_event list"
  max_history_size :: nat
  cancel_timeout_ns :: nat
  resolver_stats_of :: resolver_stats

definition default_resolver_stats :: resolver_stats where
  "default_resolver_stats =
     \<lparr>total_conflicts_detected = 0, fills_won = 0, cancels_won = 0,
      indeterminate_resolutions = 0, timeouts = 0\<rparr>"

definition new_resolver :: "nat \<Rightarrow> u64 \<Rightarrow> resolver" where
  "new_resolver cap timeout_ms =
     \<lparr>rr_pending_cancels = [], recent_fills = [], max_history_size = cap,
      cancel_timeout_ns = unat timeout_ms * 1000000, resolver_stats_of = default_resolver_stats\<rparr>"

section \<open>Operations\<close>

definition maintain_history :: "resolver \<Rightarrow> resolver" where
  "maintain_history r =
     r\<lparr>rr_pending_cancels := pop_front_while_longer (max_history_size r div 2) (rr_pending_cancels r),
       recent_fills := pop_front_while_longer (max_history_size r div 2) (recent_fills r)\<rparr>"

definition cleanup_expired :: "instant \<Rightarrow> resolver \<Rightarrow> resolver" where
  "cleanup_expired now r =
     (let kept = filter (\<lambda>pc. now - registered_at pc < cancel_timeout_ns r) (rr_pending_cancels r);
          removed = length (rr_pending_cancels r) - length kept;
          st = resolver_stats_of r
      in r\<lparr>rr_pending_cancels := kept,
           resolver_stats_of := st\<lparr>timeouts := timeouts st + word_of_nat removed\<rparr>\<rparr>)"

definition register_cancel :: "instant \<Rightarrow> pending_cancel \<Rightarrow> resolver \<Rightarrow> resolver" where
  "register_cancel now pc r =
     cleanup_expired now
       (maintain_history (r\<lparr>rr_pending_cancels := rr_pending_cancels r @ [pc]\<rparr>))"

definition find_pending_cancel :: "order_id \<Rightarrow> resolver \<Rightarrow> pending_cancel option" where
  "find_pending_cancel oid r = List.find (\<lambda>pc. pc_order_id pc = oid) (rr_pending_cancels r)"

definition resolve_conflict :: "pending_cancel \<Rightarrow> fill_event \<Rightarrow> resolution" where
  "resolve_conflict pc f =
     (if transact_time_ns f < request_timestamp_ns pc
      then FillAuthoritative FillPrecedesRequest (transact_time_ns f) (request_timestamp_ns pc)
      else
        case exchange_timestamp_ns pc of
          Some t \<Rightarrow>
            if t < transact_time_ns f then CancelAuthoritative t (transact_time_ns f)
            else if transact_time_ns f \<ge> request_timestamp_ns pc
            then FillAuthoritative FillInPropagationWindow (transact_time_ns f) (request_timestamp_ns pc)
            else Indeterminate
        | None \<Rightarrow>
            if transact_time_ns f \<ge> request_timestamp_ns pc
            then FillAuthoritative FillInPropagationWindow (transact_time_ns f) (request_timestamp_ns pc)
            else Indeterminate)"

definition count_resolution :: "resolution \<Rightarrow> resolver_stats \<Rightarrow> resolver_stats" where
  "count_resolution res st =
     (if res \<noteq> NoConflict then
        let st1 = st\<lparr>total_conflicts_detected := total_conflicts_detected st + 1\<rparr>
        in case res of
             FillAuthoritative _ _ _ \<Rightarrow> st1\<lparr>fills_won := fills_won st1 + 1\<rparr>
           | CancelAuthoritative _ _ \<Rightarrow> st1\<lparr>cancels_won := cancels_won st1 + 1\<rparr>
           | Indeterminate \<Rightarrow> st1\<lparr>indeterminate_resolutions := indeterminate_resolutions st1 + 1\<rparr>
           | NoConflict \<Rightarrow> st1
      else st)"

definition register_fill :: "fill_event \<Rightarrow> resolver \<Rightarrow> resolution \<times> resolver" where
  "register_fill f r =
     (let res = (case find_pending_cancel (fe_order_id f) r of
                   Some pc \<Rightarrow> resolve_conflict pc f
                 | None \<Rightarrow> NoConflict);
          r1 = maintain_history (r\<lparr>recent_fills := recent_fills r @ [f]\<rparr>)
      in (res, r1\<lparr>resolver_stats_of := count_resolution res (resolver_stats_of r1)\<rparr>))"

fun get_authoritative_action :: "resolution \<Rightarrow> authoritative_action" where
  "get_authoritative_action NoConflict = NoAction"
| "get_authoritative_action (FillAuthoritative _ _ _) = AcceptFill"
| "get_authoritative_action (CancelAuthoritative _ _) = RejectFill"
| "get_authoritative_action Indeterminate = AcceptFill"

definition rr_remove_pending_cancel :: "order_id \<Rightarrow> resolver \<Rightarrow> resolver" where
  "rr_remove_pending_cancel oid r =
     r\<lparr>rr_pending_cancels := filter (\<lambda>pc. pc_order_id pc \<noteq> oid) (rr_pending_cancels r)\<rparr>"

definition resolver_get_stats :: "resolver \<Rightarrow> resolver_stats" where
  "resolver_get_stats r = resolver_stats_of r"

definition reset_stats :: "resolver \<Rightarrow> resolver_stats \<times> resolver" where
  "reset_stats r = (resolver_stats_of r, r\<lparr>resolver_stats_of := default_resolver_stats\<rparr>)"

section \<open>Runs\<close>

datatype resolver_event =
    EvCancel instant pending_cancel
  | EvFill fill_event
  | EvRemove order_id
  | EvReset

fun resolver_step :: "resolver_event \<Rightarrow> resolver \<Rightarrow> resolver" where
  "resolver_step (EvCancel now pc) r = register_cancel now pc r"
| "resolver_step (EvFill f) r = snd (register_fill f r)"
| "resolver_step (EvRemove oid) r = rr_remove_pending_cancel oid r"
| "resolver_step EvReset r = snd (reset_stats r)"

definition resolver_inv :: "resolver \<Rightarrow> bool" where
  "resolver_inv r \<longleftrightarrow>
     length (rr_pending_cancels r) \<le> max_history_size r div 2 \<and>
     length (recent_fills r) \<le> max_history_size r div 2 \<and>
     indeterminate_resolutions (resolver_stats_of r) = 0 \<and>
     total_conflicts_detected (resolver_stats_of r) =
       fills_won (resolver_stats_of r) + cancels_won (resolver_stats_of r)"

lemma resolver_inv_new: "resolver_inv (new_resolver cap timeout)"
  by (simp add: resolver_inv_def new_resolver_def default_resolver_stats_def)

lemma resolve_conflict_not_indeterminate [simp]: "resolve_conflict pc f \<noteq> Indeterminate"
  by (auto simp: resolve_conflict_def split: option.splits)

lemma count_resolution_inv:
  assumes "res \<noteq> Indeterminate" "indeterminate_resolutions st = 0"
    and "total_conflicts_detected st = fills_won st + cancels_won st"
  shows "indeterminate_resolutions (count_resolution res st) = 0"
    and "total_conflicts_detected (count_resolution res st) =
           fills_won (count_resolution res st) + cancels_won (count_resolution res st)"
  using assms by (auto simp: count_resolution_def Let_def split: resolution.splits)

lemma resolver_step_inv: "resolver_inv r \<Longrightarrow> resolver_inv (resolver_step e r)"
proof (cases e)
  case (EvCancel now pc)
  assume inv: "resolver_inv r"
  have "length (filter P (pop_front_while_longer n xs)) \<le> n" for P n and xs :: "pending_cancel list"
    using length_filter_le [of P "pop_front_while_longer n xs"] by simp
  then show ?thesis
    using inv by (simp add: EvCancel resolver_inv_def register_cancel_def cleanup_expired_def
        maintain_history_def Let_def)
next
  case (EvFill f)
  assume inv: "resolver_inv r"
  let ?res = "case find_pending_cancel (fe_order_id f) r of
                Some pc \<Rightarrow> resolve_conflict pc f | None \<Rightarrow> NoConflict"
  have "?res \<noteq> Indeterminate" by (simp split: option.split)
  from count_resolution_inv [OF this, of "resolver_stats_of r"] show ?thesis
    using inv by (simp add: EvFill resolver_inv_def register_fill_def maintain_history_def Let_def)
next
  case (EvRemove oid)
  assume "resolver_inv r"
  then show ?thesis
    by (simp add: EvRemove resolver_inv_def rr_remove_pending_cancel_def le_trans [OF length_filter_le])
next
  case EvReset
  assume "resolver_inv r"
  then show ?thesis by (simp add: EvReset resolver_inv_def reset_stats_def default_resolver_stats_def)
qed

interpretation resolver_run: invariant_machine resolver_step resolver_inv
  by unfold_locales (rule resolver_step_inv)

lemma resolver_step_size [simp]: "max_history_size (resolver_step e r) = max_history_size r"
  by (cases e) (simp_all add: register_cancel_def cleanup_expired_def maintain_history_def Let_def
      register_fill_def rr_remove_pending_cancel_def reset_stats_def)

section \<open>Properties\<close>

text \<open>The decision table of the race: the cancel wins exactly when its exchange timestamp is
  known and precedes the fill's, and the fill did not precede the request; in every other case
  the fill wins, the fallback is never taken, and the action is to accept the fill.\<close>

lemma resolve_conflict_table:
  "(resolve_conflict pc f = CancelAuthoritative t (transact_time_ns f) \<longleftrightarrow>
      request_timestamp_ns pc \<le> transact_time_ns f \<and>
      exchange_timestamp_ns pc = Some t \<and> t < transact_time_ns f) \<and>
   resolve_conflict pc f \<noteq> Indeterminate \<and> resolve_conflict pc f \<noteq> NoConflict \<and>
   (get_authoritative_action (resolve_conflict pc f) = RejectFill \<longleftrightarrow>
      (\<exists>t'. resolve_conflict pc f = CancelAuthoritative t' (transact_time_ns f))) \<and>
   (get_authoritative_action (resolve_conflict pc f) \<noteq> RejectFill \<longleftrightarrow>
      get_authoritative_action (resolve_conflict pc f) = AcceptFill)"
  by (auto simp: resolve_conflict_def not_less split: option.splits)

text \<open>Over any sequence of cancels, fills, removals and resets the two histories stay within
  half of the configured size, no resolution is ever indeterminate, and the conflicts counted
  are exactly those won by a fill or by a cancel.\<close>

lemma resolver_run_consistent:
  "let r = fold resolver_step es (new_resolver cap timeout) in
     length (rr_pending_cancels r) \<le> cap div 2 \<and> length (recent_fills r) \<le> cap div 2 \<and>
     indeterminate_resolutions (resolver_get_stats r) = 0 \<and>
     total_conflicts_detected (resolver_get_stats r) =
       fills_won (resolver_get_stats r) + cancels_won (resolver_get_stats r)"
proof -
  let ?r = "fold resolver_step es (new_resolver cap timeout)"
  have "resolver_inv ?r" by (rule resolver_run.run_inv) (rule resolver_inv_new)
  moreover have "max_history_size ?r = max_history_size (new_resolver cap timeout)"
    by (rule resolver_run.run_constant [OF _ resolver_inv_new]) simp
  ultimately show ?thesis
    by (simp add: resolver_inv_def resolver_get_stats_def Let_def new_resolver_def)
qed

end
