(* ===== verification/Live_Oms.thy ===== *)
theory Live_Oms
  imports Execution_Reports Race_Resolver
begin

text \<open>
  The order management facade of \<open>crates/nexus_oms/src/lib.rs\<close>: one state machine, one
  reconciler and one race resolver, and the operations that run them in order.  Logging has
  no effect on the state and is left out.  The theorems say that the facade never panics,
  keeps the machine reachable, and that the resolver's verdict is advisory.
\<close>

record live_oms =
  state_machine :: order_state_machine
  reconciler_of :: reconciler
  race_resolver :: resolver

definition live_with_capacity :: live_oms where
  "live_with_capacity =
     \<lparr>state_machine = with_capacity, reconciler_of = new_reconciler 1000,
      race_resolver = new_resolver 1000 5000\<rparr>"

definition live_add_order :: "order \<Rightarrow> live_oms \<Rightarrow> (oms_error + order_id) \<times> live_oms" where
  "live_add_order o' s =
     (let (res, m) = add_order o' (state_machine s) in (res, s\<lparr>state_machine := m\<rparr>))"

definition live_register_cancel_request :: "clock \<Rightarrow> order_id \<Rightarrow> live_oms \<Rightarrow> live_oms" where
  "live_register_cancel_request c oid s =
     s\<lparr>reconciler_of := register_cancel_request (mono_now c) oid (reconciler_of s),
       race_resolver := register_cancel (mono_now c) (new_pending_cancel c oid 0) (race_resolver s)\<rparr>"

text \<open>The race check of a trade report, whose verdict only reaches the log.\<close>

definition live_race_check :: "clock \<Rightarrow> execution_report \<Rightarrow> resolver \<Rightarrow> resolver" where
  "live_race_check c rep r =
     (case report_type rep of
        Trade qty px tid maker \<Rightarrow>
          snd (register_fill (new_fill_event c (rep_order_id rep) (timestamp_ns rep) qty px tid) r)
      | _ \<Rightarrow> r)"

definition live_process_execution_report ::
  "clock \<Rightarrow> execution_report \<Rightarrow> live_oms \<Rightarrow> panic + execution_report_result \<times> live_oms" where
  "live_process_execution_report c rep s =
     (let rr = live_race_check c rep (race_resolver s)
      in case process_report c rep (reconciler_of s, state_machine s) of
           Inl p \<Rightarrow> Inl p
         | Inr (res, (r, m)) \<Rightarrow>
             Inr (res, s\<lparr>state_machine := m, reconciler_of := r, race_resolver := rr\<rparr>))"

definition live_get_order :: "order_id \<Rightarrow> live_oms \<Rightarrow> order option" where
  "live_get_order oid s = get_order oid (state_machine s)"

definition live_active_count :: "live_oms \<Rightarrow> nat" where
  "live_active_count s = active_count (state_machine s)"

definition live_purge_terminal_orders :: "instant \<Rightarrow> live_oms \<Rightarrow> panic + nat \<times> live_oms" where
  "live_purge_terminal_orders now s =
     map_sum id (\<lambda>(n, m). (n, s\<lparr>state_machine := m\<rparr>)) (purge_terminal_orders now (state_machine s))"

record oms_combined_stats =
  cs_oms :: oms_stats
  cs_reconciliation :: reconciliation_stats
  cs_race_resolution :: resolver_stats

definition live_get_stats :: "live_oms \<Rightarrow> oms_combined_stats" where
  "live_get_stats s =
     \<lparr>cs_oms = get_stats (state_machine s), cs_reconciliation = rstats (reconciler_of s),
      cs_race_resolution = resolver_get_stats (race_resolver s)\<rparr>"

section \<open>The facade as one machine\<close>

datatype live_event =
    LiveAdd order_id "u8 list" side order_type time_in_force i64 i64 u64 u64
  | LiveCancelRequest clock order_id
  | LiveReport clock execution_report
  | LivePurge instant

text \<open>A panic would stop the facade; the invariant below shows that no event panics.\<close>

definition live_step :: "live_event \<Rightarrow> live_oms \<Rightarrow> panic + live_oms" where
  "live_step e s =
     (case e of
        LiveAdd oid name sd ty tif px qty client now \<Rightarrow>
          Inr (snd (live_add_order (new_order oid name sd ty tif px qty client now) s))
      | LiveCancelRequest c oid \<Rightarrow> Inr (live_register_cancel_request c oid s)
      | LiveReport c rep \<Rightarrow> map_sum id snd (live_process_execution_report c rep s)
      | LivePurge now \<Rightarrow> map_sum id snd (live_purge_terminal_orders now s))"

fun live_run :: "live_event list \<Rightarrow> live_oms \<Rightarrow> panic + live_oms" where
  "live_run [] s = Inr s"
| "live_run (e # es) s = (case live_step e s of Inl p \<Rightarrow> Inl p | Inr s' \<Rightarrow> live_run es s')"

text \<open>The quantities that clients submit are non-negative \<open>i64\<close> values.\<close>

fun event_ok :: "live_event \<Rightarrow> bool" where
  "event_ok (LiveAdd _ _ _ _ _ _ qty _ _) = (0 \<le> qty \<and> qty \<le> i64_max)"
| "event_ok _ = True"

definition live_inv :: "live_oms \<Rightarrow> bool" where
  "live_inv s \<longleftrightarrow> osm_reachable (state_machine s) \<and> tracker_inv (tracker (reconciler_of s)) \<and>
     resolver_inv (race_resolver s)"

lemma live_inv_init: "live_inv live_with_capacity"
  using tracker_inv_new [of 1000]
  by (simp add: live_inv_def live_with_capacity_def reach_init resolver_inv_new new_reconciler_def)

lemma register_cancel_request_tracker [simp]:
  "tracker (register_cancel_request now oid r) = tracker r"
  by (simp add: register_cancel_request_def cleanup_expired_cancels_def)

lemma live_race_check_inv: "resolver_inv r \<Longrightarrow> resolver_inv (live_race_check c rep r)"
  using resolver_step_inv [of r "EvFill f" for f]
  by (cases "report_type rep") (auto simp: live_race_check_def)

lemma live_step_inv:
  assumes inv: "live_inv s" and ok: "event_ok e"
  obtains s' where "live_step e s = Inr s'" "live_inv s'"
proof (cases e)
  case (LiveAdd oid name sd ty tif px qty client now)
  have "osm_step (state_machine s) (snd (add_order (new_order oid name sd ty tif px qty client now) (state_machine s)))"
    using ok by (intro step_add) (simp_all add: LiveAdd)
  then have "osm_reachable (snd (add_order (new_order oid name sd ty tif px qty client now) (state_machine s)))"
    using inv unfolding live_inv_def by (blast intro: reach_step)
  then show thesis
    using inv that by (simp add: live_step_def LiveAdd live_add_order_def live_inv_def case_prod_beta)
next
  case (LiveCancelRequest c oid)
  have "resolver_inv (register_cancel (mono_now c) (new_pending_cancel c oid 0) (race_resolver s))"
    using inv resolver_step_inv [of "race_resolver s" "EvCancel (mono_now c) (new_pending_cancel c oid 0)"]
    by (simp add: live_inv_def)
  then show thesis
    using inv that by (simp add: live_step_def LiveCancelRequest live_register_cancel_request_def live_inv_def)
next
  case (LiveReport c rep)
  obtain res r' m' where "process_report c rep (reconciler_of s, state_machine s) = Inr (res, (r', m'))"
    "osm_reachable m'" "tracker_inv (tracker r')"
    using process_report_total inv unfolding live_inv_def by blast
  then show thesis
    using inv live_race_check_inv that
    by (simp add: live_step_def LiveReport live_process_execution_report_def live_inv_def Let_def)
next
  case (LivePurge now)
  obtain k m' where run: "purge_terminal_orders now (state_machine s) = Inr (k, m')"
    by (rule purge_terminal_orders_spec)
  then have "osm_reachable m'"
    using inv by (auto simp: live_inv_def intro: reach_step step_purge)
  then show thesis
    using run inv that by (simp add: live_step_def LivePurge live_purge_terminal_orders_def live_inv_def)
qed

text \<open>C16. No sequence of submissions, cancel requests, execution reports and purges makes the
  order management system panic, and after it the machine is in a reachable state, so every
  order balances its quantities and every terminal order is queued for the purge.\<close>

theorem live_oms_never_panics:
  assumes "\<forall>e \<in> set es. event_ok e"
  shows "\<exists>s. live_run es live_with_capacity = Inr s \<and> osm_reachable (state_machine s) \<and>
             (\<forall>oid o'. live_get_order oid s = Some o' \<longrightarrow>
                filled_quantity o' + remaining_quantity o' = o_quantity o')"
proof -
  have "\<exists>s'. live_run es s = Inr s' \<and> live_inv s'" if "live_inv s" for s
    using assms that
  proof (induction es arbitrary: s)
    case Nil
    then show ?case by simp
  next
    case (Cons e es)
    obtain s1 where "live_step e s = Inr s1" "live_inv s1"
      using live_step_inv [OF Cons.prems(2), of e] Cons.prems(1) by auto
    then show ?case using Cons by simp
  qed
  from this [OF live_inv_init] obtain s where
    s: "live_run es live_with_capacity = Inr s" "live_inv s" by blast
  then have "osm_inv (state_machine s)"
    by (simp add: live_inv_def osm_reachable_osm_inv)
  then show ?thesis
    using s by (auto simp: live_inv_def live_get_order_def get_order_def osm_inv_def order_wf_def)
qed

lemma live_oms_never_panics_witness:
  "\<exists>s. live_run [LiveAdd 1 [66] Buy Limit Gtc 50000 100 7 0,
                 LiveReport example_clock (example_report 1), LivePurge 9] live_with_capacity = Inr s \<and>
       osm_reachable (state_machine s)"
  using live_oms_never_panics [of "[LiveAdd 1 [66] Buy Limit Gtc 50000 100 7 0,
      LiveReport example_clock (example_report 1), LivePurge 9]"] by auto

text \<open>The resolver's verdict is advisory: whatever cancels and fills the race resolver has
  recorded, a report produces the same result, the same orders and the same reconciler state,
  so a fill that the resolver would reject is applied all the same.\<close>

lemma race_verdict_is_advisory:
  "map_sum id (\<lambda>(res, s'). (res, state_machine s', reconciler_of s'))
     (live_process_execution_report c rep s) =
   map_sum id (\<lambda>(res, s'). (res, state_machine s', reconciler_of s'))
     (live_process_execution_report c rep (s\<lparr>race_resolver := rr\<rparr>))"
  by (auto simp: live_process_execution_report_def Let_def split: sum.splits)

end
