(* ===== verification/Fixed_Point.thy ===== *)
theory Fixed_Point
  imports Nexus_Prelude
begin

text \<open>
  The fixed-point decimals of \<open>crates/nexus_oms/src/fixed_point_math.rs\<close>: an \<open>i64\<close> counting units
  of 1/10^8.  Checked operations return an error value, the operators of the \<open>Add\<close>, \<open>Sub\<close>,
  \<open>Mul\<close> and \<open>Div\<close> traits fall back to a saturated value.  The theorems bound the rounding of
  every operation against the exact rational result, on the raw integers.
\<close>

section \<open>The type\<close>

record fixed_point =
  raw :: i64

definition SCALE :: i64 where
  "SCALE = 100000000"

datatype fixed_point_error = FP_Overflow | FP_Underflow | FP_DivisionByZero | FP_InvalidScale

text \<open>A value of the Rust type: its raw field is an \<open>i64\<close>.\<close>

definition fp_wf :: "fixed_point \<Rightarrow> bool" where
  "fp_wf a \<longleftrightarrow> in_i64 (raw a)"

definition from_raw :: "i64 \<Rightarrow> fixed_point" where
  "from_raw r = \<lparr>raw = r\<rparr>"

definition from_int :: "i64 \<Rightarrow> fixed_point" where
  "from_int v = \<lparr>raw = s64 (v * SCALE)\<rparr>"

definition from_fractional :: "i64 \<Rightarrow> fixed_point" where
  "from_fractional v = \<lparr>raw = v\<rparr>"

definition int_part :: "fixed_point \<Rightarrow> i64" where
  "int_part a = raw a sdiv SCALE"

definition frac_part :: "fixed_point \<Rightarrow> i64" where
  "frac_part a = raw a smod SCALE"

section \<open>Checked operations\<close>

definition fp_checked_add :: "fixed_point \<Rightarrow> fixed_point \<Rightarrow> fixed_point_error + fixed_point" where
  "fp_checked_add a b =
     (case i64_checked_add (raw a) (raw b) of
        Some s \<Rightarrow> Inr (from_raw s)
      | None \<Rightarrow> Inl FP_Overflow)"

definition fp_checked_sub :: "fixed_point \<Rightarrow> fixed_point \<Rightarrow> fixed_point_error + fixed_point" where
  "fp_checked_sub a b =
     (case i64_checked_sub (raw a) (raw b) of
        Some d \<Rightarrow> Inr (from_raw d)
      | None \<Rightarrow> Inl FP_Underflow)"

definition fp_checked_mul :: "fixed_point \<Rightarrow> fixed_point \<Rightarrow> fixed_point_error + fixed_point" where
  "fp_checked_mul a b =
     (let product = s128 (raw a * raw b);
          scaled = product sdiv SCALE
      in if scaled > i64_max \<or> scaled < i64_min then Inl FP_Overflow
         else Inr (from_raw (s64 scaled)))"

definition fp_checked_div :: "fixed_point \<Rightarrow> fixed_point \<Rightarrow> fixed_point_error + fixed_point" where
  "fp_checked_div a b =
     (if raw b = 0 then Inl FP_DivisionByZero
      else
        let dividend = s128 (raw a * SCALE);
            quotient = dividend sdiv raw b
        in if quotient > i64_max \<or> quotient < i64_min then Inl FP_Overflow
           else Inr (from_raw (s64 quotient)))"

section \<open>Comparison, sign and selection\<close>

datatype ordering = Less | Equal | Greater

definition fp_cmp :: "fixed_point \<Rightarrow> fixed_point \<Rightarrow> ordering" where
  "fp_cmp a b = (if raw a < raw b then Less else if raw a = raw b then Equal else Greater)"

definition is_zero :: "fixed_point \<Rightarrow> bool" where "is_zero a \<longleftrightarrow> raw a = 0"
definition is_positive :: "fixed_point \<Rightarrow> bool" where "is_positive a \<longleftrightarrow> raw a > 0"
definition is_negative :: "fixed_point \<Rightarrow> bool" where "is_negative a \<longleftrightarrow> raw a < 0"

definition fp_abs :: "fixed_point \<Rightarrow> fixed_point" where
  "fp_abs a = \<lparr>raw = i64_abs (raw a)\<rparr>"

definition fp_neg :: "fixed_point \<Rightarrow> fixed_point" where
  "fp_neg a = \<lparr>raw = s64 (- raw a)\<rparr>"

definition fp_min :: "fixed_point \<Rightarrow> fixed_point \<Rightarrow> fixed_point" where
  "fp_min a b = (if raw a < raw b then a else b)"

definition fp_max :: "fixed_point \<Rightarrow> fixed_point \<Rightarrow> fixed_point" where
  "fp_max a b = (if raw a > raw b then a else b)"

definition fp_eq :: "fixed_point \<Rightarrow> fixed_point \<Rightarrow> bool" where
  "fp_eq a b \<longleftrightarrow> raw a = raw b"

section \<open>The operators\<close>

definition unwrap_or_else :: "'e + 'a \<Rightarrow> ('e \<Rightarrow> 'a) \<Rightarrow> 'a" where
  "unwrap_or_else r f = (case r of Inl e \<Rightarrow> f e | Inr a \<Rightarrow> a)"

definition fp_add :: "fixed_point \<Rightarrow> fixed_point \<Rightarrow> fixed_point" where
  "fp_add a b =
     unwrap_or_else (fp_checked_add a b) (\<lambda>_. from_raw (i64_saturating_add (raw a) (raw b)))"

definition fp_sub :: "fixed_point \<Rightarrow> fixed_point \<Rightarrow> fixed_point" where
  "fp_sub a b =
     unwrap_or_else (fp_checked_sub a b) (\<lambda>_. from_raw (i64_saturating_sub (raw a) (raw b)))"

definition fp_mul :: "fixed_point \<Rightarrow> fixed_point \<Rightarrow> fixed_point" where
  "fp_mul a b = unwrap_or_else (fp_checked_mul a b) (\<lambda>_. from_raw i64_max)"

definition fp_div :: "fixed_point \<Rightarrow> fixed_point \<Rightarrow> fixed_point" where
  "fp_div a b = unwrap_or_else (fp_checked_div a b) (\<lambda>_. from_raw i64_max)"

section \<open>Rounding\<close>

lemma abs_sdiv: "b \<noteq> 0 \<Longrightarrow> \<bar>(a :: int) sdiv b\<bar> = \<bar>a\<bar> div \<bar>b\<bar>"
  by (cases "a = 0") (simp_all add: signed_divide_int_def abs_mult abs_sgn_eq
      pos_imp_zdiv_nonneg_iff)

text \<open>Truncation towards zero loses less than one unit of the divisor.\<close>

lemma sdiv_trunc:
  assumes "(b :: int) \<noteq> 0"
  shows "\<bar>a sdiv b\<bar> * \<bar>b\<bar> \<le> \<bar>a\<bar>" and "\<bar>a\<bar> < (\<bar>a sdiv b\<bar> + 1) * \<bar>b\<bar>"
proof -
  have mod: "\<bar>a\<bar> div \<bar>b\<bar> * \<bar>b\<bar> + \<bar>a\<bar> mod \<bar>b\<bar> = \<bar>a\<bar>" by simp
  have "0 \<le> \<bar>a\<bar> mod \<bar>b\<bar>" "\<bar>a\<bar> mod \<bar>b\<bar> < \<bar>b\<bar>" using assms by simp_all
  with mod show "\<bar>a sdiv b\<bar> * \<bar>b\<bar> \<le> \<bar>a\<bar>" "\<bar>a\<bar> < (\<bar>a sdiv b\<bar> + 1) * \<bar>b\<bar>"
    unfolding abs_sdiv [OF assms] distrib_right by linarith+
qed

lemma abs_in_i64: "in_i64 x \<Longrightarrow> \<bar>x\<bar> \<le> 2 ^ 63"
  by (auto simp: in_i64_def)

lemma s128_product:
  assumes "in_i64 a" "in_i64 b"
  shows "s128 (a * b) = a * b"
proof -
  have "\<bar>a * b\<bar> \<le> 2 ^ 63 * 2 ^ 63"
    unfolding abs_mult using assms by (intro mult_mono abs_in_i64) simp_all
  then have "\<bar>a * b\<bar> \<le> 2 ^ 126" by simp
  then show ?thesis by (intro s128_id) simp_all
qed

lemma in_i64_SCALE [simp]: "in_i64 SCALE"
  by (simp add: in_i64_def SCALE_def)

lemma SCALE_pos [simp]: "0 < SCALE" "SCALE \<noteq> 0" "\<bar>SCALE\<bar> = SCALE"
  by (simp_all add: SCALE_def)

section \<open>The operations on the raw integers\<close>

lemma fp_checked_mul_eq:
  assumes "fp_wf a" "fp_wf b"
  shows "fp_checked_mul a b =
           (if in_i64 (raw a * raw b sdiv SCALE) then Inr (from_raw (raw a * raw b sdiv SCALE))
            else Inl FP_Overflow)"
  using assms unfolding fp_checked_mul_def fp_wf_def Let_def
  by (auto simp: s128_product s64_id in_i64_def [of "raw a * raw b sdiv SCALE"])

lemma fp_checked_div_eq:
  assumes "fp_wf a"
  shows "fp_checked_div a b =
           (if raw b = 0 then Inl FP_DivisionByZero
            else if in_i64 (raw a * SCALE sdiv raw b) then Inr (from_raw (raw a * SCALE sdiv raw b))
            else Inl FP_Overflow)"
  using assms unfolding fp_checked_div_def fp_wf_def Let_def
  by (auto simp: s128_product s64_id in_i64_def [of "raw a * SCALE sdiv raw b"])

lemma fp_add_clamps: "raw (fp_add a b) = i64_clamp (raw a + raw b)"
  by (auto simp: fp_add_def fp_checked_add_def i64_checked_add_def unwrap_or_else_def from_raw_def
      i64_saturating_add_def i64_clamp_id)

lemma fp_sub_clamps: "raw (fp_sub a b) = i64_clamp (raw a - raw b)"
  by (auto simp: fp_sub_def fp_checked_sub_def i64_checked_sub_def unwrap_or_else_def from_raw_def
      i64_saturating_sub_def i64_clamp_id)

section \<open>Properties\<close>

text \<open>A checked multiplication succeeds exactly when the truncated product fits an \<open>i64\<close>, the
  128-bit intermediate never wraps, and the result is the exact product truncated towards zero
  to a multiple of 1/10^8.\<close>

lemma fp_checked_mul_exact:
  assumes "fp_wf a" "fp_wf b"
  shows "((\<exists>r. fp_checked_mul a b = Inr r) \<longleftrightarrow> in_i64 (raw a * raw b sdiv SCALE)) \<and>
         (\<forall>r. fp_checked_mul a b = Inr r \<longrightarrow>
           fp_wf r \<and> \<bar>raw r\<bar> * SCALE \<le> \<bar>raw a * raw b\<bar> \<and>
           \<bar>raw a * raw b\<bar> < (\<bar>raw r\<bar> + 1) * SCALE \<and>
           (raw r = 0 \<or> sgn (raw r) = sgn (raw a) * sgn (raw b)))"
  using sdiv_trunc [of SCALE "raw a * raw b"] sgn_sdiv_eq_sgn_mult [of "raw a * raw b" SCALE]
  by (auto simp: fp_checked_mul_eq [OF assms] from_raw_def fp_wf_def sgn_mult)

definition example_fp :: "int \<Rightarrow> fixed_point" where
  "example_fp n = \<lparr>raw = n\<rparr>"

lemma fp_checked_mul_exact_example:
  "fp_checked_mul (example_fp 150000001) (example_fp (- 250000000)) = Inr (example_fp (- 375000002)) \<and>
   \<bar>- 375000002\<bar> * SCALE \<le> \<bar>150000001 * (- 250000000)\<bar>"
proof -
  have wf: "fp_wf (example_fp 150000001)" "fp_wf (example_fp (- 250000000))"
    by (simp_all add: fp_wf_def example_fp_def in_i64_def)
  have run: "fp_checked_mul (example_fp 150000001) (example_fp (- 250000000)) =
      Inr (example_fp (- 375000002))"
    unfolding fp_checked_mul_eq [OF wf] by (simp add: example_fp_def in_i64_def SCALE_def from_raw_def)
  then show ?thesis
    using fp_checked_mul_exact [OF wf] by (simp add: example_fp_def)
qed

text \<open>Dividing a product by one of its factors gives the other factor back up to rounding:
  the result never exceeds it in magnitude and falls short by at most \<open>SCALE / |b| + 1\<close> units,
  whenever both checked operations succeed.\<close>

lemma fp_mul_div_round_trip:
  assumes "fp_wf a" "fp_wf b"
    and mul: "fp_checked_mul a b = Inr c" and dvd: "fp_checked_div c b = Inr d"
  shows "\<bar>raw d\<bar> \<le> \<bar>raw a\<bar> \<and> \<bar>raw a\<bar> - \<bar>raw d\<bar> \<le> SCALE div \<bar>raw b\<bar> + 1"
proof -
  let ?a = "\<bar>raw a\<bar>" and ?b = "\<bar>raw b\<bar>" and ?c = "\<bar>raw c\<bar>" and ?d = "\<bar>raw d\<bar>"
  have c: "raw c = raw a * raw b sdiv SCALE" "fp_wf c"
    using mul by (auto simp: fp_checked_mul_eq [OF assms(1,2)] from_raw_def fp_wf_def split: if_splits)
  have d: "raw d = raw c * SCALE sdiv raw b" "raw b \<noteq> 0"
    using dvd by (auto simp: fp_checked_div_eq [OF c(2)] from_raw_def split: if_splits)
  have pos: "0 < ?b" using d(2) by simp
  have up: "?c * SCALE \<le> ?a * ?b" "?a * ?b < (?c + 1) * SCALE"
    using sdiv_trunc [of SCALE "raw a * raw b"] by (simp_all add: c(1) abs_mult)
  have lo: "?d * ?b \<le> ?c * SCALE" "?c * SCALE < (?d + 1) * ?b"
    using sdiv_trunc [OF d(2), of "raw c * SCALE"] by (simp_all add: d(1) abs_mult)
  have "?d * ?b \<le> ?a * ?b" using up lo by linarith
  then have le: "?d \<le> ?a" using pos by simp
  have "(?a - ?d - 1) * ?b \<le> SCALE"
    using up lo by (simp add: algebra_simps)
  then have "(?a - ?d - 1) * ?b div ?b \<le> SCALE div ?b"
    using pos by (intro zdiv_mono1)
  then show ?thesis using le pos by simp
qed

lemma fp_mul_div_round_trip_example:
  "\<bar>raw (example_fp 123456788)\<bar> \<le> \<bar>raw (example_fp 123456789)\<bar> \<and>
   \<bar>raw (example_fp 123456789)\<bar> - \<bar>raw (example_fp 123456788)\<bar> \<le> SCALE div \<bar>raw (example_fp 70000000)\<bar> + 1"
proof (rule fp_mul_div_round_trip)
  show wf: "fp_wf (example_fp 123456789)" "fp_wf (example_fp 70000000)"
    by (simp_all add: fp_wf_def example_fp_def in_i64_def)
  show "fp_checked_mul (example_fp 123456789) (example_fp 70000000) = Inr (example_fp 86419752)"
    unfolding fp_checked_mul_eq [OF wf] by (simp add: example_fp_def in_i64_def SCALE_def from_raw_def)
  have wf': "fp_wf (example_fp 86419752)" by (simp add: fp_wf_def example_fp_def in_i64_def)
  show "fp_checked_div (example_fp 86419752) (example_fp 70000000) = Inr (example_fp 123456788)"
    unfolding fp_checked_div_eq [OF wf'] by (simp add: example_fp_def in_i64_def SCALE_def from_raw_def)
qed

text \<open>The multiplication operator saturates to the greatest value whenever the product does
  not fit, whatever its sign: a product that overflows below becomes the largest positive
  number, whereas addition and subtraction clamp to the bound on the side that overflowed.\<close>

lemma fp_mul_overflow_loses_sign:
  assumes "fp_wf a" "fp_wf b" "raw a * raw b sdiv SCALE < i64_min"
  shows "raw (fp_mul a b) = i64_max \<and> raw (fp_add a b) = i64_clamp (raw a + raw b) \<and>
         raw (fp_sub a b) = i64_clamp (raw a - raw b)"
proof -
  have "fp_checked_mul a b = Inl FP_Overflow"
    using assms(3) by (simp add: fp_checked_mul_eq [OF assms(1,2)] in_i64_def)
  then show ?thesis
    by (simp add: fp_mul_def unwrap_or_else_def from_raw_def fp_add_clamps fp_sub_clamps)
qed

lemma fp_mul_overflow_loses_sign_example:
  "raw (fp_mul (from_int (- 1000000)) (from_int 1000000)) = i64_max"
  using fp_mul_overflow_loses_sign [of "from_int (- 1000000)" "from_int 1000000"]
  by (simp add: from_int_def SCALE_def fp_wf_def in_i64_def s64_def)

text \<open>The integer and fractional parts recompose the number, and integers are read back.\<close>

lemma parts_recompose: "int_part a * SCALE + frac_part a = raw a"
  by (simp add: int_part_def frac_part_def sdiv_mult_smod_eq)

lemma int_part_from_int:
  assumes "in_i64 (v * SCALE)"
  shows "int_part (from_int v) = v" and "frac_part (from_int v) = 0"
proof -
  have "raw (from_int v) = v * SCALE" using assms by (simp add: from_int_def s64_id)
  moreover have "v * SCALE sdiv SCALE = v"
    by (simp add: signed_divide_int_def sgn_mult abs_mult SCALE_def sgn_mult_abs)
  ultimately show "int_part (from_int v) = v" and "frac_part (from_int v) = 0"
    using parts_recompose [of "from_int v"] by (simp_all add: int_part_def)
qed

end
