(* ===== verification/Order_Queues.thy ===== *)
theory Order_Queues
  imports Fixed_Point Interfaces
begin

text \<open>
  The queue-based order intake of \<open>crates/nexus_oms/src/order_state_machine.rs\<close>: orders stamped
  with a generation, two queues, three atomic counters, and the tagged pointers.  The queues
  are \<open>crossbeam_queue::SegQueue\<close>, which is not part of the repository: their operations are an
  argument of the model, and the theorems that need them assume the contract \<open>fifo_queue\<close>.
\<close>

section \<open>Orders and reports\<close>

datatype lf_side = LfBuy | LfSell
datatype lf_order_type = LfLimit | LfMarket | LfIOC | LfFOK
datatype lf_status = LfPending | LfNew | LfPartiallyFilled | LfFilled | LfCancelled | LfRejected

record lf_order =
  lf_id :: u64
  lf_side_of :: lf_side
  lf_type_of :: lf_order_type
  lf_status_of :: lf_status
  lf_price :: fixed_point
  lf_quantity :: fixed_point
  lf_filled_quantity :: fixed_point
  lf_remaining_quantity :: fixed_point
  venue_id :: u32
  lf_timestamp_ns :: u64
  generation :: u64

definition lf_new_order ::
  "u64 \<Rightarrow> lf_side \<Rightarrow> lf_order_type \<Rightarrow> fixed_point \<Rightarrow> fixed_point \<Rightarrow> u32 \<Rightarrow> u64 \<Rightarrow> lf_order" where
  "lf_new_order oid sd ty px qty venue ts =
     \<lparr>lf_id = oid, lf_side_of = sd, lf_type_of = ty, lf_status_of = LfPending, lf_price = px,
      lf_quantity = qty, lf_filled_quantity = from_raw 0, lf_remaining_quantity = qty,
      venue_id = venue, lf_timestamp_ns = ts, generation = 0\<rparr>"

definition with_generation :: "u64 \<Rightarrow> lf_order \<Rightarrow> lf_order" where
  "with_generation gen o' = o'\<lparr>generation := gen\<rparr>"

definition lf_is_filled :: "lf_order \<Rightarrow> bool" where
  "lf_is_filled o' \<longleftrightarrow> is_zero (lf_remaining_quantity o') \<or> lf_status_of o' = LfFilled"

definition is_cancellable :: "lf_order \<Rightarrow> bool" where
  "is_cancellable o' \<longleftrightarrow> lf_status_of o' \<in> {LfPending, LfNew, LfPartiallyFilled}"

definition fill_percentage :: "lf_order \<Rightarrow> fixed_point" where
  "fill_percentage o' =
     (if is_zero (lf_quantity o') then from_raw 0
      else fp_div (lf_filled_quantity o') (lf_quantity o'))"

record lf_report =
  lfr_order_id :: u64
  prev_status :: lf_status
  new_status :: lf_status
  lfr_fill_price :: fixed_point
  lfr_fill_quantity :: fixed_point
  leaves_quantity :: fixed_point
  lfr_timestamp_ns :: u64
  lfr_generation :: u64

section \<open>Tagged pointers\<close>

record tagged_pointer =
  tp_ptr :: u64
  tp_tag :: u64

definition pack :: "tagged_pointer \<Rightarrow> u64" where
  "pack tp = push_bit 48 (tp_tag tp) OR (tp_ptr tp AND 0x0000FFFFFFFFFFFF)"

definition unpack :: "u64 \<Rightarrow> tagged_pointer" where
  "unpack packed = \<lparr>tp_ptr = packed AND 0x0000FFFFFFFFFFFF, tp_tag = drop_bit 48 packed\<rparr>"

section \<open>The machine\<close>

record ('a, 'q) queue_ops =
  q_push :: "'a \<Rightarrow> 'q \<Rightarrow> bool \<times> 'q"
  q_pop :: "'q \<Rightarrow> 'a option \<times> 'q"
  q_len :: "'q \<Rightarrow> nat"

record ('q, 'r) lf_machine =
  pending_queue :: 'q
  report_queue :: 'r
  order_counter :: u64
  generation_counter :: u64
  lf_active_count :: u64

definition new_lf_machine :: "'q \<Rightarrow> 'r \<Rightarrow> ('q, 'r) lf_machine" where
  "new_lf_machine q r =
     \<lparr>pending_queue = q, report_queue = r, order_counter = 1, generation_counter = 0,
      lf_active_count = 0\<rparr>"

definition next_order_id :: "('q, 'r) lf_machine \<Rightarrow> u64 \<times> ('q, 'r) lf_machine" where
  "next_order_id m = (order_counter m, m\<lparr>order_counter := order_counter m + 1\<rparr>)"

definition current_generation :: "('q, 'r) lf_machine \<Rightarrow> u64" where
  "current_generation m = generation_counter m"

datatype lf_error = FailedToEnqueueOrder | FutureGeneration | FailedToEnqueueReport

definition submit_order ::
  "(lf_order, 'q) queue_ops \<Rightarrow> lf_order \<Rightarrow> ('q, 'r) lf_machine \<Rightarrow>
   (lf_error + u64 \<times> u64) \<times> ('q, 'r) lf_machine" where
  "submit_order ops o' m =
     (let gen = generation_counter m;
          m1 = m\<lparr>generation_counter := gen + 1\<rparr>;
          (ok, q) = q_push ops (with_generation gen o') (pending_queue m1);
          m2 = m1\<lparr>pending_queue := q\<rparr>
      in if ok then (Inr (lf_id o', gen), m2\<lparr>lf_active_count := lf_active_count m2 + 1\<rparr>)
         else (Inl FailedToEnqueueOrder, m2))"

definition process_execution_report ::
  "(lf_report, 'r) queue_ops \<Rightarrow> lf_report \<Rightarrow> ('q, 'r) lf_machine \<Rightarrow>
   (lf_error + unit) \<times> ('q, 'r) lf_machine" where
  "process_execution_report ops rep m =
     (if lfr_generation rep > generation_counter m then (Inl FutureGeneration, m)
      else
        let (ok, r) = q_push ops rep (report_queue m); m1 = m\<lparr>report_queue := r\<rparr>
        in (if ok then Inr () else Inl FailedToEnqueueReport, m1))"

definition pop_pending_order ::
  "(lf_order, 'q) queue_ops \<Rightarrow> ('q, 'r) lf_machine \<Rightarrow> lf_order option \<times> ('q, 'r) lf_machine" where
  "pop_pending_order ops m =
     (let (x, q) = q_pop ops (pending_queue m) in (x, m\<lparr>pending_queue := q\<rparr>))"

definition pop_execution_report ::
  "(lf_report, 'r) queue_ops \<Rightarrow> ('q, 'r) lf_machine \<Rightarrow> lf_report option \<times> ('q, 'r) lf_machine" where
  "pop_execution_report ops m =
     (let (x, r) = q_pop ops (report_queue m) in (x, m\<lparr>report_queue := r\<rparr>))"

definition pending_count :: "(lf_order, 'q) queue_ops \<Rightarrow> ('q, 'r) lf_machine \<Rightarrow> nat" where
  "pending_count ops m = q_len ops (pending_queue m)"

definition report_count :: "(lf_report, 'r) queue_ops \<Rightarrow> ('q, 'r) lf_machine \<Rightarrow> nat" where
  "report_count ops m = q_len ops (report_queue m)"

definition active_order_count :: "('q, 'r) lf_machine \<Rightarrow> u64" where
  "active_order_count m = lf_active_count m"

definition complete_order :: "('q, 'r) lf_machine \<Rightarrow> ('q, 'r) lf_machine" where
  "complete_order m = m\<lparr>lf_active_count := lf_active_count m - 1\<rparr>"

section \<open>Sequences of operations\<close>

fun submit_all ::
  "(lf_order, 'q) queue_ops \<Rightarrow> lf_order list \<Rightarrow> ('q, 'r) lf_machine \<Rightarrow>
   (lf_error + u64 \<times> u64) list \<times> ('q, 'r) lf_machine" where
  "submit_all ops [] m = ([], m)"
| "submit_all ops (o' # os) m =
     (let (r, m1) = submit_order ops o' m; (rs, m2) = submit_all ops os m1 in (r # rs, m2))"

text \<open>The orders as they are queued: stamped with consecutive generations.\<close>

fun stamped :: "u64 \<Rightarrow> lf_order list \<Rightarrow> lf_order list" where
  "stamped g [] = []"
| "stamped g (o' # os) = with_generation g o' # stamped (g + 1) os"

fun take_ids :: "nat \<Rightarrow> ('q, 'r) lf_machine \<Rightarrow> u64 list \<times> ('q, 'r) lf_machine" where
  "take_ids 0 m = ([], m)"
| "take_ids (Suc n) m =
     (let (i, m1) = next_order_id m; (is, m2) = take_ids n m1 in (i # is, m2))"

lemma length_stamped [simp]: "length (stamped g os) = length os"
  by (induction os arbitrary: g) simp_all

lemma nth_stamped: "i < length os \<Longrightarrow> stamped g os ! i = with_generation (g + of_nat i) (os ! i)"
  by (induction os arbitrary: g i) (auto simp: less_Suc_eq_0_disj algebra_simps)

lemma take_ids_eq:
  "fst (take_ids n m) = map (\<lambda>i. order_counter m + of_nat i) [0..<n]"
proof (induction n arbitrary: m)
  case 0
  then show ?case by simp
next
  case (Suc n)
  have "map (\<lambda>i. order_counter m + of_nat i) [0..<Suc n] =
      order_counter m # map (\<lambda>i. order_counter m + 1 + of_nat i) [0..<n]"
    by (simp only: upt_conv_Cons map_Suc_upt [symmetric] zero_less_Suc list.map map_map o_def)
       (simp add: ac_simps)
  then show ?case by (simp add: next_order_id_def case_prod_beta Let_def Suc.IH)
qed

text \<open>Popping the machine's queue is popping the queue it holds.\<close>

lemma drain_pending:
  "drain (pop_pending_order ops) n m =
     map_option (\<lambda>(xs, q). (xs, m\<lparr>pending_queue := q\<rparr>)) (drain (q_pop ops) n (pending_queue m))"
proof (induction n arbitrary: m)
  case 0
  then show ?case by simp
next
  case (Suc n)
  obtain x q where q: "q_pop ops (pending_queue m) = (x, q)" by fastforce
  then have "pop_pending_order ops m = (x, m\<lparr>pending_queue := q\<rparr>)"
    by (simp add: pop_pending_order_def)
  with q show ?case
    by (cases x) (auto simp: Suc.IH option.map_comp o_def case_prod_beta intro!: map_option_cong)
qed

text \<open>What the code relies on in \<open>SegQueue\<close>: the contract, with pushes that never fail.\<close>

definition seg_queue :: "('a, 'q) queue_ops \<Rightarrow> ('q \<Rightarrow> 'a list) \<Rightarrow> ('q \<Rightarrow> bool) \<Rightarrow> bool" where
  "seg_queue ops contents valid \<longleftrightarrow>
     fifo_queue (q_push ops) (q_pop ops) contents valid (\<lambda>_. True) \<and>
     (\<forall>x q. valid q \<longrightarrow> fst (q_push ops x q))"

lemma submit_order_queued:
  assumes "seg_queue ops contents valid" "valid (pending_queue m)"
  shows "fst (submit_order ops o' m) = Inr (lf_id o', generation_counter m)"
    and "contents (pending_queue (snd (submit_order ops o' m))) =
           contents (pending_queue m) @ [with_generation (generation_counter m) o']"
    and "valid (pending_queue (snd (submit_order ops o' m)))"
    and "generation_counter (snd (submit_order ops o' m)) = generation_counter m + 1"
    and "lf_active_count (snd (submit_order ops o' m)) = lf_active_count m + 1"
  using assms fifo_queue.push_contents [of "q_push ops" "q_pop ops" contents valid "\<lambda>_. True"]
    fifo_queue.push_inv [of "q_push ops" "q_pop ops" contents valid "\<lambda>_. True"]
  by (auto simp: submit_order_def seg_queue_def Let_def case_prod_beta)

lemma submit_all_queued:
  assumes "seg_queue ops contents valid" "valid (pending_queue m)"
  shows "contents (pending_queue (snd (submit_all ops os m))) =
           contents (pending_queue m) @ stamped (generation_counter m) os \<and>
         valid (pending_queue (snd (submit_all ops os m))) \<and>
         lf_active_count (snd (submit_all ops os m)) = lf_active_count m + of_nat (length os)"
  using assms(2)
proof (induction os arbitrary: m)
  case Nil
  then show ?case by simp
next
  case (Cons o' os)
  then show ?case
    using submit_order_queued [OF assms(1) Cons.prems, of o']
    by (simp add: case_prod_beta Let_def)
qed

section \<open>Properties\<close>

text \<open>Orders submitted to an empty intake come out in the order of submission, each once and
  stamped with consecutive generations, after which the queue is empty; the active count grows
  by the number submitted.  The queue is any that meets the contract of \<open>SegQueue\<close>.\<close>

lemma submitted_orders_fifo:
  assumes "seg_queue ops contents valid" "valid (pending_queue m)" "contents (pending_queue m) = []"
  shows "\<exists>m'. drain (pop_pending_order ops) (Suc (length os)) (snd (submit_all ops os m)) =
                Some (stamped (generation_counter m) os, m') \<and>
              contents (pending_queue m') = [] \<and>
              active_order_count m' = active_order_count m + of_nat (length os)"
proof -
  let ?m = "snd (submit_all ops os m)"
  have q: "contents (pending_queue ?m) = stamped (generation_counter m) os"
    "valid (pending_queue ?m)" "lf_active_count ?m = lf_active_count m + of_nat (length os)"
    using submit_all_queued [OF assms(1,2), of os] assms(3) by simp_all
  have "fifo_queue (q_push ops) (q_pop ops) contents valid (\<lambda>_. True)"
    using assms(1) by (simp add: seg_queue_def)
  from fifo_queue.drain_contents [OF this q(2), of "Suc (length os)"] q(1,3) show ?thesis
    by (auto simp: drain_pending active_order_count_def simp del: drain.simps)
qed

text \<open>A queue that meets the contract: a list.\<close>

definition list_queue :: "('a, 'a list) queue_ops" where
  "list_queue =
     \<lparr>q_push = \<lambda>x q. (True, q @ [x]),
      q_pop = \<lambda>q. (case q of [] \<Rightarrow> (None, []) | x # xs \<Rightarrow> (Some x, xs)), q_len = length\<rparr>"

lemma list_queue_is_seg_queue: "seg_queue list_queue (\<lambda>q. q) (\<lambda>_. True)"
  unfolding seg_queue_def by (auto simp: list_queue_def fifo_queue_def split: list.split)

definition example_lf_order :: "u64 \<Rightarrow> lf_order" where
  "example_lf_order i = lf_new_order i LfBuy LfLimit (from_int 100) (from_int 10) 1 0"

lemma submitted_orders_fifo_example:
  "\<exists>m'. drain (pop_pending_order list_queue) 3
      (snd (submit_all list_queue [example_lf_order 1, example_lf_order 2]
        (new_lf_machine [] ([] :: lf_report list)))) =
    Some ([with_generation 0 (example_lf_order 1), with_generation 1 (example_lf_order 2)], m')"
  using submitted_orders_fifo [OF list_queue_is_seg_queue, of "new_lf_machine [] ([] :: lf_report list)"
      "[example_lf_order 1, example_lf_order 2]"]
  by (auto simp: new_lf_machine_def numeral_3_eq_3)

text \<open>The generation check lets the future in: a report is refused only when its generation is
  strictly above the counter, so it is accepted for the counter's own value, a generation that
  no order carries yet and that the next submission will be given.\<close>

lemma generation_check_off_by_one:
  assumes "lfr_generation rep = current_generation m"
  shows "fst (process_execution_report rops rep m) \<noteq> Inl FutureGeneration \<and>
         (\<forall>i gen. fst (submit_order ops o' (snd (process_execution_report rops rep m))) = Inr (i, gen)
            \<longrightarrow> gen = lfr_generation rep)"
  using assms
  by (auto simp: process_execution_report_def submit_order_def current_generation_def Let_def
      case_prod_beta split: if_splits)

definition example_lf_report :: lf_report where
  "example_lf_report =
     \<lparr>lfr_order_id = 1, prev_status = LfNew, new_status = LfFilled, lfr_fill_price = from_int 100,
      lfr_fill_quantity = from_int 10, leaves_quantity = from_raw 0, lfr_timestamp_ns = 0,
      lfr_generation = 0\<rparr>"

lemma generation_check_off_by_one_example:
  "fst (process_execution_report list_queue example_lf_report
     (new_lf_machine ([] :: lf_order list) [])) \<noteq> Inl FutureGeneration"
  using generation_check_off_by_one [of example_lf_report "new_lf_machine ([] :: lf_order list) []"
      list_queue list_queue "example_lf_order 1"]
  by (simp add: example_lf_report_def current_generation_def new_lf_machine_def)

text \<open>Order ids are unique: any number of ids up to 2^64 taken from a machine are distinct.\<close>

lemma order_ids_unique:
  assumes "n \<le> 2 ^ 64"
  shows "distinct (fst (take_ids n m))"
proof -
  have "inj_on (\<lambda>i. order_counter m + of_nat i) {0..<n}"
    using assms by (intro inj_onI) (simp add: word_of_nat_eq_iff take_bit_nat_eq_self)
  then show ?thesis by (simp add: take_ids_eq distinct_map)
qed

lemma order_ids_unique_example:
  "distinct (fst (take_ids 1000 (new_lf_machine ([] :: lf_order list) ([] :: lf_report list))))"
  by (rule order_ids_unique) simp

lemma take_bit_fits: "unat w < 2 ^ n \<Longrightarrow> take_bit n (w :: u64) = w"
  by (simp only: word_unat_eq_iff unsigned_take_bit_eq take_bit_nat_eq_self)

lemma mask48: "(0x0000FFFFFFFFFFFF :: u64) = mask 48"
  by (simp add: mask_eq_exp_minus_1)

text \<open>A tagged pointer keeps the low 48 bits of its pointer and the low 16 bits of its tag
  through \<open>pack\<close> and \<open>unpack\<close>, so both survive when they fit, and every packed word is recovered
  from its parts.\<close>

lemma tagged_pointer_round_trip:
  "unpack (pack tp) = \<lparr>tp_ptr = take_bit 48 (tp_ptr tp), tp_tag = take_bit 16 (tp_tag tp)\<rparr> \<and>
   pack (unpack w) = w \<and>
   (unat (tp_ptr tp) < 2 ^ 48 \<and> unat (tp_tag tp) < 2 ^ 16 \<longrightarrow> unpack (pack tp) = tp)"
proof -
  have low: "pack tp AND mask 48 = take_bit 48 (tp_ptr tp)"
    by (rule bit_word_eqI) (auto simp: pack_def mask48 bit_simps)
  have high: "drop_bit 48 (pack tp) = take_bit 16 (tp_tag tp)"
    by (rule bit_word_eqI) (auto simp: pack_def mask48 bit_simps)
  have whole: "pack (unpack w) = w"
    by (rule bit_word_eqI) (auto simp: pack_def unpack_def mask48 bit_simps)
  have parts: "unpack (pack tp) = \<lparr>tp_ptr = take_bit 48 (tp_ptr tp), tp_tag = take_bit 16 (tp_tag tp)\<rparr>"
    using low high by (simp add: unpack_def mask48)
  then show ?thesis using whole by (auto simp: take_bit_fits)
qed

lemma tagged_pointer_round_trip_example:
  "unpack (pack \<lparr>tp_ptr = 0x12345678, tp_tag = 0xABCD\<rparr>) = \<lparr>tp_ptr = 0x12345678, tp_tag = 0xABCD\<rparr>"
  using tagged_pointer_round_trip [of "\<lparr>tp_ptr = 0x12345678, tp_tag = 0xABCD\<rparr>" 0] by simp

end
