(* ===== verification/Cas_Loop.thy ===== *)
theory Cas_Loop
  imports Interfaces
begin

text \<open>
  The idiom most atomics of the code use: load a cell, compute a new value (or give up), and
  \<open>compare_exchange_weak\<close> it in, starting over when another thread was faster or when the weak
  exchange fails without cause.  Threads are interleaved by a schedule: each entry names the
  thread that moves and whether its exchange, if it is at one, fails spuriously.  The theory
  shows that whatever the schedule, the operations take effect one after the other in some
  order (linearizability), and that a thread left alone finishes.
\<close>

section \<open>The machine\<close>

text \<open>\<open>CGaveUp x\<close>: the operation refused the value \<open>x\<close> it had loaded; \<open>CDone x\<close>: it replaced \<open>x\<close>.\<close>

datatype 'v cas_pc = CStart | CLoaded 'v | CDone 'v | CGaveUp 'v

record 'v cas_state =
  cell :: 'v
  pc :: "nat \<Rightarrow> 'v cas_pc"

type_synonym schedule = "(nat \<times> bool) list"

definition cas_step :: "(nat \<Rightarrow> 'v \<Rightarrow> 'v option) \<Rightarrow> nat \<times> bool \<Rightarrow> 'v cas_state \<Rightarrow> 'v cas_state" where
  "cas_step op e s =
     (let (t, spurious) = e
      in case pc s t of
           CStart \<Rightarrow> s\<lparr>pc := (pc s)(t := CLoaded (cell s))\<rparr>
         | CLoaded x \<Rightarrow>
             (case op t x of
                None \<Rightarrow> s\<lparr>pc := (pc s)(t := CGaveUp x)\<rparr>
              | Some y \<Rightarrow>
                  if cell s = x \<and> \<not> spurious
                  then s\<lparr>cell := y, pc := (pc s)(t := CDone x)\<rparr>
                  else s\<lparr>pc := (pc s)(t := CStart)\<rparr>)
         | _ \<Rightarrow> s)"

definition cas_start :: "'v \<Rightarrow> 'v cas_state" where
  "cas_start v = \<lparr>cell = v, pc = \<lambda>_. CStart\<rparr>"

definition cas_run :: "(nat \<Rightarrow> 'v \<Rightarrow> 'v option) \<Rightarrow> schedule \<Rightarrow> 'v \<Rightarrow> 'v cas_state" where
  "cas_run op sched v = fold (cas_step op) sched (cas_start v)"

section \<open>Linearization\<close>

text \<open>
  The values a cell goes through when the operations of a list of threads run one after the
  other, each accepting its predecessor's value.
\<close>

fun serial :: "(nat \<Rightarrow> 'v \<Rightarrow> 'v option) \<Rightarrow> nat list \<Rightarrow> 'v \<Rightarrow> 'v option" where
  "serial op [] v = Some v"
| "serial op (t # ts) v = (case op t v of None \<Rightarrow> None | Some y \<Rightarrow> serial op ts y)"

lemma serial_append:
  "serial op (ts @ us) v = (case serial op ts v of None \<Rightarrow> None | Some y \<Rightarrow> serial op us y)"
  by (induction ts arbitrary: v) (auto split: option.splits)

definition linearized :: "(nat \<Rightarrow> 'v \<Rightarrow> 'v option) \<Rightarrow> 'v \<Rightarrow> nat list \<Rightarrow> 'v cas_state \<Rightarrow> bool" where
  "linearized op v ts s \<longleftrightarrow>
     distinct ts \<and> set ts = {t. \<exists>x. pc s t = CDone x} \<and> serial op ts v = Some (cell s) \<and>
     (\<forall>t x. pc s t = CDone x \<longrightarrow> (\<exists>us ws. ts = us @ t # ws \<and> serial op us v = Some x)) \<and>
     (\<forall>t x. pc s t = CGaveUp x \<longrightarrow>
        op t x = None \<and> (\<exists>us ws. ts = us @ ws \<and> serial op us v = Some x)) \<and>
     (\<forall>t x. pc s t = CLoaded x \<longrightarrow> (\<exists>us ws. ts = us @ ws \<and> serial op us v = Some x))"

lemma linearized_start: "linearized op v [] (cas_start v)"
  by (simp add: linearized_def cas_start_def)

lemma linearized_extend:
  assumes lin: "linearized op v ts s" and at: "pc s t = CLoaded x"
    and op: "op t x = Some y" and same: "cell s = x"
  shows "linearized op v (ts @ [t]) (s\<lparr>cell := y, pc := (pc s)(t := CDone x)\<rparr>)"
proof -
  have fresh: "t \<notin> set ts" using lin at by (auto simp: linearized_def)
  have ser: "serial op ts v = Some x" using lin same by (simp add: linearized_def)
  have set: "set (ts @ [t]) = {u. \<exists>z. ((pc s)(t := CDone x)) u = CDone z}"
    using lin by (auto simp: linearized_def)
  have tl: "\<exists>us' ws'. ts @ [t] = us' @ ws' \<and> serial op us' v = Some z"
    if "ts = us @ ws" "serial op us v = Some z" for us ws z
    using that by (metis append.assoc)
  have tl2: "\<exists>us' ws'. ts @ [t] = us' @ u # ws' \<and> serial op us' v = Some z"
    if "ts = us @ u # ws" "serial op us v = Some z" for us u ws z
    using that by (metis append.assoc append_Cons)
  have done_at: "\<exists>us ws. ts @ [t] = us @ u # ws \<and> serial op us v = Some z"
    if "((pc s)(t := CDone x)) u = CDone z" for u z
  proof (cases "u = t")
    case True
    then have "ts @ [t] = ts @ u # []" "serial op ts v = Some z" using that ser by simp_all
    then show ?thesis by blast
  next
    case False
    then have "pc s u = CDone z" using that by simp
    then show ?thesis using lin tl2 unfolding linearized_def by blast
  qed
  have gave_up: "op u z = None \<and> (\<exists>us ws. ts @ [t] = us @ ws \<and> serial op us v = Some z)"
    if "((pc s)(t := CDone x)) u = CGaveUp z" for u z
  proof -
    have "pc s u = CGaveUp z" using that by (simp split: if_splits)
    then show ?thesis using lin tl unfolding linearized_def by blast
  qed
  have loaded: "\<exists>us ws. ts @ [t] = us @ ws \<and> serial op us v = Some z"
    if "((pc s)(t := CDone x)) u = CLoaded z" for u z
  proof -
    have "pc s u = CLoaded z" using that by (simp split: if_splits)
    then show ?thesis using lin tl unfolding linearized_def by blast
  qed
  have "distinct (ts @ [t])" using lin fresh by (simp add: linearized_def)
  moreover have "serial op (ts @ [t]) v = Some y" using ser op by (simp add: serial_append)
  ultimately show ?thesis
    using set done_at gave_up loaded unfolding linearized_def by simp
qed

lemma linearized_local:
  assumes lin: "linearized op v ts s" and not_done: "\<nexists>x. pc s t = CDone x"
    and new: "p = CStart \<or> p = CLoaded (cell s) \<or> (\<exists>x. pc s t = CLoaded x \<and> p = CGaveUp x \<and> op t x = None)"
  shows "linearized op v ts (s\<lparr>pc := (pc s)(t := p)\<rparr>)"
proof -
  have now: "\<exists>us ws. ts = us @ ws \<and> serial op us v = Some (cell s)"
    using lin unfolding linearized_def by (metis append_Nil2)
  have set: "{u. \<exists>x. ((pc s)(t := p)) u = CDone x} = {u. \<exists>x. pc s u = CDone x}"
    using not_done new by auto
  have "(\<exists>us ws. ts = us @ ws \<and> serial op us v = Some x)"
    if "((pc s)(t := p)) u = CLoaded x" for u x
    using that new now lin by (cases "u = t") (auto simp: linearized_def)
  moreover have "op u x = None \<and> (\<exists>us ws. ts = us @ ws \<and> serial op us v = Some x)"
    if "((pc s)(t := p)) u = CGaveUp x" for u x
    using that new lin by (cases "u = t") (auto simp: linearized_def)
  moreover have "\<exists>us ws. ts = us @ u # ws \<and> serial op us v = Some x"
    if "((pc s)(t := p)) u = CDone x" for u x
    using that new lin by (cases "u = t") (auto simp: linearized_def)
  ultimately show ?thesis
    using lin set unfolding linearized_def by simp
qed

lemma cas_step_linearized:
  assumes "linearized op v ts s"
  shows "\<exists>ts'. linearized op v ts' (cas_step op e s)"
proof -
  obtain t b where e: "e = (t, b)" by (cases e)
  show ?thesis
  proof (cases "pc s t")
    case CStart
    then show ?thesis
      using linearized_local [OF assms, of t] by (auto simp: cas_step_def e)
  next
    case (CLoaded x)
    show ?thesis
    proof (cases "op t x")
      case None
      then show ?thesis
        using CLoaded linearized_local [OF assms, of t "CGaveUp x"] by (auto simp: cas_step_def e)
    next
      case (Some y)
      then show ?thesis
        using CLoaded linearized_local [OF assms, of t CStart]
          linearized_extend [OF assms CLoaded Some]
        by (auto simp: cas_step_def e)
    qed
  qed (use assms in \<open>auto simp: cas_step_def e\<close>)
qed

lemma cas_run_linearized: "\<exists>ts. linearized op v ts (cas_run op sched v)"
proof -
  have "\<exists>ts'. linearized op v ts' (fold (cas_step op) sched s)" if "linearized op v ts s" for ts s
    using that
  proof (induction sched arbitrary: ts s)
    case Nil
    then show ?case by auto
  next
    case (Cons e sched)
    obtain ts' where "linearized op v ts' (cas_step op e s)"
      using cas_step_linearized [OF Cons.prems] by blast
    then show ?case using Cons.IH by simp
  qed
  from this [OF linearized_start] show ?thesis by (simp add: cas_run_def)
qed

text \<open>What every accepted operation keeps is kept by the cell.\<close>

lemma serial_inv:
  assumes "\<And>t x y. P x \<Longrightarrow> op t x = Some y \<Longrightarrow> P y" "P v" "serial op ts v = Some w"
  shows "P w"
  using assms(2,3)
proof (induction ts arbitrary: v)
  case Nil
  then show ?case by simp
next
  case (Cons t ts)
  then obtain y where "op t v = Some y" "serial op ts y = Some w"
    by (auto split: option.splits)
  then show ?case using Cons.IH Cons.prems(1) assms(1) by blast
qed

lemma cas_run_inv:
  assumes "\<And>t x y. P x \<Longrightarrow> op t x = Some y \<Longrightarrow> P y" "P v"
  shows "P (cell (cas_run op sched v))"
proof -
  obtain ts where "serial op ts v = Some (cell (cas_run op sched v))"
    using cas_run_linearized [of op v sched] unfolding linearized_def by blast
  then show ?thesis using assms serial_inv [of P op v ts] by metis
qed

text \<open>A thread that moves twice in a row, without a spurious failure, is through.\<close>

lemma cas_alone_finishes:
  assumes "pc s t = CStart"
  shows "pc (fold (cas_step op) [(t, False), (t, False)] s) t =
           (if op t (cell s) = None then CGaveUp (cell s) else CDone (cell s))"
  using assms by (simp add: cas_step_def split: option.splits)

end
