(* ===== verification/Position_Tracker.thy ===== *)
theory Position_Tracker
  imports Fixed_Point Cas_Loop
begin

text \<open>
  The lock-free position and margin tracker of
  \<open>crates/nexus_oms/src/lock_free_position_tracker.rs\<close>.  Each operation is given first as one
  call that meets no other thread, and the operations that are CAS loops on one atomic also as
  interleaved threads.  \<open>update_on_fill\<close> exchanges the quantity and then stores three more
  fields, so it is also given as the sequence of its atomic steps.
\<close>

section \<open>State\<close>

record position =
  pos_symbol_id :: u32
  pos_quantity :: fixed_point
  pos_avg_entry_price :: fixed_point
  pos_realized_pnl :: fixed_point
  pos_unrealized_pnl :: fixed_point

definition new_position :: "u32 \<Rightarrow> position" where
  "new_position sid =
     \<lparr>pos_symbol_id = sid, pos_quantity = from_raw 0, pos_avg_entry_price = from_raw 0,
      pos_realized_pnl = from_raw 0, pos_unrealized_pnl = from_raw 0\<rparr>"

definition pos_is_flat :: "position \<Rightarrow> bool" where
  "pos_is_flat p \<longleftrightarrow> is_zero (pos_quantity p)"

definition pos_is_long :: "position \<Rightarrow> bool" where
  "pos_is_long p \<longleftrightarrow> is_positive (pos_quantity p)"

definition pos_is_short :: "position \<Rightarrow> bool" where
  "pos_is_short p \<longleftrightarrow> is_negative (pos_quantity p)"

record position_tracker =
  position_qty :: i64
  avg_entry_price :: i64
  realized_pnl :: i64
  initial_margin :: i64
  maintenance_margin :: i64
  account_balance :: i64
  available_balance :: i64
  symbol_id :: u64
  sequence :: u64

definition new_position_tracker :: "u32 \<Rightarrow> fixed_point \<Rightarrow> position_tracker" where
  "new_position_tracker sid bal =
     \<lparr>position_qty = 0, avg_entry_price = 0, realized_pnl = 0, initial_margin = 0,
      maintenance_margin = 0, account_balance = raw bal, available_balance = raw bal,
      symbol_id = ucast sid, sequence = 0\<rparr>"

section \<open>Fills\<close>

definition signed_qty :: "fixed_point \<Rightarrow> bool \<Rightarrow> i64" where
  "signed_qty qty is_buy = (if is_buy then raw qty else s64 (- raw qty))"

text \<open>The average entry price; the division is on \<open>i128\<close>, its result is cut to an \<open>i64\<close>.\<close>

definition new_average :: "i64 \<Rightarrow> i64 \<Rightarrow> i64 \<Rightarrow> i64 \<Rightarrow> i64" where
  "new_average qty avg sq px =
     (let nq = s64 (qty + sq)
      in if (qty \<ge> 0 \<and> sq > 0) \<or> (qty < 0 \<and> sq < 0) then
           (let total_value = s128 (s128 (qty * avg) + s128 (sq * px));
                nq_abs = i64_abs nq
            in if nq_abs = 0 then 0 else s64 (total_value sdiv nq_abs))
         else if nq = 0 then 0 else avg)"

definition new_margin :: "i64 \<Rightarrow> i64 \<Rightarrow> i64" where
  "new_margin nq avg =
     (let notional = s128 (i64_abs nq * avg) sdiv 100000000
      in max (s64 (notional sdiv 10)) 0)"

definition update_on_fill ::
  "fixed_point \<Rightarrow> fixed_point \<Rightarrow> bool \<Rightarrow> position_tracker \<Rightarrow> u64 \<times> position_tracker" where
  "update_on_fill qty px is_buy t =
     (let sq = signed_qty qty is_buy;
          nq = s64 (position_qty t + sq);
          avg = new_average (position_qty t) (avg_entry_price t) sq (raw px)
      in (sequence t + 1,
          t\<lparr>position_qty := nq, avg_entry_price := avg, initial_margin := new_margin nq avg,
            sequence := sequence t + 1\<rparr>))"

section \<open>Profit, balance and margin\<close>

definition update_account_balance :: "fixed_point \<Rightarrow> position_tracker \<Rightarrow> position_tracker" where
  "update_account_balance delta t =
     t\<lparr>account_balance := i64_saturating_add (account_balance t) (raw delta)\<rparr>"

definition add_realized_pnl :: "fixed_point \<Rightarrow> position_tracker \<Rightarrow> u64 \<times> position_tracker" where
  "add_realized_pnl pnl t =
     (let t1 = t\<lparr>realized_pnl := i64_saturating_add (realized_pnl t) (raw pnl)\<rparr>;
          t2 = update_account_balance pnl t1
      in (sequence t2, t2))"

text \<open>The body of the loop of \<open>try_reserve_margin\<close>: refuse, or the value to exchange in.\<close>

definition reserve_value :: "i64 \<Rightarrow> i64 \<Rightarrow> i64 option" where
  "reserve_value required available =
     (if available < required then None else Some (s64 (available - required)))"

definition try_reserve_margin :: "fixed_point \<Rightarrow> position_tracker \<Rightarrow> bool \<times> position_tracker" where
  "try_reserve_margin required t =
     (case reserve_value (raw required) (available_balance t) of
        None \<Rightarrow> (False, t)
      | Some v \<Rightarrow> (True, t\<lparr>available_balance := v\<rparr>))"

definition release_value :: "i64 \<Rightarrow> i64 \<Rightarrow> i64 option" where
  "release_value amount available = Some (i64_saturating_add available amount)"

definition release_margin :: "fixed_point \<Rightarrow> position_tracker \<Rightarrow> position_tracker" where
  "release_margin amount t =
     t\<lparr>available_balance := i64_saturating_add (available_balance t) (raw amount)\<rparr>"

definition get_position_snapshot :: "position_tracker \<Rightarrow> position" where
  "get_position_snapshot t =
     \<lparr>pos_symbol_id = ucast (symbol_id t), pos_quantity = from_raw (position_qty t),
      pos_avg_entry_price = from_raw (avg_entry_price t),
      pos_realized_pnl = from_raw (realized_pnl t), pos_unrealized_pnl = from_raw 0\<rparr>"

definition get_position_qty :: "position_tracker \<Rightarrow> fixed_point" where
  "get_position_qty t = from_raw (position_qty t)"

definition get_avg_entry_price :: "position_tracker \<Rightarrow> fixed_point" where
  "get_avg_entry_price t = from_raw (avg_entry_price t)"

definition get_available_balance :: "position_tracker \<Rightarrow> fixed_point" where
  "get_available_balance t = from_raw (available_balance t)"

definition get_initial_margin :: "position_tracker \<Rightarrow> fixed_point" where
  "get_initial_margin t = from_raw (initial_margin t)"

definition tracker_is_flat :: "position_tracker \<Rightarrow> bool" where
  "tracker_is_flat t \<longleftrightarrow> position_qty t = 0"

definition get_sequence :: "position_tracker \<Rightarrow> u64" where
  "get_sequence t = sequence t"

section \<open>Margin requests as threads\<close>

datatype margin_request = Reserve i64 | Release i64

definition margin_op :: "(nat \<Rightarrow> margin_request) \<Rightarrow> nat \<Rightarrow> i64 \<Rightarrow> i64 option" where
  "margin_op req t v =
     (case req t of Reserve r \<Rightarrow> reserve_value r v | Release a \<Rightarrow> release_value a v)"

fun request_ok :: "margin_request \<Rightarrow> bool" where
  "request_ok (Reserve r) = (0 \<le> r \<and> in_i64 r)"
| "request_ok (Release a) = (0 \<le> a \<and> in_i64 a)"

text \<open>What a request takes from the available balance.\<close>

fun taken :: "margin_request \<Rightarrow> int" where
  "taken (Reserve r) = r"
| "taken (Release a) = 0"

fun given_back :: "margin_request \<Rightarrow> int" where
  "given_back (Reserve r) = 0"
| "given_back (Release a) = a"

section \<open>Fills as threads\<close>

text \<open>
  The atomic steps of one call of \<open>update_on_fill\<close>, in program order; the loads of the sequence
  and of the margin are left out, since nothing uses them.
\<close>

record fill_request =
  req_qty :: fixed_point
  req_price :: fixed_point
  req_is_buy :: bool

datatype fill_pc =
    FStart
  | FQty i64
  | FLoaded i64 i64
  | FSwapped i64 i64
  | FAvgStored i64
  | FMarginStored
  | FReturned u64

definition fill_step ::
  "(nat \<Rightarrow> fill_request) \<Rightarrow> nat \<times> bool \<Rightarrow> position_tracker \<times> (nat \<Rightarrow> fill_pc) \<Rightarrow>
   position_tracker \<times> (nat \<Rightarrow> fill_pc)" where
  "fill_step req e s =
     (let (i, spurious) = e; (t, pcs) = s; sq = signed_qty (req_qty (req i)) (req_is_buy (req i))
      in case pcs i of
           FStart \<Rightarrow> (t, pcs(i := FQty (position_qty t)))
         | FQty q \<Rightarrow> (t, pcs(i := FLoaded q (avg_entry_price t)))
         | FLoaded q a \<Rightarrow>
             (let nq = s64 (q + sq); avg = new_average q a sq (raw (req_price (req i)))
              in if position_qty t = q \<and> \<not> spurious
                 then (t\<lparr>position_qty := nq\<rparr>, pcs(i := FSwapped avg (new_margin nq avg)))
                 else (t, pcs(i := FStart)))
         | FSwapped avg mg \<Rightarrow> (t\<lparr>avg_entry_price := avg\<rparr>, pcs(i := FAvgStored mg))
         | FAvgStored mg \<Rightarrow> (t\<lparr>initial_margin := mg\<rparr>, pcs(i := FMarginStored))
         | FMarginStored \<Rightarrow>
             (t\<lparr>sequence := sequence t + 1\<rparr>, pcs(i := FReturned (sequence t + 1)))
         | FReturned r \<Rightarrow> (t, pcs))"

definition fill_run ::
  "(nat \<Rightarrow> fill_request) \<Rightarrow> schedule \<Rightarrow> position_tracker \<Rightarrow>
   position_tracker \<times> (nat \<Rightarrow> fill_pc)" where
  "fill_run req sched t = fold (fill_step req) sched (t, \<lambda>_. FStart)"

section \<open>Margin: serial runs\<close>

lemma serial_margin:
  assumes "serial (margin_op req) ts v = Some w" "\<forall>t \<in> set ts. request_ok (req t)"
    and "0 \<le> v" "v \<le> i64_max"
  shows "0 \<le> w \<and> w \<le> i64_max \<and>
         w + (\<Sum>t\<leftarrow>ts. taken (req t)) \<le> v + (\<Sum>t\<leftarrow>ts. given_back (req t)) \<and>
         (v + (\<Sum>t\<leftarrow>ts. given_back (req t)) \<le> i64_max \<longrightarrow>
            w + (\<Sum>t\<leftarrow>ts. taken (req t)) = v + (\<Sum>t\<leftarrow>ts. given_back (req t)))"
  using assms
proof (induction ts arbitrary: v)
  case Nil
  then show ?case by simp
next
  case (Cons t ts)
  obtain y where y: "margin_op req t v = Some y" "serial (margin_op req) ts y = Some w"
    using Cons.prems(1) by (auto split: option.splits)
  have sums: "0 \<le> (\<Sum>t\<leftarrow>ts. given_back (req t))"
    using Cons.prems(2) by (intro sum_list_nonneg) (auto elim!: request_ok.elims)
  show ?case
  proof (cases "req t")
    case (Reserve r)
    then have r: "r \<le> v" "0 \<le> r" and eq: "y = v - r"
      using y(1) Cons.prems by (auto simp: margin_op_def reserve_value_def s64_id in_i64_def split: if_splits)
    have "0 \<le> y" "y \<le> i64_max" using r eq Cons.prems by auto
    from Cons.IH [OF y(2) _ this] Cons.prems(2) show ?thesis
      using Reserve eq r by auto
  next
    case (Release a)
    then have a: "0 \<le> a" and eq: "y = min i64_max (v + a)"
      using y(1) Cons.prems
      by (auto simp: margin_op_def release_value_def i64_saturating_add_def i64_clamp_def)
    have "0 \<le> y" "y \<le> i64_max" using a eq Cons.prems by auto
    from Cons.IH [OF y(2) _ this] Cons.prems(2) show ?thesis
      using Release eq a sums by auto
  qed
qed

section \<open>Fills: what an interleaving keeps\<close>

fun swapped :: "fill_pc \<Rightarrow> bool" where
  "swapped FStart = False"
| "swapped (FQty _) = False"
| "swapped (FLoaded _ _) = False"
| "swapped _ = True"

fun returned :: "fill_pc \<Rightarrow> bool" where
  "returned (FReturned _) = True"
| "returned _ = False"

definition fill_count_inv ::
  "(nat \<Rightarrow> fill_request) \<Rightarrow> position_tracker \<Rightarrow> position_tracker \<times> (nat \<Rightarrow> fill_pc) \<Rightarrow> bool" where
  "fill_count_inv req t0 s \<longleftrightarrow>
     (let (t, pcs) = s in
        finite {i. swapped (pcs i)} \<and> finite {i. returned (pcs i)} \<and>
        position_qty t = s64 (position_qty t0 +
          (\<Sum>i | swapped (pcs i). signed_qty (req_qty (req i)) (req_is_buy (req i)))) \<and>
        sequence t = sequence t0 + of_nat (card {i. returned (pcs i)}))"

text \<open>A step that changes neither whether the thread has swapped nor whether it has returned.\<close>

lemma pcs_keep:
  assumes "P p = P (pcs i)"
  shows "{j. P ((pcs(i := p)) j)} = {j. P (pcs j)}"
  using assms by auto

lemma pcs_gain:
  assumes "P p"
  shows "{j. P ((pcs(i := p)) j)} = insert i {j. P (pcs j)}"
  using assms by auto

lemma fill_step_count:
  assumes "fill_count_inv req t0 s"
  shows "fill_count_inv req t0 (fill_step req e s)"
proof -
  obtain i b t pcs where e: "e = (i, b)" and s: "s = (t, pcs)" by (cases e, cases s)
  let ?sq = "\<lambda>i. signed_qty (req_qty (req i)) (req_is_buy (req i))"
  have inv: "finite {i. swapped (pcs i)}" "finite {i. returned (pcs i)}"
    "position_qty t = s64 (position_qty t0 + (\<Sum>i | swapped (pcs i). ?sq i))"
    "sequence t = sequence t0 + of_nat (card {i. returned (pcs i)})"
    using assms by (simp_all add: fill_count_inv_def s)
  have keep: "fill_count_inv req t0 (t', pcs(i := p))"
    if "swapped p = swapped (pcs i)" "returned p = returned (pcs i)"
      "position_qty t' = position_qty t" "sequence t' = sequence t" for t' p
    using inv that by (simp add: fill_count_inv_def pcs_keep del: fun_upd_apply)
  show ?thesis
  proof (cases "pcs i")
    case (FLoaded q a)
    show ?thesis
    proof (cases "position_qty t = q \<and> \<not> b")
      case True
      let ?p = "FSwapped (new_average q a (?sq i) (raw (req_price (req i))))
        (new_margin (s64 (q + ?sq i)) (new_average q a (?sq i) (raw (req_price (req i)))))"
      have step: "fill_step req e s = (t\<lparr>position_qty := s64 (q + ?sq i)\<rparr>, pcs(i := ?p))"
        using True by (simp add: fill_step_def e s FLoaded Let_def)
      have "i \<notin> {i. swapped (pcs i)}" by (simp add: FLoaded)
      then have sum: "(\<Sum>j | swapped ((pcs(i := ?p)) j). ?sq j) = ?sq i + (\<Sum>j | swapped (pcs j). ?sq j)"
        using inv(1) by (simp add: pcs_gain del: fun_upd_apply)
      have "s64 (q + ?sq i) = s64 (position_qty t0 + (\<Sum>j | swapped (pcs j). ?sq j) + ?sq i)"
        using True inv(3) by (metis s64_add_left)
      moreover have "finite {j. swapped ((pcs(i := ?p)) j)}"
        using inv(1) by (simp add: pcs_gain del: fun_upd_apply)
      moreover have "{j. returned ((pcs(i := ?p)) j)} = {j. returned (pcs j)}"
        by (rule pcs_keep) (simp add: FLoaded)
      ultimately show ?thesis
        unfolding step using inv(2,4) sum
        by (simp add: fill_count_inv_def ac_simps del: fun_upd_apply)
    next
      case False
      then have "fill_step req e s = (t, pcs(i := FStart))"
        by (auto simp: fill_step_def e s FLoaded Let_def)
      then show ?thesis using keep by (simp add: FLoaded)
    qed
  next
    case FMarginStored
    have "i \<notin> {i. returned (pcs i)}" by (simp add: FMarginStored)
    then have "card {j. returned ((pcs(i := FReturned r)) j)} = Suc (card {j. returned (pcs j)})" for r
      using inv(2) by (simp add: pcs_gain del: fun_upd_apply)
    moreover have "{j. swapped ((pcs(i := FReturned r)) j)} = {j. swapped (pcs j)}" for r
      by (rule pcs_keep) (simp add: FMarginStored)
    moreover have "finite {j. returned ((pcs(i := FReturned r)) j)}" for r
      using inv(2) by (simp add: pcs_gain del: fun_upd_apply)
    ultimately show ?thesis
      using inv by (simp add: fill_step_def e s FMarginStored fill_count_inv_def del: fun_upd_apply)
  qed (use keep assms in \<open>simp_all add: fill_step_def e s del: fun_upd_apply\<close>)
qed

interpretation fill_machine: invariant_machine "fill_step req" "fill_count_inv req t0"
  by unfold_locales (rule fill_step_count)

section \<open>The average price\<close>

lemma weighted_average_bounds:
  assumes "0 \<le> q" "0 < (b :: int)" "0 \<le> lo" "lo \<le> p" "p \<le> hi" "0 < q \<Longrightarrow> lo \<le> a \<and> a \<le> hi"
  shows "lo \<le> (q * a + b * p) div (q + b)" and "(q * a + b * p) div (q + b) \<le> hi"
proof -
  have a: "q * lo \<le> q * a" "q * a \<le> q * hi"
    using assms(1,6) by (cases "q = 0"; simp add: mult_left_mono)+
  have p: "b * lo \<le> b * p" "b * p \<le> b * hi" using assms by (simp_all add: mult_left_mono)
  have "lo * (q + b) \<le> q * a + b * p" using a p by (simp add: algebra_simps)
  then have "lo * (q + b) div (q + b) \<le> (q * a + b * p) div (q + b)"
    using assms by (intro zdiv_mono1) simp_all
  then show "lo \<le> (q * a + b * p) div (q + b)" using assms by simp
  have "q * a + b * p \<le> hi * (q + b)" using a p by (simp add: algebra_simps)
  then have "(q * a + b * p) div (q + b) \<le> hi * (q + b) div (q + b)"
    using assms by (intro zdiv_mono1) simp_all
  then show "(q * a + b * p) div (q + b) \<le> hi" using assms by simp
qed

lemma new_average_long:
  assumes "0 \<le> q" "0 < b" "q + b \<le> i64_max" "0 \<le> lo" "lo \<le> p" "p \<le> hi" "hi \<le> i64_max"
    and "in_i64 a" "0 < q \<Longrightarrow> lo \<le> a \<and> a \<le> hi"
  shows "new_average q a b p = (q * a + b * p) div (q + b)"
    and "lo \<le> new_average q a b p" and "new_average q a b p \<le> hi"
proof -
  have rng: "in_i64 q" "in_i64 b" "in_i64 p" "in_i64 (q + b)" using assms by (simp_all add: in_i64_def)
  have qa: "0 \<le> q * a" using assms by (cases "q = 0") auto
  have bp: "0 \<le> b * p" using assms by simp
  have "q * a + b * p \<le> i64_max * (q + b)"
  proof -
    have "q * a \<le> q * i64_max" using assms by (cases "q = 0") (auto intro!: mult_left_mono)
    moreover have "b * p \<le> b * i64_max" using assms by (intro mult_left_mono) auto
    ultimately show ?thesis by (simp add: algebra_simps)
  qed
  also have "\<dots> \<le> i64_max * i64_max" using assms by (intro mult_left_mono) auto
  finally have "q * a + b * p < 2 ^ 127" by simp
  then have tot: "s128 (s128 (q * a) + s128 (b * p)) = q * a + b * p"
    using rng assms(8) qa bp by (simp add: s128_product s128_id)
  note bounds = weighted_average_bounds [OF assms(1,2,4,5,6,9)]
  have "in_i64 ((q * a + b * p) div (q + b))"
    using bounds assms by (simp add: in_i64_def)
  then show eq: "new_average q a b p = (q * a + b * p) div (q + b)"
    using assms(1,2) rng(4) tot qa bp
    by (simp add: new_average_def s64_id i64_abs_id in_i64_def sdiv_nonneg Let_def)
  show "lo \<le> new_average q a b p" "new_average q a b p \<le> hi" using bounds by (simp_all add: eq)
qed

lemma new_average_reduce:
  assumes "0 < c" "c \<le> q" "s64 (q - c) = q - c"
  shows "new_average q a (- c) p = (if c = q then 0 else a)"
  using assms by (simp add: new_average_def Let_def)

lemma new_margin_0: "new_margin 0 a = 0" "new_margin q 0 = 0"
  by (simp_all add: new_margin_def i64_abs_def s128_def)

section \<open>Properties\<close>

text \<open>C29. Margin is never over-reserved.  Whatever way the threads that reserve and release
  non-negative amounts are interleaved, and however often their exchanges fail, the available
  balance stays between 0 and what was there plus what was released minus what was reserved;
  it equals that amount unless a release saturated.\<close>

theorem margin_never_over_reserved:
  assumes "\<forall>t. request_ok (req t)" "0 \<le> v" "v \<le> i64_max"
    and "s = cas_run (margin_op req) sched v" "T = {t. \<exists>x. pc s t = CDone x}"
  shows "finite T \<and> 0 \<le> cell s \<and>
         cell s + (\<Sum>t\<in>T. taken (req t)) \<le> v + (\<Sum>t\<in>T. given_back (req t)) \<and>
         (v + (\<Sum>t\<in>T. given_back (req t)) \<le> i64_max \<longrightarrow>
            cell s + (\<Sum>t\<in>T. taken (req t)) = v + (\<Sum>t\<in>T. given_back (req t)))"
proof -
  obtain ts where ts: "distinct ts" "set ts = T" "serial (margin_op req) ts v = Some (cell s)"
    using cas_run_linearized [of "margin_op req" v sched] assms(4,5) unfolding linearized_def by blast
  then have sums: "(\<Sum>t\<in>T. f t) = (\<Sum>t\<leftarrow>ts. f t)" for f :: "nat \<Rightarrow> int"
    by (metis sum.distinct_set_conv_list)
  show ?thesis
    using serial_margin [OF ts(3) _ assms(2,3)] assms(1) ts(2) unfolding sums by auto
qed

definition example_requests :: "nat \<Rightarrow> margin_request" where
  "example_requests t = (if even t then Reserve 6 else Release 2)"

definition example_margin_run :: "i64 cas_state" where
  "example_margin_run = cas_run (margin_op example_requests)
     [(0, False), (2, False), (0, False), (2, False), (1, False), (2, True), (2, False)] 10"

lemma example_requests_ok: "\<forall>t. request_ok (example_requests t)"
  by (simp add: example_requests_def in_i64_def)

lemma margin_never_over_reserved_witness:
  "0 \<le> cell example_margin_run \<and>
   cell example_margin_run + (\<Sum>t | \<exists>x. pc example_margin_run t = CDone x. taken (example_requests t)) \<le>
     10 + (\<Sum>t | \<exists>x. pc example_margin_run t = CDone x. given_back (example_requests t))"
  using margin_never_over_reserved [OF example_requests_ok _ _ example_margin_run_def refl] by simp

text \<open>C30. No fill is lost: in every interleaving of concurrent calls of \<open>update_on_fill\<close> the
  position is the initial one plus the signed quantities of the calls whose exchange has
  succeeded, each counted once, and the sequence number counts the calls that returned.\<close>

theorem fills_never_lost:
  assumes "in_i64 (position_qty t0)"
  shows "let (t, pcs) = fill_run req sched t0 in
           position_qty t = s64 (position_qty t0 +
             (\<Sum>i | swapped (pcs i). signed_qty (req_qty (req i)) (req_is_buy (req i)))) \<and>
           sequence t = sequence t0 + of_nat (card {i. returned (pcs i)})"
proof -
  have "fill_count_inv req t0 (t0, \<lambda>_. FStart)"
    using assms by (simp add: fill_count_inv_def s64_id)
  from fill_machine.run_inv [OF this, of sched] show ?thesis
    by (simp add: fill_count_inv_def fill_run_def case_prod_beta Let_def)
qed

definition example_tracker :: position_tracker where
  "example_tracker = new_position_tracker 1 (from_int 10000)"

definition example_fills :: "nat \<Rightarrow> fill_request" where
  "example_fills i =
     \<lparr>req_qty = from_int 1, req_price = (if i = 0 then from_int 100 else from_int 200),
      req_is_buy = True\<rparr>"

definition racing_schedule :: schedule where
  "racing_schedule =
     [(0, False), (0, False), (0, False), (1, False), (1, False), (1, False),
      (0, False), (0, False), (0, False), (1, False), (1, False), (1, False)]"

lemma fills_never_lost_witness:
  "let (t, pcs) = fill_run example_fills racing_schedule example_tracker in
     sequence t = sequence example_tracker + of_nat (card {i. returned (pcs i)})"
  using fills_never_lost [of example_tracker example_fills racing_schedule]
  by (simp add: example_tracker_def new_position_tracker_def case_prod_beta)

text \<open>The average price is not part of the exchange: when two calls that buy one unit at 100
  and one at 200 overlap, both return, the position is two units and the average price ends at
  100, although either serial order gives 150.\<close>

lemma fill_average_race:
  "(let (t, pcs) = fill_run example_fills racing_schedule example_tracker in
      returned (pcs 0) \<and> returned (pcs 1) \<and> get_position_qty t = from_int 2 \<and>
      get_avg_entry_price t = from_int 100) \<and>
   get_avg_entry_price (snd (update_on_fill (from_int 1) (from_int 200) True
     (snd (update_on_fill (from_int 1) (from_int 100) True example_tracker)))) = from_int 150 \<and>
   get_avg_entry_price (snd (update_on_fill (from_int 1) (from_int 100) True
     (snd (update_on_fill (from_int 1) (from_int 200) True example_tracker)))) = from_int 150"
  by code_simp

text \<open>A long position that buys more holds exactly the sum of the quantities; its average
  price is the truncated volume-weighted average, so it stays between any bounds that the old
  average and the new price respect, and the call returns the next sequence number.  Selling
  part of it keeps the average, selling all of it resets the average and the margin to zero.\<close>

lemma update_on_fill_long:
  assumes long: "0 \<le> position_qty t" and buy: "0 < raw b" "position_qty t + raw b \<le> i64_max"
    and px: "0 \<le> lo" "lo \<le> raw p" "raw p \<le> hi" "hi \<le> i64_max"
    and avg: "in_i64 (avg_entry_price t)"
      "0 < position_qty t \<Longrightarrow> lo \<le> avg_entry_price t \<and> avg_entry_price t \<le> hi"
    and sell: "0 < raw c" "raw c \<le> position_qty t"
  shows "(\<exists>t1. update_on_fill b p True t = (sequence t + 1, t1) \<and>
            position_qty t1 = position_qty t + raw b \<and>
            avg_entry_price t1 =
              (position_qty t * avg_entry_price t + raw b * raw p) div position_qty t1 \<and>
            lo \<le> avg_entry_price t1 \<and> avg_entry_price t1 \<le> hi) \<and>
         (\<exists>t2. update_on_fill c p False t = (sequence t + 1, t2) \<and>
            position_qty t2 = position_qty t - raw c \<and>
            (raw c < position_qty t \<longrightarrow> avg_entry_price t2 = avg_entry_price t) \<and>
            (raw c = position_qty t \<longrightarrow> avg_entry_price t2 = 0 \<and> initial_margin t2 = 0))"
proof
  have nq: "s64 (position_qty t + raw b) = position_qty t + raw b"
    using long buy by (intro s64_id) (simp add: in_i64_def)
  note new = new_average_long [OF long buy px avg]
  show "\<exists>t1. update_on_fill b p True t = (sequence t + 1, t1) \<and>
            position_qty t1 = position_qty t + raw b \<and>
            avg_entry_price t1 =
              (position_qty t * avg_entry_price t + raw b * raw p) div position_qty t1 \<and>
            lo \<le> avg_entry_price t1 \<and> avg_entry_price t1 \<le> hi"
    using new by (simp add: update_on_fill_def signed_qty_def nq Let_def)
  have sq: "s64 (- raw c) = - raw c" and nq': "s64 (position_qty t - raw c) = position_qty t - raw c"
    using sell buy by (auto intro!: s64_id simp: in_i64_def)
  show "\<exists>t2. update_on_fill c p False t = (sequence t + 1, t2) \<and>
            position_qty t2 = position_qty t - raw c \<and>
            (raw c < position_qty t \<longrightarrow> avg_entry_price t2 = avg_entry_price t) \<and>
            (raw c = position_qty t \<longrightarrow> avg_entry_price t2 = 0 \<and> initial_margin t2 = 0)"
    using new_average_reduce [OF sell nq'] new_margin_0
    by (simp add: update_on_fill_def signed_qty_def sq nq' Let_def)
qed

text \<open>A short position opened from flat never gets a price: selling from a flat tracker takes
  the branch meant for reducing a position, so the average entry price stays whatever it was,
  which is 0, and no margin is required for the short, however large it is.\<close>

lemma short_opened_without_price:
  assumes "position_qty t = 0" "avg_entry_price t = 0" "0 < raw q" "raw q \<le> i64_max"
  shows "position_qty (snd (update_on_fill q p False t)) = - raw q \<and>
         get_avg_entry_price (snd (update_on_fill q p False t)) = from_raw 0 \<and>
         get_initial_margin (snd (update_on_fill q p False t)) = from_raw 0"
proof -
  have s: "s64 (- raw q) = - raw q" using assms by (intro s64_id) (simp add: in_i64_def)
  have a: "new_average 0 0 (- raw q) (raw p) = 0" using assms(3) by (simp add: new_average_def Let_def)
  show ?thesis
    unfolding update_on_fill_def Let_def assms(1,2)
    by (simp add: signed_qty_def get_avg_entry_price_def get_initial_margin_def s a new_margin_0)
qed

lemma short_opened_without_price_example:
  "get_avg_entry_price (snd (update_on_fill (from_int 10) (from_int 100) False example_tracker)) =
     from_raw 0"
  using short_opened_without_price [of example_tracker "from_int 10" "from_int 100"]
  by (simp add: example_tracker_def new_position_tracker_def from_int_def SCALE_def s64_def)

end
