(* ===== verification/Price_Bands.thy ===== *)
theory Price_Bands
  imports Interfaces
begin

text \<open>
  The price checks of the risk gatekeeper: \<open>PriceCollarValidator\<close> of
  \<open>crates/nexus_risk/src/gatekeeper/price_collar.rs\<close> and \<open>FatFingerValidator\<close> of
  \<open>crates/nexus_risk/src/gatekeeper/fat_finger_collars.rs\<close>, with the \<open>price_bounds\<close> helpers of
  both files.  A per-symbol array of 1024 entries is a function that is only applied to indices
  below 1024.  The theorems give the accepted prices as an exact inequality in basis points
  and show that the four formulations agree.
\<close>

section \<open>Price collar\<close>

datatype price_validation_result =
    PV_Valid
  | PV_TooHigh u64 u64
  | PV_TooLow u64 u64
  | PV_StalePrice

record symbol_price_state =
  micro_price_of :: u64
  last_update_ns :: u64

record price_collar =
  collar_bps :: u16
  stale_threshold_ns :: u64
  symbol_states :: "nat \<Rightarrow> symbol_price_state"
  violation_count :: u64

definition MAX_SYMBOLS :: nat where "MAX_SYMBOLS = 1024"

definition symbol_index :: "u64 \<Rightarrow> nat" where
  "symbol_index h = unat h mod MAX_SYMBOLS"

definition new_price_collar :: "u16 \<Rightarrow> u64 \<Rightarrow> price_collar" where
  "new_price_collar bps stale =
     \<lparr>collar_bps = bps, stale_threshold_ns = stale,
      symbol_states = \<lambda>_. \<lparr>micro_price_of = 0, last_update_ns = 0\<rparr>, violation_count = 0\<rparr>"

definition collar_validate ::
  "u64 \<Rightarrow> bool \<Rightarrow> u64 \<Rightarrow> u64 \<Rightarrow> price_collar \<Rightarrow> (price_validation_result + unit) \<times> price_collar" where
  "collar_validate price is_buy micro ts pc =
     (if micro = 0 then (Inl PV_StalePrice, pc)
      else
        let deviation = bps_of micro (collar_bps pc);
            counted = pc\<lparr>violation_count := violation_count pc + 1\<rparr>
        in if is_buy then
             (let max_allowed = saturating_add micro deviation
              in if price > max_allowed then (Inl (PV_TooHigh price max_allowed), counted)
                 else (Inr (), pc))
           else
             (let min_allowed = saturating_sub micro deviation
              in if min_allowed > 0 \<and> price < min_allowed
                 then (Inl (PV_TooLow price min_allowed), counted)
                 else (Inr (), pc)))"

definition update_price :: "u64 \<Rightarrow> u64 \<Rightarrow> u64 \<Rightarrow> price_collar \<Rightarrow> price_collar" where
  "update_price h price ts pc =
     pc\<lparr>symbol_states := (symbol_states pc)
          (symbol_index h := \<lparr>micro_price_of = price, last_update_ns = ts\<rparr>)\<rparr>"

definition get_micro_price :: "u64 \<Rightarrow> price_collar \<Rightarrow> u64" where
  "get_micro_price h pc = micro_price_of (symbol_states pc (symbol_index h))"

definition is_price_stale :: "u64 \<Rightarrow> u64 \<Rightarrow> price_collar \<Rightarrow> bool" where
  "is_price_stale h now pc =
     (let last = last_update_ns (symbol_states pc (symbol_index h))
      in if last = 0 then True else saturating_sub now last > stale_threshold_ns pc)"

definition reset_violations :: "price_collar \<Rightarrow> u64 \<times> price_collar" where
  "reset_violations pc = (violation_count pc, pc\<lparr>violation_count := 0\<rparr>)"

text \<open>The helpers of \<open>price_bounds\<close>.\<close>

definition upper_bound :: "u64 \<Rightarrow> u16 \<Rightarrow> u64" where
  "upper_bound mid bps = saturating_add mid (bps_of mid bps)"

definition lower_bound :: "u64 \<Rightarrow> u16 \<Rightarrow> u64" where
  "lower_bound mid bps = saturating_sub mid (bps_of mid bps)"

definition is_within_bounds :: "u64 \<Rightarrow> u64 \<Rightarrow> u16 \<Rightarrow> bool \<Rightarrow> bool" where
  "is_within_bounds price mid bps is_buy =
     (if is_buy then price \<le> upper_bound mid bps
      else (let lower = lower_bound mid bps in lower = 0 \<or> price \<ge> lower))"

section \<open>Fat-finger validator\<close>

datatype fat_finger_result =
    FF_Valid
  | FF_TooHigh u64 u64 u16
  | FF_TooLow u64 u64 u16
  | FF_StaleMidPrice

record fat_finger =
  mid_price :: u64
  mid_price_timestamp_ns :: u64
  ff_collar_bps :: u16
  max_stale_ns :: u64
  ff_rejection_count :: u64

definition new_fat_finger :: "u16 \<Rightarrow> u64 \<Rightarrow> fat_finger" where
  "new_fat_finger bps stale =
     \<lparr>mid_price = 0, mid_price_timestamp_ns = 0, ff_collar_bps = bps, max_stale_ns = stale,
      ff_rejection_count = 0\<rparr>"

definition update_mid_price :: "u64 \<Rightarrow> u64 \<Rightarrow> fat_finger \<Rightarrow> fat_finger" where
  "update_mid_price price ts ff = ff\<lparr>mid_price := price, mid_price_timestamp_ns := ts\<rparr>"

text \<open>\<open>(d as u64).min(u16::MAX as u64) as u16\<close> for a \<open>u128\<close> value \<open>d\<close>.\<close>

definition cap_u16 :: "nat \<Rightarrow> u16" where
  "cap_u16 d = ucast (min (word_of_nat d :: u64) 65535)"

text \<open>
  The reported deviations: both \<open>u128\<close> subtractions are within range where the code reaches
  them, so subtraction on \<open>nat\<close> is the same.
\<close>

definition deviation_above :: "u64 \<Rightarrow> u64 \<Rightarrow> u16" where
  "deviation_above price mid =
     (if mid > 0 then cap_u16 (unat price * 10000 div unat mid - 10000) else 0xFFFF)"

definition deviation_below :: "u64 \<Rightarrow> u64 \<Rightarrow> u16" where
  "deviation_below price mid =
     (if mid > 0 then cap_u16 (10000 - unat price * 10000 div unat mid) else 0xFFFF)"

definition validate_limit_price ::
  "u64 \<Rightarrow> bool \<Rightarrow> u64 \<Rightarrow> fat_finger \<Rightarrow> fat_finger_result \<times> fat_finger" where
  "validate_limit_price price is_buy now ff =
     (let mid = mid_price ff
      in if mid = 0 then (FF_StaleMidPrice, ff)
         else if saturating_sub now (mid_price_timestamp_ns ff) > max_stale_ns ff
         then (FF_StaleMidPrice, ff)
         else
           let deviation = bps_of mid (ff_collar_bps ff);
               counted = ff\<lparr>ff_rejection_count := ff_rejection_count ff + 1\<rparr>
           in if is_buy then
                (let max_allowed = saturating_add mid deviation
                 in if price > max_allowed
                    then (FF_TooHigh price max_allowed (deviation_above price mid), counted)
                    else (FF_Valid, ff))
              else
                (let min_allowed = saturating_sub mid deviation
                 in if price < min_allowed \<and> min_allowed > 0
                    then (FF_TooLow price min_allowed (deviation_below price mid), counted)
                    else (FF_Valid, ff)))"

definition validate_market_order :: "u64 \<Rightarrow> fat_finger \<Rightarrow> bool" where
  "validate_market_order now ff =
     (let mid = mid_price ff
      in if mid = 0 then False
         else saturating_sub now (mid_price_timestamp_ns ff) \<le> max_stale_ns ff)"

definition reset_rejection_count :: "fat_finger \<Rightarrow> u64 \<times> fat_finger" where
  "reset_rejection_count ff = (ff_rejection_count ff, ff\<lparr>ff_rejection_count := 0\<rparr>)"

definition ff_upper_bound :: "u64 \<Rightarrow> u16 \<Rightarrow> u64" where
  "ff_upper_bound mid bps = saturating_add mid (bps_of mid bps)"

definition ff_lower_bound :: "u64 \<Rightarrow> u16 \<Rightarrow> u64" where
  "ff_lower_bound mid bps = saturating_sub mid (bps_of mid bps)"

definition ff_is_within_bounds :: "u64 \<Rightarrow> u64 \<Rightarrow> u16 \<Rightarrow> bool \<Rightarrow> bool" where
  "ff_is_within_bounds price mid bps is_buy =
     (if is_buy then price \<le> ff_upper_bound mid bps
      else price \<ge> ff_lower_bound mid bps \<or> ff_lower_bound mid bps = 0)"

section \<open>The accepted prices\<close>

text \<open>The band in exact arithmetic: at most \<open>bps\<close> basis points worse than the reference.\<close>

definition in_band :: "u64 \<Rightarrow> u16 \<Rightarrow> bool \<Rightarrow> u64 \<Rightarrow> bool" where
  "in_band mid bps is_buy price \<longleftrightarrow>
     (if is_buy then 10000 * unat price \<le> (10000 + unat bps) * unat mid
      else 10000 * unat mid \<le> 10000 * unat price + unat bps * unat mid)"

lemma unat_bps_of':
  "unat a * unat b div 10000 < 2 ^ 64 \<Longrightarrow> unat (bps_of a b) = unat a * unat b div 10000"
  by (simp add: bps_of_def unsigned_of_nat take_bit_nat_eq_self)

lemma le_upper_bound_iff:
  assumes "unat mid * unat bps div 10000 < 2 ^ 64"
  shows "price \<le> upper_bound mid bps \<longleftrightarrow> in_band mid bps True price"
proof -
  have "price \<le> upper_bound mid bps \<longleftrightarrow> unat price \<le> unat mid + unat mid * unat bps div 10000"
    using unat_lt_2p [of price]
    by (simp add: upper_bound_def word_le_nat_alt unat_saturating_add unat_bps_of' [OF assms])
  also have "\<dots> \<longleftrightarrow> (unat price - unat mid) * 10000 \<le> unat mid * unat bps"
    by (subst less_eq_div_iff_mult_less_eq [symmetric]) auto
  also have "\<dots> \<longleftrightarrow> in_band mid bps True price"
    by (auto simp: in_band_def algebra_simps diff_mult_distrib)
  finally show ?thesis .
qed

lemma ge_lower_bound_iff:
  assumes "unat mid * unat bps div 10000 < 2 ^ 64"
  shows "lower_bound mid bps \<le> price \<longleftrightarrow> in_band mid bps False price"
proof -
  have "lower_bound mid bps \<le> price \<longleftrightarrow> unat mid - unat price \<le> unat mid * unat bps div 10000"
    by (auto simp: lower_bound_def word_le_nat_alt unat_saturating_sub unat_bps_of' [OF assms])
  also have "\<dots> \<longleftrightarrow> (unat mid - unat price) * 10000 \<le> unat mid * unat bps"
    by (subst less_eq_div_iff_mult_less_eq [symmetric]) auto
  also have "\<dots> \<longleftrightarrow> in_band mid bps False price"
    by (auto simp: in_band_def algebra_simps diff_mult_distrib)
  finally show ?thesis .
qed

lemma is_within_bounds_iff:
  assumes "unat mid * unat bps div 10000 < 2 ^ 64"
  shows "is_within_bounds price mid bps is_buy \<longleftrightarrow> in_band mid bps is_buy price"
proof (cases is_buy)
  case True
  then show ?thesis using le_upper_bound_iff [OF assms] by (simp add: is_within_bounds_def)
next
  case False
  have "lower_bound mid bps = 0 \<Longrightarrow> lower_bound mid bps \<le> price" by simp
  then show ?thesis
    using False ge_lower_bound_iff [OF assms, of price] by (auto simp: is_within_bounds_def Let_def)
qed

lemma collar_validate_iff:
  "fst (collar_validate price is_buy micro ts pc) = Inr () \<longleftrightarrow>
     micro \<noteq> 0 \<and> is_within_bounds price micro (collar_bps pc) is_buy"
  by (auto simp: collar_validate_def is_within_bounds_def upper_bound_def lower_bound_def Let_def
      not_less word_neq_0_conv split: if_splits)

lemma validate_limit_price_iff:
  "fst (validate_limit_price price is_buy now ff) = FF_Valid \<longleftrightarrow>
     validate_market_order now ff \<and>
     is_within_bounds price (mid_price ff) (ff_collar_bps ff) is_buy"
  by (auto simp: validate_limit_price_def validate_market_order_def is_within_bounds_def
      upper_bound_def lower_bound_def Let_def not_less word_neq_0_conv split: if_splits)

text \<open>Both validators are price gates around their reference price.\<close>

interpretation band: price_gate "\<lambda>is_buy p. is_within_bounds p mid bps is_buy" mid
proof
  show "is_within_bounds mid mid bps is_buy" for is_buy
    by (simp add: is_within_bounds_def upper_bound_def lower_bound_def saturating_add_ge
        saturating_sub_le Let_def)
  show "is_within_bounds p' mid bps True" if "is_within_bounds p mid bps True" "p' \<le> p" for p p'
    using that by (auto simp: is_within_bounds_def)
  show "is_within_bounds p' mid bps False" if "is_within_bounds p mid bps False" "p \<le> p'" for p p'
    using that by (auto simp: is_within_bounds_def Let_def)
qed

section \<open>Properties\<close>

text \<open>The collar accepts exactly the prices at most \<open>collar_bps\<close> basis points worse than the
  micro-price, in exact arithmetic: neither the truncating division nor the saturation moves
  the boundary.  A refusal is a price strictly worse than the micro-price, is counted once and
  changes nothing else; an acceptance changes nothing.\<close>

lemma collar_accepts_exactly:
  assumes "micro \<noteq> 0" "unat micro * unat (collar_bps pc) div 10000 < 2 ^ 64"
  shows "((fst (collar_validate price is_buy micro ts pc) = Inr ()) \<longleftrightarrow>
            in_band micro (collar_bps pc) is_buy price) \<and>
         snd (collar_validate price is_buy micro ts pc) =
           (if in_band micro (collar_bps pc) is_buy price then pc
            else pc\<lparr>violation_count := violation_count pc + 1\<rparr>) \<and>
         (in_band micro (collar_bps pc) is_buy price \<or>
            (if is_buy then micro < price else price < micro))"
proof -
  have iff: "in_band micro (collar_bps pc) is_buy price \<longleftrightarrow>
      is_within_bounds price micro (collar_bps pc) is_buy"
    using is_within_bounds_iff [OF assms(2)] by simp
  have "snd (collar_validate price is_buy micro ts pc) =
      (if is_within_bounds price micro (collar_bps pc) is_buy then pc
       else pc\<lparr>violation_count := violation_count pc + 1\<rparr>)"
    using assms(1) by (auto simp: collar_validate_def is_within_bounds_def upper_bound_def
        lower_bound_def Let_def not_less word_neq_0_conv)
  then show ?thesis
    using assms(1) band.refused_is_worse [of price micro "collar_bps pc" is_buy]
    unfolding iff
    by (cases "is_within_bounds price micro (collar_bps pc) is_buy") (simp_all add: collar_validate_iff)
qed

lemma collar_accepts_exactly_example:
  "(fst (collar_validate 51000000000 True 50000000000 0 (new_price_collar 200 0)) = Inr ()) \<and>
   snd (collar_validate 51000000001 True 50000000000 0 (new_price_collar 200 0)) =
     (new_price_collar 200 0)\<lparr>violation_count := 1\<rparr>"
  using collar_accepts_exactly [of 50000000000 "new_price_collar 200 0" 51000000000 True 0]
    collar_accepts_exactly [of 50000000000 "new_price_collar 200 0" 51000000001 True 0]
  by (simp add: new_price_collar_def in_band_def)

text \<open>The four formulations of the check agree: with a fresh price, the fat-finger validator,
  the collar validator and the two \<open>is_within_bounds\<close> helpers accept the same orders.\<close>

lemma price_checks_agree:
  assumes "validate_market_order now ff" "ff_collar_bps ff = collar_bps pc" "mid_price ff = micro"
  shows "(fst (validate_limit_price price is_buy now ff) = FF_Valid) =
           (fst (collar_validate price is_buy micro ts pc) = Inr ()) \<and>
         (fst (validate_limit_price price is_buy now ff) = FF_Valid) =
           is_within_bounds price micro (collar_bps pc) is_buy \<and>
         is_within_bounds price micro (collar_bps pc) is_buy =
           ff_is_within_bounds price micro (collar_bps pc) is_buy"
proof -
  have "micro \<noteq> 0" using assms by (auto simp: validate_market_order_def Let_def)
  then show ?thesis
    using assms
    by (auto simp: validate_limit_price_iff collar_validate_iff is_within_bounds_def
        ff_is_within_bounds_def upper_bound_def lower_bound_def ff_upper_bound_def
        ff_lower_bound_def Let_def)
qed

lemma price_checks_agree_example:
  "(fst (validate_limit_price 49000000000 False 2000 (update_mid_price 50000000000 1000 (new_fat_finger 200 5000)))
      = FF_Valid) =
   (fst (collar_validate 49000000000 False 50000000000 0 (new_price_collar 200 0)) = Inr ())"
  using price_checks_agree [of 2000 "update_mid_price 50000000000 1000 (new_fat_finger 200 5000)"
      "new_price_collar 200 0" 50000000000 49000000000 False 0]
  by (simp add: validate_market_order_def update_mid_price_def new_fat_finger_def
      new_price_collar_def saturating_sub_def)

text \<open>The collar validator never looks at the clock: whatever the timestamp of the order, the
  staleness threshold and the stored prices and their ages, the verdict is the same, so a
  price that \<open>is_price_stale\<close> calls stale is checked as if it were fresh.\<close>

lemma collar_ignores_staleness:
  "fst (collar_validate price is_buy micro ts pc) =
   fst (collar_validate price is_buy micro ts'
     (pc\<lparr>stale_threshold_ns := thr, symbol_states := st, violation_count := n\<rparr>))"
  by (simp add: collar_validate_def Let_def)

end
