(* ===== verification/Position_Limits.thy ===== *)
theory Position_Limits
  imports Price_Bands
begin

text \<open>
  The per-symbol positions of \<open>crates/nexus_risk/src/gatekeeper/position_accumulator.rs\<close>: an
  array of 1024 signed 64-bit cells addressed by the symbol hash modulo 1024, the check of an
  order against the position limit, and the conversions between quantity scales.
\<close>

section \<open>State and operations\<close>

datatype position_check_result =
    PC_Ok
  | PC_WouldExceed i64 i64 i64 i64

record position_accumulator =
  positions :: "nat \<Rightarrow> i64"
  max_position :: i64
  update_count :: u64
  pa_violation_count :: u64

definition new_accumulator :: "i64 \<Rightarrow> position_accumulator" where
  "new_accumulator mx =
     \<lparr>positions = \<lambda>_. 0, max_position = mx, update_count = 0, pa_violation_count = 0\<rparr>"

definition check_position_would_exceed ::
  "u64 \<Rightarrow> i64 \<Rightarrow> position_accumulator \<Rightarrow> (position_check_result + unit) \<times> position_accumulator"
  where
  "check_position_would_exceed h delta pa =
     (let current = positions pa (symbol_index h);
          counted = pa\<lparr>pa_violation_count := pa_violation_count pa + 1\<rparr>
      in case i64_checked_add current delta of
           None \<Rightarrow> (Inl (PC_WouldExceed current delta current (max_position pa)), counted)
         | Some new \<Rightarrow>
             if i64_abs new > max_position pa
             then (Inl (PC_WouldExceed current delta new (max_position pa)), counted)
             else (Inr (), pa))"

text \<open>\<open>fetch_add\<close> wraps.\<close>

definition update_position :: "u64 \<Rightarrow> i64 \<Rightarrow> position_accumulator \<Rightarrow> position_accumulator" where
  "update_position h delta pa =
     pa\<lparr>positions := (positions pa)(symbol_index h := s64 (positions pa (symbol_index h) + delta)),
        update_count := update_count pa + 1\<rparr>"

definition get_position :: "u64 \<Rightarrow> position_accumulator \<Rightarrow> i64" where
  "get_position h pa = positions pa (symbol_index h)"

definition set_position :: "u64 \<Rightarrow> i64 \<Rightarrow> position_accumulator \<Rightarrow> position_accumulator" where
  "set_position h v pa = pa\<lparr>positions := (positions pa)(symbol_index h := v)\<rparr>"

definition reset_all_positions :: "position_accumulator \<Rightarrow> position_accumulator" where
  "reset_all_positions pa =
     pa\<lparr>positions := fold (\<lambda>i f. f(i := 0)) [0..<MAX_SYMBOLS] (positions pa)\<rparr>"

text \<open>Scale conversions; a \<open>u128\<close> is a \<open>nat\<close> below 2^128.\<close>

definition btc_to_satoshi :: "u64 \<Rightarrow> u64" where
  "btc_to_satoshi btc =
     (if unat btc * 100000000 < 2 ^ 64 then btc * 100000000 else - 1)"

definition satoshi_to_btc :: "u64 \<Rightarrow> u64" where
  "satoshi_to_btc s = s div 100000000"

definition eth_to_wei :: "u64 \<Rightarrow> nat" where
  "eth_to_wei eth = min (unat eth * 1000000000000000000) (2 ^ 128 - 1)"

definition wei_to_eth :: "nat \<Rightarrow> u64" where
  "wei_to_eth w = word_of_nat (w div 1000000000000000000)"

section \<open>Lemmas\<close>

lemma check_position_ok_iff:
  "fst (check_position_would_exceed h delta pa) = Inr () \<longleftrightarrow>
     in_i64 (get_position h pa + delta) \<and> i64_abs (get_position h pa + delta) \<le> max_position pa"
  by (auto simp: check_position_would_exceed_def i64_checked_add_def get_position_def Let_def
      not_less)

lemma check_position_positions [frame_simps]:
  "positions (snd (check_position_would_exceed h delta pa)) = positions pa"
  "max_position (snd (check_position_would_exceed h delta pa)) = max_position pa"
  by (simp_all add: check_position_would_exceed_def Let_def split: option.split)

lemma reset_all_positions_zero: "get_position h (reset_all_positions pa) = 0"
proof -
  have "fold (\<lambda>i f. f(i := 0)) is f j = (if j \<in> set is then 0 else f j)"
    for "is" and f :: "nat \<Rightarrow> i64" and j
    by (induction "is" arbitrary: f) auto
  then show ?thesis
    by (simp add: get_position_def reset_all_positions_def symbol_index_def MAX_SYMBOLS_def)
qed

section \<open>Properties\<close>

text \<open>The limit check admits an order exactly when the resulting position fits an \<open>i64\<close> and
  its magnitude is within the limit - except for the one value whose absolute value wraps:
  a position of \<open>i64::MIN\<close>, the largest possible short, passes every non-negative limit.\<close>

lemma position_limit_check:
  assumes "0 \<le> max_position pa" "max_position pa \<le> i64_max"
  shows "fst (check_position_would_exceed h delta pa) = Inr () \<longleftrightarrow>
           (let new = get_position h pa + delta in
              - max_position pa \<le> new \<and> new \<le> max_position pa \<or> new = i64_min)"
proof (cases "get_position h pa + delta = i64_min")
  case True
  then show ?thesis using assms by (simp add: check_position_ok_iff in_i64_def Let_def)
next
  case False
  show ?thesis
  proof (cases "in_i64 (get_position h pa + delta)")
    case True
    then show ?thesis using False by (auto simp: check_position_ok_iff i64_abs_id Let_def)
  next
    case out: False
    then show ?thesis using False assms by (auto simp: check_position_ok_iff in_i64_def Let_def)
  qed
qed

lemma position_limit_check_example:
  "fst (check_position_would_exceed 42 5000 (new_accumulator 5000)) = Inr () \<and>
   fst (check_position_would_exceed 42 5001 (new_accumulator 5000)) \<noteq> Inr () \<and>
   fst (check_position_would_exceed 42 i64_min (new_accumulator 5000)) = Inr ()"
  using position_limit_check [of "new_accumulator 5000" 42 5000]
    position_limit_check [of "new_accumulator 5000" 42 5001]
    position_limit_check [of "new_accumulator 5000" 42 i64_min]
  by (simp add: new_accumulator_def get_position_def)

text \<open>Fills are conserved: a sequence of fills that never leaves the \<open>i64\<close> range adds up
  exactly, for every symbol, to the fills of the symbols that share its slot - symbols whose
  hashes agree modulo 1024 share one position - and every update is counted.\<close>

lemma positions_add_up:
  assumes "\<forall>h. in_i64 (get_position h pa)"
  shows "let pa' = fold (\<lambda>(h, d). update_position h d) fills pa in
           get_position h0 pa' =
             s64 (get_position h0 pa + (\<Sum>(h, d)\<leftarrow>fills. if symbol_index h = symbol_index h0 then d else 0)) \<and>
           update_count pa' = update_count pa + of_nat (length fills)"
  using assms
proof (induction fills arbitrary: pa)
  case Nil
  then show ?case by (simp add: s64_id)
next
  case (Cons f fills)
  obtain h d where f: "f = (h, d)" by fastforce
  have "\<forall>h'. in_i64 (get_position h' (update_position h d pa))"
    using Cons.prems by (simp add: get_position_def update_position_def s64_range)
  from Cons.IH [OF this] show ?case
    by (auto simp: f get_position_def update_position_def Let_def add.assoc s64_id Cons.prems)
qed

lemma positions_add_up_example:
  "get_position 42 (fold (\<lambda>(h, d). update_position h d) [(42, 10), (1066, 5), (7, 99)] (new_accumulator 100))
     = 15"
  using positions_add_up [of "new_accumulator 100" "[(42, 10), (1066, 5), (7, 99)]" 42]
  by (simp add: get_position_def new_accumulator_def symbol_index_def MAX_SYMBOLS_def s64_def Let_def)

text \<open>Converting to the fine scale and back is the identity: for BTC as long as the amount in
  satoshis fits 64 bits, for ETH always.\<close>

lemma scale_round_trip:
  "(unat btc * 100000000 < 2 ^ 64 \<longrightarrow> satoshi_to_btc (btc_to_satoshi btc) = btc) \<and>
   wei_to_eth (eth_to_wei eth) = eth"
proof
  show "unat btc * 100000000 < 2 ^ 64 \<longrightarrow> satoshi_to_btc (btc_to_satoshi btc) = btc"
  proof
    assume fits: "unat btc * 100000000 < 2 ^ 64"
    then have "unat (btc * 100000000) = unat btc * 100000000"
      using unat_mult_lem [of btc "100000000 :: u64"] by simp
    then show "satoshi_to_btc (btc_to_satoshi btc) = btc"
      using fits by (simp add: satoshi_to_btc_def btc_to_satoshi_def word_unat_eq_iff unat_div)
  qed
  have "unat eth * 1000000000000000000 \<le> 2 ^ 128 - 1"
    using unat_lt_2p [of eth] by simp
  then show "wei_to_eth (eth_to_wei eth) = eth"
    by (simp add: wei_to_eth_def eth_to_wei_def min_absorb1)
qed

lemma scale_round_trip_example:
  "satoshi_to_btc (btc_to_satoshi 21000000) = 21000000 \<and> wei_to_eth (eth_to_wei 7) = 7"
  using scale_round_trip [of 21000000 7] by simp

end
