(* ===== verification/Pre_Trade_Filter.thy ===== *)
theory Pre_Trade_Filter
  imports Position_Limits
begin

text \<open>
  The risk gatekeeper of \<open>crates/nexus_risk/src/gatekeeper/pre_trade_filter.rs\<close>: the checks an
  order passes before it may be signed, in the order of the code, with the statistics each
  branch updates.  The token \<open>RiskApproved\<close> is its sequence number and timestamp.  \<open>validate\<close>
  returns the verdict of the position check as it is (the code types the two error enums
  differently), so it is a constructor of \<open>risk_violation\<close> here.
\<close>

section \<open>State\<close>

record risk_approved =
  ra_sequence :: u64
  ra_timestamp_ns :: u64

datatype risk_violation =
    PriceCollarViolation u64 u64 u64
  | PositionLimitExceeded position_check_result
  | MarginLimitExceeded u64 u64 u64
  | MarketOrderRejected
  | KillSwitchActive
  | ZeroQuantity

record gatekeeper_config =
  max_position_size :: i64
  max_margin_utilization :: u64
  price_collar_bps :: u16
  stale_price_threshold_ns :: u64
  reject_market_orders :: bool

definition default_gatekeeper_config :: gatekeeper_config where
  "default_gatekeeper_config =
     \<lparr>max_position_size = 10000000000, max_margin_utilization = 1000000000,
      price_collar_bps = 200, stale_price_threshold_ns = 100000000, reject_market_orders = True\<rparr>"

record risk_order =
  ro_order_id :: u64
  symbol_hash :: u64
  is_buy :: bool
  is_limit :: bool
  ro_quantity :: u64
  ro_price :: u64
  ro_micro_price :: u64
  ro_timestamp_ns :: u64
  margin_required :: u64

record gatekeeper =
  gk_config :: gatekeeper_config
  price_collar_of :: price_collar
  accumulator :: position_accumulator
  kill_switch_active :: bool
  total_validated :: u64
  total_approved :: u64
  gk_total_rejected :: u64
  price_violations :: u64
  position_violations :: u64
  margin_violations :: u64
  market_order_rejections :: u64
  kill_switch_blocks :: u64
  sequence_counter :: u64

definition new_gatekeeper :: "gatekeeper_config \<Rightarrow> gatekeeper" where
  "new_gatekeeper cfg =
     \<lparr>gk_config = cfg,
      price_collar_of = new_price_collar (price_collar_bps cfg) (stale_price_threshold_ns cfg),
      accumulator = new_accumulator (max_position_size cfg), kill_switch_active = False,
      total_validated = 0, total_approved = 0, gk_total_rejected = 0, price_violations = 0,
      position_violations = 0, margin_violations = 0, market_order_rejections = 0,
      kill_switch_blocks = 0, sequence_counter = 0\<rparr>"

section \<open>Validation\<close>

text \<open>\<open>quantity as i64\<close>, negated for a sell.\<close>

definition order_delta :: "u64 \<Rightarrow> bool \<Rightarrow> i64" where
  "order_delta q buy = (if buy then sint q else s64 (- sint q))"

definition reject :: "gatekeeper \<Rightarrow> gatekeeper" where
  "reject g = g\<lparr>gk_total_rejected := gk_total_rejected g + 1\<rparr>"

definition collar_violation :: "risk_order \<Rightarrow> gatekeeper \<Rightarrow> risk_violation" where
  "collar_violation o' g =
     (let dev = bps_of (ro_micro_price o') (price_collar_bps (gk_config g))
      in if is_buy o'
         then PriceCollarViolation (ro_price o') 0 (saturating_add (ro_micro_price o') dev)
         else PriceCollarViolation (ro_price o') (saturating_sub (ro_micro_price o') dev) (- 1))"

text \<open>The price check, skipped for market orders and for zero prices.\<close>

definition check_price :: "risk_order \<Rightarrow> gatekeeper \<Rightarrow> (risk_violation + unit) \<times> gatekeeper" where
  "check_price o' g =
     (if is_limit o' \<and> ro_price o' > 0 \<and> ro_micro_price o' > 0 then
        (case collar_validate (ro_price o') (is_buy o') (ro_micro_price o') (ro_timestamp_ns o')
                (price_collar_of g) of
           (Inr _, pc) \<Rightarrow> (Inr (), g\<lparr>price_collar_of := pc\<rparr>)
         | (Inl _, pc) \<Rightarrow>
             (Inl (collar_violation o' g),
              reject (g\<lparr>price_collar_of := pc, price_violations := price_violations g + 1\<rparr>)))
      else (Inr (), g))"

definition check_position :: "risk_order \<Rightarrow> gatekeeper \<Rightarrow> (risk_violation + unit) \<times> gatekeeper" where
  "check_position o' g =
     (case check_position_would_exceed (symbol_hash o') (order_delta (ro_quantity o') (is_buy o'))
             (accumulator g) of
        (Inr _, pa) \<Rightarrow> (Inr (), g\<lparr>accumulator := pa\<rparr>)
      | (Inl v, pa) \<Rightarrow>
          (Inl (PositionLimitExceeded v),
           reject (g\<lparr>accumulator := pa, position_violations := position_violations g + 1\<rparr>)))"

text \<open>The last check, and the token.\<close>

definition check_margin_and_approve ::
  "risk_order \<Rightarrow> gatekeeper \<Rightarrow> (risk_violation + risk_approved) \<times> gatekeeper" where
  "check_margin_and_approve o' g =
     (if margin_required o' > max_margin_utilization (gk_config g) then
        (Inl (MarginLimitExceeded 0 (margin_required o') (max_margin_utilization (gk_config g))),
         reject (g\<lparr>margin_violations := margin_violations g + 1\<rparr>))
      else
        (Inr \<lparr>ra_sequence = sequence_counter g, ra_timestamp_ns = ro_timestamp_ns o'\<rparr>,
         g\<lparr>sequence_counter := sequence_counter g + 1, total_approved := total_approved g + 1\<rparr>))"

definition validate :: "risk_order \<Rightarrow> gatekeeper \<Rightarrow> (risk_violation + risk_approved) \<times> gatekeeper" where
  "validate o' g0 =
     (let g = g0\<lparr>total_validated := total_validated g0 + 1\<rparr>
      in if kill_switch_active g then
           (Inl KillSwitchActive, reject (g\<lparr>kill_switch_blocks := kill_switch_blocks g + 1\<rparr>))
         else if ro_quantity o' = 0 then (Inl ZeroQuantity, reject g)
         else if reject_market_orders (gk_config g) \<and> \<not> is_limit o' then
           (Inl MarketOrderRejected,
            reject (g\<lparr>market_order_rejections := market_order_rejections g + 1\<rparr>))
         else
           case check_price o' g of
             (Inl v, g1) \<Rightarrow> (Inl v, g1)
           | (Inr _, g1) \<Rightarrow>
               (case check_position o' g1 of
                  (Inl v, g2) \<Rightarrow> (Inl v, g2)
                | (Inr _, g2) \<Rightarrow> check_margin_and_approve o' g2))"

section \<open>The other operations\<close>

definition record_fill :: "u64 \<Rightarrow> u64 \<Rightarrow> bool \<Rightarrow> gatekeeper \<Rightarrow> gatekeeper" where
  "record_fill h q buy g = g\<lparr>accumulator := update_position h (order_delta q buy) (accumulator g)\<rparr>"

definition record_cancel :: "u64 \<Rightarrow> u64 \<Rightarrow> bool \<Rightarrow> gatekeeper \<Rightarrow> gatekeeper" where
  "record_cancel h unfilled was_buy g = g"

definition activate_kill_switch :: "gatekeeper \<Rightarrow> gatekeeper" where
  "activate_kill_switch g = g\<lparr>kill_switch_active := True\<rparr>"

definition deactivate_kill_switch :: "gatekeeper \<Rightarrow> gatekeeper" where
  "deactivate_kill_switch g = g\<lparr>kill_switch_active := False\<rparr>"

definition update_micro_price :: "u64 \<Rightarrow> u64 \<Rightarrow> u64 \<Rightarrow> gatekeeper \<Rightarrow> gatekeeper" where
  "update_micro_price h price ts g =
     g\<lparr>price_collar_of := update_price h price ts (price_collar_of g)\<rparr>"

record gatekeeper_stats =
  gs_total_validated :: u64
  gs_total_approved :: u64
  gs_total_rejected :: u64
  gs_price_violations :: u64
  gs_position_violations :: u64
  gs_margin_violations :: u64
  gs_market_order_rejections :: u64
  gs_kill_switch_blocks :: u64

definition gatekeeper_stats_of :: "gatekeeper \<Rightarrow> gatekeeper_stats" where
  "gatekeeper_stats_of g =
     \<lparr>gs_total_validated = total_validated g, gs_total_approved = total_approved g,
      gs_total_rejected = gk_total_rejected g, gs_price_violations = price_violations g,
      gs_position_violations = position_violations g, gs_margin_violations = margin_violations g,
      gs_market_order_rejections = market_order_rejections g,
      gs_kill_switch_blocks = kill_switch_blocks g\<rparr>"

definition gk_get_position :: "u64 \<Rightarrow> gatekeeper \<Rightarrow> i64" where
  "gk_get_position h g = get_position h (accumulator g)"

section \<open>Runs\<close>

datatype gatekeeper_event =
    GValidate risk_order
  | GFill u64 u64 bool
  | GCancel u64 u64 bool
  | GKill
  | GRevive
  | GPrice u64 u64 u64

fun gatekeeper_step :: "gatekeeper_event \<Rightarrow> gatekeeper \<Rightarrow> gatekeeper" where
  "gatekeeper_step (GValidate o') g = snd (validate o' g)"
| "gatekeeper_step (GFill h q b) g = record_fill h q b g"
| "gatekeeper_step (GCancel h q b) g = record_cancel h q b g"
| "gatekeeper_step GKill g = activate_kill_switch g"
| "gatekeeper_step GRevive g = deactivate_kill_switch g"
| "gatekeeper_step (GPrice h p ts) g = update_micro_price h p ts g"

text \<open>The tokens handed out in a run, in order.\<close>

fun approvals :: "gatekeeper_event list \<Rightarrow> gatekeeper \<Rightarrow> risk_approved list" where
  "approvals [] g = []"
| "approvals (e # es) g =
     (case e of
        GValidate o' \<Rightarrow>
          (case fst (validate o' g) of
             Inr a \<Rightarrow> a # approvals es (gatekeeper_step e g)
           | Inl _ \<Rightarrow> approvals es (gatekeeper_step e g))
      | _ \<Rightarrow> approvals es (gatekeeper_step e g))"

section \<open>The checks as one condition\<close>

definition price_acceptable :: "risk_order \<Rightarrow> gatekeeper \<Rightarrow> bool" where
  "price_acceptable o' g \<longleftrightarrow>
     (is_limit o' \<and> ro_price o' > 0 \<and> ro_micro_price o' > 0 \<longrightarrow>
        is_within_bounds (ro_price o') (ro_micro_price o') (collar_bps (price_collar_of g)) (is_buy o'))"

definition position_acceptable :: "risk_order \<Rightarrow> gatekeeper \<Rightarrow> bool" where
  "position_acceptable o' g \<longleftrightarrow>
     (let new = gk_get_position (symbol_hash o') g + order_delta (ro_quantity o') (is_buy o') in
        in_i64 new \<and> i64_abs new \<le> max_position (accumulator g))"

lemma check_price_ok [simp]:
  "(fst (check_price o' g) = Inr ()) = price_acceptable o' g"
  using collar_validate_iff [of "ro_price o'" "is_buy o'" "ro_micro_price o'" "ro_timestamp_ns o'"
      "price_collar_of g"]
  by (auto simp: check_price_def price_acceptable_def split: prod.splits sum.splits)

lemma check_position_ok [simp]:
  "(fst (check_position o' g) = Inr ()) = position_acceptable o' g"
  using check_position_ok_iff [of "symbol_hash o'" "order_delta (ro_quantity o') (is_buy o')" "accumulator g"]
  by (auto simp: check_position_def position_acceptable_def gk_get_position_def Let_def
      split: prod.splits sum.splits)

lemma collar_validate_bps [frame_simps]:
  "collar_bps (snd (collar_validate p b m ts pc)) = collar_bps pc"
  by (simp add: collar_validate_def Let_def)

lemma check_price_frame [frame_simps]:
  "gk_config (snd (check_price o' g)) = gk_config g"
  "accumulator (snd (check_price o' g)) = accumulator g"
  "kill_switch_active (snd (check_price o' g)) = kill_switch_active g"
  "total_validated (snd (check_price o' g)) = total_validated g"
  "total_approved (snd (check_price o' g)) = total_approved g"
  "sequence_counter (snd (check_price o' g)) = sequence_counter g"
  "collar_bps (price_collar_of (snd (check_price o' g))) = collar_bps (price_collar_of g)"
  "gk_total_rejected (snd (check_price o' g)) =
     gk_total_rejected g + (if price_acceptable o' g then 0 else 1)"
  unfolding check_price_ok [symmetric]
  by (auto simp: check_price_def reject_def split: prod.splits sum.splits)
     (metis collar_validate_bps snd_conv)+

lemma check_position_frame [frame_simps]:
  "gk_config (snd (check_position o' g)) = gk_config g"
  "positions (accumulator (snd (check_position o' g))) = positions (accumulator g)"
  "max_position (accumulator (snd (check_position o' g))) = max_position (accumulator g)"
  "kill_switch_active (snd (check_position o' g)) = kill_switch_active g"
  "total_validated (snd (check_position o' g)) = total_validated g"
  "total_approved (snd (check_position o' g)) = total_approved g"
  "sequence_counter (snd (check_position o' g)) = sequence_counter g"
  "price_collar_of (snd (check_position o' g)) = price_collar_of g"
  "gk_total_rejected (snd (check_position o' g)) =
     gk_total_rejected g + (if position_acceptable o' g then 0 else 1)"
  unfolding check_position_ok [symmetric]
  by (auto simp: check_position_def reject_def split: prod.splits sum.splits)
     (metis check_position_positions snd_conv)+

text \<open>The condition under which an order is approved.\<close>

definition order_passes :: "risk_order \<Rightarrow> gatekeeper \<Rightarrow> bool" where
  "order_passes o' g \<longleftrightarrow>
     \<not> kill_switch_active g \<and> ro_quantity o' \<noteq> 0 \<and>
     (reject_market_orders (gk_config g) \<longrightarrow> is_limit o') \<and>
     price_acceptable o' g \<and> position_acceptable o' g \<and>
     margin_required o' \<le> max_margin_utilization (gk_config g)"

lemma acceptable_frame [frame_simps]:
  "price_acceptable o' (g\<lparr>total_validated := n\<rparr>) = price_acceptable o' g"
  "position_acceptable o' (snd (check_price o' (g\<lparr>total_validated := n\<rparr>))) = position_acceptable o' g"
  "position_acceptable o' (g\<lparr>total_validated := n\<rparr>) = position_acceptable o' g"
  by (simp_all add: price_acceptable_def position_acceptable_def gk_get_position_def frame_simps)

text \<open>An order that passes the first three checks, and the results of the next two.\<close>

lemma validate_late:
  assumes "\<not> kill_switch_active g" "ro_quantity o' \<noteq> 0"
    and "\<not> (reject_market_orders (gk_config g) \<and> \<not> is_limit o')"
  obtains r1 g1 r2 g2 where
    "validate o' g =
       (case r1 of Inl v \<Rightarrow> (Inl v, g1)
        | Inr _ \<Rightarrow> (case r2 of Inl v \<Rightarrow> (Inl v, g2) | Inr _ \<Rightarrow> check_margin_and_approve o' g2))"
    "r1 = Inr () \<longleftrightarrow> price_acceptable o' g" "r2 = Inr () \<longleftrightarrow> position_acceptable o' g"
    "total_approved g1 = total_approved g" "sequence_counter g1 = sequence_counter g"
    "gk_total_rejected g1 = gk_total_rejected g + (if price_acceptable o' g then 0 else 1)"
    "total_approved g2 = total_approved g1" "sequence_counter g2 = sequence_counter g1"
    "gk_total_rejected g2 = gk_total_rejected g1 + (if position_acceptable o' g then 0 else 1)"
    "gk_config g2 = gk_config g"
proof -
  let ?g = "g\<lparr>total_validated := total_validated g + 1\<rparr>"
  obtain r1 g1 where p: "check_price o' ?g = (r1, g1)" by fastforce
  obtain r2 g2 where q: "check_position o' g1 = (r2, g2)" by fastforce
  have g1: "g1 = snd (check_price o' ?g)" using p by simp
  have g2: "g2 = snd (check_position o' g1)" using q by simp
  have pos: "position_acceptable o' g1 = position_acceptable o' g" by (simp add: g1 frame_simps)
  have g: "kill_switch_active ?g = kill_switch_active g" "gk_config ?g = gk_config g" by simp_all
  show thesis
  proof (rule that)
    show "validate o' g = (case r1 of Inl v \<Rightarrow> (Inl v, g1)
        | Inr _ \<Rightarrow> (case r2 of Inl v \<Rightarrow> (Inl v, g2) | Inr _ \<Rightarrow> check_margin_and_approve o' g2))"
      using assms unfolding validate_def Let_def g p q prod.case by (cases r1) auto
    show "r1 = Inr () \<longleftrightarrow> price_acceptable o' g"
      using check_price_ok [of o' ?g] p by (simp add: frame_simps)
    show "r2 = Inr () \<longleftrightarrow> position_acceptable o' g"
      using check_position_ok [of o' g1] q pos by simp
  qed (simp_all add: g1 g2 frame_simps)
qed

lemma validate_passes:
  assumes "order_passes o' g"
  shows "fst (validate o' g) =
           Inr \<lparr>ra_sequence = sequence_counter g, ra_timestamp_ns = ro_timestamp_ns o'\<rparr> \<and>
         total_approved (snd (validate o' g)) = total_approved g + 1 \<and>
         sequence_counter (snd (validate o' g)) = sequence_counter g + 1 \<and>
         gk_total_rejected (snd (validate o' g)) = gk_total_rejected g"
proof -
  have "\<not> kill_switch_active g" "ro_quantity o' \<noteq> 0"
    "\<not> (reject_market_orders (gk_config g) \<and> \<not> is_limit o')"
    using assms by (auto simp: order_passes_def)
  then show ?thesis
    by (rule validate_late)
      (use assms in \<open>simp add: order_passes_def check_margin_and_approve_def not_less\<close>)
qed

lemma validate_fails:
  assumes "\<not> order_passes o' g"
  shows "(\<exists>v. fst (validate o' g) = Inl v) \<and>
         total_approved (snd (validate o' g)) = total_approved g \<and>
         sequence_counter (snd (validate o' g)) = sequence_counter g \<and>
         gk_total_rejected (snd (validate o' g)) = gk_total_rejected g + 1"
proof (cases "kill_switch_active g \<or> ro_quantity o' = 0 \<or>
    (reject_market_orders (gk_config g) \<and> \<not> is_limit o')")
  case True
  then show ?thesis by (auto simp: validate_def reject_def Let_def)
next
  case False
  then have early: "\<not> kill_switch_active g" "ro_quantity o' \<noteq> 0"
    "\<not> (reject_market_orders (gk_config g) \<and> \<not> is_limit o')" by auto
  obtain r1 g1 r2 g2 where
    v: "validate o' g = (case r1 of Inl v \<Rightarrow> (Inl v, g1)
        | Inr _ \<Rightarrow> (case r2 of Inl v \<Rightarrow> (Inl v, g2) | Inr _ \<Rightarrow> check_margin_and_approve o' g2))"
    and r: "r1 = Inr () \<longleftrightarrow> price_acceptable o' g" "r2 = Inr () \<longleftrightarrow> position_acceptable o' g"
    and g1: "total_approved g1 = total_approved g" "sequence_counter g1 = sequence_counter g"
      "gk_total_rejected g1 = gk_total_rejected g + (if price_acceptable o' g then 0 else 1)"
    and g2: "total_approved g2 = total_approved g1" "sequence_counter g2 = sequence_counter g1"
      "gk_total_rejected g2 = gk_total_rejected g1 + (if position_acceptable o' g then 0 else 1)"
      "gk_config g2 = gk_config g"
    by (rule validate_late [OF early])
  have margin: "price_acceptable o' g \<Longrightarrow> position_acceptable o' g \<Longrightarrow>
      max_margin_utilization (gk_config g) < margin_required o'"
    using assms early by (auto simp: order_passes_def not_less [symmetric])
  consider "\<not> price_acceptable o' g" | "price_acceptable o' g" "\<not> position_acceptable o' g"
    | "price_acceptable o' g" "position_acceptable o' g" by blast
  then show ?thesis
  proof cases
    case 1
    then obtain v where "r1 = Inl v" using r(1) by (cases r1) auto
    then show ?thesis using v g1 1 by simp
  next
    case 2
    then obtain v where "r1 = Inr ()" "r2 = Inl v" using r by (cases r2) auto
    then show ?thesis using v g1 g2 2 by simp
  next
    case 3
    then show ?thesis
      using v r g1 g2 margin by (simp add: check_margin_and_approve_def reject_def)
  qed
qed

text \<open>What validation leaves alone.\<close>

lemma validate_frame [frame_simps]:
  "kill_switch_active (snd (validate o' g)) = kill_switch_active g"
  "gk_config (snd (validate o' g)) = gk_config g"
  "positions (accumulator (snd (validate o' g))) = positions (accumulator g)"
  "max_position (accumulator (snd (validate o' g))) = max_position (accumulator g)"
  "collar_bps (price_collar_of (snd (validate o' g))) = collar_bps (price_collar_of g)"
  "total_validated (snd (validate o' g)) = total_validated g + 1"
  by (auto simp: validate_def check_margin_and_approve_def reject_def Let_def case_prod_beta
      frame_simps split: sum.splits)

section \<open>Accounting\<close>

definition gatekeeper_inv :: "gatekeeper \<Rightarrow> bool" where
  "gatekeeper_inv g \<longleftrightarrow>
     total_validated g = total_approved g + gk_total_rejected g \<and>
     sequence_counter g = total_approved g"

lemma gatekeeper_step_inv: "gatekeeper_inv g \<Longrightarrow> gatekeeper_inv (gatekeeper_step e g)"
proof (cases e)
  case (GValidate o')
  assume "gatekeeper_inv g"
  then show ?thesis
    using validate_passes [of o' g] validate_fails [of o' g]
    by (cases "order_passes o' g") (simp_all add: GValidate gatekeeper_inv_def frame_simps)
qed (simp_all add: gatekeeper_inv_def record_fill_def record_cancel_def activate_kill_switch_def
    deactivate_kill_switch_def update_micro_price_def)

interpretation gatekeeper_run: invariant_machine gatekeeper_step gatekeeper_inv
  by unfold_locales (rule gatekeeper_step_inv)

lemma approvals_numbered:
  "map ra_sequence (approvals es g) =
     map (\<lambda>i. sequence_counter g + of_nat i) [0..<length (approvals es g)] \<and>
   sequence_counter (fold gatekeeper_step es g) =
     sequence_counter g + of_nat (length (approvals es g))"
proof (induction es arbitrary: g)
  case Nil
  then show ?case by simp
next
  case (Cons e es)
  let ?g = "gatekeeper_step e g"
  show ?case
  proof (cases "\<exists>o'. e = GValidate o' \<and> order_passes o' g")
    case True
    then obtain o' where e: "e = GValidate o'" "order_passes o' g" by blast
    have ap: "approvals (e # es) g =
        \<lparr>ra_sequence = sequence_counter g, ra_timestamp_ns = ro_timestamp_ns o'\<rparr> # approvals es ?g"
      using e validate_passes by simp
    have seq: "sequence_counter ?g = sequence_counter g + 1" using e validate_passes by simp
    show ?thesis
      using Cons.IH [of ?g] unfolding ap
      by (simp add: seq upt_conv_Cons map_Suc_upt [symmetric] ac_simps del: upt_Suc)
  next
    case False
    have "approvals (e # es) g = approvals es ?g" "sequence_counter ?g = sequence_counter g"
      using False validate_fails
      by (cases e; fastforce simp: record_fill_def record_cancel_def activate_kill_switch_def
          deactivate_kill_switch_def update_micro_price_def split: sum.splits)+
    then show ?thesis using Cons.IH [of ?g] by simp
  qed
qed

lemma no_approval_when_killed:
  assumes "kill_switch_active g" "GRevive \<notin> set es"
  shows "approvals es g = [] \<and> kill_switch_active (fold gatekeeper_step es g)"
  using assms
proof (induction es arbitrary: g)
  case Nil
  then show ?case by simp
next
  case (Cons e es)
  have "kill_switch_active (gatekeeper_step e g)"
    using Cons.prems by (cases e) (auto simp: frame_simps record_fill_def record_cancel_def
        activate_kill_switch_def update_micro_price_def)
  moreover have "fst (validate o' g) \<noteq> Inr a" for o' a
    using Cons.prems(1) by (simp add: validate_def Let_def)
  ultimately show ?case
    using Cons by (cases e) (auto split: sum.splits)
qed

section \<open>Properties\<close>

text \<open>C19. The gatekeeper approves an order exactly when every check passes: the kill switch is off,
  the quantity is not zero, market orders are allowed or the order is a limit order, its price
  lies within the collar around the micro-price, the position it would lead to is within the
  limit, and its margin is within the maximum.  The token carries the next sequence number;
  every other order is refused and counted as rejected.\<close>

theorem gatekeeper_approves_iff:
  "(fst (validate o' g) = Inr a \<longleftrightarrow>
      order_passes o' g \<and>
      a = \<lparr>ra_sequence = sequence_counter g, ra_timestamp_ns = ro_timestamp_ns o'\<rparr>) \<and>
   gs_total_rejected (gatekeeper_stats_of (snd (validate o' g))) =
     gs_total_rejected (gatekeeper_stats_of g) + (if order_passes o' g then 0 else 1)"
  using validate_passes [of o' g] validate_fails [of o' g]
  by (cases "order_passes o' g") (auto simp: gatekeeper_stats_of_def)

text \<open>Over any sequence of validations, fills, cancels, price updates and switches, every
  validation is counted once, as an approval or as a rejection, and the tokens handed out are
  numbered consecutively from zero: no two approvals share a sequence number until 2^64.\<close>

lemma gatekeeper_accounting:
  "let g = fold gatekeeper_step es (new_gatekeeper cfg); tokens = approvals es (new_gatekeeper cfg) in
     gs_total_validated (gatekeeper_stats_of g) =
       gs_total_approved (gatekeeper_stats_of g) + gs_total_rejected (gatekeeper_stats_of g) \<and>
     gs_total_approved (gatekeeper_stats_of g) = of_nat (length tokens) \<and>
     map ra_sequence tokens = map of_nat [0..<length tokens]"
proof -
  let ?g = "fold gatekeeper_step es (new_gatekeeper cfg)"
  have "gatekeeper_inv (new_gatekeeper cfg)"
    by (simp add: gatekeeper_inv_def new_gatekeeper_def)
  then have inv: "gatekeeper_inv ?g" by (rule gatekeeper_run.run_inv)
  have "sequence_counter (new_gatekeeper cfg) = 0" by (simp add: new_gatekeeper_def)
  with inv approvals_numbered [of es "new_gatekeeper cfg"] show ?thesis
    by (simp add: gatekeeper_inv_def gatekeeper_stats_of_def Let_def)
qed

text \<open>Once the kill switch is active nothing gets through: whatever happens next, short of
  deactivating the switch, no order is approved, and the switch stays active.\<close>

lemma kill_switch_blocks_all:
  assumes "GRevive \<notin> set es"
  shows "approvals es (activate_kill_switch g) = [] \<and>
         kill_switch_active (fold gatekeeper_step es (activate_kill_switch g))"
  using no_approval_when_killed [OF _ assms, of "activate_kill_switch g"]
  by (simp add: activate_kill_switch_def)

definition example_risk_order :: "bool \<Rightarrow> u64 \<Rightarrow> risk_order" where
  "example_risk_order buy q =
     \<lparr>ro_order_id = 1, symbol_hash = 42, is_buy = buy, is_limit = True, ro_quantity = q,
      ro_price = 50000000000, ro_micro_price = 50000000000, ro_timestamp_ns = 1000,
      margin_required = 0\<rparr>"

lemma kill_switch_blocks_all_example:
  "approvals [GValidate (example_risk_order True 5), GPrice 42 7 8, GValidate (example_risk_order False 5)]
     (activate_kill_switch (new_gatekeeper default_gatekeeper_config)) = []"
  using kill_switch_blocks_all [of "[GValidate (example_risk_order True 5), GPrice 42 7 8,
      GValidate (example_risk_order False 5)]" "new_gatekeeper default_gatekeeper_config"]
  by simp

text \<open>An approval reserves nothing: an order that is approved is approved again as long as no
  fill is recorded, so two orders that each fit the limit are both approved and both fill, and
  the position ends above the maximum.\<close>

lemma approvals_are_not_reserved:
  assumes "fst (validate o' g) = Inr a" "is_buy o'"
    and "0 < sint (ro_quantity o')" "0 \<le> gk_get_position (symbol_hash o') g"
    and "max_position (accumulator g) < gk_get_position (symbol_hash o') g + 2 * sint (ro_quantity o')"
    and "gk_get_position (symbol_hash o') g + 2 * sint (ro_quantity o') \<le> i64_max"
  shows "(\<exists>b. fst (validate o' (snd (validate o' g))) = Inr b) \<and>
         (let g2 = snd (validate o' (snd (validate o' g)));
              g3 = record_fill (symbol_hash o') (ro_quantity o') True
                     (record_fill (symbol_hash o') (ro_quantity o') True g2)
          in max_position (accumulator g3) < gk_get_position (symbol_hash o') g3)"
proof
  have "order_passes o' g" using assms(1) validate_fails [of o' g] by fastforce
  then have "order_passes o' (snd (validate o' g))"
    by (simp add: order_passes_def price_acceptable_def position_acceptable_def
        gk_get_position_def get_position_def frame_simps)
  then show "\<exists>b. fst (validate o' (snd (validate o' g))) = Inr b"
    using validate_passes by blast
  let ?p = "gk_get_position (symbol_hash o') g" and ?q = "sint (ro_quantity o')"
  have "s64 (s64 (?p + ?q) + ?q) = ?p + 2 * ?q"
    using assms(3-6) by (simp add: s64_id in_i64_def)
  then show "let g2 = snd (validate o' (snd (validate o' g)));
          g3 = record_fill (symbol_hash o') (ro_quantity o') True
                 (record_fill (symbol_hash o') (ro_quantity o') True g2)
      in max_position (accumulator g3) < gk_get_position (symbol_hash o') g3"
    using assms(5)
    by (simp add: Let_def record_fill_def update_position_def order_delta_def gk_get_position_def
        get_position_def frame_simps)
qed

lemma example_order_passes: "order_passes (example_risk_order True 6000000000) (new_gatekeeper default_gatekeeper_config)"
  by (simp add: order_passes_def example_risk_order_def new_gatekeeper_def default_gatekeeper_config_def
      price_acceptable_def position_acceptable_def gk_get_position_def get_position_def
      new_accumulator_def new_price_collar_def order_delta_def i64_abs_def in_i64_def s64_def
      is_within_bounds_def upper_bound_def saturating_add_ge)

lemma approvals_are_not_reserved_example:
  "\<exists>b. fst (validate (example_risk_order True 6000000000)
     (snd (validate (example_risk_order True 6000000000) (new_gatekeeper default_gatekeeper_config)))) = Inr b"
  using approvals_are_not_reserved [OF conjunct1 [OF validate_passes [OF example_order_passes]]]
  by (simp add: example_risk_order_def gk_get_position_def get_position_def new_gatekeeper_def
      new_accumulator_def default_gatekeeper_config_def)

text \<open>A buy of more than 2^63 - 1 units is taken for a sell: the quantity is cast to a signed
  integer, so a buy of 2^64 - 1 units on a flat position passes every position limit of at
  least one unit, and when it fills the recorded position is short by one unit.\<close>

lemma huge_buy_counts_as_sell:
  assumes "ro_quantity o' = - 1" "is_buy o'" "gk_get_position (symbol_hash o') g = 0"
    and "1 \<le> max_position (accumulator g)"
    and "\<not> kill_switch_active g" "is_limit o'" "price_acceptable o' g"
    and "margin_required o' \<le> max_margin_utilization (gk_config g)"
  shows "(\<exists>a. fst (validate o' g) = Inr a) \<and>
         gk_get_position (symbol_hash o') (record_fill (symbol_hash o') (ro_quantity o') True g) = - 1"
proof
  have "position_acceptable o' g"
    using assms(1-4) by (simp add: position_acceptable_def order_delta_def in_i64_def i64_abs_def)
  then have "order_passes o' g" using assms by (simp add: order_passes_def)
  then show "\<exists>a. fst (validate o' g) = Inr a" using validate_passes by blast
  show "gk_get_position (symbol_hash o') (record_fill (symbol_hash o') (ro_quantity o') True g) = - 1"
    using assms(1,3) by (simp add: gk_get_position_def get_position_def record_fill_def
        update_position_def order_delta_def s64_def)
qed

lemma huge_buy_counts_as_sell_example:
  "\<exists>a. fst (validate (example_risk_order True (- 1)) (new_gatekeeper default_gatekeeper_config)) = Inr a"
proof -
  have "price_acceptable (example_risk_order True (- 1)) (new_gatekeeper default_gatekeeper_config)"
    by (simp add: price_acceptable_def example_risk_order_def is_within_bounds_def upper_bound_def
        saturating_add_ge)
  from huge_buy_counts_as_sell [OF _ _ _ _ _ _ this] show ?thesis
    by (simp add: example_risk_order_def gk_get_position_def get_position_def new_gatekeeper_def
        new_accumulator_def default_gatekeeper_config_def)
qed

end
