(* ===== verification/Pre_Trade_Interceptor.thy ===== *)
theory Pre_Trade_Interceptor
  imports Price_Bands Ring_Queue
begin

text \<open>
  The order interceptor of \<open>crates/nexus_risk/src/gatekeeper/pre_trade_interceptor.rs\<close>: the
  synchronous checks between the order management system and the network, the audit queue
  behind them, and the per-symbol counters of open orders (256 slots addressed by an FNV-1a
  hash).  The clock the code reads for its monitoring timestamp is an argument.
\<close>

section \<open>State\<close>

datatype pi_order_type = PiMarket | PiLimit | PiStopMarket | PiStopLimit
datatype pi_side = PiBuy | PiSell

record order_request =
  rq_order_id :: u64
  rq_symbol :: "u8 list"
  rq_side :: pi_side
  rq_type :: pi_order_type
  rq_quantity :: u64
  rq_price :: u64
  rq_timestamp_ns :: u64
  rq_client_order_id :: u64

datatype risk_result =
    Approved
  | SizeExceeded u64 u64
  | OpenOrderLimitExceeded u32 u32
  | FatFingerViolation fat_finger_result
  | DuplicateOrder
  | InvalidZeroQuantity
  | SystemHalted

record pre_trade_config =
  max_order_size :: u64
  max_open_orders_per_symbol :: u32
  fat_finger_collar_bps :: u16
  cfg_stale_price_threshold_ns :: u64
  queue_capacity :: nat

definition default_pre_trade_config :: pre_trade_config where
  "default_pre_trade_config =
     \<lparr>max_order_size = 1000000000, max_open_orders_per_symbol = 100, fat_finger_collar_bps = 200,
      cfg_stale_price_threshold_ns = 100000000, queue_capacity = 4096\<rparr>"

record interceptor =
  pi_config :: pre_trade_config
  order_queue :: "order_request ring_queue"
  fat_finger_of :: fat_finger
  open_orders :: "nat \<Rightarrow> u32"
  total_open_orders :: u32
  approved_count :: u64
  rejected_count :: u64
  halted :: bool
  last_validation_ns :: u64

definition new_interceptor :: "pre_trade_config \<Rightarrow> panic + interceptor" where
  "new_interceptor cfg =
     map_sum id (\<lambda>q.
       \<lparr>pi_config = cfg, order_queue = q,
        fat_finger_of = new_fat_finger (fat_finger_collar_bps cfg) (cfg_stale_price_threshold_ns cfg),
        open_orders = \<lambda>_. 0, total_open_orders = 0, approved_count = 0, rejected_count = 0,
        halted = False, last_validation_ns = 0\<rparr>) (new_ring_queue (queue_capacity cfg))"

section \<open>Symbols\<close>

definition FNV_PRIME :: u64 where "FNV_PRIME = 1099511628211"
definition FNV_OFFSET :: u64 where "FNV_OFFSET = 14695981039346656037"

definition hash_symbol :: "u8 list \<Rightarrow> u8" where
  "hash_symbol name =
     ucast (fold (\<lambda>b h. (h XOR ucast b) * FNV_PRIME) (takeWhile (\<lambda>b. b \<noteq> 0) name) FNV_OFFSET mod 256)"

definition symbol_slot :: "u8 list \<Rightarrow> nat" where
  "symbol_slot name = unat (hash_symbol name)"

section \<open>Validation\<close>

definition count_rejected :: "interceptor \<Rightarrow> interceptor" where
  "count_rejected s = s\<lparr>rejected_count := rejected_count s + 1\<rparr>"

text \<open>The price check of limit and market orders; other orders, and limits at 0, skip it.\<close>

definition check_order_price :: "order_request \<Rightarrow> interceptor \<Rightarrow> fat_finger_result option \<times> interceptor" where
  "check_order_price o' s =
     (if rq_type o' = PiLimit \<and> rq_price o' > 0 then
        (let (r, ff) = validate_limit_price (rq_price o') (rq_side o' = PiBuy) (rq_timestamp_ns o')
                         (fat_finger_of s)
         in (if r = FF_Valid then None else Some r, s\<lparr>fat_finger_of := ff\<rparr>))
      else if rq_type o' = PiMarket then
        (if validate_market_order (rq_timestamp_ns o') (fat_finger_of s) then None
         else Some FF_StaleMidPrice, s)
      else (None, s))"

text \<open>An approved order goes to the audit queue; a full queue is ignored.\<close>

definition enqueue_for_audit :: "nat \<Rightarrow> order_request \<Rightarrow> interceptor \<Rightarrow> interceptor option" where
  "enqueue_for_audit fuel o' s =
     map_option (\<lambda>(_, q). s\<lparr>order_queue := q\<rparr>) (try_enqueue fuel o' (order_queue s))"

definition validate_order ::
  "nat \<Rightarrow> u64 \<Rightarrow> order_request \<Rightarrow> interceptor \<Rightarrow> (risk_result \<times> interceptor) option" where
  "validate_order fuel now o' s =
     (if halted s then Some (SystemHalted, s)
      else if rq_quantity o' = 0 then Some (InvalidZeroQuantity, s)
      else if rq_quantity o' > max_order_size (pi_config s) then
        Some (SizeExceeded (rq_quantity o') (max_order_size (pi_config s)), count_rejected s)
      else
        let current = open_orders s (symbol_slot (rq_symbol o'))
        in if current \<ge> max_open_orders_per_symbol (pi_config s) then
             Some (OpenOrderLimitExceeded current (max_open_orders_per_symbol (pi_config s)),
                   count_rejected s)
           else
             case check_order_price o' s of
               (Some r, s1) \<Rightarrow> Some (FatFingerViolation r, count_rejected s1)
             | (None, s1) \<Rightarrow>
                 map_option
                   (\<lambda>s2. (Approved,
                      s2\<lparr>approved_count := approved_count s2 + 1, last_validation_ns := now\<rparr>))
                   (enqueue_for_audit fuel o' s1))"

section \<open>The other operations\<close>

text \<open>The audit loop: it counts what it takes out and stops at an empty queue.\<close>

fun audit_loop :: "nat \<Rightarrow> order_request ring_queue \<Rightarrow> (nat \<times> order_request ring_queue) option" where
  "audit_loop 0 q = None"
| "audit_loop (Suc fuel) q =
     (case try_dequeue (Suc fuel) (\<lambda>_. True) q of
        None \<Rightarrow> None
      | Some (Inr None, q') \<Rightarrow> Some (0, q')
      | Some (Inr (Some _), q') \<Rightarrow> map_option (\<lambda>(n, q''). (Suc n, q'')) (audit_loop fuel q')
      | Some (Inl _, q') \<Rightarrow> map_option (\<lambda>(n, q''). (Suc n, q'')) (audit_loop fuel q'))"

definition process_queued_orders :: "nat \<Rightarrow> interceptor \<Rightarrow> (nat \<times> interceptor) option" where
  "process_queued_orders fuel s =
     map_option (\<lambda>(n, q). (n, s\<lparr>order_queue := q\<rparr>)) (audit_loop fuel (order_queue s))"

definition increment_open_orders :: "u8 list \<Rightarrow> interceptor \<Rightarrow> interceptor" where
  "increment_open_orders name s =
     s\<lparr>open_orders := (open_orders s)(symbol_slot name := open_orders s (symbol_slot name) + 1),
       total_open_orders := total_open_orders s + 1\<rparr>"

definition decrement_open_orders :: "u8 list \<Rightarrow> interceptor \<Rightarrow> interceptor" where
  "decrement_open_orders name s =
     s\<lparr>open_orders := (open_orders s)(symbol_slot name := open_orders s (symbol_slot name) - 1),
       total_open_orders := total_open_orders s - 1\<rparr>"

definition pi_halt :: "interceptor \<Rightarrow> interceptor" where
  "pi_halt s = s\<lparr>halted := True\<rparr>"

definition pi_resume :: "interceptor \<Rightarrow> interceptor" where
  "pi_resume s = s\<lparr>halted := False\<rparr>"

definition pi_update_mid_price :: "u8 list \<Rightarrow> u64 \<Rightarrow> u64 \<Rightarrow> interceptor \<Rightarrow> interceptor" where
  "pi_update_mid_price name price ts s =
     s\<lparr>fat_finger_of := update_mid_price price ts (fat_finger_of s)\<rparr>"

record interceptor_stats =
  is_approved_count :: u64
  is_rejected_count :: u64
  is_total_open_orders :: u32
  is_queue_length :: u64
  is_dropped_by_queue :: u64
  is_fat_finger_rejections :: u64
  is_is_halted :: bool

definition interceptor_stats_of :: "interceptor \<Rightarrow> interceptor_stats" where
  "interceptor_stats_of s =
     \<lparr>is_approved_count = approved_count s, is_rejected_count = rejected_count s,
      is_total_open_orders = total_open_orders s, is_queue_length = queue_len (order_queue s),
      is_dropped_by_queue = dropped_count (order_queue s),
      is_fat_finger_rejections = ff_rejection_count (fat_finger_of s), is_is_halted = halted s\<rparr>"

section \<open>When an order is approved\<close>

definition price_checked :: "order_request \<Rightarrow> interceptor \<Rightarrow> bool" where
  "price_checked o' s \<longleftrightarrow>
     (rq_type o' = PiLimit \<and> rq_price o' > 0 \<longrightarrow>
        validate_market_order (rq_timestamp_ns o') (fat_finger_of s) \<and>
        is_within_bounds (rq_price o') (mid_price (fat_finger_of s)) (ff_collar_bps (fat_finger_of s))
          (rq_side o' = PiBuy)) \<and>
     (rq_type o' = PiMarket \<longrightarrow> validate_market_order (rq_timestamp_ns o') (fat_finger_of s))"

definition order_admitted :: "order_request \<Rightarrow> interceptor \<Rightarrow> bool" where
  "order_admitted o' s \<longleftrightarrow>
     \<not> halted s \<and> rq_quantity o' \<noteq> 0 \<and> rq_quantity o' \<le> max_order_size (pi_config s) \<and>
     open_orders s (symbol_slot (rq_symbol o')) < max_open_orders_per_symbol (pi_config s) \<and>
     price_checked o' s"

lemma validate_limit_price_valid_state:
  "fst (validate_limit_price p b now ff) = FF_Valid \<Longrightarrow> snd (validate_limit_price p b now ff) = ff"
  by (auto simp: validate_limit_price_def Let_def split: if_splits)

lemma check_order_price_iff: "(fst (check_order_price o' s) = None) = price_checked o' s"
  using validate_limit_price_iff [of "rq_price o'" "rq_side o' = PiBuy" "rq_timestamp_ns o'" "fat_finger_of s"]
  by (cases "rq_type o'") (auto simp: check_order_price_def price_checked_def case_prod_beta Let_def)

lemma check_order_price_state: "price_checked o' s \<Longrightarrow> snd (check_order_price o' s) = s"
  using check_order_price_iff [of o' s] validate_limit_price_valid_state
  by (auto simp: check_order_price_def case_prod_beta Let_def split: if_splits)

text \<open>The queue takes the order or is full; in neither case does the call spin.\<close>

lemma enqueue_for_audit_total:
  assumes "ring_inv (order_queue s)" "ring_fresh (order_queue s)"
  obtains q where "enqueue_for_audit (Suc n) o' s = Some (s\<lparr>order_queue := q\<rparr>)" "ring_inv q"
    "unat (head q) \<le> unat (head (order_queue s)) + 1"
    "ring_contents q = (if length (ring_contents (order_queue s)) = capacity (order_queue s)
       then ring_contents (order_queue s) else ring_contents (order_queue s) @ [o'])"
proof (cases "length (ring_contents (order_queue s)) = capacity (order_queue s)")
  case True
  then show thesis
    using that [of "order_queue s"] try_enqueue_full [OF assms(1) True, of n o'] assms(1)
    by (simp add: enqueue_for_audit_def)
next
  case False
  obtain q where q: "try_enqueue (Suc n) o' (order_queue s) = Some (Inr (), q)" "ring_inv q"
    "ring_contents q = ring_contents (order_queue s) @ [o']" "head q = head (order_queue s) + 1"
    by (rule try_enqueue_room [OF assms False])
  have "unat (head q) \<le> unat (head (order_queue s)) + 1"
    using assms(2) unat_inc [of "head (order_queue s)"] q(4) by (simp add: ring_fresh_def)
  then show thesis by (rule that [of q, rotated 2]) (simp_all add: enqueue_for_audit_def q False)
qed

lemma audit_loop_drains:
  assumes "ring_inv q" "length (ring_contents q) < n"
  shows "\<exists>q'. audit_loop n q = Some (length (ring_contents q), q') \<and> ring_contents q' = []"
  using assms
proof (induction n arbitrary: q)
  case 0
  then show ?case by simp
next
  case (Suc n)
  show ?case
  proof (cases "ring_contents q")
    case Nil
    then show ?thesis using try_dequeue_empty [OF Suc.prems(1) Nil] by simp
  next
    case (Cons x xs)
    obtain q1 where q1: "try_dequeue (Suc n) (\<lambda>_. True) q = Some (Inr (Some x), q1)" "ring_inv q1"
      "ring_contents q1 = xs"
      by (rule try_dequeue_item [OF Suc.prems(1) Cons, of n "\<lambda>_. True"]) simp
    then obtain q2 where "audit_loop n q1 = Some (length xs, q2)" "ring_contents q2 = []"
      using Suc.IH [OF q1(2)] Suc.prems(2) Cons by auto
    then show ?thesis using q1 Cons by simp
  qed
qed

lemma check_order_price_frame [frame_simps]:
  "order_queue (snd (check_order_price o' s)) = order_queue s"
  "approved_count (snd (check_order_price o' s)) = approved_count s"
  "rejected_count (snd (check_order_price o' s)) = rejected_count s"
  by (simp_all add: check_order_price_def case_prod_beta Let_def)

lemma validate_order_admitted:
  assumes "ring_inv (order_queue s)" "ring_fresh (order_queue s)" "order_admitted o' s"
  obtains q where "validate_order (Suc n) now o' s =
      Some (Approved, s\<lparr>order_queue := q, approved_count := approved_count s + 1, last_validation_ns := now\<rparr>)"
    "ring_inv q" "unat (head q) \<le> unat (head (order_queue s)) + 1"
    "ring_contents q = (if length (ring_contents (order_queue s)) = capacity (order_queue s)
       then ring_contents (order_queue s) else ring_contents (order_queue s) @ [o'])"
proof -
  have price: "price_checked o' s" using assms(3) by (simp add: order_admitted_def)
  have "fst (check_order_price o' s) = None" "snd (check_order_price o' s) = s"
    using price check_order_price_iff check_order_price_state by blast+
  then have chk: "check_order_price o' s = (None, s)" by (metis prod.collapse)
  obtain q where q: "enqueue_for_audit (Suc n) o' s = Some (s\<lparr>order_queue := q\<rparr>)" "ring_inv q"
    "unat (head q) \<le> unat (head (order_queue s)) + 1"
    "ring_contents q = (if length (ring_contents (order_queue s)) = capacity (order_queue s)
       then ring_contents (order_queue s) else ring_contents (order_queue s) @ [o'])"
    by (rule enqueue_for_audit_total [OF assms(1,2)])
  show thesis
    by (rule that [OF _ q(2,3,4)])
      (use assms(3) chk q(1) in \<open>simp add: validate_order_def order_admitted_def Let_def not_less
        linorder_not_le\<close>)
qed

lemma validate_order_refused:
  assumes "\<not> order_admitted o' s"
  shows "\<exists>r s'. validate_order n now o' s = Some (r, s') \<and> r \<noteq> Approved \<and> r \<noteq> DuplicateOrder \<and>
           order_queue s' = order_queue s \<and> approved_count s' = approved_count s"
proof (cases "price_checked o' s")
  case True
  then show ?thesis
    using assms
    by (auto simp: validate_order_def order_admitted_def count_rejected_def Let_def not_less not_le)
next
  case False
  then obtain r s1 where chk: "check_order_price o' s = (Some r, s1)"
    using check_order_price_iff [of o' s] by (cases "check_order_price o' s") auto
  then have "order_queue s1 = order_queue s" "approved_count s1 = approved_count s"
    using check_order_price_frame [of o' s] by simp_all
  then show ?thesis
    using chk by (auto simp: validate_order_def count_rejected_def Let_def)
qed

section \<open>Properties\<close>

text \<open>The interceptor decides every order without spinning.  It approves exactly the orders
  that meet all conditions: not halted, a positive quantity within the size limit, fewer open
  orders in the symbol's slot than allowed, and, for limit orders with a price and for market
  orders, a fresh reference price and a price within the collar.  An approved order is counted
  and queued for audit unless the queue is full; a refused one leaves queue and count alone.\<close>

lemma interceptor_approves_iff:
  assumes "ring_inv (order_queue s)" "ring_fresh (order_queue s)"
  shows "\<exists>r s'. validate_order 1 now o' s = Some (r, s') \<and> (r = Approved \<longleftrightarrow> order_admitted o' s) \<and>
           is_approved_count (interceptor_stats_of s') =
             is_approved_count (interceptor_stats_of s) + (if order_admitted o' s then 1 else 0) \<and>
           ring_contents (order_queue s') =
             (if order_admitted o' s \<and>
                 length (ring_contents (order_queue s)) \<noteq> capacity (order_queue s)
              then ring_contents (order_queue s) @ [o'] else ring_contents (order_queue s))"
proof (cases "order_admitted o' s")
  case True
  show ?thesis
    by (rule validate_order_admitted [OF assms True, of 0 now])
      (simp add: interceptor_stats_of_def True)
next
  case False
  then show ?thesis
    using validate_order_refused [OF False, of 1 now] by (auto simp: interceptor_stats_of_def)
qed

definition example_interceptor :: interceptor where
  "example_interceptor =
     (case new_interceptor default_pre_trade_config of
        Inr s \<Rightarrow> pi_update_mid_price [66, 84, 67] 50000000000 500 s)"

definition example_request :: "u64 \<Rightarrow> u64 \<Rightarrow> order_request" where
  "example_request oid price =
     \<lparr>rq_order_id = oid, rq_symbol = [66, 84, 67], rq_side = PiBuy, rq_type = PiLimit,
      rq_quantity = 1000000, rq_price = price, rq_timestamp_ns = 1000, rq_client_order_id = oid\<rparr>"

lemma example_interceptor_queue:
  "ring_inv (order_queue example_interceptor)" "ring_fresh (order_queue example_interceptor)"
  "ring_contents (order_queue example_interceptor) = []"
  and example_interceptor_head: "unat (head (order_queue example_interceptor)) + 2 < 2 ^ 64"
proof -
  obtain q where q: "new_ring_queue 4096 = Inr (q :: order_request ring_queue)"
    by (simp add: new_ring_queue_def Let_def)
  have "order_queue example_interceptor = q"
    using q by (simp add: example_interceptor_def new_interceptor_def default_pre_trade_config_def
        pi_update_mid_price_def)
  then show "ring_inv (order_queue example_interceptor)" "ring_fresh (order_queue example_interceptor)"
    "ring_contents (order_queue example_interceptor) = []"
    "unat (head (order_queue example_interceptor)) + 2 < 2 ^ 64"
    using new_ring_queue_inv [OF q] by (simp_all add: ring_fresh_def)
qed

lemma example_request_admitted: "order_admitted (example_request oid 50000000000) example_interceptor"
proof -
  obtain q where q: "new_ring_queue 4096 = Inr (q :: order_request ring_queue)"
    by (simp add: new_ring_queue_def Let_def)
  have "is_within_bounds 50000000000 50000000000 200 True"
    by (simp add: is_within_bounds_def upper_bound_def saturating_add_ge)
  then show ?thesis
    using q by (simp add: order_admitted_def price_checked_def example_request_def
        example_interceptor_def new_interceptor_def default_pre_trade_config_def pi_update_mid_price_def
        update_mid_price_def new_fat_finger_def validate_market_order_def saturating_sub_def)
qed

lemma interceptor_approves_iff_example:
  "\<exists>s'. validate_order 1 7 (example_request 1 50000000000) example_interceptor = Some (Approved, s')"
  using interceptor_approves_iff [OF example_interceptor_queue(1,2), of 7 "example_request 1 50000000000"]
  by (auto simp: example_request_admitted)

text \<open>The audit loop terminates: given more fuel than there are queued orders, it takes every
  one of them out, returns their number and leaves the queue empty.\<close>

lemma audit_takes_everything:
  assumes "ring_inv (order_queue s)" "length (ring_contents (order_queue s)) < fuel"
  shows "\<exists>s'. process_queued_orders fuel s = Some (length (ring_contents (order_queue s)), s') \<and>
              ring_contents (order_queue s') = []"
  using audit_loop_drains [OF assms] by (auto simp: process_queued_orders_def)

lemma audit_takes_everything_example:
  "\<exists>s'. process_queued_orders 5 example_interceptor = Some (0, s')"
  using audit_takes_everything [OF example_interceptor_queue(1), of 5] example_interceptor_queue(3)
  by auto

text \<open>Duplicates are not detected and approvals use up no allowance: no order is ever refused
  as a duplicate, and an order that was approved is approved again immediately, with the same
  ids, without end, because validation never counts an open order.\<close>

lemma resubmission_is_approved:
  assumes "ring_inv (order_queue s)" "unat (head (order_queue s)) + 2 < 2 ^ 64"
    and "validate_order 1 now o' s = Some (Approved, s1)"
  shows "(\<exists>s2. validate_order 1 now' o' s1 = Some (Approved, s2)) \<and> open_orders s1 = open_orders s \<and>
         (\<forall>o'' s''. validate_order 1 now o'' s \<noteq> Some (DuplicateOrder, s''))"
proof -
  have fresh: "ring_fresh (order_queue s)" using assms(2) by (simp add: ring_fresh_def)
  have adm: "order_admitted o' s"
    using assms(3) validate_order_refused [of o' s 1 now] by force
  obtain q where v: "validate_order (Suc 0) now o' s =
      Some (Approved, s\<lparr>order_queue := q, approved_count := approved_count s + 1, last_validation_ns := now\<rparr>)"
    "ring_inv q" "unat (head q) \<le> unat (head (order_queue s)) + 1"
    by (rule validate_order_admitted [OF assms(1) fresh adm])
  then have s1: "s1 = s\<lparr>order_queue := q, approved_count := approved_count s + 1, last_validation_ns := now\<rparr>"
    using assms(3) by simp
  then have q1: "ring_inv (order_queue s1)" "ring_fresh (order_queue s1)" "order_admitted o' s1"
    using v adm assms(2) by (simp_all add: ring_fresh_def order_admitted_def price_checked_def)
  obtain q2 where "validate_order (Suc 0) now' o' s1 = Some (Approved, s1\<lparr>order_queue := q2,
      approved_count := approved_count s1 + 1, last_validation_ns := now'\<rparr>)"
    by (rule validate_order_admitted [OF q1])
  moreover have "validate_order 1 now o'' s \<noteq> Some (DuplicateOrder, s'')" for o'' s''
  proof (cases "order_admitted o'' s")
    case True
    obtain q' where "validate_order (Suc 0) now o'' s = Some (Approved, s\<lparr>order_queue := q',
        approved_count := approved_count s + 1, last_validation_ns := now\<rparr>)"
      by (rule validate_order_admitted [OF assms(1) fresh True])
    then show ?thesis by simp
  next
    case False
    then show ?thesis using validate_order_refused [OF False, of 1 now] by auto
  qed
  ultimately show ?thesis using s1 by simp
qed

lemma resubmission_is_approved_example:
  "\<exists>s1 s2. validate_order 1 7 (example_request 1 50000000000) example_interceptor = Some (Approved, s1) \<and>
     validate_order 1 8 (example_request 1 50000000000) s1 = Some (Approved, s2)"
proof -
  obtain q where "validate_order (Suc 0) 7 (example_request 1 50000000000) example_interceptor =
      Some (Approved, example_interceptor\<lparr>order_queue := q,
        approved_count := approved_count example_interceptor + 1, last_validation_ns := 7\<rparr>)"
    by (rule validate_order_admitted [OF example_interceptor_queue(1,2) example_request_admitted])
  then have run: "\<exists>s1. validate_order 1 7 (example_request 1 50000000000) example_interceptor = Some (Approved, s1)"
    by simp
  then show ?thesis
    using resubmission_is_approved [OF example_interceptor_queue(1) example_interceptor_head] by blast
qed

end
