(* ===== verification/Kill_Switch.thy ===== *)
theory Kill_Switch
  imports Interfaces
begin

text \<open>
  The emergency exit of \<open>crates/nexus_risk/src/kill_switch/\<close>: the global halt flag
  (\<open>global_atomic_halt.rs\<close>), the state machine that flattens the portfolio (\<open>flatten_fsm.rs\<close>)
  and the router that cuts a position into slices (\<open>twap_liquidation_router.rs\<close>).
\<close>

section \<open>The global halt flag\<close>

datatype kill_switch_check = Clear | Halted

record kill_switch =
  ks_halted :: bool
  trip_count :: u64
  last_trip_timestamp_ns :: u64
  auto_trip_enabled :: bool

definition new_kill_switch :: kill_switch where
  "new_kill_switch =
     \<lparr>ks_halted = False, trip_count = 0, last_trip_timestamp_ns = 0, auto_trip_enabled = True\<rparr>"

definition ks_check :: "kill_switch \<Rightarrow> kill_switch_check" where
  "ks_check k = (if ks_halted k then Halted else Clear)"

definition ks_trip :: "u64 \<Rightarrow> kill_switch \<Rightarrow> kill_switch" where
  "ks_trip ts k =
     k\<lparr>ks_halted := True, trip_count := trip_count k + 1, last_trip_timestamp_ns := ts\<rparr>"

definition ks_reset :: "kill_switch \<Rightarrow> kill_switch" where
  "ks_reset k = k\<lparr>ks_halted := False\<rparr>"

definition set_auto_trip :: "bool \<Rightarrow> kill_switch \<Rightarrow> kill_switch" where
  "set_auto_trip b k = k\<lparr>auto_trip_enabled := b\<rparr>"

definition has_been_tripped :: "kill_switch \<Rightarrow> bool" where
  "has_been_tripped k \<longleftrightarrow> trip_count k > 0"

section \<open>The flatten state machine\<close>

datatype flatten_state = Trading | CancellingOrders | TWAPLiquidation | FlatAndHalted

fun flatten_code :: "flatten_state \<Rightarrow> u8" where
  "flatten_code Trading = 0"
| "flatten_code CancellingOrders = 1"
| "flatten_code TWAPLiquidation = 2"
| "flatten_code FlatAndHalted = 3"

definition flatten_from_u8 :: "u8 \<Rightarrow> flatten_state option" where
  "flatten_from_u8 v =
     (if v = 0 then Some Trading else if v = 1 then Some CancellingOrders
      else if v = 2 then Some TWAPLiquidation else if v = 3 then Some FlatAndHalted else None)"

datatype flatten_result =
    FlSuccess flatten_state
  | FlRejected flatten_state flatten_state

record flatten_config =
  fl_max_slippage_bps :: u16
  fl_twap_interval_ms :: u64
  fl_min_order_size :: u64

record flatten_fsm =
  fl_config :: flatten_config
  fl_state :: u8
  fl_is_liquidating :: bool
  initial_position :: u64
  fl_remaining :: u64
  fl_cancelled_orders :: u64
  liquidation_trips :: u64
  fl_total_liquidated :: u64

record flatten_stats =
  fs_current_state :: flatten_state
  fs_positions_remaining :: i64
  fs_total_liquidated :: u64
  fs_cancelled_orders :: u64
  fs_liquidation_trips :: u64

definition default_flatten_config :: flatten_config where
  "default_flatten_config =
     \<lparr>fl_max_slippage_bps = 500, fl_twap_interval_ms = 1000, fl_min_order_size = 10000\<rparr>"

definition new_flatten_fsm :: "flatten_config \<Rightarrow> flatten_fsm" where
  "new_flatten_fsm cfg =
     \<lparr>fl_config = cfg, fl_state = flatten_code Trading, fl_is_liquidating = False,
      initial_position = 0, fl_remaining = 0, fl_cancelled_orders = 0, liquidation_trips = 0,
      fl_total_liquidated = 0\<rparr>"

definition fl_get_state :: "flatten_fsm \<Rightarrow> flatten_state" where
  "fl_get_state f = (case flatten_from_u8 (fl_state f) of Some st \<Rightarrow> st | None \<Rightarrow> FlatAndHalted)"

text \<open>\<open>total_position.unsigned_abs()\<close> is exact, also for \<open>i64::MIN\<close>.\<close>

definition initiate_flatten :: "i64 \<Rightarrow> flatten_fsm \<Rightarrow> flatten_result \<times> flatten_fsm" where
  "initiate_flatten pos f =
     (let current = fl_get_state f
      in if current \<noteq> Trading then (FlRejected current CancellingOrders, f)
         else
           let p = word_of_int \<bar>pos\<bar>
           in (FlSuccess CancellingOrders,
               f\<lparr>initial_position := p, fl_remaining := p,
                 fl_state := flatten_code CancellingOrders, fl_is_liquidating := True,
                 liquidation_trips := liquidation_trips f + 1\<rparr>))"

definition fl_record_cancel :: "flatten_fsm \<Rightarrow> flatten_fsm" where
  "fl_record_cancel f = f\<lparr>fl_cancelled_orders := fl_cancelled_orders f + 1\<rparr>"

definition begin_twap_liquidation :: "flatten_fsm \<Rightarrow> flatten_result \<times> flatten_fsm" where
  "begin_twap_liquidation f =
     (let current = fl_get_state f
      in if current \<noteq> CancellingOrders then (FlRejected current TWAPLiquidation, f)
         else (FlSuccess TWAPLiquidation, f\<lparr>fl_state := flatten_code TWAPLiquidation\<rparr>))"

definition record_liquidation_fill :: "u64 \<Rightarrow> flatten_fsm \<Rightarrow> flatten_fsm" where
  "record_liquidation_fill q f =
     f\<lparr>fl_remaining := checked_sub_or_keep (fl_remaining f) q,
       fl_total_liquidated := fl_total_liquidated f + q\<rparr>"

definition check_liquidation_complete :: "flatten_fsm \<Rightarrow> flatten_result \<times> flatten_fsm" where
  "check_liquidation_complete f =
     (let current = fl_get_state f
      in if current \<noteq> TWAPLiquidation then (FlRejected current FlatAndHalted, f)
         else if fl_remaining f = 0 then
           (FlSuccess FlatAndHalted,
            f\<lparr>fl_state := flatten_code FlatAndHalted, fl_is_liquidating := False\<rparr>)
         else (FlRejected current FlatAndHalted, f))"

definition fl_reset :: "flatten_fsm \<Rightarrow> flatten_fsm" where
  "fl_reset f =
     f\<lparr>fl_state := flatten_code Trading, fl_is_liquidating := False, initial_position := 0,
       fl_remaining := 0\<rparr>"

definition flatten_stats_of :: "flatten_fsm \<Rightarrow> flatten_stats" where
  "flatten_stats_of f =
     \<lparr>fs_current_state = fl_get_state f, fs_positions_remaining = sint (fl_remaining f),
      fs_total_liquidated = fl_total_liquidated f, fs_cancelled_orders = fl_cancelled_orders f,
      fs_liquidation_trips = liquidation_trips f\<rparr>"

text \<open>The operations as one machine.\<close>

datatype flatten_event =
    FInitiate i64 | FCancel | FBeginTwap | FFill u64 | FCheck | FReset

fun flatten_step :: "flatten_event \<Rightarrow> flatten_fsm \<Rightarrow> flatten_fsm" where
  "flatten_step (FInitiate p) f = snd (initiate_flatten p f)"
| "flatten_step FCancel f = fl_record_cancel f"
| "flatten_step FBeginTwap f = snd (begin_twap_liquidation f)"
| "flatten_step (FFill q) f = record_liquidation_fill q f"
| "flatten_step FCheck f = snd (check_liquidation_complete f)"
| "flatten_step FReset f = fl_reset f"

section \<open>The TWAP router\<close>

record twap_slice =
  ts_quantity :: u64
  ts_limit_price :: u64
  ts_is_buy :: bool

record twap_config =
  num_slices :: u64
  interval_ms :: u64
  tw_max_slippage_bps :: u16
  tw_min_order_size :: u64

definition default_twap_config :: twap_config where
  "default_twap_config =
     \<lparr>num_slices = 10, interval_ms = 1000, tw_max_slippage_bps = 500, tw_min_order_size = 10000\<rparr>"

record twap_router =
  tw_config :: twap_config
  total_position :: u64
  remaining_position :: u64
  current_slice :: u64
  reference_price :: u64
  is_long :: bool
  slices_executed :: u64
  tw_total_liquidated :: u64

record twap_stats =
  tws_total_position :: u64
  tws_remaining_position :: u64
  tws_slices_executed :: u64
  tws_total_liquidated :: u64
  tws_reference_price :: u64
  tws_is_complete :: bool

definition new_twap_router :: "twap_config \<Rightarrow> twap_router" where
  "new_twap_router cfg =
     \<lparr>tw_config = cfg, total_position = 0, remaining_position = 0, current_slice = 0,
      reference_price = 0, is_long = True, slices_executed = 0, tw_total_liquidated = 0\<rparr>"

definition twap_initialize :: "u64 \<Rightarrow> bool \<Rightarrow> u64 \<Rightarrow> twap_router \<Rightarrow> twap_router" where
  "twap_initialize position long ref_price r =
     r\<lparr>total_position := position, remaining_position := position, current_slice := 0,
       reference_price := ref_price, is_long := long\<rparr>"

definition twap_limit_price :: "twap_router \<Rightarrow> u64" where
  "twap_limit_price r =
     (let slippage = bps_of (reference_price r) (tw_max_slippage_bps (tw_config r))
      in if is_long r then saturating_sub (reference_price r) slippage
         else saturating_add (reference_price r) slippage)"

text \<open>The size of the next slice; \<open>num_slices - 1\<close> wraps, the division panics on 0.\<close>

definition slice_quantity :: "twap_router \<Rightarrow> panic + u64" where
  "slice_quantity r =
     (let n = num_slices (tw_config r); remaining = remaining_position r;
          mn = tw_min_order_size (tw_config r);
          pick = (\<lambda>slice_size. if slice_size < mn \<and> remaining \<ge> mn then mn else min slice_size remaining)
      in if current_slice r \<ge> n - 1 then Inr (pick remaining)
         else if n = 0 then Inl DivideByZero
         else Inr (pick (total_position r div n)))"

definition next_slice :: "twap_router \<Rightarrow> panic + twap_slice option" where
  "next_slice r =
     (if remaining_position r = 0 then Inr None
      else
        map_sum id
          (\<lambda>q. if q = 0 then None
               else Some \<lparr>ts_quantity = q, ts_limit_price = twap_limit_price r,
                          ts_is_buy = \<not> is_long r\<rparr>)
          (slice_quantity r))"

definition mark_slice_executed :: "u64 \<Rightarrow> twap_router \<Rightarrow> twap_router" where
  "mark_slice_executed filled r =
     r\<lparr>current_slice := current_slice r + 1, slices_executed := slices_executed r + 1,
       remaining_position := checked_sub_or_keep (remaining_position r) filled,
       tw_total_liquidated := tw_total_liquidated r + filled\<rparr>"

definition update_reference_price :: "u64 \<Rightarrow> twap_router \<Rightarrow> twap_router" where
  "update_reference_price p r = r\<lparr>reference_price := p\<rparr>"

definition twap_is_complete :: "twap_router \<Rightarrow> bool" where
  "twap_is_complete r \<longleftrightarrow> remaining_position r = 0"

definition twap_reset :: "twap_router \<Rightarrow> twap_router" where
  "twap_reset r =
     r\<lparr>total_position := 0, remaining_position := 0, current_slice := 0, reference_price := 0,
       slices_executed := 0, tw_total_liquidated := 0\<rparr>"

definition twap_stats_of :: "twap_router \<Rightarrow> twap_stats" where
  "twap_stats_of r =
     \<lparr>tws_total_position = total_position r, tws_remaining_position = remaining_position r,
      tws_slices_executed = slices_executed r, tws_total_liquidated = tw_total_liquidated r,
      tws_reference_price = reference_price r, tws_is_complete = twap_is_complete r\<rparr>"

text \<open>A driver that executes every slice in full until there is none.\<close>

fun twap_drive :: "nat \<Rightarrow> twap_router \<Rightarrow> panic + twap_router" where
  "twap_drive 0 r = Inr r"
| "twap_drive (Suc n) r =
     (case next_slice r of
        Inl p \<Rightarrow> Inl p
      | Inr None \<Rightarrow> Inr r
      | Inr (Some s) \<Rightarrow> twap_drive n (mark_slice_executed (ts_quantity s) r))"

section \<open>Lemmas on the flatten machine\<close>

lemma flatten_from_code [simp]: "flatten_from_u8 (flatten_code st) = Some st"
  by (cases st) (simp_all add: flatten_from_u8_def)

lemma flatten_from_u8_codes [simp]:
  "flatten_from_u8 0 = Some Trading" "flatten_from_u8 1 = Some CancellingOrders"
  "flatten_from_u8 2 = Some TWAPLiquidation" "flatten_from_u8 3 = Some FlatAndHalted"
  by (simp_all add: flatten_from_u8_def)

lemma fl_get_state_code [simp]: "fl_state f = flatten_code st \<Longrightarrow> fl_get_state f = st"
  by (simp add: fl_get_state_def)

definition flatten_inv :: "flatten_fsm \<Rightarrow> bool" where
  "flatten_inv f \<longleftrightarrow>
     fl_state f = flatten_code (fl_get_state f) \<and>
     (fl_is_liquidating f \<longleftrightarrow> fl_get_state f = CancellingOrders \<or> fl_get_state f = TWAPLiquidation) \<and>
     (fl_get_state f = FlatAndHalted \<longrightarrow> fl_remaining f = 0) \<and>
     unat (fl_remaining f) \<le> unat (initial_position f)"

lemma flatten_inv_new: "flatten_inv (new_flatten_fsm cfg)"
  by (simp add: flatten_inv_def new_flatten_fsm_def fl_get_state_def flatten_from_u8_def)

lemma flatten_step_inv: "flatten_inv f \<Longrightarrow> flatten_inv (flatten_step e f)"
proof (cases e)
  case (FFill q)
  assume inv: "flatten_inv f"
  have "unat (checked_sub_or_keep (fl_remaining f) q) \<le> unat (fl_remaining f)"
    by (simp add: unat_checked_sub_or_keep)
  moreover have "fl_remaining f = 0 \<Longrightarrow> checked_sub_or_keep (fl_remaining f) q = 0"
    by (auto simp: checked_sub_or_keep_def)
  ultimately show ?thesis
    using inv by (auto simp: FFill flatten_inv_def record_liquidation_fill_def fl_get_state_def)
qed (auto simp: flatten_inv_def initiate_flatten_def fl_record_cancel_def fl_get_state_def
    begin_twap_liquidation_def check_liquidation_complete_def fl_reset_def Let_def
    flatten_from_u8_def split: if_splits)

interpretation flatten_run: invariant_machine flatten_step flatten_inv
  by unfold_locales (rule flatten_step_inv)

text \<open>The order in which the states follow each other.\<close>

fun follows :: "flatten_state \<Rightarrow> flatten_state \<Rightarrow> bool" where
  "follows Trading t = (t = CancellingOrders)"
| "follows CancellingOrders t = (t = TWAPLiquidation)"
| "follows TWAPLiquidation t = (t = FlatAndHalted)"
| "follows FlatAndHalted t = False"

lemma flatten_step_follows:
  "fl_get_state (flatten_step e f) = fl_get_state f \<or>
   follows (fl_get_state f) (fl_get_state (flatten_step e f)) \<or>
   e = FReset \<and> fl_get_state (flatten_step e f) = Trading"
  by (cases e) (auto simp: initiate_flatten_def fl_record_cancel_def begin_twap_liquidation_def
      record_liquidation_fill_def check_liquidation_complete_def fl_reset_def Let_def
      fl_get_state_def)

text \<open>Fills that each fit what remains.\<close>

lemma fills_reduce_remaining:
  assumes "sum_list (map unat qs) \<le> unat (fl_remaining f)"
  shows "unat (fl_remaining (fold record_liquidation_fill qs f)) =
           unat (fl_remaining f) - sum_list (map unat qs)"
  using assms
proof (induction qs arbitrary: f)
  case Nil
  then show ?case by simp
next
  case (Cons q qs)
  have "unat (fl_remaining (record_liquidation_fill q f)) = unat (fl_remaining f) - unat q"
    using Cons.prems by (simp add: record_liquidation_fill_def unat_checked_sub_or_keep)
  then show ?case using Cons.IH [of "record_liquidation_fill q f"] Cons.prems by simp
qed

lemma fills_keep_state:
  "fl_state (fold record_liquidation_fill qs f) = fl_state f"
  by (induction qs arbitrary: f) (simp_all add: record_liquidation_fill_def)

lemma unat_abs_i64: "in_i64 p \<Longrightarrow> unat (word_of_int \<bar>p\<bar> :: u64) = nat \<bar>p\<bar>"
  by (auto simp: in_i64_def unsigned_of_int take_bit_int_eq_self)

section \<open>Lemmas on the router\<close>

lemma slice_quantity_le:
  "slice_quantity r = Inr q \<Longrightarrow> q \<le> remaining_position r"
  by (auto simp: slice_quantity_def Let_def split: if_splits)

lemma mark_slice_remaining:
  "q \<le> remaining_position r \<Longrightarrow>
   remaining_position (mark_slice_executed q r) = remaining_position r - q"
  by (simp add: mark_slice_executed_def checked_sub_or_keep_def)

text \<open>The last slice takes everything.\<close>

lemma last_slice:
  assumes "current_slice r \<ge> num_slices (tw_config r) - 1"
  shows "slice_quantity r = Inr (remaining_position r)"
  using assms by (auto simp: slice_quantity_def Let_def)

lemma next_slice_some:
  assumes "remaining_position r \<noteq> 0" "slice_quantity r = Inr q" "q \<noteq> 0"
  shows "next_slice r = Inr (Some \<lparr>ts_quantity = q, ts_limit_price = twap_limit_price r,
           ts_is_buy = \<not> is_long r\<rparr>)"
  using assms by (simp add: next_slice_def)

lemma twap_drive_completes:
  assumes "num_slices (tw_config r) \<noteq> 0" "num_slices (tw_config r) \<le> total_position r"
    and "unat (current_slice r) + n = unat (num_slices (tw_config r))" "0 < n"
  shows "\<exists>r'. twap_drive n r = Inr r' \<and> remaining_position r' = 0"
  using assms
proof (induction n arbitrary: r)
  case 0
  then show ?case by simp
next
  case (Suc n)
  let ?N = "num_slices (tw_config r)"
  show ?case
  proof (cases "remaining_position r = 0")
    case True
    then show ?thesis by (simp add: next_slice_def)
  next
    case rem: False
    show ?thesis
    proof (cases "n = 0")
      case True
      have "1 \<le> ?N" using Suc.prems(1) by (metis word_le_less_eq word_not_simps(1) word_less_1 not_le)
      then have "unat (?N - 1) = unat ?N - 1" by (simp add: unat_sub)
      then have "current_slice r \<ge> ?N - 1" using Suc.prems True by (simp add: word_le_nat_alt)
      note last = last_slice [OF this]
      have "next_slice r = Inr (Some \<lparr>ts_quantity = remaining_position r,
          ts_limit_price = twap_limit_price r, ts_is_buy = \<not> is_long r\<rparr>)"
        by (rule next_slice_some [OF rem last rem])
      then show ?thesis using True by (simp add: mark_slice_remaining)
    next
      case False
      have size: "total_position r div ?N \<noteq> 0"
        using Suc.prems(1,2) by (simp add: word_unat_eq_iff unat_div word_le_nat_alt div_eq_0_iff)
      have "\<exists>q. slice_quantity r = Inr q \<and> q \<noteq> 0"
        using Suc.prems(1) rem size by (auto simp: slice_quantity_def Let_def min_def)
      then obtain q where q: "slice_quantity r = Inr q" "q \<noteq> 0" by blast
      let ?r = "mark_slice_executed q r"
      have nx: "next_slice r = Inr (Some \<lparr>ts_quantity = q, ts_limit_price = twap_limit_price r,
          ts_is_buy = \<not> is_long r\<rparr>)"
        by (rule next_slice_some [OF rem q])
      have "unat (current_slice r) + 1 < 2 ^ 64"
        using Suc.prems(3) False unat_lt_2p [of ?N] by simp
      then have "unat (current_slice ?r) + n = unat ?N"
        using Suc.prems(3) by (simp add: mark_slice_executed_def unat_inc)
      then have "\<exists>r'. twap_drive n ?r = Inr r' \<and> remaining_position r' = 0"
        using Suc.prems(1,2) False by (intro Suc.IH) (simp_all add: mark_slice_executed_def)
      then show ?thesis using nx by simp
    qed
  qed
qed

section \<open>Properties\<close>

text \<open>The flatten sequence is strictly ordered.  Whatever operations run from a new machine,
  each one either keeps the state, moves it to the next of Trading, CancellingOrders,
  TWAPLiquidation and FlatAndHalted, or is the manual reset; the liquidating flag is set
  exactly in the two middle states, the remaining quantity never exceeds the initial one, and
  FlatAndHalted means that nothing remains.\<close>

lemma flatten_is_ordered:
  assumes "f = fold flatten_step es (new_flatten_fsm cfg)"
  shows "(fl_get_state (flatten_step e f) = fl_get_state f \<or>
          follows (fl_get_state f) (fl_get_state (flatten_step e f)) \<or>
          e = FReset \<and> fl_get_state (flatten_step e f) = Trading) \<and>
         (fl_is_liquidating f \<longleftrightarrow> fl_get_state f \<in> {CancellingOrders, TWAPLiquidation}) \<and>
         (fl_get_state f = FlatAndHalted \<longrightarrow> fl_remaining f = 0) \<and>
         unat (fl_remaining f) \<le> unat (initial_position f)"
proof -
  have "flatten_inv f" unfolding assms by (rule flatten_run.run_inv) (rule flatten_inv_new)
  then show ?thesis using flatten_step_follows [of e f] unfolding flatten_inv_def by blast
qed

definition example_flatten :: flatten_fsm where
  "example_flatten =
     fold flatten_step [FInitiate (- 5), FBeginTwap] (new_flatten_fsm default_flatten_config)"

lemma flatten_is_ordered_example:
  "fl_is_liquidating example_flatten =
     (fl_get_state example_flatten \<in> {CancellingOrders, TWAPLiquidation}) \<and>
   unat (fl_remaining example_flatten) \<le> unat (initial_position example_flatten)"
  using flatten_is_ordered [OF example_flatten_def, of FCheck] by blast

text \<open>Fills that add up to the position bring the machine to FlatAndHalted: starting to
  flatten a position of any size and sign, then liquidating it by fills whose sum is its
  magnitude, the completion check succeeds; while something remains it is rejected.\<close>

lemma flatten_completes:
  assumes "fl_get_state f = Trading" "in_i64 p"
    and "sum_list (map unat qs) \<le> nat \<bar>p\<bar>"
    and "g = fold record_liquidation_fill qs
               (snd (begin_twap_liquidation (snd (initiate_flatten p f))))"
  shows "fst (check_liquidation_complete g) =
           (if sum_list (map unat qs) = nat \<bar>p\<bar> then FlSuccess FlatAndHalted
            else FlRejected TWAPLiquidation FlatAndHalted)"
proof -
  let ?f = "snd (begin_twap_liquidation (snd (initiate_flatten p f)))"
  have f: "fl_state ?f = flatten_code TWAPLiquidation" "fl_remaining ?f = word_of_int \<bar>p\<bar>"
    using assms(1) by (simp_all add: initiate_flatten_def begin_twap_liquidation_def Let_def
        fl_get_state_def)
  have rem: "unat (fl_remaining g) = nat \<bar>p\<bar> - sum_list (map unat qs)"
    unfolding assms(4) using fills_reduce_remaining [of qs ?f] assms(2,3) f(2)
    by (simp add: unat_abs_i64)
  have "fl_get_state g = TWAPLiquidation"
    using fills_keep_state [of qs ?f] f(1) assms(4) by simp
  moreover have "fl_remaining g = 0 \<longleftrightarrow> sum_list (map unat qs) = nat \<bar>p\<bar>"
    using rem assms(3) by (auto simp: unat_eq_zero [symmetric])
  ultimately show ?thesis by (simp add: check_liquidation_complete_def Let_def)
qed

lemma flatten_completes_example:
  "fst (check_liquidation_complete (fold record_liquidation_fill [3, 2]
     (snd (begin_twap_liquidation (snd (initiate_flatten (- 5) (new_flatten_fsm default_flatten_config)))))))
   = FlSuccess FlatAndHalted"
  using flatten_completes [OF _ _ _ refl, of "new_flatten_fsm default_flatten_config" "- 5" "[3, 2]"]
  by (simp add: new_flatten_fsm_def fl_get_state_def in_i64_def)

text \<open>A fill larger than what remains is counted but not subtracted: the machine reports more
  liquidated, the remaining quantity does not move, and the completion check keeps failing, so
  an over-filled liquidation never ends in FlatAndHalted by itself.\<close>

lemma overfill_blocks_completion:
  assumes "fl_get_state f = TWAPLiquidation" "0 < fl_remaining f"
    and "\<forall>q \<in> set qs. fl_remaining f < q"
  shows "fs_positions_remaining (flatten_stats_of (fold record_liquidation_fill qs f)) =
           fs_positions_remaining (flatten_stats_of f) \<and>
         fs_total_liquidated (flatten_stats_of (fold record_liquidation_fill qs f)) =
           fs_total_liquidated (flatten_stats_of f) + sum_list qs \<and>
         fst (check_liquidation_complete (fold record_liquidation_fill qs f)) =
           FlRejected TWAPLiquidation FlatAndHalted"
proof -
  have "fl_remaining (fold record_liquidation_fill qs f) = fl_remaining f \<and>
      fl_total_liquidated (fold record_liquidation_fill qs f) = fl_total_liquidated f + sum_list qs"
    using assms(3)
    by (induction qs arbitrary: f)
      (auto simp: record_liquidation_fill_def checked_sub_or_keep_def not_le [symmetric] add.assoc)
  moreover have "fl_get_state (fold record_liquidation_fill qs f) = TWAPLiquidation"
    using assms(1) fills_keep_state [of qs f] by (simp add: fl_get_state_def)
  ultimately show ?thesis
    using assms(2) by (simp add: flatten_stats_of_def check_liquidation_complete_def Let_def
        word_neq_0_conv)
qed

lemma overfill_blocks_completion_example:
  "fst (check_liquidation_complete (fold record_liquidation_fill [6, 7]
     (snd (begin_twap_liquidation (snd (initiate_flatten 5 (new_flatten_fsm default_flatten_config)))))))
   = FlRejected TWAPLiquidation FlatAndHalted"
  using overfill_blocks_completion [of "snd (begin_twap_liquidation (snd (initiate_flatten 5
      (new_flatten_fsm default_flatten_config))))" "[6, 7]"]
  by (simp add: new_flatten_fsm_def fl_get_state_def initiate_flatten_def begin_twap_liquidation_def
      Let_def flatten_stats_of_def)

text \<open>Every slice of the router is safe: it asks for a positive quantity that does not exceed
  what remains, on the side that reduces the position, at a limit price that is at most
  \<open>max_slippage_bps\<close> basis points worse than the reference price.\<close>

lemma twap_slice_safe:
  assumes "next_slice r = Inr (Some s)" "unat (tw_max_slippage_bps (tw_config r)) \<le> 10000"
  shows "0 < ts_quantity s \<and> ts_quantity s \<le> remaining_position r \<and> ts_is_buy s = (\<not> is_long r) \<and>
         (if is_long r
          then 10000 * unat (reference_price r) \<le> 10000 * unat (ts_limit_price s) +
                 unat (tw_max_slippage_bps (tw_config r)) * unat (reference_price r) \<and>
               ts_limit_price s \<le> reference_price r
          else 10000 * unat (ts_limit_price s) \<le>
                 (10000 + unat (tw_max_slippage_bps (tw_config r))) * unat (reference_price r) \<and>
               reference_price r \<le> ts_limit_price s)"
proof -
  have s: "slice_quantity r = Inr (ts_quantity s)" "ts_quantity s \<noteq> 0"
    "ts_is_buy s = (\<not> is_long r)" "ts_limit_price s = twap_limit_price r"
    using assms(1) by (cases "slice_quantity r"; auto simp: next_slice_def split: if_splits)+
  let ?ref = "unat (reference_price r)" and ?bps = "unat (tw_max_slippage_bps (tw_config r))"
  let ?d = "?ref * ?bps div 10000"
  have d: "10000 * ?d \<le> ?ref * ?bps" by simp
  have lim: "unat (twap_limit_price r) = (if is_long r then ?ref - ?d else min (?ref + ?d) (2 ^ 64 - 1))"
    by (simp add: twap_limit_price_def Let_def unat_saturating_sub unat_saturating_add
        unat_bps_of [OF assms(2)])
  have long: "10000 * ?ref \<le> 10000 * (?ref - ?d) + ?bps * ?ref"
    using d by (simp add: mult.commute [of ?bps] diff_mult_distrib2)
  have "10000 * min (?ref + ?d) (2 ^ 64 - 1) \<le> 10000 * (?ref + ?d)"
    by (intro mult_le_mono2) simp
  also have "\<dots> \<le> (10000 + ?bps) * ?ref" using d by (simp add: algebra_simps)
  finally have short: "10000 * min (?ref + ?d) (2 ^ 64 - 1) \<le> (10000 + ?bps) * ?ref" .
  have "is_long r \<Longrightarrow> twap_limit_price r \<le> reference_price r"
    "\<not> is_long r \<Longrightarrow> reference_price r \<le> twap_limit_price r"
    by (simp_all add: twap_limit_price_def Let_def saturating_sub_le saturating_add_ge)
  then show ?thesis
    using s slice_quantity_le [OF s(1)] lim long short by (simp add: word_neq_0_conv)
qed

lemma twap_slice_safe_example:
  "next_slice (twap_initialize 1000000 True 50000 (new_twap_router default_twap_config)) =
     Inr (Some \<lparr>ts_quantity = 100000, ts_limit_price = 47500, ts_is_buy = False\<rparr>) \<and>
   10000 * 50000 \<le> 10000 * 47500 + 500 * (50000 :: nat)"
proof -
  let ?r = "twap_initialize 1000000 True 50000 (new_twap_router default_twap_config)"
  have run: "next_slice ?r = Inr (Some \<lparr>ts_quantity = 100000, ts_limit_price = 47500, ts_is_buy = False\<rparr>)"
    by (simp add: next_slice_def slice_quantity_def twap_limit_price_def twap_initialize_def
        new_twap_router_def default_twap_config_def bps_of_def saturating_sub_def Let_def)
  show ?thesis
    using run twap_slice_safe [OF run]
    by (simp add: twap_initialize_def new_twap_router_def default_twap_config_def)
qed

text \<open>The liquidation terminates: if there are at most as many slices as units, executing
  every slice in full leaves nothing after at most \<open>num_slices\<close> slices, whatever the minimum
  order size, and no step panics.\<close>

lemma twap_liquidates_all:
  assumes "num_slices (tw_config r) \<noteq> 0" "num_slices (tw_config r) \<le> position"
  shows "\<exists>r'. twap_drive (unat (num_slices (tw_config r))) (twap_initialize position long px r) = Inr r' \<and>
              twap_is_complete r'"
proof -
  let ?r = "twap_initialize position long px r"
  have "0 < unat (num_slices (tw_config r))" using assms(1) by (simp add: unat_gt_0)
  then have "\<exists>r'. twap_drive (unat (num_slices (tw_config r))) ?r = Inr r' \<and> remaining_position r' = 0"
    using assms by (intro twap_drive_completes) (simp_all add: twap_initialize_def)
  then show ?thesis by (auto simp: twap_is_complete_def)
qed

lemma twap_liquidates_all_example:
  "\<exists>r'. twap_drive 10 (twap_initialize 25003 True 50000 (new_twap_router default_twap_config)) = Inr r' \<and>
        twap_is_complete r'"
  using twap_liquidates_all [of "new_twap_router default_twap_config" 25003 True 50000]
  by (simp add: new_twap_router_def default_twap_config_def)

text \<open>A position smaller than both the number of slices and the minimum order is never
  liquidated: the first slice has size zero, the router answers that there is nothing left to
  do, and it answers the same for ever, although the position is not flat.\<close>

lemma small_position_is_stuck:
  assumes "0 < position" "position < num_slices (tw_config r)"
    and "position < tw_min_order_size (tw_config r)" "1 < num_slices (tw_config r)"
  shows "next_slice (twap_initialize position long px r) = Inr None \<and>
         \<not> twap_is_complete (twap_initialize position long px r) \<and>
         twap_drive n (twap_initialize position long px r) = Inr (twap_initialize position long px r)"
proof -
  have "position div num_slices (tw_config r) = 0"
    using assms(2) by (simp add: word_unat_eq_iff unat_div word_less_nat_alt)
  moreover have "\<not> num_slices (tw_config r) - 1 \<le> 0"
    using assms(4) by (auto simp: word_le_nat_alt word_less_nat_alt unat_sub)
  ultimately have nx: "next_slice (twap_initialize position long px r) = Inr None"
    using assms by (auto simp: next_slice_def slice_quantity_def twap_initialize_def Let_def not_le)
  then show ?thesis
    using assms(1) by (cases n) (simp_all add: twap_is_complete_def twap_initialize_def word_neq_0_conv)
qed

lemma small_position_is_stuck_example:
  "next_slice (twap_initialize 9 True 50000 (new_twap_router default_twap_config)) = Inr None"
  using small_position_is_stuck [of 9 "new_twap_router default_twap_config"]
  by (simp add: new_twap_router_def default_twap_config_def)

end
