(* ===== verification/Breakers.thy ===== *)
theory Breakers
  imports Cas_Loop
begin

text \<open>
  Two circuit breakers of \<open>crates/nexus_risk/src/breakers/\<close>: the global system state
  (\<open>global_state_machine.rs\<close>), whose transition is a CAS loop that other threads may disturb,
  and the order throttle (\<open>token_bucket_throttle.rs\<close>).  Interference is explicit: the list of
  what other threads store before each exchange, or the action that happens between the loads
  of a call and its exchange.
\<close>

section \<open>The system state\<close>

datatype system_state = SysTrading | Halting | Flattening | Dead | Paused | Recovery

fun system_code :: "system_state \<Rightarrow> u8" where
  "system_code SysTrading = 0"
| "system_code Halting = 1"
| "system_code Flattening = 2"
| "system_code Dead = 3"
| "system_code Paused = 4"
| "system_code Recovery = 5"

definition system_from_u8 :: "u8 \<Rightarrow> system_state option" where
  "system_from_u8 v =
     (if v = 0 then Some SysTrading else if v = 1 then Some Halting
      else if v = 2 then Some Flattening else if v = 3 then Some Dead
      else if v = 4 then Some Paused else if v = 5 then Some Recovery else None)"

definition sys_is_terminal :: "system_state \<Rightarrow> bool" where
  "sys_is_terminal s \<longleftrightarrow> s = Dead"

definition allows_new_orders :: "system_state \<Rightarrow> bool" where
  "allows_new_orders s \<longleftrightarrow> s = SysTrading"

definition allows_cancellations :: "system_state \<Rightarrow> bool" where
  "allows_cancellations s \<longleftrightarrow> s \<noteq> Dead"

definition sys_is_flattening :: "system_state \<Rightarrow> bool" where
  "sys_is_flattening s \<longleftrightarrow> s = Flattening"

definition sys_is_valid :: "system_state \<Rightarrow> system_state \<Rightarrow> bool" where
  "sys_is_valid from to \<longleftrightarrow>
     (from, to) \<in> {(SysTrading, Halting), (SysTrading, Paused), (Halting, Flattening),
       (Halting, SysTrading), (Flattening, Dead), (Flattening, SysTrading), (Paused, SysTrading),
       (Paused, Dead), (Recovery, SysTrading), (Recovery, Dead)} \<or> to = Dead"

datatype sys_result =
    SysSuccess system_state
  | SysRejected system_state system_state
  | SysConcurrentModification system_state system_state

record global_state =
  gsm_state :: u8
  transition_count :: u8
  rejection_count :: u8
  gsm_timestamp :: u8

definition new_global_state :: global_state where
  "new_global_state =
     \<lparr>gsm_state = system_code SysTrading, transition_count = 0, rejection_count = 0,
      gsm_timestamp = 0\<rparr>"

definition decode_state :: "u8 \<Rightarrow> system_state" where
  "decode_state v = (case system_from_u8 v of Some s \<Rightarrow> s | None \<Rightarrow> Dead)"

definition gsm_get_state :: "global_state \<Rightarrow> system_state" where
  "gsm_get_state m = decode_state (gsm_state m)"

text \<open>
  The CAS loop.  At the head of an iteration the value last read is the value of the cell; then
  another thread may store into it (an entry of the list), and the exchange sees the result.
  An empty list means that nobody interferes any more.
\<close>

fun transition_loop ::
  "u8 option list \<Rightarrow> system_state \<Rightarrow> global_state \<Rightarrow> sys_result \<times> global_state" where
  "transition_loop ws target m =
     (let current = decode_state (gsm_state m)
      in if \<not> sys_is_valid current target then
           (SysRejected current target, m\<lparr>rejection_count := rejection_count m + 1\<rparr>)
         else
           case ws of
             [] \<Rightarrow>
               (SysSuccess target,
                m\<lparr>gsm_state := system_code target, transition_count := transition_count m + 1\<rparr>)
           | w # ws' \<Rightarrow>
               let m' = (case w of None \<Rightarrow> m | Some v \<Rightarrow> m\<lparr>gsm_state := v\<rparr>)
               in if gsm_state m' = gsm_state m then
                    (SysSuccess target,
                     m'\<lparr>gsm_state := system_code target, transition_count := transition_count m' + 1\<rparr>)
                  else if system_from_u8 (gsm_state m') = Some Dead then (SysRejected Dead target, m')
                  else transition_loop ws' target m')"

declare transition_loop.simps [simp del]

text \<open>A call that nobody disturbs.\<close>

definition gsm_transition :: "system_state \<Rightarrow> global_state \<Rightarrow> sys_result \<times> global_state" where
  "gsm_transition target m = transition_loop [] target m"

definition gsm_is_trading :: "global_state \<Rightarrow> bool" where
  "gsm_is_trading m \<longleftrightarrow> gsm_state m = system_code SysTrading"

definition gsm_is_halted :: "global_state \<Rightarrow> bool" where
  "gsm_is_halted m \<longleftrightarrow> gsm_state m \<noteq> system_code SysTrading"

definition gsm_is_dead :: "global_state \<Rightarrow> bool" where
  "gsm_is_dead m \<longleftrightarrow> gsm_state m = system_code Dead"

definition emergency_stop :: "global_state \<Rightarrow> global_state" where
  "emergency_stop m = m\<lparr>gsm_state := system_code Dead, transition_count := transition_count m + 1\<rparr>"

definition gsm_halt :: "global_state \<Rightarrow> sys_result \<times> global_state" where
  "gsm_halt m = gsm_transition Halting m"

definition gsm_resume :: "global_state \<Rightarrow> sys_result \<times> global_state" where
  "gsm_resume m = gsm_transition SysTrading m"

definition gsm_flatten :: "global_state \<Rightarrow> sys_result \<times> global_state" where
  "gsm_flatten m = gsm_transition Flattening m"

definition gsm_pause :: "global_state \<Rightarrow> sys_result \<times> global_state" where
  "gsm_pause m = gsm_transition Paused m"

record gsm_stats =
  gst_current_state :: system_state
  gst_transition_count :: u8
  gst_rejection_count :: u8

definition gsm_stats_of :: "global_state \<Rightarrow> gsm_stats" where
  "gsm_stats_of m =
     \<lparr>gst_current_state = decode_state (gsm_state m), gst_transition_count = transition_count m,
      gst_rejection_count = rejection_count m\<rparr>"

definition reset_counters :: "global_state \<Rightarrow> global_state" where
  "reset_counters m = m\<lparr>transition_count := 0, rejection_count := 0\<rparr>"

datatype gsm_event = GsmHalt | GsmResume | GsmFlatten | GsmPause | GsmStop | GsmResetCounters

fun gsm_step :: "gsm_event \<Rightarrow> global_state \<Rightarrow> global_state" where
  "gsm_step GsmHalt m = snd (gsm_halt m)"
| "gsm_step GsmResume m = snd (gsm_resume m)"
| "gsm_step GsmFlatten m = snd (gsm_flatten m)"
| "gsm_step GsmPause m = snd (gsm_pause m)"
| "gsm_step GsmStop m = emergency_stop m"
| "gsm_step GsmResetCounters m = reset_counters m"

section \<open>The throttle\<close>

datatype rate_limit_result =
    Allowed
  | Denied u64 u64 u64

record token_bucket =
  tokens :: u64
  max_tokens :: u64
  refill_rate_per_ns :: u64
  last_refill_ns :: u64
  active :: bool
  denied_count :: u64
  allowed_count :: u64

definition token_scale :: u64 where "token_scale = 1000000000"

definition new_token_bucket :: "u64 \<Rightarrow> u64 \<Rightarrow> u64 \<Rightarrow> token_bucket" where
  "new_token_bucket mx rate now =
     \<lparr>tokens = mx * token_scale, max_tokens = mx * token_scale,
      refill_rate_per_ns = rate div token_scale, last_refill_ns = now, active = True,
      denied_count = 0, allowed_count = 0\<rparr>"

text \<open>
  The loop of \<open>refill\<close>: \<open>prev\<close>, \<open>now\<close> and \<open>add\<close> are the values computed before it, \<open>current\<close>
  the tokens last loaded.  The cell it exchanges is not reloaded into \<open>prev\<close>.
\<close>

fun refill_loop :: "nat \<Rightarrow> u64 \<Rightarrow> u64 \<Rightarrow> u64 \<Rightarrow> u64 \<Rightarrow> token_bucket \<Rightarrow> token_bucket option" where
  "refill_loop 0 prev now add current b = None"
| "refill_loop (Suc fuel) prev now add current b =
     (let new_tokens = min (current + add) (max_tokens b)
      in if last_refill_ns b = prev then
           Some (b\<lparr>last_refill_ns := now, tokens := new_tokens\<rparr>)
         else
           let actual = last_refill_ns b; new_elapsed = saturating_sub now actual
           in if new_elapsed = 0 \<or> actual \<le> prev then Some b
              else if new_elapsed * refill_rate_per_ns b = 0 then Some b
              else refill_loop fuel prev now add (tokens b) b)"

text \<open>\<open>other\<close> is what another thread does between the loads and the first exchange.\<close>

definition refill ::
  "nat \<Rightarrow> (token_bucket \<Rightarrow> token_bucket) \<Rightarrow> u64 \<Rightarrow> token_bucket \<Rightarrow> token_bucket option" where
  "refill fuel other now b =
     (let prev = last_refill_ns b; elapsed = saturating_sub now prev
      in if elapsed = 0 then Some b
         else
           let add = elapsed * refill_rate_per_ns b
           in if add = 0 then Some b
              else refill_loop fuel prev now add (tokens b) (other b))"

definition consume_value :: "u64 \<Rightarrow> u64 option" where
  "consume_value current = (if current \<ge> token_scale then Some (current - token_scale) else None)"

definition try_consume :: "u64 \<Rightarrow> token_bucket \<Rightarrow> (rate_limit_result \<times> token_bucket) option" where
  "try_consume now b0 =
     (if \<not> active b0 then Some (Allowed, b0\<lparr>allowed_count := allowed_count b0 + 1\<rparr>)
      else
        map_option (\<lambda>b.
          case consume_value (tokens b) of
            Some v \<Rightarrow> (Allowed, b\<lparr>tokens := v, allowed_count := allowed_count b + 1\<rparr>)
          | None \<Rightarrow>
              (Denied (tokens b div 1000000000) 1
                 (if refill_rate_per_ns b > 0 then (token_scale - tokens b) div refill_rate_per_ns b
                  else - 1),
               b\<lparr>denied_count := denied_count b + 1\<rparr>))
          (refill 1 id now b0))"

definition set_active :: "bool \<Rightarrow> token_bucket \<Rightarrow> token_bucket" where
  "set_active v b = b\<lparr>active := v\<rparr>"

definition tokens_available :: "token_bucket \<Rightarrow> u64" where
  "tokens_available b = tokens b div 1000000000"

definition bucket_reset_stats :: "token_bucket \<Rightarrow> token_bucket" where
  "bucket_reset_stats b = b\<lparr>denied_count := 0, allowed_count := 0\<rparr>"

text \<open>Consecutive calls at the given clock readings, and how many of them were allowed.\<close>

fun consume_all :: "u64 list \<Rightarrow> token_bucket \<Rightarrow> (rate_limit_result list \<times> token_bucket) option" where
  "consume_all [] b = Some ([], b)"
| "consume_all (now # ts) b =
     (case try_consume now b of
        None \<Rightarrow> None
      | Some (r, b') \<Rightarrow> map_option (\<lambda>(rs, b''). (r # rs, b'')) (consume_all ts b'))"

section \<open>Lemmas on the system state\<close>

lemma system_from_code [simp]: "system_from_u8 (system_code s) = Some s"
  by (cases s) (simp_all add: system_from_u8_def)

declare system_code.simps [simp del]

lemma decode_code [simp]: "decode_state (system_code s) = s"
  by (simp add: decode_state_def)

lemma system_code_eq [simp]: "system_code s = system_code t \<longleftrightarrow> s = t"
  by (metis decode_code)

lemma system_from_u8_eq_Some [simp]: "system_from_u8 v = Some s \<longleftrightarrow> v = system_code s"
  by (cases s) (auto simp: system_from_u8_def system_code.simps)

lemma valid_from_Dead: "sys_is_valid Dead t \<longleftrightarrow> t = Dead"
  by (auto simp: sys_is_valid_def)

lemma valid_not_Recovery: "sys_is_valid s t \<Longrightarrow> t \<noteq> Recovery"
  by (auto simp: sys_is_valid_def)

text \<open>What an undisturbed call does.\<close>

lemma gsm_transition_eq:
  "gsm_transition target m =
     (if sys_is_valid (gsm_get_state m) target
      then (SysSuccess target,
            m\<lparr>gsm_state := system_code target, transition_count := transition_count m + 1\<rparr>)
      else (SysRejected (gsm_get_state m) target, m\<lparr>rejection_count := rejection_count m + 1\<rparr>))"
  by (simp add: gsm_transition_def transition_loop.simps gsm_get_state_def Let_def)

definition gsm_inv :: "global_state \<Rightarrow> bool" where
  "gsm_inv m \<longleftrightarrow> (\<exists>s. gsm_state m = system_code s \<and> s \<noteq> Recovery)"

lemma gsm_step_inv: "gsm_inv m \<Longrightarrow> gsm_inv (gsm_step e m)"
  using valid_not_Recovery
  by (cases e) (auto simp: gsm_inv_def gsm_halt_def gsm_resume_def gsm_flatten_def gsm_pause_def
      gsm_transition_eq emergency_stop_def reset_counters_def split: if_splits)

interpretation gsm_run: invariant_machine gsm_step gsm_inv
  by unfold_locales (rule gsm_step_inv)

lemma gsm_step_dead:
  "gsm_get_state m = Dead \<Longrightarrow> gsm_get_state (gsm_step e m) = Dead"
  by (cases e) (simp_all add: gsm_halt_def gsm_resume_def gsm_flatten_def gsm_pause_def
      gsm_transition_eq emergency_stop_def reset_counters_def gsm_get_state_def valid_from_Dead)

interpretation gsm_dead: invariant_machine gsm_step "\<lambda>m. gsm_get_state m = Dead"
  by unfold_locales (rule gsm_step_dead)

definition loop_outcome ::
  "u8 option list \<Rightarrow> system_state \<Rightarrow> global_state \<Rightarrow> sys_result \<times> global_state \<Rightarrow> bool" where
  "loop_outcome ws target m r \<longleftrightarrow>
     (case fst r of
        SysSuccess t \<Rightarrow>
          t = target \<and> gsm_state (snd r) = system_code target \<and>
          (\<exists>v. (v = gsm_state m \<or> Some v \<in> set ws) \<and> sys_is_valid (decode_state v) target)
      | SysRejected c t \<Rightarrow>
          t = target \<and> decode_state (gsm_state (snd r)) = c \<and> (sys_is_valid c target \<longrightarrow> c = Dead)
      | SysConcurrentModification _ _ \<Rightarrow> False)"

lemma transition_loop_outcome: "loop_outcome ws target m (transition_loop ws target m)"
proof (induction ws arbitrary: m)
  case Nil
  show ?case by (auto simp: transition_loop.simps [of "[]"] loop_outcome_def Let_def)
next
  case (Cons w ws)
  define m' where "m' = (case w of None \<Rightarrow> m | Some v \<Rightarrow> m\<lparr>gsm_state := v\<rparr>)"
  have seen: "gsm_state m' = gsm_state m \<or> Some (gsm_state m') \<in> set (w # ws)"
    by (auto simp: m'_def split: option.splits)
  have unroll: "transition_loop (w # ws) target m =
      (if \<not> sys_is_valid (decode_state (gsm_state m)) target then
         (SysRejected (decode_state (gsm_state m)) target, m\<lparr>rejection_count := rejection_count m + 1\<rparr>)
       else if gsm_state m' = gsm_state m then
         (SysSuccess target,
          m'\<lparr>gsm_state := system_code target, transition_count := transition_count m' + 1\<rparr>)
       else if gsm_state m' = system_code Dead then (SysRejected Dead target, m')
       else transition_loop ws target m')"
    by (simp add: transition_loop.simps [of "w # ws"] m'_def Let_def)
  have "loop_outcome (w # ws) target m (transition_loop ws target m')"
    using Cons.IH [of m'] seen unfolding loop_outcome_def
    by (auto split: sys_result.splits)
  then show ?case unfolding unroll by (auto simp: loop_outcome_def)
qed

section \<open>Lemmas on the throttle\<close>

lemma refill_alone:
  "refill (Suc n) id now b =
     Some (if saturating_sub now (last_refill_ns b) * refill_rate_per_ns b = 0 then b
           else b\<lparr>last_refill_ns := now,
                  tokens := min (tokens b + saturating_sub now (last_refill_ns b) * refill_rate_per_ns b)
                              (max_tokens b)\<rparr>)"
  by (auto simp: refill_def Let_def)

lemma try_consume_total:
  obtains r b' where "try_consume now b = Some (r, b')" "max_tokens b' = max_tokens b"
    "tokens b \<le> max_tokens b \<Longrightarrow> tokens b' \<le> max_tokens b'"
    "active b' = active b" "refill_rate_per_ns b' = refill_rate_per_ns b"
proof -
  have le: "x - token_scale \<le> m" if "token_scale \<le> x" "x \<le> m" for x m :: u64
    using that by (simp add: word_le_nat_alt unat_sub)
  have "\<exists>r b'. try_consume now b = Some (r, b') \<and> max_tokens b' = max_tokens b \<and>
      (tokens b \<le> max_tokens b \<longrightarrow> tokens b' \<le> max_tokens b') \<and>
      active b' = active b \<and> refill_rate_per_ns b' = refill_rate_per_ns b"
    using le by (auto simp: try_consume_def refill_alone [of 0, simplified] consume_value_def
        split: option.splits)
  then show thesis using that by blast
qed

text \<open>A bucket whose rate has been rounded to zero.\<close>

lemma try_consume_dry:
  assumes "active b" "refill_rate_per_ns b = 0"
  shows "try_consume now b =
           Some (if tokens b \<ge> token_scale
                 then (Allowed, b\<lparr>tokens := tokens b - token_scale, allowed_count := allowed_count b + 1\<rparr>)
                 else (Denied (tokens b div 1000000000) 1 (- 1), b\<lparr>denied_count := denied_count b + 1\<rparr>))"
  using assms by (simp add: try_consume_def refill_alone [of 0, simplified] consume_value_def)

lemma consume_all_dry:
  assumes "active b" "refill_rate_per_ns b = 0" "unat (tokens b) = k * 1000000000"
  shows "\<exists>b'. consume_all ts b =
           Some (replicate (min k (length ts)) Allowed @ replicate (length ts - k) (Denied 0 1 (- 1)), b')"
  using assms
proof (induction ts arbitrary: b k)
  case Nil
  then show ?case by simp
next
  case (Cons now ts)
  have scale: "unat token_scale = 1000000000" by (simp add: token_scale_def)
  show ?case
  proof (cases k)
    case 0
    then have z: "tokens b = 0" using Cons.prems(3) by (simp add: unat_eq_zero)
    let ?b = "b\<lparr>denied_count := denied_count b + 1\<rparr>"
    have run: "try_consume now b = Some (Denied 0 1 (- 1), ?b)"
      using try_consume_dry [OF Cons.prems(1,2)] z by (simp add: token_scale_def)
    obtain b' where "consume_all ts ?b = Some (replicate (length ts) (Denied 0 1 (- 1)), b')"
      using Cons.IH [of ?b 0] Cons.prems z by auto
    then show ?thesis using run 0 by simp
  next
    case (Suc k')
    let ?b = "b\<lparr>tokens := tokens b - token_scale, allowed_count := allowed_count b + 1\<rparr>"
    have ge: "token_scale \<le> tokens b"
      using Cons.prems(3) Suc scale by (simp add: word_le_nat_alt)
    then have run: "try_consume now b = Some (Allowed, ?b)"
      using try_consume_dry [OF Cons.prems(1,2)] by simp
    have "unat (tokens ?b) = k' * 1000000000"
      using ge Cons.prems(3) Suc scale by (simp add: unat_sub)
    then obtain b' where "consume_all ts ?b = Some (replicate (min k' (length ts)) Allowed @
        replicate (length ts - k') (Denied 0 1 (- 1)), b')"
      using Cons.IH [of ?b k'] Cons.prems by auto
    then show ?thesis using run Suc by simp
  qed
qed

section \<open>Properties\<close>

text \<open>A transition is sound whatever other threads store into the state while it runs: when it
  succeeds, the cell holds the target and the state it replaced permits the transition; when it
  is rejected, the state it reports is the one in the cell, and it either forbids the
  transition or is Dead.  The loop ends, and never reports a concurrent modification.\<close>

lemma transition_sound:
  "case transition_loop ws target m of
     (SysSuccess t, m') \<Rightarrow>
       t = target \<and> gsm_get_state m' = target \<and>
       (\<exists>v. (v = gsm_state m \<or> Some v \<in> set ws) \<and> sys_is_valid (decode_state v) target)
   | (SysRejected c t, m') \<Rightarrow>
       t = target \<and> gsm_get_state m' = c \<and> (\<not> sys_is_valid c target \<or> c = Dead)
   | (SysConcurrentModification _ _, m') \<Rightarrow> False"
  using transition_loop_outcome [of ws target m]
  by (auto simp: loop_outcome_def gsm_get_state_def split: prod.splits sys_result.splits)

text \<open>A halt that another thread's emergency stop overtakes.\<close>

lemma transition_sound_example:
  "let r = transition_loop [Some (system_code Dead)] Halting new_global_state
   in fst r = SysRejected Dead Halting \<and> gsm_get_state (snd r) = Dead"
proof -
  have "fst (transition_loop [Some (system_code Dead)] Halting new_global_state) =
      SysRejected Dead Halting"
    by (simp add: transition_loop.simps new_global_state_def decode_state_def system_from_u8_def
        sys_is_valid_def system_code.simps Let_def)
  then show ?thesis
    using transition_sound [where ws = "[Some (system_code Dead)]" and target = Halting and m = new_global_state]
    by (simp add: Let_def case_prod_beta)
qed

text \<open>Dead is final: once the system is Dead, no sequence of halts, resumes, flattenings,
  pauses, emergency stops and counter resets leaves it, new orders stay forbidden, and every
  transition to another state is rejected.\<close>

lemma dead_is_final:
  assumes "gsm_get_state m = Dead"
  shows "gsm_get_state (fold gsm_step es m) = Dead \<and>
         \<not> allows_new_orders (gsm_get_state (fold gsm_step es m)) \<and>
         (target \<noteq> Dead \<longrightarrow> fst (gsm_transition target (fold gsm_step es m)) = SysRejected Dead target)"
proof -
  have "gsm_get_state (fold gsm_step es m) = Dead"
    using assms by (rule gsm_dead.run_inv)
  then show ?thesis by (simp add: allows_new_orders_def gsm_transition_eq valid_from_Dead)
qed

lemma dead_is_final_example:
  "gsm_get_state (fold gsm_step [GsmResume, GsmHalt, GsmResume] (emergency_stop new_global_state)) = Dead"
  using dead_is_final [of "emergency_stop new_global_state" "[GsmResume, GsmHalt, GsmResume]"]
  by (simp add: emergency_stop_def gsm_get_state_def)

text \<open>The state Recovery, and the two transitions out of it, can never be used: from a new
  machine no operation leads to it, so every reached state is one of the other five.\<close>

lemma recovery_is_unreachable:
  "gsm_get_state (fold gsm_step es new_global_state) \<noteq> Recovery \<and>
   system_from_u8 (gsm_state (fold gsm_step es new_global_state)) \<noteq> None"
proof -
  have "gsm_inv new_global_state" by (auto simp: gsm_inv_def new_global_state_def)
  then have "gsm_inv (fold gsm_step es new_global_state)" by (rule gsm_run.run_inv)
  then show ?thesis by (auto simp: gsm_inv_def gsm_get_state_def)
qed

text \<open>The transition counter is eight bits wide: after 128 halts and resumes, each of which
  succeeded, the statistics report no transition at all.\<close>

lemma transition_count_wraps:
  "gst_transition_count (gsm_stats_of (fold gsm_step (concat (replicate 128 [GsmHalt, GsmResume])) new_global_state))
     = gst_transition_count (gsm_stats_of new_global_state) \<and>
   fst (gsm_halt new_global_state) = SysSuccess Halting \<and>
   fst (gsm_resume (snd (gsm_halt new_global_state))) = SysSuccess SysTrading"
proof -
  have pair: "fold gsm_step [GsmHalt, GsmResume] m = m\<lparr>transition_count := transition_count m + 2\<rparr>"
    if "gsm_state m = system_code SysTrading" for m
    using that by (simp add: gsm_halt_def gsm_resume_def gsm_transition_eq gsm_get_state_def
        sys_is_valid_def)
  have "fold gsm_step (concat (replicate n [GsmHalt, GsmResume])) m =
      m\<lparr>transition_count := transition_count m + of_nat (2 * n)\<rparr>"
    if "gsm_state m = system_code SysTrading" for n m
    using that
  proof (induction n arbitrary: m)
    case 0
    then show ?case by simp
  next
    case (Suc n)
    let ?m = "m\<lparr>transition_count := transition_count m + 2\<rparr>"
    have "fold gsm_step (concat (replicate (Suc n) [GsmHalt, GsmResume])) m =
        fold gsm_step (concat (replicate n [GsmHalt, GsmResume])) ?m"
      unfolding pair [OF Suc.prems, symmetric] by simp
    also have "\<dots> = ?m\<lparr>transition_count := transition_count ?m + of_nat (2 * n)\<rparr>"
      using Suc.prems by (intro Suc.IH) simp
    finally show ?case by (simp add: algebra_simps)
  qed
  from this [of new_global_state 128] show ?thesis
    by (simp add: gsm_stats_of_def new_global_state_def gsm_halt_def gsm_resume_def gsm_transition_eq
        gsm_get_state_def sys_is_valid_def)
qed

text \<open>The throttle never holds more tokens than its capacity, whatever the rate and the clock
  readings - also when the refill overflows - and every call returns.\<close>

lemma tokens_within_capacity:
  "\<exists>rs b. consume_all ts (new_token_bucket mx rate now) = Some (rs, b) \<and> length rs = length ts \<and>
          tokens b \<le> max_tokens b \<and> max_tokens b = mx * token_scale"
proof -
  have "\<exists>rs b'. consume_all ts b = Some (rs, b') \<and> length rs = length ts \<and>
      tokens b' \<le> max_tokens b' \<and> max_tokens b' = max_tokens b" if "tokens b \<le> max_tokens b" for b
    using that
  proof (induction ts arbitrary: b)
    case Nil
    then show ?case by simp
  next
    case (Cons t ts)
    obtain r b1 where b1: "try_consume t b = Some (r, b1)" "max_tokens b1 = max_tokens b"
      "tokens b1 \<le> max_tokens b1"
      by (rule try_consume_total [of t b]) (use Cons.prems in blast)
    then show ?case using Cons.IH [OF b1(3)] by auto
  qed
  from this [of "new_token_bucket mx rate now"] show ?thesis by (simp add: new_token_bucket_def)
qed

text \<open>The throttle never refills at any practical rate: the rate per nanosecond is computed by
  an integer division that gives 0 below 10^9 tokens per second, so of any calls, at any times,
  exactly the first \<open>max_tokens\<close> are allowed and every later one is denied for ever, with the
  advice to wait for the greatest possible time.\<close>

lemma bucket_never_refills:
  assumes "unat rate < 1000000000" "unat mx * 1000000000 < 2 ^ 64"
  shows "\<exists>b. consume_all ts (new_token_bucket mx rate now) =
           Some (replicate (min (unat mx) (length ts)) Allowed @
                 replicate (length ts - unat mx) (Denied 0 1 (- 1)), b)"
proof (rule consume_all_dry)
  show "refill_rate_per_ns (new_token_bucket mx rate now) = 0"
    using assms(1) by (simp add: new_token_bucket_def token_scale_def word_unat_eq_iff unat_div)
  show "unat (tokens (new_token_bucket mx rate now)) = unat mx * 1000000000"
    using assms(2) unat_mult_lem [of mx token_scale]
    by (simp add: new_token_bucket_def token_scale_def)
qed (simp add: new_token_bucket_def)

lemma bucket_never_refills_example:
  "\<exists>b. consume_all [1000000000, 2000000000, 900000000000] (new_token_bucket 2 10 0) =
     Some ([Allowed, Allowed, Denied 0 1 (- 1)], b)"
proof -
  have two: "replicate 2 x = [x, x]" for x :: rate_limit_result by (simp add: numeral_2_eq_2)
  show ?thesis
    using bucket_never_refills [of 10 2 "[1000000000, 2000000000, 900000000000]" 0]
    by (simp add: two)
qed

text \<open>The refill can spin for ever: if another thread refills at a time between the last
  refill and now, and tokens are still due for the rest of the time, the loop compares against
  the time it read at first and never succeeds, however many iterations it is given.\<close>

lemma refill_livelock:
  assumes "last_refill_ns b < seen" "seen < now"
    and "(now - last_refill_ns b) * refill_rate_per_ns b \<noteq> 0" "(now - seen) * refill_rate_per_ns b \<noteq> 0"
  shows "refill fuel (\<lambda>b. b\<lparr>last_refill_ns := seen, tokens := t\<rparr>) now b = None"
proof -
  have el: "saturating_sub now seen = now - seen"
    "saturating_sub now (last_refill_ns b) = now - last_refill_ns b"
    using assms(1,2) by (auto simp: saturating_sub_def)
  have "refill_loop fuel (last_refill_ns b) now add current b' = None"
    if "last_refill_ns b' = seen" "refill_rate_per_ns b' = refill_rate_per_ns b" for add current b'
    using that assms el by (induction fuel arbitrary: current) (auto simp: Let_def not_le [symmetric])
  then show ?thesis
    using assms(3) el by (auto simp: refill_def Let_def)
qed

lemma refill_livelock_example:
  "refill 1000 (\<lambda>b. b\<lparr>last_refill_ns := 5, tokens := 0\<rparr>) 10 (new_token_bucket 20 1000000000 0) = None"
  by (rule refill_livelock) (simp_all add: new_token_bucket_def token_scale_def)

end
