(* ===== verification/Loss_Velocity.thy ===== *)
theory Loss_Velocity
  imports Interfaces
begin

text \<open>
  The two monitors of the profit-and-loss curve in \<open>crates/nexus_risk/src/breakers/\<close>: the
  circuit breaker on the velocity of losses (\<open>velocity_of_loss.rs\<close>, a window of 64 samples) and
  the tracker of first and second derivatives (\<open>pnl_derivative_tracker.rs\<close>, 10 samples).  Both
  keep their samples in a circular buffer.  The code receives the profit as a floating-point
  number of dollars and immediately converts it to an integer of micro-dollars; the model
  starts at that integer, and statistics that are only divided by 10^6 for display stay in
  micro-dollars.
\<close>

section \<open>Circular buffers of samples\<close>

record sample_ring =
  timestamps :: "nat \<Rightarrow> u64"
  pnl_values :: "nat \<Rightarrow> i64"
  w_head :: nat
  w_count :: nat

definition empty_ring :: sample_ring where
  "empty_ring = \<lparr>timestamps = \<lambda>_. 0, pnl_values = \<lambda>_. 0, w_head = 0, w_count = 0\<rparr>"

definition push_sample :: "nat \<Rightarrow> u64 \<Rightarrow> i64 \<Rightarrow> sample_ring \<Rightarrow> sample_ring" where
  "push_sample size_n ts pnl w =
     w\<lparr>timestamps := (timestamps w)(w_head w := ts), pnl_values := (pnl_values w)(w_head w := pnl),
       w_head := (w_head w + 1) mod size_n,
       w_count := (if w_count w < size_n then w_count w + 1 else w_count w)\<rparr>"

definition newest_index :: "nat \<Rightarrow> sample_ring \<Rightarrow> nat" where
  "newest_index size_n w = (if w_head w = 0 then size_n - 1 else w_head w - 1)"

section \<open>The velocity breaker\<close>

definition WINDOW_SIZE :: nat where "WINDOW_SIZE = 64"

definition window_push :: "u64 \<Rightarrow> i64 \<Rightarrow> sample_ring \<Rightarrow> sample_ring" where
  "window_push ts pnl w = push_sample WINDOW_SIZE ts pnl w"

text \<open>The scan for the oldest sample inside the window, as a fold over the code's index range.\<close>

definition scan_step :: "u64 \<Rightarrow> sample_ring \<Rightarrow> nat \<Rightarrow> u64 \<times> i64 \<Rightarrow> u64 \<times> i64" where
  "scan_step cutoff w i best =
     (let idx = (w_head w + i) mod WINDOW_SIZE; ts = timestamps w idx
      in if ts \<ge> cutoff \<and> ts < fst best then (ts, pnl_values w idx) else best)"

definition scan_oldest :: "u64 \<Rightarrow> sample_ring \<Rightarrow> u64 \<times> i64 \<Rightarrow> u64 \<times> i64" where
  "scan_oldest cutoff w start = fold (scan_step cutoff w) [0..<w_count w] start"

definition calculate_velocity :: "u64 \<Rightarrow> sample_ring \<Rightarrow> i64" where
  "calculate_velocity window_ms w =
     (if w_count w < 2 then 0
      else
        let window_ns = window_ms * 1000000;
            newest = newest_index WINDOW_SIZE w;
            newest_ts = timestamps w newest; newest_pnl = pnl_values w newest;
            cutoff = saturating_sub newest_ts window_ns;
            (oldest_ts, oldest_pnl) = scan_oldest cutoff w (newest_ts, newest_pnl);
            delta_pnl = s64 (newest_pnl - oldest_pnl);
            delta_time_ms = saturating_sub newest_ts oldest_ts div 1000000
        in if delta_time_ms = 0 then 0 else delta_pnl sdiv sint delta_time_ms)"

datatype velocity_result =
    VNormal
  | VWarning i64 i64
  | VCritical i64 i64

record velocity_config =
  warning_threshold :: i64
  critical_threshold :: i64
  time_window_ms :: u64

definition default_velocity_config :: velocity_config where
  "default_velocity_config =
     \<lparr>warning_threshold = - 100000, critical_threshold = - 500000, time_window_ms = 50\<rparr>"

record velocity_breaker =
  v_config :: velocity_config
  window :: sample_ring
  v_last_pnl :: i64
  tripped :: bool
  warning_count :: u64
  critical_count :: u64
  v_last_trip_ns :: u64

definition new_velocity_breaker :: "velocity_config \<Rightarrow> velocity_breaker" where
  "new_velocity_breaker cfg =
     \<lparr>v_config = cfg, window = empty_ring, v_last_pnl = 0, tripped = False, warning_count = 0,
      critical_count = 0, v_last_trip_ns = 0\<rparr>"

definition classify_velocity :: "velocity_config \<Rightarrow> i64 \<Rightarrow> velocity_result" where
  "classify_velocity cfg v =
     (if v < critical_threshold cfg then VCritical v (critical_threshold cfg)
      else if v < warning_threshold cfg then VWarning v (warning_threshold cfg)
      else VNormal)"

definition velocity_update :: "i64 \<Rightarrow> u64 \<Rightarrow> velocity_breaker \<Rightarrow> velocity_result \<times> velocity_breaker" where
  "velocity_update pnl ts b0 =
     (let b = b0\<lparr>v_last_pnl := pnl, window := window_push ts pnl (window b0)\<rparr>;
          result = classify_velocity (v_config b)
                     (calculate_velocity (time_window_ms (v_config b)) (window b))
      in (result,
          case result of
            VCritical _ _ \<Rightarrow>
              b\<lparr>critical_count := critical_count b + 1, tripped := True, v_last_trip_ns := ts\<rparr>
          | VWarning _ _ \<Rightarrow> b\<lparr>warning_count := warning_count b + 1\<rparr>
          | VNormal \<Rightarrow> b))"

definition velocity_reset :: "velocity_breaker \<Rightarrow> velocity_breaker" where
  "velocity_reset b = b\<lparr>tripped := False\<rparr>"

definition force_trip :: "u64 \<Rightarrow> velocity_breaker \<Rightarrow> velocity_breaker" where
  "force_trip ts b =
     b\<lparr>tripped := True, critical_count := critical_count b + 1, v_last_trip_ns := ts\<rparr>"

text \<open>A run of updates: the results and the final breaker.\<close>

fun velocity_run ::
  "(u64 \<times> i64) list \<Rightarrow> velocity_breaker \<Rightarrow> velocity_result list \<times> velocity_breaker" where
  "velocity_run [] b = ([], b)"
| "velocity_run ((ts, pnl) # xs) b =
     (let (r, b1) = velocity_update pnl ts b; (rs, b2) = velocity_run xs b1 in (r # rs, b2))"

section \<open>The derivative tracker\<close>

definition DERIVATIVE_SAMPLES :: nat where "DERIVATIVE_SAMPLES = 10"

definition derivative_push :: "u64 \<Rightarrow> i64 \<Rightarrow> sample_ring \<Rightarrow> sample_ring" where
  "derivative_push ts pnl w = push_sample DERIVATIVE_SAMPLES ts pnl w"

definition oldest_index :: "sample_ring \<Rightarrow> nat" where
  "oldest_index w = (w_head w + DERIVATIVE_SAMPLES - w_count w) mod DERIVATIVE_SAMPLES"

text \<open>\<open>delta_pnl / (delta_ts / 1_000_000) as i64\<close>.\<close>

definition rate_per_ms :: "i64 \<Rightarrow> u64 \<Rightarrow> panic + i64" where
  "rate_per_ms delta_pnl delta_ts = i64_div delta_pnl (sint (delta_ts div 1000000))"

definition first_derivative :: "sample_ring \<Rightarrow> panic + i64" where
  "first_derivative w =
     (if w_count w < 2 then Inr 0
      else
        let newest = newest_index DERIVATIVE_SAMPLES w; oldest = oldest_index w;
            delta_pnl = s64 (pnl_values w newest - pnl_values w oldest);
            delta_ts = saturating_sub (timestamps w newest) (timestamps w oldest)
        in if delta_ts = 0 then Inr 0 else rate_per_ms delta_pnl delta_ts)"

definition half_velocity :: "sample_ring \<Rightarrow> nat \<Rightarrow> nat \<Rightarrow> panic + i64" where
  "half_velocity w from to =
     (let delta_pnl = s64 (pnl_values w to - pnl_values w from);
          delta_ts = saturating_sub (timestamps w to) (timestamps w from)
      in if delta_ts > 0 then rate_per_ms delta_pnl delta_ts else Inr 0)"

definition second_derivative :: "sample_ring \<Rightarrow> panic + i64" where
  "second_derivative w =
     (if w_count w < 3 then Inr 0
      else
        let mid = (w_head w + DERIVATIVE_SAMPLES - w_count w div 2) mod DERIVATIVE_SAMPLES;
            newest = newest_index DERIVATIVE_SAMPLES w; oldest = oldest_index w
        in case half_velocity w oldest mid of
             Inl p \<Rightarrow> Inl p
           | Inr vel_1 \<Rightarrow>
               (case half_velocity w mid newest of
                  Inl p \<Rightarrow> Inl p
                | Inr vel_2 \<Rightarrow> Inr (s64 (vel_2 - vel_1))))"

record derivative_tracker =
  d_buffer :: sample_ring
  d_last_pnl :: i64

definition new_derivative_tracker :: derivative_tracker where
  "new_derivative_tracker = \<lparr>d_buffer = empty_ring, d_last_pnl = 0\<rparr>"

definition derivative_update :: "i64 \<Rightarrow> u64 \<Rightarrow> derivative_tracker \<Rightarrow> derivative_tracker" where
  "derivative_update pnl ts d =
     d\<lparr>d_last_pnl := pnl, d_buffer := derivative_push ts pnl (d_buffer d)\<rparr>"

text \<open>First derivative, second derivative and current profit, or the panic that stops them.\<close>

definition derivative_stats :: "derivative_tracker \<Rightarrow> panic + i64 \<times> i64 \<times> i64" where
  "derivative_stats d =
     (case first_derivative (d_buffer d) of
        Inl p \<Rightarrow> Inl p
      | Inr v \<Rightarrow>
          (case second_derivative (d_buffer d) of
             Inl p \<Rightarrow> Inl p
           | Inr a \<Rightarrow> Inr (v, a, d_last_pnl d)))"

section \<open>What the buffer remembers\<close>

definition pushes :: "nat \<Rightarrow> (u64 \<times> i64) list \<Rightarrow> sample_ring" where
  "pushes size_n xs = fold (\<lambda>(ts, pnl). push_sample size_n ts pnl) xs empty_ring"

lemma pushes_snoc: "pushes size_n (xs @ [(ts, pnl)]) = push_sample size_n ts pnl (pushes size_n xs)"
  by (simp add: pushes_def)

lemma pushes_shape:
  assumes "0 < size_n"
  shows "w_head (pushes size_n xs) = length xs mod size_n"
    and "w_count (pushes size_n xs) = min (length xs) size_n"
proof (induction xs rule: rev_induct)
  case Nil
  {
    case 1
    then show ?case by (simp add: pushes_def empty_ring_def)
  next
    case 2
    then show ?case by (simp add: pushes_def empty_ring_def)
  }
next
  case (snoc x xs)
  obtain ts pnl where x: "x = (ts, pnl)" by fastforce
  {
    case 1
    then show ?case using snoc by (simp add: x pushes_snoc push_sample_def mod_Suc_eq)
  next
    case 2
    then show ?case using snoc by (auto simp: x pushes_snoc push_sample_def)
  }
qed

text \<open>Slot \<open>p mod n\<close> holds sample \<open>p\<close> as long as it is among the last \<open>n\<close>.\<close>

lemma pushes_slot:
  assumes "0 < size_n" "p < length xs" "length xs \<le> p + size_n"
  shows "timestamps (pushes size_n xs) (p mod size_n) = fst (xs ! p) \<and>
         pnl_values (pushes size_n xs) (p mod size_n) = snd (xs ! p)"
  using assms(2,3)
proof (induction xs rule: rev_induct)
  case Nil
  then show ?case by simp
next
  case (snoc x xs)
  obtain ts pnl where x: "x = (ts, pnl)" by fastforce
  show ?case
  proof (cases "p = length xs")
    case True
    then show ?thesis
      by (simp add: x pushes_snoc push_sample_def pushes_shape [OF assms(1)] nth_append)
  next
    case False
    then have p: "p < length xs" "length xs < p + size_n" using snoc.prems by auto
    have "p mod size_n \<noteq> length xs mod size_n"
    proof
      assume "p mod size_n = length xs mod size_n"
      then have "size_n dvd length xs - p"
        using p(1) by (metis mod_eq_dvd_iff_nat less_imp_le)
      then have "size_n \<le> length xs - p" using p(1) by (intro dvd_imp_le) auto
      then show False using p by simp
    qed
    then show ?thesis
      using snoc.IH p
      by (simp add: x pushes_snoc push_sample_def pushes_shape [OF assms(1)] nth_append)
  qed
qed

text \<open>Slots that were never written hold the initial zeros.\<close>

lemma pushes_unwritten:
  assumes "length xs \<le> i" "i < size_n"
  shows "timestamps (pushes size_n xs) i = 0"
  using assms
proof (induction xs rule: rev_induct)
  case Nil
  then show ?case by (simp add: pushes_def empty_ring_def)
next
  case (snoc x xs)
  obtain ts pnl where x: "x = (ts, pnl)" by fastforce
  have "w_head (pushes size_n xs) = length xs" using snoc.prems by (simp add: pushes_shape)
  then show ?case using snoc by (simp add: x pushes_snoc push_sample_def)
qed

lemma pushes_newest:
  assumes "0 < size_n" "xs \<noteq> []"
  shows "newest_index size_n (pushes size_n xs) = (length xs - 1) mod size_n"
proof -
  obtain n where n: "length xs = Suc n" using assms(2) by (cases xs) auto
  show ?thesis
    using assms(1) by (auto simp: newest_index_def pushes_shape n mod_Suc)
qed

section \<open>The scan\<close>

text \<open>On samples in chronological order the scan finds the first one inside the window.\<close>

definition better :: "u64 \<Rightarrow> u64 \<times> i64 \<Rightarrow> u64 \<times> i64 \<Rightarrow> u64 \<times> i64" where
  "better cutoff x best = (if cutoff \<le> fst x \<and> fst x < fst best then x else best)"

lemma better_later: "\<forall>x \<in> set xs. fst best \<le> fst x \<Longrightarrow> fold (better cutoff) xs best = best"
  by (induction xs) (auto simp: better_def not_less)

lemma better_first:
  assumes "sorted_wrt (\<lambda>x y. fst x < fst y) (xs @ [z])" "cutoff \<le> fst z"
  shows "List.find (\<lambda>x. cutoff \<le> fst x) (xs @ [z]) = Some (fold (better cutoff) (xs @ [z]) z)"
  using assms(1)
proof (induction xs)
  case Nil
  then show ?case using assms(2) by (simp add: better_def)
next
  case (Cons x xs)
  show ?case
  proof (cases "cutoff \<le> fst x")
    case True
    have "fst x < fst z" "\<forall>y \<in> set (xs @ [z]). fst x \<le> fst y"
      using Cons.prems by (auto intro: less_imp_le)
    then have "better cutoff x z = x" "fold (better cutoff) (xs @ [z]) x = x"
      using True better_later [of "xs @ [z]" x cutoff] by (simp_all add: better_def)
    then show ?thesis using True by simp
  next
    case False
    then show ?thesis using Cons by (simp add: better_def)
  qed
qed

lemma scan_full_window:
  assumes "64 \<le> length xs"
  shows "scan_oldest cutoff (pushes WINDOW_SIZE xs) start = fold (better cutoff) (drop (length xs - 64) xs) start"
proof -
  let ?w = "pushes WINDOW_SIZE xs" and ?h = "drop (length xs - 64) xs"
  have W: "WINDOW_SIZE = 64" and W0: "0 < WINDOW_SIZE" by (simp_all add: WINDOW_SIZE_def)
  have step: "scan_step cutoff ?w i = better cutoff (?h ! i)" if "i < 64" for i
  proof -
    let ?p = "length xs - 64 + i"
    have "length xs + i = ?p + 64" using assms by simp
    then have "(length xs + i) mod 64 = ?p mod 64" by (metis mod_add_self2)
    then have idx: "(w_head ?w + i) mod 64 = ?p mod 64"
      using pushes_shape(1) [OF W0, of xs] by (simp add: W mod_add_left_eq)
    have "timestamps ?w (?p mod 64) = fst (xs ! ?p) \<and> pnl_values ?w (?p mod 64) = snd (xs ! ?p)"
      using pushes_slot [of WINDOW_SIZE ?p xs] assms that by (simp add: W)
    moreover have "?h ! i = xs ! ?p" using assms that by simp
    ultimately show ?thesis
      using idx by (auto simp: fun_eq_iff scan_step_def better_def W Let_def)
  qed
  have "scan_oldest cutoff ?w start = fold (\<lambda>i. better cutoff (?h ! i)) [0..<64] start"
    using assms step unfolding scan_oldest_def pushes_shape [OF W0]
    by (intro fold_cong) (simp_all add: W)
  also have "\<dots> = fold (better cutoff) (map (\<lambda>i. ?h ! i) [0..<64]) start"
    by (simp add: fold_map o_def)
  also have "map (\<lambda>i. ?h ! i) [0..<64] = ?h"
    using assms by (intro nth_equalityI) simp_all
  finally show ?thesis .
qed

section \<open>The velocity against its specification\<close>

text \<open>Over the given samples: from the first one inside the window to the newest.\<close>

definition velocity_spec :: "u64 \<Rightarrow> (u64 \<times> i64) list \<Rightarrow> i64" where
  "velocity_spec window_ms hist =
     (let (newest_ts, newest_pnl) = last hist;
          cutoff = saturating_sub newest_ts (window_ms * 1000000)
      in case List.find (\<lambda>x. cutoff \<le> fst x) hist of
           None \<Rightarrow> 0
         | Some (oldest_ts, oldest_pnl) \<Rightarrow>
             let ms = (newest_ts - oldest_ts) div 1000000
             in if ms = 0 then 0 else s64 (newest_pnl - oldest_pnl) sdiv sint ms)"

lemma newest_sample:
  assumes "0 < size_n" "xs \<noteq> []"
  shows "timestamps (pushes size_n xs) (newest_index size_n (pushes size_n xs)) = fst (last xs)"
    and "pnl_values (pushes size_n xs) (newest_index size_n (pushes size_n xs)) = snd (last xs)"
proof -
  have "length xs \<noteq> 0" using assms(2) by simp
  then have "length xs - 1 < length xs" "length xs \<le> length xs - 1 + size_n" using assms(1) by auto
  from pushes_slot [OF assms(1) this] show
    "timestamps (pushes size_n xs) (newest_index size_n (pushes size_n xs)) = fst (last xs)"
    "pnl_values (pushes size_n xs) (newest_index size_n (pushes size_n xs)) = snd (last xs)"
    by (simp_all add: pushes_newest [OF assms] last_conv_nth [OF assms(2)])
qed

lemma velocity_of_full_window:
  assumes "64 \<le> length xs" "sorted_wrt (\<lambda>x y. fst x < fst y) xs"
  shows "calculate_velocity ms (pushes WINDOW_SIZE xs) = velocity_spec ms (drop (length xs - 64) xs)"
proof -
  let ?h = "drop (length xs - 64) xs" and ?w = "pushes WINDOW_SIZE xs"
  have W: "0 < WINDOW_SIZE" and ne: "xs \<noteq> []" "?h \<noteq> []" using assms(1) by (auto simp: WINDOW_SIZE_def)
  have lst: "last ?h = last xs" using ne by (simp add: last_drop)
  define cutoff where "cutoff = saturating_sub (fst (last xs)) (ms * 1000000)"
  have cut: "cutoff \<le> fst (last xs)" by (simp add: cutoff_def saturating_sub_le)
  have srt: "sorted_wrt (\<lambda>x y. fst x < fst y) (butlast ?h @ [last xs])"
    using assms(2) ne(2) lst by (metis append_butlast_last_id sorted_wrt_drop)
  have h: "butlast ?h @ [last xs] = ?h" using ne(2) lst by (metis append_butlast_last_id)
  let ?o = "fold (better cutoff) ?h (last xs)"
  have fnd: "List.find (\<lambda>x. cutoff \<le> fst x) ?h = Some ?o"
    using better_first [OF srt cut] unfolding h .
  then have "?o \<in> set ?h" by (metis find_Some_iff nth_mem)
  then have le: "fst ?o \<le> fst (last xs)"
  proof -
    have "?o \<in> set (butlast ?h @ [last xs])" using h \<open>?o \<in> set ?h\<close> by simp
    then show ?thesis using srt by (auto simp: sorted_wrt_append intro: less_imp_le)
  qed
  have cnt: "\<not> w_count ?w < 2" using assms(1) by (simp add: pushes_shape WINDOW_SIZE_def)
  have scan: "scan_oldest cutoff ?w (last xs) = ?o" by (rule scan_full_window [OF assms(1)])
  obtain t p t0 p0 where e: "last xs = (t, p)" "?o = (t0, p0)" by fastforce
  have sub: "saturating_sub t t0 = t - t0"
    using le [unfolded e(2), unfolded e(1)] by (simp add: saturating_sub_def)
  have cutoff': "saturating_sub t (ms * 1000000) = cutoff" by (simp add: cutoff_def e)
  have scan': "scan_oldest cutoff ?w (t, p) = (t0, p0)" using scan e by simp
  have fnd': "List.find (\<lambda>x. cutoff \<le> fst x) ?h = Some (t0, p0)" using fnd e(2) by simp
  have nt: "timestamps ?w (newest_index WINDOW_SIZE ?w) = t"
    and np: "pnl_values ?w (newest_index WINDOW_SIZE ?w) = p"
    using newest_sample [OF W ne(1)] e(1) by simp_all
  show ?thesis
    using cnt
    by (simp add: calculate_velocity_def velocity_spec_def nt np lst e(1) cutoff' scan' fnd' sub Let_def)
qed

text \<open>The window of a breaker is the buffer of what was pushed into it.\<close>

lemma velocity_update_frame:
  "window (snd (velocity_update pnl ts b)) = window_push ts pnl (window b)"
  "v_config (snd (velocity_update pnl ts b)) = v_config b"
  "fst (velocity_update pnl ts b) =
     classify_velocity (v_config b)
       (calculate_velocity (time_window_ms (v_config b)) (window_push ts pnl (window b)))"
  by (simp_all add: velocity_update_def Let_def split: velocity_result.splits)

lemma velocity_run_window:
  "window (snd (velocity_run xs b)) = fold (\<lambda>(ts, pnl). push_sample WINDOW_SIZE ts pnl) xs (window b)"
  "v_config (snd (velocity_run xs b)) = v_config b"
  by (induction xs arbitrary: b)
    (auto simp: Let_def case_prod_beta velocity_update_frame window_push_def)

lemma new_breaker_run_window:
  "window (snd (velocity_run xs (new_velocity_breaker cfg))) = pushes WINDOW_SIZE xs"
  "v_config (snd (velocity_run xs (new_velocity_breaker cfg))) = cfg"
  by (simp_all add: velocity_run_window new_velocity_breaker_def pushes_def)

lemma velocity_run_snoc:
  "velocity_run (xs @ [(ts, pnl)]) b =
     (let (rs, b1) = velocity_run xs b; (r, b2) = velocity_update pnl ts b1 in (rs @ [r], b2))"
  by (induction xs arbitrary: b) (auto simp: Let_def case_prod_beta)

text \<open>Once 64 samples have been received in chronological order, every update of the velocity
  breaker classifies the true velocity of the window: the change of profit from the first sample
  inside the configured time window to the newest, per millisecond.\<close>

lemma velocity_of_loss_exact:
  assumes "63 \<le> length xs" "sorted_wrt (\<lambda>x y. fst x < fst y) (xs @ [(ts, pnl)])"
  shows "fst (velocity_update pnl ts (snd (velocity_run xs (new_velocity_breaker cfg)))) =
           classify_velocity cfg
             (velocity_spec (time_window_ms cfg) (drop (length xs - 63) (xs @ [(ts, pnl)])))"
proof -
  have "window_push ts pnl (pushes WINDOW_SIZE xs) = pushes WINDOW_SIZE (xs @ [(ts, pnl)])"
    by (simp add: pushes_snoc window_push_def)
  then show ?thesis
    using velocity_of_full_window [of "xs @ [(ts, pnl)]"] assms
    by (simp add: velocity_update_frame new_breaker_run_window)
qed

text \<open>63 flat samples one millisecond apart, then a loss of 60 dollars: a velocity of
  -1200000 micro-dollars per millisecond over the window of 50 ms.\<close>

definition flat_samples :: "nat \<Rightarrow> (u64 \<times> i64) list" where
  "flat_samples n = map (\<lambda>i. (word_of_nat (i * 1000000), 0)) [1..<Suc n]"

lemma velocity_of_loss_exact_example:
  "fst (velocity_update (- 60000000) 64000000
          (snd (velocity_run (flat_samples 63) (new_velocity_breaker default_velocity_config)))) =
     VCritical (- 1200000) (- 500000)"
proof -
  have e: "[Suc 0..<64] = [1,2,3,4,5,6,7,8,9,10,11,12,13,14,15,16,17,18,19,20,21,22,23,24,25,26,27,28,
    29,30,31,32,33,34,35,36,37,38,39,40,41,42,43,44,45,46,47,48,49,50,51,52,53,54,55,56,57,58,59,60,
    61,62,63]" by (simp add: upt_rec numeral_eq_Suc)
  have 1: "63 \<le> length (flat_samples 63)" by (simp add: flat_samples_def)
  have less: "(word_of_nat (i * 1000000) :: u64) < word_of_nat (j * 1000000)" if "i < j" "j \<le> 64" for i j
  proof -
    have "unat (word_of_nat (k * 1000000) :: u64) = k * 1000000" if "k \<le> 64" for k
      using that by (simp add: unsigned_of_nat take_bit_nat_eq_self del: of_nat_mult)
    then show ?thesis using that by (simp add: word_less_nat_alt del: of_nat_mult)
  qed
  have "sorted_wrt (\<lambda>i j. (word_of_nat (i * 1000000) :: u64) < word_of_nat (j * 1000000)) [1..<64]"
    by (rule sorted_wrt_mono_rel [OF _ sorted_wrt_upt]) (auto intro!: less simp del: of_nat_mult)
  then have "sorted_wrt (\<lambda>x y. fst x < fst y) (flat_samples 63)"
    by (simp add: flat_samples_def sorted_wrt_map)
  moreover have "\<forall>x\<in>set (flat_samples 63). fst x < 64000000"
    using less [of _ 64] by (auto simp: flat_samples_def)
  ultimately have 2: "sorted_wrt (\<lambda>x y. fst x < fst y) (flat_samples 63 @ [(64000000, - 60000000)])"
    by (simp add: sorted_wrt_append)
  have 3: "velocity_spec 50 (drop 0 (flat_samples 63 @ [(64000000, - 60000000)])) = - 1200000"
    by (simp add: flat_samples_def e velocity_spec_def saturating_sub_def s64_def signed_divide_int_def)
  show ?thesis
    using velocity_of_loss_exact [OF 1 2, of default_velocity_config] 3
    by (simp add: flat_samples_def default_velocity_config_def classify_velocity_def)
qed

section \<open>What the scan misses\<close>

text \<open>With at most 32 samples the scanned indexes are all slots that were never written.\<close>

lemma scan_misses_start:
  assumes "length xs \<le> 32" "0 < cutoff"
  shows "scan_oldest cutoff (pushes WINDOW_SIZE xs) start = start"
proof -
  have W: "0 < WINDOW_SIZE" by (simp add: WINDOW_SIZE_def)
  have "scan_step cutoff (pushes WINDOW_SIZE xs) i best = best" if "i < length xs" for i best
  proof -
    have "timestamps (pushes WINDOW_SIZE xs) ((length xs + i) mod 64) = 0"
      using assms(1) that by (intro pushes_unwritten) (simp_all add: WINDOW_SIZE_def)
    then show ?thesis
      using assms that pushes_shape(1) [OF W, of xs]
      by (simp add: scan_step_def Let_def WINDOW_SIZE_def word_gt_0)
  qed
  then have "fold (scan_step cutoff (pushes WINDOW_SIZE xs)) is start = start"
    if "set is \<subseteq> {..<length xs}" for "is"
    using that by (induction "is") auto
  from this [of "[0..<length xs]"] show ?thesis
    using assms(1) pushes_shape(2) [OF W, of xs]
    by (simp add: scan_oldest_def WINDOW_SIZE_def atLeast0LessThan)
qed

lemma early_velocity_zero:
  assumes "length xs \<le> 32" "\<forall>x \<in> set xs. ms * 1000000 < fst x"
  shows "calculate_velocity ms (pushes WINDOW_SIZE xs) = 0"
proof (cases "xs = []")
  case True
  then show ?thesis by (simp add: calculate_velocity_def pushes_def empty_ring_def)
next
  case False
  have W: "0 < WINDOW_SIZE" by (simp add: WINDOW_SIZE_def)
  have "ms * 1000000 < fst (last xs)" using assms(2) False by simp
  then have "0 < saturating_sub (fst (last xs)) (ms * 1000000)"
    by (simp add: word_less_nat_alt unat_saturating_sub)
  then have scan: "scan_oldest (saturating_sub (fst (last xs)) (ms * 1000000)) (pushes WINDOW_SIZE xs)
      (last xs) = last xs"
    by (rule scan_misses_start [OF assms(1)])
  obtain t p where e: "last xs = (t, p)" by fastforce
  have "saturating_sub t t = 0" by (simp add: saturating_sub_def)
  moreover have "timestamps (pushes WINDOW_SIZE xs) (newest_index WINDOW_SIZE (pushes WINDOW_SIZE xs)) = t"
    "pnl_values (pushes WINDOW_SIZE xs) (newest_index WINDOW_SIZE (pushes WINDOW_SIZE xs)) = p"
    using newest_sample [OF W False] e by simp_all
  ultimately show ?thesis
    using scan by (simp add: calculate_velocity_def Let_def e)
qed

text \<open>For its first 32 samples the velocity breaker is blind: whatever the losses, as long as the
  clock has passed the window length since its zero, every update reports \<open>Normal\<close> and the breaker
  does not trip.  The scan starts at the write index as if the buffer were full and therefore looks
  only at slots that have not been written.\<close>

lemma velocity_breaker_blind_start:
  assumes "length xs \<le> 32" "\<forall>x \<in> set xs. time_window_ms cfg * 1000000 < fst x"
    and "critical_threshold cfg \<le> 0" "warning_threshold cfg \<le> 0"
  shows "(\<forall>r \<in> set (fst (velocity_run xs (new_velocity_breaker cfg))). r = VNormal) \<and>
         \<not> tripped (snd (velocity_run xs (new_velocity_breaker cfg)))"
  using assms(1,2)
proof (induction xs rule: rev_induct)
  case Nil
  then show ?case by (simp add: new_velocity_breaker_def)
next
  case (snoc x xs)
  obtain ts pnl where x: "x = (ts, pnl)" by fastforce
  let ?b = "snd (velocity_run xs (new_velocity_breaker cfg))"
  have "window_push ts pnl (window ?b) = pushes WINDOW_SIZE (xs @ [x])"
    by (simp add: new_breaker_run_window pushes_snoc window_push_def x)
  then have v: "calculate_velocity (time_window_ms cfg) (window_push ts pnl (window ?b)) = 0"
    using early_velocity_zero [OF snoc.prems] by simp
  then have "fst (velocity_update pnl ts ?b) = VNormal"
    using assms(3,4) by (simp add: velocity_update_frame new_breaker_run_window classify_velocity_def)
  moreover have "tripped (snd (velocity_update pnl ts ?b)) = tripped ?b"
    using v assms(3,4)
    by (simp add: velocity_update_def new_breaker_run_window classify_velocity_def Let_def)
  ultimately show ?case
    using snoc by (simp add: x velocity_run_snoc Let_def case_prod_beta)
qed

text \<open>Three samples a second after the clock's zero that lose 1000 dollars per millisecond.\<close>

lemma velocity_breaker_blind_start_example:
  "\<not> tripped (snd (velocity_run
       [(1000000000, 0), (1001000000, - 1000000000), (1002000000, - 2000000000)]
       (new_velocity_breaker default_velocity_config)))"
  using velocity_breaker_blind_start
    [of "[(1000000000, 0), (1001000000, - 1000000000), (1002000000, - 2000000000)]"
      default_velocity_config]
  by (simp add: default_velocity_config_def)

section \<open>The derivatives against their specification\<close>

definition derivative_run :: "(u64 \<times> i64) list \<Rightarrow> derivative_tracker" where
  "derivative_run xs = fold (\<lambda>(ts, pnl). derivative_update pnl ts) xs new_derivative_tracker"

lemma derivative_run_buffer: "d_buffer (derivative_run xs) = pushes DERIVATIVE_SAMPLES xs"
proof -
  have "d_buffer (fold (\<lambda>(ts, pnl). derivative_update pnl ts) xs d) =
        fold (\<lambda>(ts, pnl). push_sample DERIVATIVE_SAMPLES ts pnl) xs (d_buffer d)" for d
    by (induction xs arbitrary: d) (auto simp: derivative_update_def derivative_push_def)
  then show ?thesis by (simp add: derivative_run_def new_derivative_tracker_def pushes_def)
qed

lemma oldest_sample:
  assumes "xs \<noteq> []"
  shows "oldest_index (pushes DERIVATIVE_SAMPLES xs) = (length xs - min (length xs) 10) mod 10"
proof (cases "length xs < 10")
  case True
  then show ?thesis
    by (simp add: oldest_index_def pushes_shape DERIVATIVE_SAMPLES_def)
next
  case False
  then show ?thesis
    by (simp add: oldest_index_def pushes_shape DERIVATIVE_SAMPLES_def mod_if [of "length xs"])
qed

text \<open>The first derivative is the mean rate over the last ten samples (or all of them, if fewer):
  the change of profit from the oldest retained sample to the newest, divided by the whole
  milliseconds between them.\<close>

lemma first_derivative_exact:
  assumes "2 \<le> length xs" "sorted_wrt (\<lambda>x y. fst x < fst y) xs"
  shows "first_derivative (d_buffer (derivative_run xs)) =
           (let (t0, p0) = xs ! (length xs - min (length xs) 10); (t1, p1) = last xs
            in rate_per_ms (s64 (p1 - p0)) (t1 - t0))"
proof -
  have D: "0 < DERIVATIVE_SAMPLES" and D10: "DERIVATIVE_SAMPLES = 10"
    by (simp_all add: DERIVATIVE_SAMPLES_def)
  let ?k = "length xs - min (length xs) 10" and ?w = "pushes DERIVATIVE_SAMPLES xs"
  have ne: "xs \<noteq> []" and k: "?k < length xs" "length xs \<le> ?k + 10" "?k < length xs - 1"
    using assms(1) by auto
  have old: "timestamps ?w (oldest_index ?w) = fst (xs ! ?k)"
    "pnl_values ?w (oldest_index ?w) = snd (xs ! ?k)"
    using pushes_slot [OF D k(1)] k(2) oldest_sample [OF ne] unfolding D10 by simp_all
  have "fst (xs ! ?k) < fst (xs ! (length xs - 1))"
    using sorted_wrt_nth_less [OF assms(2) k(3)] ne by simp
  then have less: "fst (xs ! ?k) < fst (last xs)" by (simp add: last_conv_nth ne)
  have cnt: "\<not> w_count ?w < 2" using assms(1) pushes_shape(2) [OF D, of xs] by (simp add: D10)
  have sub: "saturating_sub (fst (last xs)) (fst (xs ! ?k)) = fst (last xs) - fst (xs ! ?k)"
    unfolding saturating_sub_def using less by (auto simp del: length_greater_0_conv)
  have "fst (last xs) - fst (xs ! ?k) \<noteq> 0" using less by auto
  then show ?thesis
    unfolding first_derivative_def derivative_run_buffer newest_sample [OF D ne] old sub Let_def
      case_prod_beta
    using cnt by simp
qed

lemma first_derivative_exact_example:
  "first_derivative (d_buffer (derivative_run [(1000000, 0), (2000000, - 100), (3000000, - 300)])) =
     Inr (- 150)"
  using first_derivative_exact [of "[(1000000, 0), (2000000, - 100), (3000000, - 300)]"]
  by (simp add: rate_per_ms_def i64_div_def s64_def signed_divide_int_def)

text \<open>Two samples less than a millisecond apart make the statistics panic: the guard tests the
  difference in nanoseconds for zero, the division is by the difference in milliseconds.\<close>

lemma derivative_divides_by_zero:
  assumes "t0 < t1" "t1 - t0 < 1000000"
  shows "derivative_stats (derivative_run [(t0, p0), (t1, p1)]) = Inl DivideByZero"
proof -
  have "(t1 - t0) div 1000000 = 0" using assms(2)
    by (simp add: word_less_nat_alt unat_eq_zero [symmetric] unat_div_distrib)
  then have "first_derivative (d_buffer (derivative_run [(t0, p0), (t1, p1)])) = Inl DivideByZero"
    using first_derivative_exact [of "[(t0, p0), (t1, p1)]"] assms(1)
    by (simp add: rate_per_ms_def i64_div_def)
  then show ?thesis by (simp add: derivative_stats_def)
qed

lemma derivative_divides_by_zero_example:
  "derivative_stats (derivative_run [(1000, 0), (2000, 5)]) = Inl DivideByZero"
  using derivative_divides_by_zero [of 1000 2000 0 5] by simp

end
