(* ===== verification/Ring_Concurrent.thy ===== *)
theory Ring_Concurrent
  imports Ring_Queue
begin

text \<open>
  The same ring queue under overlapping calls (\<open>lock_free_order_queue.rs\<close>).  Every call of
  \<open>try_enqueue\<close> or \<open>try_dequeue\<close> is a thread; a step is one access to shared memory, with the
  local computation that follows it; a schedule names the thread that moves next and whether
  its weak exchange fails without cause.  A program thread that makes several calls is several
  threads here, of which the schedule runs one after the other.  Accesses are sequentially
  consistent: the acquire and release orderings of the code are meant to give the same.

  The theory shows that with a capacity of at least two no item is lost, duplicated or read
  before it was written, and that both fail for a capacity of one.
\<close>

section \<open>Threads\<close>

text \<open>The program counters hold what the thread has read; \<open>'p\<close> are positions.\<close>

datatype ('a, 'p) ring_pc =
    PStart 'a | PHead 'a 'p | PRoom 'a 'p | PReady 'a 'p
  | PClaimed 'a 'p | PWritten 'a 'p | PPublished 'a 'p | PDone 'a 'p | PFull 'a
  | CStart | CTail 'p | CSome 'p | CReady 'p
  | CClaimed 'p | CTook 'p "'a option" | CReleased 'p "'a option" | CCounted 'p "'a option"
  | CDone 'p "'a option" | CEmpty

record 'a ring_threads =
  ring :: "'a ring_queue"
  rpc :: "nat \<Rightarrow> ('a, u64) ring_pc"

definition goto :: "nat \<Rightarrow> ('a, u64) ring_pc \<Rightarrow> 'a ring_queue \<Rightarrow> 'a ring_threads \<Rightarrow> 'a ring_threads" where
  "goto i p q s = s\<lparr>ring := q, rpc := (rpc s)(i := p)\<rparr>"

definition producer_step ::
  "nat \<Rightarrow> bool \<Rightarrow> ('a, u64) ring_pc \<Rightarrow> 'a ring_threads \<Rightarrow> 'a ring_threads" where
  "producer_step i spurious p s =
     (let q = ring s
      in case p of
           PStart x \<Rightarrow> goto i (PHead x (head q)) q s
         | PHead x h \<Rightarrow>
             goto i (if h - tail q \<ge> of_nat (capacity q) then PFull x else PRoom x h) q s
         | PRoom x h \<Rightarrow>
             goto i (if slot_sequence q (slot_index q h) - h = 0 then PReady x h else PStart x) q s
         | PReady x h \<Rightarrow>
             if head q = h \<and> \<not> spurious then goto i (PClaimed x h) (q\<lparr>head := h + 1\<rparr>) s
             else goto i (PStart x) q s
         | PClaimed x h \<Rightarrow>
             goto i (PWritten x h) (q\<lparr>slot_data := (slot_data q)(slot_index q h := Some x)\<rparr>) s
         | PWritten x h \<Rightarrow>
             goto i (PPublished x h)
               (q\<lparr>slot_sequence := (slot_sequence q)(slot_index q h := h + 1)\<rparr>) s
         | PPublished x h \<Rightarrow> goto i (PDone x h) (q\<lparr>item_count := item_count q + 1\<rparr>) s
         | _ \<Rightarrow> s)"

definition consumer_step ::
  "('a \<Rightarrow> bool) \<Rightarrow> nat \<Rightarrow> bool \<Rightarrow> ('a, u64) ring_pc \<Rightarrow> 'a ring_threads \<Rightarrow> 'a ring_threads" where
  "consumer_step validator i spurious p s =
     (let q = ring s
      in case p of
           CStart \<Rightarrow> goto i (CTail (tail q)) q s
         | CTail t \<Rightarrow> goto i (if t \<ge> head q then CEmpty else CSome t) q s
         | CSome t \<Rightarrow>
             goto i (if slot_sequence q (slot_index q t) - (t + 1) = 0 then CReady t else CStart) q s
         | CReady t \<Rightarrow>
             if tail q = t \<and> \<not> spurious then goto i (CClaimed t) (q\<lparr>tail := t + 1\<rparr>) s
             else goto i CStart q s
         | CClaimed t \<Rightarrow>
             goto i (CTook t (slot_data q (slot_index q t)))
               (q\<lparr>slot_data := (slot_data q)(slot_index q t := None)\<rparr>) s
         | CTook t r \<Rightarrow>
             goto i (CReleased t r)
               (q\<lparr>slot_sequence := (slot_sequence q)(slot_index q t := t + of_nat (capacity q))\<rparr>) s
         | CReleased t r \<Rightarrow> goto i (CCounted t r) (q\<lparr>item_count := item_count q - 1\<rparr>) s
         | CCounted t r \<Rightarrow>
             goto i (CDone t r)
               (case r of
                  Some x \<Rightarrow> if validator x then q else q\<lparr>dropped_count := dropped_count q + 1\<rparr>
                | None \<Rightarrow> q) s
         | _ \<Rightarrow> s)"

definition ring_step ::
  "(nat \<Rightarrow> 'a \<Rightarrow> bool) \<Rightarrow> nat \<times> bool \<Rightarrow> 'a ring_threads \<Rightarrow> 'a ring_threads" where
  "ring_step validator e s =
     (let (i, spurious) = e; p = rpc s i
      in case p of
           CStart \<Rightarrow> consumer_step (validator i) i spurious p s
         | CTail _ \<Rightarrow> consumer_step (validator i) i spurious p s
         | CSome _ \<Rightarrow> consumer_step (validator i) i spurious p s
         | CReady _ \<Rightarrow> consumer_step (validator i) i spurious p s
         | CClaimed _ \<Rightarrow> consumer_step (validator i) i spurious p s
         | CTook _ _ \<Rightarrow> consumer_step (validator i) i spurious p s
         | CReleased _ _ \<Rightarrow> consumer_step (validator i) i spurious p s
         | CCounted _ _ \<Rightarrow> consumer_step (validator i) i spurious p s
         | _ \<Rightarrow> producer_step i spurious p s)"

text \<open>Each thread is at the start of an enqueue of its item or of a dequeue.\<close>

datatype 'a ring_job = Enq 'a | Deq

definition job_start :: "'a ring_job \<Rightarrow> ('a, 'p) ring_pc" where
  "job_start j = (case j of Enq x \<Rightarrow> PStart x | Deq \<Rightarrow> CStart)"

definition ring_run ::
  "(nat \<Rightarrow> 'a \<Rightarrow> bool) \<Rightarrow> (nat \<Rightarrow> 'a ring_job) \<Rightarrow> (nat \<times> bool) list \<Rightarrow> 'a ring_queue \<Rightarrow> 'a ring_threads" where
  "ring_run validator jobs sched q =
     fold (ring_step validator) sched \<lparr>ring = q, rpc = \<lambda>i. job_start (jobs i)\<rparr>"

section \<open>The machine on unbounded positions\<close>

text \<open>
  The proof works on positions that do not wrap, with a ghost component for the items: \<open>nitem p\<close>
  is the item of the producer that claimed position \<open>p\<close>.
\<close>

record 'a nring =
  ncap :: nat
  nhead :: nat
  ntail :: nat
  nseq :: "nat \<Rightarrow> nat"
  ndata :: "nat \<Rightarrow> 'a option"
  ncount :: u64
  ndropped :: u64
  npc :: "nat \<Rightarrow> ('a, nat) ring_pc"
  nitem :: "nat \<Rightarrow> 'a"

fun nmove :: "('a \<Rightarrow> bool) \<Rightarrow> bool \<Rightarrow> ('a, nat) ring_pc \<Rightarrow> 'a nring \<Rightarrow> ('a, nat) ring_pc \<times> 'a nring" where
  "nmove v sp (PStart x) s = (PHead x (nhead s), s)"
| "nmove v sp (PHead x h) s = (if h < ntail s \<or> ntail s + ncap s \<le> h then PFull x else PRoom x h, s)"
| "nmove v sp (PRoom x h) s = (if nseq s (h mod ncap s) = h then PReady x h else PStart x, s)"
| "nmove v sp (PReady x h) s =
     (if nhead s = h \<and> \<not> sp then (PClaimed x h, s\<lparr>nhead := Suc h, nitem := (nitem s)(h := x)\<rparr>)
      else (PStart x, s))"
| "nmove v sp (PClaimed x h) s = (PWritten x h, s\<lparr>ndata := (ndata s)(h mod ncap s := Some x)\<rparr>)"
| "nmove v sp (PWritten x h) s = (PPublished x h, s\<lparr>nseq := (nseq s)(h mod ncap s := Suc h)\<rparr>)"
| "nmove v sp (PPublished x h) s = (PDone x h, s\<lparr>ncount := ncount s + 1\<rparr>)"
| "nmove v sp CStart s = (CTail (ntail s), s)"
| "nmove v sp (CTail t) s = (if nhead s \<le> t then CEmpty else CSome t, s)"
| "nmove v sp (CSome t) s = (if nseq s (t mod ncap s) = Suc t then CReady t else CStart, s)"
| "nmove v sp (CReady t) s =
     (if ntail s = t \<and> \<not> sp then (CClaimed t, s\<lparr>ntail := Suc t\<rparr>) else (CStart, s))"
| "nmove v sp (CClaimed t) s =
     (CTook t (ndata s (t mod ncap s)), s\<lparr>ndata := (ndata s)(t mod ncap s := None)\<rparr>)"
| "nmove v sp (CTook t r) s = (CReleased t r, s\<lparr>nseq := (nseq s)(t mod ncap s := t + ncap s)\<rparr>)"
| "nmove v sp (CReleased t r) s = (CCounted t r, s\<lparr>ncount := ncount s - 1\<rparr>)"
| "nmove v sp (CCounted t r) s =
     (CDone t r,
      case r of Some x \<Rightarrow> if v x then s else s\<lparr>ndropped := ndropped s + 1\<rparr> | None \<Rightarrow> s)"
| "nmove v sp p s = (p, s)"

definition nstep :: "(nat \<Rightarrow> 'a \<Rightarrow> bool) \<Rightarrow> nat \<times> bool \<Rightarrow> 'a nring \<Rightarrow> 'a nring" where
  "nstep v e s =
     (let (p, s') = nmove (v (fst e)) (snd e) (npc s (fst e)) s
      in s'\<lparr>npc := (npc s')(fst e := p)\<rparr>)"

section \<open>The invariant\<close>

text \<open>The position a producer or a consumer owns, once its exchange has succeeded.\<close>

fun prod_at :: "('a, 'p) ring_pc \<Rightarrow> 'p option" where
  "prod_at (PClaimed x p) = Some p"
| "prod_at (PWritten x p) = Some p"
| "prod_at (PPublished x p) = Some p"
| "prod_at (PDone x p) = Some p"
| "prod_at _ = None"

fun cons_at :: "('a, 'p) ring_pc \<Rightarrow> 'p option" where
  "cons_at (CClaimed p) = Some p"
| "cons_at (CTook p r) = Some p"
| "cons_at (CReleased p r) = Some p"
| "cons_at (CCounted p r) = Some p"
| "cons_at (CDone p r) = Some p"
| "cons_at _ = None"

fun pc_ok :: "'a nring \<Rightarrow> ('a, nat) ring_pc \<Rightarrow> bool" where
  "pc_ok s (PStart x) = True"
| "pc_ok s (PHead x h) = (h \<le> nhead s)"
| "pc_ok s (PRoom x h) = (h \<le> nhead s \<and> h < ntail s + ncap s)"
| "pc_ok s (PReady x h) =
     (h \<le> nhead s \<and> h < ntail s + ncap s \<and> (h = nhead s \<longrightarrow> nseq s (h mod ncap s) = h))"
| "pc_ok s (PClaimed x p) = (x = nitem s p \<and> p < nhead s \<and> nseq s (p mod ncap s) = p)"
| "pc_ok s (PWritten x p) =
     (x = nitem s p \<and> p < nhead s \<and> nseq s (p mod ncap s) = p \<and> ndata s (p mod ncap s) = Some x)"
| "pc_ok s (PPublished x p) =
     (x = nitem s p \<and> p < nhead s \<and> (ntail s \<le> p \<longrightarrow> nseq s (p mod ncap s) = Suc p))"
| "pc_ok s (PDone x p) =
     (x = nitem s p \<and> p < nhead s \<and> (ntail s \<le> p \<longrightarrow> nseq s (p mod ncap s) = Suc p))"
| "pc_ok s (PFull x) = True"
| "pc_ok s CStart = True"
| "pc_ok s (CTail t) = (t \<le> ntail s)"
| "pc_ok s (CSome t) = (t \<le> ntail s \<and> t < nhead s)"
| "pc_ok s (CReady t) =
     (t \<le> ntail s \<and> t < nhead s \<and> (t = ntail s \<longrightarrow> nseq s (t mod ncap s) = Suc t))"
| "pc_ok s (CClaimed p) =
     (p < ntail s \<and> nseq s (p mod ncap s) = Suc p \<and> ndata s (p mod ncap s) = Some (nitem s p))"
| "pc_ok s (CTook p r) = (p < ntail s \<and> nseq s (p mod ncap s) = Suc p \<and> r = Some (nitem s p))"
| "pc_ok s (CReleased p r) = (p < ntail s \<and> r = Some (nitem s p))"
| "pc_ok s (CCounted p r) = (p < ntail s \<and> r = Some (nitem s p))"
| "pc_ok s (CDone p r) = (p < ntail s \<and> r = Some (nitem s p))"
| "pc_ok s CEmpty = True"

definition slots_ok :: "'a nring \<Rightarrow> bool" where
  "slots_ok s \<longleftrightarrow>
     2 \<le> ncap s \<and> ntail s \<le> nhead s \<and> nhead s \<le> ntail s + ncap s \<and>
     (\<forall>p. ntail s \<le> p \<and> p < nhead s \<and> nseq s (p mod ncap s) = Suc p \<longrightarrow>
        ndata s (p mod ncap s) = Some (nitem s p)) \<and>
     (\<forall>i < ncap s. nseq s i \<le> nhead s + ncap s)"

definition owners_ok :: "'a nring \<Rightarrow> bool" where
  "owners_ok s \<longleftrightarrow>
     (\<forall>i j. i \<noteq> j \<longrightarrow> prod_at (npc s i) \<noteq> None \<longrightarrow> prod_at (npc s i) \<noteq> prod_at (npc s j)) \<and>
     (\<forall>i j. i \<noteq> j \<longrightarrow> cons_at (npc s i) \<noteq> None \<longrightarrow> cons_at (npc s i) \<noteq> cons_at (npc s j)) \<and>
     (\<forall>p < nhead s. \<exists>j. prod_at (npc s j) = Some p) \<and>
     (\<forall>p < ntail s. \<exists>j. cons_at (npc s j) = Some p)"

definition ninv :: "'a nring \<Rightarrow> bool" where
  "ninv s \<longleftrightarrow> slots_ok s \<and> owners_ok s \<and> (\<forall>j. pc_ok s (npc s j))"

section \<open>Every step keeps the invariant\<close>

text \<open>A slot never carries two neighbouring positions: this is where a capacity of one fails.\<close>

lemma no_neighbour:
  assumes "2 \<le> c"
  shows "Suc a mod c = a mod c \<longleftrightarrow> False" "a mod c = Suc a mod c \<longleftrightarrow> False"
    and "Suc a = b \<Longrightarrow> b mod c = a mod c \<longleftrightarrow> False"
  using assms by (auto simp: mod_Suc split: if_splits)

lemma pc_ok_frame [simp]:
  "pc_ok (s\<lparr>npc := f\<rparr>) p = pc_ok s p" "pc_ok (s\<lparr>ncount := c\<rparr>) p = pc_ok s p"
  "pc_ok (s\<lparr>ndropped := c\<rparr>) p = pc_ok s p"
  by (cases p; simp)+

lemma others_claim:
  assumes "pc_ok s p" "ntail s \<le> nhead s"
  shows "pc_ok (s\<lparr>nhead := Suc (nhead s), nitem := (nitem s)(nhead s := x)\<rparr>) p"
  using assms by (cases p) auto

lemma others_take:
  assumes "pc_ok s p"
  shows "pc_ok (s\<lparr>ntail := Suc (ntail s)\<rparr>) p"
  using assms by (cases p) auto

lemma others_write:
  assumes "pc_ok s p" "pc_ok s (PClaimed x h)" "prod_at p \<noteq> Some h" "2 \<le> ncap s"
  shows "pc_ok (s\<lparr>ndata := (ndata s)(h mod ncap s := d)\<rparr>) p"
  using assms by (cases p) (auto simp: no_neighbour)

lemma others_publish:
  assumes "pc_ok s p" "pc_ok s (PWritten x h)" "prod_at p \<noteq> Some h" "2 \<le> ncap s"
  shows "pc_ok (s\<lparr>nseq := (nseq s)(h mod ncap s := Suc h)\<rparr>) p"
  using assms by (cases p) (auto simp: no_neighbour)

lemma others_empty:
  assumes "pc_ok s p" "pc_ok s (CClaimed t)" "cons_at p \<noteq> Some t" "2 \<le> ncap s"
  shows "pc_ok (s\<lparr>ndata := (ndata s)(t mod ncap s := None)\<rparr>) p"
  using assms by (cases p) (auto simp: no_neighbour)

lemma others_release:
  assumes "pc_ok s p" "pc_ok s (CTook t r)" "cons_at p \<noteq> Some t" "2 \<le> ncap s"
  shows "pc_ok (s\<lparr>nseq := (nseq s)(t mod ncap s := t + ncap s)\<rparr>) p"
  using assms by (cases p) (auto simp: no_neighbour)

text \<open>The slots.\<close>

lemma slots_frame [simp]:
  "slots_ok (s\<lparr>npc := f\<rparr>) = slots_ok s" "slots_ok (s\<lparr>ncount := c\<rparr>) = slots_ok s"
  "slots_ok (s\<lparr>ndropped := c\<rparr>) = slots_ok s"
  by (simp_all add: slots_ok_def)

lemma slots_move:
  assumes "slots_ok s" "pc_ok s p"
  shows "slots_ok (snd (nmove v sp p s))"
proof -
  have c: "2 \<le> ncap s" using assms(1) by (simp add: slots_ok_def)
  then have m: "q mod ncap s < ncap s" for q by simp
  show ?thesis
  proof (cases p)
    case (PReady x h)
    then show ?thesis using assms by (auto simp: slots_ok_def less_Suc_eq)
  next
    case (PClaimed x h)
    then show ?thesis using assms by (auto simp: slots_ok_def no_neighbour)
  next
    case (PWritten x h)
    have h: "x = nitem s h" "h < nhead s" "ndata s (h mod ncap s) = Some x"
      using assms(2) PWritten by auto
    have data: "ndata s (q mod ncap s) = Some (nitem s q)"
      if "ntail s \<le> q" "q < nhead s" "nseq s (q mod ncap s) = Suc q" for q
      using assms(1) that by (simp add: slots_ok_def)
    have "ndata s (q mod ncap s) = Some (nitem s q)"
      if "ntail s \<le> q" "q < nhead s"
        "((nseq s)(h mod ncap s := Suc h)) (q mod ncap s) = Suc q" for q
    proof (cases "q mod ncap s = h mod ncap s")
      case True
      then have "q = h" using that(3) by simp
      then show ?thesis using h by simp
    next
      case False
      then show ?thesis using data that by simp
    qed
    moreover have "((nseq s)(h mod ncap s := Suc h)) i \<le> nhead s + ncap s" if "i < ncap s" for i
      using assms(1) h(2) that by (simp add: slots_ok_def)
    ultimately show ?thesis
      using assms(1) unfolding PWritten slots_ok_def nmove.simps snd_conv by simp
  next
    case (CReady t)
    then show ?thesis using assms by (auto simp: slots_ok_def)
  next
    case (CClaimed t)
    then show ?thesis using assms by (auto simp: slots_ok_def)
  next
    case (CTook t r)
    have "False" if "q mod ncap s = t mod ncap s" "t + ncap s = Suc q" for q
      using no_neighbour(1) [OF c, of q] that by (metis mod_add_self2)
    then show ?thesis using assms CTook by (auto simp: slots_ok_def)
  next
    case (CCounted t r)
    then show ?thesis using assms by (auto split: option.splits)
  qed (use assms in auto)
qed

text \<open>The thread that moves, and the others.\<close>

lemma pc_ok_move:
  assumes "slots_ok s" "pc_ok s p"
  shows "pc_ok (snd (nmove v sp p s)) (fst (nmove v sp p s))"
  using assms by (cases p) (auto simp: slots_ok_def split: option.splits)

lemma pc_ok_other:
  assumes "slots_ok s" "pc_ok s p" "pc_ok s p'"
    and "prod_at p \<noteq> None \<Longrightarrow> prod_at p' \<noteq> prod_at p" "cons_at p \<noteq> None \<Longrightarrow> cons_at p' \<noteq> cons_at p"
  shows "pc_ok (snd (nmove v sp p s)) p'"
proof -
  have c: "2 \<le> ncap s" "ntail s \<le> nhead s" using assms(1) by (simp_all add: slots_ok_def)
  show ?thesis
  proof (cases p)
    case (PReady x h)
    then show ?thesis using others_claim [OF assms(3) c(2)] assms by auto
  next
    case (PClaimed x h)
    then show ?thesis using others_write [OF assms(3), of x h] assms c by auto
  next
    case (PWritten x h)
    then show ?thesis using others_publish [OF assms(3), of x h] assms c by auto
  next
    case (CReady t)
    then show ?thesis using others_take [OF assms(3)] assms by auto
  next
    case (CClaimed t)
    then show ?thesis using others_empty [OF assms(3), of t] assms c by auto
  next
    case (CTook t r)
    then show ?thesis using others_release [OF assms(3), of t r] assms c by auto
  next
    case (CCounted t r)
    then show ?thesis using assms by (auto split: option.splits)
  qed (use assms in auto)
qed

text \<open>A step claims at most the next position.\<close>

lemma owners_move:
  assumes "pc_ok s p"
  shows "prod_at (fst (nmove v sp p s)) = prod_at p \<and> nhead (snd (nmove v sp p s)) = nhead s \<or>
         prod_at p = None \<and> prod_at (fst (nmove v sp p s)) = Some (nhead s) \<and>
         nhead (snd (nmove v sp p s)) = Suc (nhead s)"
    and "cons_at (fst (nmove v sp p s)) = cons_at p \<and> ntail (snd (nmove v sp p s)) = ntail s \<or>
         cons_at p = None \<and> cons_at (fst (nmove v sp p s)) = Some (ntail s) \<and>
         ntail (snd (nmove v sp p s)) = Suc (ntail s)"
  using assms by (cases p; auto split: option.splits)+

lemma npc_move [simp]: "npc (snd (nmove v sp p s)) = npc s" "ncap (snd (nmove v sp p s)) = ncap s"
  by (cases p; auto split: option.splits)+

lemma owned_in_range:
  "pc_ok s p \<Longrightarrow> prod_at p = Some q \<Longrightarrow> q < nhead s"
  "pc_ok s p \<Longrightarrow> cons_at p = Some q \<Longrightarrow> q < ntail s"
  by (cases p; simp)+

lemma prod_distinct:
  "owners_ok s \<Longrightarrow> prod_at (npc s i) = Some p \<Longrightarrow> prod_at (npc s j) = Some p \<Longrightarrow> i = j"
  unfolding owners_ok_def by (metis option.distinct(1))

lemma cons_distinct:
  "owners_ok s \<Longrightarrow> cons_at (npc s i) = Some p \<Longrightarrow> cons_at (npc s j) = Some p \<Longrightarrow> i = j"
  unfolding owners_ok_def by (metis option.distinct(1))

text \<open>Ownership of the positions below a bound that grows by at most one, to a thread without one.\<close>

lemma owners_update:
  fixes f :: "nat \<Rightarrow> nat option"
  assumes inj: "\<forall>i j. i \<noteq> j \<longrightarrow> f i \<noteq> None \<longrightarrow> f i \<noteq> f j"
    and cov: "\<forall>p < n. \<exists>j. f j = Some p"
    and below: "\<And>j p. f j = Some p \<Longrightarrow> p < n"
    and step: "a = f i \<and> n' = n \<or> f i = None \<and> a = Some n \<and> n' = Suc n"
  shows "(\<forall>j k. j \<noteq> k \<longrightarrow> (f(i := a)) j \<noteq> None \<longrightarrow> (f(i := a)) j \<noteq> (f(i := a)) k) \<and>
         (\<forall>p < n'. \<exists>j. (f(i := a)) j = Some p)"
  using step
proof
  assume "a = f i \<and> n' = n"
  then show ?thesis using inj cov by simp
next
  assume a: "f i = None \<and> a = Some n \<and> n' = Suc n"
  have "\<exists>j. (f(i := a)) j = Some p" if "p < Suc n" for p
  proof (cases "p = n")
    case True
    then show ?thesis using a by (intro exI [of _ i]) simp
  next
    case False
    then obtain j where "f j = Some p" using cov [rule_format, of p] \<open>p < Suc n\<close> by auto
    then show ?thesis using a by (intro exI [of _ j]) auto
  qed
  moreover have fresh: "f k \<noteq> Some n" for k using below [of k n] by blast
  have "(f(i := a)) j \<noteq> (f(i := a)) k" if "j \<noteq> k" "(f(i := a)) j \<noteq> None" for j k
    using that a inj fresh [of j] fresh [of k] by (cases "j = i"; cases "k = i") auto
  ultimately show ?thesis using a by blast
qed

lemma npc_nstep: "npc (nstep v (i, sp) s) = (npc s)(i := fst (nmove (v i) sp (npc s i) s))"
  by (simp add: nstep_def case_prod_beta Let_def)

lemma nstep_frame:
  "nhead (nstep v (i, sp) s) = nhead (snd (nmove (v i) sp (npc s i) s))"
  "ntail (nstep v (i, sp) s) = ntail (snd (nmove (v i) sp (npc s i) s))"
  by (simp_all add: nstep_def case_prod_beta Let_def)

lemma ninv_step:
  assumes "ninv s"
  shows "ninv (nstep v e s)"
proof -
  obtain i sp where e: "e = (i, sp)" by fastforce
  have slots: "slots_ok s" and own: "owners_ok s" and pcs: "\<And>j. pc_ok s (npc s j)"
    using assms by (simp_all add: ninv_def)
  have "pc_ok (snd (nmove (v i) sp (npc s i) s)) (npc s j)" if "j \<noteq> i" for j
    using prod_distinct [OF own, of i _ j] cons_distinct [OF own, of i _ j] that
    by (intro pc_ok_other slots pcs) force+
  moreover have "slots_ok (snd (nmove (v i) sp (npc s i) s))" by (rule slots_move [OF slots pcs])
  moreover have "pc_ok (snd (nmove (v i) sp (npc s i) s)) (fst (nmove (v i) sp (npc s i) s))"
    by (rule pc_ok_move [OF slots pcs])
  moreover have "owners_ok (nstep v e s)"
  proof -
    let ?m = "nmove (v i) sp (npc s i) s"
    have 1: "(\<forall>j k. j \<noteq> k \<longrightarrow> ((\<lambda>j. prod_at (npc s j))(i := prod_at (fst ?m))) j \<noteq> None \<longrightarrow>
        ((\<lambda>j. prod_at (npc s j))(i := prod_at (fst ?m))) j \<noteq>
          ((\<lambda>j. prod_at (npc s j))(i := prod_at (fst ?m))) k) \<and>
      (\<forall>p < nhead (snd ?m). \<exists>j. ((\<lambda>j. prod_at (npc s j))(i := prod_at (fst ?m))) j = Some p)"
      using own owned_in_range(1) [OF pcs] owners_move(1) [OF pcs, of "v i" sp i]
      by (intro owners_update [where n = "nhead s"]) (auto simp: owners_ok_def)
    have 2: "(\<forall>j k. j \<noteq> k \<longrightarrow> ((\<lambda>j. cons_at (npc s j))(i := cons_at (fst ?m))) j \<noteq> None \<longrightarrow>
        ((\<lambda>j. cons_at (npc s j))(i := cons_at (fst ?m))) j \<noteq>
          ((\<lambda>j. cons_at (npc s j))(i := cons_at (fst ?m))) k) \<and>
      (\<forall>p < ntail (snd ?m). \<exists>j. ((\<lambda>j. cons_at (npc s j))(i := cons_at (fst ?m))) j = Some p)"
      using own owned_in_range(2) [OF pcs] owners_move(2) [OF pcs, of "v i" sp i]
      by (intro owners_update [where n = "ntail s"]) (auto simp: owners_ok_def)
    have at: "(\<lambda>j. f (((npc s)(i := p)) j)) = (\<lambda>j. f (npc s j))(i := f p)"
      for f :: "('a, nat) ring_pc \<Rightarrow> nat option" and p
      by auto
    show ?thesis
      using 1 2 unfolding owners_ok_def e npc_nstep nstep_frame at [symmetric] by blast
  qed
  ultimately show ?thesis
    unfolding ninv_def e by (simp add: nstep_def case_prod_beta Let_def)
qed

interpretation nring: invariant_machine "nstep v" ninv
  by unfold_locales (rule ninv_step)

section \<open>Simulation\<close>

definition rep :: "'a nring \<Rightarrow> 'a ring_threads" where
  "rep s =
     \<lparr>ring = \<lparr>slot_sequence = \<lambda>i. of_nat (nseq s i), slot_data = ndata s, capacity = ncap s,
              index_mask = of_nat (ncap s - 1), head = of_nat (nhead s), tail = of_nat (ntail s),
              item_count = ncount s, dropped_count = ndropped s\<rparr>,
      rpc = \<lambda>i. map_ring_pc id of_nat (npc s i)\<rparr>"

lemma unat_of_nat_u64: "a < 2 ^ 64 \<Longrightarrow> unat (of_nat a :: u64) = a"
  by (simp add: unsigned_of_nat take_bit_nat_eq_self)

lemma of_nat_u64_eq: "a < 2 ^ 64 \<Longrightarrow> b < 2 ^ 64 \<Longrightarrow> (of_nat a :: u64) = of_nat b \<longleftrightarrow> a = b"
  by (metis unat_of_nat_u64)

lemma full_test:
  assumes "h < 2 ^ 64" "t + c < 2 ^ 64"
  shows "of_nat c \<le> (of_nat h - of_nat t :: u64) \<longleftrightarrow> h < t \<or> t + c \<le> h"
proof (cases "t \<le> h")
  case True
  then have "(of_nat h - of_nat t :: u64) = of_nat (h - t)" by simp
  then have "unat (of_nat h - of_nat t :: u64) = h - t" using assms by (simp add: unat_of_nat_u64)
  then show ?thesis using assms True by (auto simp: word_le_nat_alt unat_of_nat_u64)
next
  case False
  then have "unat (of_nat h - of_nat t :: u64) = 2 ^ 64 + h - t"
    using assms by (simp add: unat_sub_if' word_le_nat_alt unat_of_nat_u64)
  then show ?thesis using assms False by (simp add: word_le_nat_alt unat_of_nat_u64)
qed

lemma slot_index_rep:
  assumes "ncap s = 2 ^ k" "p < 2 ^ 64"
  shows "slot_index (ring (rep s)) (of_nat p) = p mod ncap s"
proof -
  have "index_mask (ring (rep s)) = mask k" by (simp add: rep_def assms(1) mask_eq_decr_exp)
  then show ?thesis using assms by (simp add: slot_index_def unat_and_mask unat_of_nat_u64)
qed

lemma slot_seq_bound: "slots_ok s \<Longrightarrow> nseq s (p mod ncap s) \<le> nhead s + ncap s"
  by (simp add: slots_ok_def)

lemma rep_step:
  assumes inv: "ninv s" and cap: "ncap s = 2 ^ k" and room: "nhead s + ncap s < 2 ^ 64 - 1"
  shows "rep (nstep v e s) = ring_step v e (rep s)"
proof -
  obtain i sp where e: "e = (i, sp)" by fastforce
  have slots: "slots_ok s" and pc: "pc_ok s (npc s i)" using inv by (simp_all add: ninv_def)
  have tail: "ntail s \<le> nhead s" using slots by (simp add: slots_ok_def)
  note seqb = slot_seq_bound [OF slots]
  have seq_eq: "(of_nat (nseq s (p mod ncap s)) :: u64) = of_nat q \<longleftrightarrow> nseq s (p mod ncap s) = q"
    if "q \<le> Suc (nhead s)" for p q
    using seqb [of p] room that by (intro of_nat_u64_eq) simp_all
  have idx: "slot_index (ring (rep s)) (of_nat p) = p mod ncap s" if "p \<le> nhead s" for p
    using that room by (intro slot_index_rep [OF cap]) simp
  have pc_rep: "rpc (rep s) i = map_ring_pc id of_nat (npc s i)" by (simp add: rep_def)
  note defs = e nstep_def ring_step_def producer_step_def consumer_step_def goto_def pc_rep Let_def
  show ?thesis
  proof (cases "npc s i")
    case (PHead x h)
    then have "h < 2 ^ 64" "ntail s + ncap s < 2 ^ 64" using pc tail room by simp_all
    from full_test [OF this] show ?thesis using PHead by (auto simp: defs) (auto simp: rep_def fun_eq_iff)
  next
    case (PRoom x h)
    then show ?thesis using pc idx [of h] seq_eq [of h h]
      by (auto simp: defs) (auto simp: rep_def fun_eq_iff)
  next
    case (PReady x h)
    then have "(of_nat (nhead s) :: u64) = of_nat h \<longleftrightarrow> nhead s = h"
      using pc room by (intro of_nat_u64_eq) simp_all
    then show ?thesis using PReady by (auto simp: defs) (auto simp: rep_def fun_eq_iff add.commute)
  next
    case (PClaimed x h)
    then show ?thesis using pc idx [of h] by (simp add: defs) (auto simp: rep_def fun_eq_iff)
  next
    case (PWritten x h)
    then show ?thesis using pc idx [of h] by (simp add: defs) (auto simp: rep_def fun_eq_iff add.commute)
  next
    case (CTail t)
    then have "(of_nat (nhead s) :: u64) \<le> of_nat t \<longleftrightarrow> nhead s \<le> t"
      using pc tail room by (simp add: word_le_nat_alt unat_of_nat_u64)
    then show ?thesis using CTail by (auto simp: defs) (auto simp: rep_def fun_eq_iff)
  next
    case (CSome t)
    then show ?thesis using pc idx [of t] seq_eq [of "Suc t" t]
      by (auto simp: defs add.commute) (auto simp: rep_def fun_eq_iff)
  next
    case (CReady t)
    then have "(of_nat (ntail s) :: u64) = of_nat t \<longleftrightarrow> ntail s = t"
      using pc tail room by (intro of_nat_u64_eq) simp_all
    then show ?thesis using CReady by (auto simp: defs) (auto simp: rep_def fun_eq_iff add.commute)
  next
    case (CClaimed t)
    then show ?thesis using pc tail idx [of t] by (simp add: defs) (auto simp: rep_def fun_eq_iff)
  next
    case (CTook t r)
    then show ?thesis using pc tail idx [of t] by (simp add: defs) (auto simp: rep_def fun_eq_iff)
  next
    case (CCounted t r)
    then show ?thesis by (auto simp: defs split: option.split) (auto simp: rep_def fun_eq_iff)
  qed (auto simp: defs rep_def fun_eq_iff)
qed

section \<open>Runs\<close>

definition nstart :: "nat \<Rightarrow> (nat \<Rightarrow> 'a ring_job) \<Rightarrow> 'a nring" where
  "nstart cap jobs =
     \<lparr>ncap = cap, nhead = 0, ntail = 0, nseq = id, ndata = \<lambda>_. None, ncount = 0, ndropped = 0,
      npc = \<lambda>i. job_start (jobs i), nitem = undefined\<rparr>"

lemma job_start_owns_nothing [simp]:
  "prod_at (job_start j) = None" "cons_at (job_start j) = None" "pc_ok s (job_start j)"
  by (simp_all add: job_start_def split: ring_job.split)

lemma ninv_nstart: "2 \<le> cap \<Longrightarrow> ninv (nstart cap jobs)"
  by (simp add: ninv_def nstart_def slots_ok_def owners_ok_def)

fun pc_job :: "('a, 'p) ring_pc \<Rightarrow> 'a ring_job" where
  "pc_job (PStart x) = Enq x" | "pc_job (PHead x h) = Enq x" | "pc_job (PRoom x h) = Enq x"
| "pc_job (PReady x h) = Enq x" | "pc_job (PClaimed x h) = Enq x" | "pc_job (PWritten x h) = Enq x"
| "pc_job (PPublished x h) = Enq x" | "pc_job (PDone x h) = Enq x" | "pc_job (PFull x) = Enq x"
| "pc_job _ = Deq"

lemma pc_job_move: "pc_job (fst (nmove v sp p s)) = pc_job p"
  by (cases p) auto

lemma pc_job_run: "pc_job (npc (fold (nstep v) sched s) i) = pc_job (npc s i)"
  by (induction sched arbitrary: s) (auto simp: npc_nstep pc_job_move)

lemma ncap_run: "ncap (fold (nstep v) sched s) = ncap s"
  by (induction sched arbitrary: s) (auto simp: nstep_def case_prod_beta Let_def)

lemma nhead_step: "ninv s \<Longrightarrow> nhead (nstep v e s) \<le> Suc (nhead s)"
proof (cases e)
  case (Pair i sp)
  assume "ninv s"
  then have "pc_ok s (npc s i)" by (simp add: ninv_def)
  from owners_move(1) [OF this, of "v i" sp] show ?thesis by (auto simp: Pair nstep_frame)
qed

lemma rep_run:
  assumes "ninv s" "ncap s = 2 ^ k" "nhead s + ncap s + length sched < 2 ^ 64 - 1"
  shows "rep (fold (nstep v) sched s) = fold (ring_step v) sched (rep s)"
  using assms
proof (induction sched arbitrary: s)
  case Nil
  then show ?case by simp
next
  case (Cons e sched)
  have "rep (fold (nstep v) sched (nstep v e s)) = fold (ring_step v) sched (rep (nstep v e s))"
  proof (rule Cons.IH)
    show "ninv (nstep v e s)" by (rule ninv_step [OF Cons.prems(1)])
    show "ncap (nstep v e s) = 2 ^ k" using Cons.prems(2) ncap_run [of v "[e]" s] by simp
    show "nhead (nstep v e s) + ncap (nstep v e s) + length sched < 2 ^ 64 - 1"
      using Cons.prems(3) nhead_step [OF Cons.prems(1), of v e] ncap_run [of v "[e]" s] by simp
  qed
  also have "rep (nstep v e s) = ring_step v e (rep s)"
    using Cons.prems by (intro rep_step) simp_all
  finally show ?case by simp
qed

text \<open>A run of the code is the image of a run of the machine, in an invariant state.\<close>

lemma ring_run_rep:
  assumes "new_ring_queue n = Inr q" "2 \<le> n" "length sched < 2 ^ 63"
  obtains s where "ring_run v jobs sched q = rep s" "ninv s" "\<And>i. pc_job (npc s i) = jobs i"
    "\<exists>k. ncap s = 2 ^ k" "ncap s = capacity q" "nhead s + ncap s < 2 ^ 64"
proof -
  obtain k where k: "next_power_of_two n = 2 ^ k" "n \<le> 2 ^ k" "n \<le> 2 ^ 30 \<longrightarrow> k \<le> 30"
    using next_power_of_two_spec [of n 30] by blast
  have n: "n \<noteq> 0" "n \<le> 2 ^ 30" using assms(1) by (auto simp: new_ring_queue_def split: if_splits)
  then have "k \<le> 30" using k(3) by simp
  then have cap: "(2 :: nat) ^ k \<le> 2 ^ 30" by (rule power_increasing) simp
  let ?init = "nstart (2 ^ k) jobs"
  let ?s = "fold (nstep v) sched ?init"
  have q: "q = \<lparr>slot_sequence = of_nat, slot_data = \<lambda>_. None, capacity = 2 ^ k,
      index_mask = of_nat (2 ^ k - 1), head = 0, tail = 0, item_count = 0, dropped_count = 0\<rparr>"
    using assms(1) n k(1) by (simp add: new_ring_queue_def Let_def)
  have start: "rep ?init = \<lparr>ring = q, rpc = \<lambda>i. job_start (jobs i)\<rparr>"
    by (auto simp: rep_def nstart_def q job_start_def fun_eq_iff split: ring_job.split)
  have inv: "ninv ?init" using assms(2) k(2) by (intro ninv_nstart) linarith
  have "rep ?s = fold (ring_step v) sched (rep ?init)"
    by (rule rep_run [OF inv]) (use assms(3) cap in \<open>simp_all add: nstart_def\<close>)
  then have "ring_run v jobs sched q = rep ?s" by (simp add: ring_run_def start)
  moreover have "ninv ?s" by (rule nring.run_inv [OF inv])
  moreover have "pc_job (npc ?s i) = jobs i" for i
    by (simp add: pc_job_run) (simp add: nstart_def job_start_def split: ring_job.split)
  moreover have "ncap ?s = 2 ^ k" by (simp add: ncap_run nstart_def)
  moreover have "ncap ?s = capacity q" by (simp add: ncap_run nstart_def q)
  moreover have heads: "nhead ?s \<le> length sched"
  proof -
    have "nhead (fold (nstep v) es s) \<le> nhead s + length es" if "ninv s" for es s
      using that
    proof (induction es arbitrary: s)
      case (Cons e es)
      then show ?case
        using Cons.IH [OF ninv_step [OF Cons.prems], of v e] nhead_step [OF Cons.prems, of v e] by simp
    qed simp
    from this [OF inv, of sched] show ?thesis by (simp add: nstart_def)
  qed
  moreover have "nhead ?s + ncap ?s < 2 ^ 64"
    using heads cap assms(3) by (simp add: ncap_run nstart_def)
  ultimately show thesis by (intro that [of ?s] exI [of _ k])
qed

text \<open>What the program counters of the code and of the machine have in common.\<close>

lemma rep_pc: "rpc (rep s) i = map_ring_pc id of_nat (npc s i)"
  by (simp add: rep_def)

lemma rep_done:
  "rpc (rep s) i = CDone p r \<Longrightarrow> \<exists>p'. npc s i = CDone p' r \<and> p = of_nat p'"
  "rpc (rep s) i = PDone x p \<Longrightarrow> \<exists>p'. npc s i = PDone x p' \<and> p = of_nat p'"
  unfolding rep_pc by (cases "npc s i"; simp add: option.map_id)+

lemma rep_owner:
  "prod_at (rpc (rep s) i) = map_option of_nat (prod_at (npc s i))"
  "cons_at (rpc (rep s) i) = map_option of_nat (cons_at (npc s i))"
  unfolding rep_pc by (cases "npc s i"; simp)+

lemma producer_item: "pc_ok s p \<Longrightarrow> prod_at p = Some a \<Longrightarrow> pc_job p = Enq (nitem s a)"
  by (cases p) auto

text \<open>What the counters say of the positions of calls, and of calls that have returned.\<close>

lemma prod_at_rep:
  assumes "ninv s" "nhead s + ncap s < 2 ^ 64" "a < nhead s"
  shows "prod_at (rpc (rep s) i) = Some (of_nat a) \<longleftrightarrow> prod_at (npc s i) = Some a"
proof -
  have pcs: "\<And>i. pc_ok s (npc s i)" using assms(1) by (simp add: ninv_def)
  show ?thesis
    using owned_in_range(1) [OF pcs, of i] assms(2,3)
    by (cases "prod_at (npc s i)") (auto simp: rep_owner intro: of_nat_u64_eq [THEN iffD1, rotated 2])
qed

lemma cons_at_rep:
  assumes "ninv s" "nhead s + ncap s < 2 ^ 64" "a < ntail s"
  shows "cons_at (rpc (rep s) i) = Some (of_nat a) \<longleftrightarrow> cons_at (npc s i) = Some a"
proof -
  have pcs: "\<And>i. pc_ok s (npc s i)" and tail: "ntail s \<le> nhead s"
    using assms(1) by (simp_all add: ninv_def slots_ok_def)
  show ?thesis
    using owned_in_range(2) [OF pcs, of i] assms(2,3) tail
    by (cases "cons_at (npc s i)") (auto simp: rep_owner intro: of_nat_u64_eq [THEN iffD1, rotated 2])
qed

lemma dequeued_once:
  assumes s: "ninv s" "nhead s + ncap s < 2 ^ 64" and fin: "rpc (rep s) c = CDone p r"
  shows "(\<exists>m x. pc_job (npc s m) = Enq x \<and> r = Some x \<and> {m. prod_at (rpc (rep s) m) = Some p} = {m}) \<and>
      {c. cons_at (rpc (rep s) c) = Some p} = {c}"
proof -
  have own: "owners_ok s" and slots: "slots_ok s" and pcs: "\<And>i. pc_ok s (npc s i)"
    using s(1) by (simp_all add: ninv_def)
  have tail: "ntail s \<le> nhead s" using slots by (simp add: slots_ok_def)
  obtain a where a: "npc s c = CDone a r" "p = of_nat a" using rep_done(1) [OF fin] by blast
  then have lt: "a < ntail s" "r = Some (nitem s a)" using pcs [of c] by simp_all
  then have prod: "prod_at (rpc (rep s) i) = Some p \<longleftrightarrow> prod_at (npc s i) = Some a" for i
    using prod_at_rep [OF s] tail by (simp add: a(2))
  obtain m where m: "prod_at (npc s m) = Some a"
    using own lt(1) tail unfolding owners_ok_def by (meson less_le_trans)
  then have "pc_job (npc s m) = Enq (nitem s a)" using producer_item [OF pcs m] by simp
  moreover have "{m. prod_at (npc s m) = Some a} = {m}" using m prod_distinct [OF own] by blast
  moreover have "{c. cons_at (npc s c) = Some a} = {c}"
    using a(1) cons_distinct [OF own, of c a] by auto
  ultimately show ?thesis
    using lt(2) by (auto simp: prod) (auto simp: a(2) cons_at_rep [OF s lt(1)])
qed

lemma enqueued_not_lost:
  assumes s: "ninv s" "nhead s + ncap s < 2 ^ 64" "\<exists>k. ncap s = 2 ^ k" and fin: "rpc (rep s) m = PDone x p"
  shows "pc_job (npc s m) = Enq x \<and> ((\<exists>!c. cons_at (rpc (rep s) c) = Some p) \<or>
      slot_data (ring (rep s)) (slot_index (ring (rep s)) p) = Some x)"
proof -
  have own: "owners_ok s" and slots: "slots_ok s" and pcs: "\<And>i. pc_ok s (npc s i)"
    using s(1) by (simp_all add: ninv_def)
  obtain a where a: "npc s m = PDone x a" "p = of_nat a" using rep_done(2) [OF fin] by blast
  then have ok: "x = nitem s a" "a < nhead s" "ntail s \<le> a \<longrightarrow> nseq s (a mod ncap s) = Suc a"
    using pcs [of m] by simp_all
  have "pc_job (npc s m) = Enq x" using a(1) by simp
  moreover have "\<exists>!c. cons_at (rpc (rep s) c) = Some p" if lt: "a < ntail s"
  proof -
    obtain c where "cons_at (npc s c) = Some a" using own lt unfolding owners_ok_def by blast
    then show ?thesis using cons_distinct [OF own] by (auto simp: a(2) cons_at_rep [OF s(1,2) lt])
  qed
  moreover have "slot_data (ring (rep s)) (slot_index (ring (rep s)) p) = Some x" if "ntail s \<le> a"
  proof -
    obtain k where "ncap s = 2 ^ k" using s(3) by blast
    then have "slot_index (ring (rep s)) p = a mod ncap s"
      using ok(2) s(2) by (simp add: a(2) slot_index_rep)
    then show ?thesis using slots ok that by (simp add: slots_ok_def rep_def)
  qed
  ultimately show ?thesis by linarith
qed

section \<open>Properties\<close>

text \<open>C33. The ring queue is safe under any overlap of its calls.  With room for at least two items,
  whatever the interleaving of producers and consumers and whichever weak exchanges fail: a
  dequeue that returned got the item of the one producer that claimed its position, never an
  unwritten or stale slot, and no two dequeues share a position, so nothing is delivered twice;
  and an item whose enqueue returned has exactly one consumer or is still in its slot, so nothing
  is lost.\<close>

theorem ring_concurrent_exactly_once:
  assumes "new_ring_queue n = Inr q" "2 \<le> n" "length sched < 2 ^ 63"
  shows "let s = ring_run v jobs sched q in
     (\<forall>c p r. rpc s c = CDone p r \<longrightarrow>
        (\<exists>m x. jobs m = Enq x \<and> r = Some x \<and> {m. prod_at (rpc s m) = Some p} = {m}) \<and>
        {c. cons_at (rpc s c) = Some p} = {c}) \<and>
     (\<forall>m x p. rpc s m = PDone x p \<longrightarrow>
        jobs m = Enq x \<and>
        ((\<exists>!c. cons_at (rpc s c) = Some p) \<or> slot_data (ring s) (slot_index (ring s) p) = Some x))"
proof -
  obtain s where s: "ring_run v jobs sched q = rep s" "ninv s" "\<And>i. pc_job (npc s i) = jobs i"
    "\<exists>k. ncap s = 2 ^ k" "ncap s = capacity q" "nhead s + ncap s < 2 ^ 64"
    using ring_run_rep [OF assms] by metis
  show ?thesis
    unfolding s(1) Let_def s(3) [symmetric]
    using dequeued_once [OF s(2,6)] enqueued_not_lost [OF s(2,6,4)] by blast
qed

text \<open>Two overlapping enqueues and a dequeue on a queue for two items.\<close>

definition example_jobs :: "nat \<Rightarrow> nat ring_job" where
  "example_jobs i = (if i = 0 then Enq 10 else if i = 2 then Enq 20 else Deq)"

definition solo :: "nat \<Rightarrow> nat \<Rightarrow> (nat \<times> bool) list" where
  "solo n i = replicate n (i, False)"

definition example_queue :: "nat \<Rightarrow> nat ring_queue" where
  "example_queue cap =
     \<lparr>slot_sequence = of_nat, slot_data = \<lambda>_. None, capacity = cap, index_mask = of_nat (cap - 1),
      head = 0, tail = 0, item_count = 0, dropped_count = 0\<rparr>"

lemma example_queue_new:
  "new_ring_queue 1 = Inr (example_queue 1)" "new_ring_queue 2 = Inr (example_queue 2)"
  by (simp_all add: new_ring_queue_def example_queue_def next_power_of_two.simps Let_def)

lemma example_two_items:
  "rpc (ring_run (\<lambda>_ _. True) example_jobs (solo 3 0 @ solo 7 2 @ solo 5 0 @ solo 8 1) (example_queue 2)) 1 =
     CDone 0 (Some 20)"
  by code_simp

lemma ring_concurrent_exactly_once_witness:
  "{c. cons_at (rpc (ring_run (\<lambda>_ _. True) example_jobs (solo 3 0 @ solo 7 2 @ solo 5 0 @ solo 8 1)
          (example_queue 2)) c) = Some 0} = {1}"
  using ring_concurrent_exactly_once [OF example_queue_new(2), of
      "solo 3 0 @ solo 7 2 @ solo 5 0 @ solo 8 1" "\<lambda>_ _. True" example_jobs] example_two_items
  by (simp add: Let_def) (simp add: solo_def)

section \<open>A capacity of one\<close>

text \<open>Thread 0 enqueues 10; thread 1 claims it but is overtaken by thread 2, which enqueues 20.\<close>

definition overtaken :: "(nat \<times> bool) list" where
  "overtaken = solo 7 0 @ solo 4 1 @ solo 7 2 @ solo 4 1"

definition overtaken_end :: "nat ring_threads" where
  "overtaken_end = ring_run (\<lambda>_ _. True) example_jobs overtaken (example_queue 1)"

text \<open>Whether a call has returned.\<close>

fun call_returned :: "('a, 'p) ring_pc \<Rightarrow> bool" where
  "call_returned (PDone x p) = True"
| "call_returned (PFull x) = True"
| "call_returned (CDone p r) = True"
| "call_returned CEmpty = True"
| "call_returned _ = False"

lemma overtaken_ring:
  "capacity (ring overtaken_end) = 1" "head (ring overtaken_end) = 2"
  "tail (ring overtaken_end) = 1" "slot_sequence (ring overtaken_end) 0 = 1"
  "index_mask (ring overtaken_end) = 0" "rpc overtaken_end 3 = CStart"
  by code_simp+

lemma overtaken_results:
  "rpc overtaken_end 0 = PDone 10 0" "rpc overtaken_end 2 = PDone 20 1"
  "rpc overtaken_end 1 = CDone 0 (Some 20)" "slot_data (ring overtaken_end) 0 = None"
  by code_simp+

lemma stuck_consumer:
  assumes "head (ring s) = 2" "tail (ring s) = 1" "slot_sequence (ring s) 0 = 1"
    "index_mask (ring s) = 0" "rpc s i \<in> {CStart, CTail 1, CSome 1}"
  shows "let s' = fold (ring_step v) (solo k i) s in
           ring s' = ring s \<and> rpc s' i \<in> {CStart, CTail 1, CSome 1}"
  using assms
proof (induction k arbitrary: s)
  case 0
  then show ?case by (simp add: solo_def)
next
  case (Suc k)
  let ?s' = "ring_step v (i, False) s"
  have "ring ?s' = ring s \<and> rpc ?s' i \<in> {CStart, CTail 1, CSome 1}"
    using Suc.prems by (auto simp: ring_step_def consumer_step_def goto_def Let_def slot_index_def
        word_le_nat_alt)
  then show ?case using Suc.IH [of ?s'] Suc.prems by (auto simp: solo_def Let_def)
qed

text \<open>A queue for one item is broken under overlap.  The sequence number that publishes an item
  is then also the one that frees its slot: while a dequeue has claimed the first item and not
  yet taken it, a second enqueue overwrites it.  Both enqueues report success, one dequeue returns
  the second item, the first is gone; and since the dequeue then sets the sequence number back,
  the queue counts an item that no later dequeue can ever take: it spins for ever.\<close>

lemma capacity_one_loses_items:
  "new_ring_queue 1 = Inr (example_queue 1) \<and>
   (let s = ring_run (\<lambda>_ _. True) example_jobs overtaken (example_queue 1) in
      rpc s 0 = PDone 10 0 \<and> rpc s 2 = PDone 20 1 \<and> rpc s 1 = CDone 0 (Some 20) \<and>
      slot_data (ring s) 0 = None \<and> head (ring s) - tail (ring s) = 1) \<and>
   (\<forall>k. \<not> call_returned (rpc (ring_run (\<lambda>_ _. True) example_jobs (overtaken @ solo k 3) (example_queue 1)) 3))"
proof -
  have "\<not> call_returned (rpc (fold (ring_step (\<lambda>_ _. True)) (solo k 3) overtaken_end) 3)" for k
    using stuck_consumer [of overtaken_end 3 "\<lambda>_ _. True" k] by (auto simp: overtaken_ring Let_def)
  moreover have "ring_run (\<lambda>_ _. True) example_jobs (overtaken @ es) (example_queue 1) =
      fold (ring_step (\<lambda>_ _. True)) es overtaken_end" for es
    by (simp add: ring_run_def overtaken_end_def)
  ultimately show ?thesis
    using overtaken_results overtaken_ring(2,3) example_queue_new(1)
    unfolding overtaken_end_def [symmetric] Let_def by simp
qed

text \<open>A producer that read the head before another enqueue and the tail after the matching
  dequeue: the wrapping difference is huge, and an empty queue is reported full.\<close>

definition stale_head :: "(nat \<times> bool) list" where
  "stale_head = solo 1 0 @ solo 7 2 @ solo 8 1 @ solo 1 0"

lemma empty_queue_reported_full:
  "let s = ring_run (\<lambda>_ _. True) example_jobs stale_head (example_queue 2) in
     rpc s 0 = PFull 10 \<and> rpc s 1 = CDone 0 (Some 20) \<and> head (ring s) = tail (ring s)"
  by code_simp

end
