(* ===== verification/L3_Slab.thy ===== *)
theory L3_Slab
  imports Interfaces
begin

text \<open>
  The slab of individual orders of the order book,
  \<open>crates/nexus_orderbook/src/l3_slab_allocator.rs\<close>: 65536 records, a free list threaded through
  their \<open>next_index\<close> fields, and doubly linked lists of the orders of one price level through the
  same fields.  An index is a \<open>nat\<close> and \<open>INVALID_ORDER_INDEX\<close> is \<open>usize::MAX\<close>; indexing the
  array out of range panics.  The theory shows that the slab is a finite map from slots to
  orders: the contract \<open>slot_store\<close>.
\<close>

section \<open>State\<close>

definition MAX_ORDER_RECORDS :: nat where "MAX_ORDER_RECORDS = 65536"
definition INVALID_ORDER_INDEX :: nat where "INVALID_ORDER_INDEX = 2 ^ 64 - 1"

record order_record =
  r_order_id :: u64
  r_price :: u64
  r_volume :: u64
  r_side :: u8
  queue_position :: u32
  next_index :: nat
  prev_index :: nat
  occupied :: bool

definition new_record :: order_record where
  "new_record =
     \<lparr>r_order_id = 0, r_price = 0, r_volume = 0, r_side = 0, queue_position = 0,
      next_index = INVALID_ORDER_INDEX, prev_index = INVALID_ORDER_INDEX, occupied = False\<rparr>"

definition set_record :: "u64 \<Rightarrow> u64 \<Rightarrow> u64 \<Rightarrow> u8 \<Rightarrow> order_record \<Rightarrow> order_record" where
  "set_record oid px vol sd r =
     \<lparr>r_order_id = oid, r_price = px, r_volume = vol, r_side = sd, queue_position = 0,
      next_index = INVALID_ORDER_INDEX, prev_index = INVALID_ORDER_INDEX, occupied = True\<rparr>"

definition clear_record :: "order_record \<Rightarrow> order_record" where
  "clear_record r =
     \<lparr>r_order_id = 0, r_price = 0, r_volume = 0, r_side = 0, queue_position = 0,
      next_index = INVALID_ORDER_INDEX, prev_index = INVALID_ORDER_INDEX, occupied = False\<rparr>"

record slab =
  records :: "nat \<Rightarrow> order_record"
  free_list_head :: nat
  allocated_count :: u64
  lookup_count :: u64

text \<open>A free record that leads to the next slot.\<close>

definition chained :: "nat \<Rightarrow> order_record" where
  "chained i =
     new_record\<lparr>next_index := (if i < MAX_ORDER_RECORDS - 1 then i + 1 else INVALID_ORDER_INDEX)\<rparr>"

definition new_slab :: slab where
  "new_slab = \<lparr>records = chained, free_list_head = 0, allocated_count = 0, lookup_count = 0\<rparr>"

definition at_slot :: "nat \<Rightarrow> (order_record \<Rightarrow> order_record) \<Rightarrow> slab \<Rightarrow> slab" where
  "at_slot i f s = s\<lparr>records := (records s)(i := f (records s i))\<rparr>"

section \<open>Operations\<close>

datatype slab_error =
    SlotOutOfBounds | SlotNotOccupied | InvalidOrderIndex | InvalidTailIndex | InvalidNextIndex
  | InvalidPrevIndex | InvalidChainIndex

definition allocate :: "u64 \<Rightarrow> u64 \<Rightarrow> u64 \<Rightarrow> u8 \<Rightarrow> slab \<Rightarrow> panic + nat option \<times> slab" where
  "allocate oid px vol sd s =
     (let h = free_list_head s; s1 = s\<lparr>free_list_head := INVALID_ORDER_INDEX\<rparr>
      in if h = INVALID_ORDER_INDEX then Inr (None, s1)
         else if h \<ge> MAX_ORDER_RECORDS then Inl IndexOutOfBounds
         else
           let next_free = next_index (records s1 h);
               s2 = at_slot h (set_record oid px vol sd) (s1\<lparr>free_list_head := next_free\<rparr>)
           in Inr (Some h, s2\<lparr>allocated_count := allocated_count s2 + 1\<rparr>))"

text \<open>\<open>if p != INVALID { records[p].next_index = n }\<close>, and the same for \<open>prev_index\<close>.\<close>

definition link_next :: "nat \<Rightarrow> nat \<Rightarrow> slab \<Rightarrow> panic + slab" where
  "link_next p n s =
     (if p = INVALID_ORDER_INDEX then Inr s
      else if p \<ge> MAX_ORDER_RECORDS then Inl IndexOutOfBounds
      else Inr (at_slot p (\<lambda>r. r\<lparr>next_index := n\<rparr>) s))"

definition link_prev :: "nat \<Rightarrow> nat \<Rightarrow> slab \<Rightarrow> panic + slab" where
  "link_prev n p s =
     (if n = INVALID_ORDER_INDEX then Inr s
      else if n \<ge> MAX_ORDER_RECORDS then Inl IndexOutOfBounds
      else Inr (at_slot n (\<lambda>r. r\<lparr>prev_index := p\<rparr>) s))"

text \<open>The exchange of the head succeeds when no other thread interferes.\<close>

definition slab_free :: "nat \<Rightarrow> slab \<Rightarrow> panic + (slab_error + unit) \<times> slab" where
  "slab_free i s =
     (if i \<ge> MAX_ORDER_RECORDS then Inr (Inl SlotOutOfBounds, s)
      else if \<not> occupied (records s i) then Inr (Inl SlotNotOccupied, s)
      else
        let p = prev_index (records s i); n = next_index (records s i)
        in case link_next p n s of
             Inl e \<Rightarrow> Inl e
           | Inr s1 \<Rightarrow>
               (case link_prev n p s1 of
                  Inl e \<Rightarrow> Inl e
                | Inr s2 \<Rightarrow>
                    let s3 = at_slot i clear_record s2;
                        s4 = at_slot i (\<lambda>r. r\<lparr>next_index := free_list_head s3\<rparr>) s3
                    in Inr (Inr (), s4\<lparr>free_list_head := i,
                                       allocated_count := allocated_count s4 - 1\<rparr>)))"

definition find_by_order_id :: "u64 \<Rightarrow> slab \<Rightarrow> nat option \<times> slab" where
  "find_by_order_id oid s =
     (List.find (\<lambda>i. occupied (records s i) \<and> r_order_id (records s i) = oid) [0..<MAX_ORDER_RECORDS],
      s\<lparr>lookup_count := lookup_count s + 1\<rparr>)"

definition get_record :: "nat \<Rightarrow> slab \<Rightarrow> order_record option" where
  "get_record i s =
     (if i \<ge> MAX_ORDER_RECORDS then None
      else if occupied (records s i) then Some (records s i) else None)"

definition insert_into_level :: "nat \<Rightarrow> nat \<Rightarrow> slab \<Rightarrow> (slab_error + u32) \<times> slab" where
  "insert_into_level i t s =
     (if get_record i s = None then (Inl InvalidOrderIndex, s)
      else if t = INVALID_ORDER_INDEX then (Inr 1, at_slot i (\<lambda>r. r\<lparr>queue_position := 1\<rparr>) s)
      else
        case get_record t s of
          None \<Rightarrow> (Inl InvalidTailIndex, s)
        | Some tr \<Rightarrow>
            let n = next_index tr;
                s1 = at_slot i (\<lambda>r. r\<lparr>prev_index := t\<rparr>) s;
                s2 = at_slot i (\<lambda>r. r\<lparr>next_index := n\<rparr>) s1;
                s3 = at_slot t (\<lambda>r. r\<lparr>next_index := i\<rparr>) s2;
                new_pos = queue_position (records s3 t) + 1
            in if n = INVALID_ORDER_INDEX
               then (Inr new_pos, at_slot i (\<lambda>r. r\<lparr>queue_position := new_pos\<rparr>) s3)
               else
                 case get_record n s3 of
                   None \<Rightarrow> (Inl InvalidNextIndex, s3)
                 | Some _ \<Rightarrow>
                     let s4 = at_slot n (\<lambda>r. r\<lparr>prev_index := i\<rparr>) s3;
                         pos = queue_position (records s4 t) + 1
                     in (Inr pos, at_slot i (\<lambda>r. r\<lparr>queue_position := pos\<rparr>) s4))"

text \<open>
  The renumbering of the orders behind a removed one.  It ends even on a cyclic list: every
  iteration that goes on has decremented a positive queue position.
\<close>

function renumber :: "nat \<Rightarrow> slab \<Rightarrow> (slab_error + unit) \<times> slab" where
  "renumber cur s =
     (if cur = INVALID_ORDER_INDEX then (Inr (), s)
      else
        case get_record cur s of
          None \<Rightarrow> (Inl InvalidChainIndex, s)
        | Some r \<Rightarrow>
            if queue_position r > 1
            then (let s1 = at_slot cur (\<lambda>r. r\<lparr>queue_position := queue_position r - 1\<rparr>) s
                  in renumber (next_index (records s1 cur)) s1)
            else (Inr (), s))"
  by auto

definition positions_left :: "slab \<Rightarrow> nat" where
  "positions_left s = (\<Sum>i < MAX_ORDER_RECORDS. unat (queue_position (records s i)))"

lemma positions_left_decrease:
  assumes "get_record i s = Some r" "queue_position r > 1"
  shows "positions_left (at_slot i (\<lambda>r. r\<lparr>queue_position := queue_position r - 1\<rparr>) s) < positions_left s"
proof -
  have i: "i < MAX_ORDER_RECORDS" "records s i = r"
    using assms(1) by (auto simp: get_record_def split: if_splits)
  have "unat (queue_position r - 1) < unat (queue_position r)"
    using assms(2) unat_sub [of 1 "queue_position r"]
    by (simp add: word_less_nat_alt word_le_nat_alt)
  then show ?thesis
    unfolding positions_left_def
    by (intro sum_strict_mono_ex1 ballI bexI [of _ i]) (auto simp: at_slot_def i)
qed

termination renumber
  by (relation "measure (\<lambda>(cur, s). positions_left s)") (auto intro: positions_left_decrease)

declare renumber.simps [simp del]

definition remove_from_level :: "nat \<Rightarrow> slab \<Rightarrow> (slab_error + unit) \<times> slab" where
  "remove_from_level i s =
     (case get_record i s of
        None \<Rightarrow> (Inl InvalidOrderIndex, s)
      | Some r \<Rightarrow>
          let p = prev_index r; n = next_index r
          in if p \<noteq> INVALID_ORDER_INDEX \<and> get_record p s = None then (Inl InvalidPrevIndex, s)
             else
               let s1 = (if p \<noteq> INVALID_ORDER_INDEX then at_slot p (\<lambda>r. r\<lparr>next_index := n\<rparr>) s else s)
               in if n \<noteq> INVALID_ORDER_INDEX \<and> get_record n s1 = None then (Inl InvalidNextIndex, s1)
                  else if n \<noteq> INVALID_ORDER_INDEX
                  then renumber n (at_slot n (\<lambda>r. r\<lparr>prev_index := p\<rparr>) s1)
                  else (Inr (), s1))"

definition free_count :: "slab \<Rightarrow> u64" where
  "free_count s = of_nat MAX_ORDER_RECORDS - allocated_count s"

definition clear_slab :: "slab \<Rightarrow> slab" where
  "clear_slab s =
     s\<lparr>records := fold (\<lambda>i rs. rs(i := (clear_record (rs i))
                  \<lparr>next_index := (if i < MAX_ORDER_RECORDS - 1 then i + 1 else INVALID_ORDER_INDEX)\<rparr>))
                [0..<MAX_ORDER_RECORDS] (records s),
       free_list_head := 0, allocated_count := 0, lookup_count := 0\<rparr>"

section \<open>The invariant\<close>

text \<open>The free list: a path through unoccupied records from the head.\<close>

fun free_path :: "(nat \<Rightarrow> order_record) \<Rightarrow> nat \<Rightarrow> nat list \<Rightarrow> bool" where
  "free_path rs h [] \<longleftrightarrow> h = INVALID_ORDER_INDEX"
| "free_path rs h (i # is) \<longleftrightarrow>
     h = i \<and> i < MAX_ORDER_RECORDS \<and> \<not> occupied (rs i) \<and> free_path rs (next_index (rs i)) is"

text \<open>Links between occupied records go both ways.\<close>

definition linked :: "(nat \<Rightarrow> order_record) \<Rightarrow> bool" where
  "linked rs \<longleftrightarrow>
     (\<forall>i < MAX_ORDER_RECORDS. occupied (rs i) \<longrightarrow>
        (let n = next_index (rs i); p = prev_index (rs i)
         in (n \<noteq> INVALID_ORDER_INDEX \<longrightarrow>
               n < MAX_ORDER_RECORDS \<and> occupied (rs n) \<and> prev_index (rs n) = i) \<and>
            (p \<noteq> INVALID_ORDER_INDEX \<longrightarrow>
               p < MAX_ORDER_RECORDS \<and> occupied (rs p) \<and> next_index (rs p) = i)))"

definition free_list_ok :: "slab \<Rightarrow> nat list \<Rightarrow> bool" where
  "free_list_ok s fl \<longleftrightarrow>
     free_path (records s) (free_list_head s) fl \<and> distinct fl \<and>
     set fl = {i. i < MAX_ORDER_RECORDS \<and> \<not> occupied (records s i)} \<and>
     allocated_count s = of_nat (MAX_ORDER_RECORDS - length fl)"

definition slab_inv :: "slab \<Rightarrow> bool" where
  "slab_inv s \<longleftrightarrow> (\<exists>fl. free_list_ok s fl) \<and> linked (records s)"

lemma valid_index: "i < MAX_ORDER_RECORDS \<Longrightarrow> i \<noteq> INVALID_ORDER_INDEX"
  by (simp add: MAX_ORDER_RECORDS_def INVALID_ORDER_INDEX_def)

lemma free_path_cong:
  "\<forall>i \<in> set fl. rs' i = rs i \<Longrightarrow> free_path rs' h fl \<longleftrightarrow> free_path rs h fl"
  by (induction fl arbitrary: h) auto

lemma free_path_upd:
  "i \<notin> set fl \<Longrightarrow> free_path (rs(i := r)) h fl \<longleftrightarrow> free_path rs h fl"
  by (rule free_path_cong) auto

lemma linkedD:
  assumes "linked rs" "i < MAX_ORDER_RECORDS" "occupied (rs i)"
  shows "next_index (rs i) \<noteq> INVALID_ORDER_INDEX \<Longrightarrow>
      next_index (rs i) < MAX_ORDER_RECORDS \<and> occupied (rs (next_index (rs i))) \<and>
      prev_index (rs (next_index (rs i))) = i"
    and "prev_index (rs i) \<noteq> INVALID_ORDER_INDEX \<Longrightarrow>
      prev_index (rs i) < MAX_ORDER_RECORDS \<and> occupied (rs (prev_index (rs i))) \<and>
      next_index (rs (prev_index (rs i))) = i"
  using assms by (auto simp: linked_def Let_def)

text \<open>The initial free list is the list of all slots.\<close>

lemma chained_path: "k \<le> MAX_ORDER_RECORDS \<Longrightarrow>
  free_path chained (if k < MAX_ORDER_RECORDS then k else INVALID_ORDER_INDEX) [k..<MAX_ORDER_RECORDS]"
proof (induction "MAX_ORDER_RECORDS - k" arbitrary: k)
  case 0
  then show ?case by simp
next
  case (Suc d)
  then have k: "k < MAX_ORDER_RECORDS" "Suc k \<le> MAX_ORDER_RECORDS" by auto
  have "next_index (chained k) =
      (if Suc k < MAX_ORDER_RECORDS then Suc k else INVALID_ORDER_INDEX)"
    using k by (auto simp: chained_def MAX_ORDER_RECORDS_def)
  moreover have "free_path chained (if Suc k < MAX_ORDER_RECORDS then Suc k else INVALID_ORDER_INDEX)
      [Suc k..<MAX_ORDER_RECORDS]"
    using Suc k by (intro Suc.hyps) auto
  ultimately show ?case
    using k by (simp add: upt_rec [of k] chained_def new_record_def)
qed

lemma chained_free_list:
  assumes "\<forall>i < MAX_ORDER_RECORDS. records s i = chained i" "free_list_head s = 0" "allocated_count s = 0"
  shows "slab_inv s"
proof -
  have "free_path chained 0 [0..<MAX_ORDER_RECORDS]"
    using chained_path [of 0] by (simp add: MAX_ORDER_RECORDS_def)
  then have "free_path (records s) 0 [0..<MAX_ORDER_RECORDS]"
    using assms(1) free_path_cong [of "[0..<MAX_ORDER_RECORDS]" "records s" chained 0] by simp
  moreover have free: "\<not> occupied (records s i)" if "i < MAX_ORDER_RECORDS" for i
    using assms(1) that by (simp add: chained_def new_record_def)
  ultimately have "free_list_ok s [0..<MAX_ORDER_RECORDS]"
    using assms(2,3) by (auto simp: free_list_ok_def)
  moreover have "linked (records s)" using free by (simp add: linked_def)
  ultimately show ?thesis unfolding slab_inv_def by blast
qed

lemma new_slab_inv: "slab_inv new_slab"
  by (rule chained_free_list) (simp_all add: new_slab_def)

section \<open>Allocation and release\<close>

lemma free_listD:
  assumes "free_list_ok s fl"
  shows "free_path (records s) (free_list_head s) fl" "distinct fl"
    "set fl = {i. i < MAX_ORDER_RECORDS \<and> \<not> occupied (records s i)}"
    "allocated_count s = of_nat (MAX_ORDER_RECORDS - length fl)"
  using assms unfolding free_list_ok_def by blast+

lemma free_list_unoccupied:
  "free_list_ok s fl \<Longrightarrow> i < MAX_ORDER_RECORDS \<Longrightarrow> occupied (records s i) \<Longrightarrow> i \<notin> set fl"
  by (auto simp: free_list_ok_def)

lemma linked_set_record:
  assumes "linked rs" "\<not> occupied (rs i)"
  shows "linked (rs(i := set_record oid px vol sd (rs i)))"
  unfolding linked_def
proof (intro allI impI)
  fix j
  assume j: "j < MAX_ORDER_RECORDS" "occupied ((rs(i := set_record oid px vol sd (rs i))) j)"
  show "let n = next_index ((rs(i := set_record oid px vol sd (rs i))) j);
            p = prev_index ((rs(i := set_record oid px vol sd (rs i))) j)
        in (n \<noteq> INVALID_ORDER_INDEX \<longrightarrow> n < MAX_ORDER_RECORDS \<and>
              occupied ((rs(i := set_record oid px vol sd (rs i))) n) \<and>
              prev_index ((rs(i := set_record oid px vol sd (rs i))) n) = j) \<and>
           (p \<noteq> INVALID_ORDER_INDEX \<longrightarrow> p < MAX_ORDER_RECORDS \<and>
              occupied ((rs(i := set_record oid px vol sd (rs i))) p) \<and>
              next_index ((rs(i := set_record oid px vol sd (rs i))) p) = j)"
  proof (cases "j = i")
    case True
    then show ?thesis by (simp add: set_record_def)
  next
    case False
    then show ?thesis using linkedD [OF assms(1) j(1)] j(2) assms(2) by (auto simp: Let_def)
  qed
qed

lemma allocate_full:
  assumes "slab_inv s" "\<forall>i < MAX_ORDER_RECORDS. occupied (records s i)"
  shows "allocate oid px vol sd s = Inr (None, s)"
proof -
  obtain fl where "free_list_ok s fl" using assms(1) by (auto simp: slab_inv_def)
  note fl = free_listD [OF this]
  have "set fl = {}" unfolding fl(3) using assms(2) by blast
  with fl(1) show ?thesis by (simp add: allocate_def Let_def)
qed

lemma allocate_slot:
  assumes "slab_inv s" "\<not> (\<forall>i < MAX_ORDER_RECORDS. occupied (records s i))"
  obtains i s' where "allocate oid px vol sd s = Inr (Some i, s')" "i < MAX_ORDER_RECORDS"
    "\<not> occupied (records s i)" "slab_inv s'"
    "records s' = (records s)(i := set_record oid px vol sd (records s i))"
    "allocated_count s' = allocated_count s + 1"
proof -
  obtain fl where fl: "free_list_ok s fl" using assms(1) by (auto simp: slab_inv_def)
  have "set fl \<noteq> {}" unfolding free_listD(3) [OF fl] using assms(2) by blast
  then obtain i gl where gl: "fl = i # gl" by (cases fl) auto
  have i: "free_list_head s = i" "i < MAX_ORDER_RECORDS" "\<not> occupied (records s i)"
    "free_path (records s) (next_index (records s i)) gl" "i \<notin> set gl" "distinct gl"
  proof -
    have "free_path (records s) (free_list_head s) (i # gl)" "distinct (i # gl)"
      using free_listD(1,2) [OF fl] unfolding gl by blast+
    then show "free_list_head s = i" "i < MAX_ORDER_RECORDS" "\<not> occupied (records s i)"
      "free_path (records s) (next_index (records s i)) gl" "i \<notin> set gl" "distinct gl"
      by simp_all
  qed
  define s' where "s' = s\<lparr>free_list_head := next_index (records s i),
      records := (records s)(i := set_record oid px vol sd (records s i)),
      allocated_count := allocated_count s + 1\<rparr>"
  have "allocate oid px vol sd s = Inr (Some i, s')"
    using i valid_index [of i] by (simp add: allocate_def Let_def at_slot_def s'_def)
  moreover have "free_list_ok s' gl"
  proof -
    have sets: "set (i # gl) = {j. j < MAX_ORDER_RECORDS \<and> \<not> occupied (records s j)}"
      and count: "allocated_count s = of_nat (MAX_ORDER_RECORDS - length (i # gl))"
      using free_listD(3,4) [OF fl] unfolding gl by blast+
    have "length (i # gl) = card (set (i # gl))" using i by (simp add: distinct_card)
    also have "\<dots> \<le> card {..<MAX_ORDER_RECORDS}" unfolding sets by (intro card_mono) auto
    finally have len: "length gl < MAX_ORDER_RECORDS" by simp
    have "set gl = {j. j < MAX_ORDER_RECORDS \<and> \<not> occupied (records s' j)}"
    proof -
      have "set gl = set (i # gl) - {i}" using i(5) by auto
      also have "\<dots> = {j. j < MAX_ORDER_RECORDS \<and> \<not> occupied (records s' j)}"
        unfolding sets by (auto simp: s'_def set_record_def)
      finally show ?thesis .
    qed
    moreover have "allocated_count s' = of_nat (MAX_ORDER_RECORDS - length gl)"
    proof -
      have "MAX_ORDER_RECORDS - length gl = Suc (MAX_ORDER_RECORDS - length (i # gl))" using len by simp
      then show ?thesis by (simp add: s'_def count add.commute)
    qed
    ultimately show ?thesis
      using i by (simp add: free_list_ok_def s'_def free_path_upd)
  qed
  moreover have "linked (records s')"
    using assms(1) i(3) by (simp add: slab_inv_def s'_def linked_set_record)
  ultimately show thesis
    using i by (intro that [of i s']) (auto simp: slab_inv_def s'_def)
qed

text \<open>The neighbours of a released record are linked to each other.\<close>

definition unlink :: "nat \<Rightarrow> (nat \<Rightarrow> order_record) \<Rightarrow> nat \<Rightarrow> order_record" where
  "unlink i rs =
     (let p = prev_index (rs i); n = next_index (rs i);
          rs1 = (if p = INVALID_ORDER_INDEX then rs else rs(p := (rs p)\<lparr>next_index := n\<rparr>))
      in if n = INVALID_ORDER_INDEX then rs1 else rs1(n := (rs1 n)\<lparr>prev_index := p\<rparr>))"

lemma unlink_fields [simp]:
  "occupied (unlink i rs j) = occupied (rs j)" "r_order_id (unlink i rs j) = r_order_id (rs j)"
  "r_price (unlink i rs j) = r_price (rs j)" "r_volume (unlink i rs j) = r_volume (rs j)"
  "r_side (unlink i rs j) = r_side (rs j)" "queue_position (unlink i rs j) = queue_position (rs j)"
  by (auto simp: unlink_def Let_def)

lemma unlink_links:
  "next_index (unlink i rs j) =
     (if j = prev_index (rs i) \<and> j \<noteq> INVALID_ORDER_INDEX then next_index (rs i) else next_index (rs j))"
  "prev_index (unlink i rs j) =
     (if j = next_index (rs i) \<and> j \<noteq> INVALID_ORDER_INDEX then prev_index (rs i) else prev_index (rs j))"
  by (auto simp: unlink_def Let_def)

lemma unlink_unoccupied:
  assumes "linked rs" "i < MAX_ORDER_RECORDS" "occupied (rs i)" "\<not> occupied (rs j)"
  shows "unlink i rs j = rs j"
  using linkedD [OF assms(1-3)] assms(4) by (auto simp: unlink_def Let_def)

lemma linked_unlink:
  assumes lnk: "linked rs" and i: "i < MAX_ORDER_RECORDS" "occupied (rs i)" and free: "\<not> occupied r"
  shows "linked ((unlink i rs)(i := r))"
  unfolding linked_def
proof (intro allI impI)
  fix j
  assume j: "j < MAX_ORDER_RECORDS" "occupied (((unlink i rs)(i := r)) j)"
  then have ji: "j \<noteq> i" "occupied (rs j)" using free by (auto split: if_splits)
  note at_i = linkedD [OF lnk i] and at_j = linkedD [OF lnk j(1) ji(2)]
    and ok = valid_index [OF j(1)] valid_index [OF i(1)]
  show "let n = next_index (((unlink i rs)(i := r)) j); p = prev_index (((unlink i rs)(i := r)) j)
        in (n \<noteq> INVALID_ORDER_INDEX \<longrightarrow> n < MAX_ORDER_RECORDS \<and>
              occupied (((unlink i rs)(i := r)) n) \<and> prev_index (((unlink i rs)(i := r)) n) = j) \<and>
           (p \<noteq> INVALID_ORDER_INDEX \<longrightarrow> p < MAX_ORDER_RECORDS \<and>
              occupied (((unlink i rs)(i := r)) p) \<and> next_index (((unlink i rs)(i := r)) p) = j)"
    unfolding Let_def
  proof (intro conjI impI)
    assume n: "next_index (((unlink i rs)(i := r)) j) \<noteq> INVALID_ORDER_INDEX"
    let ?n = "next_index (((unlink i rs)(i := r)) j)"
    have "?n < MAX_ORDER_RECORDS \<and> ?n \<noteq> i \<and> occupied (rs ?n) \<and> prev_index (unlink i rs ?n) = j"
      using n ji at_i at_j ok by (auto simp: unlink_links split: if_splits)
    then show "?n < MAX_ORDER_RECORDS" "occupied (((unlink i rs)(i := r)) ?n)"
      "prev_index (((unlink i rs)(i := r)) ?n) = j" by auto
  next
    assume p: "prev_index (((unlink i rs)(i := r)) j) \<noteq> INVALID_ORDER_INDEX"
    let ?p = "prev_index (((unlink i rs)(i := r)) j)"
    have "?p < MAX_ORDER_RECORDS \<and> ?p \<noteq> i \<and> occupied (rs ?p) \<and> next_index (unlink i rs ?p) = j"
      using p ji at_i at_j ok by (auto simp: unlink_links split: if_splits)
    then show "?p < MAX_ORDER_RECORDS" "occupied (((unlink i rs)(i := r)) ?p)"
      "next_index (((unlink i rs)(i := r)) ?p) = j" by auto
  qed
qed

lemma link_unlink:
  assumes "linked (records s)" "i < MAX_ORDER_RECORDS" "occupied (records s i)"
  defines "p \<equiv> prev_index (records s i)" and "n \<equiv> next_index (records s i)"
  obtains s1 where "link_next p n s = Inr s1"
    "link_prev n p s1 = Inr (s\<lparr>records := unlink i (records s)\<rparr>)"
proof
  let ?rs1 = "if p = INVALID_ORDER_INDEX then records s
    else (records s)(p := (records s p)\<lparr>next_index := n\<rparr>)"
  have "p \<noteq> INVALID_ORDER_INDEX \<longrightarrow> p < MAX_ORDER_RECORDS" "n \<noteq> INVALID_ORDER_INDEX \<longrightarrow> n < MAX_ORDER_RECORDS"
    using linkedD [OF assms(1-3)] by (auto simp: p_def n_def)
  note range = this
  show "link_next p n s = Inr (s\<lparr>records := ?rs1\<rparr>)"
    using range(1) by (auto simp: link_next_def at_slot_def)
  show "link_prev n p (s\<lparr>records := ?rs1\<rparr>) = Inr (s\<lparr>records := unlink i (records s)\<rparr>)"
    using range(2) by (auto simp: link_prev_def at_slot_def unlink_def Let_def p_def [symmetric] n_def [symmetric])
qed

lemma slab_free_slot:
  assumes inv: "slab_inv s" and i: "i < MAX_ORDER_RECORDS" "occupied (records s i)"
  obtains s' where "slab_free i s = Inr (Inr (), s')" "slab_inv s'"
    "records s' = (unlink i (records s))
       (i := (clear_record (unlink i (records s) i))\<lparr>next_index := free_list_head s\<rparr>)"
    "allocated_count s' = allocated_count s - 1"
proof -
  obtain fl where fl: "free_list_ok s fl" and lnk: "linked (records s)"
    using inv by (auto simp: slab_inv_def)
  let ?rs = "(unlink i (records s))
      (i := (clear_record (unlink i (records s) i))\<lparr>next_index := free_list_head s\<rparr>)"
  define s' where "s' = s\<lparr>records := ?rs, free_list_head := i, allocated_count := allocated_count s - 1\<rparr>"
  obtain s1 where "link_next (prev_index (records s i)) (next_index (records s i)) s = Inr s1"
    "link_prev (next_index (records s i)) (prev_index (records s i)) s1 =
       Inr (s\<lparr>records := unlink i (records s)\<rparr>)"
    by (rule link_unlink [OF lnk i])
  then have run: "slab_free i s = Inr (Inr (), s')"
    using i by (simp add: slab_free_def Let_def at_slot_def s'_def)
  have notin: "i \<notin> set fl" using i unfolding free_listD(3) [OF fl] by simp
  have "free_path ?rs (free_list_head s) fl"
  proof -
    have "unlink i (records s) j = records s j" if "j \<in> set fl" for j
      using that unlink_unoccupied [OF lnk i, of j] unfolding free_listD(3) [OF fl] by simp
    then show ?thesis
      using free_listD(1) [OF fl] notin free_path_cong [of fl "unlink i (records s)" "records s"]
      by (simp add: free_path_upd)
  qed
  then have path: "free_path ?rs i (i # fl)" using i(1) by (simp add: clear_record_def)
  have sets: "set (i # fl) = {j. j < MAX_ORDER_RECORDS \<and> \<not> occupied (?rs j)}"
    unfolding list.set free_listD(3) [OF fl] using i by (auto simp: clear_record_def)
  have "length (i # fl) = card (set (i # fl))"
    using notin free_listD(2) [OF fl] by (simp add: distinct_card)
  also have "\<dots> \<le> card {..<MAX_ORDER_RECORDS}" unfolding sets by (intro card_mono) auto
  finally have "MAX_ORDER_RECORDS - length fl = Suc (MAX_ORDER_RECORDS - length (i # fl))" by simp
  then have count: "allocated_count s - 1 = of_nat (MAX_ORDER_RECORDS - length (i # fl))"
    unfolding free_listD(4) [OF fl] by (simp only: of_nat_Suc) simp
  have "free_list_ok s' (i # fl)"
    unfolding free_list_ok_def using path sets count notin free_listD(2) [OF fl]
    by (simp add: s'_def del: free_path.simps list.set)
  moreover have "linked (records s')"
    unfolding s'_def using linked_unlink [OF lnk i] by (simp add: clear_record_def)
  ultimately have "slab_inv s'" unfolding slab_inv_def by blast
  then show thesis using run by (intro that [of s']) (simp_all add: s'_def)
qed

lemma slab_free_empty:
  assumes "\<not> (i < MAX_ORDER_RECORDS \<and> occupied (records s i))"
  obtains e where "slab_free i s = Inr (Inl e, s)"
proof (cases "MAX_ORDER_RECORDS \<le> i")
  case True
  then show thesis by (intro that [of SlotOutOfBounds]) (simp add: slab_free_def)
next
  case False
  then show thesis using assms by (intro that [of SlotNotOccupied]) (simp add: slab_free_def)
qed

section \<open>The slab as a finite map\<close>

record tracked_order =
  t_order_id :: u64
  t_price :: u64
  t_volume :: u64
  t_side :: u8

definition order_view :: "order_record \<Rightarrow> tracked_order" where
  "order_view r =
     \<lparr>t_order_id = r_order_id r, t_price = r_price r, t_volume = r_volume r, t_side = r_side r\<rparr>"

definition slab_look :: "slab \<Rightarrow> nat \<Rightarrow> tracked_order option" where
  "slab_look s i = map_option order_view (get_record i s)"

definition slab_alloc :: "tracked_order \<Rightarrow> slab \<Rightarrow> nat option \<times> slab" where
  "slab_alloc t s =
     (case allocate (t_order_id t) (t_price t) (t_volume t) (t_side t) s of
        Inr x \<Rightarrow> x | Inl _ \<Rightarrow> (None, s))"

definition slab_release :: "nat \<Rightarrow> slab \<Rightarrow> bool \<times> slab" where
  "slab_release i s =
     (case slab_free i s of
        Inr (Inr _, s') \<Rightarrow> (True, s') | Inr (Inl _, s') \<Rightarrow> (False, s') | Inl _ \<Rightarrow> (False, s))"

lemma slab_look_eq_None: "slab_look s i = None \<longleftrightarrow> \<not> (i < MAX_ORDER_RECORDS \<and> occupied (records s i))"
  by (auto simp: slab_look_def get_record_def)

lemma slab_look_dom: "dom (slab_look s) = {i. i < MAX_ORDER_RECORDS \<and> occupied (records s i)}"
  by (auto simp: dom_def slab_look_eq_None)

lemma finite_slab_look [simp]: "finite (dom (slab_look s))"
  by (simp add: slab_look_dom)

lemma slab_look_allocate:
  assumes "records s' = (records s)(i := set_record oid px vol sd (records s i))" "i < MAX_ORDER_RECORDS"
  shows "slab_look s' = (slab_look s)
    (i \<mapsto> \<lparr>t_order_id = oid, t_price = px, t_volume = vol, t_side = sd\<rparr>)"
  using assms by (auto simp: fun_eq_iff slab_look_def get_record_def set_record_def order_view_def)

lemma slab_look_free:
  assumes "records s' = (unlink i (records s))(i := r)" "\<not> occupied r"
  shows "slab_look s' = (slab_look s)(i := None)"
  using assms by (auto simp: fun_eq_iff slab_look_def get_record_def order_view_def)

interpretation slab: slot_store slab_alloc slab_release slab_look slab_inv
proof (unfold_locales, goal_cases)
  case (1 s)
  then show ?case by simp
next
  case (2 s r i s')
  then have some: "slab_alloc r s = (Some i, s')" and inv: "slab_inv s" by simp_all
  have "\<not> (\<forall>i < MAX_ORDER_RECORDS. occupied (records s i))"
  proof
    assume "\<forall>i < MAX_ORDER_RECORDS. occupied (records s i)"
    from allocate_full [OF inv this] show False using some by (simp add: slab_alloc_def)
  qed
  then obtain j s1 where j: "allocate (t_order_id r) (t_price r) (t_volume r) (t_side r) s = Inr (Some j, s1)"
    "j < MAX_ORDER_RECORDS" "\<not> occupied (records s j)" "slab_inv s1"
    "records s1 = (records s)(j := set_record (t_order_id r) (t_price r) (t_volume r) (t_side r) (records s j))"
    using allocate_slot [OF inv] by metis
  then have "j = i" "s1 = s'" using some by (simp_all add: slab_alloc_def)
  then show ?case using j slab_look_allocate [OF j(5,2)] by (cases r) (simp add: slab_look_eq_None)
next
  case (3 s r s')
  then have none: "slab_alloc r s = (None, s')" and inv: "slab_inv s" by simp_all
  have "\<forall>i < MAX_ORDER_RECORDS. occupied (records s i)"
  proof (rule ccontr)
    assume "\<not> ?thesis"
    then obtain j s1 where
      "allocate (t_order_id r) (t_price r) (t_volume r) (t_side r) s = Inr (Some j, s1)"
      using allocate_slot [OF inv] by metis
    then show False using none by (simp add: slab_alloc_def)
  qed
  then have "s' = s" using none allocate_full [OF inv] by (simp add: slab_alloc_def)
  then show ?case using inv by simp
next
  case (4 s i)
  then have i: "i < MAX_ORDER_RECORDS" "occupied (records s i)" and inv: "slab_inv s"
    by (auto simp: slab_look_eq_None)
  obtain s' where s': "slab_free i s = Inr (Inr (), s')" "slab_inv s'"
    "records s' = (unlink i (records s))
       (i := (clear_record (unlink i (records s) i))\<lparr>next_index := free_list_head s\<rparr>)"
    using slab_free_slot [OF inv i] by metis
  then show ?case using slab_look_free [OF s'(3)] by (simp add: slab_release_def clear_record_def)
next
  case (5 s i)
  then obtain e where "slab_free i s = Inr (Inl e, s)"
    using slab_free_empty [of i s] by (auto simp: slab_look_eq_None)
  then show ?case by (simp add: slab_release_def)
qed

section \<open>Linking a new order\<close>

lemma linked_iff_fields:
  assumes "\<And>j. occupied (rs' j) = occupied (rs j)" "\<And>j. next_index (rs' j) = next_index (rs j)"
    "\<And>j. prev_index (rs' j) = prev_index (rs j)"
  shows "linked rs' \<longleftrightarrow> linked rs"
  by (simp add: linked_def assms)

lemma free_list_frame:
  assumes "free_list_ok s fl" "\<And>j. \<not> occupied (records s j) \<Longrightarrow> records s' j = records s j"
    "\<And>j. occupied (records s' j) = occupied (records s j)" "free_list_head s' = free_list_head s"
    "allocated_count s' = allocated_count s"
  shows "free_list_ok s' fl"
proof -
  have "records s' j = records s j" if "j \<in> set fl" for j
    using that assms(2) unfolding free_listD(3) [OF assms(1)] by simp
  then have "free_path (records s') (free_list_head s) fl"
    using free_listD(1) [OF assms(1)] free_path_cong [of fl "records s'" "records s"] by simp
  then show ?thesis
    unfolding free_list_ok_def assms(3-5) using free_listD(2-4) [OF assms(1)] by blast
qed

text \<open>What an insertion behind \<open>t\<close> leaves in the links, for an order that nothing links to yet.\<close>

lemma linked_insert:
  assumes lnk: "linked rs" and i: "i < MAX_ORDER_RECORDS" "occupied (rs i)"
    and t: "t < MAX_ORDER_RECORDS" "occupied (rs t)" "t \<noteq> i"
    and new: "next_index (rs i) = INVALID_ORDER_INDEX" "prev_index (rs i) = INVALID_ORDER_INDEX"
    and n: "n = next_index (rs t)"
    and occ: "\<And>j. occupied (rs' j) = occupied (rs j)"
    and nxt: "\<And>j. next_index (rs' j) = (if j = t then i else if j = i then n else next_index (rs j))"
    and prv: "\<And>j. prev_index (rs' j) =
      (if j = n \<and> n \<noteq> INVALID_ORDER_INDEX then i else if j = i then t else prev_index (rs j))"
  shows "linked rs'"
  unfolding linked_def
proof (intro allI impI)
  fix j
  assume j: "j < MAX_ORDER_RECORDS" "occupied (rs' j)"
  then have oj: "occupied (rs j)" by (simp add: occ)
  have ni: "n \<noteq> i" using linkedD(1) [OF lnk t(1,2)] new(2) valid_index [OF t(1)]
      valid_index [OF i(1)] by (metis n)
  have nv: "n \<noteq> INVALID_ORDER_INDEX \<Longrightarrow> n < MAX_ORDER_RECORDS \<and> occupied (rs n) \<and> prev_index (rs n) = t"
    using linkedD(1) [OF lnk t(1,2)] by (simp add: n)
  note at_j = linkedD [OF lnk j(1) oj] and ok = valid_index [OF j(1)] valid_index [OF i(1)] valid_index [OF t(1)]
  have "next_index (rs' j) \<noteq> INVALID_ORDER_INDEX \<Longrightarrow>
      next_index (rs' j) < MAX_ORDER_RECORDS \<and> occupied (rs (next_index (rs' j))) \<and>
      prev_index (rs' (next_index (rs' j))) = j"
  proof -
    assume ne: "next_index (rs' j) \<noteq> INVALID_ORDER_INDEX"
    consider "j = t" | "j = i" "j \<noteq> t" | "j \<noteq> t" "j \<noteq> i" by blast
    then show ?thesis
    proof cases
      case 1
      then show ?thesis using i ni by (simp add: nxt prv)
    next
      case 2
      then show ?thesis using ne nv by (simp add: nxt prv)
    next
      case 3
      then have k: "next_index (rs' j) = next_index (rs j)" by (simp add: nxt)
      then have p: "prev_index (rs (next_index (rs j))) = j" using at_j(1) ne by simp
      then have "next_index (rs j) \<noteq> i" using new(2) ok(1) by auto
      moreover have "\<not> (next_index (rs j) = n \<and> n \<noteq> INVALID_ORDER_INDEX)" using nv p 3(1) by metis
      ultimately show ?thesis using at_j(1) ne p unfolding k prv by simp
    qed
  qed
  moreover have "prev_index (rs' j) \<noteq> INVALID_ORDER_INDEX \<Longrightarrow>
      prev_index (rs' j) < MAX_ORDER_RECORDS \<and> occupied (rs (prev_index (rs' j))) \<and>
      next_index (rs' (prev_index (rs' j))) = j"
    using at_j(2) i t ni nv ok new by (auto simp: nxt prv n split: if_splits)
  ultimately show "let n = next_index (rs' j); p = prev_index (rs' j)
        in (n \<noteq> INVALID_ORDER_INDEX \<longrightarrow>
              n < MAX_ORDER_RECORDS \<and> occupied (rs' n) \<and> prev_index (rs' n) = j) \<and>
           (p \<noteq> INVALID_ORDER_INDEX \<longrightarrow>
              p < MAX_ORDER_RECORDS \<and> occupied (rs' p) \<and> next_index (rs' p) = j)"
    by (simp add: Let_def occ)
qed

text \<open>The order of a fresh record is linked correctly, or not at all; nothing else changes.\<close>

lemma insert_into_level_inv:
  assumes inv: "slab_inv s" and i: "i < MAX_ORDER_RECORDS" "occupied (records s i)"
    and new: "next_index (records s i) = INVALID_ORDER_INDEX" "prev_index (records s i) = INVALID_ORDER_INDEX"
  shows "slab_inv (snd (insert_into_level i t s)) \<and>
         slab_look (snd (insert_into_level i t s)) = slab_look s"
proof -
  obtain fl where fl: "free_list_ok s fl" and lnk: "linked (records s)"
    using inv by (auto simp: slab_inv_def)
  have gi: "get_record i s = Some (records s i)" using i by (simp add: get_record_def)
  have frame: "slab_inv s' \<and> slab_look s' = slab_look s"
    if "linked (records s')" "\<And>j. \<not> occupied (records s j) \<Longrightarrow> records s' j = records s j"
      "\<And>j. occupied (records s' j) = occupied (records s j)"
      "\<And>j. order_view (records s' j) = order_view (records s j)"
      "free_list_head s' = free_list_head s" "allocated_count s' = allocated_count s" for s'
    using that free_list_frame [OF fl that(2,3,5,6)]
    by (auto simp: slab_inv_def slab_look_def get_record_def fun_eq_iff)
  consider (invalid) "t = INVALID_ORDER_INDEX" | (bad) "t \<noteq> INVALID_ORDER_INDEX" "get_record t s = None"
    | (tail) "t \<noteq> INVALID_ORDER_INDEX" "get_record t s = Some (records s t)"
      "t < MAX_ORDER_RECORDS" "occupied (records s t)"
    by (cases "t < MAX_ORDER_RECORDS"; cases "occupied (records s t)") (simp_all add: get_record_def, blast+)
  then show ?thesis
  proof cases
    case invalid
    then have "insert_into_level i t s = (Inr 1, at_slot i (\<lambda>r. r\<lparr>queue_position := 1\<rparr>) s)"
      by (simp add: insert_into_level_def gi)
    moreover have "linked (records (at_slot i (\<lambda>r. r\<lparr>queue_position := 1\<rparr>) s)) = linked (records s)"
      by (intro linked_iff_fields) (simp_all add: at_slot_def)
    ultimately show ?thesis using lnk i by (simp, intro frame) (auto simp: at_slot_def order_view_def)
  next
    case bad
    then show ?thesis using inv by (simp add: insert_into_level_def gi)
  next
    case tail
    define n where "n = next_index (records s t)"
    define s3 where "s3 = at_slot t (\<lambda>r. r\<lparr>next_index := i\<rparr>) (at_slot i (\<lambda>r. r\<lparr>next_index := n\<rparr>)
        (at_slot i (\<lambda>r. r\<lparr>prev_index := t\<rparr>) s))"
    define pos where "pos = queue_position (records s t) + 1"
    define s4 where "s4 = (if n = INVALID_ORDER_INDEX then s3 else at_slot n (\<lambda>r. r\<lparr>prev_index := i\<rparr>) s3)"
    have nv: "n \<noteq> INVALID_ORDER_INDEX \<Longrightarrow> n < MAX_ORDER_RECORDS \<and> occupied (records s n)"
      using linkedD(1) [OF lnk tail(3,4)] by (simp add: n_def)
    have seen: "n \<noteq> INVALID_ORDER_INDEX \<Longrightarrow> \<exists>r. get_record n s3 = Some r"
      using nv by (auto simp: get_record_def s3_def at_slot_def)
    have pos: "queue_position (records s3 t) + 1 = pos" "queue_position (records s4 t) + 1 = pos"
      by (auto simp: s4_def s3_def at_slot_def pos_def)
    have "insert_into_level i t s =
        (if n = INVALID_ORDER_INDEX
         then (Inr (queue_position (records s3 t) + 1),
               at_slot i (\<lambda>r. r\<lparr>queue_position := queue_position (records s3 t) + 1\<rparr>) s3)
         else case get_record n s3 of
           None \<Rightarrow> (Inl InvalidNextIndex, s3)
         | Some _ \<Rightarrow>
             let s4 = at_slot n (\<lambda>r. r\<lparr>prev_index := i\<rparr>) s3
             in (Inr (queue_position (records s4 t) + 1),
                 at_slot i (\<lambda>r. r\<lparr>queue_position := queue_position (records s4 t) + 1\<rparr>) s4))"
      using tail(1) unfolding insert_into_level_def gi tail(2) Let_def s3_def n_def by simp
    then have run: "insert_into_level i t s = (Inr pos, at_slot i (\<lambda>r. r\<lparr>queue_position := pos\<rparr>) s4)"
      using seen pos by (cases "n = INVALID_ORDER_INDEX") (auto simp: s4_def Let_def)
    let ?s' = "at_slot i (\<lambda>r. r\<lparr>queue_position := pos\<rparr>) s4"
    have "linked (records ?s')"
    proof (cases "t = i")
      case True
      then have none: "n = INVALID_ORDER_INDEX" using new(1) by (simp add: n_def)
      show ?thesis unfolding linked_def
      proof (intro allI impI)
        fix j
        assume j: "j < MAX_ORDER_RECORDS" "occupied (records ?s' j)"
        then have oj: "occupied (records s j)"
          by (auto simp: s4_def s3_def at_slot_def none split: if_splits)
        note at_j = linkedD [OF lnk j(1) oj]
        have "next_index (records s j) \<noteq> i" "prev_index (records s j) \<noteq> i"
          using at_j new valid_index [OF i(1)] valid_index [OF j(1)] by metis+
        then show "let n = next_index (records ?s' j); p = prev_index (records ?s' j)
              in (n \<noteq> INVALID_ORDER_INDEX \<longrightarrow> n < MAX_ORDER_RECORDS \<and> occupied (records ?s' n) \<and>
                    prev_index (records ?s' n) = j) \<and>
                 (p \<noteq> INVALID_ORDER_INDEX \<longrightarrow> p < MAX_ORDER_RECORDS \<and> occupied (records ?s' p) \<and>
                    next_index (records ?s' p) = j)"
          using at_j i new valid_index [OF j(1)] True
          by (cases "j = i") (auto simp: Let_def s4_def s3_def at_slot_def none)
      qed
    next
      case False
      have "n \<noteq> i"
        using linkedD(1) [OF lnk tail(3,4)] new(2) valid_index [OF i(1)] tail(1) by (metis n_def)
      then show ?thesis
        using False
        by (intro linked_insert [OF lnk i tail(3,4) False new n_def])
          (auto simp: s4_def s3_def at_slot_def)
    qed
    then show ?thesis
      using i tail nv unfolding run snd_conv
      by (intro frame) (auto simp: s4_def s3_def at_slot_def order_view_def)
  qed
qed

section \<open>Refinement of a finite map\<close>

text \<open>
  The calls the book makes: an order is placed (allocated, then linked behind a tail that may be
  any index) or a slot is freed.
\<close>

datatype slab_call = SPlace tracked_order nat | SFree nat

datatype slab_reply = Placed nat | SlabFull | Freed | NotFreed

definition slab_place :: "tracked_order \<Rightarrow> nat \<Rightarrow> slab \<Rightarrow> panic + nat option \<times> slab" where
  "slab_place t tx s =
     (case allocate (t_order_id t) (t_price t) (t_volume t) (t_side t) s of
        Inl e \<Rightarrow> Inl e
      | Inr (None, s') \<Rightarrow> Inr (None, s')
      | Inr (Some i, s') \<Rightarrow> Inr (Some i, snd (insert_into_level i tx s')))"

fun run_slab_call :: "slab_call \<Rightarrow> slab \<Rightarrow> panic + slab_reply \<times> slab" where
  "run_slab_call (SPlace t tx) s =
     (case slab_place t tx s of
        Inl e \<Rightarrow> Inl e
      | Inr (None, s') \<Rightarrow> Inr (SlabFull, s')
      | Inr (Some i, s') \<Rightarrow> Inr (Placed i, s'))"
| "run_slab_call (SFree i) s =
     (case slab_free i s of
        Inl e \<Rightarrow> Inl e
      | Inr (Inl _, s') \<Rightarrow> Inr (NotFreed, s')
      | Inr (Inr _, s') \<Rightarrow> Inr (Freed, s'))"

fun slab_calls :: "slab_call list \<Rightarrow> slab \<Rightarrow> panic + slab_reply list \<times> slab" where
  "slab_calls [] s = Inr ([], s)"
| "slab_calls (c # cs) s =
     (case run_slab_call c s of
        Inl e \<Rightarrow> Inl e
      | Inr (r, s') \<Rightarrow>
          (case slab_calls cs s' of Inl e \<Rightarrow> Inl e | Inr (rs, s'') \<Rightarrow> Inr (r # rs, s'')))"

text \<open>What a finite map of at most 65536 entries may reply.\<close>

fun map_replies ::
  "slab_call list \<Rightarrow> slab_reply list \<Rightarrow> (nat \<Rightarrow> tracked_order option) \<Rightarrow> (nat \<Rightarrow> tracked_order option) \<Rightarrow> bool"
  where
  "map_replies [] [] m m' \<longleftrightarrow> m' = m"
| "map_replies (SPlace t tx # cs) (Placed i # rs) m m' \<longleftrightarrow>
     i < MAX_ORDER_RECORDS \<and> m i = None \<and> map_replies cs rs (m(i \<mapsto> t)) m'"
| "map_replies (SPlace t tx # cs) (SlabFull # rs) m m' \<longleftrightarrow>
     (\<forall>i < MAX_ORDER_RECORDS. m i \<noteq> None) \<and> map_replies cs rs m m'"
| "map_replies (SFree i # cs) (Freed # rs) m m' \<longleftrightarrow> m i \<noteq> None \<and> map_replies cs rs (m(i := None)) m'"
| "map_replies (SFree i # cs) (NotFreed # rs) m m' \<longleftrightarrow> m i = None \<and> map_replies cs rs m m'"
| "map_replies _ _ m m' \<longleftrightarrow> False"

lemma slab_place_cases:
  assumes inv: "slab_inv s"
  shows "(\<forall>i < MAX_ORDER_RECORDS. slab_look s i \<noteq> None) \<and> slab_place t tx s = Inr (None, s) \<or>
         (\<exists>i s'. slab_place t tx s = Inr (Some i, s') \<and> i < MAX_ORDER_RECORDS \<and> slab_look s i = None \<and>
            slab_inv s' \<and> slab_look s' = (slab_look s)(i \<mapsto> t))"
proof (cases "\<forall>i < MAX_ORDER_RECORDS. occupied (records s i)")
  case True
  then show ?thesis using allocate_full [OF inv True] by (simp add: slab_place_def slab_look_eq_None)
next
  case False
  obtain i s1 where s1: "allocate (t_order_id t) (t_price t) (t_volume t) (t_side t) s = Inr (Some i, s1)"
    "i < MAX_ORDER_RECORDS" "\<not> occupied (records s i)" "slab_inv s1"
    "records s1 = (records s)(i := set_record (t_order_id t) (t_price t) (t_volume t) (t_side t) (records s i))"
    using allocate_slot [OF inv False] by metis
  have "slab_inv (snd (insert_into_level i tx s1)) \<and> slab_look (snd (insert_into_level i tx s1)) = slab_look s1"
    using s1 by (intro insert_into_level_inv) (simp_all add: set_record_def)
  moreover have "slab_look s1 = (slab_look s)(i \<mapsto> t)"
    using slab_look_allocate [OF s1(5,2)] by (cases t) simp
  ultimately show ?thesis using s1 by (auto simp: slab_place_def slab_look_eq_None)
qed

lemma slab_free_cases:
  assumes inv: "slab_inv s"
  shows "slab_look s i = None \<and> (\<exists>e. slab_free i s = Inr (Inl e, s)) \<or>
         slab_look s i \<noteq> None \<and> (\<exists>s'. slab_free i s = Inr (Inr (), s') \<and> slab_inv s' \<and>
           slab_look s' = (slab_look s)(i := None))"
proof (cases "slab_look s i = None")
  case True
  then show ?thesis using slab_free_empty [of i s] by (metis slab_look_eq_None)
next
  case False
  then have i: "i < MAX_ORDER_RECORDS" "occupied (records s i)" by (auto simp: slab_look_eq_None)
  obtain s' where s': "slab_free i s = Inr (Inr (), s')" "slab_inv s'"
    "records s' = (unlink i (records s))
       (i := (clear_record (unlink i (records s) i))\<lparr>next_index := free_list_head s\<rparr>)"
    using slab_free_slot [OF inv i] by metis
  then show ?thesis using slab_look_free [OF s'(3)] False by (simp add: clear_record_def)
qed

lemma allocated_count_card: "slab_inv s \<Longrightarrow> allocated_count s = of_nat (card (dom (slab_look s)))"
proof -
  assume "slab_inv s"
  then obtain fl where fl: "free_list_ok s fl" by (auto simp: slab_inv_def)
  have "dom (slab_look s) = {..<MAX_ORDER_RECORDS} - set fl"
    unfolding slab_look_dom free_listD(3) [OF fl] by auto
  moreover have "set fl \<subseteq> {..<MAX_ORDER_RECORDS}" unfolding free_listD(3) [OF fl] by auto
  ultimately have "card (dom (slab_look s)) = MAX_ORDER_RECORDS - length fl"
    using distinct_card [OF free_listD(2) [OF fl]] by (simp add: card_Diff_subset)
  then show ?thesis by (simp add: free_listD(4) [OF fl])
qed

lemma slab_calls_refine:
  assumes "slab_inv s"
  shows "\<exists>rs s'. slab_calls cs s = Inr (rs, s') \<and> slab_inv s' \<and>
           map_replies cs rs (slab_look s) (slab_look s')"
  using assms
proof (induction cs arbitrary: s)
  case Nil
  then show ?case by (intro exI [of _ "[]"] exI [of _ s]) simp
next
  case (Cons c cs)
  have step: "\<exists>r s1. run_slab_call c s = Inr (r, s1) \<and> slab_inv s1 \<and>
      (\<forall>rs m'. map_replies cs rs (slab_look s1) m' \<longrightarrow> map_replies (c # cs) (r # rs) (slab_look s) m')"
  proof (cases c)
    case (SPlace t tx)
    consider "\<forall>i < MAX_ORDER_RECORDS. slab_look s i \<noteq> None" "slab_place t tx s = Inr (None, s)"
      | i s' where "slab_place t tx s = Inr (Some i, s')" "i < MAX_ORDER_RECORDS" "slab_look s i = None"
        "slab_inv s'" "slab_look s' = (slab_look s)(i \<mapsto> t)"
      using slab_place_cases [OF Cons.prems, of t tx] by blast
    then show ?thesis
    proof cases
      case 1
      then show ?thesis using SPlace Cons.prems
        by (intro exI [of _ SlabFull] exI [of _ s]) simp
    next
      case (2 i s')
      then show ?thesis using SPlace by (intro exI [of _ "Placed i"] exI [of _ s']) simp
    qed
  next
    case (SFree i)
    consider e where "slab_look s i = None" "slab_free i s = Inr (Inl e, s)"
      | s' where "slab_look s i \<noteq> None" "slab_free i s = Inr (Inr (), s')" "slab_inv s'"
        "slab_look s' = (slab_look s)(i := None)"
      using slab_free_cases [OF Cons.prems, of i] by blast
    then show ?thesis
    proof cases
      case 1
      then show ?thesis using SFree Cons.prems
        by (intro exI [of _ NotFreed] exI [of _ s]) simp
    next
      case (2 s')
      then show ?thesis using SFree by (intro exI [of _ Freed] exI [of _ s']) simp
    qed
  qed
  then obtain r s1 where s1: "run_slab_call c s = Inr (r, s1)" "slab_inv s1"
    "\<And>rs m'. map_replies cs rs (slab_look s1) m' \<Longrightarrow> map_replies (c # cs) (r # rs) (slab_look s) m'"
    by blast
  obtain rs s' where "slab_calls cs s1 = Inr (rs, s')" "slab_inv s'"
    "map_replies cs rs (slab_look s1) (slab_look s')"
    using Cons.IH [OF s1(2)] by blast
  then show ?case using s1(1,3) by (intro exI [of _ "r # rs"] exI [of _ s']) simp
qed

lemma slab_look_new: "slab_look new_slab = Map.empty"
  by (auto simp: fun_eq_iff slab_look_eq_None new_slab_def chained_def new_record_def)

text \<open>C32. The slab is a finite map.  Over any sequence of placements - each order linked behind an
  arbitrary tail - and releases from a new slab, nothing panics, an order gets a slot that was
  empty and keeps its data there until the slot is freed, whatever links are made, \<open>None\<close> is
  answered exactly when all 65536 slots are taken, a release succeeds exactly on an occupied slot,
  and the count of allocated records is the number of occupied slots.\<close>

theorem slab_refines_map:
  "\<exists>rs s'. slab_calls cs new_slab = Inr (rs, s') \<and>
     map_replies cs rs Map.empty (slab_look s') \<and>
     allocated_count s' = of_nat (card (dom (slab_look s')))"
  using slab_calls_refine [OF new_slab_inv, of cs] allocated_count_card
  unfolding slab_look_new by blast

text \<open>The scan for an order id returns the first slot that holds it.\<close>

lemma find_by_order_id_Some:
  assumes "fst (find_by_order_id oid s) = Some i"
  shows "\<exists>t. slab_look s i = Some t \<and> t_order_id t = oid"
proof -
  have "i < MAX_ORDER_RECORDS \<and> occupied (records s i) \<and> r_order_id (records s i) = oid"
    using assms by (auto simp: find_by_order_id_def find_Some_iff)
  then show ?thesis by (auto simp: slab_look_def get_record_def order_view_def)
qed

lemma find_by_order_id_None:
  "fst (find_by_order_id oid s) = None \<longleftrightarrow> (\<forall>i t. slab_look s i = Some t \<longrightarrow> t_order_id t \<noteq> oid)"
  by (auto simp: find_by_order_id_def find_None_iff slab_look_def get_record_def order_view_def)

lemma find_by_order_id_frame [frame_simps]:
  "records (snd (find_by_order_id oid s)) = records s" "slab_look (snd (find_by_order_id oid s)) = slab_look s"
  "slab_inv (snd (find_by_order_id oid s)) = slab_inv s"
  by (simp_all add: find_by_order_id_def slab_look_def get_record_def fun_eq_iff slab_inv_def free_list_ok_def)

lemma fold_update_each:
  "distinct is \<Longrightarrow>
     fold (\<lambda>i rs. rs(i := f i (rs i))) is rs j = (if j \<in> set is then f j (rs j) else rs j)"
  by (induction "is" arbitrary: rs) auto

lemma clear_slab_chained:
  assumes "i < MAX_ORDER_RECORDS" shows "records (clear_slab s) i = chained i"
proof -
  have "records (clear_slab s) i =
      (clear_record (records s i))
        \<lparr>next_index := (if i < MAX_ORDER_RECORDS - 1 then i + 1 else INVALID_ORDER_INDEX)\<rparr>"
    using fold_update_each [where f = "\<lambda>i r. (clear_record r)
        \<lparr>next_index := (if i < MAX_ORDER_RECORDS - 1 then i + 1 else INVALID_ORDER_INDEX)\<rparr>",
        OF distinct_upt [of 0 MAX_ORDER_RECORDS], of "records s" i]
      assms
    by (simp add: clear_slab_def)
  then show ?thesis by (simp only: chained_def clear_record_def new_record_def)
qed

lemma clear_slab_inv: "slab_inv (clear_slab s)" "slab_look (clear_slab s) = Map.empty"
proof -
  show "slab_inv (clear_slab s)"
    using clear_slab_chained by (intro chained_free_list) (simp_all add: clear_slab_def)
  show "slab_look (clear_slab s) = Map.empty"
    using clear_slab_chained [of _ s]
    by (auto simp: fun_eq_iff slab_look_eq_None chained_def new_record_def)
qed

end
