(* ===== verification/Price_Ladder.thy ===== *)
theory Price_Ladder
  imports Interfaces
begin

text \<open>
  One side of the order book, \<open>crates/nexus_orderbook/src/price_ladder.rs\<close>: 256 price levels
  addressed by bucket, with the buckets of the best and the worst price cached.  The ladder is
  read and written by one thread (\<open>lob_reconstructor.rs\<close> says so of its owner), so each method
  is one step.  A reference to a level is its bucket.
  The theory shows which best price the ladder may report after any sequence of calls, and what
  the levels hold after additions and removals.
\<close>

section \<open>Price levels\<close>

definition MAX_PRICE_LEVELS :: nat where "MAX_PRICE_LEVELS = 256"
definition NO_INDEX :: nat where "NO_INDEX = 2 ^ 64 - 1"

datatype book_side = Bid | Ask

definition book_side_from_u8 :: "u8 \<Rightarrow> book_side option" where
  "book_side_from_u8 v = (if v = 0 then Some Bid else if v = 1 then Some Ask else None)"

fun opposite :: "book_side \<Rightarrow> book_side" where
  "opposite Bid = Ask"
| "opposite Ask = Bid"

record price_level =
  lv_price :: u64
  lv_volume :: u64
  order_count :: u16
  first_order_index :: nat
  active :: bool

definition new_level :: price_level where
  "new_level = \<lparr>lv_price = 0, lv_volume = 0, order_count = 0, first_order_index = NO_INDEX, active = False\<rparr>"

definition set_level :: "u64 \<Rightarrow> u64 \<Rightarrow> u16 \<Rightarrow> price_level \<Rightarrow> price_level" where
  "set_level p v c lv = lv\<lparr>lv_price := p, lv_volume := v, order_count := c, active := True\<rparr>"

definition deactivate :: "price_level \<Rightarrow> price_level" where
  "deactivate lv = lv\<lparr>active := False, order_count := 0, lv_volume := 0\<rparr>"

text \<open>The volume is read as an \<open>i64\<close>; the sum wraps, and a negative sum becomes 0.\<close>

definition add_level_volume :: "i64 \<Rightarrow> price_level \<Rightarrow> u64 \<times> price_level" where
  "add_level_volume delta lv =
     (let new_volume = word_of_int (max (s64 (sint (lv_volume lv) + delta)) 0);
          lv1 = lv\<lparr>lv_volume := new_volume\<rparr>
      in (new_volume, if new_volume = 0 then deactivate lv1 else lv1\<lparr>active := True\<rparr>))"

definition increment_order_count :: "price_level \<Rightarrow> u16 \<times> price_level" where
  "increment_order_count lv = (order_count lv + 1, lv\<lparr>order_count := order_count lv + 1\<rparr>)"

text \<open>The subtraction wraps in the cell, the returned count saturates.\<close>

definition decrement_order_count :: "price_level \<Rightarrow> u16 \<times> price_level" where
  "decrement_order_count lv =
     (let new_count = saturating_sub (order_count lv) 1;
          lv1 = lv\<lparr>order_count := order_count lv - 1\<rparr>
      in (new_count, if new_count = 0 then deactivate lv1 else lv1))"

section \<open>The ladder\<close>

record ladder =
  ladder_side :: book_side
  levels :: "nat \<Rightarrow> price_level"
  price_map :: "nat \<Rightarrow> u16"
  best_index :: nat
  worst_index :: nat
  active_count :: u64
  tick_size :: u64
  base_price :: u64

definition new_ladder :: "book_side \<Rightarrow> u64 \<Rightarrow> u64 \<Rightarrow> ladder" where
  "new_ladder sd tick base =
     \<lparr>ladder_side = sd, levels = (\<lambda>_. new_level), price_map = (\<lambda>_. - 1), best_index = NO_INDEX,
      worst_index = NO_INDEX, active_count = 0, tick_size = tick, base_price = base\<rparr>"

definition price_to_bucket :: "u64 \<Rightarrow> ladder \<Rightarrow> nat option" where
  "price_to_bucket p l =
     (if p < base_price l \<or> tick_size l = 0 then None
      else
        let bucket = unat ((p - base_price l) div tick_size l)
        in if bucket \<ge> MAX_PRICE_LEVELS then None else Some bucket)"

definition at_level :: "nat \<Rightarrow> (price_level \<Rightarrow> price_level) \<Rightarrow> ladder \<Rightarrow> ladder" where
  "at_level b f l = l\<lparr>levels := (levels l)(b := f (levels l b))\<rparr>"

definition update_best_worst :: "nat \<Rightarrow> ladder \<Rightarrow> ladder" where
  "update_best_worst i l =
     (let best = best_index l; worst = worst_index l
      in case ladder_side l of
           Bid \<Rightarrow>
             (let l1 = (if best = NO_INDEX \<or> best < i then l\<lparr>best_index := i\<rparr> else l)
              in if worst = NO_INDEX \<or> i < worst then l1\<lparr>worst_index := i\<rparr> else l1)
         | Ask \<Rightarrow>
             (let l1 = (if best = NO_INDEX \<or> i < best then l\<lparr>best_index := i\<rparr> else l)
              in if worst = NO_INDEX \<or> worst < i then l1\<lparr>worst_index := i\<rparr> else l1))"

definition get_or_create_level :: "u64 \<Rightarrow> ladder \<Rightarrow> nat option \<times> ladder" where
  "get_or_create_level p l =
     (case price_to_bucket p l of
        None \<Rightarrow> (None, l)
      | Some b \<Rightarrow>
          if active (levels l b) then (Some b, l)
          else
            let l1 = at_level b (set_level p 0 0) l;
                l2 = l1\<lparr>price_map := (price_map l1)(b := of_nat b)\<rparr>;
                l3 = l2\<lparr>active_count := active_count l2 + 1\<rparr>
            in (Some b, update_best_worst b l3))"

definition get_best_price :: "ladder \<Rightarrow> panic + u64 option" where
  "get_best_price l =
     (if best_index l = NO_INDEX then Inr None
      else if best_index l \<ge> MAX_PRICE_LEVELS then Inl IndexOutOfBounds
      else
        let lv = levels l (best_index l)
        in Inr (if active lv then Some (lv_price lv) else None))"

definition get_best_volume :: "ladder \<Rightarrow> panic + u64 option" where
  "get_best_volume l =
     (if best_index l = NO_INDEX then Inr None
      else if best_index l \<ge> MAX_PRICE_LEVELS then Inl IndexOutOfBounds
      else
        let lv = levels l (best_index l)
        in Inr (if active lv then Some (lv_volume lv) else None))"

definition get_volume_at_price :: "u64 \<Rightarrow> ladder \<Rightarrow> u64 option" where
  "get_volume_at_price p l =
     (case price_to_bucket p l of
        None \<Rightarrow> None
      | Some b \<Rightarrow> if active (levels l b) then Some (lv_volume (levels l b)) else None)"

datatype ladder_error = PriceOutOfRange | LevelNotActive

definition add_volume :: "u64 \<Rightarrow> u64 \<Rightarrow> ladder \<Rightarrow> (ladder_error + unit) \<times> ladder" where
  "add_volume p v l =
     (case get_or_create_level p l of
        (None, l1) \<Rightarrow> (Inl PriceOutOfRange, l1)
      | (Some b, l1) \<Rightarrow>
          let l2 = at_level b (\<lambda>lv. snd (add_level_volume (sint v) lv)) l1;
              l3 = at_level b (\<lambda>lv. snd (increment_order_count lv)) l2
          in (Inr (), l3))"

text \<open>The negation of the \<open>i64\<close> wraps.\<close>

definition remove_volume :: "u64 \<Rightarrow> u64 \<Rightarrow> ladder \<Rightarrow> (ladder_error + unit) \<times> ladder" where
  "remove_volume p v l =
     (case price_to_bucket p l of
        None \<Rightarrow> (Inl PriceOutOfRange, l)
      | Some b \<Rightarrow>
          if \<not> active (levels l b) then (Inl LevelNotActive, l)
          else
            let l1 = at_level b (\<lambda>lv. snd (add_level_volume (s64 (- sint v)) lv)) l;
                l2 = at_level b (\<lambda>lv. snd (decrement_order_count lv)) l1
            in (Inr (), l2))"

definition clear_ladder :: "ladder \<Rightarrow> ladder" where
  "clear_ladder l =
     (let l1 = fold (\<lambda>i l. (at_level i deactivate l)\<lparr>price_map := (price_map l)(i := - 1)\<rparr>)
                 [0..<MAX_PRICE_LEVELS] l
      in l1\<lparr>best_index := NO_INDEX, worst_index := NO_INDEX, active_count := 0\<rparr>)"

text \<open>What \<open>for_each_active\<close> passes to its closure, in order.\<close>

definition active_levels :: "ladder \<Rightarrow> (u64 \<times> u64 \<times> u16) list" where
  "active_levels l =
     map (\<lambda>i. (lv_price (levels l i), lv_volume (levels l i), order_count (levels l i)))
       (filter (\<lambda>i. active (levels l i)) [0..<MAX_PRICE_LEVELS])"

text \<open>The level access of \<open>handle_modify\<close>: \<open>get_or_create_level\<close>, then \<open>add_volume\<close> on the level.\<close>

definition adjust_volume :: "u64 \<Rightarrow> i64 \<Rightarrow> ladder \<Rightarrow> (ladder_error + unit) \<times> ladder" where
  "adjust_volume p delta l =
     (case get_or_create_level p l of
        (None, l1) \<Rightarrow> (Inl PriceOutOfRange, l1)
      | (Some b, l1) \<Rightarrow> (Inr (), at_level b (\<lambda>lv. snd (add_level_volume delta lv)) l1))"

datatype ladder_op = LAdd u64 u64 | LRemove u64 u64 | LAdjust u64 i64 | LClear

fun run_ladder_op :: "ladder_op \<Rightarrow> ladder \<Rightarrow> ladder" where
  "run_ladder_op (LAdd p v) l = snd (add_volume p v l)"
| "run_ladder_op (LRemove p v) l = snd (remove_volume p v l)"
| "run_ladder_op (LAdjust p d) l = snd (adjust_volume p d l)"
| "run_ladder_op LClear l = clear_ladder l"

section \<open>The invariant\<close>

fun as_good :: "book_side \<Rightarrow> 'a::linorder \<Rightarrow> 'a \<Rightarrow> bool" where
  "as_good Bid i j \<longleftrightarrow> j \<le> i"
| "as_good Ask i j \<longleftrightarrow> i \<le> j"

lemma as_good_refl [simp]: "as_good sd i i" by (cases sd) simp_all

lemma as_good_trans: "as_good sd i j \<Longrightarrow> as_good sd j k \<Longrightarrow> as_good sd i k"
  by (cases sd) simp_all

text \<open>The cached buckets bound the active ones; the price of an active level lies in its bucket.\<close>

definition cached :: "ladder \<Rightarrow> nat \<Rightarrow> bool" where
  "cached l b \<longleftrightarrow>
     best_index l \<noteq> NO_INDEX \<and> worst_index l \<noteq> NO_INDEX \<and>
     as_good (ladder_side l) (best_index l) b \<and> as_good (ladder_side l) b (worst_index l)"

definition level_placed :: "ladder \<Rightarrow> nat \<Rightarrow> bool" where
  "level_placed l b \<longleftrightarrow>
     cached l b \<and> price_to_bucket (lv_price (levels l b)) l = Some b \<and> price_map l b = of_nat b"

definition index_ok :: "nat \<Rightarrow> bool" where
  "index_ok i \<longleftrightarrow> i = NO_INDEX \<or> i < MAX_PRICE_LEVELS"

definition ladder_inv :: "ladder \<Rightarrow> bool" where
  "ladder_inv l \<longleftrightarrow>
     index_ok (best_index l) \<and> index_ok (worst_index l) \<and>
     (\<forall>b < MAX_PRICE_LEVELS. active (levels l b) \<longrightarrow> level_placed l b)"

lemma ladder_invD:
  assumes "ladder_inv l"
  shows "index_ok (best_index l)" "index_ok (worst_index l)"
    "b < MAX_PRICE_LEVELS \<Longrightarrow> active (levels l b) \<Longrightarrow> level_placed l b"
  using assms by (auto simp: ladder_inv_def)

lemma new_ladder_inv: "ladder_inv (new_ladder sd tick base)"
  by (simp add: ladder_inv_def new_ladder_def new_level_def index_ok_def)

lemma bucket_bound: "price_to_bucket p l = Some b \<Longrightarrow> b < MAX_PRICE_LEVELS"
  by (auto simp: price_to_bucket_def Let_def split: if_splits)

lemma price_to_bucket_cong:
  "base_price l' = base_price l \<Longrightarrow> tick_size l' = tick_size l \<Longrightarrow>
     price_to_bucket p l' = price_to_bucket p l"
  by (simp add: price_to_bucket_def)

text \<open>The configuration of a ladder never changes.\<close>

lemma at_level_fields [simp]:
  "ladder_side (at_level b f l) = ladder_side l" "tick_size (at_level b f l) = tick_size l"
  "base_price (at_level b f l) = base_price l" "best_index (at_level b f l) = best_index l"
  "worst_index (at_level b f l) = worst_index l" "price_map (at_level b f l) = price_map l"
  "active_count (at_level b f l) = active_count l"
  "levels (at_level b f l) = (levels l)(b := f (levels l b))"
  by (simp_all add: at_level_def)

lemma update_best_worst_fields [simp]:
  "ladder_side (update_best_worst b l) = ladder_side l" "tick_size (update_best_worst b l) = tick_size l"
  "base_price (update_best_worst b l) = base_price l" "levels (update_best_worst b l) = levels l"
  "price_map (update_best_worst b l) = price_map l" "active_count (update_best_worst b l) = active_count l"
  by (simp_all add: update_best_worst_def Let_def split: book_side.split)

text \<open>Following a new bucket keeps the bound on the old ones and covers the new one.\<close>

lemma update_best_worst_cached:
  assumes "index_ok (best_index l)" "index_ok (worst_index l)" "b < MAX_PRICE_LEVELS"
  shows "cached (update_best_worst b l) b"
    and "cached l c \<Longrightarrow> cached (update_best_worst b l) c"
    and "index_ok (best_index (update_best_worst b l))" "index_ok (worst_index (update_best_worst b l))"
  using assms
  by (auto simp: update_best_worst_def cached_def index_ok_def Let_def NO_INDEX_def MAX_PRICE_LEVELS_def
      split: book_side.splits)

lemma price_to_bucket_frame [simp]:
  "price_to_bucket p (at_level b f l) = price_to_bucket p l"
  "price_to_bucket p (update_best_worst b l) = price_to_bucket p l"
  "price_to_bucket p (l\<lparr>price_map := pm\<rparr>) = price_to_bucket p l"
  "price_to_bucket p (l\<lparr>active_count := n\<rparr>) = price_to_bucket p l"
  "price_to_bucket p (l\<lparr>best_index := i\<rparr>) = price_to_bucket p l"
  "price_to_bucket p (l\<lparr>worst_index := i\<rparr>) = price_to_bucket p l"
  by (rule price_to_bucket_cong; simp)+

text \<open>A level keeps its price; so a change of volume or count at a covered level is harmless.\<close>

lemma at_level_inv:
  assumes "ladder_inv l" "level_placed l b" "lv_price (f (levels l b)) = lv_price (levels l b)"
  shows "ladder_inv (at_level b f l)" "level_placed (at_level b f l) b"
  using assms by (auto simp: ladder_inv_def level_placed_def cached_def)

lemma level_price_frame [simp]:
  "lv_price (snd (add_level_volume d lv)) = lv_price lv"
  "lv_price (snd (increment_order_count lv)) = lv_price lv"
  "lv_price (snd (decrement_order_count lv)) = lv_price lv"
  "lv_price (deactivate lv) = lv_price lv"
  by (simp_all add: add_level_volume_def increment_order_count_def decrement_order_count_def
      deactivate_def Let_def)

lemma get_or_create_level_cases:
  obtains "price_to_bucket p l = None" "get_or_create_level p l = (None, l)"
  | b where "price_to_bucket p l = Some b" "b < MAX_PRICE_LEVELS" "active (levels l b)"
      "get_or_create_level p l = (Some b, l)"
  | b where "price_to_bucket p l = Some b" "b < MAX_PRICE_LEVELS" "\<not> active (levels l b)"
      "get_or_create_level p l = (Some b, snd (get_or_create_level p l))"
      "levels (snd (get_or_create_level p l)) = (levels l)(b := set_level p 0 0 (levels l b))"
  by (cases "price_to_bucket p l")
     (auto simp: get_or_create_level_def Let_def bucket_bound)

lemma get_or_create_level_inv:
  assumes inv: "ladder_inv l" and "get_or_create_level p l = (r, l')"
  shows "ladder_inv l'" "r = Some b \<Longrightarrow> level_placed l' b"
    "ladder_side l' = ladder_side l" "tick_size l' = tick_size l" "base_price l' = base_price l"
proof -
  have "ladder_inv l' \<and> (r = Some b \<longrightarrow> level_placed l' b) \<and>
    ladder_side l' = ladder_side l \<and> tick_size l' = tick_size l \<and> base_price l' = base_price l"
  proof (cases "price_to_bucket p l")
    case None
    then show ?thesis using assms by (auto simp: get_or_create_level_def)
  next
    case (Some c)
    note c = bucket_bound [OF Some]
    show ?thesis
    proof (cases "active (levels l c)")
      case True
      then show ?thesis
        using assms Some ladder_invD(3) [OF inv c True] by (auto simp: get_or_create_level_def)
    next
      case False
      define l3 where "l3 = (at_level c (set_level p 0 0) l)
        \<lparr>price_map := (price_map l)(c := of_nat c), active_count := active_count l + 1\<rparr>"
      have l': "l' = update_best_worst c l3" "r = Some c"
        using assms(2) Some False by (auto simp: get_or_create_level_def Let_def l3_def)
      have l3: "index_ok (best_index l3)" "index_ok (worst_index l3)"
        using ladder_invD(1,2) [OF inv] by (simp_all add: l3_def)
      note upd = update_best_worst_cached [OF l3 c]
      have "level_placed l' c"
        using upd(1) Some by (simp add: level_placed_def l' l3_def set_level_def)
      moreover have "level_placed l' d" if "d < MAX_PRICE_LEVELS" "active (levels l d)" "d \<noteq> c" for d
      proof -
        have "cached l3 d" using ladder_invD(3) [OF inv that(1,2)]
          by (simp add: level_placed_def cached_def l3_def)
        then have "cached l' d" unfolding l'(1) by (rule upd(2))
        then show ?thesis using ladder_invD(3) [OF inv that(1,2)] that(3)
          by (simp add: level_placed_def l' l3_def)
      qed
      ultimately have "ladder_inv l'"
        using upd(3,4) by (auto simp: ladder_inv_def l' l3_def)
      then show ?thesis using \<open>level_placed l' c\<close> l' by (auto simp: l3_def)
    qed
  qed
  then show "ladder_inv l'" "r = Some b \<Longrightarrow> level_placed l' b"
    "ladder_side l' = ladder_side l" "tick_size l' = tick_size l" "base_price l' = base_price l"
    by blast+
qed

lemma at_level_same_config:
  "ladder_side (at_level b f l) = ladder_side l \<and> tick_size (at_level b f l) = tick_size l \<and>
   base_price (at_level b f l) = base_price l"
  by simp

lemma clear_ladder_fields:
  "ladder_side (clear_ladder l) = ladder_side l" "tick_size (clear_ladder l) = tick_size l"
  "base_price (clear_ladder l) = base_price l"
  "b < MAX_PRICE_LEVELS \<Longrightarrow> levels (clear_ladder l) b = deactivate (levels l b)"
proof -
  define f where "f = (\<lambda>i l. (at_level i deactivate l)\<lparr>price_map := (price_map l)(i := (- 1 :: u16))\<rparr>)"
  have "ladder_side (fold f is l) = ladder_side l \<and> tick_size (fold f is l) = tick_size l \<and>
      base_price (fold f is l) = base_price l \<and>
      levels (fold f is l) b = (if b \<in> set is then deactivate (levels l b) else levels l b)" for "is"
    by (induction "is" arbitrary: l) (simp_all add: f_def deactivate_def)
  from this [of "[0..<MAX_PRICE_LEVELS]"]
  show "ladder_side (clear_ladder l) = ladder_side l" "tick_size (clear_ladder l) = tick_size l"
    "base_price (clear_ladder l) = base_price l"
    "b < MAX_PRICE_LEVELS \<Longrightarrow> levels (clear_ladder l) b = deactivate (levels l b)"
    by (simp_all add: clear_ladder_def f_def Let_def)
qed

lemma clear_ladder_inv: "ladder_inv (clear_ladder l)"
  by (simp add: ladder_inv_def clear_ladder_fields deactivate_def index_ok_def)
     (simp add: clear_ladder_def Let_def)

lemma add_volume_inv:
  assumes "ladder_inv l" shows "ladder_inv (snd (add_volume p v l))"
proof (cases "get_or_create_level p l")
  case (Pair r l1)
  note l1 = get_or_create_level_inv(1,2) [OF assms Pair]
  show ?thesis
  proof (cases r)
    case None
    then show ?thesis using Pair l1(1) by (simp add: add_volume_def)
  next
    case (Some b)
    then show ?thesis using Pair l1 by (simp add: add_volume_def Let_def at_level_inv)
  qed
qed

lemma adjust_volume_inv:
  assumes "ladder_inv l" shows "ladder_inv (snd (adjust_volume p d l))"
proof (cases "get_or_create_level p l")
  case (Pair r l1)
  note l1 = get_or_create_level_inv(1,2) [OF assms Pair]
  show ?thesis
  proof (cases r)
    case None
    then show ?thesis using Pair l1(1) by (simp add: adjust_volume_def)
  next
    case (Some b)
    then show ?thesis using Pair l1 by (simp add: adjust_volume_def at_level_inv)
  qed
qed

lemma remove_volume_inv:
  assumes "ladder_inv l" shows "ladder_inv (snd (remove_volume p v l))"
  using assms ladder_invD(3) [OF assms bucket_bound]
  by (auto simp: remove_volume_def Let_def at_level_inv split: option.split)

lemma ladder_op_inv: "ladder_inv l \<Longrightarrow> ladder_inv (run_ladder_op op l)"
  by (cases op) (simp_all add: add_volume_inv remove_volume_inv adjust_volume_inv clear_ladder_inv)

lemma ladder_op_config:
  "ladder_side (run_ladder_op op l) = ladder_side l \<and> tick_size (run_ladder_op op l) = tick_size l \<and>
   base_price (run_ladder_op op l) = base_price l"
proof -
  have get: "ladder_side l' = ladder_side l \<and> tick_size l' = tick_size l \<and> base_price l' = base_price l"
    if "get_or_create_level p l = (r, l')" for p r l'
    using that by (auto simp: get_or_create_level_def Let_def split: option.splits if_splits)
  then show ?thesis
    by (cases op) (auto simp: add_volume_def remove_volume_def adjust_volume_def clear_ladder_fields Let_def
        split: prod.splits option.splits)
qed

interpretation ladder: invariant_machine run_ladder_op ladder_inv
  by unfold_locales (rule ladder_op_inv)

lemma run_ladder_config:
  "ladder_side (fold run_ladder_op ops l) = ladder_side l \<and>
   tick_size (fold run_ladder_op ops l) = tick_size l \<and> base_price (fold run_ladder_op ops l) = base_price l"
  by (induction ops arbitrary: l) (simp_all add: ladder_op_config)

section \<open>The best price\<close>

text \<open>Buckets are monotone in the price, so a better bucket holds better prices.\<close>

lemma bucket_mono:
  assumes "price_to_bucket p l = Some b" "price_to_bucket q l = Some c" "p \<le> q"
  shows "b \<le> c"
proof -
  have ge: "base_price l \<le> p" "base_price l \<le> q"
    using assms(1,2) by (auto simp: price_to_bucket_def not_less split: if_splits)
  have "unat (p - base_price l) \<le> unat (q - base_price l)"
    using ge assms(3) by (simp add: unat_sub word_le_nat_alt)
  then have "unat ((p - base_price l) div tick_size l) \<le> unat ((q - base_price l) div tick_size l)"
    by (simp add: unat_div div_le_mono)
  then show ?thesis
    using assms(1,2) by (auto simp: price_to_bucket_def Let_def split: if_splits)
qed

lemma better_bucket_better_price:
  assumes "price_to_bucket p l = Some b" "price_to_bucket q l = Some c" "as_good sd b c" "b \<noteq> c"
  shows "as_good sd p q"
proof (cases sd)
  case Bid
  have "q \<le> p"
  proof (rule ccontr)
    assume "\<not> q \<le> p"
    then have "b \<le> c" using bucket_mono [OF assms(1,2)] by simp
    then show False using assms(3,4) Bid by simp
  qed
  then show ?thesis using Bid by simp
next
  case Ask
  have "p \<le> q"
  proof (rule ccontr)
    assume "\<not> p \<le> q"
    then have "c \<le> b" using bucket_mono [OF assms(2,1)] by simp
    then show False using assms(3,4) Ask by simp
  qed
  then show ?thesis using Ask by simp
qed

lemma get_best_price_Some:
  assumes inv: "ladder_inv l" and best: "get_best_price l = Inr (Some p)"
  shows "\<exists>v c. (p, v, c) \<in> set (active_levels l)"
    and "(q, v, c) \<in> set (active_levels l) \<Longrightarrow> as_good (ladder_side l) p q"
proof -
  let ?b = "best_index l"
  have b: "?b < MAX_PRICE_LEVELS" "active (levels l ?b)" "lv_price (levels l ?b) = p"
    using best by (auto simp: get_best_price_def Let_def split: if_splits)
  then show "\<exists>v c. (p, v, c) \<in> set (active_levels l)"
    by (auto simp: active_levels_def)
  note pb = ladder_invD(3) [OF inv b(1,2)]
  assume "(q, v, c) \<in> set (active_levels l)"
  then obtain i where i: "i < MAX_PRICE_LEVELS" "active (levels l i)" "q = lv_price (levels l i)"
    by (auto simp: active_levels_def)
  note qb = ladder_invD(3) [OF inv i(1,2)]
  show "as_good (ladder_side l) p q"
  proof (cases "i = ?b")
    case True
    then show ?thesis using i(3) b(3) by simp
  next
    case False
    then show ?thesis
      using better_bucket_better_price [of p l ?b q i "ladder_side l"] pb qb b(3) i(3)
      by (simp add: level_placed_def cached_def)
  qed
qed

lemma get_best_price_total: "ladder_inv l \<Longrightarrow> \<exists>r. get_best_price l = Inr r"
  using ladder_invD(1) [of l] by (auto simp: get_best_price_def index_ok_def Let_def)

text \<open>C35. A best price that is reported is right.  After any sequence of additions, removals,
  adjustments and clears on a new ladder, with any prices and volumes, reading the best price does
  not panic, and when it is \<open>Some p\<close> then \<open>p\<close> is the price of an active level and no active level
  has a better one: none is higher on the bid side, none lower on the ask side.\<close>

theorem best_price_is_best:
  "let l = fold run_ladder_op ops (new_ladder sd tick base)
   in case get_best_price l of
        Inl e \<Rightarrow> False
      | Inr None \<Rightarrow> True
      | Inr (Some p) \<Rightarrow> p \<in> fst ` set (active_levels l) \<and>
          list_all (\<lambda>(q, v, c). as_good sd p q) (active_levels l)"
proof -
  define l where "l = fold run_ladder_op ops (new_ladder sd tick base)"
  have inv: "ladder_inv l" unfolding l_def by (rule ladder.run_inv [OF new_ladder_inv])
  have sd: "ladder_side l = sd"
    unfolding l_def using run_ladder_config by (simp add: new_ladder_def)
  show ?thesis
    unfolding l_def [symmetric] Let_def
    using get_best_price_total [OF inv] get_best_price_Some [OF inv] sd
    by (force simp: list_all_iff split: sum.split option.split)
qed

text \<open>An emptied best level stays the cached best: additions behind it do not replace it.\<close>

definition stale_best :: "nat \<Rightarrow> ladder \<Rightarrow> bool" where
  "stale_best i l \<longleftrightarrow> best_index l = i \<and> i < MAX_PRICE_LEVELS \<and> \<not> active (levels l i)"

definition behind_best :: "ladder \<Rightarrow> u64 \<Rightarrow> bool" where
  "behind_best l q \<longleftrightarrow>
     (case price_to_bucket q l of
        None \<Rightarrow> True
      | Some c \<Rightarrow> c \<noteq> best_index l \<and> as_good (ladder_side l) (best_index l) c)"

lemma stale_best_price: "stale_best i l \<Longrightarrow> get_best_price l = Inr None"
  by (simp add: stale_best_def get_best_price_def NO_INDEX_def MAX_PRICE_LEVELS_def)

lemma not_best_of_behind:
  "best_index l \<noteq> NO_INDEX \<Longrightarrow> as_good (ladder_side l) (best_index l) c \<Longrightarrow>
     best_index (update_best_worst c l) = best_index l"
  by (auto simp: update_best_worst_def Let_def split: book_side.split)

lemma behind_best_cong:
  "best_index l' = best_index l \<Longrightarrow> ladder_side l' = ladder_side l \<Longrightarrow>
     base_price l' = base_price l \<Longrightarrow> tick_size l' = tick_size l \<Longrightarrow> behind_best l' = behind_best l"
  using price_to_bucket_cong [of l' l] by (simp add: behind_best_def fun_eq_iff cong: option.case_cong)

text \<open>For evaluation: the update function is applied before it is simplified.\<close>

lemma at_level_weak_cong: "b = b' \<Longrightarrow> l = l' \<Longrightarrow> at_level b f l = at_level b' f l'"
  by simp

lemmas ladder_eval =
  new_ladder_def new_level_def add_volume_def remove_volume_def get_or_create_level_def
  price_to_bucket_def at_level_def set_level_def add_level_volume_def increment_order_count_def
  decrement_order_count_def saturating_sub_def deactivate_def update_best_worst_def get_best_price_def
  get_volume_at_price_def behind_best_def s64_def NO_INDEX_def MAX_PRICE_LEVELS_def Let_def

lemma add_behind_stale:
  assumes "stale_best i l" "behind_best l q"
  shows "stale_best i (snd (add_volume q w l))" "behind_best (snd (add_volume q w l)) = behind_best l"
proof -
  have i: "i \<noteq> NO_INDEX" "best_index l = i" "\<not> active (levels l i)" "i < MAX_PRICE_LEVELS"
    using assms(1) by (auto simp: stale_best_def NO_INDEX_def MAX_PRICE_LEVELS_def)
  show stale: "stale_best i (snd (add_volume q w l))"
  proof (cases "price_to_bucket q l")
    case None
    then show ?thesis using assms(1) by (simp add: add_volume_def get_or_create_level_def)
  next
    case (Some c)
    then have c: "c \<noteq> i" "as_good (ladder_side l) i c"
      using assms(2) i(2) by (simp_all add: behind_best_def)
    show ?thesis
      using Some c i not_best_of_behind
        [of "(at_level c (set_level q 0 0) l)\<lparr>price_map := (price_map l)(c := of_nat c),
             active_count := active_count l + 1\<rparr>" c]
      by (simp add: stale_best_def add_volume_def get_or_create_level_def Let_def)
  qed
  then show "behind_best (snd (add_volume q w l)) = behind_best l"
    using ladder_op_config [of "LAdd q w" l] i(2) by (intro behind_best_cong) (simp_all add: stale_best_def)
qed

lemma adds_behind_stale:
  assumes "stale_best i l" "\<forall>(q, w) \<in> set adds. behind_best l q"
  shows "stale_best i (fold (\<lambda>(q, w). snd \<circ> add_volume q w) adds l)"
  using assms
proof (induction adds arbitrary: l)
  case Nil
  then show ?case by simp
next
  case (Cons a adds)
  obtain q w where a: "a = (q, w)" by fastforce
  have q: "behind_best l q" using Cons.prems(2) a by simp
  show ?case
    using Cons.IH [OF add_behind_stale(1) [OF Cons.prems(1) q]] add_behind_stale(2) [OF Cons.prems(1) q]
      Cons.prems(2) a
    by simp
qed

lemma last_order_deactivates:
  "order_count lv = 1 \<Longrightarrow> \<not> active (snd (decrement_order_count (snd (add_level_volume d lv))))"
  by (simp add: decrement_order_count_def saturating_sub_def add_level_volume_def deactivate_def Let_def)

lemma remove_last_order:
  assumes "ladder_inv l" "get_best_price l = Inr (Some p)" "order_count (levels l (best_index l)) = 1"
  shows "stale_best (best_index l) (snd (remove_volume p v l))"
    "behind_best (snd (remove_volume p v l)) = behind_best l"
proof -
  let ?b = "best_index l"
  have b: "?b < MAX_PRICE_LEVELS" "active (levels l ?b)" "lv_price (levels l ?b) = p"
    using assms(2) by (auto simp: get_best_price_def Let_def split: if_splits)
  have bucket: "price_to_bucket p l = Some ?b"
    using ladder_invD(3) [OF assms(1) b(1,2)] b(3) by (simp add: level_placed_def)
  show "stale_best ?b (snd (remove_volume p v l))"
    using last_order_deactivates [OF assms(3)] b bucket
    by (simp add: remove_volume_def stale_best_def Let_def)
  then show "behind_best (snd (remove_volume p v l)) = behind_best l"
    using ladder_op_config [of "LRemove p v" l] by (intro behind_best_cong) (simp_all add: stale_best_def)
qed

text \<open>The best price is lost when the best level empties.  Once the only order at the best
  price is removed, the ladder reports no best price, and it still reports none after any number of
  additions at prices behind the emptied level, although those levels are active.\<close>

lemma best_price_lost:
  assumes "l = fold run_ladder_op ops (new_ladder sd tick base)"
    "get_best_price l = Inr (Some p)" "order_count (levels l (best_index l)) = 1"
    "\<forall>(q, w) \<in> set adds. behind_best l q"
  shows "get_best_price (fold (\<lambda>(q, w). snd \<circ> add_volume q w) adds (snd (remove_volume p v l))) = Inr None"
proof -
  have "ladder_inv l" unfolding assms(1) by (rule ladder.run_inv [OF new_ladder_inv])
  note gone = remove_last_order [OF this assms(2,3), of v]
  show ?thesis
    using adds_behind_stale [OF gone(1), of adds] assms(4) gone(2) by (intro stale_best_price) simp
qed

lemma best_price_lost_example:
  "get_best_price (fold (\<lambda>(q, w). snd \<circ> add_volume q w) [(101, 5), (102, 7)]
     (snd (remove_volume 103 4 (fold run_ladder_op [LAdd 103 4, LAdd 101 9] (new_ladder Bid 1 100)))))
   = Inr None \<and>
   get_volume_at_price 102 (fold (\<lambda>(q, w). snd \<circ> add_volume q w) [(101, 5), (102, 7)]
     (snd (remove_volume 103 4 (fold run_ladder_op [LAdd 103 4, LAdd 101 9] (new_ladder Bid 1 100)))))
   = Some 7"
proof
  show "get_best_price (fold (\<lambda>(q, w). snd \<circ> add_volume q w) [(101, 5), (102, 7)]
     (snd (remove_volume 103 4 (fold run_ladder_op [LAdd 103 4, LAdd 101 9] (new_ladder Bid 1 100)))))
     = Inr None"
  proof (rule best_price_lost [OF refl])
    show "get_best_price (fold run_ladder_op [LAdd 103 4, LAdd 101 9] (new_ladder Bid 1 100)) = Inr (Some 103)"
      by (simp add: ladder_eval cong: at_level_weak_cong)
    show "order_count (levels (fold run_ladder_op [LAdd 103 4, LAdd 101 9] (new_ladder Bid 1 100))
        (best_index (fold run_ladder_op [LAdd 103 4, LAdd 101 9] (new_ladder Bid 1 100)))) = 1"
      by (simp add: ladder_eval cong: at_level_weak_cong)
    show "\<forall>(q, w) \<in> set [(101, 5), (102, 7)].
        behind_best (fold run_ladder_op [LAdd 103 4, LAdd 101 9] (new_ladder Bid 1 100)) q"
      by (simp add: ladder_eval cong: at_level_weak_cong)
  qed
qed (simp add: ladder_eval cong: at_level_weak_cong)

text \<open>The sequence of the unit test \<open>test_price_ladder_add_remove\<close>: removing half of the volume of
  a single order counts as removing the order, so the level is deactivated and the other half is
  gone.\<close>

lemma half_removal_deactivates:
  "get_volume_at_price 99100000000
     (fold run_ladder_op [LAdd 99100000000 1000000000, LRemove 99100000000 500000000]
        (new_ladder Bid 100000000 99000000000)) = None"
  by (simp add: ladder_eval cong: at_level_weak_cong)

text \<open>The count of active levels only grows: a level that is emptied and filled again is counted
  twice.\<close>

lemma active_count_counts_twice:
  "(let l = fold run_ladder_op [LAdd 101 5, LRemove 101 5, LAdd 101 5] (new_ladder Ask 1 100)
    in (active_count l, \<lambda>i. active (levels l i))) = (2, \<lambda>i. i = 1)"
  by (simp add: ladder_eval fun_eq_iff cong: at_level_weak_cong)

section \<open>What a level holds\<close>

text \<open>A level that aggregates \<open>n\<close> orders of total volume \<open>w\<close>.\<close>

definition level_sums :: "price_level \<Rightarrow> nat \<Rightarrow> nat \<Rightarrow> bool" where
  "level_sums lv w n \<longleftrightarrow>
     unat (lv_volume lv) = w \<and> unat (order_count lv) = n \<and> (w = 0 \<longleftrightarrow> n = 0) \<and> w < 2 ^ 63"

definition level_holds :: "price_level \<Rightarrow> nat \<Rightarrow> nat \<Rightarrow> bool" where
  "level_holds lv w n \<longleftrightarrow> level_sums lv w n \<and> active lv = (0 < n)"

lemma level_holds_sums: "level_holds lv w n \<Longrightarrow> level_sums lv w n"
  by (simp add: level_holds_def)

lemma sint_eq_unat: "unat v < 2 ^ 63 \<Longrightarrow> sint (v :: u64) = int (unat v)"
proof -
  assume "unat v < 2 ^ 63"
  then have "int (unat v) < int (2 ^ 63)" by (simp only: of_nat_less_iff)
  then have u: "uint v < 2 ^ 63" by simp
  have "sint v = signed_take_bit 63 (uint v)" by (simp add: sint_uint)
  also have "\<dots> = uint v"
    using u order_trans [OF _ uint_ge_0 [of v], of "- (2 ^ 63)"]
    by (intro signed_take_bit_int_eq_self) simp_all
  finally show "sint v = int (unat v)" by (simp only: uint_nat)
qed

lemma unat_of_small_int: "0 \<le> x \<Longrightarrow> x < 2 ^ 63 \<Longrightarrow> unat (word_of_int x :: u64) = nat x"
  by (simp add: unat_eq_nat_uint uint_word_of_int_eq take_bit_int_eq_self)

text \<open>The volume of a level after a change whose result stays in range.\<close>

lemma add_level_volume_exact:
  assumes "level_sums lv w n" "0 < int w + d" "int w + d < 2 ^ 63"
  shows "snd (add_level_volume d lv) =
      lv\<lparr>lv_volume := word_of_nat (nat (int w + d)), active := True\<rparr>"
    and "unat (word_of_nat (nat (int w + d)) :: u64) = nat (int w + d)"
proof -
  have "sint (lv_volume lv) = int w"
    using assms(1) sint_eq_unat [of "lv_volume lv"] by (simp add: level_sums_def)
  moreover have "s64 (int w + d) = int w + d"
    using assms(2,3) by (intro s64_id) (simp add: in_i64_def)
  moreover have "unat (word_of_int (int w + d) :: u64) = nat (int w + d)"
    using assms(2,3) by (intro unat_of_small_int) simp_all
  moreover from this have "(word_of_int (int w + d) :: u64) \<noteq> 0"
    using assms(2) by auto
  moreover have "(word_of_nat (nat (int w + d)) :: u64) = word_of_int (int w + d)"
    using assms(2) by simp
  ultimately show "snd (add_level_volume d lv) =
      lv\<lparr>lv_volume := word_of_nat (nat (int w + d)), active := True\<rparr>"
    and "unat (word_of_nat (nat (int w + d)) :: u64) = nat (int w + d)"
    using assms(2) by (simp_all add: add_level_volume_def Let_def max_def)
qed

text \<open>The three changes the reconstructor makes to a level.\<close>

lemma level_holds_add:
  fixes v :: u64
  assumes "level_sums lv w n" "0 < unat v" "w + unat v < 2 ^ 63" "n + 1 < 2 ^ 16"
  shows "level_holds (snd (increment_order_count (snd (add_level_volume (sint v) lv)))) (w + unat v) (n + 1)"
proof -
  define k where "k = unat v"
  have k: "0 < k" "w + k < 2 ^ 63" "sint v = int k"
    using assms(2,3) sint_eq_unat [of v] by (simp_all only: k_def)
  have "snd (add_level_volume (int k) lv) = lv\<lparr>lv_volume := word_of_nat (w + k), active := True\<rparr>"
    "unat (word_of_nat (w + k) :: u64) = w + k"
    using add_level_volume_exact [OF assms(1), of "int k"] k(1,2) by (simp_all add: nat_add_distrib)
  moreover have "unat (order_count lv + 1) = n + 1"
    using assms(1,4) unat_inc [of "order_count lv"] by (simp add: level_sums_def)
  ultimately show ?thesis
    using assms(1) k(1,2) unfolding k(3) k_def [symmetric]
    by (simp add: level_holds_def level_sums_def increment_order_count_def)
qed

lemma level_holds_adjust:
  assumes "level_sums lv w n" "0 < n" "0 < int w + d" "int w + d < 2 ^ 63"
  shows "level_holds (snd (add_level_volume d lv)) (nat (int w + d)) n"
  using add_level_volume_exact [OF assms(1,3,4)] assms
  by (simp add: level_holds_def level_sums_def nat_less_iff)

lemma level_holds_remove:
  fixes v :: u64
  assumes "level_holds lv w n" "0 < n" "0 < unat v" "if n = 1 then unat v = w else unat v < w"
  shows "level_holds (snd (decrement_order_count (snd (add_level_volume (s64 (- sint v)) lv))))
           (w - unat v) (n - 1)"
proof (cases "n = 1")
  case True
  then have "order_count lv = 1" and "unat v = w"
    using assms(1,4) by (simp_all add: level_holds_def level_sums_def word_unat_eq_iff)
  then show ?thesis
    using True by (simp add: level_holds_def level_sums_def decrement_order_count_def saturating_sub_def
        add_level_volume_def deactivate_def Let_def)
next
  case False
  define k where "k = unat v"
  have k: "0 < k" "k < w" "w < 2 ^ 63" and "sint v = int k"
    using assms False sint_eq_unat [of v] by (simp_all add: level_holds_def level_sums_def k_def del: sint_range_size)
  have "s64 (- int k) = - int k"
    using k by (intro s64_id) (simp add: in_i64_def)
  then have neg: "s64 (- sint v) = - int k" using \<open>sint v = int k\<close> by simp
  define m where "m = snd (add_level_volume (- int k) lv)"
  have "nat (int w + - int k) = w - k" using k(2) by simp
  then have m: "level_holds m (w - k) n"
    using level_holds_adjust [OF level_holds_sums [OF assms(1)] assms(2), of "- int k"] k
    by (simp only: m_def) simp
  then have n: "unat (order_count m) = n" by (simp add: level_holds_def level_sums_def)
  then have le: "(1 :: u16) \<le> order_count m" using assms(2) by (simp add: word_le_nat_alt)
  then have dec: "unat (order_count m - 1) = n - 1" using n by (simp add: unat_sub)
  then have "order_count m - 1 \<noteq> 0" using False assms(2) by auto
  then show ?thesis
    using m False assms(2) le dec k unfolding neg m_def [symmetric] k_def [symmetric]
    by (simp add: level_holds_def level_sums_def decrement_order_count_def saturating_sub_def Let_def)
qed

text \<open>The level after \<open>get_or_create_level\<close> holds what it held, and is active.\<close>

lemma get_or_create_level_sums:
  assumes "price_to_bucket p l = Some b" "level_holds (levels l b) w n"
  shows "fst (get_or_create_level p l) = Some b"
    and "level_sums (levels (snd (get_or_create_level p l)) b) w n"
    and "c \<noteq> b \<Longrightarrow> levels (snd (get_or_create_level p l)) c = levels l c"
  using assms by (auto simp: get_or_create_level_def Let_def level_holds_def level_sums_def set_level_def)

end
