(* ===== verification/Lob_Reconstructor.thy ===== *)
theory Lob_Reconstructor
  imports L3_Slab Price_Ladder
begin

text \<open>
  The order book built from a stream of deltas, \<open>crates/nexus_orderbook/src/lob_reconstructor.rs\<close>:
  a price ladder per side (level 2) and the slab of individual orders (level 3).  The handlers are
  written with their early returns; a panic of the slab or of the ladder is the left of the outer
  sum, an error string the left of the inner one.  The logging calls have no effect on the book.
  The theory shows that level 2 is the aggregate of level 3 as long as the deltas fit the book.
\<close>

section \<open>Deltas, statistics, the book\<close>

datatype delta_type = AddDelta | ModifyDelta | CancelDelta | TradeDelta | SnapshotDelta

definition delta_type_from_u8 :: "u8 \<Rightarrow> delta_type option" where
  "delta_type_from_u8 v =
     (if v = 0 then Some AddDelta else if v = 1 then Some ModifyDelta
      else if v = 2 then Some CancelDelta else if v = 3 then Some TradeDelta
      else if v = 4 then Some SnapshotDelta else None)"

record delta =
  d_timestamp :: u64
  d_order_id :: u64
  d_price :: u64
  d_volume :: u64
  d_side :: u8
  d_type :: u8
  d_sequence :: u64
  d_exchange :: u16

definition delta_side :: "delta \<Rightarrow> book_side" where
  "delta_side d = (if d_side d = 0 then Bid else if d_side d = 1 then Ask else Bid)"

record book_stats =
  deltas_processed :: u64
  adds_processed :: u64
  modifies_processed :: u64
  cancels_processed :: u64
  trades_processed :: u64
  invalid_deltas :: u64
  last_sequence :: u64
  sequence_gaps :: u64

definition new_book_stats :: book_stats where
  "new_book_stats =
     \<lparr>deltas_processed = 0, adds_processed = 0, modifies_processed = 0, cancels_processed = 0,
      trades_processed = 0, invalid_deltas = 0, last_sequence = 0, sequence_gaps = 0\<rparr>"

record book =
  bids :: ladder
  asks :: ladder
  l3 :: slab
  stats :: book_stats
  last_bid :: u64
  last_ask :: u64

definition new_book :: "u64 \<Rightarrow> u64 \<Rightarrow> book" where
  "new_book tick base =
     \<lparr>bids = new_ladder Bid tick base, asks = new_ladder Ask tick base, l3 = new_slab,
      stats = new_book_stats, last_bid = 0, last_ask = 0\<rparr>"

datatype book_error =
  InvalidDeltaType | OrderNotFound | LadderError ladder_error | SlabError slab_error

type_synonym book_result = "panic + (book_error + unit) \<times> book"

definition ladder_of :: "book_side \<Rightarrow> book \<Rightarrow> ladder" where
  "ladder_of sd bk = (case sd of Bid \<Rightarrow> bids bk | Ask \<Rightarrow> asks bk)"

definition set_ladder :: "book_side \<Rightarrow> ladder \<Rightarrow> book \<Rightarrow> book" where
  "set_ladder sd l bk = (case sd of Bid \<Rightarrow> bk\<lparr>bids := l\<rparr> | Ask \<Rightarrow> bk\<lparr>asks := l\<rparr>)"

definition side_u8 :: "book_side \<Rightarrow> u8" where
  "side_u8 sd = (case sd of Bid \<Rightarrow> 0 | Ask \<Rightarrow> 1)"

text \<open>A ladder call of a handler that returns its result with \<open>?\<close> or as the last statement.\<close>

definition on_ladder ::
  "book_side \<Rightarrow> (ladder \<Rightarrow> (ladder_error + unit) \<times> ladder) \<Rightarrow> book \<Rightarrow> (book_error + unit) \<times> book" where
  "on_ladder sd f bk =
     (case f (ladder_of sd bk) of
        (Inl e, l) \<Rightarrow> (Inl (LadderError e), set_ladder sd l bk)
      | (Inr u, l) \<Rightarrow> (Inr u, set_ladder sd l bk))"

section \<open>The handlers\<close>

definition get_level_tail :: "book_side \<Rightarrow> u64 \<Rightarrow> nat" where
  "get_level_tail sd p = INVALID_ORDER_INDEX"

definition handle_add :: "book_side \<Rightarrow> u64 \<Rightarrow> u64 \<Rightarrow> u64 \<Rightarrow> book \<Rightarrow> book_result" where
  "handle_add sd p v oid bk =
     (case on_ladder sd (add_volume p v) bk of
        (Inl e, bk1) \<Rightarrow> Inr (Inl e, bk1)
      | (Inr _, bk1) \<Rightarrow>
          (case allocate oid p v (side_u8 sd) (l3 bk1) of
             Inl e \<Rightarrow> Inl e
           | Inr (None, s) \<Rightarrow> Inr (Inr (), bk1\<lparr>l3 := s\<rparr>)
           | Inr (Some i, s) \<Rightarrow>
               Inr (Inr (), bk1\<lparr>l3 := snd (insert_into_level i (get_level_tail sd p) s)\<rparr>)))"

definition handle_modify :: "book_side \<Rightarrow> u64 \<Rightarrow> u64 \<Rightarrow> u64 \<Rightarrow> book \<Rightarrow> book_result" where
  "handle_modify sd p v oid bk =
     (case find_by_order_id oid (l3 bk) of
        (None, s) \<Rightarrow> handle_add sd p v oid (bk\<lparr>l3 := s\<rparr>)
      | (Some i, s) \<Rightarrow>
          (case get_record i s of
             None \<Rightarrow> Inr (Inl OrderNotFound, bk\<lparr>l3 := s\<rparr>)
           | Some r \<Rightarrow>
               let old_volume = r_volume r; old_price = r_price r;
                   s1 = at_slot i (\<lambda>r. r\<lparr>r_volume := v\<rparr>) s;
                   s2 = at_slot i (\<lambda>r. r\<lparr>r_price := p\<rparr>) s1;
                   bk1 = bk\<lparr>l3 := s2\<rparr>
               in if old_price \<noteq> p
                  then
                    (case on_ladder sd (remove_volume old_price old_volume) bk1 of
                       (Inl e, bk2) \<Rightarrow> Inr (Inl e, bk2)
                     | (Inr _, bk2) \<Rightarrow> Inr (on_ladder sd (add_volume p v) bk2))
                  else
                    let vol_delta = s64 (sint v - sint old_volume)
                    in Inr (on_ladder sd (adjust_volume p vol_delta) bk1)))"

definition handle_cancel :: "book_side \<Rightarrow> u64 \<Rightarrow> book \<Rightarrow> book_result" where
  "handle_cancel sd oid bk =
     (case find_by_order_id oid (l3 bk) of
        (None, s) \<Rightarrow> Inr (Inr (), bk\<lparr>l3 := s\<rparr>)
      | (Some i, s) \<Rightarrow>
          (case get_record i s of
             None \<Rightarrow> Inr (Inl OrderNotFound, bk\<lparr>l3 := s\<rparr>)
           | Some r \<Rightarrow>
               let price = r_price r; vol = r_volume r
               in case remove_from_level i s of
                    (Inl e, s1) \<Rightarrow> Inr (Inl (SlabError e), bk\<lparr>l3 := s1\<rparr>)
                  | (Inr _, s1) \<Rightarrow>
                      (case slab_free i s1 of
                         Inl e \<Rightarrow> Inl e
                       | Inr (Inl e, s2) \<Rightarrow> Inr (Inl (SlabError e), bk\<lparr>l3 := s2\<rparr>)
                       | Inr (Inr _, s2) \<Rightarrow> Inr (on_ladder sd (remove_volume price vol) (bk\<lparr>l3 := s2\<rparr>)))))"

definition handle_trade_delta :: "book_side \<Rightarrow> u64 \<Rightarrow> u64 \<Rightarrow> u64 \<Rightarrow> book \<Rightarrow> book_result" where
  "handle_trade_delta sd p v oid bk =
     (case find_by_order_id oid (l3 bk) of
        (None, s) \<Rightarrow> Inr (on_ladder sd (remove_volume p v) (bk\<lparr>l3 := s\<rparr>))
      | (Some i, s) \<Rightarrow>
          (case get_record i s of
             None \<Rightarrow> Inr (Inl OrderNotFound, bk\<lparr>l3 := s\<rparr>)
           | Some r \<Rightarrow>
               let new_vol = saturating_sub (r_volume r) v;
                   s1 = at_slot i (\<lambda>r. r\<lparr>r_volume := new_vol\<rparr>) s
               in case on_ladder sd (remove_volume p v) (bk\<lparr>l3 := s1\<rparr>) of
                    (Inl e, bk1) \<Rightarrow> Inr (Inl e, bk1)
                  | (Inr _, bk1) \<Rightarrow>
                      if new_vol = 0
                      then
                        (case remove_from_level i (l3 bk1) of
                           (Inl e, s2) \<Rightarrow> Inr (Inl (SlabError e), bk1\<lparr>l3 := s2\<rparr>)
                         | (Inr _, s2) \<Rightarrow>
                             (case slab_free i s2 of
                                Inl e \<Rightarrow> Inl e
                              | Inr (Inl e, s3) \<Rightarrow> Inr (Inl (SlabError e), bk1\<lparr>l3 := s3\<rparr>)
                              | Inr (Inr _, s3) \<Rightarrow> Inr (Inr (), bk1\<lparr>l3 := s3\<rparr>)))
                      else Inr (Inr (), bk1)))"

definition clear_book :: "book \<Rightarrow> book" where
  "clear_book bk =
     bk\<lparr>bids := clear_ladder (bids bk), asks := clear_ladder (asks bk), l3 := clear_slab (l3 bk),
        last_bid := 0, last_ask := 0\<rparr>"

definition update_cached_prices :: "book \<Rightarrow> panic + book" where
  "update_cached_prices bk =
     (case get_best_price (bids bk) of
        Inl e \<Rightarrow> Inl e
      | Inr b \<Rightarrow>
          let bk1 = (case b of Some bid \<Rightarrow> bk\<lparr>last_bid := bid\<rparr> | None \<Rightarrow> bk)
          in case get_best_price (asks bk1) of
               Inl e \<Rightarrow> Inl e
             | Inr a \<Rightarrow> Inr (case a of Some ask \<Rightarrow> bk1\<lparr>last_ask := ask\<rparr> | None \<Rightarrow> bk1))"

text \<open>The counters at the head of \<open>process_delta\<close>.\<close>

definition note_sequence :: "u64 \<Rightarrow> book_stats \<Rightarrow> book_stats" where
  "note_sequence seq st =
     (let st1 = st\<lparr>deltas_processed := deltas_processed st + 1\<rparr>;
          st2 = (if seq > 0 \<and> seq \<noteq> last_sequence st1 + 1
                 then st1\<lparr>sequence_gaps := sequence_gaps st1 + 1\<rparr> else st1)
      in st2\<lparr>last_sequence := seq\<rparr>)"

fun count_delta :: "delta_type \<Rightarrow> book_stats \<Rightarrow> book_stats" where
  "count_delta AddDelta st = st\<lparr>adds_processed := adds_processed st + 1\<rparr>"
| "count_delta ModifyDelta st = st\<lparr>modifies_processed := modifies_processed st + 1\<rparr>"
| "count_delta CancelDelta st = st\<lparr>cancels_processed := cancels_processed st + 1\<rparr>"
| "count_delta TradeDelta st = st\<lparr>trades_processed := trades_processed st + 1\<rparr>"
| "count_delta SnapshotDelta st = st"

fun handle_delta :: "delta_type \<Rightarrow> delta \<Rightarrow> book \<Rightarrow> book_result" where
  "handle_delta AddDelta d bk = handle_add (delta_side d) (d_price d) (d_volume d) (d_order_id d) bk"
| "handle_delta ModifyDelta d bk = handle_modify (delta_side d) (d_price d) (d_volume d) (d_order_id d) bk"
| "handle_delta CancelDelta d bk = handle_cancel (delta_side d) (d_order_id d) bk"
| "handle_delta TradeDelta d bk = handle_trade_delta (delta_side d) (d_price d) (d_volume d) (d_order_id d) bk"
| "handle_delta SnapshotDelta d bk = Inr (Inr (), clear_book bk)"

definition process_delta :: "delta \<Rightarrow> book \<Rightarrow> book_result" where
  "process_delta d bk =
     (let bk1 = bk\<lparr>stats := note_sequence (d_sequence d) (stats bk)\<rparr>
      in case delta_type_from_u8 (d_type d) of
           None \<Rightarrow> Inr (Inl InvalidDeltaType, bk1)
         | Some ty \<Rightarrow>
             (case handle_delta ty d (bk1\<lparr>stats := count_delta ty (stats bk1)\<rparr>) of
                Inl e \<Rightarrow> Inl e
              | Inr (Inl e, bk2) \<Rightarrow> Inr (Inl e, bk2)
              | Inr (Inr _, bk2) \<Rightarrow> map_sum id (\<lambda>bk3. (Inr (), bk3)) (update_cached_prices bk2)))"

section \<open>Queries\<close>

definition best_bid :: "book \<Rightarrow> panic + u64 option" where "best_bid bk = get_best_price (bids bk)"
definition best_ask :: "book \<Rightarrow> panic + u64 option" where "best_ask bk = get_best_price (asks bk)"

definition spread :: "book \<Rightarrow> panic + u64 option" where
  "spread bk =
     (case (best_bid bk, best_ask bk) of
        (Inl e, _) \<Rightarrow> Inl e
      | (_, Inl e) \<Rightarrow> Inl e
      | (Inr (Some bid), Inr (Some ask)) \<Rightarrow> Inr (if ask > bid then Some (ask - bid) else None)
      | _ \<Rightarrow> Inr None)"

definition mid_price :: "book \<Rightarrow> panic + u64 option" where
  "mid_price bk =
     (case (best_bid bk, best_ask bk) of
        (Inl e, _) \<Rightarrow> Inl e
      | (_, Inl e) \<Rightarrow> Inl e
      | (Inr (Some bid), Inr (Some ask)) \<Rightarrow> Inr (Some ((bid + ask) div 2))
      | _ \<Rightarrow> Inr None)"

definition best_bid_volume :: "book \<Rightarrow> panic + u64 option" where
  "best_bid_volume bk = get_best_volume (bids bk)"

definition best_ask_volume :: "book \<Rightarrow> panic + u64 option" where
  "best_ask_volume bk = get_best_volume (asks bk)"

section \<open>The slab as the book uses it\<close>

text \<open>
  \<open>get_level_tail\<close> always answers \<open>INVALID_ORDER_INDEX\<close>, so no order is ever linked behind another
  and every queue position is 1.
\<close>

definition unlinked :: "slab \<Rightarrow> bool" where
  "unlinked s \<longleftrightarrow>
     (\<forall>i < MAX_ORDER_RECORDS. occupied (records s i) \<longrightarrow>
        next_index (records s i) = INVALID_ORDER_INDEX \<and> prev_index (records s i) = INVALID_ORDER_INDEX \<and>
        queue_position (records s i) = 1)"

definition plain_slab :: "slab \<Rightarrow> bool" where
  "plain_slab s \<longleftrightarrow> slab_inv s \<and> unlinked s"

lemma occupied_of_look:
  "slab_look s i = Some t \<longleftrightarrow> i < MAX_ORDER_RECORDS \<and> occupied (records s i) \<and> order_view (records s i) = t"
  by (auto simp: slab_look_def get_record_def)

lemma new_slab_plain: "plain_slab new_slab"
  by (simp add: plain_slab_def new_slab_inv unlinked_def) (simp add: new_slab_def chained_def new_record_def)

lemma clear_slab_plain: "plain_slab (clear_slab s)"
  using clear_slab_chained [of _ s]
  by (simp add: plain_slab_def clear_slab_inv unlinked_def chained_def new_record_def)

lemma place_order:
  assumes "plain_slab s" "\<exists>i < MAX_ORDER_RECORDS. slab_look s i = None"
  obtains i s' where "allocate oid px vol sd s = Inr (Some i, s')" "slab_look s i = None"
    "plain_slab (snd (insert_into_level i INVALID_ORDER_INDEX s'))"
    "slab_look (snd (insert_into_level i INVALID_ORDER_INDEX s')) =
       (slab_look s)(i \<mapsto> \<lparr>t_order_id = oid, t_price = px, t_volume = vol, t_side = sd\<rparr>)"
proof -
  have inv: "slab_inv s" and un: "unlinked s" using assms(1) by (simp_all add: plain_slab_def)
  have "\<not> (\<forall>i < MAX_ORDER_RECORDS. occupied (records s i))"
    using assms(2) by (auto simp: slab_look_eq_None)
  then obtain i s' where s': "allocate oid px vol sd s = Inr (Some i, s')" "i < MAX_ORDER_RECORDS"
    "\<not> occupied (records s i)" "slab_inv s'"
    "records s' = (records s)(i := set_record oid px vol sd (records s i))"
    using allocate_slot [OF inv] by metis
  have ins: "slab_inv (snd (insert_into_level i INVALID_ORDER_INDEX s')) \<and>
      slab_look (snd (insert_into_level i INVALID_ORDER_INDEX s')) = slab_look s'"
    using s' by (intro insert_into_level_inv) (simp_all add: set_record_def)
  have "unlinked (snd (insert_into_level i INVALID_ORDER_INDEX s'))"
    using un s'(2,5) by (auto simp: unlinked_def insert_into_level_def get_record_def at_slot_def set_record_def)
  then show thesis
    using that [OF s'(1)] ins s'(2,3) slab_look_allocate [OF s'(5,2)]
    by (simp add: plain_slab_def slab_look_eq_None)
qed

lemma place_full:
  "plain_slab s \<Longrightarrow> \<forall>i < MAX_ORDER_RECORDS. slab_look s i \<noteq> None \<Longrightarrow> allocate oid px vol sd s = Inr (None, s)"
  by (rule allocate_full) (auto simp: plain_slab_def slab_look_eq_None)

lemma drop_order:
  assumes "plain_slab s" "slab_look s i = Some t"
  obtains s' where "remove_from_level i s = (Inr (), s)" "slab_free i s = Inr (Inr (), s')"
    "plain_slab s'" "slab_look s' = (slab_look s)(i := None)"
proof -
  have inv: "slab_inv s" and un: "unlinked s" using assms(1) by (simp_all add: plain_slab_def)
  have i: "i < MAX_ORDER_RECORDS" "occupied (records s i)" using assms(2) by (simp_all add: occupied_of_look)
  then have links: "next_index (records s i) = INVALID_ORDER_INDEX" "prev_index (records s i) = INVALID_ORDER_INDEX"
    using un by (simp_all add: unlinked_def)
  have rem: "remove_from_level i s = (Inr (), s)"
    using i links by (simp add: remove_from_level_def get_record_def)
  obtain s' where s': "slab_free i s = Inr (Inr (), s')" "slab_inv s'"
    "records s' = (unlink i (records s))
       (i := (clear_record (unlink i (records s) i))\<lparr>next_index := free_list_head s\<rparr>)"
    using slab_free_slot [OF inv i] by metis
  have "unlink i (records s) = records s" using links by (simp add: unlink_def)
  then have "unlinked s'" using un s'(3) by (auto simp: unlinked_def clear_record_def)
  then show thesis
    using that [OF rem s'(1)] s'(2) slab_look_free [OF s'(3)] by (simp add: plain_slab_def clear_record_def)
qed

text \<open>A change of price and volume of an order changes neither links nor the free list.\<close>

lemma rewrite_order:
  assumes "plain_slab s" "slab_look s i = Some t"
    and f: "\<And>r. occupied (f r) = occupied r \<and> next_index (f r) = next_index r \<and>
              prev_index (f r) = prev_index r \<and> queue_position (f r) = queue_position r"
  shows "plain_slab (at_slot i f s)"
    "slab_look (at_slot i f s) = (slab_look s)(i \<mapsto> order_view (f (records s i)))"
proof -
  have i: "i < MAX_ORDER_RECORDS" "occupied (records s i)" using assms(2) by (simp_all add: occupied_of_look)
  obtain fl where fl: "free_list_ok s fl" and lnk: "linked (records s)"
    using assms(1) by (auto simp: plain_slab_def slab_inv_def)
  have "i \<notin> set fl" using free_list_unoccupied [OF fl i] .
  then have "free_list_ok (at_slot i f s) fl"
    using free_listD [OF fl] f by (auto simp: free_list_ok_def at_slot_def free_path_upd)
  moreover have "linked (records (at_slot i f s))"
    using lnk f linked_iff_fields [of "records (at_slot i f s)" "records s"] by (simp add: at_slot_def)
  moreover have "unlinked (at_slot i f s)"
    using assms(1) f by (auto simp: plain_slab_def unlinked_def at_slot_def)
  ultimately show "plain_slab (at_slot i f s)" unfolding plain_slab_def slab_inv_def by blast
  show "slab_look (at_slot i f s) = (slab_look s)(i \<mapsto> order_view (f (records s i)))"
    using i f by (auto simp: fun_eq_iff slab_look_def get_record_def at_slot_def)
qed

lemma find_order_cases:
  obtains s' where "find_by_order_id oid s = (None, s')" "slab_look s' = slab_look s"
      "plain_slab s' = plain_slab s" "\<forall>i t. slab_look s i = Some t \<longrightarrow> t_order_id t \<noteq> oid"
  | i t s' where "find_by_order_id oid s = (Some i, s')" "slab_look s' = slab_look s"
      "plain_slab s' = plain_slab s" "slab_look s i = Some t" "t_order_id t = oid"
proof -
  obtain r s' where run: "find_by_order_id oid s = (r, s')" by fastforce
  have frame: "slab_look s' = slab_look s" "plain_slab s' = plain_slab s"
    using find_by_order_id_frame [of oid s] run by (simp_all add: plain_slab_def unlinked_def)
  show thesis
  proof (cases r)
    case None
    then show thesis
      using that(1) [OF _ frame] run find_by_order_id_None [of oid s] by simp
  next
    case (Some i)
    then show thesis
      using that(2) [OF _ frame] run find_by_order_id_Some [of oid s i] by force
  qed
qed

section \<open>Aggregation\<close>

text \<open>The volume and the number of the orders of a map that satisfy a predicate.\<close>

definition volume_of :: "(tracked_order \<Rightarrow> bool) \<Rightarrow> (nat \<Rightarrow> tracked_order option) \<Rightarrow> nat" where
  "volume_of P m = weigh (\<lambda>t. if P t then unat (t_volume t) else 0) m"

definition number_of :: "(tracked_order \<Rightarrow> bool) \<Rightarrow> (nat \<Rightarrow> tracked_order option) \<Rightarrow> nat" where
  "number_of P m = weigh (\<lambda>t. if P t then 1 else 0) m"

definition at_bucket :: "ladder \<Rightarrow> book_side \<Rightarrow> nat \<Rightarrow> tracked_order \<Rightarrow> bool" where
  "at_bucket l sd b t \<longleftrightarrow> t_side t = side_u8 sd \<and> price_to_bucket (t_price t) l = Some b"

lemma side_u8_inject [simp]: "side_u8 a = side_u8 b \<longleftrightarrow> a = b"
  by (cases a; cases b) (simp_all add: side_u8_def)

lemma volume_of_insert:
  assumes "finite (dom m)" "m i = None"
  shows "volume_of P (m(i \<mapsto> t)) = volume_of P m + (if P t then unat (t_volume t) else 0)"
    and "number_of P (m(i \<mapsto> t)) = number_of P m + (if P t then 1 else 0)"
  using weigh_insert [OF assms] by (simp_all add: volume_of_def number_of_def)

lemma volume_of_delete:
  assumes "finite (dom m)" "m i = Some t"
  shows "volume_of P m = volume_of P (m(i := None)) + (if P t then unat (t_volume t) else 0)"
    and "number_of P m = number_of P (m(i := None)) + (if P t then 1 else 0)"
  using weigh_delete [OF assms] by (simp_all add: volume_of_def number_of_def)

definition all_positive :: "(nat \<Rightarrow> tracked_order option) \<Rightarrow> bool" where
  "all_positive m \<longleftrightarrow> (\<forall>i t. m i = Some t \<longrightarrow> 0 < unat (t_volume t))"

text \<open>Orders of positive volume add up to zero exactly when there are none.\<close>

lemma volume_zero_iff:
  assumes "finite (dom m)" "all_positive m"
  shows "volume_of P m = 0 \<longleftrightarrow> number_of P m = 0"
proof -
  have pos: "unat (t_volume (the (m i))) \<noteq> 0" if "i \<in> dom m" for i
    using that assms(2) by (force simp: all_positive_def)
  have "(\<forall>i \<in> dom m. P (the (m i)) \<longrightarrow> unat (t_volume (the (m i))) = 0) \<longleftrightarrow>
      (\<forall>i \<in> dom m. \<not> P (the (m i)))"
    using pos by blast
  then show ?thesis
    using assms(1) by (simp add: volume_of_def number_of_def weigh_def)
qed

section \<open>Level 2 aggregates level 3\<close>

text \<open>A ladder holds the orders of one side of a map.\<close>

definition aggregates :: "book_side \<Rightarrow> ladder \<Rightarrow> (nat \<Rightarrow> tracked_order option) \<Rightarrow> bool" where
  "aggregates sd l m \<longleftrightarrow>
     (\<forall>b < MAX_PRICE_LEVELS.
        level_holds (levels l b) (volume_of (at_bucket l sd b) m) (number_of (at_bucket l sd b) m))"

definition on_ladders :: "book \<Rightarrow> bool" where
  "on_ladders bk \<longleftrightarrow>
     (\<forall>i t. slab_look (l3 bk) i = Some t \<longrightarrow>
        (\<exists>sd. t_side t = side_u8 sd \<and> price_to_bucket (t_price t) (ladder_of sd bk) \<noteq> None))"

definition book_ok :: "book \<Rightarrow> bool" where
  "book_ok bk \<longleftrightarrow>
     plain_slab (l3 bk) \<and> all_positive (slab_look (l3 bk)) \<and> on_ladders bk \<and>
     (\<forall>sd. ladder_inv (ladder_of sd bk) \<and> aggregates sd (ladder_of sd bk) (slab_look (l3 bk)))"

lemma set_ladder_simps [simp]:
  "ladder_of sd (set_ladder sd' l bk) = (if sd = sd' then l else ladder_of sd bk)"
  "l3 (set_ladder sd l bk) = l3 bk" "stats (set_ladder sd l bk) = stats bk"
  "ladder_of sd (bk\<lparr>l3 := s\<rparr>) = ladder_of sd bk"
  "ladder_of sd (bk\<lparr>stats := st\<rparr>) = ladder_of sd bk"
  "ladder_of sd (bk\<lparr>last_bid := p\<rparr>) = ladder_of sd bk" "ladder_of sd (bk\<lparr>last_ask := p\<rparr>) = ladder_of sd bk"
  by (cases sd; cases sd'; simp add: ladder_of_def set_ladder_def)+

lemma book_ok_cong:
  "l3 bk' = l3 bk \<Longrightarrow> (\<And>sd. ladder_of sd bk' = ladder_of sd bk) \<Longrightarrow> book_ok bk' = book_ok bk"
  by (simp add: book_ok_def on_ladders_def)

lemma at_bucket_cong:
  "base_price l' = base_price l \<Longrightarrow> tick_size l' = tick_size l \<Longrightarrow> at_bucket l' = at_bucket l"
  by (simp add: at_bucket_def fun_eq_iff price_to_bucket_def)

lemma same_buckets:
  "at_bucket (snd (add_volume p v l)) = at_bucket l" "at_bucket (snd (remove_volume p v l)) = at_bucket l"
  "at_bucket (snd (adjust_volume p d l)) = at_bucket l"
  using ladder_op_config [of "LAdd p v" l] ladder_op_config [of "LRemove p v" l]
    ladder_op_config [of "LAdjust p d" l]
  by (intro at_bucket_cong; simp)+

lemma same_prices:
  "price_to_bucket q (snd (add_volume p v l)) = price_to_bucket q l"
  "price_to_bucket q (snd (remove_volume p v l)) = price_to_bucket q l"
  "price_to_bucket q (snd (adjust_volume p d l)) = price_to_bucket q l"
  using ladder_op_config [of "LAdd p v" l] ladder_op_config [of "LRemove p v" l]
    ladder_op_config [of "LAdjust p d" l]
  by (intro price_to_bucket_cong; simp)+

lemma on_ladders_set:
  assumes "on_ladders bk" "\<And>q. price_to_bucket q l' = price_to_bucket q (ladder_of sd bk)"
    "\<And>j t. slab_look s j = Some t \<Longrightarrow> slab_look (l3 bk) j = Some t \<or>
        (\<exists>sd. t_side t = side_u8 sd \<and> price_to_bucket (t_price t) (ladder_of sd bk) \<noteq> None)"
  shows "on_ladders (set_ladder sd l' bk\<lparr>l3 := s\<rparr>)"
  unfolding on_ladders_def
proof (intro allI impI)
  fix i t
  assume "slab_look (l3 (set_ladder sd l' bk\<lparr>l3 := s\<rparr>)) i = Some t"
  then have "slab_look s i = Some t" by simp
  then have "\<exists>sd'. t_side t = side_u8 sd' \<and> price_to_bucket (t_price t) (ladder_of sd' bk) \<noteq> None"
    using assms(1) assms(3) [of i t] unfolding on_ladders_def by blast
  then obtain sd' where "t_side t = side_u8 sd'" "price_to_bucket (t_price t) (ladder_of sd' bk) \<noteq> None"
    by blast
  then show "\<exists>sd'. t_side t = side_u8 sd' \<and>
      price_to_bucket (t_price t) (ladder_of sd' (set_ladder sd l' bk\<lparr>l3 := s\<rparr>)) \<noteq> None"
    using assms(2) by (intro exI [of _ sd']) auto
qed

text \<open>The three ladder calls, on a ladder that aggregates \<open>m\<close>.\<close>

lemma aggregates_add:
  assumes agg: "aggregates sd l m" and fin: "finite (dom m)" and new: "m i = None"
    and t: "at_bucket l sd b t" "0 < unat (t_volume t)"
    and room: "volume_of (at_bucket l sd b) m + unat (t_volume t) < 2 ^ 63"
      "number_of (at_bucket l sd b) m + 1 < 2 ^ 16"
  shows "fst (add_volume (t_price t) (t_volume t) l) = Inr ()"
    "aggregates sd (snd (add_volume (t_price t) (t_volume t) l)) (m(i \<mapsto> t))"
proof -
  have b: "price_to_bucket (t_price t) l = Some b" "b < MAX_PRICE_LEVELS"
    using t(1) bucket_bound by (auto simp: at_bucket_def)
  then have hb: "level_holds (levels l b) (volume_of (at_bucket l sd b) m) (number_of (at_bucket l sd b) m)"
    using agg by (simp add: aggregates_def)
  obtain l1 where l1: "get_or_create_level (t_price t) l = (Some b, l1)"
    using get_or_create_level_sums(1) [OF b(1) hb] by (metis prod.collapse)
  have lv: "level_sums (levels l1 b) (volume_of (at_bucket l sd b) m) (number_of (at_bucket l sd b) m)"
    "\<And>c. c \<noteq> b \<Longrightarrow> levels l1 c = levels l c"
    using get_or_create_level_sums(2,3) [OF b(1) hb] l1 by simp_all
  have "level_holds (snd (increment_order_count (snd (add_level_volume (sint (t_volume t)) (levels l1 b)))))
      (volume_of (at_bucket l sd b) m + unat (t_volume t)) (number_of (at_bucket l sd b) m + 1)"
    using level_holds_add [OF lv(1) t(2) room] .
  moreover have "at_bucket l sd c t \<longleftrightarrow> c = b" for c using t(1) by (auto simp: at_bucket_def)
  moreover have "levels (snd (add_volume (t_price t) (t_volume t) l)) c =
      (if c = b then snd (increment_order_count (snd (add_level_volume (sint (t_volume t)) (levels l1 b))))
       else levels l c)" for c
    using l1 lv(2) by (simp add: add_volume_def Let_def)
  ultimately show "aggregates sd (snd (add_volume (t_price t) (t_volume t) l)) (m(i \<mapsto> t))"
    using agg volume_of_insert [OF fin new, of _ t] unfolding aggregates_def same_buckets by simp
  show "fst (add_volume (t_price t) (t_volume t) l) = Inr ()"
    using l1 by (simp add: add_volume_def Let_def)
qed

lemma aggregates_remove:
  assumes agg: "aggregates sd l m" and fin: "finite (dom m)" and pos: "all_positive m"
    and old: "m i = Some t" and t: "at_bucket l sd b t"
  shows "fst (remove_volume (t_price t) (t_volume t) l) = Inr ()"
    "aggregates sd (snd (remove_volume (t_price t) (t_volume t) l)) (m(i := None))"
proof -
  have b: "price_to_bucket (t_price t) l = Some b" "b < MAX_PRICE_LEVELS"
    using t bucket_bound by (auto simp: at_bucket_def)
  let ?w = "volume_of (at_bucket l sd b) m" and ?n = "number_of (at_bucket l sd b) m"
  have hb: "level_holds (levels l b) ?w ?n" using agg b(2) by (simp add: aggregates_def)
  note del = volume_of_delete [OF fin old]
  have "all_positive (m(i := None))" using pos by (simp add: all_positive_def)
  then have rest: "volume_of (at_bucket l sd b) (m(i := None)) = 0 \<longleftrightarrow>
      number_of (at_bucket l sd b) (m(i := None)) = 0"
    using fin by (intro volume_zero_iff) simp
  have v: "0 < unat (t_volume t)" "0 < ?n" "if ?n = 1 then unat (t_volume t) = ?w else unat (t_volume t) < ?w"
    using pos old t del [of "at_bucket l sd b"] rest by (auto simp: all_positive_def)
  have "level_holds (snd (decrement_order_count (snd (add_level_volume (s64 (- sint (t_volume t))) (levels l b)))))
      (?w - unat (t_volume t)) (?n - 1)"
    using level_holds_remove [OF hb v(2,1,3)] .
  moreover have act: "active (levels l b)" using hb v(2) by (simp add: level_holds_def)
  moreover have "at_bucket l sd c t \<longleftrightarrow> c = b" for c using t by (auto simp: at_bucket_def)
  ultimately show "aggregates sd (snd (remove_volume (t_price t) (t_volume t) l)) (m(i := None))"
    using agg b del
    unfolding aggregates_def same_buckets by (auto simp: remove_volume_def Let_def)
  show "fst (remove_volume (t_price t) (t_volume t) l) = Inr ()"
    using b act by (simp add: remove_volume_def Let_def)
qed

text \<open>The other side does not count the order.\<close>

lemma aggregates_other_side:
  assumes "aggregates sd' l m" "finite (dom m)" "sd' \<noteq> sd" "t_side t = side_u8 sd"
  shows "m i = None \<Longrightarrow> aggregates sd' l (m(i \<mapsto> t))"
    and "m i = Some t \<Longrightarrow> aggregates sd' l (m(i := None))"
proof -
  have no: "\<not> at_bucket l sd' b t" for b using assms(3,4) by (auto simp: at_bucket_def)
  show "aggregates sd' l (m(i \<mapsto> t))" if "m i = None"
    using assms(1) volume_of_insert [OF assms(2) that, of _ t] no by (simp add: aggregates_def)
  show "aggregates sd' l (m(i := None))" if "m i = Some t"
    using assms(1) volume_of_delete [OF assms(2) that] no by (simp add: aggregates_def)
qed

text \<open>An order is added to, or taken from, both levels at once.\<close>

lemma book_ok_insert:
  assumes ok: "book_ok bk" and new: "slab_look (l3 bk) i = None"
    and t: "t_side t = side_u8 sd" "price_to_bucket (t_price t) (ladder_of sd bk) = Some b" "0 < unat (t_volume t)"
    and room: "volume_of (at_bucket (ladder_of sd bk) sd b) (slab_look (l3 bk)) + unat (t_volume t) < 2 ^ 63"
      "number_of (at_bucket (ladder_of sd bk) sd b) (slab_look (l3 bk)) + 1 < 2 ^ 16"
    and s: "plain_slab s" "slab_look s = (slab_look (l3 bk))(i \<mapsto> t)"
  shows "fst (on_ladder sd (add_volume (t_price t) (t_volume t)) bk) = Inr ()"
    "book_ok (snd (on_ladder sd (add_volume (t_price t) (t_volume t)) bk)\<lparr>l3 := s\<rparr>)"
proof -
  let ?l = "ladder_of sd bk" and ?m = "slab_look (l3 bk)"
  have agg: "aggregates sd' (ladder_of sd' bk) ?m" "ladder_inv (ladder_of sd' bk)" for sd'
    using ok by (simp_all add: book_ok_def)
  have tb: "at_bucket ?l sd b t" using t by (simp add: at_bucket_def)
  note add = aggregates_add [OF agg(1) finite_slab_look new tb t(3) room]
  obtain l' where l': "add_volume (t_price t) (t_volume t) ?l = (Inr (), l')" "aggregates sd l' (slab_look s)"
    using add s(2) by (metis prod.collapse)
  have on: "on_ladder sd (add_volume (t_price t) (t_volume t)) bk = (Inr (), set_ladder sd l' bk)"
    using l'(1) by (simp add: on_ladder_def)
  then show "fst (on_ladder sd (add_volume (t_price t) (t_volume t)) bk) = Inr ()" by simp
  have "ladder_inv l'" using add_volume_inv [OF agg(2) [of sd], of "t_price t" "t_volume t"] l'(1) by simp
  moreover have "aggregates sd' (ladder_of sd' bk) (slab_look s)" if "sd' \<noteq> sd" for sd'
    using aggregates_other_side(1) [OF agg(1) finite_slab_look that t(1)] new s(2) by simp
  moreover have "all_positive (slab_look s)" using ok t(3) s(2) by (auto simp: book_ok_def all_positive_def)
  moreover have "on_ladders (set_ladder sd l' bk\<lparr>l3 := s\<rparr>)"
    using ok s(2) t(1,2) l'(1) same_prices(1) [of _ "t_price t" "t_volume t" ?l]
    by (intro on_ladders_set) (auto simp: book_ok_def split: if_splits)
  ultimately show "book_ok (snd (on_ladder sd (add_volume (t_price t) (t_volume t)) bk)\<lparr>l3 := s\<rparr>)"
    using on l'(2) s(1) agg(2) by (simp add: book_ok_def)
qed

lemma book_ok_delete:
  assumes ok: "book_ok bk" and old: "slab_look (l3 bk) i = Some t"
    and t: "t_side t = side_u8 sd" "price_to_bucket (t_price t) (ladder_of sd bk) = Some b"
    and s: "plain_slab s" "slab_look s = (slab_look (l3 bk))(i := None)"
  shows "fst (on_ladder sd (remove_volume (t_price t) (t_volume t)) bk) = Inr ()"
    "book_ok (snd (on_ladder sd (remove_volume (t_price t) (t_volume t)) bk)\<lparr>l3 := s\<rparr>)"
proof -
  let ?l = "ladder_of sd bk" and ?m = "slab_look (l3 bk)"
  have agg: "aggregates sd' (ladder_of sd' bk) ?m" "ladder_inv (ladder_of sd' bk)" for sd'
    using ok by (simp_all add: book_ok_def)
  have pos: "all_positive ?m" using ok by (simp add: book_ok_def)
  have tb: "at_bucket ?l sd b t" using t by (simp add: at_bucket_def)
  note rem = aggregates_remove [OF agg(1) finite_slab_look pos old tb]
  obtain l' where l': "remove_volume (t_price t) (t_volume t) ?l = (Inr (), l')" "aggregates sd l' (slab_look s)"
    using rem s(2) by (metis prod.collapse)
  have on: "on_ladder sd (remove_volume (t_price t) (t_volume t)) bk = (Inr (), set_ladder sd l' bk)"
    using l'(1) by (simp add: on_ladder_def)
  then show "fst (on_ladder sd (remove_volume (t_price t) (t_volume t)) bk) = Inr ()" by simp
  have "ladder_inv l'" using remove_volume_inv [OF agg(2) [of sd], of "t_price t" "t_volume t"] l'(1) by simp
  moreover have "aggregates sd' (ladder_of sd' bk) (slab_look s)" if "sd' \<noteq> sd" for sd'
    using aggregates_other_side(2) [OF agg(1) finite_slab_look that t(1)] old s(2) by simp
  moreover have "all_positive (slab_look s)" using pos s(2) by (auto simp: all_positive_def)
  moreover have "on_ladders (set_ladder sd l' bk\<lparr>l3 := s\<rparr>)"
    using ok s(2) l'(1) same_prices(2) [of _ "t_price t" "t_volume t" ?l]
    by (intro on_ladders_set) (auto simp: book_ok_def split: if_splits)
  ultimately show "book_ok (snd (on_ladder sd (remove_volume (t_price t) (t_volume t)) bk)\<lparr>l3 := s\<rparr>)"
    using on l'(2) s(1) agg(2) by (simp add: book_ok_def)
qed

text \<open>A change of an order at its own price adjusts its level.\<close>

lemma aggregates_adjust:
  assumes agg: "aggregates sd l m" and fin: "finite (dom m)"
    and old: "m i = Some t" and t: "at_bucket l sd b t" "0 < unat v"
    and room: "volume_of (at_bucket l sd b) m + unat v < 2 ^ 63"
    and rest: "volume_of (at_bucket l sd b) (m(i := None)) = 0 \<longleftrightarrow> number_of (at_bucket l sd b) (m(i := None)) = 0"
  defines "d \<equiv> s64 (sint v - sint (t_volume t))"
  shows "fst (adjust_volume (t_price t) d l) = Inr ()"
    "aggregates sd (snd (adjust_volume (t_price t) d l)) (m(i \<mapsto> t\<lparr>t_volume := v\<rparr>))"
proof -
  have b: "price_to_bucket (t_price t) l = Some b" "b < MAX_PRICE_LEVELS"
    using t(1) bucket_bound by (auto simp: at_bucket_def)
  let ?P = "\<lambda>c. at_bucket l sd c" and ?m' = "m(i := None)"
  have tb: "?P c t \<longleftrightarrow> c = b" "?P c (t\<lparr>t_volume := v\<rparr>) \<longleftrightarrow> c = b" for c
    using t(1) by (auto simp: at_bucket_def)
  note del = volume_of_delete [OF fin old]
  have "m(i \<mapsto> t\<lparr>t_volume := v\<rparr>) = ?m'(i \<mapsto> t\<lparr>t_volume := v\<rparr>)" by simp
  then have ins: "volume_of (?P c) (m(i \<mapsto> t\<lparr>t_volume := v\<rparr>)) =
        volume_of (?P c) ?m' + (if c = b then unat v else 0)"
      "number_of (?P c) (m(i \<mapsto> t\<lparr>t_volume := v\<rparr>)) = number_of (?P c) ?m' + (if c = b then 1 else 0)" for c
    using volume_of_insert [of ?m' i "?P c" "t\<lparr>t_volume := v\<rparr>"] fin tb by simp_all
  have hb: "level_holds (levels l b) (volume_of (?P b) m) (number_of (?P b) m)"
    using agg b(2) by (simp add: aggregates_def)
  define w k o' where "w = volume_of (?P b) ?m'" and "k = unat v" and "o' = unat (t_volume t)"
  have wm: "volume_of (?P b) m = w + o'" "number_of (?P b) m = number_of (?P b) ?m' + 1"
    using del tb by (simp_all add: w_def o'_def)
  have small: "0 < k" "w + o' + k < 2 ^ 63"
    using t(2) room by (simp_all only: wm k_def)
  have "sint v = int k" "sint (t_volume t) = int o'"
    using sint_eq_unat [of v] sint_eq_unat [of "t_volume t"] small by (simp_all only: k_def o'_def)
  then have d: "d = int k - int o'"
    unfolding d_def using small by (simp add: s64_id in_i64_def)
  have "level_holds (snd (add_level_volume d (levels l b))) (nat (int (w + o') + d)) (number_of (?P b) m)"
    using hb small wm by (intro level_holds_adjust) (simp_all add: level_holds_sums d)
  moreover have "nat (int (w + o') + d) = w + k" using d by simp
  ultimately have "level_holds (snd (add_level_volume d (levels l b))) (w + k) (number_of (?P b) ?m' + 1)"
    by (simp add: wm)
  moreover have run: "adjust_volume (t_price t) d l =
      (Inr (), at_level b (\<lambda>lv. snd (add_level_volume d lv)) l)"
    using hb wm b by (simp add: adjust_volume_def get_or_create_level_def level_holds_def)
  ultimately show "aggregates sd (snd (adjust_volume (t_price t) d l)) (m(i \<mapsto> t\<lparr>t_volume := v\<rparr>))"
    using agg ins del tb b unfolding aggregates_def same_buckets by (auto simp: w_def k_def)
  show "fst (adjust_volume (t_price t) d l) = Inr ()" using run by simp
qed

section \<open>Deltas that fit the book\<close>

definition room_for :: "book_side \<Rightarrow> u64 \<Rightarrow> u64 \<Rightarrow> book \<Rightarrow> bool" where
  "room_for sd p v bk \<longleftrightarrow>
     (case price_to_bucket p (ladder_of sd bk) of
        None \<Rightarrow> False
      | Some b \<Rightarrow> 0 < unat v \<and>
          volume_of (at_bucket (ladder_of sd bk) sd b) (slab_look (l3 bk)) + unat v < 2 ^ 63 \<and>
          number_of (at_bucket (ladder_of sd bk) sd b) (slab_look (l3 bk)) + 1 < 2 ^ 16)"

definition add_fits :: "book_side \<Rightarrow> u64 \<Rightarrow> u64 \<Rightarrow> book \<Rightarrow> bool" where
  "add_fits sd p v bk \<longleftrightarrow>
     price_to_bucket p (ladder_of sd bk) = None \<or>
     room_for sd p v bk \<and> (\<exists>i < MAX_ORDER_RECORDS. slab_look (l3 bk) i = None)"

text \<open>The tracked orders of an id are on a side and satisfy \<open>P\<close>.\<close>

definition known_as :: "book \<Rightarrow> book_side \<Rightarrow> u64 \<Rightarrow> (tracked_order \<Rightarrow> bool) \<Rightarrow> bool" where
  "known_as bk sd oid P \<longleftrightarrow>
     (\<forall>i t. slab_look (l3 bk) i = Some t \<longrightarrow> t_order_id t = oid \<longrightarrow>
        t_side t = side_u8 sd \<and> P t)"

definition tracks :: "book \<Rightarrow> u64 \<Rightarrow> bool" where
  "tracks bk oid \<longleftrightarrow> (\<exists>i t. slab_look (l3 bk) i = Some t \<and> t_order_id t = oid)"

text \<open>
  A delta fits when an addition finds room (or has a price off the ladder), a change names an order
  of the same side and finds room at the new price, a cancel names the side of the order, and a
  trade fills a tracked order completely at its price.
\<close>

fun type_fits :: "delta_type \<Rightarrow> delta \<Rightarrow> book \<Rightarrow> bool" where
  "type_fits AddDelta d bk \<longleftrightarrow> add_fits (delta_side d) (d_price d) (d_volume d) bk"
| "type_fits ModifyDelta d bk \<longleftrightarrow>
     (if tracks bk (d_order_id d)
      then known_as bk (delta_side d) (d_order_id d) (\<lambda>t. True) \<and>
        room_for (delta_side d) (d_price d) (d_volume d) bk
      else add_fits (delta_side d) (d_price d) (d_volume d) bk)"
| "type_fits CancelDelta d bk \<longleftrightarrow> known_as bk (delta_side d) (d_order_id d) (\<lambda>t. True)"
| "type_fits TradeDelta d bk \<longleftrightarrow>
     tracks bk (d_order_id d) \<and>
     known_as bk (delta_side d) (d_order_id d) (\<lambda>t. t_price t = d_price d \<and> t_volume t = d_volume d)"
| "type_fits SnapshotDelta d bk \<longleftrightarrow> True"

definition delta_fits :: "delta \<Rightarrow> book \<Rightarrow> bool" where
  "delta_fits d bk \<longleftrightarrow>
     (case delta_type_from_u8 (d_type d) of None \<Rightarrow> True | Some ty \<Rightarrow> type_fits ty d bk)"

lemma trackedD:
  assumes "book_ok bk" "slab_look (l3 bk) i = Some t" "t_order_id t = oid" "known_as bk sd oid P"
  obtains b where "t_side t = side_u8 sd" "price_to_bucket (t_price t) (ladder_of sd bk) = Some b" "P t"
proof -
  have t: "t_side t = side_u8 sd" "P t" using assms(2-4) by (auto simp: known_as_def)
  obtain sd' where "t_side t = side_u8 sd'" "price_to_bucket (t_price t) (ladder_of sd' bk) \<noteq> None"
    using assms(1,2) unfolding book_ok_def on_ladders_def by blast
  with t that show thesis by auto
qed

text \<open>The ladder call does not look at the slab.\<close>

lemma on_ladder_l3:
  "on_ladder sd f (bk\<lparr>l3 := s\<rparr>) = (fst (on_ladder sd f bk), snd (on_ladder sd f bk)\<lparr>l3 := s\<rparr>)"
  by (cases sd) (auto simp: on_ladder_def ladder_of_def set_ladder_def split: prod.splits sum.splits)

lemma on_ladder_l3_same [simp]: "l3 (snd (on_ladder sd f bk)) = l3 bk"
  by (auto simp: on_ladder_def split: prod.splits sum.splits)

definition keeps_book :: "book_result \<Rightarrow> bool" where
  "keeps_book res \<longleftrightarrow> (\<exists>r bk'. res = Inr (r, bk') \<and> book_ok bk')"

lemma keeps_bookI: "book_ok bk' \<Longrightarrow> keeps_book (Inr (r, bk'))"
  by (simp add: keeps_book_def)

lemma refused_add: "price_to_bucket p (ladder_of sd bk) = None \<Longrightarrow> handle_add sd p v oid bk = Inr (Inl (LadderError PriceOutOfRange), bk)"
  by (cases sd) (simp_all add: handle_add_def on_ladder_def add_volume_def get_or_create_level_def ladder_of_def set_ladder_def)

lemma handle_add_ok:
  assumes ok: "book_ok bk" and fits: "add_fits sd p v bk"
  shows "keeps_book (handle_add sd p v oid bk)"
proof (cases "price_to_bucket p (ladder_of sd bk)")
  case None
  then show ?thesis using ok by (simp add: refused_add keeps_bookI)
next
  case (Some b)
  let ?t = "\<lparr>t_order_id = oid, t_price = p, t_volume = v, t_side = side_u8 sd\<rparr>"
  have "plain_slab (l3 bk)" "\<exists>i < MAX_ORDER_RECORDS. slab_look (l3 bk) i = None"
    using ok fits Some by (auto simp: book_ok_def add_fits_def)
  then obtain i s where s: "allocate oid p v (side_u8 sd) (l3 bk) = Inr (Some i, s)" "slab_look (l3 bk) i = None"
    "plain_slab (snd (insert_into_level i INVALID_ORDER_INDEX s))"
    "slab_look (snd (insert_into_level i INVALID_ORDER_INDEX s)) = (slab_look (l3 bk))(i \<mapsto> ?t)"
    by (rule place_order)
  have room: "0 < unat v"
    "volume_of (at_bucket (ladder_of sd bk) sd b) (slab_look (l3 bk)) + unat v < 2 ^ 63"
    "number_of (at_bucket (ladder_of sd bk) sd b) (slab_look (l3 bk)) + 1 < 2 ^ 16"
    using fits Some by (simp_all add: add_fits_def room_for_def)
  obtain bk1 where on: "on_ladder sd (add_volume p v) bk = (Inr (), bk1)" and
    bk1: "book_ok (bk1\<lparr>l3 := snd (insert_into_level i INVALID_ORDER_INDEX s)\<rparr>)"
    using book_ok_insert [OF ok s(2), of ?t sd b, OF _ _ _ _ _ s(3,4)] Some room
    by (cases "on_ladder sd (add_volume p v) bk") simp
  have "l3 bk1 = l3 bk" using on_ladder_l3_same [of sd "add_volume p v" bk] on by simp
  then show ?thesis
    using on bk1 s(1) by (simp add: handle_add_def get_level_tail_def keeps_bookI)
qed

lemma handle_cancel_ok:
  assumes ok: "book_ok bk" and fits: "known_as bk sd oid (\<lambda>t. True)"
  shows "keeps_book (handle_cancel sd oid bk)"
proof (rule find_order_cases [of oid "l3 bk"])
  fix s
  assume "find_by_order_id oid (l3 bk) = (None, s)" "slab_look s = slab_look (l3 bk)"
    "plain_slab s = plain_slab (l3 bk)"
  then show ?thesis
    using ok by (simp add: handle_cancel_def keeps_bookI book_ok_def on_ladders_def)
next
  fix i t s
  assume find: "find_by_order_id oid (l3 bk) = (Some i, s)" "slab_look s = slab_look (l3 bk)"
    "plain_slab s = plain_slab (l3 bk)" "slab_look (l3 bk) i = Some t" "t_order_id t = oid"
  have ps: "plain_slab s" "slab_look s i = Some t" using ok find by (simp_all add: book_ok_def)
  obtain b where b: "t_side t = side_u8 sd" "price_to_bucket (t_price t) (ladder_of sd bk) = Some b"
    using trackedD [OF ok find(4,5) fits] .
  obtain s' where s': "remove_from_level i s = (Inr (), s)" "slab_free i s = Inr (Inr (), s')"
    "plain_slab s'" "slab_look s' = (slab_look (l3 bk))(i := None)"
    using drop_order [OF ps] find(2) by metis
  have r: "get_record i s = Some (records s i)" "r_price (records s i) = t_price t"
    "r_volume (records s i) = t_volume t"
    using ps(2) by (auto simp: occupied_of_look get_record_def order_view_def)
  show ?thesis
    using book_ok_delete [OF ok find(4) b s'(3,4)] find(1) s'(1,2) r
    by (simp add: handle_cancel_def keeps_bookI on_ladder_l3)
qed

lemma volume_of_forget:
  assumes "finite (dom m)"
  shows "volume_of P (m(i := None)) \<le> volume_of P m" "number_of P (m(i := None)) \<le> number_of P m"
proof -
  have "volume_of P (m(i := None)) \<le> volume_of P m \<and> number_of P (m(i := None)) \<le> number_of P m"
  proof (cases "m i")
    case None
    then have "m(i := None) = m" by auto
    then show ?thesis by (simp only: order_refl simp_thms)
  next
    case (Some t)
    show ?thesis unfolding volume_of_delete [OF assms Some] by simp
  qed
  then show "volume_of P (m(i := None)) \<le> volume_of P m" "number_of P (m(i := None)) \<le> number_of P m"
    by blast+
qed

lemma handle_modify_ok:
  assumes ok: "book_ok bk" and tracked: "tracks bk oid" and known: "known_as bk sd oid (\<lambda>t. True)"
    and room: "room_for sd p v bk"
  shows "keeps_book (handle_modify sd p v oid bk)"
proof (rule find_order_cases [of oid "l3 bk"])
  fix s
  assume "\<forall>i t. slab_look (l3 bk) i = Some t \<longrightarrow> t_order_id t \<noteq> oid"
  then show ?thesis using tracked by (auto simp: tracks_def)
next
  fix i t s
  assume find: "find_by_order_id oid (l3 bk) = (Some i, s)" "slab_look s = slab_look (l3 bk)"
    "plain_slab s = plain_slab (l3 bk)" "slab_look (l3 bk) i = Some t" "t_order_id t = oid"
  have ps: "plain_slab s" "slab_look s i = Some t" using ok find by (simp_all add: book_ok_def)
  obtain b where b: "t_side t = side_u8 sd" "price_to_bucket (t_price t) (ladder_of sd bk) = Some b"
    using trackedD [OF ok find(4,5) known] .
  have rec: "get_record i s = Some (records s i)" "order_view (records s i) = t"
    using ps(2) by (auto simp: occupied_of_look get_record_def)
  then have r: "r_price (records s i) = t_price t" "r_volume (records s i) = t_volume t"
    by (auto simp: order_view_def)
  define f where "f = (\<lambda>r :: order_record. r\<lparr>r_volume := v, r_price := p\<rparr>)"
  define s2 where "s2 = at_slot i f s"
  let ?t' = "t\<lparr>t_volume := v, t_price := p\<rparr>"
  have view: "order_view (f (records s i)) = ?t'" using rec(2) by (auto simp: order_view_def f_def)
  have s2: "plain_slab s2" "slab_look s2 = (slab_look (l3 bk))(i \<mapsto> ?t')"
    "at_slot i (\<lambda>r. r\<lparr>r_price := p\<rparr>) (at_slot i (\<lambda>r. r\<lparr>r_volume := v\<rparr>) s) = s2"
    using rewrite_order [OF ps, of f] find(2) view
    by (simp_all add: s2_def) (simp_all add: f_def at_slot_def)
  obtain c where c: "price_to_bucket p (ladder_of sd bk) = Some c" and rm: "0 < unat v"
    "volume_of (at_bucket (ladder_of sd bk) sd c) (slab_look (l3 bk)) + unat v < 2 ^ 63"
    "number_of (at_bucket (ladder_of sd bk) sd c) (slab_look (l3 bk)) + 1 < 2 ^ 16"
    using room by (auto simp: room_for_def split: option.splits)
  show ?thesis
  proof (cases "t_price t = p")
    case False
    obtain s0 where s0: "plain_slab s0" "slab_look s0 = (slab_look (l3 bk))(i := None)"
      using drop_order [OF ps] find(2) by metis
    obtain bk1 where on1: "on_ladder sd (remove_volume (t_price t) (t_volume t)) bk = (Inr (), bk1)"
      and bk1: "book_ok (bk1\<lparr>l3 := s0\<rparr>)"
      using book_ok_delete [OF ok find(4) b s0]
      by (cases "on_ladder sd (remove_volume (t_price t) (t_volume t)) bk") simp
    have same: "at_bucket (ladder_of sd bk1) = at_bucket (ladder_of sd bk)"
      "price_to_bucket q (ladder_of sd bk1) = price_to_bucket q (ladder_of sd bk)" for q
      using on1 same_buckets(2) [of "t_price t" "t_volume t" "ladder_of sd bk"]
        same_prices(2) [of q "t_price t" "t_volume t" "ladder_of sd bk"]
      by (auto simp: on_ladder_def split: prod.splits sum.splits)
    have "volume_of (at_bucket (ladder_of sd bk) sd c) (slab_look s0) + unat v < 2 ^ 63"
      "number_of (at_bucket (ladder_of sd bk) sd c) (slab_look s0) + 1 < 2 ^ 16"
      using rm(2,3) volume_of_forget [OF finite_slab_look, of "at_bucket (ladder_of sd bk) sd c" "l3 bk" i]
      unfolding s0(2) by linarith+
    then have "book_ok (snd (on_ladder sd (add_volume p v) (bk1\<lparr>l3 := s0\<rparr>))\<lparr>l3 := s2\<rparr>)"
      using book_ok_insert(2) [OF bk1, of i ?t' sd c s2] s0(2) s2 b(1) c rm(1) same by simp
    then show ?thesis
      using find(1) rec(1) r s2(3) False on1
      by (simp add: handle_modify_def Let_def on_ladder_l3 keeps_bookI)
  next
    case True
    let ?l = "ladder_of sd bk" and ?m = "slab_look (l3 bk)"
    have agg: "aggregates sd' (ladder_of sd' bk) ?m" "ladder_inv (ladder_of sd' bk)" for sd'
      using ok by (simp_all add: book_ok_def)
    have t': "?t' = t\<lparr>t_volume := v\<rparr>" using True by (cases t) simp
    have tc: "at_bucket ?l sd c t" using b c True by (simp add: at_bucket_def)
    have pos: "all_positive ?m" "all_positive (?m(i := None))"
      using ok by (auto simp: book_ok_def all_positive_def)
    have "volume_of (at_bucket ?l sd c) (?m(i := None)) = 0 \<longleftrightarrow> number_of (at_bucket ?l sd c) (?m(i := None)) = 0"
      using pos(2) by (intro volume_zero_iff) simp_all
    note adj = aggregates_adjust [OF agg(1) finite_slab_look find(4) tc rm(1,2) this]
    define d where "d = s64 (sint v - sint (t_volume t))"
    obtain l' where l': "adjust_volume p d ?l = (Inr (), l')" "aggregates sd l' (slab_look s2)"
      using adj True s2(2) t' unfolding d_def by (metis prod.collapse)
    have on: "on_ladder sd (adjust_volume p d) bk = (Inr (), set_ladder sd l' bk)"
      using l'(1) by (simp add: on_ladder_def)
    have "ladder_inv l'" using adjust_volume_inv [OF agg(2) [of sd], of p d] l'(1) by simp
    moreover have "aggregates sd' (ladder_of sd' bk) (slab_look s2)" if "sd' \<noteq> sd" for sd'
    proof -
      have "aggregates sd' (ladder_of sd' bk) (?m(i := None))"
        using aggregates_other_side(2) [OF agg(1) finite_slab_look that b(1)] find(4) by simp
      then show ?thesis
        using aggregates_other_side(1) [of sd' "ladder_of sd' bk" "?m(i := None)" sd ?t' i] that b(1) s2(2)
        by simp
    qed
    moreover have "all_positive (slab_look s2)" using pos(1) rm(1) s2(2) by (auto simp: all_positive_def)
    moreover have "on_ladders (set_ladder sd l' bk\<lparr>l3 := s2\<rparr>)"
      using ok s2(2) b(1) c l'(1) same_prices(3) [of _ p d ?l]
      by (intro on_ladders_set) (auto simp: book_ok_def split: if_splits)
    ultimately have "book_ok (set_ladder sd l' bk\<lparr>l3 := s2\<rparr>)"
      using l'(2) s2(1) agg(2) by (simp add: book_ok_def)
    then show ?thesis
      using find(1) rec(1) r s2(3) True on
      by (simp add: handle_modify_def Let_def on_ladder_l3 keeps_bookI flip: d_def)
  qed
qed

lemma handle_trade_delta_ok:
  assumes ok: "book_ok bk" and tracked: "tracks bk oid"
    and known: "known_as bk sd oid (\<lambda>t. t_price t = p \<and> t_volume t = v)"
  shows "keeps_book (handle_trade_delta sd p v oid bk)"
proof (rule find_order_cases [of oid "l3 bk"])
  fix s
  assume "\<forall>i t. slab_look (l3 bk) i = Some t \<longrightarrow> t_order_id t \<noteq> oid"
  then show ?thesis using tracked by (auto simp: tracks_def)
next
  fix i t s
  assume find: "find_by_order_id oid (l3 bk) = (Some i, s)" "slab_look s = slab_look (l3 bk)"
    "plain_slab s = plain_slab (l3 bk)" "slab_look (l3 bk) i = Some t" "t_order_id t = oid"
  have ps: "plain_slab s" "slab_look s i = Some t" using ok find by (simp_all add: book_ok_def)
  obtain b where b: "t_side t = side_u8 sd" "price_to_bucket (t_price t) (ladder_of sd bk) = Some b"
    and pv: "t_price t = p \<and> t_volume t = v"
    using trackedD [OF ok find(4,5) known] .
  have rec: "get_record i s = Some (records s i)" "r_volume (records s i) = v"
    using ps(2) pv by (auto simp: occupied_of_look get_record_def order_view_def)
  define f where "f = (\<lambda>r :: order_record. r\<lparr>r_volume := 0\<rparr>)"
  note s1 = rewrite_order [OF ps, of f, unfolded f_def, simplified]
  have look1: "slab_look (at_slot i (\<lambda>r. r\<lparr>r_volume := 0\<rparr>) s) i \<noteq> None"
    using s1(2) by simp
  then obtain t1 where t1: "slab_look (at_slot i (\<lambda>r. r\<lparr>r_volume := 0\<rparr>) s) i = Some t1" by blast
  obtain s2 where s2: "remove_from_level i (at_slot i (\<lambda>r. r\<lparr>r_volume := 0\<rparr>) s) =
      (Inr (), at_slot i (\<lambda>r. r\<lparr>r_volume := 0\<rparr>) s)"
    "slab_free i (at_slot i (\<lambda>r. r\<lparr>r_volume := 0\<rparr>) s) = Inr (Inr (), s2)" "plain_slab s2"
    "slab_look s2 = (slab_look (l3 bk))(i := None)"
    using drop_order [OF s1(1) t1] s1(2) find(2) by (metis fun_upd_upd)
  note del = book_ok_delete [OF ok find(4) b s2(3,4)]
  then show ?thesis
    using find(1) rec s2(1,2) pv
    by (cases "on_ladder sd (remove_volume p v) bk")
       (simp add: handle_trade_delta_def Let_def saturating_sub_def on_ladder_l3 keeps_bookI)
qed

lemma clear_book_ok: "book_ok (clear_book bk)"
proof -
  have lad: "ladder_of sd (clear_book bk) = clear_ladder (ladder_of sd bk)" for sd
    by (cases sd) (simp_all add: ladder_of_def clear_book_def)
  have l3: "l3 (clear_book bk) = clear_slab (l3 bk)" by (simp add: clear_book_def)
  have "aggregates sd (clear_ladder l) Map.empty" for sd l
    by (simp add: aggregates_def clear_ladder_fields deactivate_def level_holds_def level_sums_def
        volume_of_def number_of_def weigh_empty)
  then show ?thesis
    by (simp add: book_ok_def lad l3 clear_slab_plain clear_slab_inv clear_ladder_inv all_positive_def
        on_ladders_def)
qed

lemma new_book_ok: "book_ok (new_book tick base)"
proof -
  have lad: "ladder_of sd (new_book tick base) = new_ladder sd tick base" for sd
    by (cases sd) (simp_all add: ladder_of_def new_book_def)
  have l3: "l3 (new_book tick base) = new_slab" by (simp add: new_book_def)
  have "aggregates sd (new_ladder sd tick base) Map.empty" for sd
    by (simp add: aggregates_def new_ladder_def new_level_def level_holds_def level_sums_def
        volume_of_def number_of_def weigh_empty)
  then show ?thesis
    by (simp add: book_ok_def lad l3 new_slab_plain slab_look_new new_ladder_inv all_positive_def on_ladders_def)
qed

lemma cached_prices_frame:
  assumes inv: "ladder_inv (bids bk)" "ladder_inv (asks bk)"
  obtains bk' where "update_cached_prices bk = Inr bk'" "l3 bk' = l3 bk" "\<And>sd. ladder_of sd bk' = ladder_of sd bk"
proof -
  obtain b a where "get_best_price (bids bk) = Inr b" "get_best_price (asks bk) = Inr a"
    using get_best_price_total [OF inv(1)] get_best_price_total [OF inv(2)] by blast
  then show thesis
    using that [of "(case a of Some ask \<Rightarrow> (case b of Some bid \<Rightarrow> bk\<lparr>last_bid := bid\<rparr> | None \<Rightarrow> bk)\<lparr>last_ask := ask\<rparr>
        | None \<Rightarrow> (case b of Some bid \<Rightarrow> bk\<lparr>last_bid := bid\<rparr> | None \<Rightarrow> bk))"]
    by (cases a; cases b) (simp_all add: update_cached_prices_def)
qed

lemma update_cached_prices_ok:
  assumes "book_ok bk"
  obtains bk' where "update_cached_prices bk = Inr bk'" "l3 bk' = l3 bk" "\<And>sd. ladder_of sd bk' = ladder_of sd bk"
proof -
  have "ladder_inv (bids bk)" "ladder_inv (asks bk)"
    using assms unfolding book_ok_def ladder_of_def by (metis book_side.simps(3,4))+
  then show thesis using that by (rule cached_prices_frame)
qed

lemma fits_cong:
  assumes "slab_look (l3 bk') = slab_look (l3 bk)" "\<And>sd. ladder_of sd bk' = ladder_of sd bk"
  shows "room_for sd p v bk' = room_for sd p v bk" "add_fits sd p v bk' = add_fits sd p v bk"
    "known_as bk' sd oid P = known_as bk sd oid P" "tracks bk' oid = tracks bk oid"
proof -
  show room: "room_for sd p v bk' = room_for sd p v bk"
    unfolding room_for_def assms by (rule refl)
  show "add_fits sd p v bk' = add_fits sd p v bk"
    unfolding add_fits_def room assms by (rule refl)
  show "known_as bk' sd oid P = known_as bk sd oid P" "tracks bk' oid = tracks bk oid"
    unfolding known_as_def tracks_def assms by (rule refl)+
qed

lemma type_fits_stats [simp]: "type_fits ty d (bk\<lparr>stats := st\<rparr>) = type_fits ty d bk"
proof -
  have "slab_look (l3 (bk\<lparr>stats := st\<rparr>)) = slab_look (l3 bk)"
    "ladder_of sd (bk\<lparr>stats := st\<rparr>) = ladder_of sd bk" for sd by simp_all
  note same = fits_cong [OF this]
  show ?thesis by (cases ty) (simp_all only: type_fits.simps same)
qed

lemma handle_delta_ok:
  assumes ok: "book_ok bk" and fits: "type_fits ty d bk"
  shows "keeps_book (handle_delta ty d bk)"
proof (cases ty)
  case AddDelta
  then show ?thesis using handle_add_ok [OF ok] fits by simp
next
  case ModifyDelta
  show ?thesis
  proof (cases "tracks bk (d_order_id d)")
    case True
    then show ?thesis using handle_modify_ok [OF ok True] fits ModifyDelta by simp
  next
    case False
    obtain s where s: "find_by_order_id (d_order_id d) (l3 bk) = (None, s)" "slab_look s = slab_look (l3 bk)"
      "plain_slab s = plain_slab (l3 bk)"
      using False by (rule_tac find_order_cases [of "d_order_id d" "l3 bk"]) (auto simp: tracks_def)
    have "add_fits (delta_side d) (d_price d) (d_volume d) (bk\<lparr>l3 := s\<rparr>)"
      using fits_cong(2) [of "bk\<lparr>l3 := s\<rparr>" bk] s(2) False fits ModifyDelta by simp
    moreover have "book_ok (bk\<lparr>l3 := s\<rparr>)" using ok s by (simp add: book_ok_def on_ladders_def)
    ultimately
    show ?thesis using handle_add_ok s(1) ModifyDelta by (simp add: handle_modify_def)
  qed
next
  case CancelDelta
  then show ?thesis using handle_cancel_ok [OF ok] fits by simp
next
  case TradeDelta
  then show ?thesis using handle_trade_delta_ok [OF ok] fits by simp
next
  case SnapshotDelta
  then show ?thesis by (simp add: keeps_bookI clear_book_ok)
qed

lemma process_delta_ok:
  assumes ok: "book_ok bk" and fits: "delta_fits d bk"
  shows "keeps_book (process_delta d bk)"
proof (cases "delta_type_from_u8 (d_type d)")
  case None
  have "book_ok (bk\<lparr>stats := note_sequence (d_sequence d) (stats bk)\<rparr>)"
    using ok book_ok_cong [of "bk\<lparr>stats := note_sequence (d_sequence d) (stats bk)\<rparr>" bk] by simp
  then show ?thesis using None by (simp add: process_delta_def keeps_bookI)
next
  case (Some ty)
  define st where "st = count_delta ty (note_sequence (d_sequence d) (stats bk))"
  have "book_ok (bk\<lparr>stats := st\<rparr>)" using ok book_ok_cong [of "bk\<lparr>stats := st\<rparr>" bk] by simp
  moreover have "type_fits ty d (bk\<lparr>stats := st\<rparr>)" using fits Some by (simp add: delta_fits_def)
  ultimately obtain r bk2 where h: "handle_delta ty d (bk\<lparr>stats := st\<rparr>) = Inr (r, bk2)" "book_ok bk2"
    using handle_delta_ok unfolding keeps_book_def by blast
  obtain bk3 where bk3: "update_cached_prices bk2 = Inr bk3" "l3 bk3 = l3 bk2" "\<And>sd. ladder_of sd bk3 = ladder_of sd bk2"
    using update_cached_prices_ok [OF h(2)] by metis
  have "book_ok bk3" using h(2) book_ok_cong [OF bk3(2,3)] by simp
  then show ?thesis
    using Some h bk3(1)
    by (cases r) (simp_all add: process_delta_def keeps_bookI flip: st_def)
qed

section \<open>Streams of deltas\<close>

fun feed :: "delta list \<Rightarrow> book \<Rightarrow> panic + book" where
  "feed [] bk = Inr bk"
| "feed (d # ds) bk = (case process_delta d bk of Inl e \<Rightarrow> Inl e | Inr (_, bk') \<Rightarrow> feed ds bk')"

fun all_fit :: "delta list \<Rightarrow> book \<Rightarrow> bool" where
  "all_fit [] bk \<longleftrightarrow> True"
| "all_fit (d # ds) bk \<longleftrightarrow>
     delta_fits d bk \<and> (case process_delta d bk of Inl e \<Rightarrow> True | Inr (_, bk') \<Rightarrow> all_fit ds bk')"

lemma feed_ok:
  assumes "book_ok bk" "all_fit ds bk"
  shows "\<exists>bk'. feed ds bk = Inr bk' \<and> book_ok bk'"
  using assms
proof (induction ds arbitrary: bk)
  case Nil
  then show ?case by simp
next
  case (Cons d ds)
  have "keeps_book (process_delta d bk)"
    using process_delta_ok [OF Cons.prems(1)] Cons.prems(2) by simp
  then obtain r bk1 where "process_delta d bk = Inr (r, bk1)" "book_ok bk1"
    unfolding keeps_book_def by blast
  then show ?case using Cons.IH [of bk1] Cons.prems(2) by simp
qed

lemma book_volume_at_price:
  assumes ok: "book_ok bk" and b: "price_to_bucket p (ladder_of sd bk) = Some b"
  shows "map_option unat (get_volume_at_price p (ladder_of sd bk)) =
      (if number_of (at_bucket (ladder_of sd bk) sd b) (slab_look (l3 bk)) = 0 then None
       else Some (volume_of (at_bucket (ladder_of sd bk) sd b) (slab_look (l3 bk))))"
    and "unat (order_count (levels (ladder_of sd bk) b)) =
      number_of (at_bucket (ladder_of sd bk) sd b) (slab_look (l3 bk))"
proof -
  have "level_holds (levels (ladder_of sd bk) b)
      (volume_of (at_bucket (ladder_of sd bk) sd b) (slab_look (l3 bk)))
      (number_of (at_bucket (ladder_of sd bk) sd b) (slab_look (l3 bk)))"
    using ok bucket_bound [OF b] by (simp add: book_ok_def aggregates_def)
  then show "map_option unat (get_volume_at_price p (ladder_of sd bk)) =
      (if number_of (at_bucket (ladder_of sd bk) sd b) (slab_look (l3 bk)) = 0 then None
       else Some (volume_of (at_bucket (ladder_of sd bk) sd b) (slab_look (l3 bk))))"
    and "unat (order_count (levels (ladder_of sd bk) b)) =
      number_of (at_bucket (ladder_of sd bk) sd b) (slab_look (l3 bk))"
    using b by (auto simp: get_volume_at_price_def level_holds_def level_sums_def)
qed

text \<open>C31. Level 2 is the aggregate of level 3.  Over any stream of deltas that fit the book -
  additions with room in their level, changes and cancels that name the side of the order, trades
  that fill an order completely, snapshots, undecodable deltas - nothing panics, and for every
  price on either ladder the reported volume is the exact sum of the volumes of the tracked orders
  of that side in the bucket (none, if there is no order), and the order count is their number.\<close>

theorem level2_aggregates_level3:
  assumes "all_fit ds (new_book tick base)"
  shows "\<exists>bk. feed ds (new_book tick base) = Inr bk \<and>
    (\<forall>sd p b. price_to_bucket p (ladder_of sd bk) = Some b \<longrightarrow>
       map_option unat (get_volume_at_price p (ladder_of sd bk)) =
         (if number_of (at_bucket (ladder_of sd bk) sd b) (slab_look (l3 bk)) = 0 then None
          else Some (volume_of (at_bucket (ladder_of sd bk) sd b) (slab_look (l3 bk)))) \<and>
       unat (order_count (levels (ladder_of sd bk) b)) =
         number_of (at_bucket (ladder_of sd bk) sd b) (slab_look (l3 bk)))"
  using feed_ok [OF new_book_ok assms] book_volume_at_price by blast

text \<open>A book with one bid of volume 5 at 101, for examples.\<close>

definition mk_delta :: "u8 \<Rightarrow> u64 \<Rightarrow> u64 \<Rightarrow> u64 \<Rightarrow> delta" where
  "mk_delta ty oid px vol =
     \<lparr>d_timestamp = 0, d_order_id = oid, d_price = px, d_volume = vol, d_side = 0, d_type = ty,
      d_sequence = 1, d_exchange = 0\<rparr>"

definition one_bid :: book where
  "one_bid =
     \<lparr>bids = (new_ladder Bid 1 100)
        \<lparr>levels := (\<lambda>_. new_level)(1 := new_level\<lparr>lv_price := 101, lv_volume := 5, order_count := 1, active := True\<rparr>),
         price_map := (\<lambda>_. - 1)(1 := 1), best_index := 1, worst_index := 1, active_count := 1\<rparr>,
      asks = new_ladder Ask 1 100,
      l3 = \<lparr>records = chained(0 :=
               \<lparr>r_order_id = 7, r_price = 101, r_volume = 5, r_side = 0, queue_position = 1,
                next_index = INVALID_ORDER_INDEX, prev_index = INVALID_ORDER_INDEX, occupied = True\<rparr>),
            free_list_head = 1, allocated_count = 1, lookup_count = 0\<rparr>,
      stats = new_book_stats\<lparr>deltas_processed := 1, adds_processed := 1, last_sequence := 1\<rparr>,
      last_bid = 101, last_ask = 0\<rparr>"

lemma one_bid_processed:
  "process_delta (mk_delta 0 7 101 5) (new_book 1 100) = Inr (Inr (), one_bid)"
  by (simp add: mk_delta_def process_delta_def delta_type_from_u8_def note_sequence_def handle_add_def
      on_ladder_def ladder_of_def set_ladder_def delta_side_def new_book_def ladder_eval side_u8_def
      allocate_def new_slab_def chained_def INVALID_ORDER_INDEX_def MAX_ORDER_RECORDS_def at_slot_def
      set_record_def insert_into_level_def get_record_def get_level_tail_def new_record_def
      update_cached_prices_def new_book_stats_def one_bid_def cong: at_level_weak_cong)

lemma one_bid_look:
  "slab_look (l3 one_bid) = [0 \<mapsto> \<lparr>t_order_id = 7, t_price = 101, t_volume = 5, t_side = 0\<rparr>]"
  by (auto simp: fun_eq_iff slab_look_def get_record_def one_bid_def chained_def new_record_def
      order_view_def MAX_ORDER_RECORDS_def)

lemma one_bid_fits: "add_fits Bid 101 5 (new_book 1 100)"
proof -
  have look: "slab_look (l3 (new_book 1 100)) = Map.empty" by (simp add: new_book_def slab_look_new)
  show ?thesis
    unfolding add_fits_def room_for_def look
    by (simp add: volume_of_def number_of_def weigh_empty new_book_def ladder_of_def ladder_eval
        MAX_ORDER_RECORDS_def) (rule exI [of _ 0], simp)
qed

theorem level2_aggregates_level3_witness:
  "\<exists>bk. feed [mk_delta 0 7 101 5, mk_delta 3 7 101 5] (new_book 1 100) = Inr bk \<and>
    (\<forall>sd p b. price_to_bucket p (ladder_of sd bk) = Some b \<longrightarrow>
       map_option unat (get_volume_at_price p (ladder_of sd bk)) =
         (if number_of (at_bucket (ladder_of sd bk) sd b) (slab_look (l3 bk)) = 0 then None
          else Some (volume_of (at_bucket (ladder_of sd bk) sd b) (slab_look (l3 bk)))) \<and>
       unat (order_count (levels (ladder_of sd bk) b)) =
         number_of (at_bucket (ladder_of sd bk) sd b) (slab_look (l3 bk)))"
proof (rule level2_aggregates_level3)
  have d1: "delta_fits (mk_delta 0 7 101 5) (new_book 1 100)"
    using one_bid_fits by (simp add: delta_fits_def delta_type_from_u8_def mk_delta_def delta_side_def)
  have d2: "delta_fits (mk_delta 3 7 101 5) one_bid"
    by (simp add: delta_fits_def delta_type_from_u8_def mk_delta_def delta_side_def tracks_def known_as_def
        one_bid_look side_u8_def)
  show "all_fit [mk_delta 0 7 101 5, mk_delta 3 7 101 5] (new_book 1 100)"
    using d1 d2 by (simp add: one_bid_processed split: sum.split prod.split)
qed

section \<open>Partial fills\<close>

text \<open>A partial fill of the only order of a level removes the level.  When a trade takes less
  than the volume of a tracked order that is alone at its price, the ladder reports no volume at
  that price afterwards, although the order is still tracked with the volume that is left.\<close>

lemma partial_fill_loses_level:
  assumes fit: "all_fit ds (new_book tick base)" and bk: "feed ds (new_book tick base) = Inr bk"
    and trade: "d_type d = 3" "tracks bk (d_order_id d)"
      "known_as bk (delta_side d) (d_order_id d) (\<lambda>t. t_price t = d_price d \<and> d_volume d < t_volume t)"
    and alone: "\<forall>b. price_to_bucket (d_price d) (ladder_of (delta_side d) bk) = Some b \<longrightarrow>
      number_of (at_bucket (ladder_of (delta_side d) bk) (delta_side d) b) (slab_look (l3 bk)) = 1"
  shows "\<exists>bk'. process_delta d bk = Inr (Inr (), bk') \<and>
    get_volume_at_price (d_price d) (ladder_of (delta_side d) bk') = None \<and>
    (\<exists>i t. slab_look (l3 bk) i = Some t \<and> t_order_id t = d_order_id d \<and>
       slab_look (l3 bk') i = Some (t\<lparr>t_volume := t_volume t - d_volume d\<rparr>))"
proof -
  let ?sd = "delta_side d" and ?p = "d_price d" and ?v = "d_volume d"
  have ok: "book_ok bk" using feed_ok [OF new_book_ok fit] bk by simp
  obtain i t s where find: "find_by_order_id (d_order_id d) (l3 bk) = (Some i, s)"
    "slab_look s = slab_look (l3 bk)" "plain_slab s = plain_slab (l3 bk)" "slab_look (l3 bk) i = Some t"
    "t_order_id t = d_order_id d"
    using trade(2) by (rule_tac find_order_cases [of "d_order_id d" "l3 bk"]) (auto simp: tracks_def)
  obtain b where b: "t_side t = side_u8 ?sd" "price_to_bucket (t_price t) (ladder_of ?sd bk) = Some b"
    and t: "t_price t = ?p \<and> ?v < t_volume t"
    using trackedD [OF ok find(4,5) trade(3)] .
  have ps: "plain_slab s" "slab_look s i = Some t" using ok find by (simp_all add: book_ok_def)
  have rec: "get_record i s = Some (records s i)" "order_view (records s i) = t"
    using ps(2) by (auto simp: occupied_of_look get_record_def)
  define f where "f = (\<lambda>r :: order_record. r\<lparr>r_volume := t_volume t - ?v\<rparr>)"
  have view: "order_view (f (records s i)) = t\<lparr>t_volume := t_volume t - ?v\<rparr>" "r_volume (records s i) = t_volume t"
    using rec(2) by (auto simp: order_view_def f_def)
  define l where "l = ladder_of ?sd bk"
  have hb: "level_holds (levels l b) (volume_of (at_bucket l ?sd b) (slab_look (l3 bk))) 1"
    using ok bucket_bound [OF b(2)] alone b(2) t
    unfolding book_ok_def aggregates_def l_def by metis
  then have "order_count (levels l b) = 1" and act: "active (levels l b)"
    by (simp_all add: level_holds_def level_sums_def word_unat_eq_iff)
  note off = last_order_deactivates [OF this(1), of "s64 (- sint ?v)"]
  define l' where "l' = snd (remove_volume ?p ?v l)"
  have l': "remove_volume ?p ?v l = (Inr (), l')" "\<not> active (levels l' b)"
    "price_to_bucket ?p l' = Some b" "ladder_inv l'"
    using b(2) t act off remove_volume_inv [of l ?p ?v] ok
    by (simp_all add: l'_def remove_volume_def Let_def l_def [symmetric]) (simp add: l_def book_ok_def)
  define st where "st = count_delta TradeDelta (note_sequence (d_sequence d) (stats bk))"
  define bk2 where "bk2 = set_ladder ?sd l' (bk\<lparr>stats := st, l3 := at_slot i f s\<rparr>)"
  have "t_volume t - ?v \<noteq> 0" "?v \<le> t_volume t" using t by auto
  then have h: "handle_delta TradeDelta d (bk\<lparr>stats := st\<rparr>) = Inr (Inr (), bk2)"
    using find(1) rec(1) view(2) t l'(1)
    by (simp add: handle_trade_delta_def Let_def saturating_sub_def on_ladder_def bk2_def l_def f_def)
  have inv: "ladder_inv (ladder_of sd bk2)" for sd
    using l'(4) ok by (simp add: bk2_def book_ok_def)
  then have "ladder_inv (bids bk2)" "ladder_inv (asks bk2)"
    unfolding ladder_of_def by (metis book_side.simps(3,4))+
  then obtain bk3 where bk3: "update_cached_prices bk2 = Inr bk3" "l3 bk3 = l3 bk2" "\<And>sd. ladder_of sd bk3 = ladder_of sd bk2"
    by (metis cached_prices_frame)
  have "slab_look (l3 bk3) i = Some (t\<lparr>t_volume := t_volume t - ?v\<rparr>)"
    using rewrite_order(2) [OF ps, of f] view(1) by (simp add: bk3(2) bk2_def f_def)
  moreover have "get_volume_at_price ?p (ladder_of ?sd bk3) = None"
    using l'(2,3) by (simp add: bk3(3) bk2_def get_volume_at_price_def)
  moreover have "process_delta d bk = Inr (Inr (), bk3)"
    using h bk3(1) trade(1)
    by (simp add: process_delta_def delta_type_from_u8_def del: count_delta.simps handle_delta.simps flip: st_def)
  ultimately show ?thesis using find(4,5) by blast
qed

lemma partial_fill_loses_level_example:
  "\<exists>bk'. process_delta (mk_delta 3 7 101 2) one_bid = Inr (Inr (), bk') \<and>
    get_volume_at_price 101 (bids bk') = None \<and> slab_look (l3 bk') 0 \<noteq> None"
proof -
  have "delta_fits (mk_delta 0 7 101 5) (new_book 1 100)"
    using one_bid_fits by (simp add: delta_fits_def delta_type_from_u8_def mk_delta_def delta_side_def)
  then have fit: "all_fit [mk_delta 0 7 101 5] (new_book 1 100)"
    and run: "feed [mk_delta 0 7 101 5] (new_book 1 100) = Inr one_bid"
    by (simp_all add: one_bid_processed)
  have side: "delta_side (mk_delta 3 7 101 2) = Bid" by (simp add: mk_delta_def delta_side_def)
  have "\<exists>bk'. process_delta (mk_delta 3 7 101 2) one_bid = Inr (Inr (), bk') \<and>
    get_volume_at_price (d_price (mk_delta 3 7 101 2)) (ladder_of (delta_side (mk_delta 3 7 101 2)) bk') = None \<and>
    (\<exists>i t. slab_look (l3 one_bid) i = Some t \<and> t_order_id t = d_order_id (mk_delta 3 7 101 2) \<and>
       slab_look (l3 bk') i = Some (t\<lparr>t_volume := t_volume t - d_volume (mk_delta 3 7 101 2)\<rparr>))"
  proof (rule partial_fill_loses_level [OF fit run])
    show "\<forall>b. price_to_bucket (d_price (mk_delta 3 7 101 2))
            (ladder_of (delta_side (mk_delta 3 7 101 2)) one_bid) = Some b \<longrightarrow>
          number_of (at_bucket (ladder_of (delta_side (mk_delta 3 7 101 2)) one_bid)
            (delta_side (mk_delta 3 7 101 2)) b) (slab_look (l3 one_bid)) = 1"
      unfolding one_bid_look side
      by (simp add: number_of_def weigh_def at_bucket_def mk_delta_def side_u8_def one_bid_def ladder_of_def ladder_eval)
  qed (simp_all add: mk_delta_def tracks_def known_as_def one_bid_look delta_side_def side_u8_def)
  then show ?thesis
    unfolding side one_bid_look by (auto simp: mk_delta_def ladder_of_def split: if_splits)
qed

end
