(* ===== verification/Sequence_Healer.thy ===== *)
theory Sequence_Healer
  imports Interfaces
begin

text \<open>
  Detection of lost updates, \<open>crates/nexus_orderbook/src/l2/sequence_healer.rs\<close>.  Every update of
  the order book has an id; the healer compares it with the id it expects and pauses trading when
  too many are missing.  Ids are \<open>u64\<close> and \<open>+ 1\<close> wraps.  The clock is an argument.  The theory
  shows which ids are accepted, what a lost update leads to, and which answers are never given.
\<close>

section \<open>State\<close>

datatype sequence_check = Valid | GapHealable u64 | GapCritical u64 | Regression | DuplicateId

record healer_config =
  max_gap_tolerance :: u64
  snapshot_timeout_secs :: u64
  min_snapshot_interval_ms :: u64
  max_snapshot_failures :: u32

definition default_healer_config :: healer_config where
  "default_healer_config =
     \<lparr>max_gap_tolerance = 100, snapshot_timeout_secs = 5, min_snapshot_interval_ms = 100,
      max_snapshot_failures = 3\<rparr>"

record healer_stats =
  total_messages :: u64
  valid_sequences :: u64
  gaps_detected :: u64
  gaps_healed :: u64
  snapshots_fetched :: u64
  snapshot_failures :: u64
  regressions_detected :: u64
  duplicates_ignored :: u64
  last_sequence_id :: u64
  last_heal_timestamp_ns :: u64

definition new_healer_stats :: healer_stats where
  "new_healer_stats =
     \<lparr>total_messages = 0, valid_sequences = 0, gaps_detected = 0, gaps_healed = 0,
      snapshots_fetched = 0, snapshot_failures = 0, regressions_detected = 0, duplicates_ignored = 0,
      last_sequence_id = 0, last_heal_timestamp_ns = 0\<rparr>"

record healer =
  h_config :: healer_config
  last_update_id :: u64
  expected_next_id :: u64
  is_paused :: bool
  consecutive_failures :: u32
  last_snapshot_time_ns :: u64
  h_stats :: healer_stats

definition new_healer :: "healer_config \<Rightarrow> healer" where
  "new_healer cfg =
     \<lparr>h_config = cfg, last_update_id = 0, expected_next_id = 0, is_paused = False,
      consecutive_failures = 0, last_snapshot_time_ns = 0, h_stats = new_healer_stats\<rparr>"

section \<open>Operations\<close>

definition with_stats :: "(healer_stats \<Rightarrow> healer_stats) \<Rightarrow> healer \<Rightarrow> healer" where
  "with_stats f h = h\<lparr>h_stats := f (h_stats h)\<rparr>"

definition update_sequence :: "u64 \<Rightarrow> healer \<Rightarrow> healer" where
  "update_sequence i h = h\<lparr>last_update_id := i, expected_next_id := i + 1\<rparr>"

definition pause_trading :: "healer \<Rightarrow> healer" where
  "pause_trading h = h\<lparr>is_paused := True\<rparr>"

definition count_valid :: "u64 \<Rightarrow> healer \<Rightarrow> healer" where
  "count_valid i =
     with_stats (\<lambda>st. st\<lparr>last_sequence_id := i, valid_sequences := valid_sequences st + 1\<rparr>)"

definition validate_sequence :: "u64 \<Rightarrow> healer \<Rightarrow> sequence_check \<times> healer" where
  "validate_sequence i h0 =
     (let h = with_stats (\<lambda>st. st\<lparr>total_messages := total_messages st + 1\<rparr>) h0;
          expected = expected_next_id h; last_id = last_update_id h
      in if expected = 0 \<and> i > 0
         then (Valid, count_valid i (h\<lparr>expected_next_id := i + 1, last_update_id := i\<rparr>))
         else if i = expected then (Valid, count_valid i (update_sequence i h))
         else if i \<le> last_id \<and> i > 0
         then (DuplicateId, with_stats (\<lambda>st. st\<lparr>duplicates_ignored := duplicates_ignored st + 1\<rparr>) h)
         else if i > expected
         then
           (let gap = i - expected;
                h1 = with_stats (\<lambda>st. st\<lparr>gaps_detected := gaps_detected st + 1\<rparr>) h
            in if gap \<le> max_gap_tolerance (h_config h) then (GapHealable gap, h1)
               else (GapCritical gap, pause_trading h1))
         else if i < last_id \<and> i > 0
         then (Regression, pause_trading
                (with_stats (\<lambda>st. st\<lparr>regressions_detected := regressions_detected st + 1\<rparr>) h))
         else (Valid, h))"

definition resume_trading :: "healer \<Rightarrow> healer" where
  "resume_trading h = h\<lparr>is_paused := False, consecutive_failures := 0\<rparr>"

text \<open>The clock is read twice.\<close>

definition record_snapshot_success :: "u64 \<Rightarrow> u64 \<Rightarrow> u64 \<Rightarrow> healer \<Rightarrow> healer" where
  "record_snapshot_success snapshot_last_id now1 now2 h =
     (with_stats (\<lambda>st. st\<lparr>snapshots_fetched := snapshots_fetched st + 1, last_heal_timestamp_ns := now1\<rparr>) h)
       \<lparr>consecutive_failures := 0, last_update_id := snapshot_last_id,
        expected_next_id := snapshot_last_id + 1, last_snapshot_time_ns := now2\<rparr>"

definition record_snapshot_failure :: "healer \<Rightarrow> bool \<times> healer" where
  "record_snapshot_failure h =
     (let failures = consecutive_failures h + 1;
          h1 = with_stats (\<lambda>st. st\<lparr>snapshot_failures := snapshot_failures st + 1\<rparr>)
                 (h\<lparr>consecutive_failures := failures\<rparr>)
      in (failures \<ge> max_snapshot_failures (h_config h1), h1))"

definition can_fetch_snapshot :: "u64 \<Rightarrow> healer \<Rightarrow> bool" where
  "can_fetch_snapshot now h =
     (last_snapshot_time_ns h = 0 \<or>
      (now - last_snapshot_time_ns h) div 1000000 \<ge> min_snapshot_interval_ms (h_config h))"

definition reset_healer :: "healer \<Rightarrow> healer" where
  "reset_healer h =
     h\<lparr>last_update_id := 0, expected_next_id := 0, is_paused := False, consecutive_failures := 0,
       h_stats := new_healer_stats\<rparr>"

section \<open>Runs\<close>

datatype healer_call =
    Validate u64 | SnapshotOk u64 u64 u64 | SnapshotFailed | Resume | ResetHealer

fun run_healer_call :: "healer_call \<Rightarrow> healer \<Rightarrow> healer" where
  "run_healer_call (Validate i) h = snd (validate_sequence i h)"
| "run_healer_call (SnapshotOk i now1 now2) h = record_snapshot_success i now1 now2 h"
| "run_healer_call SnapshotFailed h = snd (record_snapshot_failure h)"
| "run_healer_call Resume h = resume_trading h"
| "run_healer_call ResetHealer h = reset_healer h"

text \<open>The answers to a list of updates.\<close>

fun validate_all :: "u64 list \<Rightarrow> healer \<Rightarrow> sequence_check list \<times> healer" where
  "validate_all [] h = ([], h)"
| "validate_all (i # is) h =
     (let (r, h1) = validate_sequence i h; (rs, h2) = validate_all is h1 in (r # rs, h2))"

text \<open>The ids that were answered with \<open>Valid\<close>; id 0 is never an update.\<close>

definition applied :: "u64 list \<Rightarrow> sequence_check list \<Rightarrow> u64 list" where
  "applied is rs = map fst (filter (\<lambda>(i, r). r = Valid \<and> i \<noteq> 0) (zip is rs))"

section \<open>Which updates are accepted\<close>

text \<open>After the first update the expected id follows the last one.\<close>

definition healer_inv :: "healer \<Rightarrow> bool" where
  "healer_inv h \<longleftrightarrow>
     expected_next_id h = last_update_id h + 1 \<or> expected_next_id h = 0 \<and> last_update_id h = 0"

lemmas healer_step_defs =
  validate_sequence_def with_stats_def count_valid_def update_sequence_def pause_trading_def
  resume_trading_def record_snapshot_success_def record_snapshot_failure_def reset_healer_def

lemma healer_call_inv: "healer_inv h \<Longrightarrow> healer_inv (run_healer_call c h)"
  by (cases c) (auto simp: healer_inv_def healer_step_defs Let_def)

interpretation healer: invariant_machine run_healer_call healer_inv
  by unfold_locales (rule healer_call_inv)

lemma new_healer_inv: "healer_inv (new_healer cfg)"
  by (simp add: healer_inv_def new_healer_def)

lemma less_inc_iff:
  assumes "b \<noteq> - 1" shows "(a :: u64) < b + 1 \<longleftrightarrow> a \<le> b"
proof -
  have "unat b \<noteq> 2 ^ 64 - 1"
    using assms by (simp add: word_unat_eq_iff unsigned_minus_1_eq_mask mask_eq_exp_minus_1)
  then have "unat b + 1 < 2 ^ 64" using unat_lt_2p [of b] by simp
  then have "unat (b + 1) = unat b + 1" by (intro unat_inc) simp
  then show ?thesis by (auto simp: word_less_nat_alt word_le_nat_alt)
qed

text \<open>From a healer that expects \<open>e > 0\<close>, exactly the consecutive ids from \<open>e\<close> on are accepted.\<close>

lemma accepted_from:
  assumes "expected_next_id h \<noteq> 0" "expected_next_id h = last_update_id h + 1" "\<forall>i \<in> set ids. i \<noteq> - 1"
  shows "\<exists>n. applied ids (fst (validate_all ids h)) = map (\<lambda>k. expected_next_id h + of_nat k) [0..<n]"
  using assms
proof (induction ids arbitrary: h)
  case Nil
  then show ?case by (intro exI [of _ 0]) (simp add: applied_def)
next
  case (Cons i ids)
  let ?e = "expected_next_id h"
  obtain r h1 where step: "validate_sequence i h = (r, h1)" by fastforce
  have app: "applied (i # ids) (fst (validate_all (i # ids) h)) =
      (if r = Valid \<and> i \<noteq> 0 then [i] else []) @ applied ids (fst (validate_all ids h1))"
    using step by (simp add: applied_def split: prod.split)
  show ?case
  proof (cases "i = ?e")
    case True
    then have "r = Valid" "expected_next_id h1 = ?e + 1" "last_update_id h1 = ?e"
      using step Cons.prems(1) by (auto simp: healer_step_defs Let_def)
    moreover have "?e + 1 \<noteq> 0" using True Cons.prems(3) by (auto simp: eq_neg_iff_add_eq_0)
    ultimately obtain n where "applied ids (fst (validate_all ids h1)) = map (\<lambda>k. ?e + 1 + of_nat k) [0..<n]"
      using Cons.IH [of h1] Cons.prems(3) by auto
    then have "applied (i # ids) (fst (validate_all (i # ids) h)) = map (\<lambda>k. ?e + of_nat k) [0..<Suc n]"
      using app True \<open>r = Valid\<close> Cons.prems(1)
      by (simp add: upt_conv_Cons map_Suc_upt [symmetric] o_def ac_simps del: upt_Suc)
    then show ?thesis by blast
  next
    case False
    have "last_update_id h \<noteq> - 1" using Cons.prems(1,2) by auto
    then have "i < ?e \<longleftrightarrow> i \<le> last_update_id h"
      using less_inc_iff [of "last_update_id h" i] Cons.prems(2) by simp
    then have "r \<noteq> Valid \<or> i = 0" "expected_next_id h1 = ?e" "last_update_id h1 = last_update_id h"
      using step False Cons.prems(1)
      by (auto simp: healer_step_defs Let_def not_less split: if_splits)
    then show ?thesis using Cons.IH [of h1] Cons.prems app by (auto simp del: validate_all.simps)
  qed
qed

text \<open>The accepted updates have no hole.  Whatever ids arrive at a new healer (the last value of
  \<open>u64\<close> excepted), in whatever order, the ids answered with \<open>Valid\<close> are consecutive: no update is
  accepted twice and none is accepted after a missing one.\<close>

lemma accepted_updates_consecutive:
  assumes "\<forall>i \<in> set ids. i \<noteq> - 1"
  shows "\<exists>a n. applied ids (fst (validate_all ids (new_healer cfg))) = map (\<lambda>k. a + of_nat k) [0..<n]"
proof (cases ids)
  case Nil
  then show ?thesis by (intro exI [of _ 0]) (simp add: applied_def)
next
  case (Cons i js)
  obtain h1 where h1: "validate_sequence i (new_healer cfg) = (Valid, h1)"
    "expected_next_id h1 = i + 1" "last_update_id h1 = i"
    by (cases "i = 0") (auto simp: healer_step_defs Let_def new_healer_def word_neq_0_conv)
  have "i + 1 \<noteq> 0" using assms Cons by (auto simp: eq_neg_iff_add_eq_0)
  then obtain n where n: "applied js (fst (validate_all js h1)) = map (\<lambda>k. i + 1 + of_nat k) [0..<n]"
    using accepted_from [of h1 js] h1(2,3) assms Cons by auto
  have app: "applied ids (fst (validate_all ids (new_healer cfg))) =
      (if i \<noteq> 0 then [i] else []) @ applied js (fst (validate_all js h1))"
    using Cons h1(1) by (simp add: applied_def split: prod.split)
  show ?thesis
  proof (cases "i = 0")
    case True
    then show ?thesis using app n by auto
  next
    case False
    then have "applied ids (fst (validate_all ids (new_healer cfg))) = map (\<lambda>k. i + of_nat k) [0..<Suc n]"
      using app n by (simp add: upt_conv_Cons map_Suc_upt [symmetric] o_def ac_simps del: upt_Suc)
    then show ?thesis by blast
  qed
qed

lemma accepted_updates_consecutive_example:
  "(\<exists>a n. applied [5, 6, 9, 6, 7] (fst (validate_all [5, 6, 9, 6, 7] (new_healer default_healer_config))) =
      map (\<lambda>k. a + of_nat k) [0..<n]) \<and>
   applied [5, 6, 9, 6, 7] (fst (validate_all [5, 6, 9, 6, 7] (new_healer default_healer_config))) = [5, 6, 7]"
proof
  show "\<exists>a n. applied [5, 6, 9, 6, 7] (fst (validate_all [5, 6, 9, 6, 7] (new_healer default_healer_config))) =
      map (\<lambda>k. a + of_nat k) [0..<n]"
    by (rule accepted_updates_consecutive) simp
qed code_simp

section \<open>Lost updates\<close>

text \<open>An id beyond the expected one is judged by its distance and moves nothing.\<close>

lemma beyond_expected:
  assumes "expected_next_id h \<noteq> 0" "expected_next_id h = last_update_id h + 1" "expected_next_id h < i"
    "validate_sequence i h = (r, h1)"
  shows "r = (if i - expected_next_id h \<le> max_gap_tolerance (h_config h)
              then GapHealable (i - expected_next_id h) else GapCritical (i - expected_next_id h))"
    "expected_next_id h1 = expected_next_id h" "last_update_id h1 = last_update_id h" "h_config h1 = h_config h"
    "is_paused h1 \<longleftrightarrow> is_paused h \<or> \<not> i - expected_next_id h \<le> max_gap_tolerance (h_config h)"
proof -
  have "last_update_id h \<noteq> - 1" using assms(1,2) by auto
  then have "last_update_id h < expected_next_id h" by (simp add: assms(2) less_inc_iff)
  then have "\<not> i \<le> last_update_id h" using assms(3) by simp
  then show "r = (if i - expected_next_id h \<le> max_gap_tolerance (h_config h)
              then GapHealable (i - expected_next_id h) else GapCritical (i - expected_next_id h))"
    "expected_next_id h1 = expected_next_id h" "last_update_id h1 = last_update_id h" "h_config h1 = h_config h"
    "is_paused h1 \<longleftrightarrow> is_paused h \<or> \<not> i - expected_next_id h \<le> max_gap_tolerance (h_config h)"
    using assms by (auto simp: healer_step_defs Let_def split: if_splits)
qed

lemma all_beyond_expected:
  assumes "expected_next_id h \<noteq> 0" "expected_next_id h = last_update_id h + 1"
    "\<forall>i \<in> set ids. expected_next_id h < i"
  shows "fst (validate_all ids h) = map (\<lambda>i. if i - expected_next_id h \<le> max_gap_tolerance (h_config h)
              then GapHealable (i - expected_next_id h) else GapCritical (i - expected_next_id h)) ids \<and>
    expected_next_id (snd (validate_all ids h)) = expected_next_id h \<and>
    (is_paused (snd (validate_all ids h)) \<longleftrightarrow>
       is_paused h \<or> (\<exists>i \<in> set ids. \<not> i - expected_next_id h \<le> max_gap_tolerance (h_config h)))"
  using assms
proof (induction ids arbitrary: h)
  case Nil
  then show ?case by simp
next
  case (Cons i ids)
  obtain r h1 where step: "validate_sequence i h = (r, h1)" by fastforce
  have "expected_next_id h < i" using Cons.prems(3) by simp
  note b = beyond_expected [OF Cons.prems(1,2) this step]
  show ?case using Cons.IH [of h1] Cons.prems step b by (simp add: split_beta)
qed

text \<open>A lost update is never healed by further updates.  When the update after \<open>a\<close> is lost,
  every later update is answered with its distance to the lost one - a healable gap up to the
  configured tolerance, a critical one beyond - the healer keeps waiting for the lost update, and
  trading is paused exactly when one of the updates was farther away than the tolerance.\<close>

lemma lost_update_never_heals:
  assumes "0 < a" "a \<noteq> - 1" "\<forall>i \<in> set ids. a + 1 < i"
  shows "fst (validate_all (a # ids) (new_healer cfg)) =
      Valid # map (\<lambda>i. if i - (a + 1) \<le> max_gap_tolerance cfg then GapHealable (i - (a + 1))
                       else GapCritical (i - (a + 1))) ids \<and>
    expected_next_id (snd (validate_all (a # ids) (new_healer cfg))) = a + 1 \<and>
    (is_paused (snd (validate_all (a # ids) (new_healer cfg))) \<longleftrightarrow>
       (\<exists>i \<in> set ids. \<not> i - (a + 1) \<le> max_gap_tolerance cfg))"
proof -
  obtain h1 where h1: "validate_sequence a (new_healer cfg) = (Valid, h1)"
    "expected_next_id h1 = a + 1" "last_update_id h1 = a" "h_config h1 = cfg" "\<not> is_paused h1"
    using assms(1) by (auto simp: healer_step_defs Let_def new_healer_def)
  have "a + 1 \<noteq> 0" using assms(2) by (auto simp: eq_neg_iff_add_eq_0)
  then show ?thesis
    using all_beyond_expected [of h1 ids] h1 assms(3) by (simp add: split_beta)
qed

lemma lost_update_never_heals_example:
  "fst (validate_all [10, 12, 14, 13] (new_healer (default_healer_config\<lparr>max_gap_tolerance := 2\<rparr>))) =
      [Valid, GapHealable 1, GapCritical 3, GapHealable 2] \<and>
   is_paused (snd (validate_all [10, 12, 14, 13] (new_healer (default_healer_config\<lparr>max_gap_tolerance := 2\<rparr>))))"
  using lost_update_never_heals [of 10 "[12, 14, 13]" "default_healer_config\<lparr>max_gap_tolerance := 2\<rparr>"]
  by (simp add: default_healer_config_def)

text \<open>Trading stays paused until it is resumed explicitly.  After an update was answered with a
  critical gap, no sequence of updates, snapshots and snapshot failures clears the pause; only
  \<open>resume_trading\<close> and \<open>reset\<close> do.\<close>

lemma paused_until_resumed:
  assumes "fst (validate_sequence i h) = GapCritical g" "Resume \<notin> set cs" "ResetHealer \<notin> set cs"
  shows "is_paused (fold run_healer_call cs (snd (validate_sequence i h)))"
proof -
  have "is_paused (snd (validate_sequence i h))"
    using assms(1) by (auto simp: healer_step_defs Let_def split: if_splits)
  moreover have "is_paused (run_healer_call c h')" if "is_paused h'" "c \<noteq> Resume" "c \<noteq> ResetHealer" for c h'
    using that by (cases c) (auto simp: healer_step_defs Let_def)
  ultimately show ?thesis
    using assms(2,3) by (induction cs arbitrary: i h rule: rev_induct) auto
qed

lemma paused_until_resumed_example:
  "is_paused (fold run_healer_call [SnapshotOk 200 1 2, Validate 201]
     (snd (validate_sequence 200 (snd (validate_sequence 10 (new_healer default_healer_config))))))"
  by (rule paused_until_resumed [where g = 189]) code_simp+

text \<open>The answer \<open>Regression\<close> cannot be given: an id that is smaller than the last one is answered
  as a duplicate first.\<close>

lemma regression_unreachable: "fst (validate_sequence i h) \<noteq> Regression"
  by (auto simp: healer_step_defs Let_def)

lemma regression_is_duplicate:
  "0 < i \<Longrightarrow> i \<le> last_update_id h \<Longrightarrow> expected_next_id h \<noteq> 0 \<Longrightarrow> i \<noteq> expected_next_id h \<Longrightarrow>
     fst (validate_sequence i h) = DuplicateId \<and> is_paused (snd (validate_sequence i h)) = is_paused h"
  by (simp add: healer_step_defs Let_def)

end
