(* ===== verification/Swim_Gossip.thy ===== *)
theory Swim_Gossip
  imports Nexus_Prelude "HOL-Library.AList"
begin

text \<open>
  The membership protocol of \<open>crates/nexus_swarm/src/gossip/swim_protocol.rs\<close>.  The members are listed
  in the order in which the hash map yields them.  What matters for the calls is the asynchronous lock
  around the members: a call that waits for the lock while it holds a guard of it never returns and
  never releases it, and the lock is fair, so that nobody else gets it either; the flag \<open>sw_stuck\<close>
  says that this has happened.  Whether a datagram can be sent is the parameter \<open>net\<close>, a clock reading
  in milliseconds is an argument, addresses are texts.
\<close>

section \<open>State\<close>

datatype swim_message =
  Ping u64 u64 u64 nat
| Ack u64 u64 u64 nat
| SuspectMsg u64 u64 u64 nat
| DeadMsg u64 u64 u64 nat
| JoinMsg u64 string u64
| LeaveMsg u64 u64

datatype member_state = MemberAlive | MemberSuspect | MemberDead | MemberLeft

record member_info =
  mi_node_id :: u64
  mi_address :: string
  mi_state :: member_state
  mi_incarnation :: u64
  mi_last_heartbeat :: nat
  mi_suspicion_start :: "nat option"
  mi_suspicion_timeout :: nat

definition new_member :: "nat \<Rightarrow> u64 \<Rightarrow> string \<Rightarrow> member_info" where
  "new_member now n addr =
     \<lparr>mi_node_id = n, mi_address = addr, mi_state = MemberAlive, mi_incarnation = 0, mi_last_heartbeat = now,
      mi_suspicion_start = None, mi_suspicion_timeout = 500\<rparr>"

record swim_config =
  sc_node_id :: u64
  sc_bind_address :: string
  sc_multicast_group :: string
  sc_ping_interval :: nat
  sc_suspicion_timeout :: nat
  sc_indirect_probes :: nat
  sc_max_packet_size :: nat

definition default_swim_config :: swim_config where
  "default_swim_config =
     \<lparr>sc_node_id = 0, sc_bind_address = ''0.0.0.0:9999'', sc_multicast_group = ''224.0.0.1'',
      sc_ping_interval = 100, sc_suspicion_timeout = 500, sc_indirect_probes = 3, sc_max_packet_size = 1400\<rparr>"

datatype swim_error = SwimNotInitialized | SwimNodeNotFound u64 | SwimIoError

text \<open>\<open>sw_sent\<close> is a history of the datagrams that were handed to the socket, with their receivers.\<close>

record swim =
  sw_config :: swim_config
  sw_members :: "(u64 \<times> member_info) list"
  sw_sequence_number :: u64
  sw_incarnation :: u64
  sw_socket :: bool
  sw_stuck :: bool
  sw_sent :: "(string \<times> swim_message) list"

definition new_swim :: "swim_config \<Rightarrow> swim" where
  "new_swim cfg =
     \<lparr>sw_config = cfg, sw_members = [], sw_sequence_number = 0, sw_incarnation = 0, sw_socket = False,
      sw_stuck = False, sw_sent = []\<rparr>"

section \<open>Operations\<close>

datatype 'a swim_result = Returned "swim_error + 'a" | Hangs

definition initialize_swim :: "bool \<Rightarrow> nat \<Rightarrow> swim \<Rightarrow> unit swim_result \<times> swim" where
  "initialize_swim bound now s =
     (if \<not> bound then (Returned (Inl SwimIoError), s)
      else
        let s1 = s\<lparr>sw_socket := True\<rparr>; cfg = sw_config s1 in
        if sw_stuck s1 then (Hangs, s1)
        else
          (Returned (Inr ()),
           s1\<lparr>sw_members :=
                AList.update (sc_node_id cfg)
                  ((new_member now (sc_node_id cfg) (sc_bind_address cfg))\<lparr>mi_incarnation := sw_incarnation s1\<rparr>)
                  (sw_members s1)\<rparr>))"

text \<open>One datagram to a member, after \<open>?\<close> on the look-up of its address.\<close>

definition send_to_member :: "(string \<Rightarrow> swim_message \<Rightarrow> bool) \<Rightarrow> u64 \<Rightarrow> swim_message \<Rightarrow> swim \<Rightarrow> unit swim_result \<times> swim" where
  "send_to_member net target msg s =
     (if sw_stuck s then (Hangs, s)
      else
        (case map_of (sw_members s) target of
           None \<Rightarrow> (Returned (Inl (SwimNodeNotFound target)), s)
         | Some m \<Rightarrow>
             (Returned (if net (mi_address m) msg then Inr () else Inl SwimIoError),
              s\<lparr>sw_sent := sw_sent s @ [(mi_address m, msg)]\<rparr>)))"

definition send_ping :: "(string \<Rightarrow> swim_message \<Rightarrow> bool) \<Rightarrow> nat \<Rightarrow> u64 \<Rightarrow> swim \<Rightarrow> unit swim_result \<times> swim" where
  "send_ping net now target s =
     (if \<not> sw_socket s then (Returned (Inl SwimNotInitialized), s)
      else
        let sn = sw_sequence_number s + 1; s1 = s\<lparr>sw_sequence_number := sn\<rparr> in
        send_to_member net target (Ping (sc_node_id (sw_config s1)) target sn now) s1)"

definition send_ack ::
  "(string \<Rightarrow> swim_message \<Rightarrow> bool) \<Rightarrow> nat \<Rightarrow> u64 \<Rightarrow> u64 \<Rightarrow> swim \<Rightarrow> unit swim_result \<times> swim"
where
  "send_ack net now target sn s =
     (if \<not> sw_socket s then (Returned (Inl SwimNotInitialized), s)
      else send_to_member net target (Ack (sc_node_id (sw_config s)) target sn now) s)"

text \<open>
  A broadcast reads the members.  \<open>held\<close>: the caller still holds the guard with which it has written
  them, so that the lock is never granted.
\<close>

definition broadcast :: "bool \<Rightarrow> swim_message \<Rightarrow> swim \<Rightarrow> unit swim_result \<times> swim" where
  "broadcast held msg s =
     (if \<not> sw_socket s then (Returned (Inl SwimNotInitialized), s)
      else if held \<or> sw_stuck s then (Hangs, s\<lparr>sw_stuck := True\<rparr>)
      else
        let others = filter (\<lambda>(i, m). mi_node_id m \<noteq> sc_node_id (sw_config s) \<and> mi_state m = MemberAlive) (sw_members s) in
        (Returned (Inr ()), s\<lparr>sw_sent := sw_sent s @ map (\<lambda>(i, m). (mi_address m, msg)) others\<rparr>))"

definition broadcast_suspect :: "bool \<Rightarrow> nat \<Rightarrow> u64 \<Rightarrow> swim \<Rightarrow> unit swim_result \<times> swim" where
  "broadcast_suspect held now target s =
     broadcast held (SuspectMsg (sc_node_id (sw_config s)) target (sw_incarnation s) now) s"

definition broadcast_dead :: "bool \<Rightarrow> nat \<Rightarrow> u64 \<Rightarrow> swim \<Rightarrow> unit swim_result \<times> swim" where
  "broadcast_dead held now target s =
     broadcast held (DeadMsg (sc_node_id (sw_config s)) target (sw_incarnation s) now) s"

definition suspect_node :: "nat \<Rightarrow> u64 \<Rightarrow> swim \<Rightarrow> unit swim_result \<times> swim" where
  "suspect_node now target s =
     (if sw_stuck s then (Hangs, s)
      else
        (case map_of (sw_members s) target of
           None \<Rightarrow> (Returned (Inr ()), s)
         | Some m \<Rightarrow>
             if mi_state m = MemberAlive then
               let m' = m\<lparr>mi_state := MemberSuspect, mi_suspicion_start := Some now\<rparr> in
               broadcast_suspect True now target (s\<lparr>sw_members := AList.update target m' (sw_members s)\<rparr>)
             else (Returned (Inr ()), s)))"

definition confirm_dead :: "nat \<Rightarrow> u64 \<Rightarrow> swim \<Rightarrow> unit swim_result \<times> swim" where
  "confirm_dead now target s =
     (if sw_stuck s then (Hangs, s)
      else
        let s1 =
          (case map_of (sw_members s) target of
             None \<Rightarrow> s
           | Some m \<Rightarrow>
               s\<lparr>sw_members := AList.update target (m\<lparr>mi_state := MemberDead, mi_suspicion_start := None\<rparr>) (sw_members s)\<rparr>) in
        broadcast_dead True now target s1)"

definition timed_out_member :: "nat \<Rightarrow> member_info \<Rightarrow> bool" where
  "timed_out_member now m =
     (mi_state m = MemberSuspect \<and>
      (case mi_suspicion_start m of None \<Rightarrow> False | Some start \<Rightarrow> now - start > mi_suspicion_timeout m))"

fun confirm_all :: "nat \<Rightarrow> u64 list \<Rightarrow> swim \<Rightarrow> unit swim_result \<times> swim" where
  "confirm_all now [] s = (Returned (Inr ()), s)"
| "confirm_all now (n # ns) s =
     (case confirm_dead now n s of
        (Returned (Inr _), s') \<Rightarrow> confirm_all now ns s'
      | (r, s') \<Rightarrow> (r, s'))"

definition check_suspicion_timeouts :: "nat \<Rightarrow> swim \<Rightarrow> unit swim_result \<times> swim" where
  "check_suspicion_timeouts now s =
     (if sw_stuck s then (Hangs, s)
      else
        let to_confirm_dead = map fst (filter (\<lambda>(i, m). timed_out_member now m) (sw_members s)) in
        confirm_all now to_confirm_dead s)"

definition get_alive_members :: "swim \<Rightarrow> u64 list swim_result" where
  "get_alive_members s =
     (if sw_stuck s then Hangs
      else Returned (Inr (map fst (filter (\<lambda>(i, m). mi_state m = MemberAlive) (sw_members s)))))"

definition count_in_state :: "member_state \<Rightarrow> swim \<Rightarrow> nat" where
  "count_in_state st s = length (filter (\<lambda>(i, m). mi_state m = st) (sw_members s))"

definition get_member_counts :: "swim \<Rightarrow> (nat \<times> nat \<times> nat \<times> nat) swim_result" where
  "get_member_counts s =
     (if sw_stuck s then Hangs
      else Returned (Inr (count_in_state MemberAlive s, count_in_state MemberSuspect s,
                          count_in_state MemberDead s, count_in_state MemberLeft s)))"

text \<open>
  The guard with which the members were read for the notices is still alive when their lock is
  requested for writing.
\<close>

definition leave :: "swim \<Rightarrow> unit swim_result \<times> swim" where
  "leave s =
     (if \<not> sw_socket s then (Returned (Inl SwimNotInitialized), s)
      else if sw_stuck s then (Hangs, s)
      else
        let msg = LeaveMsg (sc_node_id (sw_config s)) (sw_incarnation s);
            others = filter (\<lambda>(i, m). mi_node_id m \<noteq> sc_node_id (sw_config s)) (sw_members s) in
        (Hangs, s\<lparr>sw_sent := sw_sent s @ map (\<lambda>(i, m). (mi_address m, msg)) others, sw_stuck := True\<rparr>))"

definition shutdown_swim :: "swim \<Rightarrow> unit swim_result \<times> swim" where
  "shutdown_swim s = leave s"

section \<open>Runs\<close>

datatype swim_call =
  CallPing nat u64
| CallAck nat u64 u64
| CallSuspect nat u64
| CallConfirmDead nat u64
| CallCheckTimeouts nat
| CallAlive
| CallCounts
| CallLeave
| CallShutdown

text \<open>Whether the call hangs, and the state it leaves.\<close>

definition hangs :: "'a swim_result \<Rightarrow> bool" where
  "hangs r \<longleftrightarrow> r = Hangs"

fun swim_step :: "(string \<Rightarrow> swim_message \<Rightarrow> bool) \<Rightarrow> swim_call \<Rightarrow> swim \<Rightarrow> bool \<times> swim" where
  "swim_step net (CallPing now n) s = map_prod hangs id (send_ping net now n s)"
| "swim_step net (CallAck now n sn) s = map_prod hangs id (send_ack net now n sn s)"
| "swim_step net (CallSuspect now n) s = map_prod hangs id (suspect_node now n s)"
| "swim_step net (CallConfirmDead now n) s = map_prod hangs id (confirm_dead now n s)"
| "swim_step net (CallCheckTimeouts now) s = map_prod hangs id (check_suspicion_timeouts now s)"
| "swim_step net CallAlive s = (hangs (get_alive_members s), s)"
| "swim_step net CallCounts s = (hangs (get_member_counts s), s)"
| "swim_step net CallLeave s = map_prod hangs id (leave s)"
| "swim_step net CallShutdown s = map_prod hangs id (shutdown_swim s)"

fun swim_run :: "(string \<Rightarrow> swim_message \<Rightarrow> bool) \<Rightarrow> swim_call list \<Rightarrow> swim \<Rightarrow> bool list \<times> swim" where
  "swim_run net [] s = ([], s)"
| "swim_run net (c # cs) s =
     (case swim_step net c s of (h, s') \<Rightarrow> (case swim_run net cs s' of (hs, s'') \<Rightarrow> (h # hs, s'')))"

text \<open>The calls that do what the protocol is for: suspecting a member, confirming a death, leaving.\<close>

fun detects :: "u64 set \<Rightarrow> swim_call \<Rightarrow> bool" where
  "detects known (CallSuspect now n) = (n \<in> known)"
| "detects known (CallConfirmDead now n) = True"
| "detects known CallLeave = True"
| "detects known CallShutdown = True"
| "detects known _ = False"

fun announces :: "swim_message \<Rightarrow> bool" where
  "announces (SuspectMsg a b c d) = True"
| "announces (DeadMsg a b c d) = True"
| "announces _ = False"

definition unannounced :: "swim \<Rightarrow> bool" where
  "unannounced s \<longleftrightarrow> (\<forall>(addr, msg) \<in> set (sw_sent s). \<not> announces msg)"

definition all_alive :: "swim \<Rightarrow> bool" where
  "all_alive s \<longleftrightarrow> (\<forall>(i, m) \<in> set (sw_members s). mi_state m = MemberAlive)"

lemma hangs_simps [simp]: "hangs Hangs" "\<not> hangs (Returned r)"
  by (simp_all add: hangs_def)

lemma unannounced_sent [simp]:
  "unannounced (s\<lparr>sw_sent := sw_sent s @ xs\<rparr>) \<longleftrightarrow> unannounced s \<and> (\<forall>(addr, msg) \<in> set xs. \<not> announces msg)"
  by (auto simp: unannounced_def)

lemma unannounced_frame [simp]:
  "unannounced (s\<lparr>sw_sequence_number := n, sw_sent := xs\<rparr>) = unannounced (s\<lparr>sw_sent := xs\<rparr>)"
  "unannounced (s\<lparr>sw_members := ms\<rparr>) = unannounced s" "unannounced (s\<lparr>sw_stuck := b\<rparr>) = unannounced s"
  "unannounced (s\<lparr>sw_sequence_number := n\<rparr>) = unannounced s"
  by (simp_all add: unannounced_def)

lemma all_alive_lookup: "all_alive s \<Longrightarrow> map_of (sw_members s) n = Some m \<Longrightarrow> mi_state m = MemberAlive"
  by (auto simp: all_alive_def dest: map_of_SomeD)

lemma all_alive_none_timed_out:
  "all_alive s \<Longrightarrow> filter (\<lambda>(i, m). timed_out_member now m) (sw_members s) = []"
  by (auto simp: all_alive_def filter_empty_conv timed_out_member_def)

text \<open>A call on a stuck protocol hangs and changes nothing but a sequence number.\<close>

lemma step_stuck:
  assumes "sw_stuck s" "sw_socket s" "swim_step net c s = (h, s')"
  shows "h \<and> sw_stuck s' \<and> sw_socket s' \<and> sw_sent s' = sw_sent s"
  using assms
  by (cases c)
    (auto simp: send_ping_def send_ack_def send_to_member_def suspect_node_def confirm_dead_def
      check_suspicion_timeouts_def get_alive_members_def get_member_counts_def leave_def shutdown_swim_def Let_def)

text \<open>A call on a protocol whose members are alive hangs exactly if it detects something.\<close>

lemma step_alive:
  assumes "\<not> sw_stuck s" "sw_socket s" "all_alive s" "swim_step net c s = (h, s')"
  shows "(h \<longleftrightarrow> detects (fst ` set (sw_members s)) c) \<and> sw_stuck s' = h \<and> sw_socket s'
    \<and> (unannounced s \<longrightarrow> unannounced s') \<and> (\<not> h \<longrightarrow> sw_members s' = sw_members s)"
proof (cases c)
  case (CallSuspect now n)
  show ?thesis
  proof (cases "map_of (sw_members s) n")
    case None
    then have "n \<notin> fst ` set (sw_members s)" by (simp add: map_of_eq_None_iff)
    with None show ?thesis
      using assms CallSuspect by (auto simp: suspect_node_def)
  next
    case (Some m)
    then have "n \<in> fst ` set (sw_members s)" by (force dest: map_of_SomeD)
    then show ?thesis
      using assms CallSuspect Some all_alive_lookup [OF assms(3) Some]
      by (auto simp: suspect_node_def broadcast_suspect_def broadcast_def Let_def)
  qed
next
  case (CallConfirmDead now n)
  then show ?thesis
    using assms by (auto simp: confirm_dead_def broadcast_dead_def broadcast_def Let_def split: option.splits)
next
  case (CallCheckTimeouts now)
  then show ?thesis
    using assms all_alive_none_timed_out [OF assms(3), of now]
    by (auto simp: check_suspicion_timeouts_def)
qed (use assms in \<open>auto simp: send_ping_def send_ack_def send_to_member_def get_alive_members_def
      get_member_counts_def leave_def shutdown_swim_def Let_def split: option.splits\<close>)

lemma run_stuck:
  "sw_stuck s \<Longrightarrow> sw_socket s \<Longrightarrow> swim_run net cs s = (hs, s') \<Longrightarrow>
     hs = replicate (length cs) True \<and> sw_sent s' = sw_sent s"
proof (induction cs arbitrary: s hs)
  case (Cons c cs)
  obtain h s1 hs1 where st: "swim_step net c s = (h, s1)" "swim_run net cs s1 = (hs1, s')" "hs = h # hs1"
    using Cons.prems(3) by (auto split: prod.splits)
  note s1 = step_stuck [OF Cons.prems(1,2) st(1)]
  then show ?case using Cons.IH [of s1 hs1] st by simp
qed simp

lemma run_alive:
  "\<not> sw_stuck s \<Longrightarrow> sw_socket s \<Longrightarrow> all_alive s \<Longrightarrow> swim_run net cs s = (hs, s') \<Longrightarrow>
     length hs = length cs
     \<and> (\<forall>k < length cs. hs ! k \<longleftrightarrow> (\<exists>j \<le> k. detects (fst ` set (sw_members s)) (cs ! j)))
     \<and> (unannounced s \<longrightarrow> unannounced s')"
proof (induction cs arbitrary: s hs)
  case (Cons c cs)
  obtain h s1 hs1 where st: "swim_step net c s = (h, s1)" "swim_run net cs s1 = (hs1, s')" "hs = h # hs1"
    using Cons.prems(4) by (auto split: prod.splits)
  note s1 = step_alive [OF Cons.prems(1-3) st(1)]
  let ?known = "fst ` set (sw_members s)"
  show ?case
  proof (cases h)
    case True
    then have "hs1 = replicate (length cs) True" "sw_sent s' = sw_sent s1"
      using run_stuck [OF _ _ st(2)] s1 by blast+
    moreover have "\<exists>j \<le> k. detects ?known ((c # cs) ! j)" for k
      using s1 True by (intro exI [of _ 0]) simp
    ultimately show ?thesis
      using s1 True st(3) by (auto simp: unannounced_def nth_Cons split: nat.splits)
  next
    case False
    then have nd: "\<not> detects ?known c" and same: "sw_members s1 = sw_members s" using s1 by auto
    then have "all_alive s1" using Cons.prems(3) by (simp add: all_alive_def)
    then have ih: "length hs1 = length cs"
      "\<forall>k < length cs. hs1 ! k \<longleftrightarrow> (\<exists>j \<le> k. detects ?known (cs ! j))" "unannounced s1 \<longrightarrow> unannounced s'"
      using Cons.IH [OF _ _ _ st(2)] s1 False same by auto
    have ex: "(\<exists>j \<le> k. detects ?known ((c # cs) ! j)) \<longleftrightarrow> (\<exists>j < k. detects ?known (cs ! j))" for k
    proof
      assume "\<exists>j \<le> k. detects ?known ((c # cs) ! j)"
      then obtain j where "j \<le> k" "detects ?known ((c # cs) ! j)" by blast
      then show "\<exists>j < k. detects ?known (cs ! j)" using nd by (cases j) (auto simp: Suc_le_eq)
    next
      assume "\<exists>j < k. detects ?known (cs ! j)"
      then obtain j where "j < k" "detects ?known (cs ! j)" by blast
      then show "\<exists>j \<le> k. detects ?known ((c # cs) ! j)" by (intro exI [of _ "Suc j"]) simp
    qed
    have "hs ! k \<longleftrightarrow> (\<exists>j \<le> k. detects ?known ((c # cs) ! j))" if k: "k < length (c # cs)" for k
    proof (cases k)
      case 0
      then show ?thesis using False nd st(3) by simp
    next
      case (Suc i)
      then show ?thesis using ih(2) k st(3) by (simp only: ex) (simp add: less_Suc_eq_le)
    qed
    then show ?thesis using ih s1 st(3) by auto
  qed
qed simp

subsection \<open>Nobody joins\<close>

text \<open>No call adds a member: there is no handler for what arrives, a request to join included.\<close>

lemma keys_update_member:
  "map_of ms n = Some m \<Longrightarrow> fst ` set (AList.update n m' ms) = fst ` set ms"
  by (induction ms) (auto split: if_splits)

lemma broadcast_members [simp]: "sw_members (snd (broadcast held msg s)) = sw_members s"
  by (simp add: broadcast_def Let_def)

lemma confirm_dead_keys: "fst ` set (sw_members (snd (confirm_dead now n s))) = fst ` set (sw_members s)"
  by (auto simp: confirm_dead_def broadcast_dead_def keys_update_member split: option.splits)

lemma confirm_all_keys: "fst ` set (sw_members (snd (confirm_all now ns s))) = fst ` set (sw_members s)"
proof (induction ns arbitrary: s)
  case (Cons n ns)
  obtain r s1 where c: "confirm_dead now n s = (r, s1)" by fastforce
  then have "fst ` set (sw_members s1) = fst ` set (sw_members s)"
    using confirm_dead_keys [of now n s] by simp
  then show ?case using Cons [of s1] c by (auto split: swim_result.split sum.split)
qed simp

lemma suspect_node_keys: "fst ` set (sw_members (snd (suspect_node now n s))) = fst ` set (sw_members s)"
  by (auto simp: suspect_node_def broadcast_suspect_def keys_update_member Let_def split: option.splits)

lemma step_keys: "fst ` set (sw_members (snd (swim_step net c s))) = fst ` set (sw_members s)"
  by (cases c)
    (auto simp: suspect_node_keys confirm_dead_keys confirm_all_keys check_suspicion_timeouts_def
      send_ping_def send_ack_def send_to_member_def leave_def shutdown_swim_def Let_def split: option.splits)

lemma run_keys: "swim_run net cs s = (hs, s') \<Longrightarrow> fst ` set (sw_members s') = fst ` set (sw_members s)"
proof (induction cs arbitrary: s hs)
  case (Cons c cs)
  obtain h s1 hs1 where st: "swim_step net c s = (h, s1)" "swim_run net cs s1 = (hs1, s')"
    using Cons.prems by (auto split: prod.splits)
  then show ?case using Cons.IH [OF st(2)] step_keys [of net c s] by simp
qed simp

lemma node_knows_only_itself:
  assumes "swim_run net cs (snd (initialize_swim True now (new_swim cfg))) = (hs, s')"
    "n \<noteq> sc_node_id cfg" "\<not> sw_stuck s'" "sw_socket s'"
  shows "fst (send_ping net now' n s') = Returned (Inl (SwimNodeNotFound n))"
proof -
  have "fst ` set (sw_members s') = {sc_node_id cfg}"
    using run_keys [OF assms(1)] by (simp add: initialize_swim_def new_swim_def Let_def)
  then have "map_of (sw_members s') n = None"
    using assms(2) by (simp add: map_of_eq_None_iff)
  then show ?thesis
    using assms(3,4) by (simp add: send_ping_def send_to_member_def Let_def)
qed

section \<open>Properties\<close>

text \<open>C6. Failure detection freezes the protocol.  Take a protocol that has its socket and whose members are
  all alive, and any sequence of calls.  A call hangs exactly if it, or an earlier one, suspects a known
  member, confirms a death or leaves the cluster; so the first such call and everything after it,
  pings and reading the members included, never returns.  And whatever is called, no member is ever
  told that another is suspected or dead.\<close>

theorem failure_detection_freezes:
  "\<not> sw_stuck s \<Longrightarrow> sw_socket s \<Longrightarrow> all_alive s \<Longrightarrow> unannounced s \<Longrightarrow>
   (case swim_run net cs s of (hs, s') \<Rightarrow>
      length hs = length cs
      \<and> (\<forall>k < length cs. hs ! k \<longleftrightarrow> (\<exists>j \<le> k. detects (fst ` set (sw_members s)) (cs ! j)))
      \<and> unannounced s')"
proof -
  assume a: "\<not> sw_stuck s" "sw_socket s" "all_alive s" "unannounced s"
  obtain hs s' where "swim_run net cs s = (hs, s')" by fastforce
  then show ?thesis using run_alive [OF a(1-3)] a(4) by simp
qed

text \<open>The protocol of the test of the file: a node and a second member, which is suspected.\<close>

definition two_members :: swim where
  "two_members =
     (snd (initialize_swim True 0 (new_swim (default_swim_config\<lparr>sc_node_id := 1\<rparr>))))
       \<lparr>sw_members := [(1, new_member 0 1 ''127.0.0.1:0''), (2, new_member 0 2 ''127.0.0.1:9998'')]\<rparr>"

theorem failure_detection_freezes_witness:
  "case swim_run (\<lambda>a m. True) [CallPing 1 2, CallSuspect 2 2, CallCounts] two_members of
     (hs, s') \<Rightarrow> hs = [False, True, True] \<and> unannounced s'"
proof -
  let ?cs = "[CallPing 1 2, CallSuspect 2 2, CallCounts]"
  obtain hs s' where r: "swim_run (\<lambda>a m. True) ?cs two_members = (hs, s')" by fastforce
  have "\<not> sw_stuck two_members" "sw_socket two_members" "all_alive two_members" "unannounced two_members"
    "fst ` set (sw_members two_members) = {1, 2}"
    by (simp_all add: two_members_def initialize_swim_def new_swim_def default_swim_config_def new_member_def
        all_alive_def unannounced_def Let_def)
  then have hs: "length hs = 3" "\<forall>k < 3. hs ! k \<longleftrightarrow> (\<exists>j \<le> k. detects {1, 2} (?cs ! j))" "unannounced s'"
    using failure_detection_freezes [where s = two_members and cs = ?cs and net = "\<lambda>a m. True"] r by auto
  have "hs ! 0 = False" using hs(2) by simp
  moreover have "hs ! 1 = True" using hs(2) by (auto intro!: exI [of _ 1])
  moreover have "hs ! 2 = True" using hs(2) by (auto intro!: exI [of _ 1])
  ultimately have "hs = [False, True, True]"
    using hs(1) by (intro nth_equalityI) (auto simp: less_Suc_eq numeral_3_eq_3 numeral_2_eq_2)
  then show ?thesis using r hs(3) by simp
qed

end
