(* ===== verification/Oms_Replicator.thy ===== *)
theory Oms_Replicator
  imports Raft_Log
begin

text \<open>
  The replication of the order state over the log of \<open>Raft_Log\<close>: the replicator of
  \<open>crates/nexus_swarm/src/replication/oms_state_replicator.rs\<close> and the snapshots with which
  \<open>replication/log_compaction_snapshot.rs\<close> compacts the log.  The log, which the code shares, is a field of
  both; calls do not overlap.  Checksum and clock are arguments.
\<close>

section \<open>The replicator\<close>

record replica_state =
  om_orders :: "string \<rightharpoonup> u8 list"
  om_positions :: "string \<rightharpoonup> i64"
  om_pnl :: i64
  om_last_applied_index :: u64

definition default_replica_state :: replica_state where
  "default_replica_state = \<lparr>om_orders = Map.empty, om_positions = Map.empty, om_pnl = 0, om_last_applied_index = 0\<rparr>"

record replicator =
  rp_raft_log :: raft_log
  rp_local_state :: replica_state
  rp_node_id :: u64

definition new_replicator :: "raft_log \<Rightarrow> u64 \<Rightarrow> replicator" where
  "new_replicator l n = \<lparr>rp_raft_log = l, rp_local_state = default_replica_state, rp_node_id = n\<rparr>"

text \<open>A new entry has index 0, which \<open>append\<close> replaces, and term 1.\<close>

definition record_entry ::
  "(u8 list \<Rightarrow> u32) \<Rightarrow> u64 \<Rightarrow> log_entry_type \<Rightarrow> u8 list \<Rightarrow> replicator \<Rightarrow> panic + (consensus_error + u64) \<times> replicator"
where
  "record_entry crc now ty bytes r =
     (case append_entry crc (new_log_entry crc now 0 1 ty bytes) (rp_raft_log r) of
        Inl p \<Rightarrow> Inl p
      | Inr (result, l) \<Rightarrow> Inr (result, r\<lparr>rp_raft_log := l\<rparr>))"

definition record_order_submission where
  "record_order_submission crc now order_id order_data = record_entry crc now (OrderSubmission order_id) order_data"

definition record_order_cancellation where
  "record_order_cancellation crc now order_id = record_entry crc now (OrderCancellation order_id) []"

definition record_position_update where
  "record_position_update crc now sy delta =
     record_entry crc now (PositionUpdate sy delta) (le_bytes_i64 delta)"

definition record_pnl_update where
  "record_pnl_update crc now delta = record_entry crc now (PnLUpdate delta) (le_bytes_i64 delta)"

definition position_of :: "replica_state \<Rightarrow> string \<Rightarrow> i64" where
  "position_of s sy = (case om_positions s sy of None \<Rightarrow> 0 | Some q \<Rightarrow> q)"

definition apply_type :: "log_entry_type \<Rightarrow> u8 list \<Rightarrow> replica_state \<Rightarrow> replica_state" where
  "apply_type ty bytes s =
     (case ty of
        NoOp \<Rightarrow> s
      | OrderSubmission order_id \<Rightarrow> s\<lparr>om_orders := (om_orders s)(order_id \<mapsto> bytes)\<rparr>
      | OrderCancellation order_id \<Rightarrow> s\<lparr>om_orders := (om_orders s)(order_id := None)\<rparr>
      | PositionUpdate sy delta \<Rightarrow>
          s\<lparr>om_positions := (om_positions s)(sy \<mapsto> s64 (position_of s sy + delta))\<rparr>
      | PnLUpdate delta \<Rightarrow> s\<lparr>om_pnl := s64 (om_pnl s + delta)\<rparr>
      | StateSnapshot _ \<Rightarrow> s)"

definition apply_to_state :: "log_entry \<Rightarrow> replica_state \<Rightarrow> replica_state" where
  "apply_to_state e s = (apply_type (le_type e) (le_data e) s)\<lparr>om_last_applied_index := le_index e\<rparr>"

definition apply_entry :: "(u8 list \<Rightarrow> u32) \<Rightarrow> log_entry \<Rightarrow> replicator \<Rightarrow> (consensus_error + unit) \<times> replicator" where
  "apply_entry crc e r =
     (if \<not> verify_integrity crc e
      then (Inl (LogCorruption (le_index e) ''CRC32 verification failed on apply''), r)
      else (Inr (), r\<lparr>rp_local_state := apply_to_state e (rp_local_state r)\<rparr>))"

fun apply_indices ::
  "(u8 list \<Rightarrow> u32) \<Rightarrow> nat list \<Rightarrow> replicator \<Rightarrow> panic + (consensus_error + unit) \<times> replicator"
where
  "apply_indices crc [] r = Inr (Inr (), r)"
| "apply_indices crc (i # is) r =
     (case get_entry (of_nat i) (rp_raft_log r) of
        Inl p \<Rightarrow> Inl p
      | Inr None \<Rightarrow> apply_indices crc is r
      | Inr (Some e) \<Rightarrow>
          (case apply_entry crc e r of
             (Inl err, r') \<Rightarrow> Inr (Inl err, r')
           | (Inr _, r') \<Rightarrow> apply_indices crc is r'))"

definition apply_range ::
  "(u8 list \<Rightarrow> u32) \<Rightarrow> u64 \<Rightarrow> u64 \<Rightarrow> replicator \<Rightarrow> panic + (consensus_error + unit) \<times> replicator"
where
  "apply_range crc start stop r = apply_indices crc [unat start..<unat stop] r"

definition replica_order :: "string \<Rightarrow> replicator \<Rightarrow> u8 list option" where
  "replica_order order_id r = om_orders (rp_local_state r) order_id"

definition replica_position :: "string \<Rightarrow> replicator \<Rightarrow> i64" where
  "replica_position sy r = position_of (rp_local_state r) sy"

definition replicator_apply_snapshot :: "replica_state \<Rightarrow> replicator \<Rightarrow> replicator" where
  "replicator_apply_snapshot snapshot r = r\<lparr>rp_local_state := snapshot\<rparr>"

definition is_caught_up :: "replicator \<Rightarrow> bool" where
  "is_caught_up r \<longleftrightarrow> om_last_applied_index (rp_local_state r) \<ge> commit_index (rp_raft_log r)"

definition get_lag :: "replicator \<Rightarrow> u64" where
  "get_lag r = saturating_sub (commit_index (rp_raft_log r)) (om_last_applied_index (rp_local_state r))"

section \<open>What a replica computes\<close>

text \<open>The changes that a leader records, and the state they stand for.\<close>

datatype oms_change = Submit string "u8 list" | Cancel string | Move string i64 | Gain i64

fun record_change ::
  "(u8 list \<Rightarrow> u32) \<Rightarrow> u64 \<times> oms_change \<Rightarrow> replicator \<Rightarrow> panic + (consensus_error + u64) \<times> replicator"
where
  "record_change crc (now, Submit i bytes) r = record_order_submission crc now i bytes r"
| "record_change crc (now, Cancel i) r = record_order_cancellation crc now i r"
| "record_change crc (now, Move sy d) r = record_position_update crc now sy d r"
| "record_change crc (now, Gain d) r = record_pnl_update crc now d r"

fun record_changes :: "(u8 list \<Rightarrow> u32) \<Rightarrow> (u64 \<times> oms_change) list \<Rightarrow> replicator \<Rightarrow> panic + replicator" where
  "record_changes crc [] r = Inr r"
| "record_changes crc (c # cs) r =
     (case record_change crc c r of Inl p \<Rightarrow> Inl p | Inr (_, r') \<Rightarrow> record_changes crc cs r')"

fun change :: "oms_change \<Rightarrow> replica_state \<Rightarrow> replica_state" where
  "change (Submit i bytes) s = s\<lparr>om_orders := (om_orders s)(i \<mapsto> bytes)\<rparr>"
| "change (Cancel i) s = s\<lparr>om_orders := (om_orders s)(i := None)\<rparr>"
| "change (Move sy d) s = s\<lparr>om_positions := (om_positions s)(sy \<mapsto> s64 (position_of s sy + d))\<rparr>"
| "change (Gain d) s = s\<lparr>om_pnl := s64 (om_pnl s + d)\<rparr>"

text \<open>The entry of a change.\<close>

fun entry_of :: "(u8 list \<Rightarrow> u32) \<Rightarrow> u64 \<times> oms_change \<Rightarrow> log_entry" where
  "entry_of crc (now, Submit i bytes) = new_log_entry crc now 0 1 (OrderSubmission i) bytes"
| "entry_of crc (now, Cancel i) = new_log_entry crc now 0 1 (OrderCancellation i) []"
| "entry_of crc (now, Move sy d) = new_log_entry crc now 0 1 (PositionUpdate sy d) (le_bytes_i64 d)"
| "entry_of crc (now, Gain d) = new_log_entry crc now 0 1 (PnLUpdate d) (le_bytes_i64 d)"

lemma entry_of_intact [simp]: "verify_integrity crc (entry_of crc c)"
  by (cases "(crc, c)" rule: entry_of.cases) (simp_all add: verify_integrity_def new_log_entry_def)

lemma record_change_entry:
  "record_change crc c r =
     (case append_entry crc (entry_of crc c) (rp_raft_log r) of
        Inl p \<Rightarrow> Inl p
      | Inr (result, l) \<Rightarrow> Inr (result, r\<lparr>rp_raft_log := l\<rparr>))"
  by (cases "(crc, c)" rule: entry_of.cases)
    (simp_all add: record_order_submission_def record_order_cancellation_def record_position_update_def
      record_pnl_update_def record_entry_def)

lemma record_changes_appends:
  "record_changes crc cs r = map_sum id (\<lambda>l. r\<lparr>rp_raft_log := l\<rparr>) (append_all crc (map (entry_of crc) cs) (rp_raft_log r))"
proof (induction cs arbitrary: r)
  case (Cons c cs)
  show ?case
  proof (cases "append_entry crc (entry_of crc c) (rp_raft_log r)")
    case (Inl p)
    then show ?thesis by (simp add: record_change_entry)
  next
    case (Inr x)
    then show ?thesis
      using Cons.IH by (cases x) (simp add: record_change_entry)
  qed
qed simp

lemma apply_to_state_entry:
  "apply_to_state ((entry_of crc c)\<lparr>le_index := i\<rparr>) s = (change (snd c) s)\<lparr>om_last_applied_index := i\<rparr>"
  by (cases "(crc, c)" rule: entry_of.cases)
    (simp_all add: apply_to_state_def new_log_entry_def apply_type_def)

lemma change_index:
  "change c (s\<lparr>om_last_applied_index := i\<rparr>) = (change c s)\<lparr>om_last_applied_index := i\<rparr>"
  by (cases c) (simp_all add: position_of_def)

lemma fold_change_index:
  "fold change cs (s\<lparr>om_last_applied_index := i\<rparr>) = (fold change cs s)\<lparr>om_last_applied_index := i\<rparr>"
  by (induction cs arbitrary: s) (simp_all add: change_index)

text \<open>Which entries a replica applies: for every index the last entry of its slot.\<close>

lemma apply_indices_holds:
  assumes "log_holds (map (entry_of crc) cs) l" "length cs < 2 ^ 64"
  shows "\<forall>i \<in> set is. i < length cs \<Longrightarrow> rp_raft_log r = l \<Longrightarrow>
    apply_indices crc is r = Inr (Inr (), r\<lparr>rp_local_state :=
      fold (\<lambda>i s. (change (snd (cs ! last_in_slot (buffer_size l) (length cs) i)) s)
              \<lparr>om_last_applied_index := of_nat (last_in_slot (buffer_size l) (length cs) i)\<rparr>)
        is (rp_local_state r)\<rparr>)"
proof (induction "is" arbitrary: r)
  case (Cons i "is")
  define j where "j = last_in_slot (buffer_size l) (length cs) i"
  have n: "0 < buffer_size l" using assms(1) by (simp add: log_holds_def)
  have i: "i < length cs" using Cons.prems(1) by simp
  have j: "j < length cs" unfolding j_def by (rule last_in_slot_props(1) [OF i n])
  have "get_entry (of_nat i) l = Inr (Some ((entry_of crc (cs ! j))\<lparr>le_index := of_nat j\<rparr>))"
    using get_entry_holds [OF assms(1), of i] i assms(2) j by (simp add: stored_def j_def)
  moreover have "verify_integrity crc ((entry_of crc (cs ! j))\<lparr>le_index := of_nat j\<rparr>)"
    using entry_of_intact [of crc "cs ! j"] by (simp add: verify_integrity_def)
  ultimately show ?case
    using Cons.IH [of "r\<lparr>rp_local_state :=
        (change (snd (cs ! j)) (rp_local_state r))\<lparr>om_last_applied_index := of_nat j\<rparr>\<rparr>"] Cons.prems
    by (simp add: apply_entry_def apply_to_state_entry j_def)
qed simp

lemma fold_change_slots:
  "is \<noteq> [] \<Longrightarrow>
   fold (\<lambda>i s. (change (f i) s)\<lparr>om_last_applied_index := g i\<rparr>) is s
     = (fold change (map f is) s)\<lparr>om_last_applied_index := g (last is)\<rparr>"
proof (induction "is" arbitrary: s)
  case (Cons i "is")
  show ?case
  proof (cases "is = []")
    case False
    then show ?thesis by (simp add: Cons.IH fold_change_index)
  qed simp
qed simp

lemma append_all_commit_index: "append_all crc es l = Inr l' \<Longrightarrow> commit_index l' = commit_index l"
proof (induction es arbitrary: l)
  case (Cons e es)
  then obtain r l1 where "append_entry crc e l = Inr (r, l1)" "append_all crc es l1 = Inr l'"
    by (auto split: sum.splits)
  moreover have "commit_index l1 = commit_index l"
    using \<open>append_entry crc e l = Inr (r, l1)\<close> by (auto simp: append_entry_def Let_def split: if_splits)
  ultimately show ?case using Cons.IH by simp
qed simp

text \<open>A log to which the changes were recorded, and its commit.\<close>

lemma record_changes_from_empty:
  assumes "log_holds [] l" "length cs < 2 ^ 64"
  shows "\<exists>l'. record_changes crc cs (new_replicator l n) = Inr (new_replicator l' n)
    \<and> log_holds (map (entry_of crc) cs) l' \<and> commit_index l' = commit_index l \<and> buffer_size l' = buffer_size l"
proof -
  let ?es = "map (entry_of crc) cs"
  have "\<forall>e \<in> set ?es. verify_integrity crc e" by simp
  then obtain l' where l': "append_all crc ?es l = Inr l'" "log_holds ?es l'" "buffer_size l' = buffer_size l"
    using append_all_holds [OF assms(1), of ?es crc] assms(2) by auto
  moreover have "commit_index l' = commit_index l"
    using l'(1) by (rule append_all_commit_index)
  ultimately show ?thesis
    by (intro exI [of _ l']) (simp add: record_changes_appends new_replicator_def)
qed

lemma record_changes_log:
  assumes "0 < max_log_entries_before_compaction c" "length cs < 2 ^ 64"
  shows "\<exists>l. record_changes crc cs (new_replicator (new_raft_log c) n) = Inr (new_replicator l n)
    \<and> log_holds (map (entry_of crc) cs) l \<and> commit_index l = 0
    \<and> buffer_size l = min (max_log_entries_before_compaction c) MAX_LOG_ENTRIES"
  using record_changes_from_empty [OF log_holds_new [OF assms(1)] assms(2), of crc n]
  by (auto simp: new_raft_log_def Let_def)

lemma commit_all_recorded:
  assumes "log_holds (map (entry_of crc) cs) l" "commit_index l = 0" "length cs < 2 ^ 64"
  shows "commit_log crc (of_nat (length cs)) l = Inr (Inr (), l\<lparr>commit_index := of_nat (length cs)\<rparr>)"
proof (cases "length cs = 0")
  case True
  then show ?thesis using assms(2) by (simp add: commit_log_def)
next
  case False
  have u: "unat (of_nat (length cs) :: u64) = length cs"
    using assms(3) by (simp add: unsigned_of_nat take_bit_nat_eq_self)
  then have "\<not> (of_nat (length cs) :: u64) \<le> 0" using False by (simp add: word_le_nat_alt)
  moreover have "commit_check crc l [0..<length cs] = Inr (Inr ())"
    using commit_check_holds(1) [OF assms(1), of crc "[0..<length cs]"] by simp
  ultimately show ?thesis using assms(2) u by (simp add: commit_log_def)
qed

lemma log_holds_commit [simp]: "log_holds es (l\<lparr>commit_index := i\<rparr>) = log_holds es l"
  by (simp add: log_holds_def)

text \<open>What a replica has computed when it has applied the whole log.\<close>

lemma apply_whole_log:
  assumes "log_holds (map (entry_of crc) cs) l" "length cs < 2 ^ 64" "cs \<noteq> []"
  shows "apply_range crc 0 (of_nat (length cs)) (new_replicator l n) = Inr (Inr (), new_replicator l n\<lparr>rp_local_state :=
    (fold change (map (\<lambda>i. snd (cs ! last_in_slot (buffer_size l) (length cs) i)) [0..<length cs]) default_replica_state)
      \<lparr>om_last_applied_index := of_nat (length cs - 1)\<rparr>\<rparr>)"
proof -
  let ?m = "length cs"
  have n: "0 < buffer_size l" using assms(1) by (simp add: log_holds_def)
  have "last_in_slot (buffer_size l) ?m (?m - 1) = ?m - 1"
    using last_in_slot_props(5) [of "?m - 1" ?m "buffer_size l"] n assms(3) by simp
  moreover have "unat (of_nat ?m :: u64) = ?m"
    using assms(2) by (simp add: unsigned_of_nat take_bit_nat_eq_self)
  ultimately show ?thesis
    using assms(3) apply_indices_holds [OF assms(1,2), of "[0..<?m]" "new_replicator l n"]
    by (simp add: apply_range_def fold_change_slots new_replicator_def del: upt_Suc)
qed

section \<open>Compaction\<close>

text \<open>
  \<open>listed\<close> and \<open>positions_listed\<close> list the entries of a hash map in the order in which it yields them.
\<close>

record state_snapshot =
  sn_index :: u64
  sn_term :: u64
  sn_timestamp_ns :: u64
  sn_oms_state :: replica_state
  sn_crc32 :: u32

definition string_bytes :: "string \<Rightarrow> u8 list" where
  "string_bytes s = map (\<lambda>c. of_char c) s"

definition snapshot_bytes ::
  "((string \<rightharpoonup> u8 list) \<Rightarrow> (string \<times> u8 list) list) \<Rightarrow> ((string \<rightharpoonup> i64) \<Rightarrow> (string \<times> i64) list)
     \<Rightarrow> u64 \<Rightarrow> u64 \<Rightarrow> replica_state \<Rightarrow> u8 list"
where
  "snapshot_bytes listed positions_listed i trm s =
     le_bytes_64 i @ le_bytes_64 trm @ le_bytes_i64 (om_pnl s)
       @ concat (map (\<lambda>(k, v). string_bytes k @ v) (listed (om_orders s)))
       @ concat (map (\<lambda>(k, v). string_bytes k @ le_bytes_i64 v) (positions_listed (om_positions s)))"

definition new_state_snapshot where
  "new_state_snapshot crc listed positions_listed now i trm s =
     \<lparr>sn_index = i, sn_term = trm, sn_timestamp_ns = now, sn_oms_state = s,
      sn_crc32 = crc (snapshot_bytes listed positions_listed i trm s)\<rparr>"

definition snapshot_intact where
  "snapshot_intact crc listed positions_listed sn \<longleftrightarrow>
     sn_crc32 sn = crc (snapshot_bytes listed positions_listed (sn_index sn) (sn_term sn) (sn_oms_state sn))"

text \<open>Of the configuration the compaction reads the two thresholds.\<close>

record compactor =
  cp_raft_log :: raft_log
  cp_max_log_entries :: nat
  cp_snapshot_interval_ms :: nat
  cp_last_snapshot_index :: u64
  cp_last_snapshot_time :: "nat option"
  cp_pending_snapshot :: "state_snapshot option"

definition new_compactor :: "raft_log \<Rightarrow> nat \<Rightarrow> nat \<Rightarrow> compactor" where
  "new_compactor l entries interval =
     \<lparr>cp_raft_log = l, cp_max_log_entries = entries, cp_snapshot_interval_ms = interval,
      cp_last_snapshot_index = 0, cp_last_snapshot_time = None, cp_pending_snapshot = None\<rparr>"

definition compaction_needed :: "nat \<Rightarrow> compactor \<Rightarrow> bool" where
  "compaction_needed now_ms k \<longleftrightarrow>
     (if needs_compaction (cp_max_log_entries k) (cp_raft_log k) then True
      else case cp_last_snapshot_time k of
             None \<Rightarrow> False
           | Some last_time \<Rightarrow> now_ms - last_time \<ge> cp_snapshot_interval_ms k)"

definition create_snapshot where
  "create_snapshot crc listed positions_listed now s k =
     (let commit = commit_index (cp_raft_log k) in
      case get_term_at commit (cp_raft_log k) of
        Inl p \<Rightarrow> Inl p
      | Inr found \<Rightarrow>
          let trm = (case found of None \<Rightarrow> 0 | Some t \<Rightarrow> t);
              snapshot = new_state_snapshot crc listed positions_listed now commit trm s in
          if \<not> snapshot_intact crc listed positions_listed snapshot
          then Inr (Inl (LogCorruption commit ''Snapshot CRC verification failed''))
          else Inr (Inr snapshot))"

definition apply_snapshot where
  "apply_snapshot crc listed positions_listed now_ms snapshot k =
     (if \<not> snapshot_intact crc listed positions_listed snapshot
      then Inr (Inl (LogCorruption (sn_index snapshot) ''Snapshot integrity check failed''), k)
      else
        case truncate_before (sn_index snapshot) (cp_raft_log k) of
          Inl p \<Rightarrow> Inl p
        | Inr l \<Rightarrow>
            Inr (Inr (), k\<lparr>cp_raft_log := l, cp_last_snapshot_index := sn_index snapshot,
                           cp_last_snapshot_time := Some now_ms\<rparr>))"

definition compact_up_to where
  "compact_up_to crc listed positions_listed now now_ms i s k =
     (if i > commit_index (cp_raft_log k)
      then Inr (Inl (LogCorruption i ''Cannot compact beyond commit index''), k)
      else apply_snapshot crc listed positions_listed now_ms
             (new_state_snapshot crc listed positions_listed now i 0 s) k)"

text \<open>One turn of the background loop; errors are only logged.\<close>

definition compaction_turn where
  "compaction_turn crc listed positions_listed now now_ms s k =
     (if compaction_needed now_ms k then
        (case create_snapshot crc listed positions_listed now s k of
           Inl p \<Rightarrow> Inl p
         | Inr (Inl e) \<Rightarrow> Inr k
         | Inr (Inr snapshot) \<Rightarrow>
             map_sum id snd (apply_snapshot crc listed positions_listed now_ms snapshot k))
      else Inr k)"

subsection \<open>A complete truncation\<close>

lemma clear_slots_result:
  "0 < buffer_size l \<Longrightarrow>
   clear_slots is l = Inr (l\<lparr>log_slots := fold (\<lambda>i xs. xs[i mod buffer_size l := None]) is (log_slots l)\<rparr>)"
  by (induction "is" arbitrary: l) simp_all

lemma fold_clear:
  "length (fold (\<lambda>i xs. xs[i mod n := None]) is xs) = length xs"
  "k < length xs \<Longrightarrow> fold (\<lambda>i xs. xs[i mod n := None]) is xs ! k =
     (if \<exists>i \<in> set is. i mod n = k then None else xs ! k)"
  by (induction "is" arbitrary: xs) (auto simp: nth_list_update)

lemma truncate_everything:
  assumes "log_holds es l" "length es < 2 ^ 64" "of_nat (length es) \<le> i"
  shows "\<exists>l'. truncate_before i l = Inr l' \<and> log_holds [] l' \<and> commit_index l' = 0 \<and> buffer_size l' = buffer_size l"
proof -
  define xs where "xs = fold (\<lambda>i xs. xs[i mod buffer_size l := None]) [0..<length es] (log_slots l)"
  have n: "0 < buffer_size l" "length (log_slots l) = buffer_size l" "total_entries_written l = of_nat (length es)"
    using assms(1) by (simp_all add: log_holds_def)
  have u: "unat (of_nat (length es) :: u64) = length es"
    using assms(2) by (simp add: unsigned_of_nat take_bit_nat_eq_self)
  have "xs ! k = None" if k: "k < buffer_size l" for k
  proof (cases "k < length es")
    case True
    then have "\<exists>i \<in> set [0..<length es]. i mod buffer_size l = k"
      using k by (intro bexI [of _ k]) simp_all
    then show ?thesis using fold_clear(2) [of k "log_slots l"] k n(2) by (simp add: xs_def)
  next
    case False
    then have "log_slots l ! k = None" using assms(1) k by (simp add: log_holds_def)
    then show ?thesis using fold_clear(2) [of k "log_slots l"] k n(2) by (simp add: xs_def)
  qed
  moreover have "length xs = buffer_size l" by (simp add: xs_def fold_clear(1) n(2))
  moreover have "truncate_before i l = Inr (l\<lparr>log_slots := xs, write_index := 0, total_entries_written := 0,
      commit_index := 0, last_applied := 0\<rparr>)"
    using assms(3) n u by (simp add: truncate_before_def Let_def clear_slots_result xs_def min_def)
  ultimately show ?thesis
    using n by (simp add: log_holds_def)
qed

text \<open>A truncation that is not complete leaves the counter that calls for the next one.\<close>

lemma partial_truncation_keeps_total:
  assumes "i < total_entries_written l" "truncate_before i l = Inr l'"
  shows "needs_compaction threshold l' = needs_compaction threshold l"
proof -
  have clear: "clear_slots ks l2 = Inr l1 \<Longrightarrow> total_entries_written l1 = total_entries_written l2" for ks l1 l2
    by (induction ks arbitrary: l2) (auto split: if_splits)
  have "\<not> i \<ge> total_entries_written l" using assms(1) by simp
  then have "clear_slots [0..<unat (min i (total_entries_written l))] l = Inr l'"
    using assms(2) by (simp add: truncate_before_def Let_def split: sum.splits)
  then show ?thesis using clear by (simp add: needs_compaction_def)
qed

text \<open>The checksum covers the data of an entry and neither its type nor its amounts.\<close>

lemma altered_type_still_intact: "verify_integrity crc (e\<lparr>le_type := ty\<rparr>) = verify_integrity crc e"
  by (simp add: verify_integrity_def)

text \<open>Changes that nobody commits are not applied, as in the tests of the file.\<close>

lemma uncommitted_not_applied:
  assumes "0 < max_log_entries_before_compaction c" "length cs < 2 ^ 64"
    "record_changes crc cs (new_replicator (new_raft_log c) n) = Inr r"
  shows "apply_range crc 0 (commit_index (rp_raft_log r)) r = Inr (Inr (), r)"
  using record_changes_log [OF assms(1,2), of crc n] assms(3)
  by (auto simp: apply_range_def new_replicator_def)

text \<open>Indices that the log does not have are skipped.\<close>

lemma apply_indices_beyond:
  "\<forall>i \<in> set is. total_entries_written (rp_raft_log r) \<le> of_nat i \<Longrightarrow> apply_indices crc is r = Inr (Inr (), r)"
  by (induction "is") (simp_all add: get_entry_def)

lemma compact_up_to_everything:
  assumes "log_holds es l" "length es < 2 ^ 64" "commit_index l = of_nat (length es)"
  shows "\<exists>k. compact_up_to crc listed positions_listed now now_ms (of_nat (length es)) s (new_compactor l entries interval)
      = Inr (Inr (), k) \<and> log_holds [] (cp_raft_log k) \<and> commit_index (cp_raft_log k) = 0"
proof -
  obtain l' where "truncate_before (of_nat (length es)) l = Inr l'" "log_holds [] l'" "commit_index l' = 0"
    using truncate_everything [OF assms(1,2) order_refl] by blast
  then show ?thesis
    using assms(3)
    by (simp add: compact_up_to_def apply_snapshot_def new_state_snapshot_def snapshot_intact_def new_compactor_def)
qed

section \<open>Properties\<close>

text \<open>C15. What a replica computes from the log.  After any changes have been recorded to a new log and
  committed, a replica that applies the whole log holds, in order, for every index the last change that
  went to the slot of that index.  This is the state that the changes stand for as long as they
  fit the ring; beyond that old changes are lost and new ones applied again.  In either case the
  replica is not taken for caught up: its lag is 1, as the last index is one less than the commit.\<close>

theorem replica_replays_log:
  "0 < max_log_entries_before_compaction c \<Longrightarrow> length cs < 2 ^ 64 \<Longrightarrow> cs \<noteq> [] \<Longrightarrow>
   \<exists>r l r'. record_changes crc cs (new_replicator (new_raft_log c) n) = Inr r
     \<and> commit_log crc (of_nat (length cs)) (rp_raft_log r) = Inr (Inr (), l)
     \<and> buffer_size l = min (max_log_entries_before_compaction c) MAX_LOG_ENTRIES
     \<and> apply_range crc 0 (of_nat (length cs)) (r\<lparr>rp_raft_log := l\<rparr>) = Inr (Inr (), r')
     \<and> rp_local_state r' =
         (fold change (map (\<lambda>i. snd (cs ! last_in_slot (buffer_size l) (length cs) i)) [0..<length cs]) default_replica_state)
           \<lparr>om_last_applied_index := of_nat (length cs - 1)\<rparr>
     \<and> (length cs \<le> buffer_size l \<longrightarrow> rp_local_state r' =
         (fold change (map snd cs) default_replica_state)\<lparr>om_last_applied_index := of_nat (length cs - 1)\<rparr>)
     \<and> \<not> is_caught_up r' \<and> get_lag r' = 1"
proof -
  assume c: "0 < max_log_entries_before_compaction c" and m: "length cs < 2 ^ 64" and ne: "cs \<noteq> []"
  obtain l0 where l0: "record_changes crc cs (new_replicator (new_raft_log c) n) = Inr (new_replicator l0 n)"
      "log_holds (map (entry_of crc) cs) l0" "commit_index l0 = 0"
      "buffer_size l0 = min (max_log_entries_before_compaction c) MAX_LOG_ENTRIES"
    using record_changes_log [OF c m] by blast
  define l where "l = l0\<lparr>commit_index := of_nat (length cs)\<rparr>"
  have l: "log_holds (map (entry_of crc) cs) l" "0 < buffer_size l" "commit_index l = of_nat (length cs)"
    using l0(2) by (simp_all add: l_def log_holds_def)
  have log: "new_replicator l0 n\<lparr>rp_raft_log := l\<rparr> = new_replicator l n"
    by (simp add: new_replicator_def)
  have "map (\<lambda>i. snd (cs ! last_in_slot (buffer_size l) (length cs) i)) [0..<length cs] = map snd cs"
    if "length cs \<le> buffer_size l"
  proof (rule nth_equalityI)
    fix i assume "i < length (map (\<lambda>i. snd (cs ! last_in_slot (buffer_size l) (length cs) i)) [0..<length cs])"
    then show "map (\<lambda>i. snd (cs ! last_in_slot (buffer_size l) (length cs) i)) [0..<length cs] ! i = map snd cs ! i"
      using last_in_slot_props(5) [of i "length cs" "buffer_size l"] that l(2) by simp
  qed simp
  then have fits: "length cs \<le> buffer_size l \<Longrightarrow>
      fold change (map (\<lambda>i. snd (cs ! last_in_slot (buffer_size l) (length cs) i)) [0..<length cs]) s = fold change (map snd cs) s"
    for s by simp
  obtain k where k: "length cs = Suc k" using ne by (cases cs) auto
  define lst :: u64 where "lst = of_nat (length cs - 1)"
  have "unat (of_nat k :: u64) = k" "unat (of_nat (Suc k) :: u64) = Suc k"
    using m k by (simp_all add: unsigned_of_nat take_bit_nat_eq_self del: of_nat_Suc)
  then have lag: "\<not> of_nat (length cs) \<le> lst" "of_nat (length cs) - lst = 1"
    unfolding lst_def k diff_Suc_1 word_le_nat_alt by simp_all
  define st where "st = (fold change (map (\<lambda>i. snd (cs ! last_in_slot (buffer_size l) (length cs) i)) [0..<length cs])
      default_replica_state)\<lparr>om_last_applied_index := lst\<rparr>"
  have "buffer_size l = min (max_log_entries_before_compaction c) MAX_LOG_ENTRIES"
    using l0(4) by (simp add: l_def)
  moreover have "\<not> is_caught_up (new_replicator l n\<lparr>rp_local_state := st\<rparr>)" "get_lag (new_replicator l n\<lparr>rp_local_state := st\<rparr>) = 1"
    using lag l(3) by (simp_all add: is_caught_up_def get_lag_def saturating_sub_def new_replicator_def st_def)
  moreover have "rp_raft_log (new_replicator l0 n) = l0" "rp_local_state (new_replicator l n\<lparr>rp_local_state := st\<rparr>) = st"
    by (simp_all add: new_replicator_def)
  ultimately show ?thesis
    using l0(1) commit_all_recorded [OF l0(2,3) m] apply_whole_log [OF l(1) m ne, of n] fits log
    unfolding l_def [symmetric] lst_def [symmetric] st_def [symmetric]
    by (intro exI [of _ "new_replicator l0 n"] exI [of _ l] exI [of _ "new_replicator l n\<lparr>rp_local_state := st\<rparr>"])
      (simp add: st_def)
qed

text \<open>Three profits, 1, 2 and 4, in a ring of two entries: the replica computes 10 instead of 7.\<close>

theorem replica_replays_log_witness:
  "\<exists>l r'. apply_range (\<lambda>_. 7) 0 3 (new_replicator l 1) = Inr (Inr (), r') \<and> om_pnl (rp_local_state r') = 10
     \<and> get_lag r' = 1"
proof -
  let ?cs = "[(0, Gain 1), (0, Gain 2), (0, Gain 4)] :: (u64 \<times> oms_change) list"
  have h: "0 < max_log_entries_before_compaction (log_config 2)" "length ?cs < 2 ^ 64" "?cs \<noteq> []"
    "min (max_log_entries_before_compaction (log_config 2)) MAX_LOG_ENTRIES = 2"
    by (simp_all add: log_config_def MAX_LOG_ENTRIES_def)
  obtain r l r' where x: "record_changes (\<lambda>_. 7) ?cs (new_replicator (new_raft_log (log_config 2)) 1) = Inr r"
      "apply_range (\<lambda>_. 7) 0 (of_nat (length ?cs)) (r\<lparr>rp_raft_log := l\<rparr>) = Inr (Inr (), r')" "buffer_size l = 2"
      "rp_local_state r' = (fold change (map (\<lambda>i. snd (?cs ! last_in_slot (buffer_size l) (length ?cs) i))
          [0..<length ?cs]) default_replica_state)\<lparr>om_last_applied_index := of_nat (length ?cs - 1)\<rparr>" "get_lag r' = 1"
    using replica_replays_log [OF h(1-3), of "\<lambda>_. 7" 1] unfolding h(4) by blast
  obtain l0 where "r = new_replicator l0 1"
    using record_changes_log [OF h(1,2), of "\<lambda>_. 7" 1] x(1) by auto
  then have "apply_range (\<lambda>_. 7) 0 3 (new_replicator l 1) = Inr (Inr (), r')"
    using x(2) by (simp add: new_replicator_def)
  moreover have "om_pnl (rp_local_state r') = 10"
    using x(3,4) by (simp add: upt_rec last_in_slot_def default_replica_state_def s64_def)
  ultimately show ?thesis using x(5) by blast
qed

text \<open>Compaction hides changes.  A replica has applied everything that was recorded and committed;
  then the leader compacts the log up to its commit, and records and commits new changes, none of which
  the replica has applied.  On this log the replica is taken for caught up exactly if the new changes are
  fewer than those before the compaction; in that case its lag is 0, and applying the log from where it
  stopped reads nothing and changes nothing.\<close>

lemma compaction_hides_changes:
  "0 < max_log_entries_before_compaction c \<Longrightarrow> length cs < 2 ^ 64 \<Longrightarrow> length ds < 2 ^ 64 \<Longrightarrow> cs \<noteq> [] \<Longrightarrow>
   \<exists>l r k e2 l2. record_changes crc cs (new_replicator (new_raft_log c) n) = Inr (new_replicator l n)
     \<and> apply_range crc 0 (of_nat (length cs)) (new_replicator l n) = Inr (Inr (), r)
     \<and> compact_up_to crc listed positions_listed now now_ms (of_nat (length cs)) s
         (new_compactor (l\<lparr>commit_index := of_nat (length cs)\<rparr>) entries interval) = Inr (Inr (), k)
     \<and> record_changes crc ds (new_replicator (cp_raft_log k) n) = Inr (new_replicator e2 n)
     \<and> commit_log crc (of_nat (length ds)) e2 = Inr (Inr (), l2)
     \<and> (is_caught_up (r\<lparr>rp_raft_log := l2\<rparr>) \<longleftrightarrow> length ds < length cs)
     \<and> (length ds < length cs \<longrightarrow> get_lag (r\<lparr>rp_raft_log := l2\<rparr>) = 0
          \<and> (\<forall>stop. apply_range crc (of_nat (length cs)) stop (r\<lparr>rp_raft_log := l2\<rparr>) = Inr (Inr (), r\<lparr>rp_raft_log := l2\<rparr>)))"
proof -
  assume c: "0 < max_log_entries_before_compaction c" and m: "length cs < 2 ^ 64"
    and d: "length ds < 2 ^ 64" and ne: "cs \<noteq> []"
  obtain l where l: "record_changes crc cs (new_replicator (new_raft_log c) n) = Inr (new_replicator l n)"
      "log_holds (map (entry_of crc) cs) l"
    using record_changes_log [OF c m] by blast
  obtain r where r: "apply_range crc 0 (of_nat (length cs)) (new_replicator l n) = Inr (Inr (), r)"
      "om_last_applied_index (rp_local_state r) = of_nat (length cs - 1)"
    using apply_whole_log [OF l(2) m ne, of n] by simp
  obtain k where k: "compact_up_to crc listed positions_listed now now_ms (of_nat (length cs)) s
        (new_compactor (l\<lparr>commit_index := of_nat (length cs)\<rparr>) entries interval) = Inr (Inr (), k)"
      "log_holds [] (cp_raft_log k)" "commit_index (cp_raft_log k) = 0"
    using compact_up_to_everything [where es = "map (entry_of crc) cs" and l = "l\<lparr>commit_index := of_nat (length cs)\<rparr>"
        and crc = crc and listed = listed and positions_listed = positions_listed and now = now and now_ms = now_ms
        and s = s and entries = entries and interval = interval] l(2) m
    by auto
  obtain e2 where e2: "record_changes crc ds (new_replicator (cp_raft_log k) n) = Inr (new_replicator e2 n)"
      "log_holds (map (entry_of crc) ds) e2" "commit_index e2 = 0"
    using record_changes_from_empty [OF k(2) d] k(3) by metis
  define l2 where "l2 = e2\<lparr>commit_index := of_nat (length ds)\<rparr>"
  have u: "unat (of_nat j :: u64) = j" if "j < 2 ^ 64" for j
    using that by (simp add: unsigned_of_nat take_bit_nat_eq_self)
  have "(of_nat (length ds) :: u64) \<le> of_nat (length cs - 1) \<longleftrightarrow> length ds < length cs"
    using u [of "length ds"] u [of "length cs - 1"] m d ne length_greater_0_conv [of cs]
    by (simp add: word_le_nat_alt) (simp add: less_eq_Suc_le [symmetric] Suc_le_eq le_diff_conv2)
  then have caught: "is_caught_up (r\<lparr>rp_raft_log := l2\<rparr>) \<longleftrightarrow> length ds < length cs"
    "length ds < length cs \<Longrightarrow> get_lag (r\<lparr>rp_raft_log := l2\<rparr>) = 0"
    using r(2) by (auto simp: is_caught_up_def get_lag_def saturating_sub_def l2_def)
  have "apply_range crc (of_nat (length cs)) stop (r\<lparr>rp_raft_log := l2\<rparr>) = Inr (Inr (), r\<lparr>rp_raft_log := l2\<rparr>)"
    if ds: "length ds < length cs" for stop
    unfolding apply_range_def
  proof (rule apply_indices_beyond, rule ballI)
    fix i assume "i \<in> set [unat (of_nat (length cs) :: u64)..<unat stop]"
    then have "length cs \<le> i" "i < 2 ^ 64"
      using u [OF m] unat_lt_2p [of stop] by auto
    then show "total_entries_written (rp_raft_log (r\<lparr>rp_raft_log := l2\<rparr>)) \<le> of_nat i"
      using e2(2) ds u [of i] u [OF d] by (simp add: l2_def log_holds_def word_le_nat_alt)
  qed
  then show ?thesis
    using l(1) r(1) k(1) e2(1) commit_all_recorded [OF e2(2,3) d] caught unfolding l2_def [symmetric] by blast
qed

lemma compaction_hides_changes_example:
  "\<exists>r l2. is_caught_up (r\<lparr>rp_raft_log := l2\<rparr>) \<and> get_lag (r\<lparr>rp_raft_log := l2\<rparr>) = 0 \<and>
     (\<exists>e2. commit_log (\<lambda>_. 7) 1 e2 = Inr (Inr (), l2)) \<and>
     apply_range (\<lambda>_. 7) 2 9 (r\<lparr>rp_raft_log := l2\<rparr>) = Inr (Inr (), r\<lparr>rp_raft_log := l2\<rparr>)"
proof -
  have h: "0 < max_log_entries_before_compaction (log_config 2)"
    "length [(0, Gain 1), (0, Gain 2) :: u64 \<times> oms_change] < 2 ^ 64"
    "length [(0, Gain 4) :: u64 \<times> oms_change] < 2 ^ 64" "[(0, Gain 1), (0, Gain 2) :: u64 \<times> oms_change] \<noteq> []"
    by (simp_all add: log_config_def)
  show ?thesis
    using compaction_hides_changes [OF h, of "\<lambda>_. 7" 1 "\<lambda>_. []" "\<lambda>_. []" 0 0 default_replica_state 2 1000]
    by fastforce
qed

end
