(* ===== verification/Fencing.thy ===== *)
theory Fencing
  imports Swarm_Engine
begin

text \<open>
  Fencing of a previous leader, \<open>crates/nexus_swarm/src/fencing\<close>: what the executor (\<open>Fence_Executor\<close>)
  means for the engine, the quorum witness (\<open>quorum_witness.rs\<close>), the termination protocol
  (\<open>kamikaze_protocol.rs\<close>) and the manager of hardware fencing (\<open>stonith_ipmi_redfish.rs\<close>).  What a
  witness answers to an HTTP request is an argument, a function of its URL, and so are the clock
  readings.
\<close>

section \<open>The quorum witness\<close>

datatype witness_state = WitnessHealthy | WitnessDegraded | WitnessUnreachable

record quorum_witness =
  qw_witness_urls :: "string list"
  qw_current_term :: u64
  qw_known_leader :: u64
  qw_is_healthy :: bool
  qw_last_successful_contact :: u64

definition new_quorum_witness :: "string list \<Rightarrow> quorum_witness" where
  "new_quorum_witness urls =
     \<lparr>qw_witness_urls = urls, qw_current_term = 0, qw_known_leader = 0, qw_is_healthy = False,
      qw_last_successful_contact = 0\<rparr>"

text \<open>\<open>yes_from url\<close>: the witness answered and granted; any error counts as not granted.\<close>

definition check_quorum :: "(string \<Rightarrow> bool) \<Rightarrow> u64 \<Rightarrow> quorum_witness \<Rightarrow> bool \<times> quorum_witness" where
  "check_quorum yes_from now q =
     (let success_count = length (filter yes_from (qw_witness_urls q));
          required = length (qw_witness_urls q) div 2 + 1;
          has_quorum = success_count \<ge> required in
      (has_quorum,
       if has_quorum then q\<lparr>qw_is_healthy := True, qw_last_successful_contact := now\<rparr> else q))"

definition report_leader :: "u64 \<Rightarrow> u64 \<Rightarrow> quorum_witness \<Rightarrow> quorum_witness" where
  "report_leader leader_id trm q = q\<lparr>qw_current_term := trm, qw_known_leader := leader_id\<rparr>"

definition get_health :: "u64 \<Rightarrow> quorum_witness \<Rightarrow> witness_state" where
  "get_health now q =
     (let elapsed_ms = saturating_sub now (qw_last_successful_contact q) in
      if \<not> qw_is_healthy q then WitnessUnreachable
      else if elapsed_ms > 5000 then WitnessDegraded
      else WitnessHealthy)"

definition get_known_leader :: "quorum_witness \<Rightarrow> u64 option" where
  "get_known_leader q = (if qw_known_leader q = 0 then None else Some (qw_known_leader q))"

text \<open>The URLs that grant, when there are enough of them, are a quorum.\<close>

definition url_quorum :: "string list \<Rightarrow> string set \<Rightarrow> bool" where
  "url_quorum urls A \<longleftrightarrow> A \<subseteq> set urls \<and> length urls div 2 + 1 \<le> card A"

lemma url_quorums_meet:
  assumes "url_quorum urls A" "url_quorum urls B"
  shows "A \<inter> B \<noteq> {}"
proof
  assume "A \<inter> B = {}"
  have "finite A" "finite B"
    using assms finite_subset unfolding url_quorum_def by blast+
  then have "card A + card B = card (A \<union> B)"
    using \<open>A \<inter> B = {}\<close> by (simp add: card_Un_disjoint)
  also have "\<dots> \<le> card (set urls)"
    using assms by (intro card_mono) (auto simp: url_quorum_def)
  also have "\<dots> \<le> length urls" by (rule card_length)
  finally show False
    using assms unfolding url_quorum_def by linarith
qed

interpretation witnesses: intersecting_quorums "url_quorum urls" for urls
  by unfold_locales (rule url_quorums_meet)

lemma quorum_granted:
  assumes "fst (check_quorum yes_from now q)" "distinct (qw_witness_urls q)"
  shows "url_quorum (qw_witness_urls q) {u \<in> set (qw_witness_urls q). yes_from u}"
proof -
  have "card {u \<in> set (qw_witness_urls q). yes_from u} = length (filter yes_from (qw_witness_urls q))"
    using assms(2) by (metis distinct_card distinct_filter set_filter)
  then show ?thesis
    using assms(1) by (auto simp: url_quorum_def check_quorum_def Let_def)
qed

text \<open>Witnesses at distinct URLs that each grant a term to one candidate only elect one candidate.\<close>

lemma one_candidate_per_term:
  assumes "distinct (qw_witness_urls q)" "\<And>u c c'. grants u c \<Longrightarrow> grants u c' \<Longrightarrow> c = c'"
    "fst (check_quorum (\<lambda>u. grants u a) now q)" "fst (check_quorum (\<lambda>u. grants u b) now' q)"
  shows "a = b"
  by (rule witnesses.one_winner [OF quorum_granted [OF assms(3,1)] quorum_granted [OF assms(4,1)],
        of grants]) (use assms(2) in auto)

text \<open>A witness that was listed twice grants twice, and one of three hosts is then a quorum of itself.\<close>

lemma duplicate_witness_is_quorum:
  "fst (check_quorum (\<lambda>u. u = ''w1'') now (new_quorum_witness [''w1'', ''w1'', ''w2'']))"
  by (simp add: check_quorum_def new_quorum_witness_def Let_def)

section \<open>The termination protocol\<close>

datatype kamikaze_state = KamikazeIdle | KamikazePreparing | KamikazeTerminating | KamikazeTerminated

fun kamikaze_code :: "kamikaze_state \<Rightarrow> u8" where
  "kamikaze_code KamikazeIdle = 0"
| "kamikaze_code KamikazePreparing = 1"
| "kamikaze_code KamikazeTerminating = 2"
| "kamikaze_code KamikazeTerminated = 3"

record kamikaze =
  kz_node_id :: u64
  kz_state :: u8
  kz_trigger_count :: u64
  kz_last_trigger_time :: u64
  kz_orders_cancelled :: bool
  kz_keys_dumped :: bool

definition new_kamikaze :: "u64 \<Rightarrow> kamikaze" where
  "new_kamikaze n =
     \<lparr>kz_node_id = n, kz_state = kamikaze_code KamikazeIdle, kz_trigger_count = 0, kz_last_trigger_time = 0,
      kz_orders_cancelled = False, kz_keys_dumped = False\<rparr>"

definition set_kamikaze_state :: "kamikaze_state \<Rightarrow> kamikaze \<Rightarrow> kamikaze" where
  "set_kamikaze_state s k = k\<lparr>kz_state := kamikaze_code s\<rparr>"

definition count_trigger :: "u64 \<Rightarrow> kamikaze \<Rightarrow> kamikaze" where
  "count_trigger now k = k\<lparr>kz_trigger_count := kz_trigger_count k + 1, kz_last_trigger_time := now\<rparr>"

definition cancel_all_orders :: "kamikaze \<Rightarrow> kamikaze" where
  "cancel_all_orders k = k\<lparr>kz_orders_cancelled := True\<rparr>"

definition dump_api_keys :: "kamikaze \<Rightarrow> kamikaze" where
  "dump_api_keys k = k\<lparr>kz_keys_dumped := True\<rparr>"

text \<open>The stores of a call of \<open>trigger\<close>, in order; after the last the call panics.\<close>

definition trigger_stores :: "u64 \<Rightarrow> (kamikaze \<Rightarrow> kamikaze) list" where
  "trigger_stores now =
     [set_kamikaze_state KamikazePreparing, count_trigger now, cancel_all_orders, dump_api_keys,
      set_kamikaze_state KamikazeTerminating, set_kamikaze_state KamikazeTerminated]"

text \<open>What another thread sees after the first \<open>n\<close> stores.\<close>

definition during_trigger :: "nat \<Rightarrow> u64 \<Rightarrow> kamikaze \<Rightarrow> kamikaze" where
  "during_trigger n now k = fold (\<lambda>f. f) (take n (trigger_stores now)) k"

definition trigger_kamikaze :: "u64 \<Rightarrow> kamikaze \<Rightarrow> panic \<times> kamikaze" where
  "trigger_kamikaze now k = (AssertionFailed, during_trigger 6 now k)"

definition integrate_with_kill_switch :: "u64 \<Rightarrow> bool \<Rightarrow> kamikaze \<Rightarrow> panic option \<times> kamikaze" where
  "integrate_with_kill_switch now kill_switch_activated k =
     (if kill_switch_activated then (case trigger_kamikaze now k of (p, k') \<Rightarrow> (Some p, k')) else (None, k))"

definition kamikaze_is_triggered :: "kamikaze \<Rightarrow> bool" where
  "kamikaze_is_triggered k \<longleftrightarrow> kz_state k \<noteq> kamikaze_code KamikazeIdle"

definition get_kamikaze_state :: "kamikaze \<Rightarrow> kamikaze_state" where
  "get_kamikaze_state k =
     (if kz_state k = 0 then KamikazeIdle else if kz_state k = 1 then KamikazePreparing
      else if kz_state k = 2 then KamikazeTerminating else if kz_state k = 3 then KamikazeTerminated
      else KamikazeIdle)"

text \<open>Whoever sees the termination begun sees the orders cancelled and the keys gone.\<close>

lemma terminating_means_cleaned:
  assumes "k = during_trigger n now (new_kamikaze i)"
    "get_kamikaze_state k = KamikazeTerminating \<or> get_kamikaze_state k = KamikazeTerminated"
  shows "kz_orders_cancelled k \<and> kz_keys_dumped k"
proof -
  consider "n = 0" | "n = 1" | "n = 2" | "n = 3" | "n = 4" | "n = 5" | "6 \<le> n"
    by linarith
  then show ?thesis
    using assms
    by cases
      (simp_all add: during_trigger_def trigger_stores_def new_kamikaze_def get_kamikaze_state_def numeral_nat
        set_kamikaze_state_def count_trigger_def cancel_all_orders_def dump_api_keys_def)
qed

section \<open>The hardware fencing manager\<close>

datatype node_fencing_state = NodeActive | FencingInProgress | NodeFenced | ConfirmedFenced | FencingFailed

text \<open>The methods carry the address and credentials of a machine, of which only the text is used.\<close>

datatype fencing_method =
  IpmiPowerOff string | IpmiPowerCycle string | RedfishNetworkDisable string | RedfishReset string | CustomFencing string

record confirmation =
  co_command_hash :: "u8 list"
  co_witness_signatures :: "(u64 \<times> u8 list) list"

definition is_fully_confirmed :: "nat \<Rightarrow> confirmation \<Rightarrow> bool" where
  "is_fully_confirmed required c \<longleftrightarrow> length (co_witness_signatures c) \<ge> required"

record fence_report =
  fr_node_id :: u64
  fr_success :: bool
  fr_method :: fencing_method
  fr_confirmation :: "confirmation option"
  fr_retry_count :: nat

datatype stonith_error =
  NodeNotRegistered u64 | FencingTimeout | ConfirmationTimeout | FencingGaveUp string | LeadershipDenied u64 node_fencing_state

record stonith_config =
  sc_confirmation_timeout_ms :: nat
  sc_max_retries :: nat
  sc_required_witnesses :: nat
  sc_require_crypto_confirmation :: bool

definition default_stonith_config :: stonith_config where
  "default_stonith_config =
     \<lparr>sc_confirmation_timeout_ms = 30000, sc_max_retries = 3, sc_required_witnesses = 2,
      sc_require_crypto_confirmation = True\<rparr>"

record stonith_manager =
  sm_config :: stonith_config
  sm_node_configs :: "u64 \<rightharpoonup> fencing_method"
  sm_fencing_states :: "u64 \<rightharpoonup> node_fencing_state"
  sm_fencing_results :: "u64 \<rightharpoonup> fence_report"
  sm_pending_confirmations :: "u64 \<rightharpoonup> confirmation"

definition new_stonith_manager :: "stonith_config \<Rightarrow> stonith_manager" where
  "new_stonith_manager cfg =
     \<lparr>sm_config = cfg, sm_node_configs = Map.empty, sm_fencing_states = Map.empty,
      sm_fencing_results = Map.empty, sm_pending_confirmations = Map.empty\<rparr>"

definition register_node :: "u64 \<Rightarrow> fencing_method \<Rightarrow> stonith_manager \<Rightarrow> stonith_manager" where
  "register_node n method m =
     m\<lparr>sm_node_configs := (sm_node_configs m)(n \<mapsto> method),
       sm_fencing_states := (sm_fencing_states m)(n \<mapsto> NodeActive)\<rparr>"

text \<open>\<open>if let Some(state) = states.get_mut(&node_id) { *state = ... }\<close>\<close>

definition set_node_state :: "u64 \<Rightarrow> node_fencing_state \<Rightarrow> stonith_manager \<Rightarrow> stonith_manager" where
  "set_node_state n s m =
     (if sm_fencing_states m n = None then m
      else m\<lparr>sm_fencing_states := (sm_fencing_states m)(n \<mapsto> s)\<rparr>)"

text \<open>The command is simulated and succeeds; \<open>hash\<close> is the SHA-256 digest of method and node.\<close>

definition execute_fencing_command ::
  "(fencing_method \<Rightarrow> u64 \<Rightarrow> u8 list) \<Rightarrow> u64 \<Rightarrow> fencing_method \<Rightarrow> stonith_manager \<Rightarrow> fence_report \<times> stonith_manager"
where
  "execute_fencing_command hash n method m =
     (\<lparr>fr_node_id = n, fr_success = True, fr_method = method, fr_confirmation = None, fr_retry_count = 0\<rparr>,
      if sc_require_crypto_confirmation (sm_config m)
      then m\<lparr>sm_pending_confirmations :=
               (sm_pending_confirmations m)(n \<mapsto> \<lparr>co_command_hash = hash method n, co_witness_signatures = []\<rparr>)\<rparr>
      else m)"

text \<open>The missing signatures are made up, 64 times the number of the witness.\<close>

definition simulate_witnesses :: "nat \<Rightarrow> confirmation \<Rightarrow> confirmation" where
  "simulate_witnesses required c =
     c\<lparr>co_witness_signatures := co_witness_signatures c @
        map (\<lambda>i. (of_nat i + 100, replicate 64 (ucast (of_nat i + 100 :: u64)))) [length (co_witness_signatures c)..<required]\<rparr>"

text \<open>
  The loop runs while the time since its start is below the timeout; with a pending confirmation its
  first turn returns, without one it waits until the timeout.
\<close>

definition wait_for_confirmation ::
  "nat \<Rightarrow> u64 \<Rightarrow> fence_report \<Rightarrow> stonith_manager \<Rightarrow> (stonith_error + fence_report) \<times> stonith_manager"
where
  "wait_for_confirmation elapsed_ms n rep m =
     (if elapsed_ms < sc_confirmation_timeout_ms (sm_config m) then
        (case sm_pending_confirmations m n of
           None \<Rightarrow> (Inl ConfirmationTimeout, m)
         | Some c \<Rightarrow>
             let required = sc_required_witnesses (sm_config m) in
             if is_fully_confirmed required c then (Inr (rep\<lparr>fr_confirmation := Some c\<rparr>), m)
             else
               let c' = simulate_witnesses required c;
                   m1 = m\<lparr>sm_pending_confirmations := (sm_pending_confirmations m)(n \<mapsto> c')\<rparr> in
               (Inr (rep\<lparr>fr_confirmation := Some c'\<rparr>), set_node_state n ConfirmedFenced m1))
      else (Inl ConfirmationTimeout, m))"

fun fence_with_retry ::
  "(fencing_method \<Rightarrow> u64 \<Rightarrow> u8 list) \<Rightarrow> (nat \<Rightarrow> nat) \<Rightarrow> nat \<Rightarrow> nat \<Rightarrow> u64 \<Rightarrow> fencing_method \<Rightarrow> stonith_manager
     \<Rightarrow> (stonith_error + fence_report) \<times> stonith_manager"
where
  "fence_with_retry hash elapsed retry_count 0 n method m =
     (Inl (FencingGaveUp (if retry_count = 0 then ''Max retries exceeded'' else ''Confirmation timed out'')), m)"
| "fence_with_retry hash elapsed retry_count (Suc left) n method m =
     (case execute_fencing_command hash n method m of
        (rep, m1) \<Rightarrow>
          if sc_require_crypto_confirmation (sm_config m1) then
            (case wait_for_confirmation (elapsed retry_count) n rep m1 of
               (Inr rep', m2) \<Rightarrow> (Inr (rep'\<lparr>fr_retry_count := retry_count\<rparr>), m2)
             | (Inl e, m2) \<Rightarrow> fence_with_retry hash elapsed (retry_count + 1) left n method m2)
          else (Inr rep, m1))"

text \<open>\<open>late\<close>: the timeout around the execution fires, which it does in the first wait of the command.\<close>

definition initiate_fencing ::
  "(fencing_method \<Rightarrow> u64 \<Rightarrow> u8 list) \<Rightarrow> (nat \<Rightarrow> nat) \<Rightarrow> bool \<Rightarrow> u64 \<Rightarrow> stonith_manager
     \<Rightarrow> (stonith_error + fence_report) \<times> stonith_manager"
where
  "initiate_fencing hash elapsed late n m =
     (case sm_node_configs m n of
        None \<Rightarrow> (Inl (NodeNotRegistered n), m)
      | Some method \<Rightarrow>
          if sm_fencing_states m n = Some NodeFenced \<or> sm_fencing_states m n = Some ConfirmedFenced then
            (Inr \<lparr>fr_node_id = n, fr_success = True, fr_method = method, fr_confirmation = None, fr_retry_count = 0\<rparr>, m)
          else
            let m1 = set_node_state n FencingInProgress m in
            if late then (Inl FencingTimeout, m1)
            else
              (case fence_with_retry hash elapsed 0 (sc_max_retries (sm_config m1)) n method m1 of
                 (Inr rep, m2) \<Rightarrow>
                   (let m3 = set_node_state n (if fr_success rep then NodeFenced else FencingFailed) m2 in
                    (Inr rep, m3\<lparr>sm_fencing_results := (sm_fencing_results m3)(n \<mapsto> rep)\<rparr>))
               | (Inl e, m2) \<Rightarrow> (Inl e, set_node_state n FencingFailed m2)))"

fun verify_safe_leadership :: "u64 \<Rightarrow> u64 list \<Rightarrow> stonith_manager \<Rightarrow> stonith_error + bool" where
  "verify_safe_leadership requesting [] m = Inr True"
| "verify_safe_leadership requesting (n # ns) m =
     (if n = requesting then verify_safe_leadership requesting ns m
      else
        (case (case sm_fencing_states m n of None \<Rightarrow> NodeActive | Some s \<Rightarrow> s) of
           ConfirmedFenced \<Rightarrow> verify_safe_leadership requesting ns m
         | NodeFenced \<Rightarrow>
             if sc_require_crypto_confirmation (sm_config m) then Inl (LeadershipDenied n NodeFenced)
             else verify_safe_leadership requesting ns m
         | NodeActive \<Rightarrow> Inl (LeadershipDenied n NodeActive)
         | FencingInProgress \<Rightarrow> Inl (LeadershipDenied n FencingInProgress)
         | FencingFailed \<Rightarrow> Inl (LeadershipDenied n FencingFailed)))"

definition get_fencing_state :: "u64 \<Rightarrow> stonith_manager \<Rightarrow> node_fencing_state option" where
  "get_fencing_state n m = sm_fencing_states m n"

definition reset_fencing_state :: "u64 \<Rightarrow> stonith_manager \<Rightarrow> stonith_manager" where
  "reset_fencing_state n m =
     m\<lparr>sm_fencing_states := (sm_fencing_states m)(n \<mapsto> NodeActive),
       sm_fencing_results := (sm_fencing_results m)(n := None),
       sm_pending_confirmations := (sm_pending_confirmations m)(n := None)\<rparr>"

subsection \<open>No node is ever left confirmed\<close>

definition none_confirmed :: "stonith_manager \<Rightarrow> bool" where
  "none_confirmed m \<longleftrightarrow> (\<forall>n. sm_fencing_states m n \<noteq> Some ConfirmedFenced)"

lemma set_node_state_config [simp]: "sm_config (set_node_state n s m) = sm_config m"
  by (simp add: set_node_state_def)

lemma set_node_state_states:
  "sm_fencing_states (set_node_state n s m) k =
     (if k = n \<and> sm_fencing_states m n \<noteq> None then Some s else sm_fencing_states m k)"
  by (auto simp: set_node_state_def)

lemma none_confirmed_set: "none_confirmed m \<Longrightarrow> s \<noteq> ConfirmedFenced \<Longrightarrow> none_confirmed (set_node_state n s m)"
  by (simp add: none_confirmed_def set_node_state_states)

lemma execute_command_states:
  "execute_fencing_command hash n method m = (rep, m1) \<Longrightarrow>
     sm_fencing_states m1 = sm_fencing_states m \<and> sm_config m1 = sm_config m"
  by (auto simp: execute_fencing_command_def split: if_splits)

lemma wait_states:
  "wait_for_confirmation t n rep m = (r, m') \<Longrightarrow> sm_config m' = sm_config m
     \<and> (\<forall>k. k \<noteq> n \<longrightarrow> sm_fencing_states m' k = sm_fencing_states m k)
     \<and> (case r of Inl _ \<Rightarrow> sm_fencing_states m' = sm_fencing_states m
          | Inr _ \<Rightarrow> sm_fencing_states m' n = None \<longleftrightarrow> sm_fencing_states m n = None)"
  by (auto simp: wait_for_confirmation_def Let_def set_node_state_states split: if_splits option.splits)

lemma fence_with_retry_states:
  "fence_with_retry hash elapsed i left n method m = (r, m') \<Longrightarrow> sm_config m' = sm_config m
     \<and> (\<forall>k. k \<noteq> n \<longrightarrow> sm_fencing_states m' k = sm_fencing_states m k)
     \<and> (case r of Inl _ \<Rightarrow> sm_fencing_states m' = sm_fencing_states m
          | Inr _ \<Rightarrow> sm_fencing_states m' n = None \<longleftrightarrow> sm_fencing_states m n = None)"
proof (induction left arbitrary: i m r m')
  case 0
  then show ?case by auto
next
  case (Suc left)
  obtain rep m1 where c: "execute_fencing_command hash n method m = (rep, m1)"
    by (cases "execute_fencing_command hash n method m")
  note s1 = execute_command_states [OF c]
  show ?case
  proof (cases "sc_require_crypto_confirmation (sm_config m1)")
    case False
    then show ?thesis using Suc.prems c s1 by auto
  next
    case True
    obtain r2 m2 where w: "wait_for_confirmation (elapsed i) n rep m1 = (r2, m2)"
      by (cases "wait_for_confirmation (elapsed i) n rep m1")
    note s2 = wait_states [OF w]
    show ?thesis
    proof (cases r2)
      case (Inr rep')
      then show ?thesis using Suc.prems c True w s1 s2 by auto
    next
      case (Inl e)
      then have "fence_with_retry hash elapsed (i + 1) left n method m2 = (r, m')"
        using Suc.prems c True w by simp
      from Suc.IH [OF this] show ?thesis
        using Inl s1 s2 by (cases r) auto
    qed
  qed
qed

lemma initiate_keeps_none_confirmed:
  assumes "none_confirmed m" "initiate_fencing hash elapsed late n m = (r, m')"
  shows "none_confirmed m' \<and> sm_config m' = sm_config m"
proof (cases "sm_node_configs m n")
  case None
  then show ?thesis using assms by (simp add: initiate_fencing_def)
next
  case (Some meth)
  let ?m1 = "set_node_state n FencingInProgress m"
  have m1: "none_confirmed ?m1" using assms(1) by (simp add: none_confirmed_set)
  show ?thesis
  proof (cases "sm_fencing_states m n = Some NodeFenced \<or> sm_fencing_states m n = Some ConfirmedFenced \<or> late")
    case True
    then show ?thesis
      using assms(2) Some m1 assms(1) by (auto simp: initiate_fencing_def Let_def split: if_splits)
  next
    case False
    obtain x m2 where x: "fence_with_retry hash elapsed 0 (sc_max_retries (sm_config ?m1)) n meth ?m1 = (x, m2)"
      by (cases "fence_with_retry hash elapsed 0 (sc_max_retries (sm_config ?m1)) n meth ?m1")
    note s = fence_with_retry_states [OF x]
    have other: "sm_fencing_states m2 k \<noteq> Some ConfirmedFenced" if "k \<noteq> n" for k
      using s m1 that by (auto simp: none_confirmed_def)
    show ?thesis
    proof (cases x)
      case (Inl e)
      then have "sm_fencing_states m2 = sm_fencing_states ?m1" using s by simp
      then have "none_confirmed m2" using m1 by (simp add: none_confirmed_def)
      then have "none_confirmed (set_node_state n FencingFailed m2)" by (simp add: none_confirmed_set)
      then show ?thesis
        using assms(2) Some False x Inl s by (auto simp: initiate_fencing_def Let_def)
    next
      case (Inr rep)
      let ?m3 = "set_node_state n (if fr_success rep then NodeFenced else FencingFailed) m2"
      have "sm_fencing_states ?m3 k \<noteq> Some ConfirmedFenced" for k
        using other [of k] by (cases "k = n") (auto simp: set_node_state_states)
      then have "none_confirmed (?m3\<lparr>sm_fencing_results := f\<rparr>)" for f
        by (simp add: none_confirmed_def)
      then show ?thesis
        using assms(2) Some False x Inr s by (auto simp: initiate_fencing_def Let_def)
    qed
  qed
qed

datatype manager_event = RegisterNode u64 fencing_method | InitiateFencing "nat \<Rightarrow> nat" bool u64 | ResetFencing u64

fun manager_step :: "(fencing_method \<Rightarrow> u64 \<Rightarrow> u8 list) \<Rightarrow> manager_event \<Rightarrow> stonith_manager \<Rightarrow> stonith_manager" where
  "manager_step hash (RegisterNode n method) m = register_node n method m"
| "manager_step hash (InitiateFencing elapsed late n) m = snd (initiate_fencing hash elapsed late n m)"
| "manager_step hash (ResetFencing n) m = reset_fencing_state n m"

lemma manager_step_none_confirmed:
  "none_confirmed m \<Longrightarrow> none_confirmed (manager_step hash ev m) \<and> sm_config (manager_step hash ev m) = sm_config m"
proof (cases ev)
  case (InitiateFencing elapsed late n)
  then show "none_confirmed m \<Longrightarrow> ?thesis"
    using initiate_keeps_none_confirmed [of m hash elapsed late n]
    by (cases "initiate_fencing hash elapsed late n m") auto
qed (auto simp: none_confirmed_def register_node_def reset_fencing_state_def)

lemma manager_run_none_confirmed:
  "none_confirmed m \<Longrightarrow> none_confirmed (fold (manager_step hash) evs m) \<and> sm_config (fold (manager_step hash) evs m) = sm_config m"
  by (induction evs arbitrary: m) (auto simp: manager_step_none_confirmed)

lemma verify_needs_confirmation:
  assumes "none_confirmed m" "sc_require_crypto_confirmation (sm_config m)"
  shows "(\<exists>b. verify_safe_leadership r ns m = Inr b) \<longleftrightarrow> (\<forall>n\<in>set ns. n = r)"
  using assms
  by (induction ns) (auto simp: none_confirmed_def split: option.splits node_fencing_state.splits)

text \<open>Without the demand for a confirmation, a fenced node suffices.\<close>

lemma verify_without_crypto:
  assumes "sm_fencing_states m n = Some NodeFenced" "\<not> sc_require_crypto_confirmation (sm_config m)"
  shows "verify_safe_leadership r [n] m = Inr True"
  using assms by simp

section \<open>The executor in the engine\<close>

text \<open>Calls of an engine whose fencer is idle are refused, and leave the engine a leader without a lease.\<close>

lemma become_leader_refused:
  assumes "en_state e = Follower \<or> en_state e = Candidate" "en_fencer e = Some f" "\<not> fx_fencing_in_progress f"
    "en_lease e = None"
  shows "\<exists>e'. become_leader answers now e = (Inl (StonithFailed ''Fencing already in progress''), e')
    \<and> en_state e' = Leader \<and> en_lease e' = None"
  using assms by (auto simp: become_leader_def Let_def fence_refused_when_free)

section \<open>Properties\<close>

text \<open>C4. The first attempt at leadership under fencing is always lost.  Whatever the witnesses answer, an
  engine without a lease whose fencer is idle is refused with "Fencing already in progress"; it calls
  itself the leader from then on, may execute trades at no time, and a further attempt is refused because
  it is the leader already.\<close>

theorem first_leadership_always_refused:
  "en_state e = Follower \<or> en_state e = Candidate \<Longrightarrow> en_fencer e = Some f \<Longrightarrow> \<not> fx_fencing_in_progress f \<Longrightarrow>
   en_lease e = None \<Longrightarrow>
   \<exists>e'. become_leader answers now e = (Inl (StonithFailed ''Fencing already in progress''), e')
     \<and> en_state e' = Leader \<and> (\<forall>t. \<not> can_execute_trades t e')
     \<and> (\<forall>answers' now'. become_leader answers' now' e' = (Inl (NotLeader (en_node e')), e'))"
proof -
  assume "en_state e = Follower \<or> en_state e = Candidate" "en_fencer e = Some f" "\<not> fx_fencing_in_progress f"
    "en_lease e = None"
  then obtain e' where e': "become_leader answers now e = (Inl (StonithFailed ''Fencing already in progress''), e')"
      "en_state e' = Leader" "en_lease e' = None"
    using become_leader_refused by blast
  then have "\<forall>t. \<not> can_execute_trades t e'"
    "\<forall>answers' now'. become_leader answers' now' e' = (Inl (NotLeader (en_node e')), e')"
    by (simp_all add: can_execute_trades_def become_leader_def)
  with e' show ?thesis by blast
qed

theorem first_leadership_always_refused_witness:
  "\<exists>e'. become_leader (\<lambda>_. HttpSuccess) 5 (new_engine 0 fenced_config)
      = (Inl (StonithFailed ''Fencing already in progress''), e') \<and> \<not> can_execute_trades 6 e'"
  using first_leadership_always_refused [of "new_engine 0 fenced_config" "new_fencer fenced_config" "\<lambda>_. HttpSuccess" 5]
  by (auto simp: new_engine_def new_fencer_def fenced_config_def default_swarm_config_def)

text \<open>As long as a cryptographic confirmation is required, no history of registrations, fencings and
  resets ever lets a node pass \<open>verify_safe_leadership\<close> over another node: a fencing that has been
  confirmed is recorded as merely fenced once the call returns.\<close>

lemma confirmed_fencing_never_counts:
  "sc_require_crypto_confirmation cfg \<Longrightarrow>
   (\<exists>b. verify_safe_leadership r ns (fold (manager_step hash) evs (new_stonith_manager cfg)) = Inr b)
     \<longleftrightarrow> (\<forall>n\<in>set ns. n = r)"
proof -
  assume c: "sc_require_crypto_confirmation cfg"
  have "none_confirmed (new_stonith_manager cfg)"
    by (simp add: none_confirmed_def new_stonith_manager_def)
  then have "none_confirmed (fold (manager_step hash) evs (new_stonith_manager cfg))"
    "sm_config (fold (manager_step hash) evs (new_stonith_manager cfg)) = cfg"
    using manager_run_none_confirmed by (simp_all add: new_stonith_manager_def)
  then show ?thesis using c by (simp add: verify_needs_confirmation)
qed

lemma confirmed_fencing_never_counts_example:
  "\<nexists>b. verify_safe_leadership 1 [2]
     (fold (manager_step (\<lambda>_ _. [])) [RegisterNode 2 (IpmiPowerOff ''m''), InitiateFencing (\<lambda>_. 0) False 2]
        (new_stonith_manager default_stonith_config)) = Inr b"
  using confirmed_fencing_never_counts [of default_stonith_config 1 "[2]" "\<lambda>_ _. []"
      "[RegisterNode 2 (IpmiPowerOff ''m''), InitiateFencing (\<lambda>_. 0) False 2]"]
  by (simp only: default_stonith_config_def stonith_config.simps) simp

end
