(* ===== verification/Master_State.thy ===== *)
theory Master_State
  imports Nexus_Prelude
begin

text \<open>
  The master state machine of the system, \<open>crates/nexus_core/src/orchestrator/master_state_machine.rs\<close>:
  the transition table, \<open>process_command\<close> as one call that nothing interrupts, and its steps (taking
  the flag \<open>is_locked\<close>, loading the state, storing it, giving the flag back, logging) for any number of
  threads in any interleaving, together with the steps of \<open>force_reset\<close>, which does not take the flag,
  and with the switching of chaos mode.
\<close>

section \<open>The machine\<close>

datatype master_state =
  CatastrophicState | HaltState | Initializing | DataSyncing | PaperTrading | LiveShadow | LiveExecution

fun master_state_code :: "master_state \<Rightarrow> u8" where
  "master_state_code CatastrophicState = 0"
| "master_state_code HaltState = 1"
| "master_state_code Initializing = 2"
| "master_state_code DataSyncing = 3"
| "master_state_code PaperTrading = 4"
| "master_state_code LiveShadow = 5"
| "master_state_code LiveExecution = 6"

text \<open>The derived order of the states is that of their codes.\<close>

instantiation master_state :: linorder
begin

definition less_eq_master_state :: "master_state \<Rightarrow> master_state \<Rightarrow> bool" where
  "less_eq_master_state s t \<longleftrightarrow> master_state_code s \<le> master_state_code t"

definition less_master_state :: "master_state \<Rightarrow> master_state \<Rightarrow> bool" where
  "less_master_state s t \<longleftrightarrow> master_state_code s < master_state_code t"

instance
proof
  fix s t u :: master_state
  show "s < t \<longleftrightarrow> s \<le> t \<and> \<not> t \<le> s"
    by (auto simp: less_eq_master_state_def less_master_state_def)
  show "s \<le> s" by (simp add: less_eq_master_state_def)
  show "s \<le> t \<Longrightarrow> t \<le> u \<Longrightarrow> s \<le> u"
    unfolding less_eq_master_state_def by (rule order_trans)
  show "s \<le> t \<or> t \<le> s" by (auto simp: less_eq_master_state_def)
  have "master_state_code s = master_state_code t \<Longrightarrow> s = t"
    by (cases s; cases t) simp_all
  then show "s \<le> t \<Longrightarrow> t \<le> s \<Longrightarrow> s = t"
    unfolding less_eq_master_state_def by (blast intro: antisym)
qed

end

definition can_trade_state :: "master_state \<Rightarrow> bool" where
  "can_trade_state s \<longleftrightarrow> s = LiveExecution \<or> s = PaperTrading"

definition is_terminal_state :: "master_state \<Rightarrow> bool" where
  "is_terminal_state s \<longleftrightarrow> s = CatastrophicState \<or> s = HaltState"

datatype state_command =
  Initialize | StartDataSync | EnterPaperTrading | EnterLiveShadow | EnterLiveExecution
| HaltCommand string | CatastrophicCommand string | PromoteToLeader | AlignmentVeto string

record master_transition_result =
  tr_from_state :: master_state
  tr_to_state :: master_state
  tr_command :: state_command
  tr_success :: bool
  tr_rejected_reason :: "string option"
  tr_timestamp_ns :: u64

record master_machine =
  mm_current_state :: u8
  mm_transition_count :: u64
  mm_last_transition_time_ns :: u64
  mm_is_locked :: bool
  mm_transition_log :: "master_transition_result list"
  mm_chaos_mode_flag :: bool

definition new_master :: master_machine where
  "new_master = \<lparr>mm_current_state = master_state_code Initializing, mm_transition_count = 0,
     mm_last_transition_time_ns = 0, mm_is_locked = False, mm_transition_log = [],
     mm_chaos_mode_flag = False\<rparr>"

definition activate_chaos_mode :: "master_machine \<Rightarrow> master_machine" where
  "activate_chaos_mode m = m\<lparr>mm_chaos_mode_flag := True\<rparr>"

definition deactivate_chaos_mode :: "master_machine \<Rightarrow> master_machine" where
  "deactivate_chaos_mode m = m\<lparr>mm_chaos_mode_flag := False\<rparr>"

definition decode_master_state :: "u8 \<Rightarrow> master_state" where
  "decode_master_state v =
     (if v = 0 then CatastrophicState else if v = 1 then HaltState else if v = 2 then Initializing
      else if v = 3 then DataSyncing else if v = 4 then PaperTrading else if v = 5 then LiveShadow
      else if v = 6 then LiveExecution else HaltState)"

definition master_current :: "master_machine \<Rightarrow> master_state" where
  "master_current m = decode_master_state (mm_current_state m)"

fun evaluate_transition :: "master_state \<Rightarrow> state_command \<Rightarrow> master_state \<times> bool \<times> string option" where
  "evaluate_transition s (CatastrophicCommand reason) = (CatastrophicState, True, None)"
| "evaluate_transition s (HaltCommand reason) =
     (if s = CatastrophicState then (s, False, Some ''Cannot halt from CatastrophicFailure'')
      else (HaltState, True, None))"
| "evaluate_transition s (AlignmentVeto reason) = (HaltState, True, None)"
| "evaluate_transition s Initialize =
     (if is_terminal_state s then (Initializing, True, None)
      else (s, False, Some ''Can only initialize from terminal state''))"
| "evaluate_transition s StartDataSync =
     (if s = Initializing then (DataSyncing, True, None)
      else (s, False, Some ''Can only start data sync from Initializing''))"
| "evaluate_transition s EnterPaperTrading =
     (if s = DataSyncing \<or> s = LiveShadow then (PaperTrading, True, None)
      else (s, False, Some ''Invalid source state for PaperTrading''))"
| "evaluate_transition s EnterLiveShadow =
     (if s = DataSyncing \<or> s = PaperTrading then (LiveShadow, True, None)
      else (s, False, Some ''Invalid source state for LiveShadow''))"
| "evaluate_transition s EnterLiveExecution =
     (if s = LiveShadow then (LiveExecution, True, None)
      else (s, False, Some ''Can only enter LiveExecution from LiveShadow''))"
| "evaluate_transition s PromoteToLeader =
     (if is_terminal_state s then (s, False, Some ''Cannot promote to leader from terminal state'')
      else (s, True, None))"

text \<open>Storing the outcome of an evaluation, and the result that is returned and logged.\<close>

definition store_transition ::
  "master_state \<Rightarrow> master_state \<times> bool \<times> string option \<Rightarrow> u64 \<Rightarrow> master_machine \<Rightarrow> master_machine"
where
  "store_transition from_state ev now_ns m =
     (case ev of (to_state, success, reason) \<Rightarrow>
        if success \<and> to_state \<noteq> from_state
        then m\<lparr>mm_current_state := master_state_code to_state,
               mm_transition_count := mm_transition_count m + 1,
               mm_last_transition_time_ns := now_ns\<rparr>
        else m)"

definition result_of ::
  "master_state \<Rightarrow> master_state \<times> bool \<times> string option \<Rightarrow> state_command \<Rightarrow> u64 \<Rightarrow> master_transition_result"
where
  "result_of from_state ev cmd now_ns =
     (case ev of (to_state, success, reason) \<Rightarrow>
        \<lparr>tr_from_state = from_state, tr_to_state = to_state, tr_command = cmd, tr_success = success,
         tr_rejected_reason = reason, tr_timestamp_ns = now_ns\<rparr>)"

definition refused_result :: "master_state \<Rightarrow> master_state \<Rightarrow> state_command \<Rightarrow> u64 \<Rightarrow> master_transition_result" where
  "refused_result s t cmd now_ns =
     \<lparr>tr_from_state = s, tr_to_state = t, tr_command = cmd, tr_success = False,
      tr_rejected_reason = Some ''Concurrent transition in progress'', tr_timestamp_ns = now_ns\<rparr>"

definition log_result :: "master_transition_result \<Rightarrow> master_machine \<Rightarrow> master_machine" where
  "log_result r m = m\<lparr>mm_transition_log := mm_transition_log m @ [r]\<rparr>"

definition process_command :: "state_command \<Rightarrow> u64 \<Rightarrow> master_machine \<Rightarrow> master_transition_result \<times> master_machine" where
  "process_command cmd now_ns m =
     (if mm_is_locked m then
        (refused_result (master_current m) (master_current m) cmd now_ns, m\<lparr>mm_is_locked := True\<rparr>)
      else
        let m1 = m\<lparr>mm_is_locked := True\<rparr>;
            from_state = master_current m1;
            ev = evaluate_transition from_state cmd;
            m2 = store_transition from_state ev now_ns m1;
            m3 = m2\<lparr>mm_is_locked := False\<rparr>;
            result = result_of from_state ev cmd now_ns in
        (result, log_result result m3))"

definition master_can_trade :: "master_machine \<Rightarrow> bool" where
  "master_can_trade m = can_trade_state (master_current m)"

definition master_is_terminal :: "master_machine \<Rightarrow> bool" where
  "master_is_terminal m = is_terminal_state (master_current m)"

definition get_transition_log :: "nat \<Rightarrow> master_machine \<Rightarrow> master_transition_result list" where
  "get_transition_log limit m = take limit (rev (mm_transition_log m))"

definition force_reset :: "master_machine \<Rightarrow> master_machine" where
  "force_reset m =
     (if mm_chaos_mode_flag m
      then m\<lparr>mm_current_state := master_state_code Initializing, mm_transition_count := 0, mm_transition_log := []\<rparr>
      else m)"

lemma decode_system_code [simp]: "decode_master_state (master_state_code s) = s"
  by (cases s) (simp_all add: decode_master_state_def)

lemma master_current_new [simp]: "master_current new_master = Initializing"
  by (simp add: master_current_def new_master_def del: master_state_code.simps)

lemma master_current_store:
  "master_current (store_transition s (t, ok, reason) now m) = (if ok \<and> t \<noteq> s then t else master_current m)"
  by (simp add: store_transition_def master_current_def del: master_state_code.simps)

subsection \<open>The table\<close>

definition allowed :: "master_state \<Rightarrow> master_state \<Rightarrow> bool" where
  "allowed s t \<longleftrightarrow> s \<noteq> t \<and> (\<exists>cmd reason. evaluate_transition s cmd = (t, True, reason))"

lemma allowed_cases:
  "allowed s t \<longleftrightarrow> s \<noteq> t \<and>
     (t = CatastrophicState \<or> t = HaltState \<or> (t = Initializing \<and> is_terminal_state s)
      \<or> (t = DataSyncing \<and> s = Initializing)
      \<or> (t = PaperTrading \<and> (s = DataSyncing \<or> s = LiveShadow))
      \<or> (t = LiveShadow \<and> (s = DataSyncing \<or> s = PaperTrading))
      \<or> (t = LiveExecution \<and> s = LiveShadow))" (is "?l \<longleftrightarrow> ?r")
proof
  assume ?l
  then obtain cmd reason where "s \<noteq> t" "evaluate_transition s cmd = (t, True, reason)"
    by (auto simp: allowed_def)
  then show ?r by (cases cmd) (auto split: if_splits)
next
  assume r: ?r
  define cmd where "cmd = (case t of CatastrophicState \<Rightarrow> CatastrophicCommand [] | HaltState \<Rightarrow> AlignmentVeto []
    | Initializing \<Rightarrow> Initialize | DataSyncing \<Rightarrow> StartDataSync | PaperTrading \<Rightarrow> EnterPaperTrading
    | LiveShadow \<Rightarrow> EnterLiveShadow | LiveExecution \<Rightarrow> EnterLiveExecution)"
  have "evaluate_transition s cmd = (t, True, None)"
    using r by (cases t) (auto simp: cmd_def)
  with r show ?l unfolding allowed_def by blast
qed

lemma evaluate_failure_keeps: "evaluate_transition s cmd = (t, False, r) \<Longrightarrow> t = s \<and> r \<noteq> None"
  by (cases cmd) (auto split: if_splits)

text \<open>The veto does not respect the priority of a catastrophic failure, and neither does \<open>Initialize\<close>.\<close>

lemma veto_leaves_catastrophe:
  "evaluate_transition CatastrophicState (HaltCommand r) = (CatastrophicState, False, Some ''Cannot halt from CatastrophicFailure'')"
  "evaluate_transition CatastrophicState (AlignmentVeto r) = (HaltState, True, None)"
  "evaluate_transition CatastrophicState Initialize = (Initializing, True, None)"
  by (simp_all add: is_terminal_state_def)

section \<open>Threads\<close>

text \<open>
  Where a thread is inside \<open>process_command\<close>: before taking the flag, after the flag was found taken
  (and after the first of the two loads for the refusal), holding the flag, with the state loaded, with
  the new state stored (with its count and time), with the flag given back but the result not yet logged, and returned.  Inside
  \<open>force_reset\<close>: about to load the flag of chaos mode, having found it set, having stored the state, and
  having stored the count.
\<close>

datatype phase =
  Ready state_command u64
| Refusing state_command u64
| RefusingFrom state_command u64 master_state
| Holding state_command u64
| Loaded state_command u64 master_state
| Storing master_transition_result
| Unlocked master_transition_result
| Returned master_transition_result
| ResetCalled
| ResetAllowed
| ResetStored
| ResetCounted
| ResetReturned

text \<open>The last fields are a history of the values of \<open>current_state\<close>, the newest first, and whether chaos
  mode has ever been switched on.\<close>

record config =
  cf_machine :: master_machine
  cf_pc :: "nat \<Rightarrow> phase"
  cf_history :: "master_state list"
  cf_chaos_used :: bool

definition set_pc :: "nat \<Rightarrow> phase \<Rightarrow> config \<Rightarrow> config" where
  "set_pc t ph c = c\<lparr>cf_pc := (cf_pc c)(t := ph)\<rparr>"

definition on_machine :: "(master_machine \<Rightarrow> master_machine) \<Rightarrow> config \<Rightarrow> config" where
  "on_machine f c = c\<lparr>cf_machine := f (cf_machine c)\<rparr>"

definition note_state :: "config \<Rightarrow> config" where
  "note_state c =
     (let s = master_current (cf_machine c) in
      if s = hd (cf_history c) then c else c\<lparr>cf_history := s # cf_history c\<rparr>)"

inductive master_step :: "config \<Rightarrow> config \<Rightarrow> bool" where
  acquire: "cf_pc c t = Ready cmd now \<Longrightarrow> \<not> mm_is_locked (cf_machine c) \<Longrightarrow>
    master_step c (set_pc t (Holding cmd now) (on_machine (\<lambda>m. m\<lparr>mm_is_locked := True\<rparr>) c))"
| found_taken: "cf_pc c t = Ready cmd now \<Longrightarrow> mm_is_locked (cf_machine c) \<Longrightarrow>
    master_step c (set_pc t (Refusing cmd now) (on_machine (\<lambda>m. m\<lparr>mm_is_locked := True\<rparr>) c))"
| refuse_from: "cf_pc c t = Refusing cmd now \<Longrightarrow>
    master_step c (set_pc t (RefusingFrom cmd now (master_current (cf_machine c))) c)"
| refuse_to: "cf_pc c t = RefusingFrom cmd now s \<Longrightarrow>
    master_step c (set_pc t (Returned (refused_result s (master_current (cf_machine c)) cmd now)) c)"
| load: "cf_pc c t = Holding cmd now \<Longrightarrow>
    master_step c (set_pc t (Loaded cmd now (master_current (cf_machine c))) c)"
| store: "cf_pc c t = Loaded cmd now s \<Longrightarrow> ev = evaluate_transition s cmd \<Longrightarrow>
    master_step c (note_state (set_pc t (Storing (result_of s ev cmd now)) (on_machine (store_transition s ev now) c)))"
| unlock: "cf_pc c t = Storing r \<Longrightarrow>
    master_step c (set_pc t (Unlocked r) (on_machine (\<lambda>m. m\<lparr>mm_is_locked := False\<rparr>) c))"
| log: "cf_pc c t = Unlocked r \<Longrightarrow>
    master_step c (set_pc t (Returned r) (on_machine (log_result r) c))"
| call: "cf_pc c t = Returned r \<or> cf_pc c t = ResetReturned \<Longrightarrow> ph = Ready cmd now \<or> ph = ResetCalled \<Longrightarrow>
    master_step c (set_pc t ph c)"
| chaos_on: "master_step c (on_machine activate_chaos_mode c\<lparr>cf_chaos_used := True\<rparr>)"
| chaos_off: "master_step c (on_machine deactivate_chaos_mode c)"
| reset_test: "cf_pc c t = ResetCalled \<Longrightarrow>
    master_step c (set_pc t (if mm_chaos_mode_flag (cf_machine c) then ResetAllowed else ResetReturned) c)"
| reset_state: "cf_pc c t = ResetAllowed \<Longrightarrow>
    master_step c (note_state (set_pc t ResetStored (on_machine (\<lambda>m. m\<lparr>mm_current_state := master_state_code Initializing\<rparr>) c)))"
| reset_count: "cf_pc c t = ResetStored \<Longrightarrow>
    master_step c (set_pc t ResetCounted (on_machine (\<lambda>m. m\<lparr>mm_transition_count := 0\<rparr>) c))"
| reset_log: "cf_pc c t = ResetCounted \<Longrightarrow>
    master_step c (set_pc t ResetReturned (on_machine (\<lambda>m. m\<lparr>mm_transition_log := []\<rparr>) c))"

definition initial :: "config \<Rightarrow> bool" where
  "initial c \<longleftrightarrow> cf_machine c = new_master \<and> cf_history c = [Initializing] \<and> \<not> cf_chaos_used c
     \<and> (\<forall>t. cf_pc c t = ResetCalled \<or> (\<exists>cmd now. cf_pc c t = Ready cmd now))"

definition reachable :: "config \<Rightarrow> bool" where
  "reachable c \<longleftrightarrow> (\<exists>c0. initial c0 \<and> master_step\<^sup>*\<^sup>* c0 c)"

fun critical :: "phase \<Rightarrow> bool" where
  "critical (Holding cmd now) = True"
| "critical (Loaded cmd now s) = True"
| "critical (Storing r) = True"
| "critical _ = False"

text \<open>
  Successive values of \<open>current_state\<close> are steps of the table, back to the first.  With resets there are
  two more: from anywhere to \<open>Initializing\<close>, and, when a reset falls into a transition, from there to
  where the table leads from the state before the reset.
\<close>

definition lawful :: "master_state list \<Rightarrow> bool" where
  "lawful h \<longleftrightarrow> h \<noteq> [] \<and> List.last h = Initializing \<and> successively (\<lambda>t s. allowed s t) h"

fun lawful_with_resets :: "master_state list \<Rightarrow> bool" where
  "lawful_with_resets [] = False"
| "lawful_with_resets [s] \<longleftrightarrow> s = Initializing"
| "lawful_with_resets (t # s # h) \<longleftrightarrow> lawful_with_resets (s # h) \<and>
     (allowed s t \<or> t = Initializing \<or> s = Initializing \<and> (\<exists>u h'. h = u # h' \<and> allowed u t))"

text \<open>The state that a transition has loaded is still the current one, or a reset has come between.\<close>

definition state_as_loaded :: "master_state \<Rightarrow> config \<Rightarrow> bool" where
  "state_as_loaded s c \<longleftrightarrow> s = master_current (cf_machine c) \<or>
     cf_chaos_used c \<and> (\<exists>h. cf_history c = Initializing # s # h)"

definition resetting :: "phase \<Rightarrow> bool" where
  "resetting ph \<longleftrightarrow> ph = ResetAllowed \<or> ph = ResetStored \<or> ph = ResetCounted"

definition master_inv :: "config \<Rightarrow> bool" where
  "master_inv c \<longleftrightarrow>
     (\<forall>t u. critical (cf_pc c t) \<and> critical (cf_pc c u) \<longrightarrow> t = u)
     \<and> (\<forall>t. critical (cf_pc c t) \<longrightarrow> mm_is_locked (cf_machine c))
     \<and> (\<forall>t cmd now s. cf_pc c t = Loaded cmd now s \<longrightarrow> state_as_loaded s c)
     \<and> lawful_with_resets (cf_history c) \<and> hd (cf_history c) = master_current (cf_machine c)
     \<and> (mm_chaos_mode_flag (cf_machine c) \<longrightarrow> cf_chaos_used c)
     \<and> (\<forall>t. resetting (cf_pc c t) \<longrightarrow> cf_chaos_used c)
     \<and> (\<not> cf_chaos_used c \<longrightarrow> lawful (cf_history c))"

lemma config_updates [simp]:
  "cf_pc (set_pc t ph c) = (cf_pc c)(t := ph)" "cf_machine (set_pc t ph c) = cf_machine c"
  "cf_history (set_pc t ph c) = cf_history c" "cf_chaos_used (set_pc t ph c) = cf_chaos_used c"
  "cf_pc (on_machine f c) = cf_pc c" "cf_machine (on_machine f c) = f (cf_machine c)"
  "cf_history (on_machine f c) = cf_history c" "cf_chaos_used (on_machine f c) = cf_chaos_used c"
  "cf_pc (note_state c) = cf_pc c" "cf_machine (note_state c) = cf_machine c"
  "cf_chaos_used (note_state c) = cf_chaos_used c"
  by (simp_all add: set_pc_def on_machine_def note_state_def Let_def)

lemma current_frames [simp]:
  "master_current (m\<lparr>mm_is_locked := b\<rparr>) = master_current m"
  "master_current (log_result r m) = master_current m"
  "master_current (m\<lparr>mm_transition_count := n\<rparr>) = master_current m"
  "master_current (m\<lparr>mm_transition_log := l\<rparr>) = master_current m"
  "master_current (activate_chaos_mode m) = master_current m"
  "master_current (deactivate_chaos_mode m) = master_current m"
  "master_current (m\<lparr>mm_current_state := 2\<rparr>) = Initializing"
  "mm_is_locked (log_result r m) = mm_is_locked m"
  "mm_is_locked (store_transition s ev now m) = mm_is_locked m"
  "mm_is_locked (activate_chaos_mode m) = mm_is_locked m"
  "mm_is_locked (deactivate_chaos_mode m) = mm_is_locked m"
  "mm_chaos_mode_flag (log_result r m) = mm_chaos_mode_flag m"
  "mm_chaos_mode_flag (store_transition s ev now m) = mm_chaos_mode_flag m"
  "\<not> mm_chaos_mode_flag (deactivate_chaos_mode m)"
  by (simp_all add: master_current_def log_result_def store_transition_def activate_chaos_mode_def
      deactivate_chaos_mode_def decode_master_state_def split: prod.split)

lemma resetting_simps [simp]:
  "\<not> resetting (Ready cmd now)" "\<not> resetting (Refusing cmd now)" "\<not> resetting (RefusingFrom cmd now s)"
  "\<not> resetting (Holding cmd now)" "\<not> resetting (Loaded cmd now s)" "\<not> resetting (Storing r)"
  "\<not> resetting (Unlocked r)" "\<not> resetting (Returned r)" "\<not> resetting ResetCalled" "\<not> resetting ResetReturned"
  "resetting ResetAllowed" "resetting ResetStored" "resetting ResetCounted"
  by (simp_all add: resetting_def)

lemma initial_inv: "initial c \<Longrightarrow> master_inv c"
proof -
  assume i: "initial c"
  have "\<not> critical (cf_pc c t) \<and> \<not> resetting (cf_pc c t) \<and> (\<forall>cmd now s. cf_pc c t \<noteq> Loaded cmd now s)" for t
    using i unfolding initial_def by (metis critical.simps(4,9) phase.distinct(7,49) resetting_simps(1,9) critical.simps(2))
  then show ?thesis
    using i unfolding initial_def master_inv_def lawful_def by (simp add: new_master_def [THEN arg_cong, of mm_chaos_mode_flag])
qed

lemma lawful_Cons: "lawful h \<Longrightarrow> allowed (hd h) s \<Longrightarrow> lawful (s # h)"
  by (cases h) (auto simp: lawful_def)

lemma lawful_with_resets_Cons: "lawful_with_resets h \<Longrightarrow> allowed (hd h) s \<or> s = Initializing \<Longrightarrow> lawful_with_resets (s # h)"
  by (cases h) auto

text \<open>What the current state is after a store: what it was, or where the table leads from the loaded state.\<close>

lemma store_step_current:
  "master_current (store_transition s (evaluate_transition s cmd) now m) = master_current m
    \<or> allowed s (master_current (store_transition s (evaluate_transition s cmd) now m))"
proof -
  obtain t ok reason where e: "evaluate_transition s cmd = (t, ok, reason)"
    by (cases "evaluate_transition s cmd")
  have "allowed s t" if "ok" "t \<noteq> s"
  proof -
    have "evaluate_transition s cmd = (t, True, reason)"
      using e that(1) by simp
    with that(2) show ?thesis
      unfolding allowed_def by blast
  qed
  then show ?thesis
    unfolding e master_current_store by auto
qed

text \<open>A step of one thread that leaves the state and the history as they are.\<close>

lemma inv_move:
  assumes "master_inv c" "cf_pc c' = (cf_pc c)(t := ph)"
    "master_current (cf_machine c') = master_current (cf_machine c)" "cf_history c' = cf_history c"
    "critical ph \<Longrightarrow> critical (cf_pc c t) \<or> (\<forall>u. \<not> critical (cf_pc c u))"
    "mm_is_locked (cf_machine c') \<or> \<not> critical ph \<and> (\<forall>u. u \<noteq> t \<longrightarrow> \<not> critical (cf_pc c u))"
    "\<And>cmd now s. ph = Loaded cmd now s \<Longrightarrow> state_as_loaded s c"
    "cf_chaos_used c \<Longrightarrow> cf_chaos_used c'" "mm_chaos_mode_flag (cf_machine c') \<Longrightarrow> cf_chaos_used c'"
    "resetting ph \<Longrightarrow> cf_chaos_used c'"
  shows "master_inv c'"
proof -
  have excl: "\<And>u v. critical (cf_pc c u) \<Longrightarrow> critical (cf_pc c v) \<Longrightarrow> u = v"
    and loaded: "\<And>u cmd now s. cf_pc c u = Loaded cmd now s \<Longrightarrow> state_as_loaded s c"
    and hist: "lawful_with_resets (cf_history c)" "hd (cf_history c) = master_current (cf_machine c)"
      "\<not> cf_chaos_used c \<longrightarrow> lawful (cf_history c)"
    and reset: "\<And>u. resetting (cf_pc c u) \<Longrightarrow> cf_chaos_used c"
    using assms(1) unfolding master_inv_def by blast+
  have "u = v" if "critical (cf_pc c' u)" "critical (cf_pc c' v)" for u v
    using that excl assms(5) unfolding assms(2) by (auto split: if_splits)
  moreover have "mm_is_locked (cf_machine c')" if "critical (cf_pc c' u)" for u
    using that assms(6) unfolding assms(2) by (auto split: if_splits)
  moreover have "state_as_loaded s c \<Longrightarrow> state_as_loaded s c'" for s
    using assms(3,4,8) by (auto simp: state_as_loaded_def)
  then have "state_as_loaded s c'" if "cf_pc c' u = Loaded cmd now s" for u cmd now s
    using that loaded assms(7) unfolding assms(2) by (auto split: if_splits)
  moreover have "cf_chaos_used c'" if "resetting (cf_pc c' u)" for u
    using that reset assms(8,10) unfolding assms(2) by (auto split: if_splits)
  ultimately show ?thesis
    using hist assms(3,4,8,9) unfolding master_inv_def by auto
qed

text \<open>A step that may change the state: the history gets the new value if it is one.\<close>

lemma inv_new_state:
  assumes "master_inv c" "c' = note_state (set_pc t ph (on_machine f c))"
    and "mm_is_locked (f (cf_machine c)) = mm_is_locked (cf_machine c)"
      "mm_chaos_mode_flag (f (cf_machine c)) = mm_chaos_mode_flag (cf_machine c)"
    and "critical ph \<longleftrightarrow> critical (cf_pc c t)" "\<And>cmd now s. ph \<noteq> Loaded cmd now s"
      "resetting ph \<longleftrightarrow> resetting (cf_pc c t)"
    and loaded: "\<And>u cmd now s. u \<noteq> t \<Longrightarrow> cf_pc c u = Loaded cmd now s \<Longrightarrow> state_as_loaded s c'"
    and law: "master_current (f (cf_machine c)) \<noteq> master_current (cf_machine c) \<Longrightarrow>
        lawful_with_resets (master_current (f (cf_machine c)) # cf_history c)"
      "master_current (f (cf_machine c)) \<noteq> master_current (cf_machine c) \<Longrightarrow> \<not> cf_chaos_used c \<Longrightarrow>
        lawful (master_current (f (cf_machine c)) # cf_history c)"
  shows "master_inv c'"
proof -
  have pc: "cf_pc c' = (cf_pc c)(t := ph)" and used: "cf_chaos_used c' = cf_chaos_used c"
    and m: "cf_machine c' = f (cf_machine c)"
    and h: "cf_history c' = (if master_current (f (cf_machine c)) = hd (cf_history c) then cf_history c
      else master_current (f (cf_machine c)) # cf_history c)"
    by (simp_all add: assms(2)) (simp add: note_state_def Let_def)
  have crit: "critical (cf_pc c' u) \<longleftrightarrow> critical (cf_pc c u)" "resetting (cf_pc c' u) \<longleftrightarrow> resetting (cf_pc c u)" for u
    using assms(5,7) by (simp_all add: pc)
  have hd: "hd (cf_history c) = master_current (cf_machine c)"
    using assms(1) unfolding master_inv_def by blast
  have "state_as_loaded s c'" if "cf_pc c' u = Loaded cmd now s" for u cmd now s
    using that assms(6) loaded [of u cmd now s] by (auto simp: pc split: if_splits)
  moreover have "lawful_with_resets (cf_history c') \<and> hd (cf_history c') = master_current (cf_machine c') \<and>
      (\<not> cf_chaos_used c' \<longrightarrow> lawful (cf_history c'))"
    using assms(1) law hd unfolding master_inv_def h m used by auto
  ultimately show ?thesis
    using assms(1,3,4) unfolding master_inv_def crit used m by blast
qed

lemma store_inv:
  assumes "master_inv c" "cf_pc c t = Loaded cmd now s"
    "c' = note_state (set_pc t (Storing r) (on_machine (store_transition s (evaluate_transition s cmd) now) c))"
  shows "master_inv c'"
proof (rule inv_new_state [OF assms(1,3)])
  let ?n = "master_current (store_transition s (evaluate_transition s cmd) now (cf_machine c))"
  have as_loaded: "state_as_loaded s c" and law: "lawful_with_resets (cf_history c)"
    "\<not> cf_chaos_used c \<longrightarrow> lawful (cf_history c)" and hd: "hd (cf_history c) = master_current (cf_machine c)"
    using assms(1,2) unfolding master_inv_def by blast+
  assume "?n \<noteq> master_current (cf_machine c)"
  then have al: "allowed s ?n" using store_step_current by blast
  consider "s = hd (cf_history c)" | h where "cf_chaos_used c" "cf_history c = Initializing # s # h"
    using as_loaded hd unfolding state_as_loaded_def by auto
  then show "lawful_with_resets (?n # cf_history c)"
  proof cases
    case 1
    then show ?thesis using law(1) al by (auto intro: lawful_with_resets_Cons)
  next
    case 2
    then show ?thesis using law(1) al by simp
  qed
  assume "\<not> cf_chaos_used c"
  then show "lawful (?n # cf_history c)"
    using law(2) al as_loaded hd by (auto simp: state_as_loaded_def intro: lawful_Cons)
next
  fix u cmd' now' s'
  assume "u \<noteq> t" "cf_pc c u = Loaded cmd' now' s'"
  then have "critical (cf_pc c u)" "critical (cf_pc c t)" using assms(2) by simp_all
  with \<open>u \<noteq> t\<close> show "state_as_loaded s' c'"
    using assms(1) unfolding master_inv_def by blast
qed (use assms(2) in simp_all)

lemma reset_inv:
  assumes "master_inv c" "cf_pc c t = ResetAllowed"
    "c' = note_state (set_pc t ResetStored (on_machine (\<lambda>m. m\<lparr>mm_current_state := master_state_code Initializing\<rparr>) c))"
  shows "master_inv c'"
proof (rule inv_new_state [OF assms(1,3)])
  have used: "cf_chaos_used c"
    using assms(1,2) unfolding master_inv_def by (metis resetting_simps(11))
  have hd: "hd (cf_history c) = master_current (cf_machine c)" and ne: "cf_history c \<noteq> []"
    using assms(1) unfolding master_inv_def by auto
  show "state_as_loaded s c'" if u: "cf_pc c u = Loaded cmd now s" for u cmd now s
  proof -
    have "state_as_loaded s c" using assms(1) u unfolding master_inv_def by blast
    moreover have "cf_history c = hd (cf_history c) # tl (cf_history c)" using ne by simp
    ultimately show ?thesis
      using used hd unfolding state_as_loaded_def assms(3) by (auto simp: note_state_def Let_def)
  qed
  let ?n = "master_current ((cf_machine c)\<lparr>mm_current_state := master_state_code Initializing\<rparr>)"
  have "lawful_with_resets (cf_history c)" using assms(1) unfolding master_inv_def by blast
  then show "lawful_with_resets (?n # cf_history c)" by (auto intro: lawful_with_resets_Cons)
  show "lawful (?n # cf_history c)" if "\<not> cf_chaos_used c" using used that by blast
qed (use assms(2) in simp_all)

lemma master_step_inv:
  assumes "master_step c c'" "master_inv c"
  shows "master_inv c'"
proof -
  have lock: "mm_is_locked (cf_machine c) \<or> (\<forall>u. u \<noteq> t \<longrightarrow> \<not> critical (cf_pc c u))" for t
    using assms(2) unfolding master_inv_def by blast
  have flag: "mm_chaos_mode_flag (cf_machine c) \<Longrightarrow> cf_chaos_used c"
    using assms(2) unfolding master_inv_def by blast
  show ?thesis
    using assms(1)
  proof (cases rule: master_step.cases)
    case (store t cmd now s ev)
    then show ?thesis using store_inv [OF assms(2)] by blast
  next
    case (reset_state t)
    then show ?thesis using reset_inv [OF assms(2)] by blast
  next
    case (acquire t cmd now)
    have "\<not> critical (cf_pc c u)" for u
      using assms(2) acquire(3) unfolding master_inv_def by blast
    then show ?thesis
      by (intro inv_move [OF assms(2), of c' t "Holding cmd now"]) (simp_all add: acquire(1) flag)
  next
    case (found_taken t cmd now)
    show ?thesis
      by (rule inv_move [OF assms(2), of c' t "Refusing cmd now"]) (simp_all add: found_taken flag)
  next
    case (refuse_from t cmd now)
    then show ?thesis
      using lock [of t]
      by (intro inv_move [OF assms(2), of c' t "RefusingFrom cmd now (master_current (cf_machine c))"]) (simp_all add: flag)
  next
    case (refuse_to t cmd now s)
    then show ?thesis
      using lock [of t]
      by (intro inv_move [OF assms(2), of c' t "Returned (refused_result s (master_current (cf_machine c)) cmd now)"])
        (simp_all add: flag)
  next
    case (load t cmd now)
    have "mm_is_locked (cf_machine c)"
      using assms(2) load(2) unfolding master_inv_def by (metis critical.simps(1))
    then show ?thesis
      by (intro inv_move [OF assms(2), of c' t "Loaded cmd now (master_current (cf_machine c))"])
        (simp_all add: load flag state_as_loaded_def)
  next
    case (unlock t r)
    have "\<not> critical (cf_pc c u)" if "u \<noteq> t" for u
      using assms(2) unlock(2) that unfolding master_inv_def by (metis critical.simps(3))
    then show ?thesis
      by (intro inv_move [OF assms(2), of c' t "Unlocked r"]) (simp_all add: unlock flag)
  next
    case (log t r)
    then show ?thesis
      using lock [of t] by (intro inv_move [OF assms(2), of c' t "Returned r"]) (simp_all add: flag)
  next
    case (call t r ph cmd now)
    then show ?thesis
      using lock [of t] by (intro inv_move [OF assms(2), of c' t ph]) (auto simp: flag)
  next
    case chaos_on
    then show ?thesis
      using lock [of 0] assms(2) by (intro inv_move [OF assms(2), of c' 0 "cf_pc c 0"]) (auto simp: master_inv_def)
  next
    case chaos_off
    then show ?thesis
      using lock [of 0] assms(2) by (intro inv_move [OF assms(2), of c' 0 "cf_pc c 0"]) (auto simp: master_inv_def)
  next
    case (reset_test t)
    then show ?thesis
      using lock [of t]
      by (intro inv_move [OF assms(2), of c' t "if mm_chaos_mode_flag (cf_machine c) then ResetAllowed else ResetReturned"])
        (simp_all add: flag split: if_splits)
  next
    case (reset_count t)
    have "cf_chaos_used c" using assms(2) reset_count(2) unfolding master_inv_def by (metis resetting_simps(12))
    then show ?thesis
      using lock [of t] reset_count by (intro inv_move [OF assms(2), of c' t ResetCounted]) simp_all
  next
    case (reset_log t)
    then show ?thesis
      using lock [of t] by (intro inv_move [OF assms(2), of c' t ResetReturned]) (simp_all add: flag)
  qed
qed

lemma reachable_inv: "reachable c \<Longrightarrow> master_inv c"
  unfolding reachable_def
proof (elim exE conjE)
  fix c0
  assume "initial c0" and steps: "master_step\<^sup>*\<^sup>* c0 c"
  then have "master_inv c0" by (rule_tac initial_inv)
  with steps show "master_inv c"
    by (induction rule: rtranclp_induct) (auto intro: master_step_inv)
qed

section \<open>What a lawful history shows\<close>

definition since_boot :: "master_state list \<Rightarrow> master_state list" where
  "since_boot h = takeWhile (\<lambda>s. s \<noteq> Initializing) h"

definition operational :: "master_state \<Rightarrow> bool" where
  "operational s \<longleftrightarrow> s = DataSyncing \<or> s = PaperTrading \<or> s = LiveShadow \<or> s = LiveExecution"

lemma lawful_tail: "lawful (t # s # h) \<Longrightarrow> lawful (s # h) \<and> allowed s t"
  by (simp add: lawful_def)

lemma operational_since_boot:
  "lawful h \<Longrightarrow> operational (hd h) \<Longrightarrow>
   DataSyncing \<in> set (since_boot h) \<and> (\<forall>s\<in>set (since_boot h). operational s)"
proof (induction h)
  case Nil
  then show ?case by (simp add: lawful_def)
next
  case (Cons t h)
  show ?case
  proof (cases h)
    case Nil
    then show ?thesis using Cons.prems by (simp add: lawful_def operational_def)
  next
    case (Cons s h')
    have law: "lawful h" and al: "allowed s t"
      using Cons.prems(1) lawful_tail Cons by auto
    have t: "t \<noteq> Initializing" "operational t"
      using Cons.prems(2) by (auto simp: operational_def)
    then consider "t = DataSyncing" "s = Initializing" | "operational s"
      using al unfolding allowed_cases operational_def by blast
    then show ?thesis
    proof cases
      case 1
      then show ?thesis using Cons t by (simp add: since_boot_def)
    next
      case 2
      then have "DataSyncing \<in> set (since_boot h) \<and> (\<forall>s\<in>set (since_boot h). operational s)"
        using Cons.IH law Cons by simp
      then show ?thesis using t by (simp add: since_boot_def)
    qed
  qed
qed

lemma live_after_shadow:
  assumes "lawful h" "hd h = LiveExecution"
  shows "\<exists>h'. h = LiveExecution # LiveShadow # h'"
proof (cases h)
  case Nil
  then show ?thesis using assms(1) by (simp add: lawful_def)
next
  case (Cons t h1)
  then have t: "t = LiveExecution" using assms(2) by simp
  show ?thesis
  proof (cases h1)
    case Nil
    then show ?thesis using assms(1) Cons t by (simp add: lawful_def)
  next
    case (Cons s h2)
    then have "allowed s LiveExecution"
      using assms(1) \<open>h = t # h1\<close> t lawful_tail by blast
    then have "s = LiveShadow" by (simp add: allowed_cases)
    then show ?thesis using Cons \<open>h = t # h1\<close> t by simp
  qed
qed

lemma allowed_to_live: "allowed s LiveExecution \<longleftrightarrow> s = LiveShadow"
  by (auto simp: allowed_cases)

lemma live_after_shadow_or_reset:
  "lawful_with_resets h \<Longrightarrow> hd h = LiveExecution \<Longrightarrow>
   \<exists>h'. h = LiveExecution # LiveShadow # h' \<or> h = LiveExecution # Initializing # LiveShadow # h'"
  by (cases h rule: lawful_with_resets.cases) (auto simp: allowed_to_live)

section \<open>A call that nothing interrupts\<close>

lemma call_refines_process_command:
  assumes "cf_pc c t = Ready cmd now" "\<not> mm_is_locked (cf_machine c)"
  shows "\<exists>c'. master_step\<^sup>*\<^sup>* c c' \<and> (case process_command cmd now (cf_machine c) of
    (result, m') \<Rightarrow> cf_machine c' = m' \<and> cf_pc c' = (cf_pc c)(t := Returned result))
    \<and> cf_chaos_used c' = cf_chaos_used c"
proof -
  define s where "s = master_current (cf_machine c)"
  define ev where "ev = evaluate_transition s cmd"
  define r where "r = result_of s ev cmd now"
  define c1 where "c1 = set_pc t (Holding cmd now) (on_machine (\<lambda>m. m\<lparr>mm_is_locked := True\<rparr>) c)"
  define c2 where "c2 = set_pc t (Loaded cmd now s) c1"
  define c3 where "c3 = note_state (set_pc t (Storing r) (on_machine (store_transition s ev now) c2))"
  define c4 where "c4 = set_pc t (Unlocked r) (on_machine (\<lambda>m. m\<lparr>mm_is_locked := False\<rparr>) c3)"
  define c5 where "c5 = set_pc t (Returned r) (on_machine (log_result r) c4)"
  have "master_step c c1"
    unfolding c1_def using assms by (rule acquire)
  moreover have "master_step c1 c2"
    using load [of c1 t cmd now] by (simp add: c1_def c2_def s_def)
  moreover have "master_step c2 c3"
    unfolding c3_def r_def by (rule store) (simp_all add: c2_def ev_def)
  moreover have "master_step c3 c4"
    unfolding c4_def by (rule unlock) (simp add: c3_def)
  moreover have "master_step c4 c5"
    unfolding c5_def by (rule log) (simp add: c4_def)
  ultimately have "master_step\<^sup>*\<^sup>* c c5"
    by (meson converse_rtranclp_into_rtranclp r_into_rtranclp)
  moreover have "cf_machine c5 = log_result r
      ((store_transition s ev now ((cf_machine c)\<lparr>mm_is_locked := True\<rparr>))\<lparr>mm_is_locked := False\<rparr>)"
    by (simp add: c5_def c4_def c3_def c2_def c1_def)
  moreover have "cf_pc c5 = (cf_pc c)(t := Returned r)" "cf_chaos_used c5 = cf_chaos_used c"
    by (simp_all add: c5_def c4_def c3_def c2_def c1_def)
  moreover have "process_command cmd now (cf_machine c) = (r, log_result r
      ((store_transition s ev now ((cf_machine c)\<lparr>mm_is_locked := True\<rparr>))\<lparr>mm_is_locked := False\<rparr>))"
    unfolding process_command_def Let_def if_not_P [OF assms(2)] r_def ev_def s_def current_frames ..
  ultimately show ?thesis
    by (intro exI [of _ c5]) simp
qed

lemma reset_refines_force_reset:
  assumes "cf_pc c t = ResetCalled"
  shows "\<exists>c'. master_step\<^sup>*\<^sup>* c c' \<and> cf_machine c' = force_reset (cf_machine c) \<and> cf_pc c' t = ResetReturned"
proof (cases "mm_chaos_mode_flag (cf_machine c)")
  case False
  then have "master_step c (set_pc t ResetReturned c)" using reset_test [OF assms] by simp
  then show ?thesis using False by (intro exI [of _ "set_pc t ResetReturned c"]) (auto simp: force_reset_def)
next
  case True
  define c1 where "c1 = set_pc t ResetAllowed c"
  define c2 where "c2 = note_state (set_pc t ResetStored
      (on_machine (\<lambda>m. m\<lparr>mm_current_state := master_state_code Initializing\<rparr>) c1))"
  define c3 where "c3 = set_pc t ResetCounted (on_machine (\<lambda>m. m\<lparr>mm_transition_count := 0\<rparr>) c2)"
  define c4 where "c4 = set_pc t ResetReturned (on_machine (\<lambda>m. m\<lparr>mm_transition_log := []\<rparr>) c3)"
  have "master_step c c1" using reset_test [OF assms] True by (simp add: c1_def)
  moreover have "master_step c1 c2" unfolding c2_def by (rule reset_state) (simp add: c1_def)
  moreover have "master_step c2 c3" unfolding c3_def by (rule reset_count) (simp add: c2_def)
  moreover have "master_step c3 c4" unfolding c4_def by (rule reset_log) (simp add: c3_def)
  ultimately have "master_step\<^sup>*\<^sup>* c c4" by (meson converse_rtranclp_into_rtranclp r_into_rtranclp)
  then show ?thesis
    using True by (intro exI [of _ c4]) (simp add: c4_def c3_def c2_def c1_def force_reset_def)
qed

text \<open>While a transition is in progress any command is refused, also one of the highest priority.\<close>

lemma command_refused_while_locked:
  assumes "cf_pc c t = Ready cmd now" "mm_is_locked (cf_machine c)"
  shows "\<exists>c' r. master_step\<^sup>*\<^sup>* c c' \<and> cf_pc c' t = Returned r \<and> \<not> tr_success r
    \<and> master_current (cf_machine c') = master_current (cf_machine c)
    \<and> mm_transition_log (cf_machine c') = mm_transition_log (cf_machine c)"
proof -
  define s where "s = master_current (cf_machine c)"
  define r where "r = refused_result s s cmd now"
  define c1 where "c1 = set_pc t (Refusing cmd now) (on_machine (\<lambda>m. m\<lparr>mm_is_locked := True\<rparr>) c)"
  define c2 where "c2 = set_pc t (RefusingFrom cmd now s) c1"
  define c3 where "c3 = set_pc t (Returned r) c2"
  have "master_step c c1"
    unfolding c1_def using assms by (rule found_taken)
  moreover have "master_step c1 c2"
    using refuse_from [of c1 t cmd now] by (simp add: c1_def c2_def s_def)
  moreover have "master_step c2 c3"
    using refuse_to [of c2 t cmd now s] by (simp add: c1_def c2_def c3_def r_def s_def)
  ultimately have "master_step\<^sup>*\<^sup>* c c3"
    by (meson converse_rtranclp_into_rtranclp r_into_rtranclp)
  moreover have "cf_pc c3 t = Returned r" "\<not> tr_success r"
    by (simp_all add: c3_def r_def refused_result_def)
  moreover have "master_current (cf_machine c3) = master_current (cf_machine c)"
    "mm_transition_log (cf_machine c3) = mm_transition_log (cf_machine c)"
    by (simp_all add: c3_def c2_def c1_def)
  ultimately show ?thesis by blast
qed

section \<open>Properties\<close>

text \<open>C5. Any number of threads may process commands, reset the machine and switch chaos mode, in any
  interleaving of their steps.  At most one is inside a transition at a time.  While chaos mode has never
  been switched on, the values that the current state takes are steps of the table from \<open>Initializing\<close>
  on, and when it is \<open>LiveExecution\<close> the system was in \<open>LiveShadow\<close> immediately before, has synchronised
  its data since the last initialisation, and has been in no terminal state since.  Once chaos mode has
  been on, \<open>LiveExecution\<close> still follows \<open>LiveShadow\<close>, but a reset may have come between them.\<close>

theorem live_only_through_shadow:
  "reachable c \<Longrightarrow>
   (\<forall>t u. critical (cf_pc c t) \<and> critical (cf_pc c u) \<longrightarrow> t = u)
   \<and> lawful_with_resets (cf_history c) \<and> (\<not> cf_chaos_used c \<longrightarrow> lawful (cf_history c))
   \<and> hd (cf_history c) = master_current (cf_machine c)
   \<and> (master_current (cf_machine c) = LiveExecution \<longrightarrow>
       (\<exists>h. cf_history c = LiveExecution # LiveShadow # h
          \<or> cf_chaos_used c \<and> cf_history c = LiveExecution # Initializing # LiveShadow # h)
       \<and> (\<not> cf_chaos_used c \<longrightarrow> DataSyncing \<in> set (since_boot (cf_history c))
            \<and> (\<forall>s\<in>set (since_boot (cf_history c)). operational s)))"
proof -
  assume "reachable c"
  then have inv: "master_inv c" by (rule reachable_inv)
  then have law: "lawful_with_resets (cf_history c)" "\<not> cf_chaos_used c \<longrightarrow> lawful (cf_history c)"
    and hd: "hd (cf_history c) = master_current (cf_machine c)"
    and ex: "\<forall>t u. critical (cf_pc c t) \<and> critical (cf_pc c u) \<longrightarrow> t = u"
    unfolding master_inv_def by blast+
  have "(\<exists>h. cf_history c = LiveExecution # LiveShadow # h
          \<or> cf_chaos_used c \<and> cf_history c = LiveExecution # Initializing # LiveShadow # h)
       \<and> (\<not> cf_chaos_used c \<longrightarrow> DataSyncing \<in> set (since_boot (cf_history c))
            \<and> (\<forall>s\<in>set (since_boot (cf_history c)). operational s))"
    if live: "master_current (cf_machine c) = LiveExecution"
  proof (cases "cf_chaos_used c")
    case True
    then show ?thesis using live_after_shadow_or_reset [OF law(1)] hd live by auto
  next
    case False
    moreover have "hd (cf_history c) = LiveExecution" using hd live by simp
    ultimately show ?thesis
      using live_after_shadow [of "cf_history c"] operational_since_boot [of "cf_history c"] law(2)
      by (simp add: operational_def)
  qed
  then show ?thesis using law hd ex by blast
qed

definition boot_config :: config where
  "boot_config = \<lparr>cf_machine = new_master, cf_pc = (\<lambda>t. if t = 1 then ResetCalled else Ready StartDataSync 0), cf_history = [Initializing],
     cf_chaos_used = False\<rparr>"

lemma boot_reachable: "reachable boot_config"
  unfolding reachable_def by (intro exI [of _ boot_config]) (simp add: initial_def boot_config_def)

text \<open>One thread that is alone carries out a command and is ready for the next.\<close>

lemma reachable_command:
  assumes "reachable c" "cf_pc c t = Ready cmd now" "\<not> mm_is_locked (cf_machine c)"
    "evaluate_transition (master_current (cf_machine c)) cmd = (s, True, reason)"
  shows "\<exists>c'. reachable c' \<and> cf_pc c' = (cf_pc c)(t := Ready cmd' now') \<and> \<not> mm_is_locked (cf_machine c')
    \<and> master_current (cf_machine c') = s \<and> cf_chaos_used c' = cf_chaos_used c"
proof -
  obtain r m' where p: "process_command cmd now (cf_machine c) = (r, m')"
    by (cases "process_command cmd now (cf_machine c)")
  then obtain c1 where c1: "master_step\<^sup>*\<^sup>* c c1" "cf_machine c1 = m'" "cf_pc c1 = (cf_pc c)(t := Returned r)"
      "cf_chaos_used c1 = cf_chaos_used c"
    using call_refines_process_command [OF assms(2,3)] by auto
  have m': "\<not> mm_is_locked m'" "master_current m' = s"
    using p assms(3,4)
    by (auto simp: process_command_def Let_def store_transition_def log_result_def master_current_def)
  have "master_step c1 (set_pc t (Ready cmd' now') c1)"
    by (rule call [where r = r]) (simp_all add: c1(3))
  moreover have "reachable c1"
    using assms(1) c1(1) unfolding reachable_def by (meson rtranclp_trans)
  ultimately have "reachable (set_pc t (Ready cmd' now') c1)"
    unfolding reachable_def by (meson rtranclp.rtrancl_into_rtrancl)
  then show ?thesis
    using c1(2-4) m' by (intro exI [of _ "set_pc t (Ready cmd' now') c1"]) simp
qed

text \<open>Thread 0 has brought the system to \<open>LiveShadow\<close> and is about to enter \<open>LiveExecution\<close>; thread 1 is
  about to reset.\<close>

lemma shadow_reachable:
  "\<exists>c. reachable c \<and> cf_pc c 0 = Ready EnterLiveExecution 2 \<and> cf_pc c 1 = ResetCalled \<and> \<not> mm_is_locked (cf_machine c)
     \<and> master_current (cf_machine c) = LiveShadow \<and> \<not> cf_chaos_used c"
proof -
  have boot: "cf_pc boot_config 0 = Ready StartDataSync 0" "\<not> mm_is_locked (cf_machine boot_config)"
    "master_current (cf_machine boot_config) = Initializing" "cf_pc boot_config 1 = ResetCalled"
    "\<not> cf_chaos_used boot_config"
    by (simp_all add: boot_config_def new_master_def master_current_def decode_master_state_def)
  obtain c1 where c1: "reachable c1" "cf_pc c1 = (cf_pc boot_config)(0 := Ready EnterLiveShadow 1)"
    "\<not> mm_is_locked (cf_machine c1)" "master_current (cf_machine c1) = DataSyncing" "\<not> cf_chaos_used c1"
    using reachable_command [OF boot_reachable boot(1,2), where s = DataSyncing and reason = None
        and cmd' = EnterLiveShadow and now' = 1] boot(3,5) by auto
  then have "cf_pc c1 0 = Ready EnterLiveShadow 1" by simp
  then obtain c2 where "reachable c2" "cf_pc c2 = (cf_pc c1)(0 := Ready EnterLiveExecution 2)"
    "\<not> mm_is_locked (cf_machine c2)" "master_current (cf_machine c2) = LiveShadow" "\<not> cf_chaos_used c2"
    using reachable_command [OF c1(1) _ c1(3), where s = LiveShadow and reason = None and t = 0
        and cmd' = EnterLiveExecution and now' = 2] c1(4,5) by fastforce
  then show ?thesis using c1(2) boot(4) by (intro exI [of _ c2]) simp
qed

lemma live_reachable: "\<exists>c. reachable c \<and> master_current (cf_machine c) = LiveExecution \<and> \<not> cf_chaos_used c"
proof -
  obtain c where c: "reachable c" "cf_pc c 0 = Ready EnterLiveExecution 2" "\<not> mm_is_locked (cf_machine c)"
    "master_current (cf_machine c) = LiveShadow" "\<not> cf_chaos_used c"
    using shadow_reachable by blast
  show ?thesis
    using reachable_command [OF c(1-3), where s = LiveExecution and reason = None] c(4,5) by fastforce
qed

theorem live_only_through_shadow_witness:
  "\<exists>c h. reachable c \<and> master_current (cf_machine c) = LiveExecution \<and> cf_history c = LiveExecution # LiveShadow # h
     \<and> DataSyncing \<in> set (since_boot (cf_history c))"
proof -
  obtain c where c: "reachable c" "master_current (cf_machine c) = LiveExecution" "\<not> cf_chaos_used c"
    using live_reachable by blast
  then show ?thesis
    using live_only_through_shadow [OF c(1)] by blast
qed

text \<open>The reset does not take the flag: between the load and the store of a transition it puts the system
  back to \<open>Initializing\<close>, and the transition enters \<open>LiveExecution\<close> all the same.\<close>

lemma reset_races_with_transition:
  "\<exists>c h. reachable c \<and> cf_history c = LiveExecution # Initializing # LiveShadow # h
     \<and> master_can_trade (cf_machine c)"
proof -
  obtain c where c: "reachable c" "cf_pc c 0 = Ready EnterLiveExecution 2" "cf_pc c 1 = ResetCalled"
    "\<not> mm_is_locked (cf_machine c)" "master_current (cf_machine c) = LiveShadow"
    using shadow_reachable by blast
  have "master_inv c" using c(1) by (rule reachable_inv)
  then have "cf_history c \<noteq> []" "hd (cf_history c) = LiveShadow"
    using c(5) unfolding master_inv_def by auto
  then obtain h where h: "cf_history c = LiveShadow # h" by (cases "cf_history c") auto
  define c1 where "c1 = on_machine activate_chaos_mode c\<lparr>cf_chaos_used := True\<rparr>"
  define c2 where "c2 = set_pc 0 (Holding EnterLiveExecution 2) (on_machine (\<lambda>m. m\<lparr>mm_is_locked := True\<rparr>) c1)"
  define c3 where "c3 = set_pc 0 (Loaded EnterLiveExecution 2 LiveShadow) c2"
  define c4 where "c4 = set_pc 1 ResetAllowed c3"
  define c5 where "c5 = note_state (set_pc 1 ResetStored
      (on_machine (\<lambda>m. m\<lparr>mm_current_state := master_state_code Initializing\<rparr>) c4))"
  let ?ev = "evaluate_transition LiveShadow EnterLiveExecution"
  define c6 where "c6 = note_state (set_pc 0 (Storing (result_of LiveShadow ?ev EnterLiveExecution 2))
      (on_machine (store_transition LiveShadow ?ev 2) c5))"
  have pcs: "cf_pc c1 = cf_pc c" "cf_machine c1 = activate_chaos_mode (cf_machine c)" "cf_history c1 = cf_history c"
    by (simp_all add: c1_def)
  have "master_step c c1" unfolding c1_def by (rule chaos_on)
  moreover have "master_step c1 c2" unfolding c2_def by (rule acquire) (simp_all add: pcs c(2,4))
  moreover have "master_step c2 c3"
    using load [of c2 0 EnterLiveExecution 2] by (simp add: c2_def c3_def pcs c(5))
  moreover have "master_step c3 c4"
  proof -
    have "cf_pc c3 1 = ResetCalled" "mm_chaos_mode_flag (cf_machine c3)"
      using c(3) by (simp_all add: c3_def c2_def pcs activate_chaos_mode_def)
    then show ?thesis using reset_test [of c3 1] unfolding c4_def by simp
  qed
  moreover have "master_step c4 c5" unfolding c5_def by (rule reset_state) (simp add: c4_def)
  moreover have "master_step c5 c6"
    unfolding c6_def by (rule store [where t = 0 and cmd = EnterLiveExecution]) (simp_all add: c5_def c4_def c3_def)
  ultimately have "master_step\<^sup>*\<^sup>* c c6" by (meson converse_rtranclp_into_rtranclp r_into_rtranclp)
  then have "reachable c6" using c(1) unfolding reachable_def by (meson rtranclp_trans)
  moreover have h5: "cf_history c5 = Initializing # LiveShadow # h"
    by (simp add: c5_def c4_def c3_def c2_def pcs h note_state_def Let_def set_pc_def on_machine_def)
  have live: "master_current (cf_machine c6) = LiveExecution" by (simp add: c6_def master_current_store)
  then have "cf_history c6 = LiveExecution # Initializing # LiveShadow # h"
    using h5 by (simp add: c6_def note_state_def Let_def master_current_store)
  ultimately show ?thesis
    using live by (intro exI [of _ c6] exI [of _ h]) (simp add: master_can_trade_def can_trade_state_def)
qed

end
