(* ===== verification/Reconciliation.thy ===== *)
theory Reconciliation
  imports Nexus_Prelude
begin

text \<open>
  Reconciliation of the local order management state with the exchange, \<open>crates/nexus_reconcile\<close>: the
  snapshot that the trading thread publishes (\<open>ledger/lock_free_oms_snapshot.rs\<close>), the detector of
  drift and phantom fills that reads it (\<open>ledger/phantom_fill_detector.rs\<close>), and the control flow of
  the poller that fetches the exchange's state (\<open>ledger/shadow_state_poller.rs\<close>).  The published
  block is replaced as a whole, and the flag \<open>write_in_progress\<close> is never used; a reader loads it twice, and the updates that the writer makes before
  and between the two loads are arguments.  A loop that need not end is a partial function into
  \<open>option\<close>, where \<open>None\<close> means that it does not return.
\<close>

section \<open>The published state\<close>

record oms_block =
  ob_epoch_id :: u64
  ob_total_balance :: i128
  ob_net_position_value :: i128
  ob_unrealized_pnl :: i128
  ob_active_order_count :: u32
  ob_last_update_ns :: u64
  ob_order_state_hash :: u64

definition new_block :: oms_block where
  "new_block = \<lparr>ob_epoch_id = 0, ob_total_balance = 0, ob_net_position_value = 0, ob_unrealized_pnl = 0,
     ob_active_order_count = 0, ob_last_update_ns = 0, ob_order_state_hash = 0\<rparr>"

record oms_snapshot =
  os_state :: oms_block
  os_snapshot_count :: u64
  os_retry_count :: u64

definition new_snapshot :: oms_snapshot where
  "new_snapshot = \<lparr>os_state = new_block, os_snapshot_count = 0, os_retry_count = 0\<rparr>"

text \<open>The arguments of one update, and the clock reading it takes.\<close>

record oms_update =
  ou_total_balance :: i128
  ou_net_position_value :: i128
  ou_unrealized_pnl :: i128
  ou_active_order_count :: u32
  ou_order_state_hash :: u64
  ou_now_ns :: u64

definition update_state :: "oms_update \<Rightarrow> oms_snapshot \<Rightarrow> oms_snapshot" where
  "update_state u s =
     (let current_block = os_state s;
          new_epoch = ob_epoch_id current_block + 1 in
      s\<lparr>os_state :=
          \<lparr>ob_epoch_id = new_epoch, ob_total_balance = ou_total_balance u,
           ob_net_position_value = ou_net_position_value u, ob_unrealized_pnl = ou_unrealized_pnl u,
           ob_active_order_count = ou_active_order_count u, ob_last_update_ns = ou_now_ns u,
           ob_order_state_hash = ou_order_state_hash u\<rparr>,
        os_snapshot_count := os_snapshot_count s + 1\<rparr>)"

definition update_all :: "oms_update list \<Rightarrow> oms_snapshot \<Rightarrow> oms_snapshot" where
  "update_all us s = fold update_state us s"

definition count_retry :: "oms_snapshot \<Rightarrow> oms_snapshot" where
  "count_retry s = s\<lparr>os_retry_count := os_retry_count s + 1\<rparr>"

text \<open>
  One attempt to read: the first load has returned \<open>first_block\<close>, and at the second load the shared
  object is \<open>s\<close>.
\<close>

definition try_snapshot :: "oms_block \<Rightarrow> oms_snapshot \<Rightarrow> oms_block option \<times> oms_snapshot" where
  "try_snapshot first_block s =
     (if ob_epoch_id first_block mod 2 = 1 then (None, count_retry s)
      else
        let snapshot = first_block; second_block = os_state s in
        if ob_epoch_id snapshot \<noteq> ob_epoch_id second_block then (None, count_retry s)
        else if ob_epoch_id snapshot mod 2 = 1 then (None, count_retry s)
        else (Some snapshot, s))"

text \<open>
  The updates that fall before the first load of the \<open>n\<close>-th attempt and between its two loads.
\<close>

type_synonym snapshot_schedule = "nat \<Rightarrow> oms_update list \<times> oms_update list"

partial_function (option) snapshot_blocking ::
  "snapshot_schedule \<Rightarrow> nat \<Rightarrow> oms_snapshot \<Rightarrow> (oms_block \<times> oms_snapshot) option"
where
  "snapshot_blocking sched n s =
     (let s1 = update_all (fst (sched n)) s; s2 = update_all (snd (sched n)) s1 in
      case try_snapshot (os_state s1) s2 of
        (Some b, s3) \<Rightarrow> Some (b, s3)
      | (None, s3) \<Rightarrow> snapshot_blocking sched (n + 1) s3)"

record snapshot_stats =
  ss_total_snapshots :: u64
  ss_retry_count :: u64
  ss_current_epoch :: u64

definition snapshot_get_stats :: "oms_snapshot \<Rightarrow> snapshot_stats" where
  "snapshot_get_stats s =
     \<lparr>ss_total_snapshots = os_snapshot_count s, ss_retry_count = os_retry_count s,
      ss_current_epoch = ob_epoch_id (os_state s)\<rparr>"

subsection \<open>The epoch counts the updates\<close>

lemma update_all_Nil [simp]: "update_all [] s = s"
  by (simp add: update_all_def)

lemma update_all_append: "update_all (us @ vs) s = update_all vs (update_all us s)"
  by (simp add: update_all_def)

lemma epoch_update [simp]: "ob_epoch_id (os_state (update_state u s)) = ob_epoch_id (os_state s) + 1"
  by (simp add: update_state_def Let_def)

lemma epoch_update_all: "ob_epoch_id (os_state (update_all us s)) = ob_epoch_id (os_state s) + of_nat (length us)"
  unfolding update_all_def by (induction us arbitrary: s) simp_all

lemma word_mod_2_odd: "(w :: u64) mod 2 = 1 \<longleftrightarrow> odd (unat w)"
proof -
  have "unat (w mod 2) = unat w mod 2" by (simp add: unat_mod_distrib)
  then have "w mod 2 = 1 \<longleftrightarrow> unat w mod 2 = 1" by (metis unat_1 word_unat_eq_iff)
  then show ?thesis by (simp add: odd_iff_mod_2_eq_one)
qed

lemma odd_unat_of_nat: "odd (unat (of_nat n :: u64)) \<longleftrightarrow> odd n"
  by (simp add: unsigned_of_nat take_bit_eq_mod odd_iff_mod_2_eq_one mod_mod_cancel)

lemma of_nat_eq_0_u64: "(of_nat n :: u64) = 0 \<longleftrightarrow> 2 ^ 64 dvd n"
  using word_of_nat_eq_0_iff [of n, where 'a = 64] by simp

text \<open>What an attempt returns, for any number of updates before and between its loads.\<close>

definition published :: "oms_update list \<Rightarrow> oms_block" where
  "published us = os_state (update_all us new_snapshot)"

lemma epoch_published: "ob_epoch_id (published us) = of_nat (length us)"
  by (simp add: published_def epoch_update_all) (simp add: new_snapshot_def new_block_def)

lemma try_snapshot_result:
  assumes "ob_epoch_id first_block = of_nat i" "ob_epoch_id (os_state s) = of_nat (i + j)"
  shows "try_snapshot first_block s =
    (if even i \<and> 2 ^ 64 dvd j then (Some first_block, s) else (None, count_retry s))"
proof -
  have "ob_epoch_id first_block = ob_epoch_id (os_state s) \<longleftrightarrow> 2 ^ 64 dvd j"
    using assms of_nat_eq_0_u64 [of j] by auto
  then show ?thesis
    using assms(1) by (auto simp: try_snapshot_def Let_def word_mod_2_odd odd_unat_of_nat)
qed

text \<open>
  The attempt \<open>k\<close> of a reader that starts with attempt \<open>n\<close>, when \<open>e\<close> updates have been made before:
  it succeeds when the number of updates at its first load is even and none falls between the loads.
\<close>

definition updates_until :: "snapshot_schedule \<Rightarrow> nat \<Rightarrow> nat \<Rightarrow> nat" where
  "updates_until sched n k = (\<Sum>m = n..<k. length (fst (sched m)) + length (snd (sched m)))"

definition good_attempt :: "snapshot_schedule \<Rightarrow> nat \<Rightarrow> nat \<Rightarrow> nat \<Rightarrow> bool" where
  "good_attempt sched e n k \<longleftrightarrow>
     even (e + updates_until sched n k + length (fst (sched k))) \<and> 2 ^ 64 dvd length (snd (sched k))"

definition attempt :: "snapshot_schedule \<Rightarrow> nat \<Rightarrow> oms_snapshot \<Rightarrow> oms_block option \<times> oms_snapshot" where
  "attempt sched n s =
     (let s1 = update_all (fst (sched n)) s in try_snapshot (os_state s1) (update_all (snd (sched n)) s1))"

lemma snapshot_blocking_attempt:
  "snapshot_blocking sched n s =
     (case attempt sched n s of
        (Some b, s3) \<Rightarrow> Some (b, s3)
      | (None, s3) \<Rightarrow> snapshot_blocking sched (n + 1) s3)"
  by (subst snapshot_blocking.simps) (simp add: attempt_def Let_def)

lemma attempt_result:
  assumes "ob_epoch_id (os_state s) = of_nat e"
  shows "attempt sched n s =
    (let s1 = update_all (fst (sched n)) s; s2 = update_all (snd (sched n)) s1 in
     if good_attempt sched e n n then (Some (os_state s1), s2) else (None, count_retry s2))"
  using assms try_snapshot_result [of "os_state (update_all (fst (sched n)) s)" "e + length (fst (sched n))"
      "update_all (snd (sched n)) (update_all (fst (sched n)) s)" "length (snd (sched n))"]
  by (simp add: attempt_def good_attempt_def updates_until_def Let_def epoch_update_all)

lemma epoch_count_retry [simp]: "os_state (count_retry s) = os_state s"
  by (simp add: count_retry_def)

lemma epoch_after_attempt:
  assumes "ob_epoch_id (os_state s) = of_nat e" "attempt sched n s = (r, s')"
  shows "ob_epoch_id (os_state s') = of_nat (e + length (fst (sched n)) + length (snd (sched n)))"
  using assms attempt_result [OF assms(1), of sched n]
  by (auto simp: Let_def epoch_update_all split: if_splits)

lemma good_attempt_later:
  assumes "n < k"
  shows "good_attempt sched (e + length (fst (sched n)) + length (snd (sched n))) (n + 1) k
    \<longleftrightarrow> good_attempt sched e n k"
proof -
  have "updates_until sched n k
      = (length (fst (sched n)) + length (snd (sched n))) + updates_until sched (n + 1) k"
    using assms by (simp add: updates_until_def sum.atLeast_Suc_lessThan)
  then have "e + length (fst (sched n)) + length (snd (sched n)) + updates_until sched (n + 1) k
      = e + updates_until sched n k"
    by simp
  then show ?thesis by (simp only: good_attempt_def)
qed

lemma blocking_returns:
  assumes "good_attempt sched e n k" "n \<le> k" "ob_epoch_id (os_state s) = of_nat e"
  shows "\<exists>r. snapshot_blocking sched n s = Some r"
  using assms
proof (induction "k - n" arbitrary: n e s)
  case 0
  then have "good_attempt sched e n n" by simp
  with 0 show ?case
    by (subst snapshot_blocking_attempt) (simp add: attempt_result Let_def)
next
  case (Suc d)
  obtain r s' where at: "attempt sched n s = (r, s')" by (cases "attempt sched n s")
  let ?e = "e + length (fst (sched n)) + length (snd (sched n))"
  have "\<exists>r. snapshot_blocking sched (n + 1) s' = Some r"
  proof (rule Suc.hyps(1))
    show "d = k - (n + 1)" using Suc.hyps(2) by simp
    show "good_attempt sched ?e (n + 1) k"
      using Suc.prems(1) Suc.hyps(2) by (simp only: good_attempt_later)
    show "n + 1 \<le> k" using Suc.hyps(2) by simp
    show "ob_epoch_id (os_state s') = of_nat ?e"
      using Suc.prems(3) at by (rule epoch_after_attempt)
  qed
  then show ?case
    using at by (subst snapshot_blocking_attempt) (cases r, simp_all)
qed

lemma blocking_needs_good_attempt:
  assumes "snapshot_blocking sched n s = Some r" "ob_epoch_id (os_state s) = of_nat e"
  shows "\<exists>k \<ge> n. good_attempt sched e n k"
proof -
  have "\<forall>e. ob_epoch_id (os_state s) = of_nat e \<longrightarrow> (\<exists>k \<ge> n. good_attempt sched e n k)"
    using assms(1)
  proof (rule snapshot_blocking.raw_induct [rotated,
      where P = "\<lambda>sched n s r. \<forall>e. ob_epoch_id (os_state s) = of_nat e \<longrightarrow> (\<exists>k \<ge> n. good_attempt sched e n k)"],
      intro allI impI)
    fix rec sched n s r e
    assume ih: "\<And>sched n s r. rec sched n s = Some r
        \<Longrightarrow> \<forall>e. ob_epoch_id (os_state s) = of_nat e \<longrightarrow> (\<exists>k \<ge> n. good_attempt sched e n k)"
      and body: "(let s1 = update_all (fst (sched n)) s; s2 = update_all (snd (sched n)) s1 in
          case try_snapshot (os_state s1) s2 of
            (None, s3) \<Rightarrow> rec sched (n + 1) s3 | (Some b, s3) \<Rightarrow> Some (b, s3)) = Some r"
      and e: "ob_epoch_id (os_state s) = of_nat e"
    show "\<exists>k \<ge> n. good_attempt sched e n k"
    proof (cases "good_attempt sched e n n")
      case False
      obtain q s' where at: "attempt sched n s = (q, s')" by (cases "attempt sched n s")
      have "q = None" using at False attempt_result [OF e, of sched n] by (simp add: Let_def)
      then have "rec sched (n + 1) s' = Some r"
        using body at by (simp add: attempt_def Let_def)
      then obtain k where k: "n + 1 \<le> k"
        "good_attempt sched (e + length (fst (sched n)) + length (snd (sched n))) (n + 1) k"
        using ih epoch_after_attempt [OF e at] by blast
      then have "good_attempt sched e n k"
        using good_attempt_later [of n k sched e] by simp
      with k(1) show ?thesis by (auto intro: exI [of _ k])
    qed auto
  qed
  with assms(2) show ?thesis by blast
qed

lemma snapshot_blocking_returns_iff:
  assumes "ob_epoch_id (os_state s) = of_nat e"
  shows "(\<exists>r. snapshot_blocking sched n s = Some r) \<longleftrightarrow> (\<exists>k \<ge> n. good_attempt sched e n k)"
  using assms blocking_returns blocking_needs_good_attempt by blast

text \<open>What is returned has been published as a whole, after an even number of updates.\<close>

lemma os_state_update_all:
  "os_state s = os_state t \<Longrightarrow> os_state (update_all us s) = os_state (update_all us t)"
  unfolding update_all_def
  by (induction us arbitrary: s t) (simp_all add: update_state_def Let_def)

lemma os_state_published_append:
  "os_state s = published us \<Longrightarrow> os_state (update_all vs s) = published (us @ vs)"
  unfolding published_def by (metis os_state_update_all update_all_append)

text \<open>
  The updates made until the first load of attempt \<open>k\<close> of a reader that starts with attempt \<open>n\<close>; what
  the reader returns is the block published by exactly these, at the first good attempt.
\<close>

definition updates_at :: "snapshot_schedule \<Rightarrow> nat \<Rightarrow> nat \<Rightarrow> oms_update list" where
  "updates_at sched n k = concat (map (\<lambda>m. fst (sched m) @ snd (sched m)) [n..<k]) @ fst (sched k)"

definition first_good_attempt :: "snapshot_schedule \<Rightarrow> nat \<Rightarrow> nat \<Rightarrow> nat \<Rightarrow> bool" where
  "first_good_attempt sched e n k \<longleftrightarrow> n \<le> k \<and> good_attempt sched e n k \<and> (\<forall>j\<in>{n..<k}. \<not> good_attempt sched e n j)"

lemma updates_at_self [simp]: "updates_at sched k k = fst (sched k)"
  by (simp add: updates_at_def)

lemma updates_at_later:
  "n < k \<Longrightarrow> updates_at sched n k = fst (sched n) @ snd (sched n) @ updates_at sched (n + 1) k"
  by (simp add: updates_at_def upt_conv_Cons)

lemma first_good_attempt_later:
  assumes "first_good_attempt sched e n k" "n < k"
  shows "\<not> good_attempt sched e n n"
    "first_good_attempt sched (e + length (fst (sched n)) + length (snd (sched n))) (n + 1) k"
  using assms good_attempt_later [of n _ sched e] unfolding first_good_attempt_def by auto

lemma good_attempt_first: "good_attempt sched e n k \<Longrightarrow> n \<le> k \<Longrightarrow> \<exists>k. first_good_attempt sched e n k"
proof -
  assume "good_attempt sched e n k" "n \<le> k"
  then have k: "n \<le> k \<and> good_attempt sched e n k" by simp
  define j where "j = (LEAST k. n \<le> k \<and> good_attempt sched e n k)"
  have "n \<le> j \<and> good_attempt sched e n j" unfolding j_def using k by (rule LeastI)
  moreover have "\<not> good_attempt sched e n i" if "i \<in> {n..<j}" for i
    using that not_less_Least [of i "\<lambda>k. n \<le> k \<and> good_attempt sched e n k"] unfolding j_def by auto
  ultimately show ?thesis unfolding first_good_attempt_def by blast
qed

lemma blocking_returns_first_good:
  assumes "first_good_attempt sched (length us) n k" "os_state s = published us"
  shows "\<exists>s'. snapshot_blocking sched n s = Some (published (us @ updates_at sched n k), s') \<and>
    os_state s' = published (us @ updates_at sched n k @ snd (sched k))"
  using assms
proof (induction "k - n" arbitrary: n us s)
  case 0
  then have n: "n = k" and good: "good_attempt sched (length us) n n"
    by (auto simp: first_good_attempt_def)
  have e: "ob_epoch_id (os_state s) = of_nat (length us)" by (simp add: "0.prems"(2) epoch_published)
  let ?s1 = "update_all (fst (sched n)) s"
  have s1: "os_state ?s1 = published (us @ fst (sched n))"
    using "0.prems"(2) by (rule os_state_published_append)
  then have "os_state (update_all (snd (sched n)) ?s1) = published ((us @ fst (sched n)) @ snd (sched n))"
    by (rule os_state_published_append)
  then show ?case
    using s1 attempt_result [OF e, of sched n] good n
    by (subst snapshot_blocking_attempt) (simp add: Let_def)
next
  case (Suc d)
  then have lt: "n < k" by simp
  note later = first_good_attempt_later [OF Suc.prems(1) lt]
  have e: "ob_epoch_id (os_state s) = of_nat (length us)" by (simp add: Suc.prems(2) epoch_published)
  let ?s2 = "update_all (snd (sched n)) (update_all (fst (sched n)) s)"
  have at: "attempt sched n s = (None, count_retry ?s2)"
    using attempt_result [OF e, of sched n] later(1) by (simp add: Let_def)
  let ?us = "us @ fst (sched n) @ snd (sched n)"
  have "os_state (count_retry ?s2) = published ?us"
    using os_state_published_append [OF os_state_published_append [OF Suc.prems(2)]] by simp
  moreover have "first_good_attempt sched (length ?us) (n + 1) k" using later(2) by (simp add: add.assoc)
  moreover have "d = k - (n + 1)" using Suc.hyps(2) by simp
  ultimately obtain s' where "snapshot_blocking sched (n + 1) (count_retry ?s2) =
      Some (published (?us @ updates_at sched (n + 1) k), s')"
    "os_state s' = published (?us @ updates_at sched (n + 1) k @ snd (sched k))"
    using Suc.hyps(1) [of "n + 1" ?us "count_retry ?s2"] by blast
  then show ?case
    using at updates_at_later [OF lt, of sched] by (subst snapshot_blocking_attempt) simp
qed

text \<open>Whatever updates the writer makes before and during the reads, \<open>snapshot_blocking\<close> returns exactly
  when at some attempt the number of updates made so far is even and none (or a multiple of
  \<open>2 ^ 64\<close>) falls between its two loads; and it returns the block that the updates until the first such
  attempt have published, whole and never a mixture of two.\<close>

lemma snapshot_blocking_spec:
  "case snapshot_blocking sched 0 (update_all us new_snapshot) of
     None \<Rightarrow> \<nexists>k. good_attempt sched (length us) 0 k
   | Some (b, s') \<Rightarrow> \<exists>k. first_good_attempt sched (length us) 0 k
       \<and> b = published (us @ updates_at sched 0 k)
       \<and> os_state s' = published (us @ updates_at sched 0 k @ snd (sched k))"
proof -
  let ?s = "update_all us new_snapshot"
  have pub: "os_state ?s = published us" by (simp add: published_def)
  then have e: "ob_epoch_id (os_state ?s) = of_nat (length us)" by (simp add: epoch_published)
  note returns = snapshot_blocking_returns_iff [OF e, of sched 0]
  show ?thesis
  proof (cases "snapshot_blocking sched 0 ?s")
    case None
    then show ?thesis using returns by simp
  next
    case (Some r)
    then obtain k where k: "first_good_attempt sched (length us) 0 k"
      using returns good_attempt_first by blast
    from blocking_returns_first_good [OF k pub] Some show ?thesis using k by auto
  qed
qed

text \<open>A quiet writer: no update during the call.\<close>

definition quiet :: snapshot_schedule where
  "quiet = (\<lambda>_. ([], []))"

lemma good_attempt_quiet: "good_attempt quiet e n k \<longleftrightarrow> even e"
  by (simp add: good_attempt_def updates_until_def quiet_def)

lemma snapshot_blocking_quiet:
  "snapshot_blocking quiet n (update_all us new_snapshot) =
     (if even (length us) then Some (published us, update_all us new_snapshot) else None)"
proof -
  let ?s = "update_all us new_snapshot"
  have e: "ob_epoch_id (os_state ?s) = of_nat (length us)"
    using epoch_published by (simp add: published_def)
  show ?thesis
  proof (cases "even (length us)")
    case True
    then have "attempt quiet n ?s = (Some (published us), ?s)"
      using attempt_result [OF e, of quiet n] by (simp add: good_attempt_quiet Let_def published_def) (simp add: quiet_def)
    then show ?thesis
      using True by (subst snapshot_blocking_attempt) simp
  next
    case False
    then have "\<not> (\<exists>r. snapshot_blocking quiet n ?s = Some r)"
      unfolding snapshot_blocking_returns_iff [OF e] good_attempt_quiet by blast
    then have "snapshot_blocking quiet n ?s = None"
      by (metis option.exhaust)
    then show ?thesis
      using False by simp
  qed
qed

section \<open>The detector\<close>

record position_state =
  xp_symbol :: string
  xp_side :: int
  xp_qty :: i128
  xp_entry_price :: i128
  xp_unrealized_pnl :: i128

record exchange_order =
  xo_order_id :: string
  xo_symbol :: string
  xo_side :: int
  xo_qty :: i128
  xo_filled_qty :: i128
  xo_price :: i128
  xo_status :: string

text \<open>The balances are listed in the order in which the hash map happens to yield them.\<close>

record exchange_state =
  xs_balances :: "(string \<times> i128) list"
  xs_positions :: "string \<rightharpoonup> position_state"
  xs_active_orders :: "exchange_order list"
  xs_server_time_ms :: u64
  xs_epoch_id :: u64

datatype reconcile_result =
  ReconcileOk
| MinorDrift i128
| CriticalDrift i128 i128 i128
| PhantomFill string i128 i128

record phantom_fill_config =
  pc_balance_tolerance_scaled :: i128
  pc_halt_on_phantom_fill :: bool
  pc_max_fill_latency_ms :: u64

definition default_phantom_config :: phantom_fill_config where
  "default_phantom_config =
     \<lparr>pc_balance_tolerance_scaled = 100, pc_halt_on_phantom_fill = True, pc_max_fill_latency_ms = 1000\<rparr>"

record reconcile_stats =
  rs_total_reconciliations :: u64
  rs_successful_reconciliations :: u64
  rs_minor_drift_count :: u64
  rs_critical_drift_count :: u64
  rs_phantom_fills_detected :: u64
  rs_kill_switch_triggers :: u64

definition default_reconcile_stats :: reconcile_stats where
  "default_reconcile_stats =
     \<lparr>rs_total_reconciliations = 0, rs_successful_reconciliations = 0, rs_minor_drift_count = 0,
      rs_critical_drift_count = 0, rs_phantom_fills_detected = 0, rs_kill_switch_triggers = 0\<rparr>"

text \<open>The last field counts the calls of the callback, which is the caller's code.\<close>

record fill_detector =
  fd_config :: phantom_fill_config
  fd_kill_switch_triggered :: bool
  fd_reconcile_count :: u64
  fd_stats :: reconcile_stats
  fd_callback_set :: bool
  fd_callback_calls :: nat

definition new_detector :: "phantom_fill_config \<Rightarrow> fill_detector" where
  "new_detector cfg =
     \<lparr>fd_config = cfg, fd_kill_switch_triggered = False, fd_reconcile_count = 0,
      fd_stats = default_reconcile_stats, fd_callback_set = False, fd_callback_calls = 0\<rparr>"

definition set_kill_switch_callback :: "fill_detector \<Rightarrow> fill_detector" where
  "set_kill_switch_callback d = d\<lparr>fd_callback_set := True\<rparr>"

definition is_kill_switch_triggered :: "fill_detector \<Rightarrow> bool" where
  "is_kill_switch_triggered d = fd_kill_switch_triggered d"

definition reset_kill_switch :: "fill_detector \<Rightarrow> fill_detector" where
  "reset_kill_switch d = d\<lparr>fd_kill_switch_triggered := False\<rparr>"

definition trigger_kill_switch :: "fill_detector \<Rightarrow> fill_detector" where
  "trigger_kill_switch d =
     d\<lparr>fd_kill_switch_triggered := True,
       fd_stats := (fd_stats d)\<lparr>rs_kill_switch_triggers := rs_kill_switch_triggers (fd_stats d) + 1\<rparr>,
       fd_callback_calls := fd_callback_calls d + (if fd_callback_set d then 1 else 0)\<rparr>"

definition exchange_total :: "exchange_state \<Rightarrow> i128" where
  "exchange_total x = foldl (\<lambda>acc v. s128 (acc + v)) 0 (map snd (xs_balances x))"

definition i128_abs :: "i128 \<Rightarrow> i128" where
  "i128_abs x = s128 \<bar>x\<bar>"

fun detect_phantom_in :: "(string \<rightharpoonup> position_state) \<Rightarrow> exchange_order list \<Rightarrow> (string \<times> i128 \<times> i128) option" where
  "detect_phantom_in positions [] = None"
| "detect_phantom_in positions (order # orders) =
     (if xo_filled_qty order > 0 then
        (case positions (xo_symbol order) of
           Some pos \<Rightarrow>
             if xo_filled_qty order > xp_qty pos \<and> xo_status order = ''FILLED''
             then Some (xo_order_id order, xp_qty pos, xo_filled_qty order)
             else detect_phantom_in positions orders
         | None \<Rightarrow> detect_phantom_in positions orders)
      else detect_phantom_in positions orders)"

definition detect_phantom_fills :: "exchange_state \<Rightarrow> (string \<times> i128 \<times> i128) option" where
  "detect_phantom_fills x = detect_phantom_in (xs_positions x) (xs_active_orders x)"

definition with_reconcile_stats :: "(reconcile_stats \<Rightarrow> reconcile_stats) \<Rightarrow> fill_detector \<Rightarrow> fill_detector" where
  "with_reconcile_stats f d = d\<lparr>fd_stats := f (fd_stats d)\<rparr>"

text \<open>What \<open>detector_reconcile\<close> does once it has read the local state.\<close>

definition compare_with :: "oms_block \<Rightarrow> exchange_state \<Rightarrow> fill_detector \<Rightarrow> reconcile_result \<times> fill_detector" where
  "compare_with oms_state x d =
     (let total = exchange_total x;
          balance_diff = s128 (ob_total_balance oms_state - total);
          abs_diff = i128_abs balance_diff in
      if abs_diff > pc_balance_tolerance_scaled (fd_config d) then
        (CriticalDrift (ob_total_balance oms_state) total balance_diff,
         trigger_kill_switch (with_reconcile_stats (\<lambda>s. s\<lparr>rs_critical_drift_count := rs_critical_drift_count s + 1\<rparr>) d))
      else
        (case detect_phantom_fills x of
           Some (order_id, expected_filled, actual_filled) \<Rightarrow>
             (let d' = with_reconcile_stats (\<lambda>s. s\<lparr>rs_phantom_fills_detected := rs_phantom_fills_detected s + 1\<rparr>) d in
              (PhantomFill order_id expected_filled actual_filled,
               if pc_halt_on_phantom_fill (fd_config d) then trigger_kill_switch d' else d'))
         | None \<Rightarrow>
             if abs_diff > 0 then
               (MinorDrift balance_diff, with_reconcile_stats (\<lambda>s. s\<lparr>rs_minor_drift_count := rs_minor_drift_count s + 1\<rparr>) d)
             else
               (ReconcileOk,
                with_reconcile_stats (\<lambda>s. s\<lparr>rs_successful_reconciliations := rs_successful_reconciliations s + 1\<rparr>) d)))"

definition detector_reconcile ::
  "snapshot_schedule \<Rightarrow> exchange_state \<Rightarrow> fill_detector \<Rightarrow> oms_snapshot \<Rightarrow> (reconcile_result \<times> fill_detector \<times> oms_snapshot) option"
where
  "detector_reconcile sched x d s =
     (let d1 = d\<lparr>fd_reconcile_count := fd_reconcile_count d + 1\<rparr> in
      case snapshot_blocking sched 0 s of
        None \<Rightarrow> None
      | Some (oms_state, s') \<Rightarrow> (case compare_with oms_state x d1 of (r, d2) \<Rightarrow> Some (r, d2, s')))"

subsection \<open>When the kill switch is triggered\<close>

definition drift :: "oms_block \<Rightarrow> exchange_state \<Rightarrow> i128" where
  "drift b x = i128_abs (s128 (ob_total_balance b - exchange_total x))"

lemma trigger_kill_switch_triggered [simp]: "fd_kill_switch_triggered (trigger_kill_switch d)"
  by (simp add: trigger_kill_switch_def)

lemma with_reconcile_stats_frame [simp]:
  "fd_kill_switch_triggered (with_reconcile_stats f d) = fd_kill_switch_triggered d"
  "fd_callback_set (with_reconcile_stats f d) = fd_callback_set d" "fd_config (with_reconcile_stats f d) = fd_config d"
  by (simp_all add: with_reconcile_stats_def)

lemma compare_with_kill_switch:
  "fd_kill_switch_triggered (snd (compare_with b x d)) \<longleftrightarrow>
     fd_kill_switch_triggered d \<or> drift b x > pc_balance_tolerance_scaled (fd_config d)
     \<or> (detect_phantom_fills x \<noteq> None \<and> pc_halt_on_phantom_fill (fd_config d))"
  by (auto simp: compare_with_def Let_def drift_def split: option.splits)

text \<open>The first order that is reported, and when there is one.\<close>

definition phantom_order :: "(string \<rightharpoonup> position_state) \<Rightarrow> exchange_order \<Rightarrow> bool" where
  "phantom_order positions order \<longleftrightarrow> xo_filled_qty order > 0 \<and> xo_status order = ''FILLED''
     \<and> (\<exists>pos. positions (xo_symbol order) = Some pos \<and> xo_filled_qty order > xp_qty pos)"

lemma detect_phantom_in_iff: "detect_phantom_in ps os \<noteq> None \<longleftrightarrow> (\<exists>order \<in> set os. phantom_order ps order)"
  by (induction os) (auto simp: phantom_order_def split: option.splits)

lemma detect_phantom_fills_iff:
  "detect_phantom_fills x \<noteq> None \<longleftrightarrow> (\<exists>order \<in> set (xs_active_orders x). phantom_order (xs_positions x) order)"
  unfolding detect_phantom_fills_def by (rule detect_phantom_in_iff)

text \<open>A fill of a symbol that has no position, a fill that was missed altogether, is never reported.\<close>

lemma phantom_needs_position: "xs_positions x = Map.empty \<Longrightarrow> detect_phantom_fills x = None"
proof -
  assume "xs_positions x = Map.empty"
  then have "\<not> detect_phantom_fills x \<noteq> None"
    unfolding detect_phantom_fills_iff by (simp add: phantom_order_def)
  then show ?thesis by blast
qed

text \<open>The sum does not depend on the order in which the balances come.\<close>

lemma s128_add_left [simp]: "s128 (s128 x + y) = s128 (x + y)"
proof -
  have "(s128 x + y + 2 ^ 127) mod 2 ^ 128 = ((x + 2 ^ 127) mod 2 ^ 128 + y) mod (2 ^ 128 :: int)"
    by (simp add: s128_def)
  also have "\<dots> = (x + y + 2 ^ 127) mod 2 ^ 128"
    by (simp only: mod_add_left_eq) (simp add: ac_simps)
  finally show ?thesis by (simp add: s128_def)
qed

lemma foldl_s128: "foldl (\<lambda>acc v. s128 (acc + v)) (s128 a) vs = s128 (a + sum_list vs)"
proof (induction vs arbitrary: a)
  case (Cons v vs)
  show ?case using Cons [of "a + v"] by (simp add: add.assoc)
qed simp

lemma exchange_total_eq: "exchange_total x = s128 (sum_list (map snd (xs_balances x)))"
proof -
  have "s128 0 = 0" by (simp add: s128_def)
  then show ?thesis
    using foldl_s128 [of 0 "map snd (xs_balances x)"] by (simp add: exchange_total_def)
qed

lemma exchange_total_mset:
  "mset (xs_balances x) = mset (xs_balances y) \<Longrightarrow> exchange_total x = exchange_total y"
  by (metis exchange_total_eq mset_map sum_mset_sum_list)

section \<open>The poller\<close>

record poller_config =
  pl_poll_interval_ms :: u64
  pl_max_rate_limit_errors :: u32
  pl_initial_backoff_ms :: u64
  pl_max_backoff_ms :: u64
  pl_enable_jitter :: bool

definition default_poller_config :: poller_config where
  "default_poller_config =
     \<lparr>pl_poll_interval_ms = 5000, pl_max_rate_limit_errors = 5, pl_initial_backoff_ms = 1000,
      pl_max_backoff_ms = 60000, pl_enable_jitter = True\<rparr>"

record poller_stats =
  ps_total_polls :: u64
  ps_successful_polls :: u64
  ps_rate_limit_hits :: u64
  ps_connection_errors :: u64
  ps_state_drift_detections :: u64
  ps_current_backoff_ms :: u64
  ps_consecutive_rate_limits :: u32

record poller =
  po_config :: poller_config
  po_running :: bool
  po_stats :: poller_stats
  po_current_backoff_ms :: u64
  po_consecutive_rate_limits :: u32

definition new_poller :: "poller_config \<Rightarrow> poller" where
  "new_poller cfg =
     \<lparr>po_config = cfg, po_running = False,
      po_stats = \<lparr>ps_total_polls = 0, ps_successful_polls = 0, ps_rate_limit_hits = 0,
        ps_connection_errors = 0, ps_state_drift_detections = 0, ps_current_backoff_ms = 0,
        ps_consecutive_rate_limits = 0\<rparr>,
      po_current_backoff_ms = pl_initial_backoff_ms cfg, po_consecutive_rate_limits = 0\<rparr>"

definition start_poller :: "poller \<Rightarrow> poller" where
  "start_poller p = p\<lparr>po_running := True\<rparr>"

definition stop_poller :: "poller \<Rightarrow> poller" where
  "stop_poller p = p\<lparr>po_running := False\<rparr>"

text \<open>What the request to the exchange, which is input and output, comes back with.\<close>

datatype exchange_fetch = Fetched exchange_state | RateLimitExceeded u64 | HttpError | OtherError

text \<open>The random factor between 0.5 and 1.5 is applied by the parameter \<open>jitter\<close>.\<close>

definition handle_rate_limit :: "(u64 \<Rightarrow> u64) \<Rightarrow> u64 \<Rightarrow> poller \<Rightarrow> poller" where
  "handle_rate_limit jitter suggested_retry_after p =
     (let consecutive = po_consecutive_rate_limits p + 1;
          base_backoff = pl_initial_backoff_ms (po_config p) * 2 ^ unat (min consecutive 10);
          backoff = min base_backoff (pl_max_backoff_ms (po_config p));
          final_backoff = (if pl_enable_jitter (po_config p) then jitter backoff else backoff) in
      p\<lparr>po_consecutive_rate_limits := consecutive,
        po_stats := (po_stats p)\<lparr>ps_rate_limit_hits := ps_rate_limit_hits (po_stats p) + 1,
                                 ps_consecutive_rate_limits := consecutive\<rparr>,
        po_current_backoff_ms := max final_backoff (suggested_retry_after * 1000),
        po_running := (if consecutive \<ge> pl_max_rate_limit_errors (po_config p) then False else po_running p)\<rparr>)"

definition compare_states :: "snapshot_schedule \<Rightarrow> exchange_state \<Rightarrow> poller \<Rightarrow> oms_snapshot \<Rightarrow> (poller \<times> oms_snapshot) option" where
  "compare_states sched x p s =
     (case snapshot_blocking sched 0 s of
        None \<Rightarrow> None
      | Some (oms_state, s') \<Rightarrow>
          (let local = ob_total_balance oms_state; total = exchange_total x;
               tolerance = max (i128_abs local sdiv 10000) 1 in
           Some (if i128_abs (s128 (local - total)) > tolerance
                 then p\<lparr>po_stats := (po_stats p)\<lparr>ps_state_drift_detections := ps_state_drift_detections (po_stats p) + 1\<rparr>\<rparr>
                 else p, s')))"

definition poll_and_reconcile ::
  "(u64 \<Rightarrow> u64) \<Rightarrow> snapshot_schedule \<Rightarrow> exchange_fetch \<Rightarrow> poller \<Rightarrow> oms_snapshot \<Rightarrow> (poller \<times> oms_snapshot) option"
where
  "poll_and_reconcile jitter sched fetched p s =
     (let p1 = p\<lparr>po_stats := (po_stats p)\<lparr>ps_total_polls := ps_total_polls (po_stats p) + 1\<rparr>\<rparr> in
      case fetched of
        Fetched x \<Rightarrow>
          compare_states sched x
            (p1\<lparr>po_current_backoff_ms := pl_initial_backoff_ms (po_config p1),
                po_consecutive_rate_limits := 0,
                po_stats := (po_stats p1)\<lparr>ps_successful_polls := ps_successful_polls (po_stats p1) + 1\<rparr>\<rparr>) s
      | RateLimitExceeded retry_after \<Rightarrow> Some (handle_rate_limit jitter retry_after p1, s)
      | HttpError \<Rightarrow>
          Some (p1\<lparr>po_stats := (po_stats p1)\<lparr>ps_connection_errors := ps_connection_errors (po_stats p1) + 1\<rparr>\<rparr>, s)
      | OtherError \<Rightarrow> Some (p1, s))"

text \<open>What the loop of the background task sleeps, beyond the interval, before it polls.\<close>

definition poll_wait :: "poller \<Rightarrow> u64 option" where
  "poll_wait p =
     (if po_current_backoff_ms p > pl_initial_backoff_ms (po_config p) then Some (po_current_backoff_ms p) else None)"

text \<open>
  The loop itself, for the schedules and fetch results that its turns meet; \<open>None\<close> when a turn does
  not return.
\<close>

fun poll_loop ::
  "(u64 \<Rightarrow> u64) \<Rightarrow> (snapshot_schedule \<times> exchange_fetch) list \<Rightarrow> poller \<Rightarrow> oms_snapshot \<Rightarrow> (poller \<times> oms_snapshot) option"
where
  "poll_loop jitter [] p s = Some (p, s)"
| "poll_loop jitter ((sched, fetched) # turns) p s =
     (if \<not> po_running p then Some (p, s)
      else
        (case poll_and_reconcile jitter sched fetched p s of
           None \<Rightarrow> None
         | Some (p', s') \<Rightarrow> poll_loop jitter turns p' s'))"

subsection \<open>Rate limits stop the poller for good\<close>

lemma poll_loop_stopped: "\<not> po_running p \<Longrightarrow> poll_loop jitter turns p s = Some (p, s)"
  by (cases turns) auto

lemma handle_rate_limit_fields [simp]:
  "po_config (handle_rate_limit jitter r p) = po_config p"
  "po_consecutive_rate_limits (handle_rate_limit jitter r p) = po_consecutive_rate_limits p + 1"
  "po_running (handle_rate_limit jitter r p)
     = (po_running p \<and> po_consecutive_rate_limits p + 1 < pl_max_rate_limit_errors (po_config p))"
  by (simp_all add: handle_rate_limit_def Let_def not_le [symmetric])

lemma rate_limited_until_stopped:
  assumes "unat (po_consecutive_rate_limits p) + length rs < 2 ^ 32"
    "unat (po_consecutive_rate_limits p) + length rs \<ge> unat (pl_max_rate_limit_errors (po_config p))"
    "rs \<noteq> []"
  shows "\<exists>p'. poll_loop jitter (map (\<lambda>r. (sched, RateLimitExceeded r)) rs @ turns) p s = Some (p', s) \<and> \<not> po_running p'"
  using assms
proof (induction rs arbitrary: p)
  case Nil
  then show ?case by simp
next
  case (Cons r rs)
  show ?case
  proof (cases "po_running p")
    case True
    let ?p1 = "p\<lparr>po_stats := (po_stats p)\<lparr>ps_total_polls := ps_total_polls (po_stats p) + 1\<rparr>\<rparr>"
    let ?q = "handle_rate_limit jitter r ?p1"
    have step: "poll_loop jitter (map (\<lambda>r. (sched, RateLimitExceeded r)) (r # rs) @ turns) p s
        = poll_loop jitter (map (\<lambda>r. (sched, RateLimitExceeded r)) rs @ turns) ?q s"
      using True by (simp add: poll_and_reconcile_def Let_def)
    have inc: "unat (po_consecutive_rate_limits p + 1) = unat (po_consecutive_rate_limits p) + 1"
      using Cons.prems(1) by (intro unat_inc) simp
    show ?thesis
    proof (cases "rs = []")
      case True
      then have "\<not> po_running ?q"
        using Cons.prems(2) inc by (simp add: word_less_nat_alt)
      then show ?thesis
        using step by (simp add: poll_loop_stopped)
    next
      case False
      then show ?thesis
        using Cons.IH [of ?q] Cons.prems inc step by simp
    qed
  next
    case False
    then show ?thesis by (simp add: poll_loop_stopped)
  qed
qed

subsection \<open>Bounds of the wait\<close>

lemma backoff_bounded:
  assumes "\<not> pl_enable_jitter (po_config p)" "r * 1000 \<le> pl_max_backoff_ms (po_config p)"
  shows "po_current_backoff_ms (handle_rate_limit jitter r p) \<le> pl_max_backoff_ms (po_config p)"
  using assms by (simp add: handle_rate_limit_def Let_def)

section \<open>Properties\<close>

text \<open>C7. Whatever updates the writer makes before and during the call, a reconciliation returns exactly
  if at some attempt to read the local state the number of updates made so far is even and none (or a
  multiple of \<open>2 ^ 64\<close>) falls between the two loads: with a quiet writer, never after an odd number.  It
  then compares the block that was published until the first such attempt, and triggers the kill
  switch exactly when the drift of that block exceeds the tolerance or, if so configured, the exchange
  lists a filled order that is larger than its position.\<close>

theorem reconcile_decides_or_hangs:
  "case detector_reconcile sched x d (update_all us new_snapshot) of
     None \<Rightarrow> \<nexists>k. good_attempt sched (length us) 0 k
   | Some (_, d', _) \<Rightarrow> \<exists>k. first_good_attempt sched (length us) 0 k \<and>
       (is_kill_switch_triggered d' \<longleftrightarrow> is_kill_switch_triggered d
          \<or> drift (published (us @ updates_at sched 0 k)) x > pc_balance_tolerance_scaled (fd_config d)
          \<or> (pc_halt_on_phantom_fill (fd_config d)
              \<and> (\<exists>order. order \<in> set (xs_active_orders x) \<and> phantom_order (xs_positions x) order)))"
proof (cases "snapshot_blocking sched 0 (update_all us new_snapshot)")
  case None
  then show ?thesis
    using snapshot_blocking_spec [of sched us] by (simp add: detector_reconcile_def)
next
  case (Some p)
  obtain b s' where p: "p = (b, s')" by (cases p)
  obtain k where k: "first_good_attempt sched (length us) 0 k" "b = published (us @ updates_at sched 0 k)"
    using snapshot_blocking_spec [of sched us] Some p by auto
  let ?d = "d\<lparr>fd_reconcile_count := fd_reconcile_count d + 1\<rparr>"
  obtain r d' where c: "compare_with b x ?d = (r, d')" by (cases "compare_with b x ?d")
  have "detector_reconcile sched x d (update_all us new_snapshot) = Some (r, d', s')"
    using Some p c by (simp add: detector_reconcile_def)
  moreover have "detect_phantom_fills x \<noteq> None
      \<longleftrightarrow> (\<exists>order. order \<in> set (xs_active_orders x) \<and> phantom_order (xs_positions x) order)"
    unfolding detect_phantom_fills_iff by blast
  ultimately show ?thesis
    using k compare_with_kill_switch [of b x ?d] c
    by (auto simp: is_kill_switch_triggered_def)
qed

text \<open>With a quiet writer a reconciliation after an odd number of updates never returns, however far the
  balances are apart.\<close>

lemma quiet_reconcile_returns_iff_even:
  "(\<exists>r. detector_reconcile quiet x d (update_all us new_snapshot) = Some r) \<longleftrightarrow> even (length us)"
  by (simp add: detector_reconcile_def snapshot_blocking_quiet split: prod.split)

text \<open>A drift of 1000 units, which the detector's own tests expect to be found after one update.\<close>

lemma reconcile_hangs_example:
  "detector_reconcile quiet \<lparr>xs_balances = [(''USDT'', 99998000)], xs_positions = Map.empty, xs_active_orders = [],
      xs_server_time_ms = 0, xs_epoch_id = 0\<rparr> (new_detector default_phantom_config)
    (update_all [\<lparr>ou_total_balance = 100000000, ou_net_position_value = 50000000, ou_unrealized_pnl = 1000000,
       ou_active_order_count = 2, ou_order_state_hash = 12345, ou_now_ns = 7\<rparr>] new_snapshot) = None"
  by (simp add: detector_reconcile_def snapshot_blocking_quiet)

end
