(* ===== verification/Legging_Resolver.thy ===== *)
theory Legging_Resolver
  imports Nexus_Prelude
begin

text \<open>
  The resolver of the two legs of a cross-exchange trade,
  \<open>crates/nexus_portfolio/src/arb/atomic_legging_resolver.rs\<close>.  Its fields are atomics that one call
  at a time reads and writes.  The clock enters through \<open>Instant::now().elapsed()\<close>, the age of an
  instant that has just been taken; such a reading, in microseconds, is an argument of the operations
  that take one.
\<close>

section \<open>States\<close>

datatype leg_state = LegPending | LegFilled | LegRejected | LegTimedOut

fun leg_code :: "leg_state \<Rightarrow> u8" where
  "leg_code LegPending = 0"
| "leg_code LegFilled = 1"
| "leg_code LegRejected = 2"
| "leg_code LegTimedOut = 3"

definition u8_to_leg_state :: "u8 \<Rightarrow> leg_state" where
  "u8_to_leg_state v =
     (if v = 0 then LegPending else if v = 1 then LegFilled else if v = 2 then LegRejected
      else if v = 3 then LegTimedOut else LegPending)"

datatype dual_leg_state =
  BothPending | LegAFilledLegBPending | LegBFilledLegAPending | BothFilled | OrphanLegA | OrphanLegB | BothFailed

definition LEG_TIMEOUT_MICROS :: u64 where "LEG_TIMEOUT_MICROS = 500"

record legging_resolver =
  lr_leg_a_state :: u8
  lr_leg_b_state :: u8
  lr_leg_a_fill_size :: i128
  lr_leg_b_fill_size :: i128
  lr_expected_size :: i128
  lr_start_time_micros :: u64
  lr_sor_flatten_triggered :: bool
  lr_orphan_detected :: bool

definition new_legging_resolver :: legging_resolver where
  "new_legging_resolver =
     \<lparr>lr_leg_a_state = leg_code LegPending, lr_leg_b_state = leg_code LegPending,
      lr_leg_a_fill_size = 0, lr_leg_b_fill_size = 0, lr_expected_size = 0, lr_start_time_micros = 0,
      lr_sor_flatten_triggered = False, lr_orphan_detected = False\<rparr>"

definition leg_a :: "legging_resolver \<Rightarrow> leg_state" where
  "leg_a r = u8_to_leg_state (lr_leg_a_state r)"

definition leg_b :: "legging_resolver \<Rightarrow> leg_state" where
  "leg_b r = u8_to_leg_state (lr_leg_b_state r)"

section \<open>Operations\<close>

definition reset_for_new_trade :: "i128 \<Rightarrow> u64 \<Rightarrow> legging_resolver \<Rightarrow> legging_resolver" where
  "reset_for_new_trade expected_size micros r =
     r\<lparr>lr_leg_a_state := leg_code LegPending, lr_leg_b_state := leg_code LegPending,
       lr_leg_a_fill_size := 0, lr_leg_b_fill_size := 0, lr_expected_size := expected_size,
       lr_start_time_micros := micros, lr_sor_flatten_triggered := False, lr_orphan_detected := False\<rparr>"

definition record_leg_fill :: "u8 \<Rightarrow> i128 \<Rightarrow> legging_resolver \<Rightarrow> legging_resolver" where
  "record_leg_fill leg_index fill_size r =
     (if leg_index = 0 then r\<lparr>lr_leg_a_fill_size := fill_size, lr_leg_a_state := leg_code LegFilled\<rparr>
      else r\<lparr>lr_leg_b_fill_size := fill_size, lr_leg_b_state := leg_code LegFilled\<rparr>)"

fun is_orphan :: "leg_state \<Rightarrow> leg_state \<Rightarrow> bool" where
  "is_orphan LegFilled LegRejected = True"
| "is_orphan LegFilled LegTimedOut = True"
| "is_orphan LegRejected LegFilled = True"
| "is_orphan LegTimedOut LegFilled = True"
| "is_orphan _ _ = False"

definition check_for_orphan :: "legging_resolver \<Rightarrow> legging_resolver" where
  "check_for_orphan r = (if is_orphan (leg_a r) (leg_b r) then r\<lparr>lr_orphan_detected := True\<rparr> else r)"

definition record_leg_rejection :: "u8 \<Rightarrow> legging_resolver \<Rightarrow> legging_resolver" where
  "record_leg_rejection leg_index r =
     check_for_orphan
       (if leg_index = 0 then r\<lparr>lr_leg_a_state := leg_code LegRejected\<rparr>
        else r\<lparr>lr_leg_b_state := leg_code LegRejected\<rparr>)"

definition check_timeout :: "u64 \<Rightarrow> legging_resolver \<Rightarrow> bool \<times> legging_resolver" where
  "check_timeout current_micros r =
     (let start = lr_start_time_micros r in
      if start = 0 then (False, r)
      else
        let elapsed = saturating_sub current_micros start in
        if elapsed > LEG_TIMEOUT_MICROS then
          (let a = leg_a r; b = leg_b r;
               r1 = (if a = LegPending then r\<lparr>lr_leg_a_state := leg_code LegTimedOut\<rparr> else r);
               r2 = (if b = LegPending then r1\<lparr>lr_leg_b_state := leg_code LegTimedOut\<rparr> else r1) in
           (True, check_for_orphan r2))
        else (False, r))"

definition detect_orphan_leg :: "u64 \<Rightarrow> legging_resolver \<Rightarrow> bool \<times> legging_resolver" where
  "detect_orphan_leg current_micros r =
     (let r' = snd (check_timeout current_micros r) in (lr_orphan_detected r', r'))"

definition trigger_sor_flatten :: "legging_resolver \<Rightarrow> bool \<times> legging_resolver" where
  "trigger_sor_flatten r =
     (if \<not> lr_orphan_detected r then (False, r)
      else
        let a = leg_a r; b = leg_b r in
        if a = LegFilled \<and> (b = LegRejected \<or> b = LegTimedOut) then (True, r\<lparr>lr_sor_flatten_triggered := True\<rparr>)
        else if b = LegFilled \<and> (a = LegRejected \<or> a = LegTimedOut) then (True, r\<lparr>lr_sor_flatten_triggered := True\<rparr>)
        else (False, r))"

definition both_legs_filled :: "legging_resolver \<Rightarrow> bool" where
  "both_legs_filled r \<longleftrightarrow> leg_a r = LegFilled \<and> leg_b r = LegFilled"

fun dual_state :: "leg_state \<Rightarrow> leg_state \<Rightarrow> dual_leg_state" where
  "dual_state LegPending LegPending = BothPending"
| "dual_state LegFilled LegPending = LegAFilledLegBPending"
| "dual_state LegPending LegFilled = LegBFilledLegAPending"
| "dual_state LegFilled LegFilled = BothFilled"
| "dual_state LegFilled _ = OrphanLegA"
| "dual_state _ LegFilled = OrphanLegB"
| "dual_state _ _ = BothFailed"

definition get_dual_state :: "legging_resolver \<Rightarrow> dual_leg_state" where
  "get_dual_state r = dual_state (leg_a r) (leg_b r)"

definition is_sor_flatten_triggered :: "legging_resolver \<Rightarrow> bool" where
  "is_sor_flatten_triggered r = lr_sor_flatten_triggered r"

definition get_flatten_size :: "legging_resolver \<Rightarrow> i128" where
  "get_flatten_size r =
     (if leg_a r = LegFilled then lr_leg_a_fill_size r
      else if leg_b r = LegFilled then lr_leg_b_fill_size r
      else 0)"

lemma leg_code_inverse [simp]: "u8_to_leg_state (leg_code s) = s"
  by (cases s) (simp_all add: u8_to_leg_state_def)

subsection \<open>What the operations do to the legs\<close>

lemma legs_fill [simp]:
  "leg_a (record_leg_fill i q r) = (if i = 0 then LegFilled else leg_a r)"
  "leg_b (record_leg_fill i q r) = (if i = 0 then leg_b r else LegFilled)"
  "lr_orphan_detected (record_leg_fill i q r) = lr_orphan_detected r"
  "lr_start_time_micros (record_leg_fill i q r) = lr_start_time_micros r"
  by (simp_all add: record_leg_fill_def leg_a_def leg_b_def del: leg_code.simps)

lemma legs_check [simp]:
  "leg_a (check_for_orphan r) = leg_a r" "leg_b (check_for_orphan r) = leg_b r"
  "lr_orphan_detected (check_for_orphan r) = (lr_orphan_detected r \<or> is_orphan (leg_a r) (leg_b r))"
  "lr_start_time_micros (check_for_orphan r) = lr_start_time_micros r"
  by (simp_all add: check_for_orphan_def leg_a_def leg_b_def)

lemma legs_rejection [simp]:
  "leg_a (record_leg_rejection i r) = (if i = 0 then LegRejected else leg_a r)"
  "leg_b (record_leg_rejection i r) = (if i = 0 then leg_b r else LegRejected)"
  "lr_start_time_micros (record_leg_rejection i r) = lr_start_time_micros r"
  by (simp_all add: record_leg_rejection_def leg_a_def leg_b_def del: leg_code.simps)
    (simp_all add: leg_a_def leg_b_def check_for_orphan_def del: leg_code.simps)

lemma is_orphan_rejected [simp]:
  "is_orphan LegRejected b \<longleftrightarrow> b = LegFilled" "is_orphan a LegRejected \<longleftrightarrow> a = LegFilled"
  by (cases b; simp) (cases a; simp)

text \<open>The leg that is not the one of the index.\<close>

definition other_leg :: "u8 \<Rightarrow> legging_resolver \<Rightarrow> leg_state" where
  "other_leg i r = (if i = 0 then leg_b r else leg_a r)"

lemma orphan_rejection [simp]:
  "lr_orphan_detected (record_leg_rejection i r) = (lr_orphan_detected r \<or> other_leg i r = LegFilled)"
proof -
  have "leg_a (r\<lparr>lr_leg_a_state := leg_code LegRejected\<rparr>) = LegRejected"
    "leg_b (r\<lparr>lr_leg_a_state := leg_code LegRejected\<rparr>) = leg_b r"
    "leg_b (r\<lparr>lr_leg_b_state := leg_code LegRejected\<rparr>) = LegRejected"
    "leg_a (r\<lparr>lr_leg_b_state := leg_code LegRejected\<rparr>) = leg_a r"
    by (simp_all add: leg_a_def leg_b_def del: leg_code.simps)
  then show ?thesis
    by (simp add: record_leg_rejection_def other_leg_def del: leg_code.simps)
qed

section \<open>Histories of a trade\<close>

datatype leg_event = EvFill u8 i128 | EvReject u8 | EvPoll u64 | EvFlatten

fun leg_step :: "leg_event \<Rightarrow> legging_resolver \<Rightarrow> legging_resolver" where
  "leg_step (EvFill i q) r = record_leg_fill i q r"
| "leg_step (EvReject i) r = record_leg_rejection i r"
| "leg_step (EvPoll t) r = snd (detect_orphan_leg t r)"
| "leg_step EvFlatten r = snd (trigger_sor_flatten r)"

definition run_legs :: "leg_event list \<Rightarrow> legging_resolver \<Rightarrow> legging_resolver" where
  "run_legs evs r = fold leg_step evs r"

lemma run_legs_simps [simp]:
  "run_legs [] r = r" "run_legs (e # evs) r = run_legs evs (leg_step e r)"
  "run_legs (evs @ evs') r = run_legs evs' (run_legs evs r)"
  by (simp_all add: run_legs_def)

text \<open>
  The clock readings are ages of an instant taken in the statement before; they are called young when
  none exceeds the timeout.
\<close>

definition young :: "leg_event list \<Rightarrow> bool" where
  "young evs \<longleftrightarrow> (\<forall>t. EvPoll t \<in> set evs \<longrightarrow> t \<le> LEG_TIMEOUT_MICROS)"

lemma young_simps [simp]:
  "young []" "young (e # evs) \<longleftrightarrow> (\<forall>t. e = EvPoll t \<longrightarrow> t \<le> LEG_TIMEOUT_MICROS) \<and> young evs"
  "young (evs @ evs') \<longleftrightarrow> young evs \<and> young evs'"
  by (auto simp: young_def)

lemma check_timeout_young:
  assumes "t \<le> LEG_TIMEOUT_MICROS"
  shows "check_timeout t r = (False, r)"
proof -
  have "saturating_sub t (lr_start_time_micros r) \<le> LEG_TIMEOUT_MICROS"
    using saturating_sub_le assms by (rule order_trans)
  then have "\<not> LEG_TIMEOUT_MICROS < saturating_sub t (lr_start_time_micros r)"
    by (rule leD)
  then show ?thesis by (simp add: check_timeout_def Let_def)
qed

lemma flatten_keeps [simp]:
  "leg_a (snd (trigger_sor_flatten r)) = leg_a r" "leg_b (snd (trigger_sor_flatten r)) = leg_b r"
  "lr_orphan_detected (snd (trigger_sor_flatten r)) = lr_orphan_detected r"
  by (simp_all add: trigger_sor_flatten_def Let_def leg_a_def leg_b_def)

lemma poll_young [simp]: "t \<le> LEG_TIMEOUT_MICROS \<Longrightarrow> snd (detect_orphan_leg t r) = r"
  by (simp add: detect_orphan_leg_def check_timeout_young Let_def)

text \<open>No leg ever times out.\<close>

definition timed_out :: "legging_resolver \<Rightarrow> bool" where
  "timed_out r \<longleftrightarrow> leg_a r = LegTimedOut \<or> leg_b r = LegTimedOut"

lemma young_step_not_timed_out:
  assumes "\<not> timed_out r" "\<forall>t. e = EvPoll t \<longrightarrow> t \<le> LEG_TIMEOUT_MICROS"
  shows "\<not> timed_out (leg_step e r)"
  using assms by (cases e) (auto simp: timed_out_def)

lemma young_run_not_timed_out: "young evs \<Longrightarrow> \<not> timed_out r \<Longrightarrow> \<not> timed_out (run_legs evs r)"
  by (induction evs arbitrary: r) (simp_all add: young_step_not_timed_out)

text \<open>The flag is set by a rejection that finds the other leg filled, and by nothing else.\<close>

definition rejected_after_fill :: "leg_event list \<Rightarrow> legging_resolver \<Rightarrow> bool" where
  "rejected_after_fill evs r \<longleftrightarrow>
     (\<exists>pre i post. evs = pre @ EvReject i # post \<and> other_leg i (run_legs pre r) = LegFilled)"

lemma rejected_after_fill_Nil [simp]: "\<not> rejected_after_fill [] r"
  by (simp add: rejected_after_fill_def)

lemma rejected_after_fill_Cons:
  "rejected_after_fill (e # evs) r \<longleftrightarrow>
     (\<exists>i. e = EvReject i \<and> other_leg i r = LegFilled) \<or> rejected_after_fill evs (leg_step e r)"
proof
  assume "rejected_after_fill (e # evs) r"
  then obtain pre i post where *: "e # evs = pre @ EvReject i # post" "other_leg i (run_legs pre r) = LegFilled"
    unfolding rejected_after_fill_def by blast
  then show "(\<exists>i. e = EvReject i \<and> other_leg i r = LegFilled) \<or> rejected_after_fill evs (leg_step e r)"
    by (cases pre) (auto simp: rejected_after_fill_def)
next
  assume "(\<exists>i. e = EvReject i \<and> other_leg i r = LegFilled) \<or> rejected_after_fill evs (leg_step e r)"
  then show "rejected_after_fill (e # evs) r"
  proof
    assume "\<exists>i. e = EvReject i \<and> other_leg i r = LegFilled"
    then obtain i where "e # evs = [] @ EvReject i # evs" "other_leg i (run_legs [] r) = LegFilled" by auto
    then show ?thesis unfolding rejected_after_fill_def by blast
  next
    assume "rejected_after_fill evs (leg_step e r)"
    then obtain pre i post where "e # evs = (e # pre) @ EvReject i # post"
      "other_leg i (run_legs (e # pre) r) = LegFilled"
      unfolding rejected_after_fill_def by auto
    then show ?thesis unfolding rejected_after_fill_def by blast
  qed
qed

lemma orphan_flag_run:
  "young evs \<Longrightarrow> lr_orphan_detected (run_legs evs r) \<longleftrightarrow> lr_orphan_detected r \<or> rejected_after_fill evs r"
proof (induction evs arbitrary: r)
  case (Cons e evs)
  then show ?case by (cases e) (auto simp: rejected_after_fill_Cons)
qed simp

lemma reset_legs [simp]:
  "leg_a (reset_for_new_trade q t r) = LegPending" "leg_b (reset_for_new_trade q t r) = LegPending"
  "\<not> lr_orphan_detected (reset_for_new_trade q t r)"
  by (simp_all add: reset_for_new_trade_def leg_a_def leg_b_def del: leg_code.simps)

text \<open>When the flatten is triggered, one leg is filled, the other has failed, and the size is its fill.\<close>

lemma trigger_sound:
  assumes "fst (trigger_sor_flatten r)"
  shows "lr_orphan_detected r
    \<and> (get_dual_state r = OrphanLegA \<and> get_flatten_size r = lr_leg_a_fill_size r
       \<or> get_dual_state r = OrphanLegB \<and> get_flatten_size r = lr_leg_b_fill_size r)"
  using assms
  by (auto simp: trigger_sor_flatten_def get_dual_state_def get_flatten_size_def Let_def split: if_splits)

lemma trigger_complete:
  assumes "lr_orphan_detected r" "\<not> timed_out r"
  shows "fst (trigger_sor_flatten r) \<longleftrightarrow> get_dual_state r = OrphanLegA \<or> get_dual_state r = OrphanLegB"
  using assms
  by (cases "leg_a r"; cases "leg_b r")
    (auto simp: trigger_sor_flatten_def get_dual_state_def timed_out_def Let_def)

text \<open>A leg whose hedge was rejected before it filled stays open and undetected.\<close>

lemma orphan_missed:
  assumes "i = 0 \<longleftrightarrow> j \<noteq> 0" "t \<le> LEG_TIMEOUT_MICROS"
  shows "let r = run_legs [EvReject i, EvFill j q] (reset_for_new_trade e s r0) in
    (get_dual_state r = OrphanLegA \<or> get_dual_state r = OrphanLegB)
    \<and> \<not> fst (detect_orphan_leg t r) \<and> \<not> fst (trigger_sor_flatten r)"
  using assms
  by (auto simp: Let_def get_dual_state_def detect_orphan_leg_def check_timeout_young other_leg_def
      trigger_sor_flatten_def)

section \<open>Properties\<close>

text \<open>C21. As long as the clock readings are ages of instants just taken, no leg of a trade ever times
  out, and the orphan flag is up exactly when some rejection came after the fill of the other leg; a leg
  that fills after the rejection of its hedge is not detected, and \<open>trigger_sor_flatten\<close> succeeds exactly
  when the flag is up and one leg is filled while the other has failed.\<close>

theorem orphan_detected_iff_rejected_after_fill:
  "young evs \<Longrightarrow>
   (let r = run_legs evs (reset_for_new_trade q t r0) in
    \<not> timed_out r
    \<and> (lr_orphan_detected r \<longleftrightarrow> rejected_after_fill evs (reset_for_new_trade q t r0))
    \<and> (fst (trigger_sor_flatten r) \<longleftrightarrow>
        rejected_after_fill evs (reset_for_new_trade q t r0)
        \<and> (get_dual_state r = OrphanLegA \<or> get_dual_state r = OrphanLegB)))"
proof -
  assume y: "young evs"
  let ?start = "reset_for_new_trade q t r0"
  let ?r = "run_legs evs ?start"
  have nt: "\<not> timed_out ?r"
    using y by (rule young_run_not_timed_out) (simp add: timed_out_def)
  have flag: "lr_orphan_detected ?r \<longleftrightarrow> rejected_after_fill evs ?start"
    using orphan_flag_run [OF y, of ?start] by simp
  have "fst (trigger_sor_flatten ?r) \<longleftrightarrow>
      lr_orphan_detected ?r \<and> (get_dual_state ?r = OrphanLegA \<or> get_dual_state ?r = OrphanLegB)"
    using trigger_sound [of ?r] trigger_complete [OF _ nt] by blast
  with nt flag show ?thesis by (simp only: Let_def) simp
qed

theorem orphan_detected_iff_rejected_after_fill_witness:
  "\<not> lr_orphan_detected (run_legs [EvReject 1, EvPoll 0, EvFill 0 7] (reset_for_new_trade 7 0 new_legging_resolver))
   \<and> lr_orphan_detected (run_legs [EvFill 0 7, EvPoll 0, EvReject 1] (reset_for_new_trade 7 0 new_legging_resolver))"
proof
  have y: "young [EvReject 1, EvPoll 0, EvFill 0 7]" "young [EvFill 0 7, EvPoll 0, EvReject 1]"
    by simp_all
  show "\<not> lr_orphan_detected (run_legs [EvReject 1, EvPoll 0, EvFill 0 7] (reset_for_new_trade 7 0 new_legging_resolver))"
    using orphan_detected_iff_rejected_after_fill [OF y(1), of 7 0 new_legging_resolver]
    by (simp add: Let_def rejected_after_fill_Cons other_leg_def)
  show "lr_orphan_detected (run_legs [EvFill 0 7, EvPoll 0, EvReject 1] (reset_for_new_trade 7 0 new_legging_resolver))"
    using orphan_detected_iff_rejected_after_fill [OF y(2), of 7 0 new_legging_resolver]
    by (simp add: Let_def rejected_after_fill_Cons other_leg_def)
qed

end
