(* ===== verification/Fix_Encoder.thy ===== *)
theory Fix_Encoder
  imports Order_State
begin

text \<open>
  The FIX order encoder of \<open>crates/nexus_adapters\<close>: the network buffer that all encoders write to
  (\<open>zero_alloc_buffer_writer.rs\<close>) and the tag-value encoder on it (\<open>fix_binary_encoder.rs\<close>).  Text
  is a list of bytes.  The unchecked writes of the buffer are modelled with their extent: one that
  leaves the array is the outcome \<open>WildWrite\<close>.  A write that is refused leaves what earlier writes of
  the same field have put there.  The decimal formatting of the crate \<open>itoa\<close>, which is not part of
  the repository, is the parameter \<open>itoa\<close>.
\<close>

section \<open>The network buffer\<close>

definition MAX_MESSAGE_SIZE :: nat where "MAX_MESSAGE_SIZE = 4096"

record network_buffer =
  nb_data :: "u8 list"
  nb_pos :: u64
  nb_start_pos :: u64

datatype write_outcome = Wrote network_buffer | Refused network_buffer | WildWrite

definition new_buffer :: network_buffer where
  "new_buffer = \<lparr>nb_data = replicate MAX_MESSAGE_SIZE 0, nb_pos = 0, nb_start_pos = 0\<rparr>"

definition buffer_position :: "network_buffer \<Rightarrow> u64" where
  "buffer_position b = nb_pos b"

definition remaining_capacity :: "network_buffer \<Rightarrow> u64" where
  "remaining_capacity b = of_nat MAX_MESSAGE_SIZE - nb_pos b"

definition can_write :: "network_buffer \<Rightarrow> nat \<Rightarrow> bool" where
  "can_write b n \<longleftrightarrow> n \<le> unat (remaining_capacity b)"

text \<open>The bytes that a raw pointer write stores, from the position on.\<close>

definition put_bytes :: "u8 list \<Rightarrow> network_buffer \<Rightarrow> write_outcome" where
  "put_bytes bs b =
     (let p = unat (nb_pos b) in
      if p + length bs \<le> length (nb_data b)
      then Wrote (b\<lparr>nb_data := take p (nb_data b) @ bs @ drop (p + length bs) (nb_data b),
                    nb_pos := nb_pos b + of_nat (length bs)\<rparr>)
      else WildWrite)"

definition write_u8 :: "u8 \<Rightarrow> network_buffer \<Rightarrow> write_outcome" where
  "write_u8 v b = (if unat (nb_pos b) \<ge> MAX_MESSAGE_SIZE then Refused b else put_bytes [v] b)"

text \<open>\<open>to_be_bytes\<close>: the most significant byte first.\<close>

definition be_bytes :: "nat \<Rightarrow> 'a::len word \<Rightarrow> u8 list" where
  "be_bytes n w = map (\<lambda>i. ucast (drop_bit (8 * (n - 1 - i)) w)) [0..<n]"

definition write_u16_be :: "u16 \<Rightarrow> network_buffer \<Rightarrow> write_outcome" where
  "write_u16_be v b = (if \<not> can_write b 2 then Refused b else put_bytes (be_bytes 2 v) b)"

definition write_u32_be :: "u32 \<Rightarrow> network_buffer \<Rightarrow> write_outcome" where
  "write_u32_be v b = (if \<not> can_write b 4 then Refused b else put_bytes (be_bytes 4 v) b)"

definition write_u64_be :: "u64 \<Rightarrow> network_buffer \<Rightarrow> write_outcome" where
  "write_u64_be v b = (if \<not> can_write b 8 then Refused b else put_bytes (be_bytes 8 v) b)"

text \<open>A fixed-point number is given by its raw value; negative ones are sent as 0.\<close>

definition write_price :: "i64 \<Rightarrow> network_buffer \<Rightarrow> write_outcome" where
  "write_price raw b = write_u64_be (if raw < 0 then 0 else word_of_int raw) b"

definition write_quantity :: "i64 \<Rightarrow> network_buffer \<Rightarrow> write_outcome" where
  "write_quantity raw b = write_u64_be (if raw < 0 then 0 else word_of_int raw) b"

definition write_slice :: "u8 list \<Rightarrow> network_buffer \<Rightarrow> write_outcome" where
  "write_slice bs b = (if \<not> can_write b (length bs) then Refused b else put_bytes bs b)"

definition write_fixed_str :: "u8 list \<Rightarrow> nat \<Rightarrow> network_buffer \<Rightarrow> write_outcome" where
  "write_fixed_str s n b =
     (if \<not> can_write b n then Refused b
      else let copy_len = min (length s) n in
        put_bytes (take copy_len s @ replicate (n - copy_len) 32) b)"

definition reset_buffer :: "network_buffer \<Rightarrow> network_buffer" where
  "reset_buffer b = b\<lparr>nb_pos := nb_start_pos b\<rparr>"

definition reset_to :: "u64 \<Rightarrow> network_buffer \<Rightarrow> network_buffer" where
  "reset_to p b = b\<lparr>nb_start_pos := p, nb_pos := p\<rparr>"

definition get_data :: "network_buffer \<Rightarrow> panic + u8 list" where
  "get_data b =
     (if unat (nb_pos b) \<le> length (nb_data b) then Inr (take (unat (nb_pos b)) (nb_data b))
      else Inl IndexOutOfBounds)"

definition buffer_len :: "network_buffer \<Rightarrow> u64" where
  "buffer_len b = nb_pos b"

definition buffer_is_empty :: "network_buffer \<Rightarrow> bool" where
  "buffer_is_empty b \<longleftrightarrow> buffer_len b = 0"

subsection \<open>The positions stay inside the array\<close>

definition buffer_ok :: "network_buffer \<Rightarrow> bool" where
  "buffer_ok b \<longleftrightarrow> length (nb_data b) = MAX_MESSAGE_SIZE
     \<and> unat (nb_pos b) \<le> MAX_MESSAGE_SIZE \<and> unat (nb_start_pos b) \<le> MAX_MESSAGE_SIZE"

definition written :: "network_buffer \<Rightarrow> u8 list" where
  "written b = take (unat (nb_pos b)) (nb_data b)"

text \<open>The buffer after bytes have been appended to what is written.\<close>

definition extended :: "network_buffer \<Rightarrow> u8 list \<Rightarrow> network_buffer" where
  "extended b bs =
     b\<lparr>nb_data := written b @ bs @ drop (unat (nb_pos b) + length bs) (nb_data b),
       nb_pos := nb_pos b + of_nat (length bs)\<rparr>"

definition room :: "network_buffer \<Rightarrow> nat" where
  "room b = MAX_MESSAGE_SIZE - unat (nb_pos b)"

lemma new_buffer_ok [simp]: "buffer_ok new_buffer"
  by (simp add: buffer_ok_def new_buffer_def)

lemma written_new [simp]: "written new_buffer = []"
  by (simp add: written_def new_buffer_def)

lemma room_new [simp]: "room new_buffer = MAX_MESSAGE_SIZE"
  by (simp add: room_def new_buffer_def)

lemma length_written: "buffer_ok b \<Longrightarrow> length (written b) = unat (nb_pos b)"
  by (simp add: written_def buffer_ok_def)

lemma get_data_ok: "buffer_ok b \<Longrightarrow> get_data b = Inr (written b)"
  by (simp add: get_data_def buffer_ok_def written_def)

lemma can_write_room: "buffer_ok b \<Longrightarrow> can_write b n \<longleftrightarrow> n \<le> room b"
  by (simp add: can_write_def remaining_capacity_def buffer_ok_def room_def MAX_MESSAGE_SIZE_def
      unat_sub word_le_nat_alt)

lemma le_room: "buffer_ok b \<Longrightarrow> n \<le> room b \<longleftrightarrow> unat (nb_pos b) + n \<le> MAX_MESSAGE_SIZE"
  by (auto simp: buffer_ok_def room_def)

lemma unat_pos_extended:
  assumes "buffer_ok b" "length bs \<le> room b"
  shows "unat (nb_pos (extended b bs)) = unat (nb_pos b) + length bs"
proof -
  have "unat (nb_pos b) + length bs < 2 ^ 64"
    using assms(2) unfolding le_room [OF assms(1)] by (simp add: MAX_MESSAGE_SIZE_def)
  then have "unat (nb_pos b + of_nat (length bs)) = unat (nb_pos b) + unat (of_nat (length bs) :: u64)"
    by (intro unat_add_no_wrap) (simp add: unsigned_of_nat take_bit_nat_eq_self)
  with assms show ?thesis
    by (simp add: extended_def unsigned_of_nat take_bit_nat_eq_self room_def MAX_MESSAGE_SIZE_def)
qed

lemma written_extended:
  assumes "buffer_ok b" "length bs \<le> room b"
  shows "written (extended b bs) = written b @ bs"
  using assms length_written [OF assms(1)]
  by (simp add: written_def [of "extended b bs"] unat_pos_extended) (simp add: extended_def)

lemma extended_ok:
  assumes "buffer_ok b" "length bs \<le> room b"
  shows "buffer_ok (extended b bs)"
proof -
  have "length (nb_data (extended b bs)) = MAX_MESSAGE_SIZE"
    using assms length_written [OF assms(1)] by (auto simp: extended_def buffer_ok_def room_def)
  moreover have "nb_start_pos (extended b bs) = nb_start_pos b"
    by (simp add: extended_def)
  ultimately show ?thesis
    using assms(2) unat_pos_extended [OF assms] le_room [OF assms(1)] assms(1)
    by (simp add: buffer_ok_def)
qed

lemma room_extended:
  "buffer_ok b \<Longrightarrow> length bs \<le> room b \<Longrightarrow> room (extended b bs) = room b - length bs"
  by (simp add: room_def unat_pos_extended)

lemma start_extended [simp]: "nb_start_pos (extended b bs) = nb_start_pos b"
  by (simp add: extended_def)

lemma put_bytes_ok:
  assumes "buffer_ok b" "length bs \<le> room b"
  shows "put_bytes bs b = Wrote (extended b bs)"
  using assms(2) assms(1) unfolding le_room [OF assms(1)]
  by (simp add: put_bytes_def buffer_ok_def extended_def written_def Let_def)

lemma write_slice_ok:
  "buffer_ok b \<Longrightarrow> write_slice bs b = (if length bs \<le> room b then Wrote (extended b bs) else Refused b)"
  by (simp add: write_slice_def can_write_room put_bytes_ok)

lemma write_u8_ok:
  assumes "buffer_ok b"
  shows "write_u8 v b = (if 1 \<le> room b then Wrote (extended b [v]) else Refused b)"
  using assms put_bytes_ok [OF assms, of "[v]"] by (auto simp: write_u8_def room_def)

lemma extended_extended:
  assumes "buffer_ok b" "length (xs @ ys) \<le> room b"
  shows "extended (extended b xs) ys = extended b (xs @ ys)"
proof -
  have le: "length xs \<le> room b" and le': "length ys \<le> room (extended b xs)"
    using assms by (auto simp: room_extended)
  have eq: "written (extended b xs) = written b @ xs"
    by (rule written_extended [OF assms(1) le])
  have "nb_pos (extended b xs) = nb_pos b + of_nat (length xs)"
    by (simp add: extended_def)
  moreover have "drop (unat (nb_pos b) + length xs + length ys) (nb_data (extended b xs))
      = drop (unat (nb_pos b) + (length xs + length ys)) (nb_data b)"
    using length_written [OF assms(1)] assms by (simp add: extended_def ac_simps)
  ultimately show ?thesis
    using unat_pos_extended [OF assms(1) le]
    by (simp add: extended_def [of "extended b xs"] eq) (simp add: extended_def add.assoc)
qed

subsection \<open>Big-endian integers are read back\<close>

fun be_value :: "u8 list \<Rightarrow> nat" where
  "be_value [] = 0"
| "be_value (b # bs) = unat b * 256 ^ length bs + be_value bs"

lemma be_bytes_Suc:
  "be_bytes (Suc n) w = ucast (drop_bit (8 * n) w) # be_bytes n w"
  by (simp add: be_bytes_def upt_conv_Cons map_Suc_upt [symmetric] del: upt_Suc)

lemma length_be_bytes [simp]: "length (be_bytes n w) = n"
  by (simp add: be_bytes_def)

lemma be_value_be_bytes: "be_value (be_bytes n w) = unat w mod 256 ^ n"
proof (induction n)
  case 0
  then show ?case by (simp add: be_bytes_def)
next
  case (Suc n)
  have "unat (ucast (drop_bit (8 * n) w) :: u8) = unat w div 256 ^ n mod 256"
  proof -
    have "unat (drop_bit (8 * n) w) = drop_bit (8 * n) (unat w)"
      by (rule unat_drop_bit_eq)
    also have "\<dots> = unat w div 2 ^ (8 * n)"
      by (rule drop_bit_eq_div)
    finally have "unat (drop_bit (8 * n) w) = unat w div 256 ^ n"
      by (simp add: power_mult)
    then show ?thesis
      by (simp only: unsigned_ucast_eq take_bit_eq_mod) simp
  qed
  then show ?case
    using Suc by (simp add: be_bytes_Suc mod_mult2_eq mult.commute [of 256])
qed

lemma price_read_back:
  assumes "buffer_ok b" "8 \<le> room b" "in_i64 raw"
  shows "\<exists>b'. write_price raw b = Wrote b' \<and> buffer_ok b'
     \<and> int (be_value (drop (length (written b)) (written b'))) = max 0 raw"
proof -
  define v :: u64 where "v = (if raw < 0 then 0 else word_of_int raw)"
  have v: "int (unat v) = max 0 raw"
    using assms(3) by (auto simp: v_def in_i64_def unsigned_of_int take_bit_int_eq_self)
  have l: "length (be_bytes 8 v) \<le> room b"
    using assms(2) by simp
  have "write_price raw b = Wrote (extended b (be_bytes 8 v))"
    using assms put_bytes_ok [OF assms(1) l]
    by (simp add: write_price_def write_u64_be_def can_write_room v_def)
  moreover have "drop (length (written b)) (written (extended b (be_bytes 8 v))) = be_bytes 8 v"
    by (simp add: written_extended [OF assms(1) l])
  ultimately show ?thesis
    using v extended_ok [OF assms(1) l] unat_lt_2p [of v] by (simp add: be_value_be_bytes)
qed

subsection \<open>Where the bounds checks hold and where they do not\<close>

text \<open>From a position inside the array no write leaves it.\<close>

lemma checked_write_stays:
  assumes "buffer_ok b" "w = (if \<not> can_write b (length bs) then Refused b else put_bytes bs b)"
  shows "w = Refused b \<or> (\<exists>b'. w = Wrote b' \<and> buffer_ok b')"
  using assms by (auto simp: can_write_room put_bytes_ok extended_ok)

lemma writes_stay_inside:
  assumes "buffer_ok b"
  shows "write_slice bs b \<noteq> WildWrite" "write_u8 v b \<noteq> WildWrite" "write_u16_be v2 b \<noteq> WildWrite"
    "write_u32_be v4 b \<noteq> WildWrite" "write_u64_be v8 b \<noteq> WildWrite" "write_fixed_str s n b \<noteq> WildWrite"
  using assms
  by (auto simp: write_slice_ok write_u8_ok write_u16_be_def write_u32_be_def write_u64_be_def
      write_fixed_str_def can_write_room put_bytes_ok Let_def min_def)

text \<open>
  A start position beyond the array, which \<open>reset_to\<close> accepts, makes the remaining capacity wrap
  around, so that the check lets every write through.
\<close>

lemma reset_to_past_end_writes_wild:
  assumes "buffer_ok b" "MAX_MESSAGE_SIZE < unat p" "length bs \<le> 2 ^ 63" "unat p < 2 ^ 63"
  shows "write_slice bs (reset_to p b) = WildWrite"
proof -
  have "unat (of_nat MAX_MESSAGE_SIZE - p) = 2 ^ 64 + MAX_MESSAGE_SIZE - unat p"
    using assms(2) by (simp add: unat_sub_if' MAX_MESSAGE_SIZE_def)
  then have "can_write (reset_to p b) (length bs)"
    using assms(3,4) by (simp add: can_write_def remaining_capacity_def reset_to_def)
  with assms show ?thesis
    by (simp add: write_slice_def put_bytes_def reset_to_def buffer_ok_def Let_def)
qed

section \<open>The tag-value encoder\<close>

fun then_write :: "write_outcome \<Rightarrow> (network_buffer \<Rightarrow> write_outcome) \<Rightarrow> write_outcome" where
  "then_write (Wrote b) f = f b"
| "then_write (Refused b) f = Refused b"
| "then_write WildWrite f = WildWrite"

text \<open>\<open>u64::to_string\<close>.\<close>

fun to_decimal :: "nat \<Rightarrow> u8 list" where
  "to_decimal n = (if n < 10 then [48 + of_nat n] else to_decimal (n div 10) @ [48 + of_nat (n mod 10)])"

declare to_decimal.simps [simp del]

definition signed_decimal :: "int \<Rightarrow> u8 list" where
  "signed_decimal x = (if x < 0 then 45 # to_decimal (nat (- x)) else to_decimal (nat x))"

text \<open>What the encoder relies on in \<open>itoa\<close>: it prints the decimal form.\<close>

definition itoa_prints :: "(int \<Rightarrow> u8 list) \<Rightarrow> bool" where
  "itoa_prints itoa \<longleftrightarrow> (\<forall>x. - (2 ^ 63) \<le> x \<and> x < 2 ^ 64 \<longrightarrow> itoa x = signed_decimal x)"

definition write_tag_value ::
  "(int \<Rightarrow> u8 list) \<Rightarrow> u32 \<Rightarrow> u8 list \<Rightarrow> network_buffer \<Rightarrow> write_outcome" where
  "write_tag_value itoa tag v b =
     then_write (write_slice (itoa (uint tag)) b) (\<lambda>b.
     then_write (write_u8 61 b) (\<lambda>b.
     then_write (write_slice v b) (write_u8 1)))"

definition write_tag_int where
  "write_tag_int itoa tag x = write_tag_value itoa tag (itoa x)"

definition write_tag_str where
  "write_tag_str itoa tag s = write_tag_value itoa tag s"

definition FIX_SCALE :: nat where "FIX_SCALE = 100000000"

fun trim_end_zeros :: "u8 list \<Rightarrow> u8 list" where
  "trim_end_zeros xs = rev (dropWhile (\<lambda>b. b = 48) (rev xs))"

text \<open>\<open>format!("{:08}", n)\<close>.\<close>

definition pad8 :: "nat \<Rightarrow> u8 list" where
  "pad8 n = replicate (8 - length (to_decimal n)) 48 @ to_decimal n"

definition format_fixed_point :: "i64 \<Rightarrow> u8 list" where
  "format_fixed_point raw =
     (let abs_val = nat \<bar>raw\<bar>;
          int_part = abs_val div FIX_SCALE;
          frac_part = abs_val mod FIX_SCALE;
          trimmed = trim_end_zeros (pad8 frac_part) in
      (if raw < 0 then [45] else []) @ to_decimal int_part @ [46] @ (if trimmed = [] then [48] else trimmed))"

definition write_tag_price where
  "write_tag_price itoa tag raw = write_tag_value itoa tag (format_fixed_point raw)"

record fix_encoder =
  fe_buffer :: network_buffer
  fe_begin_string :: "u8 list"
  fe_sender_comp_id :: "u8 list"
  fe_target_comp_id :: "u8 list"
  fe_msg_seq_num :: u64

text \<open>A field of fixed width, filled up with zero bytes and cut when the text is longer.\<close>

definition fixed_field :: "nat \<Rightarrow> u8 list \<Rightarrow> u8 list" where
  "fixed_field n s = take n s @ replicate (n - length s) 0"

definition new_fix_encoder :: "u8 list \<Rightarrow> u8 list \<Rightarrow> u8 list \<Rightarrow> fix_encoder" where
  "new_fix_encoder begin_string sender target =
     \<lparr>fe_buffer = new_buffer, fe_begin_string = fixed_field 16 begin_string,
      fe_sender_comp_id = fixed_field 32 sender, fe_target_comp_id = fixed_field 32 target,
      fe_msg_seq_num = 1\<rparr>"

definition get_msg_seq_num :: "fix_encoder \<Rightarrow> u64" where
  "get_msg_seq_num e = fe_msg_seq_num e"

definition set_msg_seq_num :: "u64 \<Rightarrow> fix_encoder \<Rightarrow> fix_encoder" where
  "set_msg_seq_num seq e = e\<lparr>fe_msg_seq_num := seq\<rparr>"

text \<open>Writes in sequence, each followed by \<open>?\<close>.\<close>

fun write_all :: "(network_buffer \<Rightarrow> write_outcome) list \<Rightarrow> network_buffer \<Rightarrow> write_outcome" where
  "write_all [] b = Wrote b"
| "write_all (f # fs) b = then_write (f b) (write_all fs)"

definition from_utf8_or :: "u8 list \<Rightarrow> u8 list \<Rightarrow> u8 list" where
  "from_utf8_or other bs = (if utf8_valid bs then bs else other)"

text \<open>The sum of all written bytes modulo 256.\<close>

definition sum_bytes :: "u8 list \<Rightarrow> u8" where
  "sum_bytes bs = foldl (+) 0 bs"

definition calculate_checksum :: "network_buffer \<Rightarrow> panic + u8" where
  "calculate_checksum b = (case get_data b of Inl e \<Rightarrow> Inl e | Inr bs \<Rightarrow> Inr (sum_bytes bs))"

definition write_order_body ::
  "(int \<Rightarrow> u8 list) \<Rightarrow> u8 list \<Rightarrow> u8 list \<Rightarrow> u8 list \<Rightarrow> i64 \<Rightarrow> i64 \<Rightarrow> u8 list \<Rightarrow> network_buffer \<Rightarrow> write_outcome"
where
  "write_order_body itoa cl_id symb sd qty px acct =
     write_all
       [write_tag_str itoa 11 cl_id,
        write_tag_str itoa 55 symb,
        write_tag_str itoa 54 sd,
        write_tag_int itoa 38 qty,
        write_tag_price itoa 44 px,
        write_tag_str itoa 40 [50],
        write_tag_str itoa 59 [48],
        write_tag_str itoa 1 acct]"

text \<open>\<open>"SENDER"\<close>, \<open>"TARGET"\<close>, \<open>"FIX.4.4"\<close> and \<open>"20240101-12:00:00"\<close>.\<close>

definition str_sender :: "u8 list" where "str_sender = [83, 69, 78, 68, 69, 82]"
definition str_target :: "u8 list" where "str_target = [84, 65, 82, 71, 69, 84]"
definition str_fix44 :: "u8 list" where "str_fix44 = [70, 73, 88, 46, 52, 46, 52]"
definition str_sending_time :: "u8 list" where
  "str_sending_time = [50, 48, 50, 52, 48, 49, 48, 49, 45, 49, 50, 58, 48, 48, 58, 48, 48]"

definition write_order_header :: "(int \<Rightarrow> u8 list) \<Rightarrow> fix_encoder \<Rightarrow> u64 \<Rightarrow> network_buffer \<Rightarrow> write_outcome" where
  "write_order_header itoa e body_len =
     write_all
       [write_tag_str itoa 8 (from_utf8_or str_fix44 (fe_begin_string e)),
        write_tag_int itoa 9 (sint body_len),
        write_tag_str itoa 35 [68],
        write_tag_str itoa 49 (from_utf8_or str_sender (fe_sender_comp_id e)),
        write_tag_str itoa 56 (from_utf8_or str_target (fe_target_comp_id e)),
        write_tag_int itoa 34 (sint (fe_msg_seq_num e)),
        write_tag_str itoa 52 str_sending_time]"

datatype build_result =
  BuildOk "u8 list" fix_encoder
| BuildErr fix_encoder
| BuildPanic panic
| BuildWild

definition build_new_order_single ::
  "(int \<Rightarrow> u8 list) \<Rightarrow> u8 list \<Rightarrow> u8 list \<Rightarrow> u8 list \<Rightarrow> i64 \<Rightarrow> i64 \<Rightarrow> u8 list \<Rightarrow> fix_encoder \<Rightarrow> build_result"
where
  "build_new_order_single itoa cl_id symb sd qty px acct e =
     (let b0 = reset_buffer (fe_buffer e); body_start = buffer_position b0 in
      case write_order_body itoa cl_id symb sd qty px acct b0 of
        WildWrite \<Rightarrow> BuildWild
      | Refused b \<Rightarrow> BuildErr (e\<lparr>fe_buffer := b\<rparr>)
      | Wrote b1 \<Rightarrow>
          (let body_len = buffer_position b1 - body_start in
           case write_order_header itoa e body_len (reset_to 0 b1) of
             WildWrite \<Rightarrow> BuildWild
           | Refused b \<Rightarrow> BuildErr (e\<lparr>fe_buffer := b\<rparr>)
           | Wrote b2 \<Rightarrow>
               (let b3 = reset_to body_start b2 in
                case calculate_checksum b3 of
                  Inl p \<Rightarrow> BuildPanic p
                | Inr checksum \<Rightarrow>
                    (case write_tag_int itoa 10 (uint checksum) b3 of
                       WildWrite \<Rightarrow> BuildWild
                     | Refused b \<Rightarrow> BuildErr (e\<lparr>fe_buffer := b\<rparr>)
                     | Wrote b4 \<Rightarrow>
                         (case get_data b4 of
                            Inl p \<Rightarrow> BuildPanic p
                          | Inr msg \<Rightarrow>
                              BuildOk msg (e\<lparr>fe_buffer := b4, fe_msg_seq_num := fe_msg_seq_num e + 1\<rparr>))))))"

subsection \<open>What a field adds to the buffer\<close>

definition field_text :: "(int \<Rightarrow> u8 list) \<Rightarrow> u32 \<Rightarrow> u8 list \<Rightarrow> u8 list" where
  "field_text itoa tag v = itoa (uint tag) @ 61 # v @ [1]"

lemma write_tag_value_fits:
  assumes "buffer_ok b" "length (field_text itoa tag v) \<le> room b"
  shows "write_tag_value itoa tag v b = Wrote (extended b (field_text itoa tag v))"
proof -
  let ?t = "itoa (uint tag)"
  have room: "length ?t + length v + 2 \<le> room b"
    using assms(2) by (simp add: field_text_def)
  have ok1: "buffer_ok (extended b ?t)"
    and ok2: "buffer_ok (extended b (?t @ [61]))"
    and ok3: "buffer_ok (extended b (?t @ [61] @ v))"
    using room by (auto intro!: extended_ok assms(1))
  show ?thesis
    using room assms(1) ok1 ok2 ok3
    by (auto simp: write_tag_value_def write_slice_ok write_u8_ok room_extended extended_extended
        field_text_def)
qed

text \<open>Whatever happens, a field leaves the buffer well formed and its start where it was.\<close>

fun outcome_within :: "network_buffer \<Rightarrow> write_outcome \<Rightarrow> bool" where
  "outcome_within b (Wrote b') = (buffer_ok b' \<and> nb_start_pos b' = nb_start_pos b)"
| "outcome_within b (Refused b') = (buffer_ok b' \<and> nb_start_pos b' = nb_start_pos b)"
| "outcome_within b WildWrite = False"

lemma then_write_within:
  assumes "outcome_within b w" "\<And>b'. buffer_ok b' \<Longrightarrow> nb_start_pos b' = nb_start_pos b \<Longrightarrow> outcome_within b (f b')"
  shows "outcome_within b (then_write w f)"
  using assms by (cases w) auto

lemma write_slice_within: "buffer_ok b' \<Longrightarrow> nb_start_pos b' = nb_start_pos b \<Longrightarrow> outcome_within b (write_slice bs b')"
  by (simp add: write_slice_ok extended_ok)

lemma write_u8_within: "buffer_ok b' \<Longrightarrow> nb_start_pos b' = nb_start_pos b \<Longrightarrow> outcome_within b (write_u8 v b')"
  by (simp add: write_u8_ok extended_ok)

lemma write_tag_value_within:
  "buffer_ok b' \<Longrightarrow> nb_start_pos b' = nb_start_pos b \<Longrightarrow> outcome_within b (write_tag_value itoa tag v b')"
  unfolding write_tag_value_def by (intro then_write_within write_slice_within write_u8_within)

lemma write_all_within:
  assumes "\<And>f b'. f \<in> set fs \<Longrightarrow> buffer_ok b' \<Longrightarrow> nb_start_pos b' = nb_start_pos b \<Longrightarrow> outcome_within b (f b')"
    "buffer_ok b'" "nb_start_pos b' = nb_start_pos b"
  shows "outcome_within b (write_all fs b')"
  using assms by (induction fs arbitrary: b') (auto intro!: then_write_within)

lemmas write_tag_defs = write_tag_str_def write_tag_int_def write_tag_price_def

lemma write_order_body_within:
  "buffer_ok b \<Longrightarrow> outcome_within b (write_order_body itoa c s d q p a b)"
  unfolding write_order_body_def
  by (rule write_all_within) (auto simp: write_tag_defs write_tag_value_within)

lemma write_order_header_within:
  "buffer_ok b \<Longrightarrow> outcome_within b (write_order_header itoa e n b)"
  unfolding write_order_header_def
  by (rule write_all_within) (auto simp: write_tag_defs write_tag_value_within)

text \<open>A field that does not fit is refused, somewhere inside it.\<close>

lemma write_tag_value_refused:
  assumes "buffer_ok b" "room b < length (field_text itoa tag v)"
  shows "\<exists>b'. write_tag_value itoa tag v b = Refused b'"
proof -
  let ?t = "itoa (uint tag)"
  have room: "room b < length ?t + length v + 2"
    using assms(2) by (simp add: field_text_def)
  consider "room b < length ?t" | "length ?t = room b" | "length ?t < room b" "room b \<le> length ?t + length v"
    | "room b = length ?t + length v + 1"
    using room by linarith
  then show ?thesis
  proof cases
    case 1
    then show ?thesis
      using assms(1) by (simp add: write_tag_value_def write_slice_ok)
  next
    case 2
    then show ?thesis
      using assms(1) by (simp add: write_tag_value_def write_slice_ok write_u8_ok room_extended extended_ok)
  next
    case 3
    then have "buffer_ok (extended b ?t)" "buffer_ok (extended b (?t @ [61]))"
      by (auto intro!: extended_ok assms(1))
    with 3 show ?thesis
      using assms(1)
      by (auto simp: write_tag_value_def write_slice_ok write_u8_ok room_extended extended_extended)
  next
    case 4
    then have "buffer_ok (extended b ?t)" "buffer_ok (extended b (?t @ [61]))"
      "buffer_ok (extended b (?t @ [61] @ v))"
      by (auto intro!: extended_ok assms(1))
    with 4 show ?thesis
      using assms(1)
      by (auto simp: write_tag_value_def write_slice_ok write_u8_ok room_extended extended_extended)
  qed
qed

definition fields_text :: "(int \<Rightarrow> u8 list) \<Rightarrow> (u32 \<times> u8 list) list \<Rightarrow> u8 list" where
  "fields_text itoa fs = concat (map (\<lambda>(t, v). field_text itoa t v) fs)"

definition write_fields :: "(int \<Rightarrow> u8 list) \<Rightarrow> (u32 \<times> u8 list) list \<Rightarrow> network_buffer \<Rightarrow> write_outcome" where
  "write_fields itoa fs = write_all (map (\<lambda>(t, v). write_tag_value itoa t v) fs)"

lemma write_fields_fit:
  assumes "buffer_ok b" "length (fields_text itoa fs) \<le> room b"
  shows "write_fields itoa fs b = Wrote (extended b (fields_text itoa fs))"
  using assms
proof (induction fs arbitrary: b)
  case Nil
  then show ?case
    by (simp add: extended_def written_def fields_text_def write_fields_def)
next
  case (Cons f fs)
  obtain t v where f: "f = (t, v)" by (cases f)
  let ?x = "field_text itoa t v" and ?y = "fields_text itoa fs"
  have le: "length ?x \<le> room b" "length (?x @ ?y) \<le> room b"
    using Cons.prems(2) by (auto simp: f fields_text_def)
  have ok: "buffer_ok (extended b ?x)"
    using Cons.prems(1) le(1) by (rule extended_ok)
  have "length ?y \<le> room (extended b ?x)"
    using le Cons.prems(1) by (simp add: room_extended)
  then have "write_fields itoa fs (extended b ?x) = Wrote (extended b (?x @ ?y))"
    using Cons.IH [OF ok] le Cons.prems(1) by (simp add: extended_extended)
  then show ?case
    using le Cons.prems(1) by (simp add: f write_tag_value_fits write_fields_def fields_text_def)
qed

lemma write_fields_refused:
  assumes "buffer_ok b" "room b < length (fields_text itoa fs)"
  shows "\<exists>b'. write_fields itoa fs b = Refused b'"
  using assms
proof (induction fs arbitrary: b)
  case Nil
  then show ?case by (simp add: fields_text_def)
next
  case (Cons f fs)
  obtain t v where f: "f = (t, v)" by (cases f)
  let ?x = "field_text itoa t v" and ?y = "fields_text itoa fs"
  have le: "room b < length ?x + length ?y"
    using Cons.prems(2) by (simp add: f fields_text_def)
  show ?case
  proof (cases "length ?x \<le> room b")
    case True
    have "room (extended b ?x) < length ?y"
      using le True Cons.prems(1) by (simp add: room_extended)
    then have "\<exists>b'. write_fields itoa fs (extended b ?x) = Refused b'"
      using Cons.IH extended_ok [OF Cons.prems(1) True] by blast
    then show ?thesis
      using True Cons.prems(1) by (simp add: f write_tag_value_fits write_fields_def)
  next
    case False
    then show ?thesis
      using write_tag_value_refused [OF Cons.prems(1), of itoa t v] by (auto simp: f write_fields_def)
  qed
qed

subsection \<open>Numbers in decimal\<close>

lemma to_decimal_nonempty [simp]: "to_decimal n \<noteq> []"
  by (subst to_decimal.simps) simp

lemma length_to_decimal: "n < 10 ^ Suc k \<Longrightarrow> length (to_decimal n) \<le> Suc k"
proof (induction k arbitrary: n)
  case 0
  then show ?case by (simp add: to_decimal.simps)
next
  case (Suc k)
  have "n div 10 < 10 ^ Suc k"
    using Suc.prems by (simp add: less_mult_imp_div_less)
  then show ?case
    using Suc.IH [of "n div 10"] by (subst to_decimal.simps) simp
qed

lemma length_signed_decimal:
  assumes "in_i64 x"
  shows "length (signed_decimal x) \<le> 20"
proof -
  have "nat \<bar>x\<bar> < 10 ^ Suc 18"
    using assms by (auto simp: in_i64_def abs_if nat_less_iff)
  then have "length (to_decimal (nat \<bar>x\<bar>)) \<le> 19"
    using length_to_decimal [of "nat \<bar>x\<bar>" 18] by simp
  then show ?thesis by (auto simp: signed_decimal_def abs_if split: if_splits)
qed

lemma itoa_length: "itoa_prints itoa \<Longrightarrow> in_i64 x \<Longrightarrow> length (itoa x) \<le> 20"
  using length_signed_decimal [of x] by (simp add: itoa_prints_def in_i64_def)

subsection \<open>The message that is sent\<close>

text \<open>
  The body is written first, at position 0, and the header over it; rewinding to the start of the
  body, which is 0 again, then discards the header too.  The checksum is taken over nothing and the
  message that is returned is its field alone.
\<close>

definition encoder_ok :: "fix_encoder \<Rightarrow> bool" where
  "encoder_ok e \<longleftrightarrow> buffer_ok (fe_buffer e) \<and> nb_start_pos (fe_buffer e) = 0
     \<and> length (fe_begin_string e) = 16 \<and> length (fe_sender_comp_id e) = 32
     \<and> length (fe_target_comp_id e) = 32"

lemma new_fix_encoder_ok [simp]: "encoder_ok (new_fix_encoder bs s t)"
  by (auto simp: encoder_ok_def new_fix_encoder_def fixed_field_def) (simp add: new_buffer_def)

lemma reset_to_ok: "buffer_ok b \<Longrightarrow> unat p \<le> MAX_MESSAGE_SIZE \<Longrightarrow> buffer_ok (reset_to p b)"
  by (simp add: reset_to_def buffer_ok_def)

definition order_body ::
  "(int \<Rightarrow> u8 list) \<Rightarrow> u8 list \<Rightarrow> u8 list \<Rightarrow> u8 list \<Rightarrow> i64 \<Rightarrow> i64 \<Rightarrow> u8 list \<Rightarrow> (u32 \<times> u8 list) list"
where
  "order_body itoa cl_id symb sd qty px acct =
     [(11, cl_id), (55, symb), (54, sd), (38, itoa qty), (44, format_fixed_point px), (40, [50]),
      (59, [48]), (1, acct)]"

definition order_header :: "(int \<Rightarrow> u8 list) \<Rightarrow> fix_encoder \<Rightarrow> u64 \<Rightarrow> (u32 \<times> u8 list) list" where
  "order_header itoa e body_len =
     [(8, from_utf8_or str_fix44 (fe_begin_string e)), (9, itoa (sint body_len)), (35, [68]),
      (49, from_utf8_or str_sender (fe_sender_comp_id e)), (56, from_utf8_or str_target (fe_target_comp_id e)),
      (34, itoa (sint (fe_msg_seq_num e))), (52, str_sending_time)]"

lemma write_order_body_fields:
  "write_order_body itoa c s d q p a = write_fields itoa (order_body itoa c s d q p a)"
  by (simp add: write_order_body_def write_fields_def order_body_def write_tag_defs)

lemma write_order_header_fields:
  "write_order_header itoa e n = write_fields itoa (order_header itoa e n)"
  by (simp add: write_order_header_def write_fields_def order_header_def write_tag_defs)

text \<open>The header has always room in the buffer.\<close>

lemma fields_text_bound:
  assumes "itoa_prints itoa"
  shows "length (fields_text itoa fs) \<le> sum_list (map (\<lambda>(t, v). 22 + length v) fs)"
proof (induction fs)
  case Nil
  then show ?case by (simp add: fields_text_def)
next
  case (Cons f fs)
  obtain t v where f: "f = (t, v)" by (cases f)
  have "length (itoa (uint t)) \<le> 20"
    using assms by (rule itoa_length) (use uint_lt2p [of t] in \<open>auto simp: in_i64_def intro: order_trans [of _ 0]\<close>)
  with Cons show ?case by (simp add: f fields_text_def field_text_def)
qed

lemma header_fits:
  assumes "itoa_prints itoa" "encoder_ok e"
  shows "length (fields_text itoa (order_header itoa e n)) \<le> MAX_MESSAGE_SIZE"
proof -
  have "length (itoa (sint w)) \<le> 20" for w :: u64
    using assms(1) by (rule itoa_length) simp
  note num = this [of n] this [of "fe_msg_seq_num e"]
  have "length (from_utf8_or str_fix44 (fe_begin_string e)) \<le> 16"
    "length (from_utf8_or str_sender (fe_sender_comp_id e)) \<le> 32"
    "length (from_utf8_or str_target (fe_target_comp_id e)) \<le> 32"
    using assms(2) by (simp_all add: from_utf8_or_def encoder_ok_def str_fix44_def str_sender_def str_target_def)
  with num fields_text_bound [OF assms(1), of "order_header itoa e n"] show ?thesis
    by (simp add: order_header_def MAX_MESSAGE_SIZE_def str_sending_time_def)
qed

definition checksum_only :: "u8 list" where
  "checksum_only = [49, 48, 61, 48, 1]"

lemma checksum_of_nothing:
  assumes "itoa_prints itoa" "buffer_ok b"
  shows "calculate_checksum (reset_to 0 b) = Inr 0"
    and "\<exists>b'. write_tag_int itoa 10 0 (reset_to 0 b) = Wrote b' \<and> get_data b' = Inr checksum_only
      \<and> buffer_ok b' \<and> nb_start_pos b' = 0"
proof -
  let ?b = "reset_to 0 b"
  have ok: "buffer_ok ?b" and w: "written ?b = []" and r: "room ?b = MAX_MESSAGE_SIZE"
    using assms(2) by (simp_all add: reset_to_ok written_def room_def) (simp_all add: reset_to_def)
  show "calculate_checksum ?b = Inr 0"
    using ok w by (simp add: calculate_checksum_def get_data_ok sum_bytes_def)
  have "itoa 10 = signed_decimal 10" "itoa 0 = signed_decimal 0"
    using assms(1) by (simp_all add: itoa_prints_def)
  then have t: "field_text itoa 10 (itoa 0) = checksum_only"
    by (simp add: field_text_def checksum_only_def signed_decimal_def to_decimal.simps)
  have l: "length checksum_only \<le> room ?b"
    by (simp add: r checksum_only_def MAX_MESSAGE_SIZE_def)
  have "write_tag_int itoa 10 0 ?b = Wrote (extended ?b checksum_only)"
    unfolding write_tag_int_def using ok l by (simp add: write_tag_value_fits t)
  moreover have "get_data (extended ?b checksum_only) = Inr checksum_only"
    using ok l by (simp add: get_data_ok extended_ok written_extended w)
  ultimately show "\<exists>b'. write_tag_int itoa 10 0 ?b = Wrote b' \<and> get_data b' = Inr checksum_only
      \<and> buffer_ok b' \<and> nb_start_pos b' = 0"
    using ok l extended_ok [OF ok l] by (simp add: reset_to_def)
qed

text \<open>When the body fits, the message is the checksum of nothing; otherwise the build fails.\<close>

lemma build_fits:
  assumes "itoa_prints itoa" "encoder_ok e"
    "length (fields_text itoa (order_body itoa c s d q p a)) \<le> MAX_MESSAGE_SIZE"
  shows "\<exists>e'. build_new_order_single itoa c s d q p a e = BuildOk checksum_only e' \<and> encoder_ok e'
      \<and> fe_msg_seq_num e' = fe_msg_seq_num e + 1"
proof -
  let ?b0 = "reset_buffer (fe_buffer e)" and ?body = "fields_text itoa (order_body itoa c s d q p a)"
  have ok0: "buffer_ok ?b0" and pos0: "buffer_position ?b0 = 0" and room0: "room ?b0 = MAX_MESSAGE_SIZE"
    using assms(2) by (auto simp: encoder_ok_def buffer_position_def reset_buffer_def buffer_ok_def room_def)
  let ?b1 = "reset_to 0 (extended ?b0 ?body)" and ?n = "buffer_position (extended ?b0 ?body) - 0"
  let ?head = "fields_text itoa (order_header itoa e ?n)"
  have ok1: "buffer_ok ?b1"
    using assms(3) by (auto intro!: reset_to_ok extended_ok ok0 simp: room0)
  have room1: "room ?b1 = MAX_MESSAGE_SIZE"
    by (simp add: room_def reset_to_def)
  have fits: "length ?head \<le> MAX_MESSAGE_SIZE"
    using assms(1,2) by (rule header_fits)
  have ok2: "buffer_ok (extended ?b1 ?head)"
    using fits by (auto intro!: extended_ok ok1 simp: room1)
  obtain b4 where b4: "write_tag_int itoa 10 0 (reset_to 0 (extended ?b1 ?head)) = Wrote b4"
    "get_data b4 = Inr checksum_only" "buffer_ok b4" "nb_start_pos b4 = 0"
    using checksum_of_nothing(2) [OF assms(1) ok2] by blast
  have "write_order_body itoa c s d q p a ?b0 = Wrote (extended ?b0 ?body)"
    using assms(3) ok0 by (simp add: write_order_body_fields write_fields_fit room0)
  moreover have "write_order_header itoa e ?n ?b1 = Wrote (extended ?b1 ?head)"
    using fits ok1 by (simp add: write_order_header_fields write_fields_fit room1)
  ultimately have "build_new_order_single itoa c s d q p a e
      = BuildOk checksum_only (e\<lparr>fe_buffer := b4, fe_msg_seq_num := fe_msg_seq_num e + 1\<rparr>)"
    using b4 pos0 checksum_of_nothing(1) [OF assms(1) ok2]
    by (simp add: build_new_order_single_def Let_def)
  with b4 assms(2) show ?thesis by (simp add: encoder_ok_def)
qed

lemma build_too_long:
  assumes "encoder_ok e"
    "MAX_MESSAGE_SIZE < length (fields_text itoa (order_body itoa c s d q p a))"
  shows "\<exists>e'. build_new_order_single itoa c s d q p a e = BuildErr e' \<and> encoder_ok e'
      \<and> fe_msg_seq_num e' = fe_msg_seq_num e"
proof -
  let ?b0 = "reset_buffer (fe_buffer e)"
  have ok0: "buffer_ok ?b0" and room0: "room ?b0 = MAX_MESSAGE_SIZE" and start0: "nb_start_pos ?b0 = 0"
    using assms(1) by (auto simp: encoder_ok_def reset_buffer_def buffer_ok_def room_def)
  obtain b where b: "write_order_body itoa c s d q p a ?b0 = Refused b"
    using write_fields_refused [OF ok0, of itoa] assms(2) by (auto simp: room0 write_order_body_fields)
  with write_order_body_within [OF ok0, of itoa c s d q p a] start0 assms(1) show ?thesis
    by (simp add: build_new_order_single_def Let_def encoder_ok_def)
qed

lemma itoa_prints_signed_decimal [simp]: "itoa_prints signed_decimal"
  by (simp add: itoa_prints_def)

text \<open>The price text always has room in the \<open>ArrayString<32>\<close> that the code collects it in.\<close>

lemma price_text_fits:
  assumes "in_i64 raw"
  shows "length (format_fixed_point raw) \<le> 32"
proof -
  let ?i = "nat \<bar>raw\<bar> div FIX_SCALE" and ?f = "nat \<bar>raw\<bar> mod FIX_SCALE"
  have "nat \<bar>raw\<bar> \<le> 2 ^ 63"
    using assms by (auto simp: in_i64_def abs_if)
  then have "?i \<le> 2 ^ 63 div FIX_SCALE"
    by (rule div_le_mono)
  then have i: "length (to_decimal ?i) \<le> 12"
    using length_to_decimal [of ?i 11] by (simp add: FIX_SCALE_def)
  have "length (to_decimal ?f) \<le> 8"
    using length_to_decimal [of ?f 7] by (simp add: FIX_SCALE_def)
  then have "length (pad8 ?f) = 8"
    by (simp add: pad8_def)
  then have "length (trim_end_zeros (pad8 ?f)) \<le> 8"
    using length_dropWhile_le [of "\<lambda>b. b = 48" "rev (pad8 ?f)"] by simp
  then have t: "length (if trim_end_zeros (pad8 ?f) = [] then [48] else trim_end_zeros (pad8 ?f)) \<le> 8"
    by simp
  have "length (format_fixed_point raw) = length (if raw < 0 then [45 :: u8] else []) + (length (to_decimal ?i)
      + (1 + length (if trim_end_zeros (pad8 ?f) = [] then [48] else trim_end_zeros (pad8 ?f))))"
    unfolding format_fixed_point_def Let_def length_append by simp
  moreover have "length (if raw < 0 then [45 :: u8] else []) \<le> 1"
    by simp
  ultimately show ?thesis
    using i t by linarith
qed

section \<open>Every call keeps the buffer well formed\<close>

datatype buffer_call =
  CallU8 u8 | CallU16 u16 | CallU32 u32 | CallU64 u64 | CallPrice i64 | CallQuantity i64
| CallSlice "u8 list" | CallFixedStr "u8 list" nat | CallReset | CallResetTo u64

fun do_call :: "buffer_call \<Rightarrow> network_buffer \<Rightarrow> write_outcome" where
  "do_call (CallU8 v) b = write_u8 v b"
| "do_call (CallU16 v) b = write_u16_be v b"
| "do_call (CallU32 v) b = write_u32_be v b"
| "do_call (CallU64 v) b = write_u64_be v b"
| "do_call (CallPrice v) b = write_price v b"
| "do_call (CallQuantity v) b = write_quantity v b"
| "do_call (CallSlice bs) b = write_slice bs b"
| "do_call (CallFixedStr s n) b = write_fixed_str s n b"
| "do_call CallReset b = Wrote (reset_buffer b)"
| "do_call (CallResetTo p) b = Wrote (reset_to p b)"

text \<open>A refused write goes on with the buffer it leaves; a wild one ends the run.\<close>

fun buffer_run :: "buffer_call list \<Rightarrow> network_buffer \<Rightarrow> write_outcome" where
  "buffer_run [] b = Wrote b"
| "buffer_run (c # cs) b =
     (case do_call c b of Wrote b' \<Rightarrow> buffer_run cs b' | Refused b' \<Rightarrow> buffer_run cs b' | WildWrite \<Rightarrow> WildWrite)"

fun stays_inside :: "write_outcome \<Rightarrow> bool" where
  "stays_inside (Wrote b) = buffer_ok b"
| "stays_inside (Refused b) = buffer_ok b"
| "stays_inside WildWrite = False"

lemma checked_write_inside:
  assumes "buffer_ok b" "length bs \<le> n"
  shows "stays_inside (if \<not> can_write b n then Refused b else put_bytes bs b)"
proof (cases "n \<le> room b")
  case True
  then have "length bs \<le> room b" using assms(2) by simp
  then show ?thesis using assms(1) by (simp add: can_write_room put_bytes_ok extended_ok)
next
  case False
  then show ?thesis using assms(1) by (simp add: can_write_room)
qed

lemma buffer_call_inside:
  assumes "buffer_ok b" "\<forall>p. c = CallResetTo p \<longrightarrow> unat p \<le> MAX_MESSAGE_SIZE"
  shows "stays_inside (do_call c b)"
proof (cases c)
  case (CallU8 v)
  then show ?thesis
    using assms(1) extended_ok [of b "[v]"] by (simp add: write_u8_ok)
next
  case (CallFixedStr t n)
  let ?bs = "take (min (length t) n) t @ replicate (n - min (length t) n) 32"
  have "length ?bs \<le> n" by simp
  from checked_write_inside [OF assms(1) this] show ?thesis
    unfolding CallFixedStr do_call.simps write_fixed_str_def Let_def .
qed (use assms checked_write_inside [OF assms(1)] in
    \<open>simp_all add: write_u16_be_def write_u32_be_def write_u64_be_def write_price_def write_quantity_def
      write_slice_def reset_to_def reset_buffer_def buffer_ok_def\<close>)



text \<open>C26. Whatever order is given, and whatever the encoder has built before, a message whose body fits
  the buffer is built successfully, takes the next sequence number, and consists of the five bytes
  \<open>10=0<SOH>\<close> alone: neither the header nor the order is in it.  A longer body is an error that
  leaves the encoder usable and its sequence number unchanged.\<close>

theorem order_message_is_checksum_alone:
  "itoa_prints itoa \<Longrightarrow> encoder_ok e \<Longrightarrow>
   (if length (fields_text itoa (order_body itoa c s d q p a)) \<le> MAX_MESSAGE_SIZE
    then \<exists>e'. build_new_order_single itoa c s d q p a e = BuildOk checksum_only e' \<and> encoder_ok e'
           \<and> fe_msg_seq_num e' = fe_msg_seq_num e + 1
    else \<exists>e'. build_new_order_single itoa c s d q p a e = BuildErr e' \<and> encoder_ok e'
           \<and> fe_msg_seq_num e' = fe_msg_seq_num e)"
  by (simp add: build_fits build_too_long)

theorem order_message_is_checksum_alone_witness:
  "\<exists>e'. build_new_order_single signed_decimal [79] [69] [49] 10 4500 [65] (new_fix_encoder str_fix44 [83] [84])
      = BuildOk checksum_only e'"
proof -
  have "length (fields_text signed_decimal (order_body signed_decimal [79] [69] [49] 10 4500 [65])) \<le> MAX_MESSAGE_SIZE"
    using fields_text_bound [of signed_decimal "order_body signed_decimal [79] [69] [49] 10 4500 [65]"]
      length_signed_decimal [of 10] price_text_fits [of 4500]
    by (simp add: order_body_def MAX_MESSAGE_SIZE_def in_i64_def)
  then show ?thesis
    using order_message_is_checksum_alone [of signed_decimal "new_fix_encoder str_fix44 [83] [84]"
        "[79]" "[69]" "[49]" 10 4500 "[65]"] by auto
qed

end
