(* ===== verification/Fix_Parser.thy ===== *)
theory Fix_Parser
  imports Fix_Encoder
begin

text \<open>
  The FIX parser of \<open>crates/nexus_brokerage/src/dark_pools/fix_tag_value_parser.rs\<close>, which reads the
  tag-value text that the encoder of \<open>Fix_Encoder\<close> writes.  Positions, \<open>usize\<close> in the code, are
  natural numbers; slicing and indexing out of range is a panic.  A parsing step returns its result
  together with the parser, whose position also moves when the step fails.
\<close>

section \<open>The parser\<close>

datatype fix_error =
  BufferUnderflow nat nat
| InvalidTagFormat nat
| TagOverflow
| InvalidCharacter u8
| TruncatedMessage
| ChecksumError u8 u8

record fix_field =
  ff_tag :: u32
  ff_value :: "u8 list"

record fix_parser =
  fp_buffer :: "u8 list"
  fp_pos :: nat
  fp_checksum_start :: nat

type_synonym 'a parsed = "panic + (fix_error + 'a) \<times> fix_parser"

definition new_parser :: "u8 list \<Rightarrow> fix_parser" where
  "new_parser buffer = \<lparr>fp_buffer = buffer, fp_pos = 0, fp_checksum_start = 0\<rparr>"

definition with_checksum_start :: "u8 list \<Rightarrow> nat \<Rightarrow> fix_parser" where
  "with_checksum_start buffer n = \<lparr>fp_buffer = buffer, fp_pos = 0, fp_checksum_start = n\<rparr>"

definition fix_peek_byte :: "nat \<Rightarrow> fix_parser \<Rightarrow> fix_error + u8" where
  "fix_peek_byte offset p =
     (let idx = fp_pos p + offset in
      if idx \<ge> length (fp_buffer p) then Inl (BufferUnderflow (fp_pos p) (offset + 1))
      else Inr (fp_buffer p ! idx))"

definition advance :: "fix_parser \<Rightarrow> fix_parser" where
  "advance p = p\<lparr>fp_pos := fp_pos p + 1\<rparr>"

definition fix_next_byte :: "fix_parser \<Rightarrow> (fix_error + u8) \<times> fix_parser" where
  "fix_next_byte p =
     (case fix_peek_byte 0 p of Inl e \<Rightarrow> (Inl e, p) | Inr b \<Rightarrow> (Inr b, advance p))"

definition is_ascii_digit :: "u8 \<Rightarrow> bool" where
  "is_ascii_digit b \<longleftrightarrow> 48 \<le> b \<and> b \<le> 57"

text \<open>\<open>tag.checked_mul(10).and_then(|t| t.checked_add(digit))\<close>.\<close>

definition push_digit :: "u32 \<Rightarrow> u8 \<Rightarrow> u32 option" where
  "push_digit tag b =
     (if unat tag * 10 \<ge> 2 ^ 32 then None
      else let t = tag * 10; digit = ucast (b - 48) in
        if unat t + unat digit \<ge> 2 ^ 32 then None else Some (t + digit))"

lemma peek_byte_in_range: "fix_peek_byte 0 p = Inr b \<Longrightarrow> fp_pos p < length (fp_buffer p)"
  by (auto simp: fix_peek_byte_def Let_def split: if_splits)

function parse_tag_loop :: "nat \<Rightarrow> u32 \<Rightarrow> nat \<Rightarrow> fix_parser \<Rightarrow> (fix_error + u32) \<times> fix_parser" where
  "parse_tag_loop tag_start tag digit_count p =
     (case fix_peek_byte 0 p of
        Inl e \<Rightarrow> (Inl e, p)
      | Inr byte \<Rightarrow>
          if byte = 61 then
            (if digit_count = 0 then (Inl (InvalidTagFormat tag_start), advance p)
             else (Inr tag, advance p))
          else if \<not> is_ascii_digit byte then (Inl (InvalidTagFormat tag_start), p)
          else
            (case push_digit tag byte of
               None \<Rightarrow> (Inl TagOverflow, p)
             | Some tag' \<Rightarrow>
                 if digit_count + 1 > 16 then (Inl TagOverflow, p)
                 else parse_tag_loop tag_start tag' (digit_count + 1) (advance p)))"
  by pat_completeness auto
termination
  by (relation "measure (\<lambda>(_, _, _, p). length (fp_buffer p) - fp_pos p)")
    (auto simp: advance_def dest!: peek_byte_in_range)

declare parse_tag_loop.simps [simp del]

definition parse_tag :: "fix_parser \<Rightarrow> (fix_error + u32) \<times> fix_parser" where
  "parse_tag p = parse_tag_loop (fp_pos p) 0 0 p"

definition slice_range :: "nat \<Rightarrow> nat \<Rightarrow> u8 list \<Rightarrow> panic + u8 list" where
  "slice_range i j bs = (if i \<le> j \<and> j \<le> length bs then Inr (take (j - i) (drop i bs)) else Inl IndexOutOfBounds)"

lemma next_byte_in_range:
  "fix_next_byte p = (Inr b, p') \<Longrightarrow> fp_pos p < length (fp_buffer p) \<and> p' = advance p"
  by (auto simp: fix_next_byte_def dest: peek_byte_in_range split: sum.splits)

text \<open>The test for printable characters in the loop has an empty body.\<close>

function parse_value_loop :: "nat \<Rightarrow> fix_parser \<Rightarrow> u8 list parsed" where
  "parse_value_loop value_start p =
     (case fix_next_byte p of
        (Inl e, p') \<Rightarrow> Inr (Inl e, p')
      | (Inr byte, p') \<Rightarrow>
          if byte = 1 then
            (case slice_range value_start (fp_pos p' - 1) (fp_buffer p') of
               Inl e \<Rightarrow> Inl e
             | Inr v \<Rightarrow> Inr (Inr v, p'))
          else parse_value_loop value_start p')"
  by pat_completeness auto
termination
  by (relation "measure (\<lambda>(_, p). length (fp_buffer p) - fp_pos p)")
    (auto simp: advance_def dest!: next_byte_in_range [OF sym])

declare parse_value_loop.simps [simp del]

definition parse_value :: "fix_parser \<Rightarrow> u8 list parsed" where
  "parse_value p = parse_value_loop (fp_pos p) p"

definition next_field :: "fix_parser \<Rightarrow> fix_field parsed" where
  "next_field p =
     (if fp_pos p \<ge> length (fp_buffer p) then Inr (Inl (BufferUnderflow (fp_pos p) 1), p)
      else
        (case parse_tag p of
           (Inl e, p1) \<Rightarrow> Inr (Inl e, p1)
         | (Inr tag, p1) \<Rightarrow>
             (case parse_value p1 of
                Inl e \<Rightarrow> Inl e
              | Inr (Inl e, p2) \<Rightarrow> Inr (Inl e, p2)
              | Inr (Inr v, p2) \<Rightarrow> Inr (Inr \<lparr>ff_tag = tag, ff_value = v\<rparr>, p2))))"

text \<open>One step of the iterator \<open>fields\<close>: it ends at the end of the buffer only.\<close>

definition fields_next :: "fix_parser \<Rightarrow> fix_field parsed option" where
  "fields_next p = (if fp_pos p \<ge> length (fp_buffer p) then None else Some (next_field p))"

definition fix_checksum :: "fix_parser \<Rightarrow> panic + u8" where
  "fix_checksum p =
     (if fp_checksum_start p \<ge> length (fp_buffer p) then Inr 0
      else
        let end_pos = (if fp_pos p > fp_checksum_start p then min (fp_pos p) (length (fp_buffer p))
                       else length (fp_buffer p)) in
        case slice_range (fp_checksum_start p) end_pos (fp_buffer p) of
          Inl e \<Rightarrow> Inl e
        | Inr bs \<Rightarrow> Inr (sum_bytes bs))"

definition parser_remaining :: "fix_parser \<Rightarrow> panic + u8 list" where
  "parser_remaining p =
     (if fp_pos p \<le> length (fp_buffer p) then Inr (drop (fp_pos p) (fp_buffer p)) else Inl IndexOutOfBounds)"

definition parser_is_done :: "fix_parser \<Rightarrow> bool" where
  "parser_is_done p \<longleftrightarrow> fp_pos p \<ge> length (fp_buffer p)"

section \<open>Each step moves forward inside the buffer\<close>

definition steps_forward :: "fix_parser \<Rightarrow> fix_parser \<Rightarrow> bool" where
  "steps_forward p p' \<longleftrightarrow> fp_buffer p' = fp_buffer p \<and> fp_checksum_start p' = fp_checksum_start p
     \<and> fp_pos p \<le> fp_pos p' \<and> (fp_pos p \<le> length (fp_buffer p) \<longrightarrow> fp_pos p' \<le> length (fp_buffer p))"

lemma steps_forward_refl [simp]: "steps_forward p p"
  by (simp add: steps_forward_def)

lemma steps_forward_trans: "steps_forward p q \<Longrightarrow> steps_forward q r \<Longrightarrow> steps_forward p r"
  by (auto simp: steps_forward_def)

lemma steps_forward_advance [simp]:
  "fp_pos p < length (fp_buffer p) \<Longrightarrow> steps_forward p (advance p)"
  by (simp add: steps_forward_def advance_def)

lemma parse_tag_loop_forward:
  assumes "parse_tag_loop ts tag n p = (r, p')"
  shows "steps_forward p p' \<and> (\<forall>t. r = Inr t \<longrightarrow> fp_pos p < fp_pos p')"
  using assms
proof (induction ts tag n p arbitrary: r p' rule: parse_tag_loop.induct)
  case (1 ts tag n p)
  show ?case
  proof (cases "fix_peek_byte 0 p")
    case (Inl e)
    then show ?thesis using 1(2) by (auto simp: parse_tag_loop.simps)
  next
    case (Inr b)
    note lt = peek_byte_in_range [OF Inr]
    show ?thesis
    proof (cases "b \<noteq> 61 \<and> is_ascii_digit b \<and> \<not> (n + 1 > 16) \<and> push_digit tag b \<noteq> None")
      case True
      then obtain t where t: "push_digit tag b = Some t" by auto
      have "parse_tag_loop ts t (n + 1) (advance p) = (r, p')"
        using 1(2) True Inr t by (subst (asm) parse_tag_loop.simps) simp
      then have "steps_forward (advance p) p' \<and> (\<forall>u. r = Inr u \<longrightarrow> fp_pos (advance p) < fp_pos p')"
        using 1(1) [OF Inr _ _ t] True by simp
      then show ?thesis
        using steps_forward_trans [OF steps_forward_advance [OF lt]] by (auto simp: advance_def)
    next
      case False
      then show ?thesis
        using 1(2) Inr lt steps_forward_advance [OF lt]
        by (subst (asm) parse_tag_loop.simps) (auto simp: advance_def split: if_splits option.splits)
    qed
  qed
qed

lemma parse_tag_forward:
  "parse_tag p = (r, p') \<Longrightarrow> steps_forward p p' \<and> (\<forall>t. r = Inr t \<longrightarrow> fp_pos p < fp_pos p')"
  unfolding parse_tag_def by (rule parse_tag_loop_forward)

lemma parse_value_loop_total:
  assumes "v \<le> fp_pos p"
  shows "\<exists>r p'. parse_value_loop v p = Inr (r, p') \<and> steps_forward p p' \<and> (\<forall>x. r = Inr x \<longrightarrow> fp_pos p < fp_pos p')"
  using assms
proof (induction v p rule: parse_value_loop.induct)
  case (1 v p)
  show ?case
  proof (cases "fix_next_byte p")
    case (Pair b p1)
    show ?thesis
    proof (cases b)
      case (Inl e)
      then have "p1 = p" using Pair by (auto simp: fix_next_byte_def split: sum.splits)
      then show ?thesis using Pair Inl by (subst parse_value_loop.simps) simp
    next
      case (Inr byte)
      then have lt: "fp_pos p < length (fp_buffer p)" and p1: "p1 = advance p"
        using next_byte_in_range Pair by auto
      note fwd = steps_forward_advance [OF lt]
      show ?thesis
      proof (cases "byte = 1")
        case True
        have "slice_range v (fp_pos p1 - 1) (fp_buffer p1) = Inr (take (fp_pos p - v) (drop v (fp_buffer p)))"
          using 1(2) lt by (simp add: slice_range_def p1 advance_def)
        then show ?thesis
          using Pair Inr True fwd by (subst parse_value_loop.simps) (simp add: p1 advance_def)
      next
        case False
        have "v \<le> fp_pos p1" using 1(2) by (simp add: p1 advance_def)
        then obtain r p' where ih: "parse_value_loop v p1 = Inr (r, p')" "steps_forward p1 p'"
          "\<forall>x. r = Inr x \<longrightarrow> fp_pos p1 < fp_pos p'"
          using 1(1) [OF Pair [symmetric] Inr False] by blast
        have "steps_forward p p'"
          using fwd ih(2) unfolding p1 by (rule steps_forward_trans)
        moreover have "fp_pos p < fp_pos p1" by (simp add: p1 advance_def)
        moreover have "parse_value_loop v p = Inr (r, p')"
          using Pair Inr False ih(1) by (subst parse_value_loop.simps) simp
        ultimately show ?thesis using ih(3) by auto
      qed
    qed
  qed
qed

lemma next_field_total:
  "\<exists>r p'. next_field p = Inr (r, p') \<and> steps_forward p p' \<and> (\<forall>f. r = Inr f \<longrightarrow> fp_pos p < fp_pos p')"
proof (cases "parse_tag p")
  case (Pair r1 p1)
  note tag = parse_tag_forward [OF Pair]
  show ?thesis
  proof (cases r1)
    case (Inl e)
    then show ?thesis using Pair tag by (simp add: next_field_def)
  next
    case (Inr t)
    obtain r2 p2 where v: "parse_value p1 = Inr (r2, p2)" "steps_forward p1 p2"
      using parse_value_loop_total [of "fp_pos p1" p1] by (auto simp: parse_value_def)
    have fwd: "steps_forward p p2"
      using tag v(2) steps_forward_trans by blast
    moreover have "fp_pos p < fp_pos p2"
      using tag v(2) Inr by (auto simp: steps_forward_def)
    ultimately show ?thesis
      using Pair Inr v(1) by (cases r2) (auto simp: next_field_def)
  qed
qed

lemma next_field_never_panics: "next_field p \<noteq> Inl e"
  using next_field_total [of p] by auto

lemma next_field_forward:
  assumes "next_field p = Inr (r, p')"
  shows "steps_forward p p'" "r = Inr f \<Longrightarrow> fp_pos p < fp_pos p'"
  using next_field_total [of p] assms by auto

lemma next_field_Ok_shorter:
  assumes "next_field p = Inr (Inr f, p')"
  shows "length (fp_buffer p') - fp_pos p' < length (fp_buffer p) - fp_pos p"
proof -
  have "fp_pos p < length (fp_buffer p)"
    using assms by (auto simp: next_field_def split: if_splits)
  moreover have "fp_pos p < fp_pos p'" "fp_buffer p' = fp_buffer p"
    using next_field_forward [OF assms] by (auto simp: steps_forward_def)
  ultimately show ?thesis by simp
qed

section \<open>Reading whole messages\<close>

text \<open>\<open>while let Ok(field) = parser.next_field() { fields.push(field) }\<close>: a malformed field ends it.\<close>

function collect_fields :: "fix_parser \<Rightarrow> panic + fix_field list" where
  "collect_fields p =
     (case next_field p of
        Inl e \<Rightarrow> Inl e
      | Inr (Inl e, p') \<Rightarrow> Inr []
      | Inr (Inr f, p') \<Rightarrow> (case collect_fields p' of Inl e \<Rightarrow> Inl e | Inr fs \<Rightarrow> Inr (f # fs)))"
  by pat_completeness auto
termination
  by (relation "measure (\<lambda>p. length (fp_buffer p) - fp_pos p)") (auto simp: next_field_Ok_shorter)

declare collect_fields.simps [simp del]

definition parse_fix_message :: "u8 list \<Rightarrow> panic + (fix_error + fix_field list)" where
  "parse_fix_message buffer =
     (case collect_fields (new_parser buffer) of Inl e \<Rightarrow> Inl e | Inr fs \<Rightarrow> Inr (Inr fs))"

text \<open>
  \<open>from_utf8(v)?.parse::<u8>()\<close>: an optional plus sign and at least one digit, without overflow.
  A value that is not UTF-8 has a byte that is no digit; both failures give the same error.
\<close>

fun digits_u8 :: "nat \<Rightarrow> u8 list \<Rightarrow> nat option" where
  "digits_u8 acc [] = Some acc"
| "digits_u8 acc (b # bs) =
     (if is_ascii_digit b \<and> acc * 10 + unat (b - 48) < 256 then digits_u8 (acc * 10 + unat (b - 48)) bs else None)"

definition parse_u8 :: "u8 list \<Rightarrow> u8 option" where
  "parse_u8 v =
     (let ds = (if v \<noteq> [] \<and> hd v = 43 then tl v else v) in
      if ds = [] then None else map_option of_nat (digits_u8 0 ds))"

text \<open>The search for the field of tag 10; on success and without such a field the position is restored.\<close>

function verify_loop :: "nat \<Rightarrow> fix_parser \<Rightarrow> unit parsed" where
  "verify_loop saved_pos p =
     (case next_field p of
        Inl e \<Rightarrow> Inl e
      | Inr (Inl e, p') \<Rightarrow> Inr (Inl TruncatedMessage, p'\<lparr>fp_pos := saved_pos\<rparr>)
      | Inr (Inr f, p') \<Rightarrow>
          if ff_tag f = 10 then
            (case parse_u8 (ff_value f) of
               None \<Rightarrow> Inr (Inl (InvalidTagFormat (fp_pos p')), p')
             | Some expected \<Rightarrow>
                 (case fix_checksum p' of
                    Inl e \<Rightarrow> Inl e
                  | Inr computed \<Rightarrow>
                      if expected \<noteq> computed then Inr (Inl (ChecksumError expected computed), p')
                      else Inr (Inr (), p'\<lparr>fp_pos := saved_pos\<rparr>)))
          else verify_loop saved_pos p')"
  by pat_completeness auto
termination
  by (relation "measure (\<lambda>(_, p). length (fp_buffer p) - fp_pos p)") (auto simp: next_field_Ok_shorter)

declare verify_loop.simps [simp del]

definition verify_checksum :: "fix_parser \<Rightarrow> unit parsed" where
  "verify_checksum p = verify_loop (fp_pos p) (p\<lparr>fp_pos := fp_checksum_start p\<rparr>)"

text \<open>No call of the parser slices out of range.\<close>

lemma fix_checksum_total: "\<exists>c. fix_checksum p = Inr c"
  by (auto simp: fix_checksum_def slice_range_def Let_def min_def)

lemma collect_fields_total: "\<exists>fs. collect_fields p = Inr fs"
proof (induction p rule: collect_fields.induct)
  case (1 p)
  obtain r p' where n: "next_field p = Inr (r, p')"
    using next_field_total by blast
  show ?case
  proof (cases r)
    case (Inl e)
    then show ?thesis using n by (subst collect_fields.simps) simp
  next
    case (Inr f)
    then obtain fs where "collect_fields p' = Inr fs" using 1 n by blast
    then show ?thesis using n Inr by (subst collect_fields.simps) simp
  qed
qed

lemma verify_loop_total: "\<exists>x. verify_loop s p = Inr x"
proof (induction s p rule: verify_loop.induct)
  case (1 s p)
  obtain r p' where n: "next_field p = Inr (r, p')"
    using next_field_total by blast
  obtain c where c: "fix_checksum p' = Inr c"
    using fix_checksum_total by blast
  show ?case
  proof (cases r)
    case (Inl e)
    then show ?thesis using n by (subst verify_loop.simps) simp
  next
    case (Inr f)
    show ?thesis
    proof (cases "ff_tag f = 10")
      case True
      then show ?thesis
        using n Inr c by (subst verify_loop.simps) (simp split: option.split)
    next
      case False
      then show ?thesis
        using n Inr 1 by (subst verify_loop.simps) simp
    qed
  qed
qed

lemma parse_fix_message_total: "\<exists>fs. parse_fix_message buf = Inr (Inr fs)"
  using collect_fields_total [of "new_parser buf"] by (auto simp: parse_fix_message_def)

section \<open>What the encoder writes is read back\<close>

text \<open>The bytes that are still to be read.\<close>

definition unread :: "fix_parser \<Rightarrow> u8 list" where
  "unread p = drop (fp_pos p) (fp_buffer p)"

definition parser_moved :: "nat \<Rightarrow> fix_parser \<Rightarrow> fix_parser" where
  "parser_moved n p = p\<lparr>fp_pos := fp_pos p + n\<rparr>"

lemma moved_0 [simp]: "parser_moved 0 p = p"
  by (simp add: parser_moved_def)

lemma moved_moved [simp]: "parser_moved m (parser_moved n p) = parser_moved (n + m) p"
  by (simp add: parser_moved_def ac_simps)

lemma advance_moved: "advance p = parser_moved 1 p"
  by (simp add: advance_def parser_moved_def)

lemma unread_moved: "unread (parser_moved n p) = drop n (unread p)"
  by (simp add: unread_def parser_moved_def ac_simps)

lemma unread_Cons:
  assumes "unread p = b # bs"
  shows "fp_pos p < length (fp_buffer p)" "fp_buffer p ! fp_pos p = b"
proof -
  show "fp_pos p < length (fp_buffer p)"
    using assms by (cases "fp_pos p < length (fp_buffer p)") (auto simp: unread_def)
  then show "fp_buffer p ! fp_pos p = b"
    using assms hd_drop_conv_nth [of "fp_pos p" "fp_buffer p"] by (simp add: unread_def)
qed

lemma peek_unread: "unread p = b # bs \<Longrightarrow> fix_peek_byte 0 p = Inr b"
  using unread_Cons [of p b bs] by (simp add: fix_peek_byte_def)

lemma next_byte_unread: "unread p = b # bs \<Longrightarrow> fix_next_byte p = (Inr b, parser_moved 1 p)"
  by (simp add: fix_next_byte_def peek_unread advance_moved)

fun push_digits :: "u32 \<Rightarrow> u8 list \<Rightarrow> u32 option" where
  "push_digits t [] = Some t"
| "push_digits t (b # bs) = (case push_digit t b of None \<Rightarrow> None | Some t' \<Rightarrow> push_digits t' bs)"

lemma parse_tag_loop_reads:
  assumes "unread p = ds @ 61 # rest" "\<forall>d\<in>set ds. is_ascii_digit d" "push_digits t ds = Some t'"
    "0 < n + length ds" "n + length ds \<le> 16"
  shows "parse_tag_loop ts t n p = (Inr t', parser_moved (length ds + 1) p)"
  using assms
proof (induction ds arbitrary: t n p)
  case Nil
  then have "fix_peek_byte 0 p = Inr 61"
    by (simp add: peek_unread)
  with Nil show ?case
    by (subst parse_tag_loop.simps) (simp add: advance_moved)
next
  case (Cons d ds)
  have peek: "fix_peek_byte 0 p = Inr d"
    using Cons.prems(1) by (simp add: peek_unread)
  obtain u where u: "push_digit t d = Some u" "push_digits u ds = Some t'"
    using Cons.prems(3) by (auto split: option.splits)
  have d: "is_ascii_digit d" "d \<noteq> 61"
    using Cons.prems(2) by (auto simp: is_ascii_digit_def)
  have "parse_tag_loop ts u (n + 1) (parser_moved 1 p) = (Inr t', parser_moved (length ds + 1) (parser_moved 1 p))"
    using Cons.prems u by (intro Cons.IH) (auto simp: unread_moved)
  then show ?case
    using peek u d Cons.prems(5) by (subst parse_tag_loop.simps) (simp add: advance_moved)
qed

lemma parse_value_loop_reads:
  assumes "unread p = v @ 1 # rest" "1 \<notin> set v" "s \<le> fp_pos p" "take (fp_pos p - s) (drop s (fp_buffer p)) = pre"
  shows "parse_value_loop s p = Inr (Inr (pre @ v), parser_moved (length v + 1) p)"
  using assms
proof (induction v arbitrary: p pre)
  case Nil
  then have len: "fp_pos p < length (fp_buffer p)"
    using unread_Cons(1) [of p 1 rest] by simp
  have "fix_next_byte p = (Inr 1, parser_moved 1 p)"
    using Nil(1) by (simp add: next_byte_unread)
  then show ?case
    using Nil len by (subst parse_value_loop.simps) (simp add: slice_range_def parser_moved_def)
next
  case (Cons b v)
  have len: "fp_pos p < length (fp_buffer p)" and nth: "fp_buffer p ! fp_pos p = b"
    using Cons.prems(1) unread_Cons [of p b "v @ 1 # rest"] by simp_all
  have next_b: "fix_next_byte p = (Inr b, parser_moved 1 p)"
    using Cons.prems(1) by (simp add: next_byte_unread)
  have u: "unread (parser_moved 1 p) = v @ 1 # rest"
    using Cons.prems(1) by (simp add: unread_moved)
  have t: "take (fp_pos (parser_moved 1 p) - s) (drop s (fp_buffer (parser_moved 1 p))) = pre @ [b]"
    using Cons.prems(3,4) len nth by (simp add: parser_moved_def Suc_diff_le take_Suc_conv_app_nth)
  have "s \<le> fp_pos (parser_moved 1 p)"
    using Cons.prems(3) by (simp add: parser_moved_def)
  then have "parse_value_loop s (parser_moved 1 p) = Inr (Inr ((pre @ [b]) @ v), parser_moved (length v + 1) (parser_moved 1 p))"
    using Cons.IH [OF u _ _ t] Cons.prems(2) by simp
  then show ?case
    using next_b Cons.prems(2) by (subst parse_value_loop.simps) auto
qed

lemma next_field_reads:
  assumes "unread p = ds @ 61 # v @ 1 # rest" "\<forall>d\<in>set ds. is_ascii_digit d" "push_digits 0 ds = Some t"
    "ds \<noteq> []" "length ds \<le> 16" "1 \<notin> set v"
  shows "next_field p = Inr (Inr \<lparr>ff_tag = t, ff_value = v\<rparr>, parser_moved (length ds + length v + 2) p)"
proof -
  let ?q = "parser_moved (length ds + 1) p"
  have "unread p \<noteq> []" using assms(1) by simp
  then have lt: "fp_pos p < length (fp_buffer p)" by (simp add: unread_def)
  have "parse_tag p = (Inr t, ?q)"
    unfolding parse_tag_def using assms by (intro parse_tag_loop_reads) auto
  moreover have "parse_value ?q = Inr (Inr ([] @ v), parser_moved (length v + 1) ?q)"
    unfolding parse_value_def using assms by (intro parse_value_loop_reads) (auto simp: unread_moved)
  ultimately show ?thesis
    using lt by (simp add: next_field_def ac_simps)
qed

text \<open>Decimal digits are read back as the number they print.\<close>

lemma is_ascii_digit_of_nat: "d < 10 \<Longrightarrow> is_ascii_digit (48 + of_nat d)"
proof -
  assume "d < 10"
  then have "d \<in> set [0..<10]" by simp
  then show ?thesis by (auto simp: is_ascii_digit_def upt_rec)
qed

lemma to_decimal_digits: "\<forall>b\<in>set (to_decimal n). is_ascii_digit b"
proof (induction n rule: to_decimal.induct)
  case (1 n)
  have "is_ascii_digit (48 + of_nat (n mod 10))"
    by (rule is_ascii_digit_of_nat) simp
  moreover have "n < 10 \<Longrightarrow> is_ascii_digit (48 + of_nat n)"
    by (rule is_ascii_digit_of_nat)
  ultimately show ?case
    using 1 by (subst to_decimal.simps) (auto split: if_splits)
qed

lemma push_digits_append:
  "push_digits t (xs @ ys) = (case push_digits t xs of None \<Rightarrow> None | Some u \<Rightarrow> push_digits u ys)"
  by (induction xs arbitrary: t) (auto split: option.splits)

lemma push_digit_of_nat:
  assumes "d < 10" "m * 10 + d < 2 ^ 32"
  shows "push_digit (of_nat m) (48 + of_nat d) = Some (of_nat (m * 10 + d))"
proof -
  have m: "unat (of_nat m :: u32) = m" and "unat (of_nat (m * 10) :: u32) = m * 10"
    using assms(2) by (simp_all add: unsigned_of_nat take_bit_nat_eq_self del: of_nat_mult)
  then have m10: "unat (of_nat m * 10 :: u32) = m * 10"
    by simp
  have "(ucast (48 + of_nat d - 48 :: u8) :: u32) = of_nat d"
    using assms(1) by (subst word_unat_eq_iff) (simp add: unsigned_of_nat unsigned_ucast_eq take_bit_nat_eq_self)
  moreover have "unat (of_nat d :: u32) = d"
    using assms(1) by (simp add: unsigned_of_nat take_bit_nat_eq_self)
  ultimately show ?thesis
    using assms(2) m m10 by (simp add: push_digit_def Let_def)
qed

lemma push_digits_to_decimal: "n < 2 ^ 32 \<Longrightarrow> push_digits 0 (to_decimal n) = Some (of_nat n)"
proof (induction n rule: to_decimal.induct)
  case (1 n)
  show ?case
  proof (cases "n < 10")
    case True
    then show ?thesis
      using push_digit_of_nat [of n 0] by (subst to_decimal.simps) simp
  next
    case False
    have "push_digit (of_nat (n div 10)) (48 + of_nat (n mod 10)) = Some (of_nat (n div 10 * 10 + n mod 10))"
      using 1(2) by (intro push_digit_of_nat) auto
    then show ?thesis
      using 1 False by (subst to_decimal.simps) (simp add: push_digits_append)
  qed
qed

lemma tag_text:
  assumes "itoa_prints itoa"
  shows "itoa (uint (t :: u32)) = to_decimal (unat t)"
proof -
  have t: "0 \<le> uint t" "uint t < 2 ^ 32"
    using uint_lt2p [of t] by simp_all
  then have "itoa (uint t) = signed_decimal (uint t)"
    using assms order_trans [of "- (2 ^ 63)" 0 "uint t"] by (simp add: itoa_prints_def)
  then show ?thesis
    using t by (simp add: signed_decimal_def)
qed

lemma next_field_reads_text:
  assumes "itoa_prints itoa" "unread p = field_text itoa t v @ rest" "1 \<notin> set v"
  shows "next_field p = Inr (Inr \<lparr>ff_tag = t, ff_value = v\<rparr>, parser_moved (length (field_text itoa t v)) p)"
proof -
  let ?ds = "to_decimal (unat t)"
  have t: "unat t < 2 ^ 32" using unat_lt_2p [of t] by simp
  then have "unat t < 10 ^ Suc 9" by simp
  then have "length ?ds \<le> 16" using length_to_decimal by fastforce
  moreover have "push_digits 0 ?ds = Some t" using push_digits_to_decimal [OF t] by simp
  ultimately show ?thesis
    using assms(2,3) next_field_reads [of p ?ds v rest t] to_decimal_digits [of "unat t"]
    by (simp add: field_text_def tag_text [OF assms(1)])
qed

lemma collect_fields_reads:
  assumes "itoa_prints itoa" "unread p = fields_text itoa fs" "\<forall>(t, v)\<in>set fs. 1 \<notin> set v"
  shows "collect_fields p = Inr (map (\<lambda>(t, v). \<lparr>ff_tag = t, ff_value = v\<rparr>) fs)"
  using assms(2,3)
proof (induction fs arbitrary: p)
  case Nil
  then have "fp_pos p \<ge> length (fp_buffer p)" by (simp add: unread_def fields_text_def)
  then show ?case by (subst collect_fields.simps) (simp add: next_field_def)
next
  case (Cons f fs)
  obtain t v where f: "f = (t, v)" by (cases f)
  have u: "unread p = field_text itoa t v @ fields_text itoa fs" and v: "1 \<notin> set v"
    using Cons.prems by (auto simp: f fields_text_def)
  have "unread (parser_moved (length (field_text itoa t v)) p) = fields_text itoa fs"
    by (simp add: unread_moved u)
  then have "collect_fields (parser_moved (length (field_text itoa t v)) p)
      = Inr (map (\<lambda>(t, v). \<lparr>ff_tag = t, ff_value = v\<rparr>) fs)"
    using Cons.IH Cons.prems(2) by simp
  then show ?case
    using next_field_reads_text [OF assms(1) u v] by (subst collect_fields.simps) (simp add: f)
qed

section \<open>The checksum\<close>

lemma foldl_plus_start: "foldl (+) c bs = (c :: u8) + foldl (+) 0 bs"
proof (induction bs arbitrary: c)
  case (Cons b bs)
  have "foldl (+) c (b # bs) = (c + b) + foldl (+) 0 bs"
    unfolding foldl.simps by (rule Cons)
  also have "\<dots> = c + (b + foldl (+) 0 bs)"
    by (rule add.assoc)
  also have "b + foldl (+) 0 bs = foldl (+) b bs"
    by (rule Cons [symmetric])
  also have "foldl (+) b bs = foldl (+) 0 (b # bs)"
    by simp
  finally show ?case .
qed simp

lemma sum_bytes_append: "sum_bytes (xs @ ys) = sum_bytes xs + sum_bytes ys"
  unfolding sum_bytes_def foldl_append by (rule foldl_plus_start)

lemma sum_bytes_Cons: "sum_bytes (b # bs) = b + sum_bytes bs"
proof -
  have "foldl (+) 0 (b # bs) = foldl (+) b bs" by simp
  then show ?thesis
    unfolding sum_bytes_def using foldl_plus_start [of b bs] by (rule trans)
qed

lemma sum_bytes_Nil [simp]: "sum_bytes [] = 0"
  by (simp add: sum_bytes_def)

text \<open>A message as the standard has it: three digits for the sum of all bytes before the field 10.\<close>

definition three_digits :: "nat \<Rightarrow> u8 list" where
  "three_digits n = [48 + of_nat (n div 100), 48 + of_nat (n div 10 mod 10), 48 + of_nat (n mod 10)]"

definition conformant :: "(int \<Rightarrow> u8 list) \<Rightarrow> (u32 \<times> u8 list) list \<Rightarrow> u8 list" where
  "conformant itoa fs =
     (let body = fields_text itoa fs in
      body @ field_text itoa 10 (three_digits (unat (sum_bytes body))))"

lemma unat_digit: "d < 10 \<Longrightarrow> unat (48 + of_nat d - 48 :: u8) = d"
  by (simp add: unsigned_of_nat take_bit_nat_eq_self)

lemma not_ascii_digits: "\<not> is_ascii_digit 43" "\<not> is_ascii_digit 1"
  by (simp_all add: is_ascii_digit_def word_le_nat_alt)

lemma parse_three_digits:
  assumes "n < 256"
  shows "parse_u8 (three_digits n) = Some (of_nat n)"
proof -
  let ?a = "n div 100" and ?b = "n div 10 mod 10" and ?c = "n mod 10"
  have lt: "?a < 10" "?b < 10" "?c < 10" using assms by auto
  have ab: "?a * 10 + ?b = n div 10"
    using div_mult_mod_eq [of "n div 10" 10] by (simp add: div_mult2_eq [symmetric])
  then have abc: "(?a * 10 + ?b) * 10 + ?c = n" by simp
  have "is_ascii_digit (48 + of_nat ?a)" "is_ascii_digit (48 + of_nat ?b)" "is_ascii_digit (48 + of_nat ?c)"
    using lt by (simp_all only: is_ascii_digit_of_nat)
  moreover have "?a < 256" "?a * 10 + ?b < 256" "(?a * 10 + ?b) * 10 + ?c < 256"
    using assms ab abc by auto
  ultimately have "digits_u8 0 (three_digits n) = Some n"
    unfolding three_digits_def digits_u8.simps unat_digit [OF lt(1)] unat_digit [OF lt(2)] unat_digit [OF lt(3)]
    using abc by simp
  moreover have "(48 + of_nat ?a :: u8) \<noteq> 43"
    using is_ascii_digit_of_nat [OF lt(1)] not_ascii_digits by metis
  ultimately show ?thesis
    by (simp add: parse_u8_def three_digits_def)
qed

lemma itoa_10: "itoa_prints itoa \<Longrightarrow> itoa (uint (10 :: u32)) = [49, 48]"
  using tag_text [of itoa 10] by (simp add: to_decimal.simps)

lemma trailer_sum_nonzero:
  assumes "itoa_prints itoa" "n < 256"
  shows "sum_bytes (field_text itoa 10 (three_digits n)) \<noteq> 0"
proof -
  let ?s = "n div 100 + n div 10 mod 10 + n mod 10"
  have "sum_bytes (field_text itoa 10 (three_digits n)) = of_nat (303 + ?s)"
    unfolding field_text_def itoa_10 [OF assms(1)] three_digits_def
    by (simp add: sum_bytes_Cons)
  moreover have "?s \<le> 20"
    using assms(2) mod_less_divisor [of 10 n] mod_less_divisor [of 10 "n div 10"] by linarith
  then have "unat (of_nat (303 + ?s) :: u8) = 47 + ?s"
    by (simp add: unsigned_of_nat take_bit_eq_mod mod_if del: of_nat_add)
  ultimately show ?thesis by auto
qed

lemma three_digits_no_soh: "n < 256 \<Longrightarrow> 1 \<notin> set (three_digits n)"
proof -
  assume "n < 256"
  then have "\<forall>b\<in>set (three_digits n). is_ascii_digit b"
    by (auto simp: three_digits_def intro!: is_ascii_digit_of_nat)
  then show ?thesis using not_ascii_digits by blast
qed

lemma verify_loop_skips:
  assumes "itoa_prints itoa" "unread p = fields_text itoa fs @ rest"
    "\<forall>(t, v)\<in>set fs. t \<noteq> 10 \<and> 1 \<notin> set v"
  shows "verify_loop s p = verify_loop s (parser_moved (length (fields_text itoa fs)) p)"
  using assms(2,3)
proof (induction fs arbitrary: p)
  case Nil
  then show ?case by (simp add: fields_text_def)
next
  case (Cons f fs)
  obtain t v where f: "f = (t, v)" by (cases f)
  let ?q = "parser_moved (length (field_text itoa t v)) p"
  have u: "unread p = field_text itoa t v @ fields_text itoa fs @ rest" and v: "1 \<notin> set v" "t \<noteq> 10"
    using Cons.prems by (auto simp: f fields_text_def)
  have "verify_loop s p = verify_loop s ?q"
    using next_field_reads_text [OF assms(1) u v(1)] v(2) by (subst verify_loop.simps) simp
  also have "\<dots> = verify_loop s (parser_moved (length (fields_text itoa fs)) ?q)"
    using Cons.IH [of ?q] Cons.prems(2) by (simp add: unread_moved u)
  finally show ?case by (simp add: f fields_text_def)
qed

lemma verify_conformant:
  assumes "itoa_prints itoa" "\<forall>(t, v)\<in>set fs. t \<noteq> 10 \<and> 1 \<notin> set v"
  shows "\<exists>computed p'. verify_checksum (new_parser (conformant itoa fs))
      = Inr (Inl (ChecksumError (sum_bytes (fields_text itoa fs)) computed), p')
    \<and> computed \<noteq> sum_bytes (fields_text itoa fs)"
proof -
  let ?body = "fields_text itoa fs" and ?msg = "conformant itoa fs"
  let ?n = "unat (sum_bytes ?body)"
  let ?tr = "field_text itoa 10 (three_digits ?n)"
  have n: "?n < 256" using unat_lt_2p [of "sum_bytes ?body"] by simp
  have msg: "?msg = ?body @ ?tr" by (simp add: conformant_def Let_def)
  let ?p = "new_parser ?msg" and ?q = "parser_moved (length ?body) (new_parser ?msg)"
  have u: "unread ?p = ?body @ ?tr" and uq: "unread ?q = ?tr @ []"
    by (simp_all add: unread_moved) (simp_all add: unread_def new_parser_def msg)
  let ?r = "parser_moved (length ?tr) ?q"
  have r: "fp_pos ?r = length ?msg" "fp_buffer ?r = ?msg" "fp_checksum_start ?r = 0"
    by (simp_all add: parser_moved_def new_parser_def msg)
  have "?msg \<noteq> []" by (simp add: msg field_text_def)
  then have c: "fix_checksum ?r = Inr (sum_bytes ?msg)"
    using r by (simp add: fix_checksum_def slice_range_def Let_def)
  have ne: "sum_bytes ?msg \<noteq> sum_bytes ?body"
    using trailer_sum_nonzero [OF assms(1) n] by (simp add: msg sum_bytes_append)
  have "verify_checksum ?p = verify_loop 0 ?p"
    by (simp add: verify_checksum_def new_parser_def)
  also have "\<dots> = verify_loop 0 ?q"
    by (rule verify_loop_skips [OF assms(1) u assms(2)])
  also have "\<dots> = Inr (Inl (ChecksumError (sum_bytes ?body) (sum_bytes ?msg)), ?r)"
    using next_field_reads_text [OF assms(1) uq three_digits_no_soh [OF n]] c ne
    by (subst verify_loop.simps) (simp add: parse_three_digits [OF n])
  finally show ?thesis using ne by blast
qed

section \<open>The iterator over the fields\<close>

text \<open>The first \<open>n\<close> items that the iterator \<open>fields\<close> yields.\<close>

fun fields_take :: "nat \<Rightarrow> fix_parser \<Rightarrow> (panic + (fix_error + fix_field)) list" where
  "fields_take 0 p = []"
| "fields_take (Suc n) p =
     (case fields_next p of
        None \<Rightarrow> []
      | Some (Inl e) \<Rightarrow> [Inl e]
      | Some (Inr (r, p')) \<Rightarrow> Inr r # fields_take n p')"

text \<open>At a byte that can start no tag the parser stays, and the iterator never ends.\<close>

lemma next_field_stuck:
  assumes "unread p = b # bs" "b \<noteq> 61" "\<not> is_ascii_digit b"
  shows "next_field p = Inr (Inl (InvalidTagFormat (fp_pos p)), p)"
  using assms unread_Cons [OF assms(1)]
  by (simp add: next_field_def parse_tag_def) (subst parse_tag_loop.simps, simp add: peek_unread)

lemma fields_never_end:
  assumes "unread p = b # bs" "b \<noteq> 61" "\<not> is_ascii_digit b"
  shows "fields_take n p = replicate n (Inr (Inl (InvalidTagFormat (fp_pos p))))"
  using unread_Cons(1) [OF assms(1)] next_field_stuck [OF assms]
  by (induction n) (simp_all add: fields_next_def)

section \<open>Properties\<close>

text \<open>C24. Fields that the encoder writes to an empty network buffer, in any number that fits it, with
  any tags and any values free of the delimiter, are exactly the fields that the parser of the
  brokerage crate reads from the bytes of the buffer.\<close>

theorem fix_fields_read_back:
  "itoa_prints itoa \<Longrightarrow> length (fields_text itoa fs) \<le> MAX_MESSAGE_SIZE \<Longrightarrow> \<forall>(t, v)\<in>set fs. 1 \<notin> set v \<Longrightarrow>
   \<exists>b msg. write_fields itoa fs new_buffer = Wrote b \<and> get_data b = Inr msg
     \<and> parse_fix_message msg = Inr (Inr (map (\<lambda>(t, v). \<lparr>ff_tag = t, ff_value = v\<rparr>) fs))"
proof -
  assume itoa: "itoa_prints itoa" and l: "length (fields_text itoa fs) \<le> MAX_MESSAGE_SIZE"
    and soh: "\<forall>(t, v)\<in>set fs. 1 \<notin> set v"
  have fits: "length (fields_text itoa fs) \<le> room new_buffer" using l by simp
  have "write_fields itoa fs new_buffer = Wrote (extended new_buffer (fields_text itoa fs))"
    using new_buffer_ok fits by (rule write_fields_fit)
  moreover have "get_data (extended new_buffer (fields_text itoa fs)) = Inr (fields_text itoa fs)"
    using fits by (simp add: get_data_ok extended_ok written_extended)
  moreover have "collect_fields (new_parser (fields_text itoa fs)) = Inr (map (\<lambda>(t, v). \<lparr>ff_tag = t, ff_value = v\<rparr>) fs)"
    using itoa soh by (intro collect_fields_reads) (simp_all add: unread_def new_parser_def)
  ultimately show ?thesis by (simp add: parse_fix_message_def)
qed

theorem fix_fields_read_back_witness:
  "\<exists>b msg. write_fields signed_decimal [(8, [70]), (35, [])] new_buffer = Wrote b \<and> get_data b = Inr msg
     \<and> parse_fix_message msg = Inr (Inr [\<lparr>ff_tag = 8, ff_value = [70]\<rparr>, \<lparr>ff_tag = 35, ff_value = []\<rparr>])"
  using fix_fields_read_back [of signed_decimal "[(8, [70]), (35, [])]"]
    fields_text_bound [of signed_decimal "[(8, [70]), (35, [])]"]
  by (simp add: MAX_MESSAGE_SIZE_def)

text \<open>C27. A message with the checksum that the FIX standard prescribes, the sum of all bytes before the
  field 10 in three digits, never passes \<open>verify_checksum\<close>: the sum is taken after that field has been
  read and so includes it, and its own bytes never add up to 0 modulo 256.\<close>

theorem standard_checksum_rejected:
  "itoa_prints itoa \<Longrightarrow> \<forall>(t, v)\<in>set fs. t \<noteq> 10 \<and> 1 \<notin> set v \<Longrightarrow>
   \<exists>computed p'. verify_checksum (new_parser (conformant itoa fs))
      = Inr (Inl (ChecksumError (sum_bytes (fields_text itoa fs)) computed), p')
    \<and> computed \<noteq> sum_bytes (fields_text itoa fs)"
  by (rule verify_conformant)

theorem standard_checksum_rejected_witness:
  "\<exists>computed p'. verify_checksum (new_parser (conformant signed_decimal [(8, [70]), (35, [68])]))
      = Inr (Inl (ChecksumError (sum_bytes (fields_text signed_decimal [(8, [70]), (35, [68])])) computed), p')
    \<and> computed \<noteq> sum_bytes (fields_text signed_decimal [(8, [70]), (35, [68])])"
  using standard_checksum_rejected [of signed_decimal "[(8, [70]), (35, [68])]"] by simp

end
