(* ===== verification/Mifid_Tick.thy ===== *)
theory Mifid_Tick
  imports Rule_Dag
begin

text \<open>
  The tick sizes and the best execution check of \<open>crates/nexus_legal/src/compliance/mifid_tick_size.rs\<close>.
  Prices are \<open>u64\<close>; a remainder or quotient by a tick size of 0 panics.  The clock readings are
  arguments, and the concurrent maps are maps that one call at a time reads and updates.
\<close>

section \<open>Tick size tables\<close>

datatype tick_size_regime = StandardRegime | Liquidity1 | Liquidity2 | CustomRegime

record price_band =
  pb_min_price :: u64
  pb_max_price :: u64
  pb_tick_size :: u64
  pb_regime :: tick_size_regime

record tick_table =
  tt_symbol :: string
  tt_venue :: string
  tt_regime :: tick_size_regime
  tt_bands :: "price_band list"
  tt_updated_at_ns :: u64

definition new_tick_table :: "string \<Rightarrow> string \<Rightarrow> tick_size_regime \<Rightarrow> tick_table" where
  "new_tick_table s v r =
     \<lparr>tt_symbol = s, tt_venue = v, tt_regime = r, tt_bands = [], tt_updated_at_ns = 0\<rparr>"

definition add_band :: "u64 \<Rightarrow> u64 \<Rightarrow> u64 \<Rightarrow> tick_table \<Rightarrow> tick_table" where
  "add_band lo hi tick t =
     t\<lparr>tt_bands := sort_key pb_min_price
          (tt_bands t @ [\<lparr>pb_min_price = lo, pb_max_price = hi, pb_tick_size = tick, pb_regime = tt_regime t\<rparr>])\<rparr>"

definition in_price_band :: "u64 \<Rightarrow> price_band \<Rightarrow> bool" where
  "in_price_band p b \<longleftrightarrow> pb_min_price b \<le> p \<and> p \<le> pb_max_price b"

definition table_tick_size :: "tick_table \<Rightarrow> u64 \<Rightarrow> u64 option" where
  "table_tick_size t p = map_option pb_tick_size (List.find (in_price_band p) (tt_bands t))"

definition is_price_compliant :: "tick_table \<Rightarrow> u64 \<Rightarrow> panic + bool" where
  "is_price_compliant t p =
     (case table_tick_size t p of
        Some tick \<Rightarrow> if tick = 0 then Inl DivideByZero else Inr (p mod tick = 0)
      | None \<Rightarrow> Inr False)"

definition table_round_to_tick :: "tick_table \<Rightarrow> u64 \<Rightarrow> panic + u64 option" where
  "table_round_to_tick t p =
     (case table_tick_size t p of
        None \<Rightarrow> Inr None
      | Some tick \<Rightarrow> if tick = 0 then Inl DivideByZero else Inr (Some (p div tick * tick)))"

subsection \<open>Rounding\<close>

text \<open>Every band starts at a multiple of its tick size, which is not 0, and the bands do not overlap.\<close>

definition aligned :: "tick_table \<Rightarrow> bool" where
  "aligned t \<longleftrightarrow> (\<forall>b \<in> set (tt_bands t). pb_tick_size b \<noteq> 0 \<and> pb_min_price b mod pb_tick_size b = 0)"

definition disjoint_bands :: "tick_table \<Rightarrow> bool" where
  "disjoint_bands t \<longleftrightarrow> (\<forall>b \<in> set (tt_bands t). \<forall>c \<in> set (tt_bands t). \<forall>p. in_price_band p b \<and> in_price_band p c \<longrightarrow> b = c)"

lemma unat_div_mult_tick: "unat (p div tick * tick :: u64) = unat p div unat tick * unat tick"
proof -
  have "unat p div unat tick * unat tick \<le> unat p" by (rule div_times_less_eq_dividend)
  also have "unat p < 2 ^ LENGTH(64)" by (rule unat_lt_2p)
  finally have "unat (p div tick) * unat tick < 2 ^ LENGTH(64)"
    by (simp only: unat_div_distrib)
  then show ?thesis
    by (simp add: unat_mult_lem [THEN iffD1] unat_div_distrib)
qed

lemma rounded_mod: "(p div tick * tick :: u64) mod tick = 0"
  by (simp add: word_unat_eq_iff unat_mod_distrib unat_div_mult_tick)

lemma rounded_le: "(p div tick * tick :: u64) \<le> p"
  by (simp add: word_le_nat_alt unat_div_mult_tick)

lemma rounded_ge:
  assumes "m \<le> (p :: u64)" "m mod tick = 0" "tick \<noteq> 0"
  shows "m \<le> p div tick * tick"
proof -
  have "unat m mod unat tick = 0"
    using assms(2) by (simp add: word_unat_eq_iff unat_mod_distrib)
  then have "unat m = unat m div unat tick * unat tick"
    using div_mult_mod_eq [of "unat m" "unat tick"] by simp
  also have "\<dots> \<le> unat p div unat tick * unat tick"
    using assms(1) by (intro mult_le_mono1 div_le_mono) (simp add: word_le_nat_alt)
  finally show ?thesis by (simp add: word_le_nat_alt unat_div_mult_tick)
qed

lemma find_in_band: "List.find (in_price_band p) bs = Some b \<Longrightarrow> b \<in> set bs \<and> in_price_band p b"
  by (induction bs) (auto split: if_splits)

lemma find_in_band_unique:
  assumes "b \<in> set bs" "in_price_band p b" "\<forall>c \<in> set bs. in_price_band p c \<longrightarrow> c = b"
  shows "List.find (in_price_band p) bs = Some b"
  using assms
proof (induction bs)
  case (Cons c bs)
  show ?case
  proof (cases "in_price_band p c")
    case True
    then have "c = b" using Cons.prems(3) by (meson list.set_intros(1))
    then show ?thesis using True by simp
  next
    case False
    then have mem: "b \<in> set bs" using Cons.prems(1,2) by auto
    have "\<forall>c \<in> set bs. in_price_band p c \<longrightarrow> c = b"
      using Cons.prems(3) by (meson list.set_intros(2))
    then have "List.find (in_price_band p) bs = Some b"
      by (rule Cons.IH [OF mem Cons.prems(2)])
    then show ?thesis using False by simp
  qed
qed simp

lemma rounded_in_band:
  assumes "in_price_band p b" "pb_min_price b mod pb_tick_size b = 0" "pb_tick_size b \<noteq> 0"
  shows "in_price_band (p div pb_tick_size b * pb_tick_size b) b"
proof -
  have p: "pb_min_price b \<le> p" "p \<le> pb_max_price b"
    using assms(1) by (simp_all add: in_price_band_def)
  show ?thesis
    unfolding in_price_band_def
    using rounded_ge [OF p(1) assms(2,3)] order_trans [OF rounded_le p(2)] by (rule conjI)
qed

lemma rounding_compliant:
  assumes "aligned t" "disjoint_bands t" "table_round_to_tick t p = Inr (Some q)"
  shows "q \<le> p \<and> is_price_compliant t q = Inr True"
proof -
  obtain b where b: "List.find (in_price_band p) (tt_bands t) = Some b"
    and q: "q = p div pb_tick_size b * pb_tick_size b"
    using assms(3) by (auto simp: table_round_to_tick_def table_tick_size_def split: option.splits if_splits)
  have mem: "b \<in> set (tt_bands t)" "in_price_band p b"
    using find_in_band [OF b] by simp_all
  have al: "pb_tick_size b \<noteq> 0" "pb_min_price b mod pb_tick_size b = 0"
    using assms(1) mem(1) by (auto simp: aligned_def)
  have "in_price_band q b"
    unfolding q using mem(2) al(2,1) by (rule rounded_in_band)
  then have "List.find (in_price_band q) (tt_bands t) = Some b"
    using mem(1) assms(2) unfolding disjoint_bands_def by (intro find_in_band_unique) blast+
  then show ?thesis
    using al(1) rounded_mod [of p "pb_tick_size b"] rounded_le [of p "pb_tick_size b"]
    by (simp add: is_price_compliant_def table_tick_size_def q)
qed

text \<open>Without the alignment the rounded price can leave the table.\<close>

lemma rounding_leaves_band:
  "let t = add_band 105 200 10 (new_tick_table ''ESZ4'' ''XEUR'' StandardRegime) in
   table_round_to_tick t 107 = Inr (Some 100) \<and> is_price_compliant t 100 = Inr False"
  by (simp add: Let_def add_band_def new_tick_table_def table_round_to_tick_def table_tick_size_def
      is_price_compliant_def in_price_band_def)

lemma add_band_sorted: "sorted (map pb_min_price (tt_bands (add_band lo hi tick t)))"
  by (simp add: add_band_def)

lemma add_band_set:
  "set (tt_bands (add_band lo hi tick t)) =
     insert \<lparr>pb_min_price = lo, pb_max_price = hi, pb_tick_size = tick, pb_regime = tt_regime t\<rparr> (set (tt_bands t))"
  by (simp add: add_band_def)

section \<open>The engine\<close>

record mifid_config =
  mc_enable_tick_size_check :: bool
  mc_enable_best_exec_check :: bool
  mc_enable_transparency_check :: bool
  mc_reference_data_path :: "string option"

definition default_mifid_config :: mifid_config where
  "default_mifid_config =
     \<lparr>mc_enable_tick_size_check = True, mc_enable_best_exec_check = True,
      mc_enable_transparency_check = True, mc_reference_data_path = None\<rparr>"

record venue_comparison =
  vc_venue_id :: string
  vc_price :: u64
  vc_available_quantity :: i64
  vc_timestamp_ns :: u64
  vc_fees_bps :: u32
  vc_latency_us :: u32

datatype mifid_side = MifidBuy | MifidSell

datatype transparency_waiver = ReferencePrice | LargeInScale | OmsWaiver | Negotiated | NoWaiver

definition waiver_applies :: "transparency_waiver \<Rightarrow> i64 \<Rightarrow> i64 \<Rightarrow> bool" where
  "waiver_applies w qty threshold =
     (case w of LargeInScale \<Rightarrow> qty \<ge> threshold | NoWaiver \<Rightarrow> False | _ \<Rightarrow> True)"

record best_exec_analysis =
  ba_symbol :: string
  ba_side :: mifid_side
  ba_requested_quantity :: i64
  ba_best_price :: u64
  ba_best_venue :: string
  ba_price_improvement_bps :: int
  ba_total_cost :: u64
  ba_is_compliant :: bool
  ba_analyzed_at_ns :: u64

record mifid_engine =
  me_config :: mifid_config
  me_tick_tables :: "string \<times> string \<rightharpoonup> tick_table"
  me_venue_prices :: "string \<rightharpoonup> venue_comparison list"
  me_waivers :: "string \<rightharpoonup> transparency_waiver"
  me_total_tick_checks :: u64
  me_total_tick_violations :: u64
  me_total_best_exec_checks :: u64

definition new_mifid_engine :: "mifid_config \<Rightarrow> mifid_engine" where
  "new_mifid_engine cfg =
     \<lparr>me_config = cfg, me_tick_tables = Map.empty, me_venue_prices = Map.empty, me_waivers = Map.empty,
      me_total_tick_checks = 0, me_total_tick_violations = 0, me_total_best_exec_checks = 0\<rparr>"

definition register_tick_table :: "u64 \<Rightarrow> tick_table \<Rightarrow> mifid_engine \<Rightarrow> mifid_engine" where
  "register_tick_table now_ns t e =
     e\<lparr>me_tick_tables := (me_tick_tables e)((tt_symbol t, tt_venue t) \<mapsto> t\<lparr>tt_updated_at_ns := now_ns\<rparr>)\<rparr>"

definition validate_tick_size ::
  "u64 \<Rightarrow> string \<Rightarrow> string \<Rightarrow> u64 \<Rightarrow> mifid_engine \<Rightarrow> panic + compliance_result \<times> mifid_engine"
where
  "validate_tick_size elapsed s v p e0 =
     (let e = e0\<lparr>me_total_tick_checks := me_total_tick_checks e0 + 1\<rparr> in
      if \<not> mc_enable_tick_size_check (me_config e) then Inr (compliance_passed, e)
      else
        (case me_tick_tables e (s, v) of
           Some t \<Rightarrow>
             (case is_price_compliant t p of
                Inl err \<Rightarrow> Inl err
              | Inr True \<Rightarrow> Inr (\<lparr>cr_passed = True, failed_rules = 0, evaluation_time_ns = elapsed\<rparr>, e)
              | Inr False \<Rightarrow>
                  Inr (compliance_failed (flag_bit MifidTickSizeCompliant) elapsed,
                       e\<lparr>me_total_tick_violations := me_total_tick_violations e + 1\<rparr>))
         | None \<Rightarrow> Inr (\<lparr>cr_passed = True, failed_rules = 0, evaluation_time_ns = elapsed\<rparr>, e)))"

text \<open>The symbol, which the code takes from a field that the comparison does not have, is an argument.\<close>

definition record_venue_price :: "string \<Rightarrow> venue_comparison \<Rightarrow> mifid_engine \<Rightarrow> mifid_engine" where
  "record_venue_price s c e =
     (let prices = (case me_venue_prices e s of None \<Rightarrow> [] | Some ps \<Rightarrow> ps) @ [c];
          kept = (if length prices > 100 then tl prices else prices) in
      e\<lparr>me_venue_prices := (me_venue_prices e)(s \<mapsto> kept)\<rparr>)"

definition is_better :: "mifid_side \<Rightarrow> u64 \<Rightarrow> venue_comparison \<Rightarrow> bool" where
  "is_better sd best c =
     (case sd of MifidBuy \<Rightarrow> vc_price c < best | MifidSell \<Rightarrow> vc_price c > best \<and> vc_price c > 0)"

text \<open>The loop over the quotes, with the best price and venue so far.\<close>

fun best_quote :: "mifid_side \<Rightarrow> i64 \<Rightarrow> venue_comparison list \<Rightarrow> u64 \<Rightarrow> string \<Rightarrow> u64 \<times> string" where
  "best_quote sd qty [] best venue = (best, venue)"
| "best_quote sd qty (c # cs) best venue =
     (if is_better sd best c \<and> vc_available_quantity c \<ge> qty
      then best_quote sd qty cs (vc_price c) (vc_venue_id c)
      else best_quote sd qty cs best venue)"

definition recent_quotes :: "u64 \<Rightarrow> string \<Rightarrow> mifid_engine \<Rightarrow> venue_comparison list" where
  "recent_quotes now_ns s e =
     (case me_venue_prices e s of
        None \<Rightarrow> []
      | Some prices \<Rightarrow> filter (\<lambda>c. vc_timestamp_ns c \<ge> saturating_sub now_ns 1000000000) prices)"

definition s32 :: "int \<Rightarrow> int" where
  "s32 x = (x + 2 ^ 31) mod 2 ^ 32 - 2 ^ 31"

definition price_improvement :: "mifid_side \<Rightarrow> u64 \<Rightarrow> u64 \<Rightarrow> panic + int" where
  "price_improvement sd best proposed =
     (if best > 0 then
        (let diff = (case sd of MifidBuy \<Rightarrow> s64 (sint best - sint proposed)
                              | MifidSell \<Rightarrow> s64 (sint proposed - sint best)) in
         case i64_div (s64 (diff * 10000)) (sint best) of Inl err \<Rightarrow> Inl err | Inr q \<Rightarrow> Inr (s32 q))
      else Inr 0)"

definition analyze_best_execution ::
  "u64 \<Rightarrow> string \<Rightarrow> mifid_side \<Rightarrow> i64 \<Rightarrow> u64 \<Rightarrow> mifid_engine \<Rightarrow> panic + best_exec_analysis \<times> mifid_engine"
where
  "analyze_best_execution now_ns s sd qty proposed e0 =
     (let e = e0\<lparr>me_total_best_exec_checks := me_total_best_exec_checks e0 + 1\<rparr>;
          (best, venue) = best_quote sd qty (recent_quotes now_ns s e) (- 1) [] in
      case price_improvement sd best proposed of
        Inl err \<Rightarrow> Inl err
      | Inr bps \<Rightarrow>
          Inr (\<lparr>ba_symbol = s, ba_side = sd, ba_requested_quantity = qty,
                ba_best_price = (if best = - 1 then 0 else best), ba_best_venue = venue,
                ba_price_improvement_bps = bps, ba_total_cost = proposed * word_of_int qty,
                ba_is_compliant = (bps \<ge> - 5 \<or> venue = []), ba_analyzed_at_ns = now_ns\<rparr>, e))"

definition set_waiver :: "string \<Rightarrow> transparency_waiver \<Rightarrow> mifid_engine \<Rightarrow> mifid_engine" where
  "set_waiver s w e = e\<lparr>me_waivers := (me_waivers e)(s \<mapsto> w)\<rparr>"

definition check_waiver :: "string \<Rightarrow> i64 \<Rightarrow> i64 \<Rightarrow> mifid_engine \<Rightarrow> transparency_waiver" where
  "check_waiver s qty threshold e = (case me_waivers e s of None \<Rightarrow> NoWaiver | Some w \<Rightarrow> w)"

definition engine_tick_size :: "string \<Rightarrow> string \<Rightarrow> u64 \<Rightarrow> mifid_engine \<Rightarrow> u64 option" where
  "engine_tick_size s v p e = (case me_tick_tables e (s, v) of None \<Rightarrow> None | Some t \<Rightarrow> table_tick_size t p)"

definition engine_round_to_tick :: "string \<Rightarrow> string \<Rightarrow> u64 \<Rightarrow> mifid_engine \<Rightarrow> panic + u64 option" where
  "engine_round_to_tick s v p e =
     (case me_tick_tables e (s, v) of None \<Rightarrow> Inr None | Some t \<Rightarrow> table_round_to_tick t p)"

subsection \<open>The best quote\<close>

lemma best_quote_sell: "best_quote MifidSell qty cs (- 1) venue = (- 1, venue)"
proof (induction cs)
  case (Cons c cs)
  have "\<not> vc_price c > - 1"
    using word_order.extremum [of "vc_price c"] by (simp add: not_less)
  then show ?case using Cons by (simp add: is_better_def)
qed simp

definition eligible :: "i64 \<Rightarrow> venue_comparison list \<Rightarrow> venue_comparison list" where
  "eligible qty cs = filter (\<lambda>c. vc_available_quantity c \<ge> qty) cs"

lemma best_quote_buy:
  "best_quote MifidBuy qty cs best venue =
     (let m = Min (insert best (vc_price ` set (eligible qty cs))) in
      (m, if m = best then venue else vc_venue_id (hd (filter (\<lambda>c. vc_price c = m) (eligible qty cs)))))"
proof (induction cs arbitrary: best venue)
  case Nil
  then show ?case by (simp add: eligible_def)
next
  case (Cons c cs)
  let ?ps = "vc_price ` set (eligible qty cs)"
  have fin: "finite ?ps" by simp
  show ?case
  proof (cases "vc_available_quantity c \<ge> qty")
    case False
    then show ?thesis using Cons [of best venue] by (simp add: eligible_def)
  next
    case True
    let ?m = "Min (insert best (insert (vc_price c) ?ps))"
    have el: "eligible qty (c # cs) = c # eligible qty cs"
      using True by (simp add: eligible_def)
    show ?thesis
    proof (cases "vc_price c < best")
      case True': True
      have m: "?m = Min (insert (vc_price c) ?ps)"
      proof -
        have "Min (insert (vc_price c) ?ps) \<le> vc_price c"
          by (rule Min_le) simp_all
        then have "Min (insert (vc_price c) ?ps) \<le> best"
          using less_imp_le [OF True'] by (rule order_trans)
        moreover have "?m = min best (Min (insert (vc_price c) ?ps))"
          by (rule Min_insert) simp_all
        ultimately show ?thesis
          by (simp only: min.absorb2)
      qed
      have le: "?m \<le> vc_price c" unfolding m by simp
      have "best_quote MifidBuy qty (c # cs) best venue = best_quote MifidBuy qty cs (vc_price c) (vc_venue_id c)"
        using True True' by (simp add: is_better_def)
      also have "\<dots> = (?m, if ?m = vc_price c then vc_venue_id c
          else vc_venue_id (hd (filter (\<lambda>c. vc_price c = ?m) (eligible qty cs))))"
        using Cons [of "vc_price c" "vc_venue_id c"] by (simp only: Let_def m)
      finally show ?thesis
        using le True' by (auto simp: el Let_def)
    next
      case False
      have m: "?m = Min (insert best ?ps)"
      proof -
        have "?m = Min (insert (vc_price c) (insert best ?ps))"
          by (simp only: insert_commute)
        also have "\<dots> = min (vc_price c) (Min (insert best ?ps))"
          by (rule Min_insert) simp_all
        also have "\<dots> = Min (insert best ?ps)"
        proof (rule min.absorb2)
          have "Min (insert best ?ps) \<le> best"
            by (rule Min_le) simp_all
          also have "best \<le> vc_price c"
            using False by (simp only: not_less)
          finally show "Min (insert best ?ps) \<le> vc_price c" .
        qed
        finally show ?thesis .
      qed
      have "best_quote MifidBuy qty (c # cs) best venue = best_quote MifidBuy qty cs best venue"
        using False by (simp add: is_better_def)
      also have "\<dots> = (?m, if ?m = best then venue
          else vc_venue_id (hd (filter (\<lambda>c. vc_price c = ?m) (eligible qty cs))))"
        using Cons [of best venue] by (simp only: Let_def m)
      moreover have "vc_price c \<noteq> ?m" if "?m \<noteq> best"
      proof -
        have le: "?m \<le> best" by (rule Min_le) simp_all
        have ge: "best \<le> vc_price c" using False by (simp only: not_less)
        show ?thesis
        proof
          assume "vc_price c = ?m"
          with ge have "best \<le> ?m" by metis
          with le have "?m = best" by (rule antisym)
          with that show False by (rule notE)
        qed
      qed
      ultimately show ?thesis
        by (auto simp: el Let_def)
    qed
  qed
qed

text \<open>The quote that a purchase is compared with: the lowest among the recent and large enough ones.\<close>

lemma best_quote_buy_exists:
  assumes "eligible qty cs \<noteq> []" "\<exists>c \<in> set (eligible qty cs). vc_price c \<noteq> - 1"
  shows "\<exists>c \<in> set (eligible qty cs). best_quote MifidBuy qty cs (- 1) [] = (vc_price c, vc_venue_id c)
     \<and> (\<forall>c' \<in> set (eligible qty cs). vc_price c \<le> vc_price c')"
proof -
  let ?es = "eligible qty cs" and ?ps = "vc_price ` set (eligible qty cs)"
  define m where "m = Min (insert (- 1) ?ps)"
  have fin: "finite ?ps" and ne: "?ps \<noteq> {}" using assms(1) by simp_all
  have lower: "m \<le> vc_price c" if "c \<in> set ?es" for c
    unfolding m_def using that fin by (intro Min_le) auto
  obtain c0 where c0: "c0 \<in> set ?es" "vc_price c0 \<noteq> - 1" using assms(2) by blast
  have ne1: "m \<noteq> - 1"
  proof
    assume "m = - 1"
    with lower [OF c0(1)] have "- 1 \<le> vc_price c0" by simp
    then have "vc_price c0 = - 1"
      using word_order.extremum [of "vc_price c0"] by (rule_tac antisym)
    with c0(2) show False by simp
  qed
  have "m \<in> insert (- 1) ?ps"
    unfolding m_def using fin by (intro Min_in) auto
  with ne1 have "m \<in> ?ps" by simp
  then have "filter (\<lambda>c. vc_price c = m) ?es \<noteq> []"
    by (auto simp: filter_empty_conv)
  then have "hd (filter (\<lambda>c. vc_price c = m) ?es) \<in> set (filter (\<lambda>c. vc_price c = m) ?es)"
    by (rule hd_in_set)
  then have h: "hd (filter (\<lambda>c. vc_price c = m) ?es) \<in> set ?es"
    "vc_price (hd (filter (\<lambda>c. vc_price c = m) ?es)) = m" by simp_all
  have "best_quote MifidBuy qty cs (- 1) [] = (m, vc_venue_id (hd (filter (\<lambda>c. vc_price c = m) ?es)))"
    using ne1 by (simp add: best_quote_buy m_def [symmetric] Let_def)
  with h lower show ?thesis by (intro bexI [of _ "hd (filter (\<lambda>c. vc_price c = m) ?es)"]) simp_all
qed

section \<open>The verdict\<close>

lemma sdiv_at_least:
  assumes "0 < (b :: int)"
  shows "- 5 \<le> ((b - p) * 10000) sdiv b \<longleftrightarrow> (p - b) * 10000 < 6 * b"
proof (cases "p \<le> b")
  case True
  then have "0 \<le> (b - p) * 10000" by simp
  then have "0 \<le> ((b - p) * 10000) sdiv b"
    using assms by (simp add: sdiv_nonneg pos_imp_zdiv_nonneg_iff)
  then have "- 5 \<le> ((b - p) * 10000) sdiv b" by (rule order_trans [rotated]) simp
  moreover have "(p - b) * 10000 \<le> 0" using True by simp
  then have "(p - b) * 10000 < 6 * b" using assms by linarith
  ultimately show ?thesis by simp
next
  case False
  define n where "n = (p - b) * 10000"
  have n: "0 < n" using False by (simp add: n_def)
  have "(b - p) * 10000 = - n" by (simp add: n_def algebra_simps)
  then have "((b - p) * 10000) sdiv b = - (n div b)"
    using n assms by (simp add: signed_divide_int_def)
  moreover have "n div b \<le> 5 \<longleftrightarrow> n < 6 * b"
  proof -
    have n_eq: "n = b * (n div b) + n mod b" and m: "0 \<le> n mod b" "n mod b < b"
      using assms by simp_all
    have "b * (n div b) \<le> b * 5" if "n div b \<le> 5"
      using that assms by (intro mult_left_mono) simp_all
    moreover have "b * 6 \<le> b * (n div b)" if "\<not> n div b \<le> 5"
      using that assms by (intro mult_left_mono) simp_all
    ultimately show ?thesis using n_eq m by (cases "n div b \<le> 5") linarith+
  qed
  ultimately show ?thesis by (simp add: n_def)
qed

lemma sdiv_small:
  assumes "0 < (b :: int)" "0 \<le> p" "p \<le> 200000 * b"
  shows "\<bar>((b - p) * 10000) sdiv b\<bar> < 2 ^ 31"
proof -
  define x where "x = (b - p) * 10000"
  define q where "q = \<bar>x\<bar> div b"
  have "\<bar>x\<bar> \<le> 2000000000 * b"
    unfolding x_def using assms by (simp add: abs_le_iff)
  then have "\<bar>x\<bar> div b \<le> (2000000000 * b) div b"
    using assms(1) by (intro zdiv_mono1)
  then have q: "q \<le> 2000000000" "0 \<le> q"
    using assms(1) by (simp_all add: q_def pos_imp_zdiv_nonneg_iff)
  have "x sdiv b = sgn x * q"
    using assms(1) by (simp add: signed_divide_int_def q_def)
  then have "\<bar>x sdiv b\<bar> \<le> q"
    using q(2) by (simp add: sgn_if)
  then show ?thesis
    using q(1) unfolding x_def by simp
qed

lemma s32_id: "\<bar>x\<bar> < 2 ^ 31 \<Longrightarrow> s32 x = x"
  by (simp add: s32_def abs_less_iff)

lemma sint_small:
  assumes "unat (w :: u64) < 2 ^ 48"
  shows "sint w = int (unat w)"
proof -
  define n where "n = int (unat w)"
  have u: "uint w = n" by (simp add: n_def)
  have "n < int (2 ^ 48)"
    unfolding n_def using assms by (simp only: of_nat_less_iff)
  then have "n < 2 ^ 63" by simp
  moreover have "0 \<le> n" unfolding n_def by (rule of_nat_0_le_iff)
  then have "- (2 ^ 63) \<le> n" by simp
  ultimately have "signed_take_bit 63 n = n"
    by (simp add: signed_take_bit_int_eq_self)
  then have "sint w = n"
    by (simp add: sint_uint u)
  then show ?thesis by (simp only: n_def)
qed

lemma in_i64_small: "\<bar>x\<bar> < 2 ^ 48 \<Longrightarrow> in_i64 x \<and> in_i64 (x * 10000)"
  by (auto simp: in_i64_def abs_less_iff)

lemma price_improvement_buy:
  assumes "0 < unat b" "unat b < 2 ^ 48" "unat p < 2 ^ 48" "unat p \<le> 200000 * unat b"
  shows "\<exists>bps. price_improvement MifidBuy b p = Inr bps
    \<and> (- 5 \<le> bps \<longleftrightarrow> (int (unat p) - int (unat b)) * 10000 < 6 * int (unat b))"
proof -
  define B P where "B = int (unat b)" and "P = int (unat p)"
  have sb: "sint b = B" and sp: "sint p = P"
    using assms(2,3) by (simp_all only: sint_small B_def P_def)
  have B: "0 < B" "0 \<le> P" "P \<le> 200000 * B" "\<bar>B - P\<bar> < 2 ^ 48"
  proof -
    have "int (unat p) \<le> int (200000 * unat b)" "int (unat b) < int (2 ^ 48)" "int (unat p) < int (2 ^ 48)"
      "0 < int (unat b)" "0 \<le> int (unat p)"
      using assms by (simp_all only: of_nat_le_iff of_nat_less_iff of_nat_0_less_iff of_nat_0_le_iff)
    then show "0 < B" "0 \<le> P" "P \<le> 200000 * B" "\<bar>B - P\<bar> < 2 ^ 48"
      unfolding B_def [symmetric] P_def [symmetric] of_nat_mult by simp_all
  qed
  have "b > 0" using assms(1) by (simp add: word_less_nat_alt)
  moreover have "\<bar>((B - P) * 10000) sdiv B\<bar> < 2 ^ 31"
    using B(1-3) by (rule sdiv_small)
  ultimately have "price_improvement MifidBuy b p = Inr (((B - P) * 10000) sdiv B)"
    using B(1) in_i64_small [OF B(4)]
    by (simp add: price_improvement_def sb sp Let_def s64_id i64_div_def s32_id)
  then show ?thesis
    using sdiv_at_least [OF B(1), of P] unfolding B_def P_def by simp
qed

text \<open>Without any quote a price of \<open>2 ^ 59 - 1\<close> makes the division overflow, which aborts.\<close>

lemma no_quote_overflow:
  "analyze_best_execution now s MifidBuy qty (2 ^ 59 - 1) (new_mifid_engine cfg) = Inl DivisionOverflow"
  by (simp add: analyze_best_execution_def new_mifid_engine_def recent_quotes_def price_improvement_def
      i64_div_def s64_def Let_def word_greater_zero_iff)

section \<open>Properties\<close>

text \<open>Rounding a price to a tick never raises it and gives a price that the same table accepts, as
  long as every band starts at a multiple of its nonzero tick size and no two bands overlap.\<close>

lemma rounded_price_is_compliant:
  "aligned t \<Longrightarrow> disjoint_bands t \<Longrightarrow> table_round_to_tick t p = Inr (Some q) \<Longrightarrow>
   q \<le> p \<and> is_price_compliant t q = Inr True"
  by (rule rounding_compliant)

lemma rounded_price_is_compliant_example:
  "let t = add_band 100 999 5 (new_tick_table ''AAPL'' ''XNYS'' StandardRegime) in
   table_round_to_tick t 503 = Inr (Some 500) \<and> is_price_compliant t 500 = Inr True"
proof -
  let ?t = "add_band 100 999 5 (new_tick_table ''AAPL'' ''XNYS'' StandardRegime)"
  have bands: "set (tt_bands ?t) = {\<lparr>pb_min_price = 100, pb_max_price = 999, pb_tick_size = 5, pb_regime = StandardRegime\<rparr>}"
    by (simp add: add_band_set new_tick_table_def)
  have "aligned ?t" "disjoint_bands ?t"
    by (simp_all add: aligned_def disjoint_bands_def bands)
  moreover have r: "table_round_to_tick ?t 503 = Inr (Some 500)"
    by (simp add: add_band_def new_tick_table_def table_round_to_tick_def table_tick_size_def in_price_band_def)
  ultimately show ?thesis
    using rounded_price_is_compliant [of ?t 503 500] by (simp add: Let_def)
qed

text \<open>No sale is ever compared with a quote: whatever prices the venues have shown, the analysis of a
  sale either aborts in the division or reports it as compliant, with no best venue and the best price
  0.\<close>

lemma every_sell_is_compliant:
  "case analyze_best_execution now s MifidSell qty proposed e of
     Inl err \<Rightarrow> err = DivisionOverflow
   | Inr (a, _) \<Rightarrow> ba_is_compliant a \<and> ba_best_venue a = [] \<and> ba_best_price a = 0"
proof -
  have "price_improvement MifidSell (- 1) proposed = Inl DivisionOverflow
      \<or> (\<exists>bps. price_improvement MifidSell (- 1) proposed = Inr bps)"
    by (auto simp: price_improvement_def i64_div_def Let_def)
  then show ?thesis
    by (auto simp: analyze_best_execution_def Let_def best_quote_sell)
qed

text \<open>A purchase is compared with the lowest price among the quotes of the last second that are large
  enough, and the venue reported offers it.  The purchase is compliant exactly when it costs less than
  six basis points more than that price, or the venue has the empty name.\<close>

lemma buy_compared_with_best_quote:
  "qs = eligible qty (recent_quotes now s e) \<Longrightarrow> c0 \<in> set qs \<Longrightarrow> \<forall>c\<in>set qs. unat (vc_price c0) \<le> unat (vc_price c) \<Longrightarrow>
   0 < unat (vc_price c0) \<Longrightarrow> unat (vc_price c0) < 2 ^ 48 \<Longrightarrow> unat proposed < 2 ^ 48 \<Longrightarrow>
   unat proposed \<le> 200000 * unat (vc_price c0) \<Longrightarrow>
   \<exists>a e'. analyze_best_execution now s MifidBuy qty proposed e = Inr (a, e')
     \<and> ba_best_price a = vc_price c0 \<and> (\<exists>c. c \<in> set qs \<and> vc_price c = vc_price c0 \<and> ba_best_venue a = vc_venue_id c)
     \<and> (ba_is_compliant a \<longleftrightarrow>
         (int (unat proposed) - int (unat (vc_price c0))) * 10000 < 6 * int (unat (vc_price c0)) \<or> ba_best_venue a = [])"
proof -
  let ?cs = "recent_quotes now s e" and ?b = "vc_price c0"
  assume qs: "qs = eligible qty ?cs" and c0: "c0 \<in> set qs"
    and least: "\<forall>c\<in>set qs. unat ?b \<le> unat (vc_price c)"
    and pos: "0 < unat ?b" and b48: "unat ?b < 2 ^ 48" and p48: "unat proposed < 2 ^ 48"
    and ratio: "unat proposed \<le> 200000 * unat ?b"
  have ne: "?b \<noteq> - 1"
  proof
    assume "?b = - 1"
    then have "unat ?b = 2 ^ 64 - 1"
      by (simp add: unsigned_minus_1_eq_mask mask_eq_exp_minus_1)
    with b48 show False by simp
  qed
  have rq: "recent_quotes now s (e\<lparr>me_total_best_exec_checks := n\<rparr>) = ?cs" for n
    by (simp add: recent_quotes_def)
  obtain c where c: "c \<in> set qs" "best_quote MifidBuy qty ?cs (- 1) [] = (vc_price c, vc_venue_id c)"
    "\<forall>c' \<in> set qs. vc_price c \<le> vc_price c'"
    using best_quote_buy_exists [of qty ?cs] c0 ne unfolding qs by (metis empty_iff list.set(1))
  have eq: "vc_price c = ?b"
    using c(3) c0 least c(1) by (simp add: word_le_nat_alt) (metis antisym c(1,3) c0 least word_le_nat_alt)
  obtain bps where bps: "price_improvement MifidBuy ?b proposed = Inr bps"
    "- 5 \<le> bps \<longleftrightarrow> (int (unat proposed) - int (unat ?b)) * 10000 < 6 * int (unat ?b)"
    using price_improvement_buy [OF pos b48 p48 ratio] by blast
  show ?thesis
    using c(1,2) eq bps ne by (auto simp: analyze_best_execution_def Let_def rq)
qed

definition example_quote :: venue_comparison where
  "example_quote = \<lparr>vc_venue_id = ''VENUE2'', vc_price = 9998, vc_available_quantity = 500,
     vc_timestamp_ns = 1000000100, vc_fees_bps = 15, vc_latency_us = 150\<rparr>"

definition example_engine :: mifid_engine where
  "example_engine = record_venue_price ''TEST'' example_quote (new_mifid_engine default_mifid_config)"

lemma example_eligible: "eligible 500 (recent_quotes 1000000200 ''TEST'' example_engine) = [example_quote]"
proof -
  have "recent_quotes 1000000200 ''TEST'' example_engine = [example_quote]"
    by (simp add: recent_quotes_def example_engine_def record_venue_price_def new_mifid_engine_def
        saturating_sub_def word_le_nat_alt) (simp add: example_quote_def)
  then show ?thesis by (simp add: eligible_def) (simp add: example_quote_def)
qed

lemma buy_compared_with_best_quote_example:
  "\<exists>a e'. analyze_best_execution 1000000200 ''TEST'' MifidBuy 500 10001 example_engine = Inr (a, e')
     \<and> ba_best_price a = 9998 \<and> ba_is_compliant a"
proof -
  have p: "vc_price example_quote = 9998" by (simp add: example_quote_def)
  show ?thesis
    using buy_compared_with_best_quote [OF example_eligible [symmetric], of example_quote 10001]
    by (auto simp: p)
qed

end
