(* ===== verification/Throttle_Threads.thy ===== *)
theory Throttle_Threads
  imports Breakers
begin

text \<open>
  Any number of threads in \<open>try_consume\<close> of the order throttle,
  \<open>crates/nexus_risk/src/breakers/token_bucket_throttle.rs\<close>, each atomic access a step of its own: the
  test of the active flag, the refill with its exchange of the timestamp and its plain store of the
  tokens, and the loop that takes a token.  A schedule names the thread that moves, whether its weak
  exchange fails without cause, and what it reads off the clock; others may switch the throttle on and
  off.  The theory shows that a call alone is \<open>try_consume\<close>, that no token is spent twice as long as the
  rate is below \<open>10 ^ 9\<close> tokens per second, where the refill adds nothing, and that from that rate on the
  store of the refill can undo what another thread has taken.
\<close>

section \<open>The steps of a call\<close>

text \<open>
  Where a thread is: before the test of the flag; before the load of the timestamp; in the loop of
  \<open>refill\<close>, before and after the load of the tokens, and before the store of the new tokens; before the
  load of the tokens to consume, and with them loaded; having taken a token (or been let through by a
  throttle that is off), or having been refused, before the counter is increased; and returned.
\<close>

datatype throttle_pc =
  TcStart
| TcActive
| TcRefillLoop u64 u64 u64
| TcRefillLoaded u64 u64 u64 u64
| TcRefillStore u64
| TcConsume
| TcLoaded u64
| TcGranted bool
| TcRefused u64
| TcReturned rate_limit_result bool

fun throttle_step :: "bool \<Rightarrow> u64 \<Rightarrow> throttle_pc \<times> token_bucket \<Rightarrow> throttle_pc \<times> token_bucket" where
  "throttle_step spurious clock (TcStart, b) = (if active b then TcActive else TcGranted False, b)"
| "throttle_step spurious clock (TcActive, b) =
     (let prev = last_refill_ns b; elapsed = saturating_sub clock prev; add = elapsed * refill_rate_per_ns b in
      (if elapsed = 0 \<or> add = 0 then TcConsume else TcRefillLoop clock prev add, b))"
| "throttle_step spurious clock (TcRefillLoop now prev add, b) = (TcRefillLoaded now prev add (tokens b), b)"
| "throttle_step spurious clock (TcRefillLoaded now prev add current, b) =
     (if last_refill_ns b = prev \<and> \<not> spurious
      then (TcRefillStore (min (current + add) (max_tokens b)), b\<lparr>last_refill_ns := now\<rparr>)
      else
        let actual = last_refill_ns b; new_elapsed = saturating_sub now actual in
        (if new_elapsed = 0 \<or> actual \<le> prev \<or> new_elapsed * refill_rate_per_ns b = 0
         then TcConsume else TcRefillLoop now prev add, b))"
| "throttle_step spurious clock (TcRefillStore new_tokens, b) = (TcConsume, b\<lparr>tokens := new_tokens\<rparr>)"
| "throttle_step spurious clock (TcConsume, b) = (TcLoaded (tokens b), b)"
| "throttle_step spurious clock (TcLoaded current, b) =
     (case consume_value current of
        None \<Rightarrow> (TcRefused current, b)
      | Some new_tokens \<Rightarrow>
          if tokens b = current \<and> \<not> spurious then (TcGranted True, b\<lparr>tokens := new_tokens\<rparr>)
          else (TcLoaded (tokens b), b))"
| "throttle_step spurious clock (TcGranted took, b) =
     (TcReturned Allowed took, b\<lparr>allowed_count := allowed_count b + 1\<rparr>)"
| "throttle_step spurious clock (TcRefused current, b) =
     (TcReturned (Denied (current div 1000000000) 1
        (if refill_rate_per_ns b > 0 then (token_scale - current) div refill_rate_per_ns b else - 1)) False,
      b\<lparr>denied_count := denied_count b + 1\<rparr>)"
| "throttle_step spurious clock (TcReturned r took, b) = (TcReturned r took, b)"

text \<open>A call that is alone returns after at most eight steps, with the result of \<open>try_consume\<close>.\<close>

lemma call_alone_is_try_consume:
  assumes "try_consume now b = Some (r, b')"
  shows "\<exists>took. (throttle_step False now ^^ 8) (TcStart, b) = (TcReturned r took, b')"
proof -
  have eight: "(f ^^ 8) x = f (f (f (f (f (f (f (f x)))))))" for f :: "'a \<Rightarrow> 'a" and x
    by (simp add: eval_nat_numeral)
  show ?thesis
    using assms unfolding eight
    by (auto simp: try_consume_def refill_def Let_def saturating_sub_def split: option.splits if_splits)
qed

section \<open>Threads\<close>

record throttle_threads =
  th_bucket :: token_bucket
  th_pc :: "nat \<Rightarrow> throttle_pc"

datatype throttle_event = Move nat bool u64 | SwitchActive bool

fun throttle_event_step :: "throttle_event \<Rightarrow> throttle_threads \<Rightarrow> throttle_threads" where
  "throttle_event_step (Move t spurious clock) s =
     (case throttle_step spurious clock (th_pc s t, th_bucket s) of
        (p, b) \<Rightarrow> s\<lparr>th_bucket := b, th_pc := (th_pc s)(t := p)\<rparr>)"
| "throttle_event_step (SwitchActive v) s = s\<lparr>th_bucket := set_active v (th_bucket s)\<rparr>"

definition throttle_run :: "throttle_event list \<Rightarrow> token_bucket \<Rightarrow> throttle_threads" where
  "throttle_run es b = fold throttle_event_step es \<lparr>th_bucket = b, th_pc = (\<lambda>_. TcStart)\<rparr>"

fun took_token :: "throttle_pc \<Rightarrow> bool" where
  "took_token (TcGranted took) = took"
| "took_token (TcReturned r took) = took"
| "took_token _ = False"

definition takers :: "throttle_threads \<Rightarrow> nat set" where
  "takers s = {t. took_token (th_pc s t)}"

text \<open>No refill is under way, and what was taken and what is left are what there was.\<close>

fun refilling :: "throttle_pc \<Rightarrow> bool" where
  "refilling (TcRefillLoop _ _ _) = True"
| "refilling (TcRefillLoaded _ _ _ _) = True"
| "refilling (TcRefillStore _) = True"
| "refilling _ = False"

definition tokens_balance :: "nat \<Rightarrow> throttle_threads \<Rightarrow> bool" where
  "tokens_balance n s \<longleftrightarrow> refill_rate_per_ns (th_bucket s) = 0 \<and> (\<forall>t. \<not> refilling (th_pc s t)) \<and> finite (takers s) \<and>
     unat (tokens (th_bucket s)) + 1000000000 * card (takers s) = n"

lemma consume_value_takes:
  "consume_value x = Some y \<Longrightarrow> unat x = unat y + 1000000000"
  by (auto simp: consume_value_def token_scale_def unat_sub word_le_nat_alt split: if_splits)

text \<open>A step at rate 0: it takes a token, and then the tokens go down by one, or takes none, and then they
  stay.\<close>

lemma throttle_step_dry:
  assumes "refill_rate_per_ns b = 0" "\<not> refilling p" "throttle_step spurious clock (p, b) = (p', b')"
  shows "refill_rate_per_ns b' = 0 \<and> \<not> refilling p' \<and>
    (took_token p' = took_token p \<and> tokens b' = tokens b \<or>
     \<not> took_token p \<and> took_token p' \<and> unat (tokens b) = unat (tokens b') + 1000000000)"
  using assms
  by (cases p) (auto simp: Let_def dest: consume_value_takes split: if_splits option.splits)

lemma takers_move:
  "takers (s\<lparr>th_bucket := b, th_pc := (th_pc s)(t := p)\<rparr>) = (if took_token p then insert t (takers s) else takers s - {t})"
  by (auto simp: takers_def)

lemma throttle_event_balance: "tokens_balance n s \<Longrightarrow> tokens_balance n (throttle_event_step e s)"
proof (induction e s rule: throttle_event_step.induct)
  case (1 t spurious clock s)
  obtain p b where st: "throttle_step spurious clock (th_pc s t, th_bucket s) = (p, b)"
    by (cases "throttle_step spurious clock (th_pc s t, th_bucket s)")
  let ?s = "s\<lparr>th_bucket := b, th_pc := (th_pc s)(t := p)\<rparr>"
  have dry: "refill_rate_per_ns b = 0 \<and> \<not> refilling p \<and>
      (took_token p = took_token (th_pc s t) \<and> tokens b = tokens (th_bucket s) \<or>
       \<not> took_token (th_pc s t) \<and> took_token p \<and> unat (tokens (th_bucket s)) = unat (tokens b) + 1000000000)"
    using 1 st by (intro throttle_step_dry) (auto simp: tokens_balance_def)
  from dry consider (kept) "took_token p = took_token (th_pc s t)" "tokens b = tokens (th_bucket s)"
    | (taken) "\<not> took_token (th_pc s t)" "took_token p" "unat (tokens (th_bucket s)) = unat (tokens b) + 1000000000"
    by blast
  then have "finite (takers ?s) \<and> unat (tokens b) + 1000000000 * card (takers ?s) = n"
  proof cases
    case kept
    then have "takers ?s = takers s" unfolding takers_move by (auto simp: takers_def)
    then show ?thesis using 1 kept(2) by (simp add: tokens_balance_def)
  next
    case taken
    then have "takers ?s = insert t (takers s)" "t \<notin> takers s" unfolding takers_move by (simp_all add: takers_def)
    then show ?thesis using 1 taken(3) by (simp add: tokens_balance_def)
  qed
  then show ?case using 1 dry st by (auto simp: tokens_balance_def)
next
  case (2 v s)
  then show ?case by (simp add: tokens_balance_def takers_def set_active_def)
qed

lemma throttle_run_balance:
  assumes "refill_rate_per_ns b = 0"
  shows "tokens_balance (unat (tokens b)) (throttle_run es b)"
proof -
  have "tokens_balance n (fold throttle_event_step es s)" if "tokens_balance n s" for n s
    using that by (induction es arbitrary: s) (simp_all add: throttle_event_balance)
  then show ?thesis
    using assms by (simp add: throttle_run_def tokens_balance_def takers_def)
qed

section \<open>Properties\<close>

text \<open>C40. Whatever the interleaving of the threads in \<open>try_consume\<close>, with its refill, its clock readings and
  its weak exchanges that fail without cause, and whenever the throttle is switched off and on: below
  \<open>10 ^ 9\<close> tokens per second no token is spent twice.  The tokens taken by the threads that were allowed
  and those left are the tokens of the full bucket, and no more threads than the capacity ever take one.\<close>

theorem no_token_spent_twice:
  assumes "rate < token_scale" "unat mx * 1000000000 < 2 ^ 64"
  shows "finite (takers (throttle_run es (new_token_bucket mx rate start))) \<and>
    unat (tokens (th_bucket (throttle_run es (new_token_bucket mx rate start)))) +
      1000000000 * card (takers (throttle_run es (new_token_bucket mx rate start))) = 1000000000 * unat mx \<and>
    card (takers (throttle_run es (new_token_bucket mx rate start))) \<le> unat mx"
proof -
  have "refill_rate_per_ns (new_token_bucket mx rate start) = 0"
    using assms(1) by (simp add: new_token_bucket_def token_scale_def word_less_nat_alt word_unat_eq_iff unat_div)
  moreover have "unat (tokens (new_token_bucket mx rate start)) = 1000000000 * unat mx"
    using assms(2) unat_mult_lem [of mx token_scale] by (simp add: new_token_bucket_def token_scale_def)
  ultimately show ?thesis
    using throttle_run_balance [of "new_token_bucket mx rate start" es] by (simp add: tokens_balance_def)
qed

definition overlapping_calls :: "throttle_event list" where
  "overlapping_calls =
     map (\<lambda>t. Move t False 7) [0, 1, 0, 1, 0, 1] @ [Move 1 False 7, Move 0 False 7, Move 0 False 7, Move 0 False 7]"

theorem no_token_spent_twice_witness:
  "card (takers (throttle_run overlapping_calls (new_token_bucket 1 10 0))) \<le> 1"
  using no_token_spent_twice [of 10 1 overlapping_calls 0] by (simp add: token_scale_def)

text \<open>From \<open>10 ^ 9\<close> tokens per second on the refill stores tokens, and its plain store can undo the exchange
  of another thread: thread 0 has loaded the one token, exchanged the timestamp, and waits before the
  store; thread 1 takes the token; thread 0 stores it again and takes it too.  In one nanosecond, in
  which one billionth of a token is due, a bucket of one token has let two orders through.\<close>

definition undone_exchange :: "throttle_event list" where
  "undone_exchange =
     map (\<lambda>t. Move t False 1) ([0, 0, 0, 0] @ [1, 1, 1, 1, 1] @ [0, 0, 0, 0])"

lemma refill_undoes_consumption:
  "th_pc (throttle_run undone_exchange (new_token_bucket 1 1000000000 0)) 0 = TcReturned Allowed True"
  "th_pc (throttle_run undone_exchange (new_token_bucket 1 1000000000 0)) 1 = TcReturned Allowed True"
  by (simp_all add: throttle_run_def undone_exchange_def new_token_bucket_def token_scale_def
      saturating_sub_def consume_value_def)

end
