(* ===== verification/Margin_Tracker.thy ===== *)
theory Margin_Tracker
  imports Nexus_Prelude
begin

text \<open>
  Margin supervision of the portfolio, \<open>crates/nexus_portfolio/src\<close>: the fixed-point numbers with 18
  decimals (\<open>margin/fixed_point_pnl.rs\<close>), the maintenance margin state machine
  (\<open>margin/maintenance_margin_fsm.rs\<close>), the tracker that halts new entries
  (\<open>margin/cross_margin_tracker.rs\<close>) and the router that flattens an orphaned leg
  (\<open>arb/orphan_leg_sor_router.rs\<close>).  The atomics of these structures are fields, and every operation
  is a function from the state before to the state after.
\<close>

section \<open>Numbers with 18 decimals\<close>

abbreviation i128_max :: int where "i128_max \<equiv> 2 ^ 127 - 1"

definition in_i128 :: "int \<Rightarrow> bool" where
  "in_i128 x \<longleftrightarrow> - (2 ^ 127) \<le> x \<and> x \<le> i128_max"

definition i128_checked :: "int \<Rightarrow> i128 option" where
  "i128_checked x = (if in_i128 x then Some x else None)"

definition i128_saturating :: "int \<Rightarrow> i128" where
  "i128_saturating x = max (- (2 ^ 127)) (min i128_max x)"

definition pnl_i128_abs :: "i128 \<Rightarrow> i128" where
  "pnl_i128_abs x = s128 \<bar>x\<bar>"

lemma i128_checked_Some [simp]: "i128_checked x = Some y \<longleftrightarrow> in_i128 x \<and> y = x"
  and i128_checked_None [simp]: "i128_checked x = None \<longleftrightarrow> \<not> in_i128 x"
  by (auto simp: i128_checked_def)

lemma i128_saturating_id [range_simps]: "in_i128 x \<Longrightarrow> i128_saturating x = x"
  by (simp add: in_i128_def i128_saturating_def)

definition PNL_SCALE :: i128 where
  "PNL_SCALE = 1000000000000000000"

datatype pnl_fixed = PnlFixed (to_scaled: i128)

definition new_pnl_fixed :: "i128 \<Rightarrow> pnl_fixed" where
  "new_pnl_fixed v = PnlFixed (s128 (v * PNL_SCALE))"

definition pnl_checked_mul :: "pnl_fixed \<Rightarrow> pnl_fixed \<Rightarrow> pnl_fixed option" where
  "pnl_checked_mul a b =
     (case i128_checked (to_scaled a * to_scaled b) of
        None \<Rightarrow> None
      | Some prd \<Rightarrow> Some (PnlFixed (prd sdiv PNL_SCALE)))"

text \<open>The division cannot overflow: the quotient is a multiple of the scale, so it is not \<open>i128::MIN\<close>.\<close>

definition pnl_checked_div :: "pnl_fixed \<Rightarrow> pnl_fixed \<Rightarrow> pnl_fixed option" where
  "pnl_checked_div a b =
     (if to_scaled b = 0 then None
      else case i128_checked (to_scaled a * PNL_SCALE) of
        None \<Rightarrow> None
      | Some q \<Rightarrow> Some (PnlFixed (q sdiv to_scaled b)))"

definition pnl_checked_add :: "pnl_fixed \<Rightarrow> pnl_fixed \<Rightarrow> pnl_fixed option" where
  "pnl_checked_add a b = map_option PnlFixed (i128_checked (to_scaled a + to_scaled b))"

definition pnl_checked_sub :: "pnl_fixed \<Rightarrow> pnl_fixed \<Rightarrow> pnl_fixed option" where
  "pnl_checked_sub a b = map_option PnlFixed (i128_checked (to_scaled a - to_scaled b))"

definition pnl_abs :: "pnl_fixed \<Rightarrow> pnl_fixed" where
  "pnl_abs a = PnlFixed (pnl_i128_abs (to_scaled a))"

definition pnl_is_negative :: "pnl_fixed \<Rightarrow> bool" where
  "pnl_is_negative a \<longleftrightarrow> to_scaled a < 0"

definition pnl_zero :: pnl_fixed where
  "pnl_zero = PnlFixed 0"

definition ok_or :: "'e \<Rightarrow> 'a option \<Rightarrow> 'e + 'a" where
  "ok_or e r = (case r of None \<Rightarrow> Inl e | Some x \<Rightarrow> Inr x)"

definition calculate_unrealized_pnl :: "pnl_fixed \<Rightarrow> pnl_fixed \<Rightarrow> i128 \<Rightarrow> bool \<Rightarrow> string + i128" where
  "calculate_unrealized_pnl entry_price mark_price position_size is_long =
     (case ok_or ''Price difference overflow''
             (if is_long then pnl_checked_sub mark_price entry_price
              else pnl_checked_sub entry_price mark_price) of
        Inl e \<Rightarrow> Inl e
      | Inr price_diff \<Rightarrow>
          ok_or ''PnL calculation overflow'' (i128_checked (to_scaled price_diff * position_size)))"

definition calculate_maintenance_margin :: "pnl_fixed \<Rightarrow> pnl_fixed \<Rightarrow> string + pnl_fixed" where
  "calculate_maintenance_margin notional_value mm_rate =
     ok_or ''Maintenance margin calculation overflow'' (pnl_checked_mul notional_value mm_rate)"

definition calculate_margin_ratio :: "pnl_fixed \<Rightarrow> pnl_fixed \<Rightarrow> string + pnl_fixed" where
  "calculate_margin_ratio equity maintenance_margin =
     (if to_scaled maintenance_margin = 0 then Inr (PnlFixed i128_max)
      else ok_or ''Margin ratio calculation overflow'' (pnl_checked_div equity maintenance_margin))"

text \<open>The largest amount whose product with the scale is an \<open>i128\<close>: about 170 units of currency.\<close>

definition RATIO_LIMIT :: int where
  "RATIO_LIMIT = 170141183460469231731"

lemma scaled_in_range_iff: "in_i128 (x * PNL_SCALE) \<longleftrightarrow> \<bar>x\<bar> \<le> RATIO_LIMIT"
  by (auto simp: in_i128_def PNL_SCALE_def RATIO_LIMIT_def)

lemma margin_ratio_ok_iff:
  "(\<exists>r. calculate_margin_ratio (PnlFixed e) (PnlFixed m) = Inr r) \<longleftrightarrow> m = 0 \<or> \<bar>e\<bar> \<le> RATIO_LIMIT"
  by (auto simp: calculate_margin_ratio_def pnl_checked_div_def ok_or_def scaled_in_range_iff
      split: option.split)

lemma margin_ratio_value:
  "m \<noteq> 0 \<Longrightarrow> \<bar>e\<bar> \<le> RATIO_LIMIT \<Longrightarrow>
   calculate_margin_ratio (PnlFixed e) (PnlFixed m) = Inr (PnlFixed (e * PNL_SCALE sdiv m))"
  by (simp add: calculate_margin_ratio_def pnl_checked_div_def ok_or_def i128_checked_def
      scaled_in_range_iff)

lemma margin_ratio_overflow:
  "m \<noteq> 0 \<Longrightarrow> \<not> \<bar>e\<bar> \<le> RATIO_LIMIT \<Longrightarrow>
   calculate_margin_ratio (PnlFixed e) (PnlFixed m) = Inl ''Margin ratio calculation overflow''"
  by (simp add: calculate_margin_ratio_def pnl_checked_div_def ok_or_def i128_checked_def
      scaled_in_range_iff)

text \<open>
  The position of the module's own test: a profit of one unit on 20 coins of 10^8 units each is
  reported 10^8 times too large per coin.
\<close>

lemma unrealized_pnl_example:
  "calculate_unrealized_pnl (new_pnl_fixed 50000) (new_pnl_fixed 50001) 20000000000 True =
     Inr (20000000000 * PNL_SCALE)"
  by (simp add: calculate_unrealized_pnl_def new_pnl_fixed_def pnl_checked_sub_def PNL_SCALE_def s128_def
      ok_or_def i128_checked_def in_i128_def)

section \<open>The maintenance margin state machine\<close>

datatype margin_state = Healthy | MarginWarning | MarginCritical | LiquidationImminent

definition margin_state_code :: "margin_state \<Rightarrow> u8" where
  "margin_state_code s =
     (case s of Healthy \<Rightarrow> 0 | MarginWarning \<Rightarrow> 1 | MarginCritical \<Rightarrow> 2 | LiquidationImminent \<Rightarrow> 3)"

definition HEALTHY_THRESHOLD :: i128 where "HEALTHY_THRESHOLD = 2000000000000000000"
definition WARNING_THRESHOLD :: i128 where "WARNING_THRESHOLD = 1500000000000000000"
definition CRITICAL_THRESHOLD :: i128 where "CRITICAL_THRESHOLD = 1000000000000000000"

datatype margin_event = MarginStateChanged margin_state | MarginCallImminent | LiquidationWarning

record margin_fsm =
  mf_current_ratio :: i128
  mf_current_state :: u8
  mf_margin_call_emitted :: bool

definition new_margin_fsm :: margin_fsm where
  "new_margin_fsm =
     \<lparr>mf_current_ratio = HEALTHY_THRESHOLD, mf_current_state = margin_state_code Healthy,
      mf_margin_call_emitted = False\<rparr>"

definition u8_to_margin_state :: "u8 \<Rightarrow> margin_state" where
  "u8_to_margin_state v =
     (if v = 0 then Healthy else if v = 1 then MarginWarning else if v = 2 then MarginCritical
      else if v = 3 then LiquidationImminent else Healthy)"

definition calculate_margin_state :: "i128 \<Rightarrow> margin_state" where
  "calculate_margin_state ratio =
     (if ratio > HEALTHY_THRESHOLD then Healthy
      else if ratio > WARNING_THRESHOLD then MarginWarning
      else if ratio > CRITICAL_THRESHOLD then MarginCritical
      else LiquidationImminent)"

definition update_ratio :: "pnl_fixed \<Rightarrow> margin_fsm \<Rightarrow> margin_event option \<times> margin_fsm" where
  "update_ratio new_ratio m =
     (let ratio_scaled = to_scaled new_ratio;
          m1 = m\<lparr>mf_current_ratio := ratio_scaled\<rparr>;
          new_state = calculate_margin_state ratio_scaled;
          old_state = u8_to_margin_state (mf_current_state m1) in
      if new_state \<noteq> old_state then
        let m2 = m1\<lparr>mf_current_state := margin_state_code new_state\<rparr> in
        case new_state of
          MarginCritical \<Rightarrow> (Some MarginCallImminent, m2\<lparr>mf_margin_call_emitted := True\<rparr>)
        | LiquidationImminent \<Rightarrow> (Some LiquidationWarning, m2\<lparr>mf_margin_call_emitted := True\<rparr>)
        | _ \<Rightarrow> (Some (MarginStateChanged new_state), m2)
      else (None, m1))"

definition get_current_margin_state :: "margin_fsm \<Rightarrow> margin_state" where
  "get_current_margin_state m = u8_to_margin_state (mf_current_state m)"

definition reset_margin_call :: "margin_fsm \<Rightarrow> margin_fsm" where
  "reset_margin_call m = m\<lparr>mf_margin_call_emitted := False\<rparr>"

lemma u8_to_margin_state_code [simp]: "u8_to_margin_state (margin_state_code s) = s"
  by (cases s) (simp_all add: u8_to_margin_state_def margin_state_code_def)

lemma update_ratio_state:
  "get_current_margin_state (snd (update_ratio r m)) = calculate_margin_state (to_scaled r)"
  "mf_current_ratio (snd (update_ratio r m)) = to_scaled r"
  by (auto simp: update_ratio_def get_current_margin_state_def Let_def split: margin_state.split)

lemma update_ratio_event:
  "fst (update_ratio r m) =
     (let s = calculate_margin_state (to_scaled r) in
      if s = get_current_margin_state m then None
      else Some (case s of MarginCritical \<Rightarrow> MarginCallImminent | LiquidationImminent \<Rightarrow> LiquidationWarning
                 | _ \<Rightarrow> MarginStateChanged s))"
  by (auto simp: update_ratio_def get_current_margin_state_def Let_def split: margin_state.split)

lemma update_ratio_call:
  "mf_margin_call_emitted (snd (update_ratio r m)) \<longleftrightarrow>
     mf_margin_call_emitted m \<or>
     calculate_margin_state (to_scaled r) \<noteq> get_current_margin_state m \<and>
     calculate_margin_state (to_scaled r) \<in> {MarginCritical, LiquidationImminent}"
  by (auto simp: update_ratio_def get_current_margin_state_def Let_def split: margin_state.splits)

section \<open>The cross-margin tracker\<close>

record margin_position =
  mp_exchange_id :: u8
  mp_symbol :: "u8 list"
  mp_size :: i128
  mp_entry_price_scaled :: i128
  mp_mark_price_scaled :: i128
  mp_notional_scaled :: i128

record margin_tracker =
  mt_total_equity :: i128
  mt_total_maintenance_margin :: i128
  mt_position_count :: u64
  mt_margin_fsm :: margin_fsm
  mt_halt_new_entries :: bool

definition new_margin_tracker :: margin_tracker where
  "new_margin_tracker =
     \<lparr>mt_total_equity = 0, mt_total_maintenance_margin = 0, mt_position_count = 0,
      mt_margin_fsm = new_margin_fsm, mt_halt_new_entries = False\<rparr>"

definition recalculate_margin_state :: "margin_tracker \<Rightarrow> margin_tracker" where
  "recalculate_margin_state t =
     (let equity = mt_total_equity t; mm = mt_total_maintenance_margin t in
      if mm = 0 then t
      else
        case calculate_margin_ratio (PnlFixed equity) (PnlFixed mm) of
          Inl _ \<Rightarrow> t
        | Inr ratio \<Rightarrow>
            (case update_ratio ratio (mt_margin_fsm t) of
               (None, m) \<Rightarrow> t\<lparr>mt_margin_fsm := m\<rparr>
             | (Some event, m) \<Rightarrow>
                 (case event of
                    MarginCallImminent \<Rightarrow> t\<lparr>mt_margin_fsm := m, mt_halt_new_entries := True\<rparr>
                  | LiquidationWarning \<Rightarrow> t\<lparr>mt_margin_fsm := m, mt_halt_new_entries := True\<rparr>
                  | MarginStateChanged s \<Rightarrow>
                      (if s = Healthy
                       then t\<lparr>mt_margin_fsm := reset_margin_call m, mt_halt_new_entries := False\<rparr>
                       else t\<lparr>mt_margin_fsm := m\<rparr>))))"

definition update_equity :: "i128 \<Rightarrow> margin_tracker \<Rightarrow> margin_tracker" where
  "update_equity e t = recalculate_margin_state (t\<lparr>mt_total_equity := e\<rparr>)"

definition update_maintenance_margin :: "i128 \<Rightarrow> margin_tracker \<Rightarrow> margin_tracker" where
  "update_maintenance_margin m t = recalculate_margin_state (t\<lparr>mt_total_maintenance_margin := m\<rparr>)"

definition MM_RATE :: pnl_fixed where
  "MM_RATE = PnlFixed 5000000000000000"

definition add_margin_position :: "margin_position \<Rightarrow> margin_tracker \<Rightarrow> margin_tracker" where
  "add_margin_position p t =
     (let t1 = t\<lparr>mt_position_count := mt_position_count t + 1\<rparr> in
      recalculate_margin_state
        (case calculate_maintenance_margin (PnlFixed (mp_notional_scaled p)) MM_RATE of
           Inl _ \<Rightarrow> t1
         | Inr mm_required \<Rightarrow>
             t1\<lparr>mt_total_maintenance_margin :=
                  i128_saturating (mt_total_maintenance_margin t1 + to_scaled mm_required)\<rparr>))"

definition remove_margin_position :: "margin_position \<Rightarrow> margin_tracker \<Rightarrow> margin_tracker" where
  "remove_margin_position p t =
     (let t1 = t\<lparr>mt_position_count := mt_position_count t - 1\<rparr> in
      recalculate_margin_state
        (case calculate_maintenance_margin (PnlFixed (pnl_i128_abs (mp_notional_scaled p))) MM_RATE of
           Inl _ \<Rightarrow> t1
         | Inr mm_required \<Rightarrow>
             t1\<lparr>mt_total_maintenance_margin :=
                  i128_saturating (mt_total_maintenance_margin t1 - to_scaled mm_required)\<rparr>))"

definition reset_halt_flag :: "margin_tracker \<Rightarrow> margin_tracker" where
  "reset_halt_flag t =
     t\<lparr>mt_halt_new_entries := False, mt_margin_fsm := reset_margin_call (mt_margin_fsm t)\<rparr>"

datatype margin_call =
  UpdateEquity i128 | UpdateMargin i128 | AddPosition margin_position
  | RemovePosition margin_position | ResetHalt

fun margin_step :: "margin_call \<Rightarrow> margin_tracker \<Rightarrow> margin_tracker" where
  "margin_step (UpdateEquity e) t = update_equity e t"
| "margin_step (UpdateMargin m) t = update_maintenance_margin m t"
| "margin_step (AddPosition p) t = add_margin_position p t"
| "margin_step (RemovePosition p) t = remove_margin_position p t"
| "margin_step ResetHalt t = reset_halt_flag t"

definition margin_run :: "margin_call list \<Rightarrow> margin_tracker" where
  "margin_run cs = foldl (\<lambda>t c. margin_step c t) new_margin_tracker cs"

lemma margin_run_simps [simp]:
  "margin_run [] = new_margin_tracker"
  "margin_run (cs @ [c]) = margin_step c (margin_run cs)"
  by (simp_all add: margin_run_def)

subsection \<open>What a recalculation does\<close>

text \<open>The ratio that a recalculation obtains: none without margin or after an overflow.\<close>

definition ratio_now :: "margin_tracker \<Rightarrow> i128 option" where
  "ratio_now t =
     (if mt_total_maintenance_margin t = 0 then None
      else case calculate_margin_ratio (PnlFixed (mt_total_equity t))
                  (PnlFixed (mt_total_maintenance_margin t)) of
        Inl _ \<Rightarrow> None
      | Inr r \<Rightarrow> Some (to_scaled r))"

lemma ratio_now_None_iff:
  "ratio_now t = None \<longleftrightarrow> mt_total_maintenance_margin t = 0 \<or> \<not> \<bar>mt_total_equity t\<bar> \<le> RATIO_LIMIT"
  using margin_ratio_ok_iff [of "mt_total_equity t" "mt_total_maintenance_margin t"]
  by (auto simp: ratio_now_def split: sum.splits)

lemma recalculate_totals [simp]:
  "mt_total_equity (recalculate_margin_state t) = mt_total_equity t"
  "mt_total_maintenance_margin (recalculate_margin_state t) = mt_total_maintenance_margin t"
  "mt_position_count (recalculate_margin_state t) = mt_position_count t"
  by (auto simp: recalculate_margin_state_def Let_def
      split: sum.split prod.split option.split margin_event.split)

lemma ratio_now_recalculate [simp]: "ratio_now (recalculate_margin_state t) = ratio_now t"
  by (simp add: ratio_now_def)

lemma recalculate_none: "ratio_now t = None \<Longrightarrow> recalculate_margin_state t = t"
  by (auto simp: ratio_now_def recalculate_margin_state_def Let_def split: sum.splits if_splits)

definition flag_after :: "margin_state \<Rightarrow> margin_state \<Rightarrow> bool \<Rightarrow> bool" where
  "flag_after new old h \<longleftrightarrow>
     (if new = old then h
      else if new \<in> {MarginCritical, LiquidationImminent} then True
      else new \<noteq> Healthy \<and> h)"

lemma recalculate_some:
  assumes "ratio_now t = Some r"
  shows "get_current_margin_state (mt_margin_fsm (recalculate_margin_state t)) = calculate_margin_state r"
    and "mt_halt_new_entries (recalculate_margin_state t) \<longleftrightarrow>
      flag_after (calculate_margin_state r) (get_current_margin_state (mt_margin_fsm t)) (mt_halt_new_entries t)"
    and "mf_margin_call_emitted (mt_margin_fsm (recalculate_margin_state t)) \<longleftrightarrow>
      flag_after (calculate_margin_state r) (get_current_margin_state (mt_margin_fsm t))
        (mf_margin_call_emitted (mt_margin_fsm t))"
proof -
  obtain x where mm: "mt_total_maintenance_margin t \<noteq> 0"
    and x: "calculate_margin_ratio (PnlFixed (mt_total_equity t))
              (PnlFixed (mt_total_maintenance_margin t)) = Inr x" and r: "r = to_scaled x"
    using assms by (auto simp: ratio_now_def split: sum.splits if_splits)
  obtain ev m where u: "update_ratio x (mt_margin_fsm t) = (ev, m)"
    by (cases "update_ratio x (mt_margin_fsm t)")
  note facts = update_ratio_state [of x "mt_margin_fsm t"] update_ratio_event [of x "mt_margin_fsm t"]
    update_ratio_call [of x "mt_margin_fsm t"]
  show "get_current_margin_state (mt_margin_fsm (recalculate_margin_state t)) = calculate_margin_state r"
    using facts mm x u r
    by (auto simp: recalculate_margin_state_def Let_def reset_margin_call_def get_current_margin_state_def
        split: option.split margin_event.split)
  show "mt_halt_new_entries (recalculate_margin_state t) \<longleftrightarrow>
      flag_after (calculate_margin_state r) (get_current_margin_state (mt_margin_fsm t)) (mt_halt_new_entries t)"
    "mf_margin_call_emitted (mt_margin_fsm (recalculate_margin_state t)) \<longleftrightarrow>
      flag_after (calculate_margin_state r) (get_current_margin_state (mt_margin_fsm t))
        (mf_margin_call_emitted (mt_margin_fsm t))"
    using facts mm x u r
    by (cases "calculate_margin_state r";
        auto simp: recalculate_margin_state_def Let_def reset_margin_call_def flag_after_def split: if_splits)+
qed

lemma margin_step_is_recalculation:
  assumes "c \<noteq> ResetHalt"
  obtains t' where "margin_step c t = recalculate_margin_state t'"
    "mt_halt_new_entries t' = mt_halt_new_entries t" "mt_margin_fsm t' = mt_margin_fsm t"
    "mt_total_equity t' = (case c of UpdateEquity e \<Rightarrow> e | _ \<Rightarrow> mt_total_equity t)"
proof (cases c)
  case (AddPosition p)
  show ?thesis
    by (rule that, simp only: AddPosition margin_step.simps add_margin_position_def Let_def)
      (simp_all add: AddPosition split: sum.split)
next
  case (RemovePosition p)
  show ?thesis
    by (rule that, simp only: RemovePosition margin_step.simps remove_margin_position_def Let_def)
      (simp_all add: RemovePosition split: sum.split)
qed (use assms in \<open>simp_all add: that update_equity_def update_maintenance_margin_def\<close>)

text \<open>Both flags always agree, and the halt follows the state.\<close>

lemma halt_is_margin_call:
  "mt_halt_new_entries (margin_run cs) \<longleftrightarrow> mf_margin_call_emitted (mt_margin_fsm (margin_run cs))"
proof (induction cs rule: rev_induct)
  case Nil
  then show ?case by (simp add: new_margin_tracker_def new_margin_fsm_def)
next
  case (snoc c cs)
  show ?case
  proof (cases "c = ResetHalt")
    case True
    then show ?thesis by (simp add: reset_halt_flag_def reset_margin_call_def)
  next
    case False
    then obtain t' where "margin_step c (margin_run cs) = recalculate_margin_state t'"
      "mt_halt_new_entries t' = mt_halt_new_entries (margin_run cs)"
      "mt_margin_fsm t' = mt_margin_fsm (margin_run cs)"
      by (rule margin_step_is_recalculation)
    then show ?thesis
      using snoc recalculate_some [of t'] recalculate_none [of t'] by (cases "ratio_now t'") auto
  qed
qed

definition halt_follows_state :: "margin_tracker \<Rightarrow> bool" where
  "halt_follows_state t \<longleftrightarrow>
     (get_current_margin_state (mt_margin_fsm t) \<in> {MarginCritical, LiquidationImminent} \<longrightarrow> mt_halt_new_entries t) \<and>
     (get_current_margin_state (mt_margin_fsm t) = Healthy \<longrightarrow> \<not> mt_halt_new_entries t)"

lemma recalculate_keeps_halt_follows_state:
  assumes "halt_follows_state t"
  shows "halt_follows_state (recalculate_margin_state t)"
proof (cases "ratio_now t")
  case None
  then show ?thesis using assms by (simp add: recalculate_none)
next
  case (Some r)
  show ?thesis
    using assms
    by (auto simp: halt_follows_state_def recalculate_some [OF Some] flag_after_def)
qed

lemma margin_run_halt_follows_state:
  "ResetHalt \<notin> set cs \<Longrightarrow> halt_follows_state (margin_run cs)"
proof (induction cs rule: rev_induct)
  case Nil
  then show ?case
    by (simp add: halt_follows_state_def new_margin_tracker_def new_margin_fsm_def get_current_margin_state_def)
next
  case (snoc c cs)
  then have "c \<noteq> ResetHalt" by auto
  then obtain t' where "margin_step c (margin_run cs) = recalculate_margin_state t'"
    "mt_halt_new_entries t' = mt_halt_new_entries (margin_run cs)"
    "mt_margin_fsm t' = mt_margin_fsm (margin_run cs)"
    by (rule margin_step_is_recalculation)
  then show ?case
    using snoc recalculate_keeps_halt_follows_state [of t'] by (simp add: halt_follows_state_def)
qed

text \<open>Halting at a ratio of 1.5 and below, resuming above 2, and keeping the decision in between.\<close>

definition hysteresis :: "i128 \<Rightarrow> bool \<Rightarrow> bool" where
  "hysteresis r h \<longleftrightarrow> r \<le> WARNING_THRESHOLD \<or> r \<le> HEALTHY_THRESHOLD \<and> h"

lemma recalculate_hysteresis:
  assumes "halt_follows_state t" "ratio_now t = Some r"
  shows "mt_halt_new_entries (recalculate_margin_state t) \<longleftrightarrow> hysteresis r (mt_halt_new_entries t)"
  using assms(1) unfolding recalculate_some(2) [OF assms(2)]
  by (auto simp: halt_follows_state_def flag_after_def hysteresis_def calculate_margin_state_def
      HEALTHY_THRESHOLD_def WARNING_THRESHOLD_def CRITICAL_THRESHOLD_def split: if_splits)

text \<open>C23. As long as nobody resets the flag by hand, the tracker halts new entries by hysteresis over
  the margin ratio: after every call, if a ratio could be computed, entries are halted exactly if the
  ratio is at most 1.5, or at most 2 and they were halted before; if none could be computed the
  decision stays.\<close>

theorem halt_is_hysteresis:
  assumes "ResetHalt \<notin> set cs" "c \<noteq> ResetHalt"
  shows "mt_halt_new_entries (margin_run (cs @ [c])) \<longleftrightarrow>
           (case ratio_now (margin_run (cs @ [c])) of
              None \<Rightarrow> mt_halt_new_entries (margin_run cs)
            | Some r \<Rightarrow> hysteresis r (mt_halt_new_entries (margin_run cs)))"
proof -
  obtain t' where t': "margin_step c (margin_run cs) = recalculate_margin_state t'"
    "mt_halt_new_entries t' = mt_halt_new_entries (margin_run cs)"
    "mt_margin_fsm t' = mt_margin_fsm (margin_run cs)"
    using margin_step_is_recalculation [OF assms(2)] by metis
  have "halt_follows_state t'"
    using margin_run_halt_follows_state [OF assms(1)] t' by (simp add: halt_follows_state_def)
  then show ?thesis
    using t' recalculate_hysteresis [of t'] recalculate_none [of t'] by (auto split: option.split)
qed

theorem halt_is_hysteresis_witness:
  "mt_halt_new_entries
     (margin_run ([UpdateEquity (100 * PNL_SCALE), UpdateMargin (40 * PNL_SCALE)] @ [UpdateMargin (80 * PNL_SCALE)]))"
proof -
  have r: "ratio_now (margin_run ([UpdateEquity (100 * PNL_SCALE), UpdateMargin (40 * PNL_SCALE)]
             @ [UpdateMargin (80 * PNL_SCALE)])) = Some 1250000000000000000"
    by (simp add: margin_run_def update_equity_def update_maintenance_margin_def ratio_now_def
        margin_ratio_value PNL_SCALE_def RATIO_LIMIT_def new_margin_tracker_def sdiv_nonneg)
  show ?thesis
    using halt_is_hysteresis [of "[UpdateEquity (100 * PNL_SCALE), UpdateMargin (40 * PNL_SCALE)]"
        "UpdateMargin (80 * PNL_SCALE)"]
    unfolding r by (simp add: hysteresis_def WARNING_THRESHOLD_def)
qed

subsection \<open>Amounts beyond the range\<close>

definition equity_beyond_limit :: "margin_call \<Rightarrow> bool" where
  "equity_beyond_limit c = (case c of UpdateEquity e \<Rightarrow> \<bar>e\<bar> > RATIO_LIMIT | _ \<Rightarrow> True)"

lemma margin_step_beyond_limit:
  assumes "\<bar>mt_total_equity t\<bar> > RATIO_LIMIT" "equity_beyond_limit c"
  shows "\<bar>mt_total_equity (margin_step c t)\<bar> > RATIO_LIMIT \<and>
    (mt_halt_new_entries (margin_step c t) \<longrightarrow> mt_halt_new_entries t) \<and>
    get_current_margin_state (mt_margin_fsm (margin_step c t)) = get_current_margin_state (mt_margin_fsm t)"
proof (cases "c = ResetHalt")
  case True
  then show ?thesis
    using assms by (simp add: reset_halt_flag_def reset_margin_call_def get_current_margin_state_def)
next
  case False
  then obtain t' where t': "margin_step c t = recalculate_margin_state t'"
    "mt_halt_new_entries t' = mt_halt_new_entries t" "mt_margin_fsm t' = mt_margin_fsm t"
    "mt_total_equity t' = (case c of UpdateEquity e \<Rightarrow> e | _ \<Rightarrow> mt_total_equity t)"
    by (rule margin_step_is_recalculation)
  have "\<bar>mt_total_equity t'\<bar> > RATIO_LIMIT"
    using assms t'(4) by (cases c) (simp_all add: equity_beyond_limit_def)
  then show ?thesis
    using t' recalculate_none [of t'] by (simp add: ratio_now_None_iff)
qed

lemma margin_steps_beyond_limit:
  assumes "\<bar>mt_total_equity t\<bar> > RATIO_LIMIT" "\<forall>c\<in>set cs. equity_beyond_limit c"
  shows "\<bar>mt_total_equity (foldl (\<lambda>t c. margin_step c t) t cs)\<bar> > RATIO_LIMIT \<and>
    (mt_halt_new_entries (foldl (\<lambda>t c. margin_step c t) t cs) \<longrightarrow> mt_halt_new_entries t) \<and>
    get_current_margin_state (mt_margin_fsm (foldl (\<lambda>t c. margin_step c t) t cs)) =
      get_current_margin_state (mt_margin_fsm t)"
  using assms
proof (induction cs arbitrary: t)
  case (Cons c cs)
  then have c: "equity_beyond_limit c" and cs: "\<forall>c\<in>set cs. equity_beyond_limit c" by simp_all
  note step = margin_step_beyond_limit [OF Cons.prems(1) c]
  show ?case
    using Cons.IH [OF conjunct1 [OF step] cs] step unfolding foldl_Cons by metis
qed simp

text \<open>The ratio multiplies the equity by 10^18 before it divides, which overflows above about 170
  units of currency, and the tracker ignores the error.  Started with a greater equity, and as long as
  the equity stays there, the tracker never halts new entries and reports a healthy margin whatever
  the positions and the maintenance margin are.\<close>

lemma large_equity_never_halts:
  assumes "\<bar>e\<bar> > RATIO_LIMIT" "\<forall>c\<in>set cs. equity_beyond_limit c"
  shows "\<not> mt_halt_new_entries (margin_run (UpdateEquity e # cs)) \<and>
         get_current_margin_state (mt_margin_fsm (margin_run (UpdateEquity e # cs))) = Healthy"
proof -
  have t: "update_equity e new_margin_tracker = new_margin_tracker\<lparr>mt_total_equity := e\<rparr>"
    by (simp add: update_equity_def recalculate_margin_state_def new_margin_tracker_def)
  have "\<not> mt_halt_new_entries (update_equity e new_margin_tracker)"
    "get_current_margin_state (mt_margin_fsm (update_equity e new_margin_tracker)) = Healthy"
    "\<bar>mt_total_equity (update_equity e new_margin_tracker)\<bar> > RATIO_LIMIT"
    using assms(1) unfolding t
    by (simp_all add: new_margin_tracker_def new_margin_fsm_def get_current_margin_state_def)
  moreover have "margin_run (UpdateEquity e # cs) =
      foldl (\<lambda>t c. margin_step c t) (update_equity e new_margin_tracker) cs"
    by (simp add: margin_run_def)
  ultimately show ?thesis
    using margin_steps_beyond_limit [OF _ assms(2), of "update_equity e new_margin_tracker"] by metis
qed

text \<open>The amounts of the tracker's own test, whose margin ratio is 1.25.\<close>

lemma large_equity_never_halts_example:
  "\<not> mt_halt_new_entries (margin_run [UpdateEquity (100000 * PNL_SCALE),
       UpdateMargin (40000 * PNL_SCALE), UpdateMargin (80000 * PNL_SCALE)])"
  using large_equity_never_halts [of "100000 * PNL_SCALE"
      "[UpdateMargin (40000 * PNL_SCALE), UpdateMargin (80000 * PNL_SCALE)]"]
  by (simp add: PNL_SCALE_def RATIO_LIMIT_def equity_beyond_limit_def)

subsection \<open>Adding and removing a position\<close>

definition MM_LIMIT :: int where
  "MM_LIMIT = 34028236692093846346337"

definition margin_of :: "int \<Rightarrow> int" where
  "margin_of n = n * 5000000000000000 sdiv PNL_SCALE"

lemma maintenance_margin_value:
  "calculate_maintenance_margin (PnlFixed n) MM_RATE =
     (if \<bar>n\<bar> \<le> MM_LIMIT then Inr (PnlFixed (margin_of n))
      else Inl ''Maintenance margin calculation overflow'')"
proof -
  have "in_i128 (n * 5000000000000000) \<longleftrightarrow> \<bar>n\<bar> \<le> MM_LIMIT"
    by (auto simp: in_i128_def MM_LIMIT_def)
  then show ?thesis
    by (simp add: calculate_maintenance_margin_def pnl_checked_mul_def MM_RATE_def ok_or_def
        i128_checked_def margin_of_def)
qed

lemma margin_of_minus: "margin_of (- n) = - margin_of n"
  by (simp add: margin_of_def signed_divide_int_def sgn_minus abs_minus)

lemma margin_of_nonneg: "0 \<le> n \<Longrightarrow> 0 \<le> margin_of n"
  by (simp add: margin_of_def sdiv_nonneg PNL_SCALE_def)

lemma margin_of_nonpos: "n \<le> 0 \<Longrightarrow> margin_of n \<le> 0"
  using margin_of_nonneg [of "- n"] by (simp add: margin_of_minus)

lemma i128_abs_id: "\<bar>n\<bar> \<le> MM_LIMIT \<Longrightarrow> pnl_i128_abs n = \<bar>n\<bar>"
  by (simp add: pnl_i128_abs_def s128_id MM_LIMIT_def)

lemma add_position_margin:
  assumes "\<bar>mp_notional_scaled p\<bar> \<le> MM_LIMIT"
    "in_i128 (mt_total_maintenance_margin t + margin_of (mp_notional_scaled p))"
  shows "mt_total_maintenance_margin (add_margin_position p t) =
    mt_total_maintenance_margin t + margin_of (mp_notional_scaled p)"
    "mt_position_count (add_margin_position p t) = mt_position_count t + 1"
  using assms
  by (simp_all add: add_margin_position_def maintenance_margin_value i128_saturating_id)

lemma remove_position_margin:
  assumes "\<bar>mp_notional_scaled p\<bar> \<le> MM_LIMIT"
    "in_i128 (mt_total_maintenance_margin t - margin_of \<bar>mp_notional_scaled p\<bar>)"
  shows "mt_total_maintenance_margin (remove_margin_position p t) =
    mt_total_maintenance_margin t - margin_of \<bar>mp_notional_scaled p\<bar>"
    "mt_position_count (remove_margin_position p t) = mt_position_count t - 1"
  using assms
  by (simp_all add: remove_margin_position_def maintenance_margin_value i128_saturating_id i128_abs_id)

lemma abs_margin_of: "\<bar>margin_of n\<bar> = \<bar>n\<bar> div 200"
  by (cases "n = 0") (simp_all add: margin_of_def PNL_SCALE_def signed_divide_int_def abs_mult)

lemma div_le_dividend_int: "0 \<le> (a :: int) \<Longrightarrow> 0 < b \<Longrightarrow> a div b \<le> a"
  using zdiv_mono2 [of a 1 b] by simp

text \<open>Adding a position and removing it again restores the position count, and the maintenance
  margin exactly for a non-negative notional value.  A short position given with a negative value
  lowers the required margin when it is added, and lowers it by the same amount again when it is
  removed.\<close>

theorem add_remove_position:
  assumes n: "\<bar>mp_notional_scaled p\<bar> \<le> MM_LIMIT"
    and m: "0 \<le> mt_total_maintenance_margin t" "mt_total_maintenance_margin t \<le> 2 ^ 126"
  shows "mt_position_count (remove_margin_position p (add_margin_position p t)) = mt_position_count t \<and>
    mt_total_maintenance_margin (remove_margin_position p (add_margin_position p t)) =
      (if 0 \<le> mp_notional_scaled p then mt_total_maintenance_margin t
       else mt_total_maintenance_margin t - 2 * margin_of \<bar>mp_notional_scaled p\<bar>)"
proof -
  have b: "\<bar>margin_of (mp_notional_scaled p)\<bar> \<le> MM_LIMIT"
    using abs_margin_of [of "mp_notional_scaled p"] n div_le_dividend_int [of "\<bar>mp_notional_scaled p\<bar>" 200]
    by simp
  have abs: "margin_of \<bar>mp_notional_scaled p\<bar> = \<bar>margin_of (mp_notional_scaled p)\<bar>"
    using margin_of_nonneg [of "mp_notional_scaled p"] margin_of_nonpos [of "mp_notional_scaled p"]
    by (cases "0 \<le> mp_notional_scaled p") (simp_all add: margin_of_minus)
  have r1: "in_i128 (mt_total_maintenance_margin t + margin_of (mp_notional_scaled p))"
    using m b by (simp add: in_i128_def MM_LIMIT_def abs_le_iff)
  have r2: "in_i128 (mt_total_maintenance_margin t + margin_of (mp_notional_scaled p)
      - margin_of \<bar>mp_notional_scaled p\<bar>)"
    using m b unfolding abs by (simp add: in_i128_def MM_LIMIT_def abs_le_iff) linarith
  note add = add_position_margin [OF n r1]
  note remove = remove_position_margin [OF n, of "add_margin_position p t", unfolded add, OF r2]
  show ?thesis
    using margin_of_nonneg [of "mp_notional_scaled p"] margin_of_nonpos [of "mp_notional_scaled p"]
    by (simp add: remove abs margin_of_minus)
qed

definition example_position :: "int \<Rightarrow> margin_position" where
  "example_position n =
     \<lparr>mp_exchange_id = 1, mp_symbol = replicate 16 0, mp_size = n, mp_entry_price_scaled = PNL_SCALE,
      mp_mark_price_scaled = PNL_SCALE, mp_notional_scaled = n\<rparr>"

lemma add_remove_position_example:
  "mt_total_maintenance_margin (remove_margin_position (example_position (- 200))
     (add_margin_position (example_position (- 200)) new_margin_tracker)) = - 2"
  using add_remove_position [of "example_position (- 200)" new_margin_tracker]
  by (simp add: example_position_def MM_LIMIT_def new_margin_tracker_def margin_of_def PNL_SCALE_def)

section \<open>The orphan leg router\<close>

definition MAX_SLIPPAGE_BPS :: i128 where "MAX_SLIPPAGE_BPS = 50"

datatype orphan_state =
  OrphanIdle | CalculatingLimits | SendingCancel | SendingLimitOrders | FlatteningComplete | OrphanFailed

definition orphan_code :: "orphan_state \<Rightarrow> u8" where
  "orphan_code s =
     (case s of OrphanIdle \<Rightarrow> 0 | CalculatingLimits \<Rightarrow> 1 | SendingCancel \<Rightarrow> 2
      | SendingLimitOrders \<Rightarrow> 3 | FlatteningComplete \<Rightarrow> 4 | OrphanFailed \<Rightarrow> 5)"

definition u8_to_orphan_state :: "u8 \<Rightarrow> orphan_state" where
  "u8_to_orphan_state v =
     (if v = 0 then OrphanIdle else if v = 1 then CalculatingLimits else if v = 2 then SendingCancel
      else if v = 3 then SendingLimitOrders else if v = 4 then FlatteningComplete
      else if v = 5 then OrphanFailed else OrphanIdle)"

record orphan_command =
  fc_exchange_id :: u8
  fc_symbol :: "u8 list"
  fc_size_scaled :: i128
  fc_reference_price_scaled :: i128
  fc_is_long :: bool

datatype orphan_result = OrphanSuccess | OrphanPartial i128 i128 | OrphanFailure string

record orphan_router =
  or_current_state :: u8
  or_flattened_size :: i128
  or_operation_in_progress :: bool
  or_slippage_exceeded :: bool

definition new_orphan_router :: orphan_router where
  "new_orphan_router =
     \<lparr>or_current_state = orphan_code OrphanIdle, or_flattened_size = 0, or_operation_in_progress = False,
      or_slippage_exceeded = False\<rparr>"

definition orphan_initiate :: "orphan_router \<Rightarrow> bool \<times> orphan_router" where
  "orphan_initiate r =
     (if or_current_state r = orphan_code OrphanIdle then
        (True, r\<lparr>or_current_state := orphan_code CalculatingLimits, or_operation_in_progress := True\<rparr>)
      else (False, r))"

definition calculate_limit_price :: "orphan_command \<Rightarrow> string + i128" where
  "calculate_limit_price c =
     (let ref_price = PnlFixed (fc_reference_price_scaled c);
          slippage_bps = PnlFixed (MAX_SLIPPAGE_BPS * 1000000000000);
          hundred_percent = PnlFixed (10000 * 1000000000000);
          one = PnlFixed 1000000000000000000 in
      if fc_is_long c then
        (case ok_or ''Slippage calculation overflow'' (pnl_checked_div slippage_bps hundred_percent) of
           Inl e \<Rightarrow> Inl e
         | Inr slippage_factor \<Rightarrow>
             (case ok_or ''Limit factor underflow'' (pnl_checked_sub one slippage_factor) of
                Inl e \<Rightarrow> Inl e
              | Inr limit_factor \<Rightarrow>
                  map_sum id to_scaled
                    (ok_or ''Limit price calculation overflow'' (pnl_checked_mul ref_price limit_factor))))
      else
        (case ok_or ''Slippage calculation overflow'' (pnl_checked_div slippage_bps hundred_percent) of
           Inl e \<Rightarrow> Inl e
         | Inr slippage_factor \<Rightarrow>
             (case ok_or ''Limit factor overflow'' (pnl_checked_add one slippage_factor) of
                Inl e \<Rightarrow> Inl e
              | Inr limit_factor \<Rightarrow>
                  map_sum id to_scaled
                    (ok_or ''Limit price calculation overflow'' (pnl_checked_mul ref_price limit_factor)))))"

definition orphan_record_fill :: "i128 \<Rightarrow> orphan_router \<Rightarrow> orphan_router" where
  "orphan_record_fill x r = r\<lparr>or_flattened_size := s128 (or_flattened_size r + x)\<rparr>"

definition check_flatten_complete :: "i128 \<Rightarrow> orphan_router \<Rightarrow> orphan_result \<times> orphan_router" where
  "check_flatten_complete target r =
     (let flattened = or_flattened_size r in
      if flattened \<ge> target then
        (OrphanSuccess, r\<lparr>or_current_state := orphan_code FlatteningComplete, or_operation_in_progress := False\<rparr>)
      else if flattened > 0 then
        (OrphanPartial flattened (i128_saturating (target - flattened)), r)
      else (OrphanFailure ''No fills received'', r))"

definition mark_slippage_exceeded :: "orphan_router \<Rightarrow> orphan_router" where
  "mark_slippage_exceeded r =
     r\<lparr>or_slippage_exceeded := True, or_current_state := orphan_code OrphanFailed,
       or_operation_in_progress := False\<rparr>"

definition get_orphan_state :: "orphan_router \<Rightarrow> orphan_state" where
  "get_orphan_state r = u8_to_orphan_state (or_current_state r)"

definition reset_orphan_router :: "orphan_router \<Rightarrow> orphan_router" where
  "reset_orphan_router r =
     r\<lparr>or_current_state := orphan_code OrphanIdle, or_flattened_size := 0,
       or_operation_in_progress := False, or_slippage_exceeded := False\<rparr>"

subsection \<open>The limit price\<close>

definition limit_permille :: "bool \<Rightarrow> int" where
  "limit_permille is_long = (if is_long then 995 else 1005)"

definition PRICE_LIMIT :: "bool \<Rightarrow> int" where
  "PRICE_LIMIT is_long = (if is_long then 170996164281878624855 else 169294709910914658439)"

lemma limit_price_eq:
  assumes "0 \<le> fc_reference_price_scaled c"
  shows "calculate_limit_price c =
    (if fc_reference_price_scaled c \<le> PRICE_LIMIT (fc_is_long c)
     then Inr (fc_reference_price_scaled c * limit_permille (fc_is_long c) div 1000)
     else Inl ''Limit price calculation overflow'')"
proof -
  let ?p = "fc_reference_price_scaled c"
  have long: "in_i128 (?p * 995000000000000000) \<longleftrightarrow> ?p \<le> 170996164281878624855"
    and short: "in_i128 (?p * 1005000000000000000) \<longleftrightarrow> ?p \<le> 169294709910914658439"
    using assms by (auto simp: in_i128_def)
  have div: "?p * 995000000000000000 sdiv PNL_SCALE = ?p * 995 div 1000"
    "?p * 1005000000000000000 sdiv PNL_SCALE = ?p * 1005 div 1000"
    using assms div_mult_mult1 [of 1000000000000000 "?p * 995" 1000]
      div_mult_mult1 [of 1000000000000000 "?p * 1005" 1000]
    by (simp_all add: sdiv_nonneg PNL_SCALE_def mult.commute mult.left_commute)
  have f: "pnl_checked_div (PnlFixed (MAX_SLIPPAGE_BPS * 1000000000000)) (PnlFixed (10000 * 1000000000000))
      = Some (PnlFixed 5000000000000000)"
    by (simp add: pnl_checked_div_def MAX_SLIPPAGE_BPS_def PNL_SCALE_def i128_checked_def in_i128_def sdiv_nonneg)
  have sub: "pnl_checked_sub (PnlFixed 1000000000000000000) (PnlFixed 5000000000000000) =
      Some (PnlFixed 995000000000000000)"
    and add: "pnl_checked_add (PnlFixed 1000000000000000000) (PnlFixed 5000000000000000) =
      Some (PnlFixed 1005000000000000000)"
    by (simp_all add: pnl_checked_sub_def pnl_checked_add_def i128_checked_def in_i128_def)
  have e: "calculate_limit_price c =
      map_sum id to_scaled (ok_or ''Limit price calculation overflow''
        (pnl_checked_mul (PnlFixed ?p)
          (PnlFixed (if fc_is_long c then 995000000000000000 else 1005000000000000000))))"
    unfolding calculate_limit_price_def Let_def f by (simp add: ok_or_def sub add)
  show ?thesis
    unfolding e using long short div
    by (simp add: ok_or_def pnl_checked_mul_def i128_checked_def limit_permille_def PRICE_LIMIT_def)
qed

text \<open>The limit price of a flattening order exists exactly for reference prices up to about 170 units
  of currency; above, the 128-bit product overflows and the leg cannot be flattened.  Where it exists
  it is the reference price less half a percent for a sale and plus half a percent for a purchase,
  rounded down by less than one unit of the last decimal.\<close>

theorem limit_price_within_half_percent:
  assumes "0 \<le> fc_reference_price_scaled c"
  shows "((\<exists>p. calculate_limit_price c = Inr p) \<longleftrightarrow> fc_reference_price_scaled c \<le> PRICE_LIMIT (fc_is_long c)) \<and>
    (\<forall>p. calculate_limit_price c = Inr p \<longrightarrow>
       1000 * p \<le> fc_reference_price_scaled c * limit_permille (fc_is_long c) \<and>
       fc_reference_price_scaled c * limit_permille (fc_is_long c) < 1000 * (p + 1))"
  unfolding limit_price_eq [OF assms] by auto

definition example_orphan :: "int \<Rightarrow> bool \<Rightarrow> orphan_command" where
  "example_orphan price is_long =
     \<lparr>fc_exchange_id = 1, fc_symbol = replicate 16 0, fc_size_scaled = PNL_SCALE,
      fc_reference_price_scaled = price * PNL_SCALE, fc_is_long = is_long\<rparr>"

text \<open>The prices of the module's own tests are out of range.\<close>

lemma limit_price_within_half_percent_example:
  "calculate_limit_price (example_orphan 100 True) = Inr 99500000000000000000 \<and>
   \<not> (\<exists>p. calculate_limit_price (example_orphan 50000 True) = Inr p)"
  using limit_price_within_half_percent [of "example_orphan 50000 True"]
    limit_price_within_half_percent [of "example_orphan 100 True"]
  by (auto simp: example_orphan_def PNL_SCALE_def PRICE_LIMIT_def limit_permille_def)

subsection \<open>The life of an operation\<close>

inductive orphan_step :: "orphan_router \<Rightarrow> orphan_router \<Rightarrow> bool" where
  initiate: "orphan_step r (snd (orphan_initiate r))"
| fill: "orphan_step r (orphan_record_fill x r)"
| check: "orphan_step r (snd (check_flatten_complete target r))"
| slippage: "orphan_step r (mark_slippage_exceeded r)"
| reset: "orphan_step r (reset_orphan_router r)"

definition orphan_inv :: "orphan_router \<Rightarrow> bool" where
  "orphan_inv r \<longleftrightarrow>
     or_current_state r \<in> orphan_code ` {OrphanIdle, CalculatingLimits, FlatteningComplete, OrphanFailed} \<and>
     (or_operation_in_progress r \<longleftrightarrow> or_current_state r = orphan_code CalculatingLimits)"

lemma orphan_step_inv: "orphan_step r r' \<Longrightarrow> orphan_inv r \<Longrightarrow> orphan_inv r'"
  by (induction rule: orphan_step.induct)
    (auto simp: orphan_inv_def orphan_initiate_def orphan_record_fill_def check_flatten_complete_def Let_def
      mark_slippage_exceeded_def reset_orphan_router_def orphan_code_def)

lemma orphan_reachable_inv: "orphan_step\<^sup>*\<^sup>* new_orphan_router r \<Longrightarrow> orphan_inv r"
proof (induction rule: rtranclp_induct)
  case base
  show ?case by (simp add: orphan_inv_def new_orphan_router_def orphan_code_def)
next
  case (step r r')
  then show ?case by (blast intro: orphan_step_inv)
qed

text \<open>A new operation starts exactly from the idle state, so never while another is in progress, and
  the two sending states are never entered.\<close>

lemma orphan_states:
  assumes "orphan_step\<^sup>*\<^sup>* new_orphan_router r"
  shows "get_orphan_state r \<notin> {SendingCancel, SendingLimitOrders}"
    "or_operation_in_progress r \<longleftrightarrow> get_orphan_state r = CalculatingLimits"
    "fst (orphan_initiate r) \<longleftrightarrow> get_orphan_state r = OrphanIdle"
  using orphan_reachable_inv [OF assms]
  by (auto simp: orphan_inv_def get_orphan_state_def u8_to_orphan_state_def orphan_code_def orphan_initiate_def)

text \<open>A short leg, whose size is negative, counts as flattened before any fill.\<close>

lemma short_leg_complete_without_fill:
  "target \<le> 0 \<Longrightarrow> fst (check_flatten_complete target (snd (orphan_initiate new_orphan_router))) = OrphanSuccess"
  by (simp add: check_flatten_complete_def orphan_initiate_def new_orphan_router_def)

end
