(* ===== verification/Dark_Pool.thy ===== *)
theory Dark_Pool
  imports Nexus_Prelude
begin

text \<open>
  Execution in dark pools, \<open>crates/nexus_brokerage/src/dark_pools\<close>: the state machine of an indication of
  interest (\<open>ioi_state_machine.rs\<close>) and the engine that prices pegged orders against the lit market
  (\<open>conditional_pegging.rs\<close>).  Clock readings are arguments: an \<open>Instant\<close> and the time since the epoch
  in nanoseconds.
\<close>

section \<open>Indications of interest\<close>

datatype ioi_state =
  Initializing | Broadcasted | ResponsesReceived | EvaluatingImprovement | IoiExecuting | IoiCompleted
  | IoiCancelled

definition ioi_code :: "ioi_state \<Rightarrow> u64" where
  "ioi_code s =
     (case s of Initializing \<Rightarrow> 0 | Broadcasted \<Rightarrow> 1 | ResponsesReceived \<Rightarrow> 2 | EvaluatingImprovement \<Rightarrow> 3
      | IoiExecuting \<Rightarrow> 4 | IoiCompleted \<Rightarrow> 5 | IoiCancelled \<Rightarrow> 6)"

text \<open>The error for toxic flow carries two floating-point numbers and is constructed nowhere.\<close>

datatype ioi_error =
  InvalidIoiTransition ioi_state ioi_state | IOIExpired | NoPriceImprovement i64 i64 | ToxicityExceeded
  | SizeExceeded

datatype ioi_side = IoiBuy | IoiSell

record indication =
  io_ioi_id :: u64
  io_asset_id :: u32
  io_side :: ioi_side
  io_quantity :: i64
  io_min_qty :: i64
  io_max_qty :: i64
  io_peg_offset :: i64
  io_improvement_required :: i64
  io_expiry :: instant
  io_state :: ioi_state
  io_target_dark_pools :: "u32 list"

record dark_pool_response =
  dr_dark_pool_id :: u32
  dr_available_qty :: i64
  dr_peg_price :: i64
  dr_improvement_offered :: i64
  dr_conditional_order_id :: u64
  dr_expiry :: instant

record ioi_machine =
  im_ioi :: indication
  im_responses :: "dark_pool_response list"
  im_state :: u64
  im_created_at :: instant
  im_updated_at :: u64
  im_is_active :: bool

definition new_ioi_machine :: "instant \<Rightarrow> indication \<Rightarrow> ioi_machine" where
  "new_ioi_machine now i =
     \<lparr>im_ioi = i, im_responses = [], im_state = ioi_code Initializing, im_created_at = now,
      im_updated_at = 0, im_is_active = True\<rparr>"

definition get_ioi_state :: "ioi_machine \<Rightarrow> ioi_state" where
  "get_ioi_state m =
     (let v = im_state m in
      if v = 0 then Initializing else if v = 1 then Broadcasted else if v = 2 then ResponsesReceived
      else if v = 3 then EvaluatingImprovement else if v = 4 then IoiExecuting
      else if v = 5 then IoiCompleted else IoiCancelled)"

definition ioi_transition_valid :: "ioi_state \<Rightarrow> ioi_state \<Rightarrow> bool" where
  "ioi_transition_valid cur new_state \<longleftrightarrow>
     (cur, new_state) \<in>
       {(Initializing, Broadcasted), (Broadcasted, ResponsesReceived), (Broadcasted, IoiCancelled),
        (ResponsesReceived, EvaluatingImprovement), (ResponsesReceived, IoiCancelled),
        (EvaluatingImprovement, IoiExecuting), (EvaluatingImprovement, IoiCancelled),
        (IoiExecuting, IoiCompleted), (IoiExecuting, IoiCancelled)}"

text \<open>\<open>epoch\<close> is the time since the epoch in nanoseconds.\<close>

definition ioi_transition :: "nat \<Rightarrow> ioi_state \<Rightarrow> ioi_machine \<Rightarrow> (ioi_error + unit) \<times> ioi_machine" where
  "ioi_transition epoch new_state m =
     (let cur = get_ioi_state m in
      if \<not> ioi_transition_valid cur new_state then (Inl (InvalidIoiTransition cur new_state), m)
      else (Inr (), m\<lparr>im_state := ioi_code new_state, im_updated_at := word_of_nat (epoch div 1000)\<rparr>))"

definition ioi_is_expired :: "instant \<Rightarrow> ioi_machine \<Rightarrow> bool" where
  "ioi_is_expired now m \<longleftrightarrow> now > io_expiry (im_ioi m)"

definition ioi_broadcast :: "instant \<Rightarrow> nat \<Rightarrow> ioi_machine \<Rightarrow> (ioi_error + unit) \<times> ioi_machine" where
  "ioi_broadcast now epoch m =
     (if ioi_is_expired now m then (Inl IOIExpired, m) else ioi_transition epoch Broadcasted m)"

definition add_response :: "dark_pool_response \<Rightarrow> ioi_machine \<Rightarrow> (ioi_error + unit) \<times> ioi_machine" where
  "add_response r m =
     (if get_ioi_state m \<noteq> Broadcasted then
        (Inl (InvalidIoiTransition (get_ioi_state m) ResponsesReceived), m)
      else if dr_available_qty r < io_min_qty (im_ioi m) then (Inl SizeExceeded, m)
      else (Inr (), m\<lparr>im_responses := im_responses m @ [r]\<rparr>))"

definition finalize_responses :: "nat \<Rightarrow> ioi_machine \<Rightarrow> (ioi_error + unit) \<times> ioi_machine" where
  "finalize_responses epoch m =
     (if im_responses m = [] then (Inl (InvalidIoiTransition (get_ioi_state m) ResponsesReceived), m)
      else ioi_transition epoch ResponsesReceived m)"

definition nth_option :: "'a list \<Rightarrow> nat \<Rightarrow> 'a option" where
  "nth_option xs i = (if i < length xs then Some (xs ! i) else None)"

definition evaluate_improvement :: "nat \<Rightarrow> i64 \<Rightarrow> i64 \<Rightarrow> ioi_machine \<Rightarrow> ioi_error + bool" where
  "evaluate_improvement idx lit_best_bid lit_best_ask m =
     (if get_ioi_state m \<noteq> ResponsesReceived then
        Inl (InvalidIoiTransition (get_ioi_state m) EvaluatingImprovement)
      else
        case nth_option (im_responses m) idx of
          None \<Rightarrow> Inl SizeExceeded
        | Some response \<Rightarrow>
            let lit_midpoint = i64_saturating_add lit_best_bid lit_best_ask sdiv 2;
                has_improvement =
                  (case io_side (im_ioi m) of
                     IoiBuy \<Rightarrow> dr_peg_price response <
                       i64_saturating_sub lit_best_ask (io_improvement_required (im_ioi m))
                   | IoiSell \<Rightarrow> dr_peg_price response >
                       i64_saturating_add lit_best_bid (io_improvement_required (im_ioi m))) in
            if \<not> has_improvement then Inl (NoPriceImprovement (dr_peg_price response) lit_midpoint)
            else Inr True)"

definition select_and_execute ::
  "nat \<Rightarrow> nat \<Rightarrow> ioi_machine \<Rightarrow> (ioi_error + dark_pool_response) \<times> ioi_machine" where
  "select_and_execute epoch idx m =
     (case ioi_transition epoch EvaluatingImprovement m of
        (Inl e, m1) \<Rightarrow> (Inl e, m1)
      | (Inr _, m1) \<Rightarrow>
          (case ioi_transition epoch IoiExecuting m1 of
             (Inl e, m2) \<Rightarrow> (Inl e, m2)
           | (Inr _, m2) \<Rightarrow>
               (case nth_option (im_responses m2) idx of
                  None \<Rightarrow> (Inl SizeExceeded, m2)
                | Some r \<Rightarrow> (Inr r, m2))))"

definition ioi_complete :: "nat \<Rightarrow> ioi_machine \<Rightarrow> (ioi_error + unit) \<times> ioi_machine" where
  "ioi_complete epoch m =
     (case ioi_transition epoch IoiCompleted m of
        (Inl e, m1) \<Rightarrow> (Inl e, m1)
      | (Inr u, m1) \<Rightarrow> (Inr u, m1\<lparr>im_is_active := False\<rparr>))"

definition ioi_cancel :: "nat \<Rightarrow> ioi_machine \<Rightarrow> (ioi_error + unit) \<times> ioi_machine" where
  "ioi_cancel epoch m =
     (case ioi_transition epoch IoiCancelled m of
        (Inl e, m1) \<Rightarrow> (Inl e, m1)
      | (Inr u, m1) \<Rightarrow> (Inr u, m1\<lparr>im_is_active := False\<rparr>))"

definition ioi_is_active :: "instant \<Rightarrow> ioi_machine \<Rightarrow> bool" where
  "ioi_is_active now m \<longleftrightarrow> im_is_active m \<and> \<not> ioi_is_expired now m"

definition response_count :: "ioi_machine \<Rightarrow> nat" where
  "response_count m = length (im_responses m)"

text \<open>\<open>Iterator::max_by\<close> returns the last of several maxima.\<close>

fun max_response :: "dark_pool_response \<Rightarrow> dark_pool_response list \<Rightarrow> dark_pool_response" where
  "max_response best [] = best"
| "max_response best (r # rs) =
     max_response (if dr_improvement_offered best \<le> dr_improvement_offered r then r else best) rs"

definition get_best_response :: "ioi_machine \<Rightarrow> dark_pool_response option" where
  "get_best_response m =
     (case im_responses m of [] \<Rightarrow> None | r # rs \<Rightarrow> Some (max_response r rs))"

record ioi_builder =
  ib_ioi_id :: u64
  ib_asset_id :: u32
  ib_side :: ioi_side
  ib_quantity :: i64
  ib_min_qty :: i64
  ib_max_qty :: i64
  ib_peg_offset :: i64
  ib_improvement_required :: i64
  ib_ttl :: nat
  ib_target_dark_pools :: "u32 list"

definition new_ioi_builder :: "u64 \<Rightarrow> u32 \<Rightarrow> ioi_side \<Rightarrow> i64 \<Rightarrow> ioi_builder" where
  "new_ioi_builder i a s q =
     \<lparr>ib_ioi_id = i, ib_asset_id = a, ib_side = s, ib_quantity = q, ib_min_qty = q sdiv 10,
      ib_max_qty = q, ib_peg_offset = 0, ib_improvement_required = 100, ib_ttl = 30 * 10 ^ 9,
      ib_target_dark_pools = []\<rparr>"

definition ioi_build :: "instant \<Rightarrow> ioi_builder \<Rightarrow> indication" where
  "ioi_build now b =
     \<lparr>io_ioi_id = ib_ioi_id b, io_asset_id = ib_asset_id b, io_side = ib_side b,
      io_quantity = ib_quantity b, io_min_qty = ib_min_qty b, io_max_qty = ib_max_qty b,
      io_peg_offset = ib_peg_offset b, io_improvement_required = ib_improvement_required b,
      io_expiry = now + ib_ttl b, io_state = Initializing, io_target_dark_pools = ib_target_dark_pools b\<rparr>"

subsection \<open>What the operations do\<close>

lemma get_ioi_state_code [simp]: "im_state m = ioi_code s \<Longrightarrow> get_ioi_state m = s"
  by (cases s) (simp_all add: get_ioi_state_def ioi_code_def)

lemma ioi_transition_ok:
  assumes "ioi_transition epoch s m = (Inr u, m')"
  shows "ioi_transition_valid (get_ioi_state m) s" "get_ioi_state m' = s" "im_ioi m' = im_ioi m"
    "im_responses m' = im_responses m" "im_is_active m' = im_is_active m"
  using assms by (auto simp: ioi_transition_def Let_def split: if_splits)

lemma ioi_transition_fails: "ioi_transition epoch s m = (Inl e, m') \<Longrightarrow> m' = m"
  by (auto simp: ioi_transition_def Let_def split: if_splits)

inductive ioi_step :: "ioi_machine \<Rightarrow> ioi_machine \<Rightarrow> bool" where
  broadcast: "ioi_step m (snd (ioi_broadcast now epoch m))"
| respond: "ioi_step m (snd (add_response r m))"
| finalize: "ioi_step m (snd (finalize_responses epoch m))"
| execute: "ioi_step m (snd (select_and_execute epoch idx m))"
| complete: "ioi_step m (snd (ioi_complete epoch m))"
| cancel: "ioi_step m (snd (ioi_cancel epoch m))"

definition ioi_inv :: "indication \<Rightarrow> ioi_machine \<Rightarrow> bool" where
  "ioi_inv i m \<longleftrightarrow>
     im_ioi m = i \<and> (\<forall>r\<in>set (im_responses m). io_min_qty i \<le> dr_available_qty r) \<and>
     (get_ioi_state m = Initializing \<longrightarrow> im_responses m = []) \<and>
     (get_ioi_state m \<in> {ResponsesReceived, IoiExecuting, IoiCompleted} \<longrightarrow> im_responses m \<noteq> []) \<and>
     get_ioi_state m \<noteq> EvaluatingImprovement \<and>
     (im_is_active m \<longleftrightarrow> get_ioi_state m \<notin> {IoiCompleted, IoiCancelled})"

lemma select_and_execute_eq:
  "select_and_execute epoch idx m =
     (if get_ioi_state m = ResponsesReceived then
        ((case nth_option (im_responses m) idx of None \<Rightarrow> Inl SizeExceeded | Some r \<Rightarrow> Inr r),
         m\<lparr>im_state := ioi_code IoiExecuting, im_updated_at := word_of_nat (epoch div 1000)\<rparr>)
      else (Inl (InvalidIoiTransition (get_ioi_state m) EvaluatingImprovement), m))"
  by (cases "get_ioi_state m")
    (auto simp: select_and_execute_def ioi_transition_def ioi_transition_valid_def Let_def split: option.split)

lemma ioi_step_inv:
  assumes "ioi_step m m'" "ioi_inv i m"
  shows "ioi_inv i m'"
  using assms
proof cases
  case (execute epoch idx)
  then show ?thesis using assms(2) by (auto simp: select_and_execute_eq ioi_inv_def)
next
  case (respond r)
  then show ?thesis using assms(2) by (auto simp: add_response_def ioi_inv_def get_ioi_state_def)
next
  case (broadcast now epoch)
  then show ?thesis
    using assms(2) by (auto simp: ioi_broadcast_def ioi_transition_def ioi_transition_valid_def ioi_inv_def Let_def)
next
  case (finalize epoch)
  then show ?thesis
    using assms(2) by (auto simp: finalize_responses_def ioi_transition_def ioi_transition_valid_def ioi_inv_def Let_def)
next
  case (complete epoch)
  then show ?thesis
    using assms(2) by (auto simp: ioi_complete_def ioi_transition_def ioi_transition_valid_def ioi_inv_def Let_def
        get_ioi_state_def ioi_code_def split: if_splits)
next
  case (cancel epoch)
  then show ?thesis
    using assms(2) by (auto simp: ioi_cancel_def ioi_transition_def ioi_transition_valid_def ioi_inv_def Let_def
        get_ioi_state_def ioi_code_def split: if_splits)
qed

lemma ioi_reachable_inv: "ioi_step\<^sup>*\<^sup>* (new_ioi_machine now i) m \<Longrightarrow> ioi_inv i m"
proof (induction rule: rtranclp_induct)
  case base
  show ?case by (simp add: ioi_inv_def new_ioi_machine_def get_ioi_state_def ioi_code_def)
next
  case (step m m')
  then show ?case by (blast intro: ioi_step_inv)
qed

text \<open>A terminated machine never changes again.\<close>

lemma ioi_terminated_stays:
  assumes "ioi_step m m'" "get_ioi_state m \<in> {IoiCompleted, IoiCancelled}"
  shows "m' = m"
  using assms
  by cases (auto simp: ioi_broadcast_def add_response_def finalize_responses_def select_and_execute_eq
      ioi_complete_def ioi_cancel_def ioi_transition_def ioi_transition_valid_def Let_def split: if_splits)

text \<open>In every history of an indication of interest, execution and completion are reached only after
  a response was collected, every collected response offers at least the minimum quantity, the state
  of evaluation is never observed between two calls, and the indication counts as active exactly
  until it is completed or cancelled, after which no call changes it.\<close>

lemma ioi_lifecycle:
  assumes "ioi_step\<^sup>*\<^sup>* (new_ioi_machine now i) m"
  shows "(get_ioi_state m \<in> {ResponsesReceived, IoiExecuting, IoiCompleted} \<longrightarrow> im_responses m \<noteq> []) \<and>
    (\<forall>r\<in>set (im_responses m). io_min_qty i \<le> dr_available_qty r) \<and>
    get_ioi_state m \<noteq> EvaluatingImprovement \<and>
    (im_is_active m \<longleftrightarrow> get_ioi_state m \<notin> {IoiCompleted, IoiCancelled}) \<and>
    (\<not> im_is_active m \<longrightarrow> (\<forall>m'. ioi_step m m' \<longrightarrow> m' = m))"
proof -
  have inv: "ioi_inv i m" by (rule ioi_reachable_inv) (rule assms)
  then have "\<not> im_is_active m \<longrightarrow> (\<forall>m'. ioi_step m m' \<longrightarrow> m' = m)"
    using ioi_terminated_stays [of m] unfolding ioi_inv_def by blast
  with inv show ?thesis unfolding ioi_inv_def by blast
qed

definition example_indication :: indication where
  "example_indication = ioi_build 0 (new_ioi_builder 1 100 IoiBuy 10000)"

definition example_response :: dark_pool_response where
  "example_response =
     \<lparr>dr_dark_pool_id = 1, dr_available_qty = 5000, dr_peg_price = 50000000, dr_improvement_offered = 75,
      dr_conditional_order_id = 100, dr_expiry = 10\<rparr>"

definition example_execution :: ioi_machine where
  "example_execution =
     snd (select_and_execute 3000 0 (snd (finalize_responses 2000 (snd (add_response example_response
       (snd (ioi_broadcast 1 1000 (new_ioi_machine 0 example_indication))))))))"

lemma example_execution_reachable: "ioi_step\<^sup>*\<^sup>* (new_ioi_machine 0 example_indication) example_execution"
  unfolding example_execution_def
  by (rule rtranclp.rtrancl_into_rtrancl, rule rtranclp.rtrancl_into_rtrancl,
      rule rtranclp.rtrancl_into_rtrancl, rule rtranclp.rtrancl_into_rtrancl, rule rtranclp.rtrancl_refl,
      rule ioi_step.broadcast, rule ioi_step.respond, rule ioi_step.finalize, rule ioi_step.execute)

lemma ioi_lifecycle_example: "im_is_active example_execution \<and> im_responses example_execution = [example_response]"
proof -
  have "get_ioi_state example_execution = IoiExecuting" "im_responses example_execution = [example_response]"
    by (simp_all add: example_execution_def select_and_execute_eq finalize_responses_def add_response_def
        ioi_broadcast_def ioi_transition_def ioi_transition_valid_def ioi_is_expired_def Let_def
        new_ioi_machine_def example_indication_def ioi_build_def new_ioi_builder_def example_response_def
        get_ioi_state_def ioi_code_def sdiv_nonneg)
  then show ?thesis
    using ioi_lifecycle [OF example_execution_reachable] by simp
qed

text \<open>
  The selection does not look at the price: whatever \<open>evaluate_improvement\<close> answers, a collected response
  is executed; and an index out of range is an error that leaves the machine executing.
\<close>

lemma executes_without_improvement:
  assumes "evaluate_improvement idx bid ask m = Inl (NoPriceImprovement p n)"
  shows "fst (select_and_execute epoch idx m) = Inr (im_responses m ! idx)"
  using assms
  by (auto simp: evaluate_improvement_def select_and_execute_eq nth_option_def Let_def
      split: if_splits option.splits)

lemma bad_index_leaves_executing:
  "get_ioi_state m = ResponsesReceived \<Longrightarrow> length (im_responses m) \<le> idx \<Longrightarrow>
   fst (select_and_execute epoch idx m) = Inl SizeExceeded \<and>
   get_ioi_state (snd (select_and_execute epoch idx m)) = IoiExecuting"
  by (simp add: select_and_execute_eq nth_option_def)

lemma max_response_spec:
  "max_response b rs \<in> set (b # rs) \<and>
   (\<forall>r\<in>set (b # rs). dr_improvement_offered r \<le> dr_improvement_offered (max_response b rs))"
proof (induction b rs rule: max_response.induct)
  case (2 b r rs)
  then show ?case by (auto split: if_splits)
qed simp

lemma get_best_response_spec:
  "get_best_response m = Some r \<Longrightarrow>
   r \<in> set (im_responses m) \<and>
   (\<forall>s\<in>set (im_responses m). dr_improvement_offered s \<le> dr_improvement_offered r)"
  using max_response_spec by (auto simp: get_best_response_def split: list.splits)

section \<open>Pegged orders\<close>

text \<open>The first error is constructed nowhere.\<close>

datatype pegging_error =
  InvalidOffset string | StaleNBBO u64 u64 | CrossedMarket i64 i64 | ImprovementNotAchievable
  | PegPriceOutOfRange

record nbbo =
  nb_best_bid :: i64
  nb_best_ask :: i64
  nb_bid_size :: i64
  nb_ask_size :: i64
  nb_timestamp_ns :: u64

definition new_nbbo :: "nat \<Rightarrow> i64 \<Rightarrow> i64 \<Rightarrow> i64 \<Rightarrow> i64 \<Rightarrow> nbbo" where
  "new_nbbo epoch bid ask bid_size ask_size =
     \<lparr>nb_best_bid = bid, nb_best_ask = ask, nb_bid_size = bid_size, nb_ask_size = ask_size,
      nb_timestamp_ns = word_of_nat epoch\<rparr>"

definition nbbo_midpoint :: "nbbo \<Rightarrow> i64" where
  "nbbo_midpoint n = i64_saturating_add (nb_best_bid n) (nb_best_ask n) sdiv 2"

definition nbbo_spread :: "nbbo \<Rightarrow> i64" where
  "nbbo_spread n = i64_saturating_sub (nb_best_ask n) (nb_best_bid n)"

definition nbbo_is_valid :: "nbbo \<Rightarrow> bool" where
  "nbbo_is_valid n \<longleftrightarrow> nb_best_bid n < nb_best_ask n \<and> nb_best_bid n > 0 \<and> nb_best_ask n > 0"

definition nbbo_age_ms :: "nat \<Rightarrow> nbbo \<Rightarrow> u64" where
  "nbbo_age_ms epoch n =
     (let now_ns = word_of_nat epoch; age_ns = saturating_sub now_ns (nb_timestamp_ns n) in
      age_ns div 1000000)"

definition nbbo_is_fresh :: "nat \<Rightarrow> u64 \<Rightarrow> nbbo \<Rightarrow> bool" where
  "nbbo_is_fresh epoch max_age_ms n \<longleftrightarrow>
     (let now_ns = word_of_nat epoch; age_ns = saturating_sub now_ns (nb_timestamp_ns n);
          age_ms = age_ns div 1000000 in
      age_ms \<le> max_age_ms)"

datatype peg_type = PegMidpoint | PegPrimary | PegOpposite | PegFixed

datatype peg_side = PegBuy | PegSell

record peg_config =
  pc_peg_type :: peg_type
  pc_side :: peg_side
  pc_quantity :: i64
  pc_peg_offset :: i64
  pc_limit_price :: "i64 option"
  pc_min_improvement :: i64
  pc_max_age_ms :: u64

record peg_result =
  pr_peg_price :: i64
  pr_reference_price :: i64
  pr_improvement_over_lit :: i64
  pr_meets_limit :: bool
  pr_meets_improvement :: bool

record peg_engine =
  pe_current_nbbo :: "u32 \<rightharpoonup> nbbo"
  pe_default_max_age_ms :: u64
  pe_enabled :: bool

definition new_peg_engine :: peg_engine where
  "new_peg_engine = \<lparr>pe_current_nbbo = Map.empty, pe_default_max_age_ms = 100, pe_enabled = True\<rparr>"

definition update_nbbo :: "u32 \<Rightarrow> nbbo \<Rightarrow> peg_engine \<Rightarrow> (pegging_error + unit) \<times> peg_engine" where
  "update_nbbo asset n e =
     (if \<not> nbbo_is_valid n then (Inl (CrossedMarket (nb_best_bid n) (nb_best_ask n)), e)
      else (Inr (), e\<lparr>pe_current_nbbo := (pe_current_nbbo e)(asset \<mapsto> n)\<rparr>))"

definition get_nbbo :: "u32 \<Rightarrow> peg_engine \<Rightarrow> nbbo option" where
  "get_nbbo asset e = pe_current_nbbo e asset"

text \<open>The age in the error comes from a second clock reading, \<open>later\<close>.\<close>

definition calculate_buy_peg_price ::
  "nat \<Rightarrow> nat \<Rightarrow> u32 \<Rightarrow> peg_config \<Rightarrow> peg_engine \<Rightarrow> pegging_error + peg_result" where
  "calculate_buy_peg_price epoch later asset c e =
     (case get_nbbo asset e of
        None \<Rightarrow> Inl (StaleNBBO (- 1) (pc_max_age_ms c))
      | Some n \<Rightarrow>
          if \<not> nbbo_is_fresh epoch (pc_max_age_ms c) n then
            Inl (StaleNBBO (nbbo_age_ms later n) (pc_max_age_ms c))
          else
            let reference_price =
                  (case pc_peg_type c of
                     PegMidpoint \<Rightarrow> nbbo_midpoint n
                   | PegPrimary \<Rightarrow> nb_best_bid n
                   | PegOpposite \<Rightarrow> nb_best_ask n
                   | PegFixed \<Rightarrow> (case pc_limit_price c of None \<Rightarrow> nbbo_midpoint n | Some l \<Rightarrow> l));
                peg_price = i64_saturating_add reference_price (pc_peg_offset c);
                improvement = i64_saturating_sub (nb_best_ask n) peg_price;
                meets_improvement = (improvement \<ge> pc_min_improvement c);
                adjusted =
                  (if \<not> meets_improvement
                   then i64_saturating_sub (nb_best_ask n) (pc_min_improvement c) else peg_price) in
            if \<not> meets_improvement \<and> adjusted \<le> nb_best_bid n then Inl ImprovementNotAchievable
            else
              let meets_limit = (case pc_limit_price c of None \<Rightarrow> True | Some l \<Rightarrow> adjusted \<le> l) in
              if adjusted \<le> nb_best_bid n \<or> adjusted \<ge> nb_best_ask n then Inl PegPriceOutOfRange
              else Inr \<lparr>pr_peg_price = adjusted, pr_reference_price = reference_price,
                pr_improvement_over_lit = improvement, pr_meets_limit = meets_limit,
                pr_meets_improvement = meets_improvement\<rparr>)"

definition calculate_sell_peg_price ::
  "nat \<Rightarrow> nat \<Rightarrow> u32 \<Rightarrow> peg_config \<Rightarrow> peg_engine \<Rightarrow> pegging_error + peg_result" where
  "calculate_sell_peg_price epoch later asset c e =
     (case get_nbbo asset e of
        None \<Rightarrow> Inl (StaleNBBO (- 1) (pc_max_age_ms c))
      | Some n \<Rightarrow>
          if \<not> nbbo_is_fresh epoch (pc_max_age_ms c) n then
            Inl (StaleNBBO (nbbo_age_ms later n) (pc_max_age_ms c))
          else
            let reference_price =
                  (case pc_peg_type c of
                     PegMidpoint \<Rightarrow> nbbo_midpoint n
                   | PegPrimary \<Rightarrow> nb_best_ask n
                   | PegOpposite \<Rightarrow> nb_best_bid n
                   | PegFixed \<Rightarrow> (case pc_limit_price c of None \<Rightarrow> nbbo_midpoint n | Some l \<Rightarrow> l));
                peg_price = i64_saturating_add reference_price (pc_peg_offset c);
                improvement = i64_saturating_sub peg_price (nb_best_bid n);
                meets_improvement = (improvement \<ge> pc_min_improvement c);
                adjusted =
                  (if \<not> meets_improvement
                   then i64_saturating_add (nb_best_bid n) (pc_min_improvement c) else peg_price) in
            if \<not> meets_improvement \<and> adjusted \<ge> nb_best_ask n then Inl ImprovementNotAchievable
            else
              let meets_limit = (case pc_limit_price c of None \<Rightarrow> True | Some l \<Rightarrow> adjusted \<ge> l) in
              if adjusted \<le> nb_best_bid n \<or> adjusted \<ge> nb_best_ask n then Inl PegPriceOutOfRange
              else Inr \<lparr>pr_peg_price = adjusted, pr_reference_price = reference_price,
                pr_improvement_over_lit = improvement, pr_meets_limit = meets_limit,
                pr_meets_improvement = meets_improvement\<rparr>)"

definition calculate_peg_price ::
  "nat \<Rightarrow> nat \<Rightarrow> u32 \<Rightarrow> peg_config \<Rightarrow> peg_engine \<Rightarrow> pegging_error + peg_result" where
  "calculate_peg_price epoch later asset c e =
     (case pc_side c of
        PegBuy \<Rightarrow> calculate_buy_peg_price epoch later asset c e
      | PegSell \<Rightarrow> calculate_sell_peg_price epoch later asset c e)"

definition set_peg_enabled :: "bool \<Rightarrow> peg_engine \<Rightarrow> peg_engine" where
  "set_peg_enabled b e = e\<lparr>pe_enabled := b\<rparr>"

definition set_max_nbbo_age :: "u64 \<Rightarrow> peg_engine \<Rightarrow> peg_engine" where
  "set_max_nbbo_age a e = e\<lparr>pe_default_max_age_ms := a\<rparr>"

subsection \<open>The pegged price\<close>

datatype peg_call = UpdateNbbo u32 nbbo | SetEnabled bool | SetMaxAge u64

fun peg_step :: "peg_call \<Rightarrow> peg_engine \<Rightarrow> peg_engine" where
  "peg_step (UpdateNbbo a n) e = snd (update_nbbo a n e)"
| "peg_step (SetEnabled b) e = set_peg_enabled b e"
| "peg_step (SetMaxAge a) e = set_max_nbbo_age a e"

definition peg_run :: "peg_call list \<Rightarrow> peg_engine" where
  "peg_run cs = foldl (\<lambda>e c. peg_step c e) new_peg_engine cs"

text \<open>The quotes that callers pass carry \<open>i64\<close> prices.\<close>

definition nbbo_wf :: "nbbo \<Rightarrow> bool" where
  "nbbo_wf n \<longleftrightarrow> in_i64 (nb_best_bid n) \<and> in_i64 (nb_best_ask n)"

definition peg_call_wf :: "peg_call \<Rightarrow> bool" where
  "peg_call_wf c = (case c of UpdateNbbo a n \<Rightarrow> nbbo_wf n | _ \<Rightarrow> True)"

lemma peg_run_valid:
  assumes "get_nbbo a (peg_run cs) = Some n" "\<forall>c\<in>set cs. peg_call_wf c"
  shows "nbbo_is_valid n \<and> nbbo_wf n"
  using assms
proof (induction cs arbitrary: n rule: rev_induct)
  case Nil
  then show ?case by (simp add: peg_run_def get_nbbo_def new_peg_engine_def)
next
  case (snoc c cs)
  then show ?case
    by (cases c)
      (auto simp: peg_run_def get_nbbo_def update_nbbo_def set_peg_enabled_def set_max_nbbo_age_def
        peg_call_wf_def split: if_splits)
qed

definition lit_improvement :: "peg_side \<Rightarrow> nbbo \<Rightarrow> i64 \<Rightarrow> int" where
  "lit_improvement s n p = (case s of PegBuy \<Rightarrow> nb_best_ask n - p | PegSell \<Rightarrow> p - nb_best_bid n)"

lemma buy_peg_price_inside:
  assumes "calculate_buy_peg_price epoch later a c e = Inr r" "get_nbbo a e = Some n"
    "nbbo_is_valid n" "nbbo_wf n"
  shows "nbbo_is_fresh epoch (pc_max_age_ms c) n \<and> nb_best_bid n < pr_peg_price r \<and>
    pr_peg_price r < nb_best_ask n \<and> pc_min_improvement c \<le> nb_best_ask n - pr_peg_price r"
  using assms
  by (auto simp: calculate_buy_peg_price_def Let_def i64_saturating_sub_def i64_clamp_def nbbo_is_valid_def
      nbbo_wf_def in_i64_def min_def max_def split: if_splits)

lemma sell_peg_price_inside:
  assumes "calculate_sell_peg_price epoch later a c e = Inr r" "get_nbbo a e = Some n"
    "nbbo_is_valid n" "nbbo_wf n"
  shows "nbbo_is_fresh epoch (pc_max_age_ms c) n \<and> nb_best_bid n < pr_peg_price r \<and>
    pr_peg_price r < nb_best_ask n \<and> pc_min_improvement c \<le> pr_peg_price r - nb_best_bid n"
  using assms
  by (auto simp: calculate_sell_peg_price_def Let_def i64_saturating_sub_def i64_saturating_add_def
      i64_clamp_def nbbo_is_valid_def nbbo_wf_def in_i64_def min_def max_def split: if_splits)

text \<open>C22. After any sequence of calls on the engine, a pegged price that it returns lies strictly between
  the best bid and the best ask of a fresh quote, and improves on the lit market by at least the
  required amount: against the ask for a purchase, against the bid for a sale.\<close>

theorem peg_price_inside_spread:
  assumes "\<forall>k\<in>set cs. peg_call_wf k" "calculate_peg_price epoch later a c (peg_run cs) = Inr r"
  shows "\<exists>n. get_nbbo a (peg_run cs) = Some n \<and> nbbo_is_fresh epoch (pc_max_age_ms c) n \<and>
    nb_best_bid n < pr_peg_price r \<and> pr_peg_price r < nb_best_ask n \<and>
    pc_min_improvement c \<le> lit_improvement (pc_side c) n (pr_peg_price r)"
proof (cases "get_nbbo a (peg_run cs)")
  case None
  then show ?thesis
    using assms(2)
    by (simp add: calculate_peg_price_def calculate_buy_peg_price_def calculate_sell_peg_price_def
        split: peg_side.splits)
next
  case (Some n)
  then show ?thesis
    using assms(2) peg_run_valid [OF Some assms(1)]
      buy_peg_price_inside [of epoch later a c "peg_run cs" r n]
      sell_peg_price_inside [of epoch later a c "peg_run cs" r n]
    by (simp add: calculate_peg_price_def lit_improvement_def split: peg_side.splits)
qed

definition example_nbbo :: nbbo where
  "example_nbbo = new_nbbo 0 100000000 100000100 1000 1000"

definition example_peg :: "peg_side \<Rightarrow> int \<Rightarrow> int \<Rightarrow> peg_config" where
  "example_peg s offset improvement =
     \<lparr>pc_peg_type = PegMidpoint, pc_side = s, pc_quantity = 1000, pc_peg_offset = offset,
      pc_limit_price = Some 100000000, pc_min_improvement = improvement, pc_max_age_ms = 100\<rparr>"

theorem peg_price_inside_spread_witness:
  "100000000 < (100000040 :: int) \<and> (100000040 :: int) < 100000100 \<and>
   calculate_peg_price 0 0 1 (example_peg PegBuy (- 10) 5) (peg_run [UpdateNbbo 1 example_nbbo]) =
     Inr \<lparr>pr_peg_price = 100000040, pr_reference_price = 100000050, pr_improvement_over_lit = 60,
       pr_meets_limit = False, pr_meets_improvement = True\<rparr>"
proof -
  have c: "calculate_peg_price 0 0 1 (example_peg PegBuy (- 10) 5) (peg_run [UpdateNbbo 1 example_nbbo]) =
     Inr \<lparr>pr_peg_price = 100000040, pr_reference_price = 100000050, pr_improvement_over_lit = 60,
       pr_meets_limit = False, pr_meets_improvement = True\<rparr>"
    by (simp add: calculate_peg_price_def calculate_buy_peg_price_def example_peg_def peg_run_def
        update_nbbo_def get_nbbo_def new_peg_engine_def example_nbbo_def new_nbbo_def nbbo_is_valid_def
        nbbo_is_fresh_def saturating_sub_def nbbo_midpoint_def i64_saturating_add_def i64_saturating_sub_def
        i64_clamp_def sdiv_nonneg)
  have "\<forall>k\<in>set [UpdateNbbo 1 example_nbbo]. peg_call_wf k"
    by (simp add: peg_call_wf_def nbbo_wf_def example_nbbo_def new_nbbo_def in_i64_def)
  from peg_price_inside_spread [OF this c] c show ?thesis by simp
qed

text \<open>
  A purchase at the midpoint is priced whenever the sum of the prices fits, the spread is at least two
  units and the required improvement at most half of it.
\<close>

lemma midpoint_buy_succeeds:
  assumes n: "get_nbbo a e = Some n" "nbbo_is_valid n" "nbbo_wf n" "nbbo_is_fresh epoch (pc_max_age_ms c) n"
    and fit: "in_i64 (nb_best_bid n + nb_best_ask n)"
    and c: "pc_peg_type c = PegMidpoint" "pc_peg_offset c = 0"
    and w: "nb_best_bid n + 2 \<le> nb_best_ask n" "2 * pc_min_improvement c \<le> nb_best_ask n - nb_best_bid n"
  shows "\<exists>r. calculate_buy_peg_price epoch later a c e = Inr r \<and>
    pr_peg_price r = (nb_best_bid n + nb_best_ask n) div 2"
proof -
  let ?m = "(nb_best_bid n + nb_best_ask n) div 2"
  have m: "nbbo_midpoint n = ?m"
    using n(2) fit by (simp add: nbbo_midpoint_def i64_saturating_add_def i64_clamp_id sdiv_nonneg nbbo_is_valid_def)
  have in_m: "nb_best_bid n < ?m" "?m < nb_best_ask n" "pc_min_improvement c \<le> nb_best_ask n - ?m"
    using w by linarith+
  have r: "in_i64 ?m" "in_i64 (nb_best_ask n - ?m)"
    using in_m n(2,3) by (auto simp: in_i64_def nbbo_is_valid_def nbbo_wf_def)
  show ?thesis
    using n in_m by (simp add: calculate_buy_peg_price_def c m Let_def i64_saturating_add_def
        i64_saturating_sub_def i64_clamp_id r)
qed

text \<open>The limit price only sets a flag, and the switch of the engine and its default age are not read.\<close>

lemma peg_ignores_switch:
  "calculate_peg_price epoch later a c (set_peg_enabled b e) = calculate_peg_price epoch later a c e"
  "calculate_peg_price epoch later a c (set_max_nbbo_age g e) = calculate_peg_price epoch later a c e"
  by (simp_all add: calculate_peg_price_def calculate_buy_peg_price_def calculate_sell_peg_price_def
      get_nbbo_def set_peg_enabled_def set_max_nbbo_age_def split: peg_side.split)

end
