(* ===== verification/Telemetry_Frame.thy ===== *)
theory Telemetry_Frame
  imports Nexus_Prelude
begin

text \<open>
  The binary frames of the telemetry stream, \<open>crates/nexus_telemetry/src/broadcast/binary_schema_registry.rs\<close>:
  message types, the frame header with its two conversions, and the registry of message schemas.  The
  function that prints the documentation of the schemas is left out.
\<close>

section \<open>Message types\<close>

definition PROTOCOL_VERSION :: u32 where "PROTOCOL_VERSION = 1"

text \<open>The letters N, E, T and L.\<close>

definition PROTOCOL_MAGIC :: "u8 list" where "PROTOCOL_MAGIC = [78, 69, 84, 76]"

datatype message_type =
  TelemetryFrame | OrderBookDelta | TradeNotification | AlphaSignal | PnLUpdate | SystemHealth
  | ControlMessage | Acknowledgment | ErrorResponse | SchemaNegotiation | SchemaNegotiationResponse

definition message_code :: "message_type \<Rightarrow> u8" where
  "message_code t =
     (case t of TelemetryFrame \<Rightarrow> 1 | OrderBookDelta \<Rightarrow> 2 | TradeNotification \<Rightarrow> 3 | AlphaSignal \<Rightarrow> 4
      | PnLUpdate \<Rightarrow> 5 | SystemHealth \<Rightarrow> 6 | ControlMessage \<Rightarrow> 16 | Acknowledgment \<Rightarrow> 32
      | ErrorResponse \<Rightarrow> 33 | SchemaNegotiation \<Rightarrow> 254 | SchemaNegotiationResponse \<Rightarrow> 255)"

definition message_from_u8 :: "u8 \<Rightarrow> message_type option" where
  "message_from_u8 v =
     (if v = 1 then Some TelemetryFrame else if v = 2 then Some OrderBookDelta
      else if v = 3 then Some TradeNotification else if v = 4 then Some AlphaSignal
      else if v = 5 then Some PnLUpdate else if v = 6 then Some SystemHealth
      else if v = 16 then Some ControlMessage else if v = 32 then Some Acknowledgment
      else if v = 33 then Some ErrorResponse else if v = 254 then Some SchemaNegotiation
      else if v = 255 then Some SchemaNegotiationResponse else None)"

lemma message_from_u8_iff: "message_from_u8 v = Some t \<longleftrightarrow> v = message_code t"
  by (cases t) (auto simp: message_from_u8_def message_code_def split: if_splits)

section \<open>The frame header\<close>

datatype schema_error =
  InvalidHeaderLength nat | InvalidMagic "u8 list" | UnknownMessageType u8 | UnsupportedVersion u8
  | SchemaNotFound message_type u32

record frame_header =
  fh_magic :: "u8 list"
  fh_version :: u8
  fh_message_type :: message_type
  fh_payload_length :: u16

definition HEADER_SIZE :: nat where "HEADER_SIZE = 8"

definition new_frame_header :: "message_type \<Rightarrow> u16 \<Rightarrow> frame_header" where
  "new_frame_header t n =
     \<lparr>fh_magic = PROTOCOL_MAGIC, fh_version = ucast PROTOCOL_VERSION, fh_message_type = t,
      fh_payload_length = n\<rparr>"

definition header_to_bytes :: "frame_header \<Rightarrow> u8 list" where
  "header_to_bytes h =
     fh_magic h @ [fh_version h, message_code (fh_message_type h)] @ be16_bytes (fh_payload_length h)"

definition header_from_bytes :: "u8 list \<Rightarrow> schema_error + frame_header" where
  "header_from_bytes bytes =
     (if length bytes < HEADER_SIZE then Inl (InvalidHeaderLength (length bytes))
      else
        let magic = [bytes ! 0, bytes ! 1, bytes ! 2, bytes ! 3] in
        if magic \<noteq> PROTOCOL_MAGIC then Inl (InvalidMagic magic)
        else
          let version = bytes ! 4 in
          case message_from_u8 (bytes ! 5) of
            None \<Rightarrow> Inl (UnknownMessageType (bytes ! 5))
          | Some t \<Rightarrow>
              Inr \<lparr>fh_magic = magic, fh_version = version, fh_message_type = t,
                fh_payload_length = be16 (bytes ! 6) (bytes ! 7)\<rparr>)"

lemma eight_bytes:
  assumes "8 \<le> length bs"
  obtains a b c d e f g h rest where "bs = [a, b, c, d, e, f, g, h] @ rest"
proof -
  have "take 8 bs @ drop 8 bs = bs" by simp
  moreover have "\<exists>a b c d e f g h. take 8 bs = [a, b, c, d, e, f, g, h]"
  proof -
    have "length (take 8 bs) = Suc (Suc (Suc (Suc (Suc (Suc (Suc (Suc 0)))))))" using assms by simp
    then show ?thesis unfolding length_Suc_conv length_0_conv by blast
  qed
  ultimately show ?thesis using that by metis
qed

text \<open>A frame header is read from a byte sequence exactly if the sequence starts with the bytes of
  that header, and the header carries the magic of the protocol: writing and reading are inverse to
  each other, and nothing else is accepted.\<close>

theorem header_read_iff_written:
  "header_from_bytes bs = Inr h \<longleftrightarrow>
     fh_magic h = PROTOCOL_MAGIC \<and> (\<exists>rest. bs = header_to_bytes h @ rest)"
proof
  assume r: "header_from_bytes bs = Inr h"
  then have "8 \<le> length bs" by (auto simp: header_from_bytes_def HEADER_SIZE_def split: if_splits)
  then obtain a b c d e f g i rest where bs: "bs = [a, b, c, d, e, f, g, i] @ rest" by (rule eight_bytes)
  then show "fh_magic h = PROTOCOL_MAGIC \<and> (\<exists>rest. bs = header_to_bytes h @ rest)"
    using r by (auto simp: header_from_bytes_def header_to_bytes_def HEADER_SIZE_def Let_def message_from_u8_iff
        PROTOCOL_MAGIC_def split: if_splits option.splits)
next
  assume "fh_magic h = PROTOCOL_MAGIC \<and> (\<exists>rest. bs = header_to_bytes h @ rest)"
  then obtain rest where h: "fh_magic h = PROTOCOL_MAGIC" "bs = header_to_bytes h @ rest" by blast
  have "message_from_u8 (message_code (fh_message_type h)) = Some (fh_message_type h)"
    by (simp add: message_from_u8_iff)
  then show "header_from_bytes bs = Inr h"
    by (cases h) (use h in \<open>simp add: header_from_bytes_def header_to_bytes_def HEADER_SIZE_def PROTOCOL_MAGIC_def
        be16_bytes_def\<close>)
qed

text \<open>The version is read and not compared: a header of any version is accepted.\<close>

lemma any_version_accepted:
  "header_from_bytes (PROTOCOL_MAGIC @ [v, 1, 0, 0]) =
     Inr \<lparr>fh_magic = PROTOCOL_MAGIC, fh_version = v, fh_message_type = TelemetryFrame, fh_payload_length = 0\<rparr>"
  by (simp add: header_read_iff_written [symmetric] header_from_bytes_def HEADER_SIZE_def PROTOCOL_MAGIC_def
      message_from_u8_def be16_def)

section \<open>The schema registry\<close>

record schema_field =
  sf_name :: string
  sf_field_type :: string
  sf_required :: bool
  sf_description :: string

record message_schema =
  ms_message_type :: message_type
  ms_version :: u32
  ms_fields :: "schema_field list"

record schema_registry =
  sr_schemas :: "message_type \<times> u32 \<rightharpoonup> message_schema"
  sr_current_versions :: "message_type \<rightharpoonup> u32"

definition register_schema :: "message_schema \<Rightarrow> schema_registry \<Rightarrow> schema_registry" where
  "register_schema s r =
     (let r1 = r\<lparr>sr_schemas := (sr_schemas r)((ms_message_type s, ms_version s) \<mapsto> s)\<rparr> in
      r1\<lparr>sr_current_versions := (sr_current_versions r1)(ms_message_type s \<mapsto>
           (case sr_current_versions r1 (ms_message_type s) of
              Some v \<Rightarrow> max v (ms_version s)
            | None \<Rightarrow> ms_version s))\<rparr>)"

definition required_field :: "string \<Rightarrow> string \<Rightarrow> string \<Rightarrow> schema_field" where
  "required_field n t d = \<lparr>sf_name = n, sf_field_type = t, sf_required = True, sf_description = d\<rparr>"

definition telemetry_schema :: message_schema where
  "telemetry_schema =
     \<lparr>ms_message_type = TelemetryFrame, ms_version = 1, ms_fields =
       [required_field ''timestamp_ns'' ''u64'' ''Timestamp in nanoseconds since epoch'',
        required_field ''symbol'' ''[u8; 8]'' ''Symbol identifier (8 bytes, space-padded)'',
        required_field ''bids'' ''Vec<(i64, u64)>'' ''Bid price levels (price, volume)'',
        required_field ''asks'' ''Vec<(i64, u64)>'' ''Ask price levels (price, volume)'',
        required_field ''trades'' ''Vec<(i64, u64, u8)>'' ''Recent trades (price, volume, side)'',
        required_field ''health'' ''SystemHealth'' ''System health metrics'']\<rparr>"

definition health_schema :: message_schema where
  "health_schema =
     \<lparr>ms_message_type = SystemHealth, ms_version = 1, ms_fields =
       [required_field ''latency_us'' ''u32'' ''Latency in microseconds'',
        required_field ''ops'' ''u64'' ''Orders per second'',
        required_field ''pnl_cents'' ''i64'' ''Total PnL in cents'',
        required_field ''active_strategies'' ''u8'' ''Number of active strategies'',
        required_field ''memory_mb'' ''u32'' ''Memory usage in MB'']\<rparr>"

definition register_default_schemas :: "schema_registry \<Rightarrow> schema_registry" where
  "register_default_schemas r = register_schema health_schema (register_schema telemetry_schema r)"

definition new_schema_registry :: schema_registry where
  "new_schema_registry =
     register_default_schemas \<lparr>sr_schemas = Map.empty, sr_current_versions = Map.empty\<rparr>"

definition get_schema :: "message_type \<Rightarrow> u32 \<Rightarrow> schema_registry \<Rightarrow> message_schema option" where
  "get_schema t v r = sr_schemas r (t, v)"

definition get_current_version :: "message_type \<Rightarrow> schema_registry \<Rightarrow> u32" where
  "get_current_version t r = (case sr_current_versions r t of None \<Rightarrow> 1 | Some v \<Rightarrow> v)"

definition registry_of :: "message_schema list \<Rightarrow> schema_registry" where
  "registry_of ss = foldl (\<lambda>r s. register_schema s r) new_schema_registry ss"

definition registry_inv :: "schema_registry \<Rightarrow> message_type \<Rightarrow> bool" where
  "registry_inv r t \<longleftrightarrow>
     (\<forall>v s. sr_schemas r (t, v) = Some s \<longrightarrow> ms_message_type s = t \<and> ms_version s = v) \<and>
     (case sr_current_versions r t of
        None \<Rightarrow> \<forall>v. sr_schemas r (t, v) = None
      | Some c \<Rightarrow> sr_schemas r (t, c) \<noteq> None \<and> (\<forall>v. sr_schemas r (t, v) \<noteq> None \<longrightarrow> v \<le> c))"

lemma register_schema_fields [frame_simps]:
  "sr_schemas (register_schema s r) = (sr_schemas r)((ms_message_type s, ms_version s) \<mapsto> s)"
  "sr_current_versions (register_schema s r) t =
     (if t = ms_message_type s
      then Some (case sr_current_versions r t of Some v \<Rightarrow> max v (ms_version s) | None \<Rightarrow> ms_version s)
      else sr_current_versions r t)"
  by (simp_all add: register_schema_def Let_def)

lemma register_schema_inv:
  assumes "registry_inv r t"
  shows "registry_inv (register_schema s r) t"
proof (cases "t = ms_message_type s")
  case False
  then show ?thesis
    using assms by (cases "sr_current_versions r t") (simp_all add: registry_inv_def register_schema_fields)
next
  case True
  show ?thesis
  proof (cases "sr_current_versions r t")
    case None
    then have "sr_schemas r (t, v) = None" for v using assms by (simp add: registry_inv_def)
    then show ?thesis
      using True None by (simp add: registry_inv_def register_schema_fields)
  next
    case (Some c)
    then have old: "sr_schemas r (t, c) \<noteq> None" "\<And>v. sr_schemas r (t, v) \<noteq> None \<Longrightarrow> v \<le> c"
      "\<And>v u. sr_schemas r (t, v) = Some u \<Longrightarrow> ms_message_type u = t \<and> ms_version u = v"
      using assms by (simp_all add: registry_inv_def)
    have c: "sr_current_versions (register_schema s r) t = Some (max c (ms_version s))"
      using True Some by (simp add: register_schema_fields)
    show ?thesis
      unfolding registry_inv_def c option.case register_schema_fields(1)
    proof (intro conjI allI impI)
      show "ms_message_type u = t" "ms_version u = v"
        if "((sr_schemas r)((ms_message_type s, ms_version s) \<mapsto> s)) (t, v) = Some u" for v u
        using that old(3) [of v u] unfolding True by (auto simp: fun_upd_apply split: if_splits)
      show "((sr_schemas r)((ms_message_type s, ms_version s) \<mapsto> s)) (t, max c (ms_version s)) \<noteq> None"
        using old(1) unfolding True by (simp add: max_def)
      show "v \<le> max c (ms_version s)"
        if "((sr_schemas r)((ms_message_type s, ms_version s) \<mapsto> s)) (t, v) \<noteq> None" for v
        using that old(2) [of v] by (simp add: le_max_iff_disj split: if_splits)
    qed
  qed
qed

text \<open>However schemas are registered, the current version of a type with a schema is the greatest
  version registered for it, and its schema can be looked up.\<close>

lemma current_version_is_greatest:
  assumes "get_schema t v (registry_of ss) = Some s"
  shows "v \<le> get_current_version t (registry_of ss)"
    "get_schema t (get_current_version t (registry_of ss)) (registry_of ss) \<noteq> None"
    "ms_message_type s = t" "ms_version s = v"
proof -
  have "registry_inv \<lparr>sr_schemas = Map.empty, sr_current_versions = Map.empty\<rparr> t"
    by (simp add: registry_inv_def)
  then have "registry_inv new_schema_registry t"
    by (simp add: new_schema_registry_def register_default_schemas_def register_schema_inv)
  then have inv: "registry_inv (registry_of ss) t"
    unfolding registry_of_def by (induction ss rule: rev_induct) (simp_all add: register_schema_inv)
  then obtain c where c: "sr_current_versions (registry_of ss) t = Some c"
    using assms by (cases "sr_current_versions (registry_of ss) t") (auto simp: registry_inv_def get_schema_def)
  show "v \<le> get_current_version t (registry_of ss)"
    "get_schema t (get_current_version t (registry_of ss)) (registry_of ss) \<noteq> None"
    "ms_message_type s = t" "ms_version s = v"
    using inv assms by (simp_all add: registry_inv_def get_schema_def get_current_version_def c)
qed

end
