(* ===== verification/Client_Guillotine.thy ===== *)
theory Client_Guillotine
  imports Nexus_Prelude
begin

text \<open>
  The disconnection of slow telemetry clients,
  \<open>crates/nexus_telemetry/src/backpressure/slow_client_guillotine.rs\<close>.  The clients are a map, and every
  operation holds its lock.  A call that reads the clock several times takes a function \<open>clk\<close> from the
  number of the reading to the instant; \<open>Instant::elapsed\<close> saturates at zero, as subtraction does here.
\<close>

section \<open>State\<close>

record guillotine_config =
  gc_max_consecutive_failures :: nat
  gc_grace_period :: nat
  gc_max_unresponsive_time :: nat
  gc_max_pending_messages :: nat

definition default_guillotine_config :: guillotine_config where
  "default_guillotine_config =
     \<lparr>gc_max_consecutive_failures = 10, gc_grace_period = 100 * 10 ^ 6,
      gc_max_unresponsive_time = 5 * 10 ^ 9, gc_max_pending_messages = 2048\<rparr>"

record client_stats =
  cs_total_sent :: u64
  cs_total_dropped :: u64
  cs_consecutive_failures :: nat
  cs_last_send_time :: "instant option"
  cs_first_failure_time :: "instant option"
  cs_connected_at :: instant

datatype disconnect_reason =
  ConsecutiveFailures nat | Unresponsive nat | BufferOverflow nat | ManualDisconnect

record client_state =
  ct_stats :: client_stats
  ct_marked_for_disconnect :: bool
  ct_disconnect_reason :: "disconnect_reason option"

record guillotine =
  gt_config :: guillotine_config
  gt_clients :: "u64 \<rightharpoonup> client_state"
  gt_next_client_id :: u64
  gt_total_disconnections :: u64
  gt_active :: bool

definition new_guillotine :: "guillotine_config \<Rightarrow> guillotine" where
  "new_guillotine c =
     \<lparr>gt_config = c, gt_clients = Map.empty, gt_next_client_id = 1, gt_total_disconnections = 0,
      gt_active = True\<rparr>"

section \<open>Operations\<close>

definition new_client :: "instant \<Rightarrow> client_state" where
  "new_client now =
     \<lparr>ct_stats = \<lparr>cs_total_sent = 0, cs_total_dropped = 0, cs_consecutive_failures = 0,
        cs_last_send_time = None, cs_first_failure_time = None, cs_connected_at = now\<rparr>,
      ct_marked_for_disconnect = False, ct_disconnect_reason = None\<rparr>"

definition register_client :: "instant \<Rightarrow> guillotine \<Rightarrow> u64 \<times> guillotine" where
  "register_client now g =
     (let i = gt_next_client_id g in
      (i, g\<lparr>gt_next_client_id := i + 1, gt_clients := (gt_clients g)(i \<mapsto> new_client now)\<rparr>))"

definition client_success :: "instant \<Rightarrow> client_state \<Rightarrow> client_state" where
  "client_success now c =
     c\<lparr>ct_stats := (ct_stats c)\<lparr>cs_total_sent := cs_total_sent (ct_stats c) + 1,
         cs_consecutive_failures := 0, cs_first_failure_time := None, cs_last_send_time := Some now\<rparr>\<rparr>"

definition record_success :: "instant \<Rightarrow> u64 \<Rightarrow> guillotine \<Rightarrow> guillotine" where
  "record_success now i g =
     (case gt_clients g i of
        None \<Rightarrow> g
      | Some c \<Rightarrow> g\<lparr>gt_clients := (gt_clients g)(i \<mapsto> client_success now c)\<rparr>)"

definition mark_client :: "disconnect_reason \<Rightarrow> client_state \<Rightarrow> client_state" where
  "mark_client r c = c\<lparr>ct_marked_for_disconnect := True, ct_disconnect_reason := Some r\<rparr>"

text \<open>Readings: 0 is \<open>now\<close>, 1 the grace period, 2 the test of unresponsiveness, 3 its report.\<close>

definition client_failure ::
  "guillotine_config \<Rightarrow> (nat \<Rightarrow> instant) \<Rightarrow> client_state \<Rightarrow> bool \<times> client_state" where
  "client_failure cfg clk c =
     (let s = ct_stats c;
          s1 = s\<lparr>cs_total_dropped := cs_total_dropped s + 1,
                 cs_consecutive_failures := cs_consecutive_failures s + 1\<rparr>;
          s2 = (if cs_first_failure_time s1 = None then s1\<lparr>cs_first_failure_time := Some (clk 0)\<rparr> else s1);
          c2 = c\<lparr>ct_stats := s2\<rparr>;
          grace_elapsed = (case cs_first_failure_time s2 of
              None \<Rightarrow> False | Some t \<Rightarrow> clk 1 - t \<ge> gc_grace_period cfg);
          pending = unat (cs_total_dropped s2) in
      if grace_elapsed \<and> cs_consecutive_failures s2 \<ge> gc_max_consecutive_failures cfg then
        (True, mark_client (ConsecutiveFailures (cs_consecutive_failures s2)) c2)
      else if (case cs_last_send_time s2 of
                 None \<Rightarrow> False | Some t \<Rightarrow> clk 2 - t \<ge> gc_max_unresponsive_time cfg) then
        (True, mark_client (Unresponsive (clk 3 - the (cs_last_send_time s2))) c2)
      else if pending \<ge> gc_max_pending_messages cfg then
        (True, mark_client (BufferOverflow pending) c2)
      else (False, c2))"

definition record_failure :: "(nat \<Rightarrow> instant) \<Rightarrow> u64 \<Rightarrow> guillotine \<Rightarrow> bool \<times> guillotine" where
  "record_failure clk i g =
     (if \<not> gt_active g then (True, g)
      else
        case gt_clients g i of
          None \<Rightarrow> (True, g)
        | Some c \<Rightarrow>
            (case client_failure (gt_config g) clk c of
               (b, c') \<Rightarrow> (b, g\<lparr>gt_clients := (gt_clients g)(i \<mapsto> c')\<rparr>)))"

definition should_disconnect :: "u64 \<Rightarrow> guillotine \<Rightarrow> bool" where
  "should_disconnect i g =
     (case gt_clients g i of None \<Rightarrow> True | Some c \<Rightarrow> ct_marked_for_disconnect c)"

definition get_disconnect_reason :: "u64 \<Rightarrow> guillotine \<Rightarrow> disconnect_reason option" where
  "get_disconnect_reason i g =
     (case gt_clients g i of None \<Rightarrow> None | Some c \<Rightarrow> ct_disconnect_reason c)"

definition unregister_client :: "u64 \<Rightarrow> guillotine \<Rightarrow> client_stats option \<times> guillotine" where
  "unregister_client i g =
     (map_option ct_stats (gt_clients g i), g\<lparr>gt_clients := (gt_clients g)(i := None)\<rparr>)"

definition mark_for_disconnect :: "u64 \<Rightarrow> disconnect_reason \<Rightarrow> guillotine \<Rightarrow> guillotine" where
  "mark_for_disconnect i r g =
     (case gt_clients g i of
        None \<Rightarrow> g
      | Some c \<Rightarrow> g\<lparr>gt_clients := (gt_clients g)(i \<mapsto> mark_client r c)\<rparr>)"

definition get_client_stats :: "u64 \<Rightarrow> guillotine \<Rightarrow> client_stats option" where
  "get_client_stats i g = map_option ct_stats (gt_clients g i)"

definition increment_disconnections :: "guillotine \<Rightarrow> guillotine" where
  "increment_disconnections g = g\<lparr>gt_total_disconnections := gt_total_disconnections g + 1\<rparr>"

definition shutdown_guillotine :: "guillotine \<Rightarrow> guillotine" where
  "shutdown_guillotine g =
     g\<lparr>gt_active := False, gt_clients := (\<lambda>i. map_option (mark_client ManualDisconnect) (gt_clients g i))\<rparr>"

text \<open>
  The health check visits the clients in the order of the hash map; each client has clock readings of
  its own, so the order does not matter, and the identifiers form a set.
\<close>

definition client_unresponsive :: "guillotine_config \<Rightarrow> instant \<Rightarrow> client_state \<Rightarrow> bool" where
  "client_unresponsive cfg now c =
     (case cs_last_send_time (ct_stats c) of
        None \<Rightarrow> False | Some t \<Rightarrow> now - t \<ge> gc_max_unresponsive_time cfg)"

definition client_check :: "guillotine_config \<Rightarrow> (nat \<Rightarrow> instant) \<Rightarrow> client_state \<Rightarrow> client_state" where
  "client_check cfg clk c =
     (let c1 = (if client_unresponsive cfg (clk 0) c
                then mark_client (Unresponsive (clk 1 - the (cs_last_send_time (ct_stats c)))) c else c) in
      if cs_consecutive_failures (ct_stats c1) = 0
      then c1\<lparr>ct_stats := (ct_stats c1)\<lparr>cs_first_failure_time := None\<rparr>\<rparr> else c1)"

definition health_check :: "(u64 \<Rightarrow> nat \<Rightarrow> instant) \<Rightarrow> guillotine \<Rightarrow> u64 set \<times> guillotine" where
  "health_check clk g =
     ({i. \<exists>c. gt_clients g i = Some c \<and> client_unresponsive (gt_config g) (clk i 0) c},
      g\<lparr>gt_clients := (\<lambda>i. map_option (client_check (gt_config g) (clk i)) (gt_clients g i))\<rparr>)"

section \<open>Histories of one client\<close>

datatype client_event = Sent instant | Dropped "nat \<Rightarrow> instant" | Checked "nat \<Rightarrow> instant"

fun client_step :: "guillotine_config \<Rightarrow> client_event \<Rightarrow> client_state \<Rightarrow> client_state" where
  "client_step cfg (Sent now) c = client_success now c"
| "client_step cfg (Dropped clk) c = snd (client_failure cfg clk c)"
| "client_step cfg (Checked clk) c = client_check cfg clk c"

definition client_run :: "guillotine_config \<Rightarrow> instant \<Rightarrow> client_event list \<Rightarrow> client_state" where
  "client_run cfg now es = foldl (\<lambda>c e. client_step cfg e c) (new_client now) es"

definition drops :: "client_event list \<Rightarrow> nat" where
  "drops es = length (filter (\<lambda>e. case e of Dropped _ \<Rightarrow> True | _ \<Rightarrow> False) es)"

lemma client_failure_counts [frame_simps]:
  "cs_total_dropped (ct_stats (snd (client_failure cfg clk c))) = cs_total_dropped (ct_stats c) + 1"
  "cs_consecutive_failures (ct_stats (snd (client_failure cfg clk c))) = cs_consecutive_failures (ct_stats c) + 1"
  "cs_last_send_time (ct_stats (snd (client_failure cfg clk c))) = cs_last_send_time (ct_stats c)"
  by (simp_all add: client_failure_def Let_def mark_client_def)

lemma client_failure_marks:
  "ct_marked_for_disconnect (snd (client_failure cfg clk c)) \<longleftrightarrow>
     ct_marked_for_disconnect c \<or> fst (client_failure cfg clk c)"
  by (simp add: client_failure_def Let_def mark_client_def)

lemma client_failure_pending:
  "unat (cs_total_dropped (ct_stats c) + 1) \<ge> gc_max_pending_messages cfg \<Longrightarrow> fst (client_failure cfg clk c)"
  by (simp add: client_failure_def Let_def)

lemma client_step_marks: "ct_marked_for_disconnect c \<Longrightarrow> ct_marked_for_disconnect (client_step cfg e c)"
  by (cases e) (simp_all add: client_success_def client_failure_marks client_check_def Let_def mark_client_def)

lemma client_run_dropped:
  "cs_total_dropped (ct_stats (client_run cfg now es)) = word_of_nat (drops es)"
proof (induction es rule: rev_induct)
  case Nil
  then show ?case by (simp add: client_run_def new_client_def drops_def)
next
  case (snoc e es)
  then show ?case
    by (cases e)
      (simp_all add: client_run_def drops_def client_success_def client_failure_counts client_check_def Let_def
        mark_client_def)
qed

lemma drops_snoc [simp]:
  "drops (es @ [e]) = drops es + (case e of Dropped _ \<Rightarrow> 1 | _ \<Rightarrow> 0)" "drops [] = 0"
  by (simp_all add: drops_def split: client_event.split)

text \<open>The number of pending messages that the guillotine compares with its limit is the number of
  messages ever dropped: once as many sends have failed as the limit allows pending, the client is
  marked for disconnection, whatever sends succeeded in between and however much time passed.\<close>

theorem drops_accumulate:
  assumes "gc_max_pending_messages cfg \<le> drops es" "drops es < 2 ^ 64" "0 < gc_max_pending_messages cfg"
  shows "ct_marked_for_disconnect (client_run cfg now es)"
  using assms
proof (induction es rule: rev_induct)
  case Nil
  then show ?case by simp
next
  case (snoc e es)
  have step: "client_run cfg now (es @ [e]) = client_step cfg e (client_run cfg now es)"
    by (simp add: client_run_def)
  show ?case
  proof (cases "gc_max_pending_messages cfg \<le> drops es")
    case True
    then have "ct_marked_for_disconnect (client_run cfg now es)"
      using snoc.IH snoc.prems by simp
    then show ?thesis unfolding step by (rule client_step_marks)
  next
    case False
    then obtain clk where e: "e = Dropped clk"
      using snoc.prems(1) by (auto split: client_event.splits)
    have "unat (cs_total_dropped (ct_stats (client_run cfg now es)) + 1) = drops (es @ [e])"
    proof -
      have "cs_total_dropped (ct_stats (client_run cfg now es)) + 1 = word_of_nat (drops (es @ [e]))"
        unfolding client_run_dropped by (simp add: e)
      then show ?thesis
        using snoc.prems(2) by (simp only: unsigned_of_nat) (simp add: take_bit_nat_eq_self)
    qed
    then have "fst (client_failure cfg clk (client_run cfg now es))"
      using snoc.prems(1) by (intro client_failure_pending) simp
    then show ?thesis unfolding step unfolding e by (simp add: client_failure_marks)
  qed
qed

text \<open>Half a limit of failures, each followed by a success in the same instant, and once more.\<close>

lemma drops_accumulate_example:
  "ct_marked_for_disconnect
     (client_run (default_guillotine_config\<lparr>gc_max_pending_messages := 2\<rparr>) 0
       [Dropped (\<lambda>_. 1), Sent 1, Dropped (\<lambda>_. 2), Sent 2])"
  by (rule drops_accumulate) (simp_all add: drops_def)

text \<open>
  A failure within the grace period never disconnects for consecutive failures, and a client to which
  nothing was ever sent is never unresponsive, however old its connection is.
\<close>

lemma grace_period_respected:
  assumes "cs_first_failure_time (ct_stats c) = None" "clk 1 - clk 0 < gc_grace_period cfg"
    "client_failure cfg clk c = (True, c')"
  shows "\<not> (\<exists>n. ct_disconnect_reason c' = Some (ConsecutiveFailures n))"
  using assms by (auto simp: client_failure_def Let_def mark_client_def split: if_splits)

lemma silent_client_never_unresponsive:
  assumes "\<forall>e\<in>set es. \<forall>t. e \<noteq> Sent t"
  shows "\<not> client_unresponsive cfg later (client_run cfg now es)"
proof -
  have "cs_last_send_time (ct_stats (client_run cfg now es)) = None"
    using assms
  proof (induction es rule: rev_induct)
    case (snoc e es)
    then show ?case
      by (cases e) (auto simp: client_run_def client_failure_counts client_check_def Let_def mark_client_def)
  qed (simp add: client_run_def new_client_def)
  then show ?thesis by (simp add: client_unresponsive_def)
qed

section \<open>All clients\<close>

text \<open>After a shutdown every client is to be disconnected and every failure is final, also for clients
  that register later; but these are not marked.\<close>

lemma shutdown_disconnects_all:
  "should_disconnect i (shutdown_guillotine g)"
  "fst (record_failure clk i (shutdown_guillotine g))"
  "\<not> should_disconnect (gt_next_client_id g) (snd (register_client now (shutdown_guillotine g)))"
  by (simp_all add: should_disconnect_def shutdown_guillotine_def mark_client_def record_failure_def
      register_client_def Let_def new_client_def split: option.split)

text \<open>The operations on the map act on one client each.\<close>

lemma record_failure_client:
  assumes "gt_active g" "gt_clients g i = Some c"
  shows "fst (record_failure clk i g) = fst (client_failure (gt_config g) clk c)"
    "gt_clients (snd (record_failure clk i g)) = (gt_clients g)(i \<mapsto> snd (client_failure (gt_config g) clk c))"
  using assms by (simp_all add: record_failure_def split: prod.split)

lemma health_check_reports_marked:
  "i \<in> fst (health_check clk g) \<Longrightarrow> should_disconnect i (snd (health_check clk g))"
  by (auto simp: health_check_def should_disconnect_def client_check_def Let_def mark_client_def)

lemma record_failure_true_iff_disconnect:
  assumes "gt_active g" "\<not> should_disconnect i g"
  shows "fst (record_failure clk i g) \<longleftrightarrow> should_disconnect i (snd (record_failure clk i g))"
  using assms record_failure_client [OF assms(1)]
  by (auto simp: should_disconnect_def client_failure_marks split: option.splits)

end
