(* ===== verification/Sor_Engine.thy ===== *)
theory Sor_Engine
  imports Order_Queues
begin

text \<open>
  The smart order router of \<open>crates/nexus_routing/src/sor_engine.rs\<close>: quotes and execution metrics of at
  most eight venues, the choice of one venue for an order, and the split of an order over several.
  Each call holds the read or write locks it needs, so it is one function on the state.
\<close>

section \<open>Venues\<close>

definition MAX_VENUES :: nat where "MAX_VENUES = 8"

record venue_quote =
  vq_venue_id :: u32
  vq_best_bid :: fixed_point
  vq_best_ask :: fixed_point
  vq_best_bid_qty :: fixed_point
  vq_best_ask_qty :: fixed_point
  vq_timestamp_ns :: u64
  vq_is_alive :: bool

definition new_venue_quote :: "u32 \<Rightarrow> venue_quote" where
  "new_venue_quote v =
     \<lparr>vq_venue_id = v, vq_best_bid = from_raw 0, vq_best_ask = from_raw 0, vq_best_bid_qty = from_raw 0,
      vq_best_ask_qty = from_raw 0, vq_timestamp_ns = 0, vq_is_alive = False\<rparr>"

definition quote_mid_price :: "venue_quote \<Rightarrow> fixed_point" where
  "quote_mid_price q =
     (if is_zero (vq_best_bid q) \<or> is_zero (vq_best_ask q) then from_raw 0
      else fp_div (fp_add (vq_best_bid q) (vq_best_ask q)) (from_int 2))"

definition quote_spread :: "venue_quote \<Rightarrow> fixed_point" where
  "quote_spread q =
     (if is_zero (vq_best_ask q) \<or> is_zero (vq_best_bid q) then from_raw 0
      else fp_sub (vq_best_ask q) (vq_best_bid q))"

record venue_metrics =
  vm_rtt_ewma_ns :: u64
  vm_fill_rate :: fixed_point
  vm_rejection_count :: u64
  vm_timeout_count :: u64
  vm_last_update_ns :: u64

definition new_venue_metrics :: venue_metrics where
  "new_venue_metrics =
     \<lparr>vm_rtt_ewma_ns = 1000000, vm_fill_rate = from_fractional 95000000, vm_rejection_count = 0,
      vm_timeout_count = 0, vm_last_update_ns = 0\<rparr>"

record sor_engine =
  se_quotes :: "venue_quote option list"
  se_metrics :: "venue_metrics list"
  se_enabled :: "bool list"
  se_default_venue :: u64
  se_sequence :: u64

definition new_sor_engine :: "u32 \<Rightarrow> sor_engine" where
  "new_sor_engine d =
     \<lparr>se_quotes = map (\<lambda>i. Some (new_venue_quote (word_of_nat i))) [0..<MAX_VENUES],
      se_metrics = replicate MAX_VENUES new_venue_metrics, se_enabled = replicate MAX_VENUES True,
      se_default_venue = ucast d, se_sequence = 0\<rparr>"

definition count_change :: "sor_engine \<Rightarrow> sor_engine" where
  "count_change e = e\<lparr>se_sequence := se_sequence e + 1\<rparr>"

definition update_quote :: "venue_quote \<Rightarrow> sor_engine \<Rightarrow> sor_engine" where
  "update_quote q e =
     (let idx = unat (vq_venue_id q) in
      if idx \<ge> MAX_VENUES then e
      else count_change (e\<lparr>se_quotes := (se_quotes e)[idx := Some q]\<rparr>))"

definition update_rtt :: "u32 \<Rightarrow> u64 \<Rightarrow> fixed_point \<Rightarrow> sor_engine \<Rightarrow> sor_engine" where
  "update_rtt v rtt_ns alpha e =
     (let idx = unat v in
      if idx \<ge> MAX_VENUES then e
      else
        let m = se_metrics e ! idx;
            one_minus_alpha = fp_sub (from_raw SCALE) alpha;
            weighted_sample = s128 (uint rtt_ns * raw alpha) sdiv SCALE;
            weighted_current = s128 (uint (vm_rtt_ewma_ns m) * raw one_minus_alpha) sdiv SCALE;
            new_rtt = max (word_of_int (s128 (weighted_sample + weighted_current))) 1 in
        count_change (e\<lparr>se_metrics :=
          (se_metrics e)[idx := m\<lparr>vm_rtt_ewma_ns := new_rtt, vm_last_update_ns := rtt_ns\<rparr>]\<rparr>))"

definition venue_record_fill :: "u32 \<Rightarrow> sor_engine \<Rightarrow> sor_engine" where
  "venue_record_fill v e =
     (let idx = unat v in
      if idx \<ge> MAX_VENUES then e
      else
        let m = se_metrics e ! idx;
            new_rate = fp_min (fp_add (vm_fill_rate m) (from_fractional 1000000)) (from_raw SCALE) in
        count_change (e\<lparr>se_metrics := (se_metrics e)[idx := m\<lparr>vm_fill_rate := new_rate\<rparr>]\<rparr>))"

definition venue_record_rejection :: "u32 \<Rightarrow> sor_engine \<Rightarrow> sor_engine" where
  "venue_record_rejection v e =
     (let idx = unat v in
      if idx \<ge> MAX_VENUES then e
      else
        let m = (se_metrics e ! idx)\<lparr>vm_rejection_count := vm_rejection_count (se_metrics e ! idx) + 1\<rparr>;
            new_rate = fp_max (fp_sub (vm_fill_rate m) (from_fractional 5000000)) (from_raw 0) in
        count_change (e\<lparr>se_metrics := (se_metrics e)[idx := m\<lparr>vm_fill_rate := new_rate\<rparr>]\<rparr>))"

definition set_venue_enabled :: "u32 \<Rightarrow> bool \<Rightarrow> sor_engine \<Rightarrow> sor_engine" where
  "set_venue_enabled v b e =
     (let idx = unat v in
      if idx < MAX_VENUES then count_change (e\<lparr>se_enabled := (se_enabled e)[idx := b]\<rparr>) else e)"

definition is_venue_enabled :: "u32 \<Rightarrow> sor_engine \<Rightarrow> bool" where
  "is_venue_enabled v e \<longleftrightarrow> unat v < MAX_VENUES \<and> se_enabled e ! unat v"

definition get_default_venue :: "sor_engine \<Rightarrow> u32" where
  "get_default_venue e = ucast (se_default_venue e)"

section \<open>One venue\<close>

definition side_price :: "lf_side \<Rightarrow> venue_quote \<Rightarrow> fixed_point" where
  "side_price s q = (case s of LfBuy \<Rightarrow> vq_best_ask q | LfSell \<Rightarrow> vq_best_bid q)"

definition side_quantity :: "lf_side \<Rightarrow> venue_quote \<Rightarrow> fixed_point" where
  "side_quantity s q = (case s of LfBuy \<Rightarrow> vq_best_ask_qty q | LfSell \<Rightarrow> vq_best_bid_qty q)"

text \<open>The enabled venues with a live quote; the others are skipped.\<close>

definition live_quote :: "sor_engine \<Rightarrow> nat \<Rightarrow> venue_quote option" where
  "live_quote e i =
     (if \<not> se_enabled e ! i then None
      else case se_quotes e ! i of None \<Rightarrow> None | Some q \<Rightarrow> if vq_is_alive q then Some q else None)"

definition venue_score :: "lf_side \<Rightarrow> venue_quote \<Rightarrow> venue_metrics \<Rightarrow> fixed_point" where
  "venue_score s q m =
     (let price = side_price s q;
          price_score = (if is_zero price then from_raw 0 else fp_div (from_raw SCALE) price);
          latency_factor = fp_max (from_raw (sint (vm_rtt_ewma_ns m div 100000))) (from_int 1) in
      fp_div (fp_mul price_score (vm_fill_rate m)) latency_factor)"

fun best_loop ::
  "sor_engine \<Rightarrow> lf_side \<Rightarrow> fixed_point \<Rightarrow> nat list \<Rightarrow>
   u32 option \<times> fixed_point \<times> fixed_point \<Rightarrow> u32 option \<times> fixed_point \<times> fixed_point" where
  "best_loop e s quantity [] acc = acc"
| "best_loop e s quantity (i # is) (best_venue, best_price, best_score) =
     (case live_quote e i of
        None \<Rightarrow> best_loop e s quantity is (best_venue, best_price, best_score)
      | Some q \<Rightarrow>
          let metric = se_metrics e ! i in
          if vm_rtt_ewma_ns metric > 10000000 then
            best_loop e s quantity is (best_venue, best_price, best_score)
          else if raw (side_quantity s q) < raw quantity then
            best_loop e s quantity is (best_venue, best_price, best_score)
          else
            let score = venue_score s q metric in
            if raw score > raw best_score then
              best_loop e s quantity is (Some (vq_venue_id q), side_price s q, score)
            else best_loop e s quantity is (best_venue, best_price, best_score))"

definition find_best_venue :: "lf_side \<Rightarrow> fixed_point \<Rightarrow> sor_engine \<Rightarrow> (u32 \<times> fixed_point) option" where
  "find_best_venue s quantity e =
     (case best_loop e s quantity [0..<MAX_VENUES] (None, from_raw 0, from_raw 0) of
        (best_venue, best_price, _) \<Rightarrow> map_option (\<lambda>v. (v, best_price)) best_venue)"

section \<open>Several venues\<close>

fun split_loop ::
  "sor_engine \<Rightarrow> lf_side \<Rightarrow> nat \<Rightarrow> nat list \<Rightarrow> fixed_point \<Rightarrow> (u32 \<times> fixed_point \<times> fixed_point) list \<Rightarrow>
   (u32 \<times> fixed_point \<times> fixed_point) list" where
  "split_loop e s max_splits [] remaining result = result"
| "split_loop e s max_splits (i # is) remaining result =
     (if length result \<ge> max_splits \<or> is_zero remaining then result
      else
        case live_quote e i of
          None \<Rightarrow> split_loop e s max_splits is remaining result
        | Some q \<Rightarrow>
            let available = side_quantity s q in
            if is_zero available then split_loop e s max_splits is remaining result
            else
              let take_qty = fp_min available remaining in
              if \<not> is_zero take_qty then
                split_loop e s max_splits is (fp_sub remaining take_qty)
                  (result @ [(vq_venue_id q, take_qty, side_price s q)])
              else split_loop e s max_splits is remaining result)"

definition split_order ::
  "lf_side \<Rightarrow> fixed_point \<Rightarrow> nat \<Rightarrow> sor_engine \<Rightarrow> (u32 \<times> fixed_point \<times> fixed_point) list" where
  "split_order s total_qty max_splits e = split_loop e s max_splits [0..<MAX_VENUES] total_qty []"

subsection \<open>The split covers the order as far as the venues allow\<close>

text \<open>What the venues offer, in their order.\<close>

fun offers :: "sor_engine \<Rightarrow> lf_side \<Rightarrow> nat list \<Rightarrow> int list" where
  "offers e s [] = []"
| "offers e s (i # is) =
     (case live_quote e i of
        None \<Rightarrow> offers e s is
      | Some q \<Rightarrow> if is_zero (side_quantity s q) then offers e s is
          else raw (side_quantity s q) # offers e s is)"

definition split_total :: "(u32 \<times> fixed_point \<times> fixed_point) list \<Rightarrow> int" where
  "split_total r = sum_list (map (\<lambda>(v, q, p). raw q) r)"

definition quotes_ok :: "sor_engine \<Rightarrow> bool" where
  "quotes_ok e \<longleftrightarrow>
     (\<forall>i < MAX_VENUES. case live_quote e i of None \<Rightarrow> True | Some q \<Rightarrow>
        0 \<le> raw (vq_best_bid_qty q) \<and> 0 \<le> raw (vq_best_ask_qty q))"

lemma quotes_ok_side:
  "quotes_ok e \<Longrightarrow> i < MAX_VENUES \<Longrightarrow> live_quote e i = Some q \<Longrightarrow> 0 \<le> raw (side_quantity s q)"
  by (cases s) (force simp: quotes_ok_def side_quantity_def)+

lemma offers_nonneg: "quotes_ok e \<Longrightarrow> set is \<subseteq> {..<MAX_VENUES} \<Longrightarrow> x \<in> set (offers e s is) \<Longrightarrow> 0 \<le> x"
  by (induction "is") (auto split: option.splits if_splits intro: quotes_ok_side)

lemma sum_take_offers_nonneg:
  "quotes_ok e \<Longrightarrow> set is \<subseteq> {..<MAX_VENUES} \<Longrightarrow> 0 \<le> sum_list (take k (offers e s is))"
  by (intro sum_list_nonneg) (meson offers_nonneg in_set_takeD)

lemma split_loop_total:
  assumes "quotes_ok e" "set is \<subseteq> {..<MAX_VENUES}" "0 \<le> raw remaining" "in_i64 (raw remaining)"
    "length result \<le> k"
  shows "split_total (split_loop e s k is remaining result) =
           split_total result + min (raw remaining) (sum_list (take (k - length result) (offers e s is))) \<and>
         length (split_loop e s k is remaining result) \<le> k"
  using assms
proof (induction "is" arbitrary: remaining result)
  case Nil
  then show ?case by simp
next
  case (Cons i "is")
  have nonneg: "0 \<le> sum_list (take m (offers e s (i # is)))" for m
    using Cons.prems(1,2) by (rule sum_take_offers_nonneg)
  consider "length result \<ge> k \<or> is_zero remaining"
    | "length result < k" "\<not> is_zero remaining" "live_quote e i = None"
    | q where "length result < k" "\<not> is_zero remaining" "live_quote e i = Some q" "is_zero (side_quantity s q)"
    | q where "length result < k" "\<not> is_zero remaining" "live_quote e i = Some q"
        "\<not> is_zero (side_quantity s q)"
    by (cases "live_quote e i") force+
  then show ?case
  proof cases
    case 1
    then show ?thesis
      using Cons.prems nonneg [of "k - length result"] by (auto simp: is_zero_def)
  next
    case 4
    let ?a = "side_quantity s q" and ?t = "fp_min (side_quantity s q) remaining"
    let ?r = "result @ [(vq_venue_id q, ?t, side_price s q)]"
    have a: "0 < raw ?a"
      using quotes_ok_side [of e i q s] Cons.prems(1,2) 4(3,4) by (simp add: is_zero_def)
    have r: "0 < raw remaining" using 4(2) Cons.prems(3) by (simp add: is_zero_def)
    have t: "raw ?t = min (raw ?a) (raw remaining)" by (simp add: fp_min_def)
    have rem: "raw (fp_sub remaining ?t) = raw remaining - raw ?t"
      unfolding fp_sub_clamps using Cons.prems(3,4) a r t by (intro i64_clamp_id) (auto simp: in_i64_def)
    have unf: "split_loop e s k (i # is) remaining result = split_loop e s k is (fp_sub remaining ?t) ?r"
    proof -
      have "\<not> is_zero ?t" using a r t by (simp add: is_zero_def)
      then show ?thesis using 4 by (simp add: Let_def)
    qed
    have ih: "split_total (split_loop e s k is (fp_sub remaining ?t) ?r) =
        split_total ?r + min (raw (fp_sub remaining ?t)) (sum_list (take (k - length ?r) (offers e s is))) \<and>
        length (split_loop e s k is (fp_sub remaining ?t) ?r) \<le> k"
      by (rule Cons.IH) (use Cons.prems 4(1) rem t a r in \<open>auto simp: in_i64_def\<close>)
    have k: "k - length result = Suc (k - length ?r)" using 4(1) by simp
    have "0 \<le> sum_list (take (k - length ?r) (offers e s is))"
      using Cons.prems(1,2) by (intro sum_take_offers_nonneg) auto
    then show ?thesis
      using ih t a r rem 4(3,4) unfolding unf k by (auto simp: split_total_def)
  qed (use Cons in \<open>auto simp: Let_def\<close>)
qed

lemma split_loop_entries:
  assumes "(v, x, p) \<in> set (split_loop e s k is remaining result)" "(v, x, p) \<notin> set result"
  shows "\<exists>i q. i \<in> set is \<and> live_quote e i = Some q \<and> v = vq_venue_id q \<and> p = side_price s q \<and>
    raw x \<le> raw (side_quantity s q)"
  using assms
proof (induction "is" arbitrary: remaining result)
  case (Cons i "is")
  show ?case
  proof (cases "\<exists>q. live_quote e i = Some q \<and> (v, x, p) = (vq_venue_id q, fp_min (side_quantity s q) remaining, side_price s q)")
    case True
    then show ?thesis by (auto simp: fp_min_def)
  next
    case False
    then show ?thesis
      using Cons by (fastforce simp: Let_def split: if_splits option.splits)
  qed
qed simp

text \<open>For quotes with non-negative sizes, a split allocates exactly the smaller of the order quantity
  and the sizes of the first \<open>max_splits\<close> venues that offer anything: never more than the order, and
  less only when the liquidity or the permitted number of venues is exhausted.  Every part goes to an
  enabled venue with a live quote, at its price and within its size.\<close>

theorem split_order_covers:
  assumes "quotes_ok e" "0 \<le> raw total_qty" "fp_wf total_qty"
  shows "split_total (split_order s total_qty k e) =
      min (raw total_qty) (sum_list (take k (offers e s [0..<MAX_VENUES]))) \<and>
    length (split_order s total_qty k e) \<le> k \<and>
    (\<forall>(v, x, p) \<in> set (split_order s total_qty k e).
       \<exists>i q. i < MAX_VENUES \<and> live_quote e i = Some q \<and> v = vq_venue_id q \<and> p = side_price s q \<and>
         raw x \<le> raw (side_quantity s q))"
proof -
  have "set [0..<MAX_VENUES] \<subseteq> {..<MAX_VENUES}" by auto
  from split_loop_total [OF assms(1) this, of total_qty "[]" k s]
  have "split_total (split_order s total_qty k e) =
      min (raw total_qty) (sum_list (take k (offers e s [0..<MAX_VENUES])))"
    "length (split_order s total_qty k e) \<le> k"
    using assms(2,3) by (simp_all add: split_order_def split_total_def fp_wf_def)
  moreover have "\<exists>i q. i < MAX_VENUES \<and> live_quote e i = Some q \<and> v = vq_venue_id q \<and> p = side_price s q \<and>
      raw x \<le> raw (side_quantity s q)" if "(v, x, p) \<in> set (split_order s total_qty k e)" for v x p
    using split_loop_entries [of v x p e s k "[0..<MAX_VENUES]" total_qty "[]"] that
    by (auto simp: split_order_def)
  ultimately show ?thesis by fast
qed

definition example_venue_quote :: "u32 \<Rightarrow> int \<Rightarrow> int \<Rightarrow> int \<Rightarrow> venue_quote" where
  "example_venue_quote v bid ask n =
     \<lparr>vq_venue_id = v, vq_best_bid = from_int bid, vq_best_ask = from_int ask, vq_best_bid_qty = from_int n,
      vq_best_ask_qty = from_int n, vq_timestamp_ns = 0, vq_is_alive = True\<rparr>"

definition example_sor :: sor_engine where
  "example_sor =
     update_quote (example_venue_quote 1 99 101 50) (update_quote (example_venue_quote 0 100 102 50) (new_sor_engine 0))"

lemma example_sor_quotes:
  "live_quote example_sor 0 = Some (example_venue_quote 0 100 102 50)"
  "live_quote example_sor (Suc 0) = Some (example_venue_quote 1 99 101 50)"
  "1 < i \<Longrightarrow> i < MAX_VENUES \<Longrightarrow> live_quote example_sor i = None"
  by (auto simp: live_quote_def example_sor_def update_quote_def count_change_def Let_def new_sor_engine_def
      MAX_VENUES_def example_venue_quote_def new_venue_quote_def nth_list_update)

lemma split_order_covers_example:
  "split_total (split_order LfBuy (from_int 120) 3 example_sor) = 100 * SCALE \<and>
   split_total (split_order LfBuy (from_int 70) 3 example_sor) = 70 * SCALE"
proof -
  have q: "quotes_ok example_sor"
    unfolding quotes_ok_def
  proof (intro allI impI)
    fix i assume i: "i < MAX_VENUES"
    consider "i = 0" | "i = 1" | "1 < i" by linarith
    then show "case live_quote example_sor i of None \<Rightarrow> True
        | Some q \<Rightarrow> 0 \<le> raw (vq_best_bid_qty q) \<and> 0 \<le> raw (vq_best_ask_qty q)"
      using i by cases (simp_all add: example_sor_quotes example_venue_quote_def from_int_def SCALE_def s64_def)
  qed
  have o: "offers example_sor LfBuy [0..<MAX_VENUES] = [50 * SCALE, 50 * SCALE]"
    using example_sor_quotes
    by (simp add: MAX_VENUES_def upt_rec [of _ 8] is_zero_def side_quantity_def example_venue_quote_def from_int_def
        SCALE_def s64_def)
  have wf: "fp_wf (from_int 120)" "fp_wf (from_int 70)" "raw (from_int 120) = 120 * SCALE"
    "raw (from_int 70) = 70 * SCALE"
    by (simp_all add: fp_wf_def in_i64_def from_int_def SCALE_def s64_def)
  then show ?thesis
    using split_order_covers [OF q _ wf(1), of LfBuy 3] split_order_covers [OF q _ wf(2), of LfBuy 3]
    by (simp add: o wf SCALE_def)
qed

section \<open>The choice of one venue\<close>

definition venue_eligible :: "sor_engine \<Rightarrow> lf_side \<Rightarrow> fixed_point \<Rightarrow> nat \<Rightarrow> venue_quote \<Rightarrow> bool" where
  "venue_eligible e s quantity i q \<longleftrightarrow>
     live_quote e i = Some q \<and> vm_rtt_ewma_ns (se_metrics e ! i) \<le> 10000000 \<and>
     raw quantity \<le> raw (side_quantity s q)"

definition best_so_far ::
  "sor_engine \<Rightarrow> lf_side \<Rightarrow> fixed_point \<Rightarrow> nat set \<Rightarrow> u32 option \<times> fixed_point \<times> fixed_point \<Rightarrow> bool" where
  "best_so_far e s quantity I acc \<longleftrightarrow>
     (case acc of (best_venue, best_price, best_score) \<Rightarrow>
        0 \<le> raw best_score \<and>
        (\<forall>i\<in>I. \<forall>q. venue_eligible e s quantity i q \<longrightarrow> raw (venue_score s q (se_metrics e ! i)) \<le> raw best_score) \<and>
        (case best_venue of
           None \<Rightarrow> raw best_score = 0
         | Some v \<Rightarrow> \<exists>i\<in>I. \<exists>q. venue_eligible e s quantity i q \<and> v = vq_venue_id q \<and> best_price = side_price s q \<and>
             best_score = venue_score s q (se_metrics e ! i) \<and> 0 < raw best_score))"

lemma best_so_far_skip:
  assumes "best_so_far e s n I acc" "\<And>q. \<not> venue_eligible e s n i q"
  shows "best_so_far e s n (insert i I) acc"
  using assms by (auto simp: best_so_far_def split: prod.splits option.splits)

lemma best_so_far_keep:
  assumes "best_so_far e s n I (v, p, sc)" "live_quote e i = Some q"
    "raw (venue_score s q (se_metrics e ! i)) \<le> raw sc"
  shows "best_so_far e s n (insert i I) (v, p, sc)"
  using assms by (auto simp: best_so_far_def venue_eligible_def split: option.splits)

lemma best_so_far_take:
  assumes "best_so_far e s n I (v, p, sc)" "venue_eligible e s n i q"
    "raw sc < raw (venue_score s q (se_metrics e ! i))"
  shows "best_so_far e s n (insert i I)
    (Some (vq_venue_id q), side_price s q, venue_score s q (se_metrics e ! i))"
proof -
  have "raw (venue_score s q' (se_metrics e ! j)) \<le> raw (venue_score s q (se_metrics e ! i))"
    if "j \<in> insert i I" "venue_eligible e s n j q'" for j q'
  proof (cases "j = i")
    case True
    then show ?thesis using that assms(2) by (simp add: venue_eligible_def)
  next
    case False
    then have "raw (venue_score s q' (se_metrics e ! j)) \<le> raw sc"
      using assms(1) that by (auto simp: best_so_far_def)
    then show ?thesis using assms(3) by simp
  qed
  moreover have "0 \<le> raw sc" using assms(1) by (simp add: best_so_far_def)
  ultimately show ?thesis using assms(2,3) unfolding best_so_far_def by auto
qed

lemma best_loop_step:
  assumes "best_so_far e s n I acc"
  obtains acc' where "best_loop e s n (i # is) acc = best_loop e s n is acc'"
    "best_so_far e s n (insert i I) acc'"
proof -
  obtain v p sc where acc: "acc = (v, p, sc)" by (cases acc)
  show ?thesis
  proof (cases "\<exists>q. venue_eligible e s n i q")
    case False
    then have "best_loop e s n (i # is) acc = best_loop e s n is acc"
      by (auto simp: acc venue_eligible_def Let_def split: option.split)
    then show ?thesis using best_so_far_skip [OF assms] False that by blast
  next
    case True
    then obtain q where q: "venue_eligible e s n i q" by blast
    then have e: "live_quote e i = Some q" "\<not> 10000000 < vm_rtt_ewma_ns (se_metrics e ! i)"
      "\<not> raw (side_quantity s q) < raw n"
      by (simp_all add: venue_eligible_def not_less)
    show ?thesis
    proof (cases "raw sc < raw (venue_score s q (se_metrics e ! i))")
      case True
      show ?thesis
        by (rule that [OF _ best_so_far_take [OF assms [unfolded acc] q True]]) (simp add: acc e True Let_def)
    next
      case False
      then have "raw (venue_score s q (se_metrics e ! i)) \<le> raw sc" by simp
      note keep = best_so_far_keep [OF assms [unfolded acc] e(1) this]
      show ?thesis
        by (rule that [OF _ keep]) (simp add: acc e False Let_def)
    qed
  qed
qed

lemma best_loop_spec:
  "best_so_far e s n I acc \<Longrightarrow> best_so_far e s n (set is \<union> I) (best_loop e s n is acc)"
proof (induction "is" arbitrary: acc I)
  case (Cons i "is")
  obtain acc' where "best_loop e s n (i # is) acc = best_loop e s n is acc'"
    "best_so_far e s n (insert i I) acc'"
    using best_loop_step [OF Cons.prems] by blast
  with Cons.IH [of "insert i I" acc'] show ?case by simp
qed simp

lemma find_best_venue_spec:
  assumes "find_best_venue s n e = Some (v, p)"
  shows "\<exists>i q. i < MAX_VENUES \<and> venue_eligible e s n i q \<and> v = vq_venue_id q \<and> p = side_price s q \<and>
    0 < raw (venue_score s q (se_metrics e ! i)) \<and>
    (\<forall>j q'. j < MAX_VENUES \<and> venue_eligible e s n j q' \<longrightarrow>
       raw (venue_score s q' (se_metrics e ! j)) \<le> raw (venue_score s q (se_metrics e ! i)))"
proof -
  have "best_so_far e s n {} (None, from_raw 0, from_raw 0)"
    by (simp add: best_so_far_def from_raw_def)
  from best_loop_spec [OF this, of "[0..<MAX_VENUES]"]
  show ?thesis
    using assms by (auto simp: find_best_venue_def best_so_far_def atLeast0LessThan split: prod.splits option.splits)
qed

lemma find_best_venue_None:
  assumes "find_best_venue s n e = None" "i < MAX_VENUES" "venue_eligible e s n i q"
  shows "raw (venue_score s q (se_metrics e ! i)) \<le> 0"
proof -
  have "best_so_far e s n {} (None, from_raw 0, from_raw 0)"
    by (simp add: best_so_far_def from_raw_def)
  from best_loop_spec [OF this, of "[0..<MAX_VENUES]"]
  show ?thesis
    using assms by (auto simp: find_best_venue_def best_so_far_def split: prod.splits option.splits)
qed

subsection \<open>The score prefers low prices\<close>

lemma SCALE_nonneg [simp]: "0 \<le> SCALE"
  by (simp add: SCALE_def)

lemma fp_mul_nonneg:
  assumes "fp_wf a" "fp_wf b" "0 \<le> raw a" "0 \<le> raw b"
  shows "raw (fp_mul a b) = min i64_max (raw a * raw b div SCALE)"
proof -
  have q: "raw a * raw b sdiv SCALE = raw a * raw b div SCALE" "0 \<le> raw a * raw b div SCALE"
    using assms(3,4) by (simp_all add: sdiv_nonneg pos_imp_zdiv_nonneg_iff)
  show ?thesis
    using q(2) unfolding fp_mul_def fp_checked_mul_eq [OF assms(1,2)] q(1)
    by (auto simp: unwrap_or_else_def from_raw_def in_i64_def)
qed

lemma fp_div_nonneg:
  assumes "fp_wf a" "0 \<le> raw a" "0 < raw b"
  shows "raw (fp_div a b) = min i64_max (raw a * SCALE div raw b)"
proof -
  have q: "raw a * SCALE sdiv raw b = raw a * SCALE div raw b" "0 \<le> raw a * SCALE div raw b"
    using assms(2,3) by (simp_all add: sdiv_nonneg pos_imp_zdiv_nonneg_iff)
  show ?thesis
    using q(2) assms(3) unfolding fp_div_def fp_checked_div_eq [OF assms(1)] q(1)
    by (auto simp: unwrap_or_else_def from_raw_def in_i64_def)
qed

definition latency_factor :: "venue_metrics \<Rightarrow> fixed_point" where
  "latency_factor m = fp_max (from_raw (sint (vm_rtt_ewma_ns m div 100000))) (from_int 1)"

lemma latency_factor_pos: "0 < raw (latency_factor m)"
  by (simp add: latency_factor_def fp_max_def from_int_def SCALE_def s64_def)

definition price_score :: "fixed_point \<Rightarrow> fixed_point" where
  "price_score p = (if is_zero p then from_raw 0 else fp_div (from_raw SCALE) p)"

lemma venue_score_eq:
  "venue_score s q m = fp_div (fp_mul (price_score (side_price s q)) (vm_fill_rate m)) (latency_factor m)"
  by (simp add: venue_score_def price_score_def latency_factor_def Let_def)

lemma price_score_antitone:
  assumes "0 < raw p" "raw p \<le> raw p'"
  shows "raw (price_score p') \<le> raw (price_score p)" "0 \<le> raw (price_score p')"
    "fp_wf (price_score p)" "fp_wf (price_score p')"
proof -
  have one: "fp_wf (from_raw SCALE)" "0 \<le> raw (from_raw SCALE)"
    by (simp_all add: fp_wf_def from_raw_def)
  have v: "raw (price_score x) = min i64_max (SCALE * SCALE div raw x)" if "0 < raw x" for x
    using fp_div_nonneg [OF one that] that by (simp add: price_score_def is_zero_def from_raw_def)
  have mono: "SCALE * SCALE div raw p' \<le> SCALE * SCALE div raw p"
    using assms by (intro zdiv_mono2) simp_all
  have nonneg: "0 \<le> SCALE * SCALE div raw x" if "0 < raw x" for x
    using that by (simp add: pos_imp_zdiv_nonneg_iff)
  show "raw (price_score p') \<le> raw (price_score p)" "0 \<le> raw (price_score p')"
    "fp_wf (price_score p)" "fp_wf (price_score p')"
    using assms mono nonneg [of p] nonneg [of p'] by (auto simp: v fp_wf_def in_i64_def)
qed

lemma venue_score_antitone:
  assumes "0 < raw (side_price s q)" "raw (side_price s q) \<le> raw (side_price s q')"
    "0 \<le> raw (vm_fill_rate m)" "fp_wf (vm_fill_rate m)"
  shows "raw (venue_score s q' m) \<le> raw (venue_score s q m)"
proof -
  note p = price_score_antitone [OF assms(1,2)]
  let ?f = "vm_fill_rate m"
  have m: "raw (fp_mul (price_score (side_price s q')) ?f) \<le> raw (fp_mul (price_score (side_price s q)) ?f)"
  proof -
    have "raw (price_score (side_price s q')) * raw ?f div SCALE \<le> raw (price_score (side_price s q)) * raw ?f div SCALE"
      using p(1) assms(3) by (intro zdiv_mono1 mult_right_mono) simp_all
    then show ?thesis
      using p assms(3,4) by (subst (1 2) fp_mul_nonneg) (auto simp: min_le_iff_disj)
  qed
  have r: "0 \<le> raw (fp_mul (price_score x) ?f) \<and> fp_wf (fp_mul (price_score x) ?f)"
    if "0 \<le> raw (price_score x)" "fp_wf (price_score x)" for x
  proof -
    have "0 \<le> raw (price_score x) * raw ?f div SCALE"
      using that(1) assms(3) by (simp add: pos_imp_zdiv_nonneg_iff)
    then show ?thesis
      using that assms(3,4) by (simp add: fp_mul_nonneg fp_wf_def [of "fp_mul (price_score x) ?f"] in_i64_def)
  qed
  have "raw (fp_mul (price_score (side_price s q')) ?f) * SCALE div raw (latency_factor m) \<le>
      raw (fp_mul (price_score (side_price s q)) ?f) * SCALE div raw (latency_factor m)"
    using m latency_factor_pos [of m] by (intro zdiv_mono1 mult_right_mono) simp_all
  then show ?thesis
    unfolding venue_score_eq using m r p latency_factor_pos [of m]
    by (subst (1 2) fp_div_nonneg) (auto simp: min_le_iff_disj)
qed

text \<open>The chosen venue has the greatest score of all eligible ones, and the score falls with the price
  on both sides: compared with every eligible venue of the same metrics, the chosen one has the lower
  price or an equal score.  That is the best price for a purchase and the worst for a sale.\<close>

theorem best_venue_is_cheapest:
  assumes "find_best_venue s n e = Some (v, p)"
  shows "\<exists>i q. i < MAX_VENUES \<and> venue_eligible e s n i q \<and> v = vq_venue_id q \<and> p = side_price s q \<and>
    (\<forall>j q'. j < MAX_VENUES \<and> venue_eligible e s n j q' \<longrightarrow>
       raw (venue_score s q' (se_metrics e ! j)) \<le> raw (venue_score s q (se_metrics e ! i)) \<and>
       (se_metrics e ! j = se_metrics e ! i \<and> 0 < raw (side_price s q') \<and>
        0 \<le> raw (vm_fill_rate (se_metrics e ! i)) \<and> fp_wf (vm_fill_rate (se_metrics e ! i)) \<longrightarrow>
          raw p \<le> raw (side_price s q') \<or>
          raw (venue_score s q' (se_metrics e ! j)) = raw (venue_score s q (se_metrics e ! i))))"
proof -
  obtain i q where i: "i < MAX_VENUES" "venue_eligible e s n i q" "v = vq_venue_id q" "p = side_price s q"
    and max: "\<And>j q'. j < MAX_VENUES \<and> venue_eligible e s n j q' \<Longrightarrow>
       raw (venue_score s q' (se_metrics e ! j)) \<le> raw (venue_score s q (se_metrics e ! i))"
    using find_best_venue_spec [OF assms] by blast
  have "raw p \<le> raw (side_price s q') \<or>
      raw (venue_score s q' (se_metrics e ! j)) = raw (venue_score s q (se_metrics e ! i))"
    if "j < MAX_VENUES" "venue_eligible e s n j q'" "se_metrics e ! j = se_metrics e ! i" "0 < raw (side_price s q')"
      "0 \<le> raw (vm_fill_rate (se_metrics e ! i))" "fp_wf (vm_fill_rate (se_metrics e ! i))" for j q'
    using max [of j q'] that venue_score_antitone [of s q' q "se_metrics e ! i"] i(4) by fastforce
  then show ?thesis using i max by (intro exI [of _ i] exI [of _ q]) blast
qed

text \<open>A sale with bids 100 and 99 goes to the venue that bids 99.\<close>

lemma example_scores:
  "venue_score LfSell (example_venue_quote 0 100 102 50) new_venue_metrics = from_raw 950000"
  "venue_score LfSell (example_venue_quote 1 99 101 50) new_venue_metrics = from_raw 959595"
proof -
  have wf: "fp_wf (from_raw 100000000)" "fp_wf (from_raw 1000000)" "fp_wf (from_raw 1010101)"
    "fp_wf (from_raw 95000000)" "fp_wf (from_raw 950000)" "fp_wf (from_raw 959595)"
    by (simp_all add: fp_wf_def from_raw_def in_i64_def)
  have l: "latency_factor new_venue_metrics = from_raw 100000000"
    by (simp add: latency_factor_def new_venue_metrics_def fp_max_def from_raw_def from_int_def SCALE_def s64_def)
  have f: "vm_fill_rate new_venue_metrics = from_raw 95000000"
    by (simp add: new_venue_metrics_def from_fractional_def from_raw_def)
  have p: "side_price LfSell (example_venue_quote 0 100 102 50) = from_raw 10000000000"
    "side_price LfSell (example_venue_quote 1 99 101 50) = from_raw 9900000000"
    by (simp_all add: side_price_def example_venue_quote_def from_int_def from_raw_def SCALE_def s64_def)
  have s: "price_score (from_raw 10000000000) = from_raw 1000000"
    "price_score (from_raw 9900000000) = from_raw 1010101"
    by (simp_all add: price_score_def is_zero_def fp_div_def fp_checked_div_def from_raw_def SCALE_def
        unwrap_or_else_def s128_def s64_def sdiv_nonneg)
  show "venue_score LfSell (example_venue_quote 0 100 102 50) new_venue_metrics = from_raw 950000"
    "venue_score LfSell (example_venue_quote 1 99 101 50) new_venue_metrics = from_raw 959595"
    unfolding venue_score_eq p s f l
    by (simp_all add: fp_mul_def fp_checked_mul_def fp_div_def fp_checked_div_def from_raw_def SCALE_def
        unwrap_or_else_def s128_def s64_def sdiv_nonneg)
qed

lemma sale_goes_to_lower_bid:
  "find_best_venue LfSell (from_int 10) example_sor = Some (1, from_int 99)"
proof -
  have m: "se_metrics example_sor ! i = new_venue_metrics" if "i < 8" for i
    using that by (simp add: example_sor_def update_quote_def count_change_def Let_def new_sor_engine_def MAX_VENUES_def)
  have q: "raw (side_quantity LfSell (example_venue_quote v b a 50)) = 5000000000" "raw (from_int 10) = 1000000000" for v b a
    by (simp_all add: side_quantity_def example_venue_quote_def from_int_def SCALE_def s64_def)
  have p: "side_price LfSell (example_venue_quote v b a 50) = from_int b" "vq_venue_id (example_venue_quote v b a 50) = v" for v b a
    by (simp_all add: side_price_def example_venue_quote_def)
  have rtt: "vm_rtt_ewma_ns new_venue_metrics = 1000000" by (simp add: new_venue_metrics_def)
  show ?thesis
    using example_sor_quotes
    by (simp add: find_best_venue_def MAX_VENUES_def upt_rec [of _ 8] m q p rtt example_scores from_raw_def Let_def)
qed

lemma best_venue_is_cheapest_example:
  "\<exists>i q. i < MAX_VENUES \<and> venue_eligible example_sor LfSell (from_int 10) i q \<and> 1 = vq_venue_id q \<and>
    from_int 99 = side_price LfSell q"
  using best_venue_is_cheapest [OF sale_goes_to_lower_bid] by blast

text \<open>
  The latency has no influence on the score: the time in tenths of milliseconds is taken as a raw value,
  which stays below one for every venue that is not skipped.
\<close>

lemma latency_without_influence:
  assumes "vm_rtt_ewma_ns m \<le> 10000000"
  shows "latency_factor m = from_int 1"
proof -
  define w where "w = vm_rtt_ewma_ns m div 100000"
  have "unat (vm_rtt_ewma_ns m) \<le> 10000000" using assms by (simp add: word_le_nat_alt)
  then have "unat (vm_rtt_ewma_ns m) div 100000 \<le> 10000000 div 100000" by (rule div_le_mono)
  then have "unat w \<le> 100" by (simp add: w_def unat_div)
  then have u: "uint w \<le> 100" by (simp only: uint_nat of_nat_le_numeral_iff)
  have u0: "0 \<le> uint w" by simp
  have "sint w = uint w"
    unfolding sint_uint
  proof (rule signed_take_bit_int_eq_self)
    show "- (2 ^ (LENGTH(64) - Suc 0)) \<le> uint w" by (rule order_trans [OF _ u0]) simp
    show "uint w < 2 ^ (LENGTH(64) - Suc 0)" by (rule le_less_trans [OF u]) simp
  qed
  with u have "sint w \<le> 100" by simp
  then show ?thesis unfolding latency_factor_def w_def [symmetric]
    by (simp add: fp_max_def from_raw_def from_int_def SCALE_def s64_def)
qed

end
