(* ===== verification/Exec_Algos.thy ===== *)
theory Exec_Algos
  imports Order_Queues
begin

text \<open>
  Execution algorithms of \<open>crates/nexus_execution/src/algos\<close>: the generator of child orders
  (\<open>child_order_generator.rs\<close>) and the trackers for a share of the volume and for the average price
  (\<open>pov_vwap_tracker.rs\<close>), over the fixed-point numbers of the order management.
\<close>

section \<open>Child orders\<close>

record child_request =
  cr_parent_id :: u64
  cr_side :: lf_side
  cr_order_type :: lf_order_type
  cr_price :: fixed_point
  cr_quantity :: fixed_point
  cr_venue_id :: u32
  cr_is_ioc :: bool
  cr_sequence :: u64

datatype algo_type = AlgoIceberg | AlgoPov | AlgoVwap | AlgoTwap | AlgoSniper

record child_generator =
  cg_algo_type :: algo_type
  cg_parent_id :: u64
  cg_side :: lf_side
  cg_total_qty :: fixed_point
  cg_remaining_qty :: fixed_point
  cg_children_generated :: u64
  cg_children_filled :: u64
  cg_last_child_id :: u64
  cg_sequence :: u64
  cg_default_venue :: u32

definition new_child_generator ::
  "algo_type \<Rightarrow> u64 \<Rightarrow> lf_side \<Rightarrow> fixed_point \<Rightarrow> u32 \<Rightarrow> child_generator" where
  "new_child_generator a parent s total_qty venue =
     \<lparr>cg_algo_type = a, cg_parent_id = parent, cg_side = s, cg_total_qty = total_qty, cg_remaining_qty = total_qty,
      cg_children_generated = 0, cg_children_filled = 0, cg_last_child_id = 0, cg_sequence = 0,
      cg_default_venue = venue\<rparr>"

text \<open>The counters advance, and the request carries the sequence number before.\<close>

definition next_child :: "child_generator \<Rightarrow> child_generator" where
  "next_child g = g\<lparr>cg_last_child_id := cg_last_child_id g + 1, cg_sequence := cg_sequence g + 1\<rparr>"

definition generate_iceberg_child ::
  "fixed_point \<Rightarrow> fixed_point \<Rightarrow> child_generator \<Rightarrow> child_request option \<times> child_generator" where
  "generate_iceberg_child clip_qty limit_price g =
     (if is_zero (cg_remaining_qty g) then (None, g)
      else
        let qty = fp_min clip_qty (cg_remaining_qty g) in
        if is_zero qty then (None, g)
        else (Some \<lparr>cr_parent_id = cg_parent_id g, cr_side = cg_side g, cr_order_type = LfLimit,
                cr_price = limit_price, cr_quantity = qty, cr_venue_id = cg_default_venue g,
                cr_is_ioc = False, cr_sequence = cg_sequence g\<rparr>, next_child g))"

definition generate_pov_child ::
  "fixed_point \<Rightarrow> fixed_point \<Rightarrow> fixed_point \<Rightarrow> fixed_point \<Rightarrow> child_generator \<Rightarrow>
   child_request option \<times> child_generator" where
  "generate_pov_child market_vol participation limit_price max_qty g =
     (if is_zero (cg_remaining_qty g) then (None, g)
      else
        let target_qty = fp_mul market_vol participation;
            qty = fp_min (fp_min target_qty max_qty) (cg_remaining_qty g) in
        if is_zero qty then (None, g)
        else (Some \<lparr>cr_parent_id = cg_parent_id g, cr_side = cg_side g, cr_order_type = LfLimit,
                cr_price = limit_price, cr_quantity = qty, cr_venue_id = cg_default_venue g,
                cr_is_ioc = False, cr_sequence = cg_sequence g\<rparr>, next_child g))"

definition generate_sniper_child ::
  "fixed_point \<Rightarrow> fixed_point \<Rightarrow> u32 \<Rightarrow> child_generator \<Rightarrow> child_request option \<times> child_generator" where
  "generate_sniper_child qty price venue g =
     (if is_zero (cg_remaining_qty g) then (None, g)
      else
        let actual_qty = fp_min qty (cg_remaining_qty g) in
        if is_zero actual_qty then (None, g)
        else (Some \<lparr>cr_parent_id = cg_parent_id g, cr_side = cg_side g, cr_order_type = LfIOC,
                cr_price = price, cr_quantity = actual_qty, cr_venue_id = venue,
                cr_is_ioc = True, cr_sequence = cg_sequence g\<rparr>, next_child g))"

definition on_child_fill :: "fixed_point \<Rightarrow> child_generator \<Rightarrow> (string + unit) \<times> child_generator" where
  "on_child_fill fill_qty g =
     (if is_zero fill_qty then (Inl ''Fill quantity cannot be zero'', g)
      else if raw fill_qty > raw (cg_remaining_qty g) then (Inl ''Fill exceeds remaining quantity'', g)
      else (Inr (), g\<lparr>cg_remaining_qty := fp_sub (cg_remaining_qty g) fill_qty,
              cg_children_filled := cg_children_filled g + 1, cg_sequence := cg_sequence g + 1\<rparr>))"

definition child_is_complete :: "child_generator \<Rightarrow> bool" where
  "child_is_complete g \<longleftrightarrow> is_zero (cg_remaining_qty g)"

subsection \<open>Bounds and conservation\<close>

datatype child_call =
  Iceberg fixed_point fixed_point | Pov fixed_point fixed_point fixed_point fixed_point
  | Sniper fixed_point fixed_point u32 | Fill fixed_point

fun child_step :: "child_call \<Rightarrow> child_generator \<Rightarrow> child_request option \<times> child_generator" where
  "child_step (Iceberg c p) g = generate_iceberg_child c p g"
| "child_step (Pov v r p m) g = generate_pov_child v r p m g"
| "child_step (Sniper q p v) g = generate_sniper_child q p v g"
| "child_step (Fill q) g = (None, snd (on_child_fill q g))"

text \<open>What a fill takes off the parent order.\<close>

definition accepted_fill :: "child_call \<Rightarrow> child_generator \<Rightarrow> int" where
  "accepted_fill c g =
     (case c of Fill q \<Rightarrow> if fst (on_child_fill q g) = Inr () then raw q else 0 | _ \<Rightarrow> 0)"

fun child_run :: "child_call list \<Rightarrow> child_generator \<Rightarrow> child_request list \<times> int \<times> child_generator" where
  "child_run [] g = ([], 0, g)"
| "child_run (c # cs) g =
     (case child_step c g of
        (r, g1) \<Rightarrow>
          (case child_run cs g1 of
             (rs, n, g2) \<Rightarrow> ((case r of None \<Rightarrow> rs | Some x \<Rightarrow> x # rs), accepted_fill c g + n, g2)))"

definition fill_nonneg :: "child_call \<Rightarrow> bool" where
  "fill_nonneg c \<longleftrightarrow> (case c of Fill q \<Rightarrow> 0 \<le> raw q | _ \<Rightarrow> True)"

definition generator_ok :: "child_generator \<Rightarrow> bool" where
  "generator_ok g \<longleftrightarrow> 0 \<le> raw (cg_remaining_qty g) \<and> fp_wf (cg_remaining_qty g)"

lemma next_child_fields [frame_simps]:
  "cg_remaining_qty (next_child g) = cg_remaining_qty g"
  "cg_children_generated (next_child g) = cg_children_generated g"
  by (simp_all add: next_child_def)

lemma child_step_spec:
  assumes "generator_ok g" "fill_nonneg c"
  shows "generator_ok (snd (child_step c g))"
    "raw (cg_remaining_qty (snd (child_step c g))) + accepted_fill c g = raw (cg_remaining_qty g)"
    "0 \<le> accepted_fill c g"
    "fst (child_step c g) = Some r \<Longrightarrow> raw (cr_quantity r) \<le> raw (cg_remaining_qty g)"
    "cg_children_generated (snd (child_step c g)) = cg_children_generated g"
proof -
  have sub: "raw (fp_sub (cg_remaining_qty g) q) = raw (cg_remaining_qty g) - raw q"
    if "0 \<le> raw q" "raw q \<le> raw (cg_remaining_qty g)" for q
    unfolding fp_sub_clamps using assms(1) that
    by (intro i64_clamp_id) (simp add: generator_ok_def fp_wf_def in_i64_def)
  show "generator_ok (snd (child_step c g))"
    using assms sub
    by (cases c) (auto simp: generate_iceberg_child_def generate_pov_child_def generate_sniper_child_def
        on_child_fill_def Let_def frame_simps generator_ok_def fill_nonneg_def fp_wf_def in_i64_def)
  show "raw (cg_remaining_qty (snd (child_step c g))) + accepted_fill c g = raw (cg_remaining_qty g)"
    using assms sub
    by (cases c) (auto simp: generate_iceberg_child_def generate_pov_child_def generate_sniper_child_def
        on_child_fill_def Let_def frame_simps accepted_fill_def fill_nonneg_def)
  show "0 \<le> accepted_fill c g"
    using assms by (cases c) (auto simp: accepted_fill_def fill_nonneg_def)
  show "raw (cr_quantity r) \<le> raw (cg_remaining_qty g)" if "fst (child_step c g) = Some r"
    using that by (cases c) (auto simp: generate_iceberg_child_def generate_pov_child_def
        generate_sniper_child_def Let_def fp_min_def split: if_splits)
  show "cg_children_generated (snd (child_step c g)) = cg_children_generated g"
    by (cases c) (auto simp: generate_iceberg_child_def generate_pov_child_def generate_sniper_child_def
        on_child_fill_def Let_def frame_simps)
qed

text \<open>Over any sequence of calls with non-negative fills, the accepted fills and the remaining quantity
  add up to the parent quantity, no child asks for more than the parent, and the counter of generated
  children is never advanced.\<close>

theorem parent_quantity_conserved:
  assumes "generator_ok g" "\<forall>c\<in>set cs. fill_nonneg c" "child_run cs g = (rs, n, g')"
  shows "raw (cg_remaining_qty g') + n = raw (cg_remaining_qty g) \<and> 0 \<le> n \<and> 0 \<le> raw (cg_remaining_qty g') \<and>
    (\<forall>r\<in>set rs. raw (cr_quantity r) \<le> raw (cg_remaining_qty g)) \<and>
    cg_children_generated g' = cg_children_generated g"
  using assms
proof (induction cs arbitrary: g rs n)
  case Nil
  then show ?case by (simp add: generator_ok_def)
next
  case (Cons c cs)
  obtain r g1 where s: "child_step c g = (r, g1)" by (cases "child_step c g")
  obtain rs1 n1 where t: "child_run cs g1 = (rs1, n1, g')"
    using Cons.prems(3) s by (auto split: prod.splits)
  have rs: "rs = (case r of None \<Rightarrow> rs1 | Some x \<Rightarrow> x # rs1)" "n = accepted_fill c g + n1"
    using Cons.prems(3) s t by simp_all
  have f: "fill_nonneg c" using Cons.prems(2) by simp
  note step = child_step_spec [OF Cons.prems(1) f, unfolded s, simplified]
  have ih: "raw (cg_remaining_qty g') + n1 = raw (cg_remaining_qty g1) \<and> 0 \<le> n1 \<and> 0 \<le> raw (cg_remaining_qty g') \<and>
    (\<forall>r\<in>set rs1. raw (cr_quantity r) \<le> raw (cg_remaining_qty g1)) \<and>
    cg_children_generated g' = cg_children_generated g1"
    using Cons.prems(2) t by (intro Cons.IH [OF step(1)]) simp_all
  have "\<forall>x\<in>set rs1. raw (cr_quantity x) \<le> raw (cg_remaining_qty g)"
    using ih step(2,3) by fastforce
  then show ?case
    using ih step rs by (cases r) auto
qed

lemma parent_quantity_conserved_example:
  "raw (cg_remaining_qty (snd (snd (child_run [Iceberg (from_raw 100) (from_raw 5), Fill (from_raw 100)]
     (new_child_generator AlgoIceberg 1 LfBuy (from_raw 1000) 1))))) = 900"
proof -
  let ?g = "new_child_generator AlgoIceberg 1 LfBuy (from_raw 1000) 1"
  let ?cs = "[Iceberg (from_raw 100) (from_raw 5), Fill (from_raw 100)]"
  obtain rs n g' where run: "child_run ?cs ?g = (rs, n, g')" by (cases "child_run ?cs ?g")
  have ok: "generator_ok ?g" "\<forall>c\<in>set ?cs. fill_nonneg c"
    by (simp_all add: generator_ok_def new_child_generator_def from_raw_def fp_wf_def in_i64_def fill_nonneg_def)
  have "n = 100"
    using run by (simp add: generate_iceberg_child_def new_child_generator_def is_zero_def fp_min_def
        from_raw_def Let_def accepted_fill_def on_child_fill_def next_child_def)
  then show ?thesis
    using parent_quantity_conserved [OF ok run] run by (simp add: new_child_generator_def from_raw_def)
qed

text \<open>
  The remaining quantity falls only with a fill, so two children generated before the first fill may
  together exceed the parent; and a negative fill raises the remaining quantity.
\<close>

lemma children_exceed_parent:
  assumes "0 < raw q"
  shows "\<exists>r1 r2 g2. child_run [Iceberg q p, Iceberg q p] (new_child_generator AlgoIceberg 1 LfBuy q 1) = ([r1, r2], 0, g2) \<and>
    raw (cr_quantity r1) + raw (cr_quantity r2) = 2 * raw q"
  using assms by (simp add: generate_iceberg_child_def new_child_generator_def is_zero_def fp_min_def Let_def
      accepted_fill_def next_child_def)

lemma negative_fill_accepted:
  "raw (cg_remaining_qty (snd (on_child_fill (from_raw (- 5)) (new_child_generator AlgoIceberg 1 LfBuy (from_raw 10) 1)))) = 15"
  by (simp add: on_child_fill_def new_child_generator_def is_zero_def from_raw_def fp_sub_def fp_checked_sub_def
      i64_checked_sub_def in_i64_def unwrap_or_else_def)

section \<open>Moving averages\<close>

record ewma =
  ew_value :: i64
  ew_alpha :: fixed_point
  ew_initialized :: u64

definition new_ewma :: "fixed_point \<Rightarrow> fixed_point \<Rightarrow> ewma" where
  "new_ewma alpha initial_value =
     \<lparr>ew_value = raw initial_value, ew_alpha = alpha, ew_initialized = 1\<rparr>"

definition ewma_update :: "fixed_point \<Rightarrow> ewma \<Rightarrow> fixed_point \<times> ewma" where
  "ewma_update sample w =
     (let current_raw = ew_value w;
          one_minus_alpha = fp_sub (from_raw SCALE) (ew_alpha w);
          weighted_sample = fp_mul sample (ew_alpha w);
          weighted_current = fp_mul (from_raw current_raw) one_minus_alpha;
          new_value = fp_add weighted_sample weighted_current in
      (new_value, w\<lparr>ew_value := raw new_value\<rparr>))"

definition ewma_current :: "ewma \<Rightarrow> fixed_point" where
  "ewma_current w = from_raw (ew_value w)"

definition ewma_reset :: "fixed_point \<Rightarrow> ewma \<Rightarrow> ewma" where
  "ewma_reset v w = w\<lparr>ew_value := raw v, ew_initialized := 1\<rparr>"

text \<open>Two truncated weighted parts: at most the greater sample, at least the smaller less one unit.\<close>

lemma weighted_mean_bounds:
  fixes a s c S :: int
  assumes "0 \<le> a" "a \<le> S" "0 < S"
  shows "s * a div S + c * (S - a) div S \<le> max s c" "min s c - 1 \<le> s * a div S + c * (S - a) div S"
proof -
  let ?x = "s * a div S" and ?y = "c * (S - a) div S"
  have split: "m * S = m * a + m * (S - a)" for m :: int by (simp add: algebra_simps)
  have mod: "?x * S + s * a mod S = s * a" "?y * S + c * (S - a) mod S = c * (S - a)" by simp_all
  have "s * a \<le> max s c * a" "c * (S - a) \<le> max s c * (S - a)"
    using assms by (auto intro!: mult_right_mono)
  moreover have "0 \<le> s * a mod S" "0 \<le> c * (S - a) mod S" using assms by simp_all
  ultimately have "(?x + ?y) * S \<le> max s c * S"
    using mod split [of "max s c"] unfolding distrib_right by linarith
  then show "?x + ?y \<le> max s c" using assms(3) by (simp add: mult_le_cancel_right)
  have "min s c * a \<le> s * a" "min s c * (S - a) \<le> c * (S - a)"
    using assms by (auto intro!: mult_right_mono)
  moreover have "s * a mod S < S" "c * (S - a) mod S < S" using assms by simp_all
  ultimately have "min s c * S < (?x + ?y) * S + 2 * S"
    using mod split [of "min s c"] unfolding distrib_right by linarith
  then have "min s c * S < (?x + ?y + 2) * S" by (simp add: algebra_simps)
  then have "min s c < ?x + ?y + 2" using assms(3) by (simp add: mult_less_cancel_right)
  then show "min s c - 1 \<le> ?x + ?y" by simp
qed

lemma fp_mul_weight:
  assumes "0 \<le> raw v" "in_i64 (raw v)" "0 \<le> raw w" "raw w \<le> SCALE"
  shows "raw (fp_mul v w) = raw v * raw w div SCALE" "0 \<le> raw (fp_mul v w)" "raw (fp_mul v w) \<le> raw v"
proof -
  have w: "fp_wf v" "fp_wf w"
    using assms by (simp_all add: fp_wf_def in_i64_def SCALE_def)
  have q: "raw v * raw w sdiv SCALE = raw v * raw w div SCALE"
    using assms by (intro sdiv_nonneg) (simp_all add: SCALE_def)
  have "raw v * raw w div SCALE \<le> raw v * SCALE div SCALE"
    using assms by (intro zdiv_mono1 mult_left_mono) simp_all
  then have le: "raw v * raw w div SCALE \<le> raw v" by simp
  have ge: "0 \<le> raw v * raw w div SCALE" using assms by (simp add: pos_imp_zdiv_nonneg_iff)
  show "raw (fp_mul v w) = raw v * raw w div SCALE"
    using le ge assms(2) unfolding fp_mul_def fp_checked_mul_eq [OF w] q
    by (simp add: unwrap_or_else_def from_raw_def in_i64_def)
  with le ge show "0 \<le> raw (fp_mul v w)" "raw (fp_mul v w) \<le> raw v" by simp_all
qed

lemma raw_from_raw [simp]: "raw (from_raw x) = x"
  by (simp add: from_raw_def)

text \<open>With a weight between zero and one and non-negative samples, the moving average stays between
  its previous value and the new sample, up to one unit of the last decimal below; no operation on
  the way saturates.\<close>

theorem ewma_between:
  assumes "0 \<le> raw (ew_alpha w)" "raw (ew_alpha w) \<le> SCALE"
    and "0 \<le> raw sample" "fp_wf sample" "0 \<le> ew_value w" "in_i64 (ew_value w)"
  shows "min (raw sample) (ew_value w) - 1 \<le> ew_value (snd (ewma_update sample w)) \<and>
         ew_value (snd (ewma_update sample w)) \<le> max (raw sample) (ew_value w) \<and>
         0 \<le> ew_value (snd (ewma_update sample w)) \<and>
         raw (fst (ewma_update sample w)) = ew_value (snd (ewma_update sample w))"
proof -
  let ?a = "raw (ew_alpha w)"
  have one: "raw (fp_sub (from_raw SCALE) (ew_alpha w)) = SCALE - ?a"
    unfolding fp_sub_clamps using assms(1,2) by (simp add: from_raw_def i64_clamp_id in_i64_def SCALE_def)
  have s: "raw (fp_mul sample (ew_alpha w)) = raw sample * ?a div SCALE" "0 \<le> raw (fp_mul sample (ew_alpha w))"
    using assms fp_mul_weight [of sample "ew_alpha w"] by (simp_all add: fp_wf_def)
  have c: "raw (fp_mul (from_raw (ew_value w)) (fp_sub (from_raw SCALE) (ew_alpha w))) = ew_value w * (SCALE - ?a) div SCALE"
    "0 \<le> raw (fp_mul (from_raw (ew_value w)) (fp_sub (from_raw SCALE) (ew_alpha w)))"
    using assms fp_mul_weight [of "from_raw (ew_value w)" "fp_sub (from_raw SCALE) (ew_alpha w)"]
    by (simp_all add: one raw_from_raw)
  note bounds = weighted_mean_bounds [of ?a SCALE "raw sample" "ew_value w"]
  have sum: "raw (fp_add (fp_mul sample (ew_alpha w))
        (fp_mul (from_raw (ew_value w)) (fp_sub (from_raw SCALE) (ew_alpha w)))) =
      raw sample * ?a div SCALE + ew_value w * (SCALE - ?a) div SCALE"
    unfolding fp_add_clamps s(1) c(1)
  proof (rule i64_clamp_id)
    show "in_i64 (raw sample * ?a div SCALE + ew_value w * (SCALE - ?a) div SCALE)"
      using bounds(1) assms s c by (auto simp: in_i64_def fp_wf_def)
  qed
  show ?thesis
    using bounds assms s c by (simp add: ewma_update_def Let_def sum)
qed

lemma ewma_between_example:
  "ew_value (snd (ewma_update (from_raw 300) (new_ewma (from_raw 20000000) (from_raw 100)))) \<le> 300 \<and>
   99 \<le> ew_value (snd (ewma_update (from_raw 300) (new_ewma (from_raw 20000000) (from_raw 100))))"
  using ewma_between [of "new_ewma (from_raw 20000000) (from_raw 100)" "from_raw 300"]
  by (simp add: new_ewma_def from_raw_def SCALE_def fp_wf_def in_i64_def)

section \<open>A share of the volume\<close>

record pov_config =
  pv_target_participation :: fixed_point
  pv_min_order_size :: fixed_point
  pv_max_order_size :: fixed_point
  pv_volume_alpha :: fixed_point
  pv_tolerance :: fixed_point

record pov_tracker =
  pt_config :: pov_config
  pt_total_qty :: fixed_point
  pt_remaining_qty :: fixed_point
  pt_executed_qty :: fixed_point
  pt_market_volume_ewma :: ewma
  pt_our_volume_ewma :: ewma
  pt_current_participation :: fixed_point
  pt_last_adjustment_ns :: u64
  pt_sequence :: u64

definition new_pov_tracker :: "pov_config \<Rightarrow> fixed_point \<Rightarrow> pov_tracker" where
  "new_pov_tracker cfg total_qty =
     \<lparr>pt_config = cfg, pt_total_qty = total_qty, pt_remaining_qty = total_qty, pt_executed_qty = from_raw 0,
      pt_market_volume_ewma = new_ewma (pv_volume_alpha cfg) (from_int 1000),
      pt_our_volume_ewma = new_ewma (pv_volume_alpha cfg) (from_raw 0),
      pt_current_participation = from_raw 0, pt_last_adjustment_ns = 0, pt_sequence = 0\<rparr>"

definition recalculate_participation :: "pov_tracker \<Rightarrow> pov_tracker" where
  "recalculate_participation t =
     (let market_vol = ewma_current (pt_market_volume_ewma t);
          our_vol = ewma_current (pt_our_volume_ewma t) in
      if is_zero market_vol then t\<lparr>pt_current_participation := from_raw 0\<rparr>
      else t\<lparr>pt_current_participation := fp_div our_vol market_vol\<rparr>)"

definition stamp_pov :: "u64 \<Rightarrow> pov_tracker \<Rightarrow> pov_tracker" where
  "stamp_pov ts t = t\<lparr>pt_last_adjustment_ns := ts, pt_sequence := pt_sequence t + 1\<rparr>"

definition on_market_volume :: "fixed_point \<Rightarrow> u64 \<Rightarrow> pov_tracker \<Rightarrow> pov_tracker" where
  "on_market_volume market_vol ts t =
     stamp_pov ts (recalculate_participation
       (t\<lparr>pt_market_volume_ewma := snd (ewma_update market_vol (pt_market_volume_ewma t))\<rparr>))"

definition on_our_fill :: "fixed_point \<Rightarrow> u64 \<Rightarrow> pov_tracker \<Rightarrow> pov_tracker" where
  "on_our_fill fill_qty ts t =
     (if raw fill_qty > raw (pt_remaining_qty t) then t
      else
        stamp_pov ts (recalculate_participation
          (t\<lparr>pt_executed_qty := fp_add (pt_executed_qty t) fill_qty,
             pt_remaining_qty := fp_sub (pt_remaining_qty t) fill_qty,
             pt_our_volume_ewma := snd (ewma_update fill_qty (pt_our_volume_ewma t))\<rparr>)))"

definition calculate_next_order_size :: "fixed_point \<Rightarrow> pov_tracker \<Rightarrow> fixed_point" where
  "calculate_next_order_size current_market_vol t =
     (let target_size = fp_mul current_market_vol (pv_target_participation (pt_config t)) in
      fp_min (fp_min (fp_max target_size (pv_min_order_size (pt_config t)))
        (pv_max_order_size (pt_config t))) (pt_remaining_qty t))"

definition is_within_tolerance :: "pov_tracker \<Rightarrow> bool" where
  "is_within_tolerance t \<longleftrightarrow>
     (let cur = pt_current_participation t; target = pv_target_participation (pt_config t);
          diff = (if raw cur > raw target then fp_sub cur target else fp_sub target cur) in
      raw diff \<le> raw (pv_tolerance (pt_config t)))"

datatype pov_pace = PaceIncrease | PaceDecrease | PaceMaintain

definition get_pace_recommendation :: "pov_tracker \<Rightarrow> pov_pace" where
  "get_pace_recommendation t =
     (let cur = pt_current_participation t; target = pv_target_participation (pt_config t);
          tol = pv_tolerance (pt_config t) in
      if raw cur < raw (fp_sub target tol) then PaceIncrease
      else if raw cur > raw (fp_add target tol) then PaceDecrease
      else PaceMaintain)"

definition pov_completion_pct :: "pov_tracker \<Rightarrow> fixed_point" where
  "pov_completion_pct t =
     (if is_zero (pt_total_qty t) then from_raw 0 else fp_div (pt_executed_qty t) (pt_total_qty t))"

lemma recalculate_participation_fields [frame_simps]:
  "pt_remaining_qty (recalculate_participation t) = pt_remaining_qty t"
  "pt_executed_qty (recalculate_participation t) = pt_executed_qty t"
  "pt_config (recalculate_participation t) = pt_config t"
  "pt_remaining_qty (stamp_pov ts t) = pt_remaining_qty t"
  "pt_executed_qty (stamp_pov ts t) = pt_executed_qty t"
  by (simp_all add: recalculate_participation_def stamp_pov_def Let_def)

text \<open>The size of the next order never exceeds the remaining quantity or the maximum, but falls below
  the minimum at the end.\<close>

lemma next_order_size_bounds:
  "raw (calculate_next_order_size v t) \<le> raw (pt_remaining_qty t)"
  "raw (calculate_next_order_size v t) \<le> raw (pv_max_order_size (pt_config t))"
  "raw (pv_min_order_size (pt_config t)) \<le> raw (calculate_next_order_size v t) \<or>
   calculate_next_order_size v t \<in> {pv_max_order_size (pt_config t), pt_remaining_qty t}"
  by (auto simp: calculate_next_order_size_def Let_def fp_min_def fp_max_def)

text \<open>Increasing and decreasing the pace are recommended exactly outside of the tolerance, when no
  difference saturates.\<close>

lemma pace_outside_tolerance:
  assumes "in_i64 (raw (pv_target_participation (pt_config t)) - raw (pv_tolerance (pt_config t)))"
    "in_i64 (raw (pv_target_participation (pt_config t)) + raw (pv_tolerance (pt_config t)))"
    "in_i64 (raw (pt_current_participation t) - raw (pv_target_participation (pt_config t)))"
    "in_i64 (raw (pv_target_participation (pt_config t)) - raw (pt_current_participation t))"
    "0 \<le> raw (pv_tolerance (pt_config t))"
  shows "get_pace_recommendation t = PaceMaintain \<longleftrightarrow> is_within_tolerance t"
  using assms
  by (auto simp: get_pace_recommendation_def is_within_tolerance_def Let_def fp_sub_clamps fp_add_clamps i64_clamp_id)

lemma our_fills_conserved:
  assumes "\<forall>(q, ts)\<in>set fs. 0 \<le> raw q"
    "0 \<le> raw (pt_remaining_qty t)" "0 \<le> raw (pt_executed_qty t)"
    "in_i64 (raw (pt_remaining_qty t) + raw (pt_executed_qty t))"
  shows "raw (pt_remaining_qty (fold (\<lambda>(q, ts). on_our_fill q ts) fs t)) +
    raw (pt_executed_qty (fold (\<lambda>(q, ts). on_our_fill q ts) fs t)) =
    raw (pt_remaining_qty t) + raw (pt_executed_qty t) \<and>
    0 \<le> raw (pt_remaining_qty (fold (\<lambda>(q, ts). on_our_fill q ts) fs t))"
  using assms
proof (induction fs arbitrary: t)
  case (Cons f fs)
  obtain q ts where f: "f = (q, ts)" by (cases f)
  have q: "0 \<le> raw q" using Cons.prems(1) f by simp
  have "raw (pt_remaining_qty (on_our_fill q ts t)) + raw (pt_executed_qty (on_our_fill q ts t)) =
      raw (pt_remaining_qty t) + raw (pt_executed_qty t) \<and>
      0 \<le> raw (pt_remaining_qty (on_our_fill q ts t)) \<and> 0 \<le> raw (pt_executed_qty (on_our_fill q ts t))"
  proof (cases "raw q \<le> raw (pt_remaining_qty t)")
    case True
    have "i64_clamp (raw (pt_remaining_qty t) - raw q) = raw (pt_remaining_qty t) - raw q"
      "i64_clamp (raw (pt_executed_qty t) + raw q) = raw (pt_executed_qty t) + raw q"
      using True Cons.prems q by (auto intro!: i64_clamp_id simp: in_i64_def)
    then show ?thesis
      using True q Cons.prems by (simp add: on_our_fill_def frame_simps fp_add_clamps fp_sub_clamps)
  qed (use Cons.prems in \<open>simp add: on_our_fill_def\<close>)
  then show ?case using Cons.IH [of "on_our_fill q ts t"] Cons.prems f by simp
qed simp

section \<open>The average price\<close>

record vwap_config =
  vw_target_vwap :: "fixed_point option"
  vw_max_slippage :: fixed_point
  vw_volume_alpha :: fixed_point

record vwap_tracker =
  vt_config :: vwap_config
  vt_total_qty :: fixed_point
  vt_remaining_qty :: fixed_point
  vt_cumulative_notional :: fixed_point
  vt_cumulative_qty :: fixed_point
  vt_current_vwap :: fixed_point
  vt_market_vwap :: "fixed_point option"
  vt_sequence :: u64

definition new_vwap_tracker :: "vwap_config \<Rightarrow> fixed_point \<Rightarrow> vwap_tracker" where
  "new_vwap_tracker cfg total_qty =
     \<lparr>vt_config = cfg, vt_total_qty = total_qty, vt_remaining_qty = total_qty,
      vt_cumulative_notional = from_raw 0, vt_cumulative_qty = from_raw 0, vt_current_vwap = from_raw 0,
      vt_market_vwap = None, vt_sequence = 0\<rparr>"

definition vwap_on_fill :: "fixed_point \<Rightarrow> fixed_point \<Rightarrow> vwap_tracker \<Rightarrow> (string + unit) \<times> vwap_tracker" where
  "vwap_on_fill fill_qty fill_price t =
     (if is_zero fill_qty then (Inl ''Fill quantity cannot be zero'', t)
      else if raw fill_qty > raw (vt_remaining_qty t) then (Inl ''Fill quantity exceeds remaining'', t)
      else
        let fill_notional = fp_mul fill_qty fill_price;
            t1 = t\<lparr>vt_cumulative_notional := fp_add (vt_cumulative_notional t) fill_notional,
                   vt_cumulative_qty := fp_add (vt_cumulative_qty t) fill_qty,
                   vt_remaining_qty := fp_sub (vt_remaining_qty t) fill_qty\<rparr>;
            t2 = (if \<not> is_zero (vt_cumulative_qty t1)
                  then t1\<lparr>vt_current_vwap := fp_div (vt_cumulative_notional t1) (vt_cumulative_qty t1)\<rparr>
                  else t1) in
        (Inr (), t2\<lparr>vt_sequence := vt_sequence t2 + 1\<rparr>))"

definition update_market_vwap :: "fixed_point \<Rightarrow> vwap_tracker \<Rightarrow> vwap_tracker" where
  "update_market_vwap v t = t\<lparr>vt_market_vwap := Some v, vt_sequence := vt_sequence t + 1\<rparr>"

definition get_slippage :: "vwap_tracker \<Rightarrow> fixed_point option" where
  "get_slippage t =
     (case vw_target_vwap (vt_config t) of
        None \<Rightarrow> None
      | Some target \<Rightarrow>
          Some (if is_zero (vt_current_vwap t) then from_raw 0
                else fp_div (fp_abs (fp_sub (vt_current_vwap t) target)) target))"

definition is_within_slippage_bounds :: "vwap_tracker \<Rightarrow> bool" where
  "is_within_slippage_bounds t \<longleftrightarrow>
     (case get_slippage t of None \<Rightarrow> True | Some s \<Rightarrow> raw s \<le> raw (vw_max_slippage (vt_config t)))"

lemma vwap_on_fill_refused:
  "fst (vwap_on_fill q p t) = Inl e \<Longrightarrow> snd (vwap_on_fill q p t) = t"
  by (auto simp: vwap_on_fill_def Let_def split: if_splits)

lemma vwap_on_fill_conserves:
  assumes "0 \<le> raw q" "0 \<le> raw (vt_remaining_qty t)" "0 \<le> raw (vt_cumulative_qty t)"
    "in_i64 (raw (vt_remaining_qty t) + raw (vt_cumulative_qty t))"
  shows "raw (vt_remaining_qty (snd (vwap_on_fill q p t))) + raw (vt_cumulative_qty (snd (vwap_on_fill q p t))) =
      raw (vt_remaining_qty t) + raw (vt_cumulative_qty t)"
    "0 \<le> raw (vt_remaining_qty (snd (vwap_on_fill q p t)))"
    "0 \<le> raw (vt_cumulative_qty (snd (vwap_on_fill q p t)))"
proof -
  have "i64_clamp (raw (vt_remaining_qty t) - raw q) = raw (vt_remaining_qty t) - raw q \<and>
      i64_clamp (raw (vt_cumulative_qty t) + raw q) = raw (vt_cumulative_qty t) + raw q"
    if "raw q \<le> raw (vt_remaining_qty t)"
    using that assms by (auto intro!: i64_clamp_id simp: in_i64_def)
  then show "raw (vt_remaining_qty (snd (vwap_on_fill q p t))) + raw (vt_cumulative_qty (snd (vwap_on_fill q p t))) =
      raw (vt_remaining_qty t) + raw (vt_cumulative_qty t)"
    "0 \<le> raw (vt_remaining_qty (snd (vwap_on_fill q p t)))"
    "0 \<le> raw (vt_cumulative_qty (snd (vwap_on_fill q p t)))"
    using assms by (simp_all add: vwap_on_fill_def Let_def fp_add_clamps fp_sub_clamps)
qed

text \<open>A target price of zero counts as infinitely missed, an average of zero as exactly met.\<close>

lemma slippage_of_zero:
  "vw_target_vwap (vt_config t) = Some (from_raw 0) \<Longrightarrow> \<not> is_zero (vt_current_vwap t) \<Longrightarrow>
     get_slippage t = Some (from_raw i64_max)"
  "vw_target_vwap (vt_config t) = Some target \<Longrightarrow> is_zero (vt_current_vwap t) \<Longrightarrow>
     get_slippage t = Some (from_raw 0)"
  by (simp_all add: get_slippage_def fp_div_def fp_checked_div_def unwrap_or_else_def)

end
