(* ===== verification/Reed_Solomon.thy ===== *)
theory Reed_Solomon
  imports Nexus_Prelude
begin

text \<open>
  The error-correcting code of the DNA archive, \<open>crates/nexus_archive/src/dna/reed_solomon_gf4.rs\<close>, with
  the bases of \<open>nucleotide_base4_encoder.rs\<close>.  The \<open>u8\<close> symbols index tables of four rows, so they are
  natural numbers here; the closure lemmas show that they stay below four.
\<close>

section \<open>The field\<close>

datatype base = BaseA | BaseC | BaseG | BaseT

definition base_from_u8 :: "nat \<Rightarrow> base option" where
  "base_from_u8 v =
     (if v = 0 then Some BaseA else if v = 1 then Some BaseC else if v = 2 then Some BaseG
      else if v = 3 then Some BaseT else None)"

definition base_to_u8 :: "base \<Rightarrow> nat" where
  "base_to_u8 b = (case b of BaseA \<Rightarrow> 0 | BaseC \<Rightarrow> 1 | BaseG \<Rightarrow> 2 | BaseT \<Rightarrow> 3)"

definition GF4_ADD :: "nat list list" where
  "GF4_ADD = [[0, 1, 2, 3], [1, 0, 3, 2], [2, 3, 0, 1], [3, 2, 1, 0]]"

definition GF4_MUL :: "nat list list" where
  "GF4_MUL = [[0, 0, 0, 0], [0, 1, 2, 3], [0, 2, 3, 1], [0, 3, 1, 2]]"

definition GF4_EXP :: "nat list" where
  "GF4_EXP = [1, 2, 3, 1]"

definition gf4_add :: "nat \<Rightarrow> nat \<Rightarrow> nat" where
  "gf4_add a b = GF4_ADD ! a ! b"

definition gf4_mul :: "nat \<Rightarrow> nat \<Rightarrow> nat" where
  "gf4_mul a b = GF4_MUL ! a ! b"

definition gf4_power :: "nat \<Rightarrow> nat" where
  "gf4_power n = (if n = 0 then 1 else GF4_EXP ! ((n - 1) mod 3))"

definition gf4_divide :: "nat \<Rightarrow> nat \<Rightarrow> nat" where
  "gf4_divide a b = (if b = 0 then 0 else let b_inv = gf4_mul b b in gf4_mul a b_inv)"

lemma less_4: "(a :: nat) < 4 \<longleftrightarrow> a = 0 \<or> a = 1 \<or> a = 2 \<or> a = 3"
  by auto

lemma base_from_to [simp]: "base_from_u8 (base_to_u8 b) = Some b"
  by (cases b) (simp_all add: base_from_u8_def base_to_u8_def)

lemma base_to_less [simp]: "base_to_u8 b < 4"
  by (cases b) (simp_all add: base_to_u8_def)

lemma base_from_Some: "v < 4 \<Longrightarrow> \<exists>b. base_from_u8 v = Some b \<and> base_to_u8 b = v"
  by (auto simp: less_4 base_from_u8_def base_to_u8_def)

lemma gf4_closed [simp]:
  "a < 4 \<Longrightarrow> b < 4 \<Longrightarrow> gf4_add a b < 4" "a < 4 \<Longrightarrow> b < 4 \<Longrightarrow> gf4_mul a b < 4"
  by (auto simp: less_4 gf4_add_def gf4_mul_def GF4_ADD_def GF4_MUL_def)

lemma gf4_zero [simp]:
  "a < 4 \<Longrightarrow> gf4_add a 0 = a" "a < 4 \<Longrightarrow> gf4_add 0 a = a" "a < 4 \<Longrightarrow> gf4_add a a = 0"
  "a < 4 \<Longrightarrow> gf4_mul a (Suc 0) = a" "a < 4 \<Longrightarrow> gf4_mul (Suc 0) a = a" "a < 4 \<Longrightarrow> gf4_mul a 0 = 0"
  by (auto simp: less_4 gf4_add_def gf4_mul_def GF4_ADD_def GF4_MUL_def)

lemma gf4_comm:
  "a < 4 \<Longrightarrow> b < 4 \<Longrightarrow> gf4_add a b = gf4_add b a" "a < 4 \<Longrightarrow> b < 4 \<Longrightarrow> gf4_mul a b = gf4_mul b a"
  by (auto simp: less_4 gf4_add_def gf4_mul_def GF4_ADD_def GF4_MUL_def)

lemma gf4_assoc:
  assumes "a < 4" "b < 4" "c < 4"
  shows "gf4_add (gf4_add a b) c = gf4_add a (gf4_add b c)" "gf4_mul (gf4_mul a b) c = gf4_mul a (gf4_mul b c)"
    "gf4_mul a (gf4_add b c) = gf4_add (gf4_mul a b) (gf4_mul a c)"
  using assms by (auto simp: less_4 gf4_add_def gf4_mul_def GF4_ADD_def GF4_MUL_def)

text \<open>The tables make the four symbols a field: commutative and associative addition and
  multiplication with zero and one, distributivity, every symbol its own negative, and division by
  the square undoing multiplication by every symbol but zero.\<close>

theorem gf4_is_field:
  assumes "a < 4" "b < 4" "c < 4"
  shows "gf4_add a b < 4 \<and> gf4_mul a b < 4 \<and>
    gf4_add a b = gf4_add b a \<and> gf4_add (gf4_add a b) c = gf4_add a (gf4_add b c) \<and>
    gf4_add a 0 = a \<and> gf4_add a a = 0 \<and>
    gf4_mul a b = gf4_mul b a \<and> gf4_mul (gf4_mul a b) c = gf4_mul a (gf4_mul b c) \<and>
    gf4_mul a 1 = a \<and> gf4_mul a (gf4_add b c) = gf4_add (gf4_mul a b) (gf4_mul a c) \<and>
    (b \<noteq> 0 \<longrightarrow> gf4_divide (gf4_mul a b) b = a \<and> gf4_mul (gf4_divide a b) b = a)"
proof -
  have "b \<noteq> 0 \<longrightarrow> gf4_divide (gf4_mul a b) b = a \<and> gf4_mul (gf4_divide a b) b = a"
    using assms(1,2) by (auto simp: less_4 gf4_divide_def gf4_mul_def GF4_MUL_def)
  then show ?thesis using assms gf4_comm [of a b] gf4_assoc [OF assms] by simp
qed

lemma gf4_is_field_example: "gf4_mul (gf4_divide 2 3) 3 = 2"
  using gf4_is_field [of 2 3 1] by simp

section \<open>The code\<close>

datatype rs_error =
  InvalidParityCount nat | MessageTooLong nat nat | TooManyErrors | InvalidCodewordLength | RsBufferOverflow

record rs_codec =
  rs_n :: nat
  rs_k :: nat
  rs_t :: nat
  rs_generator :: "nat list"

definition multiply_factor :: "nat list \<Rightarrow> nat \<Rightarrow> nat list" where
  "multiply_factor gen i =
     (let alpha_i = (i - 1) mod 3 + 1;
          new_gen = replicate (length gen + 1) 0;
          new_gen = foldl (\<lambda>g j. g[j + 1 := gf4_mul (gen ! j) 1]) new_gen [0..<length gen] in
      foldl (\<lambda>g j. g[j := gf4_add (g ! j) (gf4_mul (gen ! j) alpha_i)]) new_gen [0..<length gen])"

definition generate_polynomial :: "nat \<Rightarrow> nat list" where
  "generate_polynomial t = foldl multiply_factor [1] [1..<t + 1]"

definition new_rs_codec :: "nat \<Rightarrow> nat \<Rightarrow> rs_error + rs_codec" where
  "new_rs_codec n k =
     (if n > 255 then Inl (MessageTooLong n 255)
      else if k \<ge> n then Inl (InvalidParityCount k)
      else
        let parity = n - k in
        if parity mod 2 \<noteq> 0 then Inl (InvalidParityCount parity)
        else
          let t = parity div 2 in
          Inr \<lparr>rs_n = n, rs_k = k, rs_t = t, rs_generator = generate_polynomial t\<rparr>)"

definition subtract_multiple :: "nat list \<Rightarrow> nat list \<Rightarrow> nat \<Rightarrow> nat list" where
  "subtract_multiple gen remainder i =
     (let coef = remainder ! i in
      if coef \<noteq> 0 then
        foldl (\<lambda>r j. r[i + j := gf4_add (r ! (i + j)) (gf4_mul coef (gen ! j))]) remainder [0..<length gen]
      else remainder)"

definition rs_remainder :: "rs_codec \<Rightarrow> nat list \<Rightarrow> nat list" where
  "rs_remainder c data_elems =
     foldl (subtract_multiple (rs_generator c)) (data_elems @ replicate (rs_n c - rs_k c) 0) [0..<rs_k c]"

fun bases_from_u8 :: "nat list \<Rightarrow> nat + base list" where
  "bases_from_u8 [] = Inr []"
| "bases_from_u8 (v # vs) =
     (case base_from_u8 v of
        None \<Rightarrow> Inl v
      | Some b \<Rightarrow> (case bases_from_u8 vs of Inl e \<Rightarrow> Inl e | Inr bs \<Rightarrow> Inr (b # bs)))"

text \<open>The first \<open>n\<close> symbols of the output buffer, whose length is an argument.\<close>

definition rs_encode :: "rs_codec \<Rightarrow> base list \<Rightarrow> nat \<Rightarrow> rs_error + base list" where
  "rs_encode c data output_len =
     (if length data \<noteq> rs_k c then Inl (MessageTooLong (length data) (rs_k c))
      else if output_len < rs_n c then Inl RsBufferOverflow
      else
        let remainder = rs_remainder c (map base_to_u8 data) in
        case bases_from_u8 (take (rs_n c - rs_k c) (drop (rs_k c) remainder)) of
          Inl v \<Rightarrow> Inl (InvalidParityCount v)
        | Inr parity \<Rightarrow> Inr (data @ parity))"

definition evaluate_at :: "nat \<Rightarrow> nat list \<Rightarrow> nat" where
  "evaluate_at a codeword =
     foldl (\<lambda>sum (j, c). gf4_add sum (gf4_mul c (((\<lambda>p. gf4_mul p a) ^^ j) 1))) 0 (enumerate 0 codeword)"

definition compute_syndromes :: "rs_codec \<Rightarrow> nat list \<Rightarrow> nat list" where
  "compute_syndromes c codeword = map (\<lambda>i. evaluate_at (i mod 3 + 1) codeword) [0..<2 * rs_t c]"

fun single_error_loop :: "nat \<Rightarrow> nat \<Rightarrow> nat list \<Rightarrow> nat list \<Rightarrow> rs_error + nat \<times> nat list" where
  "single_error_loop s1 s2 [] codeword = Inl TooManyErrors"
| "single_error_loop s1 s2 (pos # ps) codeword =
     (if gf4_mul s1 (gf4_power (pos + 1)) = s2
      then Inr (1, codeword[pos := gf4_add (codeword ! pos) s1])
      else single_error_loop s1 s2 ps codeword)"

definition correct_single_error :: "rs_codec \<Rightarrow> nat list \<Rightarrow> nat list \<Rightarrow> rs_error + nat \<times> nat list" where
  "correct_single_error c syndromes codeword =
     (if syndromes = [] \<or> syndromes ! 0 = 0 then Inr (0, codeword)
      else
        let s1 = syndromes ! 0; s2 = (if 1 < length syndromes then syndromes ! 1 else 0) in
        single_error_loop s1 s2 [0..<rs_n c] codeword)"

fun error_values_loop ::
  "nat \<Rightarrow> nat \<Rightarrow> nat \<Rightarrow> nat \<Rightarrow> nat \<Rightarrow> nat \<Rightarrow> (nat \<times> nat) list \<Rightarrow> nat list \<Rightarrow> nat list option" where
  "error_values_loop s1 s2 alpha1 alpha2 pos1 pos2 [] codeword = None"
| "error_values_loop s1 s2 alpha1 alpha2 pos1 pos2 ((e1, e2) # es) codeword =
     (let calc_s1 = gf4_add (gf4_mul e1 alpha1) (gf4_mul e2 alpha2);
          calc_s2 = gf4_add (gf4_mul e1 (gf4_mul alpha1 alpha1)) (gf4_mul e2 (gf4_mul alpha2 alpha2)) in
      if calc_s1 = s1 \<and> calc_s2 = s2 then
        let cw = codeword[pos1 := gf4_add (codeword ! pos1) e1] in
        Some (cw[pos2 := gf4_add (cw ! pos2) e2])
      else error_values_loop s1 s2 alpha1 alpha2 pos1 pos2 es codeword)"

definition try_two_error_correction :: "nat list \<Rightarrow> nat \<Rightarrow> nat \<Rightarrow> nat list \<Rightarrow> nat list option" where
  "try_two_error_correction syndromes pos1 pos2 codeword =
     error_values_loop (syndromes ! 0) (syndromes ! 1) (gf4_power (pos1 + 1)) (gf4_power (pos2 + 1)) pos1 pos2
       [(1, 1), (1, 2), (1, 3), (2, 1), (2, 2), (2, 3), (3, 1), (3, 2), (3, 3)] codeword"

fun pairs_loop :: "nat list \<Rightarrow> (nat \<times> nat) list \<Rightarrow> nat list \<Rightarrow> rs_error + nat \<times> nat list" where
  "pairs_loop syndromes [] codeword = Inl TooManyErrors"
| "pairs_loop syndromes ((i, j) # ps) codeword =
     (case try_two_error_correction syndromes i j codeword of
        Some cw \<Rightarrow> Inr (2, cw)
      | None \<Rightarrow> pairs_loop syndromes ps codeword)"

definition correct_double_error :: "rs_codec \<Rightarrow> nat list \<Rightarrow> nat list \<Rightarrow> rs_error + nat \<times> nat list" where
  "correct_double_error c syndromes codeword =
     (if length syndromes < 4 then Inl TooManyErrors
      else
        let s1 = syndromes ! 0; s2 = syndromes ! 1;
            found_single = (\<forall>i\<in>{2, 3}. syndromes ! i = gf4_mul s1 (gf4_power (i + 1))) in
        if s1 \<noteq> 0 \<and> s2 \<noteq> 0 \<and> found_single then correct_single_error c syndromes codeword
        else pairs_loop syndromes (concat (map (\<lambda>i. map (Pair i) [i + 1..<rs_n c]) [0..<rs_n c])) codeword)"

definition correct_errors :: "rs_codec \<Rightarrow> nat list \<Rightarrow> nat list \<Rightarrow> rs_error + nat \<times> nat list" where
  "correct_errors c syndromes codeword =
     (if rs_t c = 1 then correct_single_error c syndromes codeword
      else if rs_t c = 2 then correct_double_error c syndromes codeword
      else Inl TooManyErrors)"

text \<open>The number of corrected errors with the first \<open>n\<close> symbols of the output buffer.\<close>

definition rs_decode :: "rs_codec \<Rightarrow> base list \<Rightarrow> nat \<Rightarrow> rs_error + nat \<times> base list" where
  "rs_decode c received corrected_len =
     (if length received \<noteq> rs_n c then Inl InvalidCodewordLength
      else if corrected_len < rs_n c then Inl RsBufferOverflow
      else
        let codeword = map base_to_u8 received; syndromes = compute_syndromes c codeword in
        if \<forall>s\<in>set syndromes. s = 0 then
          (case bases_from_u8 codeword of Inl _ \<Rightarrow> Inl InvalidCodewordLength | Inr bs \<Rightarrow> Inr (0, bs))
        else
          (case correct_errors c syndromes codeword of
             Inl e \<Rightarrow> Inl e
           | Inr (k, cw) \<Rightarrow>
               (case bases_from_u8 cw of Inl _ \<Rightarrow> Inl InvalidCodewordLength | Inr bs \<Rightarrow> Inr (k, bs))))"

section \<open>Two parity symbols\<close>

definition symbols :: "nat list \<Rightarrow> bool" where
  "symbols xs \<longleftrightarrow> (\<forall>x\<in>set xs. x < 4)"

definition xsum :: "nat list \<Rightarrow> nat" where
  "xsum xs = foldr gf4_add xs 0"

lemma xsum_simps [simp]: "xsum [] = 0" "xsum (x # xs) = gf4_add x (xsum xs)"
  by (simp_all add: xsum_def)

lemma symbols_simps [simp]:
  "symbols []" "symbols (x # xs) \<longleftrightarrow> x < 4 \<and> symbols xs" "symbols (xs @ ys) \<longleftrightarrow> symbols xs \<and> symbols ys"
  by (auto simp: symbols_def)

lemma symbols_zeros [simp]: "symbols (replicate n 0)"
  by (simp add: symbols_def)

lemma symbols_nth: "symbols xs \<Longrightarrow> i < length xs \<Longrightarrow> xs ! i < 4"
  by (simp add: symbols_def)

lemma symbols_update: "symbols xs \<Longrightarrow> x < 4 \<Longrightarrow> symbols (xs[i := x])"
  by (auto simp: symbols_def dest: set_update_subset_insert [THEN subsetD])

lemma xsum_less [simp]: "symbols xs \<Longrightarrow> xsum xs < 4"
  by (induction xs) auto

lemma xsum_append: "symbols xs \<Longrightarrow> symbols ys \<Longrightarrow> xsum (xs @ ys) = gf4_add (xsum xs) (xsum ys)"
  by (induction xs) (simp_all add: gf4_assoc)

lemma xsum_zeros [simp]: "xsum (replicate n 0) = 0"
  by (induction n) simp_all

lemma xsum_update:
  "symbols xs \<Longrightarrow> i < length xs \<Longrightarrow> d < 4 \<Longrightarrow> xsum (xs[i := gf4_add (xs ! i) d]) = gf4_add (xsum xs) d"
proof (induction xs arbitrary: i)
  case (Cons x xs)
  then show ?case
    by (cases i) (simp_all add: gf4_assoc gf4_comm(1) [of d "xsum xs"])
qed simp

lemma foldl_gf4_add: "symbols xs \<Longrightarrow> a < 4 \<Longrightarrow> foldl gf4_add a xs = gf4_add a (xsum xs)"
  by (induction xs arbitrary: a) (simp_all add: gf4_assoc)

lemma power_of_one: "((\<lambda>p. gf4_mul p (Suc 0)) ^^ j) (Suc 0) = Suc 0"
  by (induction j) (simp_all add: gf4_mul_def GF4_MUL_def)

lemma evaluate_at_one: "symbols xs \<Longrightarrow> evaluate_at 1 xs = xsum xs"
proof -
  have "foldl (\<lambda>sum (j, c). gf4_add sum (gf4_mul c (((\<lambda>p. gf4_mul p 1) ^^ j) 1))) a (enumerate i xs) =
      foldl gf4_add a xs" if "symbols xs" for a i xs
    using that by (induction xs arbitrary: a i) (simp_all add: power_of_one)
  then show "symbols xs \<Longrightarrow> ?thesis"
    by (simp add: evaluate_at_def foldl_gf4_add)
qed

lemma bases_from_map [simp]: "bases_from_u8 (map base_to_u8 bs) = Inr bs"
  by (induction bs) simp_all

lemma bases_from_Inr: "bases_from_u8 vs = Inr bs \<Longrightarrow> vs = map base_to_u8 bs"
  by (induction vs arbitrary: bs)
    (auto simp: base_from_u8_def base_to_u8_def split: option.splits sum.splits if_splits)

lemma bases_from_symbols: "symbols vs \<Longrightarrow> \<exists>bs. bases_from_u8 vs = Inr bs \<and> map base_to_u8 bs = vs"
  by (induction vs) (force dest: base_from_Some)+

lemma symbols_map_base [simp]: "symbols (map base_to_u8 bs)"
  by (simp add: symbols_def)

text \<open>With the generator \<open>x + 1\<close> a step of the division clears one symbol and keeps the sum of all.\<close>

lemma generate_polynomial_1: "generate_polynomial 1 = [1, 1]"
  by (simp add: generate_polynomial_def multiply_factor_def gf4_add_def gf4_mul_def GF4_ADD_def GF4_MUL_def)

lemma subtract_multiple_1:
  assumes "symbols r" "i + 1 < length r"
  shows "subtract_multiple [1, 1] r i = r[i := 0, i + 1 := gf4_add (r ! (i + 1)) (r ! i)]"
proof (cases "r ! i = 0")
  case True
  have "r ! (i + 1) < 4" "r ! i < 4" using assms by (simp_all add: symbols_nth)
  then show ?thesis
    using True list_update_id [of r i] list_update_id [of r "i + 1"]
    by (simp add: subtract_multiple_def)
next
  case False
  have lt: "r ! (i + 1) < 4" "r ! i < 4" using assms by (simp_all add: symbols_nth)
  show ?thesis
    using False lt
    by (simp add: subtract_multiple_def Let_def)
qed

lemma division_invariant:
  assumes "symbols r" "m < length r"
  shows "symbols (foldl (subtract_multiple [1, 1]) r [0..<m]) \<and>
    length (foldl (subtract_multiple [1, 1]) r [0..<m]) = length r \<and>
    take m (foldl (subtract_multiple [1, 1]) r [0..<m]) = replicate m 0 \<and>
    xsum (foldl (subtract_multiple [1, 1]) r [0..<m]) = xsum r"
  using assms(2)
proof (induction m)
  case 0
  then show ?case using assms(1) by simp
next
  case (Suc m)
  let ?r = "foldl (subtract_multiple [1, 1]) r [0..<m]"
  have ih: "symbols ?r" "length ?r = length r" "take m ?r = replicate m 0" "xsum ?r = xsum r"
    using Suc by simp_all
  have lt: "?r ! m < 4" "?r ! (m + 1) < 4" using ih Suc.prems by (simp_all add: symbols_nth)
  have step: "foldl (subtract_multiple [1, 1]) r [0..<Suc m] =
      ?r[m := 0, m + 1 := gf4_add (?r ! (m + 1)) (?r ! m)]"
    using subtract_multiple_1 [OF ih(1), of m] ih(2) Suc.prems by simp
  have zero: "?r[m := 0] = ?r[m := gf4_add (?r ! m) (?r ! m)]"
    using lt by simp
  have sym: "symbols (?r[m := 0])" using ih(1) by (intro symbols_update) simp_all
  have "xsum (?r[m := 0, m + 1 := gf4_add (?r ! (m + 1)) (?r ! m)]) = gf4_add (xsum (?r[m := 0])) (?r ! m)"
    using xsum_update [OF sym, of "m + 1" "?r ! m"] ih(2) Suc.prems lt by simp
  also have "\<dots> = gf4_add (gf4_add (xsum ?r) (?r ! m)) (?r ! m)"
    unfolding zero using xsum_update [OF ih(1), of m "?r ! m"] ih(2) Suc.prems lt by simp
  also have "\<dots> = xsum r"
    using xsum_less [OF assms(1)] ih(4) lt by (simp add: gf4_assoc)
  finally have x: "xsum (?r[m := 0, m + 1 := gf4_add (?r ! (m + 1)) (?r ! m)]) = xsum r" .
  have "take (Suc m) (?r[m := 0, m + 1 := gf4_add (?r ! (m + 1)) (?r ! m)]) = replicate (Suc m) 0"
    using ih(2,3) Suc.prems
    by (simp add: take_Suc_conv_app_nth nth_list_update replicate_append_same flip: replicate_Suc)
  then show ?case
    unfolding step using x sym lt ih(2) by (simp add: symbols_update)
qed

lemma new_rs_codec_one:
  assumes "new_rs_codec n k = Inr c" "rs_t c = 1"
  shows "rs_n c = n" "rs_k c = k" "n = k + 2" "rs_generator c = [1, 1]"
  using assms generate_polynomial_1
  by (auto simp: new_rs_codec_def Let_def split: if_splits)

text \<open>With two parity symbols, a block that arrives without errors is read back: encoding succeeds,
  the codeword starts with the data, and decoding it reports no error and returns the codeword.\<close>

theorem clean_block_read_back:
  assumes "new_rs_codec n k = Inr c" "rs_t c = 1" "length data = k" "n \<le> len" "n \<le> len'"
  shows "\<exists>cw. rs_encode c data len = Inr cw \<and> length cw = n \<and> take k cw = data \<and>
    rs_decode c cw len' = Inr (0, cw)"
proof -
  note c = new_rs_codec_one [OF assms(1,2)]
  let ?d = "map base_to_u8 data"
  let ?r = "foldl (subtract_multiple [1, 1]) (?d @ [0, 0]) [0..<k]"
  have inv: "symbols ?r" "length ?r = k + 2" "take k ?r = replicate k 0" "xsum ?r = xsum (?d @ [0, 0])"
    using division_invariant [of "?d @ [0, 0]" k] assms(3) by simp_all
  have rem: "rs_remainder c ?d = ?r"
    by (simp add: rs_remainder_def c numeral_2_eq_2)
  have sym: "symbols (drop k ?r)"
    using inv(1) append_take_drop_id [of k ?r] symbols_simps(3) by metis
  then obtain parity where p: "bases_from_u8 (drop k ?r) = Inr parity" "map base_to_u8 parity = drop k ?r"
    using bases_from_symbols by blast
  have len: "length parity = 2" using arg_cong [OF p(2), of length] inv(2) by simp
  have enc: "rs_encode c data len = Inr (data @ parity)"
    using assms(3,4) inv(2) p(1) by (simp add: rs_encode_def Let_def rem c)
  have "xsum ?r = xsum (drop k ?r)"
    using xsum_append [of "take k ?r" "drop k ?r"] sym inv(3) by simp
  moreover have "xsum (?d @ [0, 0]) = xsum ?d"
    using xsum_append [of ?d "[0, 0]"] by simp
  ultimately have "xsum (drop k ?r) = xsum ?d" using inv(4) by simp
  then have "xsum (map base_to_u8 (data @ parity)) = 0"
    using xsum_append [of ?d "drop k ?r"] sym p(2) by simp
  then have s1: "evaluate_at 1 (map base_to_u8 (data @ parity)) = 0"
    by (simp only: evaluate_at_one symbols_map_base)
  have syn: "compute_syndromes c (map base_to_u8 (data @ parity)) =
      [0, evaluate_at 2 (map base_to_u8 (data @ parity))]"
    using s1 by (simp add: compute_syndromes_def assms(2) numeral_2_eq_2)
  have "rs_decode c (data @ parity) len' = Inr (0, data @ parity)"
    using assms(3,5) len unfolding rs_decode_def Let_def syn c(1)
    by (simp add: c(3) correct_errors_def assms(2) correct_single_error_def del: map_append)
  then show ?thesis using enc assms(3) len c(3) by (intro exI [of _ "data @ parity"]) simp
qed

lemma clean_block_read_back_example:
  "\<exists>c cw. new_rs_codec 8 6 = Inr c \<and> rs_encode c [BaseA, BaseC, BaseG, BaseT, BaseA, BaseC] 8 = Inr cw \<and>
     rs_decode c cw 8 = Inr (0, cw)"
proof -
  let ?c = "\<lparr>rs_n = 8, rs_k = 6, rs_t = 1, rs_generator = generate_polynomial 1\<rparr>"
  have c: "new_rs_codec 8 6 = Inr ?c" by (simp add: new_rs_codec_def)
  show ?thesis
    using clean_block_read_back [OF c, of "[BaseA, BaseC, BaseG, BaseT, BaseA, BaseC]" 8 8] c by auto
qed

subsection \<open>Errors\<close>

lemma single_error_loop_Inr:
  assumes "single_error_loop s1 s2 ps cw = Inr (m, cw')"
  shows "\<exists>i < length ps. gf4_mul s1 (gf4_power (ps ! i + 1)) = s2 \<and>
    (\<forall>j < i. gf4_mul s1 (gf4_power (ps ! j + 1)) \<noteq> s2) \<and>
    cw' = cw[ps ! i := gf4_add (cw ! (ps ! i)) s1]"
  using assms
proof (induction ps)
  case (Cons p ps)
  show ?case
  proof (cases "gf4_mul s1 (gf4_power (p + 1)) = s2")
    case True
    then show ?thesis using Cons.prems by (intro exI [of _ 0]) auto
  next
    case False
    then obtain i where "i < length ps" "gf4_mul s1 (gf4_power (ps ! i + 1)) = s2"
      "\<forall>j < i. gf4_mul s1 (gf4_power (ps ! j + 1)) \<noteq> s2" "cw' = cw[ps ! i := gf4_add (cw ! (ps ! i)) s1]"
      using Cons by auto
    then show ?thesis using False by (intro exI [of _ "Suc i"]) (auto simp: less_Suc_eq_0_disj)
  qed
qed simp

lemma correct_single_error_prefix:
  assumes "correct_single_error c syn cw = Inr (m, cw')" "3 \<le> p"
  shows "cw' ! p = cw ! p" "length cw' = length cw"
proof -
  have "\<exists>i s. i < 3 \<and> cw' = cw[i := s] \<or> cw' = cw"
  proof (cases "syn = [] \<or> syn ! 0 = 0")
    case True
    then show ?thesis using assms(1) by (simp add: correct_single_error_def)
  next
    case False
    then obtain s1 s2 where "single_error_loop s1 s2 [0..<rs_n c] cw = Inr (m, cw')"
      using assms(1) by (auto simp: correct_single_error_def Let_def)
    from single_error_loop_Inr [OF this] obtain i where
      i: "i < rs_n c" "gf4_mul s1 (gf4_power (i + 1)) = s2" "cw' = cw[i := gf4_add (cw ! i) s1]"
      and first: "\<forall>j < i. gf4_mul s1 (gf4_power (j + 1)) \<noteq> s2"
      by auto
    have "gf4_power (i mod 3 + 1) = gf4_power (i + 1)" by (simp add: gf4_power_def)
    then have "\<not> i mod 3 < i" using first i(2) by metis
    moreover have "i mod 3 < 3" by simp
    ultimately have "i < 3" by (meson leI less_le_trans)
    then show ?thesis using i(3) by blast
  qed
  then show "cw' ! p = cw ! p" "length cw' = length cw"
    using assms(2) by auto
qed

text \<open>C39. The powers of the field repeat after three, so of all positions with the same power only the
  first is tried: with two parity symbols, decoding never changes a symbol from the fourth position on,
  and a block with an error there is never restored.\<close>

theorem late_error_never_corrected:
  assumes "rs_t c = 1" "rs_decode c received len = Inr (m, out)" "3 \<le> p" "p < rs_n c"
  shows "length out = rs_n c \<and> out ! p = received ! p \<and> (sent ! p \<noteq> received ! p \<longrightarrow> out \<noteq> sent)"
proof -
  let ?cw = "map base_to_u8 received"
  have len: "length received = rs_n c"
    using assms(2) by (auto simp: rs_decode_def split: if_splits)
  have "\<exists>cw'. map base_to_u8 out = cw' \<and> cw' ! p = ?cw ! p \<and> length cw' = length ?cw"
  proof (cases "\<forall>s\<in>set (compute_syndromes c ?cw). s = 0")
    case True
    then show ?thesis using assms(2) len by (auto simp: rs_decode_def Let_def split: if_splits)
  next
    case False
    then obtain cw' where "correct_single_error c (compute_syndromes c ?cw) ?cw = Inr (m, cw')"
      "bases_from_u8 cw' = Inr out"
      using assms(1,2) by (auto simp: rs_decode_def Let_def correct_errors_def split: if_splits sum.splits)
    then show ?thesis
      using correct_single_error_prefix [of c _ ?cw m cw' p] assms(3) bases_from_Inr [of cw' out] by auto
  qed
  then obtain cw' where cw': "map base_to_u8 out = cw'" "cw' ! p = ?cw ! p" "length cw' = length ?cw"
    by blast
  have l: "length out = rs_n c" using arg_cong [OF cw'(1), of length] cw'(3) len by simp
  have "map base_to_u8 out ! p = ?cw ! p" unfolding cw'(1) by (rule cw'(2))
  then have "base_to_u8 (out ! p) = base_to_u8 (received ! p)" using assms(4) len l by simp
  then have "out ! p = received ! p"
    by (metis base_from_to option.inject)
  then show ?thesis using l by auto
qed

definition small_codec :: rs_codec where
  "small_codec = \<lparr>rs_n = 8, rs_k = 6, rs_t = 1, rs_generator = [1, 1]\<rparr>"

text \<open>The block and the error of the module's own test: another symbol is changed instead.\<close>

lemma small_codec_decodes:
  "rs_decode small_codec [BaseA, BaseC, BaseG, BaseG, BaseA, BaseC, BaseC, BaseA] 8 =
     Inr (1, [BaseA, BaseC, BaseT, BaseG, BaseA, BaseC, BaseC, BaseA])"
  by code_simp

theorem late_error_never_corrected_witness:
  "\<exists>m out. rs_decode small_codec [BaseA, BaseC, BaseG, BaseG, BaseA, BaseC, BaseC, BaseA] 8 = Inr (m, out) \<and>
     length out = 8 \<and> out ! 3 = BaseG \<and> out \<noteq> [BaseA, BaseC, BaseG, BaseT, BaseA, BaseC, BaseC, BaseA]"
  using late_error_never_corrected [OF _ small_codec_decodes, of 3
      "[BaseA, BaseC, BaseG, BaseT, BaseA, BaseC, BaseC, BaseA]"] small_codec_decodes
  by (simp add: small_codec_def)

text \<open>
  With four parity symbols the division assumes a leading coefficient of one at the wrong end of the
  generator, so a codeword is no multiple of it, and a clean block is corrupted by its own decoding.
\<close>

lemma four_parity_symbols_corrupt_clean_block:
  "\<exists>c cw out. new_rs_codec 6 2 = Inr c \<and> rs_encode c [BaseA, BaseC] 6 = Inr cw \<and>
     rs_decode c cw 6 = Inr (2, out) \<and> take 2 out \<noteq> [BaseA, BaseC]"
proof -
  have "(case new_rs_codec 6 2 of Inl e \<Rightarrow> False
      | Inr c \<Rightarrow> (case rs_encode c [BaseA, BaseC] 6 of Inl e \<Rightarrow> False
          | Inr cw \<Rightarrow> (case rs_decode c cw 6 of Inl e \<Rightarrow> False
              | Inr (m, out) \<Rightarrow> m = 2 \<and> take 2 out \<noteq> [BaseA, BaseC])))"
    by code_simp
  then show ?thesis by (auto split: sum.splits)
qed

end
