(* ===== verification/Spec2Isabelle.thy ===== *)
theory Spec2Isabelle
  imports Live_Gate Reg_Sho Rlp_Decoder Audit_Merkle Wash_Trade Swarm_Engine Shadow_Ledger Htlc_Swap Spsc_Ring Book_Swap Snapshot_Fetcher Live_Oms Order_Queues Position_Tracker Pre_Trade_Filter Pre_Trade_Interceptor
    Kill_Switch Breakers Loss_Velocity Ring_Concurrent Lob_Reconstructor Sequence_Healer
    Swim_Gossip Oms_Replicator Fencing Master_State Reconciliation Legging_Resolver Fix_Parser Mifid_Tick
    Throttle_Threads Margin_Tracker Dark_Pool Mqtt_Parser Telemetry_Frame Client_Guillotine Sor_Engine Exec_Algos Reed_Solomon
begin

text \<open>
  The order path of the trading system, from the order book through the risk checks to the
  book-keeping of orders, and the consensus that decides which node may trade.

  \<^bold>\<open>The program.\<close>  The Rust workspace under \<open>crates/\<close> has some sixty crates.  Those that a trade
  passes are modelled: \<open>nexus_core\<close> hands messages from the network to the consumers;
  \<open>nexus_orderbook\<close> rebuilds the book of an exchange from a stream of changes and detects lost
  ones; \<open>nexus_risk\<close> decides whether an order may be sent, watches losses and rates, and
  liquidates the position when the system is stopped; \<open>nexus_oms\<close> keeps the orders that were sent,
  applies the reports of the exchange to them, and detects cancels that race with fills;
  \<open>nexus_swarm\<close> elects the node that may sign orders and replicates its log;
  \<open>nexus_orchestrator\<close> boots the system and lets it go live; \<open>nexus_brokerage\<close>
  keeps a shadow of the brokers' books, reads their messages, which \<open>nexus_adapters\<close> writes, and trades
  in dark pools, \<open>nexus_routing\<close> chooses the venue and \<open>nexus_execution\<close> splits the order,
  \<open>nexus_reconcile\<close> compares the orders with the exchange, \<open>nexus_portfolio\<close> watches the margin and the
  two legs of an arbitrage, and \<open>nexus_web3\<close> swaps assets across chains.  Around them
  \<open>nexus_telemetry\<close> frames messages for clients and drops slow ones, \<open>nexus_iot\<close> parses messages of
  sensors, and \<open>nexus_archive\<close> protects stored data by a code.  All of it works on integers and on
  atomic cells.

  \<^bold>\<open>The library.\<close>
    \<^item> \<open>Nexus_Prelude\<close>: machine integers (an \<open>i64\<close> is an \<open>int\<close> reduced by \<open>s64\<close>, an \<open>i128\<close> by
      \<open>s128\<close>, an unsigned integer is a word), checked and saturating arithmetic, panics as values,
      lemmas on lists and words.
    \<^item> \<open>Interfaces\<close>: the contracts between components as locales - a machine with an invariant, a
      store that is filled, a price gate, a first-in-first-out queue, a store of records in
      numbered slots with sums over its records, quorums that intersect.  Each is interpreted on the definitions of the
      component that provides it.
    \<^item> \<open>Cas_Loop\<close>: threads that run compare-and-exchange loops on one cell, interleaved by an
      arbitrary schedule in which a weak exchange may fail; its theorem says that every run is
      linearized by the successful exchanges.

  \<^bold>\<open>nexus_oms.\<close>
    \<^item> \<open>Order_State\<close> (\<open>state_machine/order_state.rs\<close>): orders, the table of transitions, fills,
      the purge queue.  The hash map of orders is a partial map, the purge queue a list of
      (id, deadline), \<open>swap_remove\<close> is an operation on that list that panics out of range.
      Shown: quantities balance, exactly the terminal orders are queued, all state changes follow
      the table, the purge deletes exactly the expired orders and never panics.
    \<^item> \<open>Execution_Reports\<close> (\<open>reconciliation/execution_report_handler.rs\<close>): duplicate detection
      by sequence numbers, pending cancels, one handler per type of report.  Shown: in-order
      reports are applied at most once, fills win against later cancel acknowledgements; late
      reports are not remembered and can be applied twice.
    \<^item> \<open>Race_Resolver\<close> (\<open>reconciliation/race_condition_resolver.rs\<close>) and \<open>Live_Oms\<close>
      (\<open>lib.rs\<close>): the resolver's decision table and bounded histories, and the facade that sends
      each operation to the three parts.  Shown: no sequence of calls panics, the verdict of the
      resolver influences nothing.
    \<^item> \<open>Fixed_Point\<close> (\<open>fixed_point_math.rs\<close>), \<open>Order_Queues\<close> (\<open>order_state_machine.rs\<close>) and
      \<open>Position_Tracker\<close> (\<open>lock_free_position_tracker.rs\<close>): the lock-free part of the crate.
      \<open>SegQueue\<close> is a third-party queue: a parameter, with its first-in-first-out contract as a
      hypothesis.  Shown: exactness of checked products, margin reservations and fills are exact
      in every interleaving, the average price is not.

  \<^bold>\<open>nexus_risk.\<close>
    \<^item> \<open>Price_Bands\<close>, \<open>Position_Limits\<close>, \<open>Pre_Trade_Filter\<close> (\<open>gatekeeper/price_collar.rs\<close>,
      \<open>fat_finger_collars.rs\<close>, \<open>position_accumulator.rs\<close>, \<open>pre_trade_filter.rs\<close>): the checks of
      the gatekeeper.  Shown: which prices and positions pass, in exact arithmetic; that the
      gatekeeper approves exactly the orders that pass every check, counts each validation once,
      and approves nothing while the kill switch is active.
    \<^item> \<open>Ring_Queue\<close>, \<open>Pre_Trade_Interceptor\<close> (\<open>gatekeeper/lock_free_order_queue.rs\<close>,
      \<open>pre_trade_interceptor.rs\<close>): the ring buffer, which refines a bounded list for calls that do
      not overlap, and the interceptor that queues every approved order on it.
    \<^item> \<open>Kill_Switch\<close> (\<open>kill_switch/\<close>): the switch, the ordered flatten sequence, the router that
      liquidates a position in slices and finishes within its number of slices.
    \<^item> \<open>Breakers\<close>, \<open>Loss_Velocity\<close> (\<open>breakers/\<close>): the global state machine, in which Dead is
      final against any interference; the token bucket; the velocity of losses over a circular window.
    \<^item> \<open>Throttle_Threads\<close> (\<open>breakers/token_bucket_throttle.rs\<close>): threads in \<open>try_consume\<close> step by step,
      with the refill.  Shown: at the rates at which the refill adds nothing, no token is spent twice in
      any interleaving; from \<open>10 ^ 9\<close> tokens per second on, the refill's plain store undoes what another
      thread has taken.

  \<^bold>\<open>nexus_orderbook.\<close>
    \<^item> \<open>L3_Slab\<close> (\<open>l3_slab_allocator.rs\<close>): 65536 records with a free list and doubly linked level
      lists in the same index fields.  Shown: the free list is exactly the unoccupied slots, links
      go both ways, the slab refines a finite map, the renumbering loop ends on any list.
    \<^item> \<open>Price_Ladder\<close> (\<open>price_ladder.rs\<close>): 256 price levels of one side.  Shown: a reported best
      price is the best one; it is lost when the best level empties; what additions and removals
      leave in a level, with the wrapping arithmetic and its range.
    \<^item> \<open>Lob_Reconstructor\<close> (\<open>lob_reconstructor.rs\<close>): the handlers of the deltas on two ladders and
      a slab.  Shown: level 2 is the aggregate of level 3 for deltas that fit the book; a partial
      fill breaks this.
    \<^item> \<open>Sequence_Healer\<close> (\<open>l2/sequence_healer.rs\<close>): the check of update ids.  Shown: accepted
      updates are consecutive, a lost update is never healed by later ones, a pause lasts until
      it is lifted.

    \<^item> \<open>Snapshot_Fetcher\<close> (\<open>l2/rest_snapshot_fetcher.rs\<close>) and \<open>Book_Swap\<close>
      (\<open>l2/atomic_book_swap.rs\<close>): the retries and the circuit breaker of the snapshot client, the
      server's answers being a parameter, and the replacement of the book.  Shown: a fetch ends
      after few requests, readers never see a crossed book; an older book is accepted.

  \<^bold>\<open>nexus_core.\<close>
    \<^item> \<open>Spsc_Ring\<close> (\<open>concurrency/spsc_ring.rs\<close>): the byte ring between two threads.  Shown: the
      first message arrives as it was sent; the second push waits forever.
    \<^item> \<open>Master_State\<close> (\<open>orchestrator/master_state_machine.rs\<close>): the states of the system behind a
      lock flag, as a function and as the atomic steps of any number of threads, which refine it.
      Resets and chaos mode are steps too.  Shown: at most one thread is inside a transition, the history
      follows the table as long as chaos mode was never on, live execution is entered from the shadow
      only; a reset, which takes no lock, can fall into that transition; a command that meets another is
      refused, also a halt, and a veto leaves the catastrophic failure.

  \<^bold>\<open>nexus_swarm.\<close>
    \<^item> \<open>Swarm_Types\<close> (\<open>lib.rs\<close>) and \<open>Leader_Election\<close> (\<open>raft/leader_election.rs\<close>): one node with its
      handlers, and around it a network that keeps every message.  Shown: no term has two
      leaders, in every run of fewer than 2^64 steps, because two majorities share a voter.
    \<^item> \<open>Leader_Lease\<close> (\<open>gating/leader_lease_token.rs\<close>): leases in a store, the gate that checks
      them, signing calls of two steps.  Shown: revocation is final, only granted leases sign, an
      expired lease needs a renewal; a signature can follow a revocation.
    \<^item> \<open>Raft_Log\<close> (\<open>replication/lock_free_raft_log.rs\<close>): the ring of log entries.  Shown: which
      entry every index reads; what a rejected entry, a full ring and a truncation leave behind.
    \<^item> \<open>Oms_Replicator\<close> (\<open>replication/oms_state_replicator.rs\<close>, \<open>log_compaction_snapshot.rs\<close>): the state
      of the orders that replicas compute from the log, and the snapshots that truncate it.
      Shown: a replica holds what was recorded as long as the ring has not wrapped, and otherwise
      counts changes again; it is never taken for caught up before a compaction, and falsely
      after one.
    \<^item> \<open>Swim_Gossip\<close> (\<open>gossip/swim_protocol.rs\<close>): the membership protocol with the lock around its
      members.  Shown: exactly when a call hangs - the first suspicion, confirmed death or leave
      freezes the protocol - and that no failure is ever announced; nobody joins.
    \<^item> \<open>Fence_Executor\<close> (\<open>fencing/stonith_executor.rs\<close>): the executor that asks the witnesses to cut off
      the last leader.  Shown: when a call succeeds; every other call is refused.
    \<^item> \<open>Swarm_Engine\<close> (\<open>raft/heartbeat_monitor.rs\<close>, \<open>raft/mod.rs\<close>): the engine over election, lease,
      log and executor, whose state it holds.  Shown: trades need an unexpired lease, for whose term
      the executor cut off the leader of the term before; elections are neither started nor needed.
    \<^item> \<open>Fencing\<close> (\<open>fencing/\<close>): what the executor means for the engine, the quorum witness, the termination protocol and the manager of hardware fencing; the answers of
      the witnesses are parameters.  Shown: the first takeover of leadership is always refused,
      because the test of the executor's flag is inverted, and later calls alternate; one
      candidate per term has a quorum of distinct witnesses; whoever sees a node terminating sees
      its orders cancelled; the manager leaves no node confirmed, so that leadership over a
      conflicting node is never granted when confirmations are required.

  \<^bold>\<open>nexus_brokerage, nexus_web3.\<close>
    \<^item> \<open>Shadow_Ledger\<close> (\<open>ledger/shadow_double_entry.rs\<close>): debits and credits step by step and as
      functions.  Shown: alone they agree and accounts are never overdrawn; overlapping debits
      can be lost; the integrity check rejects every account opened with money.
    \<^item> \<open>Htlc_Swap\<close> (\<open>cross_chain/htlc_atomic_swap.rs\<close>): the swap with the hash function as a
      parameter.  Shown: a known secret opens the lock, no refund before the expiry, time for the
      second leg; claim and refund do not exclude each other.
    \<^item> \<open>Rlp_Decoder\<close> (\<open>evm/zero_copy_rlp_decoder.rs\<close>): the decoder of transactions.  Shown: no
      input makes it panic; which strings are read back from their encoding, and which are not.

  \<^bold>\<open>nexus_adapters, and the FIX messages of nexus_brokerage.\<close>
    \<^item> \<open>Fix_Encoder\<close> (\<open>zero_alloc_buffer_writer.rs\<close>, \<open>fix_binary_encoder.rs\<close>): the buffer with unchecked
      writes, whose extent is modelled, and the encoder of orders on it.  Shown: writes and
      resets to positions inside the array keep everything in range, a reset beyond it does not;
      prices are printed exactly; every order message that is built is a checksum field alone.
    \<^item> \<open>Fix_Parser\<close> (\<open>dark_pools/fix_tag_value_parser.rs\<close>): the parser of such messages.  Shown: it
      never panics and ends on every input; the fields of the encoder are read back; a message
      with the prescribed checksum is always rejected.

  \<^bold>\<open>nexus_brokerage, nexus_routing, nexus_execution.\<close>
    \<^item> \<open>Dark_Pool\<close> (\<open>dark_pools/ioi_state_machine.rs\<close>, \<open>conditional_pegging.rs\<close>): indications of interest
      as a state machine, and prices pegged to the best quote.  Shown: what every reachable indication has
      behind it; a pegged price lies inside the spread of a fresh quote and improves on it.
    \<^item> \<open>Sor_Engine\<close> (\<open>sor_engine.rs\<close>): the table of venues, their scores, the choice of a venue and the
      split of an order.  Shown: a split covers the order up to the liquidity; the choice takes the lowest
      price, also for a sale.
    \<^item> \<open>Exec_Algos\<close> (\<open>algos/child_order_generator.rs\<close>, \<open>pov_vwap_tracker.rs\<close>): child orders and the
      trackers of volume and average price.  Shown: fills and remainder are the parent quantity; the
      moving average stays between its values.

  \<^bold>\<open>nexus_telemetry, nexus_iot, nexus_archive.\<close>
    \<^item> \<open>Telemetry_Frame\<close> (\<open>broadcast/binary_schema_registry.rs\<close>): frame headers and the registry of
      schemas.  Shown: a header is read exactly from what is written for it.
    \<^item> \<open>Client_Guillotine\<close> (\<open>backpressure/slow_client_guillotine.rs\<close>): the clients that are too slow.
      Shown: the messages that count as pending are all that were ever dropped.
    \<^item> \<open>Mqtt_Parser\<close> (\<open>protocols/zero_alloc_mqtt_parser.rs\<close>): the packet parser with its unchecked slices.
      Shown: no slice leaves the buffer; every packet that follows the protocol is read back.
    \<^item> \<open>Reed_Solomon\<close> (\<open>dna/reed_solomon_gf4.rs\<close>): the field of four symbols, encoder and decoder.  Shown:
      the tables are a field; clean blocks are read back with two parity symbols and corrupted with four;
      errors from the fourth symbol on are never corrected.

  \<^bold>\<open>nexus_reconcile, nexus_portfolio.\<close>
    \<^item> \<open>Reconciliation\<close> (\<open>ledger/\<close>): the published state of the orders with a reader that retries, the
      detector of drift and phantom fills on it, and the loop of the poller; the answers of the
      exchange are a parameter.  Shown: for every schedule of updates, exactly when the reader
      returns; after an odd number of updates it waits for the next; when the kill switch is
      triggered; rate limits stop the poller for good.
    \<^item> \<open>Legging_Resolver\<close> (\<open>arb/atomic_legging_resolver.rs\<close>): two legs that must both be filled.
      Shown: over all histories of a trade, an orphan is detected exactly if a rejection follows
      the fill of the other leg; the reverse order is missed.
    \<^item> \<open>Margin_Tracker\<close> (\<open>margin/\<close>, \<open>arb/orphan_leg_sor_router.rs\<close>): fixed-point profits, the states of
      the margin, the tracker that halts new entries, the router of an orphaned leg.  Shown: entries are
      halted by hysteresis over the ratio, but never for an equity above about 170 units, where the ratio
      overflows.

  \<^bold>\<open>nexus_orchestrator.\<close>
    \<^item> \<open>Lifecycle\<close> (\<open>lifecycle/\<close>): the state machine of the whole system in an atomic byte, health
      checks with retries, the boot stages.  Shown: without forced transitions live trading is
      reached through shadow mode and the checks only; what a series of retries returns and how
      long it pauses; booting looks at timers only.
    \<^item> \<open>Live_Gate\<close> (\<open>preflight/\<close>, \<open>lib.rs\<close>): the checklist, the gate with the live flag,
      promotion, shutdown and halt, as functions and as interleaved threads of atomic steps.
      Shown: in every interleaving an open gate means live trading once no promotion is in
      flight, a lockdown holds back whatever has not tested it, and no trading without a
      checklist that can proceed; races leave the gate open in a halt, or closed when live.

  \<^bold>\<open>nexus_legal.\<close>
    \<^item> \<open>Audit_Merkle\<close> (\<open>audit/lock_free_merkle.rs\<close>): the encoding of events and the hash tree over
      them, the hash function being a parameter.  Shown: every event has a valid proof, the root
      commits to the encoded events but not to the events.
    \<^item> \<open>Tarjan_Detector\<close> (\<open>mar/tarjan_cycle_detector.rs\<close>): the search for strongly connected
      components with its explicit stack.  Shown: it ends within fuel that is linear in the graph,
      and reports no component of any graph.
    \<^item> \<open>Wash_Trade\<close> (\<open>mar/wash_trade_graph.rs\<close>): the graphs of executions that are searched.
      Shown: they are acyclic as long as no execution is recorded twice; no alert is ever raised.
    \<^item> \<open>Rule_Dag\<close> (\<open>compliance/dag_rule_engine.rs\<close>): rules as a graph that is sorted
      topologically and evaluated from the leaves.  Shown: on an acyclic graph sorting ends and
      the evaluation computes the one solution of the equations of the rules; a group made by the
      builder ignores its flags.
    \<^item> \<open>Reg_Sho\<close> (\<open>compliance/regsho_locator.rs\<close>): locates, tick test and restrictions of short
      sales.  Shown: what a use takes from the locates, also when it fails; the tick test follows
      the last move of the price.
    \<^item> \<open>Mifid_Tick\<close> (\<open>compliance/mifid_tick_size.rs\<close>): tick size tables and the comparison of an
      execution with the quotes of other venues.  Shown: rounded prices comply when bands start at
      multiples of their tick; purchases are compared with the best recent quote, sales with none.

  \<^bold>\<open>Conventions.\<close>  The release profile has no overflow checks, so arithmetic wraps; a panic is
  \<open>Inl\<close> of a \<open>panic\<close>, an error of the code \<open>Inl\<close> of its own error type.  A clock reading is an
  argument.  Memory orderings weaker than sequential consistency, statistics counters read by
  other threads, and log output are left out.

  \<^bold>\<open>Fuel.\<close>  A loop that retries carries fuel and answers \<open>None\<close> without it.  Operations of the
  ring queue return with fuel 1 when calls do not overlap; the transition of the global machine
  and the consuming loop return with fuel 1 when no other thread interferes, and the theorems
  on interference hold for every fuel; the audit loop needs more fuel than the queue has items; the
  cycle search needs \<open>search_fuel\<close>, linear in nodes and edges, the sorting of the rules one step
  per node; the FIX parser recurses on the bytes that are left.  A reader that retries until it
  succeeds, \<open>snapshot_blocking\<close>, is a partial function into \<open>option\<close> whose value \<open>None\<close> is not
  returning, and its theorem says exactly when it returns.
  The refill loop of the token bucket may really spin, and \<open>refill_livelock\<close> shows it.

  \<^bold>\<open>Not modelled.\<close>  Floating-point code (the statistical parts of \<open>nexus_risk\<close>, conversions
  for display, the parsing of the exchange's answers, pricing, schedules over market profiles), the
  adaptive suspicion timeouts of \<open>nexus_swarm\<close>, statistics that nothing uses, the research
  crates, and everything that only moves bytes in or out: HTTP requests, their signatures,
  sockets and files.
\<close>

end
